(* ===== verification/Prelude.thy ===== *)
theory Prelude
  imports Main "HOL-Library.Word" "HOL-Library.AList"
begin

text \<open>
  Shared material of the RMDB development: the error classes of \<^verbatim>\<open>errors.h\<close>, the ways a
  call can end (a value or an exception, with the state kept), little-endian integers as byte
  lists, byte-range reads and writes (\<^verbatim>\<open>memcpy\<close>), decimal printing and parsing, and the
  constants of \<^verbatim>\<open>config.h\<close>. The lemma collection \<open>bytes_simps\<close> carries the facts about byte
  ranges that the page, log and index proofs use.
\<close>

unbundle bit_operations_syntax

named_theorems bytes_simps

section \<open>Types and constants of the program\<close>

type_synonym byte = "8 word"
type_synonym txn_id_t = int
type_synonym lsn_t = int
type_synonym page_id_t = int
type_synonym frame_id_t = nat

definition INVALID_PAGE_ID :: int where "INVALID_PAGE_ID = -1"
definition INVALID_TXN_ID :: int where "INVALID_TXN_ID = -1"
definition INVALID_LSN :: int where "INVALID_LSN = -1"
definition PAGE_SIZE :: nat where "PAGE_SIZE = 4096"
definition LOG_BUFFER_SIZE :: nat where "LOG_BUFFER_SIZE = 1024 * PAGE_SIZE"
definition BUFFER_LENGTH :: nat where "BUFFER_LENGTH = 8192"

definition INT_MAX :: int where "INT_MAX = 2147483647"
definition INT_MIN :: int where "INT_MIN = -2147483648"
definition INT64_MAX :: int where "INT64_MAX = 9223372036854775807"
definition INT64_MIN :: int where "INT64_MIN = -9223372036854775808"

definition in_int :: "int \<Rightarrow> bool" where
  "in_int x \<longleftrightarrow> INT_MIN \<le> x \<and> x \<le> INT_MAX"

datatype ColType = TYPE_INT | TYPE_FLOAT | TYPE_BIGINT | TYPE_STRING | TYPE_DATETIME

fun coltype2str :: "ColType \<Rightarrow> string" where
  "coltype2str TYPE_INT = ''INT''"
| "coltype2str TYPE_FLOAT = ''FLOAT''"
| "coltype2str TYPE_BIGINT = ''BIGINT''"
| "coltype2str TYPE_STRING = ''STRING''"
| "coltype2str TYPE_DATETIME = ''DATETIME''"

record Rid =
  rid_page_no :: int
  rid_slot_no :: int

text \<open>A 32-bit \<^verbatim>\<open>int\<close> computation, wrapping in two's complement where it overflows.\<close>

definition c_int :: "int \<Rightarrow> int" where
  "c_int x = sint (word_of_int x :: 32 word)"

lemma c_int_id: "in_int x \<Longrightarrow> c_int x = x"
  by (simp add: c_int_def in_int_def INT_MIN_def INT_MAX_def sint_sbintrunc'
      signed_take_bit_int_eq_self)

text \<open>C division and remainder truncate towards zero.\<close>

definition cdiv :: "int \<Rightarrow> int \<Rightarrow> int" where
  "cdiv a b = sgn a * sgn b * (\<bar>a\<bar> div \<bar>b\<bar>)"

definition cmod :: "int \<Rightarrow> int \<Rightarrow> int" where
  "cmod a b = a - cdiv a b * b"

lemma cdiv_nonneg: "0 \<le> a \<Longrightarrow> 0 < b \<Longrightarrow> cdiv a b = a div b"
  by (cases "a = 0") (simp_all add: cdiv_def)

lemma cmod_nonneg: "0 \<le> a \<Longrightarrow> 0 < b \<Longrightarrow> cmod a b = a mod b"
  by (simp add: cmod_def cdiv_nonneg minus_div_mult_eq_mod)

section \<open>Decimal numbers\<close>

definition digit_char :: "nat \<Rightarrow> char" where
  "digit_char d = char_of (48 + d)"

definition char_digit :: "char \<Rightarrow> nat" where
  "char_digit c = of_char c - 48"

definition isdigit :: "char \<Rightarrow> bool" where
  "isdigit c \<longleftrightarrow> 48 \<le> (of_char c :: nat) \<and> (of_char c :: nat) \<le> 57"

fun nat_to_string :: "nat \<Rightarrow> string" where
  "nat_to_string n =
     (if n < 10 then [digit_char n] else nat_to_string (n div 10) @ [digit_char (n mod 10)])"

declare nat_to_string.simps [simp del]

definition to_string :: "int \<Rightarrow> string" where
  "to_string i = (if i < 0 then CHR ''-'' # nat_to_string (nat (- i)) else nat_to_string (nat i))"

definition digits_val :: "string \<Rightarrow> nat" where
  "digits_val s = foldl (\<lambda>acc c. 10 * acc + char_digit c) 0 s"

text \<open>\<^verbatim>\<open>%0kd\<close> of a non-negative number, zero-filled to width \<open>k\<close>.\<close>

definition zero_pad :: "nat \<Rightarrow> nat \<Rightarrow> string" where
  "zero_pad k n = (let s = nat_to_string n in replicate (k - length s) (CHR ''0'') @ s)"

lemma of_char_digit_char [simp]: "d < 10 \<Longrightarrow> (of_char (digit_char d) :: nat) = 48 + d"
  by (simp add: digit_char_def)

lemma isdigit_digit_char [simp]: "d < 10 \<Longrightarrow> isdigit (digit_char d)"
  by (simp add: isdigit_def)

lemma char_digit_digit_char [simp]: "d < 10 \<Longrightarrow> char_digit (digit_char d) = d"
  by (simp add: char_digit_def)

lemma digit_char_char_digit [simp]: "isdigit c \<Longrightarrow> digit_char (char_digit c) = c"
  by (simp add: isdigit_def digit_char_def char_digit_def)

lemma char_digit_less [simp]: "isdigit c \<Longrightarrow> char_digit c < 10"
  unfolding isdigit_def char_digit_def by linarith

lemma digit_char_0: "digit_char 0 = CHR ''0''"
  by (simp add: digit_char_def char_of_def bit_0)

lemma digits_val_snoc [simp]: "digits_val (s @ [c]) = 10 * digits_val s + char_digit c"
  by (simp add: digits_val_def)

lemma digits_val_Nil [simp]: "digits_val [] = 0"
  by (simp add: digits_val_def)

lemma nat_to_string_add:
  "d < 10 \<Longrightarrow> nat_to_string (10 * m + d) =
     (if m = 0 then [digit_char d] else nat_to_string m @ [digit_char d])"
  by (simp add: nat_to_string.simps[of "10 * m + d"])

lemma zero_pad_snoc:
  assumes "0 < k" and "d < 10"
  shows "zero_pad (Suc k) (10 * m + d) = zero_pad k m @ [digit_char d]"
proof (cases "m = 0")
  case True
  have "zero_pad k 0 = replicate k (CHR ''0'')"
    using assms(1) by (cases k)
      (simp_all add: zero_pad_def nat_to_string.simps[of 0] digit_char_0
        flip: replicate_append_same)
  with True assms show ?thesis
    using nat_to_string_add[of d 0] by (simp add: zero_pad_def)
next
  case False
  with assms(2) show ?thesis
    by (simp add: zero_pad_def nat_to_string_add Let_def)
qed

lemma zero_pad_one: "d < 10 \<Longrightarrow> zero_pad 1 d = [digit_char d]"
  by (simp add: zero_pad_def nat_to_string.simps)

lemma zero_pad_digits_val:
  "list_all isdigit ds \<Longrightarrow> ds \<noteq> [] \<Longrightarrow> zero_pad (length ds) (digits_val ds) = ds"
proof (induction ds rule: rev_induct)
  case Nil
  then show ?case by simp
next
  case (snoc c ds)
  show ?case
  proof (cases "ds = []")
    case True
    with snoc.prems show ?thesis
      using zero_pad_one[of "char_digit c"] digits_val_snoc[of "[]" c] by simp
  next
    case False
    with snoc show ?thesis
      using zero_pad_snoc[of "length ds" "char_digit c" "digits_val ds"] by simp
  qed
qed

lemma zero_pad_ok:
  "0 < k \<Longrightarrow> n < 10 ^ k \<Longrightarrow>
   length (zero_pad k n) = k \<and> list_all isdigit (zero_pad k n) \<and> digits_val (zero_pad k n) = n"
proof (induction k arbitrary: n)
  case 0
  then show ?case by simp
next
  case (Suc k)
  show ?case
  proof (cases "k = 0")
    case True
    with Suc.prems show ?thesis
      using zero_pad_one[of n] digits_val_snoc[of "[]" "digit_char n"] by simp
  next
    case False
    have d: "n mod 10 < 10" and e: "n = 10 * (n div 10) + n mod 10" by auto
    have "n div 10 < 10 ^ k" using Suc.prems by (simp add: less_mult_imp_div_less mult.commute)
    with Suc.IH False have IH: "length (zero_pad k (n div 10)) = k"
      "list_all isdigit (zero_pad k (n div 10))" "digits_val (zero_pad k (n div 10)) = n div 10"
      by auto
    have "zero_pad (Suc k) n = zero_pad k (n div 10) @ [digit_char (n mod 10)]"
      using zero_pad_snoc[of k "n mod 10" "n div 10"] False by simp
    with IH d show ?thesis by simp
  qed
qed

section \<open>Errors\<close>

datatype rmdb_error =
    InternalError string
  | UnixError string
  | FileNotOpenError int
  | FileNotClosedError string
  | FileExistsError string
  | FileNotFoundError string
  | RecordNotFoundError int int
  | InvalidRecordSizeError int
  | InvalidColLengthError int
  | IndexEntryNotFoundError
  | DatabaseNotFoundError string
  | DatabaseExistsError string
  | TableNotFoundError string
  | TableExistsError string
  | ColumnNotFoundError string
  | IndexNotFoundError string "string list"
  | IndexExistsError string "string list"
  | InvalidValueCountError
  | StringOverflowError
  | IntegerOverflowError
  | InvalidDateTimeError
  | IncompatibleTypeError string string
  | AmbiguousColumnError string
  | PageNotExistError string int

fun join_names :: "string list \<Rightarrow> string" where
  "join_names [] = ''''"
| "join_names [c] = c"
| "join_names (c # cs) = c @ '', '' @ join_names cs"

fun error_msg :: "rmdb_error \<Rightarrow> string" where
  "error_msg (InternalError msg) = msg"
| "error_msg (UnixError msg) = msg"
| "error_msg (FileNotOpenError fd) = ''Invalid file descriptor: '' @ to_string fd"
| "error_msg (FileNotClosedError f) = ''File is opened: '' @ f"
| "error_msg (FileExistsError f) = ''File already exists: '' @ f"
| "error_msg (FileNotFoundError f) = ''File not found: '' @ f"
| "error_msg (RecordNotFoundError p s) =
     ''Record not found: ('' @ to_string p @ '','' @ to_string s @ '')''"
| "error_msg (InvalidRecordSizeError n) = ''Invalid record size: '' @ to_string n"
| "error_msg (InvalidColLengthError n) = ''Invalid column length: '' @ to_string n"
| "error_msg IndexEntryNotFoundError = ''Index entry not found''"
| "error_msg (DatabaseNotFoundError d) = ''Database not found: '' @ d"
| "error_msg (DatabaseExistsError d) = ''Database already exists: '' @ d"
| "error_msg (TableNotFoundError t) = ''Table not found: '' @ t"
| "error_msg (TableExistsError t) = ''Table already exists: '' @ t"
| "error_msg (ColumnNotFoundError c) = ''Column not found: '' @ c"
| "error_msg (IndexNotFoundError t cs) = ''Index not found: '' @ t @ ''.('' @ join_names cs @ '')''"
| "error_msg (IndexExistsError t cs) =
     ''Index already exists: '' @ t @ ''.('' @ join_names cs @ '')''"
| "error_msg InvalidValueCountError = ''Invalid value count''"
| "error_msg StringOverflowError = ''String is too long''"
| "error_msg IntegerOverflowError = ''Integer overflow''"
| "error_msg InvalidDateTimeError = ''Invalid datetime''"
| "error_msg (IncompatibleTypeError l r) = ''Incompatible type error: lhs '' @ l @ '', rhs '' @ r"
| "error_msg (AmbiguousColumnError c) = ''Ambiguous column: '' @ c"
| "error_msg (PageNotExistError t p) = ''Page '' @ to_string p @ '' in table '' @ t @ ''not exits''"

text \<open>\<^verbatim>\<open>RMDBError::what\<close>: every message is prefixed by the base class constructor.\<close>

definition what :: "rmdb_error \<Rightarrow> string" where
  "what e = ''Error: '' @ error_msg e"

definition get_msg_len :: "rmdb_error \<Rightarrow> nat" where
  "get_msg_len e = length (what e)"

text \<open>
  How a call can fail: a thrown \<^verbatim>\<open>RMDBError\<close>, a \<^verbatim>\<open>TransactionAbortException\<close>, a failed
  \<^verbatim>\<open>assert\<close>, an access that C++ leaves undefined (a null pointer or an out-of-range read), or an
  exception of the standard library (\<^verbatim>\<open>std::out_of_range\<close>, \<^verbatim>\<open>std::invalid_argument\<close>).
  \<open>OutOfFuel\<close> is no behaviour of the code: a loop that follows page numbers stored in pages has a step
  bound in the model, and this is its result when the bound was too small.
\<close>

datatype AbortReason = LOCK_ON_SHIRINKING | UPGRADE_CONFLICT | DEADLOCK_PREVENTION

datatype exn =
    RMDBError rmdb_error
  | TransactionAbortException int AbortReason
  | AssertFailure
  | UndefinedBehaviour
  | OutOfFuel
  | StdOutOfRange
  | StdInvalidArgument

type_synonym 'a res = "exn + 'a"

text \<open>An operation on a state: its result or exception, and the state it leaves.\<close>

type_synonym ('s, 'a) em = "'s \<Rightarrow> (exn + 'a) \<times> 's"

definition em_return :: "'a \<Rightarrow> ('s, 'a) em" where
  "em_return a s = (Inr a, s)"

definition em_throw :: "exn \<Rightarrow> ('s, 'a) em" where
  "em_throw e s = (Inl e, s)"

definition em_bind :: "('s, 'a) em \<Rightarrow> ('a \<Rightarrow> ('s, 'b) em) \<Rightarrow> ('s, 'b) em" where
  "em_bind m f s = (case m s of (Inl e, s') \<Rightarrow> (Inl e, s') | (Inr a, s') \<Rightarrow> f a s')"

definition em_then :: "('s, 'a) em \<Rightarrow> ('s, 'b) em \<Rightarrow> ('s, 'b) em" where
  "em_then m f = em_bind m (\<lambda>_. f)"

definition em_get :: "('s, 's) em" where
  "em_get s = (Inr s, s)"

definition em_modify :: "('s \<Rightarrow> 's) \<Rightarrow> ('s, unit) em" where
  "em_modify f s = (Inr (), f s)"

text \<open>\<^verbatim>\<open>try { m } catch (RMDBError &) { h }\<close>: only the database's own errors are caught.\<close>

definition em_catch :: "('s, 'a) em \<Rightarrow> ('s, 'a) em \<Rightarrow> ('s, 'a) em" where
  "em_catch m h s = (case m s of (Inl (RMDBError e), s') \<Rightarrow> h s' | r \<Rightarrow> r)"

lemmas em_defs = em_return_def em_throw_def em_bind_def em_then_def em_get_def em_modify_def em_catch_def

fun rbind :: "'e + 'a \<Rightarrow> ('a \<Rightarrow> 'e + 'b) \<Rightarrow> 'e + 'b" where
  "rbind (Inl e) f = Inl e"
| "rbind (Inr a) f = f a"

lemma rbind_Inr: "rbind r f = Inr b \<longleftrightarrow> (\<exists>a. r = Inr a \<and> f a = Inr b)"
  by (cases r) auto

lemma rbind_Inl: "rbind r f = Inl e \<longleftrightarrow> r = Inl e \<or> (\<exists>a. r = Inr a \<and> f a = Inl e)"
  by (cases r) auto

section \<open>Byte ranges\<close>

definition get_bytes :: "nat \<Rightarrow> nat \<Rightarrow> 'b list \<Rightarrow> 'b list" where
  "get_bytes off n bs = take n (drop off bs)"

definition put_bytes :: "nat \<Rightarrow> 'b list \<Rightarrow> 'b list \<Rightarrow> 'b list" where
  "put_bytes off new bs = take off bs @ new @ drop (off + length new) bs"

lemma length_get_bytes [simp]: "off + n \<le> length bs \<Longrightarrow> length (get_bytes off n bs) = n"
  by (simp add: get_bytes_def)

lemma length_put_bytes [simp]:
  "off + length new \<le> length bs \<Longrightarrow> length (put_bytes off new bs) = length bs"
  by (simp add: put_bytes_def)

lemma nth_put_bytes:
  assumes "off + length new \<le> length bs" and "i < length bs"
  shows "put_bytes off new bs ! i =
    (if off \<le> i \<and> i < off + length new then new ! (i - off) else bs ! i)"
  using assms by (auto simp: put_bytes_def nth_append min_def)

lemma nth_get_bytes: "i < n \<Longrightarrow> off + n \<le> length bs \<Longrightarrow> get_bytes off n bs ! i = bs ! (off + i)"
  by (simp add: get_bytes_def)

lemma get_put_same [simp, bytes_simps]:
  "off + length new \<le> length bs \<Longrightarrow> n = length new \<Longrightarrow> get_bytes off n (put_bytes off new bs) = new"
  by (simp add: get_bytes_def put_bytes_def min_def)

lemma get_put_disjoint [bytes_simps]:
  assumes "off + length new \<le> length bs" and "o2 + n \<le> length bs"
    and "o2 + n \<le> off \<or> off + length new \<le> o2"
  shows "get_bytes o2 n (put_bytes off new bs) = get_bytes o2 n bs"
  using assms by (intro nth_equalityI) (auto simp: nth_get_bytes nth_put_bytes)

lemma get_bytes_all [simp]: "get_bytes 0 (length bs) bs = bs"
  by (simp add: get_bytes_def)

lemma put_get_same: "off + n \<le> length bs \<Longrightarrow> put_bytes off (get_bytes off n bs) bs = bs"
  by (intro nth_equalityI) (auto simp: nth_put_bytes nth_get_bytes)

section \<open>Little-endian integers\<close>

fun le_bytes :: "nat \<Rightarrow> int \<Rightarrow> byte list" where
  "le_bytes 0 x = []"
| "le_bytes (Suc n) x = word_of_int x # le_bytes n (x div 256)"

fun le_uint :: "byte list \<Rightarrow> int" where
  "le_uint [] = 0"
| "le_uint (b # bs) = uint b + 256 * le_uint bs"

text \<open>The signed reading of an \<open>n\<close>-byte little-endian integer, as the C types are read.\<close>

definition le_sint :: "byte list \<Rightarrow> int" where
  "le_sint bs = (let u = le_uint bs; m = 2 ^ (8 * length bs)
                 in if 2 * u < m then u else u - m)"

definition enc_int :: "int \<Rightarrow> byte list" where "enc_int = le_bytes 4"
definition enc_int64 :: "int \<Rightarrow> byte list" where "enc_int64 = le_bytes 8"
definition dec_int :: "nat \<Rightarrow> byte list \<Rightarrow> int" where "dec_int off bs = le_sint (get_bytes off 4 bs)"
definition dec_uint :: "nat \<Rightarrow> byte list \<Rightarrow> int" where "dec_uint off bs = le_uint (get_bytes off 4 bs)"
definition dec_int64 :: "nat \<Rightarrow> byte list \<Rightarrow> int" where "dec_int64 off bs = le_sint (get_bytes off 8 bs)"
definition dec_size :: "nat \<Rightarrow> byte list \<Rightarrow> int" where "dec_size off bs = le_uint (get_bytes off 8 bs)"

lemma length_le_bytes [simp]: "length (le_bytes n x) = n"
  by (induction n arbitrary: x) auto

lemma le_uint_le_bytes: "le_uint (le_bytes n x) = x mod 256 ^ n"
proof (induction n arbitrary: x)
  case 0
  then show ?case by simp
next
  case (Suc n)
  have "uint (word_of_int x :: byte) = x mod 256"
    by (simp add: unsigned_of_int take_bit_eq_mod)
  moreover have "x mod (256 * 256 ^ n) = 256 * (x div 256 mod 256 ^ n) + x mod 256"
    by (simp add: zmod_zmult2_eq)
  ultimately show ?case using Suc by simp
qed

lemma le_uint_bound: "0 \<le> le_uint bs \<and> le_uint bs < 256 ^ length bs"
proof (induction bs)
  case Nil
  then show ?case by simp
next
  case (Cons b bs)
  have "0 \<le> uint b" "uint b < 256"
    using uint_bounded[of b] by (simp_all add: unsigned_greater_eq)
  with Cons show ?case by simp
qed

lemma le_sint_le_bytes:
  assumes "0 < n" and "- (2 ^ (8 * n - 1)) \<le> x" and "x < 2 ^ (8 * n - 1)"
  shows "le_sint (le_bytes n x) = x"
proof -
  have e: "(256::int) ^ n = 2 ^ (8 * n)"
    by (simp add: power_mult)
  have d: "(2::int) ^ (8 * n) = 2 * 2 ^ (8 * n - 1)"
    using assms(1) by (simp flip: power_Suc)
  have m: "x mod 256 ^ n = (if 0 \<le> x then x else x + 256 ^ n)"
  proof (cases "0 \<le> x")
    case True
    with assms(3) show ?thesis by (simp add: e d)
  next
    case False
    have "(x + 256 ^ n) mod 256 ^ n = x + 256 ^ n"
      using assms(2) False by (intro mod_pos_pos_trivial) (simp_all add: e d)
    with False show ?thesis by simp
  qed
  show ?thesis
    using assms m by (auto simp: le_sint_def le_uint_le_bytes Let_def e d)
qed

end
