(* ===== verification/Replacer.thy ===== *)
theory Replacer
  imports Prelude
begin

text \<open>
  \<^verbatim>\<open>replacer/replacer.h\<close> and \<^verbatim>\<open>replacer/lru_replacer.cpp\<close>. The interface the buffer pool uses is
  the locale \<open>replacer\<close>: a sequence of evictable frames in the order they became evictable. The
  LRU replacer keeps a linked list and a hash from frames to list nodes; the model keeps the node
  identities (\<open>LRUhash\<close> maps a frame to a node, \<open>LRUlist\<close> holds the nodes), and the
  interpretation at the end shows that the pair behaves as the sequence.
\<close>

section \<open>The interface\<close>

text \<open>The frames that \<open>n\<close> successive evictions return.\<close>

primrec drain :: "('r \<Rightarrow> nat option \<times> 'r) \<Rightarrow> nat \<Rightarrow> 'r \<Rightarrow> nat list" where
  "drain vic 0 r = []"
| "drain vic (Suc n) r = (case vic r of (None, r') \<Rightarrow> [] | (Some f, r') \<Rightarrow> f # drain vic n r')"

locale replacer =
  fixes victim :: "'r \<Rightarrow> nat option \<times> 'r"
    and pin :: "nat \<Rightarrow> 'r \<Rightarrow> 'r"
    and unpin :: "nat \<Rightarrow> 'r \<Rightarrow> 'r"
    and frames :: "'r \<Rightarrow> nat list"
    and capacity :: "'r \<Rightarrow> nat"
    and invar :: "'r \<Rightarrow> bool"
  assumes victim_none: "invar r \<Longrightarrow> frames r = [] \<Longrightarrow> victim r = (None, r)"
    and victim_some: "invar r \<Longrightarrow> frames r = f # fs \<Longrightarrow>
      \<exists>r'. victim r = (Some f, r') \<and> frames r' = fs \<and> capacity r' = capacity r \<and> invar r'"
    and frames_pin: "invar r \<Longrightarrow> frames (pin f r) = removeAll f (frames r)"
    and frames_unpin: "invar r \<Longrightarrow> frames (unpin f r) =
      (if f \<in> set (frames r) \<or> capacity r \<le> length (frames r) then frames r else frames r @ [f])"
    and capacity_pin: "capacity (pin f r) = capacity r"
    and capacity_unpin: "capacity (unpin f r) = capacity r"
    and invar_pin: "invar r \<Longrightarrow> invar (pin f r)"
    and invar_unpin: "invar r \<Longrightarrow> invar (unpin f r)"
    and distinct_frames: "invar r \<Longrightarrow> distinct (frames r)"
begin

lemma victim_cases:
  assumes "invar r" and "victim r = (v, r')"
  obtains (empty) "v = None" "r' = r" "frames r = []"
  | (evict) f where "v = Some f" "frames r = f # frames r'" "capacity r' = capacity r" "invar r'"
proof (cases "frames r")
  case Nil
  with assms victim_none have "v = None" "r' = r" by auto
  then show ?thesis using Nil by (rule empty)
next
  case (Cons f fs)
  with assms victim_some[of r f fs] have "v = Some f" "frames r' = fs" "capacity r' = capacity r" "invar r'"
    by auto
  then show ?thesis using Cons by (intro evict) auto
qed

lemma pinned_not_victim:
  assumes "invar r" and "victim (pin f r) = (v, r')"
  shows "v \<noteq> Some f"
proof -
  have "f \<notin> set (frames (pin f r))"
    by (simp add: frames_pin[OF assms(1)])
  with invar_pin[OF assms(1)] assms(2) show ?thesis
    by (cases rule: victim_cases) auto
qed

text \<open>Evicting repeatedly returns the frames in the order they became evictable.\<close>

lemma drain_frames: "invar r \<Longrightarrow> drain victim n r = take n (frames r)"
proof (induction n arbitrary: r)
  case 0
  then show ?case by simp
next
  case (Suc n)
  obtain v r' where v: "victim r = (v, r')" by fastforce
  from Suc.prems v show ?case
    by (cases rule: victim_cases) (simp_all add: Suc.IH v)
qed

end

section \<open>The LRU replacer\<close>

record LRUReplacer =
  LRUlist :: "(nat \<times> frame_id_t) list"   \<comment> \<open>list nodes, front first\<close>
  LRUhash :: "(frame_id_t \<times> nat) list"   \<comment> \<open>frame to node\<close>
  max_size :: nat
  next_node :: nat                       \<comment> \<open>identity of the next node allocated\<close>

definition new_LRUReplacer :: "nat \<Rightarrow> LRUReplacer" where
  "new_LRUReplacer num_pages = \<lparr>LRUlist = [], LRUhash = [], max_size = num_pages, next_node = 0\<rparr>"

definition lru_victim :: "LRUReplacer \<Rightarrow> frame_id_t option \<times> LRUReplacer" where
  "lru_victim r =
     (case LRUlist r of
        [] \<Rightarrow> (None, r)
      | node # rest \<Rightarrow> (Some (snd node), r\<lparr>LRUlist := rest, LRUhash := AList.delete (snd node) (LRUhash r)\<rparr>))"

definition lru_pin :: "frame_id_t \<Rightarrow> LRUReplacer \<Rightarrow> LRUReplacer" where
  "lru_pin f r =
     (case map_of (LRUhash r) f of
        None \<Rightarrow> r
      | Some n \<Rightarrow> r\<lparr>LRUlist := filter (\<lambda>node. fst node \<noteq> n) (LRUlist r),
                   LRUhash := AList.delete f (LRUhash r)\<rparr>)"

definition lru_unpin :: "frame_id_t \<Rightarrow> LRUReplacer \<Rightarrow> LRUReplacer" where
  "lru_unpin f r =
     (if map_of (LRUhash r) f \<noteq> None then r
      else if length (LRUlist r) \<ge> max_size r then r
      else r\<lparr>LRUlist := LRUlist r @ [(next_node r, f)],
             LRUhash := AList.update f (next_node r) (LRUhash r),
             next_node := Suc (next_node r)\<rparr>)"

definition lru_Size :: "LRUReplacer \<Rightarrow> nat" where
  "lru_Size r = length (LRUlist r)"

section \<open>The linked list and the hash agree\<close>

definition lru_frames :: "LRUReplacer \<Rightarrow> frame_id_t list" where
  "lru_frames r = map snd (LRUlist r)"

definition lru_inv :: "LRUReplacer \<Rightarrow> bool" where
  "lru_inv r \<longleftrightarrow> distinct (map fst (LRUlist r)) \<and> distinct (map snd (LRUlist r)) \<and>
     (\<forall>node \<in> set (LRUlist r). fst node < next_node r) \<and>
     (\<forall>f n. map_of (LRUhash r) f = Some n \<longleftrightarrow> (n, f) \<in> set (LRUlist r))"

lemma lru_hash_dom: "lru_inv r \<Longrightarrow> map_of (LRUhash r) f = None \<longleftrightarrow> f \<notin> set (lru_frames r)"
proof -
  assume "lru_inv r"
  then have "(\<forall>n. map_of (LRUhash r) f \<noteq> Some n) \<longleftrightarrow> (\<forall>n. (n, f) \<notin> set (LRUlist r))"
    by (simp add: lru_inv_def)
  then show ?thesis by (simp add: lru_frames_def image_iff) (metis prod.collapse snd_conv)
qed

lemma node_frame_unique:
  assumes "distinct (map fst xs)" and "distinct (map snd xs)" and "(n, f) \<in> set xs" and "(n', f') \<in> set xs"
  shows "n' = n \<longleftrightarrow> f' = f"
proof
  assume "n' = n"
  with assms show "f' = f" by (simp add: eq_key_imp_eq_value)
next
  assume "f' = f"
  with assms(2-4) show "n' = n" by (auto simp: distinct_map dest: inj_onD[of snd _ "(n, f)" "(n', f')"])
qed

lemma filter_node:
  assumes "distinct (map fst xs)" and "distinct (map snd xs)" and "(n, f) \<in> set xs"
  shows "map snd (filter (\<lambda>node. fst node \<noteq> n) xs) = removeAll f (map snd xs)"
proof -
  have "filter (\<lambda>node. fst node \<noteq> n) xs = filter (\<lambda>node. snd node \<noteq> f) xs"
    using node_frame_unique[OF assms] by (intro filter_cong) auto
  then show ?thesis
    by (simp add: removeAll_filter_not_eq filter_map comp_def eq_commute)
qed

lemma lru_frames_pin:
  assumes "lru_inv r"
  shows "lru_frames (lru_pin f r) = removeAll f (lru_frames r)"
proof (cases "map_of (LRUhash r) f")
  case None
  with lru_hash_dom[OF assms, of f] show ?thesis by (simp add: lru_pin_def)
next
  case (Some n)
  with assms have "(n, f) \<in> set (LRUlist r)" by (simp add: lru_inv_def)
  then have "map snd (filter (\<lambda>node. fst node \<noteq> n) (LRUlist r)) = removeAll f (map snd (LRUlist r))"
    using assms by (intro filter_node) (simp_all add: lru_inv_def)
  with Some show ?thesis
    by (simp add: lru_pin_def lru_frames_def)
qed

lemma lru_frames_unpin:
  "lru_inv r \<Longrightarrow> lru_frames (lru_unpin f r) =
     (if f \<in> set (lru_frames r) \<or> max_size r \<le> length (lru_frames r)
      then lru_frames r else lru_frames r @ [f])"
  using lru_hash_dom[of r f] by (auto simp: lru_unpin_def lru_frames_def)

lemma lru_inv_pin: "lru_inv r \<Longrightarrow> lru_inv (lru_pin f r)"
  unfolding lru_pin_def
proof (split option.splits, intro conjI impI allI, assumption)
  fix n
  assume i: "lru_inv r" and h: "map_of (LRUhash r) f = Some n"
  from i h have nf: "(n, f) \<in> set (LRUlist r)" by (simp add: lru_inv_def)
  have uniq: "(n', f') \<in> set (LRUlist r) \<Longrightarrow> n' = n \<longleftrightarrow> f' = f" for n' f'
    using node_frame_unique[of "LRUlist r" n f n' f'] i nf by (simp add: lru_inv_def)
  show "lru_inv (r\<lparr>LRUlist := filter (\<lambda>node. fst node \<noteq> n) (LRUlist r),
        LRUhash := AList.delete f (LRUhash r)\<rparr>)"
    using i uniq by (auto simp: lru_inv_def delete_conv' distinct_map_filter restrict_map_def)
qed

lemma lru_inv_unpin: "lru_inv r \<Longrightarrow> lru_inv (lru_unpin f r)"
  using lru_hash_dom[of r f]
  by (auto simp: lru_unpin_def lru_inv_def lru_frames_def update_conv' image_iff less_Suc_eq
      split: if_splits)

lemma lru_victim_some:
  assumes "lru_inv r" and "lru_frames r = f # fs"
  shows "\<exists>r'. lru_victim r = (Some f, r') \<and> lru_frames r' = fs \<and> max_size r' = max_size r \<and> lru_inv r'"
proof -
  obtain n rest where l: "LRUlist r = (n, f) # rest" and fs: "fs = map snd rest"
    using assms(2) by (auto simp: lru_frames_def map_eq_Cons_conv)
  have "lru_inv (r\<lparr>LRUlist := rest, LRUhash := AList.delete f (LRUhash r)\<rparr>)"
    using assms(1) by (auto simp: lru_inv_def l delete_conv' image_iff restrict_map_def; force)
  then show ?thesis by (simp add: lru_victim_def l lru_frames_def fs)
qed

interpretation lru: replacer lru_victim lru_pin lru_unpin lru_frames max_size lru_inv
proof unfold_locales
  fix r f fs
  show "lru_inv r \<Longrightarrow> lru_frames r = [] \<Longrightarrow> lru_victim r = (None, r)"
    by (simp add: lru_victim_def lru_frames_def)
  show "lru_inv r \<Longrightarrow> lru_frames r = f # fs \<Longrightarrow>
      \<exists>r'. lru_victim r = (Some f, r') \<and> lru_frames r' = fs \<and> max_size r' = max_size r \<and> lru_inv r'"
    by (rule lru_victim_some)
  show "lru_inv r \<Longrightarrow> distinct (lru_frames r)"
    by (simp add: lru_inv_def lru_frames_def)
  show "lru_inv r \<Longrightarrow> lru_frames (lru_pin f r) = removeAll f (lru_frames r)"
    by (rule lru_frames_pin)
  show "max_size (lru_pin f r) = max_size r" "max_size (lru_unpin f r) = max_size r"
    by (simp_all add: lru_pin_def lru_unpin_def split: option.splits)
qed (simp_all add: lru_frames_unpin lru_inv_pin lru_inv_unpin)

lemma lru_inv_new [simp]: "lru_inv (new_LRUReplacer n)"
  by (simp add: lru_inv_def new_LRUReplacer_def)

lemma lru_frames_new [simp]: "lru_frames (new_LRUReplacer n) = []" "max_size (new_LRUReplacer n) = n"
  by (simp_all add: lru_frames_def new_LRUReplacer_def)

section \<open>Properties\<close>

datatype lru_op = Victim | Pin frame_id_t | Unpin frame_id_t

text \<open>The code: a step returns the evicted frame, if any.\<close>

fun lru_step :: "lru_op \<Rightarrow> LRUReplacer \<Rightarrow> frame_id_t option \<times> LRUReplacer" where
  "lru_step Victim r = lru_victim r"
| "lru_step (Pin f) r = (None, lru_pin f r)"
| "lru_step (Unpin f) r = (None, lru_unpin f r)"

fun lru_run :: "lru_op list \<Rightarrow> LRUReplacer \<Rightarrow> frame_id_t option list \<times> LRUReplacer" where
  "lru_run [] r = ([], r)"
| "lru_run (op # ops) r =
     (case lru_step op r of (v, r') \<Rightarrow> case lru_run ops r' of (vs, r'') \<Rightarrow> (v # vs, r''))"

text \<open>The specification: a queue of evictable frames, oldest first, at most \<open>cap\<close> of them.\<close>

fun spec_step :: "nat \<Rightarrow> lru_op \<Rightarrow> nat list \<Rightarrow> nat option \<times> nat list" where
  "spec_step cap Victim q = (case q of [] \<Rightarrow> (None, []) | f # fs \<Rightarrow> (Some f, fs))"
| "spec_step cap (Pin f) q = (None, removeAll f q)"
| "spec_step cap (Unpin f) q =
     (None, if f \<in> set q \<or> cap \<le> length q then q else q @ [f])"

fun spec_run :: "nat \<Rightarrow> lru_op list \<Rightarrow> nat list \<Rightarrow> nat option list \<times> nat list" where
  "spec_run cap [] q = ([], q)"
| "spec_run cap (op # ops) q =
     (case spec_step cap op q of (v, q') \<Rightarrow> case spec_run cap ops q' of (vs, q'') \<Rightarrow> (v # vs, q''))"

lemma lru_step_refines:
  assumes "lru_inv r" and "lru_step op r = (v, r')"
  shows "spec_step (max_size r) op (lru_frames r) = (v, lru_frames r') \<and> lru_inv r' \<and>
    max_size r' = max_size r"
proof (cases op)
  case Victim
  with assms(2) have "lru_victim r = (v, r')" by simp
  with assms(1) show ?thesis
    by (cases rule: lru.victim_cases) (simp_all add: Victim assms(1))
qed (use assms in \<open>auto simp: lru.frames_pin lru.frames_unpin lru.invar_pin lru.invar_unpin
       lru.capacity_pin lru.capacity_unpin\<close>)

lemma lru_run_refines:
  "lru_inv r \<Longrightarrow> lru_run ops r = (vs, r') \<Longrightarrow>
   spec_run (max_size r) ops (lru_frames r) = (vs, lru_frames r') \<and> lru_inv r'"
proof (induction ops arbitrary: r vs)
  case Nil
  then show ?case by simp
next
  case (Cons op ops)
  obtain v r1 where s: "lru_step op r = (v, r1)" by fastforce
  obtain ws where w: "lru_run ops r1 = (ws, r')" "vs = v # ws"
    using Cons.prems(2) s by (auto split: prod.splits)
  show ?case
    using lru_step_refines[OF Cons.prems(1) s] Cons.IH[of r1 ws] s w by auto
qed

text \<open>C17: Whatever sequence of pin, unpin and victim calls is made on a fresh LRU replacer, the
  evicted frames and the evictable frames are those of a bounded queue: the linked list and the
  hash always agree, and the victim is the frame that has been evictable longest.\<close>

theorem lru_refines_queue:
  "(case lru_run ops (new_LRUReplacer n) of (vs, r) \<Rightarrow>
      spec_run n ops [] = (vs, lru_frames r) \<and> lru_inv r)"
  using lru_run_refines[of "new_LRUReplacer n" ops] by (auto split: prod.splits)

end
