(* ===== verification/Disk.thy ===== *)
theory Disk
  imports Prelude
begin

text \<open>
  \<^verbatim>\<open>storage/disk_manager.cpp\<close> over the file system calls it makes. The file system is what the
  code sees of it: the contents of regular files, the directories, and the open descriptors with
  their offsets. \<open>open\<close> returns the lowest unused descriptor, \<open>write\<close> past the end of a file
  fills the gap with zeros and completes on an open descriptor, \<open>read\<close> returns what is there, and
  an \<open>lseek\<close> to a negative offset fails and leaves the offset alone.
\<close>

section \<open>State\<close>

record OpenFile =
  of_path :: string
  of_pos :: nat

record DiskManager =
  files :: "string \<Rightarrow> byte list option"     \<comment> \<open>regular files of the file system\<close>
  dirs :: "string list"
  os_fds :: "(int \<times> OpenFile) list"         \<comment> \<open>open descriptors\<close>
  path2fd :: "string \<Rightarrow> int option"
  fd2path :: "int \<Rightarrow> string option"
  log_fd :: int
  fd2pageno :: "int \<Rightarrow> int"

definition MAX_FD :: int where "MAX_FD = 8192"
definition LOG_FILE_NAME :: string where "LOG_FILE_NAME = ''db.log''"

definition new_DiskManager :: DiskManager where
  "new_DiskManager = \<lparr>files = (\<lambda>_. None), dirs = [], os_fds = [], path2fd = (\<lambda>_. None),
     fd2path = (\<lambda>_. None), log_fd = -1, fd2pageno = (\<lambda>_. 0)\<rparr>"

section \<open>File system calls\<close>

definition os_lseek :: "int \<Rightarrow> int \<Rightarrow> DiskManager \<Rightarrow> DiskManager" where
  "os_lseek fd off d =
     (case map_of (os_fds d) fd of
        None \<Rightarrow> d
      | Some f \<Rightarrow> if off < 0 then d else d\<lparr>os_fds := AList.update fd (f\<lparr>of_pos := nat off\<rparr>) (os_fds d)\<rparr>)"

text \<open>Bytes of \<open>new\<close> written at \<open>pos\<close> into a file, the gap zero-filled.\<close>

definition file_write :: "nat \<Rightarrow> byte list \<Rightarrow> byte list \<Rightarrow> byte list" where
  "file_write pos new c =
     put_bytes pos new (c @ replicate (pos + length new - length c) 0)"

text \<open>The number of bytes written, -1 for a bad descriptor.\<close>

definition os_write :: "int \<Rightarrow> byte list \<Rightarrow> DiskManager \<Rightarrow> int \<times> DiskManager" where
  "os_write fd bs d =
     (case map_of (os_fds d) fd of
        None \<Rightarrow> (-1, d)
      | Some f \<Rightarrow>
          (case files d (of_path f) of
             None \<Rightarrow> (-1, d)
           | Some c \<Rightarrow>
               (int (length bs),
                d\<lparr>files := (files d)(of_path f \<mapsto> file_write (of_pos f) bs c),
                  os_fds := AList.update fd (f\<lparr>of_pos := of_pos f + length bs\<rparr>) (os_fds d)\<rparr>)))"

text \<open>The bytes read (at most \<open>n\<close>), \<open>None\<close> for a bad descriptor.\<close>

definition os_read :: "int \<Rightarrow> nat \<Rightarrow> DiskManager \<Rightarrow> byte list option \<times> DiskManager" where
  "os_read fd n d =
     (case map_of (os_fds d) fd of
        None \<Rightarrow> (None, d)
      | Some f \<Rightarrow>
          (case files d (of_path f) of
             None \<Rightarrow> (None, d)
           | Some c \<Rightarrow>
               (let bs = get_bytes (of_pos f) n c
                in (Some bs, d\<lparr>os_fds := AList.update fd (f\<lparr>of_pos := of_pos f + length bs\<rparr>) (os_fds d)\<rparr>))))"

text \<open>The lowest descriptor not in use; 0, 1 and 2 are the standard streams.\<close>

definition os_fresh_fd :: "DiskManager \<Rightarrow> int" where
  "os_fresh_fd d =
     (case find (\<lambda>n. int n \<notin> fst ` set (os_fds d)) [3..<4 + length (os_fds d)] of
        Some n \<Rightarrow> int n | None \<Rightarrow> 3)"

section \<open>Pages\<close>

definition write_page :: "int \<Rightarrow> page_id_t \<Rightarrow> byte list \<Rightarrow> nat \<Rightarrow> (DiskManager, unit) em" where
  "write_page fd pno buf num_bytes d =
     (let d1 = os_lseek fd (c_int (pno * int PAGE_SIZE)) d
      in case os_write fd (take num_bytes buf) d1 of (bytes_written, d2) \<Rightarrow>
           if bytes_written \<noteq> int num_bytes
           then (Inl (RMDBError (InternalError ''DiskManager::write_page Error'')), d2)
           else (Inr (), d2))"

text \<open>The caller's buffer is passed in and comes back with the bytes that were read, also when
  there were too few and the call throws.\<close>

definition read_page :: "int \<Rightarrow> page_id_t \<Rightarrow> byte list \<Rightarrow> nat \<Rightarrow> DiskManager \<Rightarrow>
    (exn + unit) \<times> byte list \<times> DiskManager" where
  "read_page fd pno buf num_bytes d =
     (let d1 = os_lseek fd (c_int (pno * int PAGE_SIZE)) d
      in case os_read fd num_bytes d1 of
           (None, d2) \<Rightarrow> (Inl (RMDBError (InternalError ''DiskManager::read_page Error'')), buf, d2)
         | (Some bs, d2) \<Rightarrow>
             if length bs \<noteq> num_bytes
             then (Inl (RMDBError (InternalError ''DiskManager::read_page Error'')), put_bytes 0 bs buf, d2)
             else (Inr (), put_bytes 0 bs buf, d2))"

definition allocate_page :: "int \<Rightarrow> (DiskManager, page_id_t) em" where
  "allocate_page fd d =
     (if 0 \<le> fd \<and> fd < MAX_FD
      then (Inr (fd2pageno d fd), d\<lparr>fd2pageno := (fd2pageno d)(fd := c_int (fd2pageno d fd + 1))\<rparr>)
      else (Inl AssertFailure, d))"

definition deallocate_page :: "page_id_t \<Rightarrow> DiskManager \<Rightarrow> DiskManager" where
  "deallocate_page pno d = d"

definition set_fd2pageno :: "int \<Rightarrow> int \<Rightarrow> DiskManager \<Rightarrow> DiskManager" where
  "set_fd2pageno fd start_page_no d = d\<lparr>fd2pageno := (fd2pageno d)(fd := start_page_no)\<rparr>"

definition get_fd2pageno :: "int \<Rightarrow> DiskManager \<Rightarrow> int" where
  "get_fd2pageno fd d = fd2pageno d fd"

section \<open>Files\<close>

definition is_dir :: "string \<Rightarrow> DiskManager \<Rightarrow> bool" where
  "is_dir path d \<longleftrightarrow> path \<in> set (dirs d)"

definition is_file :: "string \<Rightarrow> DiskManager \<Rightarrow> bool" where
  "is_file path d \<longleftrightarrow> files d path \<noteq> None"

text \<open>The shell commands \<^verbatim>\<open>mkdir\<close> and \<^verbatim>\<open>rm -r\<close>: the former does nothing where the path exists, the latter
  removes the directory with everything under it. The code checks only that a shell was started.\<close>

definition create_dir :: "string \<Rightarrow> DiskManager \<Rightarrow> DiskManager" where
  "create_dir path d = (if is_dir path d \<or> is_file path d then d else d\<lparr>dirs := path # dirs d\<rparr>)"

definition path_under :: "string \<Rightarrow> string \<Rightarrow> bool" where
  "path_under dir p \<longleftrightarrow> p = dir \<or> take (Suc (length dir)) p = dir @ ''/''"

definition destroy_dir :: "string \<Rightarrow> DiskManager \<Rightarrow> DiskManager" where
  "destroy_dir path d = d\<lparr>dirs := filter (\<lambda>p. \<not> path_under path p) (dirs d),
     files := (\<lambda>p. if path_under path p then None else files d p)\<rparr>"

definition SetLogFd :: "int \<Rightarrow> DiskManager \<Rightarrow> DiskManager" where
  "SetLogFd fd d = d\<lparr>log_fd := fd\<rparr>"

definition GetLogFd :: "DiskManager \<Rightarrow> int" where
  "GetLogFd d = log_fd d"

definition create_file :: "string \<Rightarrow> (DiskManager, unit) em" where
  "create_file path d =
     (if is_file path d then (Inl (RMDBError (FileExistsError path)), d)
      else if is_dir path d then (Inl (RMDBError (UnixError ''File exists'')), d)
      else (Inr (), d\<lparr>files := (files d)(path \<mapsto> [])\<rparr>))"

definition destroy_file :: "string \<Rightarrow> (DiskManager, unit) em" where
  "destroy_file path d =
     (if path2fd d path \<noteq> None then (Inl (RMDBError (FileNotClosedError path)), d)
      else if is_file path d then (Inr (), d\<lparr>files := (files d)(path := None)\<rparr>)
      else if is_dir path d then (Inl (RMDBError (UnixError ''Is a directory'')), d)
      else (Inl (RMDBError (FileNotFoundError path)), d))"

definition open_file :: "string \<Rightarrow> (DiskManager, int) em" where
  "open_file path d =
     (case path2fd d path of
        Some fd \<Rightarrow> (Inr fd, d)
      | None \<Rightarrow>
          if is_file path d then
            (let fd = os_fresh_fd d
             in (Inr fd, d\<lparr>os_fds := AList.update fd \<lparr>of_path = path, of_pos = 0\<rparr> (os_fds d),
                          path2fd := (path2fd d)(path \<mapsto> fd),
                          fd2path := (fd2path d)(fd \<mapsto> path)\<rparr>))
          else if is_dir path d then (Inl (RMDBError (UnixError ''Is a directory'')), d)
          else (Inl (RMDBError (FileNotFoundError path)), d))"

definition close_file :: "int \<Rightarrow> (DiskManager, unit) em" where
  "close_file fd d =
     (case fd2path d fd of
        None \<Rightarrow> (Inl (RMDBError (FileNotOpenError fd)), d)
      | Some path \<Rightarrow>
          if map_of (os_fds d) fd = None then (Inl (RMDBError (UnixError ''Bad file descriptor'')), d)
          else (Inr (), d\<lparr>os_fds := AList.delete fd (os_fds d),
                         fd2path := (fd2path d)(fd := None),
                         path2fd := (path2fd d)(path := None)\<rparr>))"

definition get_file_size :: "string \<Rightarrow> DiskManager \<Rightarrow> int" where
  "get_file_size file_name d = (case files d file_name of Some c \<Rightarrow> int (length c) | None \<Rightarrow> -1)"

definition get_file_name :: "int \<Rightarrow> (DiskManager, string) em" where
  "get_file_name fd d =
     (case fd2path d fd of None \<Rightarrow> (Inl (RMDBError (FileNotOpenError fd)), d) | Some p \<Rightarrow> (Inr p, d))"

definition get_file_fd :: "string \<Rightarrow> (DiskManager, int) em" where
  "get_file_fd file_name d =
     (case path2fd d file_name of None \<Rightarrow> open_file file_name d | Some fd \<Rightarrow> (Inr fd, d))"

section \<open>The log file\<close>

definition ensure_log_open :: "(DiskManager, unit) em" where
  "ensure_log_open d =
     (if log_fd d = -1
      then em_bind (open_file LOG_FILE_NAME) (\<lambda>fd. em_modify (\<lambda>d. d\<lparr>log_fd := fd\<rparr>)) d
      else (Inr (), d))"

text \<open>\<open>read_log sz off\<close> returns \<open>None\<close> for the code's -1 and the bytes read otherwise.\<close>

definition read_log :: "int \<Rightarrow> int \<Rightarrow> (DiskManager, byte list option) em" where
  "read_log sz off = em_then ensure_log_open (\<lambda>d.
     let file_size = get_file_size LOG_FILE_NAME d
     in if off > file_size then (Inr None, d)
        else let n = min sz (file_size - off)
             in if n = 0 then (Inr (Some []), d)
                else let d1 = os_lseek (log_fd d) off d
                     in case os_read (log_fd d) (nat n) d1 of
                          (None, d2) \<Rightarrow> (Inl AssertFailure, d2)
                        | (Some bs, d2) \<Rightarrow>
                            if int (length bs) = n then (Inr (Some bs), d2) else (Inl AssertFailure, d2))"

definition write_log :: "byte list \<Rightarrow> (DiskManager, unit) em" where
  "write_log log_data = em_then ensure_log_open (\<lambda>d.
     let end_off = (case map_of (os_fds d) (log_fd d) of
                      None \<Rightarrow> 0
                    | Some f \<Rightarrow> (case files d (of_path f) of Some c \<Rightarrow> int (length c) | None \<Rightarrow> 0));
         d1 = os_lseek (log_fd d) end_off d
     in case os_write (log_fd d) log_data d1 of (n, d2) \<Rightarrow>
          if n \<noteq> int (length log_data) then (Inl (RMDBError (UnixError ''Bad file descriptor'')), d2)
          else (Inr (), d2))"

section \<open>What a descriptor shows of its file\<close>

text \<open>The file behind a descriptor, and one whole page of it.\<close>

definition fd_file :: "DiskManager \<Rightarrow> int \<Rightarrow> byte list option" where
  "fd_file d fd =
     (case map_of (os_fds d) fd of None \<Rightarrow> None | Some f \<Rightarrow> files d (of_path f))"

definition disk_page :: "DiskManager \<Rightarrow> int \<Rightarrow> int \<Rightarrow> byte list option" where
  "disk_page d fd pno =
     (case fd_file d fd of
        None \<Rightarrow> None
      | Some c \<Rightarrow>
          if 0 \<le> pno \<and> nat pno * PAGE_SIZE + PAGE_SIZE \<le> length c
          then Some (get_bytes (nat pno * PAGE_SIZE) PAGE_SIZE c) else None)"

definition page_addressable :: "int \<Rightarrow> bool" where
  "page_addressable pno \<longleftrightarrow> 0 \<le> pno \<and> pno * int PAGE_SIZE \<le> INT_MAX"

lemma page_offset: "page_addressable pno \<Longrightarrow> c_int (pno * int PAGE_SIZE) = int (nat pno * PAGE_SIZE)"
  by (subst c_int_id) (simp_all add: page_addressable_def in_int_def INT_MIN_def PAGE_SIZE_def)

lemma page_size_pos: "0 < PAGE_SIZE"
  by (simp add: PAGE_SIZE_def)

lemma page_off_nat:
  assumes "page_addressable pno"
  shows "\<not> c_int (pno * int PAGE_SIZE) < 0" "nat (c_int (pno * int PAGE_SIZE)) = nat pno * PAGE_SIZE"
  using page_offset[OF assms] by (simp_all del: of_nat_mult)

lemma map_of_update: "map_of (AList.update k v xs) = (map_of xs)(k \<mapsto> v)"
  by (rule ext) (simp add: update_conv')

lemma length_file_write: "length (file_write pos new c) = max (length c) (pos + length new)"
  by (simp add: file_write_def)

lemma get_file_write_same:
  "get_bytes pos (length new) (file_write pos new c) = new"
  by (simp add: file_write_def)

lemma get_file_write_other:
  assumes "o2 + n \<le> length c" and "o2 + n \<le> pos \<or> pos + length new \<le> o2"
  shows "get_bytes o2 n (file_write pos new c) = get_bytes o2 n c"
proof -
  have "get_bytes o2 n (file_write pos new c) =
      get_bytes o2 n (c @ replicate (pos + length new - length c) 0)"
    unfolding file_write_def by (rule get_put_disjoint) (use assms in auto)
  also have "\<dots> = get_bytes o2 n c"
    using assms(1) by (simp add: get_bytes_def)
  finally show ?thesis .
qed

section \<open>The open-file tables\<close>

text \<open>\<^verbatim>\<open>path2fd_\<close> and \<^verbatim>\<open>fd2path_\<close> are inverse and record exactly the open descriptors; every open
  path has a file.\<close>

definition fd_path :: "DiskManager \<Rightarrow> int \<Rightarrow> string option" where
  "fd_path d fd = map_option of_path (map_of (os_fds d) fd)"

definition disk_inv :: "DiskManager \<Rightarrow> bool" where
  "disk_inv d \<longleftrightarrow>
     (\<forall>p fd. path2fd d p = Some fd \<longleftrightarrow> fd2path d fd = Some p) \<and>
     (\<forall>fd. fd2path d fd = fd_path d fd) \<and>
     (\<forall>p. path2fd d p \<noteq> None \<longrightarrow> files d p \<noteq> None)"

lemma disk_inv_new: "disk_inv new_DiskManager"
  by (simp add: disk_inv_def new_DiskManager_def fd_path_def)

lemma disk_inv_cong:
  assumes "disk_inv d" and "path2fd d' = path2fd d" and "fd2path d' = fd2path d"
    and "fd_path d' = fd_path d" and "\<And>p. files d p \<noteq> None \<Longrightarrow> files d' p \<noteq> None"
  shows "disk_inv d'"
  using assms unfolding disk_inv_def by metis

lemma disk_inv_fd_file:
  assumes "disk_inv d" and "map_of (os_fds d) fd = Some f"
  shows "\<exists>c. files d (of_path f) = Some c"
proof -
  have "fd_path d fd = Some (of_path f)" using assms(2) by (simp add: fd_path_def)
  with assms(1) have "path2fd d (of_path f) = Some fd" unfolding disk_inv_def by metis
  with assms(1) show ?thesis unfolding disk_inv_def by (metis option.discI not_None_eq)
qed

lemma disk_inv_path_inj:
  assumes "disk_inv d" and "map_of (os_fds d) fd = Some f" and "map_of (os_fds d) fd' = Some f'"
    and "of_path f = of_path f'"
  shows "fd = fd'"
proof -
  have "fd_path d fd = Some (of_path f)" "fd_path d fd' = Some (of_path f)"
    using assms(2-4) by (simp_all add: fd_path_def)
  with assms(1) have "path2fd d (of_path f) = Some fd" "path2fd d (of_path f) = Some fd'"
    unfolding disk_inv_def by metis+
  then show ?thesis by simp
qed

lemma os_fresh_fd_fresh: "map_of (os_fds d) (os_fresh_fd d) = None"
proof -
  let ?K = "fst ` set (os_fds d)"
  have "\<exists>n \<in> set [3..<4 + length (os_fds d)]. int n \<notin> ?K"
  proof (rule ccontr)
    assume "\<not> ?thesis"
    then have sub: "int ` set [3..<4 + length (os_fds d)] \<subseteq> ?K" by auto
    have "card (int ` set [3..<4 + length (os_fds d)]) = Suc (length (os_fds d))"
      by (simp add: card_image)
    moreover have "card ?K \<le> length (os_fds d)"
      by (metis card_length length_map list.set_map)
    moreover have "card (int ` set [3..<4 + length (os_fds d)]) \<le> card ?K"
      using sub by (rule card_mono[rotated]) simp
    ultimately show False by simp
  qed
  then have "find (\<lambda>n. int n \<notin> ?K) [3..<4 + length (os_fds d)] \<noteq> None"
    by (auto simp: find_None_iff)
  then obtain n where "find (\<lambda>n. int n \<notin> ?K) [3..<4 + length (os_fds d)] = Some n" by blast
  moreover from this have "int n \<notin> ?K" by (auto simp: find_Some_iff)
  ultimately show ?thesis by (simp add: os_fresh_fd_def map_of_eq_None_iff)
qed

lemma os_lseek_frame [simp]:
  "files (os_lseek fd off d) = files d" "fd2pageno (os_lseek fd off d) = fd2pageno d"
  "log_fd (os_lseek fd off d) = log_fd d" "path2fd (os_lseek fd off d) = path2fd d"
  "fd2path (os_lseek fd off d) = fd2path d" "dirs (os_lseek fd off d) = dirs d"
  by (simp_all add: os_lseek_def split: option.splits)

lemma fd_path_update:
  "map_of (os_fds d) fd = Some f \<Longrightarrow> of_path f' = of_path f \<Longrightarrow>
   fd_path (d\<lparr>files := fs, os_fds := AList.update fd f' (os_fds d)\<rparr>) = fd_path d"
  "map_of (os_fds d) fd = Some f \<Longrightarrow> of_path f' = of_path f \<Longrightarrow>
   fd_path (d\<lparr>os_fds := AList.update fd f' (os_fds d)\<rparr>) = fd_path d"
  by (simp_all add: fd_path_def map_of_update fun_eq_iff)

lemma fd_path_lseek [simp]: "fd_path (os_lseek fd off d) = fd_path d"
  by (simp add: os_lseek_def fd_path_update split: option.splits)

lemma disk_inv_lseek [simp]: "disk_inv d \<Longrightarrow> disk_inv (os_lseek fd off d)"
  by (rule disk_inv_cong) simp_all

lemma disk_inv_write: "disk_inv d \<Longrightarrow> os_write fd bs d = (n, d') \<Longrightarrow> disk_inv d'"
  by (erule disk_inv_cong) (auto simp: os_write_def fd_path_update split: option.splits)

lemma disk_inv_read: "disk_inv d \<Longrightarrow> os_read fd n d = (r, d') \<Longrightarrow> disk_inv d'"
  by (erule disk_inv_cong) (auto simp: os_read_def Let_def fd_path_update split: option.splits)

lemma fd_path_None: "fd_path d fd = None \<longleftrightarrow> map_of (os_fds d) fd = None"
  by (simp add: fd_path_def)

lemma disk_inv_open:
  assumes "disk_inv d" and "open_file path d = (r, d')"
  shows "disk_inv d'"
proof (cases "path2fd d path = None \<and> is_file path d")
  case True
  let ?fd = "os_fresh_fd d"
  have fp: "fd_path d' = (fd_path d)(?fd \<mapsto> path)" "path2fd d' = (path2fd d)(path \<mapsto> ?fd)"
    "fd2path d' = (fd2path d)(?fd \<mapsto> path)" "files d' = files d"
    using assms(2) True by (auto simp: open_file_def Let_def fd_path_def map_of_update)
  have n: "fd2path d ?fd = None"
    using assms(1) os_fresh_fd_fresh[of d] by (simp add: disk_inv_def fd_path_def)
  show ?thesis
    using assms(1) n True unfolding disk_inv_def fp is_file_def
    by (auto split: if_splits; metis option.distinct(1))
next
  case False
  with assms show ?thesis
    by (auto simp: open_file_def split: option.splits if_splits)
qed

lemma disk_inv_close:
  assumes "disk_inv d" and "close_file fd d = (r, d')"
  shows "disk_inv d'"
proof (cases "\<exists>path. fd2path d fd = Some path \<and> map_of (os_fds d) fd \<noteq> None")
  case True
  then obtain path where p: "fd2path d fd = Some path" "map_of (os_fds d) fd \<noteq> None" by blast
  have fp: "fd_path d' = (fd_path d)(fd := None)" "path2fd d' = (path2fd d)(path := None)"
    "fd2path d' = (fd2path d)(fd := None)" "files d' = files d"
    using assms(2) p by (auto simp: close_file_def fd_path_def delete_conv')
  show ?thesis
    using assms(1) p(1) unfolding disk_inv_def fp by (auto split: if_splits; metis option.inject)
next
  case False
  with assms show ?thesis
    by (auto simp: close_file_def split: option.splits if_splits)
qed

lemma disk_inv_create: "disk_inv d \<Longrightarrow> create_file path d = (r, d') \<Longrightarrow> disk_inv d'"
  by (erule disk_inv_cong) (auto simp: create_file_def fd_path_def split: if_splits)

lemma disk_inv_destroy: "disk_inv d \<Longrightarrow> destroy_file path d = (r, d') \<Longrightarrow> disk_inv d'"
proof (cases "path2fd d path = None \<and> is_file path d")
  case True
  assume inv: "disk_inv d" and "destroy_file path d = (r, d')"
  with True have d': "d' = d\<lparr>files := (files d)(path := None)\<rparr>" by (simp add: destroy_file_def)
  have "fd_path d' = fd_path d" "path2fd d' = path2fd d" "fd2path d' = fd2path d"
    by (simp_all add: d' fd_path_def fun_eq_iff)
  moreover have "files d' p \<noteq> None" if "path2fd d p \<noteq> None" for p
    using that True inv by (cases "p = path") (simp_all add: d' disk_inv_def)
  ultimately show ?thesis using inv unfolding disk_inv_def by metis
next
  case False
  assume "disk_inv d" and "destroy_file path d = (r, d')"
  with False show ?thesis by (auto simp: destroy_file_def split: if_splits)
qed

lemma disk_inv_write_page: "disk_inv d \<Longrightarrow> write_page fd p buf n d = (r, d') \<Longrightarrow> disk_inv d'"
  using disk_inv_write[OF disk_inv_lseek[of d fd "c_int (p * int PAGE_SIZE)"], of fd "take n buf"]
  by (auto simp: write_page_def Let_def split: prod.splits if_splits)

lemma disk_inv_read_page: "disk_inv d \<Longrightarrow> read_page fd p buf n d = (r, b, d') \<Longrightarrow> disk_inv d'"
  using disk_inv_read[OF disk_inv_lseek[of d fd "c_int (p * int PAGE_SIZE)"], of fd n]
  by (auto simp: read_page_def Let_def split: prod.splits if_splits option.splits)

lemma disk_inv_allocate: "disk_inv d \<Longrightarrow> allocate_page fd d = (r, d') \<Longrightarrow> disk_inv d'"
  by (erule disk_inv_cong) (auto simp: allocate_page_def fd_path_def split: if_splits)

lemma disk_inv_log_fd [simp]: "disk_inv (d\<lparr>log_fd := x\<rparr>) = disk_inv d"
  "disk_inv (d\<lparr>fd2pageno := g\<rparr>) = disk_inv d"
  by (simp_all add: disk_inv_def fd_path_def)

lemma disk_inv_ensure_log: "disk_inv d \<Longrightarrow> ensure_log_open d = (r, d') \<Longrightarrow> disk_inv d'"
  by (auto simp: ensure_log_open_def em_defs split: if_splits prod.splits sum.splits
      dest: disk_inv_open)

lemma disk_inv_read_log:
  assumes "disk_inv d" and "read_log n off d = (r, d')"
  shows "disk_inv d'"
proof -
  obtain r1 d1 where e: "ensure_log_open d = (r1, d1)" by fastforce
  have i: "disk_inv d1" by (rule disk_inv_ensure_log[OF assms(1) e])
  show ?thesis
    using assms(2) i disk_inv_read[OF disk_inv_lseek[OF i]]
    by (auto simp: read_log_def em_defs e Let_def split: if_splits prod.splits sum.splits option.splits)
qed

lemma disk_inv_write_log:
  assumes "disk_inv d" and "write_log bs d = (r, d')"
  shows "disk_inv d'"
proof -
  obtain r1 d1 where e: "ensure_log_open d = (r1, d1)" by fastforce
  have i: "disk_inv d1" by (rule disk_inv_ensure_log[OF assms(1) e])
  show ?thesis
    using assms(2) i disk_inv_write[OF disk_inv_lseek[OF i]]
    by (auto simp: write_log_def em_defs e Let_def split: if_splits prod.splits sum.splits)
qed

section \<open>Reading back what was written\<close>

lemma alist_update_twice: "AList.update k v (AList.update k w xs) = AList.update k v xs"
  by (induction xs) auto

lemma write_page_Inr:
  assumes "map_of (os_fds d) fd = Some f" and "files d (of_path f) = Some c"
    and "page_addressable pno" and "n \<le> length buf"
  shows "\<exists>pos. write_page fd pno buf n d =
    (Inr (), d\<lparr>files := (files d)(of_path f \<mapsto> file_write (nat pno * PAGE_SIZE) (take n buf) c),
             os_fds := AList.update fd (f\<lparr>of_pos := pos\<rparr>) (os_fds d)\<rparr>)"
  using assms
  by (auto simp: write_page_def Let_def os_lseek_def os_write_def page_off_nat map_of_update
      alist_update_twice min_def)

lemma read_page_Inr:
  assumes "map_of (os_fds d) fd = Some f" and "files d (of_path f) = Some c"
    and "page_addressable pno" and "nat pno * PAGE_SIZE + n \<le> length c"
  shows "\<exists>pos. read_page fd pno buf n d =
    (Inr (), put_bytes 0 (get_bytes (nat pno * PAGE_SIZE) n c) buf,
     d\<lparr>os_fds := AList.update fd (f\<lparr>of_pos := pos\<rparr>) (os_fds d)\<rparr>)"
  using assms
  by (auto simp: read_page_def Let_def os_lseek_def os_read_def page_off_nat map_of_update
      alist_update_twice)

text \<open>\<open>same_store\<close>: only offsets of descriptors may differ.\<close>

definition same_store :: "DiskManager \<Rightarrow> DiskManager \<Rightarrow> bool" where
  "same_store d d' \<longleftrightarrow> files d' = files d \<and> fd_path d' = fd_path d \<and> path2fd d' = path2fd d \<and>
     fd2path d' = fd2path d \<and> fd2pageno d' = fd2pageno d \<and> log_fd d' = log_fd d"

lemma fd_file_path: "fd_file d fd = (case fd_path d fd of None \<Rightarrow> None | Some p \<Rightarrow> files d p)"
  by (simp add: fd_file_def fd_path_def split: option.splits)

lemma same_store_page:
  assumes "same_store d d'"
  shows "disk_page d' fd p = disk_page d fd p"
proof -
  have "files d' = files d" "fd_path d' = fd_path d" using assms by (simp_all add: same_store_def)
  then have "fd_file d' fd = fd_file d fd" by (simp add: fd_file_path split: option.split)
  then show ?thesis by (simp add: disk_page_def)
qed

lemma read_page_same_store: "read_page fd p buf n d = (r, b, d') \<Longrightarrow> same_store d d'"
  by (auto simp: read_page_def Let_def os_read_def os_lseek_def same_store_def fd_path_def
      map_of_update fun_eq_iff split: prod.splits if_splits option.splits)

lemma put_bytes_all: "length new = length buf \<Longrightarrow> put_bytes 0 new buf = new"
  by (simp add: put_bytes_def)

lemma read_page_buf_len:
  assumes "read_page fd pno buf n d = (r, b, d')" and "length buf = n"
  shows "length b = n"
proof -
  have "length (put_bytes 0 (get_bytes off n c) buf) = n" for off and c :: "byte list"
    using assms(2) by (subst length_put_bytes) (simp_all add: get_bytes_def)
  then show ?thesis
    using assms by (auto simp: read_page_def os_read_def Let_def split: option.splits if_splits prod.splits)
qed

lemma read_page_disk_page:
  assumes "page_addressable pno" and "length buf = PAGE_SIZE"
  shows "(case read_page fd pno buf PAGE_SIZE d of (r, b, d') \<Rightarrow>
           (case disk_page d fd pno of
              Some data \<Rightarrow> r = Inr () \<and> b = data
            | None \<Rightarrow> r = Inl (RMDBError (InternalError ''DiskManager::read_page Error''))))"
proof (cases "map_of (os_fds d) fd")
  case None
  then show ?thesis
    by (simp add: read_page_def os_lseek_def os_read_def disk_page_def fd_file_def)
next
  case (Some f)
  have nn: "0 \<le> pno" using assms(1) by (simp add: page_addressable_def)
  show ?thesis
    using Some assms nn page_size_pos
    by (auto simp: read_page_def Let_def os_lseek_def os_read_def disk_page_def fd_file_def
        map_of_update page_off_nat get_bytes_def put_bytes_all min_def split: option.splits)
qed

definition fd_bytes :: "DiskManager \<Rightarrow> int \<Rightarrow> nat \<Rightarrow> nat \<Rightarrow> byte list option" where
  "fd_bytes d fd off n =
     (case fd_file d fd of None \<Rightarrow> None | Some c \<Rightarrow> if off + n \<le> length c then Some (get_bytes off n c) else None)"

lemma disk_page_bytes:
  "disk_page d fd pno = (if 0 \<le> pno then fd_bytes d fd (nat pno * PAGE_SIZE) PAGE_SIZE else None)"
  by (simp add: disk_page_def fd_bytes_def split: option.splits)

text \<open>A write within one page: what it writes can be read, every other page is as before.\<close>

lemma write_page_part:
  assumes inv: "disk_inv d" and op: "fd_path d fd \<noteq> None" and pa: "page_addressable pno"
    and n: "n \<le> PAGE_SIZE" "n \<le> length data"
  shows "\<exists>d'. write_page fd pno data n d = (Inr (), d') \<and> disk_inv d' \<and>
     fd_path d' = fd_path d \<and> fd2pageno d' = fd2pageno d \<and> path2fd d' = path2fd d \<and>
     fd2path d' = fd2path d \<and> log_fd d' = log_fd d \<and>
     fd_bytes d' fd (nat pno * PAGE_SIZE) n = Some (take n data) \<and>
     (\<forall>fd' q. (fd', q) \<noteq> (fd, pno) \<and> disk_page d fd' q \<noteq> None \<longrightarrow> disk_page d' fd' q = disk_page d fd' q)"
proof -
  obtain f where f: "map_of (os_fds d) fd = Some f"
    using op by (auto simp: fd_path_def)
  obtain c where c: "files d (of_path f) = Some c"
    using disk_inv_fd_file[OF inv f] by blast
  obtain pos where w: "write_page fd pno data n d =
    (Inr (), d\<lparr>files := (files d)(of_path f \<mapsto> file_write (nat pno * PAGE_SIZE) (take n data) c),
             os_fds := AList.update fd (f\<lparr>of_pos := pos\<rparr>) (os_fds d)\<rparr>)" (is "_ = (_, ?d')")
    using write_page_Inr[OF f c pa n(2)] by auto
  have nn: "0 \<le> pno" using pa by (simp add: page_addressable_def)
  have fp: "fd_path ?d' = fd_path d" by (rule fd_path_update(1)[OF f]) simp
  have same: "fd_bytes ?d' fd (nat pno * PAGE_SIZE) n = Some (take n data)"
  proof -
    have ln: "length (take n data) = n" using n by simp
    have "get_bytes (nat pno * PAGE_SIZE) n (file_write (nat pno * PAGE_SIZE) (take n data) c) = take n data"
      using get_file_write_same[of "nat pno * PAGE_SIZE" "take n data" c] unfolding ln .
    then show ?thesis
      using f n by (simp add: fd_bytes_def fd_file_path fp fd_path_def length_file_write min_absorb2)
  qed
  have other: "disk_page ?d' fd' q = disk_page d fd' q"
    if ne: "(fd', q) \<noteq> (fd, pno)" and ex: "disk_page d fd' q \<noteq> None" for fd' q
  proof (cases "fd' = fd")
    case True
    with ne have "nat q \<noteq> nat pno \<or> q < 0" using nn by auto
    moreover have q: "0 \<le> q" "nat q * PAGE_SIZE + PAGE_SIZE \<le> length c"
      using ex True f c by (auto simp: disk_page_def fd_file_path fd_path_def split: if_splits)
    ultimately have "nat q * PAGE_SIZE + PAGE_SIZE \<le> nat pno * PAGE_SIZE \<or>
        nat pno * PAGE_SIZE + PAGE_SIZE \<le> nat q * PAGE_SIZE"
      by (metis add.commute mult_Suc mult_le_mono1 not_less not_less_eq_eq linorder_cases Suc_leI)
    then have "nat q * PAGE_SIZE + PAGE_SIZE \<le> nat pno * PAGE_SIZE \<or>
        nat pno * PAGE_SIZE + length (take n data) \<le> nat q * PAGE_SIZE" using n by auto
    then have "get_bytes (nat q * PAGE_SIZE) PAGE_SIZE (file_write (nat pno * PAGE_SIZE) (take n data) c) =
        get_bytes (nat q * PAGE_SIZE) PAGE_SIZE c" by (rule get_file_write_other[OF q(2)])
    then show ?thesis
      using True f c q by (simp add: disk_page_def fd_file_path fp fd_path_def length_file_write le_max_iff_disj)
  next
    case False
    obtain f' where f': "map_of (os_fds d) fd' = Some f'"
      using ex by (auto simp: disk_page_def fd_file_def split: option.splits)
    have "of_path f' \<noteq> of_path f" using disk_inv_path_inj[OF inv f f'] False by metis
    then show ?thesis
      using f' by (simp add: disk_page_def fd_file_path fp fd_path_def)
  qed
  show ?thesis
    using w same other fp disk_inv_write_page[OF inv w] by auto
qed

lemma write_page_disk_page:
  assumes inv: "disk_inv d" and op: "fd_path d fd \<noteq> None" and pa: "page_addressable pno"
    and len: "length data = PAGE_SIZE"
  shows "\<exists>d'. write_page fd pno data PAGE_SIZE d = (Inr (), d') \<and> disk_inv d' \<and>
     fd_path d' = fd_path d \<and> fd2pageno d' = fd2pageno d \<and> path2fd d' = path2fd d \<and>
     fd2path d' = fd2path d \<and> log_fd d' = log_fd d \<and>
     disk_page d' fd pno = Some data \<and>
     (\<forall>fd' q. (fd', q) \<noteq> (fd, pno) \<and> disk_page d fd' q \<noteq> None \<longrightarrow> disk_page d' fd' q = disk_page d fd' q)"
  using write_page_part[OF inv op pa, of PAGE_SIZE data] len pa
  by (fastforce simp: disk_page_bytes page_addressable_def)

section \<open>Properties of the disk manager\<close>

text \<open>C18: On an open descriptor, a page number whose byte offset fits an \<^verbatim>\<open>int\<close> and a whole page of
  data, \<^verbatim>\<open>write_page\<close> succeeds and the following \<^verbatim>\<open>read_page\<close> returns exactly the data written;
  every page of every open file that existed before still reads as before (no other page is
  overwritten, also not through another descriptor), and the open-file tables stay consistent.\<close>

theorem write_read_page:
  assumes "disk_inv d" and "fd_path d fd \<noteq> None" and "page_addressable pno"
    and "length data = PAGE_SIZE" and "length buf = PAGE_SIZE"
  shows "\<exists>d1 d2. write_page fd pno data PAGE_SIZE d = (Inr (), d1) \<and>
     read_page fd pno buf PAGE_SIZE d1 = (Inr (), data, d2) \<and> disk_inv d2 \<and>
     (\<forall>fd' q. (fd', q) \<noteq> (fd, pno) \<and> disk_page d fd' q \<noteq> None \<longrightarrow> disk_page d2 fd' q = disk_page d fd' q)"
proof -
  obtain d1 where w: "write_page fd pno data PAGE_SIZE d = (Inr (), d1)" and i: "disk_inv d1"
    and p: "disk_page d1 fd pno = Some data"
    and o: "\<forall>fd' q. (fd', q) \<noteq> (fd, pno) \<and> disk_page d fd' q \<noteq> None \<longrightarrow>
              disk_page d1 fd' q = disk_page d fd' q"
    using write_page_disk_page[OF assms(1-4)] by auto
  obtain r b d2 where rd: "read_page fd pno buf PAGE_SIZE d1 = (r, b, d2)"
    by (cases "read_page fd pno buf PAGE_SIZE d1") auto
  have "r = Inr () \<and> b = data"
    using read_page_disk_page[OF assms(3,5), where fd = fd and d = d1] p rd by simp
  then show ?thesis
    using w rd o disk_inv_read_page[OF i rd] same_store_page[OF read_page_same_store[OF rd]] by auto
qed

definition witness_disk :: DiskManager where
  "witness_disk = snd (open_file ''t'' (snd (create_file ''t'' new_DiskManager)))"

lemma witness_disk_facts: "disk_inv witness_disk" "fd_path witness_disk 3 = Some ''t''"
proof -
  show "disk_inv witness_disk"
    unfolding witness_disk_def
    by (metis disk_inv_new disk_inv_create disk_inv_open prod.collapse)
  show "fd_path witness_disk 3 = Some ''t''" by code_simp
qed

theorem write_read_page_witness:
  "\<exists>d1 d2. write_page 3 1 (replicate 4096 7) PAGE_SIZE witness_disk = (Inr (), d1) \<and>
     read_page 3 1 (replicate 4096 0) PAGE_SIZE d1 = (Inr (), replicate 4096 7, d2) \<and> disk_inv d2 \<and>
     (\<forall>fd' q. (fd', q) \<noteq> (3, 1) \<and> disk_page witness_disk fd' q \<noteq> None \<longrightarrow>
        disk_page d2 fd' q = disk_page witness_disk fd' q)"
  by (rule write_read_page)
    (simp_all add: witness_disk_facts page_addressable_def PAGE_SIZE_def INT_MAX_def)

text \<open>The states a disk manager goes through, over all its operations.\<close>

inductive disk_reach :: "DiskManager \<Rightarrow> bool" where
  init: "disk_reach new_DiskManager"
| mkdir: "disk_reach d \<Longrightarrow> disk_reach (create_dir p d)"
| rmdir: "disk_reach d \<Longrightarrow> (\<forall>q. path_under p q \<longrightarrow> path2fd d q = None) \<Longrightarrow> disk_reach (destroy_dir p d)"
| set_log: "disk_reach d \<Longrightarrow> disk_reach (SetLogFd fd d)"
| create: "disk_reach d \<Longrightarrow> create_file p d = (r, d') \<Longrightarrow> disk_reach d'"
| destroy: "disk_reach d \<Longrightarrow> destroy_file p d = (r, d') \<Longrightarrow> disk_reach d'"
| open_f: "disk_reach d \<Longrightarrow> open_file p d = (r1, d') \<Longrightarrow> disk_reach d'"
| get_fd: "disk_reach d \<Longrightarrow> get_file_fd p d = (r1, d') \<Longrightarrow> disk_reach d'"
| close: "disk_reach d \<Longrightarrow> close_file fd d = (r, d') \<Longrightarrow> disk_reach d'"
| write_p: "disk_reach d \<Longrightarrow> write_page fd q buf n d = (r, d') \<Longrightarrow> disk_reach d'"
| read_p: "disk_reach d \<Longrightarrow> read_page fd q buf n d = (r, b, d') \<Longrightarrow> disk_reach d'"
| alloc: "disk_reach d \<Longrightarrow> allocate_page fd d = (r2, d') \<Longrightarrow> disk_reach d'"
| set_no: "disk_reach d \<Longrightarrow> disk_reach (set_fd2pageno fd q d)"
| rlog: "disk_reach d \<Longrightarrow> read_log n1 off d = (r3, d') \<Longrightarrow> disk_reach d'"
| wlog: "disk_reach d \<Longrightarrow> write_log bs d = (r, d') \<Longrightarrow> disk_reach d'"

lemma disk_reach_inv: "disk_reach d \<Longrightarrow> disk_inv d"
proof (induction rule: disk_reach.induct)
  case (mkdir d p)
  show ?case by (rule disk_inv_cong[OF mkdir.IH]) (simp_all add: create_dir_def fd_path_def fun_eq_iff)
next
  case (rmdir d p)
  have sel: "path2fd (destroy_dir p d) = path2fd d" "fd2path (destroy_dir p d) = fd2path d" "fd_path (destroy_dir p d) = fd_path d"
    by (simp_all add: destroy_dir_def fd_path_def fun_eq_iff)
  have "files (destroy_dir p d) q \<noteq> None" if "path2fd d q \<noteq> None" for q
  proof -
    have "\<not> path_under p q" using that rmdir.hyps(2) by auto
    moreover have "files d q \<noteq> None" using that rmdir.IH unfolding disk_inv_def by metis
    ultimately show ?thesis by (simp add: destroy_dir_def)
  qed
  then show ?case using rmdir.IH unfolding disk_inv_def sel by metis
next
  case (get_fd d p r1 d')
  then show ?case by (auto simp: get_file_fd_def dest: disk_inv_open split: option.splits)
qed (auto simp: set_fd2pageno_def SetLogFd_def dest: disk_inv_create disk_inv_destroy disk_inv_open disk_inv_close
    disk_inv_write_page disk_inv_read_page disk_inv_allocate disk_inv_read_log disk_inv_write_log
    intro: disk_inv_new)



end
