(* ===== verification/BufferPool.thy ===== *)
theory BufferPool
  imports Replacer Disk
begin

text \<open>
  \<^verbatim>\<open>storage/page.h\<close> and \<^verbatim>\<open>storage/buffer_pool_manager.cpp\<close> on top of the LRU replacer and the disk
  manager. A \<^verbatim>\<open>Page*\<close> is the frame number; a client changes a pinned page through \<open>page_write\<close>.
  The file ends with the contract that the record and index layers use: the pool shows every page of
  every open file as if it were in memory (\<open>page_view\<close>), whatever is evicted in between.
\<close>

section \<open>Pages\<close>

record PageId =
  pid_fd :: int
  pid_page_no :: page_id_t

definition PageId_toString :: "PageId \<Rightarrow> string" where
  "PageId_toString x = ''{fd: '' @ to_string (pid_fd x) @ '' page_no: '' @ to_string (pid_page_no x) @ ''}''"

text \<open>\<^verbatim>\<open>operator<\<close> as written: either component may decide on its own.\<close>

definition PageId_less :: "PageId \<Rightarrow> PageId \<Rightarrow> bool" where
  "PageId_less x y \<longleftrightarrow> (if pid_fd x < pid_fd y then True else pid_page_no x < pid_page_no y)"

text \<open>\<^verbatim>\<open>PageId::Get\<close> and \<^verbatim>\<open>PageIdHash\<close>: the 32-bit shift of the descriptor, or-ed with the page number
  after sign extension.\<close>

definition PageId_Get :: "PageId \<Rightarrow> int" where
  "PageId_Get x = (c_int (pid_fd x * 65536)) OR pid_page_no x"

record Page =
  pg_id :: PageId
  pg_data :: "byte list"
  pg_dirty :: bool
  pg_pin :: int

definition OFFSET_LSN :: nat where "OFFSET_LSN = 0"
definition OFFSET_PAGE_HDR :: nat where "OFFSET_PAGE_HDR = 4"

definition zero_page :: "byte list" where
  "zero_page = replicate PAGE_SIZE 0"

text \<open>A page as constructed: zeroed data, page number -1, and a descriptor field that the
  constructor leaves as it is (the parameter).\<close>

definition new_Page :: "int \<Rightarrow> Page" where
  "new_Page fd0 = \<lparr>pg_id = \<lparr>pid_fd = fd0, pid_page_no = INVALID_PAGE_ID\<rparr>, pg_data = zero_page,
     pg_dirty = False, pg_pin = 0\<rparr>"

definition get_page_lsn :: "Page \<Rightarrow> lsn_t" where
  "get_page_lsn p = dec_int OFFSET_LSN (pg_data p)"

definition set_page_lsn :: "lsn_t \<Rightarrow> Page \<Rightarrow> Page" where
  "set_page_lsn lsn p = p\<lparr>pg_data := put_bytes OFFSET_LSN (enc_int lsn) (pg_data p)\<rparr>"

section \<open>The buffer pool\<close>

record BufferPoolManager =
  bp_pool_size :: nat
  bp_pages :: "Page list"
  bp_table :: "(PageId \<times> frame_id_t) list"
  bp_free :: "frame_id_t list"
  bp_replacer :: LRUReplacer
  bp_disk :: DiskManager

definition new_BufferPoolManager :: "nat \<Rightarrow> (nat \<Rightarrow> int) \<Rightarrow> DiskManager \<Rightarrow> BufferPoolManager" where
  "new_BufferPoolManager n fd0 d = \<lparr>bp_pool_size = n, bp_pages = map (\<lambda>i. new_Page (fd0 i)) [0..<n],
     bp_table = [], bp_free = [0..<n], bp_replacer = new_LRUReplacer n, bp_disk = d\<rparr>"

abbreviation bp_frame :: "BufferPoolManager \<Rightarrow> frame_id_t \<Rightarrow> Page" where
  "bp_frame b f \<equiv> bp_pages b ! f"

definition set_page :: "frame_id_t \<Rightarrow> (Page \<Rightarrow> Page) \<Rightarrow> BufferPoolManager \<Rightarrow> BufferPoolManager" where
  "set_page f g b = b\<lparr>bp_pages := (bp_pages b)[f := g (bp_pages b ! f)]\<rparr>"

definition mark_dirty :: "frame_id_t \<Rightarrow> BufferPoolManager \<Rightarrow> BufferPoolManager" where
  "mark_dirty f b = set_page f (\<lambda>p. p\<lparr>pg_dirty := True\<rparr>) b"

text \<open>A client writing through \<^verbatim>\<open>page->get_data()\<close>.\<close>

definition page_write :: "frame_id_t \<Rightarrow> (byte list \<Rightarrow> byte list) \<Rightarrow> BufferPoolManager \<Rightarrow> BufferPoolManager" where
  "page_write f g b = set_page f (\<lambda>p. p\<lparr>pg_data := g (pg_data p)\<rparr>) b"

definition bp_write_page :: "PageId \<Rightarrow> byte list \<Rightarrow> (BufferPoolManager, unit) em" where
  "bp_write_page pid data b =
     (case write_page (pid_fd pid) (pid_page_no pid) data PAGE_SIZE (bp_disk b) of
        (r, d) \<Rightarrow> (r, b\<lparr>bp_disk := d\<rparr>))"

definition find_victim_page :: "BufferPoolManager \<Rightarrow> frame_id_t option \<times> BufferPoolManager" where
  "find_victim_page b =
     (case bp_free b of
        f # fs \<Rightarrow> (Some f, b\<lparr>bp_free := fs\<rparr>)
      | [] \<Rightarrow> (case lru_victim (bp_replacer b) of (v, r) \<Rightarrow> (v, b\<lparr>bp_replacer := r\<rparr>)))"

definition update_page :: "frame_id_t \<Rightarrow> PageId \<Rightarrow> (BufferPoolManager, unit) em" where
  "update_page f new_page_id =
     em_then
       (\<lambda>b. if pg_dirty (bp_frame b f)
             then em_then (bp_write_page (pg_id (bp_frame b f)) (pg_data (bp_frame b f)))
                    (em_modify (set_page f (\<lambda>p. p\<lparr>pg_dirty := False\<rparr>))) b
             else em_return () b)
       (em_modify (\<lambda>b.
          let b1 = b\<lparr>bp_table := AList.delete (pg_id (bp_frame b f)) (bp_table b)\<rparr>;
              b2 = set_page f (\<lambda>p. p\<lparr>pg_id := new_page_id\<rparr>) b1
          in b2\<lparr>bp_table := AList.update new_page_id f (bp_table b2)\<rparr>))"

definition erase_frame_id :: "frame_id_t \<Rightarrow> BufferPoolManager \<Rightarrow> BufferPoolManager" where
  "erase_frame_id f b = b\<lparr>bp_table := AList.delete (pg_id (bp_frame b f)) (bp_table b)\<rparr>"

text \<open>The last assignments of \<^verbatim>\<open>fetch_page\<close> and \<^verbatim>\<open>new_page\<close>: the frame now holds \<open>pid\<close>, pinned once.\<close>

definition attach_frame :: "frame_id_t \<Rightarrow> PageId \<Rightarrow> BufferPoolManager \<Rightarrow> BufferPoolManager" where
  "attach_frame f pid b =
     (let b1 = set_page f (\<lambda>p. p\<lparr>pg_id := pid, pg_pin := 1, pg_dirty := False\<rparr>) b
      in b1\<lparr>bp_table := AList.update pid f (bp_table b1), bp_replacer := lru_pin f (bp_replacer b1)\<rparr>)"

text \<open>\<open>None\<close> is the null pointer. The read goes into the frame's own memory, also when it fails.\<close>

definition fetch_page :: "PageId \<Rightarrow> (BufferPoolManager, frame_id_t option) em" where
  "fetch_page pid b =
     (case map_of (bp_table b) pid of
        Some f \<Rightarrow>
          (Inr (Some f), set_page f (\<lambda>p. p\<lparr>pg_pin := pg_pin p + 1\<rparr>) (b\<lparr>bp_replacer := lru_pin f (bp_replacer b)\<rparr>))
      | None \<Rightarrow>
          (case find_victim_page b of
             (None, b1) \<Rightarrow> (Inr None, b1)
           | (Some f, b1) \<Rightarrow>
               em_then (\<lambda>b. if pg_dirty (bp_frame b f) then update_page f pid b else em_return () b)
                 (\<lambda>b2. let b3 = erase_frame_id f b2
                       in case read_page (pid_fd pid) (pid_page_no pid) (pg_data (bp_frame b3 f)) PAGE_SIZE (bp_disk b3)
                          of (r, buf, d) \<Rightarrow>
                            let b4 = page_write f (\<lambda>_. buf) (b3\<lparr>bp_disk := d\<rparr>)
                            in case r of
                                 Inl e \<Rightarrow> (Inl e, b4)
                               | Inr _ \<Rightarrow> (Inr (Some f), attach_frame f pid b4)) b1))"

definition unpin_page :: "PageId \<Rightarrow> bool \<Rightarrow> BufferPoolManager \<Rightarrow> bool \<times> BufferPoolManager" where
  "unpin_page pid is_dirty b =
     (case map_of (bp_table b) pid of
        None \<Rightarrow> (False, b)
      | Some f \<Rightarrow>
          if pg_pin (bp_frame b f) \<le> 0 then (False, b)
          else
            let b1 = set_page f (\<lambda>p. p\<lparr>pg_pin := pg_pin p - 1\<rparr>) b;
                b2 = (if pg_pin (bp_frame b1 f) = 0
                      then b1\<lparr>bp_replacer := lru_unpin f (bp_replacer b1)\<rparr> else b1);
                b3 = (if is_dirty then set_page f (\<lambda>p. p\<lparr>pg_dirty := True\<rparr>) b2 else b2)
            in (True, b3))"

definition flush_page :: "PageId \<Rightarrow> (BufferPoolManager, bool) em" where
  "flush_page pid b =
     (case map_of (bp_table b) pid of
        None \<Rightarrow> (Inr False, b)
      | Some f \<Rightarrow>
          em_then (bp_write_page pid (pg_data (bp_frame b f)))
            (em_then (em_modify (set_page f (\<lambda>p. p\<lparr>pg_dirty := False\<rparr>))) (em_return True)) b)"

text \<open>\<open>new_page fd\<close> returns the new page number and its frame (the code stores the former through its
  argument).\<close>

definition new_page :: "int \<Rightarrow> (BufferPoolManager, (page_id_t \<times> frame_id_t) option) em" where
  "new_page fd b =
     (case find_victim_page b of
        (None, b1) \<Rightarrow> (Inr None, b1)
      | (Some f, b1) \<Rightarrow>
          em_then
            (\<lambda>b. if pg_dirty (bp_frame b f)
                  then bp_write_page (pg_id (bp_frame b f)) (pg_data (bp_frame b f)) b else em_return () b)
            (\<lambda>b2. let b3 = erase_frame_id f b2
                  in case allocate_page fd (bp_disk b3) of
                       (Inl e, d) \<Rightarrow> (Inl e, b3\<lparr>bp_disk := d\<rparr>)
                     | (Inr pno, d) \<Rightarrow>
                         (Inr (Some (pno, f)),
                          attach_frame f \<lparr>pid_fd = fd, pid_page_no = pno\<rparr>
                            (page_write f (\<lambda>_. zero_page) (b3\<lparr>bp_disk := d\<rparr>)))) b1)"

text \<open>Taking a frame out of the pool, as \<^verbatim>\<open>delete_page\<close> and \<^verbatim>\<open>remove_all_pages\<close> end.\<close>

definition invalid_pid :: PageId where
  "invalid_pid = \<lparr>pid_fd = INVALID_PAGE_ID, pid_page_no = INVALID_PAGE_ID\<rparr>"

definition drop_frame :: "PageId \<Rightarrow> frame_id_t \<Rightarrow> (int \<Rightarrow> int) \<Rightarrow> BufferPoolManager \<Rightarrow> BufferPoolManager" where
  "drop_frame pid f pin b =
     (let b1 = b\<lparr>bp_table := AList.delete pid (bp_table b), bp_replacer := lru_pin f (bp_replacer b)\<rparr>;
          b2 = set_page f (\<lambda>p. p\<lparr>pg_data := zero_page, pg_id := invalid_pid, pg_pin := pin (pg_pin p),
                                 pg_dirty := False\<rparr>) b1
      in b2\<lparr>bp_free := bp_free b2 @ [f]\<rparr>)"

definition delete_page :: "PageId \<Rightarrow> (BufferPoolManager, bool) em" where
  "delete_page pid b =
     (case map_of (bp_table b) pid of
        None \<Rightarrow> (Inr True, b)
      | Some f \<Rightarrow>
          if pg_pin (bp_frame b f) \<noteq> 0 then (Inr False, b)
          else
            em_then
              (\<lambda>b. if pg_dirty (bp_frame b f) then bp_write_page pid (pg_data (bp_frame b f)) b else em_return () b)
              (em_then (em_modify (drop_frame pid f id)) (em_return True)) b)"

text \<open>The two flushing loops, over the entries of the page table (their order is the hash table's and
  is left open by the code).\<close>

fun flush_entries :: "(PageId \<Rightarrow> Page \<Rightarrow> bool) \<Rightarrow> (PageId \<times> frame_id_t) list \<Rightarrow> (BufferPoolManager, unit) em" where
  "flush_entries P [] = em_return ()"
| "flush_entries P ((pid, f) # es) =
     em_then
       (\<lambda>b. if P pid (bp_frame b f)
             then em_then (bp_write_page pid (pg_data (bp_frame b f)))
                    (em_modify (set_page f (\<lambda>p. p\<lparr>pg_dirty := False\<rparr>))) b
             else em_return () b)
       (flush_entries P es)"

definition flush_all_pages :: "int \<Rightarrow> (BufferPoolManager, unit) em" where
  "flush_all_pages fd b = flush_entries (\<lambda>pid p. pid_fd pid = fd) (bp_table b) b"

definition flush_all_dirty_pages :: "(BufferPoolManager, unit) em" where
  "flush_all_dirty_pages b = flush_entries (\<lambda>pid p. pg_dirty p) (bp_table b) b"

definition remove_all_pages :: "int \<Rightarrow> BufferPoolManager \<Rightarrow> BufferPoolManager" where
  "remove_all_pages fd b =
     (let to_remove = filter (\<lambda>pid. pid_fd pid = fd) (map fst (bp_table b))
      in fold (\<lambda>pid b. case map_of (bp_table b) pid of
                         Some f \<Rightarrow> drop_frame pid f (\<lambda>_. 0) b | None \<Rightarrow> b) to_remove b)"

section \<open>Invariant and view\<close>

text \<open>\<open>bp_struct\<close> relates the pool's data structures; frames that are in none of them (a failed read
  after the victim was taken leaves one) are allowed. \<open>page_ok\<close> says that a page id can be written
  and read: its file is open and its number was allocated. \<open>bp_inv\<close> adds that an unpinned clean
  frame agrees with the disk.\<close>

definition bp_struct :: "BufferPoolManager \<Rightarrow> bool" where
  "bp_struct b \<longleftrightarrow>
     length (bp_pages b) = bp_pool_size b \<and>
     (\<forall>f < bp_pool_size b. length (pg_data (bp_frame b f)) = PAGE_SIZE) \<and>
     lru_inv (bp_replacer b) \<and> max_size (bp_replacer b) = bp_pool_size b \<and>
     distinct (bp_free b) \<and> distinct (map fst (bp_table b)) \<and>
     (\<forall>f \<in> set (bp_free b). f < bp_pool_size b \<and> \<not> pg_dirty (bp_frame b f) \<and>
        pid_page_no (pg_id (bp_frame b f)) = -1 \<and> f \<notin> ran (map_of (bp_table b))) \<and>
     (\<forall>pid f. map_of (bp_table b) pid = Some f \<longrightarrow>
        f < bp_pool_size b \<and> pg_id (bp_frame b f) = pid \<and> 0 \<le> pg_pin (bp_frame b f) \<and> pid_page_no pid \<noteq> -1) \<and>
     (\<forall>f. f \<in> set (lru_frames (bp_replacer b)) \<longleftrightarrow>
        f \<in> ran (map_of (bp_table b)) \<and> pg_pin (bp_frame b f) = 0)"

definition page_ok :: "DiskManager \<Rightarrow> PageId \<Rightarrow> bool" where
  "page_ok d pid \<longleftrightarrow> fd_path d (pid_fd pid) \<noteq> None \<and> page_addressable (pid_page_no pid) \<and>
     pid_page_no pid < fd2pageno d (pid_fd pid)"

definition frame_clean_ok :: "BufferPoolManager \<Rightarrow> PageId \<Rightarrow> frame_id_t \<Rightarrow> bool" where
  "frame_clean_ok b pid f \<longleftrightarrow> pg_dirty (bp_frame b f) \<or>
     disk_page (bp_disk b) (pid_fd pid) (pid_page_no pid) = Some (pg_data (bp_frame b f))"

definition bp_inv :: "BufferPoolManager \<Rightarrow> bool" where
  "bp_inv b \<longleftrightarrow> bp_struct b \<and> disk_inv (bp_disk b) \<and>
     (\<forall>pid f. map_of (bp_table b) pid = Some f \<longrightarrow> page_ok (bp_disk b) pid) \<and>
     (\<forall>pid f. map_of (bp_table b) pid = Some f \<and> pg_pin (bp_frame b f) = 0 \<longrightarrow> frame_clean_ok b pid f)"

definition page_view :: "BufferPoolManager \<Rightarrow> PageId \<Rightarrow> byte list option" where
  "page_view b pid =
     (case map_of (bp_table b) pid of
        Some f \<Rightarrow> Some (pg_data (bp_frame b f))
      | None \<Rightarrow> disk_page (bp_disk b) (pid_fd pid) (pid_page_no pid))"

text \<open>Every page that could be read before reads the same after.\<close>

definition view_le :: "BufferPoolManager \<Rightarrow> BufferPoolManager \<Rightarrow> bool" where
  "view_le b b' \<longleftrightarrow> (\<forall>pid. page_view b pid \<noteq> None \<longrightarrow> page_view b' pid = page_view b pid)"

definition disk_le :: "DiskManager \<Rightarrow> DiskManager \<Rightarrow> bool" where
  "disk_le d d' \<longleftrightarrow> fd_path d' = fd_path d \<and> fd2pageno d' = fd2pageno d \<and>
     path2fd d' = path2fd d \<and> fd2path d' = fd2path d \<and> log_fd d' = log_fd d"

lemma disk_le_refl [simp]: "disk_le d d" by (simp add: disk_le_def)
lemma disk_le_trans: "disk_le d d' \<Longrightarrow> disk_le d' d'' \<Longrightarrow> disk_le d d''" by (simp add: disk_le_def)
lemma same_store_le: "same_store d d' \<Longrightarrow> disk_le d d'" by (simp add: disk_le_def same_store_def)
lemma page_ok_le: "disk_le d d' \<Longrightarrow> page_ok d' pid = page_ok d pid" by (simp add: disk_le_def page_ok_def)

lemma view_le_refl [simp]: "view_le b b" by (simp add: view_le_def)
lemma view_le_trans: "view_le b b' \<Longrightarrow> view_le b' b'' \<Longrightarrow> view_le b b''"
  by (simp add: view_le_def)

lemma view_le_Some: "view_le b b' \<Longrightarrow> page_view b pid = Some x \<Longrightarrow> page_view b' pid = Some x"
  by (simp add: view_le_def)

subsection \<open>Projections of updates\<close>

lemma set_page_sel [simp]:
  "bp_pool_size (set_page f g b) = bp_pool_size b" "bp_table (set_page f g b) = bp_table b"
  "bp_free (set_page f g b) = bp_free b" "bp_replacer (set_page f g b) = bp_replacer b"
  "bp_disk (set_page f g b) = bp_disk b" "length (bp_pages (set_page f g b)) = length (bp_pages b)"
  by (simp_all add: set_page_def)

lemma set_page_nth: "f < length (bp_pages b) \<Longrightarrow>
  bp_frame (set_page f g b) f' = (if f' = f then g (bp_frame b f) else bp_frame b f')"
  by (simp add: set_page_def)

lemma set_page_other: "f' \<noteq> f \<Longrightarrow> bp_frame (set_page f g b) f' = bp_frame b f'"
  by (simp add: set_page_def)

lemma bp_struct_len: "bp_struct b \<Longrightarrow> length (bp_pages b) = bp_pool_size b"
  by (simp add: bp_struct_def)

lemma bp_struct_table:
  assumes "bp_struct b" and "map_of (bp_table b) pid = Some f"
  shows "f < bp_pool_size b" "pg_id (bp_frame b f) = pid" "0 \<le> pg_pin (bp_frame b f)"
    "pid_page_no pid \<noteq> -1" "f < length (bp_pages b)" "length (pg_data (bp_frame b f)) = PAGE_SIZE"
    "f \<notin> set (bp_free b)"
  using assms by (auto simp: bp_struct_def intro: ranI)

lemma bp_table_inj:
  assumes "bp_struct b" and "map_of (bp_table b) pid = Some f" and "map_of (bp_table b) pid' = Some f"
  shows "pid' = pid"
  using bp_struct_table(2)[OF assms(1,2)] bp_struct_table(2)[OF assms(1,3)] by simp

lemma bp_inv_struct: "bp_inv b \<Longrightarrow> bp_struct b" by (simp add: bp_inv_def)
lemma bp_inv_disk: "bp_inv b \<Longrightarrow> disk_inv (bp_disk b)" by (simp add: bp_inv_def)
lemma bp_inv_ok: "bp_inv b \<Longrightarrow> map_of (bp_table b) pid = Some f \<Longrightarrow> page_ok (bp_disk b) pid"
  by (simp add: bp_inv_def)
lemma bp_inv_clean: "bp_inv b \<Longrightarrow> map_of (bp_table b) pid = Some f \<Longrightarrow> pg_pin (bp_frame b f) = 0 \<Longrightarrow>
  frame_clean_ok b pid f"
  by (simp add: bp_inv_def)

text \<open>A frame in none of the structures: taken from them, or lost.\<close>

definition detached :: "BufferPoolManager \<Rightarrow> frame_id_t \<Rightarrow> bool" where
  "detached b f \<longleftrightarrow> f < bp_pool_size b \<and> f \<notin> ran (map_of (bp_table b)) \<and> f \<notin> set (bp_free b)"

lemma detached_not_table: "detached b f \<Longrightarrow> map_of (bp_table b) pid \<noteq> Some f"
  by (auto simp: detached_def intro: ranI)

lemma ran_delete:
  "f \<in> ran (map_of (AList.delete pid t)) \<longleftrightarrow> (\<exists>pid'. pid' \<noteq> pid \<and> map_of t pid' = Some f)"
  by (auto simp: delete_conv' ran_def)

lemma ran_update:
  "f \<in> ran (map_of (AList.update pid f0 t)) \<longleftrightarrow> f = f0 \<or> (\<exists>pid'. pid' \<noteq> pid \<and> map_of t pid' = Some f)"
  by (auto simp: update_conv' ran_def)

subsection \<open>Victims\<close>

lemma find_victim_None:
  assumes "bp_struct b" and "find_victim_page b = (None, b')"
  shows "b' = b" "bp_free b = []" "lru_frames (bp_replacer b) = []"
proof -
  have i: "lru_inv (bp_replacer b)" using assms(1) by (simp add: bp_struct_def)
  from assms(2) show f: "bp_free b = []" by (auto simp: find_victim_page_def split: list.splits)
  obtain v r where v: "lru_victim (bp_replacer b) = (v, r)" by fastforce
  with assms(2) f have "v = None" "b' = b\<lparr>bp_replacer := r\<rparr>" by (simp_all add: find_victim_page_def)
  with i v show "b' = b" "lru_frames (bp_replacer b) = []"
    by (auto elim: lru.victim_cases)
qed

text \<open>The victim is a free frame, or the oldest unpinned one.\<close>

lemma find_victim_Some:
  assumes "bp_struct b" and "find_victim_page b = (Some f, b')"
  obtains (free) fs where "bp_free b = f # fs" "b' = b\<lparr>bp_free := fs\<rparr>"
  | (evict) r pid where "bp_free b = []" "b' = b\<lparr>bp_replacer := r\<rparr>" "lru_frames (bp_replacer b) = f # lru_frames r"
      "lru_inv r" "max_size r = bp_pool_size b" "map_of (bp_table b) pid = Some f" "pg_pin (bp_frame b f) = 0"
proof (cases "bp_free b")
  case (Cons f' fs)
  with assms(2) free show ?thesis by (simp add: find_victim_page_def)
next
  case Nil
  have i: "lru_inv (bp_replacer b)" and m: "max_size (bp_replacer b) = bp_pool_size b"
    using assms(1) by (simp_all add: bp_struct_def)
  obtain v r where v: "lru_victim (bp_replacer b) = (v, r)" by fastforce
  with assms(2) Nil have s: "v = Some f" "b' = b\<lparr>bp_replacer := r\<rparr>" by (simp_all add: find_victim_page_def)
  from i v have l: "lru_frames (bp_replacer b) = f # lru_frames r" "lru_inv r" "max_size r = max_size (bp_replacer b)"
    by (cases rule: lru.victim_cases; use s in auto)+
  then have "f \<in> ran (map_of (bp_table b)) \<and> pg_pin (bp_frame b f) = 0"
    using assms(1) by (auto simp: bp_struct_def)
  then obtain pid where "map_of (bp_table b) pid = Some f" "pg_pin (bp_frame b f) = 0"
    by (auto simp: ran_def)
  with l s Nil m show ?thesis by (intro evict) simp_all
qed

subsection \<open>Writing one page to disk\<close>

definition disk_grow :: "PageId \<Rightarrow> DiskManager \<Rightarrow> DiskManager \<Rightarrow> bool" where
  "disk_grow pid d d' \<longleftrightarrow> disk_inv d' \<and> disk_le d d' \<and>
     (\<forall>fd q. (fd, q) \<noteq> (pid_fd pid, pid_page_no pid) \<and> disk_page d fd q \<noteq> None \<longrightarrow>
        disk_page d' fd q = disk_page d fd q)"

lemma disk_grow_refl: "disk_inv d \<Longrightarrow> disk_grow pid d d"
  by (simp add: disk_grow_def)

lemma pid_eq_iff: "(pid_fd (p :: PageId), pid_page_no p) = (pid_fd q, pid_page_no q) \<longleftrightarrow> p = q"
  by (cases p; cases q) auto

lemma bp_write_page_ok:
  assumes "disk_inv (bp_disk b)" and "page_ok (bp_disk b) pid" and "length data = PAGE_SIZE"
  obtains d' where "bp_write_page pid data b = (Inr (), b\<lparr>bp_disk := d'\<rparr>)"
    "disk_grow pid (bp_disk b) d'" "disk_page d' (pid_fd pid) (pid_page_no pid) = Some data"
proof -
  have "\<exists>d'. write_page (pid_fd pid) (pid_page_no pid) data PAGE_SIZE (bp_disk b) = (Inr (), d') \<and>
      disk_grow pid (bp_disk b) d' \<and> disk_page d' (pid_fd pid) (pid_page_no pid) = Some data"
    using write_page_disk_page[OF assms(1) _ _ assms(3), of "pid_fd pid" "pid_page_no pid"] assms(2)
    unfolding page_ok_def disk_grow_def disk_le_def by auto
  then show ?thesis using that by (auto simp: bp_write_page_def)
qed

subsection \<open>Taking a frame out of the table\<close>

text \<open>\<open>frames_but f b b'\<close>: the frames other than \<open>f\<close> are as they were.\<close>

definition frames_but :: "frame_id_t \<Rightarrow> BufferPoolManager \<Rightarrow> BufferPoolManager \<Rightarrow> bool" where
  "frames_but f b b' \<longleftrightarrow> bp_pool_size b' = bp_pool_size b \<and> length (bp_pages b') = length (bp_pages b) \<and>
     length (pg_data (bp_frame b' f)) = PAGE_SIZE \<and> (\<forall>f'. f' \<noteq> f \<longrightarrow> bp_frame b' f' = bp_frame b f')"

lemma release_struct:
  assumes s: "bp_struct b" and t: "map_of (bp_table b) pid = Some f"
    and r: "lru_inv (bp_replacer b')" "max_size (bp_replacer b') = bp_pool_size b"
      "set (lru_frames (bp_replacer b')) = set (lru_frames (bp_replacer b)) - {f}"
    and fb: "frames_but f b b'" and fr: "bp_free b' = bp_free b"
    and tb: "distinct (map fst (bp_table b'))" "map_of (bp_table b') = (map_of (bp_table b))(pid := None)"
  shows "bp_struct b'" "detached b' f"
proof -
  have fl: "f < bp_pool_size b" "f \<notin> set (bp_free b)" using bp_struct_table[OF s t] by auto
  have rn: "f' \<in> ran (map_of (bp_table b')) \<longleftrightarrow> f' \<noteq> f \<and> f' \<in> ran (map_of (bp_table b))" for f'
  proof -
    have "f' \<in> ran (map_of (bp_table b')) \<longleftrightarrow> (\<exists>p. p \<noteq> pid \<and> map_of (bp_table b) p = Some f')"
      by (auto simp: tb(2) ran_def)
    moreover have "f' \<in> ran (map_of (bp_table b)) \<longleftrightarrow> (\<exists>p. map_of (bp_table b) p = Some f')"
      by (simp add: ran_def)
    moreover have "p = pid \<longleftrightarrow> f' = f" if "map_of (bp_table b) p = Some f'" for p
      using that t bp_table_inj[OF s t, of p] by auto
    ultimately show ?thesis by blast
  qed
  show "detached b' f" using fl fr fb rn by (simp add: detached_def frames_but_def)
  have lens: "\<forall>f' < bp_pool_size b'. length (pg_data (bp_frame b' f')) = PAGE_SIZE"
  proof (intro allI impI)
    fix f' assume "f' < bp_pool_size b'"
    with s fb show "length (pg_data (bp_frame b' f')) = PAGE_SIZE"
      by (cases "f' = f") (simp_all add: bp_struct_def frames_but_def)
  qed
  have frees: "\<forall>f' \<in> set (bp_free b'). f' < bp_pool_size b' \<and> \<not> pg_dirty (bp_frame b' f') \<and>
        pid_page_no (pg_id (bp_frame b' f')) = -1 \<and> f' \<notin> ran (map_of (bp_table b'))"
    using s fb fl(2) rn unfolding bp_struct_def frames_but_def fr by metis
  have tabs: "\<forall>pid' f'. map_of (bp_table b') pid' = Some f' \<longrightarrow>
        f' < bp_pool_size b' \<and> pg_id (bp_frame b' f') = pid' \<and> 0 \<le> pg_pin (bp_frame b' f') \<and> pid_page_no pid' \<noteq> -1"
  proof (intro allI impI)
    fix pid' f' assume "map_of (bp_table b') pid' = Some f'"
    then have m: "map_of (bp_table b) pid' = Some f'" and ne: "pid' \<noteq> pid"
      by (auto simp: tb(2) split: if_splits)
    then have "f' \<noteq> f" using bp_table_inj[OF s t] by blast
    then show "f' < bp_pool_size b' \<and> pg_id (bp_frame b' f') = pid' \<and> 0 \<le> pg_pin (bp_frame b' f') \<and> pid_page_no pid' \<noteq> -1"
      using bp_struct_table[OF s m] fb by (simp add: frames_but_def)
  qed
  have reps: "\<forall>f'. f' \<in> set (lru_frames (bp_replacer b')) \<longleftrightarrow>
        f' \<in> ran (map_of (bp_table b')) \<and> pg_pin (bp_frame b' f') = 0"
    using s fb rn unfolding bp_struct_def frames_but_def r(3) by (metis Diff_iff singleton_iff)
  show "bp_struct b'"
    unfolding bp_struct_def using lens frees tabs reps r(1,2) tb(1) s fb
    by (auto simp: bp_struct_def frames_but_def fr)
qed

lemma release_inv:
  assumes i: "bp_inv b" and t: "map_of (bp_table b) pid = Some f"
    and r: "lru_inv (bp_replacer b')" "max_size (bp_replacer b') = bp_pool_size b"
      "set (lru_frames (bp_replacer b')) = set (lru_frames (bp_replacer b)) - {f}"
    and fb: "frames_but f b b'" and fr: "bp_free b' = bp_free b"
    and tb: "distinct (map fst (bp_table b'))" "map_of (bp_table b') = (map_of (bp_table b))(pid := None)"
    and g: "disk_grow pid (bp_disk b) (bp_disk b')"
    and dp: "disk_page (bp_disk b') (pid_fd pid) (pid_page_no pid) = Some (pg_data (bp_frame b f))"
  shows "bp_inv b'" "detached b' f" "view_le b b'"
proof -
  note s = bp_inv_struct[OF i]
  note rel = release_struct[OF s t r fb fr tb]
  show "detached b' f" by (rule rel(2))
  have old: "map_of (bp_table b) pid' = Some f' \<and> f' \<noteq> f \<and> pid' \<noteq> pid"
    if "map_of (bp_table b') pid' = Some f'" for pid' f'
    using that t by (auto simp: tb(2) split: if_splits dest: bp_table_inj[OF s t])
  have same: "disk_page (bp_disk b') (pid_fd p) (pid_page_no p) = Some x"
    if "p \<noteq> pid" "disk_page (bp_disk b) (pid_fd p) (pid_page_no p) = Some x" for p x
    using g that pid_eq_iff[of p pid] unfolding disk_grow_def by (metis option.discI)
  have ok: "page_ok (bp_disk b') pid'" if "map_of (bp_table b') pid' = Some f'" for pid' f'
    using bp_inv_ok[OF i] old[OF that] g page_ok_le unfolding disk_grow_def by metis
  have cl: "frame_clean_ok b' pid' f'"
    if m: "map_of (bp_table b') pid' = Some f'" and p0: "pg_pin (bp_frame b' f') = 0" for pid' f'
  proof -
    have e: "bp_frame b' f' = bp_frame b f'" using fb old[OF m] by (simp add: frames_but_def)
    with bp_inv_clean[OF i] old[OF m] p0 have "frame_clean_ok b pid' f'" by auto
    with e same old[OF m] show ?thesis unfolding frame_clean_ok_def by metis
  qed
  show "bp_inv b'"
    unfolding bp_inv_def using rel(1) ok cl g by (simp add: disk_grow_def)
  show "view_le b b'"
    unfolding view_le_def
  proof (intro allI impI)
    fix p assume v: "page_view b p \<noteq> None"
    show "page_view b' p = page_view b p"
    proof (cases "p = pid")
      case True
      then show ?thesis using t dp by (simp add: page_view_def tb(2))
    next
      case ne: False
      show ?thesis
      proof (cases "map_of (bp_table b) p")
        case None
        then have "disk_page (bp_disk b) (pid_fd p) (pid_page_no p) \<noteq> None"
          using v by (simp add: page_view_def)
        then have "disk_page (bp_disk b') (pid_fd p) (pid_page_no p) = disk_page (bp_disk b) (pid_fd p) (pid_page_no p)"
          using same[OF ne] by fastforce
        with None ne show ?thesis by (simp add: page_view_def tb(2))
      next
        case (Some f')
        moreover have "f' \<noteq> f" using Some ne bp_table_inj[OF s t] by blast
        ultimately show ?thesis using ne fb by (simp add: page_view_def tb(2) frames_but_def)
      qed
    qed
  qed
qed

subsection \<open>Preparing the victim's frame\<close>

text \<open>What holds of the pool \<open>b'\<close> once frame \<open>f\<close> was taken from pool \<open>b\<close>.\<close>

definition frame_taken :: "frame_id_t \<Rightarrow> BufferPoolManager \<Rightarrow> BufferPoolManager \<Rightarrow> bool" where
  "frame_taken f b b' \<longleftrightarrow> bp_inv b' \<and> detached b' f \<and> view_le b b' \<and> disk_le (bp_disk b) (bp_disk b') \<and>
     frames_but f b b' \<and> (\<forall>pid. map_of (bp_table b') pid = (if map_of (bp_table b) pid = Some f then None else map_of (bp_table b) pid)) \<and>
     (\<forall>pid. map_of (bp_table b) pid = Some f \<longrightarrow> pg_pin (bp_frame b f) = 0)"

lemma taken_free:
  assumes i: "bp_inv b" and fr: "bp_free b = f # fs"
  shows "\<not> pg_dirty (bp_frame b f)" "frame_taken f b (erase_frame_id f (b\<lparr>bp_free := fs\<rparr>))"
proof -
  note s = bp_inv_struct[OF i]
  have f: "f < bp_pool_size b" "\<not> pg_dirty (bp_frame b f)" "pid_page_no (pg_id (bp_frame b f)) = -1"
      "f \<notin> ran (map_of (bp_table b))" "f \<notin> set fs"
    using s fr by (auto simp: bp_struct_def)
  show "\<not> pg_dirty (bp_frame b f)" by (rule f(2))
  have nt: "map_of (bp_table b) (pg_id (bp_frame b f)) = None"
    using bp_struct_table(4)[OF s] f(3) by (metis not_None_eq)
  then have "pg_id (bp_frame b f) \<notin> fst ` set (bp_table b)" by (simp add: map_of_eq_None_iff)
  then have e: "erase_frame_id f (b\<lparr>bp_free := fs\<rparr>) = b\<lparr>bp_free := fs\<rparr>"
    by (simp add: erase_frame_id_def)
  have st: "bp_struct (b\<lparr>bp_free := fs\<rparr>)" using s fr by (auto simp: bp_struct_def)
  have "bp_inv (b\<lparr>bp_free := fs\<rparr>)"
    using i st by (simp add: bp_inv_def frame_clean_ok_def)
  moreover have "detached (b\<lparr>bp_free := fs\<rparr>) f" using f by (simp add: detached_def)
  moreover have "view_le b (b\<lparr>bp_free := fs\<rparr>)" by (simp add: view_le_def page_view_def cong: option.case_cong)
  moreover have "frames_but f b (b\<lparr>bp_free := fs\<rparr>)" using s f(1) by (simp add: frames_but_def bp_struct_def)
  moreover have "map_of (bp_table b) p \<noteq> Some f" for p using f(4) by (auto intro: ranI)
  ultimately show "frame_taken f b (erase_frame_id f (b\<lparr>bp_free := fs\<rparr>))"
    by (simp add: e frame_taken_def)
qed

lemma taken_evict:
  assumes i: "bp_inv b" and t: "map_of (bp_table b) pid = Some f" and p0: "pg_pin (bp_frame b f) = 0"
    and r: "lru_inv (bp_replacer b')" "max_size (bp_replacer b') = bp_pool_size b"
      "lru_frames (bp_replacer b) = f # lru_frames (bp_replacer b')"
    and fb: "frames_but f b b'" and fr: "bp_free b' = bp_free b"
    and tb: "distinct (map fst (bp_table b'))" "map_of (bp_table b') = (map_of (bp_table b))(pid := None)"
    and g: "disk_grow pid (bp_disk b) (bp_disk b')"
    and dp: "disk_page (bp_disk b') (pid_fd pid) (pid_page_no pid) = Some (pg_data (bp_frame b f))"
  shows "frame_taken f b b'"
proof -
  note s = bp_inv_struct[OF i]
  have "distinct (lru_frames (bp_replacer b))"
    using s by (simp add: bp_struct_def lru.distinct_frames)
  then have "set (lru_frames (bp_replacer b')) = set (lru_frames (bp_replacer b)) - {f}"
    unfolding r(3) by auto
  note rel = release_inv[OF i t r(1,2) this fb fr tb g dp]
  have "map_of (bp_table b') p = (if map_of (bp_table b) p = Some f then None else map_of (bp_table b) p)" for p
  proof (cases "p = pid")
    case True
    then show ?thesis using t by (simp add: tb(2))
  next
    case False
    then have "map_of (bp_table b) p \<noteq> Some f" using bp_table_inj[OF s t] by blast
    with False show ?thesis by (simp add: tb(2))
  qed
  with rel fb g p0 show ?thesis by (auto simp: frame_taken_def disk_grow_def)
qed

lemma bp_data_len: "bp_struct b \<Longrightarrow> f < bp_pool_size b \<Longrightarrow> length (pg_data (bp_frame b f)) = PAGE_SIZE"
  by (simp add: bp_struct_def)

lemma fetch_prepare:
  assumes i: "bp_inv b" and nt: "map_of (bp_table b) pid = None"
    and v: "find_victim_page b = (Some f, b1)"
  obtains b2 where "(if pg_dirty (bp_frame b1 f) then update_page f pid b1 else em_return () b1) = (Inr (), b2)"
    "frame_taken f b (erase_frame_id f b2)"
proof -
  note s = bp_inv_struct[OF i]
  from s v show ?thesis
  proof (cases rule: find_victim_Some)
    case (free fs)
    with taken_free[OF i free(1)] that show ?thesis by (simp add: em_return_def)
  next
    case (evict r old)
    note fl = bp_struct_table[OF s evict(6)]
    have di: "distinct (map fst (bp_table b))" using s by (simp add: bp_struct_def)
    show ?thesis
    proof (cases "pg_dirty (bp_frame b f)")
      case False
      have "disk_page (bp_disk b) (pid_fd old) (pid_page_no old) = Some (pg_data (bp_frame b f))"
        using bp_inv_clean[OF i evict(6,7)] False by (simp add: frame_clean_ok_def)
      then have "frame_taken f b (erase_frame_id f b1)"
        using i evict fl di
        by (intro taken_evict[OF i evict(6,7)])
          (simp_all add: erase_frame_id_def frames_but_def delete_conv' disk_grow_refl bp_inv_disk distinct_delete)
      with False evict(2) that show ?thesis by (simp add: em_return_def)
    next
      case True
      obtain d' where w: "bp_write_page old (pg_data (bp_frame b f)) b1 = (Inr (), b1\<lparr>bp_disk := d'\<rparr>)"
        and g: "disk_grow old (bp_disk b) d'"
        and dp: "disk_page d' (pid_fd old) (pid_page_no old) = Some (pg_data (bp_frame b f))"
        using bp_write_page_ok[of b1 old "pg_data (bp_frame b f)"] evict(2) fl bp_inv_disk[OF i] bp_inv_ok[OF i evict(6)]
        by auto
      define b2 where "b2 = set_page f (\<lambda>p. p\<lparr>pg_id := pid\<rparr>) (set_page f (\<lambda>p. p\<lparr>pg_dirty := False\<rparr>) (b1\<lparr>bp_disk := d'\<rparr>))
          \<lparr>bp_table := AList.update pid f (AList.delete old (bp_table b))\<rparr>"
      have "update_page f pid b1 = (Inr (), b2)"
        using True w fl evict(2)
        by (simp add: update_page_def em_defs Let_def b2_def set_page_def)
      moreover have "frame_taken f b (erase_frame_id f b2)"
        using evict fl di g dp nt
        by (intro taken_evict[OF i evict(6,7)])
          (auto simp: erase_frame_id_def frames_but_def b2_def set_page_def delete_conv' update_conv'
            distinct_delete distinct_update fun_eq_iff)
      ultimately show ?thesis using True evict(2) that by simp
    qed
  qed
qed

lemma new_prepare:
  assumes i: "bp_inv b" and v: "find_victim_page b = (Some f, b1)"
  obtains b2 where "(if pg_dirty (bp_frame b1 f)
      then bp_write_page (pg_id (bp_frame b1 f)) (pg_data (bp_frame b1 f)) b1 else em_return () b1) = (Inr (), b2)"
    "frame_taken f b (erase_frame_id f b2)"
proof -
  note s = bp_inv_struct[OF i]
  from s v show ?thesis
  proof (cases rule: find_victim_Some)
    case (free fs)
    with taken_free[OF i free(1)] that show ?thesis by (simp add: em_return_def)
  next
    case (evict r old)
    note fl = bp_struct_table[OF s evict(6)]
    have di: "distinct (map fst (bp_table b))" using s by (simp add: bp_struct_def)
    show ?thesis
    proof (cases "pg_dirty (bp_frame b f)")
      case False
      have "disk_page (bp_disk b) (pid_fd old) (pid_page_no old) = Some (pg_data (bp_frame b f))"
        using bp_inv_clean[OF i evict(6,7)] False by (simp add: frame_clean_ok_def)
      then have "frame_taken f b (erase_frame_id f b1)"
        using i evict fl di
        by (intro taken_evict[OF i evict(6,7)])
          (simp_all add: erase_frame_id_def frames_but_def delete_conv' disk_grow_refl bp_inv_disk distinct_delete)
      with False evict(2) that show ?thesis by (simp add: em_return_def)
    next
      case True
      obtain d' where w: "bp_write_page old (pg_data (bp_frame b f)) b1 = (Inr (), b1\<lparr>bp_disk := d'\<rparr>)"
        and g: "disk_grow old (bp_disk b) d'"
        and dp: "disk_page d' (pid_fd old) (pid_page_no old) = Some (pg_data (bp_frame b f))"
        using bp_write_page_ok[of b1 old "pg_data (bp_frame b f)"] evict(2) fl bp_inv_disk[OF i] bp_inv_ok[OF i evict(6)]
        by auto
      have "frame_taken f b (erase_frame_id f (b1\<lparr>bp_disk := d'\<rparr>))"
        using evict fl di g dp
        by (intro taken_evict[OF i evict(6,7)])
          (auto simp: erase_frame_id_def frames_but_def delete_conv' distinct_delete fun_eq_iff)
      with True w fl evict(2) that show ?thesis by simp
    qed
  qed
qed

subsection \<open>Filling the frame\<close>

lemma attach_sel [simp]:
  "bp_disk (attach_frame f pid b) = bp_disk b" "bp_pool_size (attach_frame f pid b) = bp_pool_size b"
  "bp_free (attach_frame f pid b) = bp_free b"
  "bp_replacer (attach_frame f pid b) = lru_pin f (bp_replacer b)"
  "length (bp_pages (attach_frame f pid b)) = length (bp_pages b)"
  "map_of (bp_table (attach_frame f pid b)) = (map_of (bp_table b))(pid \<mapsto> f)"
  by (simp_all add: attach_frame_def Let_def map_of_update)

lemma attach_frame_nth:
  "f < length (bp_pages b) \<Longrightarrow> bp_frame (attach_frame f pid b) f' =
    (if f' = f then (bp_frame b f)\<lparr>pg_id := pid, pg_pin := 1, pg_dirty := False\<rparr> else bp_frame b f')"
  by (simp add: attach_frame_def Let_def set_page_nth)

lemma attach_struct:
  assumes s: "bp_struct b" and d: "detached b f" and nt: "map_of (bp_table b) pid = None"
    and nn: "pid_page_no pid \<noteq> -1"
  shows "bp_struct (attach_frame f pid b)"
proof -
  have fl: "f < length (bp_pages b)" "f < bp_pool_size b" "f \<notin> ran (map_of (bp_table b))" "f \<notin> set (bp_free b)"
    using s d by (simp_all add: bp_struct_def detached_def)
  have ri: "lru_inv (bp_replacer b)" using s by (simp add: bp_struct_def)
  have fr: "f \<notin> set (lru_frames (bp_replacer b))" using s fl(3) by (simp add: bp_struct_def)
  have dt: "distinct (map fst (bp_table (attach_frame f pid b)))"
    using s by (simp add: bp_struct_def attach_frame_def Let_def distinct_update)
  have rn: "ran ((map_of (bp_table b))(pid \<mapsto> f)) = insert f (ran (map_of (bp_table b)))"
    using nt by (rule ran_map_upd)
  have tabs: "\<forall>pid' f'. map_of (bp_table (attach_frame f pid b)) pid' = Some f' \<longrightarrow>
      f' < bp_pool_size b \<and> pg_id (bp_frame (attach_frame f pid b) f') = pid' \<and>
      0 \<le> pg_pin (bp_frame (attach_frame f pid b) f') \<and> pid_page_no pid' \<noteq> -1"
    using bp_struct_table[OF s] detached_not_table[OF d] fl nn
    by (auto simp: attach_frame_nth)
  have nf: "\<forall>f' \<in> set (bp_free b). f' \<noteq> f" using fl(4) by blast
  show ?thesis
    unfolding bp_struct_def
    using s fl fr nf dt tabs rn lru.frames_pin[OF ri, of f] lru.invar_pin[OF ri, of f] lru.capacity_pin[of f "bp_replacer b"]
    by (simp add: attach_frame_nth bp_struct_def)
qed

lemma attach_inv:
  assumes i: "bp_inv b" and d: "detached b f" and nt: "map_of (bp_table b) pid = None"
    and ok: "page_ok (bp_disk b) pid"
  shows "bp_inv (attach_frame f pid b)"
proof -
  note s = bp_inv_struct[OF i]
  have fl: "f < length (bp_pages b)" using s d by (simp add: bp_struct_def detached_def)
  have "pid_page_no pid \<noteq> -1" using ok by (simp add: page_ok_def page_addressable_def)
  then have "bp_struct (attach_frame f pid b)" by (rule attach_struct[OF s d nt])
  moreover have "frame_clean_ok (attach_frame f pid b) pid' f'"
    if "map_of (bp_table (attach_frame f pid b)) pid' = Some f'" "pg_pin (bp_frame (attach_frame f pid b) f') = 0" for pid' f'
  proof -
    have "f' \<noteq> f" using that(2) fl by (auto simp: attach_frame_nth)
    moreover from this have "map_of (bp_table b) pid' = Some f'" using that(1) by (simp split: if_splits)
    ultimately show ?thesis using that(2) bp_inv_clean[OF i] fl
      by (simp add: frame_clean_ok_def attach_frame_nth)
  qed
  moreover have "page_ok (bp_disk b) pid'" if "map_of (bp_table (attach_frame f pid b)) pid' = Some f'" for pid' f'
    using that bp_inv_ok[OF i] ok by (simp split: if_splits)
  ultimately show ?thesis using bp_inv_disk[OF i] unfolding bp_inv_def by simp
qed

text \<open>Writing into a detached frame's memory changes nothing that is visible.\<close>

lemma page_write_sel [simp]:
  "bp_pool_size (page_write f g b) = bp_pool_size b" "bp_table (page_write f g b) = bp_table b"
  "bp_free (page_write f g b) = bp_free b" "bp_replacer (page_write f g b) = bp_replacer b"
  "bp_disk (page_write f g b) = bp_disk b" "length (bp_pages (page_write f g b)) = length (bp_pages b)"
  by (simp_all add: page_write_def)

lemma page_write_nth: "f < length (bp_pages b) \<Longrightarrow> bp_frame (page_write f g b) f' =
    (if f' = f then (bp_frame b f)\<lparr>pg_data := g (pg_data (bp_frame b f))\<rparr> else bp_frame b f')"
  by (simp add: page_write_def set_page_nth)

lemma page_write_struct:
  assumes s: "bp_struct b" and fl: "f < bp_pool_size b" and len: "length (g (pg_data (bp_frame b f))) = PAGE_SIZE"
  shows "bp_struct (page_write f g b)"
proof -
  have "f < length (bp_pages b)" using s fl by (simp add: bp_struct_def)
  then show ?thesis
    using s len unfolding bp_struct_def by (simp add: page_write_nth)
qed

lemma fill_detached:
  assumes i: "bp_inv b" and d: "detached b f" and len: "length data = PAGE_SIZE"
    and ss: "disk_inv d'" "disk_le (bp_disk b) d'" "\<And>fd q. disk_page d' fd q = disk_page (bp_disk b) fd q"
  shows "bp_inv (page_write f (\<lambda>_. data) (b\<lparr>bp_disk := d'\<rparr>))"
    "detached (page_write f (\<lambda>_. data) (b\<lparr>bp_disk := d'\<rparr>)) f"
    "view_le b (page_write f (\<lambda>_. data) (b\<lparr>bp_disk := d'\<rparr>))"
proof -
  note s = bp_inv_struct[OF i]
  let ?b = "page_write f (\<lambda>_. data) (b\<lparr>bp_disk := d'\<rparr>)"
  have fl: "f < bp_pool_size b" "f < length (bp_pages b)" using s d by (simp_all add: bp_struct_def detached_def)
  have fn: "bp_frame ?b f' = bp_frame b f'" if "map_of (bp_table b) pid = Some f'" for pid f'
    using that detached_not_table[OF d] fl by (auto simp: page_write_nth)
  have "bp_struct (b\<lparr>bp_disk := d'\<rparr>)" using s by (simp add: bp_struct_def)
  then have "bp_struct ?b" using fl len by (intro page_write_struct) simp_all
  moreover have "frame_clean_ok ?b pid f'"
    if "map_of (bp_table b) pid = Some f'" "pg_pin (bp_frame ?b f') = 0" for pid f'
    using fn[OF that(1)] bp_inv_clean[OF i that(1)] that(2) ss(3) by (simp add: frame_clean_ok_def)
  moreover have "page_ok d' pid" if "map_of (bp_table b) pid = Some f'" for pid f'
    using bp_inv_ok[OF i that] page_ok_le[OF ss(2)] by simp
  ultimately show "bp_inv ?b" unfolding bp_inv_def using ss(1) by simp
  show "detached ?b f" using d by (simp add: detached_def)
  show "view_le b ?b"
    unfolding view_le_def page_view_def using fn ss(3) by (auto split: option.splits)
qed

section \<open>Fetching, creating and unpinning pages\<close>

definition pins :: "BufferPoolManager \<Rightarrow> PageId \<Rightarrow> int" where
  "pins b pid = (case map_of (bp_table b) pid of Some f \<Rightarrow> pg_pin (bp_frame b f) | None \<Rightarrow> 0)"

text \<open>Pinned pages stay in their frame, with their data and dirty flag.\<close>

definition stable :: "BufferPoolManager \<Rightarrow> BufferPoolManager \<Rightarrow> bool" where
  "stable b b' \<longleftrightarrow> (\<forall>pid f. map_of (bp_table b) pid = Some f \<and> 0 < pg_pin (bp_frame b f) \<longrightarrow>
     map_of (bp_table b') pid = Some f \<and> 0 < pg_pin (bp_frame b' f) \<and>
     pg_data (bp_frame b' f) = pg_data (bp_frame b f) \<and> pg_dirty (bp_frame b' f) = pg_dirty (bp_frame b f))"

lemma stable_trans: "stable b b' \<Longrightarrow> stable b' b'' \<Longrightarrow> stable b b''"
  unfolding stable_def by metis

text \<open>\<open>keeps b b'\<close>: invariant, view, file tables and pinned pages are kept.\<close>

definition keeps :: "BufferPoolManager \<Rightarrow> BufferPoolManager \<Rightarrow> bool" where
  "keeps b b' \<longleftrightarrow> bp_inv b' \<and> view_le b b' \<and> disk_le (bp_disk b) (bp_disk b') \<and> stable b b'"

lemma keeps_trans: "keeps b b' \<Longrightarrow> keeps b' b'' \<Longrightarrow> keeps b b''"
  unfolding keeps_def using view_le_trans disk_le_trans stable_trans by blast

lemma keeps_refl: "bp_inv b \<Longrightarrow> keeps b b"
  by (simp add: keeps_def stable_def)

lemma frame_taken_keeps:
  assumes "frame_taken f b b'"
  shows "keeps b b'" "pins b' = pins b"
proof -
  have "stable b b'"
    unfolding stable_def
  proof (intro allI impI)
    fix pid f' assume a: "map_of (bp_table b) pid = Some f' \<and> 0 < pg_pin (bp_frame b f')"
    then have "f' \<noteq> f" using assms by (auto simp: frame_taken_def)
    with a assms show "map_of (bp_table b') pid = Some f' \<and> 0 < pg_pin (bp_frame b' f') \<and>
        pg_data (bp_frame b' f') = pg_data (bp_frame b f') \<and> pg_dirty (bp_frame b' f') = pg_dirty (bp_frame b f')"
      by (simp add: frame_taken_def frames_but_def)
  qed
  with assms show "keeps b b'" by (simp add: keeps_def frame_taken_def)
  show "pins b' = pins b"
  proof
    fix p
    have ft: "map_of (bp_table b') p = (if map_of (bp_table b) p = Some f then None else map_of (bp_table b) p)"
      "map_of (bp_table b) p = Some f \<Longrightarrow> pg_pin (bp_frame b f) = 0" "\<And>f'. f' \<noteq> f \<Longrightarrow> bp_frame b' f' = bp_frame b f'"
      using assms unfolding frame_taken_def frames_but_def by blast+
    show "pins b' p = pins b p"
      using ft by (cases "map_of (bp_table b) p") (auto simp: pins_def)
  qed
qed

text \<open>Frame contents differ only where no page is: views, pins and pinned pages agree.\<close>

lemma same_on_table:
  assumes "map_of (bp_table b') = map_of (bp_table b)"
    and "\<And>pid f. map_of (bp_table b) pid = Some f \<Longrightarrow> bp_frame b' f = bp_frame b f"
  shows "pins b' = pins b" "stable b b'"
  using assms by (auto simp: pins_def stable_def fun_eq_iff split: option.splits)

lemma fill_keeps:
  assumes i: "bp_inv b" and d: "detached b f" and len: "length data = PAGE_SIZE"
    and ss: "disk_inv d'" "disk_le (bp_disk b) d'" "\<And>fd q. disk_page d' fd q = disk_page (bp_disk b) fd q"
  shows "keeps b (page_write f (\<lambda>_. data) (b\<lparr>bp_disk := d'\<rparr>))"
    "pins (page_write f (\<lambda>_. data) (b\<lparr>bp_disk := d'\<rparr>)) = pins b"
proof -
  let ?b = "page_write f (\<lambda>_. data) (b\<lparr>bp_disk := d'\<rparr>)"
  have "f < length (bp_pages b)" using bp_inv_struct[OF i] d by (simp add: bp_struct_def detached_def)
  then have "bp_frame ?b f' = bp_frame b f'" if "map_of (bp_table b) pid = Some f'" for pid f'
    using that detached_not_table[OF d] by (auto simp: page_write_nth)
  then have "pins ?b = pins b" "stable b ?b" by (rule same_on_table[rotated]; simp)+
  then show "keeps b ?b" "pins ?b = pins b"
    using fill_detached[OF i d len ss] ss(2) by (simp_all add: keeps_def)
qed

lemma attach_effects:
  assumes i: "bp_inv b" and d: "detached b f" and nt: "map_of (bp_table b) pid = None"
  shows "p \<noteq> pid \<Longrightarrow> page_view (attach_frame f pid b) p = page_view b p"
    "page_view (attach_frame f pid b) pid = Some (pg_data (bp_frame b f))"
    "pins (attach_frame f pid b) = (pins b)(pid := 1)" "stable b (attach_frame f pid b)"
    "bp_frame (attach_frame f pid b) f = (bp_frame b f)\<lparr>pg_id := pid, pg_pin := 1, pg_dirty := False\<rparr>"
proof -
  have fl: "f < length (bp_pages b)" using bp_inv_struct[OF i] d by (simp add: bp_struct_def detached_def)
  note fn = attach_frame_nth[OF fl]
  have ne: "map_of (bp_table b) p \<noteq> Some f" for p using detached_not_table[OF d] .
  show "page_view (attach_frame f pid b) p = page_view b p" if "p \<noteq> pid"
    using that ne by (cases "map_of (bp_table b) p") (auto simp: page_view_def fn)
  show "page_view (attach_frame f pid b) pid = Some (pg_data (bp_frame b f))"
    by (simp add: page_view_def fn)
  have "pins (attach_frame f pid b) p = ((pins b)(pid := 1)) p" for p
    using ne by (cases "map_of (bp_table b) p") (auto simp: pins_def fn)
  then show "pins (attach_frame f pid b) = (pins b)(pid := 1)" by (rule ext)
  show "stable b (attach_frame f pid b)"
    using ne nt by (auto simp: stable_def fn)
  show "bp_frame (attach_frame f pid b) f = (bp_frame b f)\<lparr>pg_id := pid, pg_pin := 1, pg_dirty := False\<rparr>"
    by (simp add: fn)
qed

text \<open>A page in the pool gains a pin and leaves the replacer.\<close>

lemma pin_inv:
  assumes i: "bp_inv b" and t: "map_of (bp_table b) pid = Some f"
  shows "bp_inv (set_page f (\<lambda>p. p\<lparr>pg_pin := pg_pin p + 1\<rparr>) (b\<lparr>bp_replacer := lru_pin f (bp_replacer b)\<rparr>))"
    (is "bp_inv ?b")
proof -
  note s = bp_inv_struct[OF i]
  note fl = bp_struct_table[OF s t]
  have ri: "lru_inv (bp_replacer b)" using s by (simp add: bp_struct_def)
  have fn: "bp_frame ?b f' = (if f' = f then (bp_frame b f)\<lparr>pg_pin := pg_pin (bp_frame b f) + 1\<rparr> else bp_frame b f')" for f'
    using fl(5) by (simp add: set_page_nth)
  have nf: "\<forall>f' \<in> set (bp_free b). f' \<noteq> f" using fl(7) by blast
  have tabs: "\<forall>pid' f'. map_of (bp_table b) pid' = Some f' \<longrightarrow> f' < bp_pool_size b \<and> pg_id (bp_frame ?b f') = pid' \<and>
      0 \<le> pg_pin (bp_frame ?b f') \<and> pid_page_no pid' \<noteq> -1"
    using bp_struct_table(1-4)[OF s] fl(3) unfolding fn by simp
  have "bp_struct ?b"
    unfolding bp_struct_def
    using s fl nf tabs lru.frames_pin[OF ri, of f] lru.invar_pin[OF ri, of f] lru.capacity_pin[of f "bp_replacer b"]
    by (simp add: fn bp_struct_def)
  moreover have "frame_clean_ok ?b pid' f'"
    if "map_of (bp_table b) pid' = Some f'" "pg_pin (bp_frame ?b f') = 0" for pid' f'
    using that(2) fl(3) bp_inv_clean[OF i that(1)] unfolding frame_clean_ok_def fn by (auto split: if_splits)
  ultimately show ?thesis unfolding bp_inv_def using bp_inv_ok[OF i] bp_inv_disk[OF i] by simp
qed

text \<open>Changing the pin count of the page in frame \<open>f\<close>.\<close>

lemma pins_set:
  assumes s: "bp_struct b" and t: "map_of (bp_table b) pid = Some f"
    and tb: "bp_table b' = bp_table b" and o: "\<And>f'. f' \<noteq> f \<Longrightarrow> bp_frame b' f' = bp_frame b f'"
  shows "pins b' = (pins b)(pid := pg_pin (bp_frame b' f))"
proof
  fix p
  show "pins b' p = ((pins b)(pid := pg_pin (bp_frame b' f))) p"
  proof (cases "p = pid")
    case True
    then show ?thesis using t by (simp add: pins_def tb)
  next
    case False
    then have "map_of (bp_table b) p \<noteq> Some f" using bp_table_inj[OF s t] by blast
    with False o show ?thesis by (cases "map_of (bp_table b) p") (auto simp: pins_def tb)
  qed
qed

lemma fetch_hit:
  assumes i: "bp_inv b" and t: "map_of (bp_table b) pid = Some f"
  obtains b' where "fetch_page pid b = (Inr (Some f), b')" "keeps b b'" "map_of (bp_table b') pid = Some f"
    "pins b' = (pins b)(pid := pins b pid + 1)" "0 < pg_pin (bp_frame b' f)" "frame_clean_ok b' pid f \<or> 0 < pins b pid"
    "0 < pins b pid \<longrightarrow> bp_free b' = bp_free b \<and> bp_table b' = bp_table b"
    "\<forall>q. q \<noteq> pid \<and> map_of (bp_table b) q = None \<longrightarrow> map_of (bp_table b') q = None"
proof -
  note s = bp_inv_struct[OF i]
  note fl = bp_struct_table[OF s t]
  define b' where "b' = set_page f (\<lambda>p. p\<lparr>pg_pin := pg_pin p + 1\<rparr>) (b\<lparr>bp_replacer := lru_pin f (bp_replacer b)\<rparr>)"
  have fn: "bp_frame b' f' = (if f' = f then (bp_frame b f)\<lparr>pg_pin := pg_pin (bp_frame b f) + 1\<rparr> else bp_frame b f')" for f'
    using fl(5) by (simp add: set_page_nth b'_def)
  have sel: "bp_table b' = bp_table b" "bp_disk b' = bp_disk b" "bp_free b' = bp_free b" by (simp_all add: b'_def)
  have "pins b' = (pins b)(pid := pins b pid + 1)"
    using pins_set[OF s t sel(1)] t by (simp add: fn pins_def)
  moreover have "keeps b b'"
    using pin_inv[OF i t] fl(3)
    by (auto simp: keeps_def b'_def[symmetric] view_le_def page_view_def stable_def sel fn split: option.splits)
  moreover have "frame_clean_ok b' pid f \<or> 0 < pins b pid"
    using bp_inv_clean[OF i t] fl(3) t by (auto simp: pins_def frame_clean_ok_def fn sel)
  ultimately show ?thesis
    using t fl(3) by (intro that[of b']) (auto simp: fetch_page_def b'_def[symmetric] sel fn)
qed

text \<open>The page was not in the pool: the read into the taken frame.\<close>

lemma fetch_miss:
  assumes i: "bp_inv b" and ok: "page_ok (bp_disk b) pid" and nt: "map_of (bp_table b) pid = None"
    and d: "detached b f"
    and rd: "read_page (pid_fd pid) (pid_page_no pid) (pg_data (bp_frame b f)) PAGE_SIZE (bp_disk b) = (r, buf, d')"
    and b1: "b1 = page_write f (\<lambda>_. buf) (b\<lparr>bp_disk := d'\<rparr>)"
  shows "keeps b b1" "pins b1 = pins b"
    "page_view b pid = None \<Longrightarrow> r = Inl (RMDBError (InternalError ''DiskManager::read_page Error''))"
    "page_view b pid \<noteq> None \<Longrightarrow> r = Inr () \<and> keeps b (attach_frame f pid b1) \<and>
       pins (attach_frame f pid b1) = (pins b)(pid := 1) \<and> frame_clean_ok (attach_frame f pid b1) pid f"
proof -
  note s = bp_inv_struct[OF i]
  have fl: "f < bp_pool_size b" "f < length (bp_pages b)" using s d by (simp_all add: detached_def bp_struct_def)
  note len = bp_data_len[OF s fl(1)]
  have pa: "page_addressable (pid_page_no pid)" using ok by (simp add: page_ok_def)
  have pv: "page_view b pid = disk_page (bp_disk b) (pid_fd pid) (pid_page_no pid)"
    using nt by (simp add: page_view_def)
  have spec: "case page_view b pid of Some data \<Rightarrow> r = Inr () \<and> buf = data
      | None \<Rightarrow> r = Inl (RMDBError (InternalError ''DiskManager::read_page Error''))"
    using read_page_disk_page[OF pa len, where fd = "pid_fd pid" and d = "bp_disk b"] rd pv by simp
  note ss = read_page_same_store[OF rd]
  note hyp = i d read_page_buf_len[OF rd len] disk_inv_read_page[OF bp_inv_disk[OF i] rd] same_store_le[OF ss]
    same_store_page[OF ss]
  show k1: "keeps b b1" "pins b1 = pins b" using fill_keeps[OF hyp] by (simp_all add: b1)
  show "r = Inl (RMDBError (InternalError ''DiskManager::read_page Error''))" if "page_view b pid = None"
    using spec that by simp
  show "r = Inr () \<and> keeps b (attach_frame f pid b1) \<and>
       pins (attach_frame f pid b1) = (pins b)(pid := 1) \<and> frame_clean_ok (attach_frame f pid b1) pid f"
    if "page_view b pid \<noteq> None"
  proof -
    from that obtain data where v: "page_view b pid = Some data" by blast
    with spec have r: "r = Inr ()" "buf = data" by simp_all
    have i1: "bp_inv b1" and d1: "detached b1 f" using fill_detached[OF hyp] by (simp_all add: b1)
    have nt1: "map_of (bp_table b1) pid = None" using nt by (simp add: b1)
    have ok1: "page_ok (bp_disk b1) pid" using ok k1 page_ok_le unfolding keeps_def by blast
    note at = attach_effects[OF i1 d1 nt1]
    have dt: "pg_data (bp_frame b1 f) = data" using fl r(2) by (simp add: b1 page_write_nth)
    have "page_view (attach_frame f pid b1) p = page_view b1 p" if "page_view b1 p \<noteq> None" for p
      using at(1)[of p] at(2) v k1(1) dt view_le_Some[of b b1 pid data] by (cases "p = pid") (auto simp: keeps_def)
    then have "keeps b1 (attach_frame f pid b1)"
      using attach_inv[OF i1 d1 nt1 ok1] at(4) by (simp add: keeps_def view_le_def)
    then have "keeps b (attach_frame f pid b1)" using keeps_trans k1(1) by blast
    moreover have "frame_clean_ok (attach_frame f pid b1) pid f"
      using at(5) dt v pv same_store_page[OF ss] by (simp add: frame_clean_ok_def b1)
    ultimately show ?thesis using r at(3) k1(2) by simp
  qed
qed

lemma fetch_page_cases:
  assumes i: "bp_inv b" and ok: "page_ok (bp_disk b) pid"
  obtains (page) f b' where "fetch_page pid b = (Inr (Some f), b')" "keeps b b'" "map_of (bp_table b') pid = Some f"
      "pins b' = (pins b)(pid := pins b pid + 1)" "0 < pg_pin (bp_frame b' f)" "frame_clean_ok b' pid f \<or> 0 < pins b pid"
      "0 < pins b pid \<longrightarrow> bp_free b' = bp_free b \<and> bp_table b' = bp_table b"
      "\<forall>q. q \<noteq> pid \<and> map_of (bp_table b) q = None \<longrightarrow> map_of (bp_table b') q = None"
  | (full) "fetch_page pid b = (Inr None, b)" "map_of (bp_table b) pid = None" "bp_free b = []"
      "lru_frames (bp_replacer b) = []"
  | (bad) b' where "fetch_page pid b = (Inl (RMDBError (InternalError ''DiskManager::read_page Error'')), b')"
      "keeps b b'" "pins b' = pins b" "page_view b pid = None"
proof (cases "map_of (bp_table b) pid")
  case (Some f)
  show ?thesis by (rule fetch_hit[OF i Some]) (rule page)
next
  case None
  obtain v b1 where v: "find_victim_page b = (v, b1)" by fastforce
  show ?thesis
  proof (cases v)
    case vn: None
    show ?thesis
      using find_victim_None[OF bp_inv_struct[OF i], of b1] v vn None
      by (intro full) (simp_all add: fetch_page_def)
  next
    case (Some f)
    obtain b2 where p: "(if pg_dirty (bp_frame b1 f) then update_page f pid b1 else em_return () b1) = (Inr (), b2)"
      and tk: "frame_taken f b (erase_frame_id f b2)"
      using fetch_prepare[OF i None] v Some by metis
    define b3 where "b3 = erase_frame_id f b2"
    have i3: "bp_inv b3" and d3: "detached b3 f" and nt: "map_of (bp_table b3) pid = None"
      using tk None by (simp_all add: frame_taken_def b3_def)
    have k3: "keeps b b3" "pins b3 = pins b" using frame_taken_keeps[OF tk] by (simp_all add: b3_def)
    have ok3: "page_ok (bp_disk b3) pid" using ok k3 page_ok_le unfolding keeps_def by blast
    obtain r buf d where rd: "read_page (pid_fd pid) (pid_page_no pid) (pg_data (bp_frame b3 f)) PAGE_SIZE (bp_disk b3) = (r, buf, d)"
      by (cases "read_page (pid_fd pid) (pid_page_no pid) (pg_data (bp_frame b3 f)) PAGE_SIZE (bp_disk b3)") auto
    define b4 where "b4 = page_write f (\<lambda>_. buf) (b3\<lparr>bp_disk := d\<rparr>)"
    note ms = fetch_miss[OF i3 ok3 nt d3 rd b4_def]
    have ft: "fetch_page pid b = (case r of Inl e \<Rightarrow> (Inl e, b4) | Inr _ \<Rightarrow> (Inr (Some f), attach_frame f pid b4))"
      using None v Some p rd by (simp add: fetch_page_def em_then_def em_bind_def Let_def b3_def b4_def split: sum.split)
    have p0: "pins b pid = 0" using None by (simp add: pins_def)
    show ?thesis
    proof (cases "page_view b3 pid")
      case none: None
      then have "page_view b pid = None" using k3 unfolding keeps_def view_le_def by metis
      with none ms(1-3) k3 ft show ?thesis by (intro bad[of b4]) (auto intro: keeps_trans)
    next
      case (Some data)
      then have m: "r = Inr ()" "keeps b3 (attach_frame f pid b4)" "pins (attach_frame f pid b4) = (pins b3)(pid := 1)"
        "frame_clean_ok (attach_frame f pid b4) pid f" using ms(4) by simp_all
      then have "pg_pin (bp_frame (attach_frame f pid b4) f) = 1"
        by (metis attach_sel(6) fun_upd_same option.simps(5) pins_def)
      moreover have "map_of (bp_table (attach_frame f pid b4)) q = None" if "q \<noteq> pid" "map_of (bp_table b) q = None" for q
        using that tk by (simp add: b4_def b3_def frame_taken_def)
      ultimately show ?thesis
        using m ft k3 p0 by (intro page[of f "attach_frame f pid b4"]) (auto intro: keeps_trans)
    qed
  qed
qed

text \<open>Handing out the next page number of a file.\<close>

definition can_allocate :: "DiskManager \<Rightarrow> int \<Rightarrow> bool" where
  "can_allocate d fd \<longleftrightarrow> 0 \<le> fd \<and> fd < MAX_FD \<and> fd_path d fd \<noteq> None \<and> page_addressable (fd2pageno d fd)"

definition bumped :: "int \<Rightarrow> DiskManager \<Rightarrow> DiskManager" where
  "bumped fd d = d\<lparr>fd2pageno := (fd2pageno d)(fd := fd2pageno d fd + 1)\<rparr>"

lemma allocate_bumped:
  assumes "can_allocate d fd"
  shows "allocate_page fd d = (Inr (fd2pageno d fd), bumped fd d)"
proof -
  have "in_int (fd2pageno d fd + 1)"
    using assms by (simp add: can_allocate_def page_addressable_def in_int_def INT_MAX_def INT_MIN_def PAGE_SIZE_def)
  with assms show ?thesis
    by (simp add: allocate_page_def bumped_def can_allocate_def c_int_id)
qed

lemma bumped_facts [simp]:
  "disk_page (bumped fd d) = disk_page d" "disk_inv (bumped fd d) = disk_inv d" "fd_path (bumped fd d) = fd_path d"
  "fd2pageno (bumped fd d) = (fd2pageno d)(fd := fd2pageno d fd + 1)"
  by (simp_all add: bumped_def disk_page_def fd_file_def fd_path_def fun_eq_iff cong: option.case_cong)

lemma page_ok_bumped: "page_ok d pid \<Longrightarrow> page_ok (bumped fd d) pid"
  by (auto simp: page_ok_def)

lemma disk_le_bumped: "disk_le d d' \<Longrightarrow> disk_le (bumped fd d) (bumped fd d')"
  by (simp add: disk_le_def) (simp add: bumped_def)

lemma bump_keeps:
  assumes "bp_inv b"
  shows "bp_inv (b\<lparr>bp_disk := bumped fd (bp_disk b)\<rparr>)" "page_view (b\<lparr>bp_disk := bumped fd (bp_disk b)\<rparr>) = page_view b"
    "pins (b\<lparr>bp_disk := bumped fd (bp_disk b)\<rparr>) = pins b"
proof -
  show "bp_inv (b\<lparr>bp_disk := bumped fd (bp_disk b)\<rparr>)"
    using assms page_ok_bumped by (auto simp: bp_inv_def bp_struct_def frame_clean_ok_def)
qed (simp_all add: page_view_def pins_def fun_eq_iff cong: option.case_cong)

lemma new_page_cases:
  assumes i: "bp_inv b" and ca: "can_allocate (bp_disk b) fd"
  defines "pid \<equiv> \<lparr>pid_fd = fd, pid_page_no = fd2pageno (bp_disk b) fd\<rparr>"
  obtains (page) f b' where "new_page fd b = (Inr (Some (fd2pageno (bp_disk b) fd, f)), b')" "bp_inv b'"
      "\<forall>p. p \<noteq> pid \<and> page_view b p \<noteq> None \<longrightarrow> page_view b' p = page_view b p"
      "page_view b' pid = Some zero_page" "map_of (bp_table b') pid = Some f" "pins b' = (pins b)(pid := 1)"
      "stable b b'" "disk_le (bumped fd (bp_disk b)) (bp_disk b')" "map_of (bp_table b) pid = None"
      "\<forall>q. q \<noteq> pid \<and> map_of (bp_table b) q = None \<longrightarrow> map_of (bp_table b') q = None"
  | (full) "new_page fd b = (Inr None, b)" "bp_free b = []" "lru_frames (bp_replacer b) = []"
proof -
  obtain v b1 where v: "find_victim_page b = (v, b1)" by fastforce
  show ?thesis
  proof (cases v)
    case None
    show ?thesis
      using find_victim_None[OF bp_inv_struct[OF i], of b1] v None by (intro full) (simp_all add: new_page_def)
  next
    case (Some f)
    obtain b2 where p: "(if pg_dirty (bp_frame b1 f) then bp_write_page (pg_id (bp_frame b1 f)) (pg_data (bp_frame b1 f)) b1
        else em_return () b1) = (Inr (), b2)"
      and tk: "frame_taken f b (erase_frame_id f b2)"
      using new_prepare[OF i] v Some by metis
    define b3 where "b3 = erase_frame_id f b2"
    have i3: "bp_inv b3" and d3: "detached b3 f" using tk by (simp_all add: frame_taken_def b3_def)
    have k3: "keeps b b3" "pins b3 = pins b" using frame_taken_keeps[OF tk] by (simp_all add: b3_def)
    have le: "disk_le (bp_disk b) (bp_disk b3)" using k3 by (simp add: keeps_def)
    have al: "allocate_page fd (bp_disk b3) = (Inr (fd2pageno (bp_disk b) fd), bumped fd (bp_disk b3))"
      using allocate_bumped[of "bp_disk b3" fd] ca le by (simp add: can_allocate_def disk_le_def)
    define b4 where "b4 = b3\<lparr>bp_disk := bumped fd (bp_disk b3)\<rparr>"
    have i4: "bp_inv b4" and pv4: "page_view b4 = page_view b3" and pi4: "pins b4 = pins b3"
      using bump_keeps[OF i3, of fd] by (simp_all add: b4_def)
    have d4: "detached b4 f" using d3 by (simp add: detached_def b4_def)
    define b5 where "b5 = page_write f (\<lambda>_. zero_page) b4"
    have b5': "b5 = page_write f (\<lambda>_. zero_page) (b4\<lparr>bp_disk := bp_disk b4\<rparr>)" by (simp add: b5_def)
    have zl: "length zero_page = PAGE_SIZE" by (simp add: zero_page_def)
    note hyp = i4 d4 zl bp_inv_disk[OF i4] disk_le_refl refl
    have k5: "keeps b4 b5" "pins b5 = pins b4" "detached b5 f"
      using fill_keeps[OF hyp] fill_detached(2)[OF hyp] unfolding b5' by blast+
    have i5: "bp_inv b5" using k5 by (simp add: keeps_def)
    have n5: "map_of (bp_table b5) pid = None"
      using bp_inv_ok[OF i3, of pid] le by (cases "map_of (bp_table b3) pid")
        (auto simp: b5_def b4_def pid_def page_ok_def disk_le_def)
    have o5: "page_ok (bp_disk b5) pid"
      using ca le by (simp add: b5_def b4_def page_ok_def pid_def can_allocate_def disk_le_def)
    note at = attach_effects[OF i5 k5(3) n5]
    have np: "new_page fd b = (Inr (Some (fd2pageno (bp_disk b) fd, f)), attach_frame f pid b5)"
      using v Some p al by (simp add: new_page_def em_then_def em_bind_def Let_def b3_def b5_def b4_def pid_def)
    have "page_view (attach_frame f pid b5) q = page_view b q" if "q \<noteq> pid" "page_view b q \<noteq> None" for q
      using that at(1)[OF that(1)] k3(1) k5(1) pv4 unfolding keeps_def view_le_def by metis
    moreover have "pg_data (bp_frame b5 f) = zero_page"
      using d4 bp_inv_struct[OF i4] by (simp add: b5_def page_write_nth detached_def bp_struct_def)
    moreover have "stable b (attach_frame f pid b5)"
    proof -
      have "stable b3 b4" by (simp add: stable_def b4_def)
      then show ?thesis using k3(1) k5(1) at(4) stable_trans unfolding keeps_def by blast
    qed
    moreover have "map_of (bp_table b) pid = None"
      using bp_inv_ok[OF i, of pid] by (cases "map_of (bp_table b) pid") (auto simp: pid_def page_ok_def)
    moreover have "map_of (bp_table (attach_frame f pid b5)) q = None" if "q \<noteq> pid" "map_of (bp_table b) q = None" for q
      using that tk by (simp add: b5_def b4_def b3_def frame_taken_def)
    moreover have "disk_le (bumped fd (bp_disk b)) (bp_disk b5)"
      using disk_le_bumped[OF le] by (simp add: b5_def b4_def)
    ultimately show ?thesis
      using np at attach_inv[OF i5 k5(3) n5 o5] k5(2) pi4 k3(2)
      by (intro page[of f "attach_frame f pid b5"]) auto
  qed
qed

subsection \<open>Unpinning and writing\<close>

lemma unpin_not_pinned: "pins b pid \<le> 0 \<Longrightarrow> unpin_page pid dirty b = (False, b)"
  by (auto simp: unpin_page_def pins_def split: option.splits)

lemma lru_unpin_frames:
  assumes s: "bp_struct b" and t: "map_of (bp_table b) pid = Some f"
  shows "set (lru_frames (lru_unpin f (bp_replacer b))) = insert f (set (lru_frames (bp_replacer b)))"
proof -
  let ?r = "bp_replacer b"
  have ri: "lru_inv ?r" and mx: "max_size ?r = bp_pool_size b" using s by (simp_all add: bp_struct_def)
  have "length (lru_frames ?r) < bp_pool_size b" if "f \<notin> set (lru_frames ?r)"
  proof -
    have fr: "f' < bp_pool_size b" if "f' \<in> set (lru_frames ?r)" for f'
      using that s bp_struct_table(1)[OF s] by (auto simp: bp_struct_def ran_def)
    have "set (f # lru_frames ?r) \<subseteq> {..<bp_pool_size b}"
      using fr bp_struct_table(1)[OF s t] by auto
    then have "card (set (f # lru_frames ?r)) \<le> bp_pool_size b"
      by (metis card_lessThan card_mono finite_lessThan)
    moreover have "distinct (f # lru_frames ?r)" using that lru.distinct_frames[OF ri] by simp
    ultimately show ?thesis using distinct_card[of "f # lru_frames ?r"] by simp
  qed
  then show ?thesis
    using lru.frames_unpin[OF ri, of f] mx by (cases "f \<in> set (lru_frames ?r)") auto
qed

lemma unpin_struct:
  assumes s: "bp_struct b" and t: "map_of (bp_table b) pid = Some f" and p: "0 < pg_pin (bp_frame b f)"
    and fn: "\<And>f'. f' \<noteq> f \<Longrightarrow> bp_frame b' f' = bp_frame b f'"
    and ff: "bp_frame b' f = (bp_frame b f)\<lparr>pg_pin := pg_pin (bp_frame b f) - 1, pg_dirty := dirty\<rparr>"
    and sel: "bp_pool_size b' = bp_pool_size b" "bp_table b' = bp_table b" "bp_free b' = bp_free b"
      "length (bp_pages b') = length (bp_pages b)"
      "bp_replacer b' = (if pg_pin (bp_frame b f) = 1 then lru_unpin f (bp_replacer b) else bp_replacer b)"
  shows "bp_struct b'"
proof -
  note fl = bp_struct_table[OF s t]
  have ri: "lru_inv (bp_replacer b)" using s by (simp add: bp_struct_def)
  have fr: "f' \<in> ran (map_of (bp_table b)) \<and> pg_pin (bp_frame b' f') = 0 \<longleftrightarrow>
      f' \<in> set (lru_frames (bp_replacer b')) " for f'
  proof (cases "f' = f")
    case True
    have "f \<in> ran (map_of (bp_table b))" using t by (rule ranI)
    moreover have "f \<notin> set (lru_frames (bp_replacer b))" using s p by (simp add: bp_struct_def)
    ultimately show ?thesis using True lru_unpin_frames[OF s t] by (simp add: ff sel(5))
  next
    case False
    then show ?thesis using s lru_unpin_frames[OF s t] by (simp add: fn sel(5) bp_struct_def)
  qed
  have dl: "length (pg_data (bp_frame b' f')) = PAGE_SIZE" if "f' < bp_pool_size b" for f'
    using that bp_data_len[OF s] fn[of f'] ff by (cases "f' = f") simp_all
  have tb: "f' < bp_pool_size b \<and> pg_id (bp_frame b' f') = pid' \<and> 0 \<le> pg_pin (bp_frame b' f') \<and> pid_page_no pid' \<noteq> -1"
    if "map_of (bp_table b) pid' = Some f'" for pid' f'
    using bp_struct_table(1-4)[OF s that] p fn[of f'] ff by (cases "f' = f") simp_all
  have fe: "\<forall>f' \<in> set (bp_free b). bp_frame b' f' = bp_frame b f'" using fl(7) fn by metis
  show ?thesis
    unfolding bp_struct_def sel(1-4)
    using s fr dl tb fe lru.invar_unpin[OF ri, of f] lru.capacity_unpin[of f "bp_replacer b"]
    by (simp add: bp_struct_def sel(5))
qed

lemma unpin_pinned:
  assumes i: "bp_inv b" and t: "map_of (bp_table b) pid = Some f" and p: "0 < pg_pin (bp_frame b f)"
    and cl: "dirty \<or> 1 < pg_pin (bp_frame b f) \<or> frame_clean_ok b pid f"
  obtains b' where "unpin_page pid dirty b = (True, b')" "bp_inv b'" "page_view b' = page_view b"
    "pins b' = (pins b)(pid := pins b pid - 1)" "bp_disk b' = bp_disk b" "bp_table b' = bp_table b"
    "bp_free b' = bp_free b" "\<And>f'. f' \<noteq> f \<Longrightarrow> bp_frame b' f' = bp_frame b f'"
    "bp_frame b' f = (bp_frame b f)\<lparr>pg_pin := pg_pin (bp_frame b f) - 1, pg_dirty := dirty \<or> pg_dirty (bp_frame b f)\<rparr>"
proof -
  note s = bp_inv_struct[OF i]
  note fl = bp_struct_table[OF s t]
  obtain b' where u: "unpin_page pid dirty b = (True, b')" and
    sel: "bp_pool_size b' = bp_pool_size b" "bp_table b' = bp_table b" "bp_free b' = bp_free b"
      "length (bp_pages b') = length (bp_pages b)"
      "bp_replacer b' = (if pg_pin (bp_frame b f) = 1 then lru_unpin f (bp_replacer b) else bp_replacer b)"
    and dk: "bp_disk b' = bp_disk b"
    and fn: "\<And>f'. f' \<noteq> f \<Longrightarrow> bp_frame b' f' = bp_frame b f'"
    and ff: "bp_frame b' f = (bp_frame b f)\<lparr>pg_pin := pg_pin (bp_frame b f) - 1, pg_dirty := dirty \<or> pg_dirty (bp_frame b f)\<rparr>"
    using t p fl(5) by (auto simp: unpin_page_def Let_def set_page_def)
  note st = unpin_struct[OF s t p fn ff sel]
  have "frame_clean_ok b' pid' f'"
    if m: "map_of (bp_table b) pid' = Some f'" and z: "pg_pin (bp_frame b' f') = 0" for pid' f'
  proof (cases "f' = f")
    case True
    then have "pid' = pid" using bp_table_inj[OF s t] m by simp
    with True z cl show ?thesis by (auto simp: frame_clean_ok_def ff dk)
  next
    case False
    with z bp_inv_clean[OF i m] show ?thesis by (simp add: frame_clean_ok_def fn dk)
  qed
  then have "bp_inv b'" unfolding bp_inv_def using st bp_inv_disk[OF i] bp_inv_ok[OF i] by (simp add: sel dk)
  moreover have "pg_data (bp_frame b' f') = pg_data (bp_frame b f')" for f'
    using fn[of f'] ff by (cases "f' = f") simp_all
  then have "page_view b' = page_view b" by (simp add: page_view_def fun_eq_iff sel dk cong: option.case_cong)
  moreover have "pins b' = (pins b)(pid := pins b pid - 1)"
    using pins_set[OF s t sel(2) fn] t by (simp add: ff pins_def)
  ultimately show ?thesis using u dk sel(2,3) fn ff by (intro that[of b']) auto
qed

text \<open>A client writes the data of a page it has pinned.\<close>

lemma page_write_pinned:
  assumes i: "bp_inv b" and t: "map_of (bp_table b) pid = Some f" and p: "0 < pg_pin (bp_frame b f)"
    and len: "length (g (pg_data (bp_frame b f))) = PAGE_SIZE"
  shows "bp_inv (page_write f g b)" "page_view (page_write f g b) = (page_view b)(pid \<mapsto> g (pg_data (bp_frame b f)))"
    "pins (page_write f g b) = pins b"
proof -
  note s = bp_inv_struct[OF i]
  note fl = bp_struct_table[OF s t]
  note fn = page_write_nth[OF fl(5)]
  have "frame_clean_ok (page_write f g b) pid' f'"
    if "map_of (bp_table b) pid' = Some f'" "pg_pin (bp_frame (page_write f g b) f') = 0" for pid' f'
    using that(2) p bp_inv_clean[OF i that(1)] by (simp add: frame_clean_ok_def fn split: if_splits)
  then show "bp_inv (page_write f g b)"
    unfolding bp_inv_def using page_write_struct[where g = g, OF s fl(1) len] bp_inv_disk[OF i] bp_inv_ok[OF i] by simp
  show "page_view (page_write f g b) = (page_view b)(pid \<mapsto> g (pg_data (bp_frame b f)))"
  proof
    fix q
    show "page_view (page_write f g b) q = ((page_view b)(pid \<mapsto> g (pg_data (bp_frame b f)))) q"
    proof (cases "q = pid")
      case True
      then show ?thesis using t by (simp add: page_view_def fn)
    next
      case False
      then have "map_of (bp_table b) q \<noteq> Some f" using bp_table_inj[OF s t] by blast
      with False show ?thesis by (cases "map_of (bp_table b) q") (auto simp: page_view_def fn)
    qed
  qed
  show "pins (page_write f g b) = pins b"
    by (auto simp: pins_def fn fun_eq_iff split: option.splits)
qed

section \<open>Flushing\<close>

text \<open>\<open>flushing b b'\<close>: only the disk and dirty flags may differ, and pages that agree with the disk
  still do.\<close>

definition on_disk :: "BufferPoolManager \<Rightarrow> PageId \<Rightarrow> frame_id_t \<Rightarrow> bool" where
  "on_disk b pid f \<longleftrightarrow> disk_page (bp_disk b) (pid_fd pid) (pid_page_no pid) = Some (pg_data (bp_frame b f))"

definition flushing :: "BufferPoolManager \<Rightarrow> BufferPoolManager \<Rightarrow> bool" where
  "flushing b b' \<longleftrightarrow> bp_inv b' \<and> view_le b b' \<and> disk_le (bp_disk b) (bp_disk b') \<and> bp_table b' = bp_table b \<and>
     (\<forall>f. pg_data (bp_frame b' f) = pg_data (bp_frame b f) \<and> pg_pin (bp_frame b' f) = pg_pin (bp_frame b f)) \<and>
     (\<forall>pid f. map_of (bp_table b) pid = Some f \<and> on_disk b pid f \<longrightarrow> on_disk b' pid f)"

lemma flushing_refl: "bp_inv b \<Longrightarrow> flushing b b"
  by (simp add: flushing_def)

lemma flushing_trans: "flushing b b' \<Longrightarrow> flushing b' b'' \<Longrightarrow> flushing b b''"
  unfolding flushing_def using view_le_trans disk_le_trans by fastforce

lemma clean_struct:
  assumes s: "bp_struct b" and "f < length (bp_pages b)"
  shows "bp_struct (set_page f (\<lambda>p. p\<lparr>pg_dirty := False\<rparr>) (b\<lparr>bp_disk := d\<rparr>))"
  using s assms(2) unfolding bp_struct_def by (simp add: set_page_nth)

lemma flush_frame:
  assumes i: "bp_inv b" and t: "map_of (bp_table b) pid = Some f"
  obtains d' b' where "bp_write_page pid (pg_data (bp_frame b f)) b = (Inr (), b\<lparr>bp_disk := d'\<rparr>)"
    "b' = set_page f (\<lambda>p. p\<lparr>pg_dirty := False\<rparr>) (b\<lparr>bp_disk := d'\<rparr>)" "flushing b b'"
    "on_disk b' pid f" "\<forall>f'. f' \<noteq> f \<longrightarrow> bp_frame b' f' = bp_frame b f'" "\<not> pg_dirty (bp_frame b' f)"
proof -
  note s = bp_inv_struct[OF i]
  note fl = bp_struct_table[OF s t]
  obtain d' where w: "bp_write_page pid (pg_data (bp_frame b f)) b = (Inr (), b\<lparr>bp_disk := d'\<rparr>)"
    and g: "disk_grow pid (bp_disk b) d'"
    and dp: "disk_page d' (pid_fd pid) (pid_page_no pid) = Some (pg_data (bp_frame b f))"
    using bp_write_page_ok[OF bp_inv_disk[OF i] bp_inv_ok[OF i t] fl(6)] .
  define b' where "b' = set_page f (\<lambda>p. p\<lparr>pg_dirty := False\<rparr>) (b\<lparr>bp_disk := d'\<rparr>)"
  have fn: "bp_frame b' f' = (if f' = f then (bp_frame b f)\<lparr>pg_dirty := False\<rparr> else bp_frame b f')" for f'
    using fl(5) by (simp add: b'_def set_page_nth)
  have sel: "bp_table b' = bp_table b" "bp_disk b' = d'" by (simp_all add: b'_def)
  have dsame: "disk_page d' (pid_fd q) (pid_page_no q) = Some x"
    if "disk_page (bp_disk b) (pid_fd q) (pid_page_no q) = Some x" "q \<noteq> pid" for q x
    using g that pid_eq_iff[of q pid] unfolding disk_grow_def by (metis option.discI)
  have od: "on_disk b' q f'" if m: "map_of (bp_table b) q = Some f'" and "on_disk b q f'" for q f'
  proof (cases "q = pid")
    case True
    with m t dp show ?thesis by (simp add: on_disk_def fn sel)
  next
    case False
    with that dsame[of q] show ?thesis by (simp add: on_disk_def fn sel)
  qed
  have "frame_clean_ok b' q f'" if m: "map_of (bp_table b) q = Some f'" and z: "pg_pin (bp_frame b' f') = 0" for q f'
  proof (cases "f' = f")
    case True
    then have "q = pid" using bp_table_inj[OF s t] m by simp
    with True dp show ?thesis by (simp add: frame_clean_ok_def fn sel)
  next
    case False
    with z bp_inv_clean[OF i m] od[OF m] show ?thesis by (auto simp: frame_clean_ok_def fn sel on_disk_def)
  qed
  then have inv: "bp_inv b'"
    unfolding bp_inv_def using clean_struct[OF s fl(5), of d'] bp_inv_ok[OF i] g page_ok_le
    by (auto simp: sel disk_grow_def b'_def[symmetric])
  have "page_view b' q = page_view b q" if v: "page_view b q \<noteq> None" for q
  proof (cases "map_of (bp_table b) q")
    case None
    with t have "q \<noteq> pid" by auto
    with None v dsame[of q] show ?thesis by (auto simp: page_view_def sel)
  next
    case (Some f')
    then show ?thesis by (simp add: page_view_def sel fn)
  qed
  then have "flushing b b'"
    unfolding flushing_def view_le_def using inv od g by (simp add: sel fn disk_grow_def)
  then show ?thesis using w dp by (intro that[of d' b']) (auto simp: b'_def[symmetric] on_disk_def sel fn)
qed

lemma flush_entries_ok:
  assumes "bp_inv b" and "\<forall>(pid, f) \<in> set es. map_of (bp_table b) pid = Some f" and "distinct (map fst es)"
  shows "\<exists>b'. flush_entries P es b = (Inr (), b') \<and> flushing b b' \<and>
     (\<forall>(pid, f) \<in> set es. P pid (bp_frame b f) \<longrightarrow> on_disk b' pid f)"
  using assms
proof (induction es arbitrary: b)
  case Nil
  then show ?case by (simp add: em_return_def flushing_refl)
next
  case (Cons e es)
  obtain pid f where e: "e = (pid, f)" by fastforce
  have t: "map_of (bp_table b) pid = Some f" using Cons.prems(2) e by simp
  note s = bp_inv_struct[OF Cons.prems(1)]
  obtain b1 where h: "(if P pid (bp_frame b f) then em_then (bp_write_page pid (pg_data (bp_frame b f)))
        (em_modify (set_page f (\<lambda>p. p\<lparr>pg_dirty := False\<rparr>))) b else em_return () b) = (Inr (), b1)"
    and fl: "flushing b b1" and o: "P pid (bp_frame b f) \<Longrightarrow> on_disk b1 pid f"
    and fr: "\<And>f'. f' \<noteq> f \<Longrightarrow> bp_frame b1 f' = bp_frame b f'"
  proof (cases "P pid (bp_frame b f)")
    case True
    obtain d' b' where "bp_write_page pid (pg_data (bp_frame b f)) b = (Inr (), b\<lparr>bp_disk := d'\<rparr>)"
      "b' = set_page f (\<lambda>p. p\<lparr>pg_dirty := False\<rparr>) (b\<lparr>bp_disk := d'\<rparr>)" "flushing b b'" "on_disk b' pid f"
      "\<forall>f'. f' \<noteq> f \<longrightarrow> bp_frame b' f' = bp_frame b f'" "\<not> pg_dirty (bp_frame b' f)"
      by (rule flush_frame[OF Cons.prems(1) t])
    with True show ?thesis by (intro that[of b']) (simp_all add: em_defs)
  next
    case False
    with flushing_refl[OF Cons.prems(1)] show ?thesis by (intro that[of b]) (simp_all add: em_defs)
  qed
  have tb: "bp_table b1 = bp_table b" and i1: "bp_inv b1" using fl by (simp_all add: flushing_def)
  obtain b2 where r: "flush_entries P es b1 = (Inr (), b2)" and fl2: "flushing b1 b2"
    and od: "\<forall>(pid, f) \<in> set es. P pid (bp_frame b1 f) \<longrightarrow> on_disk b2 pid f"
    using Cons.IH[OF i1] Cons.prems tb by auto
  have "on_disk b2 q f'" if q: "(q, f') \<in> set es" "P q (bp_frame b f')" for q f'
  proof -
    have "q \<noteq> pid" using Cons.prems(3) q(1) e by (force simp: image_iff)
    moreover have "map_of (bp_table b) q = Some f'" using Cons.prems(2) q(1) by auto
    ultimately have "f' \<noteq> f" using bp_table_inj[OF s t] by blast
    then have "bp_frame b1 f' = bp_frame b f'" by (rule fr)
    with od q show ?thesis by auto
  qed
  moreover have "on_disk b2 pid f" if "P pid (bp_frame b f)"
    using o[OF that] fl2 t tb by (auto simp: flushing_def)
  ultimately show ?case
    using h r flushing_trans[OF fl fl2] e by (auto simp: em_then_def em_bind_def)
qed

section \<open>Removing pages\<close>

lemma drop_sel [simp]:
  "bp_disk (drop_frame pid f pin b) = bp_disk b" "bp_pool_size (drop_frame pid f pin b) = bp_pool_size b"
  "bp_free (drop_frame pid f pin b) = bp_free b @ [f]"
  "bp_replacer (drop_frame pid f pin b) = lru_pin f (bp_replacer b)"
  "bp_table (drop_frame pid f pin b) = AList.delete pid (bp_table b)"
  "length (bp_pages (drop_frame pid f pin b)) = length (bp_pages b)"
  by (simp_all add: drop_frame_def Let_def)

lemma drop_nth:
  "f < length (bp_pages b) \<Longrightarrow> bp_frame (drop_frame pid f pin b) f' =
    (if f' = f then \<lparr>pg_id = invalid_pid, pg_data = zero_page, pg_dirty = False, pg_pin = pin (pg_pin (bp_frame b f))\<rparr>
     else bp_frame b f')"
  by (simp add: drop_frame_def Let_def set_page_nth)

lemma add_free:
  assumes s: "bp_struct (b\<lparr>bp_free := fr\<rparr>)" and d: "detached (b\<lparr>bp_free := fr\<rparr>) f" and bf: "bp_free b = fr @ [f]"
    and c: "\<not> pg_dirty (bp_frame b f)" "pid_page_no (pg_id (bp_frame b f)) = -1"
  shows "bp_struct b"
  using s d c unfolding bp_struct_def detached_def by (simp add: bf)

lemma drop_frame_ok:
  assumes i: "bp_inv b" and t: "map_of (bp_table b) pid = Some f" and od: "on_disk b pid f"
  shows "bp_inv (drop_frame pid f pin b)" "view_le b (drop_frame pid f pin b)"
proof -
  note s = bp_inv_struct[OF i]
  note fl = bp_struct_table[OF s t]
  let ?b = "drop_frame pid f pin b"
  define b0 where "b0 = ?b\<lparr>bp_free := bp_free b\<rparr>"
  have ri: "lru_inv (bp_replacer b)" using s by (simp add: bp_struct_def)
  have fb: "frames_but f b b0" using fl(5) by (simp add: frames_but_def b0_def drop_nth zero_page_def)
  have rep: "lru_inv (bp_replacer b0)" "max_size (bp_replacer b0) = bp_pool_size b"
    "set (lru_frames (bp_replacer b0)) = set (lru_frames (bp_replacer b)) - {f}"
    using s lru.frames_pin[OF ri, of f] lru.invar_pin[OF ri, of f] lru.capacity_pin[of f "bp_replacer b"]
    by (simp_all add: b0_def bp_struct_def)
  have tb: "distinct (map fst (bp_table b0))" "map_of (bp_table b0) = (map_of (bp_table b))(pid := None)"
    using s by (simp_all add: b0_def bp_struct_def distinct_delete delete_conv')
  have dk: "bp_disk b0 = bp_disk b" "bp_free b0 = bp_free b" by (simp_all add: b0_def)
  have rel: "bp_inv b0" "detached b0 f" "view_le b b0"
    using release_inv[OF i t rep fb dk(2) tb] disk_grow_refl[OF bp_inv_disk[OF i]] od
    by (simp_all add: dk on_disk_def)
  have st: "bp_struct ?b"
    using bp_inv_struct[OF rel(1)] rel(2) fl(5)
    by (intro add_free[where b = ?b and fr = "bp_free b"]) (auto simp: b0_def drop_nth invalid_pid_def INVALID_PAGE_ID_def)
  show "bp_inv ?b" using rel(1) st by (simp add: bp_inv_def b0_def frame_clean_ok_def)
  have "page_view ?b = page_view b0" by (simp add: b0_def page_view_def fun_eq_iff cong: option.case_cong)
  then show "view_le b ?b" using rel(3) by (simp add: view_le_def)
qed

lemma drop_on_disk:
  assumes "bp_struct b" and "map_of (bp_table b) pid = Some f"
    and "map_of (bp_table (drop_frame pid f pin b)) q = Some f'" and "on_disk b q f'"
  shows "on_disk (drop_frame pid f pin b) q f'"
proof -
  note fl = bp_struct_table[OF assms(1,2)]
  have "q \<noteq> pid" "map_of (bp_table b) q = Some f'" using assms(3) by (auto simp: delete_conv' split: if_splits)
  then have "f' \<noteq> f" using bp_table_inj[OF assms(1,2)] by blast
  with assms(4) fl(5) show ?thesis by (simp add: on_disk_def drop_nth)
qed

lemma remove_fold:
  fixes rm defines "rm \<equiv> \<lambda>pid b. case map_of (bp_table b) pid of Some f \<Rightarrow> drop_frame pid f (\<lambda>_. 0) b | None \<Rightarrow> b"
  assumes "bp_inv b" and "\<forall>pid f. pid \<in> set ps \<and> map_of (bp_table b) pid = Some f \<longrightarrow> on_disk b pid f"
  shows "bp_inv (fold rm ps b) \<and> view_le b (fold rm ps b) \<and> bp_disk (fold rm ps b) = bp_disk b \<and>
     (\<forall>q. map_of (bp_table (fold rm ps b)) q = (if q \<in> set ps then None else map_of (bp_table b) q))"
  using assms(2-)
proof (induction ps arbitrary: b)
  case Nil
  then show ?case by simp
next
  case (Cons pid ps)
  have st: "bp_inv (rm pid b)" "view_le b (rm pid b)" "bp_disk (rm pid b) = bp_disk b"
    "\<And>q. map_of (bp_table (rm pid b)) q = (if q = pid then None else map_of (bp_table b) q)"
    using Cons.prems drop_frame_ok[OF Cons.prems(1)] by (auto simp: rm_def delete_conv' split: option.splits)
  have "on_disk (rm pid b) q f'" if "q \<in> set ps" "map_of (bp_table (rm pid b)) q = Some f'" for q f'
    using that Cons.prems(2) st(4)[of q] drop_on_disk[OF bp_inv_struct[OF Cons.prems(1)]]
    by (cases "map_of (bp_table b) pid") (auto simp: rm_def split: if_splits)
  with Cons.IH[OF st(1)] st show ?case
    using view_le_trans by (auto split: if_splits)
qed

lemma delete_page_ok:
  assumes i: "bp_inv b"
  shows "\<exists>r b'. delete_page pid b = (Inr r, b') \<and> bp_inv b' \<and> view_le b b' \<and> disk_le (bp_disk b) (bp_disk b') \<and>
     (r \<longleftrightarrow> pins b pid = 0) \<and> (r \<longrightarrow> map_of (bp_table b') pid = None) \<and> (\<not> r \<longrightarrow> b' = b)"
proof (cases "map_of (bp_table b) pid")
  case None
  with i show ?thesis by (intro exI[of _ True] exI[of _ b]) (simp add: delete_page_def pins_def)
next
  case (Some f)
  note fl = bp_struct_table[OF bp_inv_struct[OF i] Some]
  consider (pinned) "pg_pin (bp_frame b f) \<noteq> 0" | (clean) "pg_pin (bp_frame b f) = 0" "\<not> pg_dirty (bp_frame b f)"
    | (dirty) "pg_pin (bp_frame b f) = 0" "pg_dirty (bp_frame b f)" by blast
  then show ?thesis
  proof cases
    case pinned
    with i Some show ?thesis by (auto simp: delete_page_def pins_def)
  next
    case clean
    then have "on_disk b pid f" using bp_inv_clean[OF i Some] by (simp add: frame_clean_ok_def on_disk_def)
    from drop_frame_ok[OF i Some this, of id] Some clean show ?thesis
      by (intro exI[of _ True]) (simp add: delete_page_def em_defs pins_def delete_conv')
  next
    case dirty
    obtain d' b' where w: "bp_write_page pid (pg_data (bp_frame b f)) b = (Inr (), b\<lparr>bp_disk := d'\<rparr>)"
      "b' = set_page f (\<lambda>p. p\<lparr>pg_dirty := False\<rparr>) (b\<lparr>bp_disk := d'\<rparr>)" "flushing b b'" "on_disk b' pid f"
      "\<forall>f'. f' \<noteq> f \<longrightarrow> bp_frame b' f' = bp_frame b f'" "\<not> pg_dirty (bp_frame b' f)"
      by (rule flush_frame[OF i Some])
    have e: "drop_frame pid f id (b\<lparr>bp_disk := d'\<rparr>) = drop_frame pid f id b'"
      using fl(5) by (simp add: drop_frame_def Let_def w(2) set_page_def)
    have fl': "bp_inv b'" "view_le b b'" "disk_le (bp_disk b) (bp_disk b')" "map_of (bp_table b') pid = Some f"
      using w(3) Some by (simp_all add: flushing_def)
    from drop_frame_ok[OF fl'(1,4) w(4), of id] fl' w(1) Some dirty show ?thesis
      by (auto simp: delete_page_def em_defs pins_def delete_conv' e intro: view_le_trans)
  qed
qed

section \<open>The page interface of the upper layers\<close>

text \<open>What the record and index layers rely on: a state with an invariant that shows pages (\<open>view\<close>);
  a page is fetched into a frame, changed there, and released. \<open>roomy\<close> says that a frame can be
  had.\<close>

locale page_store =
  fixes invar :: "'s \<Rightarrow> bool" and view :: "'s \<Rightarrow> PageId \<Rightarrow> byte list option"
    and valid :: "'s \<Rightarrow> PageId \<Rightarrow> bool" and pinned :: "'s \<Rightarrow> PageId \<Rightarrow> int" and roomy :: "'s \<Rightarrow> bool"
    and cont :: "'s \<Rightarrow> frame_id_t \<Rightarrow> byte list" and held :: "'s \<Rightarrow> PageId \<Rightarrow> frame_id_t \<Rightarrow> bool"
    and fetch :: "PageId \<Rightarrow> ('s, frame_id_t option) em"
    and put :: "frame_id_t \<Rightarrow> (byte list \<Rightarrow> byte list) \<Rightarrow> 's \<Rightarrow> 's"
    and unpin :: "PageId \<Rightarrow> bool \<Rightarrow> 's \<Rightarrow> bool \<times> 's"
  assumes fetch_law: "invar s \<Longrightarrow> roomy s \<Longrightarrow> valid s pid \<Longrightarrow> view s pid = Some data \<Longrightarrow>
      \<exists>f s'. fetch pid s = (Inr (Some f), s') \<and> invar s' \<and> held s' pid f \<and> cont s' f = data \<and> valid s' = valid s \<and>
        (\<forall>q x. view s q = Some x \<longrightarrow> view s' q = Some x) \<and> pinned s' = (pinned s)(pid := pinned s pid + 1) \<and>
        (\<forall>dirty s''. unpin pid dirty s' = (True, s'') \<longrightarrow> roomy s'') \<and>
        (\<forall>g dirty s''. unpin pid dirty (put f g s') = (True, s'') \<longrightarrow> roomy s'') \<and>
        (\<exists>s''. unpin pid False s' = (True, s'') \<and> invar s'' \<and> view s'' = view s' \<and> valid s'' = valid s' \<and>
           pinned s'' = pinned s)"
    and put_law: "invar s \<Longrightarrow> held s pid f \<Longrightarrow> length (g (cont s f)) = PAGE_SIZE \<Longrightarrow>
      invar (put f g s) \<and> held (put f g s) pid f \<and> view (put f g s) = (view s)(pid \<mapsto> g (cont s f)) \<and>
      valid (put f g s) = valid s \<and> pinned (put f g s) = pinned s"
    and unpin_law: "invar s \<Longrightarrow> held s pid f \<Longrightarrow>
      \<exists>s'. unpin pid True s = (True, s') \<and> invar s' \<and> view s' = view s \<and> valid s' = valid s \<and>
        pinned s' = (pinned s)(pid := pinned s pid - 1)"
begin

text \<open>Reading a page and releasing it changes no page.\<close>

lemma read_only:
  assumes "invar s" and "roomy s" and "valid s pid" and "view s pid = Some data"
  shows "\<exists>f s1 s2. fetch pid s = (Inr (Some f), s1) \<and> cont s1 f = data \<and> unpin pid False s1 = (True, s2) \<and>
     invar s2 \<and> roomy s2 \<and> valid s2 = valid s \<and> pinned s2 = pinned s \<and>
     (\<forall>q x. view s q = Some x \<longrightarrow> view s2 q = Some x)"
proof -
  obtain f s1 s2 where f: "fetch pid s = (Inr (Some f), s1)" "cont s1 f = data" "valid s1 = valid s"
      "\<forall>q x. view s q = Some x \<longrightarrow> view s1 q = Some x"
      "\<forall>dirty s''. unpin pid dirty s1 = (True, s'') \<longrightarrow> roomy s''"
      and u: "unpin pid False s1 = (True, s2)" "invar s2" "view s2 = view s1" "valid s2 = valid s1" "pinned s2 = pinned s"
    using fetch_law[OF assms] by blast
  have "roomy s2" using f(5) u(1) by blast
  with f u show ?thesis by (intro exI[of _ f] exI[of _ s1] exI[of _ s2]) simp
qed

text \<open>Fetch, change in place, release as dirty: exactly that page changes.\<close>

lemma read_modify_write:
  assumes "invar s" and "roomy s" and "valid s pid" and "view s pid = Some data" and "length (g data) = PAGE_SIZE"
  shows "\<exists>f s1 s2. fetch pid s = (Inr (Some f), s1) \<and> cont s1 f = data \<and> unpin pid True (put f g s1) = (True, s2) \<and>
     invar s2 \<and> roomy s2 \<and> valid s2 = valid s \<and> pinned s2 = pinned s \<and> view s2 pid = Some (g data) \<and>
     (\<forall>q x. q \<noteq> pid \<and> view s q = Some x \<longrightarrow> view s2 q = Some x)"
proof -
  obtain f s1 where f: "fetch pid s = (Inr (Some f), s1)" "invar s1" "held s1 pid f" "cont s1 f = data" "valid s1 = valid s"
      "\<forall>q x. view s q = Some x \<longrightarrow> view s1 q = Some x" "pinned s1 = (pinned s)(pid := pinned s pid + 1)"
      "\<forall>g dirty s''. unpin pid dirty (put f g s1) = (True, s'') \<longrightarrow> roomy s''"
    using fetch_law[OF assms(1-4)] by blast
  have p: "invar (put f g s1)" "held (put f g s1) pid f" "view (put f g s1) = (view s1)(pid \<mapsto> g data)"
      "valid (put f g s1) = valid s1" "pinned (put f g s1) = pinned s1"
    using put_law[OF f(2,3), of g] assms(5) f(4) by simp_all
  obtain s2 where u: "unpin pid True (put f g s1) = (True, s2)" "invar s2" "view s2 = view (put f g s1)"
      "valid s2 = valid (put f g s1)" "pinned s2 = (pinned (put f g s1))(pid := pinned (put f g s1) pid - 1)"
    using unpin_law[OF p(1,2)] by blast
  have "roomy s2" using f(8) u(1) by blast
  with f p u show ?thesis by (intro exI[of _ f] exI[of _ s1] exI[of _ s2]) simp
qed

end

definition bp_roomy :: "BufferPoolManager \<Rightarrow> bool" where
  "bp_roomy b \<longleftrightarrow> bp_free b \<noteq> [] \<or> lru_frames (bp_replacer b) \<noteq> []"

definition bp_held :: "BufferPoolManager \<Rightarrow> PageId \<Rightarrow> frame_id_t \<Rightarrow> bool" where
  "bp_held b pid f \<longleftrightarrow> map_of (bp_table b) pid = Some f \<and> 0 < pg_pin (bp_frame b f)"

lemma bp_roomy_alt:
  assumes "bp_struct b"
  shows "bp_roomy b \<longleftrightarrow> bp_free b \<noteq> [] \<or> (\<exists>q. map_of (bp_table b) q \<noteq> None \<and> pins b q = 0)"
proof -
  have "lru_frames (bp_replacer b) \<noteq> [] \<longleftrightarrow> (\<exists>f. f \<in> set (lru_frames (bp_replacer b)))"
    by (metis last_in_set list.set(1) empty_iff)
  also have "\<dots> \<longleftrightarrow> (\<exists>f. f \<in> ran (map_of (bp_table b)) \<and> pg_pin (bp_frame b f) = 0)"
    using assms by (simp add: bp_struct_def)
  also have "\<dots> \<longleftrightarrow> (\<exists>q. map_of (bp_table b) q \<noteq> None \<and> pins b q = 0)"
    by (auto simp: ran_def pins_def split: option.splits)
  finally show ?thesis by (simp add: bp_roomy_def)
qed

lemma unpin_roomy:
  assumes i: "bp_inv b" and r: "bp_roomy b" and i1: "bp_inv b1" and h: "bp_held b1 pid f"
    and p1: "pins b1 = (pins b)(pid := pins b pid + 1)"
    and same: "0 < pins b pid \<longrightarrow> bp_free b1 = bp_free b \<and> bp_table b1 = bp_table b"
    and u: "unpin_page pid dirty b1 = (True, b2)"
  shows "bp_roomy b2"
proof -
  have t: "map_of (bp_table b1) pid = Some f" "0 < pg_pin (bp_frame b1 f)" using h by (simp_all add: bp_held_def)
  note s1 = bp_inv_struct[OF i1]
  note fl = bp_struct_table[OF s1 t(1)]
  define dt where "dt = (dirty \<or> pg_dirty (bp_frame b1 f))"
  have b2: "bp_pool_size b2 = bp_pool_size b1" "bp_table b2 = bp_table b1" "bp_free b2 = bp_free b1"
      "length (bp_pages b2) = length (bp_pages b1)"
      "bp_replacer b2 = (if pg_pin (bp_frame b1 f) = 1 then lru_unpin f (bp_replacer b1) else bp_replacer b1)"
      "bp_frame b2 f = (bp_frame b1 f)\<lparr>pg_pin := pg_pin (bp_frame b1 f) - 1, pg_dirty := dt\<rparr>"
      "\<And>f'. f' \<noteq> f \<Longrightarrow> bp_frame b2 f' = bp_frame b1 f'"
    using u t fl(5) by (auto simp: unpin_page_def Let_def set_page_def dt_def split: if_splits)
  have s2: "bp_struct b2" by (rule unpin_struct[OF s1 t b2(7) b2(6) b2(1-5)])
  have p2: "pins b2 = pins b"
  proof -
    have "pg_pin (bp_frame b1 f) = pins b pid + 1" using t(1) fun_cong[OF p1, of pid] by (simp add: pins_def)
    then show ?thesis using pins_set[OF s1 t(1) b2(2) b2(7)] p1 by (simp add: b2(6))
  qed
  show ?thesis
  proof (cases "0 < pins b pid")
    case True
    with same r p2 show ?thesis
      by (simp add: bp_roomy_alt[OF s2] bp_roomy_alt[OF bp_inv_struct[OF i]] b2)
  next
    case False
    moreover have "0 \<le> pins b pid" using bp_struct_table(3)[OF bp_inv_struct[OF i]] by (auto simp: pins_def split: option.splits)
    ultimately show ?thesis using t p2 by (auto simp: bp_roomy_alt[OF s2] b2)
  qed
qed

lemma bp_fetch_law:
  assumes i: "bp_inv b" and r: "bp_roomy b" and ok: "page_ok (bp_disk b) pid" and v: "page_view b pid = Some data"
  shows "\<exists>f b'. fetch_page pid b = (Inr (Some f), b') \<and> bp_inv b' \<and> bp_held b' pid f \<and> pg_data (bp_frame b' f) = data \<and>
        page_ok (bp_disk b') = page_ok (bp_disk b) \<and>
        (\<forall>q x. page_view b q = Some x \<longrightarrow> page_view b' q = Some x) \<and> pins b' = (pins b)(pid := pins b pid + 1) \<and>
        (\<forall>dirty b''. unpin_page pid dirty b' = (True, b'') \<longrightarrow> bp_roomy b'') \<and>
        (\<forall>g dirty b''. unpin_page pid dirty (page_write f g b') = (True, b'') \<longrightarrow> bp_roomy b'') \<and>
        (\<exists>b''. unpin_page pid False b' = (True, b'') \<and> bp_inv b'' \<and> page_view b'' = page_view b' \<and>
           page_ok (bp_disk b'') = page_ok (bp_disk b') \<and> pins b'' = pins b)"
  using i ok
proof (cases rule: fetch_page_cases)
  case (page f b')
  have k: "bp_inv b'" "view_le b b'" "disk_le (bp_disk b) (bp_disk b')" using page(2) by (simp_all add: keeps_def)
  have h: "bp_held b' pid f" using page by (simp add: bp_held_def)
  have dt: "pg_data (bp_frame b' f) = data" using view_le_Some[OF k(2) v] page(3) by (simp add: page_view_def)
  have okf: "page_ok (bp_disk b') = page_ok (bp_disk b)" using page_ok_le[OF k(3)] by (simp add: fun_eq_iff)
  have pp: "pg_pin (bp_frame b' f) = pins b pid + 1" using fun_cong[OF page(4), of pid] page(3) by (simp add: pins_def)
  have cl: "False \<or> 1 < pg_pin (bp_frame b' f) \<or> frame_clean_ok b' pid f" using page(6) pp by auto
  obtain b2 where u: "unpin_page pid False b' = (True, b2)" "bp_inv b2" "page_view b2 = page_view b'"
      "pins b2 = (pins b')(pid := pins b' pid - 1)" "bp_disk b2 = bp_disk b'"
    using unpin_pinned[OF k(1) page(3,5) cl] by metis
  have rm1: "bp_roomy b''" if "unpin_page pid dirty b' = (True, b'')" for dirty b''
    by (rule unpin_roomy[OF i r k(1) h page(4) page(7) that])
  have rm2: "bp_roomy b''" if w: "unpin_page pid dirty (page_write f g b') = (True, b'')" for g dirty b''
  proof -
    have fl: "f < length (bp_pages b')" using bp_struct_table(5)[OF bp_inv_struct[OF k(1)] page(3)] .
    have "bp_roomy (snd (unpin_page pid dirty b'))"
      using rm1[of dirty] w page(3,5) by (auto simp: unpin_page_def Let_def)
    moreover have "bp_free b'' = bp_free (snd (unpin_page pid dirty b')) \<and> bp_replacer b'' = bp_replacer (snd (unpin_page pid dirty b'))"
      using w page(3,5) fl by (auto simp: unpin_page_def Let_def set_page_nth page_write_nth split: if_splits)
    ultimately show ?thesis by (simp add: bp_roomy_def)
  qed
  show ?thesis
    using page(1,4) k h dt okf rm1 rm2 u view_le_Some[OF k(2)]
    by (intro exI[of _ f] exI[of _ b'] conjI exI[of _ b2]) auto
next
  case full
  with r show ?thesis by (simp add: bp_roomy_def)
next
  case (bad b')
  with v show ?thesis by simp
qed

lemma bp_put_law:
  assumes "bp_inv b" and "bp_held b pid f" and "length (g (pg_data (bp_frame b f))) = PAGE_SIZE"
  shows "bp_inv (page_write f g b) \<and> bp_held (page_write f g b) pid f \<and>
    page_view (page_write f g b) = (page_view b)(pid \<mapsto> g (pg_data (bp_frame b f))) \<and>
    page_ok (bp_disk (page_write f g b)) = page_ok (bp_disk b) \<and> pins (page_write f g b) = pins b"
proof -
  have t: "map_of (bp_table b) pid = Some f" "0 < pg_pin (bp_frame b f)" using assms(2) by (simp_all add: bp_held_def)
  have "bp_held (page_write f g b) pid f"
    using t bp_struct_table(5)[OF bp_inv_struct[OF assms(1)] t(1)] by (simp add: bp_held_def page_write_nth)
  then show ?thesis using page_write_pinned[where g = g, OF assms(1) t assms(3)] by simp
qed

lemma bp_unpin_law:
  assumes "bp_inv b" and "bp_held b pid f"
  shows "\<exists>b'. unpin_page pid True b = (True, b') \<and> bp_inv b' \<and> page_view b' = page_view b \<and>
     page_ok (bp_disk b') = page_ok (bp_disk b) \<and> pins b' = (pins b)(pid := pins b pid - 1)"
proof -
  have t: "map_of (bp_table b) pid = Some f" "0 < pg_pin (bp_frame b f)" using assms(2) by (simp_all add: bp_held_def)
  obtain b' where "unpin_page pid True b = (True, b')" "bp_inv b'" "page_view b' = page_view b"
      "pins b' = (pins b)(pid := pins b pid - 1)" "bp_disk b' = bp_disk b"
    using unpin_pinned[OF assms(1) t, of True] by metis
  then show ?thesis by auto
qed

interpretation bpm: page_store bp_inv page_view "\<lambda>b. page_ok (bp_disk b)" pins bp_roomy
    "\<lambda>b f. pg_data (bp_frame b f)" bp_held fetch_page page_write unpin_page
  by unfold_locales (use bp_fetch_law bp_put_law bp_unpin_law in blast)+

section \<open>Reachable states\<close>

text \<open>The states of a pool whose clients write only pages they hold, release a page clean only when
  it agrees with the disk, and fetch only pages of open files that were allocated.\<close>

inductive bp_reach :: "BufferPoolManager \<Rightarrow> bool" where
  init: "disk_inv d \<Longrightarrow> bp_reach (new_BufferPoolManager n fd0 d)"
| fetch: "bp_reach b \<Longrightarrow> page_ok (bp_disk b) pid \<Longrightarrow> fetch_page pid b = (r, b') \<Longrightarrow> bp_reach b'"
| new: "bp_reach b \<Longrightarrow> can_allocate (bp_disk b) fd \<Longrightarrow> new_page fd b = (rn, b') \<Longrightarrow> bp_reach b'"
| put: "bp_reach b \<Longrightarrow> bp_held b pid f \<Longrightarrow> length (g (pg_data (bp_frame b f))) = PAGE_SIZE \<Longrightarrow> bp_reach (page_write f g b)"
| mark: "bp_reach b \<Longrightarrow> bp_held b pid f \<Longrightarrow> bp_reach (mark_dirty f b)"
| unpin: "bp_reach b \<Longrightarrow> dirty \<or> pins b pid \<noteq> 1 \<or> (\<forall>f. map_of (bp_table b) pid = Some f \<longrightarrow> frame_clean_ok b pid f) \<Longrightarrow>
    unpin_page pid dirty b = (ru, b') \<Longrightarrow> bp_reach b'"
| flush: "bp_reach b \<Longrightarrow> flush_page pid b = (rf, b') \<Longrightarrow> bp_reach b'"
| flush_all: "bp_reach b \<Longrightarrow> flush_all_pages fd b = (ra, b') \<Longrightarrow> bp_reach b'"
| flush_dirty: "bp_reach b \<Longrightarrow> flush_all_dirty_pages b = (ra, b') \<Longrightarrow> bp_reach b'"
| delete: "bp_reach b \<Longrightarrow> delete_page pid b = (rf, b') \<Longrightarrow> bp_reach b'"
| remove: "bp_reach b \<Longrightarrow> (\<forall>pid f. pid_fd pid = fd \<and> map_of (bp_table b) pid = Some f \<longrightarrow> on_disk b pid f) \<Longrightarrow>
    bp_reach (remove_all_pages fd b)"

lemma bp_inv_new: "disk_inv d \<Longrightarrow> bp_inv (new_BufferPoolManager n fd0 d)"
  by (simp add: bp_inv_def bp_struct_def new_BufferPoolManager_def new_Page_def zero_page_def new_LRUReplacer_def
      lru_inv_def lru_frames_def INVALID_PAGE_ID_def)

lemma mark_dirty_inv:
  assumes i: "bp_inv b" and t: "map_of (bp_table b) pid = Some f"
  shows "bp_inv (mark_dirty f b)"
proof -
  note s = bp_inv_struct[OF i]
  note fl = bp_struct_table[OF s t]
  have fn: "bp_frame (mark_dirty f b) f' = (if f' = f then (bp_frame b f)\<lparr>pg_dirty := True\<rparr> else bp_frame b f')" for f'
    using fl(5) by (simp add: mark_dirty_def set_page_nth)
  have nf: "\<forall>f' \<in> set (bp_free b). f' \<noteq> f" using fl(7) by blast
  have sel: "bp_table (mark_dirty f b) = bp_table b" "bp_free (mark_dirty f b) = bp_free b"
      "bp_replacer (mark_dirty f b) = bp_replacer b" "bp_pool_size (mark_dirty f b) = bp_pool_size b"
      "length (bp_pages (mark_dirty f b)) = length (bp_pages b)" "bp_disk (mark_dirty f b) = bp_disk b"
    by (simp_all add: mark_dirty_def)
  have "bp_struct (mark_dirty f b)" using s nf unfolding bp_struct_def sel by (simp add: fn)
  then show ?thesis
    using i unfolding bp_inv_def sel by (auto simp: frame_clean_ok_def fn sel)
qed

lemma unpin_page_inv:
  assumes i: "bp_inv b" and c: "dirty \<or> pins b pid \<noteq> 1 \<or> (\<forall>f. map_of (bp_table b) pid = Some f \<longrightarrow> frame_clean_ok b pid f)"
    and u: "unpin_page pid dirty b = (r, b')"
  shows "bp_inv b'"
proof (cases "0 < pins b pid")
  case True
  then obtain f where t: "map_of (bp_table b) pid = Some f" "0 < pg_pin (bp_frame b f)"
    by (auto simp: pins_def split: option.splits)
  have "dirty \<or> 1 < pg_pin (bp_frame b f) \<or> frame_clean_ok b pid f" using c t by (auto simp: pins_def)
  from unpin_pinned[OF i t this] u show ?thesis by (metis prod.inject)
next
  case False
  with unpin_not_pinned[of b pid dirty] u i show ?thesis by simp
qed

lemma flush_inv:
  assumes "bp_inv b"
  shows "flush_entries P (bp_table b) b = (r, b') \<Longrightarrow> bp_inv b'" "flush_page pid b = (r1, b') \<Longrightarrow> bp_inv b'"
proof -
  have ds: "distinct (map fst (bp_table b))" using bp_inv_struct[OF assms] by (simp add: bp_struct_def)
  then have tb: "\<forall>(pid, f) \<in> set (bp_table b). map_of (bp_table b) pid = Some f" by auto
  show "flush_entries P (bp_table b) b = (r, b') \<Longrightarrow> bp_inv b'"
    using flush_entries_ok[OF assms tb ds, of P] by (auto simp: flushing_def)
  show "bp_inv b'" if "flush_page pid b = (r1, b')"
  proof (cases "map_of (bp_table b) pid")
    case None
    with that assms show ?thesis by (simp add: flush_page_def)
  next
    case (Some f)
    obtain d' b2 where "bp_write_page pid (pg_data (bp_frame b f)) b = (Inr (), b\<lparr>bp_disk := d'\<rparr>)"
      "b2 = set_page f (\<lambda>p. p\<lparr>pg_dirty := False\<rparr>) (b\<lparr>bp_disk := d'\<rparr>)" "flushing b b2"
      using flush_frame[OF assms Some] by metis
    with that Some show ?thesis by (auto simp: flush_page_def em_defs flushing_def)
  qed
qed

lemma bp_reach_inv: "bp_reach b \<Longrightarrow> bp_inv b"
proof (induction rule: bp_reach.induct)
  case (fetch b pid r b')
  from fetch.IH fetch.hyps(2) show ?case
    by (cases rule: fetch_page_cases) (use fetch in \<open>auto simp: keeps_def\<close>)
next
  case (new b fd rn b')
  from new.IH new.hyps(2) show ?case
    by (cases rule: new_page_cases) (use new in auto)
next
  case (put b pid f g)
  then show ?case using bp_put_law by blast
next
  case (mark b pid f)
  then show ?case using mark_dirty_inv by (auto simp: bp_held_def)
next
  case (delete b pid rf b')
  then show ?case using delete_page_ok[OF delete.IH, of pid] by auto
next
  case (remove b fd)
  then have "\<forall>pid f. pid \<in> set (filter (\<lambda>pid. pid_fd pid = fd) (map fst (bp_table b))) \<and> map_of (bp_table b) pid = Some f \<longrightarrow>
      on_disk b pid f" by simp
  from remove_fold[OF remove.IH this] show ?case by (simp add: remove_all_pages_def)
qed (auto simp: flush_all_pages_def flush_all_dirty_pages_def intro: bp_inv_new unpin_page_inv flush_inv)

section \<open>Properties of the buffer pool\<close>

text \<open>C9: Fetching a page that can be read, while some frame is free or unpinned, returns a frame that
  holds exactly the page's current content (the cached one if there is a newer one than on disk), with
  one more pin; every other page keeps its content although a victim may have been written back and
  evicted, and pages pinned by someone else stay in their frame.\<close>

theorem fetch_page_transparent:
  assumes "bp_inv b" and "bp_roomy b" and "page_ok (bp_disk b) pid" and "page_view b pid = Some data"
  shows "\<exists>f b'. fetch_page pid b = (Inr (Some f), b') \<and> pg_data (bp_frame b' f) = data \<and>
     pg_pin (bp_frame b' f) = pins b pid + 1 \<and> bp_inv b' \<and>
     (\<forall>q x. page_view b q = Some x \<longrightarrow> page_view b' q = Some x) \<and>
     (\<forall>q g. map_of (bp_table b) q = Some g \<and> 0 < pg_pin (bp_frame b g) \<longrightarrow>
        map_of (bp_table b') q = Some g \<and> pg_data (bp_frame b' g) = pg_data (bp_frame b g))"
  using assms(1,3)
proof (cases rule: fetch_page_cases)
  case (page f b')
  have k: "bp_inv b'" "view_le b b'" "stable b b'" using page(2) by (simp_all add: keeps_def)
  have "pg_data (bp_frame b' f) = data"
    using view_le_Some[OF k(2) assms(4)] page(3) by (simp add: page_view_def)
  moreover have "pg_pin (bp_frame b' f) = pins b pid + 1"
    using fun_cong[OF page(4), of pid] page(3) by (simp add: pins_def)
  ultimately show ?thesis
    using page(1) k view_le_Some[OF k(2)] unfolding stable_def by blast
next
  case full
  with assms(2) show ?thesis by (simp add: bp_roomy_def)
next
  case (bad b')
  with assms(4) show ?thesis by simp
qed

definition witness_pool :: BufferPoolManager where
  "witness_pool = new_BufferPoolManager 2 (\<lambda>_. 0)
     (snd (write_page 3 0 (replicate 4096 7) PAGE_SIZE (set_fd2pageno 3 1 witness_disk)))"

lemma witness_pool_facts:
  "bp_reach witness_pool" "bp_inv witness_pool" "bp_roomy witness_pool" "page_ok (bp_disk witness_pool) \<lparr>pid_fd = 3, pid_page_no = 0\<rparr>"
  "page_view witness_pool \<lparr>pid_fd = 3, pid_page_no = 0\<rparr> = Some (replicate 4096 7)" "can_allocate (bp_disk witness_pool) 3"
proof -
  have i: "disk_inv (set_fd2pageno 3 1 witness_disk)" and p: "fd_path (set_fd2pageno 3 1 witness_disk) 3 \<noteq> None"
    using witness_disk_facts by (auto simp: set_fd2pageno_def fd_path_def)
  have a: "page_addressable 0" "page_addressable 1" by (simp_all add: page_addressable_def INT_MAX_def PAGE_SIZE_def)
  obtain d where w: "write_page 3 0 (replicate 4096 7) PAGE_SIZE (set_fd2pageno 3 1 witness_disk) = (Inr (), d)"
    and d: "disk_inv d" "fd_path d = fd_path (set_fd2pageno 3 1 witness_disk)"
      "fd2pageno d = fd2pageno (set_fd2pageno 3 1 witness_disk)" "disk_page d 3 0 = Some (replicate 4096 7)"
    using write_page_disk_page[OF i p a(1), of "replicate 4096 7"] by (auto simp: PAGE_SIZE_def)
  have e: "witness_pool = new_BufferPoolManager 2 (\<lambda>_. 0) d" by (simp add: witness_pool_def w)
  show "bp_reach witness_pool" unfolding e by (rule bp_reach.init[OF d(1)])
  then show "bp_inv witness_pool" by (rule bp_reach_inv)
  show "bp_roomy witness_pool" by (simp add: e bp_roomy_def new_BufferPoolManager_def)
  show "page_ok (bp_disk witness_pool) \<lparr>pid_fd = 3, pid_page_no = 0\<rparr>" "can_allocate (bp_disk witness_pool) 3"
    using d p a by (simp_all add: e new_BufferPoolManager_def page_ok_def can_allocate_def MAX_FD_def set_fd2pageno_def)
  show "page_view witness_pool \<lparr>pid_fd = 3, pid_page_no = 0\<rparr> = Some (replicate 4096 7)"
    using d by (simp add: e new_BufferPoolManager_def page_view_def)
qed

theorem fetch_page_transparent_witness:
  "\<exists>f b'. fetch_page \<lparr>pid_fd = 3, pid_page_no = 0\<rparr> witness_pool = (Inr (Some f), b') \<and>
     pg_data (bp_frame b' f) = replicate 4096 7 \<and> bp_inv b'"
  using fetch_page_transparent[OF witness_pool_facts(2-5)] by blast

text \<open>C14: A new page gets the number that \<^verbatim>\<open>allocate_page\<close> hands out, is not in the pool yet, starts
  zeroed and pinned once, and no other page changes; when every frame is pinned the call returns the
  null pointer and changes nothing.\<close>

theorem new_page_zeroed:
  assumes "bp_inv b" and "can_allocate (bp_disk b) fd"
  shows "if bp_roomy b
    then \<exists>f b'. new_page fd b = (Inr (Some (fd2pageno (bp_disk b) fd, f)), b') \<and> bp_inv b' \<and>
       pg_data (bp_frame b' f) = zero_page \<and> pg_pin (bp_frame b' f) = 1 \<and>
       fd2pageno (bp_disk b') fd = fd2pageno (bp_disk b) fd + 1 \<and>
       (\<forall>q x. (pid_fd q, pid_page_no q) \<noteq> (fd, fd2pageno (bp_disk b) fd) \<and> page_view b q = Some x \<longrightarrow>
          page_view b' q = Some x)
    else new_page fd b = (Inr None, b)"
  using assms
proof (cases rule: new_page_cases)
  case (page f b')
  let ?pid = "\<lparr>pid_fd = fd, pid_page_no = fd2pageno (bp_disk b) fd\<rparr>"
  obtain v b1 where v: "find_victim_page b = (v, b1)" by fastforce
  obtain f1 where "v = Some f1" using page(1) v by (cases v) (auto simp: new_page_def)
  with v have v1: "find_victim_page b = (Some f1, b1)" by simp
  from bp_inv_struct[OF assms(1)] v1 have "bp_roomy b"
    by (cases rule: find_victim_Some) (auto simp: bp_roomy_def)
  moreover have "pg_data (bp_frame b' f) = zero_page" using page(4,5) by (simp add: page_view_def)
  moreover have "pg_pin (bp_frame b' f) = 1" using fun_cong[OF page(6), of ?pid] page(5) by (simp add: pins_def)
  moreover have "fd2pageno (bp_disk b') fd = fd2pageno (bp_disk b) fd + 1" using page(8) by (simp add: disk_le_def)
  moreover have "page_view b' q = Some x"
    if "(pid_fd q, pid_page_no q) \<noteq> (fd, fd2pageno (bp_disk b) fd)" "page_view b q = Some x" for q x
    using page(3) that by (metis PageId.select_convs(1) PageId.select_convs(2) option.discI)
  ultimately show ?thesis using page(1,2) by auto
next
  case full
  then show ?thesis by (simp add: bp_roomy_def)
qed

theorem new_page_zeroed_witness:
  "\<exists>f b'. new_page 3 witness_pool = (Inr (Some (fd2pageno (bp_disk witness_pool) 3, f)), b') \<and> bp_inv b' \<and>
     pg_data (bp_frame b' f) = zero_page"
  using new_page_zeroed[OF witness_pool_facts(2,6)] witness_pool_facts(3) by auto

text \<open>C13: After \<^verbatim>\<open>flush_all_pages(fd)\<close> every page of the file is on disk with its current content, and
  the following \<^verbatim>\<open>remove_all_pages(fd)\<close>, as an index file is closed, loses nothing: no frame of the
  file stays in the pool and every page of every file still shows the same content.\<close>

theorem flush_then_remove:
  assumes "bp_inv b"
  shows "\<exists>b1. flush_all_pages fd b = (Inr (), b1) \<and> bp_inv b1 \<and>
     (\<forall>pno x. page_view b \<lparr>pid_fd = fd, pid_page_no = pno\<rparr> = Some x \<longrightarrow> disk_page (bp_disk b1) fd pno = Some x) \<and>
     bp_inv (remove_all_pages fd b1) \<and>
     (\<forall>q x. page_view b q = Some x \<longrightarrow> page_view (remove_all_pages fd b1) q = Some x) \<and>
     (\<forall>q. pid_fd q = fd \<longrightarrow> map_of (bp_table (remove_all_pages fd b1)) q = None)"
proof -
  have ds: "distinct (map fst (bp_table b))" using bp_inv_struct[OF assms] by (simp add: bp_struct_def)
  have tb: "\<forall>(pid, f) \<in> set (bp_table b). map_of (bp_table b) pid = Some f" using ds by auto
  obtain b1 where fl: "flush_all_pages fd b = (Inr (), b1)" "flushing b b1"
    and od: "\<forall>(pid, f) \<in> set (bp_table b). pid_fd pid = fd \<longrightarrow> on_disk b1 pid f"
    using flush_entries_ok[OF assms tb ds, of "\<lambda>pid p. pid_fd pid = fd"] by (auto simp: flush_all_pages_def)
  have i1: "bp_inv b1" and v1: "view_le b b1" and t1: "bp_table b1 = bp_table b" using fl(2) by (simp_all add: flushing_def)
  have od': "on_disk b1 pid f" if "map_of (bp_table b) pid = Some f" "pid_fd pid = fd" for pid f
    using od map_of_SomeD[OF that(1)] that(2) by auto
  have dk: "disk_page (bp_disk b1) fd pno = Some x" if "page_view b \<lparr>pid_fd = fd, pid_page_no = pno\<rparr> = Some x" for pno x
    using view_le_Some[OF v1 that] od'[of "\<lparr>pid_fd = fd, pid_page_no = pno\<rparr>"]
    by (auto simp: page_view_def t1 on_disk_def split: option.splits)
  let ?ps = "filter (\<lambda>pid. pid_fd pid = fd) (map fst (bp_table b1))"
  have "\<forall>pid f. pid \<in> set ?ps \<and> map_of (bp_table b1) pid = Some f \<longrightarrow> on_disk b1 pid f" using od' t1 by auto
  note rm = remove_fold[OF i1 this]
  have "map_of (bp_table (remove_all_pages fd b1)) q = None" if "pid_fd q = fd" for q
  proof (cases "q \<in> set ?ps")
    case True
    then show ?thesis using rm by (simp add: remove_all_pages_def)
  next
    case False
    then have "map_of (bp_table b1) q = None" using that by (auto simp: map_of_eq_None_iff)
    then show ?thesis using rm False by (simp add: remove_all_pages_def)
  qed
  then show ?thesis
    using fl(1) i1 dk rm view_le_Some[OF view_le_trans[OF v1]] by (auto simp: remove_all_pages_def)
qed

theorem flush_then_remove_witness:
  "\<exists>b1. flush_all_pages 3 witness_pool = (Inr (), b1) \<and> disk_page (bp_disk b1) 3 0 = Some (replicate 4096 7)"
  using flush_then_remove[OF witness_pool_facts(2), of 3] witness_pool_facts(5) by blast



end
