(* ===== verification/Bitmap.thy ===== *)
theory Bitmap
  imports Prelude
begin

text \<open>
  \<^verbatim>\<open>record/bitmap.h\<close>: the slot bitmap of a record page, bit 7 of a byte being its first slot.
  Positions are the C \<open>int\<close>s the code passes, so a negative position can be expressed:
  \<^verbatim>\<open>RmScan::next\<close> probes position -1, where \<^verbatim>\<open>get_bit\<close> shifts by a negative count. C++ leaves
  that undefined; the model takes the count modulo 32, as the x86 shift instruction does.
\<close>

section \<open>The operations\<close>

definition BITMAP_WIDTH :: int where "BITMAP_WIDTH = 8"
definition BITMAP_HIGHEST_BIT :: "32 word" where "BITMAP_HIGHEST_BIT = 0x80"

definition get_bucket :: "int \<Rightarrow> nat" where
  "get_bucket pos = nat (cdiv pos BITMAP_WIDTH)"

definition get_bit :: "int \<Rightarrow> byte" where
  "get_bit pos = ucast (drop_bit (nat (cmod pos BITMAP_WIDTH mod 32)) BITMAP_HIGHEST_BIT)"

definition bm_init :: "nat \<Rightarrow> byte list \<Rightarrow> byte list" where
  "bm_init sz bm = replicate sz 0 @ drop sz bm"

definition bm_set :: "byte list \<Rightarrow> int \<Rightarrow> byte list" where
  "bm_set bm pos = bm[get_bucket pos := bm ! get_bucket pos OR get_bit pos]"

definition bm_reset :: "byte list \<Rightarrow> int \<Rightarrow> byte list" where
  "bm_reset bm pos = bm[get_bucket pos := bm ! get_bucket pos AND NOT (get_bit pos)]"

definition is_set :: "byte list \<Rightarrow> int \<Rightarrow> bool" where
  "is_set bm pos \<longleftrightarrow> (bm ! get_bucket pos AND get_bit pos) \<noteq> 0"

text \<open>The loop \<^verbatim>\<open>for (int i = curr + 1; i < max_n; i++)\<close>, entered at \<open>i\<close>.\<close>

function next_bit_loop :: "bool \<Rightarrow> byte list \<Rightarrow> int \<Rightarrow> int \<Rightarrow> int" where
  "next_bit_loop b bm max_n i =
     (if i < max_n then if is_set bm i = b then i else next_bit_loop b bm max_n (i + 1) else max_n)"
  by pat_completeness auto
termination
  by (relation "measure (\<lambda>(b, bm, max_n, i). nat (max_n - i))") auto

declare next_bit_loop.simps [simp del]

definition next_bit :: "bool \<Rightarrow> byte list \<Rightarrow> int \<Rightarrow> int \<Rightarrow> int" where
  "next_bit b bm max_n cur = next_bit_loop b bm max_n (cur + 1)"

definition first_bit :: "bool \<Rightarrow> byte list \<Rightarrow> int \<Rightarrow> int" where
  "first_bit b bm max_n = next_bit b bm max_n (-1)"

section \<open>Single positions\<close>

lemma bit_get_bit:
  assumes "0 \<le> pos"
  shows "bit (get_bit pos) n \<longleftrightarrow> n < 8 \<and> n + nat (pos mod 8) = 7"
proof -
  let ?k = "nat (pos mod 8)"
  have k: "?k < 8" by (simp add: nat_less_iff)
  have c: "cmod pos BITMAP_WIDTH mod 32 = pos mod 8"
    using assms by (simp add: BITMAP_WIDTH_def cmod_nonneg)
  have hb: "bit BITMAP_HIGHEST_BIT m \<longleftrightarrow> m = 7" for m
    using bit_exp_iff[where 'a = "32 word", of 7 m] by (auto simp: BITMAP_HIGHEST_BIT_def)
  show ?thesis
    unfolding get_bit_def c bit_ucast_iff bit_drop_bit_eq comp_def hb by auto
qed

lemma get_bucket_nonneg: "0 \<le> pos \<Longrightarrow> get_bucket pos = nat pos div 8"
  by (simp add: get_bucket_def BITMAP_WIDTH_def cdiv_nonneg nat_div_distrib)

definition bm_has :: "byte list \<Rightarrow> int \<Rightarrow> bool" where
  "bm_has bm pos \<longleftrightarrow> bit (bm ! (nat pos div 8)) (7 - nat pos mod 8)"

lemma is_set_has: "0 \<le> pos \<Longrightarrow> is_set bm pos \<longleftrightarrow> bm_has bm pos"
proof -
  assume p: "0 \<le> pos"
  let ?k = "nat (pos mod 8)"
  have k: "?k = nat pos mod 8" "?k < 8" using p by (simp_all add: nat_mod_distrib nat_less_iff)
  have nz: "w \<noteq> 0 \<longleftrightarrow> (\<exists>n. bit w n)" for w :: byte
    using bit_eq_iff[of w 0] impossible_bit by auto
  have "bm ! get_bucket pos AND get_bit pos \<noteq> 0 \<longleftrightarrow>
      (\<exists>n. bit (bm ! get_bucket pos) n \<and> n < 8 \<and> n + ?k = 7)"
    unfolding nz bit_and_iff bit_get_bit[OF p] by simp
  also have "\<dots> \<longleftrightarrow> bit (bm ! get_bucket pos) (7 - ?k)"
  proof -
    have "n < 8 \<and> n + ?k = 7 \<longleftrightarrow> n = 7 - ?k" for n using k(2) by linarith
    then show ?thesis by simp
  qed
  finally show ?thesis
    using p k(1) by (simp add: is_set_def bm_has_def get_bucket_nonneg)
qed

lemma same_pos:
  assumes "0 \<le> i" "0 \<le> j"
  shows "i = j \<longleftrightarrow> nat i div 8 = nat j div 8 \<and> nat i mod 8 = nat j mod 8"
  using assms by (metis mod_mult_div_eq nat_0_le)

lemma bit_get_bit_at:
  assumes "0 \<le> i"
  shows "bit (get_bit i) (7 - nat j mod 8) \<longleftrightarrow> nat i mod 8 = nat j mod 8"
proof -
  have k: "nat j mod 8 < 8" "nat i mod 8 < 8" by simp_all
  have "nat (i mod 8) = nat i mod 8" using assms by (simp add: nat_mod_distrib)
  then show ?thesis
    unfolding bit_get_bit[OF assms] using k by linarith
qed

lemma length_bm_ops [simp]:
  "length (bm_set bm pos) = length bm" "length (bm_reset bm pos) = length bm"
  by (simp_all add: bm_set_def bm_reset_def)

lemma is_set_set:
  assumes "0 \<le> i" "i < 8 * int (length bm)" "0 \<le> j"
  shows "is_set (bm_set bm i) j \<longleftrightarrow> i = j \<or> is_set bm j"
proof -
  have b: "nat i div 8 < length bm" using assms by linarith
  have "bit (bm_set bm i ! (nat j div 8)) (7 - nat j mod 8) \<longleftrightarrow>
      (if nat i div 8 = nat j div 8
       then bit (bm ! (nat j div 8)) (7 - nat j mod 8) \<or> nat i mod 8 = nat j mod 8 else bit (bm ! (nat j div 8)) (7 - nat j mod 8))"
    unfolding bm_set_def get_bucket_nonneg[OF assms(1)]
    using b less_Suc_eq_le[of "7 - nat j mod 8" 7]
    by (simp add: nth_list_update bit_and_iff bit_or_iff bit_not_iff bit_get_bit_at[OF assms(1)])
  then show ?thesis
    unfolding is_set_has[OF assms(3)] bm_has_def same_pos[OF assms(1,3)] by auto
qed

lemma is_set_reset:
  assumes "0 \<le> i" "i < 8 * int (length bm)" "0 \<le> j"
  shows "is_set (bm_reset bm i) j \<longleftrightarrow> i \<noteq> j \<and> is_set bm j"
proof -
  have b: "nat i div 8 < length bm" using assms by linarith
  have "bit (bm_reset bm i ! (nat j div 8)) (7 - nat j mod 8) \<longleftrightarrow>
      (if nat i div 8 = nat j div 8
       then bit (bm ! (nat j div 8)) (7 - nat j mod 8) \<and> nat i mod 8 \<noteq> nat j mod 8 else bit (bm ! (nat j div 8)) (7 - nat j mod 8))"
    unfolding bm_reset_def get_bucket_nonneg[OF assms(1)]
    using b less_Suc_eq_le[of "7 - nat j mod 8" 7]
    by (simp add: nth_list_update bit_and_iff bit_or_iff bit_not_iff bit_get_bit_at[OF assms(1)])
  then show ?thesis
    unfolding is_set_has[OF assms(3)] bm_has_def same_pos[OF assms(1,3)] by auto
qed

lemma is_set_init: "0 \<le> i \<Longrightarrow> i < 8 * int sz \<Longrightarrow> \<not> is_set (bm_init sz bm) i"
  by (simp add: is_set_has bm_has_def bm_init_def nth_append) linarith

text \<open>The probe at position -1 reads the first byte and finds no bit.\<close>

lemma is_set_minus_one: "\<not> is_set bm (-1)"
proof -
  have "cmod (-1) BITMAP_WIDTH mod 32 = 31" by (simp add: cmod_def cdiv_def BITMAP_WIDTH_def)
  then have "get_bit (-1) = 0"
    by (simp add: get_bit_def BITMAP_HIGHEST_BIT_def drop_bit_eq_div)
  then show ?thesis by (simp add: is_set_def)
qed

section \<open>Searching\<close>

lemma next_bit_loop_spec:
  "i \<le> next_bit_loop b bm max_n i \<or> max_n < i"
  "i \<le> max_n \<Longrightarrow> next_bit_loop b bm max_n i \<le> max_n"
  "i \<le> j \<Longrightarrow> j < next_bit_loop b bm max_n i \<Longrightarrow> is_set bm j \<noteq> b"
  "next_bit_loop b bm max_n i < max_n \<Longrightarrow> is_set bm (next_bit_loop b bm max_n i) = b"
proof (induction b bm max_n i rule: next_bit_loop.induct)
  case (1 b bm max_n i)
  { case 1 show ?case using "1.IH"(1) by (force simp: next_bit_loop.simps[of b bm max_n i]) }
  { case 2 then show ?case using "1.IH"(2) by (force simp: next_bit_loop.simps[of b bm max_n i]) }
  { case 3 then show ?case using "1.IH"(3)
      by (cases "j = i") (auto simp: next_bit_loop.simps[of b bm max_n i] split: if_splits) }
  { case 4 then show ?case using "1.IH"(4)
      by (auto simp: next_bit_loop.simps[of b bm max_n i] split: if_splits) }
qed

section \<open>Properties\<close>

text \<open>Setting or clearing a slot's bit changes that slot and no other: after \<^verbatim>\<open>Bitmap::set\<close>
  exactly the old slots and the new one are marked, after \<^verbatim>\<open>Bitmap::reset\<close> exactly the old slots
  without the cleared one.\<close>

theorem bitmap_set_reset:
  assumes "0 \<le> i" and "i < 8 * int (length bm)" and "0 \<le> j"
  shows "(is_set (bm_set bm i) j \<longleftrightarrow> j = i \<or> is_set bm j) \<and>
         (is_set (bm_reset bm i) j \<longleftrightarrow> j \<noteq> i \<and> is_set bm j)"
  using assms by (auto simp: is_set_set is_set_reset)

theorem bitmap_set_reset_witness:
  "is_set (bm_set [0, 0] 9) 9 \<and> \<not> is_set (bm_reset [255, 255] 9) 9 \<and> is_set (bm_reset [255, 255] 9) 8"
  using bitmap_set_reset[of 9 "[0, 0]" 9] bitmap_set_reset[of 9 "[255, 255]" 9]
    bitmap_set_reset[of 9 "[255, 255]" 8]
  by (simp add: is_set_has bm_has_def)

text \<open>C20: \<^verbatim>\<open>Bitmap::next_bit\<close> returns the first position after \<open>curr\<close> whose bit has the wanted value,
  and \<open>max_n\<close> exactly when no position before \<open>max_n\<close> has it.\<close>

theorem bitmap_next_bit:
  assumes "start < max_n"
  shows "start < next_bit b bm max_n start \<and> next_bit b bm max_n start \<le> max_n \<and>
    (\<forall>j. start < j \<and> j < next_bit b bm max_n start \<longrightarrow> is_set bm j \<noteq> b) \<and>
    (next_bit b bm max_n start < max_n \<longrightarrow> is_set bm (next_bit b bm max_n start) = b)"
  using assms next_bit_loop_spec(1)[of "start + 1" b bm max_n]
    next_bit_loop_spec(2)[of "start + 1" max_n b bm] next_bit_loop_spec(3)[of "start + 1" _ b bm max_n]
    next_bit_loop_spec(4)[of b bm max_n "start + 1"] unfolding next_bit_def by auto

theorem bitmap_next_bit_witness:
  "next_bit True [0, 64] 16 (-1) = 9"
proof -
  define r where "r = next_bit True [0, 64] 16 (-1)"
  have s: "-1 < r" "r \<le> 16" "\<And>j. -1 < j \<Longrightarrow> j < r \<Longrightarrow> \<not> is_set [0, 64] j" "r < 16 \<Longrightarrow> is_set [0, 64] r"
    using bitmap_next_bit[of "-1" 16 True "[0, 64]"] unfolding r_def by auto
  have n: "is_set [0, 64] j \<longleftrightarrow> j = 9" if "0 \<le> j" "j < 16" for j
  proof -
    have "j \<in> {0, 1, 2, 3, 4, 5, 6, 7, 8, 9, 10, 11, 12, 13, 14, 15}" using that by simp arith
    then show ?thesis by (auto simp: is_set_has bm_has_def)
  qed
  have "r \<le> 9" using s(3)[of 9] n[of 9] by force
  then have "r = 9" using s(1,4) n[of r] by simp
  then show ?thesis by (simp add: r_def)
qed

end
