(* ===== verification/RmFile.thy ===== *)
theory RmFile
  imports BufferPool Bitmap
begin

text \<open>
  \<^verbatim>\<open>record/rm_defs.h\<close>, \<^verbatim>\<open>rm_file_handle.cpp\<close>, \<^verbatim>\<open>rm_manager.h\<close> and \<^verbatim>\<open>rm_scan.cpp\<close>: table files of
  fixed-size records. A page is its 4096 bytes; the page header, the slot bitmap and the slots are
  read and written at the code's byte offsets. The abstraction of a file is the map from record ids to
  record bytes (\<open>rm_table\<close>), and the operations are shown to act on it as insert, delete and update.
\<close>

section \<open>Headers and records\<close>

definition RM_NO_PAGE :: int where "RM_NO_PAGE = -1"
definition RM_FILE_HDR_PAGE :: int where "RM_FILE_HDR_PAGE = 0"
definition RM_FIRST_RECORD_PAGE :: int where "RM_FIRST_RECORD_PAGE = 1"
definition RM_MAX_RECORD_SIZE :: int where "RM_MAX_RECORD_SIZE = 512"

record RmFileHdr =
  record_size :: int
  num_pages :: int
  num_records_per_page :: int
  first_free_page_no :: int
  bitmap_size :: int

definition sizeof_RmFileHdr :: nat where "sizeof_RmFileHdr = 20"
definition sizeof_RmPageHdr :: nat where "sizeof_RmPageHdr = 8"

definition enc_RmFileHdr :: "RmFileHdr \<Rightarrow> byte list" where
  "enc_RmFileHdr h = enc_int (record_size h) @ enc_int (num_pages h) @ enc_int (num_records_per_page h) @
     enc_int (first_free_page_no h) @ enc_int (bitmap_size h)"

definition dec_RmFileHdr :: "byte list \<Rightarrow> RmFileHdr" where
  "dec_RmFileHdr bs = \<lparr>record_size = dec_int 0 bs, num_pages = dec_int 4 bs, num_records_per_page = dec_int 8 bs,
     first_free_page_no = dec_int 12 bs, bitmap_size = dec_int 16 bs\<rparr>"

record RmRecord =
  rec_data :: "byte list"
  rec_size :: int

text \<open>\<^verbatim>\<open>RmRecord::Deserialize\<close>: the size, then that many bytes.\<close>

definition RmRecord_Deserialize :: "byte list \<Rightarrow> RmRecord" where
  "RmRecord_Deserialize bs = (let n = dec_int 0 bs in \<lparr>rec_data = get_bytes 4 (nat n) bs, rec_size = n\<rparr>)"

section \<open>Pages\<close>

text \<open>\<^verbatim>\<open>RmPageHandle\<close>: the parts of a page's bytes.\<close>

definition page_next_free :: "byte list \<Rightarrow> int" where
  "page_next_free d = dec_int OFFSET_PAGE_HDR d"

definition page_num_records :: "byte list \<Rightarrow> int" where
  "page_num_records d = dec_int (OFFSET_PAGE_HDR + 4) d"

definition set_next_free :: "int \<Rightarrow> byte list \<Rightarrow> byte list" where
  "set_next_free v d = put_bytes OFFSET_PAGE_HDR (enc_int v) d"

definition set_num_records :: "int \<Rightarrow> byte list \<Rightarrow> byte list" where
  "set_num_records v d = put_bytes (OFFSET_PAGE_HDR + 4) (enc_int v) d"

definition bitmap_off :: nat where
  "bitmap_off = sizeof_RmPageHdr + OFFSET_PAGE_HDR"

text \<open>The bitmap pointer addresses the page's memory from the bitmap on.\<close>

definition page_bitmap :: "byte list \<Rightarrow> byte list" where
  "page_bitmap d = drop bitmap_off d"

definition on_bitmap :: "(byte list \<Rightarrow> byte list) \<Rightarrow> byte list \<Rightarrow> byte list" where
  "on_bitmap g d = take bitmap_off d @ g (drop bitmap_off d)"

definition slot_off :: "RmFileHdr \<Rightarrow> int \<Rightarrow> int" where
  "slot_off h slot_no = int bitmap_off + bitmap_size h + slot_no * record_size h"

definition get_slot :: "RmFileHdr \<Rightarrow> int \<Rightarrow> byte list \<Rightarrow> byte list" where
  "get_slot h slot_no d = get_bytes (nat (slot_off h slot_no)) (nat (record_size h)) d"

definition put_slot :: "RmFileHdr \<Rightarrow> int \<Rightarrow> byte list \<Rightarrow> byte list \<Rightarrow> byte list" where
  "put_slot h slot_no buf d = put_bytes (nat (slot_off h slot_no)) (take (nat (record_size h)) buf) d"

text \<open>Whether the slot lies inside the page; an access outside it is undefined.\<close>

definition slot_in_page :: "RmFileHdr \<Rightarrow> int \<Rightarrow> bool" where
  "slot_in_page h slot_no \<longleftrightarrow> 0 \<le> slot_off h slot_no \<and> slot_off h slot_no + record_size h \<le> int PAGE_SIZE"

section \<open>File handles\<close>

record RmState =
  rs_fd :: int
  rs_hdr :: RmFileHdr
  rs_bpm :: BufferPoolManager

definition rm_bp :: "(BufferPoolManager, 'a) em \<Rightarrow> (RmState, 'a) em" where
  "rm_bp m s = (case m (rs_bpm s) of (r, b) \<Rightarrow> (r, s\<lparr>rs_bpm := b\<rparr>))"

definition rm_unpin :: "int \<Rightarrow> bool \<Rightarrow> (RmState, unit) em" where
  "rm_unpin page_no dirty s =
     (Inr (), s\<lparr>rs_bpm := snd (unpin_page \<lparr>pid_fd = rs_fd s, pid_page_no = page_no\<rparr> dirty (rs_bpm s))\<rparr>)"

definition rm_put :: "frame_id_t \<Rightarrow> (byte list \<Rightarrow> byte list) \<Rightarrow> (RmState, unit) em" where
  "rm_put f g s = (Inr (), s\<lparr>rs_bpm := page_write f g (rs_bpm s)\<rparr>)"

definition rm_data :: "frame_id_t \<Rightarrow> RmState \<Rightarrow> byte list" where
  "rm_data f s = pg_data (bp_frame (rs_bpm s) f)"

text \<open>\<^verbatim>\<open>disk_manager_->write_page(fd_, RM_FILE_HDR_PAGE, &file_hdr_, sizeof(file_hdr_))\<close>.\<close>

definition write_file_hdr :: "(RmState, unit) em" where
  "write_file_hdr s =
     (case write_page (rs_fd s) RM_FILE_HDR_PAGE (enc_RmFileHdr (rs_hdr s)) sizeof_RmFileHdr (bp_disk (rs_bpm s)) of
        (r, d) \<Rightarrow> (r, s\<lparr>rs_bpm := (rs_bpm s)\<lparr>bp_disk := d\<rparr>\<rparr>))"

text \<open>A page handle is the frame that holds the page; a null page is dereferenced by the handle's
  constructor.\<close>

definition fetch_page_handle :: "int \<Rightarrow> (RmState, frame_id_t) em" where
  "fetch_page_handle page_no s =
     (if page_no < 0 \<or> page_no \<ge> num_pages (rs_hdr s)
      then (Inl (RMDBError (PageNotExistError ''table'' page_no)), s)
      else em_bind (rm_bp (fetch_page \<lparr>pid_fd = rs_fd s, pid_page_no = page_no\<rparr>))
             (\<lambda>p. case p of None \<Rightarrow> em_throw UndefinedBehaviour | Some f \<Rightarrow> em_return f) s)"

definition init_page :: "RmFileHdr \<Rightarrow> byte list \<Rightarrow> byte list" where
  "init_page h d = on_bitmap (bm_init (nat (bitmap_size h))) (set_num_records 0 (set_next_free (-1) d))"

definition create_new_page_handle :: "(RmState, frame_id_t) em" where
  "create_new_page_handle s =
     em_bind (rm_bp (new_page (rs_fd s)))
       (\<lambda>p. case p of
          None \<Rightarrow> em_throw UndefinedBehaviour
        | Some (page_no, f) \<Rightarrow>
            em_then (em_modify (\<lambda>s. s\<lparr>rs_hdr := (rs_hdr s)\<lparr>num_pages := c_int (num_pages (rs_hdr s) + 1),
                                                        first_free_page_no := page_no\<rparr>\<rparr>))
              (\<lambda>s. em_then (rm_put f (init_page (rs_hdr s))) (em_then write_file_hdr (em_return f)) s)) s"

definition create_page_handle :: "(RmState, frame_id_t) em" where
  "create_page_handle s =
     (if first_free_page_no (rs_hdr s) = -1 then create_new_page_handle s
      else fetch_page_handle (first_free_page_no (rs_hdr s)) s)"

definition release_page_handle :: "frame_id_t \<Rightarrow> (RmState, unit) em" where
  "release_page_handle f s =
     (let page_no = pid_page_no (pg_id (bp_frame (rs_bpm s) f))
      in em_then (rm_put f (set_next_free (first_free_page_no (rs_hdr s))))
           (em_then (em_modify (\<lambda>s. s\<lparr>rs_hdr := (rs_hdr s)\<lparr>first_free_page_no := page_no\<rparr>\<rparr>))
              write_file_hdr) s)"

text \<open>\<open>lk\<close> is the outcome of \<^verbatim>\<open>lock_record_read\<close> or \<^verbatim>\<open>lock_record_write\<close> for the record: nothing, or the
  exception of the lock manager.\<close>

type_synonym rec_lock = "Rid \<Rightarrow> exn + unit"

definition rm_lock :: "rec_lock \<Rightarrow> Rid \<Rightarrow> (RmState, unit) em" where
  "rm_lock lk rid s = (lk rid, s)"

definition is_record :: "Rid \<Rightarrow> (RmState, bool) em" where
  "is_record rid =
     em_bind (fetch_page_handle (rid_page_no rid)) (\<lambda>f s.
       let exists = is_set (page_bitmap (rm_data f s)) (rid_slot_no rid)
       in em_then (rm_unpin (rid_page_no rid) False) (em_return exists) s)"

definition get_record :: "rec_lock \<Rightarrow> Rid \<Rightarrow> (RmState, byte list) em" where
  "get_record lk rid =
     em_then (rm_lock lk rid)
       (em_bind (fetch_page_handle (rid_page_no rid)) (\<lambda>f s.
          if slot_in_page (rs_hdr s) (rid_slot_no rid)
          then let data = get_slot (rs_hdr s) (rid_slot_no rid) (rm_data f s)
               in em_then (rm_unpin (rid_page_no rid) False) (em_return data) s
          else (Inl UndefinedBehaviour, s)))"

text \<open>Storing a record in a slot: the bytes, the bitmap bit and the count.\<close>

definition fill_slot :: "RmFileHdr \<Rightarrow> int \<Rightarrow> byte list \<Rightarrow> byte list \<Rightarrow> byte list" where
  "fill_slot h slot_no buf d =
     (let d1 = put_slot h slot_no buf d;
          d2 = on_bitmap (\<lambda>bm. bm_set bm slot_no) d1
      in set_num_records (c_int (page_num_records d2 + 1)) d2)"

definition insert_record :: "rec_lock \<Rightarrow> byte list \<Rightarrow> (RmState, Rid) em" where
  "insert_record lk buf =
     em_bind create_page_handle (\<lambda>f s.
       let slot_no = first_bit False (page_bitmap (rm_data f s)) (num_records_per_page (rs_hdr s));
           page_no = pid_page_no (pg_id (bp_frame (rs_bpm s) f));
           rid = \<lparr>rid_page_no = page_no, rid_slot_no = slot_no\<rparr>
       in em_then (rm_lock lk rid)
            (if \<not> slot_in_page (rs_hdr s) slot_no then em_throw UndefinedBehaviour
             else em_then (rm_put f (fill_slot (rs_hdr s) slot_no buf))
               (em_then
                 (\<lambda>s. if page_num_records (rm_data f s) = num_records_per_page (rs_hdr s)
                       then em_then (em_modify (\<lambda>s. s\<lparr>rs_hdr := (rs_hdr s)\<lparr>first_free_page_no := page_next_free (rm_data f s)\<rparr>\<rparr>))
                              write_file_hdr s
                       else em_return () s)
                 (em_then (rm_unpin page_no True) (em_return rid)))) s)"

text \<open>\<^verbatim>\<open>insert_record(rid, buf)\<close>, used by rollback and recovery.\<close>

definition insert_record_at :: "Rid \<Rightarrow> byte list \<Rightarrow> (RmState, unit) em" where
  "insert_record_at rid buf =
     em_bind (fetch_page_handle (rid_page_no rid)) (\<lambda>f s.
       if slot_in_page (rs_hdr s) (rid_slot_no rid)
       then em_then (rm_put f (fill_slot (rs_hdr s) (rid_slot_no rid) buf)) (rm_unpin (rid_page_no rid) True) s
       else (Inl UndefinedBehaviour, s))"

definition clear_slot :: "int \<Rightarrow> byte list \<Rightarrow> byte list" where
  "clear_slot slot_no d =
     (let d1 = on_bitmap (\<lambda>bm. bm_reset bm slot_no) d
      in set_num_records (c_int (page_num_records d1 - 1)) d1)"

definition delete_record :: "rec_lock \<Rightarrow> Rid \<Rightarrow> (RmState, unit) em" where
  "delete_record lk rid =
     em_then (rm_lock lk rid)
       (em_bind (fetch_page_handle (rid_page_no rid)) (\<lambda>f.
          em_then (rm_put f (clear_slot (rid_slot_no rid)))
            (em_then
              (\<lambda>s. if page_num_records (rm_data f s) = num_records_per_page (rs_hdr s) - 1
                    then release_page_handle f s else em_return () s)
              (rm_unpin (rid_page_no rid) True))))"

definition update_record :: "rec_lock \<Rightarrow> Rid \<Rightarrow> byte list \<Rightarrow> (RmState, unit) em" where
  "update_record lk rid buf =
     em_then (rm_lock lk rid)
       (em_bind (fetch_page_handle (rid_page_no rid)) (\<lambda>f s.
          if slot_in_page (rs_hdr s) (rid_slot_no rid)
          then em_then (rm_put f (put_slot (rs_hdr s) (rid_slot_no rid) buf)) (rm_unpin (rid_page_no rid) True) s
          else (Inl UndefinedBehaviour, s)))"

section \<open>The record manager\<close>

text \<open>The header that \<^verbatim>\<open>RmManager::create_file\<close> computes for a record size.\<close>

definition rm_layout :: "int \<Rightarrow> RmFileHdr" where
  "rm_layout sz =
     (let n = cdiv (BITMAP_WIDTH * (int PAGE_SIZE - 1 - int sizeof_RmFileHdr) + 1) (1 + sz * BITMAP_WIDTH)
      in \<lparr>record_size = sz, num_pages = 1, num_records_per_page = n, first_free_page_no = RM_NO_PAGE,
          bitmap_size = cdiv (n + BITMAP_WIDTH - 1) BITMAP_WIDTH\<rparr>)"

definition rm_create_file :: "string \<Rightarrow> int \<Rightarrow> (DiskManager, unit) em" where
  "rm_create_file filename sz =
     (if sz < 1 \<or> sz > RM_MAX_RECORD_SIZE then em_throw (RMDBError (InvalidRecordSizeError sz))
      else em_then (create_file filename)
        (em_bind (open_file filename) (\<lambda>fd.
           em_then (write_page fd RM_FILE_HDR_PAGE (enc_RmFileHdr (rm_layout sz)) sizeof_RmFileHdr)
             (close_file fd))))"

definition rm_destroy_file :: "string \<Rightarrow> (DiskManager, unit) em" where
  "rm_destroy_file filename = destroy_file filename"

text \<open>\<^verbatim>\<open>RmManager::open_file\<close> with the handle's constructor: the header is read from page 0 and the
  page counter starts at its page count. \<open>junk\<close> is the uninitialised header before the read.\<close>

definition rm_open_file :: "byte list \<Rightarrow> string \<Rightarrow> BufferPoolManager \<Rightarrow> (exn + RmState) \<times> BufferPoolManager" where
  "rm_open_file junk filename b =
     (case open_file filename (bp_disk b) of
        (Inl e, d) \<Rightarrow> (Inl e, b\<lparr>bp_disk := d\<rparr>)
      | (Inr fd, d) \<Rightarrow>
          (case read_page fd RM_FILE_HDR_PAGE junk sizeof_RmFileHdr d of
             (Inl e, buf, d1) \<Rightarrow> (Inl e, b\<lparr>bp_disk := d1\<rparr>)
           | (Inr _, buf, d1) \<Rightarrow>
               (let h = dec_RmFileHdr buf;
                    b1 = b\<lparr>bp_disk := set_fd2pageno fd (num_pages h) d1\<rparr>
                in (Inr \<lparr>rs_fd = fd, rs_hdr = h, rs_bpm = b1\<rparr>, b1))))"

definition rm_close_file :: "(RmState, unit) em" where
  "rm_close_file =
     em_then write_file_hdr
       (\<lambda>s. em_then (rm_bp (flush_all_pages (rs_fd s)))
          (rm_bp (\<lambda>b. case close_file (rs_fd s) (bp_disk b) of (r, d) \<Rightarrow> (r, b\<lparr>bp_disk := d\<rparr>))) s)"

section \<open>Scans\<close>

text \<open>The loop over pages that the constructor and \<^verbatim>\<open>next\<close> share: probe page \<open>page_no\<close> from after
  position \<open>start\<close>; a full probe unpins the page and goes on with \<open>restart\<close>. The page of the record
  found stays pinned.\<close>

function scan_pages :: "int \<Rightarrow> int \<Rightarrow> int \<Rightarrow> int \<Rightarrow> (RmState, Rid) em" where
  "scan_pages np restart page_no start s =
     (if page_no < np
      then em_bind (fetch_page_handle page_no) (\<lambda>f s.
             let n = num_records_per_page (rs_hdr s);
                 slot = next_bit True (page_bitmap (rm_data f s)) n start
             in if slot < n then (Inr \<lparr>rid_page_no = page_no, rid_slot_no = slot\<rparr>, s)
                else em_then (rm_unpin page_no False) (scan_pages np restart (page_no + 1) restart) s) s
      else (Inr \<lparr>rid_page_no = -1, rid_slot_no = -1\<rparr>, s))"
  by pat_completeness auto
termination
  by (relation "measure (\<lambda>(np, restart, page_no, start, s). nat (np - page_no))") auto

declare scan_pages.simps [simp del]

definition RmScan_new :: "(RmState, Rid) em" where
  "RmScan_new s = scan_pages (num_pages (rs_hdr s)) (-1) RM_FIRST_RECORD_PAGE (-1) s"

text \<open>After the first page, \<^verbatim>\<open>next\<close> continues with slot number -1, so the probe starts at -2 + 1.\<close>

definition RmScan_next :: "Rid \<Rightarrow> (RmState, Rid) em" where
  "RmScan_next rid s =
     (let s1 = (if rid_page_no rid \<ge> 0 \<and> rid_page_no rid < num_pages (rs_hdr s)
                then snd (rm_unpin (rid_page_no rid) False s) else s)
      in scan_pages (num_pages (rs_hdr s)) (-2) (rid_page_no rid) (rid_slot_no rid + 1 - 1) s1)"

definition RmScan_is_end :: "Rid \<Rightarrow> bool" where
  "RmScan_is_end rid \<longleftrightarrow> rid_page_no rid = -1 \<and> rid_slot_no rid = -1"

section \<open>The page layout\<close>

definition hdr_ok :: "RmFileHdr \<Rightarrow> bool" where
  "hdr_ok h \<longleftrightarrow> 1 \<le> record_size h \<and> record_size h \<le> RM_MAX_RECORD_SIZE \<and>
     num_records_per_page h = num_records_per_page (rm_layout (record_size h)) \<and>
     bitmap_size h = bitmap_size (rm_layout (record_size h))"

lemma layout_bounds:
  assumes "hdr_ok h"
  shows "0 < record_size h" "7 \<le> num_records_per_page h" "num_records_per_page h \<le> 3622" "0 < bitmap_size h"
    "num_records_per_page h \<le> 8 * bitmap_size h"
    "12 + bitmap_size h + num_records_per_page h * record_size h \<le> 4088"
proof -
  let ?r = "record_size h" let ?n = "num_records_per_page h" let ?m = "bitmap_size h"
  have r: "1 \<le> ?r" "?r \<le> 512" using assms by (simp_all add: hdr_ok_def RM_MAX_RECORD_SIZE_def)
  have n: "?n = 32601 div (1 + ?r * 8)"
    using assms r by (simp add: hdr_ok_def rm_layout_def Let_def BITMAP_WIDTH_def PAGE_SIZE_def sizeof_RmFileHdr_def cdiv_nonneg)
  have a: "?n * (1 + ?r * 8) \<le> 32601" unfolding n
    using r div_mult_mod_eq[of 32601 "1 + ?r * 8"] pos_mod_sign[of "1 + ?r * 8" 32601] by linarith
  have "32601 div (1 + 512 * 8) \<le> ?n" unfolding n using r by (intro zdiv_mono2) simp_all
  then show n7: "7 \<le> ?n" by simp
  have "?n \<le> 32601 div (1 + 1 * 8)" unfolding n using r by (intro zdiv_mono2) simp_all
  then show "?n \<le> 3622" by simp
  have "bitmap_size h = cdiv (num_records_per_page (rm_layout ?r) + BITMAP_WIDTH - 1) BITMAP_WIDTH"
    using assms by (simp add: hdr_ok_def) (simp add: rm_layout_def Let_def)
  then have m: "?m = (?n + 7) div 8" using assms n7 by (simp add: hdr_ok_def BITMAP_WIDTH_def cdiv_nonneg add.commute)
  then show "0 < ?m" "?n \<le> 8 * ?m" using n7 by linarith+
  have "8 * ?m \<le> ?n + 7" using m by linarith
  moreover have "?n * (1 + ?r * 8) = ?n + 8 * (?n * ?r)" by (simp add: algebra_simps)
  ultimately show "12 + ?m + ?n * ?r \<le> 4088" using a by linarith
  show "0 < ?r" using r by simp
qed

text \<open>A slot as a byte range of the page.\<close>

definition slot_pos :: "RmFileHdr \<Rightarrow> int \<Rightarrow> nat" where
  "slot_pos h i = nat (slot_off h i)"

definition valid_slot :: "RmFileHdr \<Rightarrow> int \<Rightarrow> bool" where
  "valid_slot h i \<longleftrightarrow> 0 \<le> i \<and> i < num_records_per_page h"

lemma slot_range:
  assumes "hdr_ok h" and "valid_slot h i"
  shows "slot_off h i = int (slot_pos h i)" "12 + nat (bitmap_size h) \<le> slot_pos h i"
    "slot_pos h i + nat (record_size h) \<le> PAGE_SIZE" "slot_in_page h i"
    "12 + nat i div 8 < 12 + nat (bitmap_size h)"
proof -
  note lb = layout_bounds[OF assms(1)]
  have v: "0 \<le> i" "i + 1 \<le> num_records_per_page h" using assms(2) by (simp_all add: valid_slot_def)
  have "0 \<le> i * record_size h" using v lb by simp
  moreover have "(i + 1) * record_size h \<le> num_records_per_page h * record_size h"
    using v lb by (intro mult_right_mono) simp_all
  then have "i * record_size h + record_size h \<le> num_records_per_page h * record_size h" by (simp add: algebra_simps)
  ultimately have b: "12 + bitmap_size h \<le> slot_off h i" "slot_off h i + record_size h \<le> 4088"
    using lb by (simp_all add: slot_off_def bitmap_off_def sizeof_RmPageHdr_def OFFSET_PAGE_HDR_def)
  then show "slot_off h i = int (slot_pos h i)" "12 + nat (bitmap_size h) \<le> slot_pos h i"
    "slot_pos h i + nat (record_size h) \<le> PAGE_SIZE" "slot_in_page h i"
    using lb by (simp_all add: slot_pos_def slot_in_page_def PAGE_SIZE_def)
  show "12 + nat i div 8 < 12 + nat (bitmap_size h)" using v lb by linarith
qed

lemma slots_disjoint:
  assumes "hdr_ok h" and "valid_slot h i" and "valid_slot h j" and "i \<noteq> j"
  shows "slot_pos h i + nat (record_size h) \<le> slot_pos h j \<or> slot_pos h j + nat (record_size h) \<le> slot_pos h i"
proof -
  have r: "0 < record_size h" using layout_bounds[OF assms(1)] by simp
  have le: "slot_off h a + record_size h \<le> slot_off h b" if "a < b" for a b
  proof -
    have "(a + 1) * record_size h \<le> b * record_size h" using that r by (intro mult_right_mono) simp_all
    then show ?thesis by (simp add: slot_off_def algebra_simps)
  qed
  have "slot_off h i + record_size h \<le> slot_off h j \<or> slot_off h j + record_size h \<le> slot_off h i"
    using le[of i j] le[of j i] assms(4) by linarith
  then show ?thesis
    using slot_range(1)[OF assms(1,2)] slot_range(1)[OF assms(1,3)] r by linarith
qed

subsection \<open>Reading back page parts\<close>

lemmas page_off_defs = OFFSET_PAGE_HDR_def bitmap_off_def sizeof_RmPageHdr_def

lemma length_enc_int [simp]: "length (enc_int v) = 4"
  by (simp add: enc_int_def)

lemma dec_enc_int: "in_int v \<Longrightarrow> le_sint (enc_int v) = v"
  by (simp add: enc_int_def le_sint_le_bytes in_int_def INT_MIN_def INT_MAX_def)

lemma is_set_page_cong:
  assumes "0 \<le> j" and "length d' = length d" and "d' ! (12 + nat j div 8) = d ! (12 + nat j div 8)" and "12 + nat j div 8 < length d"
  shows "is_set (page_bitmap d') j = is_set (page_bitmap d) j"
  using assms by (simp add: is_set_has bm_has_def page_bitmap_def page_off_defs)

lemma on_bitmap_put:
  assumes "0 \<le> i" and "12 + nat i div 8 < length d" and "g = (\<lambda>bm. bm[get_bucket i := w bm])"
  shows "on_bitmap g d = put_bytes (12 + nat i div 8) [w (drop 12 d)] d"
proof (rule nth_equalityI)
  show "length (on_bitmap g d) = length (put_bytes (12 + nat i div 8) [w (drop 12 d)] d)"
    using assms by (simp add: on_bitmap_def page_off_defs)
  fix k assume "k < length (on_bitmap g d)"
  then have k: "k < length d" using assms by (simp add: on_bitmap_def page_off_defs)
  show "on_bitmap g d ! k = put_bytes (12 + nat i div 8) [w (drop 12 d)] d ! k"
    using assms k by (auto simp: on_bitmap_def page_off_defs nth_put_bytes nth_append nth_list_update get_bucket_nonneg)
qed

lemma bitmap_on_bitmap: "12 \<le> length d \<Longrightarrow> page_bitmap (on_bitmap g d) = g (page_bitmap d)"
  by (simp add: page_bitmap_def on_bitmap_def page_off_defs)

text \<open>Writes outside a byte range leave what is read there.\<close>

lemma dec_int_put:
  assumes "length d = PAGE_SIZE" and "o1 + length new \<le> PAGE_SIZE" and "o2 + 4 \<le> PAGE_SIZE"
    and "o2 + 4 \<le> o1 \<or> o1 + length new \<le> o2"
  shows "dec_int o2 (put_bytes o1 new d) = dec_int o2 d"
  using assms by (simp add: dec_int_def get_put_disjoint)

lemma is_set_put:
  assumes "length d = PAGE_SIZE" and "0 \<le> j" and "12 + nat j div 8 < PAGE_SIZE" and "o1 + length new \<le> PAGE_SIZE"
    and "12 + nat j div 8 < o1 \<or> o1 + length new \<le> 12 + nat j div 8"
  shows "is_set (page_bitmap (put_bytes o1 new d)) j = is_set (page_bitmap d) j"
  using assms by (intro is_set_page_cong) (auto simp: nth_put_bytes)

section \<open>Pages as sets of records\<close>

definition page_slots :: "RmFileHdr \<Rightarrow> byte list \<Rightarrow> int set" where
  "page_slots h d = {i. valid_slot h i \<and> is_set (page_bitmap d) i}"

definition page_recs :: "RmFileHdr \<Rightarrow> byte list \<Rightarrow> int \<Rightarrow> byte list option" where
  "page_recs h d i = (if i \<in> page_slots h d then Some (get_slot h i d) else None)"

definition page_wf :: "RmFileHdr \<Rightarrow> byte list \<Rightarrow> bool" where
  "page_wf h d \<longleftrightarrow> length d = PAGE_SIZE \<and> page_num_records d = int (card (page_slots h d))"

lemma finite_page_slots: "finite (page_slots h d)"
proof -
  have "page_slots h d \<subseteq> {0..<num_records_per_page h}" by (auto simp: page_slots_def valid_slot_def)
  then show ?thesis by (rule finite_subset) simp
qed

lemma card_page_slots:
  assumes "hdr_ok h"
  shows "int (card (page_slots h d)) \<le> num_records_per_page h"
    "int (card (page_slots h d)) = num_records_per_page h \<longleftrightarrow> page_slots h d = {0..<num_records_per_page h}"
proof -
  have sub: "page_slots h d \<subseteq> {0..<num_records_per_page h}" by (auto simp: page_slots_def valid_slot_def)
  have c: "int (card {0..<num_records_per_page h}) = num_records_per_page h" using layout_bounds[OF assms] by simp
  have "card (page_slots h d) \<le> card {0..<num_records_per_page h}" by (rule card_mono[OF _ sub]) simp
  with c show "int (card (page_slots h d)) \<le> num_records_per_page h" by linarith
  show "int (card (page_slots h d)) = num_records_per_page h \<longleftrightarrow> page_slots h d = {0..<num_records_per_page h}"
    using card_subset_eq[OF _ sub] c by (metis finite_atLeastLessThan_int int_int_eq)
qed

lemma page_count_int: "hdr_ok h \<Longrightarrow> in_int (int (card (page_slots h d)) + k)" if "-1 \<le> k" "k \<le> 1"
  using card_page_slots(1)[of h d] layout_bounds(3)[of h] that by (simp add: in_int_def INT_MIN_def INT_MAX_def)

text \<open>The three writes of a page operation, in terms of what is read afterwards.\<close>

lemma set_num_effects:
  assumes "hdr_ok h" and "length d = PAGE_SIZE"
  shows "length (set_num_records v d) = PAGE_SIZE" "page_slots h (set_num_records v d) = page_slots h d"
    "page_recs h (set_num_records v d) = page_recs h d" "page_next_free (set_num_records v d) = page_next_free d"
    "in_int v \<Longrightarrow> page_num_records (set_num_records v d) = v"
proof -
  show sl: "page_slots h (set_num_records v d) = page_slots h d"
    using slot_range(5)[OF assms(1)] layout_bounds[OF assms(1)] is_set_put[OF assms(2), of _ 8 "enc_int v"]
    by (fastforce simp: page_slots_def set_num_records_def OFFSET_PAGE_HDR_def PAGE_SIZE_def valid_slot_def)
  have "get_slot h i (set_num_records v d) = get_slot h i d" if "valid_slot h i" for i
    using slot_range[OF assms(1) that] assms(2)
    by (simp add: get_slot_def slot_pos_def set_num_records_def OFFSET_PAGE_HDR_def get_put_disjoint PAGE_SIZE_def)
  then show "page_recs h (set_num_records v d) = page_recs h d"
    by (auto simp: page_recs_def sl fun_eq_iff) (simp add: page_slots_def)
qed (use assms in \<open>simp_all add: set_num_records_def page_next_free_def page_num_records_def OFFSET_PAGE_HDR_def
    dec_int_put PAGE_SIZE_def dec_int_def dec_enc_int get_put_disjoint\<close>)

lemma set_next_effects:
  assumes "hdr_ok h" and "length d = PAGE_SIZE"
  shows "length (set_next_free v d) = PAGE_SIZE" "page_slots h (set_next_free v d) = page_slots h d"
    "page_recs h (set_next_free v d) = page_recs h d" "in_int v \<Longrightarrow> page_next_free (set_next_free v d) = v"
    "page_num_records (set_next_free v d) = page_num_records d"
proof -
  show sl: "page_slots h (set_next_free v d) = page_slots h d"
    using slot_range(5)[OF assms(1)] layout_bounds[OF assms(1)] is_set_put[OF assms(2), of _ 4 "enc_int v"]
    by (fastforce simp: page_slots_def set_next_free_def OFFSET_PAGE_HDR_def PAGE_SIZE_def valid_slot_def)
  have "get_slot h i (set_next_free v d) = get_slot h i d" if "valid_slot h i" for i
    using slot_range[OF assms(1) that] assms(2)
    by (simp add: get_slot_def slot_pos_def set_next_free_def OFFSET_PAGE_HDR_def get_put_disjoint PAGE_SIZE_def)
  then show "page_recs h (set_next_free v d) = page_recs h d"
    by (auto simp: page_recs_def sl fun_eq_iff) (simp add: page_slots_def)
qed (use assms in \<open>simp_all add: set_next_free_def page_next_free_def page_num_records_def OFFSET_PAGE_HDR_def
    dec_int_put PAGE_SIZE_def dec_int_def dec_enc_int get_put_disjoint\<close>)

lemma put_slot_effects:
  assumes h: "hdr_ok h" and l: "length d = PAGE_SIZE" and v: "valid_slot h i" and b: "int (length buf) = record_size h"
  shows "length (put_slot h i buf d) = PAGE_SIZE" "page_slots h (put_slot h i buf d) = page_slots h d"
    "get_slot h i (put_slot h i buf d) = buf" "valid_slot h j \<Longrightarrow> j \<noteq> i \<Longrightarrow> get_slot h j (put_slot h i buf d) = get_slot h j d"
    "page_next_free (put_slot h i buf d) = page_next_free d" "page_num_records (put_slot h i buf d) = page_num_records d"
proof -
  note r = slot_range[OF h v]
  have nb: "length buf = nat (record_size h)" using b by simp
  have e: "put_slot h i buf d = put_bytes (slot_pos h i) buf d" by (simp add: put_slot_def slot_pos_def nb)
  show "length (put_slot h i buf d) = PAGE_SIZE" using r l nb by (simp add: e)
  have "is_set (page_bitmap (put_bytes (slot_pos h i) buf d)) j = is_set (page_bitmap d) j" if "valid_slot h j" for j
    using slot_range(5)[OF h that] slot_range(3)[OF h that] r nb that
    by (intro is_set_put[OF l]) (auto simp: valid_slot_def)
  then show "page_slots h (put_slot h i buf d) = page_slots h d" by (auto simp: e page_slots_def)
  show "get_slot h i (put_slot h i buf d) = buf" using r l nb by (simp add: e get_slot_def slot_pos_def[symmetric])
  show "get_slot h j (put_slot h i buf d) = get_slot h j d" if "valid_slot h j" "j \<noteq> i"
    using slots_disjoint[OF h that(1) v that(2)] slot_range[OF h that(1)] r l nb
    by (simp add: e get_slot_def slot_pos_def[symmetric] get_put_disjoint)
  show "page_next_free (put_slot h i buf d) = page_next_free d" "page_num_records (put_slot h i buf d) = page_num_records d"
    using r l nb unfolding e page_next_free_def page_num_records_def
    by (auto intro!: dec_int_put simp: OFFSET_PAGE_HDR_def PAGE_SIZE_def)
qed

lemma bit_write_effects:
  assumes h: "hdr_ok h" and l: "length d = PAGE_SIZE" and v: "valid_slot h i" and g: "g = (\<lambda>bm. bm[get_bucket i := w bm])"
  shows "length (on_bitmap g d) = PAGE_SIZE" "valid_slot h j \<Longrightarrow> get_slot h j (on_bitmap g d) = get_slot h j d"
    "page_next_free (on_bitmap g d) = page_next_free d" "page_num_records (on_bitmap g d) = page_num_records d"
    "page_bitmap (on_bitmap g d) = g (page_bitmap d)"
proof -
  note r = slot_range[OF h v]
  have i0: "0 \<le> i" using v by (simp add: valid_slot_def)
  have p: "12 + nat i div 8 < PAGE_SIZE" using r by simp
  have e: "on_bitmap g d = put_bytes (12 + nat i div 8) [w (drop 12 d)] d"
    using on_bitmap_put[OF i0 _ g] p l by simp
  show "length (on_bitmap g d) = PAGE_SIZE" using p l by (simp add: e)
  show "get_slot h j (on_bitmap g d) = get_slot h j d" if "valid_slot h j"
    using slot_range[OF h that] r p l by (simp add: e get_slot_def slot_pos_def[symmetric] get_put_disjoint)
  show "page_next_free (on_bitmap g d) = page_next_free d" "page_num_records (on_bitmap g d) = page_num_records d"
    using p l unfolding e page_next_free_def page_num_records_def
    by (auto intro!: dec_int_put simp: OFFSET_PAGE_HDR_def PAGE_SIZE_def)
  show "page_bitmap (on_bitmap g d) = g (page_bitmap d)"
    using l by (intro bitmap_on_bitmap) (simp add: PAGE_SIZE_def)
qed

lemma bm_set_upd: "(\<lambda>bm. bm_set bm i) = (\<lambda>bm. bm[get_bucket i := bm ! get_bucket i OR get_bit i])"
  by (simp add: bm_set_def fun_eq_iff)

lemma bm_reset_upd: "(\<lambda>bm. bm_reset bm i) = (\<lambda>bm. bm[get_bucket i := bm ! get_bucket i AND NOT (get_bit i)])"
  by (simp add: bm_reset_def fun_eq_iff)

lemma valid_in_bitmap:
  assumes "hdr_ok h" and "length d = PAGE_SIZE" and "valid_slot h i"
  shows "0 \<le> i" "i < 8 * int (length (page_bitmap d))"
proof -
  show "0 \<le> i" using assms(3) by (simp add: valid_slot_def)
  have "12 + nat i div 8 < PAGE_SIZE" using slot_range[OF assms(1,3)] by simp
  then show "i < 8 * int (length (page_bitmap d))"
    using assms(2) by (simp add: page_bitmap_def page_off_defs PAGE_SIZE_def)
qed

lemma fill_slot_effects:
  assumes h: "hdr_ok h" and w: "page_wf h d" and v: "valid_slot h i" and b: "int (length buf) = record_size h"
    and new: "i \<notin> page_slots h d"
  shows "page_wf h (fill_slot h i buf d)" "page_slots h (fill_slot h i buf d) = insert i (page_slots h d)"
    "page_recs h (fill_slot h i buf d) = (page_recs h d)(i \<mapsto> buf)"
    "page_next_free (fill_slot h i buf d) = page_next_free d"
    "page_num_records (fill_slot h i buf d) = page_num_records d + 1"
proof -
  have l: "length d = PAGE_SIZE" and cnt: "page_num_records d = int (card (page_slots h d))"
    using w by (simp_all add: page_wf_def)
  define d1 where "d1 = put_slot h i buf d"
  note p = put_slot_effects[OF h l v b, folded d1_def]
  define d2 where "d2 = on_bitmap (\<lambda>bm. bm_set bm i) d1"
  note q = bit_write_effects[OF h p(1) v bm_set_upd, folded d2_def]
  have sl2: "page_slots h d2 = insert i (page_slots h d)"
  proof -
    have "is_set (page_bitmap d2) j \<longleftrightarrow> i = j \<or> is_set (page_bitmap d1) j" if "valid_slot h j" for j
      using that unfolding q(5) by (intro is_set_set[OF valid_in_bitmap[OF h p(1) v]]) (simp add: valid_slot_def)
    then have "page_slots h d2 = insert i (page_slots h d1)" using v by (auto simp: page_slots_def)
    then show ?thesis using p(2) by simp
  qed
  have n2: "page_num_records d2 = page_num_records d" using q(4) p(6) by simp
  have f: "fill_slot h i buf d = set_num_records (page_num_records d + 1) d2"
    using page_count_int[of 1 h d] h cnt n2 by (simp add: fill_slot_def Let_def d1_def d2_def c_int_id)
  note e = set_num_effects[OF h q(1), of "page_num_records d + 1", folded f]
  show sl: "page_slots h (fill_slot h i buf d) = insert i (page_slots h d)" using e(2) sl2 by simp
  show num: "page_num_records (fill_slot h i buf d) = page_num_records d + 1"
    using e(5) page_count_int[of 1 h d] h cnt by simp
  show "page_wf h (fill_slot h i buf d)"
    using e(1) num sl new cnt finite_page_slots by (simp add: page_wf_def)
  show "page_next_free (fill_slot h i buf d) = page_next_free d" using e(4) q(3) p(5) by simp
  have "page_recs h d2 = (page_recs h d)(i \<mapsto> buf)"
  proof
    fix j
    show "page_recs h d2 j = ((page_recs h d)(i \<mapsto> buf)) j"
      using q(2)[of j] p(3) p(4)[of j] sl2 v by (cases "j = i") (auto simp: page_recs_def page_slots_def)
  qed
  then show "page_recs h (fill_slot h i buf d) = (page_recs h d)(i \<mapsto> buf)" using e(3) by simp
qed

lemma clear_slot_effects:
  assumes h: "hdr_ok h" and w: "page_wf h d" and i: "i \<in> page_slots h d"
  shows "page_wf h (clear_slot i d)" "page_slots h (clear_slot i d) = page_slots h d - {i}"
    "page_recs h (clear_slot i d) = (page_recs h d)(i := None)" "page_next_free (clear_slot i d) = page_next_free d"
    "page_num_records (clear_slot i d) = page_num_records d - 1"
proof -
  have l: "length d = PAGE_SIZE" and cnt: "page_num_records d = int (card (page_slots h d))"
    using w by (simp_all add: page_wf_def)
  have v: "valid_slot h i" using i by (simp add: page_slots_def)
  define d2 where "d2 = on_bitmap (\<lambda>bm. bm_reset bm i) d"
  note q = bit_write_effects[OF h l v bm_reset_upd, folded d2_def]
  have sl2: "page_slots h d2 = page_slots h d - {i}"
  proof -
    have "is_set (page_bitmap d2) j \<longleftrightarrow> i \<noteq> j \<and> is_set (page_bitmap d) j" if "valid_slot h j" for j
      using that unfolding q(5) by (intro is_set_reset[OF valid_in_bitmap[OF h l v]]) (simp add: valid_slot_def)
    then show ?thesis by (auto simp: page_slots_def)
  qed
  have f: "clear_slot i d = set_num_records (page_num_records d - 1) d2"
    using page_count_int[of "-1" h d] h cnt q(4) by (simp add: clear_slot_def Let_def d2_def c_int_id)
  note e = set_num_effects[OF h q(1), of "page_num_records d - 1", folded f]
  show sl: "page_slots h (clear_slot i d) = page_slots h d - {i}" using e(2) sl2 by simp
  show num: "page_num_records (clear_slot i d) = page_num_records d - 1"
    using e(5) page_count_int[of "-1" h d] h cnt by simp
  have "0 < card (page_slots h d)" using i finite_page_slots card_gt_0_iff by blast
  then show "page_wf h (clear_slot i d)"
    using e(1) num sl i cnt finite_page_slots[of h d] by (simp add: page_wf_def of_nat_diff)
  show "page_next_free (clear_slot i d) = page_next_free d" using e(4) q(3) by simp
  have "page_recs h d2 = (page_recs h d)(i := None)"
  proof
    fix j
    show "page_recs h d2 j = ((page_recs h d)(i := None)) j"
      using q(2)[of j] sl2 by (cases "j = i") (auto simp: page_recs_def page_slots_def)
  qed
  then show "page_recs h (clear_slot i d) = (page_recs h d)(i := None)" using e(3) by simp
qed

lemma update_slot_effects:
  assumes h: "hdr_ok h" and w: "page_wf h d" and i: "i \<in> page_slots h d" and b: "int (length buf) = record_size h"
  shows "page_wf h (put_slot h i buf d)" "page_recs h (put_slot h i buf d) = (page_recs h d)(i \<mapsto> buf)"
    "page_next_free (put_slot h i buf d) = page_next_free d" "page_num_records (put_slot h i buf d) = page_num_records d"
proof -
  have l: "length d = PAGE_SIZE" and v: "valid_slot h i" using w i by (simp_all add: page_wf_def page_slots_def)
  note p = put_slot_effects[OF h l v b]
  show "page_wf h (put_slot h i buf d)" using w p by (simp add: page_wf_def)
  show "page_next_free (put_slot h i buf d) = page_next_free d" "page_num_records (put_slot h i buf d) = page_num_records d"
    by (rule p)+
  show "page_recs h (put_slot h i buf d) = (page_recs h d)(i \<mapsto> buf)"
  proof
    fix j
    show "page_recs h (put_slot h i buf d) j = ((page_recs h d)(i \<mapsto> buf)) j"
      using p(2,3) p(4)[of j] i by (cases "j = i") (auto simp: page_recs_def page_slots_def)
  qed
qed

lemma init_page_effects:
  assumes h: "hdr_ok h" and l: "length d = PAGE_SIZE"
  shows "page_wf h (init_page h d)" "page_slots h (init_page h d) = {}" "page_next_free (init_page h d) = -1"
    "page_recs h (init_page h d) = (\<lambda>_. None)" "page_num_records (init_page h d) = 0"
proof -
  define d1 where "d1 = set_num_records 0 (set_next_free (-1) d)"
  have in0: "in_int 0" "in_int (-1)" by (simp_all add: in_int_def INT_MIN_def INT_MAX_def)
  note a = set_next_effects[OF h l, of "-1"]
  note b = set_num_effects[OF h a(1), of 0, folded d1_def]
  have d1: "length d1 = PAGE_SIZE" "page_next_free d1 = -1" "page_num_records d1 = 0"
    using a b in0 by simp_all
  let ?m = "nat (bitmap_size h)"
  have "0 \<le> num_records_per_page h * record_size h" using layout_bounds[OF h] by simp
  then have m: "12 + ?m \<le> PAGE_SIZE" using layout_bounds(4,6)[OF h] by (simp add: PAGE_SIZE_def)
  define d2 where "d2 = init_page h d"
  have i2: "d2 = put_bytes 12 (replicate ?m 0) d1"
    using m d1(1) by (simp add: d2_def init_page_def d1_def[symmetric] on_bitmap_def put_bytes_def bm_init_def page_off_defs add.commute)
  have l2: "length d2 = PAGE_SIZE" using m d1(1) by (simp add: i2)
  have "page_bitmap d2 = bm_init ?m (page_bitmap d1)"
    using d1(1) by (simp add: d2_def init_page_def d1_def[symmetric] bitmap_on_bitmap PAGE_SIZE_def)
  moreover have "i < 8 * int ?m" if "valid_slot h i" for i
    using that layout_bounds[OF h] by (simp add: valid_slot_def)
  ultimately show sl: "page_slots h (init_page h d) = {}"
    using is_set_init by (auto simp: page_slots_def d2_def valid_slot_def)
  show "page_next_free (init_page h d) = -1" and num: "page_num_records (init_page h d) = 0"
    using d1 m dec_int_put[OF d1(1), of 12 "replicate ?m 0"]
    unfolding d2_def[symmetric] i2 page_next_free_def page_num_records_def
    by (simp_all add: OFFSET_PAGE_HDR_def PAGE_SIZE_def)
  show "page_wf h (init_page h d)" using l2 num sl by (simp add: page_wf_def d2_def)
  show "page_recs h (init_page h d) = (\<lambda>_. None)" using sl by (simp add: page_recs_def fun_eq_iff)
qed

section \<open>Holding a page\<close>

lemma pins_disk [simp]: "pins (b\<lparr>bp_disk := d\<rparr>) = pins b"
  by (simp add: pins_def fun_eq_iff split: option.split)

definition hdr_pid :: "int \<Rightarrow> PageId" where
  "hdr_pid fd = \<lparr>pid_fd = fd, pid_page_no = RM_FILE_HDR_PAGE\<rparr>"

text \<open>Pages outside \<open>X\<close> that could be read are kept.\<close>

definition kept_but :: "PageId set \<Rightarrow> BufferPoolManager \<Rightarrow> BufferPoolManager \<Rightarrow> bool" where
  "kept_but X b b' \<longleftrightarrow> (\<forall>q x. q \<notin> X \<and> page_view b q = Some x \<longrightarrow> page_view b' q = Some x)"

lemma kept_but_trans: "kept_but X b b' \<Longrightarrow> kept_but X b' b'' \<Longrightarrow> kept_but X b b''"
  by (simp add: kept_but_def)

lemma kept_but_mono: "kept_but X b b' \<Longrightarrow> X \<subseteq> Y \<Longrightarrow> kept_but Y b b'"
  unfolding kept_but_def by blast

text \<open>Since the roomy pool \<open>b0\<close>, the page \<open>pid\<close> was pinned once more, in frame \<open>f\<close>.\<close>

definition held_since :: "BufferPoolManager \<Rightarrow> BufferPoolManager \<Rightarrow> PageId \<Rightarrow> frame_id_t \<Rightarrow> bool" where
  "held_since b0 b pid f \<longleftrightarrow> bp_inv b0 \<and> bp_roomy b0 \<and> bp_inv b \<and> bp_held b pid f \<and>
     pins b = (pins b0)(pid := pins b0 pid + 1) \<and>
     (0 < pins b0 pid \<longrightarrow> bp_free b = bp_free b0 \<and> bp_table b = bp_table b0)"

lemma held_frame:
  assumes "held_since b0 b pid f"
  shows "pg_id (bp_frame b f) = pid" "length (pg_data (bp_frame b f)) = PAGE_SIZE"
    "page_view b pid = Some (pg_data (bp_frame b f))" "f < length (bp_pages b)" "map_of (bp_table b) pid = Some f"
    "bp_inv b" "0 < pg_pin (bp_frame b f)"
  using assms bp_struct_table[OF bp_inv_struct, of b pid f] by (auto simp: held_since_def bp_held_def page_view_def)

lemma held_fetch:
  assumes "bp_inv b" and "bp_roomy b" and "page_ok (bp_disk b) pid" and "page_view b pid = Some d"
  obtains f b1 where "fetch_page pid b = (Inr (Some f), b1)" "held_since b b1 pid f" "pg_data (bp_frame b1 f) = d"
    "kept_but {} b b1" "disk_le (bp_disk b) (bp_disk b1)"
    "\<forall>q. q \<noteq> pid \<and> map_of (bp_table b) q = None \<longrightarrow> map_of (bp_table b1) q = None"
    "frame_clean_ok b1 pid f \<or> 0 < pins b pid"
  using assms(1,3)
proof (cases rule: fetch_page_cases)
  case (page f b1)
  have k: "bp_inv b1" "view_le b b1" "disk_le (bp_disk b) (bp_disk b1)" using page(2) by (simp_all add: keeps_def)
  have "pg_data (bp_frame b1 f) = d" using view_le_Some[OF k(2) assms(4)] page(3) by (simp add: page_view_def)
  moreover have "held_since b b1 pid f"
    using assms(1,2) k(1) page(3-5,7) by (simp add: held_since_def bp_held_def)
  moreover have "kept_but {} b b1" using view_le_Some[OF k(2)] by (simp add: kept_but_def)
  ultimately show ?thesis using that page(1,6,8) k(3) by blast
next
  case full
  with assms(2) show ?thesis by (simp add: bp_roomy_def)
next
  case (bad b')
  with assms(4) show ?thesis by simp
qed

lemma held_new:
  assumes i: "bp_inv b" and r: "bp_roomy b" and ca: "can_allocate (bp_disk b) fd"
  defines "pid \<equiv> \<lparr>pid_fd = fd, pid_page_no = fd2pageno (bp_disk b) fd\<rparr>"
    and "b0 \<equiv> b\<lparr>bp_disk := bumped fd (bp_disk b)\<rparr>"
  obtains f b1 where "new_page fd b = (Inr (Some (fd2pageno (bp_disk b) fd, f)), b1)" "held_since b0 b1 pid f"
    "pg_data (bp_frame b1 f) = zero_page" "kept_but {pid} b b1" "disk_le (bumped fd (bp_disk b)) (bp_disk b1)"
    "\<forall>q. q \<noteq> pid \<and> map_of (bp_table b) q = None \<longrightarrow> map_of (bp_table b1) q = None" "pins b0 = pins b"
  using i ca
proof (cases rule: new_page_cases)
  case (page f b1)
  note b0 = bump_keeps[OF i, of fd, folded b0_def]
  have z: "pins b pid = 0" using page(9) by (simp add: pins_def pid_def)
  have "bp_roomy b0" using r by (simp add: b0_def bp_roomy_def)
  moreover have "0 < pg_pin (bp_frame b1 f)"
    using fun_cong[OF page(6), of pid] page(5) by (simp add: pins_def pid_def)
  ultimately have "held_since b0 b1 pid f"
    using b0 page(2,5,6) z by (simp add: held_since_def bp_held_def pid_def)
  moreover have "pg_data (bp_frame b1 f) = zero_page" using page(4,5) by (simp add: page_view_def)
  moreover have "kept_but {pid} b b1" using page(3) by (auto simp: kept_but_def pid_def)
  ultimately show ?thesis using that page(1,8,10) b0(3) pid_def by blast
next
  case full
  with r show ?thesis by (simp add: bp_roomy_def)
qed

lemma held_put:
  assumes h: "held_since b0 b pid f" and l: "length (g (pg_data (bp_frame b f))) = PAGE_SIZE"
  shows "held_since b0 (page_write f g b) pid f" "pg_data (bp_frame (page_write f g b) f) = g (pg_data (bp_frame b f))"
    "kept_but {pid} b (page_write f g b)"
proof -
  note p = bp_put_law[where g = g and b = b and f = f and pid = pid]
  have p': "bp_inv (page_write f g b)" "bp_held (page_write f g b) pid f"
    "page_view (page_write f g b) = (page_view b)(pid \<mapsto> g (pg_data (bp_frame b f)))" "pins (page_write f g b) = pins b"
    using p h l by (simp_all add: held_since_def)
  show "held_since b0 (page_write f g b) pid f" using h p' by (simp add: held_since_def)
  show "pg_data (bp_frame (page_write f g b) f) = g (pg_data (bp_frame b f))"
    using held_frame[OF h] by (simp add: page_write_nth)
  show "kept_but {pid} b (page_write f g b)" using p'(3) by (simp add: kept_but_def)
qed

lemma hdr_write_ok:
  assumes i: "bp_inv b" and op: "fd_path (bp_disk b) fd \<noteq> None" and nt: "map_of (bp_table b) (hdr_pid fd) = None"
    and n: "n \<le> PAGE_SIZE" "n \<le> length bs"
  obtains d' where "write_page fd RM_FILE_HDR_PAGE bs n (bp_disk b) = (Inr (), d')" "bp_inv (b\<lparr>bp_disk := d'\<rparr>)"
    "disk_le (bp_disk b) d'" "kept_but {hdr_pid fd} b (b\<lparr>bp_disk := d'\<rparr>)" "fd_bytes d' fd 0 n = Some (take n bs)"
proof -
  have "page_addressable RM_FILE_HDR_PAGE" by (simp add: page_addressable_def RM_FILE_HDR_PAGE_def INT_MAX_def)
  from write_page_part[OF bp_inv_disk[OF i] op this n] obtain d'
    where w: "write_page fd RM_FILE_HDR_PAGE bs n (bp_disk b) = (Inr (), d')" "disk_inv d'" "disk_le (bp_disk b) d'"
      "fd_bytes d' fd 0 n = Some (take n bs)"
    and o: "\<forall>fd' q. (fd', q) \<noteq> (fd, RM_FILE_HDR_PAGE) \<and> disk_page (bp_disk b) fd' q \<noteq> None \<longrightarrow>
       disk_page d' fd' q = disk_page (bp_disk b) fd' q"
    by (auto simp: disk_le_def RM_FILE_HDR_PAGE_def)
  have o': "disk_page d' (pid_fd q) (pid_page_no q) = Some x"
    if "q \<noteq> hdr_pid fd" "disk_page (bp_disk b) (pid_fd q) (pid_page_no q) = Some x" for q x
    using o that pid_eq_iff[of q "hdr_pid fd"] by (auto simp: hdr_pid_def)
  have "frame_clean_ok (b\<lparr>bp_disk := d'\<rparr>) q f"
    if "map_of (bp_table b) q = Some f" "pg_pin (bp_frame b f) = 0" for q f
  proof -
    have "q \<noteq> hdr_pid fd" using that(1) nt by auto
    then show ?thesis using bp_inv_clean[OF i that] o'[of q] by (auto simp: frame_clean_ok_def)
  qed
  then have "bp_inv (b\<lparr>bp_disk := d'\<rparr>)"
    using i w(2) page_ok_le[OF w(3)] by (simp add: bp_inv_def bp_struct_def)
  moreover have "kept_but {hdr_pid fd} b (b\<lparr>bp_disk := d'\<rparr>)"
    using o' by (auto simp: kept_but_def page_view_def split: option.splits)
  ultimately show ?thesis using that w by blast
qed

lemma held_unpin:
  assumes h: "held_since b0 b pid f"
  obtains b2 where "unpin_page pid True b = (True, b2)" "bp_inv b2" "bp_roomy b2" "page_view b2 = page_view b"
    "pins b2 = pins b0" "bp_disk b2 = bp_disk b" "bp_table b2 = bp_table b"
proof -
  note hf = held_frame[OF h]
  obtain b2 where u: "unpin_page pid True b = (True, b2)" "bp_inv b2" "page_view b2 = page_view b"
      "pins b2 = (pins b)(pid := pins b pid - 1)" "bp_disk b2 = bp_disk b" "bp_table b2 = bp_table b"
    using unpin_pinned[OF hf(6,5,7), of True] by metis
  have "bp_roomy b2" using unpin_roomy[of b0 b pid f True b2] h u(1) by (simp add: held_since_def)
  moreover have "pins b2 = pins b0" using u(4) h by (simp add: held_since_def)
  ultimately show ?thesis using that u by blast
qed

lemma held_unpin_clean:
  assumes h: "held_since b0 b pid f" and c: "frame_clean_ok b pid f \<or> 0 < pins b0 pid"
  obtains b2 where "unpin_page pid False b = (True, b2)" "bp_inv b2" "bp_roomy b2" "page_view b2 = page_view b"
    "pins b2 = pins b0" "bp_disk b2 = bp_disk b" "bp_table b2 = bp_table b"
proof -
  note hf = held_frame[OF h]
  have "pins b pid = pins b0 pid + 1" using h by (simp add: held_since_def)
  then have "pg_pin (bp_frame b f) = pins b0 pid + 1" using hf(5) by (simp add: pins_def)
  then have cl: "False \<or> 1 < pg_pin (bp_frame b f) \<or> frame_clean_ok b pid f" using c by auto
  obtain b2 where u: "unpin_page pid False b = (True, b2)" "bp_inv b2" "page_view b2 = page_view b"
      "pins b2 = (pins b)(pid := pins b pid - 1)" "bp_disk b2 = bp_disk b" "bp_table b2 = bp_table b"
    using unpin_pinned[OF hf(6,5,7) cl] by metis
  have "bp_roomy b2" using unpin_roomy[of b0 b pid f False b2] h u(1) by (simp add: held_since_def)
  moreover have "pins b2 = pins b0" using u(4) h by (simp add: held_since_def)
  ultimately show ?thesis using that u by blast
qed

section \<open>Files as tables\<close>

abbreviation rm_pid :: "RmState \<Rightarrow> int \<Rightarrow> PageId" where
  "rm_pid s p \<equiv> \<lparr>pid_fd = rs_fd s, pid_page_no = p\<rparr>"

definition rm_page :: "RmState \<Rightarrow> int \<Rightarrow> byte list option" where
  "rm_page s p = page_view (rs_bpm s) (rm_pid s p)"

definition rm_page_no :: "RmState \<Rightarrow> int \<Rightarrow> bool" where
  "rm_page_no s p \<longleftrightarrow> 1 \<le> p \<and> p < num_pages (rs_hdr s)"

text \<open>The abstract table: the records of all pages.\<close>

definition rm_table :: "RmState \<Rightarrow> Rid \<Rightarrow> byte list option" where
  "rm_table s rid =
     (if rm_page_no s (rid_page_no rid)
      then (case rm_page s (rid_page_no rid) of Some d \<Rightarrow> page_recs (rs_hdr s) d (rid_slot_no rid) | None \<Rightarrow> None)
      else None)"

text \<open>The list of pages with free slots, linked through the page headers.\<close>

fun free_chain :: "(int \<Rightarrow> byte list option) \<Rightarrow> int \<Rightarrow> int list \<Rightarrow> bool" where
  "free_chain v p [] \<longleftrightarrow> p = -1"
| "free_chain v p (q # qs) \<longleftrightarrow> p = q \<and> (case v q of Some d \<Rightarrow> free_chain v (page_next_free d) qs | None \<Rightarrow> False)"

definition has_room :: "RmState \<Rightarrow> int \<Rightarrow> bool" where
  "has_room s p \<longleftrightarrow> rm_page_no s p \<and> (case rm_page s p of Some d \<Rightarrow> page_num_records d < num_records_per_page (rs_hdr s) | None \<Rightarrow> False)"

definition rm_base :: "RmState \<Rightarrow> bool" where
  "rm_base s \<longleftrightarrow> bp_inv (rs_bpm s) \<and> hdr_ok (rs_hdr s) \<and> 0 \<le> rs_fd s \<and> rs_fd s < MAX_FD \<and>
     fd_path (bp_disk (rs_bpm s)) (rs_fd s) \<noteq> None \<and>
     fd2pageno (bp_disk (rs_bpm s)) (rs_fd s) = num_pages (rs_hdr s) \<and> 1 \<le> num_pages (rs_hdr s) \<and>
     page_addressable (num_pages (rs_hdr s) - 1) \<and> map_of (bp_table (rs_bpm s)) (hdr_pid (rs_fd s)) = None"

definition rm_pages :: "RmState \<Rightarrow> bool" where
  "rm_pages s \<longleftrightarrow> (\<forall>p. rm_page_no s p \<longrightarrow> (\<exists>d. rm_page s p = Some d \<and> page_wf (rs_hdr s) d))"

definition rm_free :: "RmState \<Rightarrow> bool" where
  "rm_free s \<longleftrightarrow> (\<exists>ps. free_chain (rm_page s) (first_free_page_no (rs_hdr s)) ps \<and> distinct ps \<and> set ps = {p. has_room s p})"

definition rm_inv :: "RmState \<Rightarrow> bool" where
  "rm_inv s \<longleftrightarrow> rm_base s \<and> rm_pages s \<and> rm_free s"

lemma hdr_page_fields [simp]:
  "hdr_ok (h\<lparr>num_pages := n\<rparr>) = hdr_ok h" "hdr_ok (h\<lparr>first_free_page_no := p\<rparr>) = hdr_ok h"
  "valid_slot (h\<lparr>num_pages := n\<rparr>) = valid_slot h" "valid_slot (h\<lparr>first_free_page_no := p\<rparr>) = valid_slot h"
  "page_slots (h\<lparr>num_pages := n\<rparr>) = page_slots h" "page_slots (h\<lparr>first_free_page_no := p\<rparr>) = page_slots h"
  "page_recs (h\<lparr>num_pages := n\<rparr>) = page_recs h" "page_recs (h\<lparr>first_free_page_no := p\<rparr>) = page_recs h"
  "page_wf (h\<lparr>num_pages := n\<rparr>) = page_wf h" "page_wf (h\<lparr>first_free_page_no := p\<rparr>) = page_wf h"
  "init_page (h\<lparr>num_pages := n\<rparr>) = init_page h" "init_page (h\<lparr>first_free_page_no := p\<rparr>) = init_page h"
  by (simp_all add: fun_eq_iff hdr_ok_def valid_slot_def page_slots_def page_recs_def get_slot_def slot_off_def
      page_wf_def init_page_def)

lemma free_chain_cong:
  "free_chain v p ps \<Longrightarrow> (\<And>q d. q \<in> set ps \<Longrightarrow> v q = Some d \<Longrightarrow> \<exists>d'. v' q = Some d' \<and> page_next_free d' = page_next_free d) \<Longrightarrow>
   free_chain v' p ps"
proof (induction ps arbitrary: p)
  case (Cons q qs)
  then obtain d where d: "v q = Some d" "free_chain v (page_next_free d) qs" by (auto split: option.splits)
  then obtain d' where d': "v' q = Some d'" "page_next_free d' = page_next_free d" using Cons.prems(2)[of q d] by auto
  have "free_chain v' (page_next_free d) qs" using Cons.IH[OF d(2)] Cons.prems(2) by auto
  with d' Cons.prems(1) show ?case by simp
qed simp

text \<open>The page \<open>p\<close> was rewritten to \<open>d'\<close>; the rest of the file is as it was.\<close>

definition page_step :: "int \<Rightarrow> byte list \<Rightarrow> RmState \<Rightarrow> RmState \<Rightarrow> bool" where
  "page_step p d' s s' \<longleftrightarrow> rm_base s' \<and> rs_fd s' = rs_fd s \<and> num_pages (rs_hdr s') = num_pages (rs_hdr s) \<and>
     record_size (rs_hdr s') = record_size (rs_hdr s) \<and> rm_page s' p = Some d' \<and>
     (\<forall>q x. rm_page_no s q \<and> q \<noteq> p \<and> rm_page s q = Some x \<longrightarrow> rm_page s' q = Some x)"

lemma same_layout:
  assumes "hdr_ok h" and "hdr_ok h'" and "record_size h' = record_size h"
  shows "num_records_per_page h' = num_records_per_page h" "bitmap_size h' = bitmap_size h"
    "page_recs h' = page_recs h" "page_slots h' = page_slots h" "page_wf h' = page_wf h"
proof -
  show e: "num_records_per_page h' = num_records_per_page h" "bitmap_size h' = bitmap_size h"
    using assms by (simp_all add: hdr_ok_def)
  show "page_recs h' = page_recs h" "page_slots h' = page_slots h" "page_wf h' = page_wf h"
    using e assms(3) by (simp_all add: fun_eq_iff page_recs_def page_slots_def valid_slot_def page_wf_def get_slot_def slot_off_def)
qed

lemma page_step_facts:
  assumes i: "rm_inv s" and st: "page_step p d' s s'" and p: "rm_page_no s p" and w: "page_wf (rs_hdr s) d'"
  shows "rm_pages s'" "rm_page_no s' = rm_page_no s"
    "q \<noteq> p \<Longrightarrow> has_room s' q = has_room s q" "has_room s' p \<longleftrightarrow> page_num_records d' < num_records_per_page (rs_hdr s)"
    "page_recs (rs_hdr s) d' = (page_recs (rs_hdr s) d)(i := r) \<Longrightarrow> rm_page s p = Some d \<Longrightarrow>
       rm_table s' = (rm_table s)(\<lparr>rid_page_no = p, rid_slot_no = i\<rparr> := r)"
proof -
  have lay: "hdr_ok (rs_hdr s)" "hdr_ok (rs_hdr s')" "record_size (rs_hdr s') = record_size (rs_hdr s)"
    using i st by (simp_all add: rm_inv_def rm_base_def page_step_def)
  note sl = same_layout[OF lay]
  show pn: "rm_page_no s' = rm_page_no s" using st by (simp add: page_step_def rm_page_no_def fun_eq_iff)
  have oth: "rm_page s' q = rm_page s q" if "rm_page_no s q" "q \<noteq> p" for q
    using that i st unfolding rm_inv_def rm_pages_def page_step_def by metis
  have pp: "rm_page s' p = Some d'" using st by (simp add: page_step_def)
  show "rm_pages s'"
    unfolding rm_pages_def pn
  proof (intro allI impI)
    fix q assume q: "rm_page_no s q"
    show "\<exists>d. rm_page s' q = Some d \<and> page_wf (rs_hdr s') d"
      using q oth[OF q] pp w i by (cases "q = p") (auto simp: sl rm_inv_def rm_pages_def)
  qed
  show "has_room s' q = has_room s q" if "q \<noteq> p"
    using that oth[of q] by (cases "rm_page_no s q") (simp_all add: has_room_def pn sl split: option.split)
  show "has_room s' p \<longleftrightarrow> page_num_records d' < num_records_per_page (rs_hdr s)"
    using p pp by (simp add: has_room_def pn sl)
  show "rm_table s' = (rm_table s)(\<lparr>rid_page_no = p, rid_slot_no = i\<rparr> := r)"
    if e: "page_recs (rs_hdr s) d' = (page_recs (rs_hdr s) d)(i := r)" and d: "rm_page s p = Some d"
  proof
    fix rid :: Rid
    obtain a k where rid: "rid = \<lparr>rid_page_no = a, rid_slot_no = k\<rparr>" by (cases rid) auto
    show "rm_table s' rid = ((rm_table s)(\<lparr>rid_page_no = p, rid_slot_no = i\<rparr> := r)) rid"
      using e d pp p oth[of a] by (cases "a = p") (auto simp: rid rm_table_def pn sl fun_upd_def split: option.split)
  qed
qed

subsection \<open>Steps of an operation\<close>

lemma rm_page_ok:
  assumes "rm_base s" and "rm_page_no s p"
  shows "page_ok (bp_disk (rs_bpm s)) (rm_pid s p)"
proof -
  have "p * 4096 \<le> (num_pages (rs_hdr s) - 1) * 4096" using assms(2) by (simp add: rm_page_no_def)
  then show ?thesis
    using assms by (simp add: rm_base_def rm_page_no_def page_ok_def page_addressable_def PAGE_SIZE_def)
qed

lemma rm_base_bpm:
  assumes "rm_base s" and "bp_inv b" and "disk_le (bp_disk (rs_bpm s)) (bp_disk b)"
    and "map_of (bp_table b) (hdr_pid (rs_fd s)) = None"
  shows "rm_base (s\<lparr>rs_bpm := b\<rparr>)"
  using assms by (simp add: rm_base_def disk_le_def)

lemma fetch_handle_ok:
  assumes b: "rm_base s" and r: "bp_roomy (rs_bpm s)" and p: "rm_page_no s p" and d: "rm_page s p = Some d"
  obtains f b1 where "fetch_page_handle p s = (Inr f, s\<lparr>rs_bpm := b1\<rparr>)" "held_since (rs_bpm s) b1 (rm_pid s p) f"
    "pg_data (bp_frame b1 f) = d" "kept_but {} (rs_bpm s) b1" "rm_base (s\<lparr>rs_bpm := b1\<rparr>)"
    "frame_clean_ok b1 (rm_pid s p) f \<or> 0 < pins (rs_bpm s) (rm_pid s p)"
proof -
  have i: "bp_inv (rs_bpm s)" using b by (simp add: rm_base_def)
  obtain f b1 where f: "fetch_page (rm_pid s p) (rs_bpm s) = (Inr (Some f), b1)" "held_since (rs_bpm s) b1 (rm_pid s p) f"
    "pg_data (bp_frame b1 f) = d" "kept_but {} (rs_bpm s) b1" "disk_le (bp_disk (rs_bpm s)) (bp_disk b1)"
    "\<forall>q. q \<noteq> rm_pid s p \<and> map_of (bp_table (rs_bpm s)) q = None \<longrightarrow> map_of (bp_table b1) q = None"
    "frame_clean_ok b1 (rm_pid s p) f \<or> 0 < pins (rs_bpm s) (rm_pid s p)"
    by (rule held_fetch[OF i r rm_page_ok[OF b p]]) (use d in \<open>auto simp: rm_page_def\<close>)
  have "hdr_pid (rs_fd s) \<noteq> rm_pid s p" using p by (simp add: hdr_pid_def RM_FILE_HDR_PAGE_def rm_page_no_def)
  then have "map_of (bp_table b1) (hdr_pid (rs_fd s)) = None" using f(6) b by (simp add: rm_base_def)
  then have "rm_base (s\<lparr>rs_bpm := b1\<rparr>)" using rm_base_bpm[OF b _ f(5)] held_frame(6)[OF f(2)] by blast
  moreover have "fetch_page_handle p s = (Inr f, s\<lparr>rs_bpm := b1\<rparr>)"
    using p f(1) by (simp add: fetch_page_handle_def rm_page_no_def rm_bp_def em_defs)
  ultimately show ?thesis using that f by blast
qed

lemma kept_page:
  assumes "kept_but X (rs_bpm s) (rs_bpm s')" and "rs_fd s' = rs_fd s" and "rm_pid s q \<notin> X" and "rm_page s q = Some x"
  shows "rm_page s' q = Some x"
  using assms by (simp add: rm_page_def kept_but_def)

text \<open>Write the held page and release it.\<close>

lemma put_unpin:
  assumes b: "rm_base s" and h: "held_since b0 (rs_bpm s) (rm_pid s p) f"
    and l: "length (g (rm_data f s)) = PAGE_SIZE"
  obtains s2 where "em_then (rm_put f g) (rm_unpin p True) s = (Inr (), s2)" "page_step p (g (rm_data f s)) s s2"
    "bp_roomy (rs_bpm s2)" "pins (rs_bpm s2) = pins b0" "rs_hdr s2 = rs_hdr s"
proof -
  let ?b = "rs_bpm s"
  note w = held_put[where g = g, OF h l[unfolded rm_data_def]]
  obtain b2 where u: "unpin_page (rm_pid s p) True (page_write f g ?b) = (True, b2)" "bp_inv b2" "bp_roomy b2"
    "page_view b2 = page_view (page_write f g ?b)" "pins b2 = pins b0" "bp_disk b2 = bp_disk (page_write f g ?b)"
    "bp_table b2 = bp_table (page_write f g ?b)"
    by (rule held_unpin[OF w(1)])
  define s2 where "s2 = s\<lparr>rs_bpm := b2\<rparr>"
  have "rm_base s2" unfolding s2_def by (rule rm_base_bpm[OF b]) (use u b in \<open>simp_all add: rm_base_def\<close>)
  moreover have "rm_page s2 p = Some (g (rm_data f s))"
    using u(4) held_frame(3)[OF w(1)] w(2) by (simp add: s2_def rm_page_def rm_data_def)
  moreover have "rm_page s2 q = Some x" if "q \<noteq> p" "rm_page s q = Some x" for q x
    using that w(3) u(4) by (simp add: s2_def rm_page_def kept_but_def)
  ultimately have "page_step p (g (rm_data f s)) s s2" by (simp add: page_step_def s2_def)
  moreover have "em_then (rm_put f g) (rm_unpin p True) s = (Inr (), s2)"
    using u(1) by (simp add: em_defs rm_put_def rm_unpin_def s2_def)
  ultimately show ?thesis using that u by (simp add: s2_def)
qed

text \<open>Write the held page, change the free-list head in the file header, write the header, release.\<close>

lemma put_hdr_unpin:
  assumes b: "rm_base s" and h: "held_since b0 (rs_bpm s) (rm_pid s p) f" and p: "rm_page_no s p"
    and l: "length (g (rm_data f s)) = PAGE_SIZE"
  obtains s2 where "em_then (rm_put f g) (em_then (em_modify (\<lambda>s. s\<lparr>rs_hdr := (rs_hdr s)\<lparr>first_free_page_no := q\<rparr>\<rparr>))
      (em_then write_file_hdr (rm_unpin p True))) s = (Inr (), s2)" "page_step p (g (rm_data f s)) s s2"
    "bp_roomy (rs_bpm s2)" "pins (rs_bpm s2) = pins b0" "rs_hdr s2 = (rs_hdr s)\<lparr>first_free_page_no := q\<rparr>"
proof -
  let ?b = "rs_bpm s" let ?h = "(rs_hdr s)\<lparr>first_free_page_no := q\<rparr>" let ?b1 = "page_write f g (rs_bpm s)"
  note w = held_put[where g = g, OF h l[unfolded rm_data_def]]
  have ne: "rm_pid s p \<noteq> hdr_pid (rs_fd s)" using p by (simp add: hdr_pid_def RM_FILE_HDR_PAGE_def rm_page_no_def)
  have op: "fd_path (bp_disk ?b1) (rs_fd s) \<noteq> None" "map_of (bp_table ?b1) (hdr_pid (rs_fd s)) = None"
    using b by (simp_all add: rm_base_def)
  have hl: "sizeof_RmFileHdr \<le> PAGE_SIZE" "sizeof_RmFileHdr \<le> length (enc_RmFileHdr ?h)"
    by (simp_all add: sizeof_RmFileHdr_def PAGE_SIZE_def enc_RmFileHdr_def)
  obtain d' where d': "write_page (rs_fd s) RM_FILE_HDR_PAGE (enc_RmFileHdr ?h) sizeof_RmFileHdr (bp_disk ?b1) = (Inr (), d')"
    "bp_inv (?b1\<lparr>bp_disk := d'\<rparr>)" "disk_le (bp_disk ?b1) d'" "kept_but {hdr_pid (rs_fd s)} ?b1 (?b1\<lparr>bp_disk := d'\<rparr>)"
    by (rule hdr_write_ok[OF held_frame(6)[OF w(1)] op hl])
  let ?b2 = "?b1\<lparr>bp_disk := d'\<rparr>"
  have h2: "held_since b0 ?b2 (rm_pid s p) f" using w(1) d'(2) by (simp add: held_since_def bp_held_def)
  obtain b3 where u: "unpin_page (rm_pid s p) True ?b2 = (True, b3)" "bp_inv b3" "bp_roomy b3" "page_view b3 = page_view ?b2"
    "pins b3 = pins b0" "bp_disk b3 = bp_disk ?b2" "bp_table b3 = bp_table ?b2"
    by (rule held_unpin[OF h2])
  define s2 where "s2 = s\<lparr>rs_hdr := ?h, rs_bpm := b3\<rparr>"
  have "rm_base (s\<lparr>rs_bpm := b3\<rparr>)" by (rule rm_base_bpm[OF b]) (use u b d'(3) in \<open>simp_all add: rm_base_def\<close>)
  then have "rm_base s2" by (simp add: rm_base_def s2_def)
  moreover have "rm_page s2 p = Some (g (rm_data f s))"
    using u(4) held_frame(3)[OF h2] w(2) by (simp add: s2_def rm_page_def rm_data_def)
  moreover have "rm_page s2 r = Some x" if "rm_page_no s r" "r \<noteq> p" "rm_page s r = Some x" for r x
    using that w(3) d'(4) u(4) by (simp add: s2_def rm_page_def kept_but_def hdr_pid_def RM_FILE_HDR_PAGE_def rm_page_no_def)
  ultimately have "page_step p (g (rm_data f s)) s s2" by (simp add: page_step_def s2_def)
  moreover have "em_then (rm_put f g) (em_then (em_modify (\<lambda>s. s\<lparr>rs_hdr := (rs_hdr s)\<lparr>first_free_page_no := q\<rparr>\<rparr>))
      (em_then write_file_hdr (rm_unpin p True))) s = (Inr (), s2)"
    using u(1) d'(1) by (simp add: em_defs rm_put_def write_file_hdr_def rm_unpin_def s2_def)
  ultimately show ?thesis using that u by (simp add: s2_def)
qed

subsection \<open>The free list\<close>

lemma rm_invD:
  assumes "rm_inv s"
  shows "rm_base s" "hdr_ok (rs_hdr s)" "bp_inv (rs_bpm s)" "rm_page_no s p \<Longrightarrow> \<exists>d. rm_page s p = Some d \<and> page_wf (rs_hdr s) d"
  using assms by (simp_all add: rm_inv_def rm_base_def rm_pages_def)

text \<open>The head of the free list is -1 when no page has room, and otherwise a page with room.\<close>

lemma free_head:
  assumes "rm_inv s"
  shows "first_free_page_no (rs_hdr s) = -1 \<longleftrightarrow> (\<forall>p. \<not> has_room s p)"
    "first_free_page_no (rs_hdr s) \<noteq> -1 \<Longrightarrow> has_room s (first_free_page_no (rs_hdr s))"
    "in_int (first_free_page_no (rs_hdr s))"
proof -
  obtain ps where ps: "free_chain (rm_page s) (first_free_page_no (rs_hdr s)) ps" "set ps = {p. has_room s p}"
    using assms by (auto simp: rm_inv_def rm_free_def)
  have pg: "1 \<le> p \<and> p * 4096 \<le> 2147483647" if "has_room s p" for p
    using that rm_page_ok[OF rm_invD(1)[OF assms], of p]
    by (auto simp: has_room_def rm_page_no_def page_ok_def page_addressable_def INT_MAX_def PAGE_SIZE_def)
  have c: "first_free_page_no (rs_hdr s) = -1 \<and> (\<forall>p. \<not> has_room s p) \<or>
      has_room s (first_free_page_no (rs_hdr s)) \<and> first_free_page_no (rs_hdr s) \<noteq> -1"
  proof (cases ps)
    case Nil
    with ps show ?thesis by auto
  next
    case (Cons q qs)
    with ps have "first_free_page_no (rs_hdr s) = q" "has_room s q" by auto
    with pg[of q] show ?thesis by auto
  qed
  then show "first_free_page_no (rs_hdr s) = -1 \<longleftrightarrow> (\<forall>p. \<not> has_room s p)"
    "first_free_page_no (rs_hdr s) \<noteq> -1 \<Longrightarrow> has_room s (first_free_page_no (rs_hdr s))" by auto
  show "in_int (first_free_page_no (rs_hdr s))"
    using c pg[of "first_free_page_no (rs_hdr s)"] by (auto simp: in_int_def INT_MIN_def INT_MAX_def)
qed

text \<open>A page step with the free list left alone, its head popped, or the page pushed.\<close>

lemma free_list_step:
  assumes i: "rm_inv s" and st: "page_step p d' s s'" and p: "rm_page_no s p" and d: "rm_page s p = Some d"
    and w: "page_wf (rs_hdr s) d'"
    and c: "(has_room s' p = has_room s p \<and> page_next_free d' = page_next_free d \<and>
               first_free_page_no (rs_hdr s') = first_free_page_no (rs_hdr s)) \<or>
            (first_free_page_no (rs_hdr s) = p \<and> \<not> has_room s' p \<and> first_free_page_no (rs_hdr s') = page_next_free d) \<or>
            (\<not> has_room s p \<and> has_room s' p \<and> first_free_page_no (rs_hdr s') = p \<and>
               page_next_free d' = first_free_page_no (rs_hdr s))"
  shows "rm_inv s'"
proof -
  note f = page_step_facts[OF i st p w]
  obtain ps where ch: "free_chain (rm_page s) (first_free_page_no (rs_hdr s)) ps" "distinct ps" and sp: "set ps = {p. has_room s p}"
    using i by (auto simp: rm_inv_def rm_free_def)
  have pp: "rm_page s' p = Some d'" using st by (simp add: page_step_def)
  have oth: "rm_page s' q = Some x" if "q \<noteq> p" "has_room s q" "rm_page s q = Some x" for q x
    using that st by (simp add: page_step_def has_room_def)
  have rest: "free_chain (rm_page s') r qs" if "free_chain (rm_page s) r qs" "p \<notin> set qs" "set qs \<subseteq> {p. has_room s p}" for r qs
    using that oth by (intro free_chain_cong[OF that(1)]) (metis mem_Collect_eq subset_iff)
  have "rm_free s'"
    using c
  proof (elim disjE conjE)
    assume a: "has_room s' p = has_room s p" "page_next_free d' = page_next_free d"
      "first_free_page_no (rs_hdr s') = first_free_page_no (rs_hdr s)"
    have "free_chain (rm_page s') (first_free_page_no (rs_hdr s')) ps"
      unfolding a(3) by (rule free_chain_cong[OF ch(1)]) (use oth sp pp d a(2) in fastforce)
    moreover have "has_room s' q = has_room s q" for q using f(3)[of q] a(1) by (cases "q = p") auto
    then have "set ps = {p. has_room s' p}" using sp by simp
    ultimately show ?thesis using ch(2) unfolding rm_free_def by blast
  next
    assume a: "first_free_page_no (rs_hdr s) = p" "\<not> has_room s' p" "first_free_page_no (rs_hdr s') = page_next_free d"
    have "p \<noteq> -1" using p by (simp add: rm_page_no_def)
    then obtain qs where qs: "ps = p # qs" using ch(1) a(1) by (cases ps) auto
    then have "free_chain (rm_page s') (first_free_page_no (rs_hdr s')) qs"
      using ch sp d a(3) by (intro rest) auto
    moreover have "q \<in> set qs \<longleftrightarrow> has_room s' q" for q
    proof (cases "q = p")
      case True
      then show ?thesis using qs ch(2) a(2) by simp
    next
      case False
      then have "q \<in> set qs \<longleftrightarrow> q \<in> set ps" using qs by simp
      then show ?thesis using sp f(3)[OF False] by simp
    qed
    ultimately show ?thesis using ch(2) qs unfolding rm_free_def by (intro exI[of _ qs]) auto
  next
    assume a: "\<not> has_room s p" "has_room s' p" "first_free_page_no (rs_hdr s') = p" "page_next_free d' = first_free_page_no (rs_hdr s)"
    have np: "p \<notin> set ps" using sp a(1) by simp
    have "free_chain (rm_page s') (first_free_page_no (rs_hdr s')) (p # ps)"
      using rest[OF ch(1) np] sp pp a(3,4) by simp
    moreover have "q \<in> set (p # ps) \<longleftrightarrow> has_room s' q" for q
      using sp f(3)[of q] a(2) by (cases "q = p") auto
    ultimately show ?thesis using ch(2) np unfolding rm_free_def by (intro exI[of _ "p # ps"]) auto
  qed
  with f(1) st show ?thesis by (simp add: rm_inv_def page_step_def)
qed

text \<open>Replacing the pool by one that shows the same pages.\<close>

lemma rm_inv_views:
  assumes i: "rm_inv s" and b: "rm_base (s\<lparr>rs_bpm := b\<rparr>)" and k: "kept_but {hdr_pid (rs_fd s)} (rs_bpm s) b"
  shows "rm_inv (s\<lparr>rs_bpm := b\<rparr>)" "rm_table (s\<lparr>rs_bpm := b\<rparr>) = rm_table s" "rm_page_no s p \<Longrightarrow> rm_page (s\<lparr>rs_bpm := b\<rparr>) p = rm_page s p"
proof -
  let ?s = "s\<lparr>rs_bpm := b\<rparr>"
  have pn: "rm_page_no ?s = rm_page_no s" by (simp add: rm_page_no_def fun_eq_iff)
  show pg: "rm_page ?s p = rm_page s p" if p: "rm_page_no s p" for p
  proof -
    obtain x where x: "rm_page s p = Some x" using rm_invD(4)[OF i p] by blast
    have "rm_pid s p \<notin> {hdr_pid (rs_fd s)}" using p by (simp add: hdr_pid_def RM_FILE_HDR_PAGE_def rm_page_no_def)
    then have "rm_page ?s p = Some x" using kept_page[of "{hdr_pid (rs_fd s)}" s ?s p x] k x by simp
    with x show ?thesis by simp
  qed
  have hr: "has_room ?s p = has_room s p" for p
    using pg[of p] by (cases "rm_page_no s p") (simp_all add: has_room_def pn split: option.split)
  obtain ps where ps: "free_chain (rm_page s) (first_free_page_no (rs_hdr s)) ps" "distinct ps" "set ps = {p. has_room s p}"
    using i by (auto simp: rm_inv_def rm_free_def)
  have "free_chain (rm_page ?s) (first_free_page_no (rs_hdr s)) ps"
    by (rule free_chain_cong[OF ps(1)]) (use ps(3) pg in \<open>auto simp: has_room_def\<close>)
  with ps hr have "rm_free ?s" unfolding rm_free_def by auto
  moreover have "rm_pages ?s" using i pg by (simp add: rm_inv_def rm_pages_def pn)
  ultimately show "rm_inv ?s" using b by (simp add: rm_inv_def)
  show "rm_table ?s = rm_table s"
  proof
    fix rid
    show "rm_table ?s rid = rm_table s rid"
      using pg[of "rid_page_no rid"] by (cases "rm_page_no s (rid_page_no rid)") (simp_all add: rm_table_def pn split: option.split)
  qed
qed

subsection \<open>Reading, updating and deleting records\<close>

lemma rm_table_page:
  assumes "rm_inv s" and "rm_table s rid = Some r"
  obtains d where "rm_page_no s (rid_page_no rid)" "rm_page s (rid_page_no rid) = Some d" "page_wf (rs_hdr s) d"
    "rid_slot_no rid \<in> page_slots (rs_hdr s) d" "get_slot (rs_hdr s) (rid_slot_no rid) d = r" "valid_slot (rs_hdr s) (rid_slot_no rid)"
proof -
  have p: "rm_page_no s (rid_page_no rid)" using assms(2) by (auto simp: rm_table_def split: if_splits)
  obtain d where d: "rm_page s (rid_page_no rid) = Some d" "page_wf (rs_hdr s) d" using rm_invD(4)[OF assms(1) p] by blast
  with p assms(2) that show ?thesis by (auto simp: rm_table_def page_recs_def page_slots_def split: if_splits)
qed

lemma rid_eta: "\<lparr>rid_page_no = rid_page_no rid, rid_slot_no = rid_slot_no rid\<rparr> = (rid :: Rid)"
  by simp

lemma get_record_ok:
  assumes i: "rm_inv s" and r: "bp_roomy (rs_bpm s)" and t: "rm_table s rid = Some x" and lk: "lk rid = Inr ()"
  shows "\<exists>s'. get_record lk rid s = (Inr x, s') \<and> rm_inv s' \<and> bp_roomy (rs_bpm s') \<and> rm_table s' = rm_table s \<and>
     pins (rs_bpm s') = pins (rs_bpm s) \<and> rs_hdr s' = rs_hdr s \<and> rs_fd s' = rs_fd s"
proof -
  obtain d where d: "rm_page_no s (rid_page_no rid)" "rm_page s (rid_page_no rid) = Some d"
    "get_slot (rs_hdr s) (rid_slot_no rid) d = x" "valid_slot (rs_hdr s) (rid_slot_no rid)"
    by (rule rm_table_page[OF i t])
  obtain f b1 where f: "fetch_page_handle (rid_page_no rid) s = (Inr f, s\<lparr>rs_bpm := b1\<rparr>)"
    "held_since (rs_bpm s) b1 (rm_pid s (rid_page_no rid)) f" "pg_data (bp_frame b1 f) = d" "kept_but {} (rs_bpm s) b1"
    "rm_base (s\<lparr>rs_bpm := b1\<rparr>)"
    "frame_clean_ok b1 (rm_pid s (rid_page_no rid)) f \<or> 0 < pins (rs_bpm s) (rm_pid s (rid_page_no rid))"
    by (rule fetch_handle_ok[OF rm_invD(1)[OF i] r d(1,2)])
  obtain b2 where u: "unpin_page (rm_pid s (rid_page_no rid)) False b1 = (True, b2)" "bp_inv b2" "bp_roomy b2"
    "page_view b2 = page_view b1" "pins b2 = pins (rs_bpm s)" "bp_disk b2 = bp_disk b1" "bp_table b2 = bp_table b1"
    by (rule held_unpin_clean[OF f(2,6)])
  have b2: "rm_base (s\<lparr>rs_bpm := b2\<rparr>)" using f(5) u by (simp add: rm_base_def)
  have k2: "kept_but {hdr_pid (rs_fd s)} (rs_bpm s) b2" using f(4) u(4) by (simp add: kept_but_def)
  have "slot_in_page (rs_hdr s) (rid_slot_no rid)" by (rule slot_range(4)[OF rm_invD(2)[OF i] d(4)])
  then have "get_record lk rid s = (Inr x, s\<lparr>rs_bpm := b2\<rparr>)"
    using lk f(1,3) u(1) d(3) by (simp add: get_record_def em_defs rm_lock_def rm_unpin_def rm_data_def Let_def)
  then show ?thesis using rm_inv_views[OF i b2 k2] u by simp
qed

lemma is_record_ok:
  assumes i: "rm_inv s" and r: "bp_roomy (rs_bpm s)" and p: "rm_page_no s (rid_page_no rid)" and v: "valid_slot (rs_hdr s) (rid_slot_no rid)"
  shows "\<exists>s'. is_record rid s = (Inr (rm_table s rid \<noteq> None), s') \<and> rm_inv s' \<and> rm_table s' = rm_table s"
proof -
  obtain d where d: "rm_page s (rid_page_no rid) = Some d" using rm_invD(4)[OF i p] by blast
  obtain f b1 where f: "fetch_page_handle (rid_page_no rid) s = (Inr f, s\<lparr>rs_bpm := b1\<rparr>)"
    "held_since (rs_bpm s) b1 (rm_pid s (rid_page_no rid)) f" "pg_data (bp_frame b1 f) = d" "kept_but {} (rs_bpm s) b1"
    "rm_base (s\<lparr>rs_bpm := b1\<rparr>)"
    "frame_clean_ok b1 (rm_pid s (rid_page_no rid)) f \<or> 0 < pins (rs_bpm s) (rm_pid s (rid_page_no rid))"
    by (rule fetch_handle_ok[OF rm_invD(1)[OF i] r p d])
  obtain b2 where u: "unpin_page (rm_pid s (rid_page_no rid)) False b1 = (True, b2)" "bp_inv b2" "bp_roomy b2"
    "page_view b2 = page_view b1" "pins b2 = pins (rs_bpm s)" "bp_disk b2 = bp_disk b1" "bp_table b2 = bp_table b1"
    by (rule held_unpin_clean[OF f(2,6)])
  have b2: "rm_base (s\<lparr>rs_bpm := b2\<rparr>)" using f(5) u by (simp add: rm_base_def)
  have k2: "kept_but {hdr_pid (rs_fd s)} (rs_bpm s) b2" using f(4) u(4) by (simp add: kept_but_def)
  have "rm_table s rid \<noteq> None \<longleftrightarrow> is_set (page_bitmap d) (rid_slot_no rid)"
    using p d v by (simp add: rm_table_def page_recs_def page_slots_def)
  then have "is_record rid s = (Inr (rm_table s rid \<noteq> None), s\<lparr>rs_bpm := b2\<rparr>)"
    using f(1,3) u(1) by (simp add: is_record_def em_defs rm_unpin_def rm_data_def Let_def)
  then show ?thesis using rm_inv_views[OF i b2 k2] by blast
qed

text \<open>Fetching a page of the file leaves the file as it is.\<close>

lemma fetch_step:
  assumes i: "rm_inv s" and r: "bp_roomy (rs_bpm s)" and p: "rm_page_no s p" and d: "rm_page s p = Some d"
  obtains f s1 where "fetch_page_handle p s = (Inr f, s1)" "rm_inv s1" "rm_table s1 = rm_table s" "rs_hdr s1 = rs_hdr s"
    "rs_fd s1 = rs_fd s" "rm_data f s1 = d" "rm_page s1 p = Some d" "rm_page_no s1 p"
    "held_since (rs_bpm s) (rs_bpm s1) (rm_pid s1 p) f" "has_room s1 p = has_room s p"
proof -
  obtain f b1 where f: "fetch_page_handle p s = (Inr f, s\<lparr>rs_bpm := b1\<rparr>)"
    "held_since (rs_bpm s) b1 (rm_pid s p) f" "pg_data (bp_frame b1 f) = d" "kept_but {} (rs_bpm s) b1" "rm_base (s\<lparr>rs_bpm := b1\<rparr>)"
    by (rule fetch_handle_ok[OF rm_invD(1)[OF i] r p d])
  have "kept_but {hdr_pid (rs_fd s)} (rs_bpm s) b1" using f(4) by (simp add: kept_but_def)
  note v1 = rm_inv_views[OF i f(5) this]
  have "has_room (s\<lparr>rs_bpm := b1\<rparr>) p = has_room s p" using v1(3)[OF p] d by (simp add: has_room_def rm_page_no_def)
  then show ?thesis
    using f v1 p d by (intro that[of f "s\<lparr>rs_bpm := b1\<rparr>"]) (simp_all add: rm_data_def rm_page_no_def)
qed

lemma update_record_ok:
  assumes i: "rm_inv s" and r: "bp_roomy (rs_bpm s)" and t: "rm_table s rid = Some x" and lk: "lk rid = Inr ()"
    and b: "int (length buf) = record_size (rs_hdr s)"
  shows "\<exists>s'. update_record lk rid buf s = (Inr (), s') \<and> rm_inv s' \<and> bp_roomy (rs_bpm s') \<and>
     rm_table s' = (rm_table s)(rid \<mapsto> buf) \<and> pins (rs_bpm s') = pins (rs_bpm s) \<and> rs_hdr s' = rs_hdr s"
proof -
  let ?p = "rid_page_no rid" let ?i = "rid_slot_no rid" let ?h = "rs_hdr s"
  obtain d where d: "rm_page_no s ?p" "rm_page s ?p = Some d" "page_wf ?h d" "?i \<in> page_slots ?h d" "valid_slot ?h ?i"
    by (rule rm_table_page[OF i t])
  note ud = update_slot_effects[OF rm_invD(2)[OF i] d(3,4) b]
  obtain f s1 where f: "fetch_page_handle ?p s = (Inr f, s1)" "rm_inv s1" "rm_table s1 = rm_table s" "rs_hdr s1 = rs_hdr s"
    "rs_fd s1 = rs_fd s" "rm_data f s1 = d" "rm_page s1 ?p = Some d" "rm_page_no s1 ?p"
    "held_since (rs_bpm s) (rs_bpm s1) (rm_pid s1 ?p) f" "has_room s1 ?p = has_room s ?p"
    by (rule fetch_step[OF i r d(1,2)])
  have l: "length (put_slot ?h ?i buf (rm_data f s1)) = PAGE_SIZE" using ud(1) f(6) by (simp add: page_wf_def)
  obtain s2 where s2: "em_then (rm_put f (put_slot ?h ?i buf)) (rm_unpin ?p True) s1 = (Inr (), s2)"
    "page_step ?p (put_slot ?h ?i buf (rm_data f s1)) s1 s2" "bp_roomy (rs_bpm s2)" "pins (rs_bpm s2) = pins (rs_bpm s)" "rs_hdr s2 = rs_hdr s1"
    by (rule put_unpin[where g = "put_slot ?h ?i buf", OF rm_invD(1)[OF f(2)] f(9) l])
  have w: "page_wf (rs_hdr s1) (put_slot ?h ?i buf (rm_data f s1))" using ud(1) f by simp
  note pf = page_step_facts[OF f(2) s2(2) f(8) w]
  have "has_room s2 ?p = has_room s1 ?p" using pf(4) ud(4) f by (simp add: has_room_def)
  then have "rm_inv s2" using ud s2(5) f by (intro free_list_step[OF f(2) s2(2) f(8) f(7) w]) simp
  moreover have "rm_table s2 = (rm_table s)(rid \<mapsto> buf)"
    using pf(5)[of d ?i "Some buf"] ud(2) f by (simp add: rid_eta)
  moreover have "update_record lk rid buf s = (Inr (), s2)"
    using f(1,4) s2(1) lk slot_range(4)[OF rm_invD(2)[OF i] d(5)] by (simp add: update_record_def em_defs rm_lock_def)
  ultimately show ?thesis using s2 f(4) by auto
qed

lemma page_write_twice:
  "f < length (bp_pages b) \<Longrightarrow> page_write f g2 (page_write f g1 b) = page_write f (\<lambda>d. g2 (g1 d)) b"
  by (simp add: page_write_def set_page_def)

lemma page_wf_full:
  assumes "hdr_ok h" and "page_wf h d"
  shows "page_num_records d \<le> num_records_per_page h"
  using card_page_slots(1)[OF assms(1), of d] assms(2) by (simp add: page_wf_def)

lemma delete_record_ok:
  assumes i: "rm_inv s" and r: "bp_roomy (rs_bpm s)" and t: "rm_table s rid = Some x" and lk: "lk rid = Inr ()"
  shows "\<exists>s'. delete_record lk rid s = (Inr (), s') \<and> rm_inv s' \<and> bp_roomy (rs_bpm s') \<and>
     rm_table s' = (rm_table s)(rid := None) \<and> pins (rs_bpm s') = pins (rs_bpm s) \<and>
     record_size (rs_hdr s') = record_size (rs_hdr s) \<and> num_pages (rs_hdr s') = num_pages (rs_hdr s) \<and>
     (\<forall>d. rm_page s (rid_page_no rid) = Some d \<and> page_num_records d = num_records_per_page (rs_hdr s) \<longrightarrow>
        first_free_page_no (rs_hdr s') = rid_page_no rid)"
proof -
  let ?p = "rid_page_no rid" let ?i = "rid_slot_no rid" let ?h = "rs_hdr s" let ?n = "num_records_per_page (rs_hdr s)"
  note h = rm_invD(2)[OF i]
  obtain d where d: "rm_page_no s ?p" "rm_page s ?p = Some d" "page_wf ?h d" "?i \<in> page_slots ?h d" "valid_slot ?h ?i"
    by (rule rm_table_page[OF i t])
  note cl = clear_slot_effects[OF h d(3,4)]
  obtain f s1 where f: "fetch_page_handle ?p s = (Inr f, s1)" "rm_inv s1" "rm_table s1 = rm_table s" "rs_hdr s1 = rs_hdr s"
    "rs_fd s1 = rs_fd s" "rm_data f s1 = d" "rm_page s1 ?p = Some d" "rm_page_no s1 ?p"
    "held_since (rs_bpm s) (rs_bpm s1) (rm_pid s1 ?p) f" "has_room s1 ?p = has_room s ?p"
    by (rule fetch_step[OF i r d(1,2)])
  note hf = held_frame[OF f(9)]
  let ?d1 = "clear_slot ?i d"
  have n1: "page_num_records (rm_data f (snd (rm_put f (clear_slot ?i) s1))) = page_num_records d - 1"
    using cl(5) hf(4) f(6) by (simp add: rm_put_def rm_data_def page_write_nth)
  have le: "page_num_records d \<le> ?n" by (rule page_wf_full[OF h d(3)])
  show ?thesis
  proof (cases "page_num_records d = ?n")
    case False
    have l: "length (clear_slot ?i (rm_data f s1)) = PAGE_SIZE" using cl(1) f(6) by (simp add: page_wf_def)
    obtain s2 where s2: "em_then (rm_put f (clear_slot ?i)) (rm_unpin ?p True) s1 = (Inr (), s2)"
      "page_step ?p (clear_slot ?i (rm_data f s1)) s1 s2" "bp_roomy (rs_bpm s2)" "pins (rs_bpm s2) = pins (rs_bpm s)" "rs_hdr s2 = rs_hdr s1"
      by (rule put_unpin[where g = "clear_slot ?i", OF rm_invD(1)[OF f(2)] f(9) l])
    have w: "page_wf (rs_hdr s1) (clear_slot ?i (rm_data f s1))" using cl(1) f by simp
    note pf = page_step_facts[OF f(2) s2(2) f(8) w]
    have "has_room s2 ?p = has_room s1 ?p" using pf(4) cl(5) f False le by (simp add: has_room_def)
    then have "rm_inv s2" using cl s2(5) f by (intro free_list_step[OF f(2) s2(2) f(8) f(7) w]) simp
    moreover have "rm_table s2 = (rm_table s)(rid := None)"
      using pf(5)[of d ?i None] cl(3) f by (simp add: rid_eta)
    moreover have "delete_record lk rid s = (Inr (), s2)"
      using f(1,4) s2(1) lk n1 False by (simp add: delete_record_def em_defs rm_lock_def rm_put_def)
    ultimately show ?thesis using s2 f(4) False d(2) by auto
  next
    case True
    let ?ff = "first_free_page_no (rs_hdr s1)" let ?g = "\<lambda>x. set_next_free ?ff (clear_slot ?i x)"
    have dl: "length ?d1 = PAGE_SIZE" using cl(1) by (simp add: page_wf_def)
    note sn = set_next_effects[OF h dl, of ?ff]
    have l: "length (?g (rm_data f s1)) = PAGE_SIZE" using sn(1) f(6) by simp
    obtain s2 where s2: "em_then (rm_put f ?g) (em_then (em_modify (\<lambda>s. s\<lparr>rs_hdr := (rs_hdr s)\<lparr>first_free_page_no := ?p\<rparr>\<rparr>))
        (em_then write_file_hdr (rm_unpin ?p True))) s1 = (Inr (), s2)"
      "page_step ?p (?g (rm_data f s1)) s1 s2" "bp_roomy (rs_bpm s2)" "pins (rs_bpm s2) = pins (rs_bpm s)"
      "rs_hdr s2 = (rs_hdr s1)\<lparr>first_free_page_no := ?p\<rparr>"
      by (rule put_hdr_unpin[where g = ?g, OF rm_invD(1)[OF f(2)] f(9) f(8) l])
    have w: "page_wf (rs_hdr s1) (?g (rm_data f s1))" using cl(1) sn f by (simp add: page_wf_def)
    note pf = page_step_facts[OF f(2) s2(2) f(8) w]
    have hr: "has_room s2 ?p" "\<not> has_room s1 ?p" using pf(4) sn(5) cl(5) f True by (simp_all add: has_room_def)
    have "page_next_free (?g (rm_data f s1)) = ?ff" using sn(4) free_head(3)[OF f(2)] f(6) by simp
    then have "rm_inv s2" using hr s2(5) by (intro free_list_step[OF f(2) s2(2) f(8) f(7) w]) simp
    moreover have "rm_table s2 = (rm_table s)(rid := None)"
      using pf(5)[of d ?i None] cl(3) sn(3) f by (simp add: rid_eta)
    moreover have "delete_record lk rid s = (Inr (), s2)"
      using f(1,4) s2(1) lk n1 True hf(1,4)
      by (simp add: delete_record_def em_defs rm_lock_def rm_put_def release_page_handle_def page_write_nth page_write_twice
          Let_def split: prod.splits sum.splits)
    ultimately show ?thesis using s2 f(4) by auto
  qed
qed

subsection \<open>Inserting records\<close>

lemma first_free_slot:
  assumes h: "hdr_ok h" and w: "page_wf h d" and r: "page_num_records d < num_records_per_page h"
  defines "i \<equiv> first_bit False (page_bitmap d) (num_records_per_page h)"
  shows "valid_slot h i" "i \<notin> page_slots h d"
proof -
  let ?n = "num_records_per_page h"
  have i: "i = next_bit_loop False (page_bitmap d) ?n 0" by (simp add: i_def first_bit_def next_bit_def)
  have n: "0 < ?n" using layout_bounds[OF h] by simp
  note sp = next_bit_loop_spec[where b = False and bm = "page_bitmap d" and max_n = ?n and i = 0, folded i]
  have "page_slots h d \<noteq> {0..<?n}" using r w card_page_slots(2)[OF h, of d] by (simp add: page_wf_def)
  moreover have "page_slots h d \<subseteq> {0..<?n}" by (auto simp: page_slots_def valid_slot_def)
  ultimately obtain j where "j \<in> {0..<?n}" "j \<notin> page_slots h d" by blast
  then have j: "0 \<le> j" "j < ?n" "\<not> is_set (page_bitmap d) j" by (auto simp: page_slots_def valid_slot_def)
  have "i < ?n"
  proof (rule ccontr)
    assume "\<not> i < ?n"
    then have "is_set (page_bitmap d) j" using sp(3)[of j] j by simp
    with j show False by simp
  qed
  then show "valid_slot h i" "i \<notin> page_slots h d" using sp n by (auto simp: valid_slot_def page_slots_def)
qed

lemma new_handle_ok:
  assumes i: "rm_inv s" and r: "bp_roomy (rs_bpm s)" and ff: "first_free_page_no (rs_hdr s) = -1"
    and ca: "page_addressable (num_pages (rs_hdr s))"
  obtains f s1 b0 where "create_new_page_handle s = (Inr f, s1)" "rm_inv s1" "rm_table s1 = rm_table s"
    "first_free_page_no (rs_hdr s1) = num_pages (rs_hdr s)" "rs_fd s1 = rs_fd s" "record_size (rs_hdr s1) = record_size (rs_hdr s)"
    "held_since b0 (rs_bpm s1) (rm_pid s1 (num_pages (rs_hdr s))) f" "pins b0 = pins (rs_bpm s)"
    "num_pages (rs_hdr s1) = num_pages (rs_hdr s) + 1"
proof -
  let ?N = "num_pages (rs_hdr s)" let ?fd = "rs_fd s" let ?b = "rs_bpm s"
  note bs = rm_invD(1)[OF i] note h = rm_invD(2)[OF i]
  have fp: "fd2pageno (bp_disk ?b) ?fd = ?N" "1 \<le> ?N" using bs by (simp_all add: rm_base_def)
  have cal: "can_allocate (bp_disk ?b) ?fd" using bs ca by (simp add: rm_base_def can_allocate_def)
  define b0 where "b0 = ?b\<lparr>bp_disk := bumped ?fd (bp_disk ?b)\<rparr>"
  obtain f b1 where n: "new_page ?fd ?b = (Inr (Some (?N, f)), b1)" "held_since b0 b1 (rm_pid s ?N) f"
    "pg_data (bp_frame b1 f) = zero_page" "kept_but {rm_pid s ?N} ?b b1" "disk_le (bumped ?fd (bp_disk ?b)) (bp_disk b1)"
    "\<forall>q. q \<noteq> rm_pid s ?N \<and> map_of (bp_table ?b) q = None \<longrightarrow> map_of (bp_table b1) q = None" "pins b0 = pins ?b"
    using held_new[OF rm_invD(3)[OF i] r cal] unfolding fp b0_def by blast
  define h1 where "h1 = (rs_hdr s)\<lparr>num_pages := ?N + 1, first_free_page_no := ?N\<rparr>"
  have ci: "c_int (?N + 1) = ?N + 1"
    using ca fp(2) by (intro c_int_id) (simp add: page_addressable_def in_int_def INT_MAX_def INT_MIN_def PAGE_SIZE_def)
  have zl: "length zero_page = PAGE_SIZE" by (simp add: zero_page_def)
  note ip = init_page_effects[OF h zl]
  have l: "length (init_page (rs_hdr s) (pg_data (bp_frame b1 f))) = PAGE_SIZE" using ip(1) n(3) by (simp add: page_wf_def)
  note w = held_put[where g = "init_page (rs_hdr s)", OF n(2) l]
  let ?b2 = "page_write f (init_page (rs_hdr s)) b1"
  have ne: "hdr_pid ?fd \<noteq> rm_pid s ?N" using fp by (simp add: hdr_pid_def RM_FILE_HDR_PAGE_def)
  have op: "fd_path (bp_disk ?b2) ?fd \<noteq> None" "map_of (bp_table ?b2) (hdr_pid ?fd) = None"
    using bs n(5,6) ne by (simp_all add: rm_base_def disk_le_def)
  have hl: "sizeof_RmFileHdr \<le> PAGE_SIZE" "sizeof_RmFileHdr \<le> length (enc_RmFileHdr h1)"
    by (simp_all add: sizeof_RmFileHdr_def PAGE_SIZE_def enc_RmFileHdr_def)
  obtain d' where d': "write_page ?fd RM_FILE_HDR_PAGE (enc_RmFileHdr h1) sizeof_RmFileHdr (bp_disk ?b2) = (Inr (), d')"
    "bp_inv (?b2\<lparr>bp_disk := d'\<rparr>)" "disk_le (bp_disk ?b2) d'" "kept_but {hdr_pid ?fd} ?b2 (?b2\<lparr>bp_disk := d'\<rparr>)"
    by (rule hdr_write_ok[OF held_frame(6)[OF w(1)] op hl])
  define s1 where "s1 = s\<lparr>rs_hdr := h1, rs_bpm := ?b2\<lparr>bp_disk := d'\<rparr>\<rparr>"
  have held1: "held_since b0 (rs_bpm s1) (rm_pid s1 ?N) f"
    using w(1) d'(2) by (simp add: held_since_def bp_held_def s1_def)
  have base1: "rm_base s1"
    using bs d'(2,3) n(5) op(2) ca by (simp add: rm_base_def s1_def h1_def disk_le_def)
  have pn: "rm_page_no s1 q \<longleftrightarrow> rm_page_no s q \<or> q = ?N" for q
    using fp(2) by (auto simp: rm_page_no_def s1_def h1_def)
  have pN: "rm_page s1 ?N = Some (init_page (rs_hdr s) zero_page)"
    using held_frame(3)[OF held1] w(2) n(3) by (simp add: rm_page_def s1_def)
  have oth: "rm_page s1 q = rm_page s q" if q: "rm_page_no s q" for q
  proof -
    obtain x where x: "rm_page s q = Some x" using rm_invD(4)[OF i q] by blast
    have "rm_pid s q \<noteq> rm_pid s ?N" "rm_pid s q \<noteq> hdr_pid ?fd" using q
      by (simp_all add: rm_page_no_def hdr_pid_def RM_FILE_HDR_PAGE_def)
    then have "rm_page s1 q = Some x" using x n(4) w(3) d'(4) by (simp add: rm_page_def kept_but_def s1_def)
    with x show ?thesis by simp
  qed
  have lay: "page_wf h1 = page_wf (rs_hdr s)" "page_recs h1 = page_recs (rs_hdr s)" "rs_hdr s1 = h1"
      "num_records_per_page h1 = num_records_per_page (rs_hdr s)"
    by (simp_all add: h1_def s1_def)
  have pgs: "rm_pages s1"
    unfolding rm_pages_def using rm_invD(4)[OF i] oth pN ip(1) by (auto simp: pn lay)
  have nr: "\<not> has_room s q" for q using free_head(1)[OF i] ff by simp
  have "has_room s1 q \<longleftrightarrow> q = ?N" for q
    using nr[of q] oth[of q] pN ip(5) layout_bounds[OF h] pn[of q] by (cases "q = ?N") (auto simp: has_room_def lay cong: option.case_cong)
  then have "set [?N] = {q. has_room s1 q}" by auto
  moreover have "first_free_page_no (rs_hdr s1) = ?N" by (simp add: lay h1_def)
  ultimately have "rm_free s1"
    unfolding rm_free_def using pN ip(3) by (intro exI[of _ "[?N]"]) simp
  then have inv1: "rm_inv s1" using base1 pgs by (simp add: rm_inv_def)
  have "rm_table s1 rid = rm_table s rid" for rid
    using oth[of "rid_page_no rid"] pN ip(4) pn[of "rid_page_no rid"]
    by (cases "rid_page_no rid = ?N") (auto simp: rm_table_def lay rm_page_no_def cong: option.case_cong)
  then have "rm_table s1 = rm_table s" by (rule ext)
  moreover have "create_new_page_handle s = (Inr f, s1)"
    using n(1) d'(1) ci by (simp add: create_new_page_handle_def em_defs rm_bp_def rm_put_def write_file_hdr_def s1_def h1_def)
  ultimately show ?thesis
    using inv1 held1 n(7) by (intro that[of f s1 b0]) (simp_all add: s1_def h1_def)
qed

lemma page_handle_ok:
  assumes i: "rm_inv s" and r: "bp_roomy (rs_bpm s)" and ca: "page_addressable (num_pages (rs_hdr s))"
  obtains f s1 b0 p where "create_page_handle s = (Inr f, s1)" "rm_inv s1" "rm_table s1 = rm_table s"
    "first_free_page_no (rs_hdr s1) = p" "p \<noteq> -1" "record_size (rs_hdr s1) = record_size (rs_hdr s)"
    "held_since b0 (rs_bpm s1) (rm_pid s1 p) f" "pins b0 = pins (rs_bpm s)"
    "num_pages (rs_hdr s1) = num_pages (rs_hdr s) + (if first_free_page_no (rs_hdr s) = -1 then 1 else 0)"
proof (cases "first_free_page_no (rs_hdr s) = -1")
  case True
  have N: "num_pages (rs_hdr s) \<noteq> -1" using rm_invD(1)[OF i] by (simp add: rm_base_def)
  obtain f s1 b0 where "create_new_page_handle s = (Inr f, s1)" "rm_inv s1" "rm_table s1 = rm_table s"
    "first_free_page_no (rs_hdr s1) = num_pages (rs_hdr s)" "rs_fd s1 = rs_fd s" "record_size (rs_hdr s1) = record_size (rs_hdr s)"
    "held_since b0 (rs_bpm s1) (rm_pid s1 (num_pages (rs_hdr s))) f" "pins b0 = pins (rs_bpm s)"
    "num_pages (rs_hdr s1) = num_pages (rs_hdr s) + 1"
    by (rule new_handle_ok[OF i r True ca])
  with True N show ?thesis by (intro that[of f s1 "num_pages (rs_hdr s)" b0]) (simp_all add: create_page_handle_def)
next
  case False
  let ?p = "first_free_page_no (rs_hdr s)"
  have p: "rm_page_no s ?p" using free_head(2)[OF i False] by (simp add: has_room_def)
  obtain d where d: "rm_page s ?p = Some d" using rm_invD(4)[OF i p] by blast
  obtain f s1 where "fetch_page_handle ?p s = (Inr f, s1)" "rm_inv s1" "rm_table s1 = rm_table s" "rs_hdr s1 = rs_hdr s"
    "rs_fd s1 = rs_fd s" "rm_data f s1 = d" "rm_page s1 ?p = Some d" "rm_page_no s1 ?p"
    "held_since (rs_bpm s) (rs_bpm s1) (rm_pid s1 ?p) f" "has_room s1 ?p = has_room s ?p"
    by (rule fetch_step[OF i r p d])
  with False show ?thesis by (intro that[of f s1 ?p "rs_bpm s"]) (simp_all add: create_page_handle_def)
qed

lemma insert_record_ok:
  assumes i: "rm_inv s" and r: "bp_roomy (rs_bpm s)" and ca: "page_addressable (num_pages (rs_hdr s))"
    and b: "int (length buf) = record_size (rs_hdr s)" and lk: "\<And>rid. lk rid = Inr ()"
  shows "\<exists>rid s'. insert_record lk buf s = (Inr rid, s') \<and> rm_inv s' \<and> bp_roomy (rs_bpm s') \<and> rm_table s rid = None \<and>
     rm_table s' = (rm_table s)(rid \<mapsto> buf) \<and> pins (rs_bpm s') = pins (rs_bpm s) \<and>
     record_size (rs_hdr s') = record_size (rs_hdr s) \<and>
     num_pages (rs_hdr s') = num_pages (rs_hdr s) + (if first_free_page_no (rs_hdr s) = -1 then 1 else 0)"
proof -
  obtain f s1 b0 p where f: "create_page_handle s = (Inr f, s1)" "rm_inv s1" "rm_table s1 = rm_table s"
    "first_free_page_no (rs_hdr s1) = p" "p \<noteq> -1" "record_size (rs_hdr s1) = record_size (rs_hdr s)"
    "held_since b0 (rs_bpm s1) (rm_pid s1 p) f" "pins b0 = pins (rs_bpm s)"
    "num_pages (rs_hdr s1) = num_pages (rs_hdr s) + (if first_free_page_no (rs_hdr s) = -1 then 1 else 0)"
    by (rule page_handle_ok[OF i r ca])
  let ?h = "rs_hdr s1" let ?n = "num_records_per_page (rs_hdr s1)"
  note h = rm_invD(2)[OF f(2)] note hf = held_frame[OF f(7)]
  have hr: "has_room s1 p" using free_head(2)[OF f(2)] f(4,5) by simp
  then have pn: "rm_page_no s1 p" by (simp add: has_room_def)
  obtain d where d: "rm_page s1 p = Some d" "page_wf ?h d" using rm_invD(4)[OF f(2) pn] by blast
  have dd: "rm_data f s1 = d" using hf(3) d(1) by (simp add: rm_data_def rm_page_def)
  have cnt: "page_num_records d < ?n" using hr d(1) by (simp add: has_room_def)
  define k where "k = first_bit False (page_bitmap d) ?n"
  note fs = first_free_slot[OF h d(2) cnt, folded k_def]
  have b1: "int (length buf) = record_size ?h" using b f(6) by simp
  note fe = fill_slot_effects[OF h d(2) fs(1) b1 fs(2)]
  let ?rid = "\<lparr>rid_page_no = p, rid_slot_no = k\<rparr>" let ?g = "fill_slot ?h k buf"
  have nr: "rm_table s ?rid = None" using fs(2) d(1) unfolding f(3)[symmetric] by (simp add: rm_table_def page_recs_def)
  have l: "length (?g (rm_data f s1)) = PAGE_SIZE" using fe(1) dd by (simp add: page_wf_def)
  have w: "page_wf ?h (?g (rm_data f s1))" using fe(1) dd by simp
  have sip: "slot_in_page ?h k" by (rule slot_range(4)[OF h fs(1)])
  have pg: "pid_page_no (pg_id (bp_frame (rs_bpm s1) f)) = p" using hf(1) by simp
  have nf: "page_num_records (rm_data f (snd (rm_put f ?g s1))) = page_num_records d + 1"
      "page_next_free (rm_data f (snd (rm_put f ?g s1))) = page_next_free d"
    using fe(4,5) hf(4) dd by (simp_all add: rm_put_def rm_data_def page_write_nth)
  show ?thesis
  proof (cases "page_num_records d + 1 = ?n")
    case False
    obtain s2 where s2: "em_then (rm_put f ?g) (rm_unpin p True) s1 = (Inr (), s2)" "page_step p (?g (rm_data f s1)) s1 s2"
      "bp_roomy (rs_bpm s2)" "pins (rs_bpm s2) = pins b0" "rs_hdr s2 = rs_hdr s1"
      by (rule put_unpin[where g = ?g, OF rm_invD(1)[OF f(2)] f(7) l])
    note pf = page_step_facts[OF f(2) s2(2) pn w]
    have "has_room s2 p = has_room s1 p" using pf(4) hr fe(5) dd False cnt by simp
    then have "rm_inv s2" using fe(4) s2(5) dd by (intro free_list_step[OF f(2) s2(2) pn d(1) w]) simp
    moreover have "rm_table s2 = (rm_table s)(?rid \<mapsto> buf)" using pf(5)[of d k "Some buf"] fe(3) d(1) dd f(3) by simp
    moreover have "insert_record lk buf s = (Inr ?rid, s2)"
      using f(1) s2(1) nf False sip pg by (simp add: insert_record_def em_defs rm_lock_def lk Let_def dd k_def[symmetric] rm_put_def)
    ultimately show ?thesis using s2 nr f(6,8,9) by auto
  next
    case True
    obtain s2 where s2: "em_then (rm_put f ?g) (em_then (em_modify (\<lambda>s. s\<lparr>rs_hdr := (rs_hdr s)\<lparr>first_free_page_no := page_next_free d\<rparr>\<rparr>))
        (em_then write_file_hdr (rm_unpin p True))) s1 = (Inr (), s2)" "page_step p (?g (rm_data f s1)) s1 s2"
      "bp_roomy (rs_bpm s2)" "pins (rs_bpm s2) = pins b0" "rs_hdr s2 = (rs_hdr s1)\<lparr>first_free_page_no := page_next_free d\<rparr>"
      by (rule put_hdr_unpin[where g = ?g, OF rm_invD(1)[OF f(2)] f(7) pn l])
    note pf = page_step_facts[OF f(2) s2(2) pn w]
    have "\<not> has_room s2 p" using pf(4) fe(5) dd True by simp
    then have "rm_inv s2" using f(4) s2(5) by (intro free_list_step[OF f(2) s2(2) pn d(1) w]) simp
    moreover have "rm_table s2 = (rm_table s)(?rid \<mapsto> buf)" using pf(5)[of d k "Some buf"] fe(3) d(1) dd f(3) by simp
    moreover have "insert_record lk buf s = (Inr ?rid, s2)"
      using f(1) s2(1) nf True sip pg
      by (simp add: insert_record_def em_defs rm_lock_def lk Let_def dd k_def[symmetric] rm_put_def split: prod.splits sum.splits)
    ultimately show ?thesis using s2 nr f(6,8,9) by auto
  qed
qed

section \<open>Scanning\<close>

definition rid_less :: "Rid \<Rightarrow> Rid \<Rightarrow> bool" where
  "rid_less a b \<longleftrightarrow> rid_page_no a < rid_page_no b \<or> (rid_page_no a = rid_page_no b \<and> rid_slot_no a < rid_slot_no b)"

definition rid_after :: "int \<Rightarrow> int \<Rightarrow> Rid \<Rightarrow> bool" where
  "rid_after p start r \<longleftrightarrow> p < rid_page_no r \<or> (rid_page_no r = p \<and> start < rid_slot_no r)"

text \<open>A scan positioned on a record keeps one pin on its page; \<open>P\<close> are the pins without it.\<close>

definition scan_at :: "(PageId \<Rightarrow> int) \<Rightarrow> RmState \<Rightarrow> Rid \<Rightarrow> bool" where
  "scan_at P s rid \<longleftrightarrow> (\<exists>b0 f. held_since b0 (rs_bpm s) (rm_pid s (rid_page_no rid)) f \<and> pins b0 = P \<and>
     (frame_clean_ok (rs_bpm s) (rm_pid s (rid_page_no rid)) f \<or> 0 < pins b0 (rm_pid s (rid_page_no rid))))"

lemma scan_release:
  assumes i: "rm_inv s" and a: "scan_at P s rid"
  shows "\<exists>b2. rm_unpin (rid_page_no rid) False s = (Inr (), s\<lparr>rs_bpm := b2\<rparr>) \<and> rm_inv (s\<lparr>rs_bpm := b2\<rparr>) \<and>
     rm_table (s\<lparr>rs_bpm := b2\<rparr>) = rm_table s \<and> bp_roomy b2 \<and> pins b2 = P"
proof -
  let ?pid = "rm_pid s (rid_page_no rid)"
  obtain b0 f where h: "held_since b0 (rs_bpm s) ?pid f" "pins b0 = P" "frame_clean_ok (rs_bpm s) ?pid f \<or> 0 < pins b0 ?pid"
    using a by (auto simp: scan_at_def)
  obtain b2 where u: "unpin_page ?pid False (rs_bpm s) = (True, b2)" "bp_inv b2" "bp_roomy b2" "page_view b2 = page_view (rs_bpm s)"
    "pins b2 = pins b0" "bp_disk b2 = bp_disk (rs_bpm s)" "bp_table b2 = bp_table (rs_bpm s)"
    by (rule held_unpin_clean[OF h(1,3)])
  have "rm_base (s\<lparr>rs_bpm := b2\<rparr>)" using rm_invD(1)[OF i] u by (simp add: rm_base_def)
  moreover have "kept_but {hdr_pid (rs_fd s)} (rs_bpm s) b2" using u(4) by (simp add: kept_but_def)
  ultimately show ?thesis using rm_inv_views[OF i] u h(2) by (intro exI[of _ b2]) (simp add: rm_unpin_def)
qed

lemma fetch_scan:
  assumes i: "rm_inv s" and r: "bp_roomy (rs_bpm s)" and p: "rm_page_no s p" and d: "rm_page s p = Some d"
  obtains f s1 where "fetch_page_handle p s = (Inr f, s1)" "rm_inv s1" "rm_table s1 = rm_table s" "rs_hdr s1 = rs_hdr s"
    "rs_fd s1 = rs_fd s" "rm_data f s1 = d" "\<And>k. scan_at (pins (rs_bpm s)) s1 \<lparr>rid_page_no = p, rid_slot_no = k\<rparr>"
proof -
  obtain f b1 where f: "fetch_page_handle p s = (Inr f, s\<lparr>rs_bpm := b1\<rparr>)"
    "held_since (rs_bpm s) b1 (rm_pid s p) f" "pg_data (bp_frame b1 f) = d" "kept_but {} (rs_bpm s) b1" "rm_base (s\<lparr>rs_bpm := b1\<rparr>)"
    "frame_clean_ok b1 (rm_pid s p) f \<or> 0 < pins (rs_bpm s) (rm_pid s p)"
    by (rule fetch_handle_ok[OF rm_invD(1)[OF i] r p d])
  have "kept_but {hdr_pid (rs_fd s)} (rs_bpm s) b1" using f(4) by (simp add: kept_but_def)
  note v1 = rm_inv_views[OF i f(5) this]
  have "scan_at (pins (rs_bpm s)) (s\<lparr>rs_bpm := b1\<rparr>) \<lparr>rid_page_no = p, rid_slot_no = k\<rparr>" for k
    unfolding scan_at_def using f(2,6) by (intro exI[of _ "rs_bpm s"] exI[of _ f]) simp
  then show ?thesis using f v1 by (intro that[of f "s\<lparr>rs_bpm := b1\<rparr>"]) (simp_all add: rm_data_def)
qed

lemma page_probe:
  fixes d :: "byte list"
  assumes h: "hdr_ok h" and st: "-2 \<le> start" "start < num_records_per_page h"
  defines "k \<equiv> next_bit True (page_bitmap d) (num_records_per_page h) start"
  shows "k < num_records_per_page h \<Longrightarrow> k \<in> page_slots h d \<and> start < k"
    "j \<in> page_slots h d \<Longrightarrow> start < j \<Longrightarrow> k \<le> j"
proof -
  let ?n = "num_records_per_page h"
  have k: "k = next_bit_loop True (page_bitmap d) ?n (start + 1)" by (simp add: k_def next_bit_def)
  note sp = next_bit_loop_spec[where b = True and bm = "page_bitmap d" and max_n = ?n and i = "start + 1", folded k]
  show "k \<in> page_slots h d \<and> start < k" if "k < ?n"
  proof -
    have s: "is_set (page_bitmap d) k" using sp(4) that by simp
    then have "k \<noteq> -1" using is_set_minus_one by metis
    moreover have "start + 1 \<le> k" using sp(1) st by auto
    ultimately show ?thesis using s st that by (auto simp: page_slots_def valid_slot_def)
  qed
  show "k \<le> j" if "j \<in> page_slots h d" "start < j"
    using sp(3)[of j] that by (fastforce simp: page_slots_def)
qed

lemma scan_pages_spec:
  assumes "rm_inv s" and "bp_roomy (rs_bpm s)" and "np = num_pages (rs_hdr s)" and "1 \<le> p" and "-2 \<le> start"
    and "start < num_records_per_page (rs_hdr s)" and "restart = -1 \<or> restart = -2"
  shows "\<exists>rid s'. scan_pages np restart p start s = (Inr rid, s') \<and> rm_inv s' \<and> rm_table s' = rm_table s \<and>
     rs_hdr s' = rs_hdr s \<and>
     ((RmScan_is_end rid \<and> bp_roomy (rs_bpm s') \<and> pins (rs_bpm s') = pins (rs_bpm s) \<and>
        (\<forall>r. r \<in> dom (rm_table s) \<longrightarrow> \<not> rid_after p start r)) \<or>
      (rid \<in> dom (rm_table s) \<and> rid_after p start rid \<and> scan_at (pins (rs_bpm s)) s' rid \<and>
        (\<forall>r. r \<in> dom (rm_table s) \<and> rid_after p start r \<longrightarrow> r = rid \<or> rid_less rid r)))"
  using assms
proof (induction "nat (np - p)" arbitrary: p start s)
  case 0
  have "rid_page_no r < np" if "r \<in> dom (rm_table s)" for r
    using that 0 by (auto simp: rm_table_def rm_page_no_def split: if_splits)
  then have "\<not> rid_after p start r" if "r \<in> dom (rm_table s)" for r
    using that 0 by (force simp: rid_after_def)
  moreover have "scan_pages np restart p start s = (Inr \<lparr>rid_page_no = -1, rid_slot_no = -1\<rparr>, s)"
    using 0 by (subst scan_pages.simps) simp
  ultimately show ?case
    using 0 by (intro exI[of _ "\<lparr>rid_page_no = -1, rid_slot_no = -1\<rparr>"] exI[of _ s]) (simp add: RmScan_is_end_def)
next
  case (Suc n)
  have lt: "p < np" using Suc(2) by simp
  then have pn: "rm_page_no s p" using Suc.prems by (simp add: rm_page_no_def)
  obtain d where d: "rm_page s p = Some d" using rm_invD(4)[OF Suc.prems(1) pn] by blast
  let ?h = "rs_hdr s" let ?n = "num_records_per_page (rs_hdr s)"
  note h = rm_invD(2)[OF Suc.prems(1)]
  obtain f s1 where f: "fetch_page_handle p s = (Inr f, s1)" "rm_inv s1" "rm_table s1 = rm_table s" "rs_hdr s1 = rs_hdr s"
    "rs_fd s1 = rs_fd s" "rm_data f s1 = d" "\<And>k. scan_at (pins (rs_bpm s)) s1 \<lparr>rid_page_no = p, rid_slot_no = k\<rparr>"
    by (rule fetch_scan[OF Suc.prems(1,2) pn d]) blast
  define k where "k = next_bit True (page_bitmap d) ?n start"
  note pr = page_probe[OF h Suc.prems(5,6), where d = d, folded k_def]
  have on: "r \<in> dom (rm_table s) \<longleftrightarrow> rid_slot_no r \<in> page_slots ?h d" if "rid_page_no r = p" for r
    using that pn d by (auto simp: rm_table_def page_recs_def split: if_splits)
  show ?case
  proof (cases "k < ?n")
    case True
    let ?rid = "\<lparr>rid_page_no = p, rid_slot_no = k\<rparr>"
    have "scan_pages np restart p start s = (Inr ?rid, s1)"
      using lt f True by (simp add: scan_pages.simps[of np] em_bind_def Let_def k_def)
    moreover have "?rid \<in> dom (rm_table s)" "rid_after p start ?rid" using pr(1)[OF True] on[of ?rid] by (auto simp: rid_after_def)
    moreover have "r = ?rid \<or> rid_less ?rid r" if "r \<in> dom (rm_table s)" "rid_after p start r" for r
      using that on[of r] pr(2)[of "rid_slot_no r"] by (cases r) (auto simp: rid_after_def rid_less_def order_le_less)
    ultimately show ?thesis using f by blast
  next
    case False
    obtain b2 where u: "rm_unpin p False s1 = (Inr (), s1\<lparr>rs_bpm := b2\<rparr>)" "rm_inv (s1\<lparr>rs_bpm := b2\<rparr>)"
      "rm_table (s1\<lparr>rs_bpm := b2\<rparr>) = rm_table s1" "bp_roomy b2" "pins b2 = pins (rs_bpm s)"
      using scan_release[OF f(2) f(7)[of 0]] by auto
    let ?s2 = "s1\<lparr>rs_bpm := b2\<rparr>"
    have sc: "scan_pages np restart p start s = scan_pages np restart (p + 1) restart ?s2"
      using lt f False u(1) by (simp add: scan_pages.simps[of np restart p] em_bind_def em_then_def Let_def k_def)
    have "restart < num_records_per_page (rs_hdr ?s2)" "-2 \<le> restart"
      using Suc.prems(7) layout_bounds[OF h] f(4) by auto
    note rs = this
    have nn: "n = nat (np - (p + 1))" "bp_roomy (rs_bpm ?s2)" "np = num_pages (rs_hdr ?s2)" "1 \<le> p + 1"
      using Suc(2) Suc.prems(3,4) u(4) f(4) by simp_all
    note ih = Suc.hyps(1)[OF nn(1) u(2) nn(2-4) rs(2,1) Suc.prems(7)]
    obtain rid s' where r: "scan_pages np restart (p + 1) restart ?s2 = (Inr rid, s')" "rm_inv s'" "rm_table s' = rm_table s"
      "rs_hdr s' = rs_hdr s" and c: "(RmScan_is_end rid \<and> bp_roomy (rs_bpm s') \<and> pins (rs_bpm s') = pins (rs_bpm s) \<and>
        (\<forall>r. r \<in> dom (rm_table s) \<longrightarrow> \<not> rid_after (p + 1) restart r)) \<or>
      (rid \<in> dom (rm_table s) \<and> rid_after (p + 1) restart rid \<and> scan_at (pins (rs_bpm s)) s' rid \<and>
        (\<forall>r. r \<in> dom (rm_table s) \<and> rid_after (p + 1) restart r \<longrightarrow> r = rid \<or> rid_less rid r))"
      using ih u(3,5) f(3,4) by auto
    have af: "rid_after p start r \<longleftrightarrow> rid_after (p + 1) restart r" if "r \<in> dom (rm_table s)" for r
    proof -
      have "0 \<le> rid_slot_no r" using that by (auto simp: rm_table_def page_recs_def page_slots_def valid_slot_def split: if_splits option.splits)
      moreover have "\<not> start < rid_slot_no r" if "rid_page_no r = p"
        using pr(2)[of "rid_slot_no r"] on[OF that] \<open>r \<in> dom (rm_table s)\<close> False by (auto simp: page_slots_def valid_slot_def)
      ultimately show ?thesis using Suc.prems(7) by (auto simp: rid_after_def)
    qed
    show ?thesis using r c af unfolding sc by blast
  qed
qed

text \<open>The scan loop of the clients: \<^verbatim>\<open>for (RmScan scan(fh); !scan.is_end(); scan.next())\<close>, collecting the
  record ids, with the number of rounds bounded by \<open>fuel\<close>.\<close>

fun rm_scan_loop :: "nat \<Rightarrow> Rid \<Rightarrow> (RmState, Rid list option) em" where
  "rm_scan_loop 0 rid = em_return None"
| "rm_scan_loop (Suc fuel) rid =
     (if RmScan_is_end rid then em_return (Some [])
      else em_bind (RmScan_next rid) (\<lambda>r. em_bind (rm_scan_loop fuel r) (\<lambda>rs. em_return (map_option ((#) rid) rs))))"

definition rm_scan_all :: "nat \<Rightarrow> (RmState, Rid list option) em" where
  "rm_scan_all fuel = em_bind RmScan_new (rm_scan_loop fuel)"

lemma dom_table_finite: "finite (dom (rm_table s))"
proof -
  have "dom (rm_table s) \<subseteq> (\<lambda>(p, i). \<lparr>rid_page_no = p, rid_slot_no = i\<rparr>) `
      ({1..<num_pages (rs_hdr s)} \<times> {0..<num_records_per_page (rs_hdr s)})"
  proof
    fix r assume "r \<in> dom (rm_table s)"
    then have "rid_page_no r \<in> {1..<num_pages (rs_hdr s)}" "rid_slot_no r \<in> {0..<num_records_per_page (rs_hdr s)}"
      by (auto simp: rm_table_def rm_page_no_def page_recs_def page_slots_def valid_slot_def split: if_splits option.splits)
    then show "r \<in> (\<lambda>(p, i). \<lparr>rid_page_no = p, rid_slot_no = i\<rparr>) ` ({1..<num_pages (rs_hdr s)} \<times> {0..<num_records_per_page (rs_hdr s)})"
      by (intro image_eqI[of _ _ "(rid_page_no r, rid_slot_no r)"]) simp_all
  qed
  then show ?thesis by (rule finite_subset) simp
qed

lemma rid_less_asym: "rid_less a b \<Longrightarrow> \<not> rid_less b a" "\<not> rid_less a a" "rid_less a b \<Longrightarrow> rid_less b c \<Longrightarrow> rid_less a c"
  by (auto simp: rid_less_def)

lemma dom_not_end: "r \<in> dom (rm_table s) \<Longrightarrow> \<not> RmScan_is_end r \<and> 1 \<le> rid_page_no r \<and> rid_page_no r < num_pages (rs_hdr s) \<and>
    0 \<le> rid_slot_no r \<and> rid_slot_no r < num_records_per_page (rs_hdr s)"
  by (auto simp: rm_table_def rm_page_no_def RmScan_is_end_def page_recs_def page_slots_def valid_slot_def split: if_splits option.splits)

lemma scan_next_spec:
  assumes i: "rm_inv s" and a: "scan_at P s rid" and d: "rid \<in> dom (rm_table s)"
  shows "\<exists>r s'. RmScan_next rid s = (Inr r, s') \<and> rm_inv s' \<and> rm_table s' = rm_table s \<and>
     ((RmScan_is_end r \<and> bp_roomy (rs_bpm s') \<and> pins (rs_bpm s') = P \<and> (\<forall>q. q \<in> dom (rm_table s) \<longrightarrow> \<not> rid_less rid q)) \<or>
      (r \<in> dom (rm_table s) \<and> rid_less rid r \<and> scan_at P s' r \<and>
        (\<forall>q. q \<in> dom (rm_table s) \<and> rid_less rid q \<longrightarrow> q = r \<or> rid_less r q)))"
proof -
  obtain b2 where u: "rm_unpin (rid_page_no rid) False s = (Inr (), s\<lparr>rs_bpm := b2\<rparr>)" "rm_inv (s\<lparr>rs_bpm := b2\<rparr>)"
    "rm_table (s\<lparr>rs_bpm := b2\<rparr>) = rm_table s" "bp_roomy b2" "pins b2 = P"
    using scan_release[OF i a] by auto
  note ne = dom_not_end[OF d]
  let ?s = "s\<lparr>rs_bpm := b2\<rparr>"
  have e: "RmScan_next rid s = scan_pages (num_pages (rs_hdr s)) (-2) (rid_page_no rid) (rid_slot_no rid) ?s"
    using u(1) ne by (simp add: RmScan_next_def)
  have "rid_after (rid_page_no rid) (rid_slot_no rid) q \<longleftrightarrow> rid_less rid q" for q
    by (auto simp: rid_after_def rid_less_def)
  then show ?thesis
    using scan_pages_spec[where s = ?s and np = "num_pages (rs_hdr s)" and p = "rid_page_no rid" and start = "rid_slot_no rid" and restart = "-2"]
      u ne unfolding e by simp blast
qed

lemma scan_loop_spec:
  assumes "rm_inv s" and "RmScan_is_end rid \<and> pins (rs_bpm s) = P \<and> A = {} \<or> rid \<in> dom (rm_table s) \<and> scan_at P s rid \<and>
     A = {q \<in> dom (rm_table s). q = rid \<or> rid_less rid q}" and "card A < fuel"
  shows "\<exists>rs s'. rm_scan_loop fuel rid s = (Inr (Some rs), s') \<and> rm_inv s' \<and> rm_table s' = rm_table s \<and>
     pins (rs_bpm s') = P \<and> set rs = A \<and> sorted_wrt rid_less rs"
  using assms
proof (induction fuel arbitrary: rid s A)
  case 0
  then show ?case by simp
next
  case (Suc fuel)
  show ?case
  proof (cases "RmScan_is_end rid")
    case True
    then have "A = {}" "pins (rs_bpm s) = P" using Suc.prems(2) dom_not_end by blast+
    with True Suc.prems(1) show ?thesis by (simp add: em_return_def)
  next
    case False
    then have d: "rid \<in> dom (rm_table s)" and a: "scan_at P s rid" and A: "A = {q \<in> dom (rm_table s). q = rid \<or> rid_less rid q}"
      using Suc.prems(2) by blast+
    obtain r s1 where n: "RmScan_next rid s = (Inr r, s1)" "rm_inv s1" "rm_table s1 = rm_table s"
      and c: "(RmScan_is_end r \<and> bp_roomy (rs_bpm s1) \<and> pins (rs_bpm s1) = P \<and> (\<forall>q. q \<in> dom (rm_table s) \<longrightarrow> \<not> rid_less rid q)) \<or>
      (r \<in> dom (rm_table s) \<and> rid_less rid r \<and> scan_at P s1 r \<and>
        (\<forall>q. q \<in> dom (rm_table s) \<and> rid_less rid q \<longrightarrow> q = r \<or> rid_less r q))"
      using scan_next_spec[OF Suc.prems(1) a d] by blast
    let ?B = "A - {rid}"
    have fin: "finite A" using A dom_table_finite finite_subset by fastforce
    have "rid \<in> A" using d A by simp
    then have cb: "card ?B < fuel" using Suc.prems(3) card_Diff1_less[OF fin] by fastforce
    have "RmScan_is_end r \<and> pins (rs_bpm s1) = P \<and> ?B = {} \<or> r \<in> dom (rm_table s1) \<and> scan_at P s1 r \<and>
     ?B = {q \<in> dom (rm_table s1). q = r \<or> rid_less r q}"
      using c
    proof (elim disjE conjE)
      assume "RmScan_is_end r" "pins (rs_bpm s1) = P" "\<forall>q. q \<in> dom (rm_table s) \<longrightarrow> \<not> rid_less rid q"
      then show ?thesis using A by blast
    next
      assume r: "r \<in> dom (rm_table s)" "rid_less rid r" "scan_at P s1 r" "\<forall>q. q \<in> dom (rm_table s) \<and> rid_less rid q \<longrightarrow> q = r \<or> rid_less r q"
      then have "?B = {q \<in> dom (rm_table s). q = r \<or> rid_less r q}" using A rid_less_asym by blast
      with r n(3) show ?thesis by simp
    qed
    from Suc.IH[OF n(2) this cb] obtain rs s2 where rs: "rm_scan_loop fuel r s1 = (Inr (Some rs), s2)" "rm_inv s2"
      "rm_table s2 = rm_table s" "pins (rs_bpm s2) = P" "set rs = ?B" "sorted_wrt rid_less rs" using n(3) by auto
    have "sorted_wrt rid_less (rid # rs)" using rs(5,6) A by auto
    moreover have "set (rid # rs) = A" using rs(5) A d by auto
    ultimately show ?thesis
      using False n(1) rs by (intro exI[of _ "rid # rs"] exI[of _ s2]) (simp add: em_bind_def em_return_def)
  qed
qed

section \<open>Placing a record at a given slot\<close>

lemma insert_at_step:
  assumes b: "rm_base s" and r: "bp_roomy (rs_bpm s)" and p: "rm_page_no s (rid_page_no rid)"
    and d: "rm_page s (rid_page_no rid) = Some d" "page_wf (rs_hdr s) d"
    and v: "valid_slot (rs_hdr s) (rid_slot_no rid)" "rid_slot_no rid \<notin> page_slots (rs_hdr s) d"
    and l: "int (length buf) = record_size (rs_hdr s)"
  obtains s2 where "insert_record_at rid buf s = (Inr (), s2)" "rm_base s2" "bp_roomy (rs_bpm s2)" "rs_hdr s2 = rs_hdr s"
    "rm_page s2 (rid_page_no rid) = Some (fill_slot (rs_hdr s) (rid_slot_no rid) buf d)"
    "\<forall>q x. rm_page_no s q \<and> q \<noteq> rid_page_no rid \<and> rm_page s q = Some x \<longrightarrow> rm_page s2 q = Some x"
    "rs_fd s2 = rs_fd s" "pins (rs_bpm s2) = pins (rs_bpm s)"
proof -
  let ?p = "rid_page_no rid" let ?g = "fill_slot (rs_hdr s) (rid_slot_no rid) buf"
  have h: "hdr_ok (rs_hdr s)" using b by (simp add: rm_base_def)
  note fe = fill_slot_effects[OF h d(2) v(1) l v(2)]
  obtain f b1 where f: "fetch_page_handle ?p s = (Inr f, s\<lparr>rs_bpm := b1\<rparr>)"
    "held_since (rs_bpm s) b1 (rm_pid s ?p) f" "pg_data (bp_frame b1 f) = d" "kept_but {} (rs_bpm s) b1" "rm_base (s\<lparr>rs_bpm := b1\<rparr>)"
    by (rule fetch_handle_ok[OF b r p d(1)])
  define s1 where "s1 = s\<lparr>rs_bpm := b1\<rparr>"
  have s1: "rs_hdr s1 = rs_hdr s" "rm_data f s1 = d" "rs_fd s1 = rs_fd s" "rs_bpm s1 = b1" "rm_page_no s1 = rm_page_no s"
    using f(3) by (simp_all add: s1_def rm_data_def rm_page_no_def fun_eq_iff)
  have hs: "held_since (rs_bpm s) (rs_bpm s1) (rm_pid s1 ?p) f" using f(2) by (simp add: s1_def)
  have len: "length (?g (rm_data f s1)) = PAGE_SIZE" using fe(1) s1 by (simp add: page_wf_def)
  obtain s2 where s2: "em_then (rm_put f ?g) (rm_unpin ?p True) s1 = (Inr (), s2)" "page_step ?p (?g (rm_data f s1)) s1 s2"
    "bp_roomy (rs_bpm s2)" "pins (rs_bpm s2) = pins (rs_bpm s)" "rs_hdr s2 = rs_hdr s1"
    using put_unpin[where g = ?g, OF f(5)[folded s1_def] hs len] by metis
  have "rm_page s1 q = Some x" if "rm_page s q = Some x" for q x
    using that f(4) by (simp add: rm_page_def kept_but_def s1)
  then have "\<forall>q x. rm_page_no s q \<and> q \<noteq> ?p \<and> rm_page s q = Some x \<longrightarrow> rm_page s2 q = Some x"
    using s2(2) unfolding page_step_def s1(5) by blast
  moreover have "insert_record_at rid buf s = (Inr (), s2)"
    using f(1) s2(1) slot_range(4)[OF h v(1)] by (simp add: insert_record_at_def em_bind_def s1_def)
  ultimately show ?thesis using s2 s1 by (intro that[of s2]) (simp_all add: page_step_def)
qed

text \<open>Putting a record back keeps the free list right as long as its page does not become full.\<close>

lemma insert_at_ok:
  assumes i: "rm_inv s" and r: "bp_roomy (rs_bpm s)" and p: "rm_page_no s (rid_page_no rid)"
    and d: "rm_page s (rid_page_no rid) = Some d" and v: "valid_slot (rs_hdr s) (rid_slot_no rid)"
    and t: "rm_table s rid = None" and l: "int (length buf) = record_size (rs_hdr s)"
    and room: "page_num_records d + 1 < num_records_per_page (rs_hdr s)"
  shows "\<exists>s'. insert_record_at rid buf s = (Inr (), s') \<and> rm_inv s' \<and> bp_roomy (rs_bpm s') \<and>
     rm_table s' = (rm_table s)(rid \<mapsto> buf) \<and> rs_hdr s' = rs_hdr s"
proof -
  let ?p = "rid_page_no rid" let ?i = "rid_slot_no rid" let ?d = "fill_slot (rs_hdr s) (rid_slot_no rid) buf d"
  have w: "page_wf (rs_hdr s) d" using rm_invD(4)[OF i p] d by auto
  have new: "?i \<notin> page_slots (rs_hdr s) d" using t p d by (auto simp: rm_table_def page_recs_def split: if_splits)
  note fe = fill_slot_effects[OF rm_invD(2)[OF i] w v l new]
  obtain s2 where s2: "insert_record_at rid buf s = (Inr (), s2)" "rm_base s2" "bp_roomy (rs_bpm s2)" "rs_hdr s2 = rs_hdr s"
      "rm_page s2 ?p = Some ?d" "\<forall>q x. rm_page_no s q \<and> q \<noteq> ?p \<and> rm_page s q = Some x \<longrightarrow> rm_page s2 q = Some x"
      "rs_fd s2 = rs_fd s"
    using insert_at_step[OF rm_invD(1)[OF i] r p d w v new l] by metis
  have st: "page_step ?p ?d s s2" using s2 by (simp add: page_step_def)
  note pf = page_step_facts[OF i st p fe(1)]
  have "has_room s2 ?p = has_room s ?p" using pf(4) fe(5) room p d by (simp add: has_room_def)
  then have "rm_inv s2" using fe(4) s2(4) by (intro free_list_step[OF i st p d fe(1)]) simp
  moreover have "rm_table s2 = (rm_table s)(rid \<mapsto> buf)" using pf(5)[of d ?i "Some buf"] fe(3) d by (simp add: rid_eta)
  ultimately show ?thesis using s2 by blast
qed

text \<open>Probing a full page for a free slot returns the slot count itself.\<close>

lemma first_bit_full:
  assumes "hdr_ok h" and "page_wf h d" and "page_num_records d = num_records_per_page h"
  shows "first_bit False (page_bitmap d) (num_records_per_page h) = num_records_per_page h"
proof -
  let ?n = "num_records_per_page h"
  define k where "k = next_bit_loop False (page_bitmap d) ?n 0"
  note sp = next_bit_loop_spec[where b = False and bm = "page_bitmap d" and max_n = ?n and i = 0, folded k_def]
  have n: "0 < ?n" using layout_bounds[OF assms(1)] by simp
  have eq: "page_slots h d = {0..<?n}" using assms card_page_slots(2)[OF assms(1), of d] by (simp add: page_wf_def)
  have "is_set (page_bitmap d) j" if "0 \<le> j" "j < ?n" for j
  proof -
    have "j \<in> page_slots h d" using that eq by simp
    then show ?thesis by (simp add: page_slots_def)
  qed
  then have "\<not> k < ?n" using sp(1,4) n by auto
  then have "k = ?n" using sp(2) n by simp
  then show ?thesis by (simp add: first_bit_def next_bit_def k_def)
qed

lemma insert_full_undefined:
  assumes b: "rm_base s" and r: "bp_roomy (rs_bpm s)" and p: "rm_page_no s p" "first_free_page_no (rs_hdr s) = p"
    and d: "rm_page s p = Some d" "page_wf (rs_hdr s) d" "page_num_records d = num_records_per_page (rs_hdr s)"
    and o: "\<not> slot_in_page (rs_hdr s) (num_records_per_page (rs_hdr s))" and lk: "\<And>rid. lk rid = Inr ()"
  shows "fst (insert_record lk buf s) = Inl UndefinedBehaviour"
proof -
  have h: "hdr_ok (rs_hdr s)" using b by (simp add: rm_base_def)
  obtain f b1 where f: "fetch_page_handle p s = (Inr f, s\<lparr>rs_bpm := b1\<rparr>)" "pg_data (bp_frame b1 f) = d"
    using fetch_handle_ok[OF b r p(1) d(1)] by metis
  have "p \<noteq> -1" using p(1) by (simp add: rm_page_no_def)
  then show ?thesis
    using f p(2) o first_bit_full[OF h d(2,3)]
    by (simp add: insert_record_def create_page_handle_def em_defs rm_lock_def lk rm_data_def Let_def)
qed

section \<open>The record interface of the upper layers\<close>

text \<open>What executors, rollback and index building rely on: a file is a map from record ids to records.\<close>

locale record_store =
  fixes invar :: "'s \<Rightarrow> bool" and table :: "'s \<Rightarrow> Rid \<Rightarrow> byte list option" and width :: "'s \<Rightarrow> int"
    and extensible :: "'s \<Rightarrow> bool" and ins :: "byte list \<Rightarrow> ('s, Rid) em" and del :: "Rid \<Rightarrow> ('s, unit) em"
    and upd :: "Rid \<Rightarrow> byte list \<Rightarrow> ('s, unit) em" and get :: "Rid \<Rightarrow> ('s, byte list) em"
  assumes ins_law: "invar s \<Longrightarrow> extensible s \<Longrightarrow> int (length x) = width s \<Longrightarrow>
      \<exists>rid s'. ins x s = (Inr rid, s') \<and> invar s' \<and> table s rid = None \<and> table s' = (table s)(rid \<mapsto> x) \<and> width s' = width s"
    and del_law: "invar s \<Longrightarrow> table s rid = Some x \<Longrightarrow>
      \<exists>s'. del rid s = (Inr (), s') \<and> invar s' \<and> table s' = (table s)(rid := None) \<and> width s' = width s"
    and upd_law: "invar s \<Longrightarrow> table s rid = Some x \<Longrightarrow> int (length y) = width s \<Longrightarrow>
      \<exists>s'. upd rid y s = (Inr (), s') \<and> invar s' \<and> table s' = (table s)(rid \<mapsto> y) \<and> width s' = width s"
    and get_law: "invar s \<Longrightarrow> table s rid = Some x \<Longrightarrow>
      \<exists>s'. get rid s = (Inr x, s') \<and> invar s' \<and> table s' = table s \<and> width s' = width s"
begin

text \<open>Undoing an insert by a delete, and an update by writing the old record, restores the table.\<close>

lemma ins_del:
  assumes "invar s" and "extensible s" and "int (length x) = width s"
  shows "\<exists>rid s1 s2. ins x s = (Inr rid, s1) \<and> del rid s1 = (Inr (), s2) \<and> invar s2 \<and> table s2 = table s"
proof -
  obtain rid s1 where i: "ins x s = (Inr rid, s1)" "invar s1" "table s rid = None" "table s1 = (table s)(rid \<mapsto> x)"
    using ins_law[OF assms] by blast
  obtain s2 where "del rid s1 = (Inr (), s2)" "invar s2" "table s2 = (table s1)(rid := None)"
    using del_law[OF i(2), of rid x] i(4) by auto
  with i show ?thesis by (intro exI[of _ rid] exI[of _ s1] exI[of _ s2]) (simp add: fun_upd_idem)
qed

lemma upd_upd:
  assumes "invar s" and "table s rid = Some x" and "int (length y) = width s" and "int (length x) = width s"
  shows "\<exists>s1 s2. upd rid y s = (Inr (), s1) \<and> upd rid x s1 = (Inr (), s2) \<and> invar s2 \<and> table s2 = table s"
proof -
  obtain s1 where u: "upd rid y s = (Inr (), s1)" "invar s1" "table s1 = (table s)(rid \<mapsto> y)" "width s1 = width s"
    using upd_law[OF assms(1-3)] by blast
  obtain s2 where "upd rid x s1 = (Inr (), s2)" "invar s2" "table s2 = (table s1)(rid \<mapsto> x)"
    using upd_law[OF u(2), of rid y x] u assms(4) by auto
  with u assms(2) show ?thesis by (intro exI[of _ s1] exI[of _ s2]) (simp add: fun_upd_idem)
qed

text \<open>What was inserted can be read, also after a further insert.\<close>

lemma ins_get:
  assumes "invar s" and "extensible s" and "int (length x) = width s"
  shows "\<exists>rid s1. ins x s = (Inr rid, s1) \<and>
     (\<exists>s2. get rid s1 = (Inr x, s2)) \<and>
     (\<forall>y. extensible s1 \<and> int (length y) = width s \<longrightarrow>
        (\<exists>rid' s2 s3. ins y s1 = (Inr rid', s2) \<and> rid' \<noteq> rid \<and> get rid s2 = (Inr x, s3)))"
proof -
  obtain rid s1 where i: "ins x s = (Inr rid, s1)" "invar s1" "table s1 = (table s)(rid \<mapsto> x)" "width s1 = width s"
    using ins_law[OF assms] by blast
  have "\<exists>s2. get rid s1 = (Inr x, s2)" using get_law[OF i(2), of rid x] i(3) by auto
  moreover have "\<exists>rid' s2 s3. ins y s1 = (Inr rid', s2) \<and> rid' \<noteq> rid \<and> get rid s2 = (Inr x, s3)"
    if y: "extensible s1" "int (length y) = width s" for y
  proof -
    obtain rid' s2 where j: "ins y s1 = (Inr rid', s2)" "invar s2" "table s1 rid' = None" "table s2 = (table s1)(rid' \<mapsto> y)"
      using ins_law[OF i(2) y(1)] y(2) i(4) by metis
    have "rid' \<noteq> rid" using j(3) i(3) by auto
    then have "table s2 rid = Some x" using j(4) i(3) by simp
    with get_law[OF j(2)] j(1) \<open>rid' \<noteq> rid\<close> show ?thesis by blast
  qed
  ultimately show ?thesis using i(1) by blast
qed

end

definition no_lock :: rec_lock where
  "no_lock rid = Inr ()"

definition rm_ready :: "RmState \<Rightarrow> bool" where
  "rm_ready s \<longleftrightarrow> rm_inv s \<and> bp_roomy (rs_bpm s)"

definition rm_extensible :: "RmState \<Rightarrow> bool" where
  "rm_extensible s \<longleftrightarrow> page_addressable (num_pages (rs_hdr s))"

interpretation rmf: record_store rm_ready rm_table "\<lambda>s. record_size (rs_hdr s)" rm_extensible
    "insert_record no_lock" "delete_record no_lock" "update_record no_lock" "get_record no_lock"
proof
  fix s and x :: "byte list" assume a: "rm_ready s" "rm_extensible s" "int (length x) = record_size (rs_hdr s)"
  then show "\<exists>rid s'. insert_record no_lock x s = (Inr rid, s') \<and> rm_ready s' \<and> rm_table s rid = None \<and>
      rm_table s' = (rm_table s)(rid \<mapsto> x) \<and> record_size (rs_hdr s') = record_size (rs_hdr s)"
    using insert_record_ok[of s x no_lock] by (fastforce simp: rm_ready_def rm_extensible_def no_lock_def)
next
  fix s rid x assume a: "rm_ready s" "rm_table s rid = Some x"
  then show "\<exists>s'. delete_record no_lock rid s = (Inr (), s') \<and> rm_ready s' \<and> rm_table s' = (rm_table s)(rid := None) \<and>
      record_size (rs_hdr s') = record_size (rs_hdr s)"
    using delete_record_ok[of s rid x no_lock] by (fastforce simp: rm_ready_def no_lock_def)
next
  fix s rid x and y :: "byte list" assume a: "rm_ready s" "rm_table s rid = Some x" "int (length y) = record_size (rs_hdr s)"
  then show "\<exists>s'. update_record no_lock rid y s = (Inr (), s') \<and> rm_ready s' \<and> rm_table s' = (rm_table s)(rid \<mapsto> y) \<and>
      record_size (rs_hdr s') = record_size (rs_hdr s)"
    using update_record_ok[of s rid x no_lock y] by (fastforce simp: rm_ready_def no_lock_def)
next
  fix s rid x assume a: "rm_ready s" "rm_table s rid = Some x"
  then show "\<exists>s'. get_record no_lock rid s = (Inr x, s') \<and> rm_ready s' \<and> rm_table s' = rm_table s \<and>
      record_size (rs_hdr s') = record_size (rs_hdr s)"
    using get_record_ok[of s rid x no_lock] by (fastforce simp: rm_ready_def no_lock_def)
qed

section \<open>Properties of table files\<close>

text \<open>C15: The layout that \<^verbatim>\<open>RmManager::create_file\<close> computes fits: for every record size it accepts, all
  slots lie inside the page, behind the page header and a bitmap with a bit for every slot, and no two
  slots overlap.\<close>

theorem rm_layout_fits:
  assumes "1 \<le> sz" and "sz \<le> RM_MAX_RECORD_SIZE" and "valid_slot (rm_layout sz) i"
  shows "slot_in_page (rm_layout sz) i \<and> int bitmap_off + bitmap_size (rm_layout sz) \<le> slot_off (rm_layout sz) i \<and>
     num_records_per_page (rm_layout sz) \<le> BITMAP_WIDTH * bitmap_size (rm_layout sz) \<and>
     (\<forall>j. valid_slot (rm_layout sz) j \<and> j \<noteq> i \<longrightarrow>
        slot_off (rm_layout sz) i + sz \<le> slot_off (rm_layout sz) j \<or> slot_off (rm_layout sz) j + sz \<le> slot_off (rm_layout sz) i)"
proof -
  have rs: "record_size (rm_layout sz) = sz" by (simp add: rm_layout_def Let_def)
  have h: "hdr_ok (rm_layout sz)" using assms by (simp add: hdr_ok_def rs)
  note lb = layout_bounds[OF h] note r = slot_range[OF h assms(3)]
  have "slot_off (rm_layout sz) i + sz \<le> slot_off (rm_layout sz) j \<or> slot_off (rm_layout sz) j + sz \<le> slot_off (rm_layout sz) i"
    if "valid_slot (rm_layout sz) j" "j \<noteq> i" for j
    using slots_disjoint[OF h assms(3) that(1)] that(2) r(1) slot_range(1)[OF h that(1)] lb(1) rs by linarith
  moreover have "int bitmap_off + bitmap_size (rm_layout sz) \<le> slot_off (rm_layout sz) i"
    using r(1,2) lb(4) by (simp add: page_off_defs)
  ultimately show ?thesis using r(4) lb(5) by (simp add: BITMAP_WIDTH_def)
qed

theorem rm_layout_fits_witness:
  "slot_in_page (rm_layout 512) 6 \<and> int bitmap_off + bitmap_size (rm_layout 512) \<le> slot_off (rm_layout 512) 6"
  using rm_layout_fits[of 512 6] by (simp add: RM_MAX_RECORD_SIZE_def valid_slot_def rm_layout_def BITMAP_WIDTH_def PAGE_SIZE_def
      sizeof_RmFileHdr_def cdiv_def)

text \<open>C1: \<^verbatim>\<open>insert_record\<close> on a consistent file returns a record id that was free, after which the file
  holds exactly the old records and the new one, also when it had to open a new page or the page
  became full (free list and header are updated accordingly), and no page stays pinned.\<close>

theorem insert_record_refines:
  assumes "rm_ready s" and "rm_extensible s" and "int (length buf) = record_size (rs_hdr s)" and "\<forall>rid. lk rid = Inr ()"
  shows "\<exists>rid s'. insert_record lk buf s = (Inr rid, s') \<and> rm_ready s' \<and> rm_table s rid = None \<and>
     rm_table s' = (rm_table s)(rid \<mapsto> buf) \<and> pins (rs_bpm s') = pins (rs_bpm s)"
  using insert_record_ok[of s buf lk] assms by (fastforce simp: rm_ready_def rm_extensible_def)

text \<open>An open empty table file with records of \<open>sz\<close> bytes, over a pool of two frames.\<close>

definition witness_rm :: "int \<Rightarrow> RmState" where
  "witness_rm sz = \<lparr>rs_fd = 3, rs_hdr = rm_layout sz, rs_bpm = new_BufferPoolManager 2 (\<lambda>_. 0) (set_fd2pageno 3 1 witness_disk)\<rparr>"

lemma witness_rm_ready:
  assumes "1 \<le> sz" and "sz \<le> 512"
  shows "rm_ready (witness_rm sz)" "rm_extensible (witness_rm sz)" "record_size (rs_hdr (witness_rm sz)) = sz"
    "rm_table (witness_rm sz) = Map.empty"
proof -
  let ?s = "witness_rm sz"
  have l: "rs_hdr ?s = rm_layout sz" "record_size (rm_layout sz) = sz" "num_pages (rm_layout sz) = 1" "first_free_page_no (rm_layout sz) = -1"
    by (simp_all add: witness_rm_def rm_layout_def Let_def RM_NO_PAGE_def)
  have h: "hdr_ok (rm_layout sz)" using assms by (simp add: hdr_ok_def l RM_MAX_RECORD_SIZE_def)
  have "disk_inv (set_fd2pageno 3 1 witness_disk)" "fd_path (set_fd2pageno 3 1 witness_disk) 3 \<noteq> None"
    using witness_disk_facts by (auto simp: set_fd2pageno_def fd_path_def)
  then have "rm_base ?s"
    using bp_inv_new h l by (simp add: rm_base_def witness_rm_def new_BufferPoolManager_def set_fd2pageno_def MAX_FD_def page_addressable_def INT_MAX_def)
  moreover have np: "\<not> rm_page_no ?s p" for p by (simp add: rm_page_no_def l)
  then have "rm_pages ?s" "rm_free ?s" by (simp_all add: rm_pages_def rm_free_def has_room_def l exI[of _ "[]"])
  moreover have "bp_roomy (rs_bpm ?s)" by (simp add: bp_roomy_def witness_rm_def new_BufferPoolManager_def)
  ultimately show "rm_ready ?s" by (simp add: rm_ready_def rm_inv_def)
  show "rm_extensible ?s" by (simp add: rm_extensible_def l page_addressable_def PAGE_SIZE_def INT_MAX_def)
  show "record_size (rs_hdr ?s) = sz" by (simp add: l)
  show "rm_table ?s = Map.empty" using np by (simp add: rm_table_def fun_eq_iff)
qed

theorem insert_record_refines_witness:
  "\<exists>rid s'. insert_record (\<lambda>_. Inr ()) [1, 2, 3, 4] (witness_rm 4) = (Inr rid, s') \<and> rm_ready s' \<and>
     rm_table s' = [rid \<mapsto> [1, 2, 3, 4]]"
  using insert_record_refines[of "witness_rm 4" "[1, 2, 3, 4]" "\<lambda>_. Inr ()"] witness_rm_ready[of 4] by auto

text \<open>C2: \<^verbatim>\<open>delete_record\<close> of an existing record removes exactly that record, keeps every other one, and
  leaves the file consistent (a page that was full returns to the free list).\<close>

theorem delete_record_refines:
  assumes "rm_ready s" and "rm_table s rid = Some x" and "lk rid = Inr ()"
  shows "\<exists>s'. delete_record lk rid s = (Inr (), s') \<and> rm_ready s' \<and> rm_table s' = (rm_table s)(rid := None) \<and>
     pins (rs_bpm s') = pins (rs_bpm s)"
  using delete_record_ok[of s rid x lk] assms by (fastforce simp: rm_ready_def)

lemma witness_inserted: "\<exists>rid s. rm_ready s \<and> rm_table s = [rid \<mapsto> [1, 2, 3, 4]] \<and> record_size (rs_hdr s) = 4"
  using rmf.ins_law[of "witness_rm 4" "[1, 2, 3, 4]"] witness_rm_ready[of 4] by auto

theorem delete_record_refines_witness:
  "\<exists>rid s s'. rm_table s = [rid \<mapsto> [1, 2, 3, 4]] \<and> delete_record (\<lambda>_. Inr ()) rid s = (Inr (), s') \<and> rm_table s' = Map.empty"
proof -
  obtain rid s where "rm_ready s" "rm_table s = [rid \<mapsto> [1, 2, 3, 4]]" using witness_inserted by blast
  with delete_record_refines[of s rid "[1, 2, 3, 4]" "\<lambda>_. Inr ()"] show ?thesis by auto
qed

text \<open>C11: \<^verbatim>\<open>update_record\<close> of an existing record replaces exactly that record, and \<^verbatim>\<open>get_record\<close> then
  returns the new bytes (a round trip through the page), leaving the table unchanged.\<close>

theorem update_get_record:
  assumes "rm_ready s" and "rm_table s rid = Some x" and "lk rid = Inr ()" and "int (length y) = record_size (rs_hdr s)"
  shows "\<exists>s1 s2. update_record lk rid y s = (Inr (), s1) \<and> rm_table s1 = (rm_table s)(rid \<mapsto> y) \<and>
     get_record lk rid s1 = (Inr y, s2) \<and> rm_ready s2 \<and> rm_table s2 = rm_table s1"
proof -
  obtain s1 where u: "update_record lk rid y s = (Inr (), s1)" "rm_inv s1" "bp_roomy (rs_bpm s1)" "rm_table s1 = (rm_table s)(rid \<mapsto> y)"
    using update_record_ok[of s rid x lk y] assms by (auto simp: rm_ready_def)
  with get_record_ok[OF u(2,3), of rid y lk] assms(3) show ?thesis by (auto simp: rm_ready_def)
qed

theorem update_get_record_witness:
  "\<exists>rid s s1 s2. update_record (\<lambda>_. Inr ()) rid [9, 9, 9, 9] s = (Inr (), s1) \<and> get_record (\<lambda>_. Inr ()) rid s1 = (Inr [9, 9, 9, 9], s2)"
proof -
  obtain rid s where "rm_ready s" "rm_table s = [rid \<mapsto> [1, 2, 3, 4]]" "record_size (rs_hdr s) = 4" using witness_inserted by blast
  with update_get_record[of s rid "[1, 2, 3, 4]" "\<lambda>_. Inr ()" "[9, 9, 9, 9]"] show ?thesis by auto
qed

text \<open>C10: A scan visits exactly the records of the file, each once and in record-id order, ends after at
  most one round per record, and releases every page it pinned.\<close>

theorem rm_scan_complete:
  assumes "rm_ready s" and "card (dom (rm_table s)) < fuel"
  shows "\<exists>rids s'. rm_scan_all fuel s = (Inr (Some rids), s') \<and> set rids = dom (rm_table s) \<and> sorted_wrt rid_less rids \<and>
     rm_table s' = rm_table s \<and> pins (rs_bpm s') = pins (rs_bpm s)"
proof -
  have i: "rm_inv s" and r: "bp_roomy (rs_bpm s)" using assms(1) by (simp_all add: rm_ready_def)
  have st: "-1 < num_records_per_page (rs_hdr s)" using layout_bounds[OF rm_invD(2)[OF i]] by simp
  obtain rid s1 where n: "RmScan_new s = (Inr rid, s1)" "rm_inv s1" "rm_table s1 = rm_table s"
    and c: "(RmScan_is_end rid \<and> bp_roomy (rs_bpm s1) \<and> pins (rs_bpm s1) = pins (rs_bpm s) \<and>
        (\<forall>r. r \<in> dom (rm_table s) \<longrightarrow> \<not> rid_after 1 (-1) r)) \<or>
      (rid \<in> dom (rm_table s) \<and> rid_after 1 (-1) rid \<and> scan_at (pins (rs_bpm s)) s1 rid \<and>
        (\<forall>r. r \<in> dom (rm_table s) \<and> rid_after 1 (-1) r \<longrightarrow> r = rid \<or> rid_less rid r))"
    using scan_pages_spec[OF i r refl _ _ st, of 1 "-1"] by (auto simp: RmScan_new_def RM_FIRST_RECORD_PAGE_def)
  have af: "rid_after 1 (-1) r" if "r \<in> dom (rm_table s)" for r
    using dom_not_end[OF that] by (auto simp: rid_after_def)
  have "RmScan_is_end rid \<and> pins (rs_bpm s1) = pins (rs_bpm s) \<and> dom (rm_table s) = {} \<or>
     rid \<in> dom (rm_table s1) \<and> scan_at (pins (rs_bpm s)) s1 rid \<and> dom (rm_table s) = {q \<in> dom (rm_table s1). q = rid \<or> rid_less rid q}"
    using c af unfolding n(3) by blast
  from scan_loop_spec[OF n(2) this assms(2)] n show ?thesis
    by (auto simp: rm_scan_all_def em_bind_def)
qed

theorem rm_scan_complete_witness:
  "\<exists>rid s s'. rm_scan_all 2 s = (Inr (Some [rid]), s') \<and> rm_table s = [rid \<mapsto> [1, 2, 3, 4]]"
proof -
  obtain rid s where s: "rm_ready s" "rm_table s = [rid \<mapsto> [1, 2, 3, 4]]" using witness_inserted by blast
  then have "dom (rm_table s) = {rid}" by simp
  with rm_scan_complete[of s 2] s obtain rids s' where r: "rm_scan_all 2 s = (Inr (Some rids), s')" "set rids = {rid}" "sorted_wrt rid_less rids"
    by auto
  then have "rids = [rid]" using rid_less_asym(2) by (cases rids rule: list.exhaust[case_names Nil Cons]; cases "tl rids") auto
  with r s show ?thesis by blast
qed

section \<open>Rollback of a delete in a full page\<close>

lemma page_slots_table:
  assumes "rm_page_no s p" and "rm_page s p = Some d"
  shows "page_slots (rs_hdr s) d = {i. rm_table s \<lparr>rid_page_no = p, rid_slot_no = i\<rparr> \<noteq> None}"
  using assms by (auto simp: rm_table_def page_recs_def split: if_splits)

lemma rid_at: "\<lparr>rid_page_no = rid_page_no rid, rid_slot_no = i\<rparr> = rid \<longleftrightarrow> i = rid_slot_no rid"
  by (cases rid) auto

text \<open>C16: Rolling back a delete can make the next insert write outside its page. When the deleted record's
  page was full, \<^verbatim>\<open>delete_record\<close> puts the page at the head of the free list; the rollback's
  \<^verbatim>\<open>insert_record(rid, buf)\<close> fills it again but leaves it there; the next \<^verbatim>\<open>insert_record\<close> takes the
  full page, finds no clear bit, and uses the slot number one past the last, which (where the page has
  no spare room, as for 512-byte records) lies outside the page.\<close>

theorem rollback_reinsert_overflow:
  assumes "rm_ready s" and "rm_table s rid = Some x" and "rm_page s (rid_page_no rid) = Some d"
    and "page_num_records d = num_records_per_page (rs_hdr s)" and "int (length x) = record_size (rs_hdr s)"
    and "\<not> slot_in_page (rs_hdr s) (num_records_per_page (rs_hdr s))"
  shows "\<exists>s1 s2. delete_record no_lock rid s = (Inr (), s1) \<and> insert_record_at rid x s1 = (Inr (), s2) \<and>
     rm_table s2 = rm_table s \<and> fst (insert_record no_lock buf s2) = Inl UndefinedBehaviour"
proof -
  let ?p = "rid_page_no rid" let ?i = "rid_slot_no rid"
  have i: "rm_inv s" and r: "bp_roomy (rs_bpm s)" using assms(1) by (simp_all add: rm_ready_def)
  have pn: "rm_page_no s ?p" "valid_slot (rs_hdr s) ?i" "?i \<in> page_slots (rs_hdr s) d"
    using rm_table_page[OF i assms(2)] assms(3) by auto
  obtain s1 where d1: "delete_record no_lock rid s = (Inr (), s1)" "rm_inv s1" "bp_roomy (rs_bpm s1)"
    "rm_table s1 = (rm_table s)(rid := None)" "record_size (rs_hdr s1) = record_size (rs_hdr s)" "num_pages (rs_hdr s1) = num_pages (rs_hdr s)"
    "first_free_page_no (rs_hdr s1) = ?p"
    using delete_record_ok[OF i r assms(2), of no_lock] assms(3,4) by (auto simp: no_lock_def)
  note lay = same_layout[OF rm_invD(2)[OF i] rm_invD(2)[OF d1(2)] d1(5)]
  have pn1: "rm_page_no s1 ?p" using pn(1) d1(6) by (simp add: rm_page_no_def)
  obtain e where e: "rm_page s1 ?p = Some e" "page_wf (rs_hdr s1) e" using rm_invD(4)[OF d1(2) pn1] by blast
  have sl: "page_slots (rs_hdr s1) e = page_slots (rs_hdr s) d - {?i}"
    unfolding page_slots_table[OF pn1 e(1)] page_slots_table[OF pn(1) assms(3)] d1(4)
    using rid_at[of rid] by auto
  have w: "page_wf (rs_hdr s) d" using rm_invD(4)[OF i pn(1)] assms(3) by auto
  have num: "page_num_records e + 1 = num_records_per_page (rs_hdr s)"
    using e(2) w assms(4) sl pn(3) finite_page_slots[of "rs_hdr s" d] card_Suc_Diff1[of "page_slots (rs_hdr s) d" ?i]
    by (simp add: page_wf_def)
  obtain s2 where s2: "insert_record_at rid x s1 = (Inr (), s2)" "rm_base s2" "bp_roomy (rs_bpm s2)" "rs_hdr s2 = rs_hdr s1"
    "rm_page s2 ?p = Some (fill_slot (rs_hdr s1) ?i x e)" "\<forall>q y. rm_page_no s1 q \<and> q \<noteq> ?p \<and> rm_page s1 q = Some y \<longrightarrow> rm_page s2 q = Some y"
    "rs_fd s2 = rs_fd s1"
    by (rule insert_at_step[OF rm_invD(1)[OF d1(2)] d1(3) pn1 e, of x])
      (use pn(2) lay sl assms(5) d1(5) in \<open>auto simp: valid_slot_def\<close>)
  have vs: "valid_slot (rs_hdr s1) ?i" "int (length x) = record_size (rs_hdr s1)" "?i \<notin> page_slots (rs_hdr s1) e"
    using pn(2) lay sl assms(5) d1(5) by (auto simp: valid_slot_def)
  note fe = fill_slot_effects[OF rm_invD(2)[OF d1(2)] e(2) vs]
  have "fst (insert_record no_lock buf s2) = Inl UndefinedBehaviour"
    by (rule insert_full_undefined[OF s2(2,3), of ?p])
      (use pn1 s2 d1(7) fe num lay assms(6) d1(5) in \<open>simp_all add: rm_page_no_def no_lock_def slot_in_page_def slot_off_def\<close>)
  moreover have "page_step ?p (fill_slot (rs_hdr s1) ?i x e) s1 s2" using s2 by (simp add: page_step_def)
  then have "rm_table s2 = (rm_table s1)(rid \<mapsto> x)"
    using page_step_facts(5)[OF d1(2) _ pn1 fe(1) fe(3) e(1)] by (simp add: rid_eta)
  then have "rm_table s2 = rm_table s" using d1(4) assms(2) by (simp add: fun_upd_idem)
  ultimately show ?thesis using d1(1) s2(1) by blast
qed

text \<open>A file with one record page: its records are those of the page.\<close>

lemma one_page_card:
  assumes i: "rm_inv s" and n: "num_pages (rs_hdr s) = 2" and d: "rm_page s 1 = Some d"
  shows "int (card (dom (rm_table s))) = page_num_records d"
proof -
  have pn: "rm_page_no s p \<longleftrightarrow> p = 1" for p using n by (auto simp: rm_page_no_def)
  have w: "page_wf (rs_hdr s) d" using rm_invD(4)[OF i, of 1] pn d by auto
  have "dom (rm_table s) = (\<lambda>k. \<lparr>rid_page_no = 1, rid_slot_no = k\<rparr>) ` page_slots (rs_hdr s) d"
  proof (rule set_eqI)
    fix r
    obtain a k where r: "r = \<lparr>rid_page_no = a, rid_slot_no = k\<rparr>" by (cases r) auto
    show "r \<in> dom (rm_table s) \<longleftrightarrow> r \<in> (\<lambda>k. \<lparr>rid_page_no = 1, rid_slot_no = k\<rparr>) ` page_slots (rs_hdr s) d"
      using d by (auto simp: r rm_table_def pn page_recs_def split: if_splits)
  qed
  then have "card (dom (rm_table s)) = card (page_slots (rs_hdr s) d)" by (simp add: card_image inj_on_def)
  with w show ?thesis by (simp add: page_wf_def)
qed

lemma layout_512: "num_records_per_page (rm_layout 512) = 7" "bitmap_size (rm_layout 512) = 1"
  by (simp_all add: rm_layout_def BITMAP_WIDTH_def PAGE_SIZE_def sizeof_RmFileHdr_def cdiv_def Let_def)

lemma witness_full:
  assumes "1 \<le> k" and "k \<le> 7"
  shows "\<exists>s. rm_ready s \<and> num_pages (rs_hdr s) = 2 \<and> record_size (rs_hdr s) = 512 \<and> card (dom (rm_table s)) = k \<and>
     ran (rm_table s) \<subseteq> {replicate 512 1}"
  using assms
proof (induction k)
  case (Suc k)
  let ?x = "replicate 512 1 :: byte list"
  obtain s where s: "rm_ready s" "rm_extensible s" "record_size (rs_hdr s) = 512" "card (dom (rm_table s)) = k"
    "ran (rm_table s) \<subseteq> {?x}" "num_pages (rs_hdr s) + (if first_free_page_no (rs_hdr s) = -1 then 1 else 0) = 2"
  proof (cases "k = 0")
    case True
    show ?thesis
      using witness_rm_ready[of 512] True by (intro that[of "witness_rm 512"]) (simp_all add: witness_rm_def rm_layout_def Let_def RM_NO_PAGE_def)
  next
    case False
    with Suc obtain s where s: "rm_ready s" "num_pages (rs_hdr s) = 2" "record_size (rs_hdr s) = 512" "card (dom (rm_table s)) = k"
      "ran (rm_table s) \<subseteq> {?x}" by auto
    have i: "rm_inv s" using s(1) by (simp add: rm_ready_def)
    have pn: "rm_page_no s 1" using s(2) by (simp add: rm_page_no_def)
    obtain d where d: "rm_page s 1 = Some d" using rm_invD(4)[OF i pn] by blast
    have "num_records_per_page (rs_hdr s) = 7" using rm_invD(2)[OF i] s(3) layout_512 by (simp add: hdr_ok_def)
    then have "has_room s 1" using one_page_card[OF i s(2) d] s(4) Suc.prems pn d by (simp add: has_room_def)
    then have "first_free_page_no (rs_hdr s) \<noteq> -1" using free_head(1)[OF i] by blast
    with s show ?thesis by (intro that[of s]) (simp_all add: rm_extensible_def page_addressable_def PAGE_SIZE_def INT_MAX_def)
  qed
  from s(1-3) obtain rid s' where t: "rm_ready s'" "rm_table s rid = None" "rm_table s' = (rm_table s)(rid \<mapsto> ?x)"
    "record_size (rs_hdr s') = 512" "num_pages (rs_hdr s') = 2"
    using insert_record_ok[of s ?x no_lock] s(6) by (fastforce simp: rm_ready_def rm_extensible_def no_lock_def)
  have "card (dom (rm_table s')) = Suc k" using t(2,3) s(4) dom_table_finite[of s] by (simp add: domIff)
  moreover have "ran (rm_table s') \<subseteq> {?x}" using s(5) t(2,3) by (simp add: ran_map_upd)
  ultimately show ?case using t by blast
qed simp

theorem rollback_reinsert_overflow_witness:
  "\<exists>s rid s1 s2. delete_record no_lock rid s = (Inr (), s1) \<and> insert_record_at rid (replicate 512 1) s1 = (Inr (), s2) \<and>
     rm_ready s \<and> rm_table s2 = rm_table s \<and> fst (insert_record no_lock [] s2) = Inl UndefinedBehaviour"
proof -
  obtain s where s: "rm_ready s" "num_pages (rs_hdr s) = 2" "record_size (rs_hdr s) = 512" "card (dom (rm_table s)) = 7"
    "ran (rm_table s) \<subseteq> {replicate 512 1}" using witness_full[of 7] by auto
  have i: "rm_inv s" using s(1) by (simp add: rm_ready_def)
  have lay: "num_records_per_page (rs_hdr s) = 7" "bitmap_size (rs_hdr s) = 1"
    using rm_invD(2)[OF i] s(3) layout_512 by (simp_all add: hdr_ok_def)
  have "dom (rm_table s) \<noteq> {}" using s(4) by auto
  then obtain rid x where r: "rm_table s rid = Some x" by blast
  then have x: "x = replicate 512 1" using s(5) by (auto dest: ranI)
  have p: "rid_page_no rid = 1" using r s(2) by (auto simp: rm_table_def rm_page_no_def split: if_splits)
  have "rm_page_no s 1" using s(2) by (simp add: rm_page_no_def)
  then obtain d where d: "rm_page s 1 = Some d" using rm_invD(4)[OF i] by blast
  have "\<not> slot_in_page (rs_hdr s) (num_records_per_page (rs_hdr s))"
    by (simp add: slot_in_page_def slot_off_def lay s(3) page_off_defs PAGE_SIZE_def)
  then have "\<exists>s1 s2. delete_record no_lock rid s = (Inr (), s1) \<and> insert_record_at rid x s1 = (Inr (), s2) \<and>
     rm_table s2 = rm_table s \<and> fst (insert_record no_lock [] s2) = Inl UndefinedBehaviour"
    using one_page_card[OF i s(2) d] s(3,4) lay p d x by (intro rollback_reinsert_overflow[OF s(1) r]) simp_all
  then show ?thesis using s(1) unfolding x by blast
qed

end
