(* ===== verification/LogManager.thy ===== *)
theory LogManager
  imports RmFile
begin

text \<open>
  \<^verbatim>\<open>recovery/log_defs.h\<close>, \<^verbatim>\<open>recovery/log_manager.h\<close> and \<^verbatim>\<open>recovery/log_manager.cpp\<close>: the log records with
  their byte format, the log buffer and the log manager. A record class is a constructor of
  \<open>LogRecord\<close> that carries the fields of the base class (\<open>LogHdr\<close>) and its own. Every \<^verbatim>\<open>memcpy\<close> into
  or out of a buffer is checked against the buffer's length: outside it the result is
  \<open>UndefinedBehaviour\<close>. The log manager's operations work on the pair of the log manager and the disk
  manager it writes to.
\<close>

section \<open>Constants\<close>

definition OFFSET_LOG_TYPE :: nat where "OFFSET_LOG_TYPE = 0"
definition LOG_OFFSET_LSN :: nat where "LOG_OFFSET_LSN = 4"
definition OFFSET_LOG_TOT_LEN :: nat where "OFFSET_LOG_TOT_LEN = LOG_OFFSET_LSN + 4"
definition OFFSET_LOG_TID :: nat where "OFFSET_LOG_TID = OFFSET_LOG_TOT_LEN + 4"
definition OFFSET_PREV_LSN :: nat where "OFFSET_PREV_LSN = OFFSET_LOG_TID + 4"
definition OFFSET_LOG_DATA :: nat where "OFFSET_LOG_DATA = OFFSET_PREV_LSN + 4"
definition LOG_HEADER_SIZE :: nat where "LOG_HEADER_SIZE = OFFSET_LOG_DATA"

lemmas log_offsets = OFFSET_LOG_TYPE_def LOG_OFFSET_LSN_def OFFSET_LOG_TOT_LEN_def OFFSET_LOG_TID_def
  OFFSET_PREV_LSN_def OFFSET_LOG_DATA_def LOG_HEADER_SIZE_def

datatype LogType = UPDATE | INSERT | DELETE | begin_log | commit_log | ABORT | INDEX_INSERT | INDEX_DELETE

fun LogType_val :: "LogType \<Rightarrow> int" where
  "LogType_val UPDATE = 0"
| "LogType_val INSERT = 1"
| "LogType_val DELETE = 2"
| "LogType_val begin_log = 3"
| "LogType_val commit_log = 4"
| "LogType_val ABORT = 5"
| "LogType_val INDEX_INSERT = 6"
| "LogType_val INDEX_DELETE = 7"

fun LogTypeStr :: "LogType \<Rightarrow> string" where
  "LogTypeStr UPDATE = ''UPDATE''"
| "LogTypeStr INSERT = ''INSERT''"
| "LogTypeStr DELETE = ''DELETE''"
| "LogTypeStr begin_log = ''BEGIN''"
| "LogTypeStr commit_log = ''COMMIT''"
| "LogTypeStr ABORT = ''ABORT''"
| "LogTypeStr INDEX_INSERT = ''INDEX_INSERT''"
| "LogTypeStr INDEX_DELETE = ''INDEX_DELETE''"

section \<open>Memory accesses\<close>

text \<open>\<^verbatim>\<open>memcpy(dest + off, src, n)\<close> into a buffer, and a read of \<open>n\<close> bytes at an offset.\<close>

definition memcpy_to :: "nat \<Rightarrow> byte list \<Rightarrow> byte list \<Rightarrow> byte list res" where
  "memcpy_to off src dest =
     (if off + length src \<le> length dest then Inr (put_bytes off src dest) else Inl UndefinedBehaviour)"

definition read_at :: "nat \<Rightarrow> int \<Rightarrow> byte list \<Rightarrow> byte list res" where
  "read_at off n src =
     (if 0 \<le> n \<and> off + nat n \<le> length src then Inr (get_bytes off (nat n) src) else Inl UndefinedBehaviour)"

text \<open>A run of \<^verbatim>\<open>memcpy(dest + offset, field, size); offset += size;\<close> statements.\<close>

fun copy_fields :: "nat \<Rightarrow> byte list list \<Rightarrow> byte list \<Rightarrow> byte list res" where
  "copy_fields off [] dest = Inr dest"
| "copy_fields off (f # fs) dest = rbind (memcpy_to off f dest) (copy_fields (off + length f) fs)"

text \<open>The bytes of a \<^verbatim>\<open>std::string\<close> with the terminating zero of \<^verbatim>\<open>c_str()\<close>, and the \<^verbatim>\<open>std::string\<close>
  that a zero-terminated buffer denotes.\<close>

definition str_bytes :: "string \<Rightarrow> byte list" where
  "str_bytes s = map (\<lambda>c. of_nat (of_char c)) s"

definition c_str :: "string \<Rightarrow> byte list" where
  "c_str s = str_bytes s @ [0]"

definition bytes_str :: "byte list \<Rightarrow> string" where
  "bytes_str bs = map (\<lambda>b. char_of (unat b)) bs"

definition string_at :: "byte list \<Rightarrow> string res" where
  "string_at bs = (if 0 \<in> set bs then Inr (bytes_str (takeWhile (\<lambda>b. b \<noteq> 0) bs)) else Inl UndefinedBehaviour)"

definition u32 :: "int \<Rightarrow> int" where
  "u32 x = x mod 2 ^ 32"

section \<open>Log records\<close>

text \<open>The fields of the base class \<^verbatim>\<open>LogRecord\<close>; \<^verbatim>\<open>log_type_\<close> is an enum over \<^verbatim>\<open>int\<close>.\<close>

record LogHdr =
  log_type :: int
  lsn :: lsn_t
  log_tot_len :: int
  log_tid :: txn_id_t
  prev_lsn :: lsn_t

text \<open>\<^verbatim>\<open>table_name_\<close> and \<^verbatim>\<open>ix_name_\<close> are owned buffers of \<^verbatim>\<open>..._size_\<close> bytes, kept as byte lists.\<close>

datatype LogRecord =
    BeginLogRecord LogHdr
  | CommitLogRecord LogHdr
  | AbortLogRecord LogHdr
  | InsertLogRecord LogHdr RmRecord Rid "byte list"
  | DeleteLogRecord LogHdr RmRecord Rid "byte list"
  | UpdateLogRecord LogHdr RmRecord RmRecord Rid "byte list"
  | IndexInsertLogRecord LogHdr "byte list" int Rid "byte list"
  | IndexDeleteLogRecord LogHdr "byte list" int Rid "byte list"

fun log_hdr :: "LogRecord \<Rightarrow> LogHdr" where
  "log_hdr (BeginLogRecord h) = h"
| "log_hdr (CommitLogRecord h) = h"
| "log_hdr (AbortLogRecord h) = h"
| "log_hdr (InsertLogRecord h v r t) = h"
| "log_hdr (DeleteLogRecord h v r t) = h"
| "log_hdr (UpdateLogRecord h v w r t) = h"
| "log_hdr (IndexInsertLogRecord h k n r t) = h"
| "log_hdr (IndexDeleteLogRecord h k n r t) = h"

fun map_hdr :: "(LogHdr \<Rightarrow> LogHdr) \<Rightarrow> LogRecord \<Rightarrow> LogRecord" where
  "map_hdr f (BeginLogRecord h) = BeginLogRecord (f h)"
| "map_hdr f (CommitLogRecord h) = CommitLogRecord (f h)"
| "map_hdr f (AbortLogRecord h) = AbortLogRecord (f h)"
| "map_hdr f (InsertLogRecord h v r t) = InsertLogRecord (f h) v r t"
| "map_hdr f (DeleteLogRecord h v r t) = DeleteLogRecord (f h) v r t"
| "map_hdr f (UpdateLogRecord h v w r t) = UpdateLogRecord (f h) v w r t"
| "map_hdr f (IndexInsertLogRecord h k n r t) = IndexInsertLogRecord (f h) k n r t"
| "map_hdr f (IndexDeleteLogRecord h k n r t) = IndexDeleteLogRecord (f h) k n r t"

text \<open>The default constructors set the same header for every class but for the type.\<close>

definition new_LogHdr :: "LogType \<Rightarrow> LogHdr" where
  "new_LogHdr t = \<lparr>log_type = LogType_val t, lsn = INVALID_LSN, log_tot_len = int LOG_HEADER_SIZE,
     log_tid = INVALID_TXN_ID, prev_lsn = INVALID_LSN\<rparr>"

definition data_LogHdr :: "LogType \<Rightarrow> txn_id_t \<Rightarrow> int \<Rightarrow> int \<Rightarrow> LogHdr" where
  "data_LogHdr t txn_id flds name_size = (new_LogHdr t)\<lparr>log_tid := txn_id,
     log_tot_len := u32 (u32 (log_tot_len (new_LogHdr t) + flds) + (8 + name_size))\<rparr>"

definition new_BeginLogRecord :: "txn_id_t \<Rightarrow> LogRecord" where
  "new_BeginLogRecord txn_id = BeginLogRecord ((new_LogHdr begin_log)\<lparr>log_tid := txn_id\<rparr>)"

definition new_CommitLogRecord :: "txn_id_t \<Rightarrow> LogRecord" where
  "new_CommitLogRecord txn_id = CommitLogRecord ((new_LogHdr commit_log)\<lparr>log_tid := txn_id\<rparr>)"

definition new_AbortLogRecord :: "txn_id_t \<Rightarrow> LogRecord" where
  "new_AbortLogRecord txn_id = AbortLogRecord ((new_LogHdr ABORT)\<lparr>log_tid := txn_id\<rparr>)"

definition new_InsertLogRecord :: "txn_id_t \<Rightarrow> RmRecord \<Rightarrow> Rid \<Rightarrow> string \<Rightarrow> LogRecord" where
  "new_InsertLogRecord txn_id insert_value rid table_name =
     InsertLogRecord (data_LogHdr INSERT txn_id (4 + rec_size insert_value + 8) (int (length table_name) + 1))
       insert_value rid (c_str table_name)"

definition new_DeleteLogRecord :: "txn_id_t \<Rightarrow> RmRecord \<Rightarrow> Rid \<Rightarrow> string \<Rightarrow> LogRecord" where
  "new_DeleteLogRecord txn_id delete_value rid table_name =
     DeleteLogRecord (data_LogHdr DELETE txn_id (4 + rec_size delete_value + 8) (int (length table_name) + 1))
       delete_value rid (c_str table_name)"

definition new_UpdateLogRecord :: "txn_id_t \<Rightarrow> RmRecord \<Rightarrow> Rid \<Rightarrow> string \<Rightarrow> RmRecord \<Rightarrow> LogRecord" where
  "new_UpdateLogRecord txn_id update_value rid table_name now_value =
     UpdateLogRecord
       (data_LogHdr UPDATE txn_id (4 + rec_size update_value + 4 + rec_size now_value + 8) (int (length table_name) + 1))
       update_value now_value rid (c_str table_name)"

definition new_IndexInsertLogRecord :: "txn_id_t \<Rightarrow> byte list \<Rightarrow> Rid \<Rightarrow> string \<Rightarrow> int \<Rightarrow> LogRecord" where
  "new_IndexInsertLogRecord txn_id key rid ix_name tot_len =
     IndexInsertLogRecord (data_LogHdr INDEX_INSERT txn_id (4 + tot_len + 8) (int (length ix_name) + 1))
       key tot_len rid (c_str ix_name)"

definition new_IndexDeleteLogRecord :: "txn_id_t \<Rightarrow> byte list \<Rightarrow> Rid \<Rightarrow> string \<Rightarrow> int \<Rightarrow> LogRecord" where
  "new_IndexDeleteLogRecord txn_id key rid ix_name tot_len =
     IndexDeleteLogRecord (data_LogHdr INDEX_DELETE txn_id (4 + tot_len + 8) (int (length ix_name) + 1))
       key tot_len rid (c_str ix_name)"

section \<open>Serialisation\<close>

definition enc_Rid :: "Rid \<Rightarrow> byte list" where
  "enc_Rid r = enc_int (rid_page_no r) @ enc_int (rid_slot_no r)"

text \<open>\<^verbatim>\<open>LogRecord::serialize\<close> and \<^verbatim>\<open>LogRecord::deserialize\<close> of the base class.\<close>

definition hdr_serialize :: "LogHdr \<Rightarrow> byte list \<Rightarrow> byte list res" where
  "hdr_serialize h dest =
     rbind (memcpy_to OFFSET_LOG_TYPE (enc_int (log_type h)) dest) (\<lambda>d.
     rbind (memcpy_to LOG_OFFSET_LSN (enc_int (lsn h)) d) (\<lambda>d.
     rbind (memcpy_to OFFSET_LOG_TOT_LEN (enc_int (log_tot_len h)) d) (\<lambda>d.
     rbind (memcpy_to OFFSET_LOG_TID (enc_int (log_tid h)) d) (\<lambda>d.
     memcpy_to OFFSET_PREV_LSN (enc_int (prev_lsn h)) d))))"

definition read_int :: "nat \<Rightarrow> byte list \<Rightarrow> int res" where
  "read_int off src = rbind (read_at off 4 src) (\<lambda>b. Inr (le_sint b))"

definition read_u32 :: "nat \<Rightarrow> byte list \<Rightarrow> int res" where
  "read_u32 off src = rbind (read_at off 4 src) (\<lambda>b. Inr (le_uint b))"

definition read_size :: "nat \<Rightarrow> byte list \<Rightarrow> int res" where
  "read_size off src = rbind (read_at off 8 src) (\<lambda>b. Inr (le_uint b))"

definition hdr_deserialize :: "byte list \<Rightarrow> LogHdr res" where
  "hdr_deserialize src =
     rbind (read_int OFFSET_LOG_TYPE src) (\<lambda>ty.
     rbind (read_int LOG_OFFSET_LSN src) (\<lambda>l.
     rbind (read_u32 OFFSET_LOG_TOT_LEN src) (\<lambda>n.
     rbind (read_int OFFSET_LOG_TID src) (\<lambda>tid.
     rbind (read_int OFFSET_PREV_LSN src) (\<lambda>p.
     Inr \<lparr>log_type = ty, lsn = l, log_tot_len = n, log_tid = tid, prev_lsn = p\<rparr>)))))"

text \<open>The bytes of a field pair \<^verbatim>\<open>size, data\<close>: \<^verbatim>\<open>memcpy\<close> reads exactly \<^verbatim>\<open>size\<close> bytes of the data.\<close>

definition sized :: "byte list \<Rightarrow> int \<Rightarrow> (byte list list) res" where
  "sized data n = rbind (read_at 0 n data) (\<lambda>b. Inr [enc_int n, b])"

definition name_fields :: "Rid \<Rightarrow> byte list \<Rightarrow> byte list list" where
  "name_fields r name = [enc_Rid r, le_bytes 8 (int (length name)), name]"

text \<open>The fields each class copies behind the header.\<close>

definition Insert_fields :: "RmRecord \<Rightarrow> Rid \<Rightarrow> byte list \<Rightarrow> (byte list list) res" where
  "Insert_fields insert_value rid table_name =
     rbind (sized (rec_data insert_value) (rec_size insert_value)) (\<lambda>f. Inr (f @ name_fields rid table_name))"

definition Delete_fields :: "RmRecord \<Rightarrow> Rid \<Rightarrow> byte list \<Rightarrow> (byte list list) res" where
  "Delete_fields delete_value rid table_name =
     rbind (sized (rec_data delete_value) (rec_size delete_value)) (\<lambda>f. Inr (f @ name_fields rid table_name))"

definition Update_fields :: "RmRecord \<Rightarrow> RmRecord \<Rightarrow> Rid \<Rightarrow> byte list \<Rightarrow> (byte list list) res" where
  "Update_fields update_value now_value rid table_name =
     rbind (sized (rec_data update_value) (rec_size update_value)) (\<lambda>f.
     rbind (sized (rec_data now_value) (rec_size now_value)) (\<lambda>g. Inr (f @ g @ name_fields rid table_name)))"

definition IndexInsert_fields :: "byte list \<Rightarrow> int \<Rightarrow> Rid \<Rightarrow> byte list \<Rightarrow> (byte list list) res" where
  "IndexInsert_fields key tot_len rid ix_name = rbind (sized key tot_len) (\<lambda>f. Inr (f @ name_fields rid ix_name))"

definition IndexDelete_fields :: "byte list \<Rightarrow> int \<Rightarrow> Rid \<Rightarrow> byte list \<Rightarrow> (byte list list) res" where
  "IndexDelete_fields key tot_len rid ix_name = rbind (sized key tot_len) (\<lambda>f. Inr (f @ name_fields rid ix_name))"

fun log_fields :: "LogRecord \<Rightarrow> (byte list list) res" where
  "log_fields (InsertLogRecord h v r t) = Insert_fields v r t"
| "log_fields (DeleteLogRecord h v r t) = Delete_fields v r t"
| "log_fields (UpdateLogRecord h v w r t) = Update_fields v w r t"
| "log_fields (IndexInsertLogRecord h k n r t) = IndexInsert_fields k n r t"
| "log_fields (IndexDeleteLogRecord h k n r t) = IndexDelete_fields k n r t"
| "log_fields _ = Inr []"

lemmas fields_defs = Insert_fields_def Delete_fields_def Update_fields_def IndexInsert_fields_def IndexDelete_fields_def

definition serialize :: "LogRecord \<Rightarrow> byte list \<Rightarrow> byte list res" where
  "serialize r dest =
     rbind (hdr_serialize (log_hdr r) dest) (\<lambda>d.
     rbind (log_fields r) (\<lambda>fs. copy_fields OFFSET_LOG_DATA fs d))"

section \<open>Deserialisation\<close>

definition read_Rid :: "nat \<Rightarrow> byte list \<Rightarrow> Rid res" where
  "read_Rid off src =
     rbind (read_int off src) (\<lambda>p. rbind (read_int (off + 4) src) (\<lambda>s. Inr \<lparr>rid_page_no = p, rid_slot_no = s\<rparr>))"

text \<open>\<^verbatim>\<open>RmRecord::Deserialize\<close> with its reads checked, and the same pair \<^verbatim>\<open>tot_len_, key_\<close> of the index records.\<close>

definition read_sized :: "nat \<Rightarrow> byte list \<Rightarrow> (byte list \<times> int) res" where
  "read_sized off src =
     rbind (read_int off src) (\<lambda>n. rbind (read_at (off + 4) n src) (\<lambda>d. Inr (d, n)))"

definition read_name :: "nat \<Rightarrow> byte list \<Rightarrow> (Rid \<times> byte list) res" where
  "read_name off src =
     rbind (read_Rid off src) (\<lambda>r.
     rbind (read_size (off + 8) src) (\<lambda>n.
     rbind (read_at (off + 16) n src) (\<lambda>t. Inr (r, t))))"

definition read_one :: "byte list \<Rightarrow> (LogHdr \<times> (byte list \<times> int) \<times> Rid \<times> byte list) res" where
  "read_one src =
     rbind (hdr_deserialize src) (\<lambda>h.
     rbind (read_sized OFFSET_LOG_DATA src) (\<lambda>(d, n).
     rbind (read_name (OFFSET_LOG_DATA + nat n + 4) src) (\<lambda>(r, t). Inr (h, (d, n), r, t))))"

definition Insert_deserialize :: "byte list \<Rightarrow> LogRecord res" where
  "Insert_deserialize src =
     rbind (read_one src) (\<lambda>(h, (d, n), r, t). Inr (InsertLogRecord h \<lparr>rec_data = d, rec_size = n\<rparr> r t))"

definition Delete_deserialize :: "byte list \<Rightarrow> LogRecord res" where
  "Delete_deserialize src =
     rbind (read_one src) (\<lambda>(h, (d, n), r, t). Inr (DeleteLogRecord h \<lparr>rec_data = d, rec_size = n\<rparr> r t))"

definition Update_deserialize :: "byte list \<Rightarrow> LogRecord res" where
  "Update_deserialize src =
     rbind (hdr_deserialize src) (\<lambda>h.
     rbind (read_sized OFFSET_LOG_DATA src) (\<lambda>(d, n).
     rbind (read_sized (OFFSET_LOG_DATA + nat n + 4) src) (\<lambda>(e, m).
     rbind (read_name (OFFSET_LOG_DATA + nat n + 4 + (nat m + 4)) src) (\<lambda>(r, t).
     Inr (UpdateLogRecord h \<lparr>rec_data = d, rec_size = n\<rparr> \<lparr>rec_data = e, rec_size = m\<rparr> r t)))))"

definition IndexInsert_deserialize :: "byte list \<Rightarrow> LogRecord res" where
  "IndexInsert_deserialize src =
     rbind (read_one src) (\<lambda>(h, (k, n), r, t). Inr (IndexInsertLogRecord h k n r t))"

definition IndexDelete_deserialize :: "byte list \<Rightarrow> LogRecord res" where
  "IndexDelete_deserialize src =
     rbind (read_one src) (\<lambda>(h, (k, n), r, t). Inr (IndexDeleteLogRecord h k n r t))"

fun deserialize :: "LogType \<Rightarrow> byte list \<Rightarrow> LogRecord res" where
  "deserialize begin_log src = rbind (hdr_deserialize src) (\<lambda>h. Inr (BeginLogRecord h))"
| "deserialize commit_log src = rbind (hdr_deserialize src) (\<lambda>h. Inr (CommitLogRecord h))"
| "deserialize ABORT src = rbind (hdr_deserialize src) (\<lambda>h. Inr (AbortLogRecord h))"
| "deserialize INSERT src = Insert_deserialize src"
| "deserialize DELETE src = Delete_deserialize src"
| "deserialize UPDATE src = Update_deserialize src"
| "deserialize INDEX_INSERT src = IndexInsert_deserialize src"
| "deserialize INDEX_DELETE src = IndexDelete_deserialize src"

lemmas deserialize_defs = Insert_deserialize_def Delete_deserialize_def IndexInsert_deserialize_def
  IndexDelete_deserialize_def

text \<open>\<^verbatim>\<open>format_print\<close>: what it prints; \<^verbatim>\<open>LogTypeStr\<close> has eight entries.\<close>

definition format_print :: "LogHdr \<Rightarrow> string res" where
  "format_print h =
     (if 0 \<le> log_type h \<and> log_type h < 8 then
        Inr (''log_type_: '' @ LogTypeStr ([UPDATE, INSERT, DELETE, begin_log, commit_log, ABORT, INDEX_INSERT,
               INDEX_DELETE] ! nat (log_type h)) @ [CHR 0x0A] @
             ''lsn: '' @ to_string (lsn h) @ [CHR 0x0A] @
             ''log_tot_len: '' @ to_string (c_int (log_tot_len h)) @ [CHR 0x0A] @
             ''log_tid: '' @ to_string (log_tid h) @ [CHR 0x0A] @
             ''prev_lsn: '' @ to_string (prev_lsn h) @ [CHR 0x0A])
      else Inl UndefinedBehaviour)"

section \<open>The log manager\<close>

record LogBuffer =
  buffer :: "byte list"
  offset :: int

definition new_LogBuffer :: LogBuffer where
  "new_LogBuffer = \<lparr>buffer = replicate (LOG_BUFFER_SIZE + 1) 0, offset = 0\<rparr>"

definition is_full :: "LogBuffer \<Rightarrow> int \<Rightarrow> bool" where
  "is_full b append_size \<longleftrightarrow> c_int (offset b + c_int append_size) > int LOG_BUFFER_SIZE"

record LogManager =
  global_lsn :: lsn_t
  log_buffer :: LogBuffer
  persist_lsn :: lsn_t

type_synonym log_state = "LogManager \<times> DiskManager"

definition new_LogManager :: LogManager where
  "new_LogManager = \<lparr>global_lsn = 0, log_buffer = new_LogBuffer, persist_lsn = INVALID_LSN\<rparr>"

definition set_next_lsn :: "lsn_t \<Rightarrow> LogManager \<Rightarrow> LogManager" where
  "set_next_lsn l m = m\<lparr>global_lsn := l\<rparr>"

definition get_next_lsn :: "LogManager \<Rightarrow> lsn_t" where
  "get_next_lsn m = global_lsn m"

definition flush_log_to_disk :: "(log_state, unit) em" where
  "flush_log_to_disk = (\<lambda>(m, d).
     if offset (log_buffer m) = 0 then (Inr (), (m, d))
     else case write_log (take (nat (offset (log_buffer m))) (buffer (log_buffer m))) d of
            (Inl e, d') \<Rightarrow> (Inl e, (m, d'))
          | (Inr _, d') \<Rightarrow> (Inr (), (m\<lparr>log_buffer := new_LogBuffer\<rparr>, d')))"

text \<open>The second critical section of \<^verbatim>\<open>add_log_to_buffer\<close>: the record gets its number and its bytes
  are copied behind the ones in the buffer. The record comes back with its \<^verbatim>\<open>lsn_\<close>.\<close>

definition append_log :: "LogRecord \<Rightarrow> (log_state, LogRecord) em" where
  "append_log r = (\<lambda>(m, d).
     let r1 = map_hdr (\<lambda>h. h\<lparr>lsn := global_lsn m\<rparr>) r;
         m1 = m\<lparr>global_lsn := c_int (global_lsn m + 1)\<rparr>;
         n = log_tot_len (log_hdr r1);
         b = log_buffer m
     in case rbind (serialize r1 (replicate (nat n) 0)) (\<lambda>src. memcpy_to (nat (offset b)) src (buffer b)) of
          Inl e \<Rightarrow> (Inl e, (m1, d))
        | Inr buf \<Rightarrow> (Inr r1, (m1\<lparr>log_buffer := \<lparr>buffer = buf, offset = c_int (offset b + c_int n)\<rparr>\<rparr>, d)))"

definition add_log_to_buffer :: "LogRecord \<Rightarrow> (log_state, LogRecord) em" where
  "add_log_to_buffer r = (\<lambda>(m, d).
     em_then (if is_full (log_buffer m) (log_tot_len (log_hdr r)) then flush_log_to_disk else em_return ())
       (append_log r) (m, d))"

section \<open>The byte format\<close>

text \<open>The format as a concatenation: the header, then the fields of the class.\<close>

definition hdr_bytes :: "LogHdr \<Rightarrow> byte list" where
  "hdr_bytes h = enc_int (log_type h) @ enc_int (lsn h) @ enc_int (log_tot_len h) @ enc_int (log_tid h) @
     enc_int (prev_lsn h)"

definition sized_bytes :: "byte list \<Rightarrow> byte list" where
  "sized_bytes b = enc_int (int (length b)) @ b"

definition name_bytes :: "Rid \<Rightarrow> byte list \<Rightarrow> byte list" where
  "name_bytes r t = enc_int (rid_page_no r) @ enc_int (rid_slot_no r) @ le_bytes 8 (int (length t)) @ t"

fun body_bytes :: "LogRecord \<Rightarrow> byte list" where
  "body_bytes (InsertLogRecord h v r t) = sized_bytes (rec_data v) @ name_bytes r t"
| "body_bytes (DeleteLogRecord h v r t) = sized_bytes (rec_data v) @ name_bytes r t"
| "body_bytes (UpdateLogRecord h v w r t) =
     sized_bytes (rec_data v) @ sized_bytes (rec_data w) @ name_bytes r t"
| "body_bytes (IndexInsertLogRecord h k n r t) = sized_bytes k @ name_bytes r t"
| "body_bytes (IndexDeleteLogRecord h k n r t) = sized_bytes k @ name_bytes r t"
| "body_bytes _ = []"

definition log_bytes :: "LogRecord \<Rightarrow> byte list" where
  "log_bytes r = hdr_bytes (log_hdr r) @ body_bytes r"

fun type_of :: "LogRecord \<Rightarrow> LogType" where
  "type_of (BeginLogRecord h) = begin_log"
| "type_of (CommitLogRecord h) = commit_log"
| "type_of (AbortLogRecord h) = ABORT"
| "type_of (InsertLogRecord h v r t) = INSERT"
| "type_of (DeleteLogRecord h v r t) = DELETE"
| "type_of (UpdateLogRecord h v w r t) = UPDATE"
| "type_of (IndexInsertLogRecord h k n r t) = INDEX_INSERT"
| "type_of (IndexDeleteLogRecord h k n r t) = INDEX_DELETE"

text \<open>Records whose fields fit their C types and whose sizes are the sizes of the data they carry.\<close>

definition sized_ok :: "byte list \<Rightarrow> int \<Rightarrow> bool" where
  "sized_ok d n \<longleftrightarrow> n = int (length d) \<and> n \<le> INT_MAX"

definition rid_ok :: "Rid \<Rightarrow> bool" where
  "rid_ok r \<longleftrightarrow> in_int (rid_page_no r) \<and> in_int (rid_slot_no r)"

definition name_ok :: "Rid \<Rightarrow> byte list \<Rightarrow> bool" where
  "name_ok r t \<longleftrightarrow> rid_ok r \<and> int (length t) < 2 ^ 64"

fun body_ok :: "LogRecord \<Rightarrow> bool" where
  "body_ok (InsertLogRecord h v r t) \<longleftrightarrow> sized_ok (rec_data v) (rec_size v) \<and> name_ok r t"
| "body_ok (DeleteLogRecord h v r t) \<longleftrightarrow> sized_ok (rec_data v) (rec_size v) \<and> name_ok r t"
| "body_ok (UpdateLogRecord h v w r t) \<longleftrightarrow>
     sized_ok (rec_data v) (rec_size v) \<and> sized_ok (rec_data w) (rec_size w) \<and> name_ok r t"
| "body_ok (IndexInsertLogRecord h k n r t) \<longleftrightarrow> sized_ok k n \<and> name_ok r t"
| "body_ok (IndexDeleteLogRecord h k n r t) \<longleftrightarrow> sized_ok k n \<and> name_ok r t"
| "body_ok _ \<longleftrightarrow> True"

definition hdr_ok :: "LogHdr \<Rightarrow> bool" where
  "hdr_ok h \<longleftrightarrow> in_int (log_type h) \<and> in_int (lsn h) \<and> 0 \<le> log_tot_len h \<and> log_tot_len h < 2 ^ 32 \<and>
     in_int (log_tid h) \<and> in_int (prev_lsn h)"

definition log_wf :: "LogRecord \<Rightarrow> bool" where
  "log_wf r \<longleftrightarrow> hdr_ok (log_hdr r) \<and> body_ok r \<and> log_type (log_hdr r) = LogType_val (type_of r) \<and>
     log_tot_len (log_hdr r) = int (length (log_bytes r))"

section \<open>Serialisation is the format\<close>

lemma length_hdr_bytes [simp]: "length (hdr_bytes h) = 20"
  by (simp add: hdr_bytes_def)

lemma put_put_adjacent:
  assumes "off + length a + length b \<le> length d"
  shows "put_bytes (off + length a) b (put_bytes off a d) = put_bytes off (a @ b) d"
  using assms by (auto simp: put_bytes_def ac_simps min_def)

lemma copy_fields_ok:
  "off + length (concat fs) \<le> length d \<Longrightarrow> copy_fields off fs d = Inr (put_bytes off (concat fs) d)"
proof (induction fs arbitrary: off d)
  case Nil
  then show ?case by (simp add: put_bytes_def)
next
  case (Cons f fs)
  then have "copy_fields (off + length f) fs (put_bytes off f d) =
      Inr (put_bytes (off + length f) (concat fs) (put_bytes off f d))" by simp
  with Cons.prems show ?case by (simp add: memcpy_to_def put_put_adjacent)
qed

lemma hdr_serialize_ok:
  assumes "20 \<le> length d"
  shows "hdr_serialize h d = Inr (put_bytes 0 (hdr_bytes h) d)"
proof -
  have "hdr_serialize h d = copy_fields 0 [enc_int (log_type h), enc_int (lsn h), enc_int (log_tot_len h),
      enc_int (log_tid h), enc_int (prev_lsn h)] d"
    using assms by (simp add: hdr_serialize_def memcpy_to_def log_offsets)
  also have "\<dots> = Inr (put_bytes 0 (hdr_bytes h) d)"
    using assms by (subst copy_fields_ok) (simp_all add: hdr_bytes_def)
  finally show ?thesis .
qed

lemma sized_field: "sized_ok d n \<Longrightarrow> sized d n = Inr [enc_int n, d]"
  by (simp add: sized_def read_at_def sized_ok_def)

lemma log_fields_ok: "body_ok r \<Longrightarrow> \<exists>fs. log_fields r = Inr fs \<and> concat fs = body_bytes r"
  by (cases r) (simp_all add: fields_defs sized_field sized_bytes_def name_fields_def name_bytes_def enc_Rid_def sized_ok_def)

lemma serialize_bytes:
  assumes "log_wf r" and "length d = nat (log_tot_len (log_hdr r))"
  shows "serialize r d = Inr (log_bytes r)"
proof -
  obtain fs where fs: "log_fields r = Inr fs" "concat fs = body_bytes r"
    using log_fields_ok assms(1) unfolding log_wf_def by blast
  have len: "length d = 20 + length (body_bytes r)"
    using assms by (simp add: log_wf_def log_bytes_def)
  have "serialize r d = Inr (put_bytes (0 + length (hdr_bytes (log_hdr r))) (body_bytes r)
      (put_bytes 0 (hdr_bytes (log_hdr r)) d))"
    using len fs by (simp add: serialize_def hdr_serialize_ok copy_fields_ok log_offsets)
  also have "\<dots> = Inr (put_bytes 0 (log_bytes r) d)"
    using len by (subst put_put_adjacent) (simp_all add: log_bytes_def)
  also have "\<dots> = Inr (log_bytes r)"
    using assms by (subst put_bytes_all) (simp_all add: log_wf_def)
  finally show ?thesis .
qed

section \<open>Deserialisation inverts it\<close>

lemma read_at_skip: "length a \<le> off \<Longrightarrow> read_at off n (a @ b) = read_at (off - length a) n b"
  by (auto simp: read_at_def get_bytes_def)

lemma read_at_here: "n = int (length a) \<Longrightarrow> read_at 0 n (a @ b) = Inr a"
  by (simp add: read_at_def get_bytes_def)

lemma in_int_4: "in_int x \<Longrightarrow> le_sint (enc_int x) = x"
  by (simp add: enc_int_def le_sint_le_bytes in_int_def INT_MIN_def INT_MAX_def)

lemma read_int_skip: "length a \<le> off \<Longrightarrow> read_int off (a @ b) = read_int (off - length a) b"
  by (simp add: read_int_def read_at_skip)

lemma read_int_here: "in_int x \<Longrightarrow> read_int 0 (enc_int x @ b) = Inr x"
  by (simp add: read_int_def read_at_here in_int_4)

lemma read_u32_skip: "length a \<le> off \<Longrightarrow> read_u32 off (a @ b) = read_u32 (off - length a) b"
  by (simp add: read_u32_def read_at_skip)

lemma read_u32_here: "0 \<le> x \<Longrightarrow> x < 2 ^ 32 \<Longrightarrow> read_u32 0 (enc_int x @ b) = Inr x"
  by (simp add: read_u32_def read_at_here enc_int_def le_uint_le_bytes)

lemma read_size_skip: "length a \<le> off \<Longrightarrow> read_size off (a @ b) = read_size (off - length a) b"
  by (simp add: read_size_def read_at_skip)

lemma read_size_here: "0 \<le> x \<Longrightarrow> x < 2 ^ 64 \<Longrightarrow> read_size 0 (le_bytes 8 x @ b) = Inr x"
  by (simp add: read_size_def read_at_here le_uint_le_bytes)

lemmas read_simps = read_int_skip read_int_here read_u32_skip read_u32_here read_size_skip read_size_here
  read_at_skip read_at_here

lemma hdr_read: "hdr_ok h \<Longrightarrow> hdr_deserialize (hdr_bytes h @ rest) = Inr h"
  by (simp add: hdr_deserialize_def hdr_bytes_def hdr_ok_def log_offsets read_simps)

lemma sized_read_at:
  assumes "sized_ok d n" and "off = length a"
  shows "read_sized off (a @ sized_bytes d @ rest) = Inr (d, n)"
  using assms
  by (simp add: read_sized_def sized_bytes_def sized_ok_def read_simps in_int_def INT_MIN_def)

lemma name_read_at:
  assumes "name_ok r t" and "off = length a"
  shows "read_name off (a @ name_bytes r t @ rest) = Inr (r, t)"
  using assms
  by (simp add: read_name_def read_Rid_def name_bytes_def name_ok_def rid_ok_def read_simps)

lemma length_sized_bytes: "length (sized_bytes d) = 4 + length d"
  by (simp add: sized_bytes_def)

lemma one_read:
  assumes "hdr_ok h" and "sized_ok d n" and "name_ok r t"
  shows "read_one (hdr_bytes h @ sized_bytes d @ name_bytes r t @ rest) = Inr (h, (d, n), r, t)"
proof -
  have "read_name (OFFSET_LOG_DATA + nat n + 4) ((hdr_bytes h @ sized_bytes d) @ name_bytes r t @ rest) = Inr (r, t)"
    using assms(2) by (intro name_read_at assms) (simp add: log_offsets length_sized_bytes sized_ok_def)
  then show ?thesis
    using sized_read_at[OF assms(2), of OFFSET_LOG_DATA "hdr_bytes h" "name_bytes r t @ rest"]
    by (simp add: read_one_def hdr_read assms log_offsets)
qed

lemma two_read:
  assumes "hdr_ok h" and "sized_ok d n" and "sized_ok e m" and "name_ok r t"
  shows "deserialize UPDATE (hdr_bytes h @ sized_bytes d @ sized_bytes e @ name_bytes r t @ rest) =
    Inr (UpdateLogRecord h \<lparr>rec_data = d, rec_size = n\<rparr> \<lparr>rec_data = e, rec_size = m\<rparr> r t)"
proof -
  have "read_sized (OFFSET_LOG_DATA + nat n + 4)
      ((hdr_bytes h @ sized_bytes d) @ sized_bytes e @ name_bytes r t @ rest) = Inr (e, m)"
    using assms(2) by (intro sized_read_at assms) (simp add: log_offsets length_sized_bytes sized_ok_def)
  moreover have "read_name (OFFSET_LOG_DATA + nat n + 4 + (nat m + 4))
      ((hdr_bytes h @ sized_bytes d @ sized_bytes e) @ name_bytes r t @ rest) = Inr (r, t)"
    using assms(2,3) by (intro name_read_at assms) (simp add: log_offsets length_sized_bytes sized_ok_def)
  ultimately show ?thesis
    using sized_read_at[OF assms(2), of OFFSET_LOG_DATA "hdr_bytes h" "sized_bytes e @ name_bytes r t @ rest"]
    by (simp add: Update_deserialize_def hdr_read assms log_offsets)
qed

lemma deserialize_bytes:
  assumes "log_wf r"
  shows "deserialize (type_of r) (log_bytes r @ rest) = Inr r"
  using assms
  by (cases r) (auto simp: log_wf_def log_bytes_def deserialize_defs hdr_read one_read two_read simp del: deserialize.simps(6))

section \<open>The constructors build well-formed records\<close>

lemma u32_id: "0 \<le> x \<Longrightarrow> x < 2 ^ 32 \<Longrightarrow> u32 x = x"
  by (simp add: u32_def)

lemma length_c_str [simp]: "length (c_str s) = length s + 1"
  by (simp add: c_str_def str_bytes_def)

lemma length_name_bytes: "length (name_bytes r t) = 16 + length t"
  by (simp add: name_bytes_def)

lemma length_body:
  "length (body_bytes (InsertLogRecord h v r t)) = 4 + length (rec_data v) + 16 + length t"
  "length (body_bytes (DeleteLogRecord h v r t)) = 4 + length (rec_data v) + 16 + length t"
  "length (body_bytes (UpdateLogRecord h v w r t)) = 8 + length (rec_data v) + length (rec_data w) + 16 + length t"
  "length (body_bytes (IndexInsertLogRecord h k n r t)) = 4 + length k + 16 + length t"
  "length (body_bytes (IndexDeleteLogRecord h k n r t)) = 4 + length k + 16 + length t"
  by (simp_all add: length_sized_bytes length_name_bytes)

lemma data_LogHdr_len:
  assumes "0 \<le> flds" and "0 \<le> k" and "flds + k < 2 ^ 32 - 28"
  shows "log_tot_len (data_LogHdr t x flds k) = 28 + flds + k"
  using assms by (simp add: data_LogHdr_def new_LogHdr_def log_offsets u32_id)

lemma data_LogHdr_sel [simp]:
  "log_type (data_LogHdr t x f k) = LogType_val t" "log_tid (data_LogHdr t x f k) = x"
  "lsn (data_LogHdr t x f k) = INVALID_LSN" "prev_lsn (data_LogHdr t x f k) = INVALID_LSN"
  by (simp_all add: data_LogHdr_def new_LogHdr_def)

lemma in_int_small [simp]: "in_int (LogType_val t)" "in_int (- 1)" "in_int INVALID_LSN"
  by (cases t) (simp_all add: in_int_def INT_MIN_def INT_MAX_def INVALID_LSN_def)

text \<open>The records the engine writes: the arguments fit their types and the sizes add up below 2 GiB.\<close>

definition log_args :: "txn_id_t \<Rightarrow> RmRecord \<Rightarrow> RmRecord \<Rightarrow> byte list \<Rightarrow> int \<Rightarrow> Rid \<Rightarrow> string \<Rightarrow> bool" where
  "log_args txn v w key n rid name \<longleftrightarrow> in_int txn \<and> rid_ok rid \<and> sized_ok (rec_data v) (rec_size v) \<and>
     sized_ok (rec_data w) (rec_size w) \<and> sized_ok key n \<and>
     length (rec_data v) + length (rec_data w) + length key + length name < 2 ^ 31 - 64"

definition built_logs :: "txn_id_t \<Rightarrow> RmRecord \<Rightarrow> RmRecord \<Rightarrow> byte list \<Rightarrow> int \<Rightarrow> Rid \<Rightarrow> string \<Rightarrow> LogRecord list" where
  "built_logs txn v w key n rid name =
     [new_BeginLogRecord txn, new_CommitLogRecord txn, new_AbortLogRecord txn, new_InsertLogRecord txn v rid name,
      new_DeleteLogRecord txn v rid name, new_UpdateLogRecord txn v rid name w,
      new_IndexInsertLogRecord txn key rid name n, new_IndexDeleteLogRecord txn key rid name n]"

lemmas new_log_defs = new_BeginLogRecord_def new_CommitLogRecord_def new_AbortLogRecord_def
  new_InsertLogRecord_def new_DeleteLogRecord_def new_UpdateLogRecord_def new_IndexInsertLogRecord_def
  new_IndexDeleteLogRecord_def

lemma in_int_small_num: "in_int 0" "in_int 1" "in_int 2" "in_int 3" "in_int 4" "in_int 5" "in_int 6" "in_int 7"
  by (simp_all add: in_int_def INT_MIN_def INT_MAX_def)

lemma built_log_wf:
  assumes "log_args txn v w key n rid name" and "r \<in> set (built_logs txn v w key n rid name)"
  shows "log_wf r"
  using assms
  by (auto simp: built_logs_def new_log_defs log_wf_def hdr_ok_def log_args_def name_ok_def log_bytes_def
      length_body data_LogHdr_len sized_ok_def new_LogHdr_def log_offsets in_int_small_num simp del: body_bytes.simps)
    (simp_all add: log_offsets)

lemma map_hdr_sel [simp]:
  "log_hdr (map_hdr f r) = f (log_hdr r)" "type_of (map_hdr f r) = type_of r"
  "body_bytes (map_hdr f r) = body_bytes r" "body_ok (map_hdr f r) = body_ok r"
  by (cases r; simp)+

lemma log_wf_link:
  "log_wf r \<Longrightarrow> in_int l \<Longrightarrow> in_int p \<Longrightarrow> log_wf (map_hdr (\<lambda>h. h\<lparr>lsn := l, prev_lsn := p\<rparr>) r)"
  "log_wf r \<Longrightarrow> in_int l \<Longrightarrow> log_wf (map_hdr (\<lambda>h. h\<lparr>lsn := l\<rparr>) r)"
  by (auto simp: log_wf_def hdr_ok_def log_bytes_def)

section \<open>The log as it grows\<close>

text \<open>The log is the log file followed by the bytes in the buffer.\<close>

definition log_open :: "DiskManager \<Rightarrow> bool" where
  "log_open d \<longleftrightarrow> disk_inv d \<and> log_fd d \<noteq> -1 \<and> fd_path d (log_fd d) \<noteq> None"

definition log_durable :: "log_state \<Rightarrow> byte list" where
  "log_durable s = (case fd_file (snd s) (log_fd (snd s)) of Some c \<Rightarrow> c | None \<Rightarrow> [])"

definition log_view :: "log_state \<Rightarrow> byte list" where
  "log_view s = log_durable s @ take (nat (offset (log_buffer (fst s)))) (buffer (log_buffer (fst s)))"

definition log_inv :: "log_state \<Rightarrow> bool" where
  "log_inv s \<longleftrightarrow> log_open (snd s) \<and> length (buffer (log_buffer (fst s))) = LOG_BUFFER_SIZE + 1 \<and>
     0 \<le> offset (log_buffer (fst s)) \<and> offset (log_buffer (fst s)) \<le> int LOG_BUFFER_SIZE \<and>
     in_int (global_lsn (fst s))"

lemma write_log_appends:
  assumes "log_open d"
  shows "\<exists>d' c. write_log bs d = (Inr (), d') \<and> log_open d' \<and> fd_file d (log_fd d) = Some c \<and>
    fd_file d' (log_fd d') = Some (c @ bs) \<and> fd_path d' = fd_path d \<and> fd2pageno d' = fd2pageno d \<and>
    log_fd d' = log_fd d \<and> (\<forall>fd. fd \<noteq> log_fd d \<longrightarrow> fd_file d' fd = fd_file d fd)"
proof -
  obtain f where f: "map_of (os_fds d) (log_fd d) = Some f"
    using assms by (auto simp: log_open_def fd_path_def)
  obtain c where c: "files d (of_path f) = Some c"
    using disk_inv_fd_file[OF _ f] assms by (auto simp: log_open_def)
  let ?d' = "d\<lparr>files := (files d)(of_path f \<mapsto> file_write (length c) bs c),
    os_fds := AList.update (log_fd d) (f\<lparr>of_pos := length c + length bs\<rparr>) (os_fds d)\<rparr>"
  have w: "write_log bs d = (Inr (), ?d')"
    using assms f c
    by (simp add: write_log_def em_defs ensure_log_open_def log_open_def os_lseek_def os_write_def map_of_update
        alist_update_twice Let_def)
  have fw: "file_write (length c) bs c = c @ bs" by (simp add: file_write_def put_bytes_def)
  have fp: "fd_path ?d' = fd_path d" by (rule fd_path_update(1)[OF f]) simp
  have other: "fd_file ?d' fd = fd_file d fd" if "fd \<noteq> log_fd d" for fd
  proof (cases "map_of (os_fds d) fd")
    case None
    then show ?thesis using that by (simp add: fd_file_def map_of_update)
  next
    case (Some g)
    then have "of_path g \<noteq> of_path f"
      using disk_inv_path_inj[OF _ f Some] that assms by (auto simp: log_open_def)
    with Some that show ?thesis by (simp add: fd_file_def map_of_update)
  qed
  show ?thesis
    using w fw fp other f c assms disk_inv_write_log[OF _ w]
    by (auto simp: log_open_def fd_file_def map_of_update)
qed

lemma flush_log_ok:
  assumes "log_inv s"
  shows "\<exists>s'. flush_log_to_disk s = (Inr (), s') \<and> log_inv s' \<and> log_view s' = log_view s \<and>
    log_durable s' = log_view s \<and> global_lsn (fst s') = global_lsn (fst s) \<and> offset (log_buffer (fst s')) = 0"
proof (cases s)
  case (Pair m d)
  show ?thesis
  proof (cases "offset (log_buffer m) = 0")
    case True
    with assms Pair show ?thesis by (simp add: flush_log_to_disk_def log_view_def)
  next
    case False
    obtain d' c where w: "write_log (take (nat (offset (log_buffer m))) (buffer (log_buffer m))) d = (Inr (), d')"
      "log_open d'" "fd_file d (log_fd d) = Some c"
      "fd_file d' (log_fd d') = Some (c @ take (nat (offset (log_buffer m))) (buffer (log_buffer m)))"
      using write_log_appends assms Pair unfolding log_inv_def by fastforce
    then show ?thesis
      using assms Pair False
      by (simp add: flush_log_to_disk_def log_inv_def log_view_def log_durable_def new_LogBuffer_def)
  qed
qed

lemma c_int_in_int [simp]: "in_int (c_int x)"
proof -
  have "- (2 ^ 31) \<le> sint (word_of_int x :: 32 word)" "sint (word_of_int x :: 32 word) < 2 ^ 31"
    using sint_range_size[of "word_of_int x :: 32 word"] by (simp_all add: word_size)
  then show ?thesis by (simp add: in_int_def c_int_def INT_MIN_def INT_MAX_def)
qed

lemma buffer_size: "int LOG_BUFFER_SIZE = 4194304"
  by (simp add: LOG_BUFFER_SIZE_def PAGE_SIZE_def)

lemma c_int_buffer: "0 \<le> x \<Longrightarrow> x \<le> 2 * int LOG_BUFFER_SIZE \<Longrightarrow> c_int x = x"
  by (rule c_int_id) (simp add: in_int_def buffer_size INT_MIN_def INT_MAX_def)

text \<open>A record that fits behind the buffered bytes is copied there and gets the next number.\<close>

lemma append_log_ok:
  assumes inv: "log_inv s" and wf: "log_wf r"
    and fits: "offset (log_buffer (fst s)) + int (length (log_bytes r)) \<le> int LOG_BUFFER_SIZE"
  defines "r1 \<equiv> map_hdr (\<lambda>h. h\<lparr>lsn := global_lsn (fst s)\<rparr>) r"
  shows "\<exists>s'. append_log r s = (Inr r1, s') \<and> log_inv s' \<and> log_view s' = log_view s @ log_bytes r1 \<and>
    log_durable s' = log_durable s \<and> global_lsn (fst s') = c_int (global_lsn (fst s) + 1) \<and>
    offset (log_buffer (fst s')) = offset (log_buffer (fst s)) + int (length (log_bytes r))"
proof (cases s)
  case (Pair m d)
  let ?b = "log_buffer m"
  have wf1: "log_wf r1" using log_wf_link(2)[OF wf] inv by (simp add: r1_def log_inv_def)
  have len: "length (log_bytes r1) = length (log_bytes r)" by (simp add: r1_def log_bytes_def)
  have tot: "log_tot_len (log_hdr r1) = int (length (log_bytes r))" using wf1 len by (simp add: log_wf_def)
  have ser: "serialize r1 (replicate (length (log_bytes r)) 0) = Inr (log_bytes r1)"
    by (rule serialize_bytes[OF wf1]) (simp add: tot)
  have o: "0 \<le> offset ?b" "length (buffer ?b) = LOG_BUFFER_SIZE + 1"
    "nat (offset ?b) + length (log_bytes r1) \<le> length (buffer ?b)"
    using inv fits by (auto simp: log_inv_def Pair len)
  let ?s' = "(m\<lparr>global_lsn := c_int (global_lsn m + 1), log_buffer :=
      \<lparr>buffer = put_bytes (nat (offset ?b)) (log_bytes r1) (buffer ?b),
       offset = offset ?b + int (length (log_bytes r))\<rparr>\<rparr>, d)"
  have r1: "map_hdr (lsn_update (\<lambda>_. global_lsn m)) r = r1" by (simp add: r1_def Pair)
  have tot0: "log_tot_len (log_hdr r) = int (length (log_bytes r))" using wf by (simp add: log_wf_def)
  have ci: "c_int (offset ?b + c_int (int (length (log_bytes r)))) = offset ?b + int (length (log_bytes r))"
    using o fits by (simp add: c_int_buffer Pair)
  have app: "append_log r s = (Inr r1, ?s')"
    using o(3) by (simp add: append_log_def Pair Let_def r1 tot tot0 ser memcpy_to_def ci)
  have "take (nat (offset ?b + int (length (log_bytes r)))) (put_bytes (nat (offset ?b)) (log_bytes r1) (buffer ?b)) =
      take (nat (offset ?b)) (buffer ?b) @ log_bytes r1"
    using o len add_leD1[OF o(3)] by (simp add: put_bytes_def nat_add_distrib min_absorb2 del: length_greater_0_conv)
  then show ?thesis
    using app inv o fits by (simp add: log_inv_def log_view_def log_durable_def Pair)
qed

lemma add_log_ok:
  assumes inv: "log_inv s" and wf: "log_wf r" and small: "length (log_bytes r) \<le> LOG_BUFFER_SIZE"
  defines "r1 \<equiv> map_hdr (\<lambda>h. h\<lparr>lsn := global_lsn (fst s)\<rparr>) r"
  shows "\<exists>s'. add_log_to_buffer r s = (Inr r1, s') \<and> log_inv s' \<and> log_view s' = log_view s @ log_bytes r1 \<and>
    global_lsn (fst s') = c_int (global_lsn (fst s) + 1)"
proof -
  let ?o = "offset (log_buffer (fst s))" and ?n = "int (length (log_bytes r))"
  have tot: "log_tot_len (log_hdr r) = ?n" using wf by (simp add: log_wf_def)
  have full: "is_full (log_buffer (fst s)) ?n \<longleftrightarrow> ?o + ?n > int LOG_BUFFER_SIZE"
    using inv small by (simp add: is_full_def log_inv_def c_int_buffer)
  show ?thesis
  proof (cases "?o + ?n > int LOG_BUFFER_SIZE")
    case False
    with append_log_ok[OF inv wf] show ?thesis
      using full tot by (auto simp: add_log_to_buffer_def em_defs r1_def split: prod.splits)
  next
    case True
    obtain s1 where s1: "flush_log_to_disk s = (Inr (), s1)" "log_inv s1" "log_view s1 = log_view s"
      "global_lsn (fst s1) = global_lsn (fst s)" "offset (log_buffer (fst s1)) = 0"
      using flush_log_ok[OF inv] by auto
    with append_log_ok[OF s1(2) wf] small True full tot show ?thesis
      by (auto simp: add_log_to_buffer_def em_defs r1_def split: prod.splits)
  qed
qed

section \<open>The interface of the write-ahead log\<close>

text \<open>
  What the transaction and execution layers rely on: appending a record extends the log by the
  record with its number, and a flush makes the whole log durable without changing it.
\<close>

primrec em_each :: "('a \<Rightarrow> ('s, 'b) em) \<Rightarrow> 'a list \<Rightarrow> ('s, unit) em" where
  "em_each f [] = em_return ()"
| "em_each f (r # rs) = em_then (f r) (em_each f rs)"

primrec numbered :: "(int \<Rightarrow> 'r \<Rightarrow> 'r) \<Rightarrow> int \<Rightarrow> 'r list \<Rightarrow> 'r list" where
  "numbered f n [] = []"
| "numbered f n (r # rs) = f n r # numbered f (c_int (n + 1)) rs"

locale wal =
  fixes inv :: "'s \<Rightarrow> bool" and view :: "'s \<Rightarrow> 'b list" and durable :: "'s \<Rightarrow> 'b list"
    and bytes :: "'r \<Rightarrow> 'b list" and next_no :: "'s \<Rightarrow> int" and number :: "int \<Rightarrow> 'r \<Rightarrow> 'r"
    and ok :: "'r \<Rightarrow> bool" and add :: "'r \<Rightarrow> ('s, 'r) em" and flush :: "('s, unit) em"
  assumes add_law: "inv s \<Longrightarrow> ok r \<Longrightarrow> \<exists>s'. add r s = (Inr (number (next_no s) r), s') \<and> inv s' \<and>
      view s' = view s @ bytes (number (next_no s) r) \<and> next_no s' = c_int (next_no s + 1)"
    and flush_law: "inv s \<Longrightarrow> \<exists>s'. flush s = (Inr (), s') \<and> inv s' \<and> view s' = view s \<and>
      durable s' = view s \<and> next_no s' = next_no s"
begin

lemma add_all_ok:
  "inv s \<Longrightarrow> \<forall>r \<in> set rs. ok r \<Longrightarrow> \<exists>s'. em_each add rs s = (Inr (), s') \<and> inv s' \<and>
     view s' = view s @ concat (map bytes (numbered number (next_no s) rs))"
proof (induction rs arbitrary: s)
  case Nil
  then show ?case by (simp add: em_defs)
next
  case (Cons r rs)
  obtain s1 where s1: "add r s = (Inr (number (next_no s) r), s1)" "inv s1"
    "view s1 = view s @ bytes (number (next_no s) r)" "next_no s1 = c_int (next_no s + 1)"
    using add_law[OF Cons.prems(1), of r] Cons.prems(2) by auto
  with Cons.IH[OF s1(2)] Cons.prems(2) show ?case by (auto simp: em_defs)
qed

lemma add_all_flush:
  assumes "inv s" and "\<forall>r \<in> set rs. ok r"
  shows "\<exists>s'. em_then (em_each add rs) flush s = (Inr (), s') \<and> inv s' \<and>
    durable s' = view s @ concat (map bytes (numbered number (next_no s) rs))"
proof -
  obtain s1 where s1: "em_each add rs s = (Inr (), s1)" "inv s1"
    "view s1 = view s @ concat (map bytes (numbered number (next_no s) rs))"
    using add_all_ok[OF assms] by auto
  obtain s2 where "flush s1 = (Inr (), s2)" "inv s2" "durable s2 = view s1"
    using flush_law[OF s1(2)] by auto
  with s1 show ?thesis by (auto simp: em_defs)
qed

end

definition log_small :: "LogRecord \<Rightarrow> bool" where
  "log_small r \<longleftrightarrow> log_wf r \<and> length (log_bytes r) \<le> LOG_BUFFER_SIZE"

definition set_lsn :: "int \<Rightarrow> LogRecord \<Rightarrow> LogRecord" where
  "set_lsn n r = map_hdr (\<lambda>h. h\<lparr>lsn := n\<rparr>) r"

interpretation lm: wal log_inv log_view log_durable log_bytes "\<lambda>s. global_lsn (fst s)" set_lsn log_small
  add_log_to_buffer flush_log_to_disk
proof unfold_locales
  show "\<exists>s'. add_log_to_buffer r s = (Inr (set_lsn (global_lsn (fst s)) r), s') \<and> log_inv s' \<and>
      log_view s' = log_view s @ log_bytes (set_lsn (global_lsn (fst s)) r) \<and>
      global_lsn (fst s') = c_int (global_lsn (fst s) + 1)" if "log_inv s" and "log_small r" for s r
    using add_log_ok[OF that(1)] that(2) by (simp add: log_small_def set_lsn_def)
  show "\<exists>s'. flush_log_to_disk s = (Inr (), s') \<and> log_inv s' \<and> log_view s' = log_view s \<and>
      log_durable s' = log_view s \<and> global_lsn (fst s') = global_lsn (fst s)" if "log_inv s" for s
    using flush_log_ok[OF that] by auto
qed

section \<open>Properties of the log\<close>

text \<open>C24: Every record that the constructors of the eight log classes build from arguments that fit
  their C types, with any sequence numbers written into it, is serialised into exactly
  \<^verbatim>\<open>log_tot_len_\<close> bytes (no byte is written outside the buffer, whatever the buffer held before),
  carries its type in its first four bytes, and is deserialised, from these bytes followed by
  anything, as the same record.\<close>

theorem log_record_roundtrip:
  assumes "log_args txn v w key n rid name" and "r \<in> set (built_logs txn v w key n rid name)"
    and "in_int l" and "in_int p"
    and "r' = map_hdr (\<lambda>h. h\<lparr>lsn := l, prev_lsn := p\<rparr>) r" and "length dest = nat (log_tot_len (log_hdr r'))"
  shows "\<exists>bs. serialize r' dest = Inr bs \<and> length bs = length dest \<and>
    read_int OFFSET_LOG_TYPE bs = Inr (LogType_val (type_of r)) \<and>
    read_u32 OFFSET_LOG_TOT_LEN bs = Inr (int (length bs)) \<and> deserialize (type_of r) (bs @ rest) = Inr r'"
proof -
  have wf: "log_wf r'"
    using log_wf_link(1)[OF built_log_wf[OF assms(1,2)] assms(3,4)] assms(5) by simp
  have ser: "serialize r' dest = Inr (log_bytes r')" by (rule serialize_bytes[OF wf assms(6)])
  have len: "length (log_bytes r') = length dest" using wf assms(6) by (simp add: log_wf_def)
  have ty: "type_of r' = type_of r" using assms(5) by simp
  have de: "deserialize (type_of r) (log_bytes r' @ rest) = Inr r'"
    using deserialize_bytes[OF wf, of rest] ty by simp
  have "read_int OFFSET_LOG_TYPE (log_bytes r') = Inr (LogType_val (type_of r))"
    using wf ty by (simp add: log_bytes_def hdr_bytes_def log_offsets read_simps log_wf_def)
  moreover have "read_u32 OFFSET_LOG_TOT_LEN (log_bytes r') = Inr (int (length (log_bytes r')))"
    using wf by (simp add: log_bytes_def hdr_bytes_def log_offsets read_simps log_wf_def hdr_ok_def)
  ultimately show ?thesis using ser len de by auto
qed

definition witness_rec :: "RmRecord" where
  "witness_rec = \<lparr>rec_data = [1, 2, 3], rec_size = 3\<rparr>"

definition witness_rid :: Rid where
  "witness_rid = \<lparr>rid_page_no = 1, rid_slot_no = 2\<rparr>"

lemma witness_log_args: "log_args 5 witness_rec witness_rec [9] 1 witness_rid ''ab''"
  by (simp add: log_args_def witness_rec_def witness_rid_def in_int_def INT_MIN_def INT_MAX_def rid_ok_def sized_ok_def)

theorem log_record_roundtrip_witness:
  "\<exists>bs. serialize (map_hdr (\<lambda>h. h\<lparr>lsn := 7, prev_lsn := 6\<rparr>) (new_UpdateLogRecord 5 witness_rec witness_rid ''ab'' witness_rec))
      (replicate 53 0) = Inr bs \<and> length bs = length (replicate 53 (0::byte)) \<and>
    read_int OFFSET_LOG_TYPE bs = Inr (LogType_val (type_of (new_UpdateLogRecord 5 witness_rec witness_rid ''ab'' witness_rec))) \<and>
    read_u32 OFFSET_LOG_TOT_LEN bs = Inr (int (length bs)) \<and>
    deserialize (type_of (new_UpdateLogRecord 5 witness_rec witness_rid ''ab'' witness_rec)) (bs @ [0]) =
      Inr (map_hdr (\<lambda>h. h\<lparr>lsn := 7, prev_lsn := 6\<rparr>) (new_UpdateLogRecord 5 witness_rec witness_rid ''ab'' witness_rec))"
  by (rule log_record_roundtrip[OF witness_log_args])
    (simp_all add: built_logs_def in_int_small_num, code_simp+)

text \<open>C23: Write-ahead logging. Starting from any consistent log manager with an open log file, adding
  any list of well-formed records that fit the log buffer and then flushing succeeds, and the log file
  afterwards consists of what it held, what was buffered, and the new records in the order they were
  added, each with the next consecutive sequence number; nothing is lost or reordered by the flushes
  that a full buffer forces in between, and the buffer is never written outside its bounds.\<close>

theorem log_write_ahead:
  assumes "log_inv s" and "\<forall>r \<in> set rs. log_small r"
  shows "\<exists>s'. em_then (em_each add_log_to_buffer rs) flush_log_to_disk s = (Inr (), s') \<and> log_inv s' \<and>
    log_durable s' = log_view s @ concat (map log_bytes (numbered set_lsn (global_lsn (fst s)) rs))"
  by (rule lm.add_all_flush[OF assms])

definition witness_log_disk :: DiskManager where
  "witness_log_disk = SetLogFd 3 (snd (open_file LOG_FILE_NAME (snd (create_file LOG_FILE_NAME new_DiskManager))))"

lemma witness_log_inv: "log_inv (new_LogManager, witness_log_disk)"
proof -
  have "disk_inv witness_log_disk"
    unfolding witness_log_disk_def SetLogFd_def disk_inv_log_fd
    by (metis disk_inv_new disk_inv_create disk_inv_open prod.collapse)
  moreover have "fd_path witness_log_disk 3 \<noteq> None" "log_fd witness_log_disk = 3" by code_simp+
  ultimately show ?thesis
    by (simp add: log_inv_def log_open_def new_LogManager_def new_LogBuffer_def in_int_small_num)
qed

lemma built_log_length:
  assumes "log_args txn v w key n rid name" and "r \<in> set (built_logs txn v w key n rid name)"
    and "length (rec_data v) + length (rec_data w) + length key + length name < 2 ^ 20"
  shows "log_small r"
proof -
  have "length (log_bytes r) \<le> LOG_BUFFER_SIZE"
    using assms by (auto simp: built_logs_def new_log_defs log_bytes_def length_body LOG_BUFFER_SIZE_def PAGE_SIZE_def
        simp del: body_bytes.simps) simp_all
  with built_log_wf[OF assms(1,2)] show ?thesis by (simp add: log_small_def)
qed

theorem log_write_ahead_witness:
  "\<exists>s'. em_then (em_each add_log_to_buffer (built_logs 5 witness_rec witness_rec [9] 1 witness_rid ''ab''))
      flush_log_to_disk (new_LogManager, witness_log_disk) = (Inr (), s') \<and> log_inv s' \<and>
    log_durable s' = log_view (new_LogManager, witness_log_disk) @
      concat (map log_bytes (numbered set_lsn (global_lsn (fst (new_LogManager, witness_log_disk)))
        (built_logs 5 witness_rec witness_rec [9] 1 witness_rid ''ab'')))"
  by (rule log_write_ahead[OF witness_log_inv])
    (auto intro: built_log_length[OF witness_log_args] simp: witness_rec_def)

subsection \<open>The window between the two critical sections\<close>

lemma begin_log_wf: "in_int t \<Longrightarrow> log_wf (new_BeginLogRecord t)"
  and begin_log_length: "length (log_bytes (new_BeginLogRecord t)) = 20"
  by (simp_all add: new_BeginLogRecord_def new_LogHdr_def log_wf_def hdr_ok_def log_bytes_def log_offsets
      in_int_small_num)

lemma fill_buffer:
  assumes "in_int t"
  shows "log_inv s \<Longrightarrow> offset (log_buffer (fst s)) + 20 * int k \<le> int LOG_BUFFER_SIZE \<Longrightarrow>
    \<exists>s'. em_each add_log_to_buffer (replicate k (new_BeginLogRecord t)) s = (Inr (), s') \<and> log_inv s' \<and>
      offset (log_buffer (fst s')) = offset (log_buffer (fst s)) + 20 * int k"
proof (induction k arbitrary: s)
  case 0
  then show ?case by (simp add: em_defs)
next
  case (Suc k)
  let ?r = "new_BeginLogRecord t"
  have wf: "log_wf ?r" and len: "length (log_bytes ?r) = 20"
    by (simp_all add: begin_log_wf assms begin_log_length)
  have tot: "log_tot_len (log_hdr ?r) = 20" using wf len by (simp add: log_wf_def)
  have nf: "\<not> is_full (log_buffer (fst s)) 20"
    using Suc.prems by (simp add: is_full_def log_inv_def c_int_buffer buffer_size)
  obtain r1 s1 where s1: "append_log ?r s = (Inr r1, s1)" "log_inv s1"
      "offset (log_buffer (fst s1)) = offset (log_buffer (fst s)) + 20"
    using append_log_ok[OF Suc.prems(1) wf] Suc.prems(2) len by auto
  have "add_log_to_buffer ?r s = (Inr r1, s1)"
    using s1(1) nf tot by (cases s) (simp add: add_log_to_buffer_def em_defs)
  with Suc.IH[OF s1(2)] s1(3) Suc.prems(2) show ?case by (auto simp: em_defs)
qed



end
