(* ===== verification/Datetime.thy ===== *)
theory Datetime
  imports Prelude
begin

text \<open>
  \<^verbatim>\<open>common/datetime_util.h\<close>: the packed 64-bit form of a DATETIME value, its text form, and the
  checks a literal must pass. The packed form is compared as a signed integer by the index, so
  its order has to be the order of the calendar fields.
\<close>

section \<open>The operations\<close>

definition is_leap_year :: "int \<Rightarrow> bool" where
  "is_leap_year year \<longleftrightarrow>
     (year mod 4 = 0 \<and> year mod 100 \<noteq> 0) \<or> year mod 400 = 0"

definition days_table :: "int list" where
  "days_table = [0, 31, 28, 31, 30, 31, 30, 31, 31, 30, 31, 30, 31]"

text \<open>\<open>None\<close> is a read outside the 13-entry table.\<close>

definition days_in_month :: "int \<Rightarrow> int \<Rightarrow> int option" where
  "days_in_month year month =
     (if month = 2 \<and> is_leap_year year then Some 29
      else if 0 \<le> month \<and> month < 13 then Some (days_table ! nat month) else None)"

definition pack_datetime :: "int \<Rightarrow> int \<Rightarrow> int \<Rightarrow> int \<Rightarrow> int \<Rightarrow> int \<Rightarrow> 64 word" where
  "pack_datetime year month day hour minute second =
     (((((push_bit 48 (word_of_int year) OR
          push_bit 40 (word_of_int month)) OR
          push_bit 32 (word_of_int day)) OR
          push_bit 24 (word_of_int hour)) OR
          push_bit 16 (word_of_int minute)) OR
          push_bit 8 (word_of_int second))"

text \<open>\<^verbatim>\<open>int64_t >> k\<close> is the arithmetic shift.\<close>

definition unpack_datetime :: "64 word \<Rightarrow> int \<times> int \<times> int \<times> int \<times> int \<times> int" where
  "unpack_datetime val =
     (uint (signed_drop_bit 48 val AND 0xFFFF),
      uint (signed_drop_bit 40 val AND 0xFF),
      uint (signed_drop_bit 32 val AND 0xFF),
      uint (signed_drop_bit 24 val AND 0xFF),
      uint (signed_drop_bit 16 val AND 0xFF),
      uint (signed_drop_bit 8 val AND 0xFF))"

definition format_datetime :: "64 word \<Rightarrow> string" where
  "format_datetime val =
     (case unpack_datetime val of (year, month, day, hour, minute, second) \<Rightarrow>
        zero_pad 4 (nat year) @ ''-'' @ zero_pad 2 (nat month) @ ''-'' @ zero_pad 2 (nat day) @
        '' '' @ zero_pad 2 (nat hour) @ '':'' @ zero_pad 2 (nat minute) @ '':'' @
        zero_pad 2 (nat second))"

definition datetime_separators :: "nat list" where
  "datetime_separators = [4, 7, 10, 13, 16]"

definition stoi_at :: "string \<Rightarrow> nat \<Rightarrow> nat \<Rightarrow> int" where
  "stoi_at s off n = int (digits_val (get_bytes off n s))"

definition parse_datetime :: "string \<Rightarrow> rmdb_error + 64 word" where
  "parse_datetime s =
     (if length s \<noteq> 19 then Inl InvalidDateTimeError
      else if s ! 4 \<noteq> CHR ''-'' \<or> s ! 7 \<noteq> CHR ''-'' \<or> s ! 10 \<noteq> CHR '' '' \<or>
              s ! 13 \<noteq> CHR '':'' \<or> s ! 16 \<noteq> CHR '':'' then Inl InvalidDateTimeError
      else if \<exists>i \<in> set [0..<19]. i \<notin> set datetime_separators \<and> \<not> isdigit (s ! i)
           then Inl InvalidDateTimeError
      else (let year = stoi_at s 0 4; month = stoi_at s 5 2; day = stoi_at s 8 2;
                hour = stoi_at s 11 2; minute = stoi_at s 14 2; second = stoi_at s 17 2
            in if year < 1000 \<or> year > 9999 then Inl InvalidDateTimeError
               else if month < 1 \<or> month > 12 then Inl InvalidDateTimeError
               else if day < 1 \<or> (case days_in_month year month of None \<Rightarrow> True | Some n \<Rightarrow> day > n)
                    then Inl InvalidDateTimeError
               else if hour > 23 then Inl InvalidDateTimeError
               else if minute > 59 then Inl InvalidDateTimeError
               else if second > 59 then Inl InvalidDateTimeError
               else Inr (pack_datetime year month day hour minute second)))"

section \<open>Packing\<close>

lemma or_push_bit_add:
  assumes "0 \<le> b" and "b < 2 ^ k"
  shows "(push_bit k a OR b :: int) = a * 2 ^ k + b"
proof -
  have tb: "take_bit k b = b"
    using assms by (simp add: take_bit_int_eq_self)
  have "push_bit k a AND take_bit k b = 0"
    by (rule bit_eqI) (auto simp: bit_simps)
  then have "push_bit k a + b = (push_bit k a OR b)"
    by (intro disjunctive_add_eq_or) (simp add: tb)
  then show ?thesis by (simp add: push_bit_eq_mult)
qed

lemma or_push_bit_byte:
  assumes "0 \<le> b" and "b < 256"
  shows "(push_bit (k + 8) a OR push_bit k b :: int) = push_bit k (a * 256 + b)"
proof -
  have "push_bit (k + 8) a OR push_bit k b = push_bit k (push_bit 8 a OR b)"
    by (simp add: push_bit_or add.commute)
  also have "push_bit 8 a OR b = a * 256 + b"
    using or_push_bit_add[of b 8 a] assms by simp
  finally show ?thesis .
qed

lemma word_of_int_or_push_bit:
  "(word_of_int a OR push_bit k (word_of_int b) :: 64 word) = word_of_int (a OR push_bit k b)"
  by (rule bit_word_eqI) (auto simp: bit_simps)

definition datetime_fields_ok :: "int \<Rightarrow> int \<Rightarrow> int \<Rightarrow> int \<Rightarrow> int \<Rightarrow> int \<Rightarrow> bool" where
  "datetime_fields_ok y mo d h mi s \<longleftrightarrow>
     0 \<le> y \<and> y < 32768 \<and> 0 \<le> mo \<and> mo < 256 \<and> 0 \<le> d \<and> d < 256 \<and>
     0 \<le> h \<and> h < 256 \<and> 0 \<le> mi \<and> mi < 256 \<and> 0 \<le> s \<and> s < 256"

definition datetime_num :: "int \<Rightarrow> int \<Rightarrow> int \<Rightarrow> int \<Rightarrow> int \<Rightarrow> int \<Rightarrow> int" where
  "datetime_num y mo d h mi s =
     (((((y * 256 + mo) * 256 + d) * 256 + h) * 256 + mi) * 256 + s) * 256"

lemma pack_datetime_num:
  assumes "datetime_fields_ok y mo d h mi s"
  shows "pack_datetime y mo d h mi s = word_of_int (datetime_num y mo d h mi s)"
proof -
  have y0: "(push_bit 48 (word_of_int y) :: 64 word) = word_of_int (push_bit 48 y)"
    by (rule bit_word_eqI) (auto simp: bit_simps)
  show ?thesis
    using assms or_push_bit_byte[of mo 40 y] or_push_bit_byte[of d 32 "y * 256 + mo"]
      or_push_bit_byte[of h 24 "(y * 256 + mo) * 256 + d"]
      or_push_bit_byte[of mi 16 "((y * 256 + mo) * 256 + d) * 256 + h"]
      or_push_bit_byte[of s 8 "(((y * 256 + mo) * 256 + d) * 256 + h) * 256 + mi"]
    unfolding pack_datetime_def y0 datetime_fields_ok_def word_of_int_or_push_bit
    by (simp add: datetime_num_def push_bit_eq_mult mult.commute)
qed

lemma datetime_num_bound:
  "datetime_fields_ok y mo d h mi s \<Longrightarrow>
   0 \<le> datetime_num y mo d h mi s \<and> datetime_num y mo d h mi s < 2 ^ 63"
  by (simp add: datetime_fields_ok_def datetime_num_def)

lemma sint_pack_datetime:
  "datetime_fields_ok y mo d h mi s \<Longrightarrow>
   sint (pack_datetime y mo d h mi s) = datetime_num y mo d h mi s"
  using datetime_num_bound[of y mo d h mi s]
  by (simp add: pack_datetime_num sint_sbintrunc' signed_take_bit_int_eq_self)

lemma uint_field:
  "uint (signed_drop_bit k v AND 0xFFFF :: 64 word) = (sint v div 2 ^ k) mod 65536"
  "uint (signed_drop_bit k v AND 0xFF :: 64 word) = (sint v div 2 ^ k) mod 256"
proof -
  have m: "uint (w AND mask n :: 64 word) = sint w mod 2 ^ n" if "n < 64" for w :: "64 word" and n
  proof -
    have "uint (w AND mask n) = take_bit n (uint w)"
      by (simp add: unsigned_take_bit_eq flip: take_bit_eq_mask)
    also have "\<dots> = take_bit n (sint w)"
      using that by (simp add: sint_uint take_bit_signed_take_bit)
    finally show ?thesis by (simp add: take_bit_eq_mod)
  qed
  have d: "sint (signed_drop_bit k v) = sint v div 2 ^ k"
    by (simp add: sint_signed_drop_bit_eq drop_bit_eq_div)
  show "uint (signed_drop_bit k v AND 0xFFFF :: 64 word) = (sint v div 2 ^ k) mod 65536"
    using m[of 16 "signed_drop_bit k v"] d by (simp add: mask_eq_exp_minus_1)
  show "uint (signed_drop_bit k v AND 0xFF :: 64 word) = (sint v div 2 ^ k) mod 256"
    using m[of 8 "signed_drop_bit k v"] d by (simp add: mask_eq_exp_minus_1)
qed

lemma unpack_datetime_sint:
  "unpack_datetime v =
     ((sint v div 2 ^ 48) mod 65536, (sint v div 2 ^ 40) mod 256, (sint v div 2 ^ 32) mod 256,
      (sint v div 2 ^ 24) mod 256, (sint v div 2 ^ 16) mod 256, (sint v div 2 ^ 8) mod 256)"
  by (simp only: unpack_datetime_def uint_field)

lemma byte_add_div_mod:
  "0 \<le> b \<Longrightarrow> b < 256 \<Longrightarrow> (a * 256 + b) div 256 = (a::int)"
  "0 \<le> b \<Longrightarrow> b < 256 \<Longrightarrow> (a * 256 + b) mod 256 = (b::int)"
  "a * 256 div 256 = (a::int)"
  by simp_all

lemma unpack_pack_fields:
  assumes "datetime_fields_ok y mo d h mi s"
  shows "unpack_datetime (pack_datetime y mo d h mi s) = (y, mo, d, h, mi, s)"
proof -
  have p: "x div 2 ^ 8 = x div 256" "x div 2 ^ 16 = x div 256 div 256"
    "x div 2 ^ 24 = x div 256 div 256 div 256"
    "x div 2 ^ 32 = x div 256 div 256 div 256 div 256"
    "x div 2 ^ 40 = x div 256 div 256 div 256 div 256 div 256"
    "x div 2 ^ 48 = x div 256 div 256 div 256 div 256 div 256 div 256" for x :: int
    by (simp_all add: zdiv_zmult2_eq[symmetric])
  have b: "0 \<le> mo" "mo < 256" "0 \<le> d" "d < 256" "0 \<le> h" "h < 256" "0 \<le> mi" "mi < 256"
    "0 \<le> s" "s < 256" "y mod 65536 = y"
    using assms by (simp_all add: datetime_fields_ok_def)
  show ?thesis
    unfolding unpack_datetime_sint sint_pack_datetime[OF assms] p datetime_num_def
    by (simp only: byte_add_div_mod b)
qed

section \<open>Order\<close>

text \<open>Calendar order of two field tuples.\<close>

definition datetime_less :: "int \<times> int \<times> int \<times> int \<times> int \<times> int \<Rightarrow>
    int \<times> int \<times> int \<times> int \<times> int \<times> int \<Rightarrow> bool" where
  "datetime_less = (\<lambda>(y, mo, d, h, mi, s) (y', mo', d', h', mi', s').
     y < y' \<or> y = y' \<and> (mo < mo' \<or> mo = mo' \<and> (d < d' \<or> d = d' \<and> (h < h' \<or> h = h' \<and>
       (mi < mi' \<or> mi = mi' \<and> s < s')))))"

lemma byte_add_less_iff:
  "0 \<le> b \<Longrightarrow> b < 256 \<Longrightarrow> 0 \<le> b' \<Longrightarrow> b' < 256 \<Longrightarrow>
   (a * 256 + b < a' * 256 + b') \<longleftrightarrow> (a < a' \<or> a = a' \<and> b < (b'::int))"
  by auto

lemma byte_add_eq_iff:
  "0 \<le> b \<Longrightarrow> b < 256 \<Longrightarrow> 0 \<le> b' \<Longrightarrow> b' < 256 \<Longrightarrow>
   (a * 256 + b = a' * 256 + b') \<longleftrightarrow> (a = a' \<and> b = (b'::int))"
  by (cases a a' rule: linorder_cases) auto

lemma datetime_num_less_iff:
  assumes "datetime_fields_ok y mo d h mi s" and "datetime_fields_ok y' mo' d' h' mi' s'"
  shows "datetime_num y mo d h mi s < datetime_num y' mo' d' h' mi' s' \<longleftrightarrow>
    datetime_less (y, mo, d, h, mi, s) (y', mo', d', h', mi', s')"
proof -
  have b: "0 \<le> mo" "mo < 256" "0 \<le> d" "d < 256" "0 \<le> h" "h < 256" "0 \<le> mi" "mi < 256"
    "0 \<le> s" "s < 256" "0 \<le> mo'" "mo' < 256" "0 \<le> d'" "d' < 256" "0 \<le> h'" "h' < 256"
    "0 \<le> mi'" "mi' < 256" "0 \<le> s'" "s' < 256"
    using assms by (simp_all add: datetime_fields_ok_def)
  have z: "x * 256 < x' * 256 \<longleftrightarrow> x < x'" for x x' :: int by auto
  show ?thesis
    unfolding datetime_num_def z by (simp only: byte_add_less_iff byte_add_eq_iff b) (auto simp: datetime_less_def)
qed

section \<open>Parsing and printing\<close>

definition datetime_shape :: "string \<Rightarrow> bool" where
  "datetime_shape s \<longleftrightarrow> length s = 19 \<and>
     s ! 4 = CHR ''-'' \<and> s ! 7 = CHR ''-'' \<and> s ! 10 = CHR '' '' \<and> s ! 13 = CHR '':'' \<and>
     s ! 16 = CHR '':'' \<and>
     (\<forall>i \<in> set [0..<19]. i \<in> set datetime_separators \<or> isdigit (s ! i))"

definition datetime_valid :: "int \<Rightarrow> int \<Rightarrow> int \<Rightarrow> int \<Rightarrow> int \<Rightarrow> int \<Rightarrow> bool" where
  "datetime_valid y mo d h mi s \<longleftrightarrow>
     1000 \<le> y \<and> y \<le> 9999 \<and> 1 \<le> mo \<and> mo \<le> 12 \<and> 1 \<le> d \<and>
     (case days_in_month y mo of None \<Rightarrow> False | Some n \<Rightarrow> d \<le> n) \<and>
     0 \<le> h \<and> h \<le> 23 \<and> 0 \<le> mi \<and> mi \<le> 59 \<and> 0 \<le> s \<and> s \<le> 59"

lemma stoi_at_nonneg [simp]: "0 \<le> stoi_at s off n"
  by (simp add: stoi_at_def)

lemma parse_datetime_iff:
  "parse_datetime s = Inr v \<longleftrightarrow>
   datetime_shape s \<and>
   datetime_valid (stoi_at s 0 4) (stoi_at s 5 2) (stoi_at s 8 2) (stoi_at s 11 2)
     (stoi_at s 14 2) (stoi_at s 17 2) \<and>
   v = pack_datetime (stoi_at s 0 4) (stoi_at s 5 2) (stoi_at s 8 2) (stoi_at s 11 2)
     (stoi_at s 14 2) (stoi_at s 17 2)"
  unfolding parse_datetime_def datetime_shape_def datetime_valid_def Let_def
  by (auto split: option.splits if_splits)

lemma parse_datetime_Inl: "parse_datetime s = Inl e \<Longrightarrow> e = InvalidDateTimeError"
  by (auto simp: parse_datetime_def Let_def split: if_splits option.splits)

lemma days_in_month_bound: "days_in_month y mo = Some n \<Longrightarrow> n \<le> 31"
proof -
  assume a: "days_in_month y mo = Some n"
  have "\<forall>x \<in> set days_table. x \<le> 31" by (simp add: days_table_def)
  moreover have "nat mo < length days_table" if "0 \<le> mo" "mo < 13"
    using that by (simp add: days_table_def)
  ultimately show ?thesis
    using a by (auto simp: days_in_month_def split: if_splits)
qed

lemma datetime_valid_fields_ok: "datetime_valid y mo d h mi s \<Longrightarrow> datetime_fields_ok y mo d h mi s"
  using days_in_month_bound[of y mo]
  by (force simp: datetime_valid_def datetime_fields_ok_def split: option.splits)

lemma datetime_shape_split:
  assumes "datetime_shape s"
  shows "s = get_bytes 0 4 s @ ''-'' @ get_bytes 5 2 s @ ''-'' @ get_bytes 8 2 s @ '' '' @
       get_bytes 11 2 s @ '':'' @ get_bytes 14 2 s @ '':'' @ get_bytes 17 2 s"
    and "list_all isdigit (get_bytes 0 4 s @ get_bytes 5 2 s @ get_bytes 8 2 s @ get_bytes 11 2 s @
       get_bytes 14 2 s @ get_bytes 17 2 s)"
proof -
  have "length s = 19"
    using assms by (simp add: datetime_shape_def)
  then obtain a0 a1 a2 a3 a4 a5 a6 a7 a8 a9 a10 a11 a12 a13 a14 a15 a16 a17 a18
    where s: "s = [a0,a1,a2,a3,a4,a5,a6,a7,a8,a9,a10,a11,a12,a13,a14,a15,a16,a17,a18]"
    by (auto simp: numeral_eq_Suc length_Suc_conv)
  show "s = get_bytes 0 4 s @ ''-'' @ get_bytes 5 2 s @ ''-'' @ get_bytes 8 2 s @ '' '' @
       get_bytes 11 2 s @ '':'' @ get_bytes 14 2 s @ '':'' @ get_bytes 17 2 s"
    using assms by (simp add: s datetime_shape_def get_bytes_def)
  show "list_all isdigit (get_bytes 0 4 s @ get_bytes 5 2 s @ get_bytes 8 2 s @ get_bytes 11 2 s @
       get_bytes 14 2 s @ get_bytes 17 2 s)"
    using assms by (simp add: s datetime_shape_def get_bytes_def datetime_separators_def upt_rec)
qed

lemma zero_pad_stoi_at:
  assumes "list_all isdigit (get_bytes off n s)" and "off + n \<le> length s" and "0 < n"
  shows "zero_pad n (nat (stoi_at s off n)) = get_bytes off n s"
  using zero_pad_digits_val[OF assms(1)] assms(2,3) by (simp add: stoi_at_def get_bytes_def)

lemma format_parse:
  assumes "parse_datetime s = Inr v"
  shows "format_datetime v = s"
proof -
  from assms have sh: "datetime_shape s" and ok:
    "datetime_valid (stoi_at s 0 4) (stoi_at s 5 2) (stoi_at s 8 2) (stoi_at s 11 2)
      (stoi_at s 14 2) (stoi_at s 17 2)"
    and v: "v = pack_datetime (stoi_at s 0 4) (stoi_at s 5 2) (stoi_at s 8 2) (stoi_at s 11 2)
      (stoi_at s 14 2) (stoi_at s 17 2)"
    by (simp_all add: parse_datetime_iff)
  from sh have len: "length s = 19" by (simp add: datetime_shape_def)
  note digits = datetime_shape_split(2)[OF sh]
  show ?thesis
    using digits len datetime_shape_split(1)[OF sh, symmetric]
    by (simp add: v format_datetime_def unpack_pack_fields[OF datetime_valid_fields_ok[OF ok]]
        zero_pad_stoi_at)
qed

lemma get_bytes_prefix: "length xs = n \<Longrightarrow> get_bytes 0 n (xs @ ys) = xs"
  by (simp add: get_bytes_def)

lemma get_bytes_after: "length xs = k \<Longrightarrow> k \<le> off \<Longrightarrow> get_bytes off n (xs @ ys) = get_bytes (off - k) n ys"
  by (simp add: get_bytes_def)

lemma stoi_at_zero_pad:
  "0 < n \<Longrightarrow> 0 \<le> x \<Longrightarrow> x < 10 ^ n \<Longrightarrow> get_bytes off n s = zero_pad n (nat x) \<Longrightarrow> stoi_at s off n = x"
  using zero_pad_ok[of n "nat x"] by (simp add: stoi_at_def nat_less_iff)

lemma datetime_text_shape:
  assumes "length p = 4" "length q = 2" "length r = 2" "length t = 2" "length u = 2" "length w = 2"
    and d: "list_all isdigit (p @ q @ r @ t @ u @ w)"
  defines "s \<equiv> p @ ''-'' @ q @ ''-'' @ r @ '' '' @ t @ '':'' @ u @ '':'' @ w"
  shows "datetime_shape s \<and> get_bytes 0 4 s = p \<and> get_bytes 5 2 s = q \<and> get_bytes 8 2 s = r \<and>
    get_bytes 11 2 s = t \<and> get_bytes 14 2 s = u \<and> get_bytes 17 2 s = w"
proof -
  obtain p0 p1 p2 p3 where p: "p = [p0, p1, p2, p3]"
    using assms(1) by (auto simp: numeral_eq_Suc length_Suc_conv)
  have two: "\<exists>x y. xs = [x, y]" if "length xs = 2" for xs :: string
    using that by (auto simp: numeral_eq_Suc length_Suc_conv)
  obtain q0 q1 r0 r1 t0 t1 u0 u1 w0 w1 where
    e: "q = [q0, q1]" "r = [r0, r1]" "t = [t0, t1]" "u = [u0, u1]" "w = [w0, w1]"
    using two assms(2-6) by metis
  show ?thesis
    using d by (simp add: s_def p e datetime_shape_def get_bytes_def datetime_separators_def upt_rec)
qed

lemma parse_format:
  assumes "datetime_valid y mo d h mi s"
  shows "parse_datetime (format_datetime (pack_datetime y mo d h mi s)) =
    Inr (pack_datetime y mo d h mi s)"
proof -
  let ?t = "format_datetime (pack_datetime y mo d h mi s)"
  have d31: "d \<le> 31"
    using assms days_in_month_bound[of y mo] by (force simp: datetime_valid_def split: option.splits)
  have r: "0 \<le> y" "y < 10 ^ 4" "0 \<le> mo" "mo < 10 ^ 2" "0 \<le> d" "d < 10 ^ 2"
    "0 \<le> h" "h < 10 ^ 2" "0 \<le> mi" "mi < 10 ^ 2" "0 \<le> s" "s < 10 ^ 2"
    using assms d31 by (simp_all add: datetime_valid_def)
  have t: "?t = zero_pad 4 (nat y) @ ''-'' @ zero_pad 2 (nat mo) @ ''-'' @ zero_pad 2 (nat d) @
      '' '' @ zero_pad 2 (nat h) @ '':'' @ zero_pad 2 (nat mi) @ '':'' @ zero_pad 2 (nat s)"
    by (simp add: format_datetime_def unpack_pack_fields[OF datetime_valid_fields_ok[OF assms]])
  have z: "length (zero_pad n (nat x)) = n" "list_all isdigit (zero_pad n (nat x))"
    if "0 < n" "0 \<le> x" "x < 10 ^ n" for n x
    using zero_pad_ok[of n "nat x"] that by (simp_all add: nat_less_iff)
  have "datetime_shape ?t \<and> get_bytes 0 4 ?t = zero_pad 4 (nat y) \<and>
      get_bytes 5 2 ?t = zero_pad 2 (nat mo) \<and> get_bytes 8 2 ?t = zero_pad 2 (nat d) \<and>
      get_bytes 11 2 ?t = zero_pad 2 (nat h) \<and> get_bytes 14 2 ?t = zero_pad 2 (nat mi) \<and>
      get_bytes 17 2 ?t = zero_pad 2 (nat s)"
    unfolding t using z r by (intro datetime_text_shape) simp_all
  with r have "datetime_shape ?t" "stoi_at ?t 0 4 = y" "stoi_at ?t 5 2 = mo" "stoi_at ?t 8 2 = d"
    "stoi_at ?t 11 2 = h" "stoi_at ?t 14 2 = mi" "stoi_at ?t 17 2 = s"
    by (simp_all add: stoi_at_zero_pad)
  with assms show ?thesis by (simp add: parse_datetime_iff)
qed

section \<open>Properties\<close>

text \<open>C21: \<^verbatim>\<open>parse_datetime\<close> accepts exactly the texts that \<^verbatim>\<open>format_datetime\<close> prints for a valid
  calendar date and time (years 1000 to 9999, the month's own number of days), and returns the
  packed value whose printed form is that text.\<close>

theorem datetime_text_roundtrip:
  "parse_datetime t = Inr v \<longleftrightarrow>
   (\<exists>y mo d h mi s. datetime_valid y mo d h mi s \<and> v = pack_datetime y mo d h mi s \<and>
      t = format_datetime v)"
  using format_parse[of t v] parse_format parse_datetime_iff[of t v] by metis

text \<open>C22: The packed form compares, as the signed 64-bit integer the index compares, in calendar
  order, and unpacking returns the fields that were packed.\<close>

theorem datetime_pack_order:
  assumes "datetime_fields_ok y mo d h mi s" and "datetime_fields_ok y' mo' d' h' mi' s'"
  shows "(sint (pack_datetime y mo d h mi s) < sint (pack_datetime y' mo' d' h' mi' s')) =
    datetime_less (unpack_datetime (pack_datetime y mo d h mi s))
      (unpack_datetime (pack_datetime y' mo' d' h' mi' s')) \<and>
    unpack_datetime (pack_datetime y mo d h mi s) = (y, mo, d, h, mi, s)"
  using assms by (simp_all add: sint_pack_datetime unpack_pack_fields datetime_num_less_iff)

theorem datetime_pack_order_witness:
  "datetime_fields_ok 2023 5 18 9 30 0 \<and> datetime_fields_ok 2023 5 18 10 0 0 \<and>
   sint (pack_datetime 2023 5 18 9 30 0) < sint (pack_datetime 2023 5 18 10 0 0)"
proof -
  have a: "datetime_fields_ok 2023 5 18 9 30 0" and b: "datetime_fields_ok 2023 5 18 10 0 0"
    by (simp_all add: datetime_fields_ok_def)
  show ?thesis
    using a b datetime_pack_order[OF a b] datetime_pack_order[OF b a]
    by (simp add: datetime_less_def)
qed

end
