(* ===== verification/Meta.thy ===== *)
theory Meta
  imports LogManager Datetime
begin

text \<open>
  Values, columns and catalogue: \<^verbatim>\<open>common/common.h\<close> (values and conditions), \<^verbatim>\<open>system/sm_meta.h\<close>
  (column, index, table and database metadata with their text format), the key comparison of
  \<^verbatim>\<open>index/ix_index_handle.h\<close> and the pure helpers of \<^verbatim>\<open>execution/executor_utils.h\<close>. A \<^verbatim>\<open>float\<close> is its
  32-bit pattern, compared as IEEE 754 prescribes. Input streams are the characters still to be read;
  an extraction that sets the fail bit is \<open>None\<close>.
\<close>

section \<open>Floating-point comparison\<close>

type_synonym f32 = "32 word"

definition f32_nan :: "f32 \<Rightarrow> bool" where
  "f32_nan x \<longleftrightarrow> uint (x AND 0x7FFFFFFF) > 0x7F800000"

text \<open>The position of a number on the real line: magnitude bits with the sign; both zeros are 0.\<close>

definition f32_rank :: "f32 \<Rightarrow> int" where
  "f32_rank x = (let m = uint (x AND 0x7FFFFFFF) in if bit x 31 then - m else m)"

definition f32_less :: "f32 \<Rightarrow> f32 \<Rightarrow> bool" where
  "f32_less a b \<longleftrightarrow> \<not> f32_nan a \<and> \<not> f32_nan b \<and> f32_rank a < f32_rank b"

definition dec_f32 :: "byte list \<Rightarrow> f32" where
  "dec_f32 bs = word_of_int (le_uint (take 4 bs))"

section \<open>Values and conditions\<close>

record TabCol =
  tc_tab_name :: string
  tc_col_name :: string

text \<open>\<^verbatim>\<open>std::string::operator<\<close>: lexicographic on unsigned characters.\<close>

fun str_less :: "string \<Rightarrow> string \<Rightarrow> bool" where
  "str_less s [] = False"
| "str_less [] (c # t) = True"
| "str_less (b # s) (c # t) =
     ((of_char b :: nat) < of_char c \<or> b = c \<and> str_less s t)"

definition TabCol_less :: "TabCol \<Rightarrow> TabCol \<Rightarrow> bool" where
  "TabCol_less x y \<longleftrightarrow> str_less (tc_tab_name x) (tc_tab_name y) \<or>
     tc_tab_name x = tc_tab_name y \<and> str_less (tc_col_name x) (tc_col_name y)"

datatype AggType = AGG_COUNT | AGG_SUM | AGG_MAX | AGG_MIN

record AggSpec =
  agg_type :: AggType
  agg_col :: TabCol
  is_star :: bool

datatype SelKind = SEL_COL | SEL_AGG

record SelItem =
  sel_kind :: SelKind
  sel_col :: TabCol
  sel_agg :: AggSpec
  sel_alias :: string

text \<open>The active member of the union in \<^verbatim>\<open>Value\<close>.\<close>

datatype value_union = NoVal | int_val int | bigint_val int | float_val f32

record Value =
  val_type :: ColType
  val_num :: value_union
  str_val :: string
  raw :: "RmRecord option"

definition set_int :: "int \<Rightarrow> Value \<Rightarrow> Value" where
  "set_int i v = v\<lparr>val_type := TYPE_INT, val_num := int_val i\<rparr>"

definition set_bigint :: "int \<Rightarrow> Value \<Rightarrow> Value" where
  "set_bigint i v = v\<lparr>val_type := TYPE_BIGINT, val_num := bigint_val i\<rparr>"

definition set_float :: "f32 \<Rightarrow> Value \<Rightarrow> Value" where
  "set_float f v = v\<lparr>val_type := TYPE_FLOAT, val_num := float_val f\<rparr>"

definition set_str :: "string \<Rightarrow> Value \<Rightarrow> Value" where
  "set_str s v = v\<lparr>val_type := TYPE_STRING, str_val := s\<rparr>"

definition set_datetime :: "int \<Rightarrow> Value \<Rightarrow> Value" where
  "set_datetime i v = v\<lparr>val_type := TYPE_DATETIME, val_num := bigint_val i\<rparr>"

text \<open>The bytes of the union's member that \<^verbatim>\<open>init_raw\<close> reads for a type; reading another member than the
  one that was set is undefined.\<close>

fun union_bytes :: "ColType \<Rightarrow> value_union \<Rightarrow> byte list res" where
  "union_bytes TYPE_INT (int_val i) = Inr (enc_int i)"
| "union_bytes TYPE_BIGINT (bigint_val i) = Inr (enc_int64 i)"
| "union_bytes TYPE_FLOAT (float_val f) = Inr (le_bytes 4 (uint f))"
| "union_bytes TYPE_DATETIME (bigint_val i) = Inr (enc_int64 i)"
| "union_bytes _ _ = Inl UndefinedBehaviour"

definition type_size :: "ColType \<Rightarrow> int" where
  "type_size t = (case t of TYPE_INT \<Rightarrow> 4 | TYPE_FLOAT \<Rightarrow> 4 | _ \<Rightarrow> 8)"

definition init_raw :: "int \<Rightarrow> Value \<Rightarrow> Value res" where
  "init_raw len v =
     (if raw v \<noteq> None then Inl AssertFailure
      else if val_type v = TYPE_STRING then
        (if len < int (length (str_val v)) then Inl (RMDBError StringOverflowError)
         else Inr (v\<lparr>raw := Some \<lparr>rec_data = put_bytes 0 (str_bytes (str_val v)) (replicate (nat len) 0),
                                 rec_size = len\<rparr>\<rparr>))
      else if len \<noteq> type_size (val_type v) then Inl AssertFailure
      else rbind (union_bytes (val_type v) (val_num v)) (\<lambda>b.
             Inr (v\<lparr>raw := Some \<lparr>rec_data = b, rec_size = len\<rparr>\<rparr>)))"

datatype CompOp = OP_EQ | OP_NE | OP_LT | OP_GT | OP_LE | OP_GE

record Condition =
  lhs_col :: TabCol
  cond_op :: CompOp
  is_rhs_val :: bool
  rhs_col :: TabCol
  rhs_val :: Value

record SetClause =
  set_lhs :: TabCol
  set_rhs :: Value

section \<open>Comparing keys\<close>

text \<open>\<^verbatim>\<open>memcmp\<close>, up to the magnitude of a non-zero result.\<close>

fun memcmp :: "byte list \<Rightarrow> byte list \<Rightarrow> int" where
  "memcmp (a # as) (b # bs) = (if a < b then -1 else if b < a then 1 else memcmp as bs)"
| "memcmp _ _ = 0"

definition cmp3 :: "('a \<Rightarrow> 'a \<Rightarrow> bool) \<Rightarrow> 'a \<Rightarrow> 'a \<Rightarrow> int" where
  "cmp3 lt a b = (if lt a b then -1 else if lt b a then 1 else 0)"

fun ix_compare1 :: "byte list \<Rightarrow> byte list \<Rightarrow> ColType \<Rightarrow> nat \<Rightarrow> int" where
  "ix_compare1 a b TYPE_INT len = cmp3 (<) (le_sint (take 4 a)) (le_sint (take 4 b))"
| "ix_compare1 a b TYPE_BIGINT len = cmp3 (<) (le_sint (take 8 a)) (le_sint (take 8 b))"
| "ix_compare1 a b TYPE_FLOAT len = cmp3 f32_less (dec_f32 a) (dec_f32 b)"
| "ix_compare1 a b TYPE_STRING len = memcmp (take len a) (take len b)"
| "ix_compare1 a b TYPE_DATETIME len = cmp3 (<) (le_sint (take 8 a)) (le_sint (take 8 b))"

fun ix_compare :: "byte list \<Rightarrow> byte list \<Rightarrow> (ColType \<times> nat) list \<Rightarrow> int" where
  "ix_compare a b [] = 0"
| "ix_compare a b ((t, len) # cols) =
     (let res = ix_compare1 a b t len
      in if res \<noteq> 0 then res else ix_compare (drop len a) (drop len b) cols)"

section \<open>Metadata\<close>

record ColMeta =
  cm_tab_name :: string
  cm_name :: string
  cm_type :: ColType
  cm_len :: int
  cm_offset :: int
  cm_index :: bool

record IndexMeta =
  im_tab_name :: string
  col_tot_len :: int
  col_num :: int
  im_cols :: "ColMeta list"

record TabMeta =
  tm_name :: string
  tm_cols :: "ColMeta list"
  tm_indexes :: "IndexMeta list"

text \<open>\<^verbatim>\<open>tabs_\<close> is a \<^verbatim>\<open>std::map\<close>: a list of entries in key order.\<close>

record DbMeta =
  db_name :: string
  tabs :: "(string \<times> TabMeta) list"

definition is_col :: "string \<Rightarrow> TabMeta \<Rightarrow> bool" where
  "is_col col_name t \<longleftrightarrow> find (\<lambda>c. cm_name c = col_name) (tm_cols t) \<noteq> None"

definition get_col :: "string \<Rightarrow> TabMeta \<Rightarrow> ColMeta res" where
  "get_col col_name t =
     (case find (\<lambda>c. cm_name c = col_name) (tm_cols t) of
        Some c \<Rightarrow> Inr c | None \<Rightarrow> Inl (RMDBError (ColumnNotFoundError col_name)))"

text \<open>The inner loop of \<^verbatim>\<open>is_index\<close> and \<^verbatim>\<open>get_index_meta\<close>: the columns' names against the names asked for.\<close>

fun cols_match :: "string list \<Rightarrow> ColMeta list \<Rightarrow> bool res" where
  "cols_match [] cs = Inr True"
| "cols_match (n # ns) [] = Inl UndefinedBehaviour"
| "cols_match (n # ns) (c # cs) = (if cm_name c \<noteq> n then Inr False else cols_match ns cs)"

fun index_pos :: "string list \<Rightarrow> IndexMeta list \<Rightarrow> nat option res" where
  "index_pos ns [] = Inr None"
| "index_pos ns (i # is) =
     (if col_num i = int (length ns)
      then rbind (cols_match ns (im_cols i)) (\<lambda>b.
             if b then Inr (Some 0) else rbind (index_pos ns is) (\<lambda>p. Inr (map_option Suc p)))
      else rbind (index_pos ns is) (\<lambda>p. Inr (map_option Suc p)))"

definition is_index :: "string list \<Rightarrow> TabMeta \<Rightarrow> bool res" where
  "is_index col_names t = rbind (index_pos col_names (tm_indexes t)) (\<lambda>p. Inr (p \<noteq> None))"

definition get_index_meta :: "string list \<Rightarrow> TabMeta \<Rightarrow> nat res" where
  "get_index_meta col_names t =
     rbind (index_pos col_names (tm_indexes t)) (\<lambda>p.
       case p of Some i \<Rightarrow> Inr i | None \<Rightarrow> Inl (RMDBError (IndexNotFoundError (tm_name t) col_names)))"

definition is_table :: "string \<Rightarrow> DbMeta \<Rightarrow> bool" where
  "is_table tab_name db \<longleftrightarrow> map_of (tabs db) tab_name \<noteq> None"

definition get_table :: "string \<Rightarrow> DbMeta \<Rightarrow> TabMeta res" where
  "get_table tab_name db =
     (case map_of (tabs db) tab_name of
        Some t \<Rightarrow> Inr t | None \<Rightarrow> Inl (RMDBError (TableNotFoundError tab_name)))"

text \<open>\<^verbatim>\<open>tabs_[k] = v\<close> keeps the entries in key order.\<close>

fun tabs_put :: "string \<Rightarrow> 'v \<Rightarrow> (string \<times> 'v) list \<Rightarrow> (string \<times> 'v) list" where
  "tabs_put k v [] = [(k, v)]"
| "tabs_put k v ((k', v') # es) =
     (if k = k' then (k, v) # es
      else if str_less k k' then (k, v) # (k', v') # es
      else (k', v') # tabs_put k v es)"

definition SetTabMeta :: "string \<Rightarrow> TabMeta \<Rightarrow> DbMeta \<Rightarrow> DbMeta" where
  "SetTabMeta tab_name meta db = db\<lparr>tabs := tabs_put tab_name meta (tabs db)\<rparr>"

section \<open>Writing metadata\<close>

definition NL :: string where "NL = [CHR 0x0A]"

fun coltype_int :: "ColType \<Rightarrow> int" where
  "coltype_int TYPE_INT = 0"
| "coltype_int TYPE_FLOAT = 1"
| "coltype_int TYPE_BIGINT = 2"
| "coltype_int TYPE_STRING = 3"
| "coltype_int TYPE_DATETIME = 4"

definition put_ColMeta :: "ColMeta \<Rightarrow> string" where
  "put_ColMeta c = cm_tab_name c @ '' '' @ cm_name c @ '' '' @ to_string (coltype_int (cm_type c)) @ '' '' @
     to_string (cm_len c) @ '' '' @ to_string (cm_offset c) @ '' '' @ to_string (if cm_index c then 1 else 0)"

definition put_IndexMeta :: "IndexMeta \<Rightarrow> string" where
  "put_IndexMeta i = im_tab_name i @ '' '' @ to_string (col_tot_len i) @ '' '' @ to_string (col_num i) @
     concat (map (\<lambda>c. NL @ put_ColMeta c) (im_cols i))"

definition put_TabMeta :: "TabMeta \<Rightarrow> string" where
  "put_TabMeta t = tm_name t @ NL @ to_string (int (length (tm_cols t))) @ NL @
     concat (map (\<lambda>c. put_ColMeta c @ NL) (tm_cols t)) @
     to_string (int (length (tm_indexes t))) @ NL @
     concat (map (\<lambda>i. put_IndexMeta i @ NL) (tm_indexes t))"

definition put_DbMeta :: "DbMeta \<Rightarrow> string" where
  "put_DbMeta db = db_name db @ NL @ to_string (int (length (tabs db))) @ NL @
     concat (map (\<lambda>(k, t). put_TabMeta t @ NL) (tabs db))"

section \<open>Reading metadata\<close>

definition isspace :: "char \<Rightarrow> bool" where
  "isspace c \<longleftrightarrow> c \<in> {CHR '' '', CHR 0x09, CHR 0x0A, CHR 0x0B, CHR 0x0C, CHR 0x0D}"

type_synonym 'a scanner = "string \<Rightarrow> ('a \<times> string) option"

definition scan_bind :: "'a scanner \<Rightarrow> ('a \<Rightarrow> 'b scanner) \<Rightarrow> 'b scanner" where
  "scan_bind p f s = (case p s of None \<Rightarrow> None | Some (a, s') \<Rightarrow> f a s')"

definition scan_return :: "'a \<Rightarrow> 'a scanner" where
  "scan_return a s = Some (a, s)"

definition scan_word :: "string scanner" where
  "scan_word s =
     (let s1 = dropWhile isspace s; w = takeWhile (\<lambda>c. \<not> isspace c) s1
      in if w = [] then None else Some (w, dropWhile (\<lambda>c. \<not> isspace c) s1))"

definition scan_digits :: "int scanner" where
  "scan_digits s =
     (let ds = takeWhile isdigit s
      in if ds = [] then None else Some (int (digits_val ds), dropWhile isdigit s))"

definition scan_int :: "int scanner" where
  "scan_int s =
     (let s1 = dropWhile isspace s;
          signed = (s1 \<noteq> [] \<and> (hd s1 = CHR ''-'' \<or> hd s1 = CHR ''+''));
          neg = (signed \<and> hd s1 = CHR ''-'')
      in case scan_digits (if signed then tl s1 else s1) of
           Some (v, r) \<Rightarrow> (let i = (if neg then - v else v) in if in_int i then Some (i, r) else None)
         | None \<Rightarrow> None)"

text \<open>The counts are read as \<^verbatim>\<open>size_t\<close>; they are written without a sign.\<close>

definition scan_size :: "nat scanner" where
  "scan_size s =
     (case scan_digits (dropWhile isspace s) of
        Some (v, r) \<Rightarrow> if v < 2 ^ 64 then Some (nat v, r) else None | None \<Rightarrow> None)"

definition scan_bool :: "bool scanner" where
  "scan_bool s =
     (case scan_int s of Some (v, r) \<Rightarrow> if v = 0 then Some (False, r) else if v = 1 then Some (True, r) else None
      | None \<Rightarrow> None)"

text \<open>The enum is read as an \<^verbatim>\<open>int\<close> and cast; other numbers than the enumerators' do not occur in a
  written file and are \<open>None\<close>.\<close>

definition scan_ColType :: "ColType scanner" where
  "scan_ColType s =
     (case scan_int s of
        Some (v, r) \<Rightarrow> map_option (\<lambda>t. (t, r))
          (find (\<lambda>t. coltype_int t = v) [TYPE_INT, TYPE_FLOAT, TYPE_BIGINT, TYPE_STRING, TYPE_DATETIME])
      | None \<Rightarrow> None)"

primrec scan_n :: "nat \<Rightarrow> 'a scanner \<Rightarrow> 'a list scanner" where
  "scan_n 0 p = scan_return []"
| "scan_n (Suc n) p = scan_bind p (\<lambda>x. scan_bind (scan_n n p) (\<lambda>xs. scan_return (x # xs)))"

definition get_ColMeta :: "ColMeta scanner" where
  "get_ColMeta =
     scan_bind scan_word (\<lambda>t. scan_bind scan_word (\<lambda>n. scan_bind scan_ColType (\<lambda>ty.
     scan_bind scan_int (\<lambda>l. scan_bind scan_int (\<lambda>off. scan_bind scan_bool (\<lambda>ix.
     scan_return \<lparr>cm_tab_name = t, cm_name = n, cm_type = ty, cm_len = l, cm_offset = off, cm_index = ix\<rparr>))))))"

definition get_IndexMeta :: "IndexMeta scanner" where
  "get_IndexMeta =
     scan_bind scan_word (\<lambda>t. scan_bind scan_int (\<lambda>l. scan_bind scan_int (\<lambda>n.
     scan_bind (scan_n (nat n) get_ColMeta) (\<lambda>cs.
     scan_return \<lparr>im_tab_name = t, col_tot_len = l, col_num = n, im_cols = cs\<rparr>))))"

definition get_TabMeta :: "TabMeta scanner" where
  "get_TabMeta =
     scan_bind scan_word (\<lambda>name. scan_bind scan_size (\<lambda>n. scan_bind (scan_n n get_ColMeta) (\<lambda>cs.
     scan_bind scan_size (\<lambda>k. scan_bind (scan_n k get_IndexMeta) (\<lambda>is.
     scan_return \<lparr>tm_name = name, tm_cols = cs, tm_indexes = is\<rparr>)))))"

definition get_DbMeta :: "DbMeta scanner" where
  "get_DbMeta =
     scan_bind scan_word (\<lambda>name. scan_bind scan_size (\<lambda>n. scan_bind (scan_n n get_TabMeta) (\<lambda>ts.
     scan_return \<lparr>db_name = name, tabs = foldl (\<lambda>es t. tabs_put (tm_name t) t es) [] ts\<rparr>)))"

section \<open>Evaluating conditions on a record\<close>

fun eval_compare :: "int \<Rightarrow> CompOp \<Rightarrow> bool" where
  "eval_compare cmp OP_EQ \<longleftrightarrow> cmp = 0"
| "eval_compare cmp OP_NE \<longleftrightarrow> cmp \<noteq> 0"
| "eval_compare cmp OP_LT \<longleftrightarrow> cmp < 0"
| "eval_compare cmp OP_GT \<longleftrightarrow> cmp > 0"
| "eval_compare cmp OP_LE \<longleftrightarrow> cmp \<le> 0"
| "eval_compare cmp OP_GE \<longleftrightarrow> cmp \<ge> 0"

text \<open>The bytes the comparison of a type reads behind each of its two pointers.\<close>

definition raw_len :: "ColType \<Rightarrow> int \<Rightarrow> int" where
  "raw_len t len = (if t = TYPE_STRING then len else type_size t)"

definition compare_raw_value :: "byte list \<Rightarrow> byte list \<Rightarrow> ColType \<Rightarrow> int \<Rightarrow> int res" where
  "compare_raw_value lhs rhs t len =
     (if 0 \<le> raw_len t len \<and> raw_len t len \<le> int (length lhs) \<and> raw_len t len \<le> int (length rhs)
      then Inr (ix_compare1 lhs rhs t (nat len)) else Inl UndefinedBehaviour)"

definition eval_condition :: "TabMeta \<Rightarrow> RmRecord \<Rightarrow> Condition \<Rightarrow> bool res" where
  "eval_condition tab rec cond =
     rbind (get_col (tc_col_name (lhs_col cond)) tab) (\<lambda>l.
       let lhs = drop (nat (cm_offset l)) (rec_data rec)
       in rbind
            (if is_rhs_val cond
             then (case raw (rhs_val cond) of
                     Some r \<Rightarrow> Inr (rec_data r, cm_len l) | None \<Rightarrow> Inl UndefinedBehaviour)
             else rbind (get_col (tc_col_name (rhs_col cond)) tab) (\<lambda>r.
                    Inr (drop (nat (cm_offset r)) (rec_data rec), cm_len r)))
            (\<lambda>(rhs, rhs_len).
               rbind (compare_raw_value lhs rhs (cm_type l) rhs_len) (\<lambda>cmp. Inr (eval_compare cmp (cond_op cond)))))"

fun eval_conditions :: "TabMeta \<Rightarrow> RmRecord \<Rightarrow> Condition list \<Rightarrow> bool res" where
  "eval_conditions tab rec [] = Inr True"
| "eval_conditions tab rec (c # cs) =
     rbind (eval_condition tab rec c) (\<lambda>b. if b then eval_conditions tab rec cs else Inr False)"

text \<open>\<^verbatim>\<open>build_index_key\<close> copies the columns of the index one after the other into a zero-filled key.\<close>

fun copy_cols :: "ColMeta list \<Rightarrow> byte list \<Rightarrow> nat \<Rightarrow> byte list \<Rightarrow> byte list res" where
  "copy_cols [] rec off key = Inr key"
| "copy_cols (c # cs) rec off key =
     rbind (if cm_offset c < 0 then Inl UndefinedBehaviour else read_at (nat (cm_offset c)) (cm_len c) rec) (\<lambda>b.
     rbind (memcpy_to off b key) (copy_cols cs rec (off + length b)))"

definition build_index_key :: "IndexMeta \<Rightarrow> byte list \<Rightarrow> byte list res" where
  "build_index_key index record_data =
     copy_cols (im_cols index) record_data 0 (replicate (nat (col_tot_len index)) 0)"

definition index_col_meta :: "IndexMeta \<Rightarrow> (ColType \<times> nat) list" where
  "index_col_meta index = map (\<lambda>c. (cm_type c, nat (cm_len c))) (im_cols index)"

section \<open>Scanning what was printed\<close>

lemma nat_to_string_digits: "list_all isdigit (nat_to_string n) \<and> nat_to_string n \<noteq> [] \<and> digits_val (nat_to_string n) = n"
proof (induction n rule: nat_to_string.induct)
  case (1 n)
  show ?case
  proof (cases "n < 10")
    case True
    then show ?thesis using digits_val_snoc[of "[]" "digit_char n"] by (simp add: nat_to_string.simps[of n])
  next
    case False
    with 1 show ?thesis by (simp add: nat_to_string.simps[of n])
  qed
qed

definition spaces :: "string \<Rightarrow> bool" where
  "spaces w \<longleftrightarrow> list_all isspace w"

definition delim :: "string \<Rightarrow> bool" where
  "delim s \<longleftrightarrow> s = [] \<or> isspace (hd s)"

lemma spaces_simps [simp]: "spaces []" "spaces (c # w) \<longleftrightarrow> isspace c \<and> spaces w" "spaces (v @ w) \<longleftrightarrow> spaces v \<and> spaces w"
  by (simp_all add: spaces_def)

lemma isspace_NL [simp]: "isspace (CHR 0x0A)" "isspace (CHR '' '')"
  by (simp_all add: isspace_def)

lemma delim_simps [simp]: "delim []" "delim (c # s) \<longleftrightarrow> isspace c"
  by (simp_all add: delim_def)

lemma isdigit_not_space: "isdigit c \<Longrightarrow> \<not> isspace c"
  by (auto simp: isspace_def isdigit_def)

text \<open>\<open>reads p x v\<close>: from \<open>x\<close> and a delimiter, with white space in front, \<open>p\<close> extracts \<open>v\<close>;
  \<open>reads_nl\<close>: the same for a text that brings its own delimiter.\<close>

definition reads :: "'a scanner \<Rightarrow> string \<Rightarrow> 'a \<Rightarrow> bool" where
  "reads p x v \<longleftrightarrow> (\<forall>w s. spaces w \<and> delim s \<longrightarrow> (\<exists>w'. spaces w' \<and> p (w @ x @ s) = Some (v, w' @ s)))"

definition reads_nl :: "'a scanner \<Rightarrow> string \<Rightarrow> 'a \<Rightarrow> bool" where
  "reads_nl p x v \<longleftrightarrow> (\<forall>w s. spaces w \<longrightarrow> (\<exists>w'. spaces w' \<and> p (w @ x @ s) = Some (v, w' @ s)))"

lemma reads_close: "reads p x v \<Longrightarrow> isspace c \<Longrightarrow> reads_nl p (x @ [c]) v"
  unfolding reads_def reads_nl_def
proof (intro allI impI)
  fix w s assume r: "\<forall>w s. spaces w \<and> delim s \<longrightarrow> (\<exists>w'. spaces w' \<and> p (w @ x @ s) = Some (v, w' @ s))"
    and c: "isspace c" and w: "spaces w"
  then obtain w' where "spaces w'" "p (w @ x @ c # s) = Some (v, w' @ c # s)"
    by (metis delim_simps(2))
  with c show "\<exists>w'. spaces w' \<and> p (w @ (x @ [c]) @ s) = Some (v, w' @ s)"
    by (intro exI[of _ "w' @ [c]"]) simp
qed

lemma reads_nl_bind: "reads_nl p x v \<Longrightarrow> reads_nl (f v) y u \<Longrightarrow> reads_nl (scan_bind p f) (x @ y) u"
  unfolding reads_nl_def scan_bind_def by (metis append.assoc case_prod_conv option.simps(5))

lemma reads_bind_nl: "reads_nl p x v \<Longrightarrow> reads (f v) y u \<Longrightarrow> reads (scan_bind p f) (x @ y) u"
  unfolding reads_nl_def reads_def scan_bind_def by (metis append.assoc case_prod_conv option.simps(5))

lemma reads_bind:
  assumes "reads p x v" and "reads (f v) y u" and "\<And>s. delim s \<Longrightarrow> delim (y @ s)"
  shows "reads (scan_bind p f) (x @ y) u"
  unfolding reads_def
proof (intro allI impI)
  fix w s assume ws: "spaces w \<and> delim s"
  then obtain w' where w': "spaces w'" "p (w @ x @ y @ s) = Some (v, w' @ y @ s)"
    using assms(1,3) unfolding reads_def by blast
  then obtain w2 where "spaces w2" "f v (w' @ y @ s) = Some (u, w2 @ s)"
    using assms(2) ws unfolding reads_def by blast
  with w' show "\<exists>w'. spaces w' \<and> scan_bind p f (w @ (x @ y) @ s) = Some (u, w' @ s)"
    by (simp add: scan_bind_def)
qed

lemma reads_return: "reads (scan_return v) [] v" "reads_nl (scan_return v) [] v"
  by (auto simp: reads_def reads_nl_def scan_return_def)

lemma reads_map: "reads p x v \<Longrightarrow> reads (scan_bind p (\<lambda>a. scan_return (g a))) x (g v)"
  using reads_bind[of p x v "\<lambda>a. scan_return (g a)" "[]" "g v"] reads_return(1)[of "g v"] by simp

lemma reads_nl_map: "reads_nl p x v \<Longrightarrow> reads_nl (scan_bind p (\<lambda>a. scan_return (g a))) x (g v)"
  using reads_nl_bind[of p x v "\<lambda>a. scan_return (g a)" "[]" "g v"] reads_return(2)[of "g v"] by simp

lemma reads_front: "reads p x v \<Longrightarrow> spaces u \<Longrightarrow> reads p (u @ x) v"
  unfolding reads_def by (metis append.assoc spaces_simps(3))

lemma dropWhile_spaces: "spaces w \<Longrightarrow> dropWhile isspace (w @ s) = dropWhile isspace s"
  by (induction w) auto

lemma dropWhile_start: "x \<noteq> [] \<Longrightarrow> \<not> P (hd x) \<Longrightarrow> dropWhile P (x @ s) = x @ s"
  by (cases x) auto

lemma takeWhile_word:
  assumes "list_all (\<lambda>c. \<not> P c) x" and "s = [] \<or> P (hd s)"
  shows "takeWhile (\<lambda>c. \<not> P c) (x @ s) = x" "dropWhile (\<lambda>c. \<not> P c) (x @ s) = s"
  using assms by (induction x) (cases s; auto)+

definition name_word :: "string \<Rightarrow> bool" where
  "name_word x \<longleftrightarrow> x \<noteq> [] \<and> list_all (\<lambda>c. \<not> isspace c) x"

lemma reads_word:
  assumes "name_word x"
  shows "reads scan_word x x"
  unfolding reads_def
proof (intro allI impI)
  fix w s assume ws: "spaces w \<and> delim s"
  have x: "x \<noteq> []" "list_all (\<lambda>c. \<not> isspace c) x" using assms by (simp_all add: name_word_def)
  then have "dropWhile isspace (w @ x @ s) = x @ s"
    using ws by (subst dropWhile_spaces) (auto simp: dropWhile_start list_all_iff)
  then show "\<exists>w'. spaces w' \<and> scan_word (w @ x @ s) = Some (x, w' @ s)"
    using x takeWhile_word[of isspace x s] ws by (simp add: scan_word_def delim_def)
qed

lemma scan_digits_nat:
  assumes "s = [] \<or> \<not> isdigit (hd s)"
  shows "scan_digits (nat_to_string n @ s) = Some (int n, s)"
  using nat_to_string_digits[of n] assms takeWhile_word[of "\<lambda>c. \<not> isdigit c" "nat_to_string n" s]
  by (simp add: scan_digits_def)

lemma delim_not_digit: "delim s \<Longrightarrow> s = [] \<or> \<not> isdigit (hd s)"
  using isdigit_not_space by (auto simp: delim_def)

lemma hd_nat_to_string: "isdigit (hd (nat_to_string n))"
  using nat_to_string_digits[of n] by (metis list_all_iff list.set_sel(1))

lemma reads_int:
  assumes "in_int i"
  shows "reads scan_int (to_string i) i"
  unfolding reads_def
proof (intro allI impI)
  fix w s assume ws: "spaces w \<and> delim s"
  have nd: "s = [] \<or> \<not> isdigit (hd s)" using ws delim_not_digit by blast
  have ne: "nat_to_string n \<noteq> []" for n using nat_to_string_digits[of n] by simp
  show "\<exists>w'. spaces w' \<and> scan_int (w @ to_string i @ s) = Some (i, w' @ s)"
  proof (cases "i < 0")
    case True
    have "dropWhile isspace (w @ to_string i @ s) = CHR ''-'' # nat_to_string (nat (- i)) @ s"
      using ws True by (subst dropWhile_spaces) (simp_all add: to_string_def isspace_def)
    with True assms show ?thesis
      using scan_digits_nat[OF nd, of "nat (- i)"] by (simp add: scan_int_def)
  next
    case False
    obtain c cs where c: "nat_to_string (nat i) = c # cs" "isdigit c"
      using ne[of "nat i"] hd_nat_to_string[of "nat i"] by (cases "nat_to_string (nat i)") auto
    have "dropWhile isspace (w @ to_string i @ s) = c # cs @ s"
      using ws False c isdigit_not_space by (subst dropWhile_spaces) (simp_all add: to_string_def)
    moreover have "c \<noteq> CHR ''-''" "c \<noteq> CHR ''+''" using c(2) by (auto simp: isdigit_def)
    ultimately have "scan_int (w @ to_string i @ s) = Some (i, s)"
      using scan_digits_nat[OF nd, of "nat i"] c False assms
      by (simp add: scan_int_def Let_def)
    then show ?thesis by simp
  qed
qed

lemma reads_size:
  assumes "int n < 2 ^ 64"
  shows "reads scan_size (to_string (int n)) n"
  unfolding reads_def
proof (intro allI impI)
  fix w s assume ws: "spaces w \<and> delim s"
  have nd: "s = [] \<or> \<not> isdigit (hd s)" using ws delim_not_digit by blast
  have "dropWhile isspace (w @ to_string (int n) @ s) = nat_to_string n @ s"
    using ws hd_nat_to_string[of n] nat_to_string_digits[of n] isdigit_not_space
    by (subst dropWhile_spaces) (auto simp: to_string_def dropWhile_start)
  then show "\<exists>w'. spaces w' \<and> scan_size (w @ to_string (int n) @ s) = Some (n, w' @ s)"
    using scan_digits_nat[OF nd, of n] assms by (simp add: scan_size_def)
qed

lemma reads_via_int:
  assumes "in_int i" and "\<And>s r. scan_int s = Some (i, r) \<Longrightarrow> p s = Some (v, r)"
  shows "reads p (to_string i) v"
  using reads_int[OF assms(1)] assms(2) unfolding reads_def by metis

lemma reads_bool: "reads scan_bool (to_string (if b then 1 else 0)) b"
  by (rule reads_via_int) (auto simp: in_int_small_num scan_bool_def)

lemma reads_ColType: "reads scan_ColType (to_string (coltype_int t)) t"
  by (rule reads_via_int; cases t) (auto simp: in_int_small_num scan_ColType_def)

lemma reads_n_nl:
  "\<forall>x \<in> set xs. reads_nl p (txt x) x \<Longrightarrow> reads_nl (scan_n (length xs) p) (concat (map txt xs)) xs"
proof (induction xs)
  case Nil
  then show ?case by (simp add: reads_return)
next
  case (Cons x xs)
  then have "reads_nl (scan_bind (scan_n (length xs) p) (\<lambda>ys. scan_return (x # ys))) (concat (map txt xs)) (x # xs)"
    by (intro reads_nl_map) simp
  with Cons.prems show ?case
    using reads_nl_bind[of p "txt x" x "\<lambda>x. scan_bind (scan_n (length xs) p) (\<lambda>ys. scan_return (x # ys))"] by simp
qed

lemma delim_NL_list: "delim s \<Longrightarrow> delim (concat (map (\<lambda>x. NL @ txt x) xs) @ s)"
  by (cases xs) (simp_all add: NL_def)

lemma reads_n_pre:
  "\<forall>x \<in> set xs. reads p (txt x) x \<Longrightarrow> reads (scan_n (length xs) p) (concat (map (\<lambda>x. NL @ txt x) xs)) xs"
proof (induction xs)
  case Nil
  then show ?case by (simp add: reads_return)
next
  case (Cons x xs)
  have "reads (scan_bind (scan_n (length xs) p) (\<lambda>ys. scan_return (x # ys)))
      (concat (map (\<lambda>x. NL @ txt x) xs)) (x # xs)"
    using Cons by (intro reads_map) simp
  moreover have "reads p (NL @ txt x) x"
    using Cons.prems by (intro reads_front) (simp_all add: NL_def)
  ultimately show ?case
    using reads_bind[of p "NL @ txt x" x "\<lambda>x. scan_bind (scan_n (length xs) p) (\<lambda>ys. scan_return (x # ys))"
        "concat (map (\<lambda>x. NL @ txt x) xs)"] by (simp add: delim_NL_list)
qed

text \<open>One blank or newline behind each item, in the nesting of the text and of the scanner.\<close>

lemma reads_sp: "reads p x v \<Longrightarrow> reads (f v) y u \<Longrightarrow> reads (scan_bind p f) (x @ '' '' @ y) u"
  using reads_bind_nl[OF reads_close[of p x v "CHR '' ''"], of f y u] by simp

lemma reads_line: "reads p x v \<Longrightarrow> reads_nl (f v) y u \<Longrightarrow> reads_nl (scan_bind p f) (x @ NL @ y) u"
  using reads_nl_bind[OF reads_close[of p x v "CHR 0x0A"], of f y u] by (simp add: NL_def)

section \<open>Metadata that can be written and read back\<close>

definition col_ok :: "ColMeta \<Rightarrow> bool" where
  "col_ok c \<longleftrightarrow> name_word (cm_tab_name c) \<and> name_word (cm_name c) \<and> in_int (cm_len c) \<and> in_int (cm_offset c)"

definition index_ok :: "IndexMeta \<Rightarrow> bool" where
  "index_ok i \<longleftrightarrow> name_word (im_tab_name i) \<and> in_int (col_tot_len i) \<and> in_int (col_num i) \<and>
     col_num i = int (length (im_cols i)) \<and> list_all col_ok (im_cols i)"

definition tab_ok :: "TabMeta \<Rightarrow> bool" where
  "tab_ok t \<longleftrightarrow> name_word (tm_name t) \<and> int (length (tm_cols t)) < 2 ^ 64 \<and> int (length (tm_indexes t)) < 2 ^ 64 \<and>
     list_all col_ok (tm_cols t) \<and> list_all index_ok (tm_indexes t)"

definition db_ok :: "DbMeta \<Rightarrow> bool" where
  "db_ok db \<longleftrightarrow> name_word (db_name db) \<and> int (length (tabs db)) < 2 ^ 64 \<and>
     list_all (\<lambda>(k, t). k = tm_name t \<and> tab_ok t) (tabs db) \<and> sorted_wrt str_less (map fst (tabs db))"

lemma reads_ColMeta:
  assumes "col_ok c"
  shows "reads get_ColMeta (put_ColMeta c) c"
proof -
  let ?mk = "\<lambda>ix. \<lparr>cm_tab_name = cm_tab_name c, cm_name = cm_name c, cm_type = cm_type c, cm_len = cm_len c,
    cm_offset = cm_offset c, cm_index = ix\<rparr>"
  have "reads (scan_bind scan_bool (\<lambda>ix. scan_return (?mk ix))) (to_string (if cm_index c then 1 else 0)) (?mk (cm_index c))"
    by (rule reads_map[OF reads_bool])
  moreover have "?mk (cm_index c) = c" by simp
  ultimately show ?thesis
    using assms unfolding get_ColMeta_def put_ColMeta_def col_ok_def
    by (intro reads_sp[OF reads_word] reads_sp[OF reads_ColType] reads_sp[OF reads_int]) simp_all
qed

lemma reads_IndexMeta:
  assumes "index_ok i"
  shows "reads get_IndexMeta (put_IndexMeta i) i"
proof -
  let ?mk = "\<lambda>cs. \<lparr>im_tab_name = im_tab_name i, col_tot_len = col_tot_len i, col_num = col_num i, im_cols = cs\<rparr>"
  have n: "nat (col_num i) = length (im_cols i)" and ok: "\<forall>c \<in> set (im_cols i). reads get_ColMeta (put_ColMeta c) c"
    using assms by (auto simp: index_ok_def list_all_iff reads_ColMeta)
  have "reads (scan_bind (scan_n (nat (col_num i)) get_ColMeta) (\<lambda>cs. scan_return (?mk cs)))
      (concat (map (\<lambda>c. NL @ put_ColMeta c) (im_cols i))) (?mk (im_cols i))"
    unfolding n by (rule reads_map[OF reads_n_pre[OF ok]])
  moreover have "?mk (im_cols i) = i" by simp
  moreover have "in_int (col_num i)" using assms unfolding index_ok_def by blast
  ultimately have "reads (scan_bind scan_int (\<lambda>n. scan_bind (scan_n (nat n) get_ColMeta) (\<lambda>cs.
      scan_return \<lparr>im_tab_name = im_tab_name i, col_tot_len = col_tot_len i, col_num = n, im_cols = cs\<rparr>)))
      (to_string (col_num i) @ concat (map (\<lambda>c. NL @ put_ColMeta c) (im_cols i))) i"
    by (intro reads_bind[OF reads_int]) (simp_all add: delim_NL_list)
  then show ?thesis
    using assms unfolding get_IndexMeta_def put_IndexMeta_def index_ok_def
    by (intro reads_sp[OF reads_word] reads_sp[OF reads_int]) simp_all
qed

lemma reads_TabMeta:
  assumes "tab_ok t"
  shows "reads_nl get_TabMeta (put_TabMeta t) t"
proof -
  let ?mk = "\<lambda>is. \<lparr>tm_name = tm_name t, tm_cols = tm_cols t, tm_indexes = is\<rparr>"
  have c: "\<forall>c \<in> set (tm_cols t). reads_nl get_ColMeta (put_ColMeta c @ NL) c"
    and i: "\<forall>i \<in> set (tm_indexes t). reads_nl get_IndexMeta (put_IndexMeta i @ NL) i"
    using assms by (auto simp: tab_ok_def list_all_iff NL_def intro!: reads_close reads_ColMeta reads_IndexMeta)
  have "reads_nl (scan_bind (scan_n (length (tm_indexes t)) get_IndexMeta) (\<lambda>is. scan_return (?mk is)))
      (concat (map (\<lambda>i. put_IndexMeta i @ NL) (tm_indexes t))) (?mk (tm_indexes t))"
    by (rule reads_nl_map[OF reads_n_nl[OF i]])
  moreover have "?mk (tm_indexes t) = t" by simp
  ultimately show ?thesis
    using assms unfolding get_TabMeta_def put_TabMeta_def tab_ok_def
    by (intro reads_line[OF reads_word] reads_line[OF reads_size] reads_nl_bind[OF reads_n_nl[OF c]]) simp_all
qed

section \<open>The order of table names\<close>

lemma str_less_irrefl [simp]: "\<not> str_less s s"
  by (induction s) auto

lemma str_less_trans: "str_less a b \<Longrightarrow> str_less b c \<Longrightarrow> str_less a c"
proof (induction a b arbitrary: c rule: str_less.induct)
  case (3 b s d t)
  then show ?case by (cases c) auto
next
  case (2 c t)
  then show ?case by (metis list.exhaust str_less.simps)
qed simp

lemma str_less_asym: "str_less a b \<Longrightarrow> \<not> str_less b a"
  using str_less_trans str_less_irrefl by blast

lemma str_less_total: "a \<noteq> b \<Longrightarrow> str_less a b \<or> str_less b a"
proof (induction a b rule: str_less.induct)
  case (1 s)
  then show ?case by (cases s) auto
next
  case (3 b s c t)
  then show ?case by (metis linorder_neqE_nat of_char_eq_iff str_less.simps(3))
qed auto

lemma tabs_put_last: "\<forall>e \<in> set es. str_less (fst e) k \<Longrightarrow> tabs_put k v es = es @ [(k, v)]"
  by (induction es rule: tabs_put.induct[of _ k v]) (auto dest: str_less_asym)

lemma tabs_put_map_of: "map_of (tabs_put k v es) = (map_of es)(k \<mapsto> v)"
  by (induction k v es rule: tabs_put.induct) auto

lemma tabs_put_sorted:
  "sorted_wrt str_less (map fst es) \<Longrightarrow> sorted_wrt str_less (map fst (tabs_put k v es))"
proof (induction k v es rule: tabs_put.induct)
  case (2 k v k' v' es)
  have keys: "set (map fst (tabs_put k v es)) = insert k (set (map fst es))"
    by (induction k v es rule: tabs_put.induct) auto
  consider "k = k'" | "k \<noteq> k'" "str_less k k'" | "k \<noteq> k'" "\<not> str_less k k'" by blast
  then show ?case
  proof cases
    case 3
    then have "str_less k' k" using str_less_total by blast
    with 3 2 keys show ?thesis by auto
  qed (use 2 str_less_trans in auto)
qed simp

lemma foldl_tabs_put:
  assumes "list_all (\<lambda>(k, t). k = tm_name t \<and> P t) es" and "sorted_wrt str_less (map fst (ds @ es))"
  shows "foldl (\<lambda>es t. tabs_put (tm_name t) t es) ds (map snd es) = ds @ es"
  using assms
proof (induction es arbitrary: ds)
  case Nil
  then show ?case by simp
next
  case (Cons e es)
  obtain k t where e: "e = (k, t)" "k = tm_name t" using Cons.prems(1) by auto
  have "tabs_put (tm_name t) t ds = ds @ [e]"
    using Cons.prems(2) e by (auto simp: sorted_wrt_append intro: tabs_put_last)
  with Cons.IH[of "ds @ [e]"] Cons.prems e show ?case by simp
qed

text \<open>C26: The catalogue file. For every database metadata whose names are non-empty words without white
  space and whose tables are in key order (as a \<^verbatim>\<open>std::map\<close> keeps them), reading back the text that
  \<^verbatim>\<open>operator<<\<close> writes, with anything behind it, gives the same metadata, with all columns, lengths,
  offsets and indexes of all tables; only white space of the text is left unread.\<close>

theorem meta_text_roundtrip:
  assumes "db_ok db"
  shows "\<exists>w. spaces w \<and> get_DbMeta (put_DbMeta db @ s) = Some (db, w @ s)"
proof -
  let ?mk = "\<lambda>ts. \<lparr>db_name = db_name db, tabs = foldl (\<lambda>es t. tabs_put (tm_name t) t es) [] ts\<rparr>"
  have t: "\<forall>t \<in> set (map snd (tabs db)). reads_nl get_TabMeta (put_TabMeta t @ NL) t"
  proof
    fix t assume "t \<in> set (map snd (tabs db))"
    then have r: "reads_nl get_TabMeta (put_TabMeta t) t"
      using assms by (auto simp: db_ok_def list_all_iff reads_TabMeta)
    have "reads_nl (scan_bind get_TabMeta (\<lambda>a. scan_return a)) (put_TabMeta t @ NL) t"
      by (rule reads_nl_bind[OF r]) (auto simp: reads_nl_def scan_return_def NL_def intro: exI[of _ "w @ NL" for w])
    moreover have "scan_bind get_TabMeta (\<lambda>a. scan_return a) = get_TabMeta"
      by (auto simp: scan_bind_def scan_return_def fun_eq_iff split: option.splits)
    ultimately show "reads_nl get_TabMeta (put_TabMeta t @ NL) t" by simp
  qed
  have "?mk (map snd (tabs db)) = db"
    using foldl_tabs_put[of tab_ok "tabs db" "[]"] assms by (simp add: db_ok_def)
  then have "reads_nl (scan_bind (scan_n (length (tabs db)) get_TabMeta) (\<lambda>ts. scan_return (?mk ts)))
      (concat (map (\<lambda>(k, t). put_TabMeta t @ NL) (tabs db))) db"
    using reads_nl_map[OF reads_n_nl[OF t], of ?mk] by (simp add: comp_def case_prod_unfold)
  then have "reads_nl get_DbMeta (put_DbMeta db) db"
    using assms unfolding get_DbMeta_def put_DbMeta_def db_ok_def
    by (intro reads_line[OF reads_word] reads_line[OF reads_size]) simp_all
  then show ?thesis unfolding reads_nl_def by (metis append_Nil spaces_simps(1))
qed

definition witness_db :: DbMeta where
  "witness_db = \<lparr>db_name = ''db'', tabs = [(''t'', \<lparr>tm_name = ''t'',
     tm_cols = [\<lparr>cm_tab_name = ''t'', cm_name = ''a'', cm_type = TYPE_INT, cm_len = 4, cm_offset = 0, cm_index = True\<rparr>,
                \<lparr>cm_tab_name = ''t'', cm_name = ''b'', cm_type = TYPE_STRING, cm_len = 8, cm_offset = 4, cm_index = False\<rparr>],
     tm_indexes = [\<lparr>im_tab_name = ''t'', col_tot_len = 4, col_num = 1, im_cols =
       [\<lparr>cm_tab_name = ''t'', cm_name = ''a'', cm_type = TYPE_INT, cm_len = 4, cm_offset = 0, cm_index = False\<rparr>]\<rparr>]\<rparr>)]\<rparr>"

theorem meta_text_roundtrip_witness:
  "\<exists>w. spaces w \<and> get_DbMeta (put_DbMeta witness_db @ ''x'') = Some (witness_db, w @ ''x'')"
  by (rule meta_text_roundtrip) code_simp

section \<open>The order of index keys\<close>

text \<open>A key read column by column as numbers, and lexicographic comparison of number lists.\<close>

fun col_rank :: "ColType \<Rightarrow> nat \<Rightarrow> byte list \<Rightarrow> int list" where
  "col_rank TYPE_INT len k = [le_sint (take 4 k)]"
| "col_rank TYPE_BIGINT len k = [le_sint (take 8 k)]"
| "col_rank TYPE_FLOAT len k = [f32_rank (dec_f32 k)]"
| "col_rank TYPE_STRING len k = map uint (take len k)"
| "col_rank TYPE_DATETIME len k = [le_sint (take 8 k)]"

fun key_rank :: "(ColType \<times> nat) list \<Rightarrow> byte list \<Rightarrow> int list" where
  "key_rank [] k = []"
| "key_rank ((t, len) # cols) k = col_rank t len k @ key_rank cols (drop len k)"

fun lcmp :: "int list \<Rightarrow> int list \<Rightarrow> int" where
  "lcmp (a # as) (b # bs) = (if a < b then -1 else if b < a then 1 else lcmp as bs)"
| "lcmp _ _ = 0"

text \<open>Keys of the index's length without NaN in a float column.\<close>

fun key_ok :: "(ColType \<times> nat) list \<Rightarrow> byte list \<Rightarrow> bool" where
  "key_ok [] k \<longleftrightarrow> k = []"
| "key_ok ((t, len) # cols) k \<longleftrightarrow>
     len \<le> length k \<and> (t = TYPE_FLOAT \<longrightarrow> \<not> f32_nan (dec_f32 k)) \<and> key_ok cols (drop len k)"

lemma lcmp_append:
  "length a = length b \<Longrightarrow> lcmp (a @ c) (b @ d) = (if lcmp a b \<noteq> 0 then lcmp a b else lcmp c d)"
  by (induction a b rule: lcmp.induct) auto

lemma lcmp_refl [simp]: "lcmp a a = 0"
  by (induction a) auto

lemma lcmp_swap: "lcmp b a = - lcmp a b"
  by (induction a b rule: lcmp.induct) auto

lemma lcmp_eq_0: "length a = length b \<Longrightarrow> lcmp a b = 0 \<longleftrightarrow> a = b"
  by (induction a b rule: lcmp.induct) auto

lemma lcmp_range: "lcmp a b \<in> {-1, 0, 1}"
  by (induction a b rule: lcmp.induct) auto

lemma lcmp_trans: "length a = length b \<Longrightarrow> length b = length c \<Longrightarrow> lcmp a b \<le> 0 \<Longrightarrow> lcmp b c \<le> 0 \<Longrightarrow> lcmp a c \<le> 0"
proof (induction a arbitrary: b c)
  case Nil
  then show ?case by simp
next
  case (Cons x xs)
  obtain y ys z zs where bc: "b = y # ys" "c = z # zs"
    using Cons.prems(1,2) by (metis length_Suc_conv length_Cons)
  have IH: "lcmp xs ys \<le> 0 \<Longrightarrow> lcmp ys zs \<le> 0 \<Longrightarrow> lcmp xs zs \<le> 0"
    using Cons.IH[of ys zs] Cons.prems(1,2) bc by simp
  show ?case using Cons.prems(3,4) IH bc by (simp split: if_splits)
qed

lemma memcmp_lcmp: "memcmp a b = lcmp (map uint a) (map uint b)"
  by (induction a b rule: memcmp.induct) (auto simp: word_less_def word_le_def)

lemma compare1_rank:
  assumes "t = TYPE_FLOAT \<longrightarrow> \<not> f32_nan (dec_f32 a) \<and> \<not> f32_nan (dec_f32 b)"
  shows "ix_compare1 a b t len = lcmp (col_rank t len a) (col_rank t len b)"
  using assms by (cases t) (auto simp: cmp3_def f32_less_def memcmp_lcmp)

lemma length_col_rank: "len \<le> length a \<Longrightarrow> len \<le> length b \<Longrightarrow> length (col_rank t len a) = length (col_rank t len b)"
  by (cases t) simp_all

lemma length_key_rank: "key_ok cols a \<Longrightarrow> key_ok cols b \<Longrightarrow> length (key_rank cols a) = length (key_rank cols b)"
proof (induction cols arbitrary: a b)
  case (Cons c cols)
  obtain t len where c: "c = (t, len)" by fastforce
  have "length (key_rank cols (drop len a)) = length (key_rank cols (drop len b))"
    using Cons c by simp
  then show ?case using Cons.prems length_col_rank[of len a b t] by (simp add: c)
qed simp

lemma ix_compare_rank:
  "key_ok cols a \<Longrightarrow> key_ok cols b \<Longrightarrow> ix_compare a b cols = lcmp (key_rank cols a) (key_rank cols b)"
proof (induction cols arbitrary: a b)
  case (Cons c cols)
  obtain t len where c: "c = (t, len)" by fastforce
  have "ix_compare (drop len a) (drop len b) cols = lcmp (key_rank cols (drop len a)) (key_rank cols (drop len b))"
    using Cons c by simp
  then show ?case
    using Cons.prems compare1_rank[of t a b len]
    by (simp add: c Let_def lcmp_append length_col_rank)
qed simp

text \<open>The key comparison of the index is a total order on the keys of an index (of the right length and
  without NaN): its sign is antisymmetric, it is transitive, and it is 0 exactly for keys whose columns
  hold equal values (equal numbers for the numeric types, equal bytes for strings).\<close>

theorem ix_compare_total_order:
  assumes "key_ok cols a" and "key_ok cols b" and "key_ok cols c"
  shows "ix_compare b a cols = - ix_compare a b cols \<and>
    (ix_compare a b cols = 0 \<longleftrightarrow> key_rank cols a = key_rank cols b) \<and>
    (ix_compare a b cols \<le> 0 \<and> ix_compare b c cols \<le> 0 \<longrightarrow> ix_compare a c cols \<le> 0)"
proof -
  have "lcmp (key_rank cols b) (key_rank cols a) = - lcmp (key_rank cols a) (key_rank cols b)"
    by (rule lcmp_swap)
  then show ?thesis
    using lcmp_eq_0[OF length_key_rank[OF assms(1,2)]] assms
      lcmp_trans[OF length_key_rank[OF assms(1,2)] length_key_rank[OF assms(2,3)]]
    by (simp add: ix_compare_rank)
qed

theorem ix_compare_total_order_witness:
  "ix_compare (enc_int 7) (enc_int (-3)) [(TYPE_INT, 4)] = - ix_compare (enc_int (-3)) (enc_int 7) [(TYPE_INT, 4)] \<and>
    (ix_compare (enc_int (-3)) (enc_int 7) [(TYPE_INT, 4)] = 0 \<longleftrightarrow>
       key_rank [(TYPE_INT, 4)] (enc_int (-3)) = key_rank [(TYPE_INT, 4)] (enc_int 7)) \<and>
    ix_compare (enc_int (-3)) (enc_int 9) [(TYPE_INT, 4)] \<le> 0"
proof -
  have "ix_compare (enc_int (-3)) (enc_int 7) [(TYPE_INT, 4)] \<le> 0" "ix_compare (enc_int 7) (enc_int 9) [(TYPE_INT, 4)] \<le> 0"
    by code_simp+
  then show ?thesis
    using ix_compare_total_order[of "[(TYPE_INT, 4)]" "enc_int (-3)" "enc_int 7" "enc_int 9"] by simp
qed

section \<open>Index keys of records\<close>

definition col_in :: "byte list \<Rightarrow> ColMeta \<Rightarrow> bool" where
  "col_in rec c \<longleftrightarrow> 0 \<le> cm_offset c \<and> 0 \<le> cm_len c \<and> cm_offset c + cm_len c \<le> int (length rec)"

definition col_bytes :: "byte list \<Rightarrow> ColMeta \<Rightarrow> byte list" where
  "col_bytes rec c = get_bytes (nat (cm_offset c)) (nat (cm_len c)) rec"

lemma length_col_bytes: "col_in rec c \<Longrightarrow> length (col_bytes rec c) = nat (cm_len c)"
  unfolding col_bytes_def col_in_def by (intro length_get_bytes) auto

lemma copy_cols_ok:
  assumes "list_all (col_in rec) cs" and "off + length (concat (map (col_bytes rec) cs)) \<le> length key"
  shows "copy_cols cs rec off key = Inr (put_bytes off (concat (map (col_bytes rec) cs)) key)"
  using assms
proof (induction cs arbitrary: off key)
  case Nil
  then show ?case by (simp add: put_bytes_def)
next
  case (Cons c cs)
  have r: "read_at (nat (cm_offset c)) (cm_len c) rec = Inr (col_bytes rec c)" and nn: "0 \<le> cm_offset c"
    using Cons.prems(1) by (auto simp: read_at_def col_in_def col_bytes_def)
  have "copy_cols cs rec (off + length (col_bytes rec c)) (put_bytes off (col_bytes rec c) key) =
      Inr (put_bytes (off + length (col_bytes rec c)) (concat (map (col_bytes rec) cs)) (put_bytes off (col_bytes rec c) key))"
    using Cons by simp
  with Cons.prems(2) nn show ?case by (simp add: r memcpy_to_def put_put_adjacent)
qed

lemma build_index_key_bytes:
  assumes "list_all (col_in rec) (im_cols ix)" and "col_tot_len ix = sum_list (map cm_len (im_cols ix))"
  shows "build_index_key ix rec = Inr (concat (map (col_bytes rec) (im_cols ix)))"
proof -
  have "length (concat (map (col_bytes rec) cs)) = nat (sum_list (map cm_len cs)) \<and> 0 \<le> sum_list (map cm_len cs)"
    if "list_all (col_in rec) cs" for cs
    using that by (induction cs) (auto simp: length_col_bytes nat_add_distrib, auto simp: col_in_def)
  then have "length (concat (map (col_bytes rec) (im_cols ix))) = nat (col_tot_len ix)"
    using assms by simp
  then show ?thesis
    using assms(1) by (simp add: build_index_key_def copy_cols_ok put_bytes_all)
qed

definition col_sized :: "ColMeta \<Rightarrow> bool" where
  "col_sized c \<longleftrightarrow> (cm_type c \<noteq> TYPE_STRING \<longrightarrow> cm_len c = type_size (cm_type c))"

definition rec_rank :: "byte list \<Rightarrow> ColMeta \<Rightarrow> int list" where
  "rec_rank rec c = col_rank (cm_type c) (nat (cm_len c)) (drop (nat (cm_offset c)) rec)"

definition col_number :: "byte list \<Rightarrow> ColMeta \<Rightarrow> bool" where
  "col_number rec c \<longleftrightarrow> (cm_type c = TYPE_FLOAT \<longrightarrow> \<not> f32_nan (dec_f32 (drop (nat (cm_offset c)) rec)))"

lemma take_get_bytes: "m \<le> n \<Longrightarrow> take m (get_bytes off n rec @ rest) = take m (drop off rec) \<or> length rec < off + n"
  by (auto simp: get_bytes_def min_def)

lemma col_rank_bytes:
  assumes "col_in rec c" and "col_sized c"
  shows "col_rank (cm_type c) (nat (cm_len c)) (col_bytes rec c @ rest) = rec_rank rec c"
    and "cm_type c = TYPE_FLOAT \<Longrightarrow> dec_f32 (col_bytes rec c @ rest) = dec_f32 (drop (nat (cm_offset c)) rec)"
proof -
  have le: "nat (cm_offset c) + nat (cm_len c) \<le> length rec" using assms(1) unfolding col_in_def by linarith
  have tk: "take m (col_bytes rec c @ rest) = take m (drop (nat (cm_offset c)) rec)" if "m \<le> nat (cm_len c)" for m
    using take_get_bytes[OF that, of "nat (cm_offset c)" rec rest] le by (auto simp: col_bytes_def)
  show "col_rank (cm_type c) (nat (cm_len c)) (col_bytes rec c @ rest) = rec_rank rec c"
    using assms(2) tk[of "nat (cm_len c)"] tk[of 4] tk[of 8]
    by (cases "cm_type c") (simp_all add: rec_rank_def col_sized_def type_size_def dec_f32_def)
  show "cm_type c = TYPE_FLOAT \<Longrightarrow> dec_f32 (col_bytes rec c @ rest) = dec_f32 (drop (nat (cm_offset c)) rec)"
    using assms(2) tk[of 4] by (simp add: col_sized_def type_size_def dec_f32_def)
qed

lemma key_rank_record:
  assumes "list_all (col_in rec) cs" and "list_all col_sized cs" and "list_all (col_number rec) cs"
  shows "key_rank (map (\<lambda>c. (cm_type c, nat (cm_len c))) cs) (concat (map (col_bytes rec) cs)) = concat (map (rec_rank rec) cs) \<and>
    key_ok (map (\<lambda>c. (cm_type c, nat (cm_len c))) cs) (concat (map (col_bytes rec) cs))"
  using assms
proof (induction cs)
  case (Cons c cs)
  have d: "drop (nat (cm_len c)) (col_bytes rec c @ concat (map (col_bytes rec) cs)) = concat (map (col_bytes rec) cs)"
    using Cons.prems(1) by (simp add: length_col_bytes)
  show ?case
    using Cons col_rank_bytes[of rec c "concat (map (col_bytes rec) cs)"] d
    by (auto simp: length_col_bytes col_number_def)
qed simp

text \<open>C27: The key that \<^verbatim>\<open>build_index_key\<close> makes of a record consists of the record's index columns in index
  order and fills the index's key length exactly, and comparing the keys of two records by the index's
  comparison is comparing their index columns one after the other by value (integers and dates as
  numbers, floats as numbers, strings bytewise).\<close>

theorem index_key_order:
  assumes "list_all (col_in r1) (im_cols ix)" and "list_all (col_in r2) (im_cols ix)"
    and "list_all col_sized (im_cols ix)" and "list_all (col_number r1) (im_cols ix)"
    and "list_all (col_number r2) (im_cols ix)" and "col_tot_len ix = sum_list (map cm_len (im_cols ix))"
  shows "\<exists>k1 k2. build_index_key ix r1 = Inr k1 \<and> build_index_key ix r2 = Inr k2 \<and>
    k1 = concat (map (col_bytes r1) (im_cols ix)) \<and> k2 = concat (map (col_bytes r2) (im_cols ix)) \<and>
    ix_compare k1 k2 (index_col_meta ix) =
      lcmp (concat (map (rec_rank r1) (im_cols ix))) (concat (map (rec_rank r2) (im_cols ix)))"
  using build_index_key_bytes[OF assms(1,6)] build_index_key_bytes[OF assms(2,6)]
    key_rank_record[OF assms(1,3,4)] key_rank_record[OF assms(2,3,5)]
  by (simp add: ix_compare_rank index_col_meta_def)

definition witness_ix :: IndexMeta where
  "witness_ix = \<lparr>im_tab_name = ''t'', col_tot_len = 7, col_num = 2, im_cols =
     [\<lparr>cm_tab_name = ''t'', cm_name = ''b'', cm_type = TYPE_STRING, cm_len = 3, cm_offset = 4, cm_index = True\<rparr>,
      \<lparr>cm_tab_name = ''t'', cm_name = ''a'', cm_type = TYPE_INT, cm_len = 4, cm_offset = 0, cm_index = True\<rparr>]\<rparr>"

theorem index_key_order_witness:
  "\<exists>k1 k2. build_index_key witness_ix [1, 0, 0, 0, 65, 66, 0] = Inr k1 \<and>
    build_index_key witness_ix [255, 255, 255, 255, 65, 66, 0] = Inr k2 \<and>
    k1 = concat (map (col_bytes [1, 0, 0, 0, 65, 66, 0]) (im_cols witness_ix)) \<and>
    k2 = concat (map (col_bytes [255, 255, 255, 255, 65, 66, 0]) (im_cols witness_ix)) \<and>
    ix_compare k1 k2 (index_col_meta witness_ix) =
      lcmp (concat (map (rec_rank [1, 0, 0, 0, 65, 66, 0]) (im_cols witness_ix)))
           (concat (map (rec_rank [255, 255, 255, 255, 65, 66, 0]) (im_cols witness_ix)))"
  by (rule index_key_order) code_simp+

section \<open>Conditions\<close>

fun sql_compare :: "CompOp \<Rightarrow> int \<Rightarrow> int \<Rightarrow> bool" where
  "sql_compare OP_EQ x y \<longleftrightarrow> x = y"
| "sql_compare OP_NE x y \<longleftrightarrow> x \<noteq> y"
| "sql_compare OP_LT x y \<longleftrightarrow> x < y"
| "sql_compare OP_GT x y \<longleftrightarrow> x > y"
| "sql_compare OP_LE x y \<longleftrightarrow> x \<le> y"
| "sql_compare OP_GE x y \<longleftrightarrow> x \<ge> y"

lemma eval_cmp3: "eval_compare (cmp3 (<) x y) op \<longleftrightarrow> sql_compare op x (y :: int)"
  by (cases op) (auto simp: cmp3_def)

lemma get_col_find: "get_col n t = Inr c \<longleftrightarrow> find (\<lambda>c. cm_name c = n) (tm_cols t) = Some c"
  by (simp add: get_col_def split: option.splits)

text \<open>A WHERE condition between an INT column of the table and an integer literal. When the column lies
  inside the record and the literal was converted by \<^verbatim>\<open>set_int\<close> and \<^verbatim>\<open>init_raw\<close>, \<^verbatim>\<open>eval_condition\<close>
  succeeds and returns exactly whether the integer stored in the column compares to the literal as the
  operator says.\<close>

theorem eval_condition_int:
  assumes "get_col (tc_col_name (lhs_col cond)) tab = Inr c" and "cm_type c = TYPE_INT" and "cm_len c = 4"
    and "col_in (rec_data rec) c" and "is_rhs_val cond" and "in_int i" and "raw v = None"
    and "init_raw 4 (set_int i v) = Inr (rhs_val cond)"
  shows "eval_condition tab rec cond =
    Inr (sql_compare (cond_op cond) (dec_int (nat (cm_offset c)) (rec_data rec)) i)"
proof -
  have r: "raw (rhs_val cond) = Some \<lparr>rec_data = enc_int i, rec_size = 4\<rparr>"
  proof -
    have "rhs_val cond = (set_int i v)\<lparr>raw := Some \<lparr>rec_data = enc_int i, rec_size = 4\<rparr>\<rparr>"
      using assms(7,8) by (simp add: init_raw_def set_int_def type_size_def)
    then show ?thesis by simp
  qed
  have le: "nat (cm_offset c) + 4 \<le> length (rec_data rec)" using assms(3,4) unfolding col_in_def by linarith
  then have "compare_raw_value (drop (nat (cm_offset c)) (rec_data rec)) (enc_int i) TYPE_INT 4 =
      Inr (cmp3 (<) (dec_int (nat (cm_offset c)) (rec_data rec)) i)"
    using assms(6) by (auto simp: compare_raw_value_def raw_len_def type_size_def dec_int_def get_bytes_def in_int_4)
  with r show ?thesis
    using assms by (simp add: eval_condition_def eval_cmp3)
qed

definition witness_tab :: TabMeta where
  "witness_tab = snd (hd (tabs witness_db))"

definition witness_value :: Value where
  "witness_value = \<lparr>val_type = TYPE_INT, val_num = NoVal, str_val = '''', raw = None\<rparr>"

definition witness_cond :: Condition where
  "witness_cond = \<lparr>lhs_col = \<lparr>tc_tab_name = ''t'', tc_col_name = ''a''\<rparr>, cond_op = OP_LT, is_rhs_val = True,
     rhs_col = \<lparr>tc_tab_name = '''', tc_col_name = ''''\<rparr>,
     rhs_val = (set_int 5 witness_value)\<lparr>raw := Some \<lparr>rec_data = enc_int 5, rec_size = 4\<rparr>\<rparr>\<rparr>"

definition witness_row :: RmRecord where
  "witness_row = \<lparr>rec_data = [3, 0, 0, 0, 65, 66, 0, 0, 0, 0, 0, 0], rec_size = 12\<rparr>"

theorem eval_condition_int_witness:
  "eval_condition witness_tab witness_row witness_cond =
    Inr (sql_compare (cond_op witness_cond) (dec_int (nat (cm_offset (hd (tm_cols witness_tab)))) (rec_data witness_row)) 5)"
  by (rule eval_condition_int[where v = witness_value])
    (simp_all add: witness_tab_def witness_db_def witness_cond_def witness_row_def witness_value_def get_col_def
      col_in_def in_int_small_num init_raw_def set_int_def type_size_def)

definition two_cols :: "int \<Rightarrow> int \<Rightarrow> TabMeta" where
  "two_cols off_a off_b = \<lparr>tm_name = ''t'', tm_cols =
     [\<lparr>cm_tab_name = ''t'', cm_name = ''a'', cm_type = TYPE_STRING, cm_len = 2, cm_offset = off_a, cm_index = False\<rparr>,
      \<lparr>cm_tab_name = ''t'', cm_name = ''b'', cm_type = TYPE_STRING, cm_len = 4, cm_offset = off_b, cm_index = False\<rparr>],
     tm_indexes = []\<rparr>"

definition a_eq_b :: Condition where
  "a_eq_b = \<lparr>lhs_col = \<lparr>tc_tab_name = ''t'', tc_col_name = ''a''\<rparr>, cond_op = OP_EQ, is_rhs_val = False,
     rhs_col = \<lparr>tc_tab_name = ''t'', tc_col_name = ''b''\<rparr>, rhs_val = witness_value\<rparr>"


end
