(* ===== verification/Lock.thy ===== *)
theory Lock
  imports Meta
begin

text \<open>
  \<^verbatim>\<open>transaction/txn_defs.h\<close>, \<^verbatim>\<open>transaction/transaction.h\<close> and \<^verbatim>\<open>transaction/concurrency/lock_manager.cpp\<close>:
  transactions and the lock manager with its table, record and gap locks. The manager's latch makes
  each operation atomic, so an operation is a function on the transaction that calls it and the
  manager. A C pointer to a key is the list of bytes that may be read behind it; a comparison that
  reads further is \<open>UndefinedBehaviour\<close>.
\<close>

section \<open>Transactions\<close>

datatype TransactionState = DEFAULT | GROWING | SHRINKING | COMMITTED | ABORTED

datatype IsolationLevel = READ_UNCOMMITTED | REPEATABLE_READ | READ_COMMITTED | SERIALIZABLE

datatype WType = INSERT_TUPLE | DELETE_TUPLE | UPDATE_TUPLE

record WriteRecord =
  wtype :: WType
  wr_tab_name :: string
  wr_rid :: Rid
  wr_record :: RmRecord

definition no_record :: RmRecord where
  "no_record = \<lparr>rec_data = [], rec_size = 0\<rparr>"

definition new_WriteRecord :: "WType \<Rightarrow> string \<Rightarrow> Rid \<Rightarrow> WriteRecord" where
  "new_WriteRecord w tab_name rid = \<lparr>wtype = w, wr_tab_name = tab_name, wr_rid = rid, wr_record = no_record\<rparr>"

definition new_WriteRecord_rec :: "WType \<Rightarrow> string \<Rightarrow> Rid \<Rightarrow> RmRecord \<Rightarrow> WriteRecord" where
  "new_WriteRecord_rec w tab_name rid rec = \<lparr>wtype = w, wr_tab_name = tab_name, wr_rid = rid, wr_record = rec\<rparr>"

datatype LockDataType = LOCK_TABLE | LOCK_RECORD | LOCK_GAP

record LockDataId =
  lk_fd :: int
  lk_rid :: Rid
  lk_type :: LockDataType
  gap_key :: "byte list"

definition no_rid :: Rid where
  "no_rid = \<lparr>rid_page_no = -1, rid_slot_no = -1\<rparr>"

definition table_lock_id :: "int \<Rightarrow> LockDataId" where
  "table_lock_id fd = \<lparr>lk_fd = fd, lk_rid = no_rid, lk_type = LOCK_TABLE, gap_key = []\<rparr>"

definition record_lock_id :: "int \<Rightarrow> Rid \<Rightarrow> LockDataId" where
  "record_lock_id fd rid = \<lparr>lk_fd = fd, lk_rid = rid, lk_type = LOCK_RECORD, gap_key = []\<rparr>"

definition gap_lock_id :: "int \<Rightarrow> byte list \<Rightarrow> LockDataId" where
  "gap_lock_id index_fd key = \<lparr>lk_fd = index_fd, lk_rid = no_rid, lk_type = LOCK_GAP, gap_key = key\<rparr>"

definition LockDataId_eq :: "LockDataId \<Rightarrow> LockDataId \<Rightarrow> bool" where
  "LockDataId_eq x y \<longleftrightarrow> lk_type x = lk_type y \<and> lk_fd x = lk_fd y \<and>
     (case lk_type x of LOCK_RECORD \<Rightarrow> lk_rid x = lk_rid y | LOCK_GAP \<Rightarrow> gap_key x = gap_key y | LOCK_TABLE \<Rightarrow> True)"

text \<open>On identifiers made by the constructors, \<^verbatim>\<open>operator==\<close> is equality; the lock table can therefore be
  searched by equality.\<close>

lemma LockDataId_eq_iff:
  assumes "x \<in> range table_lock_id \<union> {record_lock_id fd r | fd r. True} \<union> {gap_lock_id fd k | fd k. True}"
    and "y \<in> range table_lock_id \<union> {record_lock_id fd r | fd r. True} \<union> {gap_lock_id fd k | fd k. True}"
  shows "LockDataId_eq x y \<longleftrightarrow> x = y"
  using assms by (auto simp: LockDataId_eq_def table_lock_id_def record_lock_id_def gap_lock_id_def)

record Transaction =
  txn_mode :: bool
  state :: TransactionState
  isolation_level :: IsolationLevel
  txn_prev_lsn :: lsn_t
  txn_id :: txn_id_t
  start_ts :: int
  write_set :: "WriteRecord list"
  lock_set :: "LockDataId list"

definition new_Transaction :: "txn_id_t \<Rightarrow> Transaction" where
  "new_Transaction tid = \<lparr>txn_mode = False, state = DEFAULT, isolation_level = SERIALIZABLE,
     txn_prev_lsn = INVALID_LSN, txn_id = tid, start_ts = 0, write_set = [], lock_set = []\<rparr>"

definition set_state :: "TransactionState \<Rightarrow> Transaction \<Rightarrow> Transaction" where
  "set_state s t = t\<lparr>state := s\<rparr>"

definition set_txn_mode :: "bool \<Rightarrow> Transaction \<Rightarrow> Transaction" where
  "set_txn_mode b t = t\<lparr>txn_mode := b\<rparr>"

definition set_start_ts :: "int \<Rightarrow> Transaction \<Rightarrow> Transaction" where
  "set_start_ts x t = t\<lparr>start_ts := x\<rparr>"

definition set_prev_lsn :: "lsn_t \<Rightarrow> Transaction \<Rightarrow> Transaction" where
  "set_prev_lsn l t = t\<lparr>txn_prev_lsn := l\<rparr>"

definition append_write_record :: "WriteRecord \<Rightarrow> Transaction \<Rightarrow> Transaction" where
  "append_write_record w t = t\<lparr>write_set := write_set t @ [w]\<rparr>"

definition lock_set_insert :: "LockDataId \<Rightarrow> Transaction \<Rightarrow> Transaction" where
  "lock_set_insert i t = t\<lparr>lock_set := List.insert i (lock_set t)\<rparr>"

definition lock_set_erase :: "LockDataId \<Rightarrow> Transaction \<Rightarrow> Transaction" where
  "lock_set_erase i t = t\<lparr>lock_set := removeAll i (lock_set t)\<rparr>"

text \<open>\<^verbatim>\<open>TransactionAbortException::GetInfo\<close>.\<close>

fun GetInfo :: "int \<Rightarrow> AbortReason \<Rightarrow> string" where
  "GetInfo t LOCK_ON_SHIRINKING =
     ''Transaction '' @ to_string t @ '' aborted because it cannot request locks on SHRINKING phase'' @ NL"
| "GetInfo t UPGRADE_CONFLICT =
     ''Transaction '' @ to_string t @ '' aborted because another transaction is waiting for upgrading'' @ NL"
| "GetInfo t DEADLOCK_PREVENTION = ''Transaction '' @ to_string t @ '' aborted for deadlock prevention'' @ NL"

section \<open>Lock requests\<close>

datatype LockMode = SHARED | EXLUCSIVE | INTENTION_SHARED | INTENTION_EXCLUSIVE | S_IX

datatype GroupLockMode = NON_LOCK | GIS | GIX | GS | GX | GSIX

record LockRequest =
  req_txn_id :: txn_id_t
  lock_mode :: LockMode
  granted :: bool

record LockRequestQueue =
  request_queue :: "LockRequest list"
  group_lock_mode :: GroupLockMode

record LockManager =
  lock_table :: "(LockDataId \<times> LockRequestQueue) list"

definition new_LockManager :: LockManager where
  "new_LockManager = \<lparr>lock_table = []\<rparr>"

definition empty_queue :: LockRequestQueue where
  "empty_queue = \<lparr>request_queue = [], group_lock_mode = NON_LOCK\<rparr>"

text \<open>\<^verbatim>\<open>lock_table_[id]\<close> creates an empty queue where there is none.\<close>

definition queue_at :: "LockDataId \<Rightarrow> LockManager \<Rightarrow> LockRequestQueue" where
  "queue_at i l = (case map_of (lock_table l) i of Some q \<Rightarrow> q | None \<Rightarrow> empty_queue)"

definition put_queue :: "LockDataId \<Rightarrow> LockRequestQueue \<Rightarrow> LockManager \<Rightarrow> LockManager" where
  "put_queue i q l = l\<lparr>lock_table := AList.update i q (lock_table l)\<rparr>"

definition combine_table_lock :: "LockMode \<Rightarrow> LockMode \<Rightarrow> LockMode" where
  "combine_table_lock held req =
     (if held = EXLUCSIVE \<or> req = EXLUCSIVE then EXLUCSIVE
      else if held = S_IX \<or> req = S_IX then S_IX
      else if held = SHARED \<and> req = INTENTION_EXCLUSIVE \<or> held = INTENTION_EXCLUSIVE \<and> req = SHARED then S_IX
      else if held = SHARED \<or> req = SHARED then SHARED
      else if held = INTENTION_EXCLUSIVE \<or> req = INTENTION_EXCLUSIVE then INTENTION_EXCLUSIVE
      else INTENTION_SHARED)"

text \<open>The loop of \<^verbatim>\<open>update_group_lock_mode\<close>, with its early returns.\<close>

fun group_loop :: "GroupLockMode \<Rightarrow> LockRequest list \<Rightarrow> GroupLockMode" where
  "group_loop g [] = g"
| "group_loop g (r # rs) =
     (if \<not> granted r then group_loop g rs
      else case lock_mode r of
        SHARED \<Rightarrow> group_loop (if g = NON_LOCK then GS else if g = GIS then GS else g) rs
      | EXLUCSIVE \<Rightarrow> GX
      | INTENTION_SHARED \<Rightarrow> group_loop (if g = NON_LOCK then GIS else g) rs
      | INTENTION_EXCLUSIVE \<Rightarrow> group_loop (if g = NON_LOCK then GIX else if g = GIS then GIX else g) rs
      | S_IX \<Rightarrow> GSIX)"

definition update_group_lock_mode :: "LockRequestQueue \<Rightarrow> LockRequestQueue" where
  "update_group_lock_mode q = q\<lparr>group_lock_mode := group_loop NON_LOCK (request_queue q)\<rparr>"

definition check_growing :: "Transaction \<Rightarrow> unit res" where
  "check_growing t =
     (if state t = SHRINKING then Inl (TransactionAbortException (txn_id t) LOCK_ON_SHIRINKING) else Inr ())"

fun table_conflict :: "LockMode \<Rightarrow> GroupLockMode \<Rightarrow> bool" where
  "table_conflict INTENTION_SHARED held \<longleftrightarrow> held = GX"
| "table_conflict INTENTION_EXCLUSIVE held \<longleftrightarrow> held = GS \<or> held = GX \<or> held = GSIX"
| "table_conflict SHARED held \<longleftrightarrow> held = GIX \<or> held = GX \<or> held = GSIX"
| "table_conflict EXLUCSIVE held \<longleftrightarrow> held \<noteq> NON_LOCK"
| "table_conflict S_IX held \<longleftrightarrow> held = GIS \<or> held = GIX \<or> held = GS \<or> held = GX \<or> held = GSIX"

definition record_conflict :: "LockMode \<Rightarrow> LockMode \<Rightarrow> bool" where
  "record_conflict request held =
     (if request = SHARED then held = EXLUCSIVE else held = SHARED \<or> held = EXLUCSIVE)"

text \<open>Changing the first request that satisfies a condition.\<close>

fun upd_first :: "('a \<Rightarrow> bool) \<Rightarrow> ('a \<Rightarrow> 'a) \<Rightarrow> 'a list \<Rightarrow> 'a list" where
  "upd_first P f [] = []"
| "upd_first P f (x # xs) = (if P x then f x # xs else x # upd_first P f xs)"

type_synonym lock_state = "Transaction \<times> LockManager"

definition other_granted :: "txn_id_t \<Rightarrow> LockRequest list \<Rightarrow> bool" where
  "other_granted t rs \<longleftrightarrow> (\<exists>r \<in> set rs. granted r \<and> req_txn_id r \<noteq> t)"

definition own_granted :: "txn_id_t \<Rightarrow> LockRequest list \<Rightarrow> bool" where
  "own_granted t rs \<longleftrightarrow> (\<exists>r \<in> set rs. req_txn_id r = t \<and> granted r)"

text \<open>The second loop of \<^verbatim>\<open>lock_on_table\<close> and \<^verbatim>\<open>lock_on_record\<close>: another transaction waits, or holds a
  conflicting lock.\<close>

definition blocked :: "txn_id_t \<Rightarrow> (LockRequest \<Rightarrow> bool) \<Rightarrow> LockRequest list \<Rightarrow> bool" where
  "blocked t conflict rs \<longleftrightarrow> (\<exists>r \<in> set rs. \<not> granted r \<and> req_txn_id r \<noteq> t \<or>
     granted r \<and> req_txn_id r \<noteq> t \<and> conflict r)"

text \<open>The third loop of \<^verbatim>\<open>lock_on_table\<close> and \<^verbatim>\<open>lock_on_record\<close>: grant the transaction's request or append one.\<close>

definition grant :: "txn_id_t \<Rightarrow> (LockMode \<Rightarrow> LockMode) \<Rightarrow> LockMode \<Rightarrow> LockRequest list \<Rightarrow> LockRequest list" where
  "grant t f m rs =
     (if \<exists>r \<in> set rs. req_txn_id r = t
      then upd_first (\<lambda>r. req_txn_id r = t) (\<lambda>r. r\<lparr>lock_mode := f (lock_mode r), granted := True\<rparr>) rs
      else rs @ [\<lparr>req_txn_id = t, lock_mode = m, granted = True\<rparr>])"

definition lock_on_table :: "int \<Rightarrow> LockMode \<Rightarrow> (lock_state, bool) em" where
  "lock_on_table tab_fd m = (\<lambda>(t0, l).
     case check_growing t0 of Inl e \<Rightarrow> (Inl e, (t0, l)) | Inr _ \<Rightarrow>
     let t = set_state GROWING t0;
         i = table_lock_id tab_fd;
         q = queue_at i l;
         l1 = put_queue i q l;
         rs = request_queue q;
         own = (\<lambda>r. req_txn_id r = txn_id t \<and> granted r);
         abort = TransactionAbortException (txn_id t) DEADLOCK_PREVENTION
     in if own_granted (txn_id t) rs then
          if m = EXLUCSIVE then
            if other_granted (txn_id t) rs then (Inl abort, (t, l1))
            else (Inr True, (lock_set_insert i t,
                    put_queue i \<lparr>request_queue = upd_first own (\<lambda>r. r\<lparr>lock_mode := EXLUCSIVE\<rparr>) rs, group_lock_mode = GX\<rparr> l))
          else (Inr True, (lock_set_insert i t,
                  put_queue i (update_group_lock_mode (q\<lparr>request_queue :=
                    upd_first own (\<lambda>r. r\<lparr>lock_mode := combine_table_lock (lock_mode r) m\<rparr>) rs\<rparr>)) l))
        else if blocked (txn_id t) (\<lambda>r. table_conflict m (group_lock_mode q)) rs
        then (Inl abort, (t, l1))
        else (Inr True, (lock_set_insert i t,
                put_queue i (update_group_lock_mode (q\<lparr>request_queue :=
                  grant (txn_id t) (\<lambda>h. combine_table_lock h m) m rs\<rparr>)) l)))"

text \<open>The first loop of \<^verbatim>\<open>lock_on_record\<close>: an upgrade, a request already granted, or nothing.\<close>

definition keep_front :: "'a \<Rightarrow> ('a list option) res option \<Rightarrow> ('a list option) res option" where
  "keep_front r = map_option (\<lambda>x. case x of Inr (Some rs) \<Rightarrow> Inr (Some (r # rs)) | y \<Rightarrow> y)"

fun record_own :: "txn_id_t \<Rightarrow> LockMode \<Rightarrow> LockRequest list \<Rightarrow> LockRequest list \<Rightarrow> (LockRequest list option) res option" where
  "record_own t m all [] = None"
| "record_own t m all (r # rs) =
     (if req_txn_id r = t \<and> granted r then
        if m = EXLUCSIVE \<and> lock_mode r = SHARED then
          if other_granted t all then Some (Inl (TransactionAbortException t UPGRADE_CONFLICT))
          else Some (Inr (Some (r\<lparr>lock_mode := EXLUCSIVE\<rparr> # rs)))
        else if lock_mode r = m then Some (Inr None)
        else keep_front r (record_own t m all rs)
      else keep_front r (record_own t m all rs))"

text \<open>The two checks against the table's queue, and the part of \<^verbatim>\<open>lock_on_record\<close> behind them.\<close>

definition table_forbids :: "txn_id_t \<Rightarrow> LockMode \<Rightarrow> LockRequestQueue \<Rightarrow> bool" where
  "table_forbids t m tq \<longleftrightarrow>
     (group_lock_mode tq = GX \<or> m = EXLUCSIVE \<and> (group_lock_mode tq = GS \<or> group_lock_mode tq = GSIX)) \<and>
     other_granted t (request_queue tq)"

definition record_request :: "LockDataId \<Rightarrow> LockMode \<Rightarrow> (lock_state, bool) em" where
  "record_request i m = (\<lambda>(t, l).
     let q = queue_at i l;
         l1 = put_queue i q l;
         rs = request_queue q
     in case record_own (txn_id t) m rs rs of
          Some (Inl e) \<Rightarrow> (Inl e, (t, l1))
        | Some (Inr None) \<Rightarrow> (Inr True, (lock_set_insert i t, l1))
        | Some (Inr (Some rs')) \<Rightarrow>
            (Inr True, (lock_set_insert i t, put_queue i \<lparr>request_queue = rs', group_lock_mode = GX\<rparr> l))
        | None \<Rightarrow>
            if blocked (txn_id t) (\<lambda>r. record_conflict m (lock_mode r)) rs
            then (Inl (TransactionAbortException (txn_id t) DEADLOCK_PREVENTION), (t, l1))
            else (Inr True, (lock_set_insert i t,
                    put_queue i \<lparr>request_queue = grant (txn_id t) (\<lambda>_. m) m rs,
                                group_lock_mode = (if m = SHARED then GS else GX)\<rparr> l)))"

definition lock_on_record :: "Rid \<Rightarrow> int \<Rightarrow> LockMode \<Rightarrow> (lock_state, bool) em" where
  "lock_on_record rid tab_fd m = (\<lambda>(t0, l0).
     case check_growing t0 of Inl e \<Rightarrow> (Inl e, (t0, l0)) | Inr _ \<Rightarrow>
     let t = set_state GROWING t0;
         ti = table_lock_id tab_fd;
         tq = queue_at ti l0;
         l = put_queue ti tq l0
     in if table_forbids (txn_id t) m tq
        then (Inl (TransactionAbortException (txn_id t) DEADLOCK_PREVENTION), (t, l))
        else record_request (record_lock_id tab_fd rid) m (t, l))"

definition lock_shared_on_record :: "Rid \<Rightarrow> int \<Rightarrow> (lock_state, bool) em" where
  "lock_shared_on_record rid tab_fd = lock_on_record rid tab_fd SHARED"

definition lock_exclusive_on_record :: "Rid \<Rightarrow> int \<Rightarrow> (lock_state, bool) em" where
  "lock_exclusive_on_record rid tab_fd = lock_on_record rid tab_fd EXLUCSIVE"

definition lock_shared_on_table :: "int \<Rightarrow> (lock_state, bool) em" where
  "lock_shared_on_table tab_fd = lock_on_table tab_fd SHARED"

definition lock_exclusive_on_table :: "int \<Rightarrow> (lock_state, bool) em" where
  "lock_exclusive_on_table tab_fd = lock_on_table tab_fd EXLUCSIVE"

definition lock_IS_on_table :: "int \<Rightarrow> (lock_state, bool) em" where
  "lock_IS_on_table tab_fd = lock_on_table tab_fd INTENTION_SHARED"

definition lock_IX_on_table :: "int \<Rightarrow> (lock_state, bool) em" where
  "lock_IX_on_table tab_fd = lock_on_table tab_fd INTENTION_EXCLUSIVE"

section \<open>Gap locks\<close>

definition kGapRangeTag :: byte where "kGapRangeTag = 82"
definition kGapPointTag :: byte where "kGapPointTag = 80"

definition encode_gap_range :: "byte list \<Rightarrow> byte list \<Rightarrow> nat \<Rightarrow> bool \<Rightarrow> bool \<Rightarrow> byte list" where
  "encode_gap_range lower upper key_len lower_open upper_open =
     [kGapRangeTag] @ take key_len lower @ [0] @ take key_len upper @
     [if lower_open then 1 else 0] @ [if upper_open then 1 else 0]"

definition encode_gap_point :: "byte list \<Rightarrow> nat \<Rightarrow> byte list" where
  "encode_gap_point point_key key_len = [kGapPointTag] @ take key_len point_key"

text \<open>\<^verbatim>\<open>gap_key.find('\0', 1)\<close>.\<close>

definition find_zero :: "byte list \<Rightarrow> nat option" where
  "find_zero s = (let n = length (takeWhile (\<lambda>b. b \<noteq> 0) (drop 1 s)) in if 1 + n < length s then Some (1 + n) else None)"

definition decode_gap_range :: "byte list \<Rightarrow> byte list \<times> byte list \<times> bool \<times> bool" where
  "decode_gap_range s =
     (if s = [] \<or> hd s \<noteq> kGapRangeTag then ([], [], False, False)
      else case find_zero s of
        None \<Rightarrow> ([], [], False, False)
      | Some split \<Rightarrow>
          if length s < split + 3 then ([], [], False, False)
          else (get_bytes 1 (split - 1) s, get_bytes (split + 1) (length s - split - 3) s,
                s ! (length s - 2) \<noteq> 0, s ! (length s - 1) \<noteq> 0))"

text \<open>\<^verbatim>\<open>ix_compare\<close> on pointers: each column it looks at must be readable behind both.\<close>

fun ix_compare_ptr :: "byte list \<Rightarrow> byte list \<Rightarrow> (ColType \<times> nat) list \<Rightarrow> int res" where
  "ix_compare_ptr a b [] = Inr 0"
| "ix_compare_ptr a b ((t, len) # cols) =
     rbind (compare_raw_value a b t (int len)) (\<lambda>res.
       if res \<noteq> 0 then Inr res else ix_compare_ptr (drop len a) (drop len b) cols)"

definition key_in_gap_range :: "byte list \<Rightarrow> byte list \<Rightarrow> byte list \<Rightarrow> bool \<Rightarrow> bool \<Rightarrow> (ColType \<times> nat) list \<Rightarrow> bool res" where
  "key_in_gap_range key lower upper lower_open upper_open cols =
     rbind (ix_compare_ptr lower key cols) (\<lambda>cmp_lower.
     rbind (ix_compare_ptr key upper cols) (\<lambda>cmp_upper.
       Inr ((if lower_open then cmp_lower < 0 else cmp_lower \<le> 0) \<and>
            (if upper_open then cmp_upper < 0 else cmp_upper \<le> 0))))"

text \<open>\<^verbatim>\<open>c_str()\<close> makes the bytes of the string and a terminating zero readable.\<close>

definition gap_lock_conflict :: "LockMode \<Rightarrow> LockMode \<Rightarrow> bool \<Rightarrow> byte list \<Rightarrow> byte list \<Rightarrow> bool \<Rightarrow> bool \<Rightarrow> bool \<Rightarrow>
    byte list \<Rightarrow> (ColType \<times> nat) list \<Rightarrow> bool res" where
  "gap_lock_conflict request held req_is_range req_lower req_upper req_lower_open req_upper_open held_is_range
      held_gap_key cols =
     (if request = SHARED \<and> held = SHARED then Inr False
      else if req_is_range \<and> \<not> held_is_range then
        key_in_gap_range (drop 1 (held_gap_key @ [0])) req_lower req_upper req_lower_open req_upper_open cols
      else if \<not> req_is_range \<and> held_is_range then
        (case decode_gap_range held_gap_key of (held_lower, held_upper, held_lower_open, held_upper_open) \<Rightarrow>
           key_in_gap_range req_lower (held_lower @ [0]) (held_upper @ [0]) held_lower_open held_upper_open cols)
      else if \<not> req_is_range \<and> \<not> held_is_range then
        rbind (ix_compare_ptr req_lower (drop 1 (held_gap_key @ [0])) cols) (\<lambda>c. Inr (c = 0))
      else Inr False)"

text \<open>The two nested loops over the gap locks of the index: the first conflict, in the table's order.\<close>

fun gap_conflicts :: "(LockRequest \<Rightarrow> bool res) \<Rightarrow> txn_id_t \<Rightarrow> LockRequest list \<Rightarrow> bool res" where
  "gap_conflicts conf t [] = Inr False"
| "gap_conflicts conf t (r # rs) =
     (if \<not> granted r \<or> req_txn_id r = t then gap_conflicts conf t rs
      else rbind (conf r) (\<lambda>b. if b then Inr True else gap_conflicts conf t rs))"

fun gap_table_conflicts :: "(byte list \<Rightarrow> LockRequest \<Rightarrow> bool res) \<Rightarrow> txn_id_t \<Rightarrow> int \<Rightarrow>
    (LockDataId \<times> LockRequestQueue) list \<Rightarrow> bool res" where
  "gap_table_conflicts conf t index_fd [] = Inr False"
| "gap_table_conflicts conf t index_fd ((i, q) # es) =
     (if lk_type i \<noteq> LOCK_GAP \<or> lk_fd i \<noteq> index_fd then gap_table_conflicts conf t index_fd es
      else rbind (gap_conflicts (conf (gap_key i)) t (request_queue q)) (\<lambda>b.
             if b then Inr True else gap_table_conflicts conf t index_fd es))"

definition lock_on_gap :: "int \<Rightarrow> byte list \<Rightarrow> LockMode \<Rightarrow> (ColType \<times> nat) list \<Rightarrow> bool \<Rightarrow> byte list \<Rightarrow> byte list \<Rightarrow>
    bool \<Rightarrow> bool \<Rightarrow> (lock_state, bool) em" where
  "lock_on_gap index_fd key m cols is_range lower upper lower_open upper_open = (\<lambda>(t0, l0).
     case check_growing t0 of Inl e \<Rightarrow> (Inl e, (t0, l0)) | Inr _ \<Rightarrow>
     let t = set_state GROWING t0;
         i = gap_lock_id index_fd key;
         q = queue_at i l0;
         l = put_queue i q l0
     in if own_granted (txn_id t) (request_queue q)
        then (Inr True, (lock_set_insert i t, l))
        else case gap_table_conflicts
               (\<lambda>held_key r. gap_lock_conflict m (lock_mode r) is_range lower upper lower_open upper_open
                  (held_key \<noteq> [] \<and> hd held_key = kGapRangeTag) held_key cols)
               (txn_id t) index_fd (lock_table l) of
             Inl e \<Rightarrow> (Inl e, (t, l))
           | Inr True \<Rightarrow> (Inl (TransactionAbortException (txn_id t) DEADLOCK_PREVENTION), (t, l))
           | Inr False \<Rightarrow>
               (Inr True, (lock_set_insert i t,
                  put_queue i \<lparr>request_queue = request_queue q @ [\<lparr>req_txn_id = txn_id t, lock_mode = m, granted = True\<rparr>],
                              group_lock_mode = (if m = SHARED then GS else GX)\<rparr> l)))"

definition lock_shared_on_gap_range :: "int \<Rightarrow> (ColType \<times> nat) list \<Rightarrow> byte list \<Rightarrow> byte list \<Rightarrow> bool \<Rightarrow> bool \<Rightarrow>
    (lock_state, bool) em" where
  "lock_shared_on_gap_range index_fd cols lower upper lower_open upper_open =
     lock_on_gap index_fd (encode_gap_range lower upper (sum_list (map snd cols)) lower_open upper_open) SHARED cols
       True lower upper lower_open upper_open"

definition lock_exclusive_on_gap_point :: "int \<Rightarrow> (ColType \<times> nat) list \<Rightarrow> byte list \<Rightarrow> nat \<Rightarrow> (lock_state, bool) em" where
  "lock_exclusive_on_gap_point index_fd cols key key_len =
     lock_on_gap index_fd (encode_gap_point key key_len) EXLUCSIVE cols False key key False False"

section \<open>Releasing\<close>

fun erase_first :: "('a \<Rightarrow> bool) \<Rightarrow> 'a list \<Rightarrow> 'a list" where
  "erase_first P [] = []"
| "erase_first P (x # xs) = (if P x then xs else x # erase_first P xs)"

definition unlock :: "LockDataId \<Rightarrow> lock_state \<Rightarrow> bool \<times> lock_state" where
  "unlock i = (\<lambda>(t0, l).
     let t = set_state SHRINKING t0
     in case map_of (lock_table l) i of
          None \<Rightarrow> (False, (t, l))
        | Some q \<Rightarrow>
            if \<exists>r \<in> set (request_queue q). req_txn_id r = txn_id t then
              let q1 = update_group_lock_mode (q\<lparr>request_queue := erase_first (\<lambda>r. req_txn_id r = txn_id t) (request_queue q)\<rparr>)
              in (True, (lock_set_erase i t,
                    if request_queue q1 = [] then l\<lparr>lock_table := AList.delete i (lock_table l)\<rparr> else put_queue i q1 l))
            else (False, (t, l)))"

section \<open>Queues\<close>

lemma queue_at_put [simp]: "queue_at j (put_queue i q l) = (if j = i then q else queue_at j l)"
  by (simp add: queue_at_def put_queue_def map_of_update)

lemma queue_at_delete [simp]:
  "queue_at j (l\<lparr>lock_table := AList.delete i (lock_table l)\<rparr>) = (if j = i then empty_queue else queue_at j l)"
  by (simp add: queue_at_def delete_conv')

lemma length_upd_first [simp]: "length (upd_first P f xs) = length xs"
  by (induction xs) auto

lemma set_upd_first: "y \<in> set (upd_first P f xs) \<Longrightarrow> y \<in> set xs \<or> (\<exists>x \<in> set xs. P x \<and> y = f x)"
  by (induction xs) (auto split: if_splits)

lemma map_upd_first: "(\<And>x. g (f x) = g x) \<Longrightarrow> map g (upd_first P f xs) = map g xs"
  by (induction xs) auto

lemma set_erase_first: "y \<in> set (erase_first P xs) \<Longrightarrow> y \<in> set xs"
  by (induction xs) (auto split: if_splits)

lemma distinct_erase_first: "distinct (map g xs) \<Longrightarrow> distinct (map g (erase_first P xs))"
  by (induction xs) (auto dest: set_erase_first)

lemma erase_first_gone:
  "distinct (map g xs) \<Longrightarrow> y \<in> set (erase_first (\<lambda>x. g x = a) xs) \<Longrightarrow> g y \<noteq> a"
proof (induction xs)
  case (Cons x xs)
  show ?case
  proof (cases "g x = a")
    case True
    then have "a \<notin> g ` set xs" using Cons.prems(1) by auto
    moreover have "g y \<in> g ` set xs" using Cons.prems(2) True by simp
    ultimately show ?thesis by blast
  next
    case False
    with Cons show ?thesis by auto
  qed
qed simp

lemma length_erase_first: "length (erase_first P xs) = (if \<exists>x \<in> set xs. P x then length xs - 1 else length xs)"
proof (induction xs)
  case (Cons x xs)
  then show ?case by (cases xs) auto
qed simp

text \<open>
  The invariant of a queue: one granted request per transaction; on tables and records an exclusive
  lock is the only one; the group mode of a table is the one its requests give; record locks are
  shared or exclusive.
\<close>

definition queue_inv :: "LockDataId \<Rightarrow> LockRequestQueue \<Rightarrow> bool" where
  "queue_inv i q \<longleftrightarrow> distinct (map req_txn_id (request_queue q)) \<and> (\<forall>r \<in> set (request_queue q). granted r) \<and>
     (lk_type i \<noteq> LOCK_GAP \<longrightarrow> (\<exists>r \<in> set (request_queue q). lock_mode r = EXLUCSIVE) \<longrightarrow> length (request_queue q) = 1) \<and>
     (lk_type i = LOCK_TABLE \<longrightarrow> group_lock_mode q = group_loop NON_LOCK (request_queue q)) \<and>
     (lk_type i = LOCK_RECORD \<longrightarrow> (\<forall>r \<in> set (request_queue q). lock_mode r = SHARED \<or> lock_mode r = EXLUCSIVE))"

lemma queue_inv_empty [simp]: "queue_inv i empty_queue"
  by (simp add: queue_inv_def empty_queue_def)

lemma group_loop_granted:
  "g \<noteq> NON_LOCK \<Longrightarrow> group_loop g rs \<noteq> NON_LOCK"
  by (induction rs arbitrary: g) (auto split: LockMode.splits)

lemma group_loop_NON_LOCK: "group_loop NON_LOCK rs = NON_LOCK \<Longrightarrow> r \<in> set rs \<Longrightarrow> \<not> granted r"
  by (induction rs) (auto simp: group_loop_granted split: if_splits LockMode.splits)

lemma own_alone:
  assumes "distinct (map req_txn_id rs)" and "\<forall>r \<in> set rs. granted r" and "\<not> other_granted t rs"
  shows "length rs \<le> 1"
proof -
  have "set (map req_txn_id rs) \<subseteq> {t}" using assms(2,3) by (auto simp: other_granted_def)
  then have "card (set (map req_txn_id rs)) \<le> 1" by (metis card_mono finite.emptyI finite.insertI card_1_singleton_iff One_nat_def)
  then show ?thesis using distinct_card[OF assms(1)] by simp
qed

text \<open>A change of the requests by one transaction: the others' requests stay as they are.\<close>

definition others_kept :: "txn_id_t \<Rightarrow> LockRequest list \<Rightarrow> LockRequest list \<Rightarrow> bool" where
  "others_kept t rs rs' \<longleftrightarrow> (\<forall>r. req_txn_id r \<noteq> t \<longrightarrow> r \<in> set rs' \<longleftrightarrow> r \<in> set rs)"

lemma others_kept_refl [simp]: "others_kept t rs rs"
  by (simp add: others_kept_def)

lemma others_kept_upd:
  assumes "\<And>r. P r \<Longrightarrow> req_txn_id r = t" and "\<And>r. req_txn_id (f r) = req_txn_id r"
  shows "others_kept t rs (upd_first P f rs)"
  using assms by (induction rs) (auto simp: others_kept_def)

lemma others_kept_erase: "others_kept t rs (erase_first (\<lambda>r. req_txn_id r = t) rs)"
  by (induction rs) (auto simp: others_kept_def)

lemma others_kept_grant: "others_kept t rs (grant t f m rs)"
  using others_kept_upd[of "\<lambda>r. req_txn_id r = t" t] by (auto simp: grant_def others_kept_def)

lemma combine_X: "combine_table_lock h m = EXLUCSIVE \<longleftrightarrow> h = EXLUCSIVE \<or> m = EXLUCSIVE"
  by (simp add: combine_table_lock_def)

lemma grant_inv:
  assumes "distinct (map req_txn_id rs)" and "\<forall>r \<in> set rs. granted r"
  shows "distinct (map req_txn_id (grant t f m rs)) \<and> (\<forall>r \<in> set (grant t f m rs). granted r)"
proof (cases "\<exists>r \<in> set rs. req_txn_id r = t")
  case True
  then show ?thesis
    using assms by (auto simp: grant_def map_upd_first dest!: set_upd_first)
next
  case False
  then show ?thesis using assms by (auto simp: grant_def)
qed

lemma table_queue_step:
  assumes inv: "queue_inv i q" and ty: "lk_type i = LOCK_TABLE" and rs: "rs = request_queue q"
    and free: "\<not> (\<exists>r \<in> set rs. req_txn_id r = t \<and> granted r)"
    and nc: "\<not> (\<exists>r \<in> set rs. granted r \<and> req_txn_id r \<noteq> t \<and> table_conflict m (group_lock_mode q))"
  shows "queue_inv i (update_group_lock_mode (q\<lparr>request_queue := grant t f m rs\<rparr>))"
proof -
  have q: "distinct (map req_txn_id rs)" "\<forall>r \<in> set rs. granted r"
    "(\<exists>r \<in> set rs. lock_mode r = EXLUCSIVE) \<longrightarrow> length rs = 1" "group_lock_mode q = group_loop NON_LOCK rs"
    using inv ty rs by (auto simp: queue_inv_def)
  have no: "\<forall>r \<in> set rs. req_txn_id r \<noteq> t" using free q(2) by blast
  have g: "grant t f m rs = rs @ [\<lparr>req_txn_id = t, lock_mode = m, granted = True\<rparr>]"
    using no by (auto simp: grant_def)
  have "rs = []" if x: "m = EXLUCSIVE \<or> (\<exists>r \<in> set rs. lock_mode r = EXLUCSIVE)"
  proof (rule ccontr)
    assume ne: "rs \<noteq> []"
    then obtain r where r: "r \<in> set rs" by (cases rs) auto
    then have c: "\<not> table_conflict m (group_loop NON_LOCK rs)" using nc no q(2,4) by auto
    show False
    proof (cases "m = EXLUCSIVE")
      case True
      then show False using c group_loop_NON_LOCK[OF _ r] q(2) r by auto
    next
      case False
      then obtain r' where "rs = [r']" "lock_mode r' = EXLUCSIVE"
        using x q(3) by (auto simp: length_Suc_conv)
      then have "group_loop NON_LOCK rs = GX" using q(2) by simp
      with c show False by (cases m) auto
    qed
  qed
  then show ?thesis
    using grant_inv[OF q(1,2), of t f m] ty unfolding queue_inv_def g
    by (auto simp: update_group_lock_mode_def)
qed

lemma table_queue_upgrade:
  assumes inv: "queue_inv i q" and ty: "lk_type i = LOCK_TABLE" and rs: "rs = request_queue q" and m: "m \<noteq> EXLUCSIVE"
  shows "queue_inv i (update_group_lock_mode (q\<lparr>request_queue :=
    upd_first P (\<lambda>r. r\<lparr>lock_mode := combine_table_lock (lock_mode r) m\<rparr>) rs\<rparr>))"
proof -
  let ?rs' = "upd_first P (\<lambda>r. r\<lparr>lock_mode := combine_table_lock (lock_mode r) m\<rparr>) rs"
  have q: "distinct (map req_txn_id rs)" "\<forall>r \<in> set rs. granted r"
    "(\<exists>r \<in> set rs. lock_mode r = EXLUCSIVE) \<longrightarrow> length rs = 1"
    using inv ty rs by (auto simp: queue_inv_def)
  have "\<exists>r \<in> set rs. lock_mode r = EXLUCSIVE" if "r \<in> set ?rs'" "lock_mode r = EXLUCSIVE" for r
    using set_upd_first[OF that(1)] that(2) m by (auto simp: combine_X)
  moreover have "map req_txn_id ?rs' = map req_txn_id rs" by (rule map_upd_first) simp
  moreover have "\<forall>r \<in> set ?rs'. granted r" using q(2) by (auto dest!: set_upd_first)
  ultimately show ?thesis
    using q ty by (auto simp: queue_inv_def update_group_lock_mode_def)
qed

lemma table_queue_X:
  assumes inv: "queue_inv i q" and ty: "lk_type i = LOCK_TABLE" and rs: "rs = request_queue q"
    and own: "\<exists>r \<in> set rs. P r" and alone: "\<not> other_granted t rs"
  shows "queue_inv i \<lparr>request_queue = upd_first P (\<lambda>r. r\<lparr>lock_mode := EXLUCSIVE\<rparr>) rs, group_lock_mode = GX\<rparr>"
proof -
  have q: "distinct (map req_txn_id rs)" "\<forall>r \<in> set rs. granted r"
    using inv ty rs by (auto simp: queue_inv_def)
  obtain r where "rs = [r]" using own_alone[OF q alone] own by (cases rs) auto
  with q own ty show ?thesis by (auto simp: queue_inv_def)
qed

lemma keep_front_simps [simp]:
  "keep_front r x = None \<longleftrightarrow> x = None"
  "keep_front r x = Some (Inr (Some rs)) \<longleftrightarrow> (\<exists>rs1. x = Some (Inr (Some rs1)) \<and> rs = r # rs1)"
proof -
  show "keep_front r x = None \<longleftrightarrow> x = None" by (simp add: keep_front_def)
  show "keep_front r x = Some (Inr (Some rs)) \<longleftrightarrow> (\<exists>rs1. x = Some (Inr (Some rs1)) \<and> rs = r # rs1)"
  proof (cases x)
    case (Some y)
    then show ?thesis by (cases y) (auto simp: keep_front_def split: option.splits)
  qed (simp add: keep_front_def)
qed

lemma record_own_None:
  "record_own t m all rs = None \<Longrightarrow> r \<in> set rs \<Longrightarrow> req_txn_id r = t \<Longrightarrow> granted r \<Longrightarrow>
   lock_mode r \<noteq> m \<and> \<not> (m = EXLUCSIVE \<and> lock_mode r = SHARED)"
  by (induction rs) (auto split: if_splits)

lemma record_own_upgrade:
  "record_own t m all rs = Some (Inr (Some rs')) \<Longrightarrow>
   \<not> other_granted t all \<and> map req_txn_id rs' = map req_txn_id rs \<and> map granted rs' = map granted rs \<and>
   (\<forall>r \<in> set rs'. lock_mode r = EXLUCSIVE \<or> r \<in> set rs) \<and> others_kept t rs rs'"
proof (induction rs arbitrary: rs')
  case (Cons r rs)
  show ?case
  proof (cases "req_txn_id r = t \<and> granted r \<and> m = EXLUCSIVE \<and> lock_mode r = SHARED")
    case True
    with Cons.prems show ?thesis by (auto simp: others_kept_def split: if_splits)
  next
    case False
    then obtain rs1 where "record_own t m all rs = Some (Inr (Some rs1))" and "rs' = r # rs1"
      using Cons.prems by (auto split: if_splits)
    with Cons.IH[of rs1] show ?thesis by (auto simp: others_kept_def)
  qed
qed simp

lemma record_queue_upgrade:
  assumes inv: "queue_inv i q" and ty: "lk_type i = LOCK_RECORD" and rs: "rs = request_queue q"
    and up: "record_own t m rs rs = Some (Inr (Some rs'))"
  shows "queue_inv i \<lparr>request_queue = rs', group_lock_mode = g\<rparr> \<and> others_kept t rs rs'"
proof -
  have q: "distinct (map req_txn_id rs)" "\<forall>r \<in> set rs. granted r"
    "\<forall>r \<in> set rs. lock_mode r = SHARED \<or> lock_mode r = EXLUCSIVE"
    using inv ty rs by (auto simp: queue_inv_def)
  have u: "\<not> other_granted t rs" "map req_txn_id rs' = map req_txn_id rs" "map granted rs' = map granted rs"
    "\<forall>r \<in> set rs'. lock_mode r = EXLUCSIVE \<or> r \<in> set rs" "others_kept t rs rs'"
    using record_own_upgrade[OF up] by blast+
  have "length rs \<le> 1" by (rule own_alone[OF q(1,2) u(1)])
  moreover have "length rs' = length rs" using u(2) by (metis length_map)
  moreover have "\<forall>r \<in> set rs'. granted r" using u(3) q(2) by (metis (mono_tags) in_set_conv_nth length_map nth_map nth_mem)
  ultimately show ?thesis
    using q u ty by (cases rs') (auto simp: queue_inv_def)
qed

lemma record_queue_grant:
  assumes inv: "queue_inv i q" and ty: "lk_type i = LOCK_RECORD" and rs: "rs = request_queue q"
    and m: "m = SHARED \<or> m = EXLUCSIVE" and no: "record_own t m rs rs = None"
    and nc: "\<not> (\<exists>r \<in> set rs. granted r \<and> req_txn_id r \<noteq> t \<and> record_conflict m (lock_mode r))"
  shows "queue_inv i \<lparr>request_queue = grant t (\<lambda>_. m) m rs, group_lock_mode = g\<rparr>"
proof -
  have q: "distinct (map req_txn_id rs)" "\<forall>r \<in> set rs. granted r"
    "\<forall>r \<in> set rs. lock_mode r = SHARED \<or> lock_mode r = EXLUCSIVE"
    "(\<exists>r \<in> set rs. lock_mode r = EXLUCSIVE) \<longrightarrow> length rs = 1"
    using inv ty rs by (auto simp: queue_inv_def)
  have modes: "\<forall>r \<in> set (grant t (\<lambda>_. m) m rs). lock_mode r = SHARED \<or> lock_mode r = EXLUCSIVE"
    using q(3) m by (auto simp: grant_def dest!: set_upd_first)
  have single: "length (grant t (\<lambda>_. m) m rs) = 1"
    if x: "\<exists>r \<in> set (grant t (\<lambda>_. m) m rs). lock_mode r = EXLUCSIVE"
  proof (cases "\<exists>r \<in> set rs. req_txn_id r = t")
    case True
    then have "m \<noteq> EXLUCSIVE" using record_own_None[OF no] q(2,3) by blast
    then have "\<exists>r \<in> set rs. lock_mode r = EXLUCSIVE" using x m True by (auto simp: grant_def dest!: set_upd_first)
    with q(4) True show ?thesis by (simp add: grant_def)
  next
    case False
    have "rs = []"
    proof (rule ccontr)
      assume "rs \<noteq> []"
      then obtain r where r: "r \<in> set rs" by (cases rs) auto
      then have c: "\<not> record_conflict m (lock_mode r)" if "r \<in> set rs" for r using nc False q(2) that by auto
      show False
      proof (cases "m = EXLUCSIVE")
        case True
        then show False using c[OF r] q(3) r by (auto simp: record_conflict_def)
      next
        case m2: False
        then obtain r' where "r' \<in> set rs" "lock_mode r' = EXLUCSIVE" using x False by (auto simp: grant_def)
        then show False using c m m2 by (auto simp: record_conflict_def)
      qed
    qed
    then show ?thesis by (simp add: grant_def)
  qed
  show ?thesis using grant_inv[OF q(1,2)] modes single ty by (simp add: queue_inv_def)
qed

section \<open>Every operation keeps the lock table consistent\<close>

abbreviation reqs :: "LockManager \<Rightarrow> LockDataId \<Rightarrow> LockRequest list" where
  "reqs l i \<equiv> request_queue (queue_at i l)"

definition lm_inv :: "LockManager \<Rightarrow> bool" where
  "lm_inv l \<longleftrightarrow> (\<forall>i. queue_inv i (queue_at i l))"

definition owns :: "Transaction \<Rightarrow> LockManager \<Rightarrow> bool" where
  "owns t l \<longleftrightarrow> (\<forall>i. \<forall>r \<in> set (reqs l i). req_txn_id r = txn_id t \<longrightarrow> i \<in> set (lock_set t))"

definition lock_step_ok :: "Transaction \<Rightarrow> LockManager \<Rightarrow> Transaction \<Rightarrow> LockManager \<Rightarrow> bool" where
  "lock_step_ok t l t' l' \<longleftrightarrow> (lm_inv l \<and> owns t l \<longrightarrow> lm_inv l' \<and> owns t' l' \<and> txn_id t' = txn_id t \<and>
     (\<forall>i. others_kept (txn_id t) (reqs l i) (reqs l' i)))"

lemma step_same:
  "txn_id t' = txn_id t \<Longrightarrow> lock_set t' = lock_set t \<Longrightarrow> (\<And>i. queue_at i l' = queue_at i l) \<Longrightarrow> lock_step_ok t l t' l'"
  by (simp add: lock_step_ok_def lm_inv_def owns_def)

lemma step_insert:
  "txn_id t' = txn_id t \<Longrightarrow> set (lock_set t) \<subseteq> set (lock_set t') \<Longrightarrow> (\<And>i. queue_at i l' = queue_at i l) \<Longrightarrow> lock_step_ok t l t' l'"
  by (auto simp: lock_step_ok_def lm_inv_def owns_def)

lemma step_put:
  assumes "txn_id t' = txn_id t" and "insert i (set (lock_set t)) \<subseteq> set (lock_set t')"
    and "\<And>j. queue_at j l' = (if j = i then q' else queue_at j l)"
    and "queue_inv i (queue_at i l) \<Longrightarrow> queue_inv i q' \<and> others_kept (txn_id t) (reqs l i) (request_queue q')"
  shows "lock_step_ok t l t' l'"
  using assms by (auto simp: lock_step_ok_def lm_inv_def owns_def others_kept_def)

lemma txn_simps [simp]:
  "txn_id (set_state s t) = txn_id t" "lock_set (set_state s t) = lock_set t" "state (set_state s t) = s"
  "txn_id (lock_set_insert i t) = txn_id t" "set (lock_set (lock_set_insert i t)) = insert i (set (lock_set t))"
  "txn_id (lock_set_erase i t) = txn_id t" "set (lock_set (lock_set_erase i t)) = set (lock_set t) - {i}"
  "state (lock_set_insert i t) = state t" "state (lock_set_erase i t) = state t"
  by (simp_all add: set_state_def lock_set_insert_def lock_set_erase_def)

lemma lk_type_ids [simp]:
  "lk_type (table_lock_id fd) = LOCK_TABLE" "lk_type (record_lock_id fd r) = LOCK_RECORD"
  "lk_type (gap_lock_id fd k) = LOCK_GAP"
  by (simp_all add: table_lock_id_def record_lock_id_def gap_lock_id_def)

lemma lock_on_table_ok:
  assumes "lock_on_table fd m (t, l) = (x, (t', l'))"
  shows "lock_step_ok t l t' l'"
proof (cases "state t = SHRINKING")
  case True
  with assms show ?thesis by (simp add: lock_on_table_def check_growing_def step_same)
next
  case False
  let ?i = "table_lock_id fd" and ?own = "\<lambda>r. req_txn_id r = txn_id t \<and> granted r"
  let ?q = "queue_at ?i l" and ?rs = "reqs l ?i"
  let ?bad = "blocked (txn_id t) (\<lambda>r. table_conflict m (group_lock_mode ?q)) ?rs"
  have run: "(x, (t', l')) = lock_on_table fd m (t, l)" using assms by simp
  note run = run[unfolded lock_on_table_def check_growing_def]
  consider (own_bad) "own_granted (txn_id t) ?rs" "m = EXLUCSIVE" "other_granted (txn_id t) ?rs"
    | (own_X) "own_granted (txn_id t) ?rs" "m = EXLUCSIVE" "\<not> other_granted (txn_id t) ?rs"
    | (own) "own_granted (txn_id t) ?rs" "m \<noteq> EXLUCSIVE"
    | (bad) "\<not> own_granted (txn_id t) ?rs" ?bad
    | (new) "\<not> own_granted (txn_id t) ?rs" "\<not> ?bad" by blast
  then show ?thesis
  proof cases
    case own_bad
    with run False show ?thesis by (simp add: Let_def step_same)
  next
    case own_X
    have "queue_inv ?i \<lparr>request_queue = upd_first ?own (\<lambda>r. r\<lparr>lock_mode := EXLUCSIVE\<rparr>) ?rs, group_lock_mode = GX\<rparr> \<and>
      others_kept (txn_id t) ?rs (upd_first ?own (\<lambda>r. r\<lparr>lock_mode := EXLUCSIVE\<rparr>) ?rs)" if "queue_inv ?i ?q"
      using table_queue_X[OF that _ refl _ own_X(3), of ?own] own_X(1) others_kept_upd[of ?own "txn_id t"]
      by (auto simp: own_granted_def)
    then show ?thesis using own_X run False by (auto simp: Let_def intro!: step_put)
  next
    case own
    have "queue_inv ?i (update_group_lock_mode (?q\<lparr>request_queue :=
        upd_first ?own (\<lambda>r. r\<lparr>lock_mode := combine_table_lock (lock_mode r) m\<rparr>) ?rs\<rparr>)) \<and>
      others_kept (txn_id t) ?rs (upd_first ?own (\<lambda>r. r\<lparr>lock_mode := combine_table_lock (lock_mode r) m\<rparr>) ?rs)"
      if "queue_inv ?i ?q"
      using table_queue_upgrade[OF that _ refl own(2)] others_kept_upd[of ?own "txn_id t"] by auto
    then show ?thesis using own run False by (auto simp: Let_def update_group_lock_mode_def intro!: step_put)
  next
    case bad
    with run False show ?thesis by (simp add: Let_def step_same)
  next
    case new
    have "queue_inv ?i (update_group_lock_mode (?q\<lparr>request_queue := grant (txn_id t) (\<lambda>h. combine_table_lock h m) m ?rs\<rparr>)) \<and>
      others_kept (txn_id t) ?rs (grant (txn_id t) (\<lambda>h. combine_table_lock h m) m ?rs)" if "queue_inv ?i ?q"
      using table_queue_step[OF that _ refl, of "txn_id t" m] new others_kept_grant by (auto simp: own_granted_def blocked_def)
    then show ?thesis using new run False by (auto simp: Let_def update_group_lock_mode_def intro!: step_put)
  qed
qed

lemma record_request_ok:
  assumes "record_request i m (t, l) = (x, (t', l'))" and ty: "lk_type i = LOCK_RECORD"
    and m: "m = SHARED \<or> m = EXLUCSIVE"
  shows "lock_step_ok t l t' l'"
proof -
  let ?q = "queue_at i l" and ?rs = "reqs l i"
  let ?bad = "blocked (txn_id t) (\<lambda>r. record_conflict m (lock_mode r)) ?rs"
  have run: "(x, (t', l')) = record_request i m (t, l)" using assms(1) by simp
  note run = run[unfolded record_request_def]
  consider (err) e where "record_own (txn_id t) m ?rs ?rs = Some (Inl e)"
    | (held) "record_own (txn_id t) m ?rs ?rs = Some (Inr None)"
    | (up) rs' where "record_own (txn_id t) m ?rs ?rs = Some (Inr (Some rs'))"
    | (bad) "record_own (txn_id t) m ?rs ?rs = None" ?bad
    | (new) "record_own (txn_id t) m ?rs ?rs = None" "\<not> ?bad"
    by (metis not_None_eq sum.exhaust)
  then show ?thesis
  proof cases
    case err
    with run show ?thesis by (simp add: Let_def step_same)
  next
    case held
    with run show ?thesis by (auto simp: Let_def intro!: step_insert)
  next
    case up
    have "queue_inv i \<lparr>request_queue = rs', group_lock_mode = GX\<rparr> \<and> others_kept (txn_id t) ?rs rs'" if "queue_inv i ?q"
      by (rule record_queue_upgrade[OF that ty refl up])
    with up run show ?thesis by (auto simp: Let_def intro!: step_put)
  next
    case bad
    with run show ?thesis by (simp add: Let_def step_same)
  next
    case new
    have "queue_inv i \<lparr>request_queue = grant (txn_id t) (\<lambda>_. m) m ?rs, group_lock_mode = (if m = SHARED then GS else GX)\<rparr> \<and>
      others_kept (txn_id t) ?rs (grant (txn_id t) (\<lambda>_. m) m ?rs)" if "queue_inv i ?q"
      using record_queue_grant[OF that ty refl m new(1)] new(2) others_kept_grant by (auto simp: blocked_def)
    with new run show ?thesis by (auto simp: Let_def intro!: step_put)
  qed
qed

lemma step_before:
  assumes "txn_id t1 = txn_id t" and "lock_set t1 = lock_set t" and "\<And>i. queue_at i l1 = queue_at i l"
    and "lock_step_ok t1 l1 t' l'"
  shows "lock_step_ok t l t' l'"
  using assms by (simp add: lock_step_ok_def lm_inv_def owns_def)

lemma lock_on_record_ok:
  assumes "lock_on_record rid fd m (t, l) = (x, (t', l'))" and m: "m = SHARED \<or> m = EXLUCSIVE"
  shows "lock_step_ok t l t' l'"
proof -
  let ?l = "put_queue (table_lock_id fd) (queue_at (table_lock_id fd) l) l"
  consider "state t = SHRINKING" | "state t \<noteq> SHRINKING" "table_forbids (txn_id t) m (queue_at (table_lock_id fd) l)"
    | "state t \<noteq> SHRINKING" "record_request (record_lock_id fd rid) m (set_state GROWING t, ?l) = (x, (t', l'))"
    using assms(1) by (auto simp: lock_on_record_def check_growing_def Let_def split: if_splits)
  then show ?thesis
  proof cases
    case 3
    show ?thesis
      by (rule step_before[OF _ _ _ record_request_ok[OF 3(2) _ m]]) simp_all
  qed (use assms(1) in \<open>auto simp: lock_on_record_def check_growing_def Let_def intro!: step_same\<close>)
qed

lemma lock_on_gap_ok:
  assumes "lock_on_gap fd key m cols rng lo up lopen uopen (t, l) = (x, (t', l'))"
  shows "lock_step_ok t l t' l'"
proof (cases "state t = SHRINKING")
  case True
  with assms show ?thesis by (simp add: lock_on_gap_def check_growing_def step_same)
next
  case False
  let ?i = "gap_lock_id fd key"
  let ?new = "\<lparr>request_queue = reqs l ?i @ [\<lparr>req_txn_id = txn_id t, lock_mode = m, granted = True\<rparr>],
    group_lock_mode = (if m = SHARED then GS else GX)\<rparr>"
  have run: "(x, (t', l')) = lock_on_gap fd key m cols rng lo up lopen uopen (t, l)" using assms by simp
  note run = run[unfolded lock_on_gap_def check_growing_def]
  show ?thesis
  proof (cases "own_granted (txn_id t) (reqs l ?i)")
    case True
    with run False show ?thesis by (auto simp: Let_def intro!: step_insert)
  next
    case no: False
    have "queue_inv ?i ?new \<and> others_kept (txn_id t) (reqs l ?i) (request_queue ?new)" if "queue_inv ?i (queue_at ?i l)"
      using that no by (auto simp: queue_inv_def own_granted_def others_kept_def)
    then have put: "lock_step_ok t l (lock_set_insert ?i (set_state GROWING t)) (put_queue ?i ?new (put_queue ?i (queue_at ?i l) l))"
      by (intro step_put[where i = ?i and q' = ?new]) auto
    have same: "lock_step_ok t l (set_state GROWING t) (put_queue ?i (queue_at ?i l) l)"
      by (rule step_same) simp_all
    consider "t' = set_state GROWING t" "l' = put_queue ?i (queue_at ?i l) l"
      | "t' = lock_set_insert ?i (set_state GROWING t)" "l' = put_queue ?i ?new (put_queue ?i (queue_at ?i l) l)"
      using run False no by (auto simp: Let_def split: sum.splits bool.splits)
    then show ?thesis using put same by cases simp_all
  qed
qed

lemma unlock_ok:
  assumes "unlock i (t, l) = (x, (t', l'))"
  shows "lock_step_ok t l t' l' \<and> state t' = SHRINKING \<and>
    (lm_inv l \<longrightarrow> (\<forall>r \<in> set (reqs l' i). req_txn_id r \<noteq> txn_id t)) \<and> (\<forall>j. j \<noteq> i \<longrightarrow> queue_at j l' = queue_at j l) \<and>
    set (lock_set t') \<subseteq> set (lock_set t)"
proof (cases "\<exists>q. map_of (lock_table l) i = Some q \<and> (\<exists>r \<in> set (request_queue q). req_txn_id r = txn_id t)")
  case False
  then have "t' = set_state SHRINKING t" "l' = l"
    using assms by (auto simp: unlock_def Let_def split: option.splits if_splits)
  with False show ?thesis
    by (auto simp: step_same queue_at_def empty_queue_def split: option.splits)
next
  case True
  then obtain q where q: "map_of (lock_table l) i = Some q" and ex: "\<exists>r \<in> set (request_queue q). req_txn_id r = txn_id t"
    by blast
  let ?rs' = "erase_first (\<lambda>r. req_txn_id r = txn_id t) (request_queue q)"
  let ?q' = "update_group_lock_mode (q\<lparr>request_queue := ?rs'\<rparr>)"
  have at: "queue_at i l = q" using q by (simp add: queue_at_def)
  have t': "t' = lock_set_erase i (set_state SHRINKING t)"
    and l': "l' = (if ?rs' = [] then l\<lparr>lock_table := AList.delete i (lock_table l)\<rparr> else put_queue i ?q' l)"
    using assms q ex by (auto simp: unlock_def Let_def update_group_lock_mode_def split: if_splits)
  have sel: "request_queue ?q' = ?rs'" by (simp add: update_group_lock_mode_def)
  have qa: "queue_at j l' = (if j = i then (if ?rs' = [] then empty_queue else ?q') else queue_at j l)" for j
    by (simp add: l')
  have rq: "reqs l' j = (if j = i then ?rs' else reqs l j)" for j
    by (simp add: qa sel) (simp add: empty_queue_def)
  have gone: "req_txn_id r \<noteq> txn_id t" if "lm_inv l" "r \<in> set ?rs'" for r
  proof -
    have "distinct (map req_txn_id (request_queue q))" using that(1) at by (metis lm_inv_def queue_inv_def)
    then show ?thesis by (rule erase_first_gone[OF _ that(2)])
  qed
  have qi: "queue_inv i ?q'" if "queue_inv i q"
  proof -
    have "length ?rs' = length (request_queue q) - 1" using ex length_erase_first[of "\<lambda>r. req_txn_id r = txn_id t" "request_queue q"] by auto
    then have "?rs' = []" if "length (request_queue q) = 1" using that by simp
    then show ?thesis
      using that by (auto simp: queue_inv_def update_group_lock_mode_def distinct_erase_first dest: set_erase_first)
  qed
  have "lock_step_ok t l t' l'"
    unfolding lock_step_ok_def
  proof (intro impI conjI)
    assume a: "lm_inv l \<and> owns t l"
    then have "queue_inv i q" "\<And>j. queue_inv j (queue_at j l)" using at by (auto simp: lm_inv_def)
    then show "lm_inv l'" using qi by (simp add: lm_inv_def qa)
    show "owns t' l'" using a gone unfolding owns_def rq t' by auto
    show "\<forall>j. others_kept (txn_id t) (reqs l j) (reqs l' j)" using others_kept_erase at by (simp add: rq)
  qed (simp add: t')
  moreover have "state t' = SHRINKING" "set (lock_set t') \<subseteq> set (lock_set t)" by (auto simp: t')
  moreover have "\<forall>r \<in> set (reqs l' i). req_txn_id r \<noteq> txn_id t" if "lm_inv l" using gone[OF that] by (simp add: rq)
  moreover have "\<forall>j. j \<noteq> i \<longrightarrow> queue_at j l' = queue_at j l" using qa by metis
  ultimately show ?thesis by (intro conjI impI)
qed

section \<open>Runs of the lock manager\<close>

text \<open>The public locking operations.\<close>

inductive lock_call :: "(lock_state, bool) em \<Rightarrow> bool" where
  "lock_call (lock_shared_on_record rid fd)"
| "lock_call (lock_exclusive_on_record rid fd)"
| "lock_call (lock_shared_on_table fd)"
| "lock_call (lock_exclusive_on_table fd)"
| "lock_call (lock_IS_on_table fd)"
| "lock_call (lock_IX_on_table fd)"
| "lock_call (lock_shared_on_gap_range fd cols lower upper lower_open upper_open)"
| "lock_call (lock_exclusive_on_gap_point fd cols key key_len)"

text \<open>All interleavings of the calls of all transactions, from an empty lock table. The state of a
  transaction may be changed at any time by its owner.\<close>

inductive lock_reach :: "(txn_id_t \<Rightarrow> Transaction) \<Rightarrow> LockManager \<Rightarrow> bool" where
  init: "lock_reach new_Transaction new_LockManager"
| call: "lock_reach ts l \<Longrightarrow> lock_call op \<Longrightarrow> op (ts t, l) = (x, (t', l')) \<Longrightarrow> lock_reach (ts(t := t')) l'"
| release: "lock_reach ts l \<Longrightarrow> unlock i (ts t, l) = (b, (t', l')) \<Longrightarrow> lock_reach (ts(t := t')) l'"
| set_st: "lock_reach ts l \<Longrightarrow> lock_reach (ts(t := set_state s (ts t))) l"

lemmas public_calls = lock_shared_on_record_def lock_exclusive_on_record_def lock_shared_on_table_def
  lock_exclusive_on_table_def lock_IS_on_table_def lock_IX_on_table_def lock_shared_on_gap_range_def
  lock_exclusive_on_gap_point_def

lemma lock_call_ok: "lock_call op \<Longrightarrow> op (t, l) = (x, (t', l')) \<Longrightarrow> lock_step_ok t l t' l'"
  by (erule lock_call.cases)
    (auto simp: public_calls intro: lock_on_table_ok lock_on_gap_ok dest: lock_on_record_ok)

definition locks_inv :: "(txn_id_t \<Rightarrow> Transaction) \<Rightarrow> LockManager \<Rightarrow> bool" where
  "locks_inv ts l \<longleftrightarrow> lm_inv l \<and> (\<forall>t. txn_id (ts t) = t \<and> owns (ts t) l)"

lemma locks_inv_step:
  assumes "locks_inv ts l" and "lock_step_ok (ts t) l t' l'"
  shows "locks_inv (ts(t := t')) l'"
proof -
  have l: "lm_inv l'" "owns t' l'" "txn_id t' = t" "\<And>i. others_kept t (reqs l i) (reqs l' i)"
    using assms by (auto simp: locks_inv_def lock_step_ok_def)
  have "owns (ts u) l'" if "u \<noteq> t" for u
    unfolding owns_def
  proof (intro allI ballI impI)
    fix i r assume r: "r \<in> set (reqs l' i)" and u: "req_txn_id r = txn_id (ts u)"
    then have "req_txn_id r \<noteq> t" using that assms(1) by (simp add: locks_inv_def)
    then have "r \<in> set (reqs l i)" using r l(4) by (simp add: others_kept_def)
    then show "i \<in> set (lock_set (ts u))" using u assms(1) unfolding locks_inv_def owns_def by blast
  qed
  with l assms(1) show ?thesis by (simp add: locks_inv_def)
qed

lemma lock_reach_inv: "lock_reach ts l \<Longrightarrow> locks_inv ts l"
proof (induction rule: lock_reach.induct)
  case init
  show ?case
    by (simp add: locks_inv_def lm_inv_def owns_def new_LockManager_def queue_at_def new_Transaction_def)
      (simp add: empty_queue_def)
next
  case (call ts l op t x t' l')
  then show ?case using locks_inv_step lock_call_ok by blast
next
  case (release ts l i t b t' l')
  then show ?case using locks_inv_step unlock_ok by blast
next
  case (set_st ts l t s)
  have "lock_step_ok (ts t) l (set_state s (ts t)) l" by (rule step_same) simp_all
  then show ?case by (rule locks_inv_step[OF set_st.IH])
qed


definition run_lock :: "txn_id_t \<Rightarrow> (lock_state, bool) em \<Rightarrow> (txn_id_t \<Rightarrow> Transaction) \<times> LockManager \<Rightarrow>
    (txn_id_t \<Rightarrow> Transaction) \<times> LockManager" where
  "run_lock t op s = (case snd (op (fst s t, snd s)) of (t', l') \<Rightarrow> ((fst s)(t := t'), l'))"

definition run_ok :: "txn_id_t \<Rightarrow> (lock_state, bool) em \<Rightarrow> (txn_id_t \<Rightarrow> Transaction) \<times> LockManager \<Rightarrow> bool" where
  "run_ok t op s \<longleftrightarrow> fst (op (fst s t, snd s)) = Inr True"

lemma run_lock_reach: "lock_reach (fst s) (snd s) \<Longrightarrow> lock_call op \<Longrightarrow> lock_reach (fst (run_lock t op s)) (snd (run_lock t op s))"
  by (auto simp: run_lock_def split: prod.split intro: lock_reach.call[where x = "fst (op (fst s t, snd s))"])
    (metis lock_reach.call prod.collapse)

definition locks0 :: "(txn_id_t \<Rightarrow> Transaction) \<times> LockManager" where
  "locks0 = (new_Transaction, new_LockManager)"

definition two_readers :: "(txn_id_t \<Rightarrow> Transaction) \<times> LockManager" where
  "two_readers = run_lock 2 (lock_shared_on_record witness_rid 3) (run_lock 1 (lock_shared_on_record witness_rid 3) locks0)"


text \<open>C30: The two-phase rule. Once a transaction has released a lock, every later call for a lock of any
  kind throws \<^verbatim>\<open>LOCK_ON_SHIRINKING\<close> and changes neither the transaction nor the lock table.\<close>

theorem two_phase_locking:
  assumes "lock_call op" and "unlock i (t, l) = (b, (t', l'))"
  shows "op (t', l') = (Inl (TransactionAbortException (txn_id t) LOCK_ON_SHIRINKING), (t', l'))"
proof -
  have "state t' = SHRINKING \<and> txn_id t' = txn_id t"
    using assms(2) by (auto simp: unlock_def Let_def split: option.splits if_splits)
  with assms(1) show ?thesis
    by (cases rule: lock_call.cases)
      (auto simp: public_calls lock_on_table_def lock_on_record_def lock_on_gap_def check_growing_def)
qed

theorem two_phase_locking_witness:
  "lock_IS_on_table 4 (snd (unlock (record_lock_id 3 witness_rid) (fst two_readers 1, snd two_readers))) =
    (Inl (TransactionAbortException (txn_id (fst two_readers 1)) LOCK_ON_SHIRINKING),
     snd (unlock (record_lock_id 3 witness_rid) (fst two_readers 1, snd two_readers)))"
  using two_phase_locking[OF lock_call.intros(5), of "record_lock_id 3 witness_rid" "fst two_readers 1" "snd two_readers"
      "fst (unlock (record_lock_id 3 witness_rid) (fst two_readers 1, snd two_readers))"
      "fst (snd (unlock (record_lock_id 3 witness_rid) (fst two_readers 1, snd two_readers)))"
      "snd (snd (unlock (record_lock_id 3 witness_rid) (fst two_readers 1, snd two_readers)))" 4] by simp

section \<open>Where the locks are too weak\<close>

text \<open>Upgrades of table locks are not checked. Transaction 1 takes IS and transaction 2 takes IX on a
  table; when transaction 1 then asks for S, the call succeeds, and the table is locked in S by
  transaction 1 while transaction 2 holds IX, although S and IX conflict.\<close>

definition upgrade_run :: "(txn_id_t \<Rightarrow> Transaction) \<times> LockManager" where
  "upgrade_run = run_lock 2 (lock_IX_on_table 3) (run_lock 1 (lock_IS_on_table 3) locks0)"

lemma table_upgrade_unchecked:
  "run_ok 1 (lock_shared_on_table 3) upgrade_run \<and>
   reqs (snd (run_lock 1 (lock_shared_on_table 3) upgrade_run)) (table_lock_id 3) =
     [\<lparr>req_txn_id = 1, lock_mode = SHARED, granted = True\<rparr>,
      \<lparr>req_txn_id = 2, lock_mode = INTENTION_EXCLUSIVE, granted = True\<rparr>] \<and>
   table_conflict SHARED GIX"
  by code_simp

definition writer_run :: "(txn_id_t \<Rightarrow> Transaction) \<times> LockManager" where
  "writer_run = run_lock 1 (lock_shared_on_record witness_rid 3) (run_lock 1 (lock_exclusive_on_record witness_rid 3) locks0)"


lemma takeWhile_nonzero: "takeWhile (\<lambda>b. b \<noteq> 0) xs = xs \<longleftrightarrow> 0 \<notin> set (xs :: byte list)"
  by (induction xs) auto

lemma find_zero_range:
  assumes "length lower = n" and "length upper = n"
  shows "find_zero (encode_gap_range lower upper n lo uo) = Some (1 + length (takeWhile (\<lambda>b. b \<noteq> 0) lower))"
proof (cases "0 \<in> set lower")
  case True
  then have "takeWhile (\<lambda>b. b \<noteq> 0) (lower @ rest) = takeWhile (\<lambda>b. b \<noteq> 0) lower" for rest :: "byte list"
    by (intro takeWhile_append1[of 0]) auto
  moreover have "length (takeWhile (\<lambda>b. b \<noteq> 0) lower) \<le> n" using length_takeWhile_le assms(1) by metis
  ultimately show ?thesis using assms by (simp add: find_zero_def encode_gap_range_def Let_def)
next
  case False
  then have tw: "takeWhile (\<lambda>b. b \<noteq> 0) lower = lower" by (subst takeWhile_nonzero)
  have "takeWhile (\<lambda>b. b \<noteq> 0) (lower @ 0 # rest) = lower" for rest :: "byte list"
    using False by (subst takeWhile_append2) auto
  then show ?thesis using assms by (simp add: find_zero_def encode_gap_range_def Let_def tw)
qed

text \<open>Range locks on an index are decoded from their text by searching for the first zero byte. For
  bounds of the key length, \<^verbatim>\<open>decode_gap_range\<close> returns the range that \<^verbatim>\<open>encode_gap_range\<close> was given
  exactly when the lower bound contains no zero byte; otherwise the lower bound comes back cut off at
  its first zero byte.\<close>

theorem gap_range_decode:
  assumes "length lower = n" and "length upper = n"
  shows "(decode_gap_range (encode_gap_range lower upper n lo uo) = (lower, upper, lo, uo) \<longleftrightarrow> 0 \<notin> set lower) \<and>
    fst (decode_gap_range (encode_gap_range lower upper n lo uo)) = takeWhile (\<lambda>b. b \<noteq> 0) lower"
proof -
  let ?s = "encode_gap_range lower upper n lo uo" and ?k = "length (takeWhile (\<lambda>b. b \<noteq> 0) lower)"
  have s: "?s = kGapRangeTag # lower @ 0 # upper @ [if lo then 1 else 0, if uo then 1 else 0]"
    using assms by (simp add: encode_gap_range_def)
  have len: "length ?s = 2 * n + 4" using assms by (simp add: s)
  have k: "?k \<le> n" using length_takeWhile_le assms(1) by metis
  have d: "decode_gap_range ?s = (get_bytes 1 ?k ?s, get_bytes (?k + 2) (2 * n - ?k) ?s,
      ?s ! (2 * n + 2) \<noteq> 0, ?s ! (2 * n + 3) \<noteq> 0)"
    using find_zero_range[OF assms] len k by (simp add: decode_gap_range_def) (simp add: s)
  have l: "get_bytes 1 ?k ?s = takeWhile (\<lambda>b. b \<noteq> 0) lower"
    using k assms takeWhile_eq_take[of "\<lambda>b. b \<noteq> 0" lower] by (simp add: s get_bytes_def)
  have "get_bytes (?k + 2) (2 * n - ?k) ?s = upper" "?s ! (2 * n + 2) \<noteq> 0 \<longleftrightarrow> lo" "?s ! (2 * n + 3) \<noteq> 0 \<longleftrightarrow> uo"
    if "0 \<notin> set lower"
  proof -
    have "takeWhile (\<lambda>b. b \<noteq> 0) lower = lower" using that by (subst takeWhile_nonzero)
    then have "?k = n" using assms(1) by (simp only:)
    then show "get_bytes (?k + 2) (2 * n - ?k) ?s = upper" using assms by (simp add: s get_bytes_def)
    show "?s ! (2 * n + 2) \<noteq> 0 \<longleftrightarrow> lo" "?s ! (2 * n + 3) \<noteq> 0 \<longleftrightarrow> uo" using assms by (simp_all add: s nth_Cons' nth_append)
  qed
  moreover have "takeWhile (\<lambda>b. b \<noteq> 0) lower = lower \<longleftrightarrow> 0 \<notin> set lower" by (rule takeWhile_nonzero)
  ultimately show ?thesis unfolding d l by (simp only: prod.inject fst_conv) blast
qed

theorem gap_range_decode_witness:
  "(decode_gap_range (encode_gap_range (enc_int 1) (enc_int 100) 4 False False) = (enc_int 1, enc_int 100, False, False) \<longleftrightarrow>
      0 \<notin> set (enc_int 1)) \<and>
    fst (decode_gap_range (encode_gap_range (enc_int 1) (enc_int 100) 4 False False)) = takeWhile (\<lambda>b. b \<noteq> 0) (enc_int 1)"
  by (rule gap_range_decode) simp_all

text \<open>The consequence for an index on an INT column. Transaction 1 locks the closed range from 1 to 100
  in shared mode; the exclusive lock that transaction 2 needs to insert the key 50 is then decided by
  reading behind the end of the decoded bound, instead of being refused as a conflict.\<close>

lemma gap_lock_reads_outside:
  "run_ok 1 (lock_shared_on_gap_range 5 [(TYPE_INT, 4)] (enc_int 1) (enc_int 100) False False) locks0 \<and>
   fst (lock_exclusive_on_gap_point 5 [(TYPE_INT, 4)] (enc_int 50) 4
     (new_Transaction 2, snd (run_lock 1 (lock_shared_on_gap_range 5 [(TYPE_INT, 4)] (enc_int 1) (enc_int 100) False False) locks0))) =
   Inl UndefinedBehaviour"
  by code_simp

end
