(* ===== verification/IxNode.thy ===== *)
theory IxNode
  imports Lock
begin

text \<open>
  \<^verbatim>\<open>index/ix_defs.h\<close> and the class \<^verbatim>\<open>IxNodeHandle\<close> of \<^verbatim>\<open>index/ix_index_handle.h\<close> and
  \<^verbatim>\<open>index/ix_index_handle.cpp\<close>: the header of an index file with its byte format, and the nodes of the
  B+ tree. A node is the header of its page and the first \<^verbatim>\<open>num_key\<close> entries of the two parallel arrays
  of keys and record ids; \<open>enc_IxNode\<close> and \<open>dec_IxNode\<close> relate it to the bytes of a page.
\<close>

section \<open>The file header\<close>

definition IX_NO_PAGE :: int where "IX_NO_PAGE = -1"
definition IX_FILE_HDR_PAGE :: int where "IX_FILE_HDR_PAGE = 0"
definition IX_LEAF_HEADER_PAGE :: int where "IX_LEAF_HEADER_PAGE = 1"
definition IX_INIT_ROOT_PAGE :: int where "IX_INIT_ROOT_PAGE = 2"
definition IX_INIT_NUM_PAGES :: int where "IX_INIT_NUM_PAGES = 3"
definition IX_MAX_COL_LEN :: int where "IX_MAX_COL_LEN = 512"

record IxFileHdr =
  ix_first_free_page_no :: page_id_t
  ix_num_pages :: int
  root_page :: page_id_t
  ix_col_num :: int
  col_types :: "ColType list"
  col_lens :: "int list"
  ix_col_tot_len :: int
  btree_order :: int
  keys_size :: int
  first_leaf :: page_id_t
  last_leaf :: page_id_t
  tot_len :: int

definition new_IxFileHdr :: "page_id_t \<Rightarrow> int \<Rightarrow> page_id_t \<Rightarrow> int \<Rightarrow> int \<Rightarrow> int \<Rightarrow> int \<Rightarrow> page_id_t \<Rightarrow> page_id_t \<Rightarrow> IxFileHdr" where
  "new_IxFileHdr ffree npages root ncol clen order ksize fleaf lleaf =
     \<lparr>ix_first_free_page_no = ffree, ix_num_pages = npages, root_page = root, ix_col_num = ncol,
      col_types = [], col_lens = [], ix_col_tot_len = clen, btree_order = order, keys_size = ksize,
      first_leaf = fleaf, last_leaf = lleaf, tot_len = 0\<rparr>"

definition update_tot_len :: "IxFileHdr \<Rightarrow> IxFileHdr" where
  "update_tot_len h = h\<lparr>tot_len := 4 * 4 + 4 * 6 + (4 * ix_col_num h + 4 * ix_col_num h)\<rparr>"

text \<open>The fields in the order they are copied; \<^verbatim>\<open>col_num_\<close> elements of each vector, which have to exist.\<close>

definition hdr_fields :: "IxFileHdr \<Rightarrow> (byte list list) res" where
  "hdr_fields h =
     (if 0 < ix_col_num h \<and> (int (length (col_types h)) < ix_col_num h \<or> int (length (col_lens h)) < ix_col_num h)
      then Inl UndefinedBehaviour
      else Inr ([enc_int (tot_len h), enc_int (ix_first_free_page_no h), enc_int (ix_num_pages h), enc_int (root_page h),
                 enc_int (ix_col_num h)] @
                map (\<lambda>t. enc_int (coltype_int t)) (take (nat (ix_col_num h)) (col_types h)) @
                map enc_int (take (nat (ix_col_num h)) (col_lens h)) @
                [enc_int (ix_col_tot_len h), enc_int (btree_order h), enc_int (keys_size h), enc_int (first_leaf h),
                 enc_int (last_leaf h)]))"

definition IxFileHdr_serialize :: "IxFileHdr \<Rightarrow> byte list \<Rightarrow> byte list res" where
  "IxFileHdr_serialize h dest =
     rbind (hdr_fields h) (\<lambda>fs. rbind (copy_fields 0 fs dest) (\<lambda>d.
       if int (length (concat fs)) = tot_len h then Inr d else Inl AssertFailure))"

text \<open>\<open>read_ints off n src\<close>: \<open>n\<close> consecutive integers.\<close>

primrec read_ints :: "nat \<Rightarrow> nat \<Rightarrow> byte list \<Rightarrow> int list res" where
  "read_ints off 0 src = Inr []"
| "read_ints off (Suc n) src = rbind (read_int off src) (\<lambda>x. rbind (read_ints (off + 4) n src) (\<lambda>xs. Inr (x # xs)))"

definition int_coltype :: "int \<Rightarrow> ColType res" where
  "int_coltype v = (case find (\<lambda>t. coltype_int t = v) [TYPE_INT, TYPE_FLOAT, TYPE_BIGINT, TYPE_STRING, TYPE_DATETIME] of
     Some t \<Rightarrow> Inr t | None \<Rightarrow> Inl UndefinedBehaviour)"

primrec rmap :: "('a \<Rightarrow> 'b res) \<Rightarrow> 'a list \<Rightarrow> 'b list res" where
  "rmap f [] = Inr []"
| "rmap f (x # xs) = rbind (f x) (\<lambda>y. rbind (rmap f xs) (\<lambda>ys. Inr (y # ys)))"

definition IxFileHdr_deserialize :: "byte list \<Rightarrow> IxFileHdr res" where
  "IxFileHdr_deserialize src =
     rbind (read_ints 0 5 src) (\<lambda>a.
       let n = a ! 4; k = nat n
       in rbind (read_ints 20 k src) (\<lambda>ts.
          rbind (rmap int_coltype ts) (\<lambda>types.
          rbind (read_ints (20 + 4 * k) k src) (\<lambda>lens.
          rbind (read_ints (20 + 8 * k) 5 src) (\<lambda>b.
            if int (20 + 8 * k + 20) = a ! 0
            then Inr \<lparr>ix_first_free_page_no = a ! 1, ix_num_pages = a ! 2, root_page = a ! 3, ix_col_num = n,
                      col_types = types, col_lens = lens, ix_col_tot_len = b ! 0, btree_order = b ! 1, keys_size = b ! 2,
                      first_leaf = b ! 3, last_leaf = b ! 4, tot_len = a ! 0\<rparr>
            else Inl AssertFailure)))))"

section \<open>Nodes\<close>

record IxNode =
  next_free_page_no :: page_id_t
  nd_parent :: page_id_t
  nd_is_leaf :: bool
  nd_prev_leaf :: page_id_t
  nd_next_leaf :: page_id_t
  nd_kvs :: "(byte list \<times> Rid) list"

record Iid =
  iid_page_no :: int
  iid_slot_no :: int

definition get_size :: "IxNode \<Rightarrow> nat" where
  "get_size n = length (nd_kvs n)"

definition set_size :: "nat \<Rightarrow> IxNode \<Rightarrow> IxNode" where
  "set_size k n = n\<lparr>nd_kvs := take k (nd_kvs n)\<rparr>"

definition get_max_size :: "IxFileHdr \<Rightarrow> int" where
  "get_max_size h = btree_order h + 1"

definition get_min_size :: "IxFileHdr \<Rightarrow> int" where
  "get_min_size h = cdiv (get_max_size h) 2"

definition is_root_page :: "IxNode \<Rightarrow> bool" where
  "is_root_page n \<longleftrightarrow> nd_parent n = INVALID_PAGE_ID"

text \<open>Entry \<open>i\<close>; behind the last one there is whatever the page held.\<close>

definition get_kv :: "IxNode \<Rightarrow> nat \<Rightarrow> (byte list \<times> Rid) res" where
  "get_kv n i = (if i < get_size n then Inr (nd_kvs n ! i) else Inl UndefinedBehaviour)"

definition get_key :: "IxNode \<Rightarrow> nat \<Rightarrow> byte list res" where
  "get_key n i = rbind (get_kv n i) (\<lambda>kv. Inr (fst kv))"

definition get_rid :: "IxNode \<Rightarrow> nat \<Rightarrow> Rid res" where
  "get_rid n i = rbind (get_kv n i) (\<lambda>kv. Inr (snd kv))"

definition value_at :: "IxNode \<Rightarrow> nat \<Rightarrow> page_id_t res" where
  "value_at n i = rbind (get_rid n i) (\<lambda>r. Inr (rid_page_no r))"

definition set_key :: "nat \<Rightarrow> byte list \<Rightarrow> IxNode \<Rightarrow> IxNode" where
  "set_key i k n = n\<lparr>nd_kvs := (nd_kvs n)[i := (k, snd (nd_kvs n ! i))]\<rparr>"

definition key_cols :: "IxFileHdr \<Rightarrow> (ColType \<times> nat) list" where
  "key_cols h = zip (col_types h) (map nat (col_lens h))"

definition key_cmp :: "IxFileHdr \<Rightarrow> byte list \<Rightarrow> byte list \<Rightarrow> int" where
  "key_cmp h a b = ix_compare a b (key_cols h)"

text \<open>The binary search of \<^verbatim>\<open>lower_bound\<close> (\<open>below c\<close> is \<open>c < 0\<close>) and \<^verbatim>\<open>upper_bound\<close> (\<open>c \<le> 0\<close>).\<close>

function bsearch :: "(int \<Rightarrow> bool) \<Rightarrow> (byte list \<Rightarrow> int) \<Rightarrow> (byte list \<times> Rid) list \<Rightarrow> nat \<Rightarrow> nat \<Rightarrow> nat" where
  "bsearch below cmp kvs l r =
     (if l < r then
        let mid = (l + r) div 2
        in if below (cmp (fst (kvs ! mid))) then bsearch below cmp kvs (mid + 1) r else bsearch below cmp kvs l mid
      else l)"
  by pat_completeness auto
termination by (relation "measure (\<lambda>(below, cmp, kvs, l, r). r - l)") auto

declare bsearch.simps [simp del]

definition nd_lower_bound :: "IxFileHdr \<Rightarrow> IxNode \<Rightarrow> byte list \<Rightarrow> nat" where
  "nd_lower_bound h n target = bsearch (\<lambda>c. c < 0) (\<lambda>k. key_cmp h k target) (nd_kvs n) 0 (get_size n)"

definition nd_upper_bound :: "IxFileHdr \<Rightarrow> IxNode \<Rightarrow> byte list \<Rightarrow> nat" where
  "nd_upper_bound h n target = bsearch (\<lambda>c. c \<le> 0) (\<lambda>k. key_cmp h k target) (nd_kvs n) 0 (get_size n)"

text \<open>Position \<open>pos\<close> exists and holds the key.\<close>

definition key_here :: "IxFileHdr \<Rightarrow> IxNode \<Rightarrow> byte list \<Rightarrow> nat \<Rightarrow> bool" where
  "key_here h n key pos \<longleftrightarrow> pos < get_size n \<and> key_cmp h (fst (nd_kvs n ! pos)) key = 0"

definition leaf_lookup :: "IxFileHdr \<Rightarrow> IxNode \<Rightarrow> byte list \<Rightarrow> Rid option" where
  "leaf_lookup h n key =
     (let pos = nd_lower_bound h n key in if key_here h n key pos then Some (snd (nd_kvs n ! pos)) else None)"

definition internal_lookup :: "IxFileHdr \<Rightarrow> IxNode \<Rightarrow> byte list \<Rightarrow> page_id_t res" where
  "internal_lookup h n key = value_at n (nd_upper_bound h n key - 1)"

definition insert_pairs :: "IxFileHdr \<Rightarrow> nat \<Rightarrow> (byte list \<times> Rid) list \<Rightarrow> IxNode \<Rightarrow> IxNode res" where
  "insert_pairs h pos kvs n =
     (if pos > get_size n then Inl AssertFailure
      else if int (get_size n + length kvs) > get_max_size h then Inl AssertFailure
      else Inr (n\<lparr>nd_kvs := take pos (nd_kvs n) @ kvs @ drop pos (nd_kvs n)\<rparr>))"

definition insert_pair :: "IxFileHdr \<Rightarrow> nat \<Rightarrow> byte list \<Rightarrow> Rid \<Rightarrow> IxNode \<Rightarrow> IxNode res" where
  "insert_pair h pos key rid n = insert_pairs h pos [(key, rid)] n"

definition nd_insert :: "IxFileHdr \<Rightarrow> byte list \<Rightarrow> Rid \<Rightarrow> IxNode \<Rightarrow> IxNode res" where
  "nd_insert h key value n =
     (let pos = nd_lower_bound h n key in if key_here h n key pos then Inr n else insert_pair h pos key value n)"

definition erase_pair :: "nat \<Rightarrow> IxNode \<Rightarrow> IxNode res" where
  "erase_pair pos n =
     (if pos < get_size n then Inr (n\<lparr>nd_kvs := take pos (nd_kvs n) @ drop (Suc pos) (nd_kvs n)\<rparr>) else Inl AssertFailure)"

definition nd_remove :: "IxFileHdr \<Rightarrow> byte list \<Rightarrow> IxNode \<Rightarrow> IxNode res" where
  "nd_remove h key n =
     (let pos = nd_lower_bound h n key in if key_here h n key pos then erase_pair pos n else Inr n)"

definition remove_and_return_only_child :: "IxNode \<Rightarrow> (page_id_t \<times> IxNode) res" where
  "remove_and_return_only_child n =
     (if get_size n = 1 then rbind (value_at n 0) (\<lambda>c. rbind (erase_pair 0 n) (\<lambda>n'. Inr (c, n'))) else Inl AssertFailure)"

definition find_child :: "IxNode \<Rightarrow> page_id_t \<Rightarrow> nat res" where
  "find_child n child =
     (case find (\<lambda>i. rid_page_no (snd (nd_kvs n ! i)) = child) [0..<get_size n] of
        Some i \<Rightarrow> Inr i | None \<Rightarrow> Inl AssertFailure)"

section \<open>Pages\<close>

definition sizeof_IxPageHdr :: nat where "sizeof_IxPageHdr = 24"

text \<open>The bytes of a node's page: the page header (with three bytes of padding behind \<^verbatim>\<open>is_leaf\<close>), the key
  array of \<^verbatim>\<open>keys_size_\<close> bytes and the array of record ids; \<open>old\<close> is what the page held before.\<close>

definition enc_IxNode :: "IxFileHdr \<Rightarrow> IxNode \<Rightarrow> byte list \<Rightarrow> byte list" where
  "enc_IxNode h n old =
     put_bytes (sizeof_IxPageHdr + nat (keys_size h)) (concat (map (enc_Rid \<circ> snd) (nd_kvs n)))
      (put_bytes sizeof_IxPageHdr (concat (map fst (nd_kvs n)))
      (put_bytes 16 (enc_int (nd_prev_leaf n) @ enc_int (nd_next_leaf n))
      (put_bytes 12 [if nd_is_leaf n then 1 else 0]
      (put_bytes 0 (enc_int (next_free_page_no n) @ enc_int (nd_parent n) @ enc_int (int (get_size n))) old))))"

definition dec_IxNode :: "IxFileHdr \<Rightarrow> byte list \<Rightarrow> IxNode" where
  "dec_IxNode h pg =
     (let num = nat (dec_int 8 pg); len = nat (ix_col_tot_len h); ro = sizeof_IxPageHdr + nat (keys_size h)
      in \<lparr>next_free_page_no = dec_int 0 pg, nd_parent = dec_int 4 pg, nd_is_leaf = (pg ! 12 \<noteq> 0),
          nd_prev_leaf = dec_int 16 pg, nd_next_leaf = dec_int 20 pg,
          nd_kvs = map (\<lambda>i. (get_bytes (sizeof_IxPageHdr + i * len) len pg,
                             \<lparr>rid_page_no = dec_int (ro + 8 * i) pg, rid_slot_no = dec_int (ro + 8 * i + 4) pg\<rparr>)) [0..<num]\<rparr>)"

section \<open>Ordered keys\<close>

text \<open>What the tree relies on of the key comparison.\<close>

locale key_order =
  fixes cmp :: "'k \<Rightarrow> 'k \<Rightarrow> int" and K :: "'k \<Rightarrow> bool"
  assumes cmp_refl: "K a \<Longrightarrow> cmp a a = 0"
    and cmp_swap: "K a \<Longrightarrow> K b \<Longrightarrow> cmp b a = - cmp a b"
    and cmp_trans: "K a \<Longrightarrow> K b \<Longrightarrow> K c \<Longrightarrow> cmp a b \<le> 0 \<Longrightarrow> cmp b c \<le> 0 \<Longrightarrow> cmp a c \<le> 0"
begin

lemma lt_le_trans: "K a \<Longrightarrow> K b \<Longrightarrow> K c \<Longrightarrow> cmp a b < 0 \<Longrightarrow> cmp b c \<le> 0 \<Longrightarrow> cmp a c < 0"
  using cmp_trans[of a b c] cmp_trans[of b c a] cmp_swap[of a c] cmp_swap[of a b] by fastforce

lemma le_lt_trans: "K a \<Longrightarrow> K b \<Longrightarrow> K c \<Longrightarrow> cmp a b \<le> 0 \<Longrightarrow> cmp b c < 0 \<Longrightarrow> cmp a c < 0"
  using cmp_trans[of a b c] cmp_trans[of c a b] cmp_swap[of a c] cmp_swap[of b c] by fastforce

lemma eq_cmp: "K a \<Longrightarrow> K b \<Longrightarrow> K c \<Longrightarrow> cmp a b = 0 \<Longrightarrow> sgn (cmp a c) = sgn (cmp b c)"
  using cmp_trans[of a b c] cmp_trans[of b a c] cmp_trans[of c a b] cmp_trans[of c b a]
    cmp_swap[of a b] cmp_swap[of a c] cmp_swap[of b c]
  by (smt (verit) sgn_if)

lemma cmp_pos: "K a \<Longrightarrow> K b \<Longrightarrow> 0 < cmp a b \<longleftrightarrow> cmp b a < 0"
  using cmp_swap[of a b] by linarith

definition asc :: "('k \<times> 'v) list \<Rightarrow> bool" where
  "asc kvs \<longleftrightarrow> (\<forall>kv \<in> set kvs. K (fst kv)) \<and> sorted_wrt (\<lambda>x y. cmp (fst x) (fst y) < 0) kvs"

definition kv_find :: "('k \<times> 'v) list \<Rightarrow> 'k \<Rightarrow> 'v option" where
  "kv_find kvs k = map_option snd (find (\<lambda>kv. cmp (fst kv) k = 0) kvs)"

lemma kv_find_None: "kv_find kvs k = None \<longleftrightarrow> (\<forall>kv \<in> set kvs. cmp (fst kv) k \<noteq> 0)"
  by (auto simp: kv_find_def find_None_iff)

lemma kv_find_append: "kv_find (xs @ ys) k = (case kv_find xs k of None \<Rightarrow> kv_find ys k | Some v \<Rightarrow> Some v)"
  by (induction xs) (auto simp: kv_find_def)

lemma kv_find_Cons: "kv_find (kv # kvs) k = (if cmp (fst kv) k = 0 then Some (snd kv) else kv_find kvs k)"
  by (simp add: kv_find_def)

lemma kv_find_cmp_cong:
  assumes "\<forall>kv \<in> set kvs. K (fst kv)" and "K a" and "K b" and "cmp a b = 0"
  shows "kv_find kvs a = kv_find kvs b"
proof -
  have "cmp (fst kv) a = 0 \<longleftrightarrow> cmp (fst kv) b = 0" if "kv \<in> set kvs" for kv
  proof -
    have k: "K (fst kv)" using assms(1) that by blast
    have "cmp a (fst kv) = 0 \<longleftrightarrow> cmp b (fst kv) = 0"
      using arg_cong[OF eq_cmp[OF assms(2,3) k assms(4)], of "\<lambda>x. x = 0"] by (simp add: sgn_0_0)
    then show ?thesis using cmp_swap[OF assms(2) k] cmp_swap[OF assms(3) k] by simp
  qed
  then have "find (\<lambda>kv. cmp (fst kv) a = 0) kvs = find (\<lambda>kv. cmp (fst kv) b = 0) kvs"
    by (intro find_cong refl)
  then show ?thesis by (simp only: kv_find_def)
qed

text \<open>A position that splits an ascending list at a key.\<close>

definition splits :: "('k \<times> 'v) list \<Rightarrow> 'k \<Rightarrow> nat \<Rightarrow> bool" where
  "splits kvs k p \<longleftrightarrow> p \<le> length kvs \<and> (\<forall>i < p. cmp (fst (kvs ! i)) k < 0) \<and>
     (\<forall>i. p \<le> i \<and> i < length kvs \<longrightarrow> 0 \<le> cmp (fst (kvs ! i)) k)"

lemma splits_parts:
  assumes "splits kvs k p"
  shows "\<forall>kv \<in> set (take p kvs). cmp (fst kv) k < 0" and "\<forall>kv \<in> set (drop p kvs). 0 \<le> cmp (fst kv) k"
proof -
  show "\<forall>kv \<in> set (take p kvs). cmp (fst kv) k < 0"
  proof
    fix kv assume "kv \<in> set (take p kvs)"
    then obtain i where "i < p" "kv = kvs ! i" by (auto simp: in_set_conv_nth)
    then show "cmp (fst kv) k < 0" using assms by (simp add: splits_def)
  qed
  show "\<forall>kv \<in> set (drop p kvs). 0 \<le> cmp (fst kv) k"
  proof
    fix kv assume "kv \<in> set (drop p kvs)"
    then obtain i where "i < length kvs - p" "kv = kvs ! (p + i)" by (auto simp: in_set_conv_nth)
    then show "0 \<le> cmp (fst kv) k" using assms by (simp add: splits_def)
  qed
qed

lemma split_find:
  assumes "asc kvs" and "K k" and "splits kvs k p"
  shows "kv_find kvs k = (if p < length kvs \<and> cmp (fst (kvs ! p)) k = 0 then Some (snd (kvs ! p)) else None)"
proof -
  have "kv_find (take p kvs) k = None" using splits_parts(1)[OF assms(3)] by (auto simp: kv_find_None)
  then have f: "kv_find kvs k = kv_find (drop p kvs) k"
    using kv_find_append[of "take p kvs" "drop p kvs" k] by simp
  show ?thesis
  proof (cases "p < length kvs")
    case True
    then have d: "drop p kvs = kvs ! p # drop (Suc p) kvs" by (simp add: Cons_nth_drop_Suc)
    have "kv_find (drop (Suc p) kvs) k = None" if "cmp (fst (kvs ! p)) k \<noteq> 0"
    proof -
      have pos: "0 < cmp (fst (kvs ! p)) k" using assms(3) True that by (fastforce simp: splits_def)
      have "cmp (fst kv) k \<noteq> 0" if kv: "kv \<in> set (drop (Suc p) kvs)" for kv
      proof -
        obtain i where i: "Suc p \<le> i" "i < length kvs" "kv = kvs ! i"
          using kv by (auto simp: in_set_conv_nth) (metis add.commute add_Suc_right le_add2 less_diff_conv plus_1_eq_Suc)
        have "cmp (fst (kvs ! p)) (fst kv) < 0"
          using assms(1) i by (auto simp: asc_def sorted_wrt_iff_nth_less)
        moreover have "K (fst (kvs ! p))" "K (fst kv)" using assms(1) i by (auto simp: asc_def)
        ultimately show ?thesis
          using lt_le_trans[of "fst (kvs ! p)" "fst kv" k] pos assms(2) by force
      qed
      then show ?thesis by (simp add: kv_find_None)
    qed
    with f d True show ?thesis by (simp add: kv_find_Cons)
  next
    case False
    with f show ?thesis by (simp add: kv_find_def)
  qed
qed

lemma split_insert:
  assumes "asc kvs" and "K k" and "splits kvs k p" and "kv_find kvs k = None"
  shows "asc (take p kvs @ (k, v) # drop p kvs)"
proof -
  have "0 < cmp (fst kv) k" if "kv \<in> set (drop p kvs)" for kv
    using splits_parts(2)[OF assms(3)] assms(4) that in_set_dropD[OF that] unfolding kv_find_None by force
  then have gt: "cmp k (fst kv) < 0" if "kv \<in> set (drop p kvs)" for kv
    using that cmp_pos[of "fst kv" k] assms(1,2) in_set_dropD[OF that] by (auto simp: asc_def)
  have lt: "cmp (fst kv) k < 0" if "kv \<in> set (take p kvs)" for kv using splits_parts(1)[OF assms(3)] that by blast
  have s: "sorted_wrt (\<lambda>x y. cmp (fst x) (fst y) < 0) (take p kvs @ drop p kvs)" using assms(1) by (simp add: asc_def)
  have "sorted_wrt (\<lambda>x y. cmp (fst x) (fst y) < 0) (take p kvs @ (k, v) # drop p kvs)"
    using s lt gt unfolding sorted_wrt_append by auto
  then show ?thesis
    using assms(1,2) by (auto simp: asc_def dest: in_set_takeD in_set_dropD)
qed

lemma find_insert:
  assumes "asc kvs" and "K k" and "K k'" and "kv_find kvs k = None"
  shows "kv_find (take p kvs @ (k, v) # drop p kvs) k' = (if cmp k k' = 0 then Some v else kv_find kvs k')"
proof (cases "cmp k k' = 0")
  case True
  then have "kv_find kvs k' = None" using kv_find_cmp_cong[of kvs k k'] assms by (simp add: asc_def)
  then have "kv_find (take p kvs) k' = None" by (auto simp: kv_find_None dest: in_set_takeD)
  with True show ?thesis by (simp add: kv_find_append kv_find_Cons)
next
  case False
  have "kv_find kvs k' = kv_find (take p kvs @ drop p kvs) k'" by simp
  with False show ?thesis by (simp only: kv_find_append kv_find_Cons) simp
qed

lemma asc_remove: "asc kvs \<Longrightarrow> asc (take p kvs @ drop (Suc p) kvs)"
proof -
  assume a: "asc kvs"
  then have s: "sorted_wrt (\<lambda>x y. cmp (fst x) (fst y) < 0) (take p kvs @ drop p kvs)" by (simp add: asc_def)
  have sub: "set (drop (Suc p) kvs) \<subseteq> set (drop p kvs)" by (rule set_drop_subset_set_drop) simp
  have "sorted_wrt (\<lambda>x y. cmp (fst x) (fst y) < 0) (drop (Suc p) kvs)" using a by (simp add: asc_def sorted_wrt_drop)
  then have "sorted_wrt (\<lambda>x y. cmp (fst x) (fst y) < 0) (take p kvs @ drop (Suc p) kvs)"
    using s sub unfolding sorted_wrt_append by blast
  then show ?thesis using a by (auto simp: asc_def dest: in_set_takeD in_set_dropD)
qed

lemma find_remove:
  assumes "asc kvs" and "K k" and "K k'" and "splits kvs k p" and "p < length kvs" and "cmp (fst (kvs ! p)) k = 0"
  shows "kv_find (take p kvs @ drop (Suc p) kvs) k' = (if cmp k k' = 0 then None else kv_find kvs k')"
proof -
  let ?k = "fst (kvs ! p)"
  have Kp: "K ?k" using assms(1,5) by (simp add: asc_def)
  have kvs: "kvs = take p kvs @ kvs ! p # drop (Suc p) kvs" using assms(5) by (simp add: id_take_nth_drop)
  have e: "cmp ?k k' = 0 \<longleftrightarrow> cmp k k' = 0"
    using eq_cmp[OF Kp assms(2,3,6)] by (metis sgn_0_0)
  have u: "cmp (fst kv) k' \<noteq> 0" if "cmp k k' = 0" "kv \<in> set (take p kvs @ drop (Suc p) kvs)" for kv
  proof
    assume z: "cmp (fst kv) k' = 0"
    have "sorted_wrt (\<lambda>x y. cmp (fst x) (fst y) < 0) (take p kvs @ kvs ! p # drop (Suc p) kvs)"
      using assms(1) kvs by (metis asc_def)
    then have "cmp (fst kv) ?k < 0 \<or> cmp ?k (fst kv) < 0"
      using that(2) unfolding sorted_wrt_append by auto
    moreover have "K (fst kv)" using that(2) assms(1) by (auto simp: asc_def dest: in_set_takeD in_set_dropD)
    ultimately show False
      using lt_le_trans[of "fst kv" ?k k'] lt_le_trans[of ?k "fst kv" k'] Kp assms(3) z e that(1) by auto
  qed
  show ?thesis
  proof (cases "cmp k k' = 0")
    case True
    then show ?thesis using u by (auto simp: kv_find_None)
  next
    case False
    then have "kv_find kvs k' = kv_find (take p kvs @ drop (Suc p) kvs) k'"
      using e by (subst kvs) (simp add: kv_find_append kv_find_Cons split: option.split)
    with False show ?thesis by simp
  qed
qed

end

definition hkey :: "IxFileHdr \<Rightarrow> byte list \<Rightarrow> bool" where
  "hkey h k \<longleftrightarrow> key_ok (key_cols h) k"

interpretation ixk: key_order "key_cmp h" "hkey h" for h
proof unfold_locales
  fix a b c
  assume a: "hkey h a"
  then show "key_cmp h a a = 0" by (simp add: key_cmp_def hkey_def ix_compare_rank)
  assume b: "hkey h b"
  with a show "key_cmp h b a = - key_cmp h a b"
    by (simp add: key_cmp_def hkey_def ix_compare_rank lcmp_swap[of "key_rank (key_cols h) b" "key_rank (key_cols h) a"])
  assume c: "hkey h c"
  with a b show "key_cmp h a b \<le> 0 \<Longrightarrow> key_cmp h b c \<le> 0 \<Longrightarrow> key_cmp h a c \<le> 0"
    using lcmp_trans[OF length_key_rank[of "key_cols h" a b] length_key_rank[of "key_cols h" b c]]
    by (simp add: key_cmp_def hkey_def ix_compare_rank)
qed

section \<open>Nodes as sorted maps\<close>

lemma bsearch_spec:
  assumes "l \<le> r" and "r \<le> length kvs"
    and "\<And>i j. i < j \<Longrightarrow> j < length kvs \<Longrightarrow> below (cmp (fst (kvs ! j))) \<Longrightarrow> below (cmp (fst (kvs ! i)))"
    and "\<And>i. i < l \<Longrightarrow> below (cmp (fst (kvs ! i)))"
    and "\<And>i. r \<le> i \<Longrightarrow> i < length kvs \<Longrightarrow> \<not> below (cmp (fst (kvs ! i)))"
  shows "bsearch below cmp kvs l r \<le> length kvs \<and> (\<forall>i < bsearch below cmp kvs l r. below (cmp (fst (kvs ! i)))) \<and>
    (\<forall>i. bsearch below cmp kvs l r \<le> i \<and> i < length kvs \<longrightarrow> \<not> below (cmp (fst (kvs ! i))))"
  using assms
proof (induction below cmp kvs l r rule: bsearch.induct)
  case (1 below cmp kvs l r)
  show ?case
  proof (cases "l < r")
    case False
    then have e: "bsearch below cmp kvs l r = l" by (subst bsearch.simps) simp
    have "l = r" using False 1(3) by simp
    with 1(4,6,7) show ?thesis unfolding e by blast
  next
    case True
    let ?mid = "(l + r) div 2"
    have mid: "l \<le> ?mid" "?mid < r" using True by auto
    show ?thesis
    proof (cases "below (cmp (fst (kvs ! ?mid)))")
      case t: True
      have low: "below (cmp (fst (kvs ! i)))" if "i < ?mid + 1" for i
        using that t 1(5)[of i ?mid] mid 1(4) by (cases "i = ?mid") auto
      have e: "bsearch below cmp kvs l r = bsearch below cmp kvs (?mid + 1) r"
        using True t by (subst bsearch.simps) (simp add: Let_def)
      have "?mid + 1 \<le> r" using mid by simp
      show ?thesis unfolding e by (rule 1(1)[OF True refl t \<open>?mid + 1 \<le> r\<close> 1(4,5) low 1(7)])
    next
      case f: False
      have high: "\<not> below (cmp (fst (kvs ! i)))" if "?mid \<le> i" "i < length kvs" for i
        using that f 1(5)[of ?mid i] by (cases "i = ?mid") auto
      have e: "bsearch below cmp kvs l r = bsearch below cmp kvs l ?mid"
        using True f by (subst bsearch.simps) (simp add: Let_def)
      have "?mid \<le> length kvs" using mid 1(4) by simp
      show ?thesis unfolding e by (rule 1(2)[OF True refl f mid(1) \<open>?mid \<le> length kvs\<close> 1(5,6) high])
    qed
  qed
qed

definition node_map :: "IxFileHdr \<Rightarrow> IxNode \<Rightarrow> byte list \<Rightarrow> Rid option" where
  "node_map h n k = map_option snd (find (\<lambda>kv. key_cmp h (fst kv) k = 0) (nd_kvs n))"

definition node_sorted :: "IxFileHdr \<Rightarrow> IxNode \<Rightarrow> bool" where
  "node_sorted h n \<longleftrightarrow> (\<forall>kv \<in> set (nd_kvs n). hkey h (fst kv)) \<and>
     sorted_wrt (\<lambda>x y. key_cmp h (fst x) (fst y) < 0) (nd_kvs n)"

lemma node_asc: "node_sorted h n = ixk.asc h (nd_kvs n)"
  by (simp add: node_sorted_def ixk.asc_def)

lemma node_find: "node_map h n k = ixk.kv_find h (nd_kvs n) k"
  by (simp add: node_map_def ixk.kv_find_def)

lemma asc_less:
  "ixk.asc h kvs \<Longrightarrow> i < j \<Longrightarrow> j < length kvs \<Longrightarrow>
   key_cmp h (fst (kvs ! i)) (fst (kvs ! j)) < 0 \<and> hkey h (fst (kvs ! i)) \<and> hkey h (fst (kvs ! j))"
  by (auto simp: ixk.asc_def sorted_wrt_iff_nth_less)

lemma lower_bound_splits:
  assumes "ixk.asc h (nd_kvs n)" and "hkey h k"
  shows "ixk.splits h (nd_kvs n) k (nd_lower_bound h n k)"
proof -
  have "key_cmp h (fst (nd_kvs n ! i)) k < 0"
    if "i < j" "j < length (nd_kvs n)" "key_cmp h (fst (nd_kvs n ! j)) k < 0" for i j
    using asc_less[OF assms(1) that(1,2)] ixk.lt_le_trans[of h "fst (nd_kvs n ! i)" "fst (nd_kvs n ! j)" k] that(3) assms(2) by simp
  then have "nd_lower_bound h n k \<le> length (nd_kvs n) \<and> (\<forall>i < nd_lower_bound h n k. key_cmp h (fst (nd_kvs n ! i)) k < 0) \<and>
      (\<forall>i. nd_lower_bound h n k \<le> i \<and> i < length (nd_kvs n) \<longrightarrow> \<not> key_cmp h (fst (nd_kvs n ! i)) k < 0)"
    unfolding nd_lower_bound_def by (intro bsearch_spec) (auto simp: get_size_def)
  then show ?thesis by (simp add: ixk.splits_def not_less)
qed

lemma upper_bound_splits:
  assumes "ixk.asc h (nd_kvs n)" and "hkey h k"
  defines "p \<equiv> nd_upper_bound h n k"
  shows "p \<le> get_size n \<and> (\<forall>i < p. key_cmp h (fst (nd_kvs n ! i)) k \<le> 0) \<and>
    (\<forall>i. p \<le> i \<and> i < get_size n \<longrightarrow> 0 < key_cmp h (fst (nd_kvs n ! i)) k)"
proof -
  have "key_cmp h (fst (nd_kvs n ! i)) k \<le> 0"
    if "i < j" "j < length (nd_kvs n)" "key_cmp h (fst (nd_kvs n ! j)) k \<le> 0" for i j
    using asc_less[OF assms(1) that(1,2)] ixk.lt_le_trans[of h "fst (nd_kvs n ! i)" "fst (nd_kvs n ! j)" k] that(3) assms(2) by simp
  then have "p \<le> length (nd_kvs n) \<and> (\<forall>i < p. key_cmp h (fst (nd_kvs n ! i)) k \<le> 0) \<and>
      (\<forall>i. p \<le> i \<and> i < length (nd_kvs n) \<longrightarrow> \<not> key_cmp h (fst (nd_kvs n ! i)) k \<le> 0)"
    unfolding p_def nd_upper_bound_def by (intro bsearch_spec) (auto simp: get_size_def)
  then show ?thesis by (simp add: get_size_def not_le)
qed

lemma leaf_lookup_map: "node_sorted h n \<Longrightarrow> hkey h k \<Longrightarrow> leaf_lookup h n k = node_map h n k"
  using ixk.split_find[of h "nd_kvs n" k "nd_lower_bound h n k"] lower_bound_splits[of h n k]
  by (simp add: leaf_lookup_def Let_def key_here_def node_asc node_find get_size_def)

lemma key_here_map:
  assumes "node_sorted h n" and "hkey h k"
  shows "key_here h n k (nd_lower_bound h n k) \<longleftrightarrow> node_map h n k \<noteq> None"
proof (cases "key_here h n k (nd_lower_bound h n k)")
  case True
  then have "node_map h n k = Some (snd (nd_kvs n ! nd_lower_bound h n k))"
    using leaf_lookup_map[OF assms] by (simp add: leaf_lookup_def Let_def)
  with True show ?thesis by simp
next
  case False
  then show ?thesis using leaf_lookup_map[OF assms] by (simp add: leaf_lookup_def Let_def)
qed

lemma nd_insert_new:
  assumes "node_sorted h n" and "hkey h k" and "node_map h n k = None" and "int (get_size n) < get_max_size h"
  shows "\<exists>n'. nd_insert h k v n = Inr n' \<and> node_sorted h n' \<and> get_size n' = Suc (get_size n) \<and>
    (\<forall>k'. hkey h k' \<longrightarrow> node_map h n' k' = (if key_cmp h k k' = 0 then Some v else node_map h n k')) \<and>
    (\<exists>p. n' = n\<lparr>nd_kvs := take p (nd_kvs n) @ (k, v) # drop p (nd_kvs n)\<rparr> \<and> ixk.splits h (nd_kvs n) k p)"
proof -
  let ?p = "nd_lower_bound h n k"
  have a: "ixk.asc h (nd_kvs n)" using assms(1) by (simp add: node_asc)
  have s: "ixk.splits h (nd_kvs n) k ?p" by (rule lower_bound_splits[OF a assms(2)])
  have nf: "ixk.kv_find h (nd_kvs n) k = None" using assms(3) by (simp add: node_find)
  have p: "?p \<le> get_size n" using s by (simp add: ixk.splits_def get_size_def)
  have "nd_insert h k v n = Inr (n\<lparr>nd_kvs := take ?p (nd_kvs n) @ (k, v) # drop ?p (nd_kvs n)\<rparr>)"
    using key_here_map[OF assms(1,2)] assms(3,4) p by (simp add: nd_insert_def Let_def insert_pair_def insert_pairs_def)
  then show ?thesis
    using ixk.split_insert[OF a assms(2) s nf, of v] ixk.find_insert[OF a assms(2) _ nf] p s
    by (auto simp: node_asc node_find get_size_def)
qed

lemma nd_remove_map:
  assumes "node_sorted h n" and "hkey h k"
  shows "\<exists>n'. nd_remove h k n = Inr n' \<and> node_sorted h n' \<and>
    get_size n' = get_size n - (if node_map h n k = None then 0 else 1) \<and> (node_map h n k = None \<longrightarrow> n' = n) \<and>
    (\<forall>k'. hkey h k' \<longrightarrow> node_map h n' k' = (if key_cmp h k k' = 0 then None else node_map h n k'))"
proof -
  let ?p = "nd_lower_bound h n k"
  have a: "ixk.asc h (nd_kvs n)" using assms(1) by (simp add: node_asc)
  have s: "ixk.splits h (nd_kvs n) k ?p" by (rule lower_bound_splits[OF a assms(2)])
  show ?thesis
  proof (cases "node_map h n k = None")
    case True
    have "node_map h n k' = None" if "hkey h k'" "key_cmp h k k' = 0" for k'
      using ixk.kv_find_cmp_cong[of "nd_kvs n" h k k'] a assms(2) that True by (simp add: node_find ixk.asc_def)
    with True assms key_here_map[OF assms] show ?thesis by (simp add: nd_remove_def Let_def)
  next
    case False
    then have here: "?p < get_size n" "key_cmp h (fst (nd_kvs n ! ?p)) k = 0"
      using key_here_map[OF assms] by (simp_all add: key_here_def)
    have "nd_remove h k n = Inr (n\<lparr>nd_kvs := take ?p (nd_kvs n) @ drop (Suc ?p) (nd_kvs n)\<rparr>)"
      using key_here_map[OF assms] False here(1) by (simp add: nd_remove_def Let_def erase_pair_def)
    then show ?thesis
      using ixk.asc_remove[OF a] ixk.find_remove[OF a assms(2) _ s _ here(2)] here(1) False
      by (auto simp: node_asc node_find get_size_def)
  qed
qed

text \<open>C32: A sorted node is a map from keys to record ids. For a node whose keys are strictly ascending and any
  key of the index: the binary search of \<^verbatim>\<open>leaf_lookup\<close> finds exactly what the node holds under the key;
  \<^verbatim>\<open>insert\<close> of a key that is there leaves the node alone; \<^verbatim>\<open>insert\<close> of a new key into a node that is not
  full succeeds, keeps the order and adds exactly this binding; \<^verbatim>\<open>remove\<close> succeeds, keeps the order and
  takes away exactly the binding of the key, if there is one.\<close>

theorem ix_node_refines:
  assumes "node_sorted h n" and "hkey h k"
  shows "leaf_lookup h n k = node_map h n k \<and>
    (node_map h n k \<noteq> None \<longrightarrow> nd_insert h k v n = Inr n) \<and>
    (node_map h n k = None \<and> int (get_size n) < get_max_size h \<longrightarrow>
      (\<exists>n'. nd_insert h k v n = Inr n' \<and> node_sorted h n' \<and> get_size n' = Suc (get_size n) \<and>
        (\<forall>k'. hkey h k' \<longrightarrow> node_map h n' k' = (if key_cmp h k k' = 0 then Some v else node_map h n k')))) \<and>
    (\<exists>n'. nd_remove h k n = Inr n' \<and> node_sorted h n' \<and>
      (\<forall>k'. hkey h k' \<longrightarrow> node_map h n' k' = (if key_cmp h k k' = 0 then None else node_map h n k')))"
proof (intro conjI impI)
  show "leaf_lookup h n k = node_map h n k" by (rule leaf_lookup_map[OF assms])
  show "nd_insert h k v n = Inr n" if "node_map h n k \<noteq> None"
    using that key_here_map[OF assms] by (simp add: nd_insert_def Let_def)
  show "\<exists>n'. nd_insert h k v n = Inr n' \<and> node_sorted h n' \<and> get_size n' = Suc (get_size n) \<and>
        (\<forall>k'. hkey h k' \<longrightarrow> node_map h n' k' = (if key_cmp h k k' = 0 then Some v else node_map h n k'))"
    if "node_map h n k = None \<and> int (get_size n) < get_max_size h"
    using nd_insert_new[OF assms conjunct1[OF that] conjunct2[OF that], of v] by blast
  show "\<exists>n'. nd_remove h k n = Inr n' \<and> node_sorted h n' \<and>
      (\<forall>k'. hkey h k' \<longrightarrow> node_map h n' k' = (if key_cmp h k k' = 0 then None else node_map h n k'))"
    using nd_remove_map[OF assms] by blast
qed

section \<open>Bytes of headers and pages\<close>

lemma read_ints_at:
  "off = length a \<Longrightarrow> \<forall>x \<in> set xs. in_int x \<Longrightarrow> read_ints off (length xs) (a @ concat (map enc_int xs) @ rest) = Inr xs"
proof (induction xs arbitrary: off a)
  case (Cons x xs)
  have "read_ints (off + 4) (length xs) ((a @ enc_int x) @ concat (map enc_int xs) @ rest) = Inr xs"
    using Cons.prems by (intro Cons.IH) simp_all
  then show ?case using Cons.prems by (simp add: read_simps)
qed simp

definition ixhdr_ok :: "IxFileHdr \<Rightarrow> bool" where
  "ixhdr_ok h \<longleftrightarrow> in_int (ix_first_free_page_no h) \<and> in_int (ix_num_pages h) \<and> in_int (root_page h) \<and>
     in_int (ix_col_tot_len h) \<and> in_int (btree_order h) \<and> in_int (keys_size h) \<and> in_int (first_leaf h) \<and>
     in_int (last_leaf h) \<and> in_int (tot_len h) \<and> list_all in_int (col_lens h) \<and>
     ix_col_num h = int (length (col_types h)) \<and> length (col_lens h) = length (col_types h) \<and>
     tot_len h = 40 + 8 * ix_col_num h"

definition hdr_head :: "IxFileHdr \<Rightarrow> int list" where
  "hdr_head h = [tot_len h, ix_first_free_page_no h, ix_num_pages h, root_page h, ix_col_num h]"

definition hdr_tail :: "IxFileHdr \<Rightarrow> int list" where
  "hdr_tail h = [ix_col_tot_len h, btree_order h, keys_size h, first_leaf h, last_leaf h]"

definition ixhdr_bytes :: "IxFileHdr \<Rightarrow> byte list" where
  "ixhdr_bytes h = concat (map enc_int (hdr_head h)) @ concat (map enc_int (map coltype_int (col_types h))) @
     concat (map enc_int (col_lens h)) @ concat (map enc_int (hdr_tail h))"

lemma length_concat_enc: "length (concat (map enc_int xs)) = 4 * length xs"
  by (induction xs) auto

lemma length_ixhdr_bytes: "ixhdr_ok h \<Longrightarrow> int (length (ixhdr_bytes h)) = tot_len h"
  by (simp only: ixhdr_bytes_def length_append length_concat_enc) (simp add: ixhdr_ok_def hdr_head_def hdr_tail_def)

lemma ixhdr_serialize:
  assumes "ixhdr_ok h" and "length dest = nat (tot_len h)"
  shows "IxFileHdr_serialize h dest = Inr (ixhdr_bytes h)"
proof -
  obtain fs where fs: "hdr_fields h = Inr fs" "concat fs = ixhdr_bytes h"
    using assms(1) by (auto simp: hdr_fields_def ixhdr_ok_def ixhdr_bytes_def hdr_head_def hdr_tail_def comp_def)
  have len: "length (ixhdr_bytes h) = length dest" using length_ixhdr_bytes[OF assms(1)] assms(2) by simp
  have "copy_fields 0 fs dest = Inr (ixhdr_bytes h)"
    using len fs(2) by (simp add: copy_fields_ok put_bytes_all)
  with fs length_ixhdr_bytes[OF assms(1)] show ?thesis by (simp add: IxFileHdr_serialize_def)
qed

lemma coltype_back: "rmap int_coltype (map coltype_int ts) = Inr ts"
proof (induction ts)
  case (Cons t ts)
  have "int_coltype (coltype_int t) = Inr t" by (cases t) (simp_all add: int_coltype_def)
  with Cons show ?case by simp
qed simp

lemma ixhdr_deserialize:
  assumes "ixhdr_ok h"
  shows "IxFileHdr_deserialize (ixhdr_bytes h @ rest) = Inr h"
proof -
  let ?H = "concat (map enc_int (hdr_head h))" and ?T = "concat (map enc_int (map coltype_int (col_types h)))"
  let ?L = "concat (map enc_int (col_lens h))" and ?E = "concat (map enc_int (hdr_tail h))"
  let ?k = "length (col_types h)"
  have src: "ixhdr_bytes h @ rest = ?H @ ?T @ ?L @ ?E @ rest" by (simp add: ixhdr_bytes_def)
  have o: "length ?H = 20" "length ?T = 4 * ?k" "length ?L = 4 * ?k" "length (hdr_head h) = 5" "length (hdr_tail h) = 5"
    using assms by (simp_all add: length_concat_enc hdr_head_def hdr_tail_def ixhdr_ok_def del: map_map)
  have nn: "in_int (ix_col_num h)" using assms by (auto simp: ixhdr_ok_def in_int_def INT_MIN_def INT_MAX_def)
  have ct: "\<forall>x \<in> set (map coltype_int ts). in_int x" for ts
  proof
    fix x assume "x \<in> set (map coltype_int ts)"
    then obtain t where "x = coltype_int t" by auto
    then show "in_int x" by (cases t) (simp_all add: in_int_small_num)
  qed
  have hh: "\<forall>x \<in> set (hdr_head h). in_int x" "\<forall>x \<in> set (hdr_tail h). in_int x"
    using assms nn by (auto simp: hdr_head_def hdr_tail_def ixhdr_ok_def)
  have r1: "read_ints 0 5 (ixhdr_bytes h @ rest) = Inr (hdr_head h)"
    using read_ints_at[of 0 "[]" "hdr_head h" "?T @ ?L @ ?E @ rest", OF _ hh(1)] unfolding src o by simp
  have r2: "read_ints 20 ?k (ixhdr_bytes h @ rest) = Inr (map coltype_int (col_types h))"
    using read_ints_at[of 20 ?H "map coltype_int (col_types h)" "?L @ ?E @ rest", OF _ ct] o src by simp
  have r3: "read_ints (20 + 4 * ?k) ?k (ixhdr_bytes h @ rest) = Inr (col_lens h)"
    using read_ints_at[of "20 + 4 * ?k" "?H @ ?T" "col_lens h" "?E @ rest"] assms o src by (simp add: ixhdr_ok_def list_all_iff)
  have r4: "read_ints (20 + 8 * ?k) 5 (ixhdr_bytes h @ rest) = Inr (hdr_tail h)"
    using read_ints_at[of "20 + 8 * ?k" "?H @ ?T @ ?L" "hdr_tail h" rest, OF _ hh(2)] unfolding src o append_assoc length_append by simp
  have nn0: "ix_col_num h = int ?k" using assms by (simp add: ixhdr_ok_def)
  have k: "nat (ix_col_num h) = ?k" "int (40 + 8 * ?k) = tot_len h" using assms by (simp_all add: ixhdr_ok_def)
  have "hdr_head h ! 4 = ix_col_num h" "hdr_head h ! 0 = tot_len h" by (simp_all add: hdr_head_def)
  then show ?thesis
    using k nn0 by (simp add: IxFileHdr_deserialize_def r1 r2 r3 r4 coltype_back Let_def)
      (simp add: hdr_head_def hdr_tail_def eval_nat_numeral)
qed

lemma get_put_within:
  assumes "off \<le> p" and "p + n \<le> off + length new" and "off + length new \<le> length bs"
  shows "get_bytes p n (put_bytes off new bs) = get_bytes (p - off) n new"
  using assms by (intro nth_equalityI) (auto simp: nth_get_bytes nth_put_bytes)

lemma get_bytes_concat:
  "\<forall>x \<in> set xs. length x = len \<Longrightarrow> i < length xs \<Longrightarrow> get_bytes (i * len) len (concat xs) = xs ! i"
proof (induction xs arbitrary: i)
  case (Cons x xs)
  then show ?case by (cases i) (simp_all add: get_bytes_def)
qed simp

lemma get_get_bytes:
  "q + m \<le> n \<Longrightarrow> p + n \<le> length bs \<Longrightarrow> get_bytes q m (get_bytes p n bs) = get_bytes (p + q) m bs"
  by (intro nth_equalityI) (simp_all add: nth_get_bytes add.assoc)

lemma length_concat_same: "\<forall>x \<in> set xs. length x = len \<Longrightarrow> length (concat xs) = length xs * len"
  by (induction xs) auto

text \<open>The number of entries a page has room for, as \<^verbatim>\<open>create_index\<close> computes it.\<close>

definition ix_order :: "int \<Rightarrow> int" where
  "ix_order len = cdiv (int PAGE_SIZE - int sizeof_IxPageHdr) (len + 8) - 1"

definition node_fits :: "IxFileHdr \<Rightarrow> IxNode \<Rightarrow> bool" where
  "node_fits h n \<longleftrightarrow> 0 < ix_col_tot_len h \<and> ix_col_tot_len h \<le> IX_MAX_COL_LEN \<and> btree_order h = ix_order (ix_col_tot_len h) \<and>
     keys_size h = (btree_order h + 1) * ix_col_tot_len h \<and> int (get_size n) \<le> get_max_size h \<and>
     (\<forall>kv \<in> set (nd_kvs n). int (length (fst kv)) = ix_col_tot_len h \<and> rid_ok (snd kv)) \<and>
     in_int (next_free_page_no n) \<and> in_int (nd_parent n) \<and> in_int (nd_prev_leaf n) \<and> in_int (nd_next_leaf n)"

lemma order_bounds:
  assumes "0 < len" and "len \<le> IX_MAX_COL_LEN"
  shows "2 < ix_order len" and "24 + (ix_order len + 1) * (len + 8) \<le> int PAGE_SIZE"
proof -
  have e: "ix_order len + 1 = 4072 div (len + 8)"
    using assms by (simp add: ix_order_def cdiv_nonneg PAGE_SIZE_def sizeof_IxPageHdr_def)
  have "3 * (len + 8) < 4072 - (len + 8)" using assms by (simp add: IX_MAX_COL_LEN_def)
  then have "4 * (len + 8) div (len + 8) \<le> 4072 div (len + 8)" using assms(1) by (intro zdiv_mono1) simp_all
  moreover have "4 * (len + 8) div (len + 8) = 4" using assms(1) by (intro nonzero_mult_div_cancel_right) simp
  ultimately have "4 \<le> 4072 div (len + 8)" by simp
  then show "2 < ix_order len" using e by simp
  have "4072 div (len + 8) * (len + 8) \<le> 4072" using pos_mod_sign[of "len + 8" 4072] assms(1) div_mult_mod_eq[of 4072 "len + 8"] by linarith
  then show "24 + (ix_order len + 1) * (len + 8) \<le> int PAGE_SIZE" by (simp add: e PAGE_SIZE_def)
qed

lemma dec_int_put_within:
  assumes "in_int x" and "p + 4 \<le> length new" and "get_bytes p 4 new = enc_int x" and "off + length new \<le> length bs"
  shows "dec_int (off + p) (put_bytes off new bs) = x"
  using assms by (simp add: dec_int_def get_put_within in_int_4)

lemma dec_int_put_other:
  "off + length new \<le> length bs \<Longrightarrow> p + 4 \<le> length bs \<Longrightarrow> p + 4 \<le> off \<or> off + length new \<le> p \<Longrightarrow>
   dec_int p (put_bytes off new bs) = dec_int p bs"
  by (simp add: dec_int_def get_put_disjoint)

lemma length_enc_Rid [simp]: "length (enc_Rid r) = 8"
  by (simp add: enc_Rid_def)

lemma node_sizes:
  assumes "node_fits h n"
  shows "length (concat (map fst (nd_kvs n))) = get_size n * nat (ix_col_tot_len h)"
    and "length (concat (map (enc_Rid \<circ> snd) (nd_kvs n))) = 8 * get_size n"
    and "get_size n * nat (ix_col_tot_len h) \<le> nat (keys_size h)"
    and "24 + nat (keys_size h) + 8 * get_size n \<le> PAGE_SIZE"
proof -
  have f: "\<forall>kv \<in> set (nd_kvs n). length (fst kv) = nat (ix_col_tot_len h)" using assms by (auto simp: node_fits_def)
  show "length (concat (map fst (nd_kvs n))) = get_size n * nat (ix_col_tot_len h)"
    using f by (subst length_concat_same[where len = "nat (ix_col_tot_len h)"]) (auto simp: get_size_def)
  show "length (concat (map (enc_Rid \<circ> snd) (nd_kvs n))) = 8 * get_size n"
    by (subst length_concat_same[where len = 8]) (auto simp: get_size_def)
  have h: "0 < ix_col_tot_len h" "keys_size h = (btree_order h + 1) * ix_col_tot_len h"
    "int (get_size n) \<le> btree_order h + 1" "24 + (btree_order h + 1) * (ix_col_tot_len h + 8) \<le> int PAGE_SIZE"
    using assms order_bounds(2) by (auto simp: node_fits_def get_max_size_def)
  have "int (get_size n) * ix_col_tot_len h \<le> keys_size h" using h by (simp add: mult_right_mono)
  then have "int (get_size n * nat (ix_col_tot_len h)) \<le> keys_size h" using h(1) by simp
  then show "get_size n * nat (ix_col_tot_len h) \<le> nat (keys_size h)" by linarith
  have "0 \<le> keys_size h" using h(1-3) by simp
  then show "24 + nat (keys_size h) + 8 * get_size n \<le> PAGE_SIZE"
    using h(2-4) by (simp add: ring_distribs)
qed

lemma dec_enc_node:
  assumes fit: "node_fits h n" and old: "length old = PAGE_SIZE"
  shows "dec_IxNode h (enc_IxNode h n old) = n" and "length (enc_IxNode h n old) = PAGE_SIZE"
proof -
  let ?A = "enc_int (next_free_page_no n) @ enc_int (nd_parent n) @ enc_int (int (get_size n))"
  let ?B = "enc_int (nd_prev_leaf n) @ enc_int (nd_next_leaf n)"
  let ?K = "concat (map fst (nd_kvs n))" and ?R = "concat (map (enc_Rid \<circ> snd) (nd_kvs n))"
  let ?ro = "24 + nat (keys_size h)" and ?len = "nat (ix_col_tot_len h)"
  define p1 where "p1 = put_bytes 0 ?A old"
  define p2 where "p2 = put_bytes 12 [if nd_is_leaf n then 1 else 0 :: byte] p1"
  define p3 where "p3 = put_bytes 16 ?B p2"
  define p4 where "p4 = put_bytes 24 ?K p3"
  define p5 where "p5 = put_bytes ?ro ?R p4"
  have enc: "enc_IxNode h n old = p5"
    by (simp add: enc_IxNode_def p1_def p2_def p3_def p4_def p5_def sizeof_IxPageHdr_def)
  note sz = node_sizes[OF fit]
  have ps: "PAGE_SIZE = 4096" by (simp add: PAGE_SIZE_def)
  have l: "length p1 = 4096" "length p2 = 4096" "length p3 = 4096" "length p4 = 4096" "length p5 = 4096"
    using old sz ps by (simp_all add: p1_def p2_def p3_def p4_def p5_def)
  then show "length (enc_IxNode h n old) = PAGE_SIZE" using enc ps by simp
  have room: "24 + length ?K \<le> ?ro" "?ro + length ?R \<le> 4096" using sz ps by simp_all
  have fi: "in_int (next_free_page_no n)" "in_int (nd_parent n)" "in_int (nd_prev_leaf n)" "in_int (nd_next_leaf n)"
    using fit by (simp_all add: node_fits_def)
  have low: "dec_int p p5 = dec_int p p3" if "p + 4 \<le> 24" for p
    using that l room unfolding p5_def p4_def by (simp add: dec_int_put_other)
  have head: "dec_int p p5 = dec_int p p1" if "p + 4 \<le> 12" for p
    using low[of p] that l unfolding p3_def p2_def by (simp add: dec_int_put_other)
  have szi: "in_int (int (get_size n))" using sz ps by (simp add: in_int_def INT_MIN_def INT_MAX_def)
  have d1: "dec_int 0 p5 = next_free_page_no n" "dec_int 4 p5 = nd_parent n" "dec_int 8 p5 = int (get_size n)"
    using head[of 0] head[of 4] head[of 8] dec_int_put_within[OF fi(1), of 0 ?A 0 old] dec_int_put_within[OF fi(2), of 4 ?A 0 old]
      dec_int_put_within[OF szi, of 8 ?A 0 old] old ps
    by (simp_all add: p1_def get_bytes_def)
  have d2: "dec_int 16 p5 = nd_prev_leaf n" "dec_int 20 p5 = nd_next_leaf n"
    using low[of 16] low[of 20] dec_int_put_within[OF fi(3), of 0 ?B 16 p2] dec_int_put_within[OF fi(4), of 4 ?B 16 p2] l(2)
    by (simp_all add: p3_def get_bytes_def)
  have d3: "p5 ! 12 = (if nd_is_leaf n then 1 else 0)"
    using l room by (simp add: p5_def p4_def p3_def p2_def nth_put_bytes)
  have kvs: "(get_bytes (24 + i * ?len) ?len p5,
      \<lparr>rid_page_no = dec_int (?ro + 8 * i) p5, rid_slot_no = dec_int (?ro + 8 * i + 4) p5\<rparr>) = nd_kvs n ! i"
    if i: "i < get_size n" for i
  proof -
    let ?r = "snd (nd_kvs n ! i)"
    have mem: "nd_kvs n ! i \<in> set (nd_kvs n)" using i by (simp add: get_size_def)
    have "Suc i * ?len \<le> get_size n * ?len" using i by (intro mult_le_mono1) simp
    then have il: "i * ?len + ?len \<le> length ?K" using sz(1) by simp
    have "get_bytes (24 + i * ?len) ?len p5 = get_bytes (24 + i * ?len) ?len p4"
      unfolding p5_def using l il room by (intro get_put_disjoint) auto
    also have "\<dots> = get_bytes (i * ?len) ?len ?K"
      unfolding p4_def using l il room by (subst get_put_within) auto
    also have "\<dots> = fst (nd_kvs n ! i)"
      using fit i by (subst get_bytes_concat) (auto simp: node_fits_def get_size_def)
    finally have key: "get_bytes (24 + i * ?len) ?len p5 = fst (nd_kvs n ! i)" .
    have g8: "get_bytes (8 * i) 8 ?R = enc_Rid ?r"
      using get_bytes_concat[of "map (enc_Rid \<circ> snd) (nd_kvs n)" 8 i] i by (simp add: get_size_def mult.commute)
    have il8: "8 * i + 8 \<le> length ?R" using i sz(2) by simp
    have part: "get_bytes (8 * i + q) 4 ?R = get_bytes q 4 (enc_Rid ?r)" if "q + 4 \<le> 8" for q
      using get_get_bytes[OF that, of "8 * i" ?R] il8 g8 by simp
    have ro: "in_int (rid_page_no ?r)" "in_int (rid_slot_no ?r)" using fit mem by (auto simp: node_fits_def rid_ok_def)
    have "dec_int (?ro + 8 * i) p5 = rid_page_no ?r"
      unfolding p5_def using part[of 0] il8 room l ro by (intro dec_int_put_within) (simp_all add: enc_Rid_def get_bytes_def)
    moreover have "dec_int (?ro + (8 * i + 4)) p5 = rid_slot_no ?r"
      unfolding p5_def using part[of 4] il8 room l ro by (intro dec_int_put_within) (simp_all add: enc_Rid_def get_bytes_def)
    ultimately show ?thesis using key by (simp add: add.assoc prod_eq_iff)
  qed
  have "map (\<lambda>i. (get_bytes (24 + i * ?len) ?len p5,
      \<lparr>rid_page_no = dec_int (?ro + 8 * i) p5, rid_slot_no = dec_int (?ro + 8 * i + 4) p5\<rparr>)) [0..<get_size n] = nd_kvs n"
    using kvs by (intro nth_equalityI) (simp_all add: get_size_def)
  then show "dec_IxNode h (enc_IxNode h n old) = n"
    by (simp add: enc dec_IxNode_def Let_def d1 d2 d3 sizeof_IxPageHdr_def)
qed

text \<open>C33: Index pages. For the number of entries per page that \<^verbatim>\<open>create_index\<close> computes from the key length (1 to
  512 bytes), at least three entries fit, and a node with up to \<^verbatim>\<open>btree_order_ + 1\<close> entries written into
  any page stays inside the page (page header, key array and record-id array do not overlap) and is read
  back from it unchanged: header fields, leaf links, keys and record ids.\<close>

theorem ix_page_roundtrip:
  assumes "node_fits h n" and "length old = PAGE_SIZE"
  shows "2 < btree_order h \<and> length (enc_IxNode h n old) = PAGE_SIZE \<and> dec_IxNode h (enc_IxNode h n old) = n"
proof -
  have "2 < btree_order h" using assms(1) order_bounds(1) by (simp add: node_fits_def)
  then show ?thesis using dec_enc_node[OF assms] by blast
qed


section \<open>An index on one INT column\<close>

definition witness_ixhdr :: IxFileHdr where
  "witness_ixhdr = update_tot_len ((new_IxFileHdr IX_NO_PAGE 3 2 1 4 338 1356 2 2)\<lparr>col_types := [TYPE_INT], col_lens := [4]\<rparr>)"

definition witness_node :: IxNode where
  "witness_node = \<lparr>next_free_page_no = -1, nd_parent = -1, nd_is_leaf = True, nd_prev_leaf = 1, nd_next_leaf = 1,
     nd_kvs = [([5, 0, 0, 0], \<lparr>rid_page_no = 1, rid_slot_no = 0\<rparr>), ([9, 0, 0, 0], \<lparr>rid_page_no = 1, rid_slot_no = 1\<rparr>)]\<rparr>"

lemmas witness_ix_defs = witness_ixhdr_def witness_node_def update_tot_len_def new_IxFileHdr_def

lemma witness_node_sorted: "node_sorted witness_ixhdr witness_node" "hkey witness_ixhdr [7, 0, 0, 0]"
  by (simp_all add: node_sorted_def hkey_def witness_ix_defs key_cols_def key_cmp_def Let_def cmp3_def le_sint_def)

theorem ix_node_refines_witness:
  "\<exists>n'. nd_insert witness_ixhdr [7, 0, 0, 0] \<lparr>rid_page_no = 2, rid_slot_no = 0\<rparr> witness_node = Inr n' \<and>
     node_sorted witness_ixhdr n' \<and> get_size n' = 3"
proof -
  have "node_map witness_ixhdr witness_node [7, 0, 0, 0] = None"
    by (simp add: node_map_def witness_ix_defs key_cols_def key_cmp_def Let_def cmp3_def le_sint_def)
  moreover have "int (get_size witness_node) < get_max_size witness_ixhdr" "Suc (get_size witness_node) = 3"
    by (simp_all add: get_size_def get_max_size_def witness_ix_defs)
  ultimately show ?thesis
    using ix_node_refines[OF witness_node_sorted, of "\<lparr>rid_page_no = 2, rid_slot_no = 0\<rparr>"] by auto
qed

lemma witness_node_fits: "node_fits witness_ixhdr witness_node"
  by (simp add: node_fits_def witness_ix_defs IX_MAX_COL_LEN_def ix_order_def cdiv_nonneg PAGE_SIZE_def sizeof_IxPageHdr_def
      get_size_def get_max_size_def rid_ok_def in_int_small_num)

theorem ix_page_roundtrip_witness:
  "dec_IxNode witness_ixhdr (enc_IxNode witness_ixhdr witness_node zero_page) = witness_node"
  using ix_page_roundtrip[OF witness_node_fits, of zero_page] by (simp add: zero_page_def)

end
