(* ===== verification/IxIndex.thy ===== *)
theory IxIndex
  imports IxNode
begin

text \<open>
  The B+ tree of \<^verbatim>\<open>index/ix_index_handle.cpp\<close>, the index files of \<^verbatim>\<open>index/ix_manager.h\<close> and the leaf scan of
  \<^verbatim>\<open>index/ix_scan.cpp\<close>, over the buffer pool. A node handle is the frame that holds the node's page: every
  access reads or writes the bytes that are in the frame at that moment, also when the page was released
  before. Loops and recursions that follow page numbers stored in nodes have a step bound as first
  argument and end with \<open>OutOfFuel\<close> when it is too small.
\<close>

section \<open>Handles\<close>

record IxState =
  ih_fd :: int
  ih_hdr :: IxFileHdr
  ih_bpm :: BufferPoolManager

definition ix_bp :: "(BufferPoolManager, 'a) em \<Rightarrow> (IxState, 'a) em" where
  "ix_bp m s = (case m (ih_bpm s) of (r, b) \<Rightarrow> (r, s\<lparr>ih_bpm := b\<rparr>))"

definition ix_res :: "(IxState \<Rightarrow> 'a res) \<Rightarrow> (IxState, 'a) em" where
  "ix_res g s = (g s, s)"

text \<open>The node in a frame, and \<^verbatim>\<open>get_page_no\<close>.\<close>

definition ix_node :: "IxState \<Rightarrow> frame_id_t \<Rightarrow> IxNode" where
  "ix_node s f = dec_IxNode (ih_hdr s) (pg_data (bp_frame (ih_bpm s) f))"

definition ix_page_no :: "IxState \<Rightarrow> frame_id_t \<Rightarrow> page_id_t" where
  "ix_page_no s f = pid_page_no (pg_id (bp_frame (ih_bpm s) f))"

text \<open>A change of a node through its handle; where the code changes nothing, no byte of the page is written.\<close>

definition ix_upd :: "frame_id_t \<Rightarrow> (IxFileHdr \<Rightarrow> IxNode \<Rightarrow> IxNode res) \<Rightarrow> (IxState, unit) em" where
  "ix_upd f g s =
     (case g (ih_hdr s) (ix_node s f) of
        Inl e \<Rightarrow> (Inl e, s)
      | Inr n \<Rightarrow>
          (Inr (), if n = ix_node s f then s else s\<lparr>ih_bpm := page_write f (enc_IxNode (ih_hdr s) n) (ih_bpm s)\<rparr>))"

definition ix_set :: "frame_id_t \<Rightarrow> (IxNode \<Rightarrow> IxNode) \<Rightarrow> (IxState, unit) em" where
  "ix_set f g = ix_upd f (\<lambda>_ n. Inr (g n))"

definition ix_hdr :: "(IxFileHdr \<Rightarrow> IxFileHdr) \<Rightarrow> (IxState, unit) em" where
  "ix_hdr g s = (Inr (), s\<lparr>ih_hdr := g (ih_hdr s)\<rparr>)"

text \<open>\<^verbatim>\<open>buffer_pool_manager_->unpin_page(node->get_page_id(), is_dirty)\<close>.\<close>

definition ix_unpin :: "frame_id_t \<Rightarrow> bool \<Rightarrow> (IxState, bool) em" where
  "ix_unpin f dirty = ix_bp (\<lambda>b. case unpin_page (pg_id (bp_frame b f)) dirty b of (ok, b') \<Rightarrow> (Inr ok, b'))"

definition is_empty :: "IxState \<Rightarrow> bool" where
  "is_empty s \<longleftrightarrow> root_page (ih_hdr s) = IX_NO_PAGE"

definition update_root_page_no :: "page_id_t \<Rightarrow> (IxState, unit) em" where
  "update_root_page_no root = ix_hdr (\<lambda>h. h\<lparr>root_page := root\<rparr>)"

text \<open>The handle's constructor dereferences the page: a null page is undefined behaviour.\<close>

definition fetch_node :: "int \<Rightarrow> (IxState, frame_id_t) em" where
  "fetch_node page_no s =
     em_bind (ix_bp (fetch_page \<lparr>pid_fd = ih_fd s, pid_page_no = page_no\<rparr>))
       (\<lambda>p. case p of None \<Rightarrow> em_throw UndefinedBehaviour | Some f \<Rightarrow> em_return f) s"

definition create_node :: "(IxState, frame_id_t) em" where
  "create_node =
     em_then (ix_hdr (\<lambda>h. h\<lparr>ix_num_pages := c_int (ix_num_pages h + 1)\<rparr>))
       (\<lambda>s. em_bind (ix_bp (new_page (ih_fd s)))
              (\<lambda>p. case p of None \<Rightarrow> em_throw UndefinedBehaviour | Some (_, f) \<Rightarrow> em_return f) s)"

definition release_node_handle :: "(IxState, unit) em" where
  "release_node_handle = ix_hdr (\<lambda>h. h\<lparr>ix_num_pages := c_int (ix_num_pages h - 1)\<rparr>)"

section \<open>Search\<close>

primrec descend :: "nat \<Rightarrow> byte list \<Rightarrow> bool \<Rightarrow> frame_id_t \<Rightarrow> (IxState, frame_id_t) em" where
  "descend 0 key find_first f = em_throw OutOfFuel"
| "descend (Suc n) key find_first f =
     (\<lambda>s. if nd_is_leaf (ix_node s f) then em_return f s
          else em_bind (ix_res (\<lambda>s. if find_first then value_at (ix_node s f) 0
                                    else internal_lookup (ih_hdr s) (ix_node s f) key))
                 (\<lambda>child. em_then (ix_unpin f False) (em_bind (fetch_node child) (descend n key find_first))) s)"

definition find_leaf_page :: "nat \<Rightarrow> byte list \<Rightarrow> bool \<Rightarrow> (IxState, frame_id_t option) em" where
  "find_leaf_page n key find_first s =
     (if is_empty s then (Inr None, s)
      else em_bind (fetch_node (root_page (ih_hdr s)))
             (\<lambda>f. em_bind (descend n key find_first f) (\<lambda>leaf. em_return (Some leaf))) s)"

definition get_value :: "nat \<Rightarrow> byte list \<Rightarrow> Rid list \<Rightarrow> (IxState, bool \<times> Rid list) em" where
  "get_value n key result =
     em_bind (find_leaf_page n key False) (\<lambda>leaf.
       case leaf of
         None \<Rightarrow> em_return (False, result)
       | Some f \<Rightarrow>
           em_bind (ix_res (\<lambda>s. Inr (leaf_lookup (ih_hdr s) (ix_node s f) key))) (\<lambda>value.
           em_then (ix_unpin f False)
             (em_return (case value of None \<Rightarrow> (False, result) | Some r \<Rightarrow> (True, result @ [r])))))"

definition leaf_end :: "(IxState, Iid) em" where
  "leaf_end s =
     em_bind (fetch_node (last_leaf (ih_hdr s))) (\<lambda>f.
     em_bind (ix_res (\<lambda>s. Inr \<lparr>iid_page_no = last_leaf (ih_hdr s), iid_slot_no = int (get_size (ix_node s f))\<rparr>)) (\<lambda>iid.
     em_then (ix_unpin f False) (em_return iid))) s"

definition leaf_begin :: "(IxState, Iid) em" where
  "leaf_begin s = (Inr \<lparr>iid_page_no = first_leaf (ih_hdr s), iid_slot_no = 0\<rparr>, s)"

text \<open>The loop of \<^verbatim>\<open>lower_bound\<close> and \<^verbatim>\<open>upper_bound\<close>: go to the next leaf as long as the position is behind the
  last entry. \<open>bound\<close> is the search in the node.\<close>

primrec bound_loop :: "(IxFileHdr \<Rightarrow> IxNode \<Rightarrow> byte list \<Rightarrow> nat) \<Rightarrow> nat \<Rightarrow> byte list \<Rightarrow> frame_id_t \<Rightarrow> nat \<Rightarrow> (IxState, Iid) em" where
  "bound_loop bound 0 key f pos = em_throw OutOfFuel"
| "bound_loop bound (Suc n) key f pos =
     (\<lambda>s. if pos = get_size (ix_node s f) \<and> ix_page_no s f \<noteq> last_leaf (ih_hdr s)
          then em_bind (ix_res (\<lambda>s. Inr (nd_next_leaf (ix_node s f)))) (\<lambda>next_page.
                 em_then (ix_unpin f False)
                 (em_bind (fetch_node next_page) (\<lambda>f'.
                  em_bind (ix_res (\<lambda>s. Inr (bound (ih_hdr s) (ix_node s f') key))) (bound_loop bound n key f')))) s
          else em_bind (ix_res (\<lambda>s. Inr \<lparr>iid_page_no = ix_page_no s f, iid_slot_no = int pos\<rparr>)) (\<lambda>iid.
                 em_then (ix_unpin f False) (em_return iid)) s)"

definition ix_bound :: "(IxFileHdr \<Rightarrow> IxNode \<Rightarrow> byte list \<Rightarrow> nat) \<Rightarrow> nat \<Rightarrow> byte list \<Rightarrow> (IxState, Iid) em" where
  "ix_bound bound n key =
     em_bind (find_leaf_page n key False) (\<lambda>leaf.
       case leaf of
         None \<Rightarrow> leaf_end
       | Some f \<Rightarrow> em_bind (ix_res (\<lambda>s. Inr (bound (ih_hdr s) (ix_node s f) key))) (bound_loop bound n key f))"

definition ix_lower_bound :: "nat \<Rightarrow> byte list \<Rightarrow> (IxState, Iid) em" where
  "ix_lower_bound = ix_bound nd_lower_bound"

definition ix_upper_bound :: "nat \<Rightarrow> byte list \<Rightarrow> (IxState, Iid) em" where
  "ix_upper_bound = ix_bound nd_upper_bound"

text \<open>When the slot does not exist the page stays pinned; otherwise the record id is read after the release.\<close>

definition ix_get_rid :: "Iid \<Rightarrow> (IxState, Rid) em" where
  "ix_get_rid iid =
     em_bind (fetch_node (iid_page_no iid)) (\<lambda>f s.
       if iid_slot_no iid \<ge> int (get_size (ix_node s f)) then (Inl (RMDBError IndexEntryNotFoundError), s)
       else em_then (ix_unpin f False)
              (ix_res (\<lambda>s. if iid_slot_no iid < 0 then Inl UndefinedBehaviour
                           else get_rid (ix_node s f) (nat (iid_slot_no iid)))) s)"

section \<open>Maintaining links\<close>

primrec maintain_parent :: "nat \<Rightarrow> frame_id_t \<Rightarrow> (IxState, unit) em" where
  "maintain_parent 0 cur = em_throw OutOfFuel"
| "maintain_parent (Suc n) cur =
     (\<lambda>s. if nd_parent (ix_node s cur) = IX_NO_PAGE then em_return () s
          else em_bind (fetch_node (nd_parent (ix_node s cur))) (\<lambda>parent.
               em_bind (ix_res (\<lambda>s. find_child (ix_node s parent) (ix_page_no s cur))) (\<lambda>rank.
               em_bind (ix_res (\<lambda>s. get_key (ix_node s parent) rank)) (\<lambda>parent_key.
               em_bind (ix_res (\<lambda>s. get_key (ix_node s cur) 0)) (\<lambda>child_first_key.
                 if parent_key = child_first_key
                 then em_bind (ix_unpin parent True) (\<lambda>ok. if ok then em_return () else em_throw AssertFailure)
                 else em_then (ix_set parent (set_key rank child_first_key))
                      (em_bind (ix_unpin parent True)
                        (\<lambda>ok. if ok then maintain_parent n parent else em_throw AssertFailure)))))) s)"

definition maintain_child :: "frame_id_t \<Rightarrow> nat \<Rightarrow> (IxState, unit) em" where
  "maintain_child f child_idx s =
     (if nd_is_leaf (ix_node s f) then (Inr (), s)
      else em_bind (ix_res (\<lambda>s. value_at (ix_node s f) child_idx)) (\<lambda>child_page_no.
           em_bind (fetch_node child_page_no) (\<lambda>child s.
             em_then (ix_set child (\<lambda>n. n\<lparr>nd_parent := ix_page_no s f\<rparr>))
               (em_then (ix_unpin child True) (em_return ())) s)) s)"

definition erase_leaf :: "frame_id_t \<Rightarrow> (IxState, unit) em" where
  "erase_leaf leaf s =
     (if \<not> nd_is_leaf (ix_node s leaf) then (Inl AssertFailure, s)
      else em_bind (fetch_node (nd_prev_leaf (ix_node s leaf))) (\<lambda>prev s.
             em_then (ix_set prev (\<lambda>n. n\<lparr>nd_next_leaf := nd_next_leaf (ix_node s leaf)\<rparr>))
             (em_then (ix_unpin prev True)
             (\<lambda>s. em_bind (fetch_node (nd_next_leaf (ix_node s leaf))) (\<lambda>next s.
                    em_then (ix_set next (\<lambda>n. n\<lparr>nd_prev_leaf := nd_prev_leaf (ix_node s leaf)\<rparr>))
                      (em_then (ix_unpin next True) (em_return ())) s) s)) s) s)"


section \<open>Insertion\<close>

definition split_node :: "frame_id_t \<Rightarrow> (IxState, frame_id_t) em" where
  "split_node f =
     em_bind create_node (\<lambda>nf s.
       let n = ix_node s f; move_start = get_size n div 2
       in em_then (ix_set nf (\<lambda>m. m\<lparr>nd_is_leaf := nd_is_leaf n, nd_parent := nd_parent n, nd_kvs := [],
                                     next_free_page_no := IX_NO_PAGE\<rparr>))
         (em_then (ix_upd nf (\<lambda>h. insert_pairs h 0 (drop move_start (nd_kvs n))))
         (em_then (ix_set f (set_size move_start))
         (if nd_is_leaf n
          then (\<lambda>s. em_then (ix_set nf (\<lambda>m. m\<lparr>nd_prev_leaf := ix_page_no s f, nd_next_leaf := nd_next_leaf (ix_node s f)\<rparr>))
                 (\<lambda>s. em_bind (fetch_node (nd_next_leaf (ix_node s f))) (\<lambda>next s.
                    em_then (ix_set next (\<lambda>m. m\<lparr>nd_prev_leaf := ix_page_no s nf\<rparr>))
                    (em_then (ix_unpin next True)
                    (\<lambda>s. em_then (ix_set f (\<lambda>m. m\<lparr>nd_next_leaf := ix_page_no s nf\<rparr>))
                    (em_then (if last_leaf (ih_hdr s) = ix_page_no s f
                              then ix_hdr (\<lambda>h. h\<lparr>last_leaf := ix_page_no s nf\<rparr>) else em_return ())
                      (em_return nf)) s)) s) s) s)
          else em_then (ix_set nf (\<lambda>m. m\<lparr>nd_prev_leaf := IX_NO_PAGE, nd_next_leaf := IX_NO_PAGE\<rparr>))
                 (\<lambda>s. em_then (em_each (maintain_child nf) [0..<get_size (ix_node s nf)]) (em_return nf) s)))) s)"

definition child_rid :: "page_id_t \<Rightarrow> Rid" where
  "child_rid p = \<lparr>rid_page_no = p, rid_slot_no = -1\<rparr>"

definition new_root :: "frame_id_t \<Rightarrow> frame_id_t \<Rightarrow> (IxState, unit) em" where
  "new_root old_node new_node =
     em_bind create_node (\<lambda>root.
       em_then (ix_set root (\<lambda>m. m\<lparr>nd_is_leaf := False, nd_parent := IX_NO_PAGE, nd_kvs := [],
                                   nd_prev_leaf := IX_NO_PAGE, nd_next_leaf := IX_NO_PAGE\<rparr>))
       (\<lambda>s. em_then (ix_set old_node (\<lambda>m. m\<lparr>nd_parent := ix_page_no s root\<rparr>))
       (em_then (ix_set new_node (\<lambda>m. m\<lparr>nd_parent := ix_page_no s root\<rparr>))
       (\<lambda>s. em_then (ix_upd root (\<lambda>h m. rbind (get_key (ix_node s old_node) 0)
                                    (\<lambda>k. insert_pair h 0 k (child_rid (ix_page_no s old_node)) m)))
       (\<lambda>s. em_then (ix_upd root (\<lambda>h m. rbind (get_key (ix_node s new_node) 0)
                                    (\<lambda>k. insert_pair h 1 k (child_rid (ix_page_no s new_node)) m)))
       (\<lambda>s. em_then (update_root_page_no (ix_page_no s root))
              (em_then (ix_unpin root True) (em_return ())) s) s) s)) s))"

primrec insert_into_parent :: "nat \<Rightarrow> frame_id_t \<Rightarrow> byte list \<Rightarrow> frame_id_t \<Rightarrow> (IxState, unit) em" where
  "insert_into_parent 0 old_node key new_node = em_throw OutOfFuel"
| "insert_into_parent (Suc n) old_node key new_node =
     (\<lambda>s. if is_root_page (ix_node s old_node) then new_root old_node new_node s
          else em_bind (fetch_node (nd_parent (ix_node s old_node))) (\<lambda>parent s.
                 em_then (ix_upd parent (\<lambda>h. nd_insert h key (child_rid (ix_page_no s new_node))))
                 (em_then
                   (\<lambda>s. if int (get_size (ix_node s parent)) \<ge> get_max_size (ih_hdr s)
                        then em_bind (split_node parent) (\<lambda>new_parent.
                             em_bind (ix_res (\<lambda>s. get_key (ix_node s new_parent) 0)) (\<lambda>k.
                             em_then (insert_into_parent n parent k new_parent) (ix_unpin new_parent True))) s
                        else em_return True s)
                   (em_then (ix_unpin parent True) (em_return ()))) s) s)"

definition insert_entry :: "nat \<Rightarrow> byte list \<Rightarrow> Rid \<Rightarrow> (IxState, page_id_t) em" where
  "insert_entry n key value =
     em_bind (find_leaf_page n key False) (\<lambda>leaf.
       case leaf of
         None \<Rightarrow> em_throw UndefinedBehaviour
       | Some f \<Rightarrow> (\<lambda>s.
           let old_size = get_size (ix_node s f)
           in em_then (ix_upd f (\<lambda>h. nd_insert h key value)) (\<lambda>s.
              if get_size (ix_node s f) = old_size then em_then (ix_unpin f False) (em_return IX_NO_PAGE) s
              else em_bind
                (if int (get_size (ix_node s f)) \<ge> get_max_size (ih_hdr s)
                 then em_bind (split_node f) (\<lambda>new_leaf.
                      em_bind (ix_res (\<lambda>s. get_key (ix_node s new_leaf) 0)) (\<lambda>k.
                      em_then (insert_into_parent n f k new_leaf)
                      (em_bind (ix_res (\<lambda>s. rbind (get_key (ix_node s new_leaf) 0)
                                 (\<lambda>k. Inr (if key_cmp (ih_hdr s) key k \<ge> 0 then ix_page_no s new_leaf else ix_page_no s f))))
                        (\<lambda>p. em_then (ix_unpin new_leaf True) (em_return p)))))
                 else em_then (maintain_parent n f) (em_return (ix_page_no s f)))
                (\<lambda>p. em_then (ix_unpin f True) (em_return p)) s) s))"

section \<open>Deletion\<close>

definition adjust_root :: "frame_id_t \<Rightarrow> (IxState, bool) em" where
  "adjust_root f s =
     (let n = ix_node s f
      in if \<not> nd_is_leaf n \<and> get_size n = 1
         then em_bind (ix_res (\<lambda>s. remove_and_return_only_child n)) (\<lambda>(child_page_no, n').
              em_then (ix_set f (\<lambda>_. n'))
              (em_bind (fetch_node child_page_no) (\<lambda>child.
              em_then (ix_set child (\<lambda>m. m\<lparr>nd_parent := IX_NO_PAGE\<rparr>))
              (em_then (update_root_page_no child_page_no)
              (em_then (ix_unpin child True) (em_return True)))))) s
         else if nd_is_leaf n \<and> get_size n = 0
         then em_then (update_root_page_no (ix_page_no s f)) (em_return False) s
         else (Inr False, s))"

definition redistribute :: "nat \<Rightarrow> frame_id_t \<Rightarrow> frame_id_t \<Rightarrow> frame_id_t \<Rightarrow> nat \<Rightarrow> (IxState, unit) em" where
  "redistribute n neighbor node parent index s =
     em_then
       (let src = (if index = 0 then 0 else get_size (ix_node s neighbor) - 1)
        in em_bind (ix_res (\<lambda>s. get_kv (ix_node s neighbor) src)) (\<lambda>kv.
           em_then (ix_upd node (\<lambda>h m. insert_pair h (if index = 0 then get_size m else 0) (fst kv) (snd kv) m))
           (em_then (ix_upd neighbor (\<lambda>_. erase_pair src))
           (\<lambda>s. maintain_child node (if index = 0 then get_size (ix_node s node) - 1 else 0) s))))
       (em_then (\<lambda>s. ix_upd parent (\<lambda>h m. rbind (get_key (ix_node s node) 0) (\<lambda>k.
                   rbind (find_child m (ix_page_no s node)) (\<lambda>i. Inr (set_key i k m)))) s)
       (em_then (\<lambda>s. ix_upd parent (\<lambda>h m. rbind (get_key (ix_node s neighbor) 0) (\<lambda>k.
                   rbind (find_child m (ix_page_no s neighbor)) (\<lambda>i. Inr (set_key i k m)))) s)
         (maintain_parent n parent))) s"

text \<open>\<^verbatim>\<open>coalesce\<close> up to the recursive call: the right node is merged into the left one.\<close>

definition merge_nodes :: "frame_id_t \<Rightarrow> frame_id_t \<Rightarrow> frame_id_t \<Rightarrow> (IxState, unit) em" where
  "merge_nodes left right parent s =
     (let old_left_size = get_size (ix_node s left)
      in em_then (ix_upd left (\<lambda>h m. insert_pairs h (get_size m) (nd_kvs (ix_node s right)) m))
        (em_then (\<lambda>s. em_each (maintain_child left) [old_left_size..<get_size (ix_node s left)] s)
        (em_then
          (\<lambda>s. if nd_is_leaf (ix_node s right)
               then em_then (ix_set left (\<lambda>m. m\<lparr>nd_next_leaf := nd_next_leaf (ix_node s right)\<rparr>))
                    (\<lambda>s. em_bind (fetch_node (nd_next_leaf (ix_node s right))) (\<lambda>next s.
                       em_then (ix_set next (\<lambda>m. m\<lparr>nd_prev_leaf := ix_page_no s left\<rparr>))
                       (em_then (ix_unpin next True)
                       (\<lambda>s. if last_leaf (ih_hdr s) = ix_page_no s right
                            then ix_hdr (\<lambda>h. h\<lparr>last_leaf := ix_page_no s left\<rparr>) s else em_return () s)) s) s) s
               else em_return () s)
        (em_then (\<lambda>s. ix_upd parent (\<lambda>h m. rbind (find_child m (ix_page_no s right)) (\<lambda>i. erase_pair i m)) s)
          release_node_handle))) s)"

text \<open>\<^verbatim>\<open>coalesce\<close> swaps the caller's pointers when the index is 0, so that the caller then releases the
  original node instead of the neighbour.\<close>

primrec coalesce_or_redistribute :: "nat \<Rightarrow> frame_id_t \<Rightarrow> (IxState, bool) em" where
  "coalesce_or_redistribute 0 node = em_throw OutOfFuel"
| "coalesce_or_redistribute (Suc n) node =
     (\<lambda>s. if is_root_page (ix_node s node) then adjust_root node s
          else if int (get_size (ix_node s node)) \<ge> get_min_size (ih_hdr s)
          then em_then (maintain_parent n node) (em_return False) s
          else em_bind (fetch_node (nd_parent (ix_node s node))) (\<lambda>parent.
               em_bind (ix_res (\<lambda>s. find_child (ix_node s parent) (ix_page_no s node))) (\<lambda>index.
               em_bind (ix_res (\<lambda>s. value_at (ix_node s parent) (if index = 0 then 1 else index - 1))) (\<lambda>neighbor_page.
               em_bind (fetch_node neighbor_page) (\<lambda>neighbor.
               em_bind
                 (\<lambda>s. if int (get_size (ix_node s node) + get_size (ix_node s neighbor)) \<ge> get_min_size (ih_hdr s) * 2
                      then em_then (redistribute n neighbor node parent index) (em_return (False, neighbor)) s
                      else let left = (if index = 0 then node else neighbor);
                               right = (if index = 0 then neighbor else node)
                           in em_then (merge_nodes left right parent)
                                (em_bind (coalesce_or_redistribute n parent) (\<lambda>d. em_return (d, left))) s)
                 (\<lambda>(should_delete, neighbor').
                    em_then (ix_unpin neighbor' True) (em_then (ix_unpin parent True) (em_return should_delete))))))) s)"

definition delete_entry :: "nat \<Rightarrow> byte list \<Rightarrow> (IxState, bool) em" where
  "delete_entry n key =
     em_bind (find_leaf_page n key False) (\<lambda>leaf.
       case leaf of
         None \<Rightarrow> em_return False
       | Some f \<Rightarrow> (\<lambda>s.
           let old_size = get_size (ix_node s f)
           in em_then (ix_upd f (\<lambda>h. nd_remove h key)) (\<lambda>s.
                if get_size (ix_node s f) = old_size then em_then (ix_unpin f False) (em_return False) s
                else em_then (coalesce_or_redistribute n f) (em_then (ix_unpin f True) (em_return True)) s) s))"

section \<open>Leaf scans\<close>

record IxScan =
  isc_iid :: Iid
  isc_end :: Iid

definition new_IxScan :: "Iid \<Rightarrow> Iid \<Rightarrow> IxScan" where
  "new_IxScan lower upper = \<lparr>isc_iid = lower, isc_end = upper\<rparr>"

definition IxScan_is_end :: "IxScan \<Rightarrow> bool" where
  "IxScan_is_end sc \<longleftrightarrow> isc_iid sc = isc_end sc"

text \<open>The page of the current entry stays pinned.\<close>

definition IxScan_next :: "IxScan \<Rightarrow> (IxState, IxScan) em" where
  "IxScan_next sc s =
     (if IxScan_is_end sc then (Inl AssertFailure, s)
      else em_bind (fetch_node (iid_page_no (isc_iid sc))) (\<lambda>f s.
             let n = ix_node s f; slot = iid_slot_no (isc_iid sc)
             in if \<not> nd_is_leaf n then (Inl AssertFailure, s)
                else if \<not> slot < int (get_size n) then (Inl AssertFailure, s)
                else if iid_page_no (isc_iid sc) \<noteq> last_leaf (ih_hdr s) \<and> c_int (slot + 1) = int (get_size n)
                then (Inr (sc\<lparr>isc_iid := \<lparr>iid_page_no = nd_next_leaf n, iid_slot_no = 0\<rparr>\<rparr>), s)
                else (Inr (sc\<lparr>isc_iid := (isc_iid sc)\<lparr>iid_slot_no := c_int (slot + 1)\<rparr>\<rparr>), s)) s)"

definition IxScan_rid :: "IxScan \<Rightarrow> (IxState, Rid) em" where
  "IxScan_rid sc = ix_get_rid (isc_iid sc)"

section \<open>Index files\<close>

definition get_index_name :: "string \<Rightarrow> string list \<Rightarrow> string" where
  "get_index_name filename index_cols = fold (\<lambda>c acc. acc @ ''_'' @ c) index_cols filename @ ''.idx''"

definition ix_exists :: "string \<Rightarrow> string list \<Rightarrow> DiskManager \<Rightarrow> bool" where
  "ix_exists filename index_cols d = is_file (get_index_name filename index_cols) d"

definition index_hdr :: "ColMeta list \<Rightarrow> IxFileHdr" where
  "index_hdr cols =
     (let len = fold (\<lambda>c acc. acc + cm_len c) cols 0; order = ix_order len
      in update_tot_len ((new_IxFileHdr IX_NO_PAGE IX_INIT_NUM_PAGES IX_INIT_ROOT_PAGE (int (length cols)) len order
           ((order + 1) * len) IX_INIT_ROOT_PAGE IX_INIT_ROOT_PAGE)\<lparr>col_types := map cm_type cols, col_lens := map cm_len cols\<rparr>))"

definition empty_leaf :: "page_id_t \<Rightarrow> IxNode" where
  "empty_leaf p = \<lparr>next_free_page_no = IX_NO_PAGE, nd_parent = IX_NO_PAGE, nd_is_leaf = True, nd_prev_leaf = p,
     nd_next_leaf = p, nd_kvs = []\<rparr>"

definition write_ix_hdr :: "int \<Rightarrow> IxFileHdr \<Rightarrow> byte list \<Rightarrow> (DiskManager, unit) em" where
  "write_ix_hdr fd h junk d =
     (case IxFileHdr_serialize h (take (nat (tot_len h)) junk) of
        Inl e \<Rightarrow> (Inl e, d)
      | Inr data \<Rightarrow> write_page fd IX_FILE_HDR_PAGE data (nat (tot_len h)) d)"

definition create_index :: "byte list \<Rightarrow> string \<Rightarrow> ColMeta list \<Rightarrow> (DiskManager, unit) em" where
  "create_index junk filename cols =
     (let ix_name = get_index_name filename (map cm_name cols); h = index_hdr cols
      in em_then (create_file ix_name)
        (em_bind (open_file ix_name) (\<lambda>fd.
           if ix_col_tot_len h > IX_MAX_COL_LEN then em_throw (RMDBError (InvalidColLengthError (ix_col_tot_len h)))
           else if \<not> btree_order h > 2 then em_throw AssertFailure
           else em_then (write_ix_hdr fd h junk)
             (em_then (write_page fd IX_LEAF_HEADER_PAGE (enc_IxNode h (empty_leaf IX_INIT_ROOT_PAGE) zero_page) PAGE_SIZE)
             (em_then (write_page fd IX_INIT_ROOT_PAGE (enc_IxNode h (empty_leaf IX_LEAF_HEADER_PAGE) zero_page) PAGE_SIZE)
             (em_then (em_modify (set_fd2pageno fd IX_INIT_NUM_PAGES)) (close_file fd)))))))"

definition destroy_index :: "string \<Rightarrow> string list \<Rightarrow> (DiskManager, unit) em" where
  "destroy_index filename index_cols = destroy_file (get_index_name filename index_cols)"

text \<open>\<^verbatim>\<open>open_index\<close> with the constructor of the handle. The first read goes into the pointer member; \<open>ptr\<close> is
  what it held.\<close>

definition open_index :: "byte list \<Rightarrow> string \<Rightarrow> string list \<Rightarrow> BufferPoolManager \<Rightarrow> (exn + IxState) \<times> BufferPoolManager" where
  "open_index ptr filename index_cols b =
     (case open_file (get_index_name filename index_cols) (bp_disk b) of
        (Inl e, d) \<Rightarrow> (Inl e, b\<lparr>bp_disk := d\<rparr>)
      | (Inr fd, d) \<Rightarrow>
          (case read_page fd IX_FILE_HDR_PAGE ptr 8 d of
             (Inl e, _, d1) \<Rightarrow> (Inl e, b\<lparr>bp_disk := d1\<rparr>)
           | (Inr _, _, d1) \<Rightarrow>
               (case read_page fd IX_FILE_HDR_PAGE zero_page PAGE_SIZE d1 of
                  (Inl e, _, d2) \<Rightarrow> (Inl e, b\<lparr>bp_disk := d2\<rparr>)
                | (Inr _, buf, d2) \<Rightarrow>
                    (case IxFileHdr_deserialize buf of
                       Inl e \<Rightarrow> (Inl e, b\<lparr>bp_disk := d2\<rparr>)
                     | Inr h \<Rightarrow>
                         (let b1 = b\<lparr>bp_disk := set_fd2pageno fd (ix_num_pages h) d2\<rparr>
                          in (Inr \<lparr>ih_fd = fd, ih_hdr = h, ih_bpm = b1\<rparr>, b1))))))"

definition close_index :: "byte list \<Rightarrow> (IxState, unit) em" where
  "close_index junk s =
     em_then (ix_bp (\<lambda>b. case write_ix_hdr (ih_fd s) (ih_hdr s) junk (bp_disk b) of (r, d) \<Rightarrow> (r, b\<lparr>bp_disk := d\<rparr>)))
       (em_then (ix_bp (flush_all_pages (ih_fd s)))
       (em_then (ix_bp (\<lambda>b. (Inr (), remove_all_pages (ih_fd s) b)))
         (ix_bp (\<lambda>b. case close_file (ih_fd s) (bp_disk b) of (r, d) \<Rightarrow> (r, b\<lparr>bp_disk := d\<rparr>))))) s"


section \<open>Room in the pool\<close>

definition bp_avail :: "BufferPoolManager \<Rightarrow> nat" where
  "bp_avail b = length (bp_free b) + length (lru_frames (bp_replacer b))"

lemma bp_roomy_avail: "bp_roomy b \<longleftrightarrow> 0 < bp_avail b"
  by (auto simp: bp_roomy_def bp_avail_def)

lemma length_removeAll_distinct: "distinct xs \<Longrightarrow> length xs \<le> Suc (length (removeAll x xs))"
  by (cases xs) (auto simp: distinct_remove1_removeAll[symmetric] length_remove1)

lemma update_page_lists:
  "update_page f pid b = (r, b') \<Longrightarrow> bp_free b' = bp_free b \<and> bp_replacer b' = bp_replacer b"
  by (auto simp: update_page_def em_defs bp_write_page_def Let_def split: prod.splits sum.splits if_splits)

lemma fetch_avail:
  assumes i: "bp_inv b" and f: "fetch_page pid b = (Inr (Some f), b')"
  shows "bp_avail b \<le> Suc (bp_avail b')" and "0 < pins b pid \<Longrightarrow> bp_avail b' = bp_avail b"
proof -
  have s: "bp_struct b" by (rule bp_inv_struct[OF i])
  have li: "lru_inv (bp_replacer b)" using s by (simp add: bp_struct_def)
  show "bp_avail b \<le> Suc (bp_avail b')"
  proof (cases "map_of (bp_table b) pid")
    case (Some f1)
    then have "bp_free b' = bp_free b" "lru_frames (bp_replacer b') = removeAll f1 (lru_frames (bp_replacer b))"
      using f lru.frames_pin[OF li] by (auto simp: fetch_page_def)
    then show ?thesis using length_removeAll_distinct[OF lru.distinct_frames[OF li], of f1] by (simp add: bp_avail_def)
  next
    case None
    obtain v b1 where v: "find_victim_page b = (v, b1)" by fastforce
    obtain g where g: "v = Some g" using f None v by (auto simp: fetch_page_def split: option.splits)
    have b': "bp_free b' = bp_free b1 \<and> bp_replacer b' = lru_pin g (bp_replacer b1)"
      using f None v g update_page_lists[of g pid b1]
      by (auto simp: fetch_page_def em_defs Let_def erase_frame_id_def page_write_def split: prod.splits sum.splits if_splits)
    from s v[unfolded g] have one: "bp_avail b = Suc (bp_avail b1) \<and> lru_inv (bp_replacer b1) \<and> g \<notin> set (lru_frames (bp_replacer b1))"
    proof (cases rule: find_victim_Some)
      case (free fs)
      then have "g \<notin> set (lru_frames (bp_replacer b))" using s by (simp add: bp_struct_def)
      then show ?thesis using free li by (simp add: bp_avail_def)
    next
      case (evict r p)
      then show ?thesis using lru.distinct_frames[OF li] by (simp add: bp_avail_def)
    qed
    then show ?thesis using b' lru.frames_pin[of "bp_replacer b1" g] by (simp add: bp_avail_def)
  qed
  show "bp_avail b' = bp_avail b" if p: "0 < pins b pid"
  proof -
    obtain f1 where t: "map_of (bp_table b) pid = Some f1" "0 < pg_pin (bp_frame b f1)"
      using p by (auto simp: pins_def split: option.splits)
    then have "f1 \<notin> set (lru_frames (bp_replacer b))" using s by (simp add: bp_struct_def)
    then show ?thesis using f t lru.frames_pin[OF li] by (auto simp: fetch_page_def bp_avail_def)
  qed
qed

lemma unpin_avail:
  assumes i: "bp_inv b" and u: "unpin_page pid dirty b = (True, b')"
  shows "bp_avail b' = bp_avail b + (if pins b pid = 1 then 1 else 0)"
proof -
  have s: "bp_struct b" by (rule bp_inv_struct[OF i])
  have li: "lru_inv (bp_replacer b)" using s by (simp add: bp_struct_def)
  obtain f where t: "map_of (bp_table b) pid = Some f" "0 < pg_pin (bp_frame b f)"
    using u by (auto simp: unpin_page_def split: option.splits if_splits)
  have nf: "f \<notin> set (lru_frames (bp_replacer b))" using s t by (simp add: bp_struct_def)
  have sub: "insert f (set (lru_frames (bp_replacer b))) \<subseteq> {..<bp_pool_size b}"
    using s bp_struct_table(1)[OF s] t(1) by (auto simp: bp_struct_def ran_def)
  have "card (insert f (set (lru_frames (bp_replacer b)))) \<le> bp_pool_size b"
    using card_mono[OF _ sub] by simp
  then have "length (lru_frames (bp_replacer b)) < max_size (bp_replacer b)"
    using nf lru.distinct_frames[OF li] s by (simp add: distinct_card bp_struct_def)
  then have up: "lru_frames (lru_unpin f (bp_replacer b)) = lru_frames (bp_replacer b) @ [f]"
    using lru.frames_unpin[OF li, of f] nf by simp
  show ?thesis
    using u t up bp_struct_table(5)[OF s t(1)]
    by (auto simp: unpin_page_def Let_def bp_avail_def pins_def set_page_nth split: if_splits)
qed

section \<open>Reading nodes\<close>

abbreviation ix_pid :: "IxState \<Rightarrow> page_id_t \<Rightarrow> PageId" where
  "ix_pid s p \<equiv> \<lparr>pid_fd = ih_fd s, pid_page_no = p\<rparr>"

definition ix_ready :: "IxState \<Rightarrow> bool" where
  "ix_ready s \<longleftrightarrow> bp_inv (ih_bpm s) \<and> bp_roomy (ih_bpm s)"

text \<open>The nodes of the index: its pages as the pool shows them.\<close>

definition ix_view :: "IxState \<Rightarrow> page_id_t \<Rightarrow> IxNode option" where
  "ix_view s p = (if page_ok (bp_disk (ih_bpm s)) (ix_pid s p)
     then map_option (dec_IxNode (ih_hdr s)) (page_view (ih_bpm s) (ix_pid s p)) else None)"

text \<open>\<open>s'\<close> shows all nodes that \<open>s\<close> shows, with the same pins and open files.\<close>

definition ix_same :: "IxState \<Rightarrow> IxState \<Rightarrow> bool" where
  "ix_same s s' \<longleftrightarrow> ix_ready s' \<and> ih_hdr s' = ih_hdr s \<and> ih_fd s' = ih_fd s \<and> pins (ih_bpm s') = pins (ih_bpm s) \<and>
     bp_avail (ih_bpm s) \<le> bp_avail (ih_bpm s') \<and> (\<forall>p n. ix_view s p = Some n \<longrightarrow> ix_view s' p = Some n) \<and>
     disk_le (bp_disk (ih_bpm s)) (bp_disk (ih_bpm s'))"

lemma ix_same_refl: "ix_ready s \<Longrightarrow> ix_same s s"
  by (simp add: ix_same_def)

lemma ix_same_trans: "ix_same s s' \<Longrightarrow> ix_same s' s'' \<Longrightarrow> ix_same s s''"
  by (auto simp: ix_same_def intro: disk_le_trans)

text \<open>Frame \<open>f\<close> holds page \<open>p\<close>, pinned.\<close>

definition ix_held :: "IxState \<Rightarrow> page_id_t \<Rightarrow> frame_id_t \<Rightarrow> bool" where
  "ix_held s p f \<longleftrightarrow> bp_held (ih_bpm s) (ix_pid s p) f"

text \<open>Frame \<open>f\<close> of \<open>s'\<close> holds the node of page \<open>p\<close>; releasing it leads back to the nodes and pins of \<open>s\<close>.\<close>

definition ix_at :: "IxState \<Rightarrow> page_id_t \<Rightarrow> IxNode \<Rightarrow> frame_id_t \<Rightarrow> IxState \<Rightarrow> bool" where
  "ix_at s p n f s' \<longleftrightarrow> ih_hdr s' = ih_hdr s \<and> ih_fd s' = ih_fd s \<and> ix_node s' f = n \<and> ix_page_no s' f = p \<and>
     (\<exists>s''. ix_unpin f False s' = (Inr True, s'') \<and> ix_same s s'' \<and> ix_node s'' f = n) \<and>
     bp_inv (ih_bpm s') \<and> ix_held s' p f \<and> (\<forall>q m. ix_view s q = Some m \<longrightarrow> ix_view s' q = Some m) \<and>
     pins (ih_bpm s') = (pins (ih_bpm s))(ix_pid s p := pins (ih_bpm s) (ix_pid s p) + 1) \<and>
     bp_avail (ih_bpm s) \<le> bp_avail (ih_bpm s') + (if pins (ih_bpm s) (ix_pid s p) = 0 then 1 else 0) \<and>
     disk_le (bp_disk (ih_bpm s)) (bp_disk (ih_bpm s'))"

text \<open>Fetching a node that can be read.\<close>

lemma fetch_node_step:
  assumes "ix_ready s" and "ix_view s p = Some n"
  obtains f s' where "fetch_node p s = (Inr f, s')" "ih_hdr s' = ih_hdr s" "ih_fd s' = ih_fd s" "ix_node s' f = n"
    "ix_page_no s' f = p" "ix_held s' p f" "bp_inv (ih_bpm s')"
    "pins (ih_bpm s') = (pins (ih_bpm s))(ix_pid s p := pins (ih_bpm s) (ix_pid s p) + 1)"
    "bp_avail (ih_bpm s) \<le> Suc (bp_avail (ih_bpm s'))"
    "0 < pins (ih_bpm s) (ix_pid s p) \<Longrightarrow> bp_avail (ih_bpm s') = bp_avail (ih_bpm s)"
    "\<forall>q m. ix_view s q = Some m \<longrightarrow> ix_view s' q = Some m" "\<forall>q g. ix_held s q g \<longrightarrow> ix_held s' q g"
    "0 < pins (ih_bpm s) (ix_pid s p) \<or> frame_clean_ok (ih_bpm s') (ix_pid s p) f"
    "disk_le (bp_disk (ih_bpm s)) (bp_disk (ih_bpm s'))"
proof -
  let ?b = "ih_bpm s" and ?pid = "ix_pid s p"
  obtain data where d: "page_view ?b ?pid = Some data" "n = dec_IxNode (ih_hdr s) data" and ok: "page_ok (bp_disk ?b) ?pid"
    using assms(2) by (auto simp: ix_view_def split: if_splits)
  have i: "bp_inv ?b" "bp_roomy ?b" using assms(1) by (simp_all add: ix_ready_def)
  from i(1) ok show thesis
  proof (cases rule: fetch_page_cases)
    case (page f b')
    have k: "bp_inv b'" "view_le ?b b'" "disk_le (bp_disk ?b) (bp_disk b')" "stable ?b b'" using page(2) by (simp_all add: keeps_def)
    have pg: "pg_id (bp_frame b' f) = ?pid" using bp_struct_table(2)[OF bp_inv_struct[OF k(1)] page(3)] .
    have dt: "pg_data (bp_frame b' f) = data" using view_le_Some[OF k(2) d(1)] page(3) by (simp add: page_view_def)
    let ?s1 = "s\<lparr>ih_bpm := b'\<rparr>"
    have "fetch_node p s = (Inr f, ?s1)" using page(1) by (simp add: fetch_node_def ix_bp_def em_defs)
    moreover have "\<forall>q m. ix_view s q = Some m \<longrightarrow> ix_view ?s1 q = Some m"
      using view_le_Some[OF k(2)] page_ok_le[OF k(3)] by (auto simp: ix_view_def split: if_splits)
    moreover have "\<forall>q g. ix_held s q g \<longrightarrow> ix_held ?s1 q g"
      using k(4) by (auto simp: ix_held_def bp_held_def stable_def)
    ultimately show thesis
      using that[of f ?s1] page(3-6) k(1,3) dt pg d(2) fetch_avail[OF i(1) page(1)]
      by (auto simp: ix_node_def ix_page_no_def ix_held_def bp_held_def)
  next
    case full
    with i(2) show thesis by (simp add: bp_roomy_def)
  next
    case (bad b')
    with d(1) show thesis by simp
  qed
qed

text \<open>Releasing a page that is held; a page that was changed has to be released as dirty.\<close>

lemma ix_unpin_step:
  assumes "bp_inv (ih_bpm s)" and "ix_held s p f"
    and "dirty \<or> 1 < pins (ih_bpm s) (ix_pid s p) \<or> frame_clean_ok (ih_bpm s) (ix_pid s p) f"
  obtains s' where "ix_unpin f dirty s = (Inr True, s')" "ih_hdr s' = ih_hdr s" "ih_fd s' = ih_fd s" "bp_inv (ih_bpm s')"
    "pins (ih_bpm s') = (pins (ih_bpm s))(ix_pid s p := pins (ih_bpm s) (ix_pid s p) - 1)"
    "bp_avail (ih_bpm s') = bp_avail (ih_bpm s) + (if pins (ih_bpm s) (ix_pid s p) = 1 then 1 else 0)"
    "ix_view s' = ix_view s" "\<forall>q g. q \<noteq> p \<or> 1 < pins (ih_bpm s) (ix_pid s p) \<longrightarrow> ix_held s q g \<longrightarrow> ix_held s' q g"
    "\<forall>g. ix_node s' g = ix_node s g" "\<forall>g. ix_page_no s' g = ix_page_no s g" "bp_disk (ih_bpm s') = bp_disk (ih_bpm s)"
proof -
  let ?b = "ih_bpm s" and ?pid = "ix_pid s p"
  have t: "map_of (bp_table ?b) ?pid = Some f" "0 < pg_pin (bp_frame ?b f)" using assms(2) by (simp_all add: ix_held_def bp_held_def)
  note st = bp_struct_table[OF bp_inv_struct[OF assms(1)] t(1)]
  have pp: "pins ?b ?pid = pg_pin (bp_frame ?b f)" using t(1) by (simp add: pins_def)
  obtain b' where u: "unpin_page ?pid dirty ?b = (True, b')" "bp_inv b'" "page_view b' = page_view ?b"
      "pins b' = (pins ?b)(?pid := pins ?b ?pid - 1)" "bp_disk b' = bp_disk ?b" "bp_table b' = bp_table ?b"
      "\<And>f'. f' \<noteq> f \<Longrightarrow> bp_frame b' f' = bp_frame ?b f'"
      "bp_frame b' f = (bp_frame ?b f)\<lparr>pg_pin := pg_pin (bp_frame ?b f) - 1, pg_dirty := dirty \<or> pg_dirty (bp_frame ?b f)\<rparr>"
    using unpin_pinned[OF assms(1) t, of dirty] assms(3) pp by metis
  let ?s' = "s\<lparr>ih_bpm := b'\<rparr>"
  have fr: "pg_data (bp_frame b' g) = pg_data (bp_frame ?b g)" "pg_id (bp_frame b' g) = pg_id (bp_frame ?b g)" for g
    using u(7,8) by (cases "g = f"; simp)+
  have "ix_held ?s' q g" if "q \<noteq> p \<or> 1 < pins ?b ?pid" "ix_held s q g" for q g
  proof (cases "g = f")
    case True
    then have "ix_pid s q = ?pid" using that(2) bp_table_inj[OF bp_inv_struct[OF assms(1)] t(1)] by (auto simp: ix_held_def bp_held_def)
    then show ?thesis using that u(6,8) pp True by (simp add: ix_held_def bp_held_def)
  next
    case False
    then show ?thesis using that(2) u(6,7) by (simp add: ix_held_def bp_held_def)
  qed
  moreover have "ix_unpin f dirty s = (Inr True, ?s')" using u(1) st(2) by (simp add: ix_unpin_def ix_bp_def)
  moreover have "ix_view ?s' = ix_view s" using u(3,5) by (simp add: ix_view_def fun_eq_iff)
  ultimately show thesis
    using that[of ?s'] u unpin_avail[OF assms(1) u(1)] fr by (auto simp: ix_node_def ix_page_no_def)
qed

lemma fetch_node_at:
  assumes "ix_ready s" and "ix_view s p = Some n"
  shows "\<exists>f s'. fetch_node p s = (Inr f, s') \<and> ix_at s p n f s'"
proof -
  have av: "0 < bp_avail (ih_bpm s)" using assms(1) by (simp add: ix_ready_def bp_roomy_avail)
  have pn: "0 \<le> pins (ih_bpm s) (ix_pid s p)"
    using assms(1) bp_struct_table(3) by (auto simp: pins_def ix_ready_def dest!: bp_inv_struct split: option.split)
  show ?thesis
  proof (rule fetch_node_step[OF assms])
    fix f s1
    assume f: "fetch_node p s = (Inr f, s1)" "ih_hdr s1 = ih_hdr s" "ih_fd s1 = ih_fd s" "ix_node s1 f = n"
      "ix_page_no s1 f = p" "ix_held s1 p f" "bp_inv (ih_bpm s1)"
      and pi: "pins (ih_bpm s1) = (pins (ih_bpm s))(ix_pid s p := pins (ih_bpm s) (ix_pid s p) + 1)"
      and a: "bp_avail (ih_bpm s) \<le> Suc (bp_avail (ih_bpm s1))"
        "0 < pins (ih_bpm s) (ix_pid s p) \<Longrightarrow> bp_avail (ih_bpm s1) = bp_avail (ih_bpm s)"
      and v: "\<forall>q m. ix_view s q = Some m \<longrightarrow> ix_view s1 q = Some m"
      and cl: "0 < pins (ih_bpm s) (ix_pid s p) \<or> frame_clean_ok (ih_bpm s1) (ix_pid s p) f"
      and dl: "disk_le (bp_disk (ih_bpm s)) (bp_disk (ih_bpm s1))"
    have pid: "ix_pid s1 p = ix_pid s p" using f(3) by simp
    have c2: "False \<or> 1 < pins (ih_bpm s1) (ix_pid s1 p) \<or> frame_clean_ok (ih_bpm s1) (ix_pid s1 p) f"
      using cl pi by (auto simp: f(3))
    show ?thesis
    proof (rule ix_unpin_step[OF f(7,6) c2])
      fix s2
      assume u: "ix_unpin f False s1 = (Inr True, s2)" "ih_hdr s2 = ih_hdr s1" "ih_fd s2 = ih_fd s1" "bp_inv (ih_bpm s2)"
        "pins (ih_bpm s2) = (pins (ih_bpm s1))(ix_pid s1 p := pins (ih_bpm s1) (ix_pid s1 p) - 1)"
        "bp_avail (ih_bpm s2) = bp_avail (ih_bpm s1) + (if pins (ih_bpm s1) (ix_pid s1 p) = 1 then 1 else 0)"
        "ix_view s2 = ix_view s1" "\<forall>g. ix_node s2 g = ix_node s1 g" "bp_disk (ih_bpm s2) = bp_disk (ih_bpm s1)"
      have "bp_avail (ih_bpm s) \<le> bp_avail (ih_bpm s2)" using a u(6) pi pn by (auto simp: f(3) split: if_splits)
      then have "ix_same s s2" using u f(2,3) pi v av dl by (auto simp: ix_same_def ix_ready_def bp_roomy_avail)
      moreover have "bp_avail (ih_bpm s) \<le> bp_avail (ih_bpm s1) + (if pins (ih_bpm s) (ix_pid s p) = 0 then 1 else 0)"
        using a pn by (cases "pins (ih_bpm s) (ix_pid s p) = 0") auto
      ultimately show ?thesis using f(1-7) u(1,8) pi v dl unfolding ix_at_def by blast
    qed
  qed
qed

lemma ix_at_trans: "ix_same s s1 \<Longrightarrow> ix_at s1 p n f s2 \<Longrightarrow> ix_at s p n f s2"
  by (auto simp: ix_at_def ix_same_def intro: disk_le_trans)

text \<open>Read the node of a page: fetch, use, release.\<close>

lemma ix_at_unpin:
  assumes "ix_at s p n f s1"
  obtains s2 where "ix_unpin f False s1 = (Inr True, s2)" "ix_same s s2" "ix_node s2 f = n"
  using assms by (auto simp: ix_at_def)

lemma ix_atD: "ix_at s p n f s1 \<Longrightarrow> ih_hdr s1 = ih_hdr s \<and> ih_fd s1 = ih_fd s \<and> ix_node s1 f = n \<and> ix_page_no s1 f = p"
  by (simp add: ix_at_def)

section \<open>Trees\<close>

datatype bt = Lf page_id_t "(byte list \<times> Rid) list" | Br page_id_t "(byte list \<times> bt) list"

fun bt_page :: "bt \<Rightarrow> page_id_t" where
  "bt_page (Lf p kvs) = p"
| "bt_page (Br p cs) = p"

fun bt_kvs :: "bt \<Rightarrow> (byte list \<times> Rid) list" where
  "bt_kvs (Lf p kvs) = kvs"
| "bt_kvs (Br p cs) = concat (map (\<lambda>c. bt_kvs (snd c)) cs)"

fun bt_height :: "bt \<Rightarrow> nat" where
  "bt_height (Lf p kvs) = 0"
| "bt_height (Br p cs) = Suc (Max (set (map (\<lambda>c. bt_height (snd c)) cs)))"

text \<open>The nodes \<open>N\<close> hold the tree.\<close>

fun bt_rep :: "(page_id_t \<Rightarrow> IxNode option) \<Rightarrow> bt \<Rightarrow> bool" where
  "bt_rep N (Lf p kvs) \<longleftrightarrow> (case N p of None \<Rightarrow> False | Some n \<Rightarrow> nd_is_leaf n \<and> nd_kvs n = kvs)"
| "bt_rep N (Br p cs) \<longleftrightarrow>
     (case N p of None \<Rightarrow> False
      | Some n \<Rightarrow> \<not> nd_is_leaf n \<and> map (\<lambda>kv. (fst kv, rid_page_no (snd kv))) (nd_kvs n) = map (\<lambda>c. (fst c, bt_page (snd c))) cs) \<and>
     list_all (\<lambda>c. bt_rep N (snd c)) cs"

text \<open>The keys of an inner node separate its subtrees; the first key is not used for that.\<close>

definition bt_sep :: "IxFileHdr \<Rightarrow> (byte list \<times> bt) list \<Rightarrow> bool" where
  "bt_sep h cs \<longleftrightarrow> cs \<noteq> [] \<and> ixk.asc h cs \<and>
     (\<forall>i < length cs. \<forall>kv \<in> set (bt_kvs (snd (cs ! i))).
        (0 < i \<longrightarrow> key_cmp h (fst (cs ! i)) (fst kv) \<le> 0) \<and>
        (Suc i < length cs \<longrightarrow> key_cmp h (fst kv) (fst (cs ! Suc i)) < 0))"

fun bt_ord :: "IxFileHdr \<Rightarrow> bt \<Rightarrow> bool" where
  "bt_ord h (Lf p kvs) \<longleftrightarrow> ixk.asc h kvs"
| "bt_ord h (Br p cs) \<longleftrightarrow> bt_sep h cs \<and> list_all (\<lambda>c. bt_ord h (snd c)) cs"

lemma bt_rep_mono: "(\<And>p n. N p = Some n \<Longrightarrow> N' p = Some n) \<Longrightarrow> bt_rep N t \<Longrightarrow> bt_rep N' t"
  by (induction t) (auto simp: list_all_iff split: option.splits)

lemma bt_rep_same: "ix_same s s' \<Longrightarrow> bt_rep (ix_view s) t \<Longrightarrow> bt_rep (ix_view s') t"
  by (rule bt_rep_mono[of "ix_view s"]) (simp_all add: ix_same_def)


definition child_idx :: "IxFileHdr \<Rightarrow> byte list \<Rightarrow> (byte list \<times> 'a) list \<Rightarrow> nat" where
  "child_idx h key cs = length (takeWhile (\<lambda>c. key_cmp h (fst c) key \<le> 0) cs) - 1"

lemma length_takeWhile_split:
  assumes "p \<le> length xs" and "\<forall>i < p. P (xs ! i)" and "p < length xs \<longrightarrow> \<not> P (xs ! p)"
  shows "length (takeWhile P xs) = p"
proof (cases "p < length xs")
  case True
  have "takeWhile P xs = take p xs" using assms True by (intro takeWhile_eq_take_P_nth) auto
  then show ?thesis using assms(1) by simp
next
  case False
  have "\<forall>x \<in> set xs. P x" using False assms by (auto simp: in_set_conv_nth)
  then have "takeWhile P xs = xs" by (subst takeWhile_eq_all_conv)
  then have "length (takeWhile P xs) = length xs" by (rule arg_cong)
  then show ?thesis using False assms(1) by simp
qed

lemma child_idx_bounds:
  assumes "bt_sep h cs" and "hkey h key"
  defines "i \<equiv> child_idx h key cs"
  shows "i < length cs" and "0 < i \<Longrightarrow> key_cmp h (fst (cs ! i)) key \<le> 0"
    and "j < length cs \<Longrightarrow> i < j \<Longrightarrow> 0 < key_cmp h (fst (cs ! j)) key"
proof -
  let ?P = "\<lambda>c. key_cmp h (fst c) key \<le> 0"
  let ?m = "length (takeWhile ?P cs)"
  have m: "?m \<le> length cs" by (rule length_takeWhile_le)
  have ne: "cs \<noteq> []" and a: "ixk.asc h cs" using assms(1) by (simp_all add: bt_sep_def)
  have "0 < length cs" using ne by simp
  then show il: "i < length cs" using m unfolding i_def child_idx_def by linarith
  show "key_cmp h (fst (cs ! i)) key \<le> 0" if "0 < i"
  proof -
    have "i < ?m" using that by (simp add: i_def child_idx_def)
    then show ?thesis using nth_mem[of i "takeWhile ?P cs"] takeWhile_nth[of i ?P cs] set_takeWhileD[of "takeWhile ?P cs ! i" ?P cs]
      by simp
  qed
  show "0 < key_cmp h (fst (cs ! j)) key" if j: "j < length cs" "i < j"
  proof -
    have mj: "?m \<le> j" using j(2) by (simp add: i_def child_idx_def)
    then have ml: "?m < length cs" using j(1) by simp
    have pm: "0 < key_cmp h (fst (cs ! ?m)) key" using nth_length_takeWhile[OF ml] by simp
    show ?thesis
    proof (cases "j = ?m")
      case False
      then have l: "key_cmp h (fst (cs ! ?m)) (fst (cs ! j)) < 0" "hkey h (fst (cs ! ?m))" "hkey h (fst (cs ! j))"
        using asc_less[OF a, of ?m j] mj j(1) by auto
      show ?thesis
      proof (rule ccontr)
        assume "\<not> ?thesis"
        then have "key_cmp h (fst (cs ! ?m)) key < 0"
          using ixk.lt_le_trans[OF l(2,3) assms(2) l(1)] by simp
        with pm show False by simp
      qed
    qed (use pm in simp)
  qed
qed

lemma asc_nth: "ixk.asc h kvs \<longleftrightarrow> (\<forall>i < length kvs. hkey h (fst (kvs ! i))) \<and>
  (\<forall>i j. i < j \<longrightarrow> j < length kvs \<longrightarrow> key_cmp h (fst (kvs ! i)) (fst (kvs ! j)) < 0)"
  by (simp add: ixk.asc_def sorted_wrt_iff_nth_less all_set_conv_all_nth)

lemma internal_lookup_child:
  assumes "bt_sep h cs" and "hkey h key"
    and "map (\<lambda>kv. (fst kv, rid_page_no (snd kv))) (nd_kvs n) = map (\<lambda>c. (fst c, bt_page (snd c))) cs"
  shows "internal_lookup h n key = Inr (bt_page (snd (cs ! child_idx h key cs)))"
proof -
  have len: "length (nd_kvs n) = length cs" using arg_cong[OF assms(3), of length] by simp
  have nth: "fst (nd_kvs n ! i) = fst (cs ! i)" "rid_page_no (snd (nd_kvs n ! i)) = bt_page (snd (cs ! i))" if "i < length cs" for i
    using arg_cong[OF assms(3), of "\<lambda>xs. xs ! i"] that len by simp_all
  have "ixk.asc h cs" using assms(1) by (simp add: bt_sep_def)
  then have a: "ixk.asc h (nd_kvs n)"
    using len nth(1) by (simp add: asc_nth)
  let ?p = "nd_upper_bound h n key"
  have p: "?p \<le> length cs" "\<forall>i < ?p. key_cmp h (fst (cs ! i)) key \<le> 0" "\<forall>i. ?p \<le> i \<and> i < length cs \<longrightarrow> 0 < key_cmp h (fst (cs ! i)) key"
    using upper_bound_splits[OF a assms(2)] nth(1) len by (auto simp: get_size_def)
  have "length (takeWhile (\<lambda>c. key_cmp h (fst c) key \<le> 0) cs) = ?p"
    using p by (intro length_takeWhile_split) (auto simp: not_le)
  then have "?p - 1 = child_idx h key cs" by (simp add: child_idx_def)
  then show ?thesis
    using child_idx_bounds(1)[OF assms(1,2)] nth(2) len
    by (simp add: internal_lookup_def value_at_def get_rid_def get_kv_def get_size_def)
qed

lemma bt_ord_keys: "bt_ord h t \<Longrightarrow> kv \<in> set (bt_kvs t) \<Longrightarrow> hkey h (fst kv)"
  by (induction t) (auto simp: ixk.asc_def list_all_iff)

lemma kv_find_concat:
  assumes "i < length xss" and "\<And>j kv. j < length xss \<Longrightarrow> j \<noteq> i \<Longrightarrow> kv \<in> set (xss ! j) \<Longrightarrow> key_cmp h (fst kv) k \<noteq> 0"
  shows "ixk.kv_find h (concat xss) k = ixk.kv_find h (xss ! i) k"
proof -
  have x: "concat xss = concat (take i xss) @ xss ! i @ concat (drop (Suc i) xss)"
    using arg_cong[OF id_take_nth_drop[OF assms(1)], of concat] by simp
  have "key_cmp h (fst kv) k \<noteq> 0" if "xs \<in> set (take i xss) \<or> xs \<in> set (drop (Suc i) xss)" "kv \<in> set xs" for xs kv
  proof -
    have "\<exists>j < length xss. j \<noteq> i \<and> xs = xss ! j"
      using that(1)
    proof
      assume "xs \<in> set (take i xss)"
      then obtain j where "j < i" "xs = xss ! j" by (auto simp: in_set_conv_nth)
      then show ?thesis using assms(1) by (intro exI[of _ j]) auto
    next
      assume "xs \<in> set (drop (Suc i) xss)"
      then obtain j where "j < length xss - Suc i" "xs = xss ! (Suc i + j)" by (auto simp: in_set_conv_nth)
      then show ?thesis by (intro exI[of _ "Suc i + j"]) auto
    qed
    then show ?thesis using assms(2) that(2) by blast
  qed
  then have "ixk.kv_find h (concat (take i xss)) k = None" "ixk.kv_find h (concat (drop (Suc i) xss)) k = None"
    unfolding ixk.kv_find_None by auto
  then show ?thesis by (simp add: x ixk.kv_find_append split: option.split)
qed

lemma bt_find_child:
  assumes "bt_ord h (Br p cs)" and "hkey h key"
  shows "ixk.kv_find h (bt_kvs (Br p cs)) key = ixk.kv_find h (bt_kvs (snd (cs ! child_idx h key cs))) key"
proof -
  let ?i = "child_idx h key cs"
  have sep: "bt_sep h cs" using assms(1) by simp
  note ib = child_idx_bounds[OF sep assms(2)]
  have a: "ixk.asc h cs" using sep by (simp add: bt_sep_def)
  have ks: "hkey h (fst (cs ! j))" if "j < length cs" for j using a that by (simp add: ixk.asc_def)
  have kk: "hkey h (fst kv)" if "j < length cs" "kv \<in> set (bt_kvs (snd (cs ! j)))" for j kv
    using assms(1) that bt_ord_keys[of h "snd (cs ! j)"] by (simp add: list_all_length)
  have "key_cmp h (fst kv) key \<noteq> 0" if j: "j < length cs" "j \<noteq> ?i" "kv \<in> set (bt_kvs (snd (cs ! j)))" for j kv
  proof (cases "j < ?i")
    case True
    have kj: "key_cmp h (fst kv) (fst (cs ! Suc j)) < 0"
      using sep j True ib(1) by (simp add: bt_sep_def)
    have "key_cmp h (fst (cs ! Suc j)) (fst (cs ! ?i)) \<le> 0"
      using asc_less[OF a, of "Suc j" ?i] True ib(1) ks[of ?i] by (cases "Suc j = ?i") (auto simp: ixk.cmp_refl)
    then have "key_cmp h (fst (cs ! Suc j)) key \<le> 0"
      using ixk.cmp_trans[of h "fst (cs ! Suc j)" "fst (cs ! ?i)" key] ib True ks assms(2) by simp
    then show ?thesis using ixk.lt_le_trans[of h "fst kv" "fst (cs ! Suc j)" key] kj kk[OF j(1,3)] ks[of "Suc j"] True ib(1) assms(2)
      by simp
  next
    case False
    then have gt: "0 < key_cmp h (fst (cs ! j)) key" using ib(3) j by simp
    have "key_cmp h (fst (cs ! j)) (fst kv) \<le> 0" using sep j False by (simp add: bt_sep_def)
    then show ?thesis
      using ixk.cmp_trans[of h "fst (cs ! j)" "fst kv" key] gt ks[OF j(1)] kk[OF j(1,3)] assms(2) by force
  qed
  then show ?thesis using kv_find_concat[of ?i "map (\<lambda>c. bt_kvs (snd c)) cs" h key] ib(1) by simp
qed


section \<open>Searching the tree\<close>

lemma bt_child_size: "i < length cs \<Longrightarrow> size (snd (cs ! i)) \<le> size_list (size_prod (\<lambda>x. 0) size) cs"
proof -
  assume "i < length cs"
  then have "cs ! i \<in> set cs" by simp
  moreover have "size (snd (cs ! i)) \<le> size_prod (\<lambda>x. 0) size (cs ! i)" by (cases "cs ! i") simp
  ultimately show ?thesis by (rule size_list_estimation')
qed

text \<open>The leaf that a search for a key ends in.\<close>

function bt_leaf :: "IxFileHdr \<Rightarrow> byte list \<Rightarrow> bt \<Rightarrow> page_id_t \<times> (byte list \<times> Rid) list" where
  "bt_leaf h key (Lf p kvs) = (p, kvs)"
| "bt_leaf h key (Br p cs) =
     (if child_idx h key cs < length cs then bt_leaf h key (snd (cs ! child_idx h key cs)) else (p, []))"
  by pat_completeness auto
termination
  by (relation "measure (\<lambda>(h, key, t). size t)") (auto simp: less_Suc_eq_le intro: bt_child_size)

lemma bt_leaf_find:
  "bt_ord h t \<Longrightarrow> hkey h key \<Longrightarrow> ixk.kv_find h (snd (bt_leaf h key t)) key = ixk.kv_find h (bt_kvs t) key \<and>
    ixk.asc h (snd (bt_leaf h key t))"
proof (induction h key t rule: bt_leaf.induct)
  case (2 h key p cs)
  have i: "child_idx h key cs < length cs" using child_idx_bounds(1)[of h cs key] 2(2,3) by simp
  have "bt_ord h (snd (cs ! child_idx h key cs))" using 2(2) i by (simp add: list_all_length)
  then show ?case using 2(1)[OF i] 2(2,3) bt_find_child[OF 2(2,3)] i by simp
qed simp

lemma bt_height_child: "c \<in> set cs \<Longrightarrow> bt_height (snd c) < bt_height (Br p cs)"
  by (auto simp: less_Suc_eq_le)

lemma bt_rep_page: "bt_rep N t \<Longrightarrow> \<exists>n. N (bt_page t) = Some n"
  by (cases t) (auto split: option.splits)

lemma descend_leaf:
  assumes "bt_rep (ix_view s) t" and "bt_ord (ih_hdr s) t" and "hkey (ih_hdr s) key" and "bt_height t < fuel"
    and "ix_at s (bt_page t) (the (ix_view s (bt_page t))) f s1"
  shows "\<exists>f' s' n. descend fuel key False f s1 = (Inr f', s') \<and> ix_view s (fst (bt_leaf (ih_hdr s) key t)) = Some n \<and>
    ix_at s (fst (bt_leaf (ih_hdr s) key t)) n f' s' \<and> nd_is_leaf n \<and> nd_kvs n = snd (bt_leaf (ih_hdr s) key t)"
  using assms
proof (induction "ih_hdr s" key t arbitrary: fuel f s1 rule: bt_leaf.induct)
  case (1 key p kvs)
  obtain k where k: "fuel = Suc k" using 1(4) by (cases fuel) auto
  obtain n where n: "ix_view s p = Some n" "nd_is_leaf n" "nd_kvs n = kvs" using 1(1) by (auto split: option.splits)
  then show ?case using ix_atD[OF 1(5)] 1(5) by (auto simp: k em_defs)
next
  case (2 key p cs)
  obtain k where k: "fuel = Suc k" using 2(5) by (cases fuel) auto
  obtain n where n: "ix_view s p = Some n" "\<not> nd_is_leaf n"
      "map (\<lambda>kv. (fst kv, rid_page_no (snd kv))) (nd_kvs n) = map (\<lambda>c. (fst c, bt_page (snd c))) cs"
    using 2(2) by (auto split: option.splits)
  have sep: "bt_sep (ih_hdr s) cs" using 2(3) by simp
  define c where "c = snd (cs ! child_idx (ih_hdr s) key cs)"
  have i: "child_idx (ih_hdr s) key cs < length cs" by (rule child_idx_bounds(1)[OF sep 2(4)])
  have c: "bt_rep (ix_view s) c" "bt_ord (ih_hdr s) c" "bt_height c < k"
    using 2(2,3,5) i k bt_height_child[OF nth_mem[OF i], of p] by (auto simp: c_def list_all_length)
  have at: "ix_node s1 f = n" "ih_hdr s1 = ih_hdr s" using ix_atD[OF 2(6)] n(1) by simp_all
  obtain s2 where s2: "ix_unpin f False s1 = (Inr True, s2)" "ix_same s s2" using ix_at_unpin[OF 2(6)] by blast
  obtain m where m: "ix_view s (bt_page c) = Some m" using bt_rep_page[OF c(1)] by blast
  then have m2: "ix_view s2 (bt_page c) = Some m" using s2(2) by (simp add: ix_same_def)
  obtain f3 s3 where f3: "fetch_node (bt_page c) s2 = (Inr f3, s3)" "ix_at s2 (bt_page c) m f3 s3"
    using fetch_node_at[OF _ m2] s2(2) by (auto simp: ix_same_def)
  have at3: "ix_at s (bt_page c) (the (ix_view s (bt_page c))) f3 s3" using ix_at_trans[OF s2(2) f3(2)] m by simp
  have st: "descend fuel key False f s1 = descend k key False f3 s3"
    using internal_lookup_child[OF sep 2(4) n(3)] s2(1) f3(1) n(2)
    by (simp add: k at c_def[symmetric] em_defs ix_res_def)
  show ?case
    using 2(1)[OF i, folded c_def, OF c(1,2) 2(4) c(3) at3] i by (simp add: st c_def)
qed

definition ix_tree :: "IxState \<Rightarrow> bt \<Rightarrow> bool" where
  "ix_tree s t \<longleftrightarrow> ix_ready s \<and> bt_rep (ix_view s) t \<and> bt_ord (ih_hdr s) t \<and> root_page (ih_hdr s) = bt_page t \<and> bt_page t \<noteq> IX_NO_PAGE"

lemma find_leaf_page_at:
  assumes "ix_tree s t" and "hkey (ih_hdr s) key" and "bt_height t < fuel"
  shows "\<exists>f s' n. find_leaf_page fuel key False s = (Inr (Some f), s') \<and> ix_view s (fst (bt_leaf (ih_hdr s) key t)) = Some n \<and>
    ix_at s (fst (bt_leaf (ih_hdr s) key t)) n f s' \<and> nd_is_leaf n \<and> nd_kvs n = snd (bt_leaf (ih_hdr s) key t)"
proof -
  have t: "ix_ready s" "bt_rep (ix_view s) t" "bt_ord (ih_hdr s) t" "root_page (ih_hdr s) = bt_page t" "bt_page t \<noteq> IX_NO_PAGE"
    using assms(1) by (simp_all add: ix_tree_def)
  obtain m where m: "ix_view s (bt_page t) = Some m" using bt_rep_page[OF t(2)] by blast
  obtain f s1 where f: "fetch_node (bt_page t) s = (Inr f, s1)" "ix_at s (bt_page t) m f s1"
    using fetch_node_at[OF t(1) m] by blast
  have "ix_at s (bt_page t) (the (ix_view s (bt_page t))) f s1" using f(2) m by simp
  from descend_leaf[OF t(2,3) assms(2,3) this] show ?thesis
    using f(1) t(4,5) by (auto simp: find_leaf_page_def is_empty_def em_defs)
qed

lemma get_value_tree:
  assumes "ix_tree s t" and "hkey (ih_hdr s) key" and "bt_height t < fuel"
  shows "\<exists>s'. get_value fuel key result s =
      (Inr (case ixk.kv_find (ih_hdr s) (bt_kvs t) key of None \<Rightarrow> (False, result) | Some r \<Rightarrow> (True, result @ [r])), s') \<and>
    ix_same s s'"
proof -
  obtain f s1 n where f: "find_leaf_page fuel key False s = (Inr (Some f), s1)" and
      at: "ix_at s (fst (bt_leaf (ih_hdr s) key t)) n f s1" and n: "nd_is_leaf n" "nd_kvs n = snd (bt_leaf (ih_hdr s) key t)"
    using find_leaf_page_at[OF assms] by blast
  have o: "bt_ord (ih_hdr s) t" using assms(1) by (simp add: ix_tree_def)
  have lk: "leaf_lookup (ih_hdr s) n key = ixk.kv_find (ih_hdr s) (bt_kvs t) key"
    using leaf_lookup_map[of "ih_hdr s" n key] bt_leaf_find[OF o assms(2)] n(2) assms(2) by (simp add: node_asc node_find)
  obtain s2 where s2: "ix_unpin f False s1 = (Inr True, s2)" "ix_same s s2" using ix_at_unpin[OF at] by blast
  show ?thesis
    using f ix_atD[OF at] s2 by (simp add: get_value_def em_defs ix_res_def lk)
qed


section \<open>Positions in the leaf list\<close>

fun bt_leaves :: "bt \<Rightarrow> (page_id_t \<times> (byte list \<times> Rid) list) list" where
  "bt_leaves (Lf p kvs) = [(p, kvs)]"
| "bt_leaves (Br p cs) = concat (map (\<lambda>c. bt_leaves (snd c)) cs)"

lemma concat_concat_map: "concat (concat (map f xs)) = concat (map (\<lambda>x. concat (f x)) xs)"
  by (induction xs) simp_all

lemma bt_kvs_leaves: "bt_kvs t = concat (map snd (bt_leaves t))"
proof (induction t)
  case (Br p cs)
  then have "map (\<lambda>c. bt_kvs (snd c)) cs = map (\<lambda>c. concat (map snd (bt_leaves (snd c)))) cs" by (auto simp: snds.simps)
  then show ?case by (simp only: bt_kvs.simps bt_leaves.simps map_concat concat_concat_map map_map comp_def)
qed simp

text \<open>The leaves are linked in the order of the tree, and only a tree of one leaf has an empty one.\<close>

definition ix_leaves :: "IxState \<Rightarrow> (page_id_t \<times> (byte list \<times> Rid) list) list \<Rightarrow> bool" where
  "ix_leaves s L \<longleftrightarrow> L \<noteq> [] \<and> distinct (map fst L) \<and> last_leaf (ih_hdr s) = fst (last L) \<and> first_leaf (ih_hdr s) = fst (hd L) \<and>
     (1 < length L \<longrightarrow> (\<forall>l \<in> set L. snd l \<noteq> [])) \<and>
     (\<forall>i < length L. \<exists>n. ix_view s (fst (L ! i)) = Some n \<and> nd_is_leaf n \<and> nd_kvs n = snd (L ! i) \<and>
        (Suc i < length L \<longrightarrow> nd_next_leaf n = fst (L ! Suc i)))"

lemma ix_leaves_same: "ix_same s s' \<Longrightarrow> ix_leaves s L \<Longrightarrow> ix_leaves s' L"
  by (fastforce simp: ix_leaves_def ix_same_def)

lemma ix_leaves_nth:
  assumes "ix_leaves s L" and "i < length L"
  obtains n where "ix_view s (fst (L ! i)) = Some n" "nd_is_leaf n" "nd_kvs n = snd (L ! i)"
    "Suc i < length L \<Longrightarrow> nd_next_leaf n = fst (L ! Suc i)"
  using assms by (auto simp: ix_leaves_def)

lemma ix_leaves_last: "ix_leaves s L \<Longrightarrow> i < length L \<Longrightarrow> fst (L ! i) = last_leaf (ih_hdr s) \<longleftrightarrow> Suc i = length L"
proof -
  assume a: "ix_leaves s L" "i < length L"
  have "L ! (length L - 1) = last L" using a by (simp add: ix_leaves_def last_conv_nth)
  then have "fst (L ! i) = last_leaf (ih_hdr s) \<longleftrightarrow> map fst L ! i = map fst L ! (length L - 1)"
    using a by (auto simp: ix_leaves_def)
  also have "\<dots> \<longleftrightarrow> i = length L - 1" using a by (intro nth_eq_iff_index_eq) (auto simp: ix_leaves_def)
  finally show ?thesis using a(2) by auto
qed

definition ix_pos :: "('p \<times> 'e list) list \<Rightarrow> nat \<Rightarrow> nat \<Rightarrow> nat" where
  "ix_pos L i j = length (concat (map snd (take i L))) + j"

definition iid_at :: "(page_id_t \<times> 'e list) list \<Rightarrow> Iid \<Rightarrow> nat \<Rightarrow> bool" where
  "iid_at L iid P \<longleftrightarrow> (\<exists>i < length L. \<exists>j. iid = \<lparr>iid_page_no = fst (L ! i), iid_slot_no = int j\<rparr> \<and> P = ix_pos L i j \<and>
     (j < length (snd (L ! i)) \<or> Suc i = length L \<and> j = length (snd (L ! i))))"

lemma iid_atI:
  "i < length L \<Longrightarrow> j < length (snd (L ! i)) \<or> Suc i = length L \<and> j = length (snd (L ! i)) \<Longrightarrow>
   iid_at L \<lparr>iid_page_no = fst (L ! i), iid_slot_no = int j\<rparr> (ix_pos L i j)"
  by (auto simp: iid_at_def)

lemma ix_pos_Suc: "i < length L \<Longrightarrow> ix_pos L (Suc i) 0 = ix_pos L i (length (snd (L ! i)))"
  by (simp add: ix_pos_def take_Suc_conv_app_nth)

lemma ix_pos_mono: "i \<le> i' \<Longrightarrow> ix_pos L i 0 \<le> ix_pos L i' 0"
proof -
  assume "i \<le> i'"
  then have "take i' L = take i L @ take (i' - i) (drop i L)" by (metis le_add_diff_inverse take_add)
  then show ?thesis by (simp add: ix_pos_def)
qed

lemma ix_pos_less: "i < i' \<Longrightarrow> i < length L \<Longrightarrow> j < length (snd (L ! i)) \<Longrightarrow> ix_pos L i j < ix_pos L i' j'"
  using ix_pos_mono[of "Suc i" i' L] ix_pos_Suc[of i L] by (simp add: ix_pos_def)

lemma iid_at_inj:
  assumes "distinct (map fst L)" and "iid_at L a P" and "iid_at L b Q"
  shows "a = b \<longleftrightarrow> P = Q"
proof -
  obtain i j where i: "i < length L" "a = \<lparr>iid_page_no = fst (L ! i), iid_slot_no = int j\<rparr>" "P = ix_pos L i j"
      "j < length (snd (L ! i)) \<or> Suc i = length L \<and> j = length (snd (L ! i))"
    using assms(2) by (auto simp: iid_at_def)
  obtain i' j' where i': "i' < length L" "b = \<lparr>iid_page_no = fst (L ! i'), iid_slot_no = int j'\<rparr>" "Q = ix_pos L i' j'"
      "j' < length (snd (L ! i')) \<or> Suc i' = length L \<and> j' = length (snd (L ! i'))"
    using assms(3) by (auto simp: iid_at_def)
  have pg: "fst (L ! i) = fst (L ! i') \<longleftrightarrow> i = i'"
    using nth_eq_iff_index_eq[OF assms(1), of i i'] i(1) i'(1) by simp
  have "P \<noteq> Q" if "i < i'" using ix_pos_less[OF that i(1), of j j'] that i(3,4) i'(1,3) by auto
  moreover have "P \<noteq> Q" if "i' < i" using ix_pos_less[OF that i'(1), of j' j] that i(1,3) i'(3,4) by auto
  ultimately have "P = Q \<longrightarrow> i = i'" by (metis linorder_neqE_nat)
  then show ?thesis using i i' pg by (auto simp: ix_pos_def)
qed

text \<open>The leaf of a search separates the entries before and behind the key.\<close>

lemma bt_leaves_ne: "bt_ord h t \<Longrightarrow> bt_leaves t \<noteq> []"
proof (induction t)
  case (Br p cs)
  then have "cs \<noteq> []" "\<forall>c \<in> set cs. bt_leaves (snd c) \<noteq> []" by (auto simp: bt_sep_def list_all_iff)
  then show ?case by (cases cs) auto
qed simp

lemma bt_leaves_asc: "bt_ord h t \<Longrightarrow> l \<in> set (bt_leaves t) \<Longrightarrow> ixk.asc h (snd l)"
proof (induction t)
  case (Br p cs)
  obtain c where c: "c \<in> set cs" "l \<in> set (bt_leaves (snd c))" using Br(3) unfolding bt_leaves.simps set_concat set_map by blast
  moreover have "bt_ord h (snd c)" using Br(2) c(1) by (simp add: list_all_iff)
  moreover have "snd c \<in> Basic_BNFs.snds c" by (simp add: snds.simps)
  ultimately show ?case using Br(1)[of c "snd c"] by blast
qed simp

lemma bt_leaf_split:
  "bt_ord h t \<Longrightarrow> hkey h key \<Longrightarrow>
   \<exists>A B. bt_leaves t = A @ bt_leaf h key t # B \<and> (\<forall>l \<in> set A. \<forall>kv \<in> set (snd l). key_cmp h (fst kv) key < 0) \<and>
     (\<forall>l \<in> set B. \<forall>kv \<in> set (snd l). 0 < key_cmp h (fst kv) key)"
proof (induction h key t rule: bt_leaf.induct)
  case (2 h key p cs)
  let ?i = "child_idx h key cs"
  have sep: "bt_sep h cs" using 2(2) by simp
  note ib = child_idx_bounds[OF sep 2(3)]
  have a: "ixk.asc h cs" using sep by (simp add: bt_sep_def)
  have ks: "hkey h (fst (cs ! j))" if "j < length cs" for j using a that by (simp add: ixk.asc_def)
  have kk: "hkey h (fst kv)" if "j < length cs" "kv \<in> set (bt_kvs (snd (cs ! j)))" for j kv
    using 2(2) that bt_ord_keys[of h "snd (cs ! j)"] by (simp add: list_all_length)
  obtain A B where ab: "bt_leaves (snd (cs ! ?i)) = A @ bt_leaf h key (snd (cs ! ?i)) # B"
      "\<forall>l \<in> set A. \<forall>kv \<in> set (snd l). key_cmp h (fst kv) key < 0" "\<forall>l \<in> set B. \<forall>kv \<in> set (snd l). 0 < key_cmp h (fst kv) key"
    using 2(1)[OF ib(1)] 2(2,3) ib(1) by (auto simp: list_all_length)
  let ?A = "concat (map (\<lambda>c. bt_leaves (snd c)) (take ?i cs))" and ?B = "concat (map (\<lambda>c. bt_leaves (snd c)) (drop (Suc ?i) cs))"
  have e: "bt_leaves (Br p cs) = (?A @ A) @ bt_leaf h key (Br p cs) # (B @ ?B)"
    using arg_cong[OF id_take_nth_drop[OF ib(1)], of "\<lambda>cs. concat (map (\<lambda>c. bt_leaves (snd c)) cs)"] ab(1) ib(1) by simp
  have low: "key_cmp h (fst kv) key < 0" if lk: "l \<in> set ?A" "kv \<in> set (snd l)" for l kv
  proof -
    obtain c where c: "c \<in> set (take ?i cs)" "l \<in> set (bt_leaves (snd c))" using lk(1) unfolding set_concat set_map by blast
    then obtain j where j: "j < ?i" "l \<in> set (bt_leaves (snd (cs ! j)))" unfolding in_set_conv_nth[of c] by auto
    have kv: "kv \<in> set (bt_kvs (snd (cs ! j)))" using that(2) j(2) by (auto simp: bt_kvs_leaves)
    have "key_cmp h (fst kv) (fst (cs ! Suc j)) < 0" using sep j kv ib(1) by (simp add: bt_sep_def)
    moreover have "key_cmp h (fst (cs ! Suc j)) key \<le> 0"
      using asc_less[OF a, of "Suc j" ?i] j(1) ib(1,2) ixk.cmp_trans[of h "fst (cs ! Suc j)" "fst (cs ! ?i)" key] ks 2(3)
      by (cases "Suc j = ?i") auto
    ultimately show ?thesis using ixk.lt_le_trans[of h "fst kv" "fst (cs ! Suc j)" key] kk[OF _ kv] ks[of "Suc j"] j(1) ib(1) 2(3) by simp
  qed
  have high: "0 < key_cmp h (fst kv) key" if lk: "l \<in> set ?B" "kv \<in> set (snd l)" for l kv
  proof -
    obtain c where c: "c \<in> set (drop (Suc ?i) cs)" "l \<in> set (bt_leaves (snd c))" using lk(1) unfolding set_concat set_map by blast
    then obtain j where j: "j < length cs - Suc ?i" "l \<in> set (bt_leaves (snd (cs ! (Suc ?i + j))))"
      unfolding in_set_conv_nth[of c] by auto
    let ?j = "Suc ?i + j"
    have jl: "?j < length cs" using j(1) by simp
    have kv: "kv \<in> set (bt_kvs (snd (cs ! ?j)))" using that(2) j(2) by (auto simp: bt_kvs_leaves)
    have "key_cmp h (fst (cs ! ?j)) (fst kv) \<le> 0" using sep jl kv by (simp add: bt_sep_def)
    moreover have "key_cmp h key (fst (cs ! ?j)) < 0" using ib(3)[OF jl] ixk.cmp_pos[of h "fst (cs ! ?j)" key] ks[OF jl] 2(3) by simp
    ultimately have "key_cmp h key (fst kv) < 0" using ixk.lt_le_trans[of h key "fst (cs ! ?j)" "fst kv"] kk[OF jl kv] ks[OF jl] 2(3) by simp
    then show ?thesis using ixk.cmp_pos[of h "fst kv" key] kk[OF jl kv] 2(3) by simp
  qed
  have "\<forall>l \<in> set (?A @ A). \<forall>kv \<in> set (snd l). key_cmp h (fst kv) key < 0" using ab(2) low unfolding set_append by blast
  moreover have "\<forall>l \<in> set (B @ ?B). \<forall>kv \<in> set (snd l). 0 < key_cmp h (fst kv) key" using ab(3) high unfolding set_append by blast
  ultimately show ?case using e by blast
qed (auto intro: exI[of _ "[]"])

lemma takeWhile_mid:
  assumes "\<forall>x \<in> set A. P x" and "\<forall>x \<in> set C. \<not> P x"
  shows "length (takeWhile P (A @ B @ C)) = length A + length (takeWhile P B)"
proof -
  have c: "takeWhile P C = []" using assms(2) by (cases C) auto
  have "takeWhile P (B @ C) = takeWhile P B"
  proof (cases "\<forall>x \<in> set B. P x")
    case True
    have "takeWhile P B = B" using True by (subst takeWhile_eq_all_conv)
    with True c show ?thesis by (metis append_Nil2 takeWhile_append2)
  qed (auto simp: takeWhile_append1)
  then show ?thesis using assms(1) by (simp add: takeWhile_append2)
qed


text \<open>A search in a node: the number of entries in front of the key, for \<open>below\<close> one of \<open>c < 0\<close> and \<open>c \<le> 0\<close>.\<close>

definition counts :: "(int \<Rightarrow> bool) \<Rightarrow> (IxFileHdr \<Rightarrow> IxNode \<Rightarrow> byte list \<Rightarrow> nat) \<Rightarrow> bool" where
  "counts below bound \<longleftrightarrow> (\<forall>c < 0. below c) \<and> (\<forall>c > 0. \<not> below c) \<and>
     (\<forall>h n k. ixk.asc h (nd_kvs n) \<longrightarrow> hkey h k \<longrightarrow>
        bound h n k = length (takeWhile (\<lambda>kv. below (key_cmp h (fst kv) k)) (nd_kvs n)))"

lemma counts_lower: "counts (\<lambda>c. c < 0) nd_lower_bound"
proof -
  have "nd_lower_bound h n k = length (takeWhile (\<lambda>kv. key_cmp h (fst kv) k < 0) (nd_kvs n))"
    if "ixk.asc h (nd_kvs n)" "hkey h k" for h n k
    using lower_bound_splits[OF that] by (intro length_takeWhile_split[symmetric]) (auto simp: ixk.splits_def not_less)
  then show ?thesis by (simp add: counts_def)
qed

lemma counts_upper: "counts (\<lambda>c. c \<le> 0) nd_upper_bound"
proof -
  have "nd_upper_bound h n k = length (takeWhile (\<lambda>kv. key_cmp h (fst kv) k \<le> 0) (nd_kvs n))"
    if "ixk.asc h (nd_kvs n)" "hkey h k" for h n k
    using upper_bound_splits[OF that] by (intro length_takeWhile_split[symmetric]) (auto simp: get_size_def not_le)
  then show ?thesis by (simp add: counts_def)
qed

lemma bound_loop_stop:
  assumes "ix_at s p n f s1" and "pos \<noteq> get_size n \<or> p = last_leaf (ih_hdr s)" and "fuel \<noteq> 0"
  shows "\<exists>s'. bound_loop bound fuel key f pos s1 = (Inr \<lparr>iid_page_no = p, iid_slot_no = int pos\<rparr>, s') \<and> ix_same s s'"
proof -
  obtain s2 where s2: "ix_unpin f False s1 = (Inr True, s2)" "ix_same s s2" using ix_at_unpin[OF assms(1)] by blast
  then show ?thesis using assms(2,3) ix_atD[OF assms(1)] by (cases fuel) (auto simp: em_defs ix_res_def)
qed

lemma ix_bound_tree:
  assumes T: "ix_tree s t" and L: "ix_leaves s (bt_leaves t)" and k: "hkey (ih_hdr s) key" and fu: "bt_height t + 1 < fuel"
    and c: "counts below bound"
  shows "\<exists>iid s'. ix_bound bound fuel key s = (Inr iid, s') \<and> ix_same s s' \<and>
    iid_at (bt_leaves t) iid (length (takeWhile (\<lambda>kv. below (key_cmp (ih_hdr s) (fst kv) key)) (bt_kvs t)))"
proof -
  let ?h = "ih_hdr s" and ?L = "bt_leaves t" and ?P = "\<lambda>kv. below (key_cmp (ih_hdr s) (fst kv) key)"
  have o: "bt_ord ?h t" using T by (simp add: ix_tree_def)
  obtain f s1 n where f: "find_leaf_page fuel key False s = (Inr (Some f), s1)" and
      at: "ix_at s (fst (bt_leaf ?h key t)) n f s1" and n: "nd_is_leaf n" "nd_kvs n = snd (bt_leaf ?h key t)"
    using find_leaf_page_at[OF T k, of fuel] fu by auto
  obtain A B where ab: "?L = A @ bt_leaf ?h key t # B" "\<forall>l \<in> set A. \<forall>kv \<in> set (snd l). key_cmp ?h (fst kv) key < 0"
      "\<forall>l \<in> set B. \<forall>kv \<in> set (snd l). 0 < key_cmp ?h (fst kv) key"
    using bt_leaf_split[OF o k] by blast
  let ?i = "length A" and ?j = "length (takeWhile ?P (nd_kvs n))"
  have i: "?i < length ?L" "?L ! ?i = bt_leaf ?h key t" "take ?i ?L = A" using ab(1) by simp_all
  have asc: "ixk.asc ?h (nd_kvs n)" using bt_leaf_find[OF o k] n(2) by simp
  have bd: "bound ?h n key = ?j" using c asc k by (simp add: counts_def)
  have P: "length (takeWhile ?P (bt_kvs t)) = ix_pos ?L ?i ?j"
  proof -
    have e: "bt_kvs t = concat (map snd A) @ nd_kvs n @ concat (map snd B)" by (simp add: bt_kvs_leaves ab(1) n(2))
    have "\<forall>x \<in> set (concat (map snd A)). ?P x" "\<forall>x \<in> set (concat (map snd B)). \<not> ?P x"
      using ab(2,3) c by (auto simp: counts_def)
    then show ?thesis unfolding e ix_pos_def i(3) by (rule takeWhile_mid)
  qed
  have jle: "?j \<le> length (snd (?L ! ?i))" using i(2) n(2) by (simp add: length_takeWhile_le)
  have run: "ix_bound bound fuel key s = bound_loop bound fuel key f ?j s1"
    using f ix_atD[OF at] bd by (simp add: ix_bound_def em_defs ix_res_def)
  show ?thesis
  proof (cases "?j = get_size n \<and> Suc ?i \<noteq> length ?L")
    case False
    then have "?j \<noteq> get_size n \<or> fst (bt_leaf ?h key t) = last_leaf ?h" using ix_leaves_last[OF L i(1)] i(2) by auto
    moreover have "?j < length (snd (?L ! ?i)) \<or> Suc ?i = length ?L \<and> ?j = length (snd (?L ! ?i))"
      using False jle i(2) n(2) by (auto simp: get_size_def)
    moreover obtain s' where "bound_loop bound fuel key f ?j s1 = (Inr \<lparr>iid_page_no = fst (?L ! ?i), iid_slot_no = int ?j\<rparr>, s')" "ix_same s s'"
      using bound_loop_stop[OF at calculation(1), of fuel bound key] fu unfolding i(2) by auto
    ultimately show ?thesis using iid_atI[OF i(1)] unfolding run P by blast
  next
    case True
    then have i1: "Suc ?i < length ?L" using i(1) by simp
    obtain n' where n': "ix_view s (fst (?L ! ?i)) = Some n'" "Suc ?i < length ?L \<Longrightarrow> nd_next_leaf n' = fst (?L ! Suc ?i)"
      using ix_leaves_nth[OF L i(1)] by metis
    have "ix_view s (fst (bt_leaf ?h key t)) = Some n" using find_leaf_page_at[OF T k, of fuel] fu f at ix_atD[OF at] by (auto simp: ix_at_def)
    then have nx: "nd_next_leaf n = fst (?L ! Suc ?i)" using n' i(2) i1 by simp
    obtain m where m: "ix_view s (fst (?L ! Suc ?i)) = Some m" "nd_kvs m = snd (?L ! Suc ?i)" using ix_leaves_nth[OF L i1] by metis
    have "\<forall>l \<in> set ?L. snd l \<noteq> []" using L i1 by (auto simp: ix_leaves_def)
    then have ne: "snd (?L ! Suc ?i) \<noteq> []" using i1 nth_mem by blast
    have "?L ! Suc ?i \<in> set B" using ab(1) i1 by (simp add: nth_append)
    then have gt: "\<forall>kv \<in> set (nd_kvs m). \<not> ?P kv" using ab(3) m(2) c by (auto simp: counts_def)
    have "?L ! Suc ?i \<in> set ?L" using i1 by simp
    then have am: "ixk.asc ?h (nd_kvs m)" using bt_leaves_asc[OF o] m(2) by simp
    have bm: "bound ?h m key = 0" using c am k gt by (cases "nd_kvs m") (auto simp: counts_def)
    obtain s2 where s2: "ix_unpin f False s1 = (Inr True, s2)" "ix_same s s2" using ix_at_unpin[OF at] by blast
    have m2: "ix_view s2 (fst (?L ! Suc ?i)) = Some m" using s2(2) m(1) by (simp add: ix_same_def)
    obtain g s3 where g: "fetch_node (fst (?L ! Suc ?i)) s2 = (Inr g, s3)" "ix_at s2 (fst (?L ! Suc ?i)) m g s3"
      using fetch_node_at[OF _ m2] s2(2) by (auto simp: ix_same_def)
    have at3: "ix_at s (fst (?L ! Suc ?i)) m g s3" by (rule ix_at_trans[OF s2(2) g(2)])
    obtain fuel' where fl: "fuel = Suc fuel'" "fuel' \<noteq> 0" using fu by (cases fuel) auto
    have "fst (bt_leaf ?h key t) \<noteq> last_leaf ?h" using ix_leaves_last[OF L i(1)] i(2) True by auto
    then have "bound_loop bound fuel key f ?j s1 = bound_loop bound fuel' key g 0 s3"
      using True s2(1) g(1) nx bm ix_atD[OF at] ix_atD[OF at3] by (simp add: fl(1) em_defs ix_res_def)
    moreover have "0 \<noteq> get_size m" using ne m(2) by (simp add: get_size_def)
    moreover have "ix_pos ?L ?i ?j = ix_pos ?L (Suc ?i) 0" using ix_pos_Suc[OF i(1)] True i(2) n(2) by (simp add: get_size_def)
    moreover obtain s' where "bound_loop bound fuel' key g 0 s3 = (Inr \<lparr>iid_page_no = fst (?L ! Suc ?i), iid_slot_no = int 0\<rparr>, s')" "ix_same s s'"
      using bound_loop_stop[OF at3 _ fl(2), of 0 bound key] calculation(2) by auto
    ultimately show ?thesis using iid_atI[OF i1, of 0] ne unfolding run P by auto
  qed
qed


section \<open>Range scans\<close>

text \<open>The loop of an index scan: \<^verbatim>\<open>while (!scan->is_end()) { scan->rid(); scan->next(); }\<close>, with the record ids
  it passes.\<close>

primrec ix_scan_loop :: "nat \<Rightarrow> IxScan \<Rightarrow> (IxState, Rid list) em" where
  "ix_scan_loop 0 sc = em_throw OutOfFuel"
| "ix_scan_loop (Suc n) sc =
     (if IxScan_is_end sc then em_return []
      else em_bind (IxScan_rid sc) (\<lambda>r. em_bind (IxScan_next sc) (\<lambda>sc'. em_bind (ix_scan_loop n sc') (\<lambda>rs. em_return (r # rs)))))"

lemma nth_concat_pos: "i < length L \<Longrightarrow> j < length (snd (L ! i)) \<Longrightarrow> concat (map snd L) ! ix_pos L i j = snd (L ! i) ! j"
proof -
  assume a: "i < length L" "j < length (snd (L ! i))"
  have "concat (map snd L) = concat (map snd (take i L)) @ snd (L ! i) @ concat (map snd (drop (Suc i) L))"
    using arg_cong[OF id_take_nth_drop[OF a(1)], of "\<lambda>L. concat (map snd L)"] by simp
  then show ?thesis using a(2) by (simp add: ix_pos_def nth_append)
qed

lemma ix_pos_end: "Suc i = length L \<Longrightarrow> ix_pos L i (length (snd (L ! i))) = length (concat (map snd L))"
  using ix_pos_Suc[of i L] by (simp add: ix_pos_def)

lemma ix_pos_lt: "i < length L \<Longrightarrow> j < length (snd (L ! i)) \<Longrightarrow> ix_pos L i j < length (concat (map snd L))"
  using ix_pos_less[of i "length L" L j 0] by (simp add: ix_pos_def)

text \<open>During a scan the leaves that were passed stay pinned, one frame each.\<close>

definition scan_inv :: "IxState \<Rightarrow> (page_id_t \<times> 'e list) list \<Rightarrow> nat \<Rightarrow> IxState \<Rightarrow> bool" where
  "scan_inv s0 L i s \<longleftrightarrow> ih_hdr s = ih_hdr s0 \<and> ih_fd s = ih_fd s0 \<and> bp_inv (ih_bpm s) \<and>
     (\<forall>p n. ix_view s0 p = Some n \<longrightarrow> ix_view s p = Some n) \<and>
     (bp_avail (ih_bpm s0) \<le> bp_avail (ih_bpm s) + i \<or>
      0 < pins (ih_bpm s) (ix_pid s0 (fst (L ! i))) \<and> bp_avail (ih_bpm s0) \<le> bp_avail (ih_bpm s) + Suc i)"

lemma scan_inv_ready: "scan_inv s0 L i s \<Longrightarrow> i < length L \<Longrightarrow> length L < bp_avail (ih_bpm s0) \<Longrightarrow> ix_ready s"
  by (auto simp: scan_inv_def ix_ready_def bp_roomy_avail)

lemma scan_inv_same: "scan_inv s0 L i s \<Longrightarrow> ix_same s s' \<Longrightarrow> scan_inv s0 L i s'"
  by (auto simp: scan_inv_def ix_same_def ix_ready_def)

lemma scan_inv_leaves: "ix_leaves s0 L \<Longrightarrow> scan_inv s0 L' i s \<Longrightarrow> ix_leaves s L"
  by (fastforce simp: ix_leaves_def scan_inv_def)

lemma scan_rid_step:
  assumes "ix_ready s" and "ix_leaves s L" and "i < length L"
    and "isc_iid sc = \<lparr>iid_page_no = fst (L ! i), iid_slot_no = int j\<rparr>"
  shows "j < length (snd (L ! i)) \<Longrightarrow> \<exists>s'. IxScan_rid sc s = (Inr (snd (snd (L ! i) ! j)), s') \<and> ix_same s s'"
    and "\<not> j < length (snd (L ! i)) \<Longrightarrow> \<exists>s'. IxScan_rid sc s = (Inl (RMDBError IndexEntryNotFoundError), s')"
proof -
  obtain n where n: "ix_view s (fst (L ! i)) = Some n" "nd_kvs n = snd (L ! i)" using ix_leaves_nth[OF assms(2,3)] by metis
  obtain f s1 where f: "fetch_node (fst (L ! i)) s = (Inr f, s1)" "ix_at s (fst (L ! i)) n f s1"
    using fetch_node_at[OF assms(1) n(1)] by blast
  obtain s2 where s2: "ix_unpin f False s1 = (Inr True, s2)" "ix_same s s2" "ix_node s2 f = n" using ix_at_unpin[OF f(2)] by blast
  show "\<exists>s'. IxScan_rid sc s = (Inr (snd (snd (L ! i) ! j)), s') \<and> ix_same s s'" if "j < length (snd (L ! i))"
    using that f(1) ix_atD[OF f(2)] s2 n(2) assms(4)
    by (auto simp: IxScan_rid_def ix_get_rid_def em_defs ix_res_def get_size_def get_rid_def get_kv_def)
  show "\<exists>s'. IxScan_rid sc s = (Inl (RMDBError IndexEntryNotFoundError), s')" if "\<not> j < length (snd (L ! i))"
    using that f(1) ix_atD[OF f(2)] n(2) assms(4)
    by (auto simp: IxScan_rid_def ix_get_rid_def em_defs get_size_def)
qed

lemma scan_next_step:
  assumes L: "ix_leaves s0 L" and inv: "scan_inv s0 L i s" and i: "i < length L" and j: "j < length (snd (L ! i))"
    and iid: "isc_iid sc = \<lparr>iid_page_no = fst (L ! i), iid_slot_no = int j\<rparr>" and ne: "\<not> IxScan_is_end sc"
    and av: "length L < bp_avail (ih_bpm s0)" and sz: "\<forall>l \<in> set L. int (length (snd l)) \<le> INT_MAX"
  shows "\<exists>s' i' j'. IxScan_next sc s = (Inr (sc\<lparr>isc_iid := \<lparr>iid_page_no = fst (L ! i'), iid_slot_no = int j'\<rparr>\<rparr>), s') \<and>
    scan_inv s0 L i' s' \<and> i' < length L \<and> ix_pos L i' j' = Suc (ix_pos L i j) \<and>
    (j' < length (snd (L ! i')) \<or> Suc i' = length L \<and> j' = length (snd (L ! i')))"
proof -
  have Ls: "ix_leaves s L" by (rule scan_inv_leaves[OF L inv])
  obtain n where n: "ix_view s (fst (L ! i)) = Some n" "nd_is_leaf n" "nd_kvs n = snd (L ! i)"
      "Suc i < length L \<Longrightarrow> nd_next_leaf n = fst (L ! Suc i)" using ix_leaves_nth[OF Ls i] by metis
  have hd: "ih_hdr s = ih_hdr s0" "ih_fd s = ih_fd s0" using inv by (simp_all add: scan_inv_def)
  have sl: "c_int (int j + 1) = int (Suc j)"
  proof -
    have "int (length (snd (L ! i))) \<le> INT_MAX" using sz i by simp
    then have "in_int (int j + 1)" using j by (simp add: in_int_def INT_MIN_def)
    then show ?thesis by (simp add: c_int_id)
  qed
  show ?thesis
  proof (rule fetch_node_step[OF scan_inv_ready[OF inv i av] n(1)])
    fix f s1
    assume f: "fetch_node (fst (L ! i)) s = (Inr f, s1)" "ih_hdr s1 = ih_hdr s" "ih_fd s1 = ih_fd s" "ix_node s1 f = n"
      "bp_inv (ih_bpm s1)"
      and pi: "pins (ih_bpm s1) = (pins (ih_bpm s))(ix_pid s (fst (L ! i)) := pins (ih_bpm s) (ix_pid s (fst (L ! i))) + 1)"
      and a: "bp_avail (ih_bpm s) \<le> Suc (bp_avail (ih_bpm s1))"
        "0 < pins (ih_bpm s) (ix_pid s (fst (L ! i))) \<Longrightarrow> bp_avail (ih_bpm s1) = bp_avail (ih_bpm s)"
      and v: "\<forall>q m. ix_view s q = Some m \<longrightarrow> ix_view s1 q = Some m"
    have pn: "0 \<le> pins (ih_bpm s) (ix_pid s (fst (L ! i)))"
      using inv bp_struct_table(3) by (auto simp: pins_def scan_inv_def dest!: bp_inv_struct split: option.split)
    have one: "bp_avail (ih_bpm s0) \<le> bp_avail (ih_bpm s1) + Suc i" using inv a by (auto simp: scan_inv_def hd)
    have si: "scan_inv s0 L i s1" using inv f(2,3,5) v pi pn one by (auto simp: scan_inv_def hd)
    show ?thesis
    proof (cases "Suc i < length L \<and> Suc j = length (snd (L ! i))")
      case True
      have "scan_inv s0 L (Suc i) s1" using si one by (auto simp: scan_inv_def)
      moreover have "fst (L ! i) \<noteq> last_leaf (ih_hdr s1)" using ix_leaves_last[OF Ls i] True f(2) by auto
      then have "IxScan_next sc s = (Inr (sc\<lparr>isc_iid := \<lparr>iid_page_no = fst (L ! Suc i), iid_slot_no = int 0\<rparr>\<rparr>), s1)"
        using True f(1,4) n ne iid j sl by (simp add: IxScan_next_def em_defs Let_def get_size_def)
      moreover have "ix_pos L (Suc i) 0 = Suc (ix_pos L i j)" using ix_pos_Suc[OF i] True by (simp add: ix_pos_def)
      moreover have "0 < length (snd (L ! Suc i))" using Ls True nth_mem[of "Suc i" L] by (auto simp: ix_leaves_def)
      ultimately show ?thesis using True by (intro exI[of _ s1] exI[of _ "Suc i"] exI[of _ 0]) simp
    next
      case False
      then have "\<not> (fst (L ! i) \<noteq> last_leaf (ih_hdr s1) \<and> Suc j = length (snd (L ! i)))"
        using ix_leaves_last[OF Ls i] f(2) i by auto
      then have "IxScan_next sc s = (Inr (sc\<lparr>isc_iid := \<lparr>iid_page_no = fst (L ! i), iid_slot_no = int (Suc j)\<rparr>\<rparr>), s1)"
        using f(1,4) n ne iid j sl by (auto simp: IxScan_next_def em_defs Let_def get_size_def)
      then show ?thesis using si i j False by (intro exI[of _ s1] exI[of _ i] exI[of _ "Suc j"]) (auto simp: ix_pos_def)
    qed
  qed
qed


lemma scan_loop_result:
  assumes L: "ix_leaves s0 L" and av: "length L < bp_avail (ih_bpm s0)" and sz: "\<forall>l \<in> set L. int (length (snd l)) \<le> INT_MAX"
    and Q: "iid_at L (isc_end sc) Q"
    and inv: "scan_inv s0 L i s" and i: "i < length L" and iid: "isc_iid sc = \<lparr>iid_page_no = fst (L ! i), iid_slot_no = int j\<rparr>"
    and j: "j < length (snd (L ! i)) \<or> Suc i = length L \<and> j = length (snd (L ! i))"
    and fuel: "length (concat (map snd L)) - ix_pos L i j < fuel"
  shows "\<exists>s' i'. ix_scan_loop fuel sc s =
      ((if ix_pos L i j \<le> Q then Inr (map snd (take (Q - ix_pos L i j) (drop (ix_pos L i j) (concat (map snd L)))))
        else Inl (RMDBError IndexEntryNotFoundError)), s') \<and> (ix_pos L i j \<le> Q \<longrightarrow> scan_inv s0 L i' s')"
  using inv i iid j fuel Q
proof (induction fuel arbitrary: sc s i j)
  case (Suc fuel)
  let ?kvs = "concat (map snd L)" and ?P = "ix_pos L i j"
  have di: "distinct (map fst L)" using L by (simp add: ix_leaves_def)
  have at: "iid_at L (isc_iid sc) ?P" using iid_atI[OF Suc.prems(2,4)] Suc.prems(3) by simp
  have e: "IxScan_is_end sc \<longleftrightarrow> ?P = Q" using iid_at_inj[OF di at Suc.prems(6)] by (simp add: IxScan_is_end_def)
  note rd = scan_inv_ready[OF Suc.prems(1,2) av] and Ls = scan_inv_leaves[OF L Suc.prems(1)]
  have Ql: "Q \<le> length ?kvs"
    using Suc.prems(6) ix_pos_lt ix_pos_end by (fastforce simp: iid_at_def)
  show ?case
  proof (cases "?P = Q")
    case True
    then show ?thesis using e Suc.prems(1) by (auto simp: em_defs)
  next
    case ne: False
    show ?thesis
    proof (cases "j < length (snd (L ! i))")
      case False
      then have "?P = length ?kvs" using Suc.prems(4) ix_pos_end[of i L] by auto
      then have "\<not> ?P \<le> Q" using ne Ql by simp
      then show ?thesis using scan_rid_step(2)[OF rd Ls Suc.prems(2,3) False] ne e by (auto simp: em_defs)
    next
      case True
      obtain s1 where s1: "IxScan_rid sc s = (Inr (snd (snd (L ! i) ! j)), s1)" "ix_same s s1"
        using scan_rid_step(1)[OF rd Ls Suc.prems(2,3) True] by blast
      have "\<not> IxScan_is_end sc" using e ne by simp
      then obtain s2 i' j' where s2: "IxScan_next sc s1 = (Inr (sc\<lparr>isc_iid := \<lparr>iid_page_no = fst (L ! i'), iid_slot_no = int j'\<rparr>\<rparr>), s2)"
          "scan_inv s0 L i' s2" "i' < length L" "ix_pos L i' j' = Suc ?P"
          "j' < length (snd (L ! i')) \<or> Suc i' = length L \<and> j' = length (snd (L ! i'))"
        using scan_next_step[OF L scan_inv_same[OF Suc.prems(1) s1(2)] Suc.prems(2) True Suc.prems(3) _ av sz] by blast
      let ?sc = "sc\<lparr>isc_iid := \<lparr>iid_page_no = fst (L ! i'), iid_slot_no = int j'\<rparr>\<rparr>"
      have Pl: "?P < length ?kvs" by (rule ix_pos_lt[OF Suc.prems(2) True])
      have fu: "length ?kvs - ix_pos L i' j' < fuel" using Suc.prems(5) s2(4) Pl by simp
      obtain s' i'' where r: "ix_scan_loop fuel ?sc s2 =
          ((if Suc ?P \<le> Q then Inr (map snd (take (Q - Suc ?P) (drop (Suc ?P) ?kvs))) else Inl (RMDBError IndexEntryNotFoundError)), s')"
          "Suc ?P \<le> Q \<longrightarrow> scan_inv s0 L i'' s'"
        using Suc.IH[OF s2(2,3) _ s2(5) fu, of ?sc, unfolded s2(4)] Suc.prems(6) by auto
      have hd: "drop ?P ?kvs = snd (L ! i) ! j # drop (Suc ?P) ?kvs"
        using Cons_nth_drop_Suc[OF Pl] nth_concat_pos[OF Suc.prems(2) True] by simp
      show ?thesis
      proof (cases "?P \<le> Q")
        case le: True
        then have "Q - ?P = Suc (Q - Suc ?P)" using ne by simp
        then show ?thesis using le ne e s1(1) s2(1) r hd by (auto simp: em_defs)
      next
        case gt: False
        then show ?thesis using ne e s1(1) s2(1) r by (auto simp: em_defs)
      qed
    qed
  qed
qed simp

text \<open>The scan of an index scan executor between two keys.\<close>

definition ix_range_scan :: "nat \<Rightarrow> bool \<Rightarrow> byte list \<Rightarrow> bool \<Rightarrow> byte list \<Rightarrow> (IxState, Rid list) em" where
  "ix_range_scan fuel lower_open lower upper_open upper =
     em_bind ((if lower_open then ix_upper_bound else ix_lower_bound) fuel lower) (\<lambda>lower_iid.
     em_bind ((if upper_open then ix_lower_bound else ix_upper_bound) fuel upper) (\<lambda>upper_iid.
       ix_scan_loop fuel (new_IxScan lower_iid upper_iid)))"

definition rank_of :: "IxFileHdr \<Rightarrow> bool \<Rightarrow> byte list \<Rightarrow> bt \<Rightarrow> nat" where
  "rank_of h incl key t = length (takeWhile (\<lambda>kv. if incl then key_cmp h (fst kv) key \<le> 0 else key_cmp h (fst kv) key < 0) (bt_kvs t))"

lemma ix_bound_rank:
  assumes "ix_tree s t" and "ix_leaves s (bt_leaves t)" and "hkey (ih_hdr s) key" and "bt_height t + 1 < fuel"
  shows "\<exists>iid s'. (if incl then ix_upper_bound else ix_lower_bound) fuel key s = (Inr iid, s') \<and> ix_same s s' \<and>
    iid_at (bt_leaves t) iid (rank_of (ih_hdr s) incl key t)"
  using ix_bound_tree[OF assms counts_lower] ix_bound_tree[OF assms counts_upper]
  by (auto simp: ix_lower_bound_def ix_upper_bound_def rank_of_def)

lemma ix_tree_same: "ix_same s s' \<Longrightarrow> ix_tree s t \<Longrightarrow> ix_tree s' t"
  using bt_rep_same[of s s' t] by (auto simp: ix_tree_def ix_same_def)

lemma ix_range_scan_result:
  fixes lower_open upper_open :: bool
  assumes T: "ix_tree s t" and L: "ix_leaves s (bt_leaves t)" and k: "hkey (ih_hdr s) lo" "hkey (ih_hdr s) hi"
    and fu: "bt_height t + length (bt_kvs t) + 1 < fuel" and av: "length (bt_leaves t) < bp_avail (ih_bpm s)"
    and sz: "\<forall>l \<in> set (bt_leaves t). int (length (snd l)) \<le> INT_MAX"
  defines "P \<equiv> rank_of (ih_hdr s) lower_open lo t" and "Q \<equiv> rank_of (ih_hdr s) (\<not> upper_open) hi t"
  shows "\<exists>s'. ix_range_scan fuel lower_open lo upper_open hi s =
      ((if P \<le> Q then Inr (map snd (take (Q - P) (drop P (bt_kvs t)))) else Inl (RMDBError IndexEntryNotFoundError)), s') \<and>
    (P \<le> Q \<longrightarrow> ih_hdr s' = ih_hdr s \<and> (\<forall>p n. ix_view s p = Some n \<longrightarrow> ix_view s' p = Some n))"
proof -
  let ?L = "bt_leaves t"
  have f1: "bt_height t + 1 < fuel" using fu by simp
  obtain a s1 where a: "(if lower_open then ix_upper_bound else ix_lower_bound) fuel lo s = (Inr a, s1)" "ix_same s s1" "iid_at ?L a P"
    using ix_bound_rank[OF T L k(1) f1, of lower_open] by (auto simp: P_def)
  have h1: "ih_hdr s1 = ih_hdr s" using a(2) by (simp add: ix_same_def)
  obtain b s2 where b: "(if upper_open then ix_lower_bound else ix_upper_bound) fuel hi s1 = (Inr b, s2)" "ix_same s1 s2" "iid_at ?L b Q"
    using ix_bound_rank[OF ix_tree_same[OF a(2) T] ix_leaves_same[OF a(2) L], of hi fuel "\<not> upper_open"] k(2) f1
    by (cases upper_open) (auto simp: Q_def h1)
  note s2 = ix_same_trans[OF a(2) b(2)]
  obtain i j where i: "i < length ?L" "a = \<lparr>iid_page_no = fst (?L ! i), iid_slot_no = int j\<rparr>" "P = ix_pos ?L i j"
      "j < length (snd (?L ! i)) \<or> Suc i = length ?L \<and> j = length (snd (?L ! i))"
    using a(3) by (auto simp: iid_at_def)
  have inv: "scan_inv s2 ?L i s2" using s2 by (auto simp: scan_inv_def ix_same_def ix_ready_def)
  have av2: "length ?L < bp_avail (ih_bpm s2)" using s2 av by (auto simp: ix_same_def)
  have kv: "concat (map snd ?L) = bt_kvs t" by (simp add: bt_kvs_leaves)
  have sc: "iid_at ?L (isc_end (new_IxScan a b)) Q" "isc_iid (new_IxScan a b) = \<lparr>iid_page_no = fst (?L ! i), iid_slot_no = int j\<rparr>"
    using b(3) i(2) by (simp_all add: new_IxScan_def)
  have fl: "length (concat (map snd ?L)) - ix_pos ?L i j < fuel" using fu kv by simp
  obtain s' i' where r: "ix_scan_loop fuel (new_IxScan a b) s2 =
      ((if P \<le> Q then Inr (map snd (take (Q - P) (drop P (bt_kvs t)))) else Inl (RMDBError IndexEntryNotFoundError)), s')"
      "P \<le> Q \<longrightarrow> scan_inv s2 ?L i' s'"
    using scan_loop_result[OF ix_leaves_same[OF s2 L] av2 sz sc(1) inv i(1) sc(2) i(4) fl] unfolding kv i(3)[symmetric] by blast
  have "ix_range_scan fuel lower_open lo upper_open hi s = ix_scan_loop fuel (new_IxScan a b) s2"
    using a(1) b(1) by (auto simp: ix_range_scan_def em_defs split: if_splits)
  then show ?thesis using r s2 by (auto simp: scan_inv_def ix_same_def)
qed


lemma sorted_wrt_concat:
  assumes "\<forall>xs \<in> set xss. sorted_wrt R xs"
    and "\<And>i j x y. i < j \<Longrightarrow> j < length xss \<Longrightarrow> x \<in> set (xss ! i) \<Longrightarrow> y \<in> set (xss ! j) \<Longrightarrow> R x y"
  shows "sorted_wrt R (concat xss)"
  using assms
proof (induction xss)
  case (Cons xs xss)
  have "R x y" if xy: "x \<in> set xs" "y \<in> set (concat xss)" for x y
  proof -
    obtain j where "j < length xss" "y \<in> set (xss ! j)" using xy(2) by (metis in_set_conv_nth set_concat UN_E)
    then show ?thesis using Cons.prems(2)[of 0 "Suc j" x y] xy(1) by simp
  qed
  moreover have "sorted_wrt R (concat xss)"
  proof (rule Cons.IH)
    show "\<forall>xs \<in> set xss. sorted_wrt R xs" using Cons.prems(1) by simp
    show "R x y" if "i < j" "j < length xss" "x \<in> set (xss ! i)" "y \<in> set (xss ! j)" for i j x y
      using Cons.prems(2)[of "Suc i" "Suc j" x y] that by simp
  qed
  ultimately show ?case using Cons.prems(1) by (simp add: sorted_wrt_append)
qed simp

lemma bt_kvs_asc: "bt_ord h t \<Longrightarrow> ixk.asc h (bt_kvs t)"
proof (induction t)
  case (Br p cs)
  have sep: "bt_sep h cs" and oc: "\<And>j. j < length cs \<Longrightarrow> bt_ord h (snd (cs ! j))" using Br(2) by (simp_all add: list_all_length)
  have a: "ixk.asc h cs" using sep by (simp add: bt_sep_def)
  have ks: "hkey h (fst (cs ! j))" if "j < length cs" for j using a that by (simp add: ixk.asc_def)
  have kk: "hkey h (fst kv)" if "j < length cs" "kv \<in> set (bt_kvs (snd (cs ! j)))" for j kv
    using bt_ord_keys[OF oc[OF that(1)] that(2)] .
  have sub: "sorted_wrt (\<lambda>x y. key_cmp h (fst x) (fst y) < 0) (bt_kvs (snd c))" if "c \<in> set cs" for c
  proof -
    have "bt_ord h (snd c)" using Br(2) that by (simp add: list_all_iff)
    then show ?thesis using Br(1)[OF that, of "snd c"] by (simp add: snds.simps ixk.asc_def)
  qed
  have "key_cmp h (fst x) (fst y) < 0" if "i < j" "j < length cs" "x \<in> set (bt_kvs (snd (cs ! i)))" "y \<in> set (bt_kvs (snd (cs ! j)))" for i j x y
  proof -
    have x: "key_cmp h (fst x) (fst (cs ! Suc i)) < 0" using sep that(1-3) by (simp add: bt_sep_def)
    have y: "key_cmp h (fst (cs ! j)) (fst y) \<le> 0" using sep that(1,2,4) by (simp add: bt_sep_def)
    have "key_cmp h (fst (cs ! Suc i)) (fst (cs ! j)) \<le> 0"
      using asc_less[OF a, of "Suc i" j] that(1,2) ks[OF that(2)] by (cases "Suc i = j") (auto simp: ixk.cmp_refl)
    then have "key_cmp h (fst (cs ! Suc i)) (fst y) \<le> 0"
      using ixk.cmp_trans[OF ks ks kk _ y, of "Suc i" j] that by simp
    then show ?thesis using ixk.lt_le_trans[OF kk ks kk x, of i j] that by simp
  qed
  then have "sorted_wrt (\<lambda>x y. key_cmp h (fst x) (fst y) < 0) (concat (map (\<lambda>c. bt_kvs (snd c)) cs))"
    using sub by (intro sorted_wrt_concat) auto
  then show ?case using bt_ord_keys[OF Br(2)] by (simp add: ixk.asc_def)
qed simp

lemma takeWhile_filter: "sorted_wrt (\<lambda>x y. f y \<longrightarrow> f x) xs \<Longrightarrow> takeWhile f xs = filter f xs \<and> dropWhile f xs = filter (\<lambda>x. \<not> f x) xs"
proof (induction xs)
  case (Cons x xs)
  then show ?case by (auto simp: filter_empty_conv filter_id_conv)
qed simp

lemma range_filter:
  assumes "sorted_wrt (\<lambda>x y. f y \<longrightarrow> f x) xs" and "sorted_wrt (\<lambda>x y. g y \<longrightarrow> g x) xs" and "\<And>x. x \<in> set xs \<Longrightarrow> f x \<Longrightarrow> g x"
  defines "P \<equiv> length (takeWhile f xs)" and "Q \<equiv> length (takeWhile g xs)"
  shows "P \<le> Q \<and> take (Q - P) (drop P xs) = filter (\<lambda>x. \<not> f x \<and> g x) xs"
proof -
  have p: "P = length (filter f xs)" and q: "Q = length (filter g xs)" 
    using takeWhile_filter[OF assms(1)] takeWhile_filter[OF assms(2)] by (simp_all add: P_def Q_def)
  have le: "P \<le> Q" unfolding p q using assms(3) by (metis (no_types, lifting) filter_cong filter_filter length_filter_le)
  have tq: "take Q xs = filter g xs" using takeWhile_filter[OF assms(2)] takeWhile_eq_take[of g xs] by (simp add: Q_def)
  have "sorted_wrt (\<lambda>x y. f y \<longrightarrow> f x) (take Q xs)" using assms(1) by (rule sorted_wrt_take)
  note tw = takeWhile_filter[OF this]
  have "filter f (take Q xs) = filter f xs" unfolding tq filter_filter using assms(3) by (intro filter_cong) auto
  then have "length (takeWhile f (take Q xs)) = P" using tw p by simp
  then have "drop P (take Q xs) = filter (\<lambda>x. \<not> f x) (take Q xs)"
    using conjunct2[OF tw] dropWhile_eq_drop[of f "take Q xs"] by metis
  then have "take (Q - P) (drop P xs) = filter (\<lambda>x. g x \<and> \<not> f x) xs" unfolding drop_take[symmetric] tq filter_filter by simp
  then show ?thesis using le by (simp add: conj_commute)
qed


definition in_range :: "IxFileHdr \<Rightarrow> bool \<Rightarrow> byte list \<Rightarrow> bool \<Rightarrow> byte list \<Rightarrow> byte list \<Rightarrow> bool" where
  "in_range h lower_open lo upper_open hi k \<longleftrightarrow>
     (if lower_open then 0 < key_cmp h k lo else 0 \<le> key_cmp h k lo) \<and>
     (if upper_open then key_cmp h k hi < 0 else key_cmp h k hi \<le> 0)"

lemma asc_closed:
  assumes "ixk.asc h kvs" and "hkey h key"
  shows "sorted_wrt (\<lambda>x y. (if incl then key_cmp h (fst y) key \<le> 0 else key_cmp h (fst y) key < 0) \<longrightarrow>
      (if incl then key_cmp h (fst x) key \<le> 0 else key_cmp h (fst x) key < 0)) kvs"
  unfolding sorted_wrt_iff_nth_less
proof (intro allI impI)
  fix i j
  assume ij: "i < j" "j < length kvs" and y: "if incl then key_cmp h (fst (kvs ! j)) key \<le> 0 else key_cmp h (fst (kvs ! j)) key < 0"
  have l: "key_cmp h (fst (kvs ! i)) (fst (kvs ! j)) < 0" "hkey h (fst (kvs ! i))" "hkey h (fst (kvs ! j))" using asc_less[OF assms(1) ij] by simp_all
  have "key_cmp h (fst (kvs ! j)) key \<le> 0" using y by (auto split: if_splits)
  then have "key_cmp h (fst (kvs ! i)) key < 0" using ixk.lt_le_trans[OF l(2,3) assms(2) l(1)] by simp
  then show "if incl then key_cmp h (fst (kvs ! i)) key \<le> 0 else key_cmp h (fst (kvs ! i)) key < 0" by simp
qed

lemma rank_range:
  assumes o: "bt_ord h t" and k: "hkey h lo" "hkey h hi"
    and le: "key_cmp h lo hi < 0 \<or> key_cmp h lo hi = 0 \<and> \<not> lower_open \<and> \<not> upper_open"
  defines "P \<equiv> rank_of h lower_open lo t" and "Q \<equiv> rank_of h (\<not> upper_open) hi t"
  shows "P \<le> Q \<and> take (Q - P) (drop P (bt_kvs t)) = filter (\<lambda>kv. in_range h lower_open lo upper_open hi (fst kv)) (bt_kvs t)"
proof -
  let ?f = "\<lambda>kv. if lower_open then key_cmp h (fst kv) lo \<le> 0 else key_cmp h (fst kv) lo < 0"
  let ?g = "\<lambda>kv. if \<not> upper_open then key_cmp h (fst kv) hi \<le> 0 else key_cmp h (fst kv) hi < 0"
  note a = bt_kvs_asc[OF o]
  have fg: "?g kv" if "kv \<in> set (bt_kvs t)" "?f kv" for kv :: "byte list \<times> Rid"
  proof -
    have kk: "hkey h (fst kv)" by (rule bt_ord_keys[OF o that(1)])
    show ?thesis
      using that(2) le ixk.lt_le_trans[OF kk k] ixk.le_lt_trans[OF kk k] by (auto split: if_splits)
  qed
  have "filter (\<lambda>kv. \<not> ?f kv \<and> ?g kv) (bt_kvs t) = filter (\<lambda>kv. in_range h lower_open lo upper_open hi (fst kv)) (bt_kvs t)"
    by (intro filter_cong) (auto simp: in_range_def)
  then show ?thesis
    using range_filter[OF asc_closed[OF a k(1), of lower_open] asc_closed[OF a k(2), of "\<not> upper_open"] fg]
    by (simp add: P_def Q_def rank_of_def)
qed

lemma rank_reversed:
  assumes o: "bt_ord h t" and k: "hkey h lo" "hkey h hi" and kv: "kv \<in> set (bt_kvs t)" "key_cmp h hi (fst kv) < 0" "key_cmp h (fst kv) lo < 0"
  shows "rank_of h (\<not> upper_open) hi t < rank_of h lower_open lo t"
proof -
  let ?f = "\<lambda>kv. if lower_open then key_cmp h (fst kv) lo \<le> 0 else key_cmp h (fst kv) lo < 0"
  let ?g = "\<lambda>kv. if \<not> upper_open then key_cmp h (fst kv) hi \<le> 0 else key_cmp h (fst kv) hi < 0"
  note a = bt_kvs_asc[OF o]
  have tf: "takeWhile ?f (bt_kvs t) = filter ?f (bt_kvs t)" "takeWhile ?g (bt_kvs t) = filter ?g (bt_kvs t)"
    using takeWhile_filter[OF asc_closed[OF a k(1), of lower_open]] takeWhile_filter[OF asc_closed[OF a k(2), of "\<not> upper_open"]] by auto
  have ng: "\<not> ?g kv" using kv(2) ixk.cmp_swap[OF k(2) bt_ord_keys[OF o kv(1)]] by auto
  have f: "?f kv" using kv(3) by simp
  obtain m where m: "m < length (bt_kvs t)" "bt_kvs t ! m = kv" using kv(1) by (auto simp: in_set_conv_nth)
  have "m < length (takeWhile ?f (bt_kvs t))"
  proof (rule ccontr)
    assume "\<not> ?thesis"
    then have "kv \<in> set (dropWhile ?f (bt_kvs t))"
      using m dropWhile_eq_drop[of ?f "bt_kvs t"] nth_mem[of "m - length (takeWhile ?f (bt_kvs t))" "dropWhile ?f (bt_kvs t)"] by (simp add: not_less)
    then show False using takeWhile_filter[OF asc_closed[OF a k(1), of lower_open]] f by auto
  qed
  moreover have "\<not> m < length (takeWhile ?g (bt_kvs t))"
  proof
    assume l: "m < length (takeWhile ?g (bt_kvs t))"
    have "?g (takeWhile ?g (bt_kvs t) ! m)" using set_takeWhileD[OF nth_mem[OF l]] by (rule conjunct2)
    then have "?g kv" unfolding takeWhile_nth[OF l] m(2) .
    with ng show False by (rule notE)
  qed
  ultimately show ?thesis by (simp add: rank_of_def)
qed


text \<open>C34: Searching the index. If the pages of an index form a B+ tree (the root page number is in the header, inner
  nodes route by separating keys, leaves are sorted), the buffer pool has a frame to spare and the key has the
  columns of the index, then \<^verbatim>\<open>get_value\<close> ends, reports exactly whether the key is in the tree, appends its
  record id to the result if so, changes no node and leaves every page pinned as often as before.\<close>

theorem ix_get_value:
  assumes "ix_tree s t" and "hkey (ih_hdr s) key" and "bt_height t < fuel"
  shows "\<exists>s'. get_value fuel key result s =
      (Inr (case node_map (ih_hdr s) \<lparr>next_free_page_no = 0, nd_parent = 0, nd_is_leaf = True, nd_prev_leaf = 0,
                                      nd_next_leaf = 0, nd_kvs = bt_kvs t\<rparr> key of
              None \<Rightarrow> (False, result) | Some r \<Rightarrow> (True, result @ [r])), s') \<and>
    pins (ih_bpm s') = pins (ih_bpm s) \<and> (\<forall>p n. ix_view s p = Some n \<longrightarrow> ix_view s' p = Some n)"
  using get_value_tree[OF assms, of result] by (auto simp: node_find ix_same_def)

text \<open>C35: Range scans over the index. In an index whose pages form a B+ tree with linked leaves, over a pool with a
  frame to spare for every leaf (the scan never releases the leaves it passes): a scan between two keys, each
  end open or closed, ends and returns exactly the record ids of the entries in the range, in key order, and
  changes no node. If instead the bounds are reversed and the tree has an entry strictly between them (the
  query \<^verbatim>\<open>a > 10 and a < 5\<close> with 7 in the table), the scan misses its end, runs behind the last leaf and fails with
  \<^verbatim>\<open>IndexEntryNotFoundError\<close>.\<close>

theorem ix_range_scan_complete:
  assumes "ix_tree s t" and "ix_leaves s (bt_leaves t)" and "hkey (ih_hdr s) lo" and "hkey (ih_hdr s) hi"
    and "bt_height t + length (bt_kvs t) + 1 < fuel" and "length (bt_leaves t) < bp_avail (ih_bpm s)"
    and "\<forall>l \<in> set (bt_leaves t). int (length (snd l)) \<le> INT_MAX"
  shows "(key_cmp (ih_hdr s) lo hi < 0 \<or> key_cmp (ih_hdr s) lo hi = 0 \<and> \<not> lower_open \<and> \<not> upper_open \<longrightarrow>
      (\<exists>s'. ix_range_scan fuel lower_open lo upper_open hi s =
          (Inr (map snd (filter (\<lambda>kv. in_range (ih_hdr s) lower_open lo upper_open hi (fst kv)) (bt_kvs t))), s') \<and>
        (\<forall>p n. ix_view s p = Some n \<longrightarrow> ix_view s' p = Some n))) \<and>
    ((\<exists>kv \<in> set (bt_kvs t). key_cmp (ih_hdr s) hi (fst kv) < 0 \<and> key_cmp (ih_hdr s) (fst kv) lo < 0) \<longrightarrow>
      (\<exists>s'. ix_range_scan fuel lower_open lo upper_open hi s = (Inl (RMDBError IndexEntryNotFoundError), s')))"
proof (intro conjI impI)
  have o: "bt_ord (ih_hdr s) t" using assms(1) by (simp add: ix_tree_def)
  note r = ix_range_scan_result[OF assms, of lower_open upper_open]
  show "\<exists>s'. ix_range_scan fuel lower_open lo upper_open hi s =
          (Inr (map snd (filter (\<lambda>kv. in_range (ih_hdr s) lower_open lo upper_open hi (fst kv)) (bt_kvs t))), s') \<and>
        (\<forall>p n. ix_view s p = Some n \<longrightarrow> ix_view s' p = Some n)"
    if "key_cmp (ih_hdr s) lo hi < 0 \<or> key_cmp (ih_hdr s) lo hi = 0 \<and> \<not> lower_open \<and> \<not> upper_open"
    using r rank_range[OF o assms(3,4) that] by auto
  show "\<exists>s'. ix_range_scan fuel lower_open lo upper_open hi s = (Inl (RMDBError IndexEntryNotFoundError), s')"
    if ex: "\<exists>kv \<in> set (bt_kvs t). key_cmp (ih_hdr s) hi (fst kv) < 0 \<and> key_cmp (ih_hdr s) (fst kv) lo < 0"
  proof -
    obtain kv where "kv \<in> set (bt_kvs t)" "key_cmp (ih_hdr s) hi (fst kv) < 0" "key_cmp (ih_hdr s) (fst kv) lo < 0"
      using ex by blast
    from rank_reversed[OF o assms(3,4) this, of upper_open lower_open] r show ?thesis by auto
  qed
qed

text \<open>An index whose root is a leaf, behind the leaf header page, opened with a pool of four frames.\<close>

definition one_leaf_ix :: "IxFileHdr \<Rightarrow> IxNode \<Rightarrow> IxState" where
  "one_leaf_ix h n = \<lparr>ih_fd = 3, ih_hdr = h, ih_bpm = new_BufferPoolManager 4 (\<lambda>_. 0)
     (snd (write_page 3 2 (enc_IxNode h n zero_page) PAGE_SIZE
       (snd (write_page 3 1 (enc_IxNode h (empty_leaf 2) zero_page) PAGE_SIZE (set_fd2pageno 3 3 witness_disk)))))\<rparr>"

lemma one_leaf_ix_facts:
  assumes "node_fits h n" and "node_fits h (empty_leaf 2)"
  shows "ix_ready (one_leaf_ix h n)" and "ih_hdr (one_leaf_ix h n) = h" and "ih_fd (one_leaf_ix h n) = 3"
    and "ix_view (one_leaf_ix h n) 2 = Some n" and "ix_view (one_leaf_ix h n) 1 = Some (empty_leaf 2)" and "bp_avail (ih_bpm (one_leaf_ix h n)) = 4"
    and "fd2pageno (bp_disk (ih_bpm (one_leaf_ix h n))) 3 = 3" and "fd_path (bp_disk (ih_bpm (one_leaf_ix h n))) 3 \<noteq> None"
proof -
  let ?pg = "enc_IxNode h n zero_page" and ?pg1 = "enc_IxNode h (empty_leaf 2) zero_page" and ?d = "set_fd2pageno 3 3 witness_disk"
  have z: "length zero_page = PAGE_SIZE" by (simp add: zero_page_def)
  note e = dec_enc_node[OF assms(1) z] and e1 = dec_enc_node[OF assms(2) z]
  have i: "disk_inv ?d" and p: "fd_path ?d 3 \<noteq> None" using witness_disk_facts by (auto simp: set_fd2pageno_def fd_path_def)
  have a: "page_addressable 2" "page_addressable 1" by (simp_all add: page_addressable_def INT_MAX_def PAGE_SIZE_def)
  obtain d1 where w1: "write_page 3 1 ?pg1 PAGE_SIZE ?d = (Inr (), d1)"
    and d1: "disk_inv d1" "fd_path d1 = fd_path ?d" "fd2pageno d1 = fd2pageno ?d" "disk_page d1 3 1 = Some ?pg1"
    using write_page_disk_page[OF i p a(2), of ?pg1] e1(2) by auto
  have p1: "fd_path d1 3 \<noteq> None" using p d1(2) by simp
  obtain d where w: "write_page 3 2 ?pg PAGE_SIZE d1 = (Inr (), d)"
    and d: "disk_inv d" "fd_path d = fd_path ?d" "fd2pageno d = fd2pageno ?d" "disk_page d 3 2 = Some ?pg" "disk_page d 3 1 = Some ?pg1"
    using write_page_disk_page[OF d1(1) p1 a(1), of ?pg] e(2) d1(2-4) by auto
  have s: "one_leaf_ix h n = \<lparr>ih_fd = 3, ih_hdr = h, ih_bpm = new_BufferPoolManager 4 (\<lambda>_. 0) d\<rparr>" by (simp add: one_leaf_ix_def w1 w)
  show "ix_ready (one_leaf_ix h n)" using bp_inv_new[OF d(1)] by (simp add: s ix_ready_def bp_roomy_def new_BufferPoolManager_def)
  show "ih_hdr (one_leaf_ix h n) = h" "ih_fd (one_leaf_ix h n) = 3" by (simp_all add: s)
  show "bp_avail (ih_bpm (one_leaf_ix h n)) = 4" by (simp add: s bp_avail_def new_BufferPoolManager_def new_LRUReplacer_def lru_frames_def)
  show "ix_view (one_leaf_ix h n) 2 = Some n" "ix_view (one_leaf_ix h n) 1 = Some (empty_leaf 2)"
    using d p a e(1) e1(1) by (simp_all add: s ix_view_def page_view_def new_BufferPoolManager_def page_ok_def set_fd2pageno_def)
  show "fd2pageno (bp_disk (ih_bpm (one_leaf_ix h n))) 3 = 3" "fd_path (bp_disk (ih_bpm (one_leaf_ix h n))) 3 \<noteq> None"
    using d(2,3) p by (simp_all add: s new_BufferPoolManager_def set_fd2pageno_def)
qed

text \<open>The entries 5 and 9 in it.\<close>

definition witness_ix :: IxState where
  "witness_ix = one_leaf_ix witness_ixhdr witness_node"

lemma witness_end_fits: "node_fits witness_ixhdr (empty_leaf 2)"
  by (simp add: node_fits_def witness_ix_defs empty_leaf_def IX_MAX_COL_LEN_def ix_order_def cdiv_nonneg PAGE_SIZE_def sizeof_IxPageHdr_def
      get_size_def get_max_size_def in_int_small_num IX_NO_PAGE_def)

lemmas witness_ix_facts = one_leaf_ix_facts[OF witness_node_fits witness_end_fits, folded witness_ix_def]

lemma witness_ix_tree:
  "ix_tree witness_ix (Lf 2 (nd_kvs witness_node))" "ix_leaves witness_ix (bt_leaves (Lf 2 (nd_kvs witness_node)))"
proof -
  have l: "nd_is_leaf witness_node" by (simp add: witness_node_def)
  show "ix_tree witness_ix (Lf 2 (nd_kvs witness_node))"
    using witness_ix_facts l witness_node_sorted(1)
    by (simp add: ix_tree_def node_asc) (simp add: witness_ix_defs IX_NO_PAGE_def)
  show "ix_leaves witness_ix (bt_leaves (Lf 2 (nd_kvs witness_node)))"
    using witness_ix_facts l by (simp add: ix_leaves_def) (simp add: witness_ix_defs)
qed

theorem ix_get_value_witness:
  "\<exists>s'. get_value 1 [9, 0, 0, 0] [] witness_ix = (Inr (True, [\<lparr>rid_page_no = 1, rid_slot_no = 1\<rparr>]), s')"
proof -
  have k: "hkey (ih_hdr witness_ix) [9, 0, 0, 0]" by (simp add: witness_ix_facts hkey_def witness_ix_defs key_cols_def)
  have "node_map witness_ixhdr \<lparr>next_free_page_no = 0, nd_parent = 0, nd_is_leaf = True, nd_prev_leaf = 0,
      nd_next_leaf = 0, nd_kvs = nd_kvs witness_node\<rparr> [9, 0, 0, 0] = Some \<lparr>rid_page_no = 1, rid_slot_no = 1\<rparr>"
    by (simp add: node_map_def witness_ix_defs key_cols_def key_cmp_def Let_def cmp3_def le_sint_def)
  then show ?thesis
    using ix_get_value[OF witness_ix_tree(1) k, of 1 "[]"] by (auto simp: witness_ix_facts)
qed

theorem ix_range_scan_complete_witness:
  "\<exists>s'. ix_range_scan 4 True [5, 0, 0, 0] False [9, 0, 0, 0] witness_ix = (Inr [\<lparr>rid_page_no = 1, rid_slot_no = 1\<rparr>], s')"
proof -
  have k: "hkey (ih_hdr witness_ix) [9, 0, 0, 0]" "hkey (ih_hdr witness_ix) [5, 0, 0, 0]"
    by (simp_all add: witness_ix_facts hkey_def witness_ix_defs key_cols_def)
  have lt: "key_cmp witness_ixhdr [5, 0, 0, 0] [9, 0, 0, 0] < 0"
    by (simp add: witness_ix_defs key_cols_def key_cmp_def Let_def cmp3_def le_sint_def)
  have "filter (\<lambda>kv. in_range witness_ixhdr True [5, 0, 0, 0] False [9, 0, 0, 0] (fst kv)) (nd_kvs witness_node) =
      [([9, 0, 0, 0], \<lparr>rid_page_no = 1, rid_slot_no = 1\<rparr>)]"
    by (simp add: in_range_def witness_ix_defs key_cols_def key_cmp_def Let_def cmp3_def le_sint_def)
  moreover have "length (nd_kvs witness_node) = 2" by (simp add: witness_node_def)
  ultimately show ?thesis
    using ix_range_scan_complete[OF witness_ix_tree k(2,1), of 4 True False] lt by (auto simp: witness_ix_facts INT_MAX_def)
qed

end
