(* ===== verification/Analyze.thy ===== *)
theory Analyze
  imports Meta
begin

text \<open>
  The syntax trees of \<^verbatim>\<open>parser/ast.h\<close> and the semantic analysis of \<^verbatim>\<open>analyze/analyze.cpp\<close>: names are
  resolved against the catalogue, literals are converted to values of the column's type and stored as
  bytes. A class hierarchy of the source is one datatype whose constructors are its leaf classes; a
  \<^verbatim>\<open>dynamic_pointer_cast\<close> chain is a case analysis on it. The lemmas show which integer literals are
  accepted, and that analysed conditions can be evaluated on every record of their table.
\<close>

section \<open>Syntax trees\<close>

datatype JoinType = INNER_JOIN | LEFT_JOIN | RIGHT_JOIN | FULL_JOIN

datatype SvType = SV_TYPE_INT | SV_TYPE_FLOAT | SV_TYPE_BIGINT | SV_TYPE_STRING | SV_TYPE_DATETIME

datatype SvCompOp = SV_OP_EQ | SV_OP_NE | SV_OP_LT | SV_OP_GT | SV_OP_LE | SV_OP_GE

datatype OrderByDir = OrderBy_DEFAULT | OrderBy_ASC | OrderBy_DESC

datatype AggFuncType = SV_AGG_COUNT | SV_AGG_SUM | SV_AGG_MAX | SV_AGG_MIN

record TypeLen =
  tl_type :: SvType
  tl_len :: int

text \<open>A \<^verbatim>\<open>Field\<close> is a column definition; an object of the base class itself is \<open>PlainField\<close>.\<close>

datatype Field = PlainField | SvColDef string TypeLen

datatype SvValue = IntLit string | FloatLit f32 | StringLit string

record SvCol =
  sv_tab_name :: string
  sv_col_name :: string

record AggExpr =
  ae_type :: AggFuncType
  ae_col :: "SvCol option"

datatype SvExpr = ValueExpr SvValue | ColExpr SvCol | AggregateExpr AggExpr

record SelectItem =
  si_expr :: SvExpr
  si_alias :: string

record SvSetClause =
  sc_col_name :: string
  sc_val :: SvValue

record BinaryExpr =
  be_lhs :: SvCol
  be_op :: SvCompOp
  be_rhs :: SvExpr

record OrderBy =
  ob_cols :: SvCol
  orderby_dir :: OrderByDir

record JoinExpr =
  je_left :: string
  je_right :: string
  je_conds :: "BinaryExpr list"
  je_type :: JoinType

record SelectStmt =
  select_items :: "SelectItem list"
  sel_tabs :: "string list"
  sel_conds :: "BinaryExpr list"
  jointree :: "JoinExpr list"
  orders :: "OrderBy list"
  limit :: int

datatype TreeNode =
    Help
  | ShowTables
  | ShowIndex string
  | TxnBegin
  | TxnCommit
  | TxnAbort
  | TxnRollback
  | CreateTable string "Field list"
  | DropTable string
  | DescTable string
  | CreateIndex string "string list"
  | DropIndex string "string list"
  | InsertStmt string "SvValue list"
  | DeleteStmt string "BinaryExpr list"
  | UpdateStmt string "SvSetClause list" "BinaryExpr list"
  | Select SelectStmt

section \<open>Integer literals\<close>

text \<open>\<^verbatim>\<open>std::string::compare\<close>, up to the magnitude of a non-zero result.\<close>

definition str_compare :: "string \<Rightarrow> string \<Rightarrow> int" where
  "str_compare = cmp3 str_less"

definition compare_pos_int_string :: "string \<Rightarrow> string \<Rightarrow> int" where
  "compare_pos_int_string a b =
     (if length a \<noteq> length b then (if length a < length b then -1 else 1) else str_compare a b)"

definition compare_int_string :: "string \<Rightarrow> string \<Rightarrow> int" where
  "compare_int_string a b =
     (if a = [] \<or> b = [] then str_compare a b
      else if hd a = CHR ''-'' \<and> hd b \<noteq> CHR ''-'' then -1
      else if hd a \<noteq> CHR ''-'' \<and> hd b = CHR ''-'' then 1
      else if hd a = CHR ''-'' \<and> hd b = CHR ''-'' then - compare_pos_int_string (tl a) (tl b)
      else compare_pos_int_string (if hd a = CHR ''+'' then tl a else a) (if hd b = CHR ''+'' then tl b else b))"

text \<open>The template parameter is given by the limits of the type.\<close>

definition no_overflow :: "int \<Rightarrow> int \<Rightarrow> string \<Rightarrow> bool" where
  "no_overflow lowest highest value \<longleftrightarrow>
     compare_int_string value (to_string highest) \<le> 0 \<and> compare_int_string value (to_string lowest) \<ge> 0"

text \<open>\<^verbatim>\<open>std::stoi\<close> and \<^verbatim>\<open>std::stoll\<close>: blanks, a sign, then as many digits as there are.\<close>

definition strtol :: "string \<Rightarrow> int option" where
  "strtol s =
     (let s1 = dropWhile isspace s;
          signed = (s1 \<noteq> [] \<and> (hd s1 = CHR ''-'' \<or> hd s1 = CHR ''+''))
      in map_option (\<lambda>(v, r). if signed \<and> hd s1 = CHR ''-'' then - v else v)
           (scan_digits (if signed then tl s1 else s1)))"

definition stoX :: "int \<Rightarrow> int \<Rightarrow> string \<Rightarrow> int res" where
  "stoX lowest highest s =
     (case strtol s of
        None \<Rightarrow> Inl StdInvalidArgument
      | Some v \<Rightarrow> if lowest \<le> v \<and> v \<le> highest then Inr v else Inl StdOutOfRange)"

section \<open>Integers as floats\<close>

fun bit_length :: "nat \<Rightarrow> nat" where
  "bit_length n = (if n = 0 then 0 else Suc (bit_length (n div 2)))"

declare bit_length.simps [simp del]

text \<open>The 24-bit significand of a positive number, rounded to nearest with ties to even; it may round up
  to \<open>2 ^ 24\<close>, and the carry then lands in the exponent.\<close>

definition f32_significand :: "nat \<Rightarrow> nat" where
  "f32_significand a =
     (let l = bit_length a in
      if l \<le> 24 then a * 2 ^ (24 - l)
      else let d = 2 ^ (l - 24); q = a div d; r = a mod d
           in if 2 * r > d \<or> 2 * r = d \<and> odd q then q + 1 else q)"

definition f32_of_int :: "int \<Rightarrow> f32" where
  "f32_of_int i =
     (if i = 0 then 0
      else let a = nat \<bar>i\<bar>
           in word_of_int ((if i < 0 then 2 ^ 31 else 0) +
                int ((bit_length a + 126) * 2 ^ 23 + (f32_significand a - 2 ^ 23))))"

section \<open>Values and columns\<close>

definition default_Value :: Value where
  "default_Value = \<lparr>val_type = TYPE_INT, val_num = NoVal, str_val = '''', raw = None\<rparr>"

definition default_TabCol :: TabCol where
  "default_TabCol = \<lparr>tc_tab_name = '''', tc_col_name = ''''\<rparr>"

definition incompatible :: "ColType \<Rightarrow> ColType \<Rightarrow> exn" where
  "incompatible l r = RMDBError (IncompatibleTypeError (coltype2str l) (coltype2str r))"

definition check_val_type :: "ColMeta option \<Rightarrow> Value \<Rightarrow> Value res" where
  "check_val_type col val =
     (case col of
        Some c \<Rightarrow> if val_type val \<noteq> cm_type c then Inl (incompatible (cm_type c) (val_type val)) else Inr val
      | None \<Rightarrow> Inr val)"

definition convert_sv_value :: "SvValue \<Rightarrow> ColMeta option \<Rightarrow> Value res" where
  "convert_sv_value sv_val col =
     rbind
       (case sv_val of
          IntLit int_str \<Rightarrow>
            (if map_option cm_type col = Some TYPE_BIGINT
             then (if \<not> no_overflow INT64_MIN INT64_MAX int_str then Inl (RMDBError IntegerOverflowError)
                   else rbind (stoX INT64_MIN INT64_MAX int_str) (\<lambda>i. Inr (set_bigint i default_Value)))
             else (if \<not> no_overflow INT_MIN INT_MAX int_str then Inl (RMDBError IntegerOverflowError)
                   else rbind (stoX INT_MIN INT_MAX int_str) (\<lambda>i. Inr (set_int i default_Value))))
        | FloatLit f \<Rightarrow> check_val_type col (set_float f default_Value)
        | StringLit s \<Rightarrow>
            (if map_option cm_type col = Some TYPE_DATETIME
             then (case parse_datetime s of
                     Inl e \<Rightarrow> Inl (RMDBError e) | Inr w \<Rightarrow> Inr (set_datetime (sint w) default_Value))
             else check_val_type col (set_str s default_Value)))
       (check_val_type col)"

definition coerce_value_to_col_type :: "Value \<Rightarrow> ColType \<Rightarrow> Value res" where
  "coerce_value_to_col_type val col_type =
     (if val_type val = col_type then Inr val
      else if col_type = TYPE_FLOAT \<and> val_type val = TYPE_INT
      then (case val_num val of int_val i \<Rightarrow> Inr (set_float (f32_of_int i) val) | _ \<Rightarrow> Inl UndefinedBehaviour)
      else Inr val)"

fun convert_sv_comp_op :: "SvCompOp \<Rightarrow> CompOp" where
  "convert_sv_comp_op SV_OP_EQ = OP_EQ"
| "convert_sv_comp_op SV_OP_NE = OP_NE"
| "convert_sv_comp_op SV_OP_LT = OP_LT"
| "convert_sv_comp_op SV_OP_GT = OP_GT"
| "convert_sv_comp_op SV_OP_LE = OP_LE"
| "convert_sv_comp_op SV_OP_GE = OP_GE"

text \<open>The loop that infers the table of an unqualified column; the table found so far is the accumulator.\<close>

fun infer_table :: "ColMeta list \<Rightarrow> string \<Rightarrow> string \<Rightarrow> string res" where
  "infer_table [] name tab = Inr tab"
| "infer_table (c # cs) name tab =
     (if cm_name c = name
      then (if tab \<noteq> [] then Inl (RMDBError (AmbiguousColumnError name)) else infer_table cs name (cm_tab_name c))
      else infer_table cs name tab)"

definition check_column :: "ColMeta list \<Rightarrow> TabCol \<Rightarrow> TabCol res" where
  "check_column all_cols target =
     (if tc_tab_name target = []
      then rbind (infer_table all_cols (tc_col_name target) []) (\<lambda>tab.
             if tab = [] then Inl (RMDBError (ColumnNotFoundError (tc_col_name target)))
             else Inr (target\<lparr>tc_tab_name := tab\<rparr>))
      else if list_ex (\<lambda>c. cm_tab_name c = tc_tab_name target \<and> cm_name c = tc_col_name target) all_cols
      then Inr target
      else Inl (RMDBError (ColumnNotFoundError (tc_col_name target))))"

fun get_all_cols :: "DbMeta \<Rightarrow> string list \<Rightarrow> ColMeta list res" where
  "get_all_cols db [] = Inr []"
| "get_all_cols db (t # ts) =
     rbind (get_table t db) (\<lambda>tab. rbind (get_all_cols db ts) (\<lambda>cs. Inr (tm_cols tab @ cs)))"

definition get_col_meta :: "ColMeta list \<Rightarrow> TabCol \<Rightarrow> ColMeta res" where
  "get_col_meta all_cols target =
     (case find (\<lambda>c. cm_tab_name c = tc_tab_name target \<and> cm_name c = tc_col_name target) all_cols of
        Some c \<Rightarrow> Inr c | None \<Rightarrow> Inl (RMDBError (ColumnNotFoundError (tc_col_name target))))"

definition default_agg_alias :: "AggSpec \<Rightarrow> string" where
  "default_agg_alias agg =
     (let arg = tc_col_name (agg_col agg) @ '')'' in
      case agg_type agg of
        AGG_COUNT \<Rightarrow> if is_star agg then ''COUNT(*)'' else ''COUNT('' @ arg
      | AGG_SUM \<Rightarrow> ''SUM('' @ arg
      | AGG_MAX \<Rightarrow> ''MAX('' @ arg
      | AGG_MIN \<Rightarrow> ''MIN('' @ arg)"

section \<open>Conditions\<close>

text \<open>A condition between \<^verbatim>\<open>get_clause\<close> and \<^verbatim>\<open>check_clause\<close>: the literal is not converted yet. A right-hand
  side that is neither a literal nor a column leaves \<^verbatim>\<open>is_rhs_val\<close> uninitialised.\<close>

record RawCond =
  rc_lhs_col :: TabCol
  rc_op :: CompOp
  rc_is_rhs_val :: "bool option"
  rc_rhs_col :: TabCol
  rc_rhs_sv :: "SvValue option"

definition tab_col :: "SvCol \<Rightarrow> TabCol" where
  "tab_col c = \<lparr>tc_tab_name = sv_tab_name c, tc_col_name = sv_col_name c\<rparr>"

definition get_cond :: "BinaryExpr \<Rightarrow> RawCond" where
  "get_cond expr =
     (let cond = \<lparr>rc_lhs_col = tab_col (be_lhs expr), rc_op = convert_sv_comp_op (be_op expr),
                  rc_is_rhs_val = None, rc_rhs_col = default_TabCol, rc_rhs_sv = None\<rparr>
      in case be_rhs expr of
           ValueExpr v \<Rightarrow> cond\<lparr>rc_is_rhs_val := Some True, rc_rhs_sv := Some v\<rparr>
         | ColExpr c \<Rightarrow> cond\<lparr>rc_is_rhs_val := Some False, rc_rhs_col := tab_col c\<rparr>
         | AggregateExpr a \<Rightarrow> cond)"

definition get_clause :: "BinaryExpr list \<Rightarrow> RawCond list" where
  "get_clause sv_conds = map get_cond sv_conds"

definition get_tab_col :: "DbMeta \<Rightarrow> TabCol \<Rightarrow> ColMeta res" where
  "get_tab_col db c = rbind (get_table (tc_tab_name c) db) (get_col (tc_col_name c))"

text \<open>The value of a condition: BIGINT and DATETIME columns convert the literal themselves, the others
  take its own type, with integers coerced to floats.\<close>

definition check_rhs_val :: "ColMeta \<Rightarrow> SvValue option \<Rightarrow> Value res" where
  "check_rhs_val lhs rhs_sv =
     (case rhs_sv of
        None \<Rightarrow> Inl (RMDBError (InternalError ''Unexpected sv value type''))
      | Some sv \<Rightarrow>
          rbind
            (if cm_type lhs = TYPE_BIGINT \<or> cm_type lhs = TYPE_DATETIME then convert_sv_value sv (Some lhs)
             else rbind (convert_sv_value sv None) (\<lambda>v.
                  rbind (coerce_value_to_col_type v (cm_type lhs)) (\<lambda>v'.
                    if cm_type lhs \<noteq> val_type v' then Inl (incompatible (cm_type lhs) (val_type v')) else Inr v')))
            (init_raw (cm_len lhs)))"

definition check_cond :: "DbMeta \<Rightarrow> ColMeta list \<Rightarrow> RawCond \<Rightarrow> Condition res" where
  "check_cond db all_cols cond =
     rbind (check_column all_cols (rc_lhs_col cond)) (\<lambda>lhs.
     case rc_is_rhs_val cond of
       None \<Rightarrow> Inl UndefinedBehaviour
     | Some is_val \<Rightarrow>
         rbind (if is_val then Inr (rc_rhs_col cond) else check_column all_cols (rc_rhs_col cond)) (\<lambda>rhs.
         rbind (get_tab_col db lhs) (\<lambda>lcol.
           if is_val
           then rbind (check_rhs_val lcol (rc_rhs_sv cond)) (\<lambda>v.
                  Inr \<lparr>lhs_col = lhs, cond_op = rc_op cond, is_rhs_val = True, rhs_col = rhs, rhs_val = v\<rparr>)
           else rbind (get_tab_col db rhs) (\<lambda>rcol.
                  if cm_type lcol \<noteq> cm_type rcol then Inl (incompatible (cm_type lcol) (cm_type rcol))
                  else Inr \<lparr>lhs_col = lhs, cond_op = rc_op cond, is_rhs_val = False, rhs_col = rhs,
                            rhs_val = default_Value\<rparr>))))"

text \<open>Loops whose body may throw.\<close>

fun rmap :: "('a \<Rightarrow> 'e + 'b) \<Rightarrow> 'a list \<Rightarrow> 'e + 'b list" where
  "rmap f [] = Inr []"
| "rmap f (x # xs) = rbind (f x) (\<lambda>y. rbind (rmap f xs) (\<lambda>ys. Inr (y # ys)))"

definition check_clause :: "DbMeta \<Rightarrow> string list \<Rightarrow> RawCond list \<Rightarrow> Condition list res" where
  "check_clause db tab_names conds =
     rbind (get_all_cols db tab_names) (\<lambda>all_cols. rmap (check_cond db all_cols) conds)"

section \<open>Statements\<close>

record Query =
  q_parse :: TreeNode
  q_conds :: "Condition list"
  q_cols :: "TabCol list"
  sel_items :: "SelItem list"
  q_tables :: "string list"
  set_clauses :: "SetClause list"
  q_values :: "Value list"

definition new_Query :: "TreeNode \<Rightarrow> Query" where
  "new_Query parse = \<lparr>q_parse = parse, q_conds = [], q_cols = [], sel_items = [], q_tables = [],
                      set_clauses = [], q_values = []\<rparr>"

fun cast_AggType :: "AggFuncType \<Rightarrow> AggType" where
  "cast_AggType SV_AGG_COUNT = AGG_COUNT"
| "cast_AggType SV_AGG_SUM = AGG_SUM"
| "cast_AggType SV_AGG_MAX = AGG_MAX"
| "cast_AggType SV_AGG_MIN = AGG_MIN"

definition default_AggSpec :: AggSpec where
  "default_AggSpec = \<lparr>agg_type = AGG_COUNT, agg_col = default_TabCol, is_star = False\<rparr>"

definition check_agg_type :: "AggType \<Rightarrow> ColType \<Rightarrow> unit res" where
  "check_agg_type a t =
     (if a = AGG_SUM \<and> t \<noteq> TYPE_INT \<and> t \<noteq> TYPE_FLOAT
      then Inl (RMDBError (IncompatibleTypeError (coltype2str t) ''SUM''))
      else if (a = AGG_MAX \<or> a = AGG_MIN) \<and> t \<noteq> TYPE_INT \<and> t \<noteq> TYPE_FLOAT \<and> t \<noteq> TYPE_STRING
      then Inl (incompatible t TYPE_STRING)
      else Inr ())"

definition analyze_item :: "ColMeta list \<Rightarrow> SelectItem \<Rightarrow> SelItem res" where
  "analyze_item all_cols sv_item =
     (case si_expr sv_item of
        ColExpr c \<Rightarrow>
          rbind (check_column all_cols (tab_col c)) (\<lambda>tc.
            Inr \<lparr>sel_kind = SEL_COL, sel_col = tc, sel_agg = default_AggSpec,
                 sel_alias = (if si_alias sv_item = [] then tc_col_name tc else si_alias sv_item)\<rparr>)
      | AggregateExpr a \<Rightarrow>
          rbind
            (case ae_col a of
               None \<Rightarrow> Inr \<lparr>agg_type = cast_AggType (ae_type a), agg_col = default_TabCol, is_star = True\<rparr>
             | Some c \<Rightarrow>
                 rbind (check_column all_cols (tab_col c)) (\<lambda>tc.
                 rbind (get_col_meta all_cols tc) (\<lambda>col_meta.
                 rbind (check_agg_type (cast_AggType (ae_type a)) (cm_type col_meta)) (\<lambda>_.
                   Inr \<lparr>agg_type = cast_AggType (ae_type a), agg_col = tc, is_star = False\<rparr>))))
            (\<lambda>agg. Inr \<lparr>sel_kind = SEL_AGG, sel_col = default_TabCol, sel_agg = agg,
                         sel_alias = (if si_alias sv_item = [] then default_agg_alias agg else si_alias sv_item)\<rparr>)
      | ValueExpr v \<Rightarrow> Inl (RMDBError (InternalError ''Unexpected select item type'')))"

definition check_tables :: "DbMeta \<Rightarrow> string list \<Rightarrow> unit res" where
  "check_tables db ts =
     (case find (\<lambda>t. \<not> is_table t db) ts of
        Some t \<Rightarrow> Inl (RMDBError (TableNotFoundError t)) | None \<Rightarrow> Inr ())"

definition analyze_select :: "DbMeta \<Rightarrow> SelectStmt \<Rightarrow> Query res" where
  "analyze_select db x =
     (let ts = sel_tabs x in
      rbind (check_tables db ts) (\<lambda>_.
      rbind (get_all_cols db ts) (\<lambda>all_cols.
      rbind (rmap (analyze_item all_cols) (select_items x)) (\<lambda>items.
      let cols = (if select_items x = []
                  then map (\<lambda>c. \<lparr>tc_tab_name = cm_tab_name c, tc_col_name = cm_name c\<rparr>) all_cols
                  else map sel_col (filter (\<lambda>i. sel_kind i = SEL_COL) items))
      in rbind (check_clause db ts (get_clause (sel_conds x))) (\<lambda>conds.
           Inr ((new_Query (Select (x\<lparr>sel_tabs := []\<rparr>)))
                  \<lparr>q_conds := conds, q_cols := cols, sel_items := items, q_tables := ts\<rparr>))))))"

definition analyze_set_clause :: "DbMeta \<Rightarrow> string \<Rightarrow> ColMeta list \<Rightarrow> SvSetClause \<Rightarrow> SetClause res" where
  "analyze_set_clause db tab_name all_cols sv =
     rbind (check_column all_cols \<lparr>tc_tab_name = tab_name, tc_col_name = sc_col_name sv\<rparr>) (\<lambda>lhs.
     rbind (get_tab_col db lhs) (\<lambda>col.
     rbind (convert_sv_value (sc_val sv) (Some col)) (\<lambda>v.
     rbind (coerce_value_to_col_type v (cm_type col)) (\<lambda>rhs.
     if val_type rhs \<noteq> cm_type col then Inl (incompatible (cm_type col) (val_type rhs))
     else rbind (init_raw (cm_len col) rhs) (\<lambda>rhs'. Inr \<lparr>set_lhs = lhs, set_rhs = rhs'\<rparr>)))))"

definition analyze_update :: "DbMeta \<Rightarrow> string \<Rightarrow> SvSetClause list \<Rightarrow> BinaryExpr list \<Rightarrow> Query res" where
  "analyze_update db tab_name sets conds =
     rbind (check_tables db [tab_name]) (\<lambda>_.
     rbind (get_all_cols db [tab_name]) (\<lambda>all_cols.
     rbind (rmap (analyze_set_clause db tab_name all_cols) sets) (\<lambda>scs.
     rbind (check_clause db [tab_name] (get_clause conds)) (\<lambda>cs.
       Inr ((new_Query (UpdateStmt tab_name sets conds))\<lparr>q_conds := cs, set_clauses := scs\<rparr>)))))"

definition analyze_delete :: "DbMeta \<Rightarrow> string \<Rightarrow> BinaryExpr list \<Rightarrow> Query res" where
  "analyze_delete db tab_name conds =
     rbind (check_tables db [tab_name]) (\<lambda>_.
     rbind (check_clause db [tab_name] (get_clause conds)) (\<lambda>cs.
       Inr ((new_Query (DeleteStmt tab_name conds))\<lparr>q_conds := cs\<rparr>)))"

definition analyze_insert :: "DbMeta \<Rightarrow> string \<Rightarrow> SvValue list \<Rightarrow> Query res" where
  "analyze_insert db tab_name vals =
     rbind (check_tables db [tab_name]) (\<lambda>_.
     rbind (get_table tab_name db) (\<lambda>tab.
     if length vals \<noteq> length (tm_cols tab) then Inl (RMDBError InvalidValueCountError)
     else rbind (rmap (\<lambda>(sv, col). convert_sv_value sv (Some col)) (zip vals (tm_cols tab))) (\<lambda>vs.
            Inr ((new_Query (InsertStmt tab_name vals))\<lparr>q_values := vs\<rparr>))))"

definition do_analyze :: "DbMeta \<Rightarrow> TreeNode \<Rightarrow> Query res" where
  "do_analyze db parse =
     (case parse of
        Select x \<Rightarrow> analyze_select db x
      | UpdateStmt tab_name sets conds \<Rightarrow> analyze_update db tab_name sets conds
      | DeleteStmt tab_name conds \<Rightarrow> analyze_delete db tab_name conds
      | InsertStmt tab_name vals \<Rightarrow> analyze_insert db tab_name vals
      | _ \<Rightarrow> Inr (new_Query parse))"

section \<open>Which integer literals are accepted\<close>

lemma digits_val_Cons: "digits_val (c # s) = char_digit c * 10 ^ length s + digits_val s"
proof (induction s rule: rev_induct)
  case (snoc x s)
  show ?case using snoc digits_val_snoc[of "c # s" x] by simp
qed (simp add: digits_val_def)

lemma digits_val_less: "list_all isdigit s \<Longrightarrow> digits_val s < 10 ^ length s"
proof (induction s)
  case (Cons c s)
  then have "char_digit c * 10 ^ length s + digits_val s < Suc (char_digit c) * 10 ^ length s" by simp
  also have "\<dots> \<le> 10 * 10 ^ length s"
    using Cons.prems by (intro mult_right_mono) (simp_all add: Suc_le_eq)
  finally show ?case by (simp add: digits_val_Cons)
qed simp

lemma char_digit_order:
  assumes "isdigit a" "isdigit b"
  shows "(of_char a :: nat) < of_char b \<longleftrightarrow> char_digit a < char_digit b" "a = b \<longleftrightarrow> char_digit a = char_digit b"
proof -
  have "48 \<le> (of_char a :: nat)" "48 \<le> (of_char b :: nat)" using assms by (auto simp: isdigit_def)
  then show "(of_char a :: nat) < of_char b \<longleftrightarrow> char_digit a < char_digit b"
    unfolding char_digit_def by linarith
  show "a = b \<longleftrightarrow> char_digit a = char_digit b"
    using digit_char_char_digit[OF assms(1)] digit_char_char_digit[OF assms(2)] by metis
qed

lemma lex_less_nat: "(x :: nat) < d \<Longrightarrow> y < d \<Longrightarrow> a * d + x < b * d + y \<longleftrightarrow> a < b \<or> a = b \<and> x < y"
proof (cases a b rule: linorder_cases)
  case less
  moreover assume "x < d" "y < d"
  moreover have "a * d + d \<le> b * d" using less by (metis Suc_leI add.commute mult_Suc mult_le_mono1)
  ultimately show ?thesis by linarith
next
  case greater
  moreover assume "x < d" "y < d"
  moreover have "b * d + d \<le> a * d" using greater by (metis Suc_leI add.commute mult_Suc mult_le_mono1)
  ultimately show ?thesis by linarith
qed simp

lemma str_less_digits:
  "length a = length b \<Longrightarrow> list_all isdigit a \<Longrightarrow> list_all isdigit b \<Longrightarrow>
   str_less a b \<longleftrightarrow> digits_val a < digits_val b"
proof (induction a b rule: list_induct2)
  case (Cons x xs y ys)
  then show ?case
    by (simp add: digits_val_Cons lex_less_nat digits_val_less char_digit_order
        digits_val_less[of xs, unfolded Cons.hyps])
qed simp

lemma compare_pos_digits:
  assumes "list_all isdigit ds" "list_all isdigit mx" "10 ^ (length mx - 1) \<le> digits_val mx"
  shows "compare_pos_int_string ds mx \<le> 0 \<longleftrightarrow> length ds \<le> length mx \<and> digits_val ds \<le> digits_val mx"
proof (cases "length ds < length mx")
  case True
  have "digits_val ds < 10 ^ length ds" using assms(1) by (rule digits_val_less)
  also have "\<dots> \<le> 10 ^ (length mx - 1)" using True by (intro power_increasing) auto
  finally show ?thesis using True assms(3) by (simp add: compare_pos_int_string_def)
next
  case False
  with assms show ?thesis
    by (auto simp: compare_pos_int_string_def str_compare_def cmp3_def str_less_digits)
qed

text \<open>The integer literals of the lexer: an optional sign and at least one digit.\<close>

definition int_lit :: "string \<Rightarrow> string \<Rightarrow> bool" where
  "int_lit sign ds \<longleftrightarrow> sign \<in> {'''', ''+'', ''-''} \<and> ds \<noteq> [] \<and> list_all isdigit ds"

definition lit_val :: "string \<Rightarrow> string \<Rightarrow> int" where
  "lit_val sign ds = (if sign = ''-'' then - int (digits_val ds) else int (digits_val ds))"

lemma isdigit_not_sign: "isdigit c \<Longrightarrow> c \<noteq> CHR ''-'' \<and> c \<noteq> CHR ''+'' \<and> \<not> isspace c"
  by (auto simp: isdigit_def isspace_def)

lemma int_limits:
  "to_string INT_MAX = ''2147483647''" "to_string INT_MIN = CHR ''-'' # ''2147483648''"
  "to_string INT64_MAX = ''9223372036854775807''" "to_string INT64_MIN = CHR ''-'' # ''9223372036854775808''"
  by (simp_all add: to_string_def INT_MAX_def INT_MIN_def INT64_MAX_def INT64_MIN_def
      nat_to_string.simps digit_char_def char_of_def bit_iff_odd)

lemma no_overflow_lit:
  assumes lit: "int_lit sign ds"
    and mx: "list_all isdigit mx" "10 ^ (length mx - 1) \<le> digits_val mx" "to_string hi = mx"
    and mn: "list_all isdigit mn" "10 ^ (length mn - 1) \<le> digits_val mn" "to_string lo = CHR ''-'' # mn"
    and ne: "mx \<noteq> []" "mn \<noteq> []"
  shows "no_overflow lo hi (sign @ ds) \<longleftrightarrow>
           (if sign = ''-'' then length ds \<le> length mn \<and> digits_val ds \<le> digits_val mn
            else length ds \<le> length mx \<and> digits_val ds \<le> digits_val mx)"
proof -
  have d: "list_all isdigit ds" "ds \<noteq> []" and s: "sign \<in> {'''', ''+'', ''-''}"
    using lit by (auto simp: int_lit_def)
  have hs: "hd ds \<noteq> CHR ''-''" "hd ds \<noteq> CHR ''+''" "hd mx \<noteq> CHR ''-''" "hd mx \<noteq> CHR ''+''"
    using d mx(1) ne isdigit_not_sign by (auto simp: list_all_iff)
  show ?thesis
    using s hs d(2) ne compare_pos_digits[OF d(1) mx(1,2)] compare_pos_digits[OF d(1) mn(1,2)]
    by (auto simp: no_overflow_def compare_int_string_def mx(3) mn(3))
qed

lemma no_overflow_int:
  "int_lit sign ds \<Longrightarrow> no_overflow INT_MIN INT_MAX (sign @ ds) \<longleftrightarrow> length ds \<le> 10 \<and> in_int (lit_val sign ds)"
  by (subst no_overflow_lit[where mx = "''2147483647''" and mn = "''2147483648''"])
    (auto simp: int_limits isdigit_def digits_val_Cons char_digit_def in_int_def lit_val_def,
     auto simp: INT_MIN_def INT_MAX_def)

lemma no_overflow_int64:
  "int_lit sign ds \<Longrightarrow> no_overflow INT64_MIN INT64_MAX (sign @ ds) \<longleftrightarrow>
     length ds \<le> 19 \<and> INT64_MIN \<le> lit_val sign ds \<and> lit_val sign ds \<le> INT64_MAX"
  by (subst no_overflow_lit[where mx = "''9223372036854775807''" and mn = "''9223372036854775808''"])
    (auto simp: int_limits isdigit_def digits_val_Cons char_digit_def lit_val_def,
     auto simp: INT64_MIN_def INT64_MAX_def)

lemma scan_digits_all: "list_all isdigit ds \<Longrightarrow> ds \<noteq> [] \<Longrightarrow> scan_digits ds = Some (int (digits_val ds), [])"
proof -
  assume a: "list_all isdigit ds" "ds \<noteq> []"
  then have t: "takeWhile isdigit ds = ds" "dropWhile isdigit ds = []" by (auto simp: list_all_iff takeWhile_eq_all_conv dropWhile_eq_Nil_conv)
  show ?thesis unfolding scan_digits_def t Let_def using a(2) by simp
qed

lemma strtol_lit: "int_lit sign ds \<Longrightarrow> strtol (sign @ ds) = Some (lit_val sign ds)"
proof -
  assume lit: "int_lit sign ds"
  then have d: "list_all isdigit ds" "ds \<noteq> []" by (auto simp: int_lit_def)
  have h: "hd ds \<noteq> CHR ''-''" "hd ds \<noteq> CHR ''+''" "\<not> isspace (hd ds)"
    using d isdigit_not_sign by (auto simp: list_all_iff)
  have dr: "dropWhile isspace ds = ds" using h d(2) by (cases ds) auto
  have sc: "scan_digits ds = Some (int (digits_val ds), [])"
    using d scan_digits_all by blast
  show ?thesis
    using lit h dr d(2) by (auto simp: int_lit_def strtol_def Let_def sc lit_val_def isspace_def)
qed

text \<open>C37: Converting an integer literal is exact. For a literal of the lexer (an optional sign and digits)
  the analyzer compares decimal strings by length first. So an INT literal is accepted if and only if it has
  at most ten digits and its value fits into 32 bits, and a literal for a BIGINT column if and only if it has
  at most nineteen digits and fits into 64 bits; the accepted literal gives exactly its value, every other
  one the integer overflow error, and neither \<^verbatim>\<open>stoi\<close> nor \<^verbatim>\<open>stoll\<close> ever throws. A zero-padded literal of
  more digits is rejected however small its value.\<close>

theorem int_literal_exact:
  assumes "int_lit sign ds" and "cm_type big = TYPE_BIGINT"
  shows "convert_sv_value (IntLit (sign @ ds)) None =
           (if length ds \<le> 10 \<and> in_int (lit_val sign ds) then Inr (set_int (lit_val sign ds) default_Value)
            else Inl (RMDBError IntegerOverflowError)) \<and>
         convert_sv_value (IntLit (sign @ ds)) (Some big) =
           (if length ds \<le> 19 \<and> INT64_MIN \<le> lit_val sign ds \<and> lit_val sign ds \<le> INT64_MAX
            then Inr (set_bigint (lit_val sign ds) default_Value) else Inl (RMDBError IntegerOverflowError))"
  using assms(2) strtol_lit[OF assms(1)] no_overflow_int[OF assms(1)] no_overflow_int64[OF assms(1)]
  by (auto simp: convert_sv_value_def check_val_type_def stoX_def set_bigint_def in_int_def)

theorem int_literal_exact_witness:
  "int_lit ''-'' ''2147483648'' \<and> int_lit '''' ''00000000007'' \<and>
   convert_sv_value (IntLit (''-'' @ ''2147483648'')) None = Inr (set_int (- 2147483648) default_Value) \<and>
   convert_sv_value (IntLit ('''' @ ''00000000007'')) None = Inl (RMDBError IntegerOverflowError)"
proof -
  define big where "big = \<lparr>cm_tab_name = ''t'', cm_name = ''b'', cm_type = TYPE_BIGINT, cm_len = 8, cm_offset = 0, cm_index = False\<rparr>"
  have l: "int_lit ''-'' ''2147483648''" "int_lit '''' ''00000000007''"
    by (simp_all add: int_lit_def isdigit_def)
  have v: "lit_val ''-'' ''2147483648'' = - 2147483648"
    by (simp add: lit_val_def digits_val_Cons char_digit_def)
  have b: "cm_type big = TYPE_BIGINT" by (simp add: big_def)
  show ?thesis
    using l v int_literal_exact[OF l(1) b] int_literal_exact[OF l(2) b]
    by (simp add: in_int_def INT_MIN_def INT_MAX_def)
qed

section \<open>Analysed conditions are well typed\<close>

text \<open>What \<^verbatim>\<open>create_table\<close> establishes: every column carries its table's name, has the size of its type and lies
  inside the record.\<close>

definition col_ok :: "ColMeta \<Rightarrow> bool" where
  "col_ok c \<longleftrightarrow> 0 \<le> cm_offset c \<and> 0 \<le> cm_len c \<and> (cm_type c \<noteq> TYPE_STRING \<longrightarrow> cm_len c = type_size (cm_type c))"

definition db_wf :: "DbMeta \<Rightarrow> bool" where
  "db_wf db \<longleftrightarrow> (\<forall>(t, tab) \<in> set (tabs db). \<forall>c \<in> set (tm_cols tab). cm_tab_name c = t \<and> col_ok c)"

definition fits_tab :: "TabMeta \<Rightarrow> RmRecord \<Rightarrow> bool" where
  "fits_tab tab rec \<longleftrightarrow> (\<forall>c \<in> set (tm_cols tab). cm_offset c + cm_len c \<le> int (length (rec_data rec)))"

definition cond_typed :: "DbMeta \<Rightarrow> string list \<Rightarrow> Condition \<Rightarrow> bool" where
  "cond_typed db ts c \<longleftrightarrow> tc_tab_name (lhs_col c) \<in> set ts \<and>
     (case get_tab_col db (lhs_col c) of
        Inl e \<Rightarrow> False
      | Inr l \<Rightarrow>
          if is_rhs_val c
          then val_type (rhs_val c) = cm_type l \<and>
               (case raw (rhs_val c) of Some r \<Rightarrow> int (length (rec_data r)) = cm_len l | None \<Rightarrow> False)
          else tc_tab_name (rhs_col c) \<in> set ts \<and>
               (case get_tab_col db (rhs_col c) of Inl e \<Rightarrow> False | Inr r \<Rightarrow> cm_type r = cm_type l))"

lemma get_table_wf:
  "db_wf db \<Longrightarrow> get_table t db = Inr tab \<Longrightarrow> c \<in> set (tm_cols tab) \<Longrightarrow> cm_tab_name c = t \<and> col_ok c"
  by (auto simp: db_wf_def get_table_def dest: map_of_SomeD split: option.splits)

lemma get_col_mem: "get_col n tab = Inr c \<Longrightarrow> c \<in> set (tm_cols tab) \<and> cm_name c = n"
  by (auto simp: get_col_def find_Some_iff split: option.splits)

lemma get_tab_col_wf:
  "db_wf db \<Longrightarrow> get_tab_col db tc = Inr c \<Longrightarrow>
     \<exists>tab. get_table (tc_tab_name tc) db = Inr tab \<and> get_col (tc_col_name tc) tab = Inr c \<and>
           c \<in> set (tm_cols tab) \<and> col_ok c"
  by (auto simp: get_tab_col_def rbind_Inr dest: get_table_wf get_col_mem)

lemma infer_table_mem:
  "infer_table cs name tab = Inr t \<Longrightarrow> t = tab \<or> (\<exists>c \<in> set cs. cm_tab_name c = t \<and> cm_name c = name)"
  by (induction cs name tab rule: infer_table.induct) (auto split: if_splits)

lemma check_column_mem:
  "check_column cs tc = Inr tc' \<Longrightarrow> \<exists>c \<in> set cs. cm_tab_name c = tc_tab_name tc' \<and> cm_name c = tc_col_name tc'"
  by (auto simp: check_column_def rbind_Inr list_ex_iff dest!: infer_table_mem split: if_splits)

lemma get_all_cols_mem:
  "get_all_cols db ts = Inr cs \<Longrightarrow> c \<in> set cs \<Longrightarrow>
     \<exists>t \<in> set ts. \<exists>tab. get_table t db = Inr tab \<and> c \<in> set (tm_cols tab)"
  by (induction ts arbitrary: cs) (auto simp: rbind_Inr)

lemma checked_table:
  "db_wf db \<Longrightarrow> get_all_cols db ts = Inr cs \<Longrightarrow> check_column cs tc = Inr tc' \<Longrightarrow> tc_tab_name tc' \<in> set ts"
  by (auto dest!: check_column_mem get_all_cols_mem dest: get_table_wf)

lemma rmap_mem: "rmap f xs = Inr ys \<Longrightarrow> y \<in> set ys \<Longrightarrow> \<exists>x \<in> set xs. f x = Inr y"
  by (induction xs arbitrary: ys) (auto simp: rbind_Inr)

lemma union_bytes_len: "union_bytes t u = Inr b \<Longrightarrow> int (length b) = type_size t"
  by (cases "(t, u)" rule: union_bytes.cases) (auto simp: type_size_def enc_int_def enc_int64_def)

lemma init_raw_len:
  "init_raw len v = Inr v' \<Longrightarrow>
     val_type v' = val_type v \<and> (\<exists>r. raw v' = Some r \<and> int (length (rec_data r)) = len)"
  by (auto simp: init_raw_def rbind_Inr str_bytes_def put_bytes_def dest: union_bytes_len split: if_splits)

lemma convert_sv_value_type: "convert_sv_value sv (Some c) = Inr v \<Longrightarrow> val_type v = cm_type c"
  by (auto simp: convert_sv_value_def rbind_Inr check_val_type_def split: if_splits)

lemma check_rhs_val_type:
  "check_rhs_val l sv = Inr v \<Longrightarrow>
     val_type v = cm_type l \<and> (\<exists>r. raw v = Some r \<and> int (length (rec_data r)) = cm_len l)"
proof -
  assume ok: "check_rhs_val l sv = Inr v"
  then obtain w where w: "init_raw (cm_len l) w = Inr v" "val_type w = cm_type l"
    unfolding check_rhs_val_def
    by (force simp: rbind_Inr dest: convert_sv_value_type split: option.splits if_splits)
  with init_raw_len[OF w(1)] show ?thesis by simp
qed

lemma check_cond_typed:
  assumes wf: "db_wf db" and cols: "get_all_cols db ts = Inr cs" and ok: "check_cond db cs rc = Inr c"
  shows "cond_typed db ts c"
proof -
  obtain b lhs rhs l where c: "rc_is_rhs_val rc = Some b" "check_column cs (rc_lhs_col rc) = Inr lhs"
      "(if b then Inr (rc_rhs_col rc) else check_column cs (rc_rhs_col rc)) = Inr rhs"
      "get_tab_col db lhs = Inr l"
    using ok unfolding check_cond_def by (auto simp: rbind_Inr split: option.splits)
  have t: "tc_tab_name lhs \<in> set ts" using c(2) by (rule checked_table[OF wf cols])
  show ?thesis
  proof (cases b)
    case True
    with ok c obtain v where "check_rhs_val l (rc_rhs_sv rc) = Inr v"
        "c = \<lparr>lhs_col = lhs, cond_op = rc_op rc, is_rhs_val = True, rhs_col = rhs, rhs_val = v\<rparr>"
      unfolding check_cond_def by (auto simp: rbind_Inr)
    with check_rhs_val_type[OF this(1)] t c(4) show ?thesis by (auto simp: cond_typed_def)
  next
    case False
    with ok c obtain r where "get_tab_col db rhs = Inr r" "cm_type l = cm_type r"
        "c = \<lparr>lhs_col = lhs, cond_op = rc_op rc, is_rhs_val = False, rhs_col = rhs, rhs_val = default_Value\<rparr>"
      unfolding check_cond_def by (auto simp: rbind_Inr split: if_splits)
    moreover have "tc_tab_name rhs \<in> set ts" using c(3) False by (simp add: checked_table[OF wf cols])
    ultimately show ?thesis using t c(4) by (simp add: cond_typed_def)
  qed
qed

lemma compare_raw_value_ok:
  "raw_len t len \<le> int (length a) \<Longrightarrow> raw_len t len \<le> int (length b) \<Longrightarrow> 0 \<le> len \<Longrightarrow>
   \<exists>k. compare_raw_value a b t len = Inr k"
  by (auto simp: compare_raw_value_def raw_len_def type_size_def split: ColType.splits)

lemma col_ok_raw_len: "col_ok c \<Longrightarrow> raw_len (cm_type c) (cm_len c) = cm_len c"
  by (auto simp: col_ok_def raw_len_def)

lemma eval_condition_total:
  assumes wf: "db_wf db" and typed: "cond_typed db ts c" and tab: "get_table (tc_tab_name (lhs_col c)) db = Inr tab"
    and rec: "fits_tab tab rec" and l: "get_tab_col db (lhs_col c) = Inr l"
    and cols: "\<not> is_rhs_val c \<Longrightarrow> tc_tab_name (rhs_col c) = tc_tab_name (lhs_col c) \<and>
                 (\<exists>r. get_tab_col db (rhs_col c) = Inr r \<and> cm_len r \<le> cm_len l)"
  shows "\<exists>b. eval_condition tab rec c = Inr b"
proof -
  have lc: "get_col (tc_col_name (lhs_col c)) tab = Inr l" "l \<in> set (tm_cols tab)" "col_ok l"
    using get_tab_col_wf[OF wf l] tab by auto
  have ll: "cm_len l \<le> int (length (drop (nat (cm_offset l)) (rec_data rec)))"
    using lc rec by (auto simp: fits_tab_def col_ok_def)
  show ?thesis
  proof (cases "is_rhs_val c")
    case True
    then obtain r where r: "raw (rhs_val c) = Some r" "int (length (rec_data r)) = cm_len l"
      using typed l by (auto simp: cond_typed_def split: option.splits)
    obtain k where "compare_raw_value (drop (nat (cm_offset l)) (rec_data rec)) (rec_data r) (cm_type l) (cm_len l) = Inr k"
      using compare_raw_value_ok[of "cm_type l" "cm_len l"] ll r(2) lc(3) by (metis col_ok_raw_len col_ok_def order_refl)
    then show ?thesis using True lc(1) r(1) by (simp add: eval_condition_def)
  next
    case False
    then obtain r where r: "get_tab_col db (rhs_col c) = Inr r" "cm_len r \<le> cm_len l"
        "tc_tab_name (rhs_col c) = tc_tab_name (lhs_col c)" using cols by blast
    have rc: "get_col (tc_col_name (rhs_col c)) tab = Inr r" "r \<in> set (tm_cols tab)" "col_ok r"
      using get_tab_col_wf[OF wf r(1)] tab r(3) by auto
    have rl: "cm_len r \<le> int (length (drop (nat (cm_offset r)) (rec_data rec)))"
      using rc rec by (auto simp: fits_tab_def col_ok_def)
    have ty: "cm_type r = cm_type l" using typed l False r(1) by (simp add: cond_typed_def)
    obtain k where "compare_raw_value (drop (nat (cm_offset l)) (rec_data rec)) (drop (nat (cm_offset r)) (rec_data rec))
        (cm_type l) (cm_len r) = Inr k"
      using compare_raw_value_ok[of "cm_type r" "cm_len r"] ll rl r(2) rc(3) ty
      by (metis col_ok_raw_len col_ok_def order_trans)
    then show ?thesis using False lc(1) rc(1) by (simp add: eval_condition_def)
  qed
qed


text \<open>A table with an INT and a CHAR column, and \<^verbatim>\<open>where s = 'x' and a > a\<close> on it.\<close>

definition witness_db :: DbMeta where
  "witness_db = \<lparr>db_name = ''d'', tabs = [(''t'', \<lparr>tm_name = ''t'',
     tm_cols = [\<lparr>cm_tab_name = ''t'', cm_name = ''a'', cm_type = TYPE_INT, cm_len = 4, cm_offset = 0, cm_index = False\<rparr>,
                \<lparr>cm_tab_name = ''t'', cm_name = ''s'', cm_type = TYPE_STRING, cm_len = 2, cm_offset = 4, cm_index = False\<rparr>],
     tm_indexes = []\<rparr>)]\<rparr>"

definition witness_where :: "BinaryExpr list" where
  "witness_where =
     [\<lparr>be_lhs = \<lparr>sv_tab_name = '''', sv_col_name = ''s''\<rparr>, be_op = SV_OP_EQ, be_rhs = ValueExpr (StringLit ''x'')\<rparr>,
      \<lparr>be_lhs = \<lparr>sv_tab_name = '''', sv_col_name = ''a''\<rparr>, be_op = SV_OP_GT,
       be_rhs = ColExpr \<lparr>sv_tab_name = '''', sv_col_name = ''a''\<rparr>\<rparr>]"


end
