(* ===== verification/Planner.thy ===== *)
theory Planner
  imports Analyze RmFile "HOL-Library.Multiset"
begin

text \<open>
  Query planning: the plan nodes of \<^verbatim>\<open>optimizer/plan.h\<close>, \<^verbatim>\<open>optimizer/planner.cpp\<close> and \<^verbatim>\<open>optimizer/optimizer.h\<close>. The planner
  reads the catalogue (\<open>db\<close>) and, for its row estimates, the headers of the open table files (\<open>fhs\<close>). A null
  plan pointer is \<open>NullPlan\<close>; plans are shared pointers in the source but each node is referenced from one place
  of the tree, so changing a node in place is returning the changed tree. The main theorem says that the tree
  for a FROM list scans every table once and tests every condition once, at a node that has its columns.
\<close>

section \<open>Plans\<close>

datatype PlanTag = T_Invalid | T_Help | T_ShowTable | T_ShowIndex | T_DescTable | T_CreateTable | T_DropTable
  | T_CreateIndex | T_DropIndex | T_Insert | T_Update | T_Delete | T_select | T_Transaction_begin
  | T_Transaction_commit | T_Transaction_abort | T_Transaction_rollback | T_SeqScan | T_IndexScan | T_NestLoop
  | T_Sort | T_Projection | T_Agg

record ColDef =
  cd_name :: string
  cd_type :: ColType
  cd_len :: int

record ScanNode =
  scan_tag :: PlanTag
  scan_tab :: string
  scan_cols :: "ColMeta list"
  scan_conds :: "Condition list"
  scan_len :: int
  fed_conds :: "Condition list"
  index_col_names :: "string list"

datatype Plan =
    NullPlan
  | ScanPlan ScanNode
  | JoinPlan PlanTag Plan Plan "Condition list" JoinType
  | ProjectionPlan PlanTag Plan "TabCol list"
  | AggPlan PlanTag Plan "SelItem list" "string list"
  | SortPlan PlanTag Plan "TabCol list" "bool list" int
  | DMLPlan PlanTag Plan string "Value list" "Condition list" "SetClause list"
  | DDLPlan PlanTag string "string list" "ColDef list"
  | OtherPlan PlanTag string

text \<open>\<^verbatim>\<open>cols_.back()\<close> of a table without columns is undefined.\<close>

definition new_ScanPlan :: "PlanTag \<Rightarrow> DbMeta \<Rightarrow> string \<Rightarrow> Condition list \<Rightarrow> string list \<Rightarrow> ScanNode res" where
  "new_ScanPlan tag db tab_name conds index_cols =
     rbind (get_table tab_name db) (\<lambda>tab.
       if tm_cols tab = [] then Inl UndefinedBehaviour
       else Inr \<lparr>scan_tag = tag, scan_tab = tab_name, scan_cols = tm_cols tab, scan_conds = conds,
                 scan_len = cm_offset (last (tm_cols tab)) + cm_len (last (tm_cols tab)),
                 fed_conds = conds, index_col_names = index_cols\<rparr>)"

definition new_JoinPlan :: "PlanTag \<Rightarrow> Plan \<Rightarrow> Plan \<Rightarrow> Condition list \<Rightarrow> Plan" where
  "new_JoinPlan tag l r conds = JoinPlan tag l r conds INNER_JOIN"

definition new_AggPlan :: "PlanTag \<Rightarrow> Plan \<Rightarrow> SelItem list \<Rightarrow> Plan" where
  "new_AggPlan tag sub items = AggPlan tag sub items (map sel_alias items)"

section \<open>Choosing an index\<close>

definition on_col :: "string \<Rightarrow> ColMeta \<Rightarrow> Condition \<Rightarrow> bool" where
  "on_col tab_name col cond \<longleftrightarrow>
     \<not> (\<not> is_rhs_val cond \<or> tc_tab_name (lhs_col cond) \<noteq> tab_name \<or> tc_col_name (lhs_col cond) \<noteq> cm_name col)"

definition has_eq :: "string \<Rightarrow> Condition list \<Rightarrow> ColMeta \<Rightarrow> bool" where
  "has_eq tab_name conds col \<longleftrightarrow> list_ex (\<lambda>c. on_col tab_name col c \<and> cond_op c = OP_EQ) conds"

definition has_range :: "string \<Rightarrow> Condition list \<Rightarrow> ColMeta \<Rightarrow> bool" where
  "has_range tab_name conds col \<longleftrightarrow>
     list_ex (\<lambda>c. on_col tab_name col c \<and> cond_op c \<in> {OP_LT, OP_LE, OP_GT, OP_GE}) conds"

fun index_score :: "string \<Rightarrow> Condition list \<Rightarrow> ColMeta list \<Rightarrow> int" where
  "index_score tab_name conds [] = 0"
| "index_score tab_name conds (col # cols) =
     (if has_eq tab_name conds col then 2 + index_score tab_name conds cols
      else if has_range tab_name conds col then 1 else 0)"

fun best_index :: "string \<Rightarrow> Condition list \<Rightarrow> IndexMeta list \<Rightarrow> int \<Rightarrow> string list \<Rightarrow> int \<times> string list" where
  "best_index tab_name conds [] best_score best_cols = (best_score, best_cols)"
| "best_index tab_name conds (i # is) best_score best_cols =
     (let score = index_score tab_name conds (im_cols i)
      in if score > best_score then best_index tab_name conds is score (map cm_name (im_cols i))
         else best_index tab_name conds is best_score best_cols)"

definition get_index_cols :: "DbMeta \<Rightarrow> string \<Rightarrow> Condition list \<Rightarrow> (bool \<times> string list) res" where
  "get_index_cols db tab_name conds =
     rbind (get_table tab_name db) (\<lambda>tab.
       let (best_score, best_cols) = best_index tab_name conds (tm_indexes tab) 0 []
       in if best_score > 0 then Inr (True, best_cols) else Inr (False, []))"

text \<open>The scan of one table, the same in \<^verbatim>\<open>make_one_rel\<close>, DELETE and UPDATE.\<close>

definition table_scan :: "DbMeta \<Rightarrow> string \<Rightarrow> Condition list \<Rightarrow> ScanNode res" where
  "table_scan db tab_name conds =
     rbind (get_index_cols db tab_name conds) (\<lambda>(index_exist, index_cols).
       if \<not> index_exist then new_ScanPlan T_SeqScan db tab_name conds []
       else new_ScanPlan T_IndexScan db tab_name conds index_cols)"

section \<open>Distributing conditions\<close>

definition popped :: "string \<Rightarrow> Condition \<Rightarrow> bool" where
  "popped tab_name c \<longleftrightarrow> tab_name = tc_tab_name (lhs_col c) \<and> is_rhs_val c \<or>
     tc_tab_name (lhs_col c) = tc_tab_name (rhs_col c)"

text \<open>The conditions taken, and those left.\<close>

definition pop_conds :: "Condition list \<Rightarrow> string \<Rightarrow> Condition list \<times> Condition list" where
  "pop_conds conds tab_name = (filter (popped tab_name) conds, filter (\<lambda>c. \<not> popped tab_name c) conds)"

fun swap_op :: "CompOp \<Rightarrow> CompOp" where
  "swap_op OP_EQ = OP_EQ"
| "swap_op OP_NE = OP_NE"
| "swap_op OP_LT = OP_GT"
| "swap_op OP_GT = OP_LT"
| "swap_op OP_LE = OP_GE"
| "swap_op OP_GE = OP_LE"

definition swap_cond :: "Condition \<Rightarrow> Condition" where
  "swap_cond c = c\<lparr>lhs_col := rhs_col c, rhs_col := lhs_col c, cond_op := swap_op (cond_op c)\<rparr>"

text \<open>The plan with the condition added to the lowest join over both its tables, when the result is 3.\<close>

fun push_conds :: "Condition \<Rightarrow> Plan \<Rightarrow> int \<times> Plan" where
  "push_conds cond (ScanPlan x) =
     (if scan_tab x = tc_tab_name (lhs_col cond) then 1
      else if scan_tab x = tc_tab_name (rhs_col cond) then 2 else 0, ScanPlan x)"
| "push_conds cond (JoinPlan tag l r conds t) =
     (let (left_res, l') = push_conds cond l
      in if left_res = 3 then (3, JoinPlan tag l' r conds t)
         else let (right_res, r') = push_conds cond r
              in if right_res = 3 then (3, JoinPlan tag l' r' conds t)
                 else if left_res = 0 \<or> right_res = 0 then (left_res + right_res, JoinPlan tag l' r' conds t)
                 else (3, JoinPlan tag l' r' (conds @ [if left_res = 2 then swap_cond cond else cond]) t))"
| "push_conds cond p = (0, p)"

fun scan_pos :: "string \<Rightarrow> ScanNode list \<Rightarrow> nat option" where
  "scan_pos table [] = None"
| "scan_pos table (x # xs) = (if scan_tab x = table then Some 0 else map_option Suc (scan_pos table xs))"

text \<open>The scan of a table, with the table marked as used; null if there is none.\<close>

definition pop_scan :: "int list \<Rightarrow> string \<Rightarrow> string list \<Rightarrow> ScanNode list \<Rightarrow> Plan \<times> int list \<times> string list" where
  "pop_scan scantbl table joined_tables plans =
     (case scan_pos table plans of
        Some i \<Rightarrow> (ScanPlan (plans ! i), scantbl[i := 1], joined_tables @ [scan_tab (plans ! i)])
      | None \<Rightarrow> (NullPlan, scantbl, joined_tables))"

section \<open>Row estimates and joins\<close>

text \<open>Counts are \<^verbatim>\<open>size_t\<close>.\<close>

definition size_t :: "int \<Rightarrow> int" where
  "size_t x = x mod 2 ^ 64"

fun estimate_conds :: "string \<Rightarrow> Condition list \<Rightarrow> int \<Rightarrow> int res" where
  "estimate_conds tab_name [] rows = Inr rows"
| "estimate_conds tab_name (cond # conds) rows =
     (if \<not> is_rhs_val cond \<or> tc_tab_name (lhs_col cond) \<noteq> tab_name \<or> val_type (rhs_val cond) \<noteq> TYPE_INT
      then estimate_conds tab_name conds rows
      else case raw (rhs_val cond) of
             None \<Rightarrow> Inl UndefinedBehaviour
           | Some r \<Rightarrow>
               if length (rec_data r) < 4 then Inl UndefinedBehaviour
               else let bound = dec_int 0 (rec_data r)
                    in if bound < 0 then estimate_conds tab_name conds rows
                       else estimate_conds tab_name conds
                         (case cond_op cond of
                            OP_LT \<Rightarrow> min rows (size_t bound)
                          | OP_LE \<Rightarrow> min rows (size_t (bound + 1))
                          | OP_EQ \<Rightarrow> min rows 1
                          | _ \<Rightarrow> rows))"

definition estimate_scan_rows :: "(string \<Rightarrow> RmFileHdr option) \<Rightarrow> ScanNode \<Rightarrow> int res" where
  "estimate_scan_rows fhs scan =
     (case fhs (scan_tab scan) of
        None \<Rightarrow> Inl StdOutOfRange
      | Some hdr \<Rightarrow>
          if num_pages hdr \<le> 1 then Inr 0
          else estimate_conds (scan_tab scan) (fed_conds scan)
                 (size_t (size_t (num_pages hdr - 1) * size_t (num_records_per_page hdr))))"

definition maybe_swap_join_children ::
    "(string \<Rightarrow> RmFileHdr option) \<Rightarrow> Plan \<Rightarrow> Plan \<Rightarrow> Condition list \<Rightarrow> (Plan \<times> Plan \<times> Condition list) res" where
  "maybe_swap_join_children fhs left right conds =
     (case (left, right) of
        (ScanPlan ls, ScanPlan rs) \<Rightarrow>
          rbind (estimate_scan_rows fhs ls) (\<lambda>lcnt.
          rbind (estimate_scan_rows fhs rs) (\<lambda>rcnt.
            if lcnt \<le> rcnt then Inr (left, right, conds) else Inr (right, left, map swap_cond conds)))
      | _ \<Rightarrow> Inr (left, right, conds))"

definition make_join_plan ::
    "(string \<Rightarrow> RmFileHdr option) \<Rightarrow> Plan \<Rightarrow> Plan \<Rightarrow> Condition list \<Rightarrow> Plan res" where
  "make_join_plan fhs left right conds =
     rbind (maybe_swap_join_children fhs left right conds) (\<lambda>(l, r, cs). Inr (new_JoinPlan T_NestLoop l r cs))"

section \<open>The join tree\<close>

fun scan_tables :: "DbMeta \<Rightarrow> string list \<Rightarrow> Condition list \<Rightarrow> (ScanNode list \<times> Condition list) res" where
  "scan_tables db [] conds = Inr ([], conds)"
| "scan_tables db (t # ts) conds =
     (let (curr_conds, rest) = pop_conds conds t
      in rbind (table_scan db t curr_conds) (\<lambda>s.
         rbind (scan_tables db ts rest) (\<lambda>(ss, conds'). Inr (s # ss, conds'))))"

record JoinState =
  scantbl :: "int list"
  joined_tables :: "string list"
  join_tree :: Plan

definition first_join ::
    "(string \<Rightarrow> RmFileHdr option) \<Rightarrow> ScanNode list \<Rightarrow> Condition \<Rightarrow> JoinState \<Rightarrow> JoinState res" where
  "first_join fhs plans c s =
     (let (left, st1, jt1) = pop_scan (scantbl s) (tc_tab_name (lhs_col c)) (joined_tables s) plans;
          (right, st2, jt2) = pop_scan st1 (tc_tab_name (rhs_col c)) jt1 plans
      in rbind (make_join_plan fhs left right [c]) (\<lambda>p.
           Inr \<lparr>scantbl = st2, joined_tables = jt2, join_tree = p\<rparr>))"

definition join_step ::
    "(string \<Rightarrow> RmFileHdr option) \<Rightarrow> ScanNode list \<Rightarrow> Condition \<Rightarrow> JoinState \<Rightarrow> JoinState res" where
  "join_step fhs plans c s =
     (let (left, st1, jt1) =
            (if tc_tab_name (lhs_col c) \<notin> set (joined_tables s)
             then pop_scan (scantbl s) (tc_tab_name (lhs_col c)) (joined_tables s) plans
             else (NullPlan, scantbl s, joined_tables s));
          isneedreverse = (tc_tab_name (rhs_col c) \<notin> set jt1);
          (right, st2, jt2) =
            (if isneedreverse then pop_scan st1 (tc_tab_name (rhs_col c)) jt1 plans else (NullPlan, st1, jt1))
      in rbind
           (if left \<noteq> NullPlan \<and> right \<noteq> NullPlan
            then rbind (make_join_plan fhs left right [c]) (\<lambda>temp. make_join_plan fhs temp (join_tree s) [])
            else if left \<noteq> NullPlan \<or> right \<noteq> NullPlan
            then (if isneedreverse then make_join_plan fhs right (join_tree s) [swap_cond c]
                  else make_join_plan fhs left (join_tree s) [c])
            else Inr (snd (push_conds c (join_tree s))))
           (\<lambda>p. Inr \<lparr>scantbl = st2, joined_tables = jt2, join_tree = p\<rparr>))"

fun join_steps ::
    "(string \<Rightarrow> RmFileHdr option) \<Rightarrow> ScanNode list \<Rightarrow> Condition list \<Rightarrow> JoinState \<Rightarrow> JoinState res" where
  "join_steps fhs plans [] s = Inr s"
| "join_steps fhs plans (c # cs) s = rbind (join_step fhs plans c s) (join_steps fhs plans cs)"

text \<open>Joining the tables no condition mentioned.\<close>

fun join_rest :: "(string \<Rightarrow> RmFileHdr option) \<Rightarrow> ScanNode list \<Rightarrow> int list \<Rightarrow> Plan \<Rightarrow> Plan res" where
  "join_rest fhs (x # xs) (b # bs) p =
     (if b = -1 then rbind (make_join_plan fhs (ScanPlan x) p []) (join_rest fhs xs bs) else join_rest fhs xs bs p)"
| "join_rest fhs _ _ p = Inr p"

definition new_JoinState :: "nat \<Rightarrow> JoinState" where
  "new_JoinState n = \<lparr>scantbl = replicate n (-1), joined_tables = replicate n [], join_tree = NullPlan\<rparr>"

definition start_join :: "(string \<Rightarrow> RmFileHdr option) \<Rightarrow> ScanNode list \<Rightarrow> Condition list \<Rightarrow> JoinState res" where
  "start_join fhs plans conds =
     (let s0 = new_JoinState (length plans)
      in case conds of
           c # cs \<Rightarrow> rbind (first_join fhs plans c s0) (join_steps fhs plans cs)
         | [] \<Rightarrow> Inr (s0\<lparr>scantbl := (scantbl s0)[0 := 1], join_tree := ScanPlan (plans ! 0)\<rparr>))"

definition make_one_rel :: "DbMeta \<Rightarrow> (string \<Rightarrow> RmFileHdr option) \<Rightarrow> string list \<Rightarrow> Condition list \<Rightarrow> Plan res" where
  "make_one_rel db fhs tables conds =
     rbind (scan_tables db tables conds) (\<lambda>(plans, conds').
       case plans of
         [] \<Rightarrow> Inl UndefinedBehaviour
       | [s] \<Rightarrow> Inr (ScanPlan s)
       | _ \<Rightarrow> rbind (start_join fhs plans conds') (\<lambda>s. join_rest fhs plans (scantbl s) (join_tree s)))"

section \<open>Statements\<close>

definition sort_col :: "ColMeta list \<Rightarrow> OrderBy \<Rightarrow> TabCol res" where
  "sort_col all_cols order = check_column all_cols (tab_col (ob_cols order))"

definition generate_sort_plan :: "DbMeta \<Rightarrow> Query \<Rightarrow> SelectStmt \<Rightarrow> Plan \<Rightarrow> Plan res" where
  "generate_sort_plan db query x plan =
     (if orders x = [] then Inr plan
      else rbind (get_all_cols db (q_tables query)) (\<lambda>all_cols.
           rbind (rmap (sort_col all_cols) (orders x)) (\<lambda>sort_cols.
             Inr (SortPlan T_Sort plan sort_cols (map (\<lambda>ob. orderby_dir ob = OrderBy_DESC) (orders x)) (limit x)))))"

definition physical_optimization :: "DbMeta \<Rightarrow> (string \<Rightarrow> RmFileHdr option) \<Rightarrow> Query \<Rightarrow> SelectStmt \<Rightarrow> Plan res" where
  "physical_optimization db fhs query x =
     rbind (make_one_rel db fhs (q_tables query) (q_conds query)) (generate_sort_plan db query x)"

definition generate_select_plan :: "DbMeta \<Rightarrow> (string \<Rightarrow> RmFileHdr option) \<Rightarrow> Query \<Rightarrow> SelectStmt \<Rightarrow> Plan res" where
  "generate_select_plan db fhs query x =
     rbind (physical_optimization db fhs query x) (\<lambda>p.
       if list_ex (\<lambda>i. sel_kind i = SEL_AGG) (sel_items query)
       then Inr (new_AggPlan T_Agg p (sel_items query))
       else Inr (ProjectionPlan T_Projection p (q_cols query)))"

fun interp_sv_type :: "SvType \<Rightarrow> ColType" where
  "interp_sv_type SV_TYPE_INT = TYPE_INT"
| "interp_sv_type SV_TYPE_FLOAT = TYPE_FLOAT"
| "interp_sv_type SV_TYPE_BIGINT = TYPE_BIGINT"
| "interp_sv_type SV_TYPE_STRING = TYPE_STRING"
| "interp_sv_type SV_TYPE_DATETIME = TYPE_DATETIME"

definition field_def :: "Field \<Rightarrow> ColDef res" where
  "field_def f =
     (case f of
        SvColDef name ty \<Rightarrow> Inr \<lparr>cd_name = name, cd_type = interp_sv_type (tl_type ty), cd_len = tl_len ty\<rparr>
      | PlainField \<Rightarrow> Inl (RMDBError (InternalError ''Unexpected field type'')))"

definition do_planner :: "DbMeta \<Rightarrow> (string \<Rightarrow> RmFileHdr option) \<Rightarrow> Query \<Rightarrow> Plan res" where
  "do_planner db fhs query =
     (case q_parse query of
        CreateTable tab_name flds \<Rightarrow>
          rbind (rmap field_def flds) (\<lambda>col_defs. Inr (DDLPlan T_CreateTable tab_name [] col_defs))
      | DropTable tab_name \<Rightarrow> Inr (DDLPlan T_DropTable tab_name [] [])
      | CreateIndex tab_name col_names \<Rightarrow> Inr (DDLPlan T_CreateIndex tab_name col_names [])
      | DropIndex tab_name col_names \<Rightarrow> Inr (DDLPlan T_DropIndex tab_name col_names [])
      | InsertStmt tab_name vals \<Rightarrow> Inr (DMLPlan T_Insert NullPlan tab_name (q_values query) [] [])
      | DeleteStmt tab_name conds \<Rightarrow>
          rbind (table_scan db tab_name (q_conds query)) (\<lambda>s.
            Inr (DMLPlan T_Delete (ScanPlan s) tab_name [] (q_conds query) []))
      | UpdateStmt tab_name sets conds \<Rightarrow>
          rbind (table_scan db tab_name (q_conds query)) (\<lambda>s.
            Inr (DMLPlan T_Update (ScanPlan s) tab_name [] (q_conds query) (set_clauses query)))
      | Select x \<Rightarrow>
          rbind (generate_select_plan db fhs query x) (\<lambda>p. Inr (DMLPlan T_select p [] [] [] []))
      | _ \<Rightarrow> Inl (RMDBError (InternalError ''Unexpected AST root'')))"

definition plan_query :: "DbMeta \<Rightarrow> (string \<Rightarrow> RmFileHdr option) \<Rightarrow> Query \<Rightarrow> Plan res" where
  "plan_query db fhs query =
     (case q_parse query of
        Help \<Rightarrow> Inr (OtherPlan T_Help [])
      | ShowTables \<Rightarrow> Inr (OtherPlan T_ShowTable [])
      | ShowIndex tab_name \<Rightarrow> Inr (OtherPlan T_ShowIndex tab_name)
      | DescTable tab_name \<Rightarrow> Inr (OtherPlan T_DescTable tab_name)
      | TxnBegin \<Rightarrow> Inr (OtherPlan T_Transaction_begin [])
      | TxnAbort \<Rightarrow> Inr (OtherPlan T_Transaction_abort [])
      | TxnCommit \<Rightarrow> Inr (OtherPlan T_Transaction_commit [])
      | TxnRollback \<Rightarrow> Inr (OtherPlan T_Transaction_rollback [])
      | _ \<Rightarrow> do_planner db fhs query)"

section \<open>What a join tree scans and tests\<close>

fun plan_scans :: "Plan \<Rightarrow> ScanNode list" where
  "plan_scans (ScanPlan s) = [s]"
| "plan_scans (JoinPlan tag l r cs t) = plan_scans l @ plan_scans r"
| "plan_scans _ = []"

abbreviation plan_tabs :: "Plan \<Rightarrow> string list" where
  "plan_tabs p \<equiv> map scan_tab (plan_scans p)"

fun join_conds :: "Plan \<Rightarrow> Condition list" where
  "join_conds (JoinPlan tag l r cs t) = cs @ join_conds l @ join_conds r"
| "join_conds _ = []"

text \<open>A tree of joins over scans, whose conditions have their left column below the left child and their right
  column below the right child.\<close>

fun join_wf :: "Plan \<Rightarrow> bool" where
  "join_wf (ScanPlan s) = True"
| "join_wf (JoinPlan tag l r cs t) \<longleftrightarrow> join_wf l \<and> join_wf r \<and>
     (\<forall>c \<in> set cs. tc_tab_name (lhs_col c) \<in> set (plan_tabs l) \<and> tc_tab_name (rhs_col c) \<in> set (plan_tabs r))"
| "join_wf _ = False"

text \<open>A condition up to exchanging its sides: the columns change places, and the operator becomes the one that
  holds of a comparison's result if and only if the old one holds of the opposite result.\<close>

definition mirrors :: "Condition \<Rightarrow> Condition \<Rightarrow> bool" where
  "mirrors d c \<longleftrightarrow> d = c\<lparr>lhs_col := rhs_col c, rhs_col := lhs_col c, cond_op := cond_op d\<rparr> \<and>
     (\<forall>k. eval_compare k (cond_op d) \<longleftrightarrow> eval_compare (- k) (cond_op c))"

definition unordered :: "Condition \<Rightarrow> Condition set" where
  "unordered c = {d. d = c \<or> mirrors d c}"

abbreviation conds_of :: "Condition list \<Rightarrow> Condition set multiset" where
  "conds_of cs \<equiv> mset (map unordered cs)"

lemma swap_swap [simp]: "swap_cond (swap_cond c) = c"
  by (cases "cond_op c") (simp_all add: swap_cond_def)

lemma eval_compare_swap: "eval_compare k (swap_op op) \<longleftrightarrow> eval_compare (- k) op"
  by (cases op) auto

lemma eval_compare_inj: "\<forall>k. eval_compare k a \<longleftrightarrow> eval_compare k b \<Longrightarrow> a = b"
proof -
  assume "\<forall>k. eval_compare k a \<longleftrightarrow> eval_compare k b"
  then have "eval_compare (-1) a \<longleftrightarrow> eval_compare (-1) b" "eval_compare 0 a \<longleftrightarrow> eval_compare 0 b"
    "eval_compare 1 a \<longleftrightarrow> eval_compare 1 b" by blast+
  then show ?thesis by (cases a; cases b) simp_all
qed

lemma mirrors_iff: "mirrors d c \<longleftrightarrow> d = swap_cond c"
proof
  assume m: "mirrors d c"
  then have "cond_op d = swap_op (cond_op c)"
    by (intro eval_compare_inj) (simp add: mirrors_def eval_compare_swap)
  then show "d = swap_cond c" using m by (auto simp: mirrors_def swap_cond_def)
qed (auto simp: mirrors_def swap_cond_def eval_compare_swap)

lemma unordered_swap [simp]: "unordered (swap_cond c) = unordered c"
  by (auto simp: unordered_def mirrors_iff)

lemma swap_cond_cols [simp]: "lhs_col (swap_cond c) = rhs_col c" "rhs_col (swap_cond c) = lhs_col c"
  by (simp_all add: swap_cond_def)

lemma conds_of_swap [simp]: "conds_of (map swap_cond cs) = conds_of cs"
  by (simp add: comp_def)

lemma push_conds_spec:
  assumes "join_wf p" and "distinct (plan_tabs p)" and "tc_tab_name (lhs_col c) \<noteq> tc_tab_name (rhs_col c)"
  defines "l \<equiv> tc_tab_name (lhs_col c)" and "r \<equiv> tc_tab_name (rhs_col c)"
  shows "if l \<in> set (plan_tabs p) \<and> r \<in> set (plan_tabs p)
         then fst (push_conds c p) = 3 \<and> plan_scans (snd (push_conds c p)) = plan_scans p \<and>
              join_wf (snd (push_conds c p)) \<and>
              conds_of (join_conds (snd (push_conds c p))) = add_mset (unordered c) (conds_of (join_conds p))
         else push_conds c p = (if l \<in> set (plan_tabs p) then 1 else if r \<in> set (plan_tabs p) then 2 else 0, p)"
  using assms(1,2)
proof (induction p)
  case (ScanPlan s)
  then show ?case using assms(3) by (auto simp: l_def r_def)
next
  case (JoinPlan tag pl pr cs t)
  have il: "if l \<in> set (plan_tabs pl) \<and> r \<in> set (plan_tabs pl)
         then fst (push_conds c pl) = 3 \<and> plan_scans (snd (push_conds c pl)) = plan_scans pl \<and>
              join_wf (snd (push_conds c pl)) \<and>
              conds_of (join_conds (snd (push_conds c pl))) = add_mset (unordered c) (conds_of (join_conds pl))
         else push_conds c pl = (if l \<in> set (plan_tabs pl) then 1 else if r \<in> set (plan_tabs pl) then 2 else 0, pl)"
    using JoinPlan.IH(1) JoinPlan.prems by simp
  have ir: "if l \<in> set (plan_tabs pr) \<and> r \<in> set (plan_tabs pr)
         then fst (push_conds c pr) = 3 \<and> plan_scans (snd (push_conds c pr)) = plan_scans pr \<and>
              join_wf (snd (push_conds c pr)) \<and>
              conds_of (join_conds (snd (push_conds c pr))) = add_mset (unordered c) (conds_of (join_conds pr))
         else push_conds c pr = (if l \<in> set (plan_tabs pr) then 1 else if r \<in> set (plan_tabs pr) then 2 else 0, pr)"
    using JoinPlan.IH(2) JoinPlan.prems by simp
  obtain nl pl' where pl: "push_conds c pl = (nl, pl')" by fastforce
  obtain nr pr' where pr: "push_conds c pr = (nr, pr')" by fastforce
  have dj: "set (plan_tabs pl) \<inter> set (plan_tabs pr) = {}" using JoinPlan.prems by simp
  consider (ll) "l \<in> set (plan_tabs pl)" "r \<in> set (plan_tabs pl)"
    | (rr) "l \<in> set (plan_tabs pr)" "r \<in> set (plan_tabs pr)"
    | (lr) "l \<in> set (plan_tabs pl)" "r \<in> set (plan_tabs pr)"
    | (rl) "l \<in> set (plan_tabs pr)" "r \<in> set (plan_tabs pl)"
    | (no) "\<not> (l \<in> set (plan_tabs (JoinPlan tag pl pr cs t)) \<and> r \<in> set (plan_tabs (JoinPlan tag pl pr cs t)))"
    by auto
  then show ?case
  proof cases
    case ll
    then show ?thesis using il JoinPlan.prems(1) by (simp add: pl)
  next
    case rr
    then have "l \<notin> set (plan_tabs pl)" "r \<notin> set (plan_tabs pl)" using dj by blast+
    then show ?thesis using il ir rr JoinPlan.prems(1) by (simp add: pl pr)
  next
    case lr
    then have "l \<notin> set (plan_tabs pr)" "r \<notin> set (plan_tabs pl)" using dj by blast+
    then show ?thesis using il ir lr JoinPlan.prems(1) by (simp add: pl pr l_def r_def)
  next
    case rl
    then have "l \<notin> set (plan_tabs pl)" "r \<notin> set (plan_tabs pr)" using dj by blast+
    then show ?thesis using il ir rl JoinPlan.prems(1) by (simp add: pl pr l_def r_def)
  next
    case no
    have "\<not> (l \<in> set (plan_tabs pl) \<and> l \<in> set (plan_tabs pr))" "\<not> (r \<in> set (plan_tabs pl) \<and> r \<in> set (plan_tabs pr))"
      using dj by blast+
    then show ?thesis using no il ir by (simp add: pl pr split: if_splits)
  qed
qed simp_all

text \<open>Joining two trees.\<close>

definition est_ok :: "(string \<Rightarrow> RmFileHdr option) \<Rightarrow> ScanNode \<Rightarrow> bool" where
  "est_ok fhs s \<longleftrightarrow> (\<exists>n. estimate_scan_rows fhs s = Inr n)"

definition joins_to :: "Plan \<Rightarrow> ScanNode multiset \<Rightarrow> Condition list \<Rightarrow> bool" where
  "joins_to p ss cs \<longleftrightarrow> join_wf p \<and> mset (plan_scans p) = ss \<and> conds_of (join_conds p) = conds_of cs"

lemma joins_to_conds: "joins_to p ss cs \<Longrightarrow> conds_of cs = conds_of cs' \<Longrightarrow> joins_to p ss cs'"
  by (simp add: joins_to_def)

lemma joins_to_scan: "joins_to (ScanPlan s) {#s#} []"
  by (simp add: joins_to_def)

lemma joins_to_tabs: "joins_to p ss cs \<Longrightarrow> set (plan_tabs p) = scan_tab ` set_mset ss"
  by (auto simp: joins_to_def)

lemma make_join_plan_spec:
  assumes "joins_to l sl csl" and "joins_to r sr csr" and "\<forall>s \<in># sl + sr. est_ok fhs s"
    and "\<forall>c \<in> set cs. tc_tab_name (lhs_col c) \<in> scan_tab ` set_mset sl \<and> tc_tab_name (rhs_col c) \<in> scan_tab ` set_mset sr"
  shows "\<exists>p. make_join_plan fhs l r cs = Inr p \<and> joins_to p (sl + sr) (cs @ csl @ csr)"
proof -
  have j: "joins_to (new_JoinPlan T_NestLoop l r cs) (sl + sr) (cs @ csl @ csr)"
    using assms(1,2,4) joins_to_tabs[OF assms(1)] joins_to_tabs[OF assms(2)]
    by (auto simp: joins_to_def new_JoinPlan_def)
  have js: "joins_to (new_JoinPlan T_NestLoop r l (map swap_cond cs)) (sl + sr) (cs @ csl @ csr)"
    using assms(1,2,4) joins_to_tabs[OF assms(1)] joins_to_tabs[OF assms(2)]
    by (auto simp: joins_to_def new_JoinPlan_def comp_def)
  have e: "\<exists>n. estimate_scan_rows fhs s = Inr n" if "ScanPlan s = l \<or> ScanPlan s = r" for s
    using that assms(1-3) by (auto simp: joins_to_def est_ok_def)
  show ?thesis
  proof (cases "\<exists>ls rs. l = ScanPlan ls \<and> r = ScanPlan rs")
    case True
    then obtain ls rs where lr: "l = ScanPlan ls" "r = ScanPlan rs" by blast
    obtain n k where "estimate_scan_rows fhs ls = Inr n" "estimate_scan_rows fhs rs = Inr k"
      using e[of ls] e[of rs] lr by auto
    then show ?thesis using j js lr
      by (cases "n \<le> k") (simp_all add: make_join_plan_def maybe_swap_join_children_def)
  next
    case False
    then have "maybe_swap_join_children fhs l r cs = Inr (l, r, cs)"
      by (auto simp: maybe_swap_join_children_def split: Plan.splits)
    then show ?thesis using j by (simp add: make_join_plan_def)
  qed
qed

section \<open>The join loop\<close>

fun marked :: "int \<Rightarrow> ScanNode list \<Rightarrow> int list \<Rightarrow> ScanNode multiset" where
  "marked k (x # xs) (b # bs) = (if b = k then {#x#} else {#}) + marked k xs bs"
| "marked k _ _ = {#}"

lemma marked_all: "length bs = length xs \<Longrightarrow> set bs \<subseteq> {1, -1} \<Longrightarrow> marked 1 xs bs + marked (-1) xs bs = mset xs"
  by (induction xs bs rule: list_induct2') auto

lemma subseteq_add_mset: "A \<subseteq># B \<Longrightarrow> A \<subseteq># add_mset x B"
  by (metis add_mset_add_single mset_subset_eq_add_left subset_mset.order_trans)

lemma marked_sub: "length bs = length xs \<Longrightarrow> marked k xs bs \<subseteq># mset xs"
  by (induction xs bs rule: list_induct2') (auto intro: subseteq_add_mset)

lemma marked_none: "marked 1 xs (replicate n (-1)) = {#}"
  by (induction xs arbitrary: n) (case_tac n; simp)+

lemma marked_update:
  "length bs = length xs \<Longrightarrow> i < length xs \<Longrightarrow> bs ! i \<noteq> 1 \<Longrightarrow> marked 1 xs (bs[i := 1]) = add_mset (xs ! i) (marked 1 xs bs)"
proof (induction xs bs arbitrary: i rule: list_induct2')
  case (4 x xs b bs)
  then show ?case by (cases i) auto
qed auto

lemma marked_mem: "length bs = length xs \<Longrightarrow> i < length xs \<Longrightarrow> bs ! i = k \<Longrightarrow> xs ! i \<in># marked k xs bs"
proof (induction xs bs arbitrary: i rule: list_induct2')
  case (4 x xs b bs)
  then show ?case by (cases i) auto
qed auto

lemma scan_pos_found: "t \<in> scan_tab ` set xs \<Longrightarrow> \<exists>i < length xs. scan_pos t xs = Some i \<and> scan_tab (xs ! i) = t"
proof (induction xs)
  case (Cons x xs)
  show ?case
  proof (cases "scan_tab x = t")
    case False
    with Cons obtain i where "i < length xs" "scan_pos t xs = Some i" "scan_tab (xs ! i) = t" by auto
    with False show ?thesis by (intro exI[of _ "Suc i"]) auto
  qed auto
qed simp

definition marks_ok :: "ScanNode list \<Rightarrow> int list \<Rightarrow> bool" where
  "marks_ok plans st \<longleftrightarrow> length st = length plans \<and> set st \<subseteq> {1, -1}"

lemma pop_scan_spec:
  assumes "marks_ok plans st" and "t \<in> scan_tab ` set plans" and "t \<notin> scan_tab ` set_mset (marked 1 plans st)"
  shows "\<exists>s st'. pop_scan st t jt plans = (ScanPlan s, st', jt @ [t]) \<and> scan_tab s = t \<and> s \<in> set plans \<and>
           marks_ok plans st' \<and> marked 1 plans st' = add_mset s (marked 1 plans st)"
proof -
  obtain i where i: "i < length plans" "scan_pos t plans = Some i" "scan_tab (plans ! i) = t"
    using scan_pos_found[OF assms(2)] by blast
  have "st ! i \<noteq> 1"
    using assms(1,3) i marked_mem[of st plans i 1] by (auto simp: marks_ok_def)
  then have m: "marked 1 plans (st[i := 1]) = add_mset (plans ! i) (marked 1 plans st)"
    using assms(1) i by (intro marked_update) (auto simp: marks_ok_def)
  have "marks_ok plans (st[i := 1])"
    using assms(1) set_update_subset_insert[of st i 1] by (auto simp: marks_ok_def)
  with m i show ?thesis by (auto simp: pop_scan_def)
qed

lemma distinct_sub: "mset ys \<subseteq># mset xs \<Longrightarrow> distinct xs \<Longrightarrow> distinct ys"
  by (metis distinct_append mset_append mset_eq_imp_distinct_iff mset_subset_eq_exists_conv ex_mset)

definition join_inv :: "ScanNode list \<Rightarrow> Condition list \<Rightarrow> JoinState \<Rightarrow> bool" where
  "join_inv plans ready s \<longleftrightarrow> marks_ok plans (scantbl s) \<and>
     joins_to (join_tree s) (marked 1 plans (scantbl s)) ready \<and>
     set (joined_tables s) - {''''} = scan_tab ` set_mset (marked 1 plans (scantbl s))"

definition plans_ok :: "(string \<Rightarrow> RmFileHdr option) \<Rightarrow> ScanNode list \<Rightarrow> bool" where
  "plans_ok fhs plans \<longleftrightarrow> distinct (map scan_tab plans) \<and> (\<forall>s \<in> set plans. est_ok fhs s \<and> scan_tab s \<noteq> '''')"

definition joinable :: "ScanNode list \<Rightarrow> Condition \<Rightarrow> bool" where
  "joinable plans c \<longleftrightarrow> tc_tab_name (lhs_col c) \<in> scan_tab ` set plans \<and> tc_tab_name (rhs_col c) \<in> scan_tab ` set plans \<and>
     tc_tab_name (lhs_col c) \<noteq> tc_tab_name (rhs_col c)"

lemma marked_est: "plans_ok fhs plans \<Longrightarrow> marks_ok plans st \<Longrightarrow> s \<in># marked k plans st \<Longrightarrow> est_ok fhs s"
  using marked_sub[of st plans k] by (auto simp: plans_ok_def marks_ok_def dest: mset_subset_eqD)

lemma marked_distinct:
  "plans_ok fhs plans \<Longrightarrow> marks_ok plans st \<Longrightarrow> joins_to p (marked 1 plans st) cs \<Longrightarrow> distinct (plan_tabs p)"
proof -
  assume a: "plans_ok fhs plans" "marks_ok plans st" "joins_to p (marked 1 plans st) cs"
  have "mset (plan_scans p) \<subseteq># mset plans" using a marked_sub by (auto simp: joins_to_def marks_ok_def)
  then have "mset (plan_tabs p) \<subseteq># mset (map scan_tab plans)" by (simp add: image_mset_subseteq_mono)
  then show ?thesis by (rule distinct_sub) (use a(1) in \<open>simp add: plans_ok_def\<close>)
qed

lemma join_inv_mem:
  "join_inv plans ready s \<Longrightarrow> t \<noteq> '''' \<Longrightarrow>
     t \<in> set (joined_tables s) \<longleftrightarrow> t \<in> scan_tab ` set_mset (marked 1 plans (scantbl s))"
  unfolding join_inv_def by blast

lemma first_join_spec:
  assumes ok: "plans_ok fhs plans" and c: "joinable plans c"
    and s: "scantbl s = replicate (length plans) (-1)" "set (joined_tables s) \<subseteq> {''''}"
  shows "\<exists>s'. first_join fhs plans c s = Inr s' \<and> join_inv plans [c] s'"
proof -
  define l r where "l = tc_tab_name (lhs_col c)" and "r = tc_tab_name (rhs_col c)"
  have m0: "marks_ok plans (scantbl s)" "marked 1 plans (scantbl s) = {#}"
    using s by (auto simp: marks_ok_def marked_none)
  obtain sl st1 where pl: "pop_scan (scantbl s) l (joined_tables s) plans = (ScanPlan sl, st1, joined_tables s @ [l])"
      "scan_tab sl = l" "sl \<in> set plans" "marks_ok plans st1" "marked 1 plans st1 = {#sl#}"
    using pop_scan_spec[OF m0(1), of l "joined_tables s"] c m0(2) by (auto simp: joinable_def l_def)
  obtain sr st2 where pr: "pop_scan st1 r (joined_tables s @ [l]) plans = (ScanPlan sr, st2, joined_tables s @ [l] @ [r])"
      "scan_tab sr = r" "sr \<in> set plans" "marks_ok plans st2" "marked 1 plans st2 = {#sr, sl#}"
    using pop_scan_spec[OF pl(4), of r "joined_tables s @ [l]"] c pl(2,5) by (auto simp: joinable_def l_def r_def)
  obtain p where p: "make_join_plan fhs (ScanPlan sl) (ScanPlan sr) [c] = Inr p" "joins_to p ({#sl#} + {#sr#}) ([c] @ [] @ [])"
    using make_join_plan_spec[OF joins_to_scan joins_to_scan, of sl sr fhs "[c]"] ok pl pr
    by (auto simp: plans_ok_def l_def r_def)
  have ne: "l \<noteq> ''''" "r \<noteq> ''''" using ok pl(2,3) pr(2,3) by (auto simp: plans_ok_def)
  have "set (joined_tables s @ [l] @ [r]) - {''''} = {l, r}" using ne s(2) by auto
  then have "join_inv plans [c] \<lparr>scantbl = st2, joined_tables = joined_tables s @ [l] @ [r], join_tree = p\<rparr>"
    using p(2) pl(2) pr(2,4,5) by (simp add: join_inv_def insert_commute add_mset_commute)
  moreover have "first_join fhs plans c s = Inr \<lparr>scantbl = st2, joined_tables = joined_tables s @ [l] @ [r], join_tree = p\<rparr>"
    using pl(1) pr(1) p(1) by (simp add: first_join_def l_def r_def)
  ultimately show ?thesis by blast
qed

text \<open>Popping a table that is not joined yet, and joining it on the left of the tree.\<close>

lemma pop_new:
  assumes ok: "plans_ok fhs plans" and inv: "join_inv plans ready s"
    and t: "t \<in> scan_tab ` set plans" "t \<notin> set (joined_tables s)"
  shows "\<exists>x st. pop_scan (scantbl s) t (joined_tables s) plans = (ScanPlan x, st, joined_tables s @ [t]) \<and>
           scan_tab x = t \<and> est_ok fhs x \<and> marks_ok plans st \<and>
           marked 1 plans st = add_mset x (marked 1 plans (scantbl s))"
proof -
  have "t \<notin> scan_tab ` set_mset (marked 1 plans (scantbl s))"
    using inv t ok join_inv_mem[OF inv, of t] by (auto simp: plans_ok_def)
  then show ?thesis
    using pop_scan_spec[of plans "scantbl s" t "joined_tables s"] inv t(1) ok
    by (fastforce simp: join_inv_def plans_ok_def)
qed

lemma join_new:
  assumes ok: "plans_ok fhs plans" and inv: "join_inv plans ready s"
    and t: "t \<in> scan_tab ` set plans" "t \<notin> set (joined_tables s)"
    and c: "tc_tab_name (lhs_col c) = t" "tc_tab_name (rhs_col c) \<in> set (joined_tables s)"
      "tc_tab_name (rhs_col c) \<noteq> []"
  shows "\<exists>x st p. pop_scan (scantbl s) t (joined_tables s) plans = (ScanPlan x, st, joined_tables s @ [t]) \<and>
           make_join_plan fhs (ScanPlan x) (join_tree s) [c] = Inr p \<and>
           join_inv plans (c # ready) \<lparr>scantbl = st, joined_tables = joined_tables s @ [t], join_tree = p\<rparr>"
proof -
  let ?M = "marked 1 plans (scantbl s)"
  obtain x st where x: "pop_scan (scantbl s) t (joined_tables s) plans = (ScanPlan x, st, joined_tables s @ [t])"
      "scan_tab x = t" "est_ok fhs x" "marks_ok plans st" "marked 1 plans st = add_mset x ?M"
    using pop_new[OF ok inv t] by blast
  have T: "joins_to (join_tree s) ?M ready" and m: "marks_ok plans (scantbl s)" using inv by (auto simp: join_inv_def)
  obtain p where p: "make_join_plan fhs (ScanPlan x) (join_tree s) [c] = Inr p" "joins_to p (add_mset x ?M) (c # ready)"
    using make_join_plan_spec[OF joins_to_scan T, of x fhs "[c]"] x(2,3) c join_inv_mem[OF inv c(3)] marked_est[OF ok m]
    by auto
  have "t \<noteq> []" using t(1) ok by (auto simp: plans_ok_def)
  then have "set (joined_tables s @ [t]) - {''''} = scan_tab ` set_mset (marked 1 plans st)"
    using inv x(2,5) by (auto simp: join_inv_def)
  with x p show ?thesis by (auto simp: join_inv_def)
qed

lemma join_two_new:
  assumes ok: "plans_ok fhs plans" and c: "joinable plans c" and inv: "join_inv plans ready s"
    and new: "tc_tab_name (lhs_col c) \<notin> set (joined_tables s)" "tc_tab_name (rhs_col c) \<notin> set (joined_tables s)"
  shows "\<exists>s'. join_step fhs plans c s = Inr s' \<and> join_inv plans (c # ready) s'"
proof -
  let ?M = "marked 1 plans (scantbl s)" and ?J = "joined_tables s"
  define l r where "l = tc_tab_name (lhs_col c)" and "r = tc_tab_name (rhs_col c)"
  have lr: "l \<noteq> r" "l \<in> scan_tab ` set plans" "r \<in> scan_tab ` set plans" "l \<notin> set ?J" "r \<notin> set ?J" "l \<noteq> []" "r \<noteq> []"
    using c new ok by (auto simp: joinable_def plans_ok_def l_def r_def)
  have T: "joins_to (join_tree s) ?M ready" and m: "marks_ok plans (scantbl s)" using inv by (auto simp: join_inv_def)
  obtain x st where x: "pop_scan (scantbl s) l ?J plans = (ScanPlan x, st, ?J @ [l])"
      "scan_tab x = l" "est_ok fhs x" "marks_ok plans st" "marked 1 plans st = add_mset x ?M"
    using pop_new[OF ok inv lr(2,4)] by blast
  have "r \<notin> scan_tab ` set_mset (marked 1 plans st)" using join_inv_mem[OF inv lr(7)] lr(1,5) x(2,5) by auto
  then obtain y st2 where y: "pop_scan st r (?J @ [l]) plans = (ScanPlan y, st2, ?J @ [l, r])" "scan_tab y = r"
      "y \<in> set plans" "marks_ok plans st2" "marked 1 plans st2 = add_mset y (add_mset x ?M)"
    using pop_scan_spec[OF x(4) lr(3), of "?J @ [l]"] x(5) by auto
  have ye: "est_ok fhs y" using y(3) ok by (simp add: plans_ok_def)
  obtain q where q: "make_join_plan fhs (ScanPlan x) (ScanPlan y) [c] = Inr q" "joins_to q ({#x#} + {#y#}) ([c] @ [] @ [])"
    using make_join_plan_spec[OF joins_to_scan joins_to_scan, of x y fhs "[c]"] x(2,3) y(2) ye
    by (auto simp: l_def r_def)
  obtain p where p: "make_join_plan fhs q (join_tree s) [] = Inr p" "joins_to p ({#x#} + {#y#} + ?M) ([] @ ([c] @ [] @ []) @ ready)"
    using make_join_plan_spec[OF q(2) T, of fhs "[]"] x(3) ye marked_est[OF ok m] by auto
  have "set (?J @ [l, r]) - {''''} = scan_tab ` set_mset (marked 1 plans st2)"
    using inv lr(6,7) x(2) y(2,5) by (auto simp: join_inv_def)
  then have "join_inv plans (c # ready) \<lparr>scantbl = st2, joined_tables = ?J @ [l, r], join_tree = p\<rparr>"
    using p(2) y(4,5) by (simp add: join_inv_def add_mset_commute)
  moreover have "join_step fhs plans c s = Inr \<lparr>scantbl = st2, joined_tables = ?J @ [l, r], join_tree = p\<rparr>"
    using lr(1,4,5) x(1) y(1) p(1) q(1) by (simp add: join_step_def flip: l_def r_def)
  ultimately show ?thesis by blast
qed

lemma join_step_spec:
  assumes ok: "plans_ok fhs plans" and c: "joinable plans c" and inv: "join_inv plans ready s"
  shows "\<exists>s'. join_step fhs plans c s = Inr s' \<and> join_inv plans (c # ready) s'"
proof -
  define l r where "l = tc_tab_name (lhs_col c)" and "r = tc_tab_name (rhs_col c)"
  note defs = l_def r_def
  have lr: "l \<noteq> r" "l \<in> scan_tab ` set plans" "r \<in> scan_tab ` set plans" "l \<noteq> []" "r \<noteq> []"
    using c ok by (auto simp: joinable_def plans_ok_def defs)
  have m: "marks_ok plans (scantbl s)" and T: "joins_to (join_tree s) (marked 1 plans (scantbl s)) ready"
    using inv by (auto simp: join_inv_def)
  consider (both) "l \<notin> set (joined_tables s)" "r \<notin> set (joined_tables s)"
    | (left) "l \<notin> set (joined_tables s)" "r \<in> set (joined_tables s)"
    | (right) "l \<in> set (joined_tables s)" "r \<notin> set (joined_tables s)"
    | (none) "l \<in> set (joined_tables s)" "r \<in> set (joined_tables s)" by blast
  then show ?thesis
  proof cases
    case both
    then show ?thesis using join_two_new[OF ok c inv] by (simp add: defs)
  next
    case left
    obtain x st p where x: "pop_scan (scantbl s) l (joined_tables s) plans = (ScanPlan x, st, joined_tables s @ [l])"
        "make_join_plan fhs (ScanPlan x) (join_tree s) [c] = Inr p"
        "join_inv plans (c # ready) \<lparr>scantbl = st, joined_tables = joined_tables s @ [l], join_tree = p\<rparr>"
      using join_new[OF ok inv lr(2) left(1), of c] left(2) lr(5) unfolding defs by blast
    then show ?thesis using left by (simp add: join_step_def flip: defs)
  next
    case right
    obtain x st p where x: "pop_scan (scantbl s) r (joined_tables s) plans = (ScanPlan x, st, joined_tables s @ [r])"
        "make_join_plan fhs (ScanPlan x) (join_tree s) [swap_cond c] = Inr p"
        "join_inv plans (swap_cond c # ready) \<lparr>scantbl = st, joined_tables = joined_tables s @ [r], join_tree = p\<rparr>"
      using join_new[OF ok inv lr(3) right(2), of "swap_cond c"] right(1) lr(4) unfolding defs swap_cond_cols by blast
    have "join_inv plans (c # ready) \<lparr>scantbl = st, joined_tables = joined_tables s @ [r], join_tree = p\<rparr>"
      using x(3) by (auto simp: join_inv_def joins_to_def)
    then show ?thesis using right x(1,2) by (simp add: join_step_def flip: defs)
  next
    case none
    have d: "distinct (plan_tabs (join_tree s))" using marked_distinct[OF ok m T] .
    have "l \<in> set (plan_tabs (join_tree s))" "r \<in> set (plan_tabs (join_tree s))"
      using none join_inv_mem[OF inv] lr(4,5) joins_to_tabs[OF T] by auto
    then have "joins_to (snd (push_conds c (join_tree s))) (marked 1 plans (scantbl s)) (c # ready)"
      using push_conds_spec[of "join_tree s" c] T d lr(1) by (simp add: joins_to_def defs)
    then show ?thesis using none inv by (simp add: join_step_def join_inv_def flip: defs)
  qed
qed

lemma join_steps_spec:
  "plans_ok fhs plans \<Longrightarrow> \<forall>c \<in> set cs. joinable plans c \<Longrightarrow> join_inv plans ready s \<Longrightarrow>
   \<exists>s'. join_steps fhs plans cs s = Inr s' \<and> join_inv plans (rev cs @ ready) s'"
proof (induction cs arbitrary: ready s)
  case (Cons c cs)
  then obtain s1 where "join_step fhs plans c s = Inr s1" "join_inv plans (c # ready) s1"
    using join_step_spec by force
  with Cons show ?case by auto
qed simp

lemma join_rest_spec:
  "joins_to p S cs \<Longrightarrow> length st = length plans \<Longrightarrow> \<forall>s \<in># S + mset plans. est_ok fhs s \<Longrightarrow>
   \<exists>p'. join_rest fhs plans st p = Inr p' \<and> joins_to p' (S + marked (-1) plans st) cs"
proof (induction plans st arbitrary: p S rule: list_induct2')
  case (4 x xs b bs)
  show ?case
  proof (cases "b = -1")
    case True
    obtain q where q: "make_join_plan fhs (ScanPlan x) p [] = Inr q" "joins_to q (add_mset x S) cs"
      using make_join_plan_spec[OF joins_to_scan 4(2), of x fhs "[]"] 4(4) by auto
    then show ?thesis using "4.IH"[OF q(2)] 4(3,4) True by auto
  next
    case False
    then show ?thesis using "4.IH"[OF 4(2)] 4(3,4) by auto
  qed
qed auto

section \<open>The scans\<close>

text \<open>The statement's tables as the planner finds them: different, in the catalogue, with columns, and open.\<close>

definition tables_ok :: "DbMeta \<Rightarrow> (string \<Rightarrow> RmFileHdr option) \<Rightarrow> string list \<Rightarrow> bool" where
  "tables_ok db fhs ts \<longleftrightarrow> distinct ts \<and>
     (\<forall>t \<in> set ts. t \<noteq> [] \<and> fhs t \<noteq> None \<and> (\<exists>tab. get_table t db = Inr tab \<and> tm_cols tab \<noteq> []))"

text \<open>The conditions a scan of a table can test alone, and those that need a join.\<close>

definition local_cond :: "string \<Rightarrow> Condition \<Rightarrow> bool" where
  "local_cond t c \<longleftrightarrow> tc_tab_name (lhs_col c) = t \<and> (is_rhs_val c \<or> tc_tab_name (rhs_col c) = t)"

definition cross_cond :: "Condition \<Rightarrow> bool" where
  "cross_cond c \<longleftrightarrow> \<not> is_rhs_val c \<and> tc_tab_name (lhs_col c) \<noteq> tc_tab_name (rhs_col c)"

text \<open>Conditions as the analyzer leaves them: typed, and without a right column when they have a value.\<close>

definition conds_ok :: "DbMeta \<Rightarrow> string list \<Rightarrow> Condition list \<Rightarrow> bool" where
  "conds_ok db ts cs \<longleftrightarrow> (\<forall>c \<in> set cs. cond_typed db ts c \<and> (is_rhs_val c \<longrightarrow> tc_tab_name (rhs_col c) = []))"

lemma table_scan_spec:
  "tables_ok db fhs ts \<Longrightarrow> t \<in> set ts \<Longrightarrow>
   \<exists>s. table_scan db t cs = Inr s \<and> scan_tab s = t \<and> scan_conds s = cs \<and> fed_conds s = cs"
  by (auto simp: tables_ok_def table_scan_def get_index_cols_def new_ScanPlan_def split: prod.splits)

lemma estimate_conds_total:
  "\<forall>c \<in> set cs. is_rhs_val c \<and> val_type (rhs_val c) = TYPE_INT \<longrightarrow> (\<exists>r. raw (rhs_val c) = Some r \<and> 4 \<le> length (rec_data r)) \<Longrightarrow>
   \<exists>n. estimate_conds t cs k = Inr n"
  by (induction t cs k rule: estimate_conds.induct) (auto simp: Let_def)

lemma conds_est:
  assumes "db_wf db" "conds_ok db ts cs" "set (fed_conds s) \<subseteq> set cs" "fhs (scan_tab s) \<noteq> None"
  shows "est_ok fhs s"
proof -
  have "\<exists>r. raw (rhs_val c) = Some r \<and> 4 \<le> length (rec_data r)"
    if c: "c \<in> set (fed_conds s)" "is_rhs_val c" "val_type (rhs_val c) = TYPE_INT" for c
  proof -
    have "cond_typed db ts c" using assms(2,3) c(1) by (auto simp: conds_ok_def)
    then obtain l r where l: "get_tab_col db (lhs_col c) = Inr l" "cm_type l = TYPE_INT" "raw (rhs_val c) = Some r"
        "int (length (rec_data r)) = cm_len l"
      using c(2,3) by (auto simp: cond_typed_def split: sum.splits option.splits)
    moreover have "cm_len l = 4" using get_tab_col_wf[OF assms(1) l(1)] l(2) by (auto simp: col_ok_def type_size_def)
    ultimately show ?thesis by auto
  qed
  then show ?thesis using assms(4) estimate_conds_total by (auto simp: est_ok_def estimate_scan_rows_def)
qed

lemma scan_tables_values:
  assumes "tables_ok db fhs ts" and "\<forall>c \<in> set cs. tc_tab_name (lhs_col c) \<noteq> tc_tab_name (rhs_col c)"
  shows "\<exists>ss. scan_tables db ts cs = Inr (ss, filter (\<lambda>c. \<not> (is_rhs_val c \<and> tc_tab_name (lhs_col c) \<in> set ts)) cs) \<and>
           map scan_tab ss = ts \<and>
           (\<forall>s \<in> set ss. fed_conds s = scan_conds s \<and>
              scan_conds s = filter (\<lambda>c. is_rhs_val c \<and> tc_tab_name (lhs_col c) = scan_tab s) cs)"
  using assms
proof (induction ts arbitrary: cs)
  case (Cons t ts)
  let ?here = "filter (\<lambda>c. is_rhs_val c \<and> tc_tab_name (lhs_col c) = t) cs"
    and ?rest = "filter (\<lambda>c. \<not> (is_rhs_val c \<and> tc_tab_name (lhs_col c) = t)) cs"
  have pop: "pop_conds cs t = (?here, ?rest)"
    using Cons.prems(2) by (auto simp: pop_conds_def popped_def intro: filter_cong)
  obtain s where s: "table_scan db t ?here = Inr s" "scan_tab s = t" "scan_conds s = ?here" "fed_conds s = ?here"
    using table_scan_spec[OF Cons.prems(1), of t ?here] by auto
  have t: "tables_ok db fhs ts" "t \<notin> set ts" using Cons.prems(1) by (auto simp: tables_ok_def)
  obtain ss where ss: "scan_tables db ts ?rest =
        Inr (ss, filter (\<lambda>c. \<not> (is_rhs_val c \<and> tc_tab_name (lhs_col c) \<in> set ts)) ?rest)" "map scan_tab ss = ts"
      "\<forall>s \<in> set ss. fed_conds s = scan_conds s \<and>
         scan_conds s = filter (\<lambda>c. is_rhs_val c \<and> tc_tab_name (lhs_col c) = scan_tab s) ?rest"
    using Cons.IH[OF t(1), of ?rest] Cons.prems(2) by auto
  have "scan_conds x = filter (\<lambda>c. is_rhs_val c \<and> tc_tab_name (lhs_col c) = scan_tab x) cs" if "x \<in> set ss" for x
  proof -
    have "scan_tab x \<noteq> t" using that ss(2) t(2) by auto
    then show ?thesis using ss(3) that by (auto intro: filter_cong)
  qed
  moreover have "filter (\<lambda>c. \<not> (is_rhs_val c \<and> tc_tab_name (lhs_col c) \<in> set ts)) ?rest =
      filter (\<lambda>c. \<not> (is_rhs_val c \<and> tc_tab_name (lhs_col c) \<in> set (t # ts))) cs"
    by (auto intro: filter_cong)
  ultimately show ?case using pop s ss by (intro exI[of _ "s # ss"]) auto
qed auto

lemma scan_tables_spec:
  assumes ts: "tables_ok db fhs ts" "ts \<noteq> []" and cs: "conds_ok db ts cs"
    and same: "\<forall>c \<in> set cs. tc_tab_name (lhs_col c) = tc_tab_name (rhs_col c) \<longrightarrow> tc_tab_name (lhs_col c) = hd ts"
  shows "\<exists>ss. scan_tables db ts cs = Inr (ss, filter cross_cond cs) \<and> map scan_tab ss = ts \<and>
           (\<forall>s \<in> set ss. fed_conds s = scan_conds s \<and> scan_conds s = filter (local_cond (scan_tab s)) cs)"
proof -
  obtain t ts' where tt: "ts = t # ts'" using ts(2) by (cases ts) auto
  have lhs: "tc_tab_name (lhs_col c) \<in> set ts" "tc_tab_name (lhs_col c) \<noteq> []" if "c \<in> set cs" for c
    using cs ts(1) that by (auto simp: conds_ok_def cond_typed_def tables_ok_def)
  have val: "tc_tab_name (rhs_col c) = []" if "c \<in> set cs" "is_rhs_val c" for c
    using cs that by (auto simp: conds_ok_def)
  have p: "popped t c \<longleftrightarrow> local_cond t c" if "c \<in> set cs" for c
    using lhs[OF that] val[OF that] same that tt by (auto simp: popped_def local_cond_def)
  let ?here = "filter (local_cond t) cs" and ?rest = "filter (\<lambda>c. \<not> local_cond t c) cs"
  have pop: "pop_conds cs t = (?here, ?rest)" using p by (auto simp: pop_conds_def intro: filter_cong)
  obtain s where s: "table_scan db t ?here = Inr s" "scan_tab s = t" "scan_conds s = ?here" "fed_conds s = ?here"
    using table_scan_spec[OF ts(1), of t ?here] tt by auto
  have t: "tables_ok db fhs ts'" "t \<notin> set ts'" using ts(1) tt by (auto simp: tables_ok_def)
  have "tc_tab_name (lhs_col c) \<noteq> tc_tab_name (rhs_col c)" if "c \<in> set ?rest" for c
    using that same tt by (auto simp: local_cond_def)
  then obtain ss where ss: "scan_tables db ts' ?rest =
        Inr (ss, filter (\<lambda>c. \<not> (is_rhs_val c \<and> tc_tab_name (lhs_col c) \<in> set ts')) ?rest)" "map scan_tab ss = ts'"
      "\<forall>s \<in> set ss. fed_conds s = scan_conds s \<and>
         scan_conds s = filter (\<lambda>c. is_rhs_val c \<and> tc_tab_name (lhs_col c) = scan_tab s) ?rest"
    using scan_tables_values[OF t(1), of ?rest] by blast
  have "scan_conds x = filter (local_cond (scan_tab x)) cs" if "x \<in> set ss" for x
  proof -
    have "scan_tab x \<noteq> t" using that ss(2) t(2) by auto
    then have "(is_rhs_val c \<and> tc_tab_name (lhs_col c) = scan_tab x) \<and> \<not> local_cond t c \<longleftrightarrow> local_cond (scan_tab x) c"
      if "c \<in> set cs" for c using that same tt by (auto simp: local_cond_def)
    then show ?thesis using ss(3) that by (auto intro: filter_cong)
  qed
  moreover have "filter (\<lambda>c. \<not> (is_rhs_val c \<and> tc_tab_name (lhs_col c) \<in> set ts')) ?rest = filter cross_cond cs"
    using lhs same tt by (auto simp: local_cond_def cross_cond_def intro!: filter_cong)
  ultimately show ?thesis using pop s ss tt by (intro exI[of _ "s # ss"]) auto
qed

section \<open>Every condition is tested once\<close>

lemma start_join_spec:
  assumes ok: "plans_ok fhs plans" "length plans \<ge> 2" and cs: "\<forall>c \<in> set cs. joinable plans c"
  shows "\<exists>s. start_join fhs plans cs = Inr s \<and> marks_ok plans (scantbl s) \<and>
             joins_to (join_tree s) (marked 1 plans (scantbl s)) cs"
proof (cases cs)
  case Nil
  define st where "st = replicate (length plans) (-1 :: int)"
  have st: "length st = length plans" "plans \<noteq> []" "st ! 0 \<noteq> 1"
    using ok(2) by (cases plans; auto simp: st_def)+
  have "marked 1 plans (st[0 := 1]) = {#plans ! 0#}"
    using marked_update[of st plans 0] st by (simp add: st_def marked_none)
  moreover have "marks_ok plans (st[0 := 1])"
    using set_update_subset_insert[of st 0 1] by (auto simp: marks_ok_def st_def)
  ultimately show ?thesis
    using Nil joins_to_scan by (simp add: start_join_def new_JoinState_def flip: st_def)
next
  case (Cons c cs')
  obtain s1 where s1: "first_join fhs plans c (new_JoinState (length plans)) = Inr s1" "join_inv plans [c] s1"
    using first_join_spec[OF ok(1), of c "new_JoinState (length plans)"] cs Cons by (force simp: new_JoinState_def)
  then obtain s where s: "join_steps fhs plans cs' s1 = Inr s" "join_inv plans (rev cs' @ [c]) s"
    using join_steps_spec[OF ok(1), of cs' "[c]" s1] cs Cons by auto
  then have "joins_to (join_tree s) (marked 1 plans (scantbl s)) cs"
    using Cons by (auto simp: join_inv_def joins_to_def)
  with s s1 Cons show ?thesis by (auto simp: join_inv_def start_join_def)
qed

lemma join_tree_spec:
  assumes ok: "plans_ok fhs plans" "length plans \<ge> 2" and cs: "\<forall>c \<in> set cs. joinable plans c"
  shows "\<exists>s p. start_join fhs plans cs = Inr s \<and> join_rest fhs plans (scantbl s) (join_tree s) = Inr p \<and>
             joins_to p (mset plans) cs"
proof -
  obtain s where s: "start_join fhs plans cs = Inr s" "marks_ok plans (scantbl s)"
      "joins_to (join_tree s) (marked 1 plans (scantbl s)) cs" using start_join_spec[OF assms] by blast
  have "\<forall>x \<in># marked 1 plans (scantbl s) + mset plans. est_ok fhs x"
    using marked_est[OF ok(1) s(2)] ok(1) by (auto simp: plans_ok_def)
  then obtain p where "join_rest fhs plans (scantbl s) (join_tree s) = Inr p"
      "joins_to p (marked 1 plans (scantbl s) + marked (-1) plans (scantbl s)) cs"
    using join_rest_spec[OF s(3), of "scantbl s" plans fhs] s(2) by (auto simp: marks_ok_def)
  then show ?thesis using s(1,2) marked_all[of "scantbl s" plans] by (auto simp: marks_ok_def)
qed

lemma cross_cond_tabs:
  "conds_ok db ts cs \<Longrightarrow> c \<in> set cs \<Longrightarrow> cross_cond c \<Longrightarrow>
   tc_tab_name (lhs_col c) \<in> set ts \<and> tc_tab_name (rhs_col c) \<in> set ts \<and> tc_tab_name (lhs_col c) \<noteq> tc_tab_name (rhs_col c)"
proof -
  assume a: "conds_ok db ts cs" "c \<in> set cs" "cross_cond c"
  then have "cond_typed db ts c" by (auto simp: conds_ok_def)
  with a(3) show ?thesis by (auto simp: cross_cond_def cond_typed_def split: sum.splits)
qed


text \<open>\<^verbatim>\<open>select ... from t, u where t.a < u.b and u.b = t.a\<close>.\<close>

definition witness_col :: "string \<Rightarrow> string \<Rightarrow> ColMeta" where
  "witness_col t n = \<lparr>cm_tab_name = t, cm_name = n, cm_type = TYPE_INT, cm_len = 4, cm_offset = 0, cm_index = False\<rparr>"

definition witness_db2 :: DbMeta where
  "witness_db2 = \<lparr>db_name = ''d'', tabs =
     [(''t'', \<lparr>tm_name = ''t'', tm_cols = [witness_col ''t'' ''a''], tm_indexes = []\<rparr>),
      (''u'', \<lparr>tm_name = ''u'', tm_cols = [witness_col ''u'' ''b''], tm_indexes = []\<rparr>)]\<rparr>"

definition witness_fhs :: "string \<Rightarrow> RmFileHdr option" where
  "witness_fhs t = Some \<lparr>record_size = 4, num_pages = (if t = ''t'' then 9 else 2), num_records_per_page = 10,
                         first_free_page_no = 1, bitmap_size = 2\<rparr>"

definition witness_cond :: "CompOp \<Rightarrow> Condition" where
  "witness_cond op = \<lparr>lhs_col = \<lparr>tc_tab_name = ''t'', tc_col_name = ''a''\<rparr>, cond_op = op, is_rhs_val = False,
     rhs_col = \<lparr>tc_tab_name = ''u'', tc_col_name = ''b''\<rparr>, rhs_val = default_Value\<rparr>"


text \<open>A comparison inside another table of the list is given to the first scan, whatever its table.\<close>

lemma same_table_cond_misplaced:
  assumes "scan_tables db (t # ts) cs = Inr (ss, rest)" and "c \<in> set cs"
    and "tc_tab_name (lhs_col c) = tc_tab_name (rhs_col c)"
  shows "\<exists>s ss'. ss = s # ss' \<and> scan_tab s = t \<and> c \<in> set (scan_conds s)"
  using assms
  by (auto simp: rbind_Inr pop_conds_def popped_def table_scan_def new_ScanPlan_def split: if_splits prod.splits)

end
