(* ===== verification/Printer.thy ===== *)
theory Printer
  imports Meta
begin

text \<open>
  Output to the client: \<^verbatim>\<open>record_printer.h\<close>, the send buffer of \<^verbatim>\<open>common/context.h\<close> and the printing of values and rows
  in \<^verbatim>\<open>execution/execution_manager.cpp\<close>. The buffer is a byte list of fixed length; copying outside it is
  undefined behaviour. The theorem shows that a result set of any size stays inside the buffer.
\<close>

section \<open>The send buffer\<close>

text \<open>\<^verbatim>\<open>data_send_\<close>, \<^verbatim>\<open>*offset_\<close> and \<^verbatim>\<open>ellipsis_\<close> of a \<^verbatim>\<open>Context\<close>.\<close>

record SendBuf =
  data_send :: "byte list"
  send_offset :: int
  ellipsis :: bool

definition RECORD_COUNT_LENGTH :: int where "RECORD_COUNT_LENGTH = 40"

definition COL_WIDTH :: nat where "COL_WIDTH = 16"

definition send_put :: "string \<Rightarrow> (SendBuf, unit) em" where
  "send_put str b =
     (if send_offset b < 0 then (Inl UndefinedBehaviour, b)
      else case memcpy_to (nat (send_offset b)) (str_bytes str) (data_send b) of
             Inl e \<Rightarrow> (Inl e, b)
           | Inr d \<Rightarrow> (Inr (), b\<lparr>data_send := d, send_offset := c_int (send_offset b + int (length str))\<rparr>))"

text \<open>The test is made in \<^verbatim>\<open>size_t\<close>.\<close>

definition send_fits :: "string \<Rightarrow> SendBuf \<Rightarrow> bool" where
  "send_fits str b \<longleftrightarrow> \<not> ellipsis b \<and>
     (send_offset b + RECORD_COUNT_LENGTH + int (length str)) mod 2 ^ 64 < int BUFFER_LENGTH"

definition send_checked :: "string \<Rightarrow> (SendBuf, unit) em" where
  "send_checked str b = (if send_fits str b then send_put str b else (Inr (), b\<lparr>ellipsis := True\<rparr>))"

section \<open>The record printer\<close>

fun send_all :: "string list \<Rightarrow> (SendBuf, unit) em" where
  "send_all [] = em_return ()"
| "send_all (s # ss) = em_then (send_checked s) (send_all ss)"

definition print_separator :: "nat \<Rightarrow> (SendBuf, unit) em" where
  "print_separator num_cols =
     em_then (send_all (replicate num_cols (CHR ''+'' # replicate (COL_WIDTH + 2) (CHR ''-''))))
       (send_checked (CHR ''+'' # NL))"

definition cell_text :: "string \<Rightarrow> string" where
  "cell_text col =
     (let col' = (if length col > COL_WIDTH then take (COL_WIDTH - 3) col @ ''...'' else col)
      in ''| '' @ replicate (COL_WIDTH - length col') (CHR '' '') @ col' @ '' '')"

text \<open>The end of the line is dropped without marking the output as shortened.\<close>

definition print_rec :: "nat \<Rightarrow> string list \<Rightarrow> (SendBuf, unit) em" where
  "print_rec num_cols rec_str =
     (if length rec_str \<noteq> num_cols then em_throw AssertFailure
      else em_then (send_all (map cell_text rec_str))
             (\<lambda>b. if send_fits (CHR ''|'' # NL) b then send_put (CHR ''|'' # NL) b else (Inr (), b)))"

definition print_record_count :: "nat \<Rightarrow> (SendBuf, unit) em" where
  "print_record_count num_rec b =
     send_put ((if ellipsis b then ''... ...'' @ NL else []) @ ''Total record(s): '' @ to_string (int num_rec) @ NL) b"

section \<open>Values as text\<close>

text \<open>\<^verbatim>\<open>std::fixed\<close> with six digits: the exact binary value times a million, rounded to nearest with ties to even.\<close>

definition round_div :: "nat \<Rightarrow> nat \<Rightarrow> nat" where
  "round_div a d =
     (let q = a div d; r = a mod d in if 2 * r > d \<or> 2 * r = d \<and> odd q then q + 1 else q)"

definition f32_fixed :: "f32 \<Rightarrow> string" where
  "f32_fixed x =
     (let bits = nat (uint (x AND 0x7FFFFFFF)); e = bits div 2 ^ 23; m = bits mod 2 ^ 23;
          sign = (if bit x 31 then ''-'' else '''')
      in if e = 255 then sign @ (if m = 0 then ''inf'' else ''nan'')
         else let sig = (if e = 0 then m else m + 2 ^ 23); ex = (if e = 0 then 1 else e);
                  n = (if ex \<ge> 150 then sig * 2 ^ (ex - 150) * 10 ^ 6 else round_div (sig * 10 ^ 6) (2 ^ (150 - ex)))
              in sign @ nat_to_string (n div 10 ^ 6) @ ''.'' @ zero_pad 6 (n mod 10 ^ 6))"

definition value_text :: "ColMeta \<Rightarrow> byte list \<Rightarrow> string res" where
  "value_text col data =
     (if cm_offset col < 0 then Inl UndefinedBehaviour
      else rbind (read_at (nat (cm_offset col)) (raw_len (cm_type col) (cm_len col)) data) (\<lambda>b.
        case cm_type col of
          TYPE_INT \<Rightarrow> Inr (to_string (le_sint b))
        | TYPE_BIGINT \<Rightarrow> Inr (to_string (le_sint b))
        | TYPE_FLOAT \<Rightarrow> Inr (f32_fixed (dec_f32 b))
        | TYPE_STRING \<Rightarrow> Inr (bytes_str (takeWhile (\<lambda>c. c \<noteq> 0) b))
        | TYPE_DATETIME \<Rightarrow> Inr (format_datetime (word_of_int (le_sint b)))))"

fun row_text :: "ColMeta list \<Rightarrow> byte list \<Rightarrow> string list res" where
  "row_text [] data = Inr []"
| "row_text (c # cs) data = rbind (value_text c data) (\<lambda>s. rbind (row_text cs data) (\<lambda>ss. Inr (s # ss)))"

text \<open>The line of \<^verbatim>\<open>output.txt\<close>.\<close>

definition out_line :: "string list \<Rightarrow> string" where
  "out_line cs = CHR ''|'' # concat (map (\<lambda>c. CHR '' '' # c @ '' |'') cs) @ NL"

fun print_rows :: "nat \<Rightarrow> string list list \<Rightarrow> (SendBuf, unit) em" where
  "print_rows n [] = em_return ()"
| "print_rows n (r # rs) = em_then (print_rec n r) (print_rows n rs)"

text \<open>What \<^verbatim>\<open>select_from\<close> sends for the rows its executor yields.\<close>

definition print_result :: "string list \<Rightarrow> string list list \<Rightarrow> (SendBuf, unit) em" where
  "print_result captions rows =
     (let n = length captions
      in if n = 0 then em_throw AssertFailure
         else em_then (print_separator n) (em_then (print_rec n captions) (em_then (print_separator n)
                (em_then (print_rows n rows) (em_then (print_separator n) (print_record_count (length rows)))))))"

section \<open>Output stays inside the buffer\<close>

definition send_ok :: "SendBuf \<Rightarrow> bool" where
  "send_ok b \<longleftrightarrow> length (data_send b) = BUFFER_LENGTH \<and> 0 \<le> send_offset b \<and>
     send_offset b + RECORD_COUNT_LENGTH < int BUFFER_LENGTH"

lemma send_put_ok:
  assumes "length (data_send b) = BUFFER_LENGTH" "0 \<le> send_offset b" "send_offset b + int (length str) \<le> int BUFFER_LENGTH"
  shows "\<exists>d. send_put str b = (Inr (), b\<lparr>data_send := d, send_offset := send_offset b + int (length str)\<rparr>) \<and>
             length d = BUFFER_LENGTH"
proof -
  have "c_int (send_offset b + int (length str)) = send_offset b + int (length str)"
    using assms(2,3) by (intro c_int_id) (simp add: in_int_def INT_MIN_def INT_MAX_def BUFFER_LENGTH_def)
  moreover have "nat (send_offset b) + length (str_bytes str) \<le> BUFFER_LENGTH"
    using assms(2,3) by (simp add: str_bytes_def)
  ultimately show ?thesis
    using assms by (auto simp: send_put_def memcpy_to_def put_bytes_def str_bytes_def)
qed

lemma send_fits_put: "send_ok b \<Longrightarrow> send_fits str b \<Longrightarrow> length str < 2 ^ 32 \<Longrightarrow> \<exists>b'. send_put str b = (Inr (), b') \<and> send_ok b'"
proof -
  assume b: "send_ok b" "send_fits str b" "length str < 2 ^ 32"
  have "(send_offset b + RECORD_COUNT_LENGTH + int (length str)) mod 2 ^ 64 = send_offset b + RECORD_COUNT_LENGTH + int (length str)"
    using b by (intro mod_pos_pos_trivial) (auto simp: send_ok_def RECORD_COUNT_LENGTH_def BUFFER_LENGTH_def)
  then have l: "send_offset b + RECORD_COUNT_LENGTH + int (length str) < int BUFFER_LENGTH"
    using b(2) by (simp add: send_fits_def)
  then have "send_offset b + int (length str) \<le> int BUFFER_LENGTH" by (simp add: RECORD_COUNT_LENGTH_def)
  then show ?thesis using send_put_ok[of b str] b(1) l by (auto simp: send_ok_def)
qed

lemma send_checked_ok: "send_ok b \<Longrightarrow> length str < 2 ^ 32 \<Longrightarrow> \<exists>b'. send_checked str b = (Inr (), b') \<and> send_ok b'"
  using send_fits_put[of b str] by (auto simp: send_checked_def send_ok_def)

lemma em_then_ok: "m b = (Inr (), b1) \<Longrightarrow> em_then m f b = f b1"
  by (simp add: em_defs)

lemma send_all_ok: "send_ok b \<Longrightarrow> \<forall>s \<in> set ss. length s < 2 ^ 32 \<Longrightarrow> \<exists>b'. send_all ss b = (Inr (), b') \<and> send_ok b'"
proof (induction ss arbitrary: b)
  case (Cons s ss)
  then obtain b1 where "send_checked s b = (Inr (), b1)" "send_ok b1" using send_checked_ok[of b s] by auto
  with Cons show ?case by (auto simp: em_then_ok)
qed (simp add: em_defs)

lemma print_separator_ok: "send_ok b \<Longrightarrow> \<exists>b'. print_separator n b = (Inr (), b') \<and> send_ok b'"
proof -
  assume b: "send_ok b"
  have "\<forall>s \<in> set (replicate n (CHR ''+'' # replicate (COL_WIDTH + 2) (CHR ''-''))). length s < 2 ^ 32"
    by (simp add: COL_WIDTH_def)
  then obtain b1 where "send_all (replicate n (CHR ''+'' # replicate (COL_WIDTH + 2) (CHR ''-''))) b = (Inr (), b1)" "send_ok b1"
    using send_all_ok[OF b] by blast
  then show ?thesis using send_checked_ok[of b1 "CHR ''+'' # NL"] by (auto simp: print_separator_def em_then_ok NL_def)
qed

lemma length_cell_text: "length (cell_text col) = 19"
  by (auto simp: cell_text_def COL_WIDTH_def Let_def)

lemma print_rec_ok: "send_ok b \<Longrightarrow> length r = n \<Longrightarrow> \<exists>b'. print_rec n r b = (Inr (), b') \<and> send_ok b'"
proof -
  assume b: "send_ok b" "length r = n"
  have "\<forall>s \<in> set (map cell_text r). length s < 2 ^ 32" by (simp add: length_cell_text)
  then obtain b1 where "send_all (map cell_text r) b = (Inr (), b1)" "send_ok b1" using send_all_ok[OF b(1)] by blast
  then show ?thesis using b(2) send_fits_put[of b1 "CHR ''|'' # NL"] by (auto simp: print_rec_def em_then_ok NL_def)
qed

lemma print_rows_ok:
  "send_ok b \<Longrightarrow> \<forall>r \<in> set rows. length r = n \<Longrightarrow> \<exists>b'. print_rows n rows b = (Inr (), b') \<and> send_ok b'"
proof (induction rows arbitrary: b)
  case (Cons r rows)
  then obtain b1 where "print_rec n r b = (Inr (), b1)" "send_ok b1" using print_rec_ok[of b r n] by auto
  with Cons show ?case by (auto simp: em_then_ok)
qed (simp add: em_defs)

lemma length_nat_to_string: "n < 10 ^ k \<Longrightarrow> 0 < k \<Longrightarrow> length (nat_to_string n) \<le> k"
proof (induction k arbitrary: n)
  case (Suc k)
  show ?case
  proof (cases "n < 10")
    case False
    then have "0 < k" using Suc.prems(1) by (cases k) auto
    moreover have "n div 10 < 10 ^ k" using Suc.prems(1) by (simp add: less_mult_imp_div_less mult.commute)
    ultimately show ?thesis using Suc.IH[of "n div 10"] False by (simp add: nat_to_string.simps[of n])
  qed (simp add: nat_to_string.simps[of n])
qed simp

text \<open>C39: A result set never overruns the send buffer. Printing starts anywhere in the buffer that leaves
  the forty bytes reserved for the record count; then the header, every row and the footer are sent without writing
  outside the buffer, whatever the number and the width of the rows (what does not fit is dropped), and the
  record count fits into the reserve for fewer than \<open>10 ^ 14\<close> rows, also with the line that marks dropped output.\<close>

theorem result_fits_send_buffer:
  assumes "send_ok b" and "captions \<noteq> []" and "\<forall>r \<in> set rows. length r = length captions" and "length rows < 10 ^ 14"
  shows "\<exists>b'. print_result captions rows b = (Inr (), b') \<and> length (data_send b') = BUFFER_LENGTH \<and>
           0 \<le> send_offset b' \<and> send_offset b' \<le> int BUFFER_LENGTH"
proof -
  let ?n = "length captions"
  obtain b1 where 1: "print_separator ?n b = (Inr (), b1)" "send_ok b1" using print_separator_ok[OF assms(1)] by blast
  obtain b2 where 2: "print_rec ?n captions b1 = (Inr (), b2)" "send_ok b2" using print_rec_ok[OF 1(2)] by blast
  obtain b3 where 3: "print_separator ?n b2 = (Inr (), b3)" "send_ok b3" using print_separator_ok[OF 2(2)] by blast
  obtain b4 where 4: "print_rows ?n rows b3 = (Inr (), b4)" "send_ok b4" using print_rows_ok[OF 3(2) assms(3)] by blast
  obtain b5 where 5: "print_separator ?n b4 = (Inr (), b5)" "send_ok b5" using print_separator_ok[OF 4(2)] by blast
  let ?s = "(if ellipsis b5 then ''... ...'' @ NL else []) @ ''Total record(s): '' @ to_string (int (length rows)) @ NL"
  have "length (to_string (int (length rows))) \<le> 14"
    using length_nat_to_string[OF assms(4)] by (simp add: to_string_def)
  then have "length ?s \<le> 40" by (simp add: NL_def)
  then have "send_offset b5 + int (length ?s) \<le> int BUFFER_LENGTH"
    using 5(2) unfolding send_ok_def RECORD_COUNT_LENGTH_def by linarith
  then obtain d where "send_put ?s b5 = (Inr (), b5\<lparr>data_send := d, send_offset := send_offset b5 + int (length ?s)\<rparr>)"
      "length d = BUFFER_LENGTH" "send_offset b5 + int (length ?s) \<le> int BUFFER_LENGTH"
    using send_put_ok[of b5 ?s] 5(2) by (auto simp: send_ok_def)
  moreover have "print_result captions rows b = send_put ?s b5"
    using assms(2) by (simp add: print_result_def Let_def em_then_ok 1(1) 2(1) 3(1) 4(1) 5(1) print_record_count_def)
  moreover have "0 \<le> send_offset b5 + int (length ?s)" using 5(2) by (simp add: send_ok_def)
  ultimately show ?thesis by auto
qed

theorem result_fits_send_buffer_witness:
  "\<exists>b'. print_result [''a''] (replicate 1000 [''7'']) \<lparr>data_send = replicate BUFFER_LENGTH 0, send_offset = 0, ellipsis = False\<rparr>
          = (Inr (), b') \<and> length (data_send b') = BUFFER_LENGTH"
proof -
  have "send_ok \<lparr>data_send = replicate BUFFER_LENGTH 0, send_offset = 0, ellipsis = False\<rparr>"
    by (simp add: send_ok_def RECORD_COUNT_LENGTH_def BUFFER_LENGTH_def)
  from result_fits_send_buffer[OF this, of "[''a'']" "replicate 1000 [''7'']"] show ?thesis by auto
qed

end
