(* ===== verification/System.thy ===== *)
theory System
  imports IxIndex Lock Planner Printer
begin

text \<open>
  The state of a running database and \<^verbatim>\<open>system/sm_manager.cpp\<close>: the catalogue, the open table and index files,
  the buffer pool they share, the log manager, the lock manager and the transactions. A handle in \<^verbatim>\<open>fhs_\<close> or \<^verbatim>\<open>ihs_\<close>
  is its descriptor and header; an operation on it runs on that handle with the shared pool and puts both back. A \<^verbatim>\<open>Context\<close> is
  the transaction's id, or none for a null context. Shell commands succeed where the path allows it, and \<^verbatim>\<open>chdir\<close>
  exchanges the files of the current directory.
\<close>

section \<open>State\<close>

type_synonym dir = "string \<Rightarrow> byte list option"

record Sys =
  sys_db :: DbMeta
  sys_fhs :: "(string \<times> int \<times> RmFileHdr) list"
  sys_ihs :: "(string \<times> int \<times> IxFileHdr) list"
  sys_bpm :: BufferPoolManager
  sys_log :: LogManager
  sys_locks :: LockManager
  sys_txns :: "(txn_id_t \<times> Transaction) list"
  sys_next_txn :: int
  sys_next_ts :: int
  sys_cwd :: "string option"             \<comment> \<open>the database directory, when inside one\<close>
  sys_root :: dir                        \<comment> \<open>the files of the root directory meanwhile\<close>
  sys_dirs :: "(string \<times> dir) list"      \<comment> \<open>the database directories\<close>
  sys_out :: string                      \<comment> \<open>what was appended to \<^verbatim>\<open>output.txt\<close>\<close>
  sys_send :: SendBuf
  sys_junk :: "byte list"                \<comment> \<open>what uninitialised memory holds\<close>

definition sys_res :: "'a res \<Rightarrow> (Sys, 'a) em" where
  "sys_res r s = (r, s)"

definition on_bpm :: "(BufferPoolManager, 'a) em \<Rightarrow> (Sys, 'a) em" where
  "on_bpm m s = (case m (sys_bpm s) of (r, b) \<Rightarrow> (r, s\<lparr>sys_bpm := b\<rparr>))"

definition on_disk_mgr :: "(DiskManager, 'a) em \<Rightarrow> (Sys, 'a) em" where
  "on_disk_mgr m = on_bpm (\<lambda>b. case m (bp_disk b) of (r, d) \<Rightarrow> (r, b\<lparr>bp_disk := d\<rparr>))"

definition on_log :: "(log_state, 'a) em \<Rightarrow> (Sys, 'a) em" where
  "on_log m s =
     (case m (sys_log s, bp_disk (sys_bpm s)) of
        (r, l, d) \<Rightarrow> (r, s\<lparr>sys_log := l, sys_bpm := (sys_bpm s)\<lparr>bp_disk := d\<rparr>\<rparr>))"

definition on_send :: "(SendBuf, 'a) em \<Rightarrow> (Sys, 'a) em" where
  "on_send m s = (case m (sys_send s) of (r, b) \<Rightarrow> (r, s\<lparr>sys_send := b\<rparr>))"

text \<open>\<^verbatim>\<open>fhs_.at(name)\<close> and \<^verbatim>\<open>ihs_.at(name)\<close> throw when there is no such entry.\<close>

definition on_table :: "string \<Rightarrow> (RmState, 'a) em \<Rightarrow> (Sys, 'a) em" where
  "on_table name m s =
     (case map_of (sys_fhs s) name of
        None \<Rightarrow> (Inl StdOutOfRange, s)
      | Some (fd, h) \<Rightarrow>
          (case m \<lparr>rs_fd = fd, rs_hdr = h, rs_bpm = sys_bpm s\<rparr> of
             (r, rs) \<Rightarrow> (r, s\<lparr>sys_fhs := AList.update name (rs_fd rs, rs_hdr rs) (sys_fhs s), sys_bpm := rs_bpm rs\<rparr>)))"

definition on_index :: "string \<Rightarrow> (IxState, 'a) em \<Rightarrow> (Sys, 'a) em" where
  "on_index name m s =
     (case map_of (sys_ihs s) name of
        None \<Rightarrow> (Inl StdOutOfRange, s)
      | Some (fd, h) \<Rightarrow>
          (case m \<lparr>ih_fd = fd, ih_hdr = h, ih_bpm = sys_bpm s\<rparr> of
             (r, ix) \<Rightarrow> (r, s\<lparr>sys_ihs := AList.update name (ih_fd ix, ih_hdr ix) (sys_ihs s), sys_bpm := ih_bpm ix\<rparr>)))"

definition on_txn :: "txn_id_t \<Rightarrow> (lock_state, 'a) em \<Rightarrow> (Sys, 'a) em" where
  "on_txn t m s =
     (case map_of (sys_txns s) t of
        None \<Rightarrow> (Inl UndefinedBehaviour, s)
      | Some txn \<Rightarrow>
          (case m (txn, sys_locks s) of
             (r, txn', l) \<Rightarrow> (r, s\<lparr>sys_txns := AList.update t txn' (sys_txns s), sys_locks := l\<rparr>)))"

definition upd_txn :: "txn_id_t \<Rightarrow> (Transaction \<Rightarrow> Transaction) \<Rightarrow> (Sys, unit) em" where
  "upd_txn t f = on_txn t (\<lambda>(txn, l). (Inr (), f txn, l))"

definition with_txn :: "txn_id_t \<Rightarrow> (Transaction \<Rightarrow> (Sys, 'a) em) \<Rightarrow> (Sys, 'a) em" where
  "with_txn t f s = (case map_of (sys_txns s) t of None \<Rightarrow> (Inl UndefinedBehaviour, s) | Some txn \<Rightarrow> f txn s)"

text \<open>Loops over a list, and \<^verbatim>\<open>try ... catch (...) { h; throw; }\<close>, which sees every C++ exception.\<close>

fun em_for :: "'a list \<Rightarrow> ('a \<Rightarrow> ('s, unit) em) \<Rightarrow> ('s, unit) em" where
  "em_for [] f = em_return ()"
| "em_for (x # xs) f = em_then (f x) (em_for xs f)"

fun is_exception :: "exn \<Rightarrow> bool" where
  "is_exception (RMDBError e) = True"
| "is_exception (TransactionAbortException t r) = True"
| "is_exception StdOutOfRange = True"
| "is_exception StdInvalidArgument = True"
| "is_exception _ = False"

definition em_on_error :: "('s, 'a) em \<Rightarrow> ('s, unit) em \<Rightarrow> ('s, 'a) em" where
  "em_on_error m h s =
     (case m s of
        (Inl e, s') \<Rightarrow> if is_exception e then em_then h (em_throw e) s' else (Inl e, s')
      | r \<Rightarrow> r)"

section \<open>Record access with locks\<close>

text \<open>A context in these functions is the id of its transaction, or \<open>None\<close> for a null context. A shared record
  lock is taken in explicit transactions only; an exclusive one always.\<close>

definition lock_record_read :: "txn_id_t option \<Rightarrow> int \<Rightarrow> Rid \<Rightarrow> (Sys, unit) em" where
  "lock_record_read ctx fd rid =
     (case ctx of
        None \<Rightarrow> em_return ()
      | Some t \<Rightarrow> with_txn t (\<lambda>txn.
          if \<not> txn_mode txn then em_return () else em_then (on_txn t (lock_shared_on_record rid fd)) (em_return ())))"

definition lock_record_write :: "txn_id_t option \<Rightarrow> int \<Rightarrow> Rid \<Rightarrow> (Sys, unit) em" where
  "lock_record_write ctx fd rid =
     (case ctx of
        None \<Rightarrow> em_return ()
      | Some t \<Rightarrow> em_then (on_txn t (lock_exclusive_on_record rid fd)) (em_return ()))"

definition table_fd :: "string \<Rightarrow> (Sys, int) em" where
  "table_fd name s = (case map_of (sys_fhs s) name of None \<Rightarrow> (Inl StdOutOfRange, s) | Some (fd, h) \<Rightarrow> (Inr fd, s))"

text \<open>Each call takes its lock first; the operation then runs with the lock granted.\<close>

definition sys_get_record :: "txn_id_t option \<Rightarrow> string \<Rightarrow> Rid \<Rightarrow> (Sys, byte list) em" where
  "sys_get_record ctx tab rid =
     em_bind (table_fd tab) (\<lambda>fd. em_then (lock_record_read ctx fd rid) (on_table tab (get_record no_lock rid)))"

definition sys_delete_record :: "txn_id_t option \<Rightarrow> string \<Rightarrow> Rid \<Rightarrow> (Sys, unit) em" where
  "sys_delete_record ctx tab rid =
     em_bind (table_fd tab) (\<lambda>fd. em_then (lock_record_write ctx fd rid) (on_table tab (delete_record no_lock rid)))"

definition sys_update_record :: "txn_id_t option \<Rightarrow> string \<Rightarrow> Rid \<Rightarrow> byte list \<Rightarrow> (Sys, unit) em" where
  "sys_update_record ctx tab rid buf =
     em_bind (table_fd tab) (\<lambda>fd. em_then (lock_record_write ctx fd rid) (on_table tab (update_record no_lock rid buf)))"

text \<open>Inserting takes the lock of the slot it has found, in the middle of the operation. The slot is read
  off the page handle; then the lock is taken, and its outcome decides how the operation goes on.\<close>

definition free_slot :: "(RmState, Rid) em" where
  "free_slot = em_bind create_page_handle (\<lambda>f s.
     (Inr \<lparr>rid_page_no = pid_page_no (pg_id (bp_frame (rs_bpm s) f)),
           rid_slot_no = first_bit False (page_bitmap (rm_data f s)) (num_records_per_page (rs_hdr s))\<rparr>, s))"

definition sys_insert_record :: "txn_id_t option \<Rightarrow> string \<Rightarrow> byte list \<Rightarrow> (Sys, Rid) em" where
  "sys_insert_record ctx tab buf s =
     em_bind (table_fd tab) (\<lambda>fd s.
       case fst (on_table tab free_slot s) of
         Inl e \<Rightarrow> on_table tab (insert_record no_lock buf) s
       | Inr rid \<Rightarrow>
           (case lock_record_write ctx fd rid s of
              (r, s1) \<Rightarrow> on_table tab (insert_record (\<lambda>_. r) buf) s1)) s"

definition sys_insert_record_at :: "string \<Rightarrow> Rid \<Rightarrow> byte list \<Rightarrow> (Sys, unit) em" where
  "sys_insert_record_at tab rid buf = on_table tab (insert_record_at rid buf)"

section \<open>Databases\<close>

definition DB_META_NAME :: string where "DB_META_NAME = ''db.meta''"

definition sm_is_dir :: "string \<Rightarrow> Sys \<Rightarrow> bool" where
  "sm_is_dir name s \<longleftrightarrow> sys_cwd s = None \<and> map_of (sys_dirs s) name \<noteq> None"

definition set_files :: "dir \<Rightarrow> string list \<Rightarrow> Sys \<Rightarrow> Sys" where
  "set_files fs ds s = s\<lparr>sys_bpm := (sys_bpm s)\<lparr>bp_disk := (bp_disk (sys_bpm s))\<lparr>files := fs, dirs := ds\<rparr>\<rparr>\<rparr>"

definition cur_files :: "Sys \<Rightarrow> dir" where
  "cur_files s = files (bp_disk (sys_bpm s))"

text \<open>\<^verbatim>\<open>mkdir\<close> through the shell does nothing when the name is taken.\<close>

definition sh_mkdir :: "string \<Rightarrow> (Sys, unit) em" where
  "sh_mkdir name s =
     (Inr (), if sys_cwd s \<noteq> None \<or> map_of (sys_dirs s) name \<noteq> None \<or> cur_files s name \<noteq> None then s
              else s\<lparr>sys_dirs := (name, Map.empty) # sys_dirs s\<rparr>)"

definition chdir_into :: "string \<Rightarrow> (Sys, unit) em" where
  "chdir_into name s =
     (case (sys_cwd s, map_of (sys_dirs s) name) of
        (None, Some fs) \<Rightarrow> (Inr (), set_files fs [] (s\<lparr>sys_cwd := Some name, sys_root := cur_files s\<rparr>))
      | _ \<Rightarrow> (Inl (RMDBError (UnixError ''Not a directory'')), s))"

text \<open>\<^verbatim>\<open>chdir("..")\<close> from a database directory; from the root it leaves the modelled tree.\<close>

definition chdir_up :: "(Sys, unit) em" where
  "chdir_up s =
     (case sys_cwd s of
        None \<Rightarrow> (Inl UndefinedBehaviour, s)
      | Some name \<Rightarrow>
          let ds = AList.update name (cur_files s) (sys_dirs s)
          in (Inr (), set_files (sys_root s) (map fst ds) (s\<lparr>sys_cwd := None, sys_dirs := ds\<rparr>)))"

text \<open>\<^verbatim>\<open>std::ofstream ofs(DB_META_NAME); ofs << db\<close>: the file is truncated and written.\<close>

definition write_meta :: "DbMeta \<Rightarrow> (Sys, unit) em" where
  "write_meta db = on_disk_mgr (\<lambda>d. (Inr (), d\<lparr>files := (files d)(DB_META_NAME \<mapsto> str_bytes (put_DbMeta db))\<rparr>))"

definition flush_meta :: "(Sys, unit) em" where
  "flush_meta s = write_meta (sys_db s) s"

definition create_db :: "string \<Rightarrow> (Sys, unit) em" where
  "create_db name s =
     (if sm_is_dir name s then (Inl (RMDBError (DatabaseExistsError name)), s)
      else em_then (sh_mkdir name) (em_then (chdir_into name)
             (em_then (write_meta \<lparr>db_name = name, tabs = []\<rparr>)
             (em_then (on_disk_mgr (create_file LOG_FILE_NAME)) chdir_up))) s)"

definition drop_db :: "string \<Rightarrow> (Sys, unit) em" where
  "drop_db name s =
     (if \<not> sm_is_dir name s then (Inl (RMDBError (DatabaseNotFoundError name)), s)
      else (Inr (), s\<lparr>sys_dirs := AList.delete name (sys_dirs s)\<rparr>))"

text \<open>Opening handles; the uninitialised header and pointer members are \<open>sys_junk\<close>.\<close>

definition sm_open_table :: "string \<Rightarrow> (Sys, unit) em" where
  "sm_open_table name s =
     (case rm_open_file (sys_junk s) name (sys_bpm s) of
        (Inl e, b) \<Rightarrow> (Inl e, s\<lparr>sys_bpm := b\<rparr>)
      | (Inr rs, b) \<Rightarrow>
          (Inr (), s\<lparr>sys_bpm := b, sys_fhs := (if map_of (sys_fhs s) name = None then (name, rs_fd rs, rs_hdr rs) # sys_fhs s
                                             else sys_fhs s)\<rparr>))"

definition index_names :: "IndexMeta \<Rightarrow> string list" where
  "index_names i = map cm_name (im_cols i)"

definition index_file :: "string \<Rightarrow> IndexMeta \<Rightarrow> string" where
  "index_file tab i = get_index_name tab (index_names i)"

definition ix_open :: "string \<Rightarrow> IndexMeta \<Rightarrow> (Sys, int \<times> IxFileHdr) em" where
  "ix_open tab i s =
     (case open_index (sys_junk s) tab (index_names i) (sys_bpm s) of
        (Inl e, b) \<Rightarrow> (Inl e, s\<lparr>sys_bpm := b\<rparr>)
      | (Inr ix, b) \<Rightarrow> (Inr (ih_fd ix, ih_hdr ix), s\<lparr>sys_bpm := b\<rparr>))"

definition ihs_emplace :: "string \<Rightarrow> int \<times> IxFileHdr \<Rightarrow> (Sys, unit) em" where
  "ihs_emplace name ih = em_modify (\<lambda>s.
     if map_of (sys_ihs s) name = None then s\<lparr>sys_ihs := (name, ih) # sys_ihs s\<rparr> else s)"

definition sm_open_index :: "string \<Rightarrow> IndexMeta \<Rightarrow> (Sys, unit) em" where
  "sm_open_index tab i = em_bind (ix_open tab i) (ihs_emplace (index_file tab i))"

text \<open>A catalogue file that was not written by the program leaves an unspecified catalogue.\<close>

definition open_db :: "string \<Rightarrow> (Sys, unit) em" where
  "open_db name s =
     (if \<not> sm_is_dir name s then (Inl (RMDBError (DatabaseNotFoundError name)), s)
      else em_then (chdir_into name) (\<lambda>s.
             case cur_files s DB_META_NAME of
               None \<Rightarrow> (Inl (RMDBError (UnixError ''No such file or directory'')), s)
             | Some bs \<Rightarrow>
                 (case get_DbMeta (bytes_str bs) of
                    None \<Rightarrow> (Inl UndefinedBehaviour, s)
                  | Some (db, _) \<Rightarrow>
                      em_then (em_modify (\<lambda>s. s\<lparr>sys_db := db, sys_fhs := [], sys_ihs := []\<rparr>))
                        (em_then
                          (em_for (map snd (tabs db)) (\<lambda>tab.
                             em_then (sm_open_table (tm_name tab)) (em_for (tm_indexes tab) (sm_open_index (tm_name tab)))))
                          (em_bind (on_disk_mgr (open_file LOG_FILE_NAME)) (\<lambda>fd.
                             on_disk_mgr (\<lambda>d. (Inr (), SetLogFd fd d))))) s)) s)"

definition sm_close_index :: "string \<Rightarrow> (Sys, unit) em" where
  "sm_close_index name s = on_index name (close_index (sys_junk s)) s"

definition close_db :: "(Sys, unit) em" where
  "close_db =
     em_then flush_meta
       (em_then (\<lambda>s. em_for (map fst (sys_ihs s)) sm_close_index s)
       (em_then (em_modify (\<lambda>s. s\<lparr>sys_ihs := []\<rparr>))
       (em_then (\<lambda>s. em_for (map fst (sys_fhs s)) (\<lambda>t. on_table t rm_close_file) s)
       (em_then (em_modify (\<lambda>s. s\<lparr>sys_fhs := []\<rparr>))
       (em_then
         (\<lambda>s. let fd = GetLogFd (bp_disk (sys_bpm s))
              in if fd \<noteq> -1
                 then em_then (on_disk_mgr (close_file fd)) (on_disk_mgr (\<lambda>d. (Inr (), SetLogFd (-1) d))) s
                 else (Inr (), s))
         chdir_up)))))"

section \<open>Showing the catalogue\<close>

definition out_append :: "string \<Rightarrow> (Sys, unit) em" where
  "out_append t = em_modify (\<lambda>s. s\<lparr>sys_out := sys_out s @ t\<rparr>)"

definition show_tables :: "(Sys, unit) em" where
  "show_tables s =
     em_then (out_append (''| Tables |'' @ NL))
       (em_then (on_send (print_separator 1)) (em_then (on_send (print_rec 1 [''Tables''])) (em_then (on_send (print_separator 1))
       (em_then
         (em_for (map snd (tabs (sys_db s))) (\<lambda>tab.
            em_then (on_send (print_rec 1 [tm_name tab])) (out_append (''| '' @ tm_name tab @ '' |'' @ NL))))
         (on_send (print_separator 1)))))) s"

definition desc_table :: "string \<Rightarrow> (Sys, unit) em" where
  "desc_table tab_name s =
     em_bind (sys_res (get_table tab_name (sys_db s))) (\<lambda>tab.
       em_then (on_send (print_separator 3)) (em_then (on_send (print_rec 3 [''Field'', ''Type'', ''Index'']))
       (em_then (on_send (print_separator 3))
       (em_then
         (em_for (tm_cols tab) (\<lambda>col.
            on_send (print_rec 3 [cm_name col, coltype2str (cm_type col), if cm_index col then ''YES'' else ''NO''])))
         (on_send (print_separator 3)))))) s"

text \<open>\<^verbatim>\<open>for (int i = 0; i < index.col_num; i++)\<close> reads past the columns if there are fewer.\<close>

definition index_cols_text :: "IndexMeta \<Rightarrow> string res" where
  "index_cols_text i =
     (if col_num i > int (length (im_cols i)) then Inl UndefinedBehaviour
      else let ns = take (nat (col_num i)) (index_names i)
           in Inr (''('' @ (case ns of [] \<Rightarrow> [] | n # ms \<Rightarrow> n @ concat (map (\<lambda>m. CHR '','' # m) ms)) @ '')''))"

text \<open>The line is copied into the send buffer without the room check of the record printer.\<close>

definition show_index :: "string \<Rightarrow> (Sys, unit) em" where
  "show_index tab_name s =
     em_bind (sys_res (get_table tab_name (sys_db s))) (\<lambda>tab.
       em_for (tm_indexes tab) (\<lambda>i.
         em_bind (sys_res (index_cols_text i)) (\<lambda>cols.
           let line = ''| '' @ tab_name @ '' | unique | '' @ cols @ '' |'' @ NL
           in em_then (out_append line) (on_send (send_put line))))) s"

section \<open>Tables\<close>

text \<open>The columns with their offsets, and the record size.\<close>

fun layout_cols :: "string \<Rightarrow> ColDef list \<Rightarrow> int \<Rightarrow> ColMeta list \<times> int" where
  "layout_cols tab [] curr_offset = ([], curr_offset)"
| "layout_cols tab (d # ds) curr_offset =
     (let col = \<lparr>cm_tab_name = tab, cm_name = cd_name d, cm_type = cd_type d, cm_len = cd_len d,
                 cm_offset = curr_offset, cm_index = False\<rparr>;
          (cols, size) = layout_cols tab ds (c_int (curr_offset + cd_len d))
      in (col # cols, size))"

definition create_table :: "string \<Rightarrow> ColDef list \<Rightarrow> (Sys, unit) em" where
  "create_table tab_name col_defs s =
     (if is_table tab_name (sys_db s) then (Inl (RMDBError (TableExistsError tab_name)), s)
      else let (cols, size) = layout_cols tab_name col_defs 0
           in em_then (on_disk_mgr (rm_create_file tab_name size))
                (em_then (em_modify (\<lambda>s. s\<lparr>sys_db := SetTabMeta tab_name \<lparr>tm_name = tab_name, tm_cols = cols, tm_indexes = []\<rparr> (sys_db s)\<rparr>))
                (em_then (sm_open_table tab_name) flush_meta)) s)"

section \<open>Indexes\<close>

definition upd_tab :: "string \<Rightarrow> (TabMeta \<Rightarrow> TabMeta) \<Rightarrow> (Sys, unit) em" where
  "upd_tab tab_name f = em_modify (\<lambda>s.
     case map_of (tabs (sys_db s)) tab_name of
       Some t \<Rightarrow> s\<lparr>sys_db := (sys_db s)\<lparr>tabs := AList.update tab_name (f t) (tabs (sys_db s))\<rparr>\<rparr>
     | None \<Rightarrow> s)"

text \<open>\<^verbatim>\<open>tab.get_col(name)->index = b\<close>: the first column of that name.\<close>

definition mark_col :: "string \<Rightarrow> bool \<Rightarrow> TabMeta \<Rightarrow> TabMeta" where
  "mark_col name b t = t\<lparr>tm_cols := upd_first (\<lambda>c. cm_name c = name) (\<lambda>c. c\<lparr>cm_index := b\<rparr>) (tm_cols t)\<rparr>"

definition mark_cols :: "string \<Rightarrow> ColMeta list \<Rightarrow> (TabMeta \<Rightarrow> string \<Rightarrow> bool) \<Rightarrow> (Sys, unit) em" where
  "mark_cols tab_name cols f = em_for cols (\<lambda>c s.
     em_bind (sys_res (rbind (get_table tab_name (sys_db s)) (get_col (cm_name c)))) (\<lambda>_.
       upd_tab tab_name (\<lambda>t. mark_col (cm_name c) (f t (cm_name c)) t)) s)"

fun index_meta_cols :: "TabMeta \<Rightarrow> string list \<Rightarrow> ColMeta list res" where
  "index_meta_cols tab [] = Inr []"
| "index_meta_cols tab (n # ns) =
     rbind (get_col n tab) (\<lambda>c. rbind (index_meta_cols tab ns) (\<lambda>cs. Inr (c # cs)))"

definition new_IndexMeta :: "string \<Rightarrow> string list \<Rightarrow> TabMeta \<Rightarrow> IndexMeta res" where
  "new_IndexMeta tab_name col_names tab =
     rbind (index_meta_cols tab col_names) (\<lambda>cs.
       Inr \<lparr>im_tab_name = tab_name, col_tot_len = fold (\<lambda>c acc. c_int (acc + cm_len c)) cs 0,
            col_num = int (length col_names), im_cols = cs\<rparr>)"

text \<open>The local index handle of \<^verbatim>\<open>create_index\<close> is a second component of the state.\<close>

type_synonym sys_ih = "Sys \<times> int \<times> IxFileHdr"

definition ih_sys :: "(Sys, 'a) em \<Rightarrow> (sys_ih, 'a) em" where
  "ih_sys m = (\<lambda>(s, h). case m s of (r, s') \<Rightarrow> (r, s', h))"

definition ih_ix :: "(IxState, 'a) em \<Rightarrow> (sys_ih, 'a) em" where
  "ih_ix m = (\<lambda>(s, fd, h).
     case m \<lparr>ih_fd = fd, ih_hdr = h, ih_bpm = sys_bpm s\<rparr> of
       (r, ix) \<Rightarrow> (r, s\<lparr>sys_bpm := ih_bpm ix\<rparr>, ih_fd ix, ih_hdr ix))"

definition drop_ih :: "string \<Rightarrow> IndexMeta \<Rightarrow> (sys_ih, unit) em" where
  "drop_ih tab_name index = (\<lambda>(s, h).
     em_then (ih_ix (close_index (sys_junk s))) (ih_sys (on_disk_mgr (destroy_index tab_name (index_names index)))) (s, h))"

primrec build_index :: "nat \<Rightarrow> txn_id_t option \<Rightarrow> string \<Rightarrow> IndexMeta \<Rightarrow> Rid \<Rightarrow> (sys_ih, unit) em" where
  "build_index 0 ctx tab_name index rid = em_throw OutOfFuel"
| "build_index (Suc n) ctx tab_name index rid =
     (if RmScan_is_end rid then em_return ()
      else em_bind (ih_sys (sys_get_record ctx tab_name rid)) (\<lambda>rec.
           em_bind (ih_sys (sys_res (build_index_key index rec))) (\<lambda>key.
           em_bind (ih_ix (get_value n key [])) (\<lambda>(found, dup).
             if found
             then em_then (drop_ih tab_name index) (em_throw (RMDBError (IndexExistsError tab_name (index_names index))))
             else em_then (em_then (ih_ix (insert_entry n key rid)) (em_return ()))
                    (em_bind (ih_sys (on_table tab_name (RmScan_next rid))) (build_index n ctx tab_name index))))))"

definition sm_create_index :: "nat \<Rightarrow> txn_id_t option \<Rightarrow> string \<Rightarrow> string list \<Rightarrow> (Sys, unit) em" where
  "sm_create_index n ctx tab_name col_names s =
     em_bind (sys_res (get_table tab_name (sys_db s))) (\<lambda>tab.
     em_bind (sys_res (is_index col_names tab)) (\<lambda>b.
       if b then em_throw (RMDBError (IndexExistsError tab_name col_names))
       else em_bind (sys_res (new_IndexMeta tab_name col_names tab)) (\<lambda>index.
            em_then (on_disk_mgr (create_index (sys_junk s) tab_name (im_cols index)))
            (em_bind (ix_open tab_name index) (\<lambda>ih s.
               if map_of (sys_fhs s) tab_name = None then (Inl StdOutOfRange, s)
               else case em_on_error
                      (em_bind (ih_sys (on_table tab_name RmScan_new)) (build_index n ctx tab_name index))
                      (\<lambda>(s, h). if is_file (index_file tab_name index) (bp_disk (sys_bpm s))
                               then drop_ih tab_name index (s, h) else (Inr (), s, h))
                      (s, ih) of
                 (Inl e, s', _) \<Rightarrow> (Inl e, s')
               | (Inr _, s', ih') \<Rightarrow>
                   em_then (ihs_emplace (index_file tab_name index) ih')
                     (em_then (upd_tab tab_name (\<lambda>t. t\<lparr>tm_indexes := tm_indexes t @ [index]\<rparr>))
                     (em_then (mark_cols tab_name (im_cols index) (\<lambda>_ _. True)) flush_meta)) s'))))) s"

definition still_indexed :: "TabMeta \<Rightarrow> string \<Rightarrow> bool" where
  "still_indexed t name \<longleftrightarrow> list_ex (\<lambda>i. list_ex (\<lambda>c. cm_name c = name) (im_cols i)) (tm_indexes t)"

definition drop_index_cols :: "string \<Rightarrow> ColMeta list \<Rightarrow> (Sys, unit) em" where
  "drop_index_cols tab_name cols s =
     (let names = map cm_name cols; ix_name = get_index_name tab_name names
      in em_bind (sys_res (rbind (get_table tab_name (sys_db s)) (get_index_meta names))) (\<lambda>pos.
           em_then
             (\<lambda>s. if map_of (sys_ihs s) ix_name \<noteq> None
                  then em_then (sm_close_index ix_name) (em_modify (\<lambda>s. s\<lparr>sys_ihs := AList.delete ix_name (sys_ihs s)\<rparr>)) s
                  else (Inr (), s))
             (em_then (on_disk_mgr (destroy_index tab_name names))
             (em_then (upd_tab tab_name (\<lambda>t. t\<lparr>tm_indexes := take pos (tm_indexes t) @ drop (Suc pos) (tm_indexes t)\<rparr>))
             (em_then (mark_cols tab_name cols still_indexed) flush_meta)))) s)"

definition drop_index :: "string \<Rightarrow> string list \<Rightarrow> (Sys, unit) em" where
  "drop_index tab_name col_names s =
     em_bind (sys_res (get_table tab_name (sys_db s))) (\<lambda>tab.
     em_bind (sys_res (get_index_meta col_names tab)) (\<lambda>pos.
       drop_index_cols tab_name (im_cols (tm_indexes tab ! pos)))) s"

definition drop_table :: "string \<Rightarrow> (Sys, unit) em" where
  "drop_table tab_name s =
     (if \<not> is_table tab_name (sys_db s) then (Inl (RMDBError (TableNotFoundError tab_name)), s)
      else em_bind (sys_res (get_table tab_name (sys_db s))) (\<lambda>tab.
             em_then (em_for (tm_indexes tab) (\<lambda>i. drop_index_cols tab_name (im_cols i)))
             (em_then
               (\<lambda>s. if map_of (sys_fhs s) tab_name \<noteq> None
                    then em_then (on_table tab_name rm_close_file)
                           (em_modify (\<lambda>s. s\<lparr>sys_fhs := AList.delete tab_name (sys_fhs s)\<rparr>)) s
                    else (Inr (), s))
             (em_then (on_disk_mgr (rm_destroy_file tab_name))
             (em_then (em_modify (\<lambda>s. s\<lparr>sys_db := (sys_db s)\<lparr>tabs := AList.delete tab_name (tabs (sys_db s))\<rparr>\<rparr>))
               flush_meta)))) s)"

end
