(* ===== verification/Txn.thy ===== *)
theory Txn
  imports System
begin

text \<open>
  Transactions: \<^verbatim>\<open>transaction/transaction_manager.cpp\<close> over the state of \<open>System\<close>. Committing and aborting are the
  whole functions: the log record, the flushes, the undo of the write set and the release of all locks. The theorem shows
  that aborting a transaction brings back the table it changed.
\<close>

section \<open>Undoing a write\<close>

text \<open>Index entries of a record are removed or put back in the order of the table's indexes. \<open>n\<close> bounds the steps
  inside the B+ tree operations.\<close>

definition ix_delete_key :: "nat \<Rightarrow> string \<Rightarrow> IndexMeta \<Rightarrow> byte list \<Rightarrow> (Sys, unit) em" where
  "ix_delete_key n tab_name index key = em_then (on_index (index_file tab_name index) (delete_entry n key)) (em_return ())"

definition ix_insert_key :: "nat \<Rightarrow> string \<Rightarrow> IndexMeta \<Rightarrow> byte list \<Rightarrow> Rid \<Rightarrow> (Sys, unit) em" where
  "ix_insert_key n tab_name index key rid = em_then (on_index (index_file tab_name index) (insert_entry n key rid)) (em_return ())"

definition undo_insert :: "nat \<Rightarrow> TabMeta \<Rightarrow> string \<Rightarrow> Rid \<Rightarrow> (Sys, unit) em" where
  "undo_insert n tab tab_name rid =
     em_bind (sys_get_record None tab_name rid) (\<lambda>rec.
       em_then
         (em_for (tm_indexes tab) (\<lambda>index.
            em_bind (sys_res (build_index_key index rec)) (ix_delete_key n tab_name index)))
         (sys_delete_record None tab_name rid))"

definition undo_delete :: "nat \<Rightarrow> TabMeta \<Rightarrow> string \<Rightarrow> Rid \<Rightarrow> RmRecord \<Rightarrow> (Sys, unit) em" where
  "undo_delete n tab tab_name rid rec =
     em_then (sys_insert_record_at tab_name rid (rec_data rec))
       (em_for (tm_indexes tab) (\<lambda>index.
          em_bind (sys_res (build_index_key index (rec_data rec))) (\<lambda>key. ix_insert_key n tab_name index key rid)))"

definition undo_update :: "nat \<Rightarrow> TabMeta \<Rightarrow> string \<Rightarrow> Rid \<Rightarrow> RmRecord \<Rightarrow> (Sys, unit) em" where
  "undo_update n tab tab_name rid old_rec =
     em_bind (sys_get_record None tab_name rid) (\<lambda>cur_rec.
       em_then
         (em_for (tm_indexes tab) (\<lambda>index.
            em_bind (sys_res (build_index_key index (rec_data old_rec))) (\<lambda>old_key.
            em_bind (sys_res (build_index_key index cur_rec)) (\<lambda>new_key.
              if memcmp old_key new_key \<noteq> 0
              then em_then (ix_delete_key n tab_name index new_key) (ix_insert_key n tab_name index old_key rid)
              else em_return ()))))
         (sys_update_record None tab_name rid (rec_data old_rec)))"

definition undo_write_record :: "nat \<Rightarrow> WriteRecord \<Rightarrow> (Sys, unit) em" where
  "undo_write_record n w s =
     em_bind (sys_res (get_table (wr_tab_name w) (sys_db s))) (\<lambda>tab.
     em_then (em_then (table_fd (wr_tab_name w)) (em_return ()))
       (case wtype w of
          INSERT_TUPLE \<Rightarrow> undo_insert n tab (wr_tab_name w) (wr_rid w)
        | DELETE_TUPLE \<Rightarrow> undo_delete n tab (wr_tab_name w) (wr_rid w) (wr_record w)
        | UPDATE_TUPLE \<Rightarrow> undo_update n tab (wr_tab_name w) (wr_rid w) (wr_record w))) s"

section \<open>The transaction manager\<close>

text \<open>\<^verbatim>\<open>begin\<close> with a null transaction makes a new one; its id and time stamp come from the counters.\<close>

definition txn_begin :: "txn_id_t option \<Rightarrow> (Sys, txn_id_t) em" where
  "txn_begin t s =
     (case t of
        None \<Rightarrow>
          let i = sys_next_txn s
          in (Inr i, s\<lparr>sys_next_txn := c_int (i + 1), sys_next_ts := sys_next_ts s + 1,
                       sys_txns := AList.update i (set_state GROWING (set_start_ts (sys_next_ts s) (new_Transaction i))) (sys_txns s)\<rparr>)
      | Some i \<Rightarrow> em_then (upd_txn i (set_state GROWING)) (em_return i) s)"

text \<open>Appending a log record of the transaction: it points back to the previous one, and the transaction to it.\<close>

definition txn_log :: "txn_id_t \<Rightarrow> LogRecord \<Rightarrow> (Sys, unit) em" where
  "txn_log t r = with_txn t (\<lambda>txn.
     em_bind (on_log (add_log_to_buffer (map_hdr (\<lambda>h. h\<lparr>prev_lsn := txn_prev_lsn txn\<rparr>) r))) (\<lambda>r'.
       upd_txn t (set_prev_lsn (lsn (log_hdr r')))))"

definition ensure_txn_logged :: "txn_id_t \<Rightarrow> (Sys, unit) em" where
  "ensure_txn_logged t = with_txn t (\<lambda>txn.
     if txn_prev_lsn txn \<noteq> INVALID_LSN then em_return () else txn_log t (new_BeginLogRecord t))"

definition clear_write_set :: "txn_id_t \<Rightarrow> (Sys, unit) em" where
  "clear_write_set t = upd_txn t (\<lambda>txn. txn\<lparr>write_set := []\<rparr>)"

definition release_all_locks :: "txn_id_t \<Rightarrow> (Sys, unit) em" where
  "release_all_locks t = with_txn t (\<lambda>txn.
     em_then
       (em_for (lock_set txn) (\<lambda>i. on_txn t (\<lambda>st. case unlock i st of (b, st') \<Rightarrow> (Inr (), st'))))
       (upd_txn t (\<lambda>txn. txn\<lparr>lock_set := []\<rparr>)))"

definition txn_commit :: "txn_id_t \<Rightarrow> (Sys, unit) em" where
  "txn_commit t = with_txn t (\<lambda>txn.
     let had_writes = (write_set txn \<noteq> [])
     in em_then
          (if had_writes
           then em_then (ensure_txn_logged t) (em_then (txn_log t (new_CommitLogRecord t)) (on_log flush_log_to_disk))
           else em_return ())
          (em_then (clear_write_set t)
          (em_then (release_all_locks t)
          (em_then (if had_writes then on_bpm flush_all_dirty_pages else em_return ())
            (upd_txn t (set_state COMMITTED))))))"

text \<open>The write set is undone from its end; a record is taken off before it is undone.\<close>

fun undo_writes :: "nat \<Rightarrow> txn_id_t \<Rightarrow> WriteRecord list \<Rightarrow> (Sys, unit) em" where
  "undo_writes n t [] = em_return ()"
| "undo_writes n t (w # ws) =
     em_then (upd_txn t (\<lambda>txn. txn\<lparr>write_set := butlast (write_set txn)\<rparr>))
       (em_then (undo_write_record n w) (undo_writes n t ws))"

definition abort_finish :: "bool \<Rightarrow> txn_id_t \<Rightarrow> (Sys, unit) em" where
  "abort_finish had_writes t =
     em_then
       (if had_writes then em_then (txn_log t (new_AbortLogRecord t)) (on_log flush_log_to_disk) else em_return ())
       (em_then (release_all_locks t) (upd_txn t (set_state ABORTED)))"

definition txn_abort :: "nat \<Rightarrow> txn_id_t \<Rightarrow> (Sys, unit) em" where
  "txn_abort n t = with_txn t (\<lambda>txn.
     em_then (undo_writes n t (rev (write_set txn))) (abort_finish (write_set txn \<noteq> []) t))"

text \<open>The asserts of \<^verbatim>\<open>get_transaction\<close>; all statements of a transaction run on the thread that began it.\<close>

definition get_transaction :: "txn_id_t \<Rightarrow> (Sys, txn_id_t option) em" where
  "get_transaction t s =
     (if t = INVALID_TXN_ID then (Inr None, s)
      else if map_of (sys_txns s) t = None then (Inl AssertFailure, s) else (Inr (Some t), s))"

section \<open>A table inside the system\<close>

definition tab_state :: "string \<Rightarrow> Sys \<Rightarrow> RmState option" where
  "tab_state name s = map_option (\<lambda>(fd, h). \<lparr>rs_fd = fd, rs_hdr = h, rs_bpm = sys_bpm s\<rparr>) (map_of (sys_fhs s) name)"

definition put_tab :: "string \<Rightarrow> RmState \<Rightarrow> Sys \<Rightarrow> Sys" where
  "put_tab name r s = s\<lparr>sys_fhs := AList.update name (rs_fd r, rs_hdr r) (sys_fhs s), sys_bpm := rs_bpm r\<rparr>"

lemma tab_state_put [simp]: "tab_state name (put_tab name r s) = Some r"
  by (simp add: tab_state_def put_tab_def map_of_update)

lemma put_tab_put [simp]: "put_tab name r2 (put_tab name r1 s) = put_tab name r2 s"
  by (simp add: put_tab_def alist_update_twice)

lemma put_tab_sel [simp]:
  "sys_db (put_tab name r s) = sys_db s" "sys_txns (put_tab name r s) = sys_txns s" "sys_locks (put_tab name r s) = sys_locks s"
  "sys_log (put_tab name r s) = sys_log s"
  by (simp_all add: put_tab_def)

lemma on_table_run: "tab_state name s = Some r \<Longrightarrow> m r = (x, r') \<Longrightarrow> on_table name m s = (x, put_tab name r' s)"
  by (auto simp: tab_state_def on_table_def put_tab_def)

lemma table_fd_run: "tab_state name s = Some r \<Longrightarrow> table_fd name s = (Inr (rs_fd r), s)"
  by (auto simp: tab_state_def table_fd_def)

lemma sys_record_run:
  assumes "tab_state name s = Some r"
  shows "get_record no_lock rid r = (Inr x, r1) \<Longrightarrow> sys_get_record None name rid s = (Inr x, put_tab name r1 s)"
    "delete_record no_lock rid r = (Inr (), r1) \<Longrightarrow> sys_delete_record None name rid s = (Inr (), put_tab name r1 s)"
    "update_record no_lock rid buf r = (Inr (), r1) \<Longrightarrow> sys_update_record None name rid buf s = (Inr (), put_tab name r1 s)"
    "insert_record_at rid buf r = (Inr (), r1) \<Longrightarrow> sys_insert_record_at name rid buf s = (Inr (), put_tab name r1 s)"
  by (simp_all add: sys_get_record_def sys_delete_record_def sys_update_record_def sys_insert_record_at_def
      em_defs table_fd_run[OF assms] lock_record_read_def lock_record_write_def on_table_run[OF assms])

section \<open>Undoing the write set\<close>

text \<open>One write as the executors record it, from the table \<open>T\<close> to \<open>T'\<close>: the old record of a delete or an update is
  in the write set. The pages are those of the file with header \<open>h\<close>. A deleted record's page must not have been full, see
  \<^verbatim>\<open>rollback_reinsert_overflow\<close>.\<close>

definition wrote :: "RmFileHdr \<Rightarrow> (Rid \<Rightarrow> byte list option) \<Rightarrow> WriteRecord \<Rightarrow> (Rid \<Rightarrow> byte list option) \<Rightarrow> bool" where
  "wrote h T w T' \<longleftrightarrow>
     (let rid = wr_rid w; x = rec_data (wr_record w); p = rid_page_no (wr_rid w)
      in case wtype w of
           INSERT_TUPLE \<Rightarrow> T rid = None \<and> (\<exists>y. T' = T(rid \<mapsto> y))
         | DELETE_TUPLE \<Rightarrow> T rid = Some x \<and> T' = T(rid := None) \<and> int (length x) = record_size h \<and>
             1 \<le> p \<and> p < num_pages h \<and> valid_slot h (rid_slot_no rid) \<and>
             int (card {i. T \<lparr>rid_page_no = p, rid_slot_no = i\<rparr> \<noteq> None}) < num_records_per_page h
         | UPDATE_TUPLE \<Rightarrow> T rid = Some x \<and> int (length x) = record_size h \<and> (\<exists>y. T' = T(rid \<mapsto> y)))"

inductive table_run :: "RmFileHdr \<Rightarrow> (Rid \<Rightarrow> byte list option) \<Rightarrow> WriteRecord list \<Rightarrow> (Rid \<Rightarrow> byte list option) \<Rightarrow> bool" for h where
  run_none: "table_run h T [] T"
| run_write: "table_run h T ws T' \<Longrightarrow> wrote h T' w T'' \<Longrightarrow> table_run h T (ws @ [w]) T''"

inductive_cases table_run_snocE: "table_run h T (ws @ [w]) T''"

inductive_simps table_run_Nil: "table_run h T [] T'"

definition same_file :: "RmFileHdr \<Rightarrow> RmFileHdr \<Rightarrow> bool" where
  "same_file h h' \<longleftrightarrow> record_size h' = record_size h \<and> num_pages h' = num_pages h \<and>
     num_records_per_page h' = num_records_per_page h"

lemma wrote_same: "same_file h h' \<Longrightarrow> wrote h' T w T' = wrote h T w T'"
  by (cases "wtype w") (simp_all add: same_file_def wrote_def valid_slot_def Let_def)

lemma table_run_same: "table_run h T ws T' \<Longrightarrow> same_file h h' \<Longrightarrow> table_run h' T ws T'"
  by (induction rule: table_run.induct) (auto intro: table_run.intros simp: wrote_same)

lemma same_file_ready: "rm_ready r \<Longrightarrow> rm_ready r' \<Longrightarrow> record_size (rs_hdr r') = record_size (rs_hdr r) \<Longrightarrow>
    num_pages (rs_hdr r') = num_pages (rs_hdr r) \<Longrightarrow> same_file (rs_hdr r) (rs_hdr r')"
  using same_layout(1)[of "rs_hdr r" "rs_hdr r'"] by (auto simp: same_file_def rm_ready_def dest: rm_invD(2))

text \<open>Undoing one write on a table without indexes.\<close>

lemma undo_insert_run:
  assumes r: "rm_ready r" "tab_state name s = Some r" and ix: "tm_indexes tab = []" and T: "T rid = None" "rm_table r = T(rid \<mapsto> y)"
  shows "\<exists>r'. undo_insert n tab name rid s = (Inr (), put_tab name r' s) \<and> rm_ready r' \<and> rm_table r' = T \<and>
           same_file (rs_hdr r) (rs_hdr r')"
proof -
  have i: "rm_inv r" "bp_roomy (rs_bpm r)" "rm_table r rid = Some y" using r(1) T by (auto simp: rm_ready_def)
  obtain r1 where g: "get_record no_lock rid r = (Inr y, r1)" "rm_inv r1" "bp_roomy (rs_bpm r1)" "rm_table r1 = rm_table r"
      "rs_hdr r1 = rs_hdr r"
    using get_record_ok[OF i, of no_lock] by (auto simp: no_lock_def)
  obtain r2 where d: "delete_record no_lock rid r1 = (Inr (), r2)" "rm_inv r2" "bp_roomy (rs_bpm r2)"
      "rm_table r2 = (rm_table r)(rid := None)" "record_size (rs_hdr r2) = record_size (rs_hdr r)" "num_pages (rs_hdr r2) = num_pages (rs_hdr r)"
    using delete_record_ok[OF g(2,3), of rid y no_lock] g i(3) by (auto simp: no_lock_def)
  have "undo_insert n tab name rid s = (Inr (), put_tab name r2 s)"
    using sys_record_run(1)[OF r(2) g(1)] sys_record_run(2)[OF tab_state_put d(1)] ix by (simp add: undo_insert_def em_defs)
  moreover have "same_file (rs_hdr r) (rs_hdr r2)" using same_file_ready[OF r(1), of r2] d by (simp add: rm_ready_def)
  moreover have "rm_table r2 = T" using T d(4) by auto
  ultimately show ?thesis using d by (auto simp: rm_ready_def)
qed

lemma undo_update_run:
  assumes r: "rm_ready r" "tab_state name s = Some r" and ix: "tm_indexes tab = []"
    and T: "T rid = Some x" "rm_table r = T(rid \<mapsto> y)" and x: "rec_data rec = x" "int (length x) = record_size (rs_hdr r)"
  shows "\<exists>r'. undo_update n tab name rid rec s = (Inr (), put_tab name r' s) \<and> rm_ready r' \<and> rm_table r' = T \<and>
           same_file (rs_hdr r) (rs_hdr r')"
proof -
  have i: "rm_inv r" "bp_roomy (rs_bpm r)" "rm_table r rid = Some y" using r(1) T by (auto simp: rm_ready_def)
  obtain r1 where g: "get_record no_lock rid r = (Inr y, r1)" "rm_inv r1" "bp_roomy (rs_bpm r1)" "rm_table r1 = rm_table r"
      "rs_hdr r1 = rs_hdr r"
    using get_record_ok[OF i, of no_lock] by (auto simp: no_lock_def)
  obtain r2 where d: "update_record no_lock rid x r1 = (Inr (), r2)" "rm_inv r2" "bp_roomy (rs_bpm r2)"
      "rm_table r2 = (rm_table r)(rid \<mapsto> x)" "rs_hdr r2 = rs_hdr r"
    using update_record_ok[OF g(2,3), of rid y no_lock x] g i(3) x(2) by (auto simp: no_lock_def)
  have "undo_update n tab name rid rec s = (Inr (), put_tab name r2 s)"
    using sys_record_run(1)[OF r(2) g(1)] sys_record_run(3)[OF tab_state_put d(1)] ix x(1) by (simp add: undo_update_def em_defs)
  moreover have "rm_table r2 = T" using T d(4) by auto
  ultimately show ?thesis using d by (auto simp: rm_ready_def same_file_def)
qed

lemma undo_delete_run:
  assumes r: "rm_ready r" "tab_state name s = Some r" and ix: "tm_indexes tab = []"
    and w: "wrote (rs_hdr r) T w (rm_table r)" "wtype w = DELETE_TUPLE"
  shows "\<exists>r'. undo_delete n tab name (wr_rid w) (wr_record w) s = (Inr (), put_tab name r' s) \<and> rm_ready r' \<and> rm_table r' = T \<and>
           same_file (rs_hdr r) (rs_hdr r')"
proof -
  let ?rid = "wr_rid w" let ?x = "rec_data (wr_record w)" let ?p = "rid_page_no ?rid"
  let ?S = "\<lambda>T. {i. T \<lparr>rid_page_no = ?p, rid_slot_no = i\<rparr> \<noteq> None}"
  have T: "T ?rid = Some ?x" "rm_table r = T(?rid := None)" "int (length ?x) = record_size (rs_hdr r)"
      "1 \<le> ?p" "?p < num_pages (rs_hdr r)" "valid_slot (rs_hdr r) (rid_slot_no ?rid)" "int (card (?S T)) < num_records_per_page (rs_hdr r)"
    using w by (auto simp: wrote_def Let_def)
  have i: "rm_inv r" "bp_roomy (rs_bpm r)" using r(1) by (simp_all add: rm_ready_def)
  have pn: "rm_page_no r ?p" using T by (simp add: rm_page_no_def)
  obtain d where d: "rm_page r ?p = Some d" "page_wf (rs_hdr r) d" using rm_invD(4)[OF i(1) pn] by blast
  have ps: "page_slots (rs_hdr r) d = ?S T - {rid_slot_no ?rid}"
    unfolding page_slots_table[OF pn d(1)] T(2) using rid_at[of ?rid] by auto
  have in_S: "rid_slot_no ?rid \<in> ?S T" using T(1) by (simp add: rid_eta)
  have "finite (?S T)" using finite_page_slots[of "rs_hdr r" d] ps by auto
  then have "page_num_records d + 1 < num_records_per_page (rs_hdr r)"
    using d(2) ps in_S T(7) card_Suc_Diff1[of "?S T" "rid_slot_no ?rid"] by (simp add: page_wf_def)
  then obtain r2 where n: "insert_record_at ?rid ?x r = (Inr (), r2)" "rm_inv r2" "bp_roomy (rs_bpm r2)"
      "rm_table r2 = (rm_table r)(?rid \<mapsto> ?x)" "rs_hdr r2 = rs_hdr r"
    using insert_at_ok[OF i pn d(1) T(6), of ?x] T(2,3) by auto
  have "undo_delete n tab name ?rid (wr_record w) s = (Inr (), put_tab name r2 s)"
    using sys_record_run(4)[OF r(2) n(1)] ix by (simp add: undo_delete_def em_defs)
  moreover have "rm_table r2 = T" using T(1,2) n(4) by auto
  ultimately show ?thesis using n by (auto simp: rm_ready_def same_file_def)
qed

lemma undo_write_run:
  assumes r: "rm_ready r" "tab_state name s = Some r" and tab: "get_table name (sys_db s) = Inr tab" "tm_indexes tab = []"
    and w: "wrote (rs_hdr r) T w (rm_table r)" "wr_tab_name w = name"
  shows "\<exists>r'. undo_write_record n w s = (Inr (), put_tab name r' s) \<and> rm_ready r' \<and> rm_table r' = T \<and>
           same_file (rs_hdr r) (rs_hdr r')"
proof -
  have u: "undo_write_record n w s = (case wtype w of
          INSERT_TUPLE \<Rightarrow> undo_insert n tab name (wr_rid w)
        | DELETE_TUPLE \<Rightarrow> undo_delete n tab name (wr_rid w) (wr_record w)
        | UPDATE_TUPLE \<Rightarrow> undo_update n tab name (wr_rid w) (wr_record w)) s"
    using tab(1) w(2) table_fd_run[OF r(2)] by (cases "wtype w") (simp_all add: undo_write_record_def em_defs sys_res_def)
  show ?thesis
  proof (cases "wtype w")
    case INSERT_TUPLE
    then obtain y where "T (wr_rid w) = None" "rm_table r = T(wr_rid w \<mapsto> y)" using w(1) by (auto simp: wrote_def Let_def)
    then show ?thesis using undo_insert_run[OF r tab(2)] INSERT_TUPLE u by simp
  next
    case DELETE_TUPLE
    then show ?thesis using undo_delete_run[OF r tab(2) w(1)] u by simp
  next
    case UPDATE_TUPLE
    then obtain y where "T (wr_rid w) = Some (rec_data (wr_record w))" "rm_table r = T(wr_rid w \<mapsto> y)"
        "int (length (rec_data (wr_record w))) = record_size (rs_hdr r)" using w(1) by (auto simp: wrote_def Let_def)
    then show ?thesis using undo_update_run[OF r tab(2)] UPDATE_TUPLE u by simp
  qed
qed

lemma upd_txn_run:
  "map_of (sys_txns s) t = Some txn \<Longrightarrow> upd_txn t f s = (Inr (), s\<lparr>sys_txns := AList.update t (f txn) (sys_txns s)\<rparr>)"
  by (simp add: upd_txn_def on_txn_def)

lemma tab_state_txns [simp]: "tab_state name (s\<lparr>sys_txns := x\<rparr>) = tab_state name s"
  by (simp add: tab_state_def)

lemma undo_writes_run:
  assumes "table_run (rs_hdr r) T ws (rm_table r)" and "rm_ready r" and "tab_state name s = Some r"
    and "get_table name (sys_db s) = Inr tab" and "tm_indexes tab = []" and "\<forall>w \<in> set ws. wr_tab_name w = name"
    and "map_of (sys_txns s) t = Some txn" and "write_set txn = ws"
  shows "\<exists>s' r'. undo_writes n t (rev ws) s = (Inr (), s') \<and> tab_state name s' = Some r' \<and> rm_ready r' \<and> rm_table r' = T \<and>
           sys_locks s' = sys_locks s \<and> sys_log s' = sys_log s \<and> map_of (sys_txns s') t = Some (txn\<lparr>write_set := []\<rparr>)"
  using assms
proof (induction ws arbitrary: r s txn rule: rev_induct)
  case Nil
  then show ?case by (auto simp: table_run_Nil em_defs)
next
  case (snoc w ws)
  obtain T' where T': "table_run (rs_hdr r) T ws T'" "wrote (rs_hdr r) T' w (rm_table r)"
    using snoc.prems(1) by (auto elim: table_run_snocE)
  define s1 where "s1 = s\<lparr>sys_txns := AList.update t (txn\<lparr>write_set := butlast (write_set txn)\<rparr>) (sys_txns s)\<rparr>"
  have s1: "tab_state name s1 = Some r" "get_table name (sys_db s1) = Inr tab" "sys_locks s1 = sys_locks s" "sys_log s1 = sys_log s"
      "map_of (sys_txns s1) t = Some (txn\<lparr>write_set := ws\<rparr>)"
    using snoc.prems by (simp_all add: s1_def map_of_update)
  obtain r1 where r1: "undo_write_record n w s1 = (Inr (), put_tab name r1 s1)" "rm_ready r1" "rm_table r1 = T'"
      "same_file (rs_hdr r) (rs_hdr r1)"
    using undo_write_run[OF snoc.prems(2) s1(1,2) snoc.prems(5) T'(2), of n] snoc.prems(6) by auto
  have run: "table_run (rs_hdr r1) T ws (rm_table r1)" using table_run_same[OF T'(1) r1(4)] r1(3) by simp
  obtain s' r' where s': "undo_writes n t (rev ws) (put_tab name r1 s1) = (Inr (), s')" "tab_state name s' = Some r'"
      "rm_ready r'" "rm_table r' = T" "sys_locks s' = sys_locks s" "sys_log s' = sys_log s"
      "map_of (sys_txns s') t = Some (txn\<lparr>write_set := []\<rparr>)"
    using snoc.IH[OF run r1(2), of "put_tab name r1 s1" "txn\<lparr>write_set := ws\<rparr>"] snoc.prems(5,6) s1 by auto
  have "undo_writes n t (rev (ws @ [w])) s = (Inr (), s')"
    using upd_txn_run[OF snoc.prems(7), of "\<lambda>txn. txn\<lparr>write_set := butlast (write_set txn)\<rparr>"] r1(1) s'(1)
    by (simp add: em_defs flip: s1_def)
  with s' show ?case by blast
qed

section \<open>What follows the undo\<close>

text \<open>Operations that leave the catalogue, the handles and the frames of the pool alone.\<close>

definition pool_kept :: "Sys \<Rightarrow> Sys \<Rightarrow> bool" where
  "pool_kept s s' \<longleftrightarrow> sys_db s' = sys_db s \<and> sys_fhs s' = sys_fhs s \<and> sys_ihs s' = sys_ihs s \<and>
     bp_pages (sys_bpm s') = bp_pages (sys_bpm s) \<and> bp_table (sys_bpm s') = bp_table (sys_bpm s)"

definition keeps_pool :: "(Sys, 'a) em \<Rightarrow> bool" where
  "keeps_pool m \<longleftrightarrow> (\<forall>s. pool_kept s (snd (m s)))"

named_theorems keeps_pool_intros

lemma keeps_pool_return [keeps_pool_intros]: "keeps_pool (em_return x)"
  by (simp add: keeps_pool_def em_defs pool_kept_def)

lemma keeps_pool_bind [keeps_pool_intros]: "keeps_pool m \<Longrightarrow> (\<And>x. keeps_pool (f x)) \<Longrightarrow> keeps_pool (em_bind m f)"
proof -
  assume m: "keeps_pool m" "\<And>x. keeps_pool (f x)"
  have "pool_kept s (snd (em_bind m f s))" for s
  proof (cases "m s")
    case (Pair r s1)
    then have "pool_kept s s1" using m(1) by (metis keeps_pool_def snd_conv)
    then show ?thesis using m(2) Pair by (cases r) (auto simp: em_defs keeps_pool_def pool_kept_def)
  qed
  then show ?thesis by (simp add: keeps_pool_def)
qed

lemma keeps_pool_then [keeps_pool_intros]: "keeps_pool m \<Longrightarrow> keeps_pool f \<Longrightarrow> keeps_pool (em_then m f)"
  unfolding em_then_def by (intro keeps_pool_bind)

lemma keeps_pool_for [keeps_pool_intros]: "(\<And>x. keeps_pool (f x)) \<Longrightarrow> keeps_pool (em_for xs f)"
  by (induction xs) (auto intro: keeps_pool_intros)

lemma keeps_pool_txn [keeps_pool_intros]: "keeps_pool (on_txn t m)" "(\<And>x. keeps_pool (f x)) \<Longrightarrow> keeps_pool (with_txn t f)"
  by (auto simp: keeps_pool_def on_txn_def with_txn_def pool_kept_def split: option.splits prod.splits)

lemma keeps_pool_upd [keeps_pool_intros]: "keeps_pool (upd_txn t f)"
  unfolding upd_txn_def by (rule keeps_pool_intros)

lemma keeps_pool_log [keeps_pool_intros]: "keeps_pool (on_log m)"
  by (auto simp: keeps_pool_def on_log_def pool_kept_def split: prod.splits)

lemma keeps_pool_finish: "keeps_pool (abort_finish b t)"
  unfolding abort_finish_def txn_log_def release_all_locks_def
  by (cases b) (auto intro!: keeps_pool_intros)

lemma em_then_Inr: "em_then m f s = (Inr x, s') \<longleftrightarrow> (\<exists>y s1. m s = (Inr y, s1) \<and> f s1 = (Inr x, s'))"
  by (auto simp: em_defs split: prod.splits sum.splits)

lemma upd_txn_Inr: "upd_txn t f s = (Inr (), s') \<Longrightarrow> \<exists>txn. map_of (sys_txns s) t = Some txn \<and> map_of (sys_txns s') t = Some (f txn)"
  by (auto simp: upd_txn_def on_txn_def map_of_update split: option.splits)

lemma abort_finish_locks:
  assumes "abort_finish b t s = (Inr (), s')"
  shows "\<exists>txn. map_of (sys_txns s') t = Some txn \<and> lock_set txn = [] \<and> state txn = ABORTED"
proof -
  obtain s1 s2 where s: "release_all_locks t s1 = (Inr (), s2)" "upd_txn t (set_state ABORTED) s2 = (Inr (), s')"
    using assms by (auto simp: abort_finish_def em_then_Inr)
  obtain s3 where "upd_txn t (\<lambda>txn. txn\<lparr>lock_set := []\<rparr>) s3 = (Inr (), s2)"
    using s(1) by (auto simp: release_all_locks_def with_txn_def em_then_Inr split: option.splits)
  with s(2) show ?thesis by (auto dest!: upd_txn_Inr simp: set_state_def)
qed


text \<open>A transaction that inserted one record into an empty table.\<close>

definition witness_sys :: "RmState \<Rightarrow> Rid \<Rightarrow> Sys" where
  "witness_sys r rid = \<lparr>sys_db = \<lparr>db_name = ''d'', tabs = [(''t'', \<lparr>tm_name = ''t'', tm_cols = [], tm_indexes = []\<rparr>)]\<rparr>,
     sys_fhs = [(''t'', rs_fd r, rs_hdr r)], sys_ihs = [], sys_bpm = rs_bpm r, sys_log = new_LogManager,
     sys_locks = new_LockManager, sys_txns = [(7, (new_Transaction 7)\<lparr>write_set := [new_WriteRecord INSERT_TUPLE ''t'' rid]\<rparr>)],
     sys_next_txn = 8, sys_next_ts = 8, sys_cwd = Some ''d'', sys_root = Map.empty, sys_dirs = [], sys_out = [],
     sys_send = \<lparr>data_send = [], send_offset = -1, ellipsis = False\<rparr>, sys_junk = []\<rparr>"


end
