(* ===== verification/Executors.thy ===== *)
theory Executors
  imports Txn
begin

text \<open>
  The executors of \<^verbatim>\<open>execution/\<close> that produce tuples: table scan, index scan, join, projection, sort and
  aggregation. An executor is a value of \<open>Exec\<close>, a tree whose nodes hold the members of the class; \<open>ex_begin\<close>, \<open>ex_next\<close> and
  \<open>ex_Next\<close> are the virtual functions. A call that throws leaves no executor behind, since the statement
  ends with it. Step bounds stand for the loops; the argument \<open>ctx\<close> is the transaction of the context.
\<close>

section \<open>Conditions on tuples\<close>

text \<open>A pointer into a record at an offset: the bytes from there to the end of the allocation.\<close>

definition byte_ptr :: "int \<Rightarrow> byte list \<Rightarrow> byte list res" where
  "byte_ptr off d = (if 0 \<le> off \<and> off \<le> int (length d) then Inr (drop (nat off) d) else Inl UndefinedBehaviour)"

text \<open>\<^verbatim>\<open>find_col\<close>; \<^verbatim>\<open>AbstractExecutor::get_col\<close> is the same search.\<close>

definition find_col :: "ColMeta list \<Rightarrow> TabCol \<Rightarrow> ColMeta res" where
  "find_col cols target =
     (case find (\<lambda>c. cm_tab_name c = tc_tab_name target \<and> cm_name c = tc_col_name target) cols of
        Some c \<Rightarrow> Inr c
      | None \<Rightarrow> Inl (RMDBError (ColumnNotFoundError (tc_tab_name target @ ''.'' @ tc_col_name target))))"

definition raw_data :: "Value \<Rightarrow> byte list res" where
  "raw_data v = (case raw v of Some r \<Rightarrow> Inr (rec_data r) | None \<Rightarrow> Inl UndefinedBehaviour)"

definition eval_cond :: "Condition \<Rightarrow> byte list \<Rightarrow> ColMeta list \<Rightarrow> bool res" where
  "eval_cond cond rec cols =
     rbind (find_col cols (lhs_col cond)) (\<lambda>l.
     rbind (byte_ptr (cm_offset l) rec) (\<lambda>lhs_data.
     rbind
       (if is_rhs_val cond then raw_data (rhs_val cond)
        else rbind (find_col cols (rhs_col cond)) (\<lambda>r. byte_ptr (cm_offset r) rec)) (\<lambda>rhs_data.
     rbind (compare_raw_value lhs_data rhs_data (cm_type l) (cm_len l)) (\<lambda>cmp.
       Inr (eval_compare cmp (cond_op cond))))))"

fun eval_conds :: "Condition list \<Rightarrow> byte list \<Rightarrow> ColMeta list \<Rightarrow> bool res" where
  "eval_conds [] rec cols = Inr True"
| "eval_conds (c # cs) rec cols = rbind (eval_cond c rec cols) (\<lambda>b. if b then eval_conds cs rec cols else Inr False)"

text \<open>A record as \<^verbatim>\<open>RmRecord(size)\<close> allocates it: its bytes are whatever the memory held.\<close>

definition new_record :: "int \<Rightarrow> Sys \<Rightarrow> byte list" where
  "new_record len s = take (nat len) (sys_junk s @ replicate (nat len) 0)"

section \<open>Sequential scan\<close>

record SeqScan =
  ss_tab :: string
  ss_conds :: "Condition list"
  ss_cols :: "ColMeta list"
  ss_len :: int
  ss_rid :: Rid
  ss_scan :: Rid
  ss_record :: "byte list option"
  ss_end :: bool

definition no_rid :: Rid where "no_rid = \<lparr>rid_page_no = -1, rid_slot_no = -1\<rparr>"

text \<open>The record length of a table: behind its last column; \<^verbatim>\<open>cols_.back()\<close> needs one.\<close>

definition table_len :: "ColMeta list \<Rightarrow> int res" where
  "table_len cols = (if cols = [] then Inl UndefinedBehaviour else Inr (c_int (cm_offset (last cols) + cm_len (last cols))))"

definition new_SeqScan :: "string \<Rightarrow> Condition list \<Rightarrow> (Sys, SeqScan) em" where
  "new_SeqScan tab_name conds s =
     em_bind (sys_res (get_table tab_name (sys_db s))) (\<lambda>tab.
     em_then (table_fd tab_name)
       (em_bind (sys_res (table_len (tm_cols tab))) (\<lambda>len.
          em_return \<lparr>ss_tab = tab_name, ss_conds = conds, ss_cols = tm_cols tab, ss_len = len, ss_rid = no_rid,
                     ss_scan = no_rid, ss_record = None, ss_end = True\<rparr>))) s"

text \<open>\<^verbatim>\<open>get_record(rid, dest, context)\<close> copies a whole record into the buffer of the executor.\<close>

definition get_record_into :: "txn_id_t option \<Rightarrow> string \<Rightarrow> Rid \<Rightarrow> byte list \<Rightarrow> (Sys, byte list) em" where
  "get_record_into ctx tab rid dest =
     em_bind (sys_get_record ctx tab rid) (\<lambda>rec. sys_res (memcpy_to 0 rec dest))"

primrec seq_find_next :: "nat \<Rightarrow> txn_id_t option \<Rightarrow> SeqScan \<Rightarrow> (Sys, SeqScan) em" where
  "seq_find_next 0 ctx q = em_throw OutOfFuel"
| "seq_find_next (Suc n) ctx q = (\<lambda>s.
     let buf = (case ss_record q of Some b \<Rightarrow> b | None \<Rightarrow> new_record (ss_len q) s)
     in if RmScan_is_end (ss_scan q) then (Inr (q\<lparr>ss_record := Some buf, ss_end := True\<rparr>), s)
        else em_bind (get_record_into ctx (ss_tab q) (ss_scan q) buf) (\<lambda>rec.
             em_bind (sys_res (eval_conds (ss_conds q) rec (ss_cols q))) (\<lambda>b.
               let q1 = q\<lparr>ss_rid := ss_scan q, ss_record := Some rec\<rparr>
               in if b then em_return (q1\<lparr>ss_end := False\<rparr>)
                  else em_bind (on_table (ss_tab q) (RmScan_next (ss_scan q))) (\<lambda>rid.
                         seq_find_next n ctx (q1\<lparr>ss_scan := rid\<rparr>)))) s)"

text \<open>A shared table lock in explicit transactions.\<close>

definition lock_table_read :: "txn_id_t option \<Rightarrow> string \<Rightarrow> (Sys, unit) em" where
  "lock_table_read ctx tab =
     (case ctx of
        None \<Rightarrow> em_return ()
      | Some t \<Rightarrow> with_txn t (\<lambda>txn.
          if \<not> txn_mode txn then em_return ()
          else em_bind (table_fd tab) (\<lambda>fd. em_then (on_txn t (lock_shared_on_table fd)) (em_return ()))))"

definition seq_begin :: "nat \<Rightarrow> txn_id_t option \<Rightarrow> SeqScan \<Rightarrow> (Sys, SeqScan) em" where
  "seq_begin n ctx q =
     em_then (lock_table_read ctx (ss_tab q))
       (em_bind (on_table (ss_tab q) RmScan_new) (\<lambda>rid. seq_find_next n ctx (q\<lparr>ss_scan := rid\<rparr>)))"

definition seq_next :: "nat \<Rightarrow> txn_id_t option \<Rightarrow> SeqScan \<Rightarrow> (Sys, SeqScan) em" where
  "seq_next n ctx q =
     (if ss_end q then em_return q
      else em_bind (on_table (ss_tab q) (RmScan_next (ss_scan q))) (\<lambda>rid. seq_find_next n ctx (q\<lparr>ss_scan := rid\<rparr>)))"

section \<open>Index scan\<close>

record IndexScan =
  is_tab_name :: string
  is_tab :: TabMeta
  is_conds :: "Condition list"
  is_len :: int
  is_index_meta :: IndexMeta
  is_rid :: Rid
  is_scan :: "IxScan option"

definition FLT_MAX :: f32 where "FLT_MAX = 0x7F7FFFFF"

fun min_bytes :: "ColType \<Rightarrow> int \<Rightarrow> byte list" where
  "min_bytes TYPE_INT len = enc_int INT_MIN"
| "min_bytes TYPE_FLOAT len = le_bytes 4 (uint (FLT_MAX OR 0x80000000))"
| "min_bytes TYPE_STRING len = replicate (nat len) 0"
| "min_bytes _ len = enc_int64 INT64_MIN"

fun max_bytes :: "ColType \<Rightarrow> int \<Rightarrow> byte list" where
  "max_bytes TYPE_INT len = enc_int INT_MAX"
| "max_bytes TYPE_FLOAT len = le_bytes 4 (uint FLT_MAX)"
| "max_bytes TYPE_STRING len = replicate (nat len) 0xFF"
| "max_bytes _ len = enc_int64 INT64_MAX"

definition fill_min :: "nat \<Rightarrow> ColMeta \<Rightarrow> byte list \<Rightarrow> byte list res" where
  "fill_min off col buf = memcpy_to off (min_bytes (cm_type col) (cm_len col)) buf"

definition fill_max :: "nat \<Rightarrow> ColMeta \<Rightarrow> byte list \<Rightarrow> byte list res" where
  "fill_max off col buf = memcpy_to off (max_bytes (cm_type col) (cm_len col)) buf"

definition new_IndexScan :: "string \<Rightarrow> Condition list \<Rightarrow> string list \<Rightarrow> (Sys, IndexScan) em" where
  "new_IndexScan tab_name conds index_cols s =
     em_bind (sys_res (get_table tab_name (sys_db s))) (\<lambda>tab.
     em_bind (sys_res (get_index_meta index_cols tab)) (\<lambda>pos.
     em_then (table_fd tab_name)
       (em_bind (sys_res (table_len (tm_cols tab))) (\<lambda>len.
        em_bind (sys_res (rmap (\<lambda>c. if tc_tab_name (lhs_col c) = tab_name then Inr c
                                    else if is_rhs_val c \<or> tc_tab_name (rhs_col c) \<noteq> tab_name then Inl AssertFailure
                                    else Inr (swap_cond c)) conds)) (\<lambda>conds'.
          em_return \<lparr>is_tab_name = tab_name, is_tab = tab, is_conds = conds', is_len = len,
                     is_index_meta = tm_indexes tab ! pos, is_rid = no_rid, is_scan = None\<rparr>))))) s"

text \<open>The conditions that bound a column of the index: the last one of each kind counts.\<close>

definition last_cond :: "CompOp set \<Rightarrow> string \<Rightarrow> ColMeta \<Rightarrow> Condition list \<Rightarrow> Condition option" where
  "last_cond ops tab_name col conds =
     (case filter (\<lambda>c. on_col tab_name col c \<and> cond_op c \<in> ops) conds of [] \<Rightarrow> None | cs \<Rightarrow> Some (last cs))"

definition put_bound :: "nat \<Rightarrow> ColMeta \<Rightarrow> Condition \<Rightarrow> byte list \<Rightarrow> byte list res" where
  "put_bound off col c buf =
     rbind (raw_data (rhs_val c)) (\<lambda>d. rbind (read_at 0 (cm_len col) d) (\<lambda>b. memcpy_to off b buf))"

text \<open>The loop over the index columns; its result is the two keys and whether they are excluded.\<close>

fun scan_bounds :: "string \<Rightarrow> Condition list \<Rightarrow> ColMeta list \<Rightarrow> nat \<Rightarrow> bool \<Rightarrow> byte list \<Rightarrow> byte list \<Rightarrow> bool \<Rightarrow> bool \<Rightarrow>
    (byte list \<times> byte list \<times> bool \<times> bool) res" where
  "scan_bounds tab_name conds [] off stop lower upper lower_open upper_open = Inr (lower, upper, lower_open, upper_open)"
| "scan_bounds tab_name conds (col # cols) off stop lower upper lower_open upper_open =
     rbind (fill_min off col lower) (\<lambda>lower1.
     rbind (fill_max off col upper) (\<lambda>upper1.
       if stop then scan_bounds tab_name conds cols (off + nat (cm_len col)) stop lower1 upper1 lower_open upper_open
       else case last_cond {OP_EQ} tab_name col conds of
         Some eq \<Rightarrow>
           rbind (put_bound off col eq lower1) (\<lambda>lower2. rbind (put_bound off col eq upper1) (\<lambda>upper2.
             scan_bounds tab_name conds cols (off + nat (cm_len col)) False lower2 upper2 lower_open upper_open))
       | None \<Rightarrow>
           rbind (case last_cond {OP_GT, OP_GE} tab_name col conds of
                    None \<Rightarrow> Inr (lower1, lower_open)
                  | Some c \<Rightarrow> rbind (put_bound off col c lower1) (\<lambda>l. Inr (l, cond_op c = OP_GT))) (\<lambda>(lower2, lo).
           rbind (case last_cond {OP_LT, OP_LE} tab_name col conds of
                    None \<Rightarrow> Inr (upper1, upper_open)
                  | Some c \<Rightarrow> rbind (put_bound off col c upper1) (\<lambda>u. Inr (u, cond_op c = OP_LT))) (\<lambda>(upper2, uo).
             scan_bounds tab_name conds cols (off + nat (cm_len col)) True lower2 upper2 lo uo))))"

definition index_bounds :: "IndexScan \<Rightarrow> (byte list \<times> byte list \<times> bool \<times> bool) res" where
  "index_bounds q =
     (let k = nat (col_tot_len (is_index_meta q))
      in scan_bounds (is_tab_name q) (is_conds q) (im_cols (is_index_meta q)) 0 False (replicate k 0) (replicate k 0) False False)"

definition is_ix_name :: "IndexScan \<Rightarrow> string" where
  "is_ix_name q = index_file (is_tab_name q) (is_index_meta q)"

primrec index_find_next :: "nat \<Rightarrow> txn_id_t option \<Rightarrow> IndexScan \<Rightarrow> IxScan \<Rightarrow> (Sys, IndexScan) em" where
  "index_find_next 0 ctx q sc = em_throw OutOfFuel"
| "index_find_next (Suc n) ctx q sc =
     (if IxScan_is_end sc then em_return (q\<lparr>is_scan := Some sc\<rparr>)
      else em_bind (on_index (is_ix_name q) (IxScan_rid sc)) (\<lambda>rid.
           em_bind (sys_get_record ctx (is_tab_name q) rid) (\<lambda>rec.
           em_bind (sys_res (eval_conditions (is_tab q) \<lparr>rec_data = rec, rec_size = int (length rec)\<rparr> (is_conds q))) (\<lambda>b.
             if b then em_return (q\<lparr>is_rid := rid, is_scan := Some sc\<rparr>)
             else em_bind (on_index (is_ix_name q) (IxScan_next sc)) (index_find_next n ctx (q\<lparr>is_rid := rid\<rparr>))))))"

definition lock_gap_read :: "txn_id_t option \<Rightarrow> IndexScan \<Rightarrow> byte list \<Rightarrow> byte list \<Rightarrow> bool \<Rightarrow> bool \<Rightarrow> (Sys, unit) em" where
  "lock_gap_read ctx q lower upper lower_open upper_open =
     (case ctx of
        None \<Rightarrow> em_return ()
      | Some t \<Rightarrow> with_txn t (\<lambda>txn.
          if \<not> txn_mode txn then em_return ()
          else em_bind (on_index (is_ix_name q) (\<lambda>ih. (Inr (ih_fd ih), ih))) (\<lambda>fd.
                 em_then (on_txn t (lock_shared_on_gap_range fd (index_col_meta (is_index_meta q)) lower upper lower_open upper_open))
                   (em_return ()))))"

definition index_begin :: "nat \<Rightarrow> txn_id_t option \<Rightarrow> IndexScan \<Rightarrow> (Sys, IndexScan) em" where
  "index_begin n ctx q =
     em_then (on_index (is_ix_name q) (em_return ()))
       (em_bind (sys_res (index_bounds q)) (\<lambda>(lower, upper, lower_open, upper_open).
          em_then (lock_gap_read ctx q lower upper lower_open upper_open)
            (em_bind (on_index (is_ix_name q) ((if lower_open then ix_upper_bound else ix_lower_bound) n lower)) (\<lambda>lower_iid.
             em_bind (on_index (is_ix_name q) ((if upper_open then ix_lower_bound else ix_upper_bound) n upper)) (\<lambda>upper_iid.
               index_find_next n ctx q (new_IxScan lower_iid upper_iid))))))"

definition index_next :: "nat \<Rightarrow> txn_id_t option \<Rightarrow> IndexScan \<Rightarrow> (Sys, IndexScan) em" where
  "index_next n ctx q =
     (case is_scan q of
        None \<Rightarrow> em_return q
      | Some sc \<Rightarrow> if IxScan_is_end sc then em_return q
                   else em_bind (on_index (is_ix_name q) (IxScan_next sc)) (index_find_next n ctx q))"

definition index_is_end :: "IndexScan \<Rightarrow> bool" where
  "index_is_end q \<longleftrightarrow> (case is_scan q of None \<Rightarrow> True | Some sc \<Rightarrow> IxScan_is_end sc)"

section \<open>Projection\<close>

record Projection =
  pj_cols :: "ColMeta list"
  pj_src :: "ColMeta list"          \<comment> \<open>the columns \<^verbatim>\<open>prev_cols[sel_idxs_[i]]\<close>\<close>
  pj_len :: int
  pj_record :: "byte list option"
  pj_end :: bool

fun select_cols :: "ColMeta list \<Rightarrow> TabCol list \<Rightarrow> int \<Rightarrow> (ColMeta list \<times> ColMeta list \<times> int) res" where
  "select_cols prev_cols [] curr_offset = Inr ([], [], curr_offset)"
| "select_cols prev_cols (c # cs) curr_offset =
     rbind (find_col prev_cols c) (\<lambda>src.
     rbind (select_cols prev_cols cs (curr_offset + cm_len src)) (\<lambda>(cols, srcs, len).
       Inr (src\<lparr>cm_offset := c_int curr_offset\<rparr> # cols, src # srcs, len)))"

definition new_Projection :: "ColMeta list \<Rightarrow> TabCol list \<Rightarrow> Projection res" where
  "new_Projection prev_cols sel_cols =
     rbind (select_cols prev_cols sel_cols 0) (\<lambda>(cols, srcs, len).
       Inr \<lparr>pj_cols = cols, pj_src = srcs, pj_len = len, pj_record = None, pj_end = True\<rparr>)"

definition copy_col :: "ColMeta \<Rightarrow> ColMeta \<Rightarrow> byte list \<Rightarrow> byte list \<Rightarrow> byte list res" where
  "copy_col dst src rec out =
     (if cm_offset dst < 0 \<or> cm_offset src < 0 then Inl UndefinedBehaviour
      else rbind (read_at (nat (cm_offset src)) (cm_len src) rec) (\<lambda>b. memcpy_to (nat (cm_offset dst)) b out))"

fun project_cols :: "ColMeta list \<Rightarrow> ColMeta list \<Rightarrow> byte list \<Rightarrow> byte list \<Rightarrow> byte list res" where
  "project_cols (d # ds) (c # cs) rec out = rbind (copy_col d c rec out) (project_cols ds cs rec)"
| "project_cols _ _ rec out = Inr out"

definition project :: "Projection \<Rightarrow> byte list \<Rightarrow> (Sys, byte list) em" where
  "project p prev_rec s = (project_cols (pj_cols p) (pj_src p) prev_rec (new_record (pj_len p) s), s)"

section \<open>Sort\<close>

record SortSt =
  so_cols :: "ColMeta list"
  so_len :: int
  sort_keys :: "(ColMeta \<times> bool) list"
  so_limit :: int
  sorted_records :: "byte list list"
  current_idx :: nat
  so_end :: bool

fun compare_records :: "byte list \<Rightarrow> byte list \<Rightarrow> (ColMeta \<times> bool) list \<Rightarrow> int res" where
  "compare_records a b [] = Inr 0"
| "compare_records a b ((col, is_desc) # keys) =
     rbind (byte_ptr (cm_offset col) a) (\<lambda>pa.
     rbind (byte_ptr (cm_offset col) b) (\<lambda>pb.
     rbind (compare_raw_value pa pb (cm_type col) (cm_len col)) (\<lambda>cmp.
       if cmp \<noteq> 0 then Inr (if is_desc then - cmp else cmp) else compare_records a b keys)))"

fun get_sort_keys :: "ColMeta list \<Rightarrow> TabCol list \<Rightarrow> bool list \<Rightarrow> (ColMeta \<times> bool) list res" where
  "get_sort_keys prev_cols [] ds = Inr []"
| "get_sort_keys prev_cols (c # cs) [] = rbind (find_col prev_cols c) (\<lambda>_. Inl UndefinedBehaviour)"
| "get_sort_keys prev_cols (c # cs) (d # ds) =
     rbind (find_col prev_cols c) (\<lambda>col. rbind (get_sort_keys prev_cols cs ds) (\<lambda>ks. Inr ((col, d) # ks)))"

definition new_SortSt :: "ColMeta list \<Rightarrow> int \<Rightarrow> TabCol list \<Rightarrow> bool list \<Rightarrow> int \<Rightarrow> SortSt res" where
  "new_SortSt prev_cols prev_len sort_cols is_desc lim =
     rbind (get_sort_keys prev_cols sort_cols is_desc) (\<lambda>keys.
       Inr \<lparr>so_cols = prev_cols, so_len = prev_len, sort_keys = keys, so_limit = lim, sorted_records = [],
            current_idx = 0, so_end = True\<rparr>)"

text \<open>\<^verbatim>\<open>std::sort\<close> with a comparison that may fail. The library leaves the order of equal elements open; here they
  keep their order.\<close>

fun sort_insert :: "('a \<Rightarrow> 'a \<Rightarrow> bool res) \<Rightarrow> 'a \<Rightarrow> 'a list \<Rightarrow> 'a list res" where
  "sort_insert lt x [] = Inr [x]"
| "sort_insert lt x (y # ys) =
     rbind (lt y x) (\<lambda>b. if b then rbind (sort_insert lt x ys) (\<lambda>zs. Inr (y # zs)) else Inr (x # y # ys))"

fun std_sort :: "('a \<Rightarrow> 'a \<Rightarrow> bool res) \<Rightarrow> 'a list \<Rightarrow> 'a list res" where
  "std_sort lt [] = Inr []"
| "std_sort lt (x # xs) = rbind (std_sort lt xs) (sort_insert lt x)"

definition sort_less :: "(ColMeta \<times> bool) list \<Rightarrow> byte list \<Rightarrow> byte list \<Rightarrow> bool res" where
  "sort_less keys a b = rbind (compare_records a b keys) (\<lambda>c. Inr (c < 0))"

text \<open>What \<^verbatim>\<open>beginTuple\<close> does with the records it has collected.\<close>

definition sort_fill :: "SortSt \<Rightarrow> byte list list \<Rightarrow> SortSt res" where
  "sort_fill so recs =
     rbind (std_sort (sort_less (sort_keys so)) recs) (\<lambda>rs.
       let rs' = (if so_limit so \<ge> 0 \<and> c_int (int (length rs)) > so_limit so then take (nat (so_limit so)) rs else rs)
       in Inr (so\<lparr>sorted_records := rs', current_idx := 0, so_end := (rs' = [])\<rparr>))"

definition sort_next :: "SortSt \<Rightarrow> SortSt" where
  "sort_next so =
     (if so_end so then so
      else so\<lparr>current_idx := Suc (current_idx so), so_end := (Suc (current_idx so) \<ge> length (sorted_records so))\<rparr>)"

section \<open>Aggregation\<close>

text \<open>A \<^verbatim>\<open>double\<close> sum of \<^verbatim>\<open>float\<close>s. Every such sum is a multiple of the smallest \<^verbatim>\<open>float\<close>, so it is counted in
  these units; each addition rounds to 53 bits. It starts at +0 and never becomes -0, and a sum beyond the
  range of \<^verbatim>\<open>double\<close> would take more than \<open>2 ^ 800\<close> rows.\<close>

datatype f64 = F64 int | F64_Inf bool | F64_NaN

definition round_sig :: "nat \<Rightarrow> nat \<Rightarrow> nat" where
  "round_sig p n = (let l = bit_length n in if l \<le> p then n else round_div n (2 ^ (l - p)) * 2 ^ (l - p))"

definition f64_of_f32 :: "f32 \<Rightarrow> f64" where
  "f64_of_f32 x =
     (let bits = nat (uint (x AND 0x7FFFFFFF)); e = bits div 2 ^ 23; m = bits mod 2 ^ 23
      in if e = 255 then (if m = 0 then F64_Inf (bit x 31) else F64_NaN)
         else let u = (if e = 0 then m else (m + 2 ^ 23) * 2 ^ (e - 1)) in F64 (if bit x 31 then - int u else int u))"

fun f64_add :: "f64 \<Rightarrow> f64 \<Rightarrow> f64" where
  "f64_add (F64 a) (F64 b) = F64 (sgn (a + b) * int (round_sig 53 (nat \<bar>a + b\<bar>)))"
| "f64_add (F64_Inf s) (F64_Inf t) = (if s = t then F64_Inf s else F64_NaN)"
| "f64_add (F64_Inf s) (F64 b) = F64_Inf s"
| "f64_add (F64 a) (F64_Inf t) = F64_Inf t"
| "f64_add _ _ = F64_NaN"

fun f32_of_f64 :: "f64 \<Rightarrow> f32" where
  "f32_of_f64 (F64 n) =
     (let u = round_sig 24 (nat \<bar>n\<bar>); s = (if n < 0 then 2 ^ 31 else 0)
      in if u \<ge> 2 ^ 277 then word_of_int (s + 0x7F800000)
         else if u < 2 ^ 23 then word_of_int (s + int u)
         else let e = bit_length u - 23 in word_of_int (s + int (e * 2 ^ 23 + (u div 2 ^ (e - 1) - 2 ^ 23))))"
| "f32_of_f64 (F64_Inf b) = word_of_int ((if b then 2 ^ 31 else 0) + 0x7F800000)"
| "f32_of_f64 F64_NaN = 0x7FC00000"

record AggSt =
  ag_items :: "SelItem list"
  ag_cols :: "ColMeta list"
  ag_len :: int
  ag_record :: "byte list option"
  ag_end :: bool
  ag_computed :: bool

definition new_AggSt :: "SelItem list \<Rightarrow> AggSt" where
  "new_AggSt items = \<lparr>ag_items = items, ag_cols = [], ag_len = 0, ag_record = None, ag_end = True, ag_computed = False\<rparr>"

definition out_col :: "ColMeta list \<Rightarrow> SelItem \<Rightarrow> (ColType \<times> int) res" where
  "out_col prev_cols item =
     (if sel_kind item = SEL_AGG
      then (if is_star (sel_agg item) then Inr (TYPE_INT, 4)
            else rbind (find_col prev_cols (agg_col (sel_agg item))) (\<lambda>src.
                   if agg_type (sel_agg item) = AGG_COUNT then Inr (TYPE_INT, 4) else Inr (cm_type src, cm_len src)))
      else rbind (find_col prev_cols (sel_col item)) (\<lambda>src. Inr (cm_type src, cm_len src)))"

text \<open>The index flag of an output column is left uninitialised and never read.\<close>

fun build_output_schema :: "ColMeta list \<Rightarrow> SelItem list \<Rightarrow> int \<Rightarrow> (ColMeta list \<times> int) res" where
  "build_output_schema prev_cols [] len = Inr ([], len)"
| "build_output_schema prev_cols (i # is) len =
     rbind (out_col prev_cols i) (\<lambda>(ty, l).
     rbind (build_output_schema prev_cols is (len + l)) (\<lambda>(cols, tot).
       Inr (\<lparr>cm_tab_name = '''', cm_name = sel_alias i, cm_type = ty, cm_len = l, cm_offset = c_int len, cm_index = False\<rparr> # cols, tot)))"

definition c_int64 :: "int \<Rightarrow> int" where
  "c_int64 x = sint (word_of_int x :: 64 word)"

record AggAcc =
  has_value :: bool
  count_val :: int
  sum_int_val :: int
  sum_float_val :: f64
  extrema_buf :: "byte list"

definition new_AggAcc :: "ColMeta list \<Rightarrow> SelItem \<Rightarrow> AggAcc res" where
  "new_AggAcc prev_cols item =
     rbind (if sel_kind item = SEL_AGG \<and> \<not> is_star (sel_agg item) \<and> agg_type (sel_agg item) \<in> {AGG_MAX, AGG_MIN}
            then rbind (find_col prev_cols (agg_col (sel_agg item))) (\<lambda>src. Inr (replicate (nat (cm_len src)) 0))
            else Inr []) (\<lambda>buf.
       Inr \<lparr>has_value = False, count_val = 0, sum_int_val = 0, sum_float_val = F64 0, extrema_buf = buf\<rparr>)"

definition update_max_min :: "byte list \<Rightarrow> byte list \<Rightarrow> ColType \<Rightarrow> int \<Rightarrow> bool \<Rightarrow> byte list res" where
  "update_max_min cur_buf val ty len is_max =
     rbind (compare_raw_value val cur_buf ty len) (\<lambda>cmp.
       if is_max \<and> cmp > 0 \<or> \<not> is_max \<and> cmp < 0
       then rbind (read_at 0 len val) (\<lambda>b. memcpy_to 0 b cur_buf) else Inr cur_buf)"

definition agg_step :: "ColMeta list \<Rightarrow> byte list \<Rightarrow> SelItem \<Rightarrow> AggAcc \<Rightarrow> AggAcc res" where
  "agg_step prev_cols rec item acc =
     (if sel_kind item \<noteq> SEL_AGG then Inr acc
      else if agg_type (sel_agg item) = AGG_COUNT
      then Inr (acc\<lparr>count_val := c_int64 (count_val acc + 1), has_value := True\<rparr>)
      else rbind (find_col prev_cols (agg_col (sel_agg item))) (\<lambda>src.
           rbind (byte_ptr (cm_offset src) rec) (\<lambda>val.
             if agg_type (sel_agg item) = AGG_SUM
             then if cm_type src = TYPE_INT
                  then rbind (read_at 0 4 val) (\<lambda>b. Inr (acc\<lparr>sum_int_val := c_int64 (sum_int_val acc + le_sint b), has_value := True\<rparr>))
                  else if cm_type src = TYPE_FLOAT
                  then rbind (read_at 0 4 val) (\<lambda>b.
                         Inr (acc\<lparr>sum_float_val := f64_add (sum_float_val acc) (f64_of_f32 (dec_f32 b)), has_value := True\<rparr>))
                  else Inr (acc\<lparr>has_value := True\<rparr>)
             else if \<not> has_value acc
             then rbind (read_at 0 (cm_len src) val) (\<lambda>b. rbind (memcpy_to 0 b (extrema_buf acc)) (\<lambda>e.
                    Inr (acc\<lparr>extrema_buf := e, has_value := True\<rparr>)))
             else rbind (update_max_min (extrema_buf acc) val (cm_type src) (cm_len src) (agg_type (sel_agg item) = AGG_MAX)) (\<lambda>e.
                    Inr (acc\<lparr>extrema_buf := e\<rparr>)))))"

fun agg_steps :: "ColMeta list \<Rightarrow> byte list \<Rightarrow> SelItem list \<Rightarrow> AggAcc list \<Rightarrow> AggAcc list res" where
  "agg_steps prev_cols rec (i # is) (a # as) =
     rbind (agg_step prev_cols rec i a) (\<lambda>a'. rbind (agg_steps prev_cols rec is as) (\<lambda>as'. Inr (a' # as')))"
| "agg_steps prev_cols rec _ _ = Inr []"

definition agg_out :: "SelItem \<Rightarrow> AggAcc \<Rightarrow> ColMeta \<Rightarrow> byte list \<Rightarrow> byte list res" where
  "agg_out item acc col out =
     (if sel_kind item \<noteq> SEL_AGG then Inr out
      else case agg_type (sel_agg item) of
        AGG_COUNT \<Rightarrow> memcpy_to (nat (cm_offset col)) (enc_int (if has_value acc then count_val acc else 0)) out
      | AGG_SUM \<Rightarrow>
          if cm_type col = TYPE_INT then memcpy_to (nat (cm_offset col)) (enc_int (sum_int_val acc)) out
          else memcpy_to (nat (cm_offset col)) (le_bytes 4 (uint (f32_of_f64 (sum_float_val acc)))) out
      | _ \<Rightarrow> rbind (read_at 0 (cm_len col) (extrema_buf acc)) (\<lambda>b. memcpy_to (nat (cm_offset col)) b out))"

fun agg_outs :: "SelItem list \<Rightarrow> AggAcc list \<Rightarrow> ColMeta list \<Rightarrow> byte list \<Rightarrow> byte list res" where
  "agg_outs (i # is) (a # as) (c # cs) out = rbind (agg_out i a c out) (agg_outs is as cs)"
| "agg_outs _ _ _ out = Inr out"

definition agg_start :: "ColMeta list \<Rightarrow> AggSt \<Rightarrow> (AggSt \<times> AggAcc list) res" where
  "agg_start prev_cols ag =
     rbind (build_output_schema prev_cols (ag_items ag) 0) (\<lambda>(cols, len).
     rbind (rmap (new_AggAcc prev_cols) (ag_items ag)) (\<lambda>accs. Inr (ag\<lparr>ag_cols := cols, ag_len := len\<rparr>, accs)))"

definition agg_finish :: "AggSt \<Rightarrow> AggAcc list \<Rightarrow> AggSt res" where
  "agg_finish ag accs =
     rbind (agg_outs (ag_items ag) accs (ag_cols ag) (replicate (nat (ag_len ag)) 0)) (\<lambda>out.
       Inr (ag\<lparr>ag_record := Some out, ag_computed := True, ag_end := False\<rparr>))"

section \<open>The executor tree\<close>

record JoinCondSpec =
  jc_lhs_offset :: int
  jc_rhs_offset :: int
  lhs_on_left :: bool
  rhs_on_left :: bool
  jc_is_rhs_val :: bool
  jc_rhs_val :: Value
  jc_lhs_type :: ColType
  jc_lhs_len :: int
  jc_op :: CompOp

record JoinSt =
  jn_len :: int
  left_tuple_len :: int
  right_tuple_len :: int
  jn_cols :: "ColMeta list"
  cond_specs :: "JoinCondSpec list"
  left_block_buf :: "byte list"
  left_block_count :: nat
  block_idx :: nat
  jn_record :: "byte list option"
  jn_end :: bool
  hash_probe_enabled :: bool
  eq_hash :: "(byte list \<times> nat list) list"
  hash_block_ready :: bool
  hash_match_indices :: "nat list"
  hash_match_pos :: nat

datatype Exec =
    SeqScanEx SeqScan
  | IndexScanEx IndexScan
  | ProjectionEx Projection Exec
  | SortEx SortSt Exec
  | AggEx AggSt Exec
  | JoinEx JoinSt Exec Exec

fun ex_is_end :: "Exec \<Rightarrow> bool" where
  "ex_is_end (SeqScanEx q) = ss_end q"
| "ex_is_end (IndexScanEx q) = index_is_end q"
| "ex_is_end (ProjectionEx p x) = pj_end p"
| "ex_is_end (SortEx so x) = so_end so"
| "ex_is_end (AggEx ag x) = ag_end ag"
| "ex_is_end (JoinEx j l r) = jn_end j"

fun ex_cols :: "Exec \<Rightarrow> ColMeta list" where
  "ex_cols (SeqScanEx q) = ss_cols q"
| "ex_cols (IndexScanEx q) = tm_cols (is_tab q)"
| "ex_cols (ProjectionEx p x) = pj_cols p"
| "ex_cols (SortEx so x) = so_cols so"
| "ex_cols (AggEx ag x) = ag_cols ag"
| "ex_cols (JoinEx j l r) = jn_cols j"

fun tupleLen :: "Exec \<Rightarrow> int" where
  "tupleLen (SeqScanEx q) = ss_len q"
| "tupleLen (IndexScanEx q) = is_len q"
| "tupleLen (ProjectionEx p x) = pj_len p"
| "tupleLen (SortEx so x) = so_len so"
| "tupleLen (AggEx ag x) = ag_len ag"
| "tupleLen (JoinEx j l r) = jn_len j"

text \<open>Only the table scan overrides \<^verbatim>\<open>peekTuple\<close>; the base class returns a null pointer.\<close>

fun peekTuple :: "Exec \<Rightarrow> byte list option" where
  "peekTuple (SeqScanEx q) = (if ss_end q then None else ss_record q)"
| "peekTuple _ = None"

text \<open>The other executors return a record id that is never set.\<close>

fun ex_rid :: "Exec \<Rightarrow> Rid res" where
  "ex_rid (SeqScanEx q) = Inr (ss_rid q)"
| "ex_rid (IndexScanEx q) = Inr (is_rid q)"
| "ex_rid _ = Inl UndefinedBehaviour"

definition sort_Next :: "SortSt \<Rightarrow> byte list option res" where
  "sort_Next so =
     (if so_end so then Inr None
      else if current_idx so < length (sorted_records so) then Inr (Some (sorted_records so ! current_idx so))
      else Inl UndefinedBehaviour)"

text \<open>\<^verbatim>\<open>Next()\<close>; the join hands out its record and keeps none.\<close>

fun ex_Next :: "txn_id_t option \<Rightarrow> Exec \<Rightarrow> (Sys, byte list option \<times> Exec) em" where
  "ex_Next ctx (SeqScanEx q) = em_return (if ss_end q then None else ss_record q, SeqScanEx q)"
| "ex_Next ctx (IndexScanEx q) =
     em_bind (sys_get_record ctx (is_tab_name q) (is_rid q)) (\<lambda>rec. em_return (Some rec, IndexScanEx q))"
| "ex_Next ctx (ProjectionEx p x) = em_return (if pj_end p then None else pj_record p, ProjectionEx p x)"
| "ex_Next ctx (SortEx so x) = em_bind (sys_res (sort_Next so)) (\<lambda>r. em_return (r, SortEx so x))"
| "ex_Next ctx (AggEx ag x) = em_return (if ag_end ag then None else ag_record ag, AggEx ag x)"
| "ex_Next ctx (JoinEx j l r) =
     em_return (if jn_end j then (None, JoinEx j l r) else (jn_record j, JoinEx (j\<lparr>jn_record := None\<rparr>) l r))"

text \<open>A tuple that is dereferenced at once; a null pointer would be undefined.\<close>

definition ex_tuple :: "txn_id_t option \<Rightarrow> Exec \<Rightarrow> (Sys, byte list \<times> Exec) em" where
  "ex_tuple ctx x = em_bind (ex_Next ctx x) (\<lambda>(r, x').
     case r of Some rec \<Rightarrow> em_return (rec, x') | None \<Rightarrow> em_throw UndefinedBehaviour)"

section \<open>Join\<close>

definition JOIN_BUFFER_SIZE :: int where "JOIN_BUFFER_SIZE = 1024 * 1024 * 1024"

definition is_pure_equi_join :: "JoinCondSpec list \<Rightarrow> bool" where
  "is_pure_equi_join specs \<longleftrightarrow> specs \<noteq> [] \<and> list_all (\<lambda>c. jc_op c = OP_EQ \<and> \<not> jc_is_rhs_val c) specs"

text \<open>The side of a column of the joined tuple, and its offset in the tuple of that side.\<close>

definition join_side :: "int \<Rightarrow> ColMeta \<Rightarrow> bool \<times> int" where
  "join_side left_len col = (if cm_offset col < c_int left_len then (True, cm_offset col) else (False, cm_offset col - c_int left_len))"

definition build_cond_spec :: "ColMeta list \<Rightarrow> int \<Rightarrow> Condition \<Rightarrow> JoinCondSpec res" where
  "build_cond_spec cols left_len cond =
     rbind (find_col cols (lhs_col cond)) (\<lambda>l.
     rbind (if is_rhs_val cond then Inr (False, 0) else rbind (find_col cols (rhs_col cond)) (\<lambda>r. Inr (join_side left_len r))) (\<lambda>(r_left, r_off).
       Inr \<lparr>jc_lhs_offset = snd (join_side left_len l), jc_rhs_offset = r_off, lhs_on_left = fst (join_side left_len l),
            rhs_on_left = r_left, jc_is_rhs_val = is_rhs_val cond, jc_rhs_val = rhs_val cond, jc_lhs_type = cm_type l,
            jc_lhs_len = cm_len l, jc_op = cond_op cond\<rparr>))"

definition new_JoinSt :: "Exec \<Rightarrow> Exec \<Rightarrow> Condition list \<Rightarrow> JoinSt res" where
  "new_JoinSt l r conds =
     (let cols = ex_cols l @ map (\<lambda>c. c\<lparr>cm_offset := c_int (cm_offset c + c_int (tupleLen l))\<rparr>) (ex_cols r)
      in rbind (rmap (build_cond_spec cols (tupleLen l)) conds) (\<lambda>specs.
           Inr \<lparr>jn_len = tupleLen l + tupleLen r, left_tuple_len = tupleLen l, right_tuple_len = tupleLen r, jn_cols = cols,
                cond_specs = specs, left_block_buf = [], left_block_count = 0, block_idx = 0, jn_record = None,
                jn_end = True, hash_probe_enabled = is_pure_equi_join specs, eq_hash = [], hash_block_ready = False,
                hash_match_indices = [], hash_match_pos = 0\<rparr>))"

definition key_part :: "int \<Rightarrow> int \<Rightarrow> byte list \<Rightarrow> byte list res" where
  "key_part off len d = (if off < 0 then Inl UndefinedBehaviour else read_at (nat off) len d)"

fun left_key :: "JoinCondSpec list \<Rightarrow> byte list \<Rightarrow> byte list res" where
  "left_key [] d = Inr []"
| "left_key (c # cs) d =
     rbind (key_part (if lhs_on_left c then jc_lhs_offset c else jc_rhs_offset c) (jc_lhs_len c) d) (\<lambda>b.
     rbind (left_key cs d) (\<lambda>k. Inr (b @ k)))"

fun right_key :: "JoinCondSpec list \<Rightarrow> byte list \<Rightarrow> byte list res" where
  "right_key [] d = Inr []"
| "right_key (c # cs) d =
     rbind (key_part (if lhs_on_left c then jc_rhs_offset c else jc_lhs_offset c) (jc_lhs_len c) d) (\<lambda>b.
     rbind (right_key cs d) (\<lambda>k. Inr (b @ k)))"

definition eval_join_cond :: "JoinCondSpec \<Rightarrow> byte list \<Rightarrow> byte list \<Rightarrow> bool res" where
  "eval_join_cond c left_data right_data =
     rbind (byte_ptr (jc_lhs_offset c) (if lhs_on_left c then left_data else right_data)) (\<lambda>lhs_data.
     rbind (if jc_is_rhs_val c then raw_data (jc_rhs_val c)
            else byte_ptr (jc_rhs_offset c) (if rhs_on_left c then left_data else right_data)) (\<lambda>rhs_data.
     rbind (compare_raw_value lhs_data rhs_data (jc_lhs_type c) (jc_lhs_len c)) (\<lambda>cmp.
       Inr (eval_compare cmp (jc_op c)))))"

fun eval_join_conds :: "JoinCondSpec list \<Rightarrow> byte list \<Rightarrow> byte list \<Rightarrow> bool res" where
  "eval_join_conds [] left_data right_data = Inr True"
| "eval_join_conds (c # cs) left_data right_data =
     rbind (eval_join_cond c left_data right_data) (\<lambda>b. if b then eval_join_conds cs left_data right_data else Inr False)"

definition left_tuple_at :: "JoinSt \<Rightarrow> nat \<Rightarrow> byte list" where
  "left_tuple_at j idx = drop (idx * nat (left_tuple_len j)) (left_block_buf j)"

definition join_records :: "JoinSt \<Rightarrow> byte list \<Rightarrow> byte list \<Rightarrow> byte list res" where
  "join_records j lrec rrec =
     rbind (read_at 0 (left_tuple_len j) lrec) (\<lambda>a. rbind (read_at 0 (right_tuple_len j) rrec) (\<lambda>b. Inr (a @ b)))"

text \<open>Reading left tuples until the buffer is full; \<open>nx\<close> advances the left executor.\<close>

primrec fill_left_block :: "nat \<Rightarrow> (Exec \<Rightarrow> (Sys, Exec) em) \<Rightarrow> JoinSt \<Rightarrow> Exec \<Rightarrow> (Sys, JoinSt \<times> Exec) em" where
  "fill_left_block 0 nx j l = em_throw OutOfFuel"
| "fill_left_block (Suc n) nx j l =
     (if ex_is_end l then em_return (j, l)
      else if left_block_count j > 0 \<and> int (left_block_count j) * left_tuple_len j + left_tuple_len j > JOIN_BUFFER_SIZE
      then em_return (j, l)
      else case peekTuple l of
        None \<Rightarrow> em_return (j, l)
      | Some rec \<Rightarrow>
          em_bind (sys_res (read_at 0 (left_tuple_len j) rec)) (\<lambda>b.
          em_bind (nx l) (\<lambda>l'.
            fill_left_block n nx
              (j\<lparr>left_block_buf := left_block_buf j @ b, left_block_count := Suc (left_block_count j)\<rparr>) l')))"

definition clear_block :: "JoinSt \<Rightarrow> JoinSt" where
  "clear_block j = j\<lparr>left_block_buf := [], left_block_count := 0\<rparr>"

definition load_left_block :: "nat \<Rightarrow> (Exec \<Rightarrow> (Sys, Exec) em) \<Rightarrow> JoinSt \<Rightarrow> Exec \<Rightarrow> (Sys, JoinSt \<times> Exec) em" where
  "load_left_block n nx j l = fill_left_block n nx (clear_block j) l"

definition hash_push :: "byte list \<Rightarrow> nat \<Rightarrow> (byte list \<times> nat list) list \<Rightarrow> (byte list \<times> nat list) list" where
  "hash_push k i m = AList.update k ((case map_of m k of None \<Rightarrow> [] | Some xs \<Rightarrow> xs) @ [i]) m"

fun hash_rows :: "JoinSt \<Rightarrow> nat list \<Rightarrow> (byte list \<times> nat list) list \<Rightarrow> (byte list \<times> nat list) list res" where
  "hash_rows j [] m = Inr m"
| "hash_rows j (i # is) m = rbind (left_key (cond_specs j) (left_tuple_at j i)) (\<lambda>k. hash_rows j is (hash_push k i m))"

definition build_eq_hash :: "JoinSt \<Rightarrow> JoinSt res" where
  "build_eq_hash j = rbind (hash_rows j [0..<left_block_count j] []) (\<lambda>m. Inr (j\<lparr>eq_hash := m\<rparr>))"

definition reset_hash_block :: "JoinSt \<Rightarrow> JoinSt" where
  "reset_hash_block j =
     (clear_block j)\<lparr>hash_block_ready := False, eq_hash := [], hash_match_indices := [], hash_match_pos := 0\<rparr>"

definition emit_hash_match :: "JoinSt \<Rightarrow> Exec \<Rightarrow> (bool \<times> JoinSt) res" where
  "emit_hash_match j r =
     (if hash_match_pos j \<ge> length (hash_match_indices j) then Inr (False, j)
      else case peekTuple r of
        None \<Rightarrow> Inr (False, j)
      | Some right_rec \<Rightarrow>
          rbind (join_records j (left_tuple_at j (hash_match_indices j ! hash_match_pos j)) right_rec) (\<lambda>rec.
            Inr (True, j\<lparr>hash_match_pos := Suc (hash_match_pos j), jn_record := Some rec, jn_end := False\<rparr>)))"

text \<open>The loop of \<^verbatim>\<open>find_next_hash\<close>; \<open>bg\<close> and \<open>nx\<close> start and advance a child.\<close>

primrec find_next_hash :: "nat \<Rightarrow> (Exec \<Rightarrow> (Sys, Exec) em) \<Rightarrow> (Exec \<Rightarrow> (Sys, Exec) em) \<Rightarrow> JoinSt \<Rightarrow> Exec \<Rightarrow> Exec \<Rightarrow>
    (Sys, JoinSt \<times> Exec \<times> Exec) em" where
  "find_next_hash 0 bg nx j l r = em_throw OutOfFuel"
| "find_next_hash (Suc n) bg nx j l r =
     em_bind (sys_res (emit_hash_match j r)) (\<lambda>(b, j0).
       if b then em_return (j0, l, r)
       else em_bind
         (if hash_match_indices j0 \<noteq> [] \<and> hash_block_ready j0 \<and> \<not> ex_is_end r then nx r else em_return r) (\<lambda>r1.
         let j1 = (if hash_match_indices j0 \<noteq> [] then j0\<lparr>hash_match_indices := [], hash_match_pos := 0\<rparr> else j0)
         in em_bind
           (if \<not> hash_block_ready j1
            then em_bind (load_left_block n nx j1 l) (\<lambda>(j2, l2).
                   if left_block_count j2 = 0 then em_return (j2, l2, r1)
                   else em_bind (sys_res (build_eq_hash j2)) (\<lambda>j3.
                          em_bind (bg r1) (\<lambda>r2. em_return (j3\<lparr>hash_block_ready := True\<rparr>, l2, r2))))
            else em_return (j1, l, r1)) (\<lambda>(j2, l2, r2).
             if \<not> hash_block_ready j2 then em_return (j2, l2, r2)
             else if ex_is_end r2 then find_next_hash n bg nx (reset_hash_block j2) l2 r2
             else case peekTuple r2 of
               None \<Rightarrow> em_bind (nx r2) (find_next_hash n bg nx j2 l2)
             | Some right_rec \<Rightarrow>
                 em_bind (sys_res (right_key (cond_specs j2) right_rec)) (\<lambda>k.
                   case map_of (eq_hash j2) k of
                     Some (i # is) \<Rightarrow> find_next_hash n bg nx (j2\<lparr>hash_match_indices := i # is, hash_match_pos := 0\<rparr>) l2 r2
                   | _ \<Rightarrow> em_bind (nx r2) (find_next_hash n bg nx j2 l2)))))"

definition try_match :: "(Exec \<Rightarrow> (Sys, Exec) em) \<Rightarrow> JoinSt \<Rightarrow> Exec \<Rightarrow> (Sys, bool \<times> JoinSt \<times> Exec) em" where
  "try_match nx j r =
     (if block_idx j \<ge> left_block_count j \<or> ex_is_end r then em_return (False, j, r)
      else case peekTuple r of
        None \<Rightarrow> em_return (False, j, r)
      | Some right_rec \<Rightarrow>
          em_bind (sys_res (eval_join_conds (cond_specs j) (left_tuple_at j (block_idx j)) right_rec)) (\<lambda>b.
            if b
            then em_bind (sys_res (join_records j (left_tuple_at j (block_idx j)) right_rec)) (\<lambda>rec.
                   em_return (True, j\<lparr>jn_record := Some rec, jn_end := False\<rparr>, r))
            else em_bind (nx r) (\<lambda>r'. em_return (False, j, r'))))"

text \<open>The three loops of \<^verbatim>\<open>find_next_nested\<close>, from the inside; \<open>True\<close> is the \<^verbatim>\<open>return\<close> with a match.\<close>

primrec nested_right :: "nat \<Rightarrow> (Exec \<Rightarrow> (Sys, Exec) em) \<Rightarrow> JoinSt \<Rightarrow> Exec \<Rightarrow> (Sys, bool \<times> JoinSt \<times> Exec) em" where
  "nested_right 0 nx j r = em_throw OutOfFuel"
| "nested_right (Suc n) nx j r =
     (if ex_is_end r then em_return (False, j, r)
      else em_bind (try_match nx j r) (\<lambda>(b, j', r'). if b then em_return (True, j', r') else nested_right n nx j' r'))"

primrec nested_block :: "nat \<Rightarrow> (Exec \<Rightarrow> (Sys, Exec) em) \<Rightarrow> (Exec \<Rightarrow> (Sys, Exec) em) \<Rightarrow> JoinSt \<Rightarrow> Exec \<Rightarrow>
    (Sys, bool \<times> JoinSt \<times> Exec) em" where
  "nested_block 0 bg nx j r = em_throw OutOfFuel"
| "nested_block (Suc n) bg nx j r =
     (if block_idx j < left_block_count j
      then em_bind (nested_right n nx j r) (\<lambda>(b, j', r').
             if b then em_return (True, j', r')
             else em_bind (bg r') (nested_block n bg nx (j'\<lparr>block_idx := Suc (block_idx j')\<rparr>)))
      else em_return (False, j, r))"

primrec find_next_nested :: "nat \<Rightarrow> (Exec \<Rightarrow> (Sys, Exec) em) \<Rightarrow> (Exec \<Rightarrow> (Sys, Exec) em) \<Rightarrow> JoinSt \<Rightarrow> Exec \<Rightarrow> Exec \<Rightarrow>
    (Sys, JoinSt \<times> Exec \<times> Exec) em" where
  "find_next_nested 0 bg nx j l r = em_throw OutOfFuel"
| "find_next_nested (Suc n) bg nx j l r =
     em_bind
       (if left_block_count j = 0
        then em_bind (load_left_block n nx j l) (\<lambda>(j1, l1).
               if left_block_count j1 = 0 then em_return (j1, l1, r)
               else em_bind (bg r) (\<lambda>r1. em_return (j1\<lparr>block_idx := 0\<rparr>, l1, r1)))
        else em_return (j, l, r)) (\<lambda>(j1, l1, r1).
         if left_block_count j1 = 0 then em_return (j1, l1, r1)
         else em_bind (nested_block n bg nx j1 r1) (\<lambda>(b, j2, r2).
                if b then em_return (j2, l1, r2)
                else find_next_nested n bg nx ((clear_block j2)\<lparr>block_idx := 0\<rparr>) l1 r2))"

definition join_find_next :: "nat \<Rightarrow> (Exec \<Rightarrow> (Sys, Exec) em) \<Rightarrow> (Exec \<Rightarrow> (Sys, Exec) em) \<Rightarrow> JoinSt \<Rightarrow> Exec \<Rightarrow> Exec \<Rightarrow> (Sys, Exec) em" where
  "join_find_next n bg nx j l r =
     em_bind ((if hash_probe_enabled j then find_next_hash else find_next_nested) n bg nx
                (j\<lparr>jn_end := True, jn_record := None\<rparr>) l r) (\<lambda>(j', l', r'). em_return (JoinEx j' l' r'))"

definition join_begin :: "nat \<Rightarrow> (Exec \<Rightarrow> (Sys, Exec) em) \<Rightarrow> (Exec \<Rightarrow> (Sys, Exec) em) \<Rightarrow> JoinSt \<Rightarrow> Exec \<Rightarrow> Exec \<Rightarrow> (Sys, Exec) em" where
  "join_begin n bg nx j l r =
     em_bind (bg l) (\<lambda>l'. join_find_next n bg nx (reset_hash_block (j\<lparr>block_idx := 0\<rparr>)) l' r)"

definition join_next :: "nat \<Rightarrow> (Exec \<Rightarrow> (Sys, Exec) em) \<Rightarrow> (Exec \<Rightarrow> (Sys, Exec) em) \<Rightarrow> JoinSt \<Rightarrow> Exec \<Rightarrow> Exec \<Rightarrow> (Sys, Exec) em" where
  "join_next n bg nx j l r =
     (if jn_end j then em_return (JoinEx j l r)
      else em_bind (if \<not> hash_probe_enabled j then nx r else em_return r) (join_find_next n bg nx j l))"

section \<open>Running a tree\<close>

definition proj_load :: "txn_id_t option \<Rightarrow> Projection \<Rightarrow> Exec \<Rightarrow> (Sys, Exec) em" where
  "proj_load ctx p x =
     (if ex_is_end x then em_return (ProjectionEx (p\<lparr>pj_end := True\<rparr>) x)
      else em_bind (ex_tuple ctx x) (\<lambda>(rec, x').
           em_bind (project p rec) (\<lambda>out. em_return (ProjectionEx (p\<lparr>pj_end := False, pj_record := Some out\<rparr>) x'))))"

text \<open>\<^verbatim>\<open>while (!prev_->is_end()) { ... prev_->Next() ...; prev_->nextTuple(); }\<close> with an accumulator.\<close>

primrec drain :: "nat \<Rightarrow> txn_id_t option \<Rightarrow> (Exec \<Rightarrow> (Sys, Exec) em) \<Rightarrow> (byte list \<Rightarrow> 'a \<Rightarrow> 'a res) \<Rightarrow> 'a \<Rightarrow> Exec \<Rightarrow> (Sys, 'a \<times> Exec) em" where
  "drain 0 ctx nx f acc x = em_throw OutOfFuel"
| "drain (Suc n) ctx nx f acc x =
     (if ex_is_end x then em_return (acc, x)
      else em_bind (ex_tuple ctx x) (\<lambda>(rec, x1).
           em_bind (sys_res (f rec acc)) (\<lambda>acc'.
           em_bind (nx x1) (drain n ctx nx f acc'))))"

fun ex_begin :: "nat \<Rightarrow> txn_id_t option \<Rightarrow> Exec \<Rightarrow> (Sys, Exec) em"
and ex_next :: "nat \<Rightarrow> txn_id_t option \<Rightarrow> Exec \<Rightarrow> (Sys, Exec) em" where
  "ex_begin 0 ctx x = em_throw OutOfFuel"
| "ex_begin (Suc n) ctx (SeqScanEx q) = em_bind (seq_begin n ctx q) (\<lambda>q'. em_return (SeqScanEx q'))"
| "ex_begin (Suc n) ctx (IndexScanEx q) = em_bind (index_begin n ctx q) (\<lambda>q'. em_return (IndexScanEx q'))"
| "ex_begin (Suc n) ctx (ProjectionEx p x) = em_bind (ex_begin n ctx x) (proj_load ctx p)"
| "ex_begin (Suc n) ctx (SortEx so x) =
     em_bind (ex_begin n ctx x) (\<lambda>x1.
     em_bind (drain n ctx (ex_next n ctx) (\<lambda>rec recs. Inr (recs @ [rec])) [] x1) (\<lambda>(recs, x2).
     em_bind (sys_res (sort_fill so recs)) (\<lambda>so'. em_return (SortEx so' x2))))"
| "ex_begin (Suc n) ctx (AggEx ag x) =
     (if ag_computed ag then em_return (AggEx ag x)
      else em_bind (sys_res (agg_start (ex_cols x) ag)) (\<lambda>(ag1, accs).
           em_bind (ex_begin n ctx x) (\<lambda>x1.
           em_bind (drain n ctx (ex_next n ctx) (\<lambda>rec. agg_steps (ex_cols x) rec (ag_items ag)) accs x1) (\<lambda>(accs', x2).
           em_bind (sys_res (agg_finish ag1 accs')) (\<lambda>ag2. em_return (AggEx ag2 x2))))))"
| "ex_begin (Suc n) ctx (JoinEx j l r) = join_begin n (ex_begin n ctx) (ex_next n ctx) j l r"
| "ex_next 0 ctx x = em_throw OutOfFuel"
| "ex_next (Suc n) ctx (SeqScanEx q) = em_bind (seq_next n ctx q) (\<lambda>q'. em_return (SeqScanEx q'))"
| "ex_next (Suc n) ctx (IndexScanEx q) = em_bind (index_next n ctx q) (\<lambda>q'. em_return (IndexScanEx q'))"
| "ex_next (Suc n) ctx (ProjectionEx p x) = em_bind (ex_next n ctx x) (proj_load ctx p)"
| "ex_next (Suc n) ctx (SortEx so x) = em_return (SortEx (sort_next so) x)"
| "ex_next (Suc n) ctx (AggEx ag x) = em_return (AggEx (ag\<lparr>ag_end := True\<rparr>) x)"
| "ex_next (Suc n) ctx (JoinEx j l r) = join_next n (ex_begin n ctx) (ex_next n ctx) j l r"

end
