(* ===== verification/Recovery.thy ===== *)
theory Recovery
  imports Txn
begin

text \<open>
  Crash recovery: \<^verbatim>\<open>recovery/log_recovery.cpp\<close> over the state of \<open>System\<close>. The three phases are \<open>rec_analyze\<close>, \<open>rec_redo\<close> and
  \<open>rec_undo\<close>; the loops over the log file and along the \<^verbatim>\<open>prev_lsn_\<close> links have step bounds. What the analysis finds
  in a log file is shown in \<open>Restart\<close>.
\<close>

section \<open>State\<close>

text \<open>\<^verbatim>\<open>att_\<close> is a \<^verbatim>\<open>std::map\<close>, a list in key order; \<open>dml_tables\<close> is the local set of \<^verbatim>\<open>analyze\<close>.\<close>

record RecMgr =
  att :: "(txn_id_t \<times> lsn_t) list"
  committed_txns :: "txn_id_t list"
  aborted_txns :: "txn_id_t list"
  dml_tables :: "string list"
  tables_with_dml :: "string list"
  rec_logs :: "LogRecord list"
  max_txn_id :: txn_id_t
  rec_buffer :: "byte list"

definition new_RecMgr :: RecMgr where
  "new_RecMgr = \<lparr>att = [], committed_txns = [], aborted_txns = [], dml_tables = [], tables_with_dml = [], rec_logs = [],
     max_txn_id = INVALID_TXN_ID, rec_buffer = buffer new_LogBuffer\<rparr>"

type_synonym rec_state = "Sys \<times> RecMgr"

definition on_sys :: "(Sys, 'a) em \<Rightarrow> (rec_state, 'a) em" where
  "on_sys m = (\<lambda>(s, g). case m s of (r, s') \<Rightarrow> (r, s', g))"

definition rec_modify :: "(RecMgr \<Rightarrow> RecMgr) \<Rightarrow> (rec_state, unit) em" where
  "rec_modify f = (\<lambda>(s, g). (Inr (), s, f g))"

definition rec_next_lsn :: "RecMgr \<Rightarrow> lsn_t" where
  "rec_next_lsn g = int (length (rec_logs g))"

definition rec_next_txn_id :: "RecMgr \<Rightarrow> txn_id_t" where
  "rec_next_txn_id g = (if max_txn_id g = INVALID_TXN_ID then 0 else c_int (max_txn_id g + 1))"

section \<open>Analysis\<close>

fun att_put :: "txn_id_t \<Rightarrow> lsn_t \<Rightarrow> (txn_id_t \<times> lsn_t) list \<Rightarrow> (txn_id_t \<times> lsn_t) list" where
  "att_put t l [] = [(t, l)]"
| "att_put t l ((t', l') # es) =
     (if t = t' then (t, l) # es else if t < t' then (t, l) # (t', l') # es else (t', l') # att_put t l es)"

definition log_types :: "LogType list" where
  "log_types = [begin_log, commit_log, ABORT, INSERT, DELETE, UPDATE, INDEX_INSERT, INDEX_DELETE]"

text \<open>The table a data record names; \<^verbatim>\<open>std::string\<close> of a \<^verbatim>\<open>char *\<close> ends at the zero byte.\<close>

fun dml_table :: "LogRecord \<Rightarrow> string option res" where
  "dml_table (InsertLogRecord h v r t) = rbind (string_at t) (\<lambda>n. Inr (Some n))"
| "dml_table (DeleteLogRecord h v r t) = rbind (string_at t) (\<lambda>n. Inr (Some n))"
| "dml_table (UpdateLogRecord h v w r t) = rbind (string_at t) (\<lambda>n. Inr (Some n))"
| "dml_table _ = Inr None"

text \<open>Entering a record into the tables of the recovery manager.\<close>

definition note_log :: "LogRecord \<Rightarrow> RecMgr \<Rightarrow> RecMgr res" where
  "note_log r g =
     (let h = log_hdr r;
          g1 = g\<lparr>rec_logs := rec_logs g @ [r], max_txn_id := max (max_txn_id g) (log_tid h)\<rparr>;
          g2 = g1\<lparr>att := att_put (log_tid h) (lsn h) (att g)\<rparr>
      in if type_of r \<noteq> begin_log \<and> map_of (att g) (log_tid h) = None then Inl AssertFailure
         else rbind (dml_table r) (\<lambda>t.
           Inr (case t of None \<Rightarrow> g2 | Some n \<Rightarrow> g2\<lparr>dml_tables := List.insert n (dml_tables g)\<rparr>)))"

text \<open>One round of the inner loop: leave it, return from \<^verbatim>\<open>analyze\<close>, or go on behind the record. Only the
  first eight bytes of the record are known to be in the buffer when its length is read.\<close>

datatype scan_out = ScanBreak | ScanReturn | ScanNext int

definition scan_step :: "int \<Rightarrow> int \<Rightarrow> RecMgr \<Rightarrow> (scan_out \<times> RecMgr) res" where
  "scan_step len off g =
     (if off + int OFFSET_LOG_TOT_LEN > len then Inr (ScanBreak, g)
      else rbind (read_u32 (nat off + OFFSET_LOG_TOT_LEN) (rec_buffer g)) (\<lambda>tot_len.
        if off + c_int tot_len > len then Inr (ScanBreak, g)
        else rbind (read_int (nat off) (rec_buffer g)) (\<lambda>ty.
          case find (\<lambda>t. LogType_val t = ty) log_types of
            None \<Rightarrow> Inr (ScanReturn, g)
          | Some t \<Rightarrow>
              rbind (deserialize t (drop (nat off) (rec_buffer g))) (\<lambda>r.
              rbind (note_log r g) (\<lambda>g'.
                Inr (ScanNext (c_int (off + c_int (log_tot_len (log_hdr r)))), g'))))))"

text \<open>The inner loop; its result is the offset behind the last record, or none for the \<^verbatim>\<open>return\<close>.\<close>

primrec scan_records :: "nat \<Rightarrow> int \<Rightarrow> int \<Rightarrow> RecMgr \<Rightarrow> (int option \<times> RecMgr) res" where
  "scan_records 0 len off g = Inl OutOfFuel"
| "scan_records (Suc n) len off g =
     (if off \<ge> len then Inr (Some off, g)
      else rbind (scan_step len off g) (\<lambda>(o', g').
        case o' of
          ScanBreak \<Rightarrow> Inr (Some off, g')
        | ScanReturn \<Rightarrow> Inr (None, g')
        | ScanNext off' \<Rightarrow> scan_records n len off' g'))"

text \<open>The outer loop; \<open>False\<close> is the early return.\<close>

primrec read_logs :: "nat \<Rightarrow> int \<Rightarrow> (rec_state, bool) em" where
  "read_logs 0 off = em_throw OutOfFuel"
| "read_logs (Suc n) off =
     em_bind (on_sys (on_disk_mgr (read_log (int LOG_BUFFER_SIZE) off))) (\<lambda>bs.
       case bs of
         None \<Rightarrow> em_return True
       | Some b \<Rightarrow>
           if b = [] then em_return True
           else (\<lambda>(s, g).
             case scan_records (Suc n) (int (length b)) 0 (g\<lparr>rec_buffer := put_bytes 0 b (rec_buffer g)\<rparr>) of
               Inl e \<Rightarrow> (Inl e, s, g)
             | Inr (None, g') \<Rightarrow> (Inr False, s, g')
             | Inr (Some k, g') \<Rightarrow> read_logs n (c_int (off + k)) (s, g')))"

definition classify :: "RecMgr \<Rightarrow> RecMgr" where
  "classify g =
     (let last = (\<lambda>l. if 0 \<le> l \<and> l < int (length (rec_logs g)) then Some (type_of (rec_logs g ! nat l)) else None)
      in g\<lparr>aborted_txns := aborted_txns g @ map fst (filter (\<lambda>(t, l). last l = Some ABORT) (att g)),
           committed_txns := committed_txns g @ map fst (filter (\<lambda>(t, l). last l = Some commit_log) (att g))\<rparr>)"

text \<open>Replacing an index by an empty one.\<close>

definition recreate_index :: "TabMeta \<Rightarrow> IndexMeta \<Rightarrow> (Sys, unit) em" where
  "recreate_index tab index =
     (let ix_name = index_file (tm_name tab) index
      in em_then
           (\<lambda>s. if map_of (sys_ihs s) ix_name \<noteq> None
                then em_then (sm_close_index ix_name) (em_modify (\<lambda>s. s\<lparr>sys_ihs := AList.delete ix_name (sys_ihs s)\<rparr>)) s
                else (Inr (), s))
           (em_then (on_disk_mgr (destroy_index (tm_name tab) (index_names index)))
           (em_then (\<lambda>s. on_disk_mgr (create_index (sys_junk s) (tm_name tab) (im_cols index)) s)
             (sm_open_index (tm_name tab) index))))"

definition rec_analyze :: "nat \<Rightarrow> (rec_state, unit) em" where
  "rec_analyze n =
     em_bind (read_logs n 0) (\<lambda>go.
       if \<not> go then em_return ()
       else em_then (rec_modify classify) (\<lambda>(s, g).
         if rec_logs g = [] then (Inr (), s, g)
         else em_then (rec_modify (\<lambda>g. g\<lparr>tables_with_dml := dml_tables g\<rparr>))
                (on_sys (em_for (dml_tables g) (\<lambda>t s.
                   em_bind (sys_res (get_table t (sys_db s))) (\<lambda>tab. em_for (tm_indexes tab) (recreate_index tab)) s)))
                (s, g)))"

section \<open>Rolling back\<close>

text \<open>\<^verbatim>\<open>try { m } catch (RMDBError &) { }\<close>.\<close>

definition quiet :: "(Sys, unit) em \<Rightarrow> (Sys, unit) em" where
  "quiet m = em_catch m (em_return ())"

definition on_open_table :: "byte list \<Rightarrow> (string \<Rightarrow> (Sys, unit) em) \<Rightarrow> (Sys, unit) em" where
  "on_open_table tname f =
     em_bind (sys_res (string_at tname)) (\<lambda>name s. if map_of (sys_fhs s) name = None then (Inr (), s) else f name s)"

definition on_open_index :: "byte list \<Rightarrow> (string \<Rightarrow> (Sys, unit) em) \<Rightarrow> (Sys, unit) em" where
  "on_open_index iname f =
     em_bind (sys_res (string_at iname)) (\<lambda>name s. if map_of (sys_ihs s) name = None then (Inr (), s) else f name s)"

fun rollback_log :: "nat \<Rightarrow> bool \<Rightarrow> LogRecord \<Rightarrow> (Sys, unit) em" where
  "rollback_log n redo_phase (InsertLogRecord h v rid t) = on_open_table t (\<lambda>name. quiet (sys_delete_record None name rid))"
| "rollback_log n redo_phase (UpdateLogRecord h v w rid t) =
     on_open_table t (\<lambda>name. quiet (sys_update_record None name rid (rec_data v)))"
| "rollback_log n redo_phase (DeleteLogRecord h v rid t) =
     on_open_table t (\<lambda>name. quiet (sys_insert_record_at name rid (rec_data v)))"
| "rollback_log n redo_phase (IndexInsertLogRecord h key len rid ix) =
     (if redo_phase then em_return ()
      else on_open_index ix (\<lambda>name. quiet (em_then (on_index name (delete_entry n key)) (em_return ()))))"
| "rollback_log n redo_phase (IndexDeleteLogRecord h key len rid ix) =
     (if redo_phase then em_return ()
      else on_open_index ix (\<lambda>name. quiet (em_then (on_index name (insert_entry n key rid)) (em_return ()))))"
| "rollback_log n redo_phase _ = em_return ()"

text \<open>Following the chain of one transaction from its last record; outside the redo phase a finished one is left alone.\<close>

primrec rollback_chain :: "nat \<Rightarrow> bool \<Rightarrow> LogRecord list \<Rightarrow> lsn_t \<Rightarrow> (Sys, unit) em" where
  "rollback_chain 0 redo_phase logs now = em_throw OutOfFuel"
| "rollback_chain (Suc n) redo_phase logs now =
     (if now = INVALID_LSN then em_return ()
      else if now < 0 \<or> now \<ge> int (length logs) then em_return ()
      else let r = logs ! nat now
           in if \<not> redo_phase \<and> (type_of r = commit_log \<or> type_of r = ABORT) then em_return ()
              else em_then (rollback_log n redo_phase r) (rollback_chain n redo_phase logs (prev_lsn (log_hdr r))))"

definition rec_rollback :: "nat \<Rightarrow> bool \<Rightarrow> (rec_state, unit) em" where
  "rec_rollback n redo_phase = (\<lambda>(s, g).
     on_sys (em_for (rev (att g)) (\<lambda>(t, l). rollback_chain n redo_phase (rec_logs g) l)) (s, g))"

section \<open>Redo and undo\<close>

definition rid_eq :: "Rid \<Rightarrow> Rid \<Rightarrow> bool" where
  "rid_eq a b \<longleftrightarrow> rid_page_no a = rid_page_no b \<and> rid_slot_no a = rid_slot_no b"

fun redo_log :: "LogRecord \<Rightarrow> (Sys, unit) em" where
  "redo_log (InsertLogRecord h v rid t) =
     on_open_table t (\<lambda>name.
       em_catch (sys_insert_record_at name rid (rec_data v))
         (em_bind (sys_insert_record None name (rec_data v)) (\<lambda>new_rid.
            if rid_eq new_rid rid then em_return () else em_throw AssertFailure)))"
| "redo_log (UpdateLogRecord h v w rid t) = on_open_table t (\<lambda>name. sys_update_record None name rid (rec_data w))"
| "redo_log (DeleteLogRecord h v rid t) = on_open_table t (\<lambda>name. sys_delete_record None name rid)"
| "redo_log _ = em_return ()"

definition rec_redo :: "nat \<Rightarrow> (rec_state, unit) em" where
  "rec_redo n = em_then (rec_rollback n True) (\<lambda>(s, g).
     on_sys (em_for (rec_logs g) (\<lambda>r.
       if log_tid (log_hdr r) \<in> set (aborted_txns g) \<or> log_tid (log_hdr r) \<notin> set (committed_txns g) then em_return ()
       else redo_log r)) (s, g))"

text \<open>Filling an index from the table file.\<close>

primrec fill_index :: "nat \<Rightarrow> string \<Rightarrow> IndexMeta \<Rightarrow> string \<Rightarrow> Rid \<Rightarrow> (Sys, unit) em" where
  "fill_index 0 tab_name index ix_name rid = em_throw OutOfFuel"
| "fill_index (Suc n) tab_name index ix_name rid =
     (if RmScan_is_end rid then em_return ()
      else em_bind (sys_get_record None tab_name rid) (\<lambda>rec.
           em_bind (sys_res (build_index_key index rec)) (\<lambda>key.
           em_then (em_then (on_index ix_name (insert_entry n key rid)) (em_return ()))
             (em_bind (on_table tab_name (RmScan_next rid)) (fill_index n tab_name index ix_name)))))"

definition rebuild_indexes_from_table :: "nat \<Rightarrow> (rec_state, unit) em" where
  "rebuild_indexes_from_table n = (\<lambda>(s, g).
     on_sys (em_for (tables_with_dml g) (\<lambda>tab_name s.
       if map_of (sys_fhs s) tab_name = None then (Inr (), s)
       else em_bind (sys_res (get_table tab_name (sys_db s))) (\<lambda>tab.
              em_for (tm_indexes tab) (\<lambda>index.
                em_then (recreate_index tab index)
                  (em_bind (on_table tab_name RmScan_new)
                    (fill_index n tab_name index (index_file (tm_name tab) index))))) s)) (s, g))"

definition rec_undo :: "nat \<Rightarrow> (rec_state, unit) em" where
  "rec_undo n = em_then (rec_rollback n False) (rebuild_indexes_from_table n)"

end
