(* ===== verification/Portal.thy ===== *)
theory Portal
  imports Executors Recovery
begin

text \<open>
  Statements: the executors that change tables (\<^verbatim>\<open>execution/executor_insert.h\<close>, \<^verbatim>\<open>executor_delete.h\<close>, \<^verbatim>\<open>executor_update.h\<close>),
  \<^verbatim>\<open>portal.h\<close>, \<^verbatim>\<open>execution/execution_manager.cpp\<close>, and from \<^verbatim>\<open>rmdb.cpp\<close> what the server does for one request and when it
  starts. The syntax tree of a request is an argument, since the parser is generated code. \<open>n\<close> bounds the steps of
  the loops; \<open>t\<close> is the transaction of the context.
\<close>

section \<open>Helpers of the executors\<close>

definition with_index_fd :: "string \<Rightarrow> IndexMeta \<Rightarrow> (Sys, int) em" where
  "with_index_fd tab_name index = on_index (index_file tab_name index) (\<lambda>ih. (Inr (ih_fd ih), ih))"

definition lock_exclusive_gap_for_record :: "txn_id_t \<Rightarrow> string \<Rightarrow> TabMeta \<Rightarrow> byte list \<Rightarrow> (Sys, unit) em" where
  "lock_exclusive_gap_for_record t tab_name tab rec = with_txn t (\<lambda>txn.
     if \<not> txn_mode txn then em_return ()
     else em_for (tm_indexes tab) (\<lambda>index.
            em_bind (with_index_fd tab_name index) (\<lambda>fd.
            em_bind (sys_res (build_index_key index rec)) (\<lambda>key.
              em_then (on_txn t (lock_exclusive_on_gap_point fd (index_col_meta index) key (nat (col_tot_len index))))
                (em_return ())))))"

definition ensure_begin_logged :: "txn_id_t \<Rightarrow> (Sys, unit) em" where
  "ensure_begin_logged t = with_txn t (\<lambda>txn.
     if txn_prev_lsn txn \<noteq> INVALID_LSN then em_return () else txn_log t (new_BeginLogRecord t))"

definition persist_wal :: "(Sys, unit) em" where
  "persist_wal = on_log flush_log_to_disk"

definition record_of :: "byte list \<Rightarrow> RmRecord" where
  "record_of d = \<lparr>rec_data = d, rec_size = int (length d)\<rparr>"

definition append_write :: "txn_id_t \<Rightarrow> WriteRecord \<Rightarrow> (Sys, unit) em" where
  "append_write t w = upd_txn t (append_write_record w)"

definition log_index_insert :: "txn_id_t \<Rightarrow> string \<Rightarrow> IndexMeta \<Rightarrow> byte list \<Rightarrow> Rid \<Rightarrow> (Sys, unit) em" where
  "log_index_insert t tab_name index key rid =
     txn_log t (new_IndexInsertLogRecord t key rid (index_file tab_name index) (col_tot_len index))"

definition log_index_delete :: "txn_id_t \<Rightarrow> string \<Rightarrow> IndexMeta \<Rightarrow> byte list \<Rightarrow> Rid \<Rightarrow> (Sys, unit) em" where
  "log_index_delete t tab_name index key rid =
     txn_log t (new_IndexDeleteLogRecord t key rid (index_file tab_name index) (col_tot_len index))"

section \<open>Insert\<close>

record InsertEx =
  ie_tab :: TabMeta
  ie_values :: "Value list"
  ie_tab_name :: string

definition new_InsertEx :: "string \<Rightarrow> Value list \<Rightarrow> (Sys, InsertEx) em" where
  "new_InsertEx tab_name values s =
     em_bind (sys_res (get_table tab_name (sys_db s))) (\<lambda>tab.
       if length values \<noteq> length (tm_cols tab) then em_throw (RMDBError InvalidValueCountError)
       else em_then (table_fd tab_name) (em_return \<lparr>ie_tab = tab, ie_values = values, ie_tab_name = tab_name\<rparr>)) s"

fun fill_record :: "ColMeta list \<Rightarrow> Value list \<Rightarrow> byte list \<Rightarrow> byte list res" where
  "fill_record (col # cols) (val # vals) rec =
     (if cm_type col \<noteq> val_type val
      then Inl (RMDBError (IncompatibleTypeError (coltype2str (cm_type col)) (coltype2str (val_type val))))
      else rbind (init_raw (cm_len col) val) (\<lambda>v.
           rbind (raw_data v) (\<lambda>d.
           rbind (read_at 0 (cm_len col) d) (\<lambda>b.
           rbind (if cm_offset col < 0 then Inl UndefinedBehaviour else memcpy_to (nat (cm_offset col)) b rec) (fill_record cols vals)))))"
| "fill_record _ _ rec = Inr rec"

text \<open>The keys of the new record; one that is already there is an error.\<close>

fun check_new_keys :: "nat \<Rightarrow> string \<Rightarrow> byte list \<Rightarrow> IndexMeta list \<Rightarrow> (Sys, byte list list) em" where
  "check_new_keys n tab_name rec [] = em_return []"
| "check_new_keys n tab_name rec (index # is) =
     em_then (on_index (index_file tab_name index) (em_return ()))
       (em_bind (sys_res (build_index_key index rec)) (\<lambda>key.
        em_bind (on_index (index_file tab_name index) (get_value n key [])) (\<lambda>(found, result).
          if found then em_throw (RMDBError (IndexExistsError tab_name (index_names index)))
          else em_bind (check_new_keys n tab_name rec is) (\<lambda>keys. em_return (key # keys)))))"

definition table_record_size :: "string \<Rightarrow> (Sys, int) em" where
  "table_record_size name = on_table name (\<lambda>r. (Inr (record_size (rs_hdr r)), r))"

definition insert_Next :: "nat \<Rightarrow> txn_id_t \<Rightarrow> InsertEx \<Rightarrow> (Sys, unit) em" where
  "insert_Next n t ie =
     (let tab = ie_tab ie; tab_name = ie_tab_name ie
      in em_bind (table_record_size tab_name) (\<lambda>size.
         em_bind (\<lambda>s. (fill_record (tm_cols tab) (ie_values ie) (new_record size s), s)) (\<lambda>rec.
         em_bind (check_new_keys n tab_name rec (tm_indexes tab)) (\<lambda>keys.
         em_then (lock_exclusive_gap_for_record t tab_name tab rec)
        (em_then (ensure_begin_logged t)
        (em_bind (sys_insert_record (Some t) tab_name rec) (\<lambda>rid.
         em_then (txn_log t (new_InsertLogRecord t (record_of rec) rid tab_name))
        (em_then (em_for (zip (tm_indexes tab) keys) (\<lambda>(index, key).
                    em_then (on_index (index_file tab_name index) (em_return ()))
                      (em_then (log_index_insert t tab_name index key rid) (ix_insert_key n tab_name index key rid))))
        (em_then (append_write t (new_WriteRecord INSERT_TUPLE tab_name rid)) persist_wal)))))))))"

section \<open>Delete\<close>

record DeleteEx =
  de_tab :: TabMeta
  de_tab_name :: string
  de_rids :: "Rid list"

definition new_DeleteEx :: "string \<Rightarrow> Rid list \<Rightarrow> (Sys, DeleteEx) em" where
  "new_DeleteEx tab_name rids s =
     em_bind (sys_res (get_table tab_name (sys_db s))) (\<lambda>tab.
       em_then (table_fd tab_name) (em_return \<lparr>de_tab = tab, de_tab_name = tab_name, de_rids = rids\<rparr>)) s"

definition delete_index_entry :: "nat \<Rightarrow> txn_id_t \<Rightarrow> string \<Rightarrow> byte list \<Rightarrow> Rid \<Rightarrow> IndexMeta \<Rightarrow> (Sys, unit) em" where
  "delete_index_entry n t tab_name rec rid index =
     em_then (on_index (index_file tab_name index) (em_return ()))
       (em_bind (sys_res (build_index_key index rec)) (\<lambda>key.
          em_then (log_index_delete t tab_name index key rid) (ix_delete_key n tab_name index key)))"

definition insert_index_entry :: "nat \<Rightarrow> txn_id_t \<Rightarrow> string \<Rightarrow> byte list \<Rightarrow> Rid \<Rightarrow> IndexMeta \<Rightarrow> (Sys, unit) em" where
  "insert_index_entry n t tab_name rec rid index =
     em_then (on_index (index_file tab_name index) (em_return ()))
       (em_bind (sys_res (build_index_key index rec)) (\<lambda>key.
          em_then (log_index_insert t tab_name index key rid) (ix_insert_key n tab_name index key rid)))"

definition delete_one :: "nat \<Rightarrow> txn_id_t \<Rightarrow> DeleteEx \<Rightarrow> Rid \<Rightarrow> (Sys, unit) em" where
  "delete_one n t de rid =
     (let tab = de_tab de; tab_name = de_tab_name de
      in em_bind (sys_get_record (Some t) tab_name rid) (\<lambda>rec.
         em_then (lock_exclusive_gap_for_record t tab_name tab rec)
        (em_then (ensure_begin_logged t)
        (em_then (txn_log t (new_DeleteLogRecord t (record_of rec) rid tab_name))
        (em_then (sys_delete_record (Some t) tab_name rid)
        (em_then (em_for (tm_indexes tab) (delete_index_entry n t tab_name rec rid))
          (append_write t (new_WriteRecord_rec DELETE_TUPLE tab_name rid (record_of rec)))))))))"

definition delete_Next :: "nat \<Rightarrow> txn_id_t \<Rightarrow> DeleteEx \<Rightarrow> (Sys, unit) em" where
  "delete_Next n t de = em_then (em_for (de_rids de) (delete_one n t de)) persist_wal"

section \<open>Update\<close>

record UpdateEx =
  ue_tab :: TabMeta
  ue_tab_name :: string
  ue_set_clauses :: "SetClause list"
  ue_rids :: "Rid list"

definition new_UpdateEx :: "string \<Rightarrow> SetClause list \<Rightarrow> Rid list \<Rightarrow> (Sys, UpdateEx) em" where
  "new_UpdateEx tab_name sets rids s =
     em_bind (sys_res (get_table tab_name (sys_db s))) (\<lambda>tab.
       em_then (table_fd tab_name)
         (em_return \<lparr>ue_tab = tab, ue_tab_name = tab_name, ue_set_clauses = sets, ue_rids = rids\<rparr>)) s"

fun apply_sets :: "TabMeta \<Rightarrow> SetClause list \<Rightarrow> byte list \<Rightarrow> byte list res" where
  "apply_sets tab [] rec = Inr rec"
| "apply_sets tab (c # cs) rec =
     rbind (get_col (tc_col_name (set_lhs c)) tab) (\<lambda>col.
     rbind (raw_data (set_rhs c)) (\<lambda>d.
     rbind (read_at 0 (cm_len col) d) (\<lambda>b.
     rbind (if cm_offset col < 0 then Inl UndefinedBehaviour else memcpy_to (nat (cm_offset col)) b rec) (apply_sets tab cs))))"

text \<open>The first loop: the old and the new records.\<close>

fun new_versions :: "txn_id_t \<Rightarrow> UpdateEx \<Rightarrow> Rid list \<Rightarrow> (Sys, (Rid \<times> byte list \<times> byte list) list) em" where
  "new_versions t ue [] = em_return []"
| "new_versions t ue (rid # rids) =
     em_bind (sys_get_record (Some t) (ue_tab_name ue) rid) (\<lambda>old_rec.
     em_bind (sys_res (apply_sets (ue_tab ue) (ue_set_clauses ue) old_rec)) (\<lambda>new_rec.
     em_bind (new_versions t ue rids) (\<lambda>vs. em_return ((rid, old_rec, new_rec) # vs))))"

text \<open>The second loop: every new key must be absent or belong to the same record.\<close>

definition check_update_key :: "nat \<Rightarrow> string \<Rightarrow> Rid \<Rightarrow> byte list \<Rightarrow> IndexMeta \<Rightarrow> (Sys, unit) em" where
  "check_update_key n tab_name rid new_rec index =
     em_bind (sys_res (build_index_key index new_rec)) (\<lambda>new_key.
     em_bind (on_index (index_file tab_name index) (get_value n new_key [])) (\<lambda>(found, result).
       if found \<and> \<not> list_ex (rid_eq rid) result
       then em_throw (RMDBError (IndexExistsError tab_name (index_names index))) else em_return ()))"

definition update_one :: "nat \<Rightarrow> txn_id_t \<Rightarrow> UpdateEx \<Rightarrow> Rid \<times> byte list \<times> byte list \<Rightarrow> (Sys, unit) em" where
  "update_one n t ue = (\<lambda>(rid, old_rec, new_rec).
     let tab = ue_tab ue; tab_name = ue_tab_name ue
     in em_then (lock_exclusive_gap_for_record t tab_name tab old_rec)
       (em_then (lock_exclusive_gap_for_record t tab_name tab new_rec)
       (em_then (em_for (tm_indexes tab) (delete_index_entry n t tab_name old_rec rid))
       (em_then (em_for (tm_indexes tab) (insert_index_entry n t tab_name new_rec rid))
       (em_then (txn_log t (new_UpdateLogRecord t (record_of old_rec) rid tab_name (record_of new_rec)))
       (em_then (append_write t (new_WriteRecord_rec UPDATE_TUPLE tab_name rid (record_of old_rec)))
         (sys_update_record (Some t) tab_name rid new_rec)))))))"

definition update_Next :: "nat \<Rightarrow> txn_id_t \<Rightarrow> UpdateEx \<Rightarrow> (Sys, unit) em" where
  "update_Next n t ue =
     em_then (ensure_begin_logged t)
       (em_bind (new_versions t ue (ue_rids ue)) (\<lambda>vs.
        em_then (em_for vs (\<lambda>(rid, old_rec, new_rec).
                   em_for (tm_indexes (ue_tab ue)) (check_update_key n (ue_tab_name ue) rid new_rec)))
       (em_then (em_for vs (update_one n t ue)) persist_wal)))"

section \<open>Portal\<close>

fun convert_plan_executor :: "Plan \<Rightarrow> (Sys, Exec) em" where
  "convert_plan_executor (ProjectionPlan tag sub sel_cols) =
     em_bind (convert_plan_executor sub) (\<lambda>x.
     em_bind (sys_res (new_Projection (ex_cols x) sel_cols)) (\<lambda>p. em_return (ProjectionEx p x)))"
| "convert_plan_executor (AggPlan tag sub items names) =
     em_bind (convert_plan_executor sub) (\<lambda>x. em_return (AggEx (new_AggSt items) x))"
| "convert_plan_executor (ScanPlan sc) =
     (if scan_tag sc = T_SeqScan
      then em_bind (new_SeqScan (scan_tab sc) (scan_conds sc)) (\<lambda>q. em_return (SeqScanEx q))
      else em_bind (new_IndexScan (scan_tab sc) (scan_conds sc) (index_col_names sc)) (\<lambda>q. em_return (IndexScanEx q)))"
| "convert_plan_executor (JoinPlan tag l r conds ty) =
     em_bind (convert_plan_executor l) (\<lambda>x.
     em_bind (convert_plan_executor r) (\<lambda>y.
     em_bind (sys_res (new_JoinSt x y conds)) (\<lambda>j. em_return (JoinEx j x y))))"
| "convert_plan_executor (SortPlan tag sub sort_cols is_desc lim) =
     em_bind (convert_plan_executor sub) (\<lambda>x.
     em_bind (sys_res (new_SortSt (ex_cols x) (tupleLen x) sort_cols is_desc lim)) (\<lambda>so. em_return (SortEx so x)))"
| "convert_plan_executor _ = em_throw UndefinedBehaviour"

datatype DmlEx = InsertDml InsertEx | DeleteDml DeleteEx | UpdateDml UpdateEx

datatype PortalStmt =
    PORTAL_ONE_SELECT "string list" Exec
  | PORTAL_DML_WITHOUT_SELECT DmlEx
  | PORTAL_MULTI_QUERY Plan
  | PORTAL_CMD_UTILITY Plan

primrec collect_rids :: "nat \<Rightarrow> txn_id_t option \<Rightarrow> Exec \<Rightarrow> Rid list \<Rightarrow> (Sys, Rid list) em" where
  "collect_rids 0 ctx x rids = em_throw OutOfFuel"
| "collect_rids (Suc n) ctx x rids =
     (if ex_is_end x then em_return rids
      else em_bind (sys_res (ex_rid x)) (\<lambda>rid. em_bind (ex_next n ctx x) (\<lambda>x'. collect_rids n ctx x' (rids @ [rid]))))"

definition scan_rids :: "nat \<Rightarrow> txn_id_t \<Rightarrow> Plan \<Rightarrow> (Sys, Rid list) em" where
  "scan_rids n t sub =
     em_bind (convert_plan_executor sub) (\<lambda>x. em_bind (ex_begin n (Some t) x) (\<lambda>x'. collect_rids n (Some t) x' []))"

fun portal_start :: "nat \<Rightarrow> txn_id_t \<Rightarrow> Plan \<Rightarrow> (Sys, PortalStmt) em" where
  "portal_start n t (OtherPlan tag name) = em_return (PORTAL_CMD_UTILITY (OtherPlan tag name))"
| "portal_start n t (DDLPlan tag name cols defs) = em_return (PORTAL_MULTI_QUERY (DDLPlan tag name cols defs))"
| "portal_start n t (DMLPlan tag sub tab_name values conds sets) =
     (case tag of
        T_select \<Rightarrow>
          (case sub of
             AggPlan atag asub items names \<Rightarrow>
               em_bind (convert_plan_executor sub) (\<lambda>x. em_return (PORTAL_ONE_SELECT names x))
           | ProjectionPlan ptag psub sel_cols \<Rightarrow>
               em_bind (convert_plan_executor sub) (\<lambda>x. em_return (PORTAL_ONE_SELECT (map tc_col_name sel_cols) x))
           | _ \<Rightarrow> em_throw UndefinedBehaviour)
      | T_Update \<Rightarrow>
          em_bind (scan_rids n t sub) (\<lambda>rids.
          em_bind (new_UpdateEx tab_name sets rids) (\<lambda>x. em_return (PORTAL_DML_WITHOUT_SELECT (UpdateDml x))))
      | T_Delete \<Rightarrow>
          em_bind (scan_rids n t sub) (\<lambda>rids.
          em_bind (new_DeleteEx tab_name rids) (\<lambda>x. em_return (PORTAL_DML_WITHOUT_SELECT (DeleteDml x))))
      | T_Insert \<Rightarrow>
          em_bind (new_InsertEx tab_name values) (\<lambda>x. em_return (PORTAL_DML_WITHOUT_SELECT (InsertDml x)))
      | _ \<Rightarrow> em_throw (RMDBError (InternalError ''Unexpected field type'')))"
| "portal_start n t _ = em_throw (RMDBError (InternalError ''Unexpected field type''))"

section \<open>Query execution\<close>

text \<open>The loop of \<^verbatim>\<open>select_from\<close> over the tuples; the result is the number of rows.\<close>

primrec select_rows :: "nat \<Rightarrow> txn_id_t option \<Rightarrow> nat \<Rightarrow> Exec \<Rightarrow> nat \<Rightarrow> (Sys, nat) em" where
  "select_rows 0 ctx k x num_rec = em_throw OutOfFuel"
| "select_rows (Suc n) ctx k x num_rec =
     (if ex_is_end x then em_return num_rec
      else em_bind (ex_tuple ctx x) (\<lambda>(rec, x1).
           em_bind (sys_res (row_text (ex_cols x1) rec)) (\<lambda>columns.
           em_then (on_send (print_rec k columns))
          (em_then (out_append (out_line columns))
          (em_bind (ex_next n ctx x1) (\<lambda>x2. select_rows n ctx k x2 (Suc num_rec)))))))"

definition select_from :: "nat \<Rightarrow> txn_id_t option \<Rightarrow> Exec \<Rightarrow> string list \<Rightarrow> (Sys, unit) em" where
  "select_from n ctx x captions =
     (let k = length captions
      in if k = 0 then em_throw AssertFailure
         else em_then (on_send (print_separator k))
             (em_then (on_send (print_rec k captions))
             (em_then (on_send (print_separator k))
             (em_then (out_append (out_line captions))
             (em_bind (ex_begin n ctx x) (\<lambda>x1.
              em_bind (select_rows n ctx k x1 0) (\<lambda>num_rec.
              em_then (on_send (print_separator k)) (on_send (print_record_count num_rec)))))))))"

definition run_dml :: "nat \<Rightarrow> txn_id_t \<Rightarrow> DmlEx \<Rightarrow> (Sys, unit) em" where
  "run_dml n t x =
     (case x of InsertDml ie \<Rightarrow> insert_Next n t ie | DeleteDml de \<Rightarrow> delete_Next n t de | UpdateDml ue \<Rightarrow> update_Next n t ue)"

fun run_mutli_query :: "nat \<Rightarrow> txn_id_t \<Rightarrow> Plan \<Rightarrow> (Sys, unit) em" where
  "run_mutli_query n t (DDLPlan tag tab_name col_names col_defs) =
     (case tag of
        T_CreateTable \<Rightarrow> create_table tab_name col_defs
      | T_DropTable \<Rightarrow> drop_table tab_name
      | T_CreateIndex \<Rightarrow> sm_create_index n (Some t) tab_name col_names
      | T_DropIndex \<Rightarrow> drop_index tab_name col_names
      | _ \<Rightarrow> em_throw (RMDBError (InternalError ''Unexpected field type'')))"
| "run_mutli_query n t _ = em_return ()"

definition help_info :: string where
  "help_info = concat (map (\<lambda>l. l @ NL)
    [''Supported SQL syntax:'',
     ''  command ;'',
     ''command:'',
     ''  CREATE TABLE table_name (column_name type [, column_name type ...])'',
     ''  DROP TABLE table_name'',
     ''  CREATE INDEX table_name (column_name)'',
     ''  DROP INDEX table_name (column_name)'',
     ''  SHOW INDEX FROM table_name'',
     ''  INSERT INTO table_name VALUES (value [, value ...])'',
     ''  DELETE FROM table_name [WHERE where_clause]'',
     ''  UPDATE table_name SET column_name = value [, column_name = value ...] [WHERE where_clause]'',
     ''  SELECT selector FROM table_name [WHERE where_clause]'',
     ''type:'',
     ''  {INT | BIGINT | FLOAT | CHAR(n) | DATETIME}'',
     ''where_clause:'',
     ''  condition [AND condition ...]'',
     ''condition:'',
     ''  column op {column | value}'',
     ''column:'',
     ''  [table_name.]column_name'',
     ''op:'',
     ''  {= | <> | < | > | <= | >=}'',
     ''selector:'',
     ''  {* | column [, column ...]}''])"

text \<open>The offset is set, not advanced.\<close>

definition show_help :: "(SendBuf, unit) em" where
  "show_help = em_then (send_put help_info) (em_modify (\<lambda>b. b\<lparr>send_offset := int (length help_info)\<rparr>))"

definition with_client_txn :: "txn_id_t \<Rightarrow> (txn_id_t \<Rightarrow> (Sys, unit) em) \<Rightarrow> (Sys, unit) em" where
  "with_client_txn tid f = em_bind (get_transaction tid) (\<lambda>t. case t of None \<Rightarrow> em_return () | Some t \<Rightarrow> f t)"

fun run_cmd_utility :: "nat \<Rightarrow> txn_id_t \<Rightarrow> txn_id_t \<Rightarrow> Plan \<Rightarrow> (Sys, unit) em" where
  "run_cmd_utility n t tid (OtherPlan tag tab_name) =
     (case tag of
        T_Help \<Rightarrow> on_send show_help
      | T_ShowTable \<Rightarrow> show_tables
      | T_ShowIndex \<Rightarrow> show_index tab_name
      | T_DescTable \<Rightarrow> desc_table tab_name
      | T_Transaction_begin \<Rightarrow>
          em_then (ensure_txn_logged t) (upd_txn t (\<lambda>txn. set_state GROWING (set_txn_mode True txn)))
      | T_Transaction_commit \<Rightarrow> with_client_txn tid txn_commit
      | T_Transaction_rollback \<Rightarrow> with_client_txn tid (txn_abort n)
      | T_Transaction_abort \<Rightarrow> with_client_txn tid (txn_abort n)
      | _ \<Rightarrow> em_throw (RMDBError (InternalError ''Unexpected field type'')))"
| "run_cmd_utility n t tid _ = em_return ()"

definition portal_run :: "nat \<Rightarrow> txn_id_t \<Rightarrow> txn_id_t \<Rightarrow> PortalStmt \<Rightarrow> (Sys, unit) em" where
  "portal_run n t tid p =
     (case p of
        PORTAL_ONE_SELECT captions x \<Rightarrow> select_from n (Some t) x captions
      | PORTAL_DML_WITHOUT_SELECT x \<Rightarrow> run_dml n t x
      | PORTAL_MULTI_QUERY plan \<Rightarrow> run_mutli_query n t plan
      | PORTAL_CMD_UTILITY plan \<Rightarrow> run_cmd_utility n t tid plan)"

section \<open>The server\<close>

text \<open>The transaction a request runs in: the client's one while it is open, else a new implicit one.\<close>

definition SetTransaction :: "txn_id_t \<Rightarrow> (Sys, txn_id_t) em" where
  "SetTransaction tid =
     em_bind (get_transaction tid) (\<lambda>cur_txn s.
       case cur_txn of
         None \<Rightarrow> em_bind (txn_begin None) (\<lambda>t. em_then (upd_txn t (set_txn_mode False)) (em_return t)) s
       | Some t \<Rightarrow>
           with_txn t (\<lambda>txn.
             if state txn = COMMITTED \<or> state txn = ABORTED
             then em_bind (txn_begin None) (\<lambda>t'. em_then (upd_txn t' (set_txn_mode False)) (em_return t'))
             else em_return t) s)"

text \<open>\<^verbatim>\<open>memset(data_send, 0, BUFFER_LENGTH); offset = 0\<close> and a new context; an answer that replaces the output.\<close>

definition clear_send :: "(Sys, unit) em" where
  "clear_send = em_modify (\<lambda>s. s\<lparr>sys_send := \<lparr>data_send = replicate BUFFER_LENGTH 0, send_offset = 0, ellipsis = False\<rparr>\<rparr>)"

definition reply :: "string \<Rightarrow> (Sys, unit) em" where
  "reply str = on_send (\<lambda>b.
     case memcpy_to 0 (str_bytes str @ [0]) (data_send b) of
       Inl e \<Rightarrow> (Inl e, b)
     | Inr d \<Rightarrow> (Inr (), b\<lparr>data_send := d, send_offset := int (length str)\<rparr>))"

definition table_hdrs :: "Sys \<Rightarrow> string \<Rightarrow> RmFileHdr option" where
  "table_hdrs s name = map_option snd (map_of (sys_fhs s) name)"

definition run_statement :: "nat \<Rightarrow> txn_id_t \<Rightarrow> TreeNode \<Rightarrow> (Sys, unit) em" where
  "run_statement n t tree s =
     em_bind (sys_res (do_analyze (sys_db s) tree)) (\<lambda>query.
     em_bind (sys_res (plan_query (sys_db s) (table_hdrs s) query)) (\<lambda>plan.
     em_bind (portal_start n t plan) (portal_run n t t))) s"

text \<open>One request: the tree is \<open>None\<close> when the text does not parse. The result is the transaction the client keeps.
  An exception thrown while rolling back is not caught.\<close>

definition handle_request :: "nat \<Rightarrow> txn_id_t \<Rightarrow> TreeNode option \<Rightarrow> (Sys, txn_id_t) em" where
  "handle_request n tid tree =
     em_then clear_send
    (em_bind (SetTransaction tid) (\<lambda>t.
     em_bind
       (\<lambda>s. case tree of
          None \<Rightarrow> (Inr True, s)
        | Some tr \<Rightarrow>
            (case run_statement n t tr s of
               (Inr _, s1) \<Rightarrow> (Inr True, s1)
             | (Inl (TransactionAbortException i r), s1) \<Rightarrow>
                 em_then (reply (''abort'' @ NL)) (em_then (txn_abort n t)
                   (em_then (out_append (''abort'' @ NL)) (em_return False))) s1
             | (Inl (RMDBError e), s1) \<Rightarrow>
                 em_then (reply (what e @ NL)) (em_then (out_append (''failure'' @ NL))
                   (em_then (txn_abort n t) (em_return False))) s1
             | (Inl e, s1) \<Rightarrow> (Inl e, s1))) (\<lambda>txn_ok.
     em_then (with_txn t (\<lambda>txn. if txn_ok \<and> \<not> txn_mode txn then txn_commit t else em_return ()))
       (em_return t))))"

definition crash_request :: "(Sys, unit) em" where
  "crash_request = em_then (on_log flush_log_to_disk) (on_bpm flush_all_dirty_pages)"

text \<open>Starting the server on a database.\<close>

definition recover :: "nat \<Rightarrow> (Sys, unit) em" where
  "recover n s =
     (case em_then (rec_analyze n) (em_then (rec_redo n) (rec_undo n)) (s, new_RecMgr) of
        (Inl e, s', g) \<Rightarrow> (Inl e, s')
      | (Inr _, s', g) \<Rightarrow>
          em_then (em_modify (\<lambda>s. s\<lparr>sys_log := set_next_lsn (rec_next_lsn g) (sys_log s), sys_next_txn := rec_next_txn_id g\<rparr>))
            (on_bpm flush_all_dirty_pages) s')"

definition server_start :: "nat \<Rightarrow> string \<Rightarrow> (Sys, unit) em" where
  "server_start n name s =
     em_then (if \<not> sm_is_dir name s then create_db name else em_return ())
       (em_then (open_db name) (recover n)) s"

end
