(* ===== verification/ReadPath.thy ===== *)
theory ReadPath
  imports Portal "HOL-Library.Multiset"
begin

text \<open>
  Reading while other pages are pinned. A table scan keeps the page of its position pinned between calls, so
  the scans of a query hold several pages at once. \<open>rd_at X M b\<close> describes a pool in which the scans hold the
  pages of the multiset \<open>M\<close> and other pins are on pages of \<open>X\<close>; fetching, scanning and reading records lead from one such pool to
  another one that shows the same pages. The lemmas give the steps of \<^verbatim>\<open>RmScan\<close> as a walk along the list of the
  table's record ids.
\<close>

section \<open>Pools during reading\<close>

text \<open>A pinned clean page stays clean on disk while other pages are fetched.\<close>

lemma fetch_disk_pinned:
  assumes i: "bp_inv b" and f: "fetch_page pid b = (r, b')" and t: "map_of (bp_table b) q = Some g" and p: "0 < pg_pin (bp_frame b g)"
    and d: "disk_page (bp_disk b) (pid_fd q) (pid_page_no q) = Some x"
  shows "disk_page (bp_disk b') (pid_fd q) (pid_page_no q) = Some x"
proof (cases "map_of (bp_table b) pid")
  case (Some g')
  then show ?thesis using f d by (auto simp: fetch_page_def)
next
  case None
  note s = bp_inv_struct[OF i]
  obtain v b1 where v: "find_victim_page b = (v, b1)" by fastforce
  show ?thesis
  proof (cases v)
    case vn: None
    then have "b' = b1" "bp_disk b1 = bp_disk b" using f v None by (auto simp: fetch_page_def find_victim_page_def split: list.splits prod.splits)
    then show ?thesis using d by simp
  next
    case (Some f0)
    define prep where "prep = (if pg_dirty (bp_frame b1 f0) then update_page f0 pid b1 else em_return () b1)"
    obtain r2 b2 where p2: "prep = (r2, b2)" by fastforce
    have "disk_page (bp_disk b2) (pid_fd q) (pid_page_no q) = Some x"
      using s v[unfolded Some]
    proof (cases rule: find_victim_Some)
      case (free fs)
      then have "\<not> pg_dirty (bp_frame b f0)" by (intro taken_free(1)[OF i])
      then show ?thesis using free p2 d by (auto simp: prep_def em_return_def)
    next
      case (evict r0 old)
      note fl = bp_struct_table[OF s evict(6)]
      have ne: "old \<noteq> q" using evict(6,7) t p by auto
      show ?thesis
      proof (cases "pg_dirty (bp_frame b f0)")
        case False
        then show ?thesis using evict(2) p2 d by (auto simp: prep_def em_return_def)
      next
        case True
        obtain d' where w: "bp_write_page old (pg_data (bp_frame b f0)) b1 = (Inr (), b1\<lparr>bp_disk := d'\<rparr>)"
          and g: "disk_grow old (bp_disk b) d'"
          using bp_write_page_ok[of b1 old "pg_data (bp_frame b f0)"] evict(2) fl bp_inv_disk[OF i] bp_inv_ok[OF i evict(6)]
          by auto
        have "bp_disk b2 = d'"
          using p2 True w fl evict(2) by (auto simp: prep_def update_page_def em_defs Let_def set_page_def)
        then show ?thesis using g d ne pid_eq_iff[of old q] by (auto simp: disk_grow_def)
      qed
    qed
    moreover have "disk_page (bp_disk b') (pid_fd q) (pid_page_no q) = disk_page (bp_disk b2) (pid_fd q) (pid_page_no q)"
    proof (cases r2)
      case (Inl e)
      then show ?thesis using f None v Some p2 by (auto simp: fetch_page_def em_defs prep_def[symmetric])
    next
      case (Inr u)
      obtain r3 buf d3 where rd: "read_page (pid_fd pid) (pid_page_no pid) (pg_data (bp_frame (erase_frame_id f0 b2) f0)) PAGE_SIZE (bp_disk (erase_frame_id f0 b2)) = (r3, buf, d3)"
        using prod_cases3 by blast
      have "bp_disk b' = d3" "bp_disk (erase_frame_id f0 b2) = bp_disk b2"
        using f None v Some p2 Inr rd
        by (auto simp: fetch_page_def em_defs prep_def[symmetric] Let_def erase_frame_id_def page_write_def set_page_def attach_frame_def
            split: sum.splits)
      then show ?thesis using same_store_page[OF read_page_same_store[OF rd]] by simp
    qed
    ultimately show ?thesis by simp
  qed
qed

definition rd_ok :: "BufferPoolManager \<Rightarrow> bool" where
  "rd_ok b \<longleftrightarrow> bp_inv b \<and> (\<forall>pid f. map_of (bp_table b) pid = Some f \<longrightarrow> frame_clean_ok b pid f)"

definition pinned :: "BufferPoolManager \<Rightarrow> PageId set" where
  "pinned b = {q. 0 < pins b q}"

text \<open>\<open>b'\<close> shows what \<open>b\<close> shows and brings no header page into the pool.\<close>

definition rd_le :: "BufferPoolManager \<Rightarrow> BufferPoolManager \<Rightarrow> bool" where
  "rd_le b b' \<longleftrightarrow> view_le b b' \<and> disk_le (bp_disk b) (bp_disk b') \<and>
     (\<forall>fd. map_of (bp_table b) (hdr_pid fd) = None \<longrightarrow> map_of (bp_table b') (hdr_pid fd) = None)"

lemma rd_le_refl [simp]: "rd_le b b"
  by (simp add: rd_le_def)

lemma rd_le_trans: "rd_le b b' \<Longrightarrow> rd_le b' b'' \<Longrightarrow> rd_le b b''"
  unfolding rd_le_def using view_le_trans disk_le_trans by blast

lemma pinned_finite: "finite (pinned b)"
proof -
  have "pinned b \<subseteq> dom (map_of (bp_table b))" by (auto simp: pinned_def pins_def split: option.splits)
  then show ?thesis by (rule finite_subset) (simp add: finite_dom_map_of)
qed

lemma pins_nonneg: "bp_inv b \<Longrightarrow> 0 \<le> pins b q"
  using bp_struct_table(3)[OF bp_inv_struct] by (auto simp: pins_def split: option.split)

lemma fetch_rd:
  assumes r: "rd_ok b" and ok: "page_ok (bp_disk b) pid" and d: "page_view b pid = Some x" and nh: "pid_page_no pid \<noteq> RM_FILE_HDR_PAGE"
    and room: "bp_roomy b \<or> 0 < pins b pid"
  obtains f b' where "fetch_page pid b = (Inr (Some f), b')" "rd_ok b'" "rd_le b b'" "pg_data (bp_frame b' f) = x"
    "pins b' = (pins b)(pid := pins b pid + 1)" "bp_avail b + card (pinned b) \<le> bp_avail b' + card (pinned b')"
proof -
  have i: "bp_inv b" using r by (simp add: rd_ok_def)
  from i ok show ?thesis
  proof (cases rule: fetch_page_cases)
    case (page f b')
    have k: "bp_inv b'" "view_le b b'" "disk_le (bp_disk b) (bp_disk b')" "stable b b'" using page(2) by (simp_all add: keeps_def)
    have "frame_clean_ok b' q g" if q: "map_of (bp_table b') q = Some g" for q g
    proof (cases "0 < pins b q")
      case True
      then obtain g0 where g0: "map_of (bp_table b) q = Some g0" "0 < pg_pin (bp_frame b g0)"
        by (auto simp: pins_def split: option.splits)
      then have st: "g0 = g" "pg_data (bp_frame b' g) = pg_data (bp_frame b g)" "pg_dirty (bp_frame b' g) = pg_dirty (bp_frame b g)"
        using k(4) q by (force simp: stable_def)+
      have "frame_clean_ok b q g" using r g0 st(1) by (simp add: rd_ok_def)
      then show ?thesis using fetch_disk_pinned[OF i page(1) g0] st by (auto simp: frame_clean_ok_def)
    next
      case False
      then have p0: "pins b q = 0" using pins_nonneg[OF i, of q] by simp
      show ?thesis
      proof (cases "q = pid")
        case True
        then show ?thesis using page(3,6) q False by auto
      next
        case ne: False
        then have "pg_pin (bp_frame b' g) = 0" using page(4) p0 q by (auto simp: pins_def fun_eq_iff split: option.splits dest!: spec[of _ q])
        then show ?thesis using bp_inv_clean[OF k(1) q] by simp
      qed
    qed
    then have "rd_ok b'" using k(1) by (simp add: rd_ok_def)
    moreover have "hdr_pid fd \<noteq> pid" for fd using nh by (auto simp: hdr_pid_def)
    then have "rd_le b b'" using k page(8) by (simp add: rd_le_def)
    moreover have "pg_data (bp_frame b' f) = x" using view_le_Some[OF k(2) d] page(3) by (simp add: page_view_def)
    moreover have "bp_avail b + card (pinned b) \<le> bp_avail b' + card (pinned b')"
    proof (cases "0 < pins b pid")
      case True
      then have "pinned b' = pinned b" using page(4) by (auto simp: pinned_def)
      then show ?thesis using fetch_avail(2)[OF i page(1) True] by simp
    next
      case False
      then have "pinned b' = insert pid (pinned b)" "pid \<notin> pinned b"
        using page(4) pins_nonneg[OF i, of pid] by (auto simp: pinned_def)
      then show ?thesis using fetch_avail(1)[OF i page(1)] pinned_finite[of b] by simp
    qed
    ultimately show ?thesis using that page(1,4) by blast
  next
    case full
    then show ?thesis using room by (auto simp: bp_roomy_def pins_def)
  next
    case (bad b')
    then show ?thesis using d by simp
  qed
qed

lemma unpin_rd:
  assumes r: "rd_ok b" and p: "0 < pins b pid"
  obtains b' where "unpin_page pid False b = (True, b')" "rd_ok b'" "rd_le b b'" "pins b' = (pins b)(pid := pins b pid - 1)"
    "bp_avail b + card (pinned b) = bp_avail b' + card (pinned b')"
proof -
  have i: "bp_inv b" using r by (simp add: rd_ok_def)
  obtain f where t: "map_of (bp_table b) pid = Some f" "0 < pg_pin (bp_frame b f)" "pins b pid = pg_pin (bp_frame b f)"
    using p by (auto simp: pins_def split: option.splits)
  have cl: "frame_clean_ok b pid f" using r t(1) by (simp add: rd_ok_def)
  obtain b' where u: "unpin_page pid False b = (True, b')" "bp_inv b'" "page_view b' = page_view b"
    "pins b' = (pins b)(pid := pins b pid - 1)" "bp_disk b' = bp_disk b" "bp_table b' = bp_table b"
    "\<And>f'. f' \<noteq> f \<Longrightarrow> bp_frame b' f' = bp_frame b f'"
    "bp_frame b' f = (bp_frame b f)\<lparr>pg_pin := pg_pin (bp_frame b f) - 1, pg_dirty := False \<or> pg_dirty (bp_frame b f)\<rparr>"
    using unpin_pinned[OF i t(1,2), of False] cl by metis
  have "frame_clean_ok b' q g" if "map_of (bp_table b') q = Some g" for q g
  proof -
    have "frame_clean_ok b q g" using r that u(6) by (simp add: rd_ok_def)
    then show ?thesis using u(5,7,8) by (cases "g = f") (auto simp: frame_clean_ok_def)
  qed
  then have "rd_ok b'" using u(2) by (simp add: rd_ok_def)
  moreover have "rd_le b b'" using u(3,5,6) by (simp add: rd_le_def view_le_def)
  moreover have "bp_avail b + card (pinned b) = bp_avail b' + card (pinned b')"
  proof (cases "pins b pid = 1")
    case True
    then have "pinned b = insert pid (pinned b')" "pid \<notin> pinned b'" using u(4) by (auto simp: pinned_def)
    then show ?thesis using unpin_avail[OF i u(1)] True pinned_finite[of b'] by simp
  next
    case False
    then have "pinned b' = pinned b" using u(4) p by (auto simp: pinned_def)
    then show ?thesis using unpin_avail[OF i u(1)] False by simp
  qed
  ultimately show ?thesis using that u(1,4) by blast
qed

text \<open>The scans hold the pages \<open>M\<close>; only pages of \<open>X\<close> have further pins, and two more pages than \<open>X\<close> fit into the pool.\<close>

definition rd_at :: "PageId set \<Rightarrow> PageId multiset \<Rightarrow> BufferPoolManager \<Rightarrow> bool" where
  "rd_at X M b \<longleftrightarrow> rd_ok b \<and> finite X \<and> (\<forall>p. int (count M p) \<le> pins b p) \<and> (\<forall>p. p \<notin> X \<longrightarrow> pins b p = int (count M p)) \<and>
     card X + 2 \<le> bp_avail b + card (pinned b)"

lemma rd_at_room:
  assumes "rd_at X M b" and "size M \<le> 1"
  shows "bp_roomy b"
proof -
  have "p \<in># M" if "0 < pins b p" "p \<notin> X" for p using that assms(1) by (simp add: rd_at_def)
  then have "pinned b \<subseteq> X \<union> set_mset M" by (auto simp: pinned_def)
  then have "card (pinned b) \<le> card X + card (set_mset M)"
    using assms(1) card_mono[of "X \<union> set_mset M" "pinned b"] card_Un_le[of X "set_mset M"] by (auto simp: rd_at_def)
  moreover have "card (set_mset M) \<le> size M" by (induction M) (simp_all add: card_insert_if le_SucI)
  ultimately show ?thesis using assms by (simp add: rd_at_def bp_roomy_avail)
qed

text \<open>A page whose scan is dropped without being released.\<close>

lemma rd_at_leak: "rd_at X (add_mset q M) b \<Longrightarrow> q \<in> X \<Longrightarrow> rd_at X M b"
proof -
  assume a: "rd_at X (add_mset q M) b" "q \<in> X"
  then have "int (count M p) \<le> pins b p" for p by (auto simp: rd_at_def dest!: spec[of _ p] split: if_splits)
  moreover have "pins b p = int (count M p)" if "p \<notin> X" for p using a that by (auto simp: rd_at_def)
  ultimately show ?thesis using a by (simp add: rd_at_def)
qed

lemma fetch_at:
  assumes r: "rd_at P M b" and ok: "page_ok (bp_disk b) pid" and d: "page_view b pid = Some x" and nh: "pid_page_no pid \<noteq> RM_FILE_HDR_PAGE"
    and room: "size M \<le> 1 \<or> pid \<in># M"
  obtains f b' where "fetch_page pid b = (Inr (Some f), b')" "rd_at P (add_mset pid M) b'" "rd_le b b'" "pg_data (bp_frame b' f) = x"
proof -
  have "0 < pins b pid" if "pid \<in># M"
  proof -
    have "0 < count M pid" "int (count M pid) \<le> pins b pid" using that r by (simp_all add: rd_at_def)
    then show ?thesis by linarith
  qed
  then have "bp_roomy b \<or> 0 < pins b pid" using room rd_at_room[OF r] by blast
  with r ok d nh obtain f b' where f: "fetch_page pid b = (Inr (Some f), b')" "rd_ok b'" "rd_le b b'" "pg_data (bp_frame b' f) = x"
    "pins b' = (pins b)(pid := pins b pid + 1)" "bp_avail b + card (pinned b) \<le> bp_avail b' + card (pinned b')"
    using fetch_rd[of b pid x] by (auto simp: rd_at_def)
  have "rd_at P (add_mset pid M) b'" using r f(2,5,6) by (simp add: rd_at_def)
  then show ?thesis using that f by blast
qed

lemma unpin_at:
  assumes r: "rd_at P (add_mset pid M) b"
  obtains b' where "unpin_page pid False b = (True, b')" "rd_at P M b'" "rd_le b b'"
proof -
  have c: "int (count (add_mset pid M) p) \<le> pins b p" for p using r by (simp add: rd_at_def)
  have "0 < pins b pid" using c[of pid] by simp
  with r obtain b' where u: "unpin_page pid False b = (True, b')" "rd_ok b'" "rd_le b b'" "pins b' = (pins b)(pid := pins b pid - 1)"
    "bp_avail b + card (pinned b) = bp_avail b' + card (pinned b')"
    using unpin_rd[of b pid] by (auto simp: rd_at_def)
  have "int (count M p) \<le> pins b' p" for p using c[of p] by (simp add: u(4) split: if_splits)
  moreover have "pins b' p = int (count M p)" if "p \<notin> P" for p using r that by (auto simp: rd_at_def u(4))
  ultimately have "rd_at P M b'" using r u(2,5) by (simp add: rd_at_def)
  then show ?thesis using that u by blast
qed

text \<open>A pool without pins is a start.\<close>

lemma rd_at_start:
  assumes "bp_inv b" "\<And>p. pins b p = 0" "finite X" "card X + 2 \<le> bp_avail b"
  shows "rd_at X {#} b"
proof -
  have "frame_clean_ok b pid f" if "map_of (bp_table b) pid = Some f" for pid f
    using bp_inv_clean[OF assms(1) that] assms(2)[of pid] that by (simp add: pins_def)
  then show ?thesis using assms by (simp add: rd_at_def rd_ok_def pinned_def)
qed

section \<open>Reading a table\<close>

lemma rd_keep:
  assumes i: "rm_inv s" and b: "bp_inv b" and le: "rd_le (rs_bpm s) b"
  shows "rm_inv (s\<lparr>rs_bpm := b\<rparr>)" "rm_table (s\<lparr>rs_bpm := b\<rparr>) = rm_table s"
proof -
  have "rm_base (s\<lparr>rs_bpm := b\<rparr>)"
    using rm_base_bpm[OF rm_invD(1)[OF i] b] le rm_invD(1)[OF i] by (auto simp: rd_le_def rm_base_def)
  moreover have "kept_but {hdr_pid (rs_fd s)} (rs_bpm s) b" using le by (auto simp: rd_le_def kept_but_def view_le_Some)
  ultimately show "rm_inv (s\<lparr>rs_bpm := b\<rparr>)" "rm_table (s\<lparr>rs_bpm := b\<rparr>) = rm_table s" using rm_inv_views(1,2)[OF i] by blast+
qed

lemma fetch_handle_at:
  assumes i: "rm_inv s" and r: "rd_at P M (rs_bpm s)" and p: "rm_page_no s p" and d: "rm_page s p = Some x"
    and room: "size M \<le> 1 \<or> rm_pid s p \<in># M"
  obtains f b' where "fetch_page_handle p s = (Inr f, s\<lparr>rs_bpm := b'\<rparr>)" "rd_at P (add_mset (rm_pid s p) M) b'" "rd_le (rs_bpm s) b'"
    "pg_data (bp_frame b' f) = x"
proof -
  have nh: "pid_page_no (rm_pid s p) \<noteq> RM_FILE_HDR_PAGE" using p by (simp add: rm_page_no_def RM_FILE_HDR_PAGE_def)
  obtain f b' where f: "fetch_page (rm_pid s p) (rs_bpm s) = (Inr (Some f), b')" "rd_at P (add_mset (rm_pid s p) M) b'" "rd_le (rs_bpm s) b'"
    "pg_data (bp_frame b' f) = x"
    using fetch_at[OF r rm_page_ok[OF rm_invD(1)[OF i] p] _ nh room, of x] d by (auto simp: rm_page_def)
  moreover have "fetch_page_handle p s = (Inr f, s\<lparr>rs_bpm := b'\<rparr>)"
    using p f(1) by (simp add: fetch_page_handle_def rm_page_no_def rm_bp_def em_defs)
  ultimately show ?thesis using that by blast
qed

lemma rm_unpin_at:
  assumes r: "rd_at P (add_mset (rm_pid s p) M) (rs_bpm s)"
  obtains b' where "rm_unpin p False s = (Inr (), s\<lparr>rs_bpm := b'\<rparr>)" "rd_at P M b'" "rd_le (rs_bpm s) b'"
proof -
  obtain b' where "unpin_page (rm_pid s p) False (rs_bpm s) = (True, b')" "rd_at P M b'" "rd_le (rs_bpm s) b'"
    by (rule unpin_at[OF r])
  then show ?thesis by (intro that[of b']) (simp_all add: rm_unpin_def)
qed

lemma rd_at_inv: "rd_at P M b \<Longrightarrow> bp_inv b"
  by (simp add: rd_at_def rd_ok_def)

lemma get_record_at:
  assumes i: "rm_inv s" and r: "rd_at P M (rs_bpm s)" and t: "rm_table s rid = Some x"
    and room: "size M \<le> 1 \<or> rm_pid s (rid_page_no rid) \<in># M"
  shows "\<exists>b'. get_record no_lock rid s = (Inr x, s\<lparr>rs_bpm := b'\<rparr>) \<and> rd_at P M b' \<and> rd_le (rs_bpm s) b'"
proof -
  obtain d where d: "rm_page_no s (rid_page_no rid)" "rm_page s (rid_page_no rid) = Some d"
    "get_slot (rs_hdr s) (rid_slot_no rid) d = x" "valid_slot (rs_hdr s) (rid_slot_no rid)"
    by (rule rm_table_page[OF i t])
  obtain f b1 where f: "fetch_page_handle (rid_page_no rid) s = (Inr f, s\<lparr>rs_bpm := b1\<rparr>)" "rd_at P (add_mset (rm_pid s (rid_page_no rid)) M) b1"
    "rd_le (rs_bpm s) b1" "pg_data (bp_frame b1 f) = d"
    by (rule fetch_handle_at[OF i r d(1,2) room])
  obtain b2 where u: "rm_unpin (rid_page_no rid) False (s\<lparr>rs_bpm := b1\<rparr>) = (Inr (), s\<lparr>rs_bpm := b2\<rparr>)" "rd_at P M b2" "rd_le b1 b2"
    using rm_unpin_at[of P "s\<lparr>rs_bpm := b1\<rparr>" "rid_page_no rid" M] f(2) by auto
  have "slot_in_page (rs_hdr s) (rid_slot_no rid)" by (rule slot_range(4)[OF rm_invD(2)[OF i] d(4)])
  then have "get_record no_lock rid s = (Inr x, s\<lparr>rs_bpm := b2\<rparr>)"
    using f(1,4) u(1) d(3) by (simp add: get_record_def em_defs rm_lock_def no_lock_def rm_data_def Let_def)
  then show ?thesis using u f(3) rd_le_trans by blast
qed

text \<open>The outcome of a search for the next record: the first one behind the position, with its page held, or none.\<close>

definition found_at :: "PageId set \<Rightarrow> PageId multiset \<Rightarrow> RmState \<Rightarrow> (Rid \<Rightarrow> bool) \<Rightarrow> Rid \<Rightarrow> BufferPoolManager \<Rightarrow> bool" where
  "found_at P M s after rid b' \<longleftrightarrow>
     (RmScan_is_end rid \<and> rd_at P M b' \<and> (\<forall>r \<in> dom (rm_table s). \<not> after r)) \<or>
     (rid \<in> dom (rm_table s) \<and> after rid \<and> rd_at P (add_mset (rm_pid s (rid_page_no rid)) M) b' \<and>
        (\<forall>r \<in> dom (rm_table s). after r \<longrightarrow> r = rid \<or> rid_less rid r))"

lemma scan_pages_at:
  assumes "rm_inv s" and "rd_at P M (rs_bpm s)" and "size M \<le> 1" and "np = num_pages (rs_hdr s)" and "1 \<le> p" and "-2 \<le> start"
    and "start < num_records_per_page (rs_hdr s)" and "restart = -1 \<or> restart = -2"
  shows "\<exists>rid b'. scan_pages np restart p start s = (Inr rid, s\<lparr>rs_bpm := b'\<rparr>) \<and> rd_le (rs_bpm s) b' \<and> found_at P M s (rid_after p start) rid b'"
  using assms
proof (induction "nat (np - p)" arbitrary: p start s)
  case 0
  have "rid_page_no r < np" if "r \<in> dom (rm_table s)" for r
    using that 0 by (auto simp: rm_table_def rm_page_no_def split: if_splits)
  then have "\<not> rid_after p start r" if "r \<in> dom (rm_table s)" for r
    using that 0 by (force simp: rid_after_def)
  moreover have "scan_pages np restart p start s = (Inr \<lparr>rid_page_no = -1, rid_slot_no = -1\<rparr>, s)"
    using 0 by (subst scan_pages.simps) simp
  ultimately show ?case
    using 0 by (intro exI[of _ "\<lparr>rid_page_no = -1, rid_slot_no = -1\<rparr>"] exI[of _ "rs_bpm s"]) (simp add: RmScan_is_end_def found_at_def)
next
  case (Suc n)
  have lt: "p < np" using Suc(2) by simp
  then have pn: "rm_page_no s p" using Suc.prems by (simp add: rm_page_no_def)
  obtain d where d: "rm_page s p = Some d" using rm_invD(4)[OF Suc.prems(1) pn] by blast
  let ?h = "rs_hdr s" let ?n = "num_records_per_page (rs_hdr s)"
  note h = rm_invD(2)[OF Suc.prems(1)]
  obtain f b1 where f: "fetch_page_handle p s = (Inr f, s\<lparr>rs_bpm := b1\<rparr>)" "rd_at P (add_mset (rm_pid s p) M) b1"
    "rd_le (rs_bpm s) b1" "pg_data (bp_frame b1 f) = d"
    by (rule fetch_handle_at[OF Suc.prems(1,2) pn d]) (use Suc.prems(3) in auto)
  define k where "k = next_bit True (page_bitmap d) ?n start"
  note pr = page_probe[OF h Suc.prems(6,7), where d = d, folded k_def]
  have on: "r \<in> dom (rm_table s) \<longleftrightarrow> rid_slot_no r \<in> page_slots ?h d" if "rid_page_no r = p" for r
    using that pn d by (auto simp: rm_table_def page_recs_def split: if_splits)
  have dt: "rm_data f (s\<lparr>rs_bpm := b1\<rparr>) = d" using f(4) by (simp add: rm_data_def)
  show ?case
  proof (cases "k < ?n")
    case True
    let ?rid = "\<lparr>rid_page_no = p, rid_slot_no = k\<rparr>"
    have "scan_pages np restart p start s = (Inr ?rid, s\<lparr>rs_bpm := b1\<rparr>)"
      using lt f(1) dt True by (simp add: scan_pages.simps[of np] em_bind_def Let_def k_def)
    moreover have "?rid \<in> dom (rm_table s)" "rid_after p start ?rid" using pr(1)[OF True] on[of ?rid] by (auto simp: rid_after_def)
    moreover have "r = ?rid \<or> rid_less ?rid r" if "r \<in> dom (rm_table s)" "rid_after p start r" for r
      using that on[of r] pr(2)[of "rid_slot_no r"] by (cases r) (auto simp: rid_after_def rid_less_def order_le_less)
    ultimately have "scan_pages np restart p start s = (Inr ?rid, s\<lparr>rs_bpm := b1\<rparr>) \<and> found_at P M s (rid_after p start) ?rid b1"
      using f(2) unfolding found_at_def by simp
    then show ?thesis using f(3) by blast
  next
    case False
    obtain b2 where u: "rm_unpin p False (s\<lparr>rs_bpm := b1\<rparr>) = (Inr (), s\<lparr>rs_bpm := b2\<rparr>)" "rd_at P M b2" "rd_le b1 b2"
      using rm_unpin_at[of P "s\<lparr>rs_bpm := b1\<rparr>" p M] f(2) by auto
    let ?s2 = "s\<lparr>rs_bpm := b2\<rparr>"
    have le: "rd_le (rs_bpm s) b2" using rd_le_trans[OF f(3) u(3)] .
    note v = rd_keep[OF Suc.prems(1) rd_at_inv[OF u(2)] le]
    have sc: "scan_pages np restart p start s = scan_pages np restart (p + 1) restart ?s2"
      using lt f(1) dt False u(1) by (simp add: scan_pages.simps[of np restart p] em_bind_def em_then_def Let_def k_def)
    have rs: "restart < num_records_per_page (rs_hdr ?s2)" "-2 \<le> restart"
      using Suc.prems(8) layout_bounds[OF h] by auto
    have nn: "n = nat (np - (p + 1))" "rd_at P M (rs_bpm ?s2)" "np = num_pages (rs_hdr ?s2)" "1 \<le> p + 1"
      using Suc(2) Suc.prems(4,5) u(2) by simp_all
    obtain rid b' where r: "scan_pages np restart (p + 1) restart ?s2 = (Inr rid, s\<lparr>rs_bpm := b'\<rparr>)" "rd_le b2 b'"
      "found_at P M ?s2 (rid_after (p + 1) restart) rid b'"
      using Suc.hyps(1)[OF nn(1) v(1) nn(2) Suc.prems(3) nn(3,4) rs(2,1) Suc.prems(8)] by auto
    have af: "rid_after p start r \<longleftrightarrow> rid_after (p + 1) restart r" if "r \<in> dom (rm_table s)" for r
    proof -
      have "0 \<le> rid_slot_no r" using that by (auto simp: rm_table_def page_recs_def page_slots_def valid_slot_def split: if_splits option.splits)
      moreover have "\<not> start < rid_slot_no r" if "rid_page_no r = p"
        using pr(2)[of "rid_slot_no r"] on[OF that] \<open>r \<in> dom (rm_table s)\<close> False by (auto simp: page_slots_def valid_slot_def)
      ultimately show ?thesis using Suc.prems(8) by (auto simp: rid_after_def)
    qed
    have "found_at P M s (rid_after p start) rid b'" using r(3) af unfolding found_at_def v(2) by simp blast
    then show ?thesis using r(1) rd_le_trans[OF le r(2)] unfolding sc by blast
  qed
qed

section \<open>Walking along a table\<close>

definition scan_page :: "int \<Rightarrow> Rid \<Rightarrow> PageId multiset" where
  "scan_page fd rid = (if RmScan_is_end rid then {#} else {#\<lparr>pid_fd = fd, pid_page_no = rid_page_no rid\<rparr>#})"

text \<open>The record ids of a table in order, and a scan before the ones of \<open>L\<close>.\<close>

definition rid_list :: "(Rid \<Rightarrow> byte list option) \<Rightarrow> Rid list \<Rightarrow> bool" where
  "rid_list T L \<longleftrightarrow> sorted_wrt rid_less L \<and> set L = dom T"

definition cursor :: "(Rid \<Rightarrow> byte list option) \<Rightarrow> Rid list \<Rightarrow> Rid \<Rightarrow> bool" where
  "cursor T L rid \<longleftrightarrow> (\<exists>K. rid_list T (K @ L)) \<and> (case L of [] \<Rightarrow> RmScan_is_end rid | r # _ \<Rightarrow> rid = r)"

lemma rid_list_unique:
  assumes "rid_list T K" "rid_list T L"
  shows "K = L"
proof -
  have "sorted_wrt rid_less K \<Longrightarrow> sorted_wrt rid_less L \<Longrightarrow> set K = set L \<Longrightarrow> K = L" for K L
  proof (induction K arbitrary: L)
    case (Cons k K)
    then obtain l L' where L: "L = l # L'" by (cases L) auto
    have "k = l"
    proof (rule ccontr)
      assume "k \<noteq> l"
      then have "k \<in> set L'" "l \<in> set K" using Cons.prems(3) unfolding L by auto
      then show False using Cons.prems(1,2) rid_less_asym(1)[of k l] unfolding L by simp
    qed
    moreover have "k \<notin> set K" "l \<notin> set L'" using Cons.prems rid_less_asym(2) unfolding L by auto
    ultimately have "set K = set L'" using Cons.prems(3) unfolding L by (metis Diff_insert_absorb list.simps(15))
    then show ?case using Cons.IH[of L'] Cons.prems(1,2) \<open>k = l\<close> unfolding L by simp
  qed simp
  then show ?thesis using assms by (simp add: rid_list_def)
qed

lemma cursor_dom: "cursor T L rid \<Longrightarrow> set L \<subseteq> dom T"
  by (auto simp: cursor_def rid_list_def)

lemma cursor_end: "cursor (rm_table s) L rid \<Longrightarrow> RmScan_is_end rid \<longleftrightarrow> L = []"
  using dom_not_end[of rid s] cursor_dom[of "rm_table s" L rid] by (cases L) (auto simp: cursor_def)

text \<open>A search result is the cursor on the records that come after.\<close>

lemma found_cursor:
  assumes f: "found_at P M s after rid b'" and L: "rid_list (rm_table s) (K @ L)" and a: "\<And>r. r \<in> set (K @ L) \<Longrightarrow> after r \<longleftrightarrow> r \<in> set L"
  shows "cursor (rm_table s) L rid \<and> rd_at P (scan_page (rs_fd s) rid + M) b'"
proof (cases L)
  case Nil
  then have "\<not> (rid \<in> dom (rm_table s) \<and> after rid)" using a[of rid] L by (auto simp: rid_list_def)
  then have "RmScan_is_end rid" "rd_at P M b'" using f by (auto simp: found_at_def)
  then show ?thesis using Nil L by (auto simp: cursor_def scan_page_def)
next
  case (Cons l L')
  have d: "set (K @ L) = dom (rm_table s)" using L by (simp add: rid_list_def)
  have "l \<in> dom (rm_table s)" "after l" using d a[of l] Cons by auto
  then have r: "rid \<in> dom (rm_table s)" "after rid" "rd_at P (add_mset (rm_pid s (rid_page_no rid)) M) b'" "l = rid \<or> rid_less rid l"
    using f by (auto simp: found_at_def)
  have "rid \<in> set L" using r(1,2) a[of rid] d by auto
  then have "rid = l \<or> rid_less l rid" using L Cons by (auto simp: rid_list_def sorted_wrt_append)
  then have "rid = l" using r(4) rid_less_asym(1)[of rid l] by blast
  then show ?thesis using r(3) L Cons dom_not_end[OF r(1)] by (auto simp: cursor_def scan_page_def)
qed

lemma scan_new_at:
  assumes i: "rm_inv s" and r: "rd_at P M (rs_bpm s)" "size M \<le> 1" and L: "rid_list (rm_table s) L"
  shows "\<exists>rid b'. RmScan_new s = (Inr rid, s\<lparr>rs_bpm := b'\<rparr>) \<and> rd_le (rs_bpm s) b' \<and>
     cursor (rm_table s) L rid \<and> rd_at P (scan_page (rs_fd s) rid + M) b'"
proof -
  have st: "-1 < num_records_per_page (rs_hdr s)" using layout_bounds[OF rm_invD(2)[OF i]] by simp
  obtain rid b' where n: "RmScan_new s = (Inr rid, s\<lparr>rs_bpm := b'\<rparr>)" "rd_le (rs_bpm s) b'" "found_at P M s (rid_after 1 (-1)) rid b'"
    using scan_pages_at[OF i r refl, of 1 "-1" "-1"] st by (auto simp: RmScan_new_def RM_FIRST_RECORD_PAGE_def)
  have "rid_after 1 (-1) q" if "q \<in> set L" for q
    using that L dom_not_end[of q s] by (auto simp: rid_list_def rid_after_def)
  then show ?thesis using found_cursor[OF n(3), of "[]" L] L n(1,2) by auto
qed

lemma scan_next_at:
  assumes i: "rm_inv s" and c: "cursor (rm_table s) (rid # L) rid" and r: "rd_at P (scan_page (rs_fd s) rid + M) (rs_bpm s)" "size M \<le> 1"
  shows "\<exists>rid' b'. RmScan_next rid s = (Inr rid', s\<lparr>rs_bpm := b'\<rparr>) \<and> rd_le (rs_bpm s) b' \<and>
     cursor (rm_table s) L rid' \<and> rd_at P (scan_page (rs_fd s) rid' + M) b'"
proof -
  have d: "rid \<in> dom (rm_table s)" using cursor_dom[OF c] by auto
  note ne = dom_not_end[OF d]
  obtain K where K: "rid_list (rm_table s) (K @ rid # L)" using c by (auto simp: cursor_def)
  obtain b2 where u: "rm_unpin (rid_page_no rid) False s = (Inr (), s\<lparr>rs_bpm := b2\<rparr>)" "rd_at P M b2" "rd_le (rs_bpm s) b2"
    using rm_unpin_at[of P s "rid_page_no rid" M] r(1) ne by (auto simp: scan_page_def)
  let ?s = "s\<lparr>rs_bpm := b2\<rparr>"
  note v = rd_keep[OF i rd_at_inv[OF u(2)] u(3)]
  have e: "RmScan_next rid s = scan_pages (num_pages (rs_hdr s)) (-2) (rid_page_no rid) (rid_slot_no rid) ?s"
    using u(1) ne by (simp add: RmScan_next_def)
  obtain rid' b' where n: "RmScan_next rid s = (Inr rid', s\<lparr>rs_bpm := b'\<rparr>)" "rd_le b2 b'"
    "found_at P M ?s (rid_after (rid_page_no rid) (rid_slot_no rid)) rid' b'"
    using scan_pages_at[where s = ?s and M = M and P = P and np = "num_pages (rs_hdr s)" and p = "rid_page_no rid" and start = "rid_slot_no rid" and restart = "-2"]
      v(1) u(2) r(2) ne unfolding e by auto
  have "rid_after (rid_page_no rid) (rid_slot_no rid) q \<longleftrightarrow> q \<in> set L" if q: "q \<in> set ((K @ [rid]) @ L)" for q
  proof -
    have "rid_less q rid" if "q \<in> set K" using that K by (auto simp: rid_list_def sorted_wrt_append)
    moreover have "rid_less rid q" if "q \<in> set L" using that K by (auto simp: rid_list_def sorted_wrt_append)
    moreover have "rid_after (rid_page_no rid) (rid_slot_no rid) q \<longleftrightarrow> rid_less rid q" by (auto simp: rid_after_def rid_less_def)
    ultimately show ?thesis using q rid_less_asym(1)[of q rid] rid_less_asym(2)[of rid] by auto
  qed
  then have "cursor (rm_table ?s) L rid' \<and> rd_at P (scan_page (rs_fd ?s) rid' + M) b'"
    using found_cursor[OF n(3), of "K @ [rid]" L] K v(2) by auto
  then show ?thesis using n(1) rd_le_trans[OF u(3) n(2)] v(2) by auto
qed

section \<open>Reading inside the system\<close>

lemma update_same: "map_of al k = Some v \<Longrightarrow> AList.update k v al = al"
  by (induction al) (auto split: if_splits)

lemma on_table_rd:
  assumes "tab_state name s = Some r" and "m r = (x, r\<lparr>rs_bpm := b'\<rparr>)"
  shows "on_table name m s = (x, s\<lparr>sys_bpm := b'\<rparr>)"
  using assms by (auto simp: on_table_def tab_state_def update_same)

text \<open>The table \<open>name\<close> is open with the records \<open>T\<close>, and stays so when only pages are read.\<close>

definition sys_table :: "string \<Rightarrow> Sys \<Rightarrow> (Rid \<Rightarrow> byte list option) \<Rightarrow> bool" where
  "sys_table name s T \<longleftrightarrow> (\<exists>r. tab_state name s = Some r \<and> rm_inv r \<and> rm_table r = T)"

lemma tab_state_bpm: "tab_state name s = Some r \<Longrightarrow> tab_state name (s\<lparr>sys_bpm := b\<rparr>) = Some (r\<lparr>rs_bpm := b\<rparr>)"
  by (auto simp: tab_state_def)

lemma sys_table_keep: "sys_table name s T \<Longrightarrow> bp_inv b \<Longrightarrow> rd_le (sys_bpm s) b \<Longrightarrow> sys_table name (s\<lparr>sys_bpm := b\<rparr>) T"
proof -
  assume a: "sys_table name s T" "bp_inv b" "rd_le (sys_bpm s) b"
  then obtain r where r: "tab_state name s = Some r" "rm_inv r" "rm_table r = T" "rs_bpm r = sys_bpm s"
    by (auto simp: sys_table_def tab_state_def)
  then show ?thesis
    using rd_keep[OF r(2) a(2)] a(3) tab_state_bpm[OF r(1), of b] unfolding sys_table_def by auto
qed

text \<open>A context that takes no shared locks: none, or an implicit transaction.\<close>

definition lockless :: "txn_id_t option \<Rightarrow> Sys \<Rightarrow> bool" where
  "lockless ctx s \<longleftrightarrow> (case ctx of None \<Rightarrow> True | Some t \<Rightarrow> (\<exists>txn. map_of (sys_txns s) t = Some txn \<and> \<not> txn_mode txn))"

lemma lockless_bpm [simp]: "lockless ctx (s\<lparr>sys_bpm := b\<rparr>) = lockless ctx s"
  by (cases ctx) (simp_all add: lockless_def)

lemma lockless_read: "lockless ctx s \<Longrightarrow> lock_record_read ctx fd rid s = (Inr (), s)" "lockless ctx s \<Longrightarrow> lock_table_read ctx tab s = (Inr (), s)"
  by (auto simp: lockless_def lock_record_read_def lock_table_read_def with_txn_def em_return_def split: option.splits)

definition sys_fd :: "string \<Rightarrow> Sys \<Rightarrow> int" where
  "sys_fd name s = (case map_of (sys_fhs s) name of Some (fd, h) \<Rightarrow> fd | None \<Rightarrow> -1)"

lemma sys_fd_bpm [simp]: "sys_fd name (s\<lparr>sys_bpm := b\<rparr>) = sys_fd name s"
  by (simp add: sys_fd_def)

lemma sys_fd_state: "tab_state name s = Some r \<Longrightarrow> sys_fd name s = rs_fd r"
  by (auto simp: sys_fd_def tab_state_def)

lemma sys_get_at:
  assumes t: "sys_table name s T" and c: "cursor T (rid # L) rid" and l: "lockless ctx s" and r: "rd_at P (scan_page (sys_fd name s) rid + M) (sys_bpm s)"
  shows "\<exists>b'. sys_get_record ctx name rid s = (Inr (the (T rid)), s\<lparr>sys_bpm := b'\<rparr>) \<and>
     rd_at P (scan_page (sys_fd name s) rid + M) b' \<and> rd_le (sys_bpm s) b'"
proof -
  obtain st where st: "tab_state name s = Some st" "rm_inv st" "rm_table st = T" "rs_bpm st = sys_bpm s" "rs_fd st = sys_fd name s"
    using t by (auto simp: sys_table_def tab_state_def sys_fd_def)
  have d: "rid \<in> dom (rm_table st)" using cursor_dom[OF c] st(3) by auto
  then obtain x where x: "T rid = Some x" "rm_table st rid = Some x" using st(3) by auto
  obtain b' where b': "get_record no_lock rid st = (Inr x, st\<lparr>rs_bpm := b'\<rparr>)" "rd_at P (scan_page (sys_fd name s) rid + M) b'" "rd_le (sys_bpm s) b'"
    using get_record_at[OF st(2) r[folded st(4)] x(2)] dom_not_end[OF d] st(4,5) by (auto simp: scan_page_def)
  have "sys_get_record ctx name rid s = (Inr x, s\<lparr>sys_bpm := b'\<rparr>)"
    using table_fd_run[OF st(1)] lockless_read(1)[OF l] on_table_rd[OF st(1), where m = "get_record no_lock rid", OF b'(1)] by (simp add: sys_get_record_def em_defs)
  then show ?thesis using b'(2,3) x(1) by auto
qed

lemma sys_scan_new_at:
  assumes t: "sys_table name s T" and r: "rd_at P M (sys_bpm s)" "size M \<le> 1" and L: "rid_list T L"
  shows "\<exists>rid b'. on_table name RmScan_new s = (Inr rid, s\<lparr>sys_bpm := b'\<rparr>) \<and> rd_le (sys_bpm s) b' \<and>
     cursor T L rid \<and> rd_at P (scan_page (sys_fd name s) rid + M) b'"
proof -
  obtain st where st: "tab_state name s = Some st" "rm_inv st" "rm_table st = T" "rs_bpm st = sys_bpm s" "rs_fd st = sys_fd name s"
    using t by (auto simp: sys_table_def tab_state_def sys_fd_def)
  then show ?thesis
    using scan_new_at[OF st(2), of P M L] r L on_table_rd[OF st(1), of RmScan_new] by auto
qed

lemma sys_scan_next_at:
  assumes t: "sys_table name s T" and c: "cursor T (rid # L) rid" and r: "rd_at P (scan_page (sys_fd name s) rid + M) (sys_bpm s)" "size M \<le> 1"
  shows "\<exists>rid' b'. on_table name (RmScan_next rid) s = (Inr rid', s\<lparr>sys_bpm := b'\<rparr>) \<and> rd_le (sys_bpm s) b' \<and>
     cursor T L rid' \<and> rd_at P (scan_page (sys_fd name s) rid' + M) b'"
proof -
  obtain st where st: "tab_state name s = Some st" "rm_inv st" "rm_table st = T" "rs_bpm st = sys_bpm s" "rs_fd st = sys_fd name s"
    using t by (auto simp: sys_table_def tab_state_def sys_fd_def)
  then show ?thesis
    using scan_next_at[OF st(2), of rid L P M] r c on_table_rd[OF st(1), of "RmScan_next rid"] by auto
qed

end
