(* ===== verification/Query.thy ===== *)
theory Query
  imports ReadPath
begin

text \<open>
  What queries return. A table scan yields the records that satisfy its conditions, in record-id order. The locale \<open>join_inputs\<close> is
  what a join expects of its two inputs; inside it the join is shown to yield the pairs of tuples that
  satisfy the conditions, and two table scans over the same pool interpret it.
\<close>

section \<open>Table scans\<close>

definition seq_keep :: "SeqScan \<Rightarrow> byte list \<Rightarrow> bool" where
  "seq_keep q x \<longleftrightarrow> eval_conds (ss_conds q) x (ss_cols q) = Inr True"

definition seq_same :: "SeqScan \<Rightarrow> SeqScan \<Rightarrow> bool" where
  "seq_same q q' \<longleftrightarrow> ss_tab q' = ss_tab q \<and> ss_conds q' = ss_conds q \<and> ss_cols q' = ss_cols q \<and> ss_len q' = ss_len q"

text \<open>The scan fits the table: its records have the length of the scan's buffer, and its conditions evaluate on them.\<close>

definition seq_fits :: "(Rid \<Rightarrow> byte list option) \<Rightarrow> SeqScan \<Rightarrow> bool" where
  "seq_fits T q \<longleftrightarrow> (\<forall>x \<in> ran T. int (length x) = ss_len q \<and> (\<exists>b. eval_conds (ss_conds q) x (ss_cols q) = Inr b)) \<and>
     (\<forall>b. ss_record q = Some b \<longrightarrow> int (length b) = ss_len q) \<and> 0 \<le> ss_len q"

text \<open>The scan is at the first record of \<open>L\<close>, or at the end.\<close>

definition seq_at :: "(Rid \<Rightarrow> byte list option) \<Rightarrow> SeqScan \<Rightarrow> Rid list \<Rightarrow> bool" where
  "seq_at T q L \<longleftrightarrow> seq_fits T q \<and> cursor T L (ss_scan q) \<and>
     (case L of [] \<Rightarrow> ss_end q
      | r # _ \<Rightarrow> \<not> ss_end q \<and> ss_rid q = r \<and> ss_record q = Some (the (T r)) \<and> seq_keep q (the (T r)))"

definition seq_rest :: "(Rid \<Rightarrow> byte list option) \<Rightarrow> SeqScan \<Rightarrow> Rid list \<Rightarrow> byte list list" where
  "seq_rest T q L = filter (seq_keep q) (map (\<lambda>r. the (T r)) L)"

lemma new_record_length [simp]: "length (new_record len s) = nat len"
  by (simp add: new_record_def)

lemma memcpy_whole: "length x = length y \<Longrightarrow> memcpy_to 0 x y = Inr x"
  by (simp add: memcpy_to_def put_bytes_def)

lemma seq_same_keep: "seq_same q q' \<Longrightarrow> seq_keep q' = seq_keep q"
  by (simp add: seq_same_def seq_keep_def fun_eq_iff)

lemma seq_keep_upd [simp]:
  "seq_keep (q\<lparr>ss_rid := r\<rparr>) = seq_keep q" "seq_keep (q\<lparr>ss_record := x\<rparr>) = seq_keep q" "seq_keep (q\<lparr>ss_end := e\<rparr>) = seq_keep q"
  "seq_keep (q\<lparr>ss_scan := r\<rparr>) = seq_keep q"
  by (simp_all add: seq_keep_def fun_eq_iff)

lemma seq_find_next_at:
  assumes "sys_table (ss_tab q) s T" "lockless ctx s" "seq_fits T q" "cursor T L (ss_scan q)" "length L < n"
    "rd_at P (scan_page (sys_fd (ss_tab q) s) (ss_scan q) + M) (sys_bpm s)" "size M \<le> 1"
  shows "\<exists>q' L' b'. seq_find_next n ctx q s = (Inr q', s\<lparr>sys_bpm := b'\<rparr>) \<and> rd_le (sys_bpm s) b' \<and> seq_same q q' \<and>
     rd_at P (scan_page (sys_fd (ss_tab q) s) (ss_scan q') + M) b' \<and> seq_at T q' L' \<and> seq_rest T q' L' = seq_rest T q L \<and>
     length L' \<le> length L"
  using assms
proof (induction n arbitrary: q s L)
  case (Suc n)
  define buf where "buf = (case ss_record q of Some b \<Rightarrow> b | None \<Rightarrow> new_record (ss_len q) s)"
  have lb: "int (length buf) = ss_len q" using Suc.prems(3) by (auto simp: buf_def seq_fits_def split: option.splits)
  obtain st where st: "rm_table st = T" using Suc.prems(1) by (auto simp: sys_table_def)
  show ?case
  proof (cases L)
    case Nil
    then have "RmScan_is_end (ss_scan q)" using Suc.prems(4) by (simp add: cursor_def)
    then have "seq_find_next (Suc n) ctx q s = (Inr (q\<lparr>ss_record := Some buf, ss_end := True\<rparr>), s)"
      by (simp add: Let_def buf_def)
    then show ?thesis
      using Suc.prems lb Nil
      by (intro exI[of _ "q\<lparr>ss_record := Some buf, ss_end := True\<rparr>"] exI[of _ "[]"] exI[of _ "sys_bpm s"])
        (auto simp: seq_same_def seq_at_def seq_fits_def seq_rest_def)
  next
    case (Cons r L0)
    then have r: "ss_scan q = r" "\<not> RmScan_is_end r"
      using Suc.prems(4) cursor_end[of st L "ss_scan q"] st by (auto simp: cursor_def)
    have c: "cursor T (r # L0) r" using Suc.prems(4) Cons r(1) by simp
    obtain x where x: "T r = Some x" using cursor_dom[OF c] by auto
    then have lx: "int (length x) = ss_len q" and ex: "\<exists>b. eval_conds (ss_conds q) x (ss_cols q) = Inr b"
      using Suc.prems(3) by (auto simp: seq_fits_def ran_def)
    obtain b where b: "eval_conds (ss_conds q) x (ss_cols q) = Inr b" using ex by blast
    obtain b1 where g: "sys_get_record ctx (ss_tab q) r s = (Inr x, s\<lparr>sys_bpm := b1\<rparr>)"
      "rd_at P (scan_page (sys_fd (ss_tab q) s) r + M) b1" "rd_le (sys_bpm s) b1"
      using sys_get_at[OF Suc.prems(1) c Suc.prems(2), of P M] Suc.prems(6) r(1) x by auto
    have into: "get_record_into ctx (ss_tab q) r buf s = (Inr x, s\<lparr>sys_bpm := b1\<rparr>)"
      using g(1) memcpy_whole[of x buf] lb lx by (simp add: get_record_into_def em_defs sys_res_def)
    let ?q1 = "q\<lparr>ss_rid := r, ss_record := Some x\<rparr>"
    note t1 = sys_table_keep[OF Suc.prems(1) rd_at_inv[OF g(2)] g(3)]
    show ?thesis
    proof (cases b)
      case True
      then have "seq_find_next (Suc n) ctx q s = (Inr (?q1\<lparr>ss_end := False\<rparr>), s\<lparr>sys_bpm := b1\<rparr>)"
        using r into b by (simp add: Let_def buf_def em_defs sys_res_def)
      then show ?thesis
        using g(2,3) r x b True Suc.prems(3) c lx Cons
        by (intro exI[of _ "?q1\<lparr>ss_end := False\<rparr>"] exI[of _ L] exI[of _ b1])
          (auto simp: seq_same_def seq_at_def seq_fits_def seq_rest_def seq_keep_def)
    next
      case False
      obtain rid b2 where nx: "on_table (ss_tab q) (RmScan_next r) (s\<lparr>sys_bpm := b1\<rparr>) = (Inr rid, s\<lparr>sys_bpm := b2\<rparr>)"
        "rd_le b1 b2" "cursor T L0 rid" "rd_at P (scan_page (sys_fd (ss_tab q) s) rid + M) b2"
        using sys_scan_next_at[OF t1 c _ Suc.prems(7), of P] g(2) by auto
      let ?q2 = "?q1\<lparr>ss_scan := rid\<rparr>"
      have le2: "rd_le (sys_bpm s) b2" by (rule rd_le_trans[OF g(3) nx(2)])
      have "sys_table (ss_tab q) (s\<lparr>sys_bpm := b2\<rparr>) T" by (rule sys_table_keep[OF Suc.prems(1) rd_at_inv[OF nx(4)] le2])
      moreover have "seq_fits T ?q2" using Suc.prems(3) lx by (simp add: seq_fits_def)
      ultimately obtain q' L' b' where ih: "seq_find_next n ctx ?q2 (s\<lparr>sys_bpm := b2\<rparr>) = (Inr q', s\<lparr>sys_bpm := b'\<rparr>)"
        "rd_le b2 b'" "seq_same ?q2 q'" "rd_at P (scan_page (sys_fd (ss_tab q) s) (ss_scan q') + M) b'" "seq_at T q' L'"
        "seq_rest T q' L' = seq_rest T ?q2 L0" "length L' \<le> length L0"
        using Suc.IH[of ?q2 "s\<lparr>sys_bpm := b2\<rparr>" L0] Suc.prems(2,5,7) nx(3,4) Cons by auto
      have "seq_find_next (Suc n) ctx q s = (Inr q', s\<lparr>sys_bpm := b'\<rparr>)"
        using r into b False nx(1) ih(1) by (simp add: Let_def buf_def em_defs sys_res_def)
      moreover have "seq_rest T ?q2 L0 = seq_rest T q L"
        using Cons x b False by (simp add: seq_rest_def seq_keep_def)
      moreover have "seq_same q q'" using ih(3) by (simp add: seq_same_def)
      ultimately show ?thesis using ih rd_le_trans[OF le2 ih(2)] Cons
        by (intro exI[of _ q'] exI[of _ L'] exI[of _ b']) (simp del: seq_find_next.simps)
    qed
  qed
qed simp

lemma seq_begin_at:
  assumes t: "sys_table (ss_tab q) s T" and l: "lockless ctx s" and f: "seq_fits T q" and L: "rid_list T L" "length L < n"
    and r: "rd_at P M (sys_bpm s)" "size M \<le> 1"
  shows "\<exists>q' L' b'. seq_begin n ctx q s = (Inr q', s\<lparr>sys_bpm := b'\<rparr>) \<and> rd_le (sys_bpm s) b' \<and> seq_same q q' \<and>
     rd_at P (scan_page (sys_fd (ss_tab q) s) (ss_scan q') + M) b' \<and> seq_at T q' L' \<and> seq_rest T q' L' = seq_rest T q L \<and> length L' \<le> length L"
proof -
  obtain rid b1 where n: "on_table (ss_tab q) RmScan_new s = (Inr rid, s\<lparr>sys_bpm := b1\<rparr>)" "rd_le (sys_bpm s) b1"
    "cursor T L rid" "rd_at P (scan_page (sys_fd (ss_tab q) s) rid + M) b1"
    using sys_scan_new_at[OF t r L(1)] by blast
  let ?q = "q\<lparr>ss_scan := rid\<rparr>"
  have "sys_table (ss_tab ?q) (s\<lparr>sys_bpm := b1\<rparr>) T" using sys_table_keep[OF t rd_at_inv[OF n(4)] n(2)] by simp
  moreover have "seq_fits T ?q" using f by (simp add: seq_fits_def)
  ultimately obtain q' L' b' where h: "seq_find_next n ctx ?q (s\<lparr>sys_bpm := b1\<rparr>) = (Inr q', s\<lparr>sys_bpm := b'\<rparr>)" "rd_le b1 b'" "seq_same ?q q'"
    "rd_at P (scan_page (sys_fd (ss_tab q) s) (ss_scan q') + M) b'" "seq_at T q' L'" "seq_rest T q' L' = seq_rest T ?q L" "length L' \<le> length L"
    using seq_find_next_at[of ?q "s\<lparr>sys_bpm := b1\<rparr>" T ctx L n P M] l n(3,4) L(2) r(2) by auto
  have "seq_begin n ctx q s = (Inr q', s\<lparr>sys_bpm := b'\<rparr>)"
    using lockless_read(2)[OF l] n(1) h(1) by (simp add: seq_begin_def em_defs)
  then show ?thesis using h rd_le_trans[OF n(2) h(2)]
    by (intro exI[of _ q'] exI[of _ L'] exI[of _ b']) (simp add: seq_same_def seq_rest_def)
qed

lemma seq_next_at:
  assumes t: "sys_table (ss_tab q) s T" and l: "lockless ctx s" and a: "seq_at T q (r # L)" and n: "length L < n"
    and r: "rd_at P (scan_page (sys_fd (ss_tab q) s) (ss_scan q) + M) (sys_bpm s)" "size M \<le> 1"
  shows "\<exists>q' L' b'. seq_next n ctx q s = (Inr q', s\<lparr>sys_bpm := b'\<rparr>) \<and> rd_le (sys_bpm s) b' \<and> seq_same q q' \<and>
     rd_at P (scan_page (sys_fd (ss_tab q) s) (ss_scan q') + M) b' \<and> seq_at T q' L' \<and> seq_rest T q' L' = seq_rest T q L \<and> length L' \<le> length L"
proof -
  have q: "\<not> ss_end q" "ss_scan q = r" "cursor T (r # L) r" "seq_fits T q" using a by (auto simp: seq_at_def cursor_def)
  obtain rid b1 where nx: "on_table (ss_tab q) (RmScan_next r) s = (Inr rid, s\<lparr>sys_bpm := b1\<rparr>)" "rd_le (sys_bpm s) b1"
    "cursor T L rid" "rd_at P (scan_page (sys_fd (ss_tab q) s) rid + M) b1"
    using sys_scan_next_at[OF t q(3) _ r(2), of P] r(1) q(2) by auto
  let ?q = "q\<lparr>ss_scan := rid\<rparr>"
  have "sys_table (ss_tab ?q) (s\<lparr>sys_bpm := b1\<rparr>) T" using sys_table_keep[OF t rd_at_inv[OF nx(4)] nx(2)] by simp
  moreover have "seq_fits T ?q" using q(4) by (simp add: seq_fits_def)
  ultimately obtain q' L' b' where h: "seq_find_next n ctx ?q (s\<lparr>sys_bpm := b1\<rparr>) = (Inr q', s\<lparr>sys_bpm := b'\<rparr>)" "rd_le b1 b'" "seq_same ?q q'"
    "rd_at P (scan_page (sys_fd (ss_tab q) s) (ss_scan q') + M) b'" "seq_at T q' L'" "seq_rest T q' L' = seq_rest T ?q L" "length L' \<le> length L"
    using seq_find_next_at[of ?q "s\<lparr>sys_bpm := b1\<rparr>" T ctx L n P M] l nx(3,4) n r(2) by auto
  have "seq_next n ctx q s = (Inr q', s\<lparr>sys_bpm := b'\<rparr>)" using q(1,2) nx(1) h(1) by (simp add: seq_next_def em_defs)
  then show ?thesis using h rd_le_trans[OF nx(2) h(2)]
    by (intro exI[of _ q'] exI[of _ L'] exI[of _ b']) (simp add: seq_same_def seq_rest_def)
qed

lemma seq_rest_Cons: "seq_at T q (r # L) \<Longrightarrow> seq_rest T q (r # L) = the (T r) # seq_rest T q L"
  by (simp add: seq_at_def seq_rest_def)

lemma seq_at_view:
  assumes "seq_at T q L"
  shows "ss_end q \<longleftrightarrow> seq_rest T q L = []" "seq_rest T q L = x # xs \<Longrightarrow> ss_record q = Some x"
  using assms by (auto simp: seq_at_def seq_rest_def split: list.splits)

section \<open>Join conditions\<close>

lemma byte_ptr_append: "byte_ptr off d = Inr p \<Longrightarrow> byte_ptr off (d @ e) = Inr (p @ e)"
  by (auto simp: byte_ptr_def split: if_splits)

lemma byte_ptr_shift: "0 \<le> off \<Longrightarrow> byte_ptr (int (length d) + off) (d @ e) = byte_ptr off e"
  by (auto simp: byte_ptr_def nat_add_distrib)

lemma compare_raw_append:
  assumes "compare_raw_value a b t n = Inr c"
  shows "compare_raw_value (a @ x) (b @ y) t n = Inr c"
proof -
  have l: "raw_len t n \<le> int (length a)" "raw_len t n \<le> int (length b)" "0 \<le> raw_len t n" "c = ix_compare1 a b t (nat n)"
    using assms by (auto simp: compare_raw_value_def split: if_splits)
  have "ix_compare1 (a @ x) (b @ y) t (nat n) = ix_compare1 a b t (nat n)"
    using l by (cases t) (simp_all add: raw_len_def type_size_def dec_f32_def nat_le_iff)
  then show ?thesis using l by (simp add: compare_raw_value_def)
qed

lemma eval_join_cond_append:
  assumes "eval_join_cond c l r = Inr b"
  shows "eval_join_cond c (l @ x) (r @ y) = Inr b"
proof -
  let ?d = "\<lambda>left. if left then l else r" and ?e = "\<lambda>left. if left then x else y"
  obtain pl pr k where pl: "byte_ptr (jc_lhs_offset c) (?d (lhs_on_left c)) = Inr pl"
    and pr: "(if jc_is_rhs_val c then raw_data (jc_rhs_val c) else byte_ptr (jc_rhs_offset c) (?d (rhs_on_left c))) = Inr pr"
    and k: "compare_raw_value pl pr (jc_lhs_type c) (jc_lhs_len c) = Inr k" "b = eval_compare k (jc_op c)"
    using assms unfolding eval_join_cond_def rbind_Inr by auto
  define pr' where "pr' = (if jc_is_rhs_val c then pr else pr @ ?e (rhs_on_left c))"
  have "compare_raw_value (pl @ ?e (lhs_on_left c)) pr' (jc_lhs_type c) (jc_lhs_len c) = Inr k"
    using compare_raw_append[OF k(1), of "?e (lhs_on_left c)" "[]"] compare_raw_append[OF k(1)] by (simp add: pr'_def)
  moreover have "byte_ptr (jc_lhs_offset c) (if lhs_on_left c then l @ x else r @ y) = Inr (pl @ ?e (lhs_on_left c))"
    using byte_ptr_append[OF pl] by (cases "lhs_on_left c") simp_all
  moreover have "(if jc_is_rhs_val c then raw_data (jc_rhs_val c) else byte_ptr (jc_rhs_offset c) (if rhs_on_left c then l @ x else r @ y)) = Inr pr'"
    using pr byte_ptr_append[of "jc_rhs_offset c" "?d (rhs_on_left c)" pr] by (cases "rhs_on_left c") (auto simp: pr'_def)
  ultimately show ?thesis using k(2) by (simp add: eval_join_cond_def)
qed

lemma eval_join_conds_append: "eval_join_conds cs l r = Inr b \<Longrightarrow> eval_join_conds cs (l @ x) (r @ y) = Inr b"
proof (induction cs)
  case (Cons c cs)
  obtain k where k: "eval_join_cond c l r = Inr k" using Cons.prems by (auto simp: rbind_Inr)
  then show ?case using Cons eval_join_cond_append[OF k] by (auto split: if_splits)
qed simp

text \<open>The conditions of a join, split between the two tuples, are the conditions on the joined tuple.\<close>

lemma join_cond_joined:
  assumes s: "build_cond_spec cols (int (length l)) cond = Inr spec" and n: "in_int (int (length l))"
    and o: "\<forall>c \<in> set cols. 0 \<le> cm_offset c" and e: "eval_join_cond spec l r = Inr b"
  shows "eval_cond cond (l @ r) cols = Inr b"
proof -
  have ci: "c_int (int (length l)) = int (length l)" by (rule c_int_id[OF n])
  obtain lc rl ro where lc: "find_col cols (lhs_col cond) = Inr lc"
    and ro: "(if is_rhs_val cond then Inr (False, 0) else rbind (find_col cols (rhs_col cond)) (\<lambda>r. Inr (join_side (int (length l)) r))) = Inr (rl, ro)"
    and sp: "spec = \<lparr>jc_lhs_offset = snd (join_side (int (length l)) lc), jc_rhs_offset = ro, lhs_on_left = fst (join_side (int (length l)) lc),
            rhs_on_left = rl, jc_is_rhs_val = is_rhs_val cond, jc_rhs_val = rhs_val cond, jc_lhs_type = cm_type lc,
            jc_lhs_len = cm_len lc, jc_op = cond_op cond\<rparr>"
    using s unfolding build_cond_spec_def rbind_Inr by auto
  have ptr: "byte_ptr (cm_offset col) (l @ r) = Inr (if fst (join_side (int (length l)) col) then p @ r else p)"
    if "byte_ptr (snd (join_side (int (length l)) col)) (if fst (join_side (int (length l)) col) then l else r) = Inr p"
      "find_col cols tc = Inr col" for col p tc
  proof (cases "cm_offset col < int (length l)")
    case True
    then show ?thesis using that(1) byte_ptr_append[of "cm_offset col" l p r] ci by (simp add: join_side_def)
  next
    case False
    then have "byte_ptr (cm_offset col - int (length l)) r = Inr p" using that(1) ci by (simp add: join_side_def)
    then show ?thesis using byte_ptr_shift[of "cm_offset col - int (length l)" l r] False ci by (simp add: join_side_def)
  qed
  obtain pl pr k where pl: "byte_ptr (snd (join_side (int (length l)) lc)) (if fst (join_side (int (length l)) lc) then l else r) = Inr pl"
    and pr: "(if is_rhs_val cond then raw_data (rhs_val cond) else byte_ptr ro (if rl then l else r)) = Inr pr"
    and k: "compare_raw_value pl pr (cm_type lc) (cm_len lc) = Inr k" "b = eval_compare k (cond_op cond)"
    using e unfolding eval_join_cond_def rbind_Inr sp JoinCondSpec.select_convs by blast
  obtain x where x: "byte_ptr (cm_offset lc) (l @ r) = Inr (pl @ x)" using ptr[OF pl lc] by (auto split: if_splits intro: that[of "[]"] that)
  obtain y where y: "(if is_rhs_val cond then raw_data (rhs_val cond)
        else rbind (find_col cols (rhs_col cond)) (\<lambda>c. byte_ptr (cm_offset c) (l @ r))) = Inr (pr @ y)"
  proof (cases "is_rhs_val cond")
    case True
    then show ?thesis using pr that[of "[]"] by simp
  next
    case False
    then obtain rc where rc: "find_col cols (rhs_col cond) = Inr rc" "join_side (int (length l)) rc = (rl, ro)"
      using ro by (auto simp: rbind_Inr)
    then show ?thesis using ptr[OF _ rc(1), of pr] pr False that[of r] that[of "[]"] by (auto split: if_splits)
  qed
  show ?thesis using lc x y compare_raw_append[OF k(1), of x y] k(2) by (simp add: eval_cond_def)
qed

lemma join_conds_joined:
  assumes "rmap (build_cond_spec cols (int (length l))) conds = Inr specs" and "in_int (int (length l))"
    and "\<forall>c \<in> set cols. 0 \<le> cm_offset c" and "eval_join_conds specs l r = Inr b"
  shows "eval_conds conds (l @ r) cols = Inr b"
  using assms(1,4)
proof (induction conds arbitrary: specs)
  case (Cons cond conds)
  obtain spec ss where s: "specs = spec # ss" "build_cond_spec cols (int (length l)) cond = Inr spec"
    "rmap (build_cond_spec cols (int (length l))) conds = Inr ss"
    using Cons.prems(1) by (auto simp: rbind_Inr)
  obtain k where k: "eval_join_cond spec l r = Inr k" using Cons.prems(2) s(1) by (auto simp: rbind_Inr)
  note e = join_cond_joined[OF s(2) assms(2,3) k]
  show ?case using Cons.IH[OF s(3)] Cons.prems(2) s(1) k e by (auto split: if_splits)
qed simp

section \<open>Joining two inputs\<close>

text \<open>The tuples a left tuple gives with right tuples, and all pairs.\<close>

definition matches :: "(byte list \<Rightarrow> byte list \<Rightarrow> bool) \<Rightarrow> byte list list \<Rightarrow> byte list \<Rightarrow> byte list list" where
  "matches c R x = map (\<lambda>y. x @ y) (filter (c x) R)"

definition joined :: "(byte list \<Rightarrow> byte list \<Rightarrow> bool) \<Rightarrow> byte list list \<Rightarrow> byte list list \<Rightarrow> byte list list" where
  "joined c L R = concat (map (matches c R) L)"

lemma joined_simps [simp]: "joined c [] R = []" "joined c (x # L) R = matches c R x @ joined c L R"
  "joined c (L @ L') R = joined c L R @ joined c L' R"
  by (simp_all add: joined_def)

lemma joined_product: "joined c L R = map (\<lambda>(x, y). x @ y) (filter (\<lambda>(x, y). c x y) (List.product L R))"
  by (induction L) (simp_all add: matches_def filter_map o_def)

text \<open>The block buffer holds the tuples \<open>B\<close>.\<close>

definition block :: "JoinSt \<Rightarrow> byte list list \<Rightarrow> bool" where
  "block j B \<longleftrightarrow> left_block_buf j = concat B \<and> left_block_count j = length B"

text \<open>Only the block was changed.\<close>

definition refilled :: "JoinSt \<Rightarrow> JoinSt \<Rightarrow> bool" where
  "refilled j j' \<longleftrightarrow> (\<exists>a k. j' = j\<lparr>left_block_buf := a, left_block_count := k\<rparr>)"

lemma refilled_refl: "refilled j j"
proof -
  have "j = j\<lparr>left_block_buf := left_block_buf j, left_block_count := left_block_count j\<rparr>" by simp
  then show ?thesis unfolding refilled_def by blast
qed

lemma refilled_step: "refilled (j\<lparr>left_block_buf := a, left_block_count := k\<rparr>) j' \<Longrightarrow> refilled j j'"
  by (auto simp: refilled_def)

lemma drop_concat: "\<forall>x \<in> set B. length x = n \<Longrightarrow> i \<le> length B \<Longrightarrow> drop (i * n) (concat B) = concat (drop i B)"
proof (induction B arbitrary: i)
  case (Cons x B)
  then show ?case by (cases i) auto
qed simp

lemma read_prefix: "length x = n \<Longrightarrow> read_at 0 (int n) (x @ y) = Inr x"
  by (simp add: read_at_def get_bytes_def)

locale join_inputs =
  fixes bg nx :: "Exec \<Rightarrow> (Sys, Exec) em" and I :: "Sys \<Rightarrow> Exec \<Rightarrow> byte list list \<Rightarrow> Exec \<Rightarrow> byte list list \<Rightarrow> bool"
    and A :: "byte list set" and R0 :: "byte list list" and nl nr :: nat and specs :: "JoinCondSpec list"
    and c :: "byte list \<Rightarrow> byte list \<Rightarrow> bool"
  assumes left_view: "I s l L r R \<Longrightarrow> (ex_is_end l \<longleftrightarrow> L = []) \<and> (L \<noteq> [] \<longrightarrow> peekTuple l = Some (hd L))"
    and right_view: "I s l L r R \<Longrightarrow> (ex_is_end r \<longleftrightarrow> R = []) \<and> (R \<noteq> [] \<longrightarrow> peekTuple r = Some (hd R))"
    and left_next: "I s l (x # L) r R \<Longrightarrow> \<exists>l' s'. nx l s = (Inr l', s') \<and> I s' l' L r R"
    and right_next: "I s l L r (y # R) \<Longrightarrow> \<exists>r' s'. nx r s = (Inr r', s') \<and> I s' l L r' R"
    and right_begin: "I s l L r R \<Longrightarrow> R = [] \<or> R = R0 \<Longrightarrow> \<exists>r' s'. bg r s = (Inr r', s') \<and> I s' l L r' R0"
    and tuples: "I s l L r R \<Longrightarrow> set L \<subseteq> A \<and> set R \<subseteq> set R0 \<and> length R \<le> length R0"
    and widths: "x \<in> A \<Longrightarrow> length x = nl" "x \<in> A \<Longrightarrow> y \<in> set R0 \<Longrightarrow> length y = nr"
    and cond: "x \<in> A \<Longrightarrow> y \<in> set R0 \<Longrightarrow> eval_join_conds specs x y = Inr (c x y)"
begin

definition join_of :: "JoinSt \<Rightarrow> bool" where
  "join_of j \<longleftrightarrow> left_tuple_len j = int nl \<and> right_tuple_len j = int nr \<and> cond_specs j = specs"

lemma join_of_upd [simp]:
  "join_of (j\<lparr>left_block_buf := a, left_block_count := k\<rparr>) = join_of j" "join_of (j\<lparr>block_idx := i\<rparr>) = join_of j"
  "join_of (j\<lparr>jn_record := x, jn_end := e\<rparr>) = join_of j" "join_of (clear_block j) = join_of j"
  by (simp_all add: join_of_def clear_block_def)

lemma fill_block:
  assumes "I s l L r R" "block j B" "join_of j" "length L < n"
  shows "\<exists>L1 L2 j' l' s'. L = L1 @ L2 \<and> fill_left_block n nx j l s = (Inr (j', l'), s') \<and> I s' l' L2 r R \<and> block j' (B @ L1) \<and>
     refilled j j' \<and> (B = [] \<and> L \<noteq> [] \<longrightarrow> L1 \<noteq> [])"
  using assms
proof (induction n arbitrary: L l s j B)
  case (Suc n)
  have stop: "?case" if "fill_left_block (Suc n) nx j l s = (Inr (j, l), s)" "B = [] \<longrightarrow> L = []"
    using that Suc.prems refilled_refl
    by (intro exI[of _ "[]"] exI[of _ L] exI[of _ j] exI[of _ l] exI[of _ s]) (simp del: fill_left_block.simps)
  show ?case
  proof (cases "L = [] \<or> left_block_count j > 0 \<and> int (left_block_count j) * left_tuple_len j + left_tuple_len j > JOIN_BUFFER_SIZE")
    case True
    then have "B = [] \<longrightarrow> L = []" using Suc.prems(2) by (auto simp: block_def)
    then show ?thesis using stop True left_view[OF Suc.prems(1)] by (auto simp: em_return_def)
  next
    case False
    then obtain x L' where L: "L = x # L'" by (cases L) auto
    have x: "x \<in> A" "length x = nl" "peekTuple l = Some x" "\<not> ex_is_end l"
      using tuples[OF Suc.prems(1)] widths(1)[of x] left_view[OF Suc.prems(1)] L by auto
    obtain l1 s1 where n: "nx l s = (Inr l1, s1)" "I s1 l1 L' r R" using left_next Suc.prems(1) L by blast
    let ?j = "j\<lparr>left_block_buf := left_block_buf j @ x, left_block_count := Suc (left_block_count j)\<rparr>"
    have rd: "read_at 0 (left_tuple_len j) x = Inr x" using read_prefix[OF x(2), of "[]"] Suc.prems(3) by (simp add: join_of_def)
    have b: "block ?j (B @ [x])" using Suc.prems(2) by (simp add: block_def)
    obtain L1 L2 j' l' s' where ih: "L' = L1 @ L2" "fill_left_block n nx ?j l1 s1 = (Inr (j', l'), s')" "I s' l' L2 r R"
      "block j' ((B @ [x]) @ L1)" "refilled ?j j'"
      using Suc.IH[OF n(2) b] Suc.prems(3,4) L by auto
    have "fill_left_block (Suc n) nx j l s = (Inr (j', l'), s')"
      using False x(3,4) rd n(1) ih(2) by (auto simp: em_bind_def sys_res_def)
    then show ?thesis
      using ih(1,3,4) L refilled_step[OF ih(5)]
      by (intro exI[of _ "x # L1"] exI[of _ L2] exI[of _ j'] exI[of _ l'] exI[of _ s']) (simp del: fill_left_block.simps)
  qed
qed simp

lemma block_tuple:
  assumes "block j B" "join_of j" "set B \<subseteq> A" "i < length B" "y \<in> set R0"
  shows "eval_join_conds (cond_specs j) (left_tuple_at j i) y = Inr (c (B ! i) y)"
    and "join_records j (left_tuple_at j i) y = Inr (B ! i @ y)"
proof -
  have x: "B ! i \<in> A" using assms by auto
  have w: "\<forall>x \<in> set B. length x = nl" using assms(3) widths(1) by blast
  have t: "left_tuple_at j i = B ! i @ concat (drop (Suc i) B)"
    using assms(1,2,4) drop_concat[OF w, of i] by (simp add: left_tuple_at_def block_def join_of_def Cons_nth_drop_Suc[symmetric])
  show "eval_join_conds (cond_specs j) (left_tuple_at j i) y = Inr (c (B ! i) y)"
    using eval_join_conds_append[OF cond[OF x assms(5)], of "concat (drop (Suc i) B)" "[]"] assms(2) t by (simp add: join_of_def)
  show "join_records j (left_tuple_at j i) y = Inr (B ! i @ y)"
    using read_prefix[OF widths(1)[OF x]] read_prefix[OF widths(2)[OF x assms(5)], of "[]"] assms(2) t
    by (simp add: join_records_def join_of_def)
qed

lemma nested_right_run:
  assumes "I s l L r R" "block j B" "join_of j" "set B \<subseteq> A" "block_idx j < length B" "length R < n"
  shows "(filter (c (B ! block_idx j)) R = [] \<and> (\<exists>r' s'. nested_right n nx j r s = (Inr (False, j, r'), s') \<and> I s' l L r' [])) \<or>
     (\<exists>y R' r' s'. filter (c (B ! block_idx j)) R = y # filter (c (B ! block_idx j)) R' \<and> I s' l L r' (y # R') \<and>
        nested_right n nx j r s = (Inr (True, j\<lparr>jn_record := Some (B ! block_idx j @ y), jn_end := False\<rparr>, r'), s'))"
  using assms
proof (induction n arbitrary: R r s)
  case (Suc n)
  show ?case
  proof (cases R)
    case Nil
    then show ?thesis using right_view[OF Suc.prems(1)] Suc.prems(1) by (simp add: em_return_def)
  next
    case (Cons y R')
    have y: "y \<in> set R0" "peekTuple r = Some y" "\<not> ex_is_end r" using tuples[OF Suc.prems(1)] right_view[OF Suc.prems(1)] Cons by auto
    note t = block_tuple[OF Suc.prems(2-5) y(1)]
    have lt: "\<not> left_block_count j \<le> block_idx j" using Suc.prems(2,5) by (simp add: block_def)
    show ?thesis
    proof (cases "c (B ! block_idx j) y")
      case True
      then have "nested_right (Suc n) nx j r s = (Inr (True, j\<lparr>jn_record := Some (B ! block_idx j @ y), jn_end := False\<rparr>, r), s)"
        using y lt t by (simp add: try_match_def em_defs sys_res_def)
      then show ?thesis using Suc.prems(1) Cons True by auto
    next
      case False
      obtain r1 s1 where n: "nx r s = (Inr r1, s1)" "I s1 l L r1 R'" using right_next Suc.prems(1) Cons by blast
      have "nested_right (Suc n) nx j r s = nested_right n nx j r1 s1"
        using y lt t(1) False n(1) by (simp add: try_match_def em_defs sys_res_def)
      then show ?thesis using Suc.IH[OF n(2) Suc.prems(2-5)] Suc.prems(6) Cons False by simp
    qed
  qed
qed simp

end

context join_inputs
begin

lemma matches_Cons: "filter (c x) R = y # filter (c x) R' \<Longrightarrow> matches c R x = (x @ y) # matches c R' x"
  by (simp add: matches_def)

lemma nested_block_run:
  assumes "I s l L r R" "block j B" "join_of j" "set B \<subseteq> A" "block_idx j \<le> length B" "length B - block_idx j + length R0 + 1 < n"
    and out: "out = (if block_idx j < length B then matches c R (B ! block_idx j) @ joined c (drop (Suc (block_idx j)) B) R0 else [])"
  shows "(out = [] \<and> (\<exists>r' s'. nested_block n bg nx j r s = (Inr (False, j\<lparr>block_idx := length B\<rparr>, r'), s') \<and>
        I s' l L r' (if block_idx j < length B then R0 else R))) \<or>
     (\<exists>i y R' r' s'. i < length B \<and> out = (B ! i @ y) # matches c R' (B ! i) @ joined c (drop (Suc i) B) R0 \<and> I s' l L r' (y # R') \<and>
        nested_block n bg nx j r s = (Inr (True, j\<lparr>block_idx := i, jn_record := Some (B ! i @ y), jn_end := False\<rparr>, r'), s'))"
  using assms
proof (induction n arbitrary: R r s j out)
  case (Suc n)
  show ?case
  proof (cases "block_idx j < length B")
    case False
    then have "block_idx j = length B" "out = []" using Suc.prems(5,7) by simp_all
    moreover have "j = j\<lparr>block_idx := block_idx j\<rparr>" by simp
    ultimately show ?thesis using Suc.prems(1,2) False by (intro disjI1) (auto simp: block_def em_return_def)
  next
    case True
    then have lt: "block_idx j < left_block_count j" using Suc.prems(2) by (simp add: block_def)
    have ln: "length R < n" using tuples[OF Suc.prems(1)] Suc.prems(6) True by auto
    let ?x = "B ! block_idx j" and ?i = "block_idx j"
    consider (no) r1 s1 where "filter (c ?x) R = []" "nested_right n nx j r s = (Inr (False, j, r1), s1)" "I s1 l L r1 []"
      | (yes) y R' r1 s1 where "filter (c ?x) R = y # filter (c ?x) R'" "I s1 l L r1 (y # R')"
          "nested_right n nx j r s = (Inr (True, j\<lparr>jn_record := Some (?x @ y), jn_end := False\<rparr>, r1), s1)"
      using nested_right_run[OF Suc.prems(1-4) True ln] by blast
    then show ?thesis
    proof cases
      case yes
      have "nested_block (Suc n) bg nx j r s = (Inr (True, j\<lparr>block_idx := ?i, jn_record := Some (?x @ y), jn_end := False\<rparr>, r1), s1)"
        using yes(3) lt by (simp add: em_defs)
      then show ?thesis using yes(2) matches_Cons[OF yes(1)] True Suc.prems(7)
        by (intro disjI2 exI[of _ ?i] exI[of _ y] exI[of _ R'] exI[of _ r1] exI[of _ s1]) (simp del: nested_block.simps)
    next
      case no
      obtain r2 s2 where b: "bg r1 s1 = (Inr r2, s2)" "I s2 l L r2 R0" using right_begin[OF no(3)] by blast
      let ?j = "j\<lparr>block_idx := Suc ?i\<rparr>"
      have st: "nested_block (Suc n) bg nx j r s = nested_block n bg nx ?j r2 s2" using no(2) b(1) lt by (simp add: em_defs)
      have o: "out = (if block_idx ?j < length B then matches c R0 (B ! block_idx ?j) @ joined c (drop (Suc (block_idx ?j)) B) R0 else [])"
        using Suc.prems(7) True no(1) by (auto simp: matches_def Cons_nth_drop_Suc[symmetric])
      have "block ?j B" "join_of ?j" "block_idx ?j \<le> length B" "length B - block_idx ?j + length R0 + 1 < n"
        using Suc.prems(2,3,6) True by (simp_all add: block_def)
      from Suc.IH[OF b(2) this(1,2) Suc.prems(4) this(3,4) o] show ?thesis unfolding st using True by (auto split: if_splits)
    qed
  qed
qed simp

text \<open>The join is at its end, or holds the first of the tuples to come, in a block it has not finished.\<close>

definition nested_at :: "nat \<Rightarrow> Sys \<Rightarrow> JoinSt \<Rightarrow> Exec \<Rightarrow> Exec \<Rightarrow> byte list list \<Rightarrow> bool" where
  "nested_at N s j l r out \<longleftrightarrow> join_of j \<and> \<not> hash_probe_enabled j \<and>
     (jn_end j \<and> out = [] \<and> (\<exists>L R. I s l L r R) \<or>
      \<not> jn_end j \<and> (\<exists>B L y R. block j B \<and> set B \<subseteq> A \<and> block_idx j < length B \<and> length B + length L \<le> N \<and> I s l L r (y # R) \<and>
         jn_record j = Some (B ! block_idx j @ y) \<and>
         out = (B ! block_idx j @ y) # matches c R (B ! block_idx j) @ joined c (drop (Suc (block_idx j)) B) R0 @ joined c L R0))"

lemma find_next_nested_run:
  assumes "I s l L r R" "block j B" "join_of j" "\<not> hash_probe_enabled j" "jn_end j" "set B \<subseteq> A" "if B = [] then R = [] \<or> R = R0 else block_idx j < length B"
    "length B + length L \<le> N" "length B + length L + length R0 + 3 < n"
    "out = (if B = [] then [] else matches c R (B ! block_idx j) @ joined c (drop (Suc (block_idx j)) B) R0) @ joined c L R0"
  shows "\<exists>j' l' r' s'. find_next_nested n bg nx j l r s = (Inr (j', l', r'), s') \<and> nested_at N s' j' l' r' out"
  using assms
proof (induction n arbitrary: L l R r s j B out)
  case (Suc n)
  have go: ?case
    if b: "I s1 l1 L1 r1 R1" "block j1 B1" "join_of j1" "\<not> hash_probe_enabled j1" "jn_end j1" "set B1 \<subseteq> A" "block_idx j1 < length B1"
      "length B1 + length L1 \<le> length B + length L"
      "out = matches c R1 (B1 ! block_idx j1) @ joined c (drop (Suc (block_idx j1)) B1) R0 @ joined c L1 R0"
      and run: "find_next_nested (Suc n) bg nx j l r s = em_bind (nested_block n bg nx j1 r1) (\<lambda>(b, j2, r2).
                if b then em_return (j2, l1, r2) else find_next_nested n bg nx ((clear_block j2)\<lparr>block_idx := 0\<rparr>) l1 r2) s1"
    for s1 l1 L1 r1 R1 j1 B1
  proof -
    let ?o = "matches c R1 (B1 ! block_idx j1) @ joined c (drop (Suc (block_idx j1)) B1) R0"
    have le: "block_idx j1 \<le> length B1" and fu: "length B1 - block_idx j1 + length R0 + 1 < n" using b(7,8) Suc.prems(9) by auto
    from nested_block_run[OF b(1-3,6) le fu refl, simplified b(7) if_True]
    consider (no) r2 s2 where "?o = []" "nested_block n bg nx j1 r1 s1 = (Inr (False, j1\<lparr>block_idx := length B1\<rparr>, r2), s2)" "I s2 l1 L1 r2 R0"
      | (yes) i y R' r2 s2 where "i < length B1" "?o = (B1 ! i @ y) # matches c R' (B1 ! i) @ joined c (drop (Suc i) B1) R0" "I s2 l1 L1 r2 (y # R')"
        "nested_block n bg nx j1 r1 s1 = (Inr (True, j1\<lparr>block_idx := i, jn_record := Some (B1 ! i @ y), jn_end := False\<rparr>, r2), s2)"
      by blast
    then show ?thesis
    proof cases
      case yes
      let ?j = "j1\<lparr>block_idx := i, jn_record := Some (B1 ! i @ y), jn_end := False\<rparr>"
      have "find_next_nested (Suc n) bg nx j l r s = (Inr (?j, l1, r2), s2)" unfolding run using yes(4) by (simp add: em_defs)
      moreover have "nested_at N s2 ?j l1 r2 out"
      proof -
        have "block ?j B1" "join_of ?j" using b(2,3) by (simp_all add: block_def join_of_def)
        moreover have "out = ?o @ joined c L1 R0" using b(9) by simp
        then have "out = (B1 ! i @ y) # matches c R' (B1 ! i) @ joined c (drop (Suc i) B1) R0 @ joined c L1 R0" unfolding yes(2) by simp
        ultimately show ?thesis using yes(1,3) b(4,6,8) Suc.prems(8) unfolding nested_at_def
          by (intro conjI disjI2 exI[of _ B1] exI[of _ L1] exI[of _ y] exI[of _ R']) simp_all
      qed
      ultimately show ?thesis by blast
    next
      case no
      let ?j = "(clear_block (j1\<lparr>block_idx := length B1\<rparr>))\<lparr>block_idx := 0\<rparr>"
      have e: "find_next_nested (Suc n) bg nx j l r s = find_next_nested n bg nx ?j l1 r2 s2" unfolding run using no(2) by (simp add: em_defs)
      have h: "block ?j []" "join_of ?j" "\<not> hash_probe_enabled ?j" "jn_end ?j"
        using b(3-5) by (simp_all add: block_def clear_block_def join_of_def)
      have "1 \<le> length B1" using b(7) by simp
      then have "length L1 + length R0 + 3 < n" "length L1 \<le> N" using b(8) Suc.prems(8,9) by linarith+
      then show ?thesis unfolding e
        using Suc.IH[OF no(3) h, of out] no(1) b(9) by simp
    qed
  qed
  show ?case
  proof (cases "B = []")
    case False
    then have cnt: "left_block_count j \<noteq> 0" using Suc.prems(2) by (simp add: block_def)
    show ?thesis
      by (rule go[OF Suc.prems(1-6)]) (use False Suc.prems(7,10) cnt in \<open>simp_all add: em_defs\<close>)
  next
    case True
    then have cnt: "left_block_count j = 0" "left_block_buf j = []" using Suc.prems(2) by (simp_all add: block_def)
    have "block (clear_block j) []" "join_of (clear_block j)" "length L < n" using Suc.prems(3,9) by (simp_all add: block_def clear_block_def join_of_def)
    from fill_block[OF Suc.prems(1) this]
    obtain L1 L2 j1 l1 s1 where f: "L = L1 @ L2" "fill_left_block n nx (clear_block j) l s = (Inr (j1, l1), s1)" "I s1 l1 L2 r R" "block j1 L1"
      "refilled (clear_block j) j1" "[] = [] \<and> L \<noteq> [] \<longrightarrow> L1 \<noteq> []" unfolding append_Nil by blast
    have j1: "join_of j1" "\<not> hash_probe_enabled j1" "jn_end j1"
      using f(5) Suc.prems(3-5) by (auto simp: refilled_def join_of_def clear_block_def)
    show ?thesis
    proof (cases "L1 = []")
      case l1: True
      then have "left_block_count j1 = 0" using f(4) by (simp add: block_def)
      then have "find_next_nested (Suc n) bg nx j l r s = (Inr (j1, l1, r), s1)"
        using cnt f(2) by (simp add: em_defs load_left_block_def)
      moreover have "L = []" using f(6) l1 by blast
      then have "out = []" unfolding Suc.prems(10) True by simp
      ultimately show ?thesis using j1 f(3) unfolding nested_at_def by blast
    next
      case ne: False
      then have c1: "left_block_count j1 \<noteq> 0" using f(4) by (simp add: block_def)
      obtain r1 s2 where b: "bg r s1 = (Inr r1, s2)" "I s2 l1 L2 r1 R0" using right_begin[OF f(3)] Suc.prems(7) True by auto
      let ?j = "j1\<lparr>block_idx := 0\<rparr>"
      have "set L1 \<subseteq> A" using tuples[OF Suc.prems(1)] f(1) by simp
      moreover have "find_next_nested (Suc n) bg nx j l r s = em_bind (nested_block n bg nx ?j r1) (\<lambda>(b, j2, r2).
                if b then em_return (j2, l1, r2) else find_next_nested n bg nx ((clear_block j2)\<lparr>block_idx := 0\<rparr>) l1 r2) s2"
        using cnt f(2) b(1) c1 by (simp add: em_defs load_left_block_def)
      moreover have "out = matches c R0 (L1 ! 0) @ joined c (drop (Suc 0) L1) R0 @ joined c L2 R0"
        using Suc.prems(10) True ne f(1) by (cases L1) simp_all
      ultimately show ?thesis
        by (intro go[OF b(2), of ?j L1]) (use f(1,4) j1 ne True in \<open>simp_all add: block_def\<close>)
    qed
  qed
qed simp

lemma nested_begin:
  assumes "I s l L r []" "join_of j" "\<not> hash_probe_enabled j" "length L + length R0 + 3 < n"
  shows "\<exists>j' l' r' s'. join_find_next n bg nx (reset_hash_block (j\<lparr>block_idx := 0\<rparr>)) l r s = (Inr (JoinEx j' l' r'), s') \<and>
     nested_at (length L) s' j' l' r' (joined c L R0)"
proof -
  let ?j = "(reset_hash_block (j\<lparr>block_idx := 0\<rparr>))\<lparr>jn_end := True, jn_record := None\<rparr>"
  have "block ?j []" "join_of ?j" "\<not> hash_probe_enabled ?j" "jn_end ?j"
    using assms(2,3) by (simp_all add: block_def reset_hash_block_def clear_block_def join_of_def)
  from find_next_nested_run[OF assms(1) this, of "length L" n "joined c L R0"] assms(4)
  obtain j' l' r' s' where "find_next_nested n bg nx ?j l r s = (Inr (j', l', r'), s')" "nested_at (length L) s' j' l' r' (joined c L R0)" by auto
  then show ?thesis using assms(3) by (auto simp: join_find_next_def em_defs reset_hash_block_def clear_block_def)
qed

lemma nested_next:
  assumes a: "nested_at N s j l r (x # out)" and n: "N + length R0 + 3 < n"
  shows "\<exists>j' l' r' s'. join_next n bg nx j l r s = (Inr (JoinEx j' l' r'), s') \<and> nested_at N s' j' l' r' out"
    and "jn_record j = Some x" "\<not> jn_end j"
proof -
  from a obtain B L y R where h: "join_of j" "\<not> hash_probe_enabled j" "\<not> jn_end j" "block j B" "set B \<subseteq> A" "block_idx j < length B"
    "length B + length L \<le> N" "I s l L r (y # R)" "jn_record j = Some (B ! block_idx j @ y)" "x = B ! block_idx j @ y"
    "out = matches c R (B ! block_idx j) @ joined c (drop (Suc (block_idx j)) B) R0 @ joined c L R0"
    unfolding nested_at_def by auto
  obtain r1 s1 where r1: "nx r s = (Inr r1, s1)" "I s1 l L r1 R" using right_next[OF h(8)] by blast
  let ?j = "j\<lparr>jn_end := True, jn_record := None\<rparr>"
  have "block ?j B" "join_of ?j" "\<not> hash_probe_enabled ?j" "jn_end ?j" using h(1,2,4) by (simp_all add: block_def join_of_def)
  note run = find_next_nested_run[OF r1(2) this h(5), of N n out]
  have "if B = [] then R = [] \<or> R = R0 else block_idx ?j < length B" "length B + length L \<le> N" "length B + length L + length R0 + 3 < n"
    "out = (if B = [] then [] else matches c R (B ! block_idx ?j) @ joined c (drop (Suc (block_idx ?j)) B) R0) @ joined c L R0"
    using h(6,7,11) n by auto
  from run[OF this] obtain j' l' r' s'
    where "find_next_nested n bg nx ?j l r1 s1 = (Inr (j', l', r'), s')" "nested_at N s' j' l' r' out" by blast
  then show "\<exists>j' l' r' s'. join_next n bg nx j l r s = (Inr (JoinEx j' l' r'), s') \<and> nested_at N s' j' l' r' out"
    using h(2,3) r1(1) by (auto simp: join_next_def join_find_next_def em_defs)
  show "jn_record j = Some x" "\<not> jn_end j" using h by simp_all
qed

lemma join_next_moved:
  assumes "\<not> jn_end j"
  shows "join_next n bg nx (j\<lparr>jn_record := None\<rparr>) l r = join_next n bg nx j l r"
proof -
  have "join_find_next n bg nx (j\<lparr>jn_record := None\<rparr>) l = join_find_next n bg nx j l"
    by (simp add: join_find_next_def fun_eq_iff)
  then show ?thesis using assms by (simp add: join_next_def)
qed

lemma nested_drain:
  assumes "nested_at N s j l r out" "N + length R0 + 3 < n" "length out < k" and nxj: "\<And>j l r. nxj (JoinEx j l r) = join_next n bg nx j l r"
  shows "\<exists>j' l' L' r' R' s'. drain k ctx nxj (\<lambda>rec recs. Inr (recs @ [rec])) acc (JoinEx j l r) s = (Inr (acc @ out, JoinEx j' l' r'), s') \<and> I s' l' L' r' R'"
  using assms(1,3)
proof (induction k arbitrary: s j l r out acc)
  case (Suc k)
  show ?case
  proof (cases out)
    case Nil
    then show ?thesis using Suc.prems(1) by (auto simp: nested_at_def em_return_def)
  next
    case (Cons x out')
    note st = nested_next[OF Suc.prems(1)[unfolded Cons] assms(2)]
    obtain j' l' r' s' where n: "join_next n bg nx j l r s = (Inr (JoinEx j' l' r'), s')" "nested_at N s' j' l' r' out'" using st(1) by blast
    have "drain (Suc k) ctx nxj (\<lambda>rec recs. Inr (recs @ [rec])) acc (JoinEx j l r) s =
        drain k ctx nxj (\<lambda>rec recs. Inr (recs @ [rec])) (acc @ [x]) (JoinEx j' l' r') s'"
      using st(2,3) n(1) by (simp add: ex_tuple_def em_defs sys_res_def nxj join_next_moved)
    then show ?thesis using Suc.IH[OF n(2), of "acc @ [x]"] Suc.prems(2) Cons by simp
  qed
qed simp

end

section \<open>Joining with the hash table\<close>

lemma left_key_append: "left_key cs d = Inr k \<Longrightarrow> left_key cs (d @ e) = Inr k"
proof (induction cs arbitrary: k)
  case (Cons c cs)
  then show ?case by (auto simp: rbind_Inr key_part_def read_at_def get_bytes_def split: if_splits)
qed simp

text \<open>The rows of the block whose key is \<open>k\<close>.\<close>

definition bucket :: "(byte list \<times> nat list) list \<Rightarrow> byte list \<Rightarrow> nat list" where
  "bucket m k = (case map_of m k of None \<Rightarrow> [] | Some xs \<Rightarrow> xs)"

lemma bucket_push: "bucket (hash_push k i m) k' = (if k = k' then bucket m k @ [i] else bucket m k')"
  by (simp add: bucket_def hash_push_def update_conv' split: option.splits)

lemma hash_rows_buckets:
  assumes "\<forall>i \<in> set is. left_key (cond_specs j) (left_tuple_at j i) = Inr (key i)"
  shows "\<exists>m'. hash_rows j is m = Inr m' \<and> (\<forall>k. bucket m' k = bucket m k @ filter (\<lambda>i. key i = k) is)"
  using assms
proof (induction "is" arbitrary: m)
  case (Cons i "is")
  then obtain m' where "hash_rows j is (hash_push (key i) i m) = Inr m'" "\<forall>k. bucket m' k = bucket (hash_push (key i) i m) k @ filter (\<lambda>i. key i = k) is"
    by force
  then show ?case using Cons.prems by (auto simp: bucket_push)
qed simp

lemma joined_right: "mset (joined c B (y # R)) = mset (map (\<lambda>x. x @ y) (filter (\<lambda>x. c x y) B)) + mset (joined c B R)"
  by (induction B) (simp_all add: matches_def)

lemma joined_none [simp]: "joined c B [] = []"
  by (induction B) (simp_all add: matches_def)

lemma filter_rows: "map (\<lambda>i. f (B ! i)) (filter (\<lambda>i. p (B ! i)) [0..<length B]) = map f (filter p B)"
proof -
  have "map f (filter p (map ((!) B) [0..<length B])) = map (\<lambda>i. f (B ! i)) (filter (\<lambda>i. p (B ! i)) [0..<length B])"
    by (simp add: filter_map o_def)
  then show ?thesis by (simp add: map_nth)
qed

locale hash_inputs = join_inputs +
  fixes lk rk :: "byte list \<Rightarrow> byte list"
  assumes keys: "x \<in> A \<Longrightarrow> left_key specs x = Inr (lk x)" "x \<in> A \<Longrightarrow> y \<in> set R0 \<Longrightarrow> right_key specs y = Inr (rk y)"
    and key_match: "x \<in> A \<Longrightarrow> y \<in> set R0 \<Longrightarrow> c x y \<longleftrightarrow> lk x = rk y"
begin

definition hash_of :: "byte list list \<Rightarrow> (byte list \<times> nat list) list \<Rightarrow> bool" where
  "hash_of B m \<longleftrightarrow> (\<forall>k. bucket m k = filter (\<lambda>i. lk (B ! i) = k) [0..<length B])"

lemma build_hash:
  assumes "block j B" "join_of j" "set B \<subseteq> A"
  shows "\<exists>m. build_eq_hash j = Inr (j\<lparr>eq_hash := m\<rparr>) \<and> hash_of B m"
proof -
  have w: "\<forall>x \<in> set B. length x = nl" using assms(3) widths(1) by blast
  have k: "left_key (cond_specs j) (left_tuple_at j i) = Inr (lk (B ! i))" if "i < length B" for i
  proof -
    have "left_tuple_at j i = B ! i @ concat (drop (Suc i) B)"
      using assms(1,2) that drop_concat[OF w, of i] by (simp add: left_tuple_at_def block_def join_of_def Cons_nth_drop_Suc[symmetric])
    moreover have "left_key specs (B ! i) = Inr (lk (B ! i))" using keys(1)[of "B ! i"] assms(3) nth_mem[OF that] by blast
    ultimately show ?thesis using left_key_append assms(2) by (simp add: join_of_def)
  qed
  have "\<forall>i \<in> set [0..<length B]. left_key (cond_specs j) (left_tuple_at j i) = Inr (lk (B ! i))" using k by simp
  from hash_rows_buckets[OF this, of "[]"]
  obtain m where "hash_rows j [0..<length B] [] = Inr m" "\<forall>k. bucket m k = filter (\<lambda>i. lk (B ! i) = k) [0..<length B]"
    by (auto simp: bucket_def)
  then show ?thesis using assms(1) by (auto simp: build_eq_hash_def block_def hash_of_def)
qed

lemma bucket_matches:
  assumes "hash_of B m" "set B \<subseteq> A" "y \<in> set R0"
  shows "map (\<lambda>i. B ! i @ y) (bucket m (rk y)) = map (\<lambda>x. x @ y) (filter (\<lambda>x. c x y) B)" and "set (bucket m (rk y)) \<subseteq> {..<length B}"
proof -
  have "filter (\<lambda>x. lk x = rk y) B = filter (\<lambda>x. c x y) B" using assms(2,3) key_match by (intro filter_cong) auto
  then show "map (\<lambda>i. B ! i @ y) (bucket m (rk y)) = map (\<lambda>x. x @ y) (filter (\<lambda>x. c x y) B)"
    using assms(1) filter_rows[of "\<lambda>x. x @ y" B "\<lambda>x. lk x = rk y"] by (simp add: hash_of_def)
  show "set (bucket m (rk y)) \<subseteq> {..<length B}" using assms(1) by (auto simp: hash_of_def)
qed

text \<open>Before the loop: no block (\<open>hash_load\<close>), at a right tuple that was not looked up (\<open>hash_scan\<close>), or among the rows found for it
  (\<open>hash_emit\<close>); \<open>M\<close> are the tuples to come and \<open>k\<close> bounds the iterations.\<close>

definition hash_cost :: "byte list list \<Rightarrow> nat" where
  "hash_cost L = (2 * length R0 + 3) * length L"

definition hash_load :: "Sys \<Rightarrow> JoinSt \<Rightarrow> Exec \<Rightarrow> Exec \<Rightarrow> byte list multiset \<Rightarrow> nat \<Rightarrow> bool" where
  "hash_load s j l r M k \<longleftrightarrow> (\<exists>L R. \<not> hash_block_ready j \<and> hash_match_indices j = [] \<and> hash_match_pos j = 0 \<and> (R = [] \<or> R = R0) \<and>
     I s l L r R \<and> M = mset (joined c L R0) \<and> k = hash_cost L + 1)"

definition hash_scan :: "Sys \<Rightarrow> JoinSt \<Rightarrow> Exec \<Rightarrow> Exec \<Rightarrow> byte list multiset \<Rightarrow> nat \<Rightarrow> bool" where
  "hash_scan s j l r M k \<longleftrightarrow> (\<exists>B L R. hash_block_ready j \<and> block j B \<and> B \<noteq> [] \<and> set B \<subseteq> A \<and> hash_of B (eq_hash j) \<and>
     hash_match_indices j = [] \<and> hash_match_pos j = 0 \<and> I s l L r R \<and> M = mset (joined c B R) + mset (joined c L R0) \<and>
     k = hash_cost L + 2 * length R + 2)"

definition hash_emit :: "Sys \<Rightarrow> JoinSt \<Rightarrow> Exec \<Rightarrow> Exec \<Rightarrow> byte list multiset \<Rightarrow> nat \<Rightarrow> bool" where
  "hash_emit s j l r M k \<longleftrightarrow> (\<exists>B L y R. hash_block_ready j \<and> block j B \<and> B \<noteq> [] \<and> set B \<subseteq> A \<and> hash_of B (eq_hash j) \<and>
     hash_match_indices j \<noteq> [] \<and> set (hash_match_indices j) \<subseteq> {..<length B} \<and> hash_match_pos j \<le> length (hash_match_indices j) \<and> I s l L r (y # R) \<and>
     M = mset (map (\<lambda>i. B ! i @ y) (drop (hash_match_pos j) (hash_match_indices j))) + mset (joined c B R) + mset (joined c L R0) \<and>
     k = hash_cost L + 2 * length R + 3)"

definition hash_join :: "JoinSt \<Rightarrow> bool" where
  "hash_join j \<longleftrightarrow> join_of j \<and> hash_probe_enabled j \<and> jn_end j"

text \<open>Between two calls.\<close>

definition hash_at :: "nat \<Rightarrow> Sys \<Rightarrow> JoinSt \<Rightarrow> Exec \<Rightarrow> Exec \<Rightarrow> byte list multiset \<Rightarrow> bool" where
  "hash_at N s j l r M \<longleftrightarrow> join_of j \<and> hash_probe_enabled j \<and>
     (jn_end j \<and> M = {#} \<and> (\<exists>L R. I s l L r R) \<or>
      \<not> jn_end j \<and> (\<exists>x M' k. jn_record j = Some x \<and> M = add_mset x M' \<and> hash_emit s j l r M' k \<and> k \<le> N))"

lemma hash_upd [simp]:
  "hash_load s (j\<lparr>jn_record := x, jn_end := e\<rparr>) = hash_load s j" "hash_emit s (j\<lparr>jn_record := x, jn_end := e\<rparr>) = hash_emit s j"
  "hash_join (j\<lparr>jn_record := x, jn_end := True\<rparr>) \<longleftrightarrow> join_of j \<and> hash_probe_enabled j"
  "hash_emit s (j\<lparr>jn_end := e, jn_record := x\<rparr>) = hash_emit s j"
  "hash_join (j\<lparr>jn_end := True, jn_record := x\<rparr>) \<longleftrightarrow> join_of j \<and> hash_probe_enabled j"
  by (simp_all add: hash_load_def hash_emit_def hash_join_def block_def join_of_def fun_eq_iff)

text \<open>The rest of an iteration after a block is there.\<close>

definition hash_probe :: "nat \<Rightarrow> JoinSt \<Rightarrow> Exec \<Rightarrow> Exec \<Rightarrow> (Sys, JoinSt \<times> Exec \<times> Exec) em" where
  "hash_probe n j l r =
     (if ex_is_end r then find_next_hash n bg nx (reset_hash_block j) l r
      else case peekTuple r of
        None \<Rightarrow> em_bind (nx r) (find_next_hash n bg nx j l)
      | Some rec \<Rightarrow> em_bind (sys_res (right_key (cond_specs j) rec)) (\<lambda>k.
          case map_of (eq_hash j) k of
            Some (i # is) \<Rightarrow> find_next_hash n bg nx (j\<lparr>hash_match_indices := i # is, hash_match_pos := 0\<rparr>) l r
          | _ \<Rightarrow> em_bind (nx r) (find_next_hash n bg nx j l)))"

lemma hash_probe_run:
  assumes "hash_scan s j l r M k" "hash_join j"
    and ih: "\<And>s j l r k'. hash_load s j l r M k' \<or> hash_scan s j l r M k' \<or> hash_emit s j l r M k' \<Longrightarrow> hash_join j \<Longrightarrow> k' < k \<Longrightarrow>
      Q (find_next_hash n bg nx j l r s)"
  shows "Q (hash_probe n j l r s)"
proof -
  obtain B L R where h: "hash_block_ready j" "block j B" "B \<noteq> [] \<and> set B \<subseteq> A" "hash_of B (eq_hash j)" "hash_match_indices j = []" "hash_match_pos j = 0"
    "I s l L r R" "M = mset (joined c B R) + mset (joined c L R0)" "k = hash_cost L + 2 * length R + 2"
    using assms(1) unfolding hash_scan_def by blast
  show ?thesis
  proof (cases R)
    case Nil
    have "hash_load s (reset_hash_block j) l r M (hash_cost L + 1)"
      using h(7,8) Nil unfolding hash_load_def by (intro exI[of _ L] exI[of _ "[]"]) (simp add: reset_hash_block_def clear_block_def)
    moreover have "hash_join (reset_hash_block j)" using assms(2) by (simp add: hash_join_def reset_hash_block_def clear_block_def join_of_def)
    ultimately have "Q (find_next_hash n bg nx (reset_hash_block j) l r s)" using h(9) by (intro ih[OF disjI1, of _ _ _ _ "hash_cost L + 1"]) simp_all
    then show ?thesis using right_view[OF h(7)] Nil by (simp add: hash_probe_def)
  next
    case (Cons y R')
    have y: "y \<in> set R0" "peekTuple r = Some y" "\<not> ex_is_end r" using tuples[OF h(7)] right_view[OF h(7)] Cons by auto
    have "hd B \<in> A" using h(3) by (cases B) auto
    then have rk: "right_key (cond_specs j) y = Inr (rk y)" using keys(2)[OF _ y(1)] assms(2) by (simp add: hash_join_def join_of_def)
    note b = bucket_matches[OF h(4) _ y(1)]
    show ?thesis
    proof (cases "bucket (eq_hash j) (rk y)")
      case Nil
      obtain r1 s1 where n: "nx r s = (Inr r1, s1)" "I s1 l L r1 R'" using right_next h(7) Cons by blast
      have "filter (\<lambda>x. c x y) B = []" using b(1) h(3) Nil by (simp add: map_is_Nil_conv[symmetric])
      then have "hash_scan s1 j l r1 M (hash_cost L + 2 * length R' + 2)"
        using h(1-6,8) n(2) Cons joined_right[of c B y R'] unfolding hash_scan_def
        by (intro exI[of _ B] exI[of _ L] exI[of _ R']) simp
      then have "Q (find_next_hash n bg nx j l r1 s1)" using assms(2) h(9) Cons by (intro ih[OF disjI2[OF disjI1], of _ _ _ _ "hash_cost L + 2 * length R' + 2"]) simp_all
      then show ?thesis using y rk n(1) Nil by (auto simp: hash_probe_def em_defs sys_res_def bucket_def split: option.splits list.splits)
    next
      case (Cons i "is")
      let ?j = "j\<lparr>hash_match_indices := i # is, hash_match_pos := 0\<rparr>"
      have "hash_emit s ?j l r M (hash_cost L + 2 * length R' + 3)"
        using h(1-4,7,8) b \<open>R = y # R'\<close> Cons joined_right[of c B y R'] unfolding hash_emit_def
        by (intro exI[of _ B] exI[of _ L] exI[of _ y] exI[of _ R']) (simp add: block_def)
      moreover have "hash_join ?j" using assms(2) by (simp add: hash_join_def join_of_def)
      ultimately have "Q (find_next_hash n bg nx ?j l r s)"
        using h(9) \<open>R = y # R'\<close> by (intro ih[OF disjI2[OF disjI2], of _ _ _ _ "hash_cost L + 2 * length R' + 3"]) simp_all
      moreover have "map_of (eq_hash j) (rk y) = Some (i # is)" using Cons by (simp add: bucket_def split: option.splits)
      ultimately show ?thesis using y rk by (simp add: hash_probe_def em_defs sys_res_def)
    qed
  qed
qed

lemma hash_emit_step:
  assumes "hash_emit s j l r M k" "hash_join j" "k \<le> N"
  shows "(\<exists>j'. emit_hash_match j r = Inr (True, j') \<and> hash_at N s j' l r M) \<or>
     emit_hash_match j r = Inr (False, j) \<and> (\<exists>r' s'. nx r s = (Inr r', s') \<and> \<not> ex_is_end r \<and> hash_block_ready j \<and> hash_match_indices j \<noteq> [] \<and>
        hash_scan s' (j\<lparr>hash_match_indices := [], hash_match_pos := 0\<rparr>) l r' M (k - 1))"
proof -
  obtain B L y R where h: "hash_block_ready j" "block j B" "B \<noteq> [] \<and> set B \<subseteq> A" "hash_of B (eq_hash j)" "hash_match_indices j \<noteq> []"
    "set (hash_match_indices j) \<subseteq> {..<length B}" "hash_match_pos j \<le> length (hash_match_indices j)" "I s l L r (y # R)"
    "M = mset (map (\<lambda>i. B ! i @ y) (drop (hash_match_pos j) (hash_match_indices j))) + mset (joined c B R) + mset (joined c L R0)"
    "k = hash_cost L + 2 * length R + 3"
    using assms(1) unfolding hash_emit_def by blast
  have y: "y \<in> set R0" "peekTuple r = Some y" "\<not> ex_is_end r" using tuples[OF h(8)] right_view[OF h(8)] by auto
  show ?thesis
  proof (cases "hash_match_pos j < length (hash_match_indices j)")
    case True
    let ?i = "hash_match_indices j ! hash_match_pos j" and ?j = "j\<lparr>hash_match_pos := Suc (hash_match_pos j)\<rparr>"
    have "?i < length B" using h(6) nth_mem[OF True] by blast
    then have rec: "join_records j (left_tuple_at j ?i) y = Inr (B ! ?i @ y)"
      using block_tuple(2)[OF h(2)] h(3) assms(2) y(1) by (simp add: hash_join_def)
    let ?M = "mset (map (\<lambda>i. B ! i @ y) (drop (Suc (hash_match_pos j)) (hash_match_indices j))) + mset (joined c B R) + mset (joined c L R0)"
    have "hash_emit s ?j l r ?M k"
      unfolding hash_emit_def using h(1-8,10) True by (intro exI[of _ B] exI[of _ L] exI[of _ y] exI[of _ R]) (simp add: block_def)
    moreover have "M = add_mset (B ! ?i @ y) ?M" using h(9) Cons_nth_drop_Suc[OF True] by (metis (no_types, lifting) list.simps(9) mset.simps(2) union_mset_add_mset_left)
    ultimately have "hash_at N s (?j\<lparr>jn_record := Some (B ! ?i @ y), jn_end := False\<rparr>) l r M"
      using assms(2,3) by (auto simp: hash_at_def hash_join_def join_of_def)
    moreover have "emit_hash_match j r = Inr (True, ?j\<lparr>jn_record := Some (B ! ?i @ y), jn_end := False\<rparr>)"
      using True y rec by (simp add: emit_hash_match_def)
    ultimately show ?thesis by blast
  next
    case False
    obtain r1 s1 where n: "nx r s = (Inr r1, s1)" "I s1 l L r1 R" using right_next[OF h(8)] by blast
    have "hash_scan s1 (j\<lparr>hash_match_indices := [], hash_match_pos := 0\<rparr>) l r1 M (k - 1)"
      unfolding hash_scan_def using h(1-4,7,9,10) n(2) False by (intro exI[of _ B] exI[of _ L] exI[of _ R]) (simp add: block_def)
    then show ?thesis using n(1) h(1,5) y(3) False by (auto simp: emit_hash_match_def)
  qed
qed

lemma hash_load_step:
  assumes "hash_load s j l r M k" "hash_join j" "k \<le> n"
  shows "\<exists>j2 l2 s2. load_left_block n nx j l s = (Inr (j2, l2), s2) \<and>
     (left_block_count j2 = 0 \<and> \<not> hash_block_ready j2 \<and> hash_at N s2 j2 l2 r M \<or>
      left_block_count j2 \<noteq> 0 \<and> (\<exists>m r2 s3 k'. build_eq_hash j2 = Inr (j2\<lparr>eq_hash := m\<rparr>) \<and> bg r s2 = (Inr r2, s3) \<and>
        hash_scan s3 (j2\<lparr>eq_hash := m, hash_block_ready := True\<rparr>) l2 r2 M k' \<and> hash_join (j2\<lparr>eq_hash := m, hash_block_ready := True\<rparr>) \<and> k' < k))"
proof -
  obtain L R where h: "\<not> hash_block_ready j" "hash_match_indices j = []" "hash_match_pos j = 0" "R = [] \<or> R = R0" "I s l L r R"
    "M = mset (joined c L R0)" "k = hash_cost L + 1"
    using assms(1) unfolding hash_load_def by blast
  have "length L \<le> hash_cost L" by (simp add: hash_cost_def)
  then have "block (clear_block j) []" "join_of (clear_block j)" "length L < n"
    using assms(2,3) h(7) by (simp_all add: block_def clear_block_def join_of_def hash_join_def)
  from fill_block[OF h(5) this]
  obtain L1 L2 j2 l2 s2 where f: "L = L1 @ L2" "fill_left_block n nx (clear_block j) l s = (Inr (j2, l2), s2)" "I s2 l2 L2 r R" "block j2 L1"
    "refilled (clear_block j) j2" "[] = [] \<and> L \<noteq> [] \<longrightarrow> L1 \<noteq> []" unfolding append_Nil by blast
  have j2: "hash_join j2" "\<not> hash_block_ready j2" "hash_match_indices j2 = []" "hash_match_pos j2 = 0"
    using f(5) h(1-3) assms(2) by (auto simp: refilled_def join_of_def clear_block_def hash_join_def)
  have ld: "load_left_block n nx j l s = (Inr (j2, l2), s2)" using f(2) by (simp add: load_left_block_def)
  show ?thesis
  proof (cases "L1 = []")
    case True
    then have "L = []" using f(6) by blast
    then have "hash_at N s2 j2 l2 r M" using h(6) j2(1) f(3) unfolding hash_at_def hash_join_def by auto
    then show ?thesis using ld j2(2) f(4) True by (auto simp: block_def)
  next
    case False
    have a: "set L1 \<subseteq> A" using tuples[OF h(5)] f(1) by simp
    obtain m where m: "build_eq_hash j2 = Inr (j2\<lparr>eq_hash := m\<rparr>)" "hash_of L1 m" using build_hash[OF f(4) _ a] j2(1) by (auto simp: hash_join_def)
    obtain r2 s3 where b: "bg r s2 = (Inr r2, s3)" "I s3 l2 L2 r2 R0" using right_begin[OF f(3) h(4)] by blast
    let ?j = "j2\<lparr>eq_hash := m, hash_block_ready := True\<rparr>" and ?k = "hash_cost L2 + 2 * length R0 + 2"
    have "hash_scan s3 ?j l2 r2 M ?k"
      unfolding hash_scan_def using f(1,4) False a m(2) j2(3,4) b(2) h(6) by (intro exI[of _ L1] exI[of _ L2] exI[of _ R0]) (simp add: block_def)
    moreover have "hash_join ?j" using j2(1) by (simp add: hash_join_def join_of_def)
    moreover have "?k < k"
    proof -
      have "length L2 + 1 \<le> length L" using f(1) False by (cases L1) simp_all
      then have "(2 * length R0 + 3) * (length L2 + 1) \<le> hash_cost L" unfolding hash_cost_def by (rule mult_le_mono2)
      then show ?thesis using h(7) by (simp add: hash_cost_def)
    qed
    moreover have "left_block_count j2 \<noteq> 0" using f(4) False by (simp add: block_def)
    ultimately show ?thesis using ld m(1) b(1) by blast
  qed
qed

lemma find_next_hash_run:
  assumes "hash_load s j l r M k \<or> hash_scan s j l r M k \<or> hash_emit s j l r M k" "hash_join j" "k < n" "k \<le> N"
  shows "\<exists>j' l' r' s'. find_next_hash n bg nx j l r s = (Inr (j', l', r'), s') \<and> hash_at N s' j' l' r' M"
  using assms
proof (induction n arbitrary: s j l r k)
  case (Suc n)
  let ?Q = "\<lambda>x. \<exists>j' l' r' s'. x = (Inr (j', l', r'), s') \<and> hash_at N s' j' l' r' M"
  have probe: "?Q (hash_probe n j' l' r' s')" if "hash_scan s' j' l' r' M k'" "hash_join j'" "k' \<le> k" for s' j' l' r' k'
  proof (rule hash_probe_run[OF that(1,2)])
    fix s j l r k''
    assume "hash_load s j l r M k'' \<or> hash_scan s j l r M k'' \<or> hash_emit s j l r M k''" "hash_join j" "k'' < k'"
    then show "?Q (find_next_hash n bg nx j l r s)" using that(3) Suc.prems(3,4) by (intro Suc.IH[of _ _ _ _ k'']) simp_all
  qed
  have none: "emit_hash_match j r = Inr (False, j)" if "hash_match_indices j = []" using that by (simp add: emit_hash_match_def)
  consider (load) "hash_load s j l r M k" | (scan) "hash_scan s j l r M k" | (emit) "hash_emit s j l r M k" using Suc.prems(1) by blast
  then show ?case
  proof cases
    case load
    have e: "hash_match_indices j = []" "\<not> hash_block_ready j" using load by (auto simp: hash_load_def)
    from hash_load_step[OF load Suc.prems(2), of n N] Suc.prems(3) obtain j2 l2 s2 where l2: "load_left_block n nx j l s = (Inr (j2, l2), s2)"
      "left_block_count j2 = 0 \<and> \<not> hash_block_ready j2 \<and> hash_at N s2 j2 l2 r M \<or>
       left_block_count j2 \<noteq> 0 \<and> (\<exists>m r2 s3 k'. build_eq_hash j2 = Inr (j2\<lparr>eq_hash := m\<rparr>) \<and> bg r s2 = (Inr r2, s3) \<and>
        hash_scan s3 (j2\<lparr>eq_hash := m, hash_block_ready := True\<rparr>) l2 r2 M k' \<and> hash_join (j2\<lparr>eq_hash := m, hash_block_ready := True\<rparr>) \<and> k' < k)"
      by (metis less_Suc_eq_le)
    from l2(2) show ?thesis
    proof (elim disjE conjE exE)
      assume "left_block_count j2 = 0" "\<not> hash_block_ready j2" "hash_at N s2 j2 l2 r M"
      then show ?thesis using e none l2(1) by (simp add: em_defs sys_res_def)
    next
      fix m r2 s3 k'
      assume a: "left_block_count j2 \<noteq> 0" "build_eq_hash j2 = Inr (j2\<lparr>eq_hash := m\<rparr>)" "bg r s2 = (Inr r2, s3)"
        "hash_scan s3 (j2\<lparr>eq_hash := m, hash_block_ready := True\<rparr>) l2 r2 M k'" "hash_join (j2\<lparr>eq_hash := m, hash_block_ready := True\<rparr>)" "k' < k"
      have "find_next_hash (Suc n) bg nx j l r s = hash_probe n (j2\<lparr>eq_hash := m, hash_block_ready := True\<rparr>) l2 r2 s3"
        using a(1-3) e none l2(1) by (simp add: em_defs sys_res_def hash_probe_def)
      then show ?thesis using probe[OF a(4,5)] a(6) by simp
    qed
  next
    case scan
    then have e: "hash_match_indices j = []" "hash_block_ready j" by (auto simp: hash_scan_def)
    have "find_next_hash (Suc n) bg nx j l r s = hash_probe n j l r s" using e none by (simp add: em_defs sys_res_def hash_probe_def)
    then show ?thesis using probe[OF scan Suc.prems(2)] by simp
  next
    case emit
    then have "k \<le> N" using Suc.prems(3,4) by simp
    from hash_emit_step[OF emit Suc.prems(2) this] show ?thesis
    proof (elim disjE conjE exE)
      fix j' assume "emit_hash_match j r = Inr (True, j')" "hash_at N s j' l r M"
      then show ?thesis by (simp add: em_defs sys_res_def)
    next
      fix r' s'
      assume a: "emit_hash_match j r = Inr (False, j)" "nx r s = (Inr r', s')" "\<not> ex_is_end r" "hash_block_ready j" "hash_match_indices j \<noteq> []"
        "hash_scan s' (j\<lparr>hash_match_indices := [], hash_match_pos := 0\<rparr>) l r' M (k - 1)"
      let ?j = "j\<lparr>hash_match_indices := [], hash_match_pos := 0\<rparr>"
      have "find_next_hash (Suc n) bg nx j l r s = hash_probe n ?j l r' s'"
        using a(1-5) by (simp add: em_defs sys_res_def hash_probe_def)
      moreover have "hash_join ?j" using Suc.prems(2) by (simp add: hash_join_def join_of_def)
      ultimately show ?thesis using probe[OF a(6)] by simp
    qed
  qed
qed simp

lemma hash_begin:
  assumes "I s l L r []" "join_of j" "hash_probe_enabled j" "hash_cost L + 1 < n"
  shows "\<exists>j' l' r' s'. join_find_next n bg nx (reset_hash_block (j\<lparr>block_idx := 0\<rparr>)) l r s = (Inr (JoinEx j' l' r'), s') \<and>
     hash_at (hash_cost L + 1) s' j' l' r' (mset (joined c L R0))"
proof -
  let ?j = "(reset_hash_block (j\<lparr>block_idx := 0\<rparr>))\<lparr>jn_end := True, jn_record := None\<rparr>"
  have "hash_load s ?j l r (mset (joined c L R0)) (hash_cost L + 1)"
    using assms(1) unfolding hash_load_def by (intro exI[of _ L] exI[of _ "[]"]) (simp add: reset_hash_block_def clear_block_def)
  moreover have "hash_join ?j" using assms(2,3) by (simp add: reset_hash_block_def clear_block_def hash_join_def join_of_def)
  ultimately obtain j' l' r' s' where "find_next_hash n bg nx ?j l r s = (Inr (j', l', r'), s')" "hash_at (hash_cost L + 1) s' j' l' r' (mset (joined c L R0))"
    using find_next_hash_run[of s ?j l r "mset (joined c L R0)" "hash_cost L + 1" n "hash_cost L + 1"] assms(4) by auto
  then show ?thesis using assms(3) by (auto simp: join_find_next_def em_defs reset_hash_block_def clear_block_def)
qed

lemma hash_next:
  assumes a: "hash_at N s j l r M" and n: "N < n" "\<not> jn_end j"
  shows "\<exists>x M' j' l' r' s'. jn_record j = Some x \<and> M = add_mset x M' \<and> join_next n bg nx j l r s = (Inr (JoinEx j' l' r'), s') \<and> hash_at N s' j' l' r' M'"
proof -
  from a n(2) obtain x M' k where h: "join_of j" "hash_probe_enabled j" "jn_record j = Some x" "M = add_mset x M'" "hash_emit s j l r M' k" "k \<le> N"
    unfolding hash_at_def by blast
  let ?j = "j\<lparr>jn_end := True, jn_record := None\<rparr>"
  have "hash_emit s ?j l r M' k" "hash_join ?j" using h(1,2,5) by simp_all
  then obtain j' l' r' s' where "find_next_hash n bg nx ?j l r s = (Inr (j', l', r'), s')" "hash_at N s' j' l' r' M'"
    using find_next_hash_run[of s ?j l r M' k n N] h(6) n(1) by auto
  then show ?thesis using h(2,3,4) n(2) by (auto simp: join_next_def join_find_next_def em_defs)
qed

lemma hash_drain:
  assumes "hash_at N s j l r M" "N < n" "size M < k" and nxj: "\<And>j l r. nxj (JoinEx j l r) = join_next n bg nx j l r"
  shows "\<exists>out j' l' L' r' R' s'. drain k ctx nxj (\<lambda>rec recs. Inr (recs @ [rec])) acc (JoinEx j l r) s = (Inr (acc @ out, JoinEx j' l' r'), s') \<and>
     mset out = M \<and> I s' l' L' r' R'"
  using assms(1,3)
proof (induction k arbitrary: s j l r M acc)
  case (Suc k)
  show ?case
  proof (cases "jn_end j")
    case True
    then have "M = {#}" "\<exists>L R. I s l L r R" using Suc.prems(1) by (auto simp: hash_at_def)
    then show ?thesis using True by (auto simp: em_return_def intro!: exI[of _ "[]"])
  next
    case False
    from hash_next[OF Suc.prems(1) assms(2) False]
    obtain x M' j' l' r' s' where st: "jn_record j = Some x" "M = add_mset x M'" "join_next n bg nx j l r s = (Inr (JoinEx j' l' r'), s')"
      "hash_at N s' j' l' r' M'" by blast
    have e: "drain (Suc k) ctx nxj (\<lambda>rec recs. Inr (recs @ [rec])) acc (JoinEx j l r) s =
        drain k ctx nxj (\<lambda>rec recs. Inr (recs @ [rec])) (acc @ [x]) (JoinEx j' l' r') s'"
      using st(1,3) False by (simp add: ex_tuple_def em_defs sys_res_def nxj join_next_moved)
    obtain out j2 l2 L2 r2 R2 s2 where "drain k ctx nxj (\<lambda>rec recs. Inr (recs @ [rec])) (acc @ [x]) (JoinEx j' l' r') s' =
        (Inr ((acc @ [x]) @ out, JoinEx j2 l2 r2), s2)" "mset out = M'" "I s2 l2 L2 r2 R2"
      using Suc.IH[OF st(4), of "acc @ [x]"] Suc.prems(2) st(2) by auto
    then show ?thesis unfolding e using st(2) by (intro exI[of _ "x # out"]) auto
  qed
qed simp

end

section \<open>A join of two tables\<close>

text \<open>The state of a join of two table scans: the pages the scans hold are pinned, and so may be the first page the right scan stops at.\<close>

definition first_page :: "int \<Rightarrow> (Rid \<Rightarrow> byte list option) \<Rightarrow> SeqScan \<Rightarrow> Rid list \<Rightarrow> PageId set" where
  "first_page fd T q L = set_mset (scan_page fd (case filter (\<lambda>r. seq_keep q (the (T r))) L of [] \<Rightarrow> no_rid | r # _ \<Rightarrow> r))"

definition scans_at :: "nat \<Rightarrow> txn_id_t option \<Rightarrow> Sys \<Rightarrow> (Rid \<Rightarrow> byte list option) \<Rightarrow> (Rid \<Rightarrow> byte list option) \<Rightarrow> SeqScan \<Rightarrow> SeqScan \<Rightarrow> Rid list \<Rightarrow>
    byte list set \<Rightarrow> Sys \<Rightarrow> Exec \<Rightarrow> byte list list \<Rightarrow> Exec \<Rightarrow> byte list list \<Rightarrow> bool" where
  "scans_at n ctx s0 T U q p K A s l L r R \<longleftrightarrow> (\<exists>b q' p' Lr Rr. s = s0\<lparr>sys_bpm := b\<rparr> \<and> rd_le (sys_bpm s0) b \<and> l = SeqScanEx q' \<and> r = SeqScanEx p' \<and>
     seq_same q q' \<and> seq_same p p' \<and> sys_table (ss_tab q) s T \<and> sys_table (ss_tab p) s U \<and> lockless ctx s0 \<and>
     seq_at T q' Lr \<and> seq_at U p' Rr \<and> L = seq_rest T q Lr \<and> R = seq_rest U p Rr \<and>
     length Lr < n \<and> rid_list U K \<and> length K < n \<and> set L \<subseteq> A \<and>
     rd_at (first_page (sys_fd (ss_tab p) s0) U p K)
       (scan_page (sys_fd (ss_tab q) s0) (ss_scan q') + scan_page (sys_fd (ss_tab p) s0) (ss_scan p')) b)"

lemma seq_rest_same: "seq_same q q' \<Longrightarrow> seq_rest T q' L = seq_rest T q L"
  by (simp add: seq_rest_def seq_same_keep)

lemma scan_page_size: "size (scan_page fd r) \<le> 1"
  by (simp add: scan_page_def)

text \<open>A scan that is before all matching records stands on the first page.\<close>

lemma seq_at_first:
  assumes "seq_at T q L" "rid_list T K" "length (seq_rest T q L) = length (seq_rest T q K)" "L \<noteq> []"
  shows "set_mset (scan_page fd (ss_scan q)) = first_page fd T q K"
proof -
  obtain r L' where L: "L = r # L'" using assms(4) by (cases L) auto
  have c: "cursor T L (ss_scan q)" "seq_keep q (the (T r))" using assms(1) L by (auto simp: seq_at_def)
  then obtain D where "rid_list T (D @ L)" "ss_scan q = r" using L by (auto simp: cursor_def)
  then have K: "K = D @ L" using rid_list_unique assms(2) by blast
  have "filter (\<lambda>r. seq_keep q (the (T r))) D = []"
    using assms(3) by (simp add: K seq_rest_def filter_map o_def)
  then show ?thesis using K L c(2) \<open>ss_scan q = r\<close> by (simp add: first_page_def)
qed

lemma scans_atE:
  assumes "scans_at n ctx s0 T U q p K A s l L r R"
  obtains b q' p' Lr Rr where "s = s0\<lparr>sys_bpm := b\<rparr>" "rd_le (sys_bpm s0) b" "l = SeqScanEx q'" "r = SeqScanEx p'"
    "seq_same q q'" "seq_same p p'" "sys_table (ss_tab q) s T" "sys_table (ss_tab p) s U" "lockless ctx s0"
    "seq_at T q' Lr" "seq_at U p' Rr" "L = seq_rest T q Lr" "R = seq_rest U p Rr"
    "length Lr < n" "rid_list U K" "length K < n" "set L \<subseteq> A"
    "rd_at (first_page (sys_fd (ss_tab p) s0) U p K)
       (scan_page (sys_fd (ss_tab q) s0) (ss_scan q') + scan_page (sys_fd (ss_tab p) s0) (ss_scan p')) b"
  using assms unfolding scans_at_def by blast

lemma scans_view:
  assumes "scans_at n ctx s0 T U q p K A s l L r R"
  shows "(ex_is_end l \<longleftrightarrow> L = []) \<and> (L \<noteq> [] \<longrightarrow> peekTuple l = Some (hd L))" "(ex_is_end r \<longleftrightarrow> R = []) \<and> (R \<noteq> [] \<longrightarrow> peekTuple r = Some (hd R))"
proof -
  obtain q' p' Lr Rr where h: "l = SeqScanEx q'" "r = SeqScanEx p'" "seq_at T q' Lr" "seq_at U p' Rr" "L = seq_rest T q Lr" "R = seq_rest U p Rr"
    "seq_same q q'" "seq_same p p'"
    using assms unfolding scans_at_def by blast
  show "(ex_is_end l \<longleftrightarrow> L = []) \<and> (L \<noteq> [] \<longrightarrow> peekTuple l = Some (hd L))"
    using seq_at_view[OF h(3)] h(1,5) seq_rest_same[OF h(7)] by (cases "seq_rest T q Lr") auto
  show "(ex_is_end r \<longleftrightarrow> R = []) \<and> (R \<noteq> [] \<longrightarrow> peekTuple r = Some (hd R))"
    using seq_at_view[OF h(4)] h(2,6) seq_rest_same[OF h(8)] by (cases "seq_rest U p Rr") auto
qed

lemma seq_rest_suffix:
  assumes "seq_at U p R" "rid_list U K"
  shows "\<exists>D. K = D @ R"
  using assms rid_list_unique by (fastforce simp: seq_at_def cursor_def)

lemma scans_tuples:
  assumes "scans_at n ctx s0 T U q p K A s l L r R"
  shows "set L \<subseteq> A \<and> set R \<subseteq> set (seq_rest U p K) \<and> length R \<le> length (seq_rest U p K)"
proof -
  obtain p' Rr where h: "seq_at U p' Rr" "R = seq_rest U p Rr" "rid_list U K" "set L \<subseteq> A" using assms unfolding scans_at_def by blast
  obtain D where "K = D @ Rr" using seq_rest_suffix[OF h(1,3)] by blast
  then show ?thesis using h(2,4) by (auto simp: seq_rest_def)
qed

lemma scans_left_next:
  assumes "scans_at n ctx s0 T U q p K A s l (x # L) r R"
  shows "\<exists>l' s'. ex_next (Suc n) ctx l s = (Inr l', s') \<and> scans_at n ctx s0 T U q p K A s' l' L r R"
proof -
  from assms obtain b q' p' Lr Rr where h: "s = s0\<lparr>sys_bpm := b\<rparr>" "rd_le (sys_bpm s0) b" "l = SeqScanEx q'" "r = SeqScanEx p'"
    "seq_same q q'" "seq_same p p'" "sys_table (ss_tab q) s T" "sys_table (ss_tab p) s U" "lockless ctx s0"
    "seq_at T q' Lr" "seq_at U p' Rr" "x # L = seq_rest T q Lr" "R = seq_rest U p Rr"
    "length Lr < n" "rid_list U K" "length K < n" "set (x # L) \<subseteq> A"
    "rd_at (first_page (sys_fd (ss_tab p) s0) U p K)
       (scan_page (sys_fd (ss_tab q) s0) (ss_scan q') + scan_page (sys_fd (ss_tab p) s0) (ss_scan p')) b"
    by (rule scans_atE)
  obtain a L1 where Lr: "Lr = a # L1" using h(12) by (cases Lr) (auto simp: seq_rest_def)
  have tab: "ss_tab q' = ss_tab q" using h(5) by (simp add: seq_same_def)
  have L: "seq_rest T q' L1 = L" using seq_rest_Cons[OF h(10)[unfolded Lr]] h(12) Lr seq_rest_same[OF h(5)] by simp
  obtain q2 L2 b2 where st: "seq_next n ctx q' s = (Inr q2, s\<lparr>sys_bpm := b2\<rparr>)" "rd_le b b2" "seq_same q' q2"
    "rd_at (first_page (sys_fd (ss_tab p) s0) U p K) (scan_page (sys_fd (ss_tab q) s0) (ss_scan q2) + scan_page (sys_fd (ss_tab p) s0) (ss_scan p')) b2"
    "seq_at T q2 L2" "seq_rest T q2 L2 = seq_rest T q' L1" "length L2 \<le> length L1"
    using seq_next_at[of q' s T ctx a L1 n "first_page (sys_fd (ss_tab p) s0) U p K" "scan_page (sys_fd (ss_tab p) s0) (ss_scan p')"]
      h(1,7,9,10,14,18) Lr tab scan_page_size by auto
  have same: "seq_same q q2" using h(5) st(3) by (simp add: seq_same_def)
  have le: "rd_le (sys_bpm s0) b2" by (rule rd_le_trans[OF h(2) st(2)])
  have tabs: "sys_table (ss_tab q) (s\<lparr>sys_bpm := b2\<rparr>) T" "sys_table (ss_tab p) (s\<lparr>sys_bpm := b2\<rparr>) U"
    using sys_table_keep[OF h(7) rd_at_inv[OF st(4)]] sys_table_keep[OF h(8) rd_at_inv[OF st(4)]] st(2) h(1) by simp_all
  have "ex_next (Suc n) ctx l s = (Inr (SeqScanEx q2), s\<lparr>sys_bpm := b2\<rparr>)" using st(1) h(3) by (simp add: em_defs)
  moreover have "scans_at n ctx s0 T U q p K A (s\<lparr>sys_bpm := b2\<rparr>) (SeqScanEx q2) L r R"
    unfolding scans_at_def
    using h(1,4,6,9,11,13-17) st(4,5,7) same le tabs L st(6) Lr seq_rest_same[OF same]
    by (intro exI[of _ b2] exI[of _ q2] exI[of _ p'] exI[of _ L2] exI[of _ Rr]) simp
  ultimately show ?thesis by blast
qed

text \<open>A step of the right scan that leaves the scan where \<open>seq_at\<close> says gives the state again.\<close>

lemma scans_right_moved:
  assumes "scans_at n ctx s0 T U q p K A s l L r R" "r = SeqScanEx p1" "seq_same p1 p2" "rd_le (sys_bpm s) b2" "seq_at U p2 R2"
    "rd_at (first_page (sys_fd (ss_tab p) s0) U p K) (scan_page (sys_fd (ss_tab p) s0) (ss_scan p2) + M) b2"
    "\<And>q'. l = SeqScanEx q' \<Longrightarrow> M = scan_page (sys_fd (ss_tab q) s0) (ss_scan q')"
  shows "scans_at n ctx s0 T U q p K A (s\<lparr>sys_bpm := b2\<rparr>) l L (SeqScanEx p2) (seq_rest U p R2)"
proof -
  from assms(1) obtain b q' p' Lr Rr where h: "s = s0\<lparr>sys_bpm := b\<rparr>" "rd_le (sys_bpm s0) b" "l = SeqScanEx q'" "r = SeqScanEx p'"
    "seq_same q q'" "seq_same p p'" "sys_table (ss_tab q) s T" "sys_table (ss_tab p) s U" "lockless ctx s0"
    "seq_at T q' Lr" "seq_at U p' Rr" "L = seq_rest T q Lr" "R = seq_rest U p Rr"
    "length Lr < n" "rid_list U K" "length K < n" "set L \<subseteq> A"
    "rd_at (first_page (sys_fd (ss_tab p) s0) U p K)
       (scan_page (sys_fd (ss_tab q) s0) (ss_scan q') + scan_page (sys_fd (ss_tab p) s0) (ss_scan p')) b"
    by (rule scans_atE)

  have same: "seq_same p p2" using h(4,6) assms(2,3) by (simp add: seq_same_def)
  have le: "rd_le (sys_bpm s0) b2" using rd_le_trans[OF h(2)] assms(4) h(1) by simp
  have "sys_table (ss_tab q) (s\<lparr>sys_bpm := b2\<rparr>) T" "sys_table (ss_tab p) (s\<lparr>sys_bpm := b2\<rparr>) U"
    using sys_table_keep[OF h(7) rd_at_inv[OF assms(6)] assms(4)] sys_table_keep[OF h(8) rd_at_inv[OF assms(6)] assms(4)] by simp_all
  then show ?thesis unfolding scans_at_def
    using h(1,3,5,9,10,12,14-17) assms(5,6,7) same le
    by (intro exI[of _ b2] exI[of _ q'] exI[of _ p2] exI[of _ Lr] exI[of _ R2]) (simp add: add.commute)
qed

lemma scans_right_next:
  assumes "scans_at n ctx s0 T U q p K A s l L r (y # R)"
  shows "\<exists>r' s'. ex_next (Suc n) ctx r s = (Inr r', s') \<and> scans_at n ctx s0 T U q p K A s' l L r' R"
proof -
  from assms obtain b q' p' Lr Rr where h: "s = s0\<lparr>sys_bpm := b\<rparr>" "rd_le (sys_bpm s0) b" "l = SeqScanEx q'" "r = SeqScanEx p'"
    "seq_same q q'" "seq_same p p'" "sys_table (ss_tab q) s T" "sys_table (ss_tab p) s U" "lockless ctx s0"
    "seq_at T q' Lr" "seq_at U p' Rr" "L = seq_rest T q Lr" "y # R = seq_rest U p Rr"
    "length Lr < n" "rid_list U K" "length K < n" "set L \<subseteq> A"
    "rd_at (first_page (sys_fd (ss_tab p) s0) U p K)
       (scan_page (sys_fd (ss_tab q) s0) (ss_scan q') + scan_page (sys_fd (ss_tab p) s0) (ss_scan p')) b"
    by (rule scans_atE)
  let ?M = "scan_page (sys_fd (ss_tab q) s0) (ss_scan q')"
  obtain a R1 where Rr: "Rr = a # R1" using h(13) by (cases Rr) (auto simp: seq_rest_def)
  obtain D where "K = D @ Rr" using seq_rest_suffix[OF h(11,15)] by blast
  then have ln: "length R1 < n" using h(16) Rr by simp
  have tab: "ss_tab p' = ss_tab p" using h(6) by (simp add: seq_same_def)
  have R: "seq_rest U p' R1 = R" using seq_rest_Cons[OF h(11)[unfolded Rr]] h(13) Rr seq_rest_same[OF h(6)] by simp
  obtain p2 R2 b2 where st: "seq_next n ctx p' s = (Inr p2, s\<lparr>sys_bpm := b2\<rparr>)" "rd_le (sys_bpm s) b2" "seq_same p' p2"
    "rd_at (first_page (sys_fd (ss_tab p) s0) U p K) (scan_page (sys_fd (ss_tab p) s0) (ss_scan p2) + ?M) b2"
    "seq_at U p2 R2" "seq_rest U p2 R2 = seq_rest U p' R1"
    using seq_next_at[of p' s U ctx a R1 n "first_page (sys_fd (ss_tab p) s0) U p K" ?M] h(1,8,9,11,18) ln Rr tab scan_page_size
    by (auto simp: add.commute)
  have "seq_rest U p R2 = R" using st(3,6) R seq_rest_same h(6) by (metis seq_rest_same)
  then have "scans_at n ctx s0 T U q p K A (s\<lparr>sys_bpm := b2\<rparr>) l L (SeqScanEx p2) R"
    using scans_right_moved[OF assms h(4) st(3,2,5,4)] h(3) by simp
  moreover have "ex_next (Suc n) ctx r s = (Inr (SeqScanEx p2), s\<lparr>sys_bpm := b2\<rparr>)" using st(1) h(4) by (simp add: em_defs)
  ultimately show ?thesis by blast
qed

text \<open>Starting the right scan again: a scan that stood on its first page leaves that page pinned.\<close>

lemma scans_right_begin:
  assumes "scans_at n ctx s0 T U q p K A s l L r R" "R = [] \<or> R = seq_rest U p K"
  shows "\<exists>r' s'. ex_begin (Suc n) ctx r s = (Inr r', s') \<and> scans_at n ctx s0 T U q p K A s' l L r' (seq_rest U p K)"
proof -
  from assms(1) obtain b q' p' Lr Rr where h: "s = s0\<lparr>sys_bpm := b\<rparr>" "rd_le (sys_bpm s0) b" "l = SeqScanEx q'" "r = SeqScanEx p'"
    "seq_same q q'" "seq_same p p'" "sys_table (ss_tab q) s T" "sys_table (ss_tab p) s U" "lockless ctx s0"
    "seq_at T q' Lr" "seq_at U p' Rr" "L = seq_rest T q Lr" "R = seq_rest U p Rr"
    "length Lr < n" "rid_list U K" "length K < n" "set L \<subseteq> A"
    "rd_at (first_page (sys_fd (ss_tab p) s0) U p K)
       (scan_page (sys_fd (ss_tab q) s0) (ss_scan q') + scan_page (sys_fd (ss_tab p) s0) (ss_scan p')) b"
    by (rule scans_atE)
  let ?M = "scan_page (sys_fd (ss_tab q) s0) (ss_scan q')" and ?X = "first_page (sys_fd (ss_tab p) s0) U p K"
  have tab: "ss_tab p' = ss_tab p" and keep: "seq_keep p' = seq_keep p" using h(6) seq_same_keep[OF h(6)] by (simp_all add: seq_same_def)
  have M: "rd_at ?X ?M b"
  proof (cases Rr)
    case Nil
    then show ?thesis using h(11,18) by (simp add: seq_at_def cursor_def scan_page_def)
  next
    case (Cons a R1)
    then have "R \<noteq> []" using h(11,13) keep by (simp add: seq_at_def seq_rest_def)
    then have "length (seq_rest U p' Rr) = length (seq_rest U p' K)" using assms(2) h(13) seq_rest_same[OF h(6)] by simp
    from seq_at_first[OF h(11,15) this]
    have x: "set_mset (scan_page (sys_fd (ss_tab p) s0) (ss_scan p')) = ?X" using Cons keep by (simp add: first_page_def)
    show ?thesis
    proof (cases "RmScan_is_end (ss_scan p')")
      case False
      let ?g = "\<lparr>pid_fd = sys_fd (ss_tab p) s0, pid_page_no = rid_page_no (ss_scan p')\<rparr>"
      have "?g \<in> ?X" unfolding x[symmetric] using False by (simp add: scan_page_def)
      moreover have "rd_at ?X (add_mset ?g ?M) b" using h(18) False by (simp add: scan_page_def[of "sys_fd (ss_tab p) s0"])
      ultimately show ?thesis by (rule rd_at_leak[rotated])
    qed (use h(18) in \<open>simp add: scan_page_def\<close>)
  qed
  have fit: "seq_fits U p'" using h(11) by (simp add: seq_at_def)
  obtain p2 R2 b2 where st: "seq_begin n ctx p' s = (Inr p2, s\<lparr>sys_bpm := b2\<rparr>)" "rd_le (sys_bpm s) b2" "seq_same p' p2"
    "rd_at ?X (scan_page (sys_fd (ss_tab p) s0) (ss_scan p2) + ?M) b2" "seq_at U p2 R2" "seq_rest U p2 R2 = seq_rest U p' K"
    using seq_begin_at[of p' s U ctx K n ?X ?M] h(1,8,9,15,16) fit M tab scan_page_size by auto
  have "seq_rest U p R2 = seq_rest U p K" using st(3,6) h(6) by (metis seq_rest_same)
  then have "scans_at n ctx s0 T U q p K A (s\<lparr>sys_bpm := b2\<rparr>) l L (SeqScanEx p2) (seq_rest U p K)"
    using scans_right_moved[OF assms(1) h(4) st(3,2,5,4)] h(3) by simp
  moreover have "ex_begin (Suc n) ctx r s = (Inr (SeqScanEx p2), s\<lparr>sys_bpm := b2\<rparr>)" using st(1) h(4) by (simp add: em_defs)
  ultimately show ?thesis by blast
qed

text \<open>Left tuples that the join can test against every right tuple, and those whose keys decide the conditions.\<close>

definition joinable :: "nat \<Rightarrow> nat \<Rightarrow> JoinCondSpec list \<Rightarrow> (byte list \<Rightarrow> byte list \<Rightarrow> bool) \<Rightarrow> byte list list \<Rightarrow> byte list set" where
  "joinable nl nr specs c R0 = {x. length x = nl \<and> (\<forall>y \<in> set R0. length y = nr \<and> eval_join_conds specs x y = Inr (c x y))}"

definition key_of :: "byte list res \<Rightarrow> byte list" where
  "key_of k = (case k of Inr x \<Rightarrow> x | Inl e \<Rightarrow> [])"

definition hashable :: "nat \<Rightarrow> nat \<Rightarrow> JoinCondSpec list \<Rightarrow> (byte list \<Rightarrow> byte list \<Rightarrow> bool) \<Rightarrow> byte list list \<Rightarrow> byte list set" where
  "hashable nl nr specs c R0 = {x \<in> joinable nl nr specs c R0. \<exists>k. left_key specs x = Inr k \<and>
     (\<forall>y \<in> set R0. \<exists>k'. right_key specs y = Inr k' \<and> (c x y \<longleftrightarrow> k = k'))}"

interpretation scans: join_inputs "ex_begin (Suc n) ctx" "ex_next (Suc n) ctx" "scans_at n ctx s0 T U q p K (joinable nl nr specs c (seq_rest U p K))"
    "joinable nl nr specs c (seq_rest U p K)" "seq_rest U p K" nl nr specs c
  for n ctx s0 T U q p K nl nr specs c
  by unfold_locales
    (fact scans_view scans_left_next scans_right_next scans_right_begin scans_tuples | simp add: joinable_def)+

interpretation hashed: hash_inputs "ex_begin (Suc n) ctx" "ex_next (Suc n) ctx" "scans_at n ctx s0 T U q p K (hashable nl nr specs c (seq_rest U p K))"
    "hashable nl nr specs c (seq_rest U p K)" "seq_rest U p K" nl nr specs c "\<lambda>x. key_of (left_key specs x)" "\<lambda>y. key_of (right_key specs y)"
  for n ctx s0 T U q p K nl nr specs c
  by unfold_locales
    (fact scans_view scans_left_next scans_right_next scans_right_begin scans_tuples | fastforce simp: hashable_def joinable_def key_of_def)+

section \<open>Keys decide equality conditions\<close>

lemma le_uint_inj: "length a = length b \<Longrightarrow> le_uint a = le_uint b \<Longrightarrow> a = b"
proof (induction a arbitrary: b)
  case (Cons x a)
  then obtain y b' where b: "b = y # b'" by (cases b) auto
  have e: "uint x + 256 * le_uint a = uint y + 256 * le_uint b'" using Cons.prems(2) b by simp
  have u: "0 \<le> uint z \<and> uint z < 256" for z :: byte using uint_bounded[of z] by simp
  then have "(uint x + 256 * le_uint a) mod 256 = uint x" "(uint y + 256 * le_uint b') mod 256 = uint y" by (simp_all add: mod_pos_pos_trivial)
  then have x: "uint x = uint y" using e by simp
  then have "x = y" by (simp add: word_uint_eq_iff)
  then show ?case using e Cons b by simp
qed simp

lemma le_sint_inj:
  assumes "length a = length b" "le_sint a = le_sint b"
  shows "a = b"
proof -
  have "0 \<le> le_uint a" "le_uint a < 2 ^ (8 * length a)" "0 \<le> le_uint b" "le_uint b < 2 ^ (8 * length a)"
    using le_uint_bound[of a] le_uint_bound[of b] assms(1) by (simp_all add: power_mult)
  then have "le_uint a = le_uint b" using assms by (auto simp: le_sint_def Let_def split: if_splits)
  then show ?thesis by (rule le_uint_inj[OF assms(1)])
qed

text \<open>A column type whose values are equal exactly when their bytes are.\<close>

definition byte_type :: "ColType \<Rightarrow> int \<Rightarrow> bool" where
  "byte_type t len \<longleftrightarrow> t \<noteq> TYPE_FLOAT \<and> raw_len t len = len \<and> 0 \<le> len"

lemma byte_type_eq:
  assumes "byte_type t len" "nat len \<le> length a" "nat len \<le> length b"
  shows "ix_compare1 a b t (nat len) = 0 \<longleftrightarrow> take (nat len) a = take (nat len) b"
proof -
  have l: "length (take (nat len) a) = length (take (nat len) b)" using assms by simp
  have "ix_compare1 a b t (nat len) = lcmp (col_rank t (nat len) a) (col_rank t (nat len) b)"
    using assms(1) compare1_rank by (simp add: byte_type_def)
  also have "\<dots> = 0 \<longleftrightarrow> col_rank t (nat len) a = col_rank t (nat len) b"
    using lcmp_eq_0 length_col_rank[OF assms(2,3), of t] by blast
  also have "\<dots> \<longleftrightarrow> take (nat len) a = take (nat len) b"
    using assms(1) l le_sint_inj[OF l] by (cases t) (auto simp: byte_type_def raw_len_def type_size_def inj_map_eq_map[OF injI[of uint]])
  finally show ?thesis .
qed

definition hash_cond :: "nat \<Rightarrow> nat \<Rightarrow> JoinCondSpec \<Rightarrow> bool" where
  "hash_cond nl nr c \<longleftrightarrow> byte_type (jc_lhs_type c) (jc_lhs_len c) \<and> lhs_on_left c \<noteq> rhs_on_left c \<and> 0 \<le> jc_lhs_offset c \<and> 0 \<le> jc_rhs_offset c \<and>
     jc_lhs_offset c + jc_lhs_len c \<le> int (if lhs_on_left c then nl else nr) \<and>
     jc_rhs_offset c + jc_lhs_len c \<le> int (if rhs_on_left c then nl else nr)"

lemma hash_cond_key:
  assumes "hash_cond (length x) (length y) c" "jc_op c = OP_EQ" "\<not> jc_is_rhs_val c"
  shows "\<exists>k k'. key_part (if lhs_on_left c then jc_lhs_offset c else jc_rhs_offset c) (jc_lhs_len c) x = Inr k \<and>
     key_part (if lhs_on_left c then jc_rhs_offset c else jc_lhs_offset c) (jc_lhs_len c) y = Inr k' \<and> length k = length k' \<and>
     eval_join_cond c x y = Inr (k = k')"
proof -
  let ?d = "\<lambda>left. if left then x else y"
  let ?a = "drop (nat (jc_lhs_offset c)) (?d (lhs_on_left c))" and ?b = "drop (nat (jc_rhs_offset c)) (?d (rhs_on_left c))" and ?n = "nat (jc_lhs_len c)"
  have o: "0 \<le> jc_lhs_offset c" "0 \<le> jc_rhs_offset c" "0 \<le> jc_lhs_len c" "byte_type (jc_lhs_type c) (jc_lhs_len c)"
    "jc_lhs_offset c + jc_lhs_len c \<le> int (length (?d (lhs_on_left c)))" "jc_rhs_offset c + jc_lhs_len c \<le> int (length (?d (rhs_on_left c)))"
    using assms(1) by (auto simp: hash_cond_def byte_type_def split: if_splits)
  then have n: "?n \<le> length ?a" "?n \<le> length ?b" by (simp_all add: nat_le_iff le_diff_conv2)
  have "eval_join_cond c x y = Inr (ix_compare1 ?a ?b (jc_lhs_type c) ?n = 0)"
    using o n assms(2,3) by (auto simp: eval_join_cond_def byte_ptr_def compare_raw_value_def byte_type_def)
  then have e: "eval_join_cond c x y = Inr (take ?n ?a = take ?n ?b)" using byte_type_eq[OF o(4) n] by simp
  have k: "key_part (jc_lhs_offset c) (jc_lhs_len c) (?d (lhs_on_left c)) = Inr (take ?n ?a)"
    "key_part (jc_rhs_offset c) (jc_lhs_len c) (?d (rhs_on_left c)) = Inr (take ?n ?b)"
    using o by (auto simp: key_part_def read_at_def get_bytes_def nat_add_distrib[symmetric] nat_le_iff)
  show ?thesis using e k n assms(1) by (cases "lhs_on_left c") (auto simp: hash_cond_def)
qed

lemma hash_conds_keys:
  assumes "list_all (hash_cond (length x) (length y)) cs" "list_all (\<lambda>c. jc_op c = OP_EQ \<and> \<not> jc_is_rhs_val c) cs"
  shows "\<exists>k k'. left_key cs x = Inr k \<and> right_key cs y = Inr k' \<and> length k = length k' \<and> eval_join_conds cs x y = Inr (k = k')"
  using assms
proof (induction cs)
  case (Cons c cs)
  obtain k k' where k: "left_key cs x = Inr k" "right_key cs y = Inr k'" "length k = length k'" "eval_join_conds cs x y = Inr (k = k')"
    using Cons by auto
  have "hash_cond (length x) (length y) c" "jc_op c = OP_EQ" "\<not> jc_is_rhs_val c" using Cons.prems by simp_all
  from hash_cond_key[OF this] show ?case using k by (auto split: if_splits)
qed simp

section \<open>Queries\<close>

text \<open>The rows of a plan: the loop of \<^verbatim>\<open>select_from\<close> without its output.\<close>

definition run_plan :: "nat \<Rightarrow> txn_id_t option \<Rightarrow> Plan \<Rightarrow> (Sys, byte list list) em" where
  "run_plan n ctx plan =
     em_bind (convert_plan_executor plan) (\<lambda>x.
     em_bind (ex_begin n ctx x) (\<lambda>x1.
     em_bind (drain n ctx (ex_next n ctx) (\<lambda>rec recs. Inr (recs @ [rec])) [] x1) (\<lambda>(recs, x2). em_return recs)))"

text \<open>A table that a scan with these conditions can read: the catalogue knows its columns and the records have their length.\<close>

definition scannable :: "Sys \<Rightarrow> ScanNode \<Rightarrow> ColMeta list \<Rightarrow> (Rid \<Rightarrow> byte list option) \<Rightarrow> bool" where
  "scannable s a cols T \<longleftrightarrow> scan_tag a = T_SeqScan \<and> (\<exists>tab. get_table (scan_tab a) (sys_db s) = Inr tab \<and> tm_cols tab = cols) \<and> sys_table (scan_tab a) s T \<and>
     (\<exists>len. table_len cols = Inr len \<and> 0 \<le> len \<and> (\<forall>x \<in> ran T. int (length x) = len \<and> (\<exists>b. eval_conds (scan_conds a) x cols = Inr b)))"

definition selected :: "Condition list \<Rightarrow> ColMeta list \<Rightarrow> byte list list \<Rightarrow> byte list list" where
  "selected conds cols xs = filter (\<lambda>x. eval_conds conds x cols = Inr True) xs"

definition records :: "(Rid \<Rightarrow> byte list option) \<Rightarrow> Rid list \<Rightarrow> byte list list" where
  "records T L = map (\<lambda>r. the (T r)) L"

lemma new_SeqScan_run:
  assumes "scannable s a cols T" "table_len cols = Inr len"
  shows "convert_plan_executor (ScanPlan a) s = (Inr (SeqScanEx \<lparr>ss_tab = scan_tab a, ss_conds = scan_conds a, ss_cols = cols, ss_len = len, ss_rid = no_rid,
                     ss_scan = no_rid, ss_record = None, ss_end = True\<rparr>), s)"
proof -
  obtain tab st where t: "get_table (scan_tab a) (sys_db s) = Inr tab" "tm_cols tab = cols" "tab_state (scan_tab a) s = Some st" "scan_tag a = T_SeqScan"
    using assms(1) by (auto simp: scannable_def sys_table_def)
  then have "\<exists>fd. table_fd (scan_tab a) s = (Inr fd, s)" by (auto simp: tab_state_def table_fd_def em_defs split: option.splits)
  then show ?thesis using t assms(2) by (auto simp: new_SeqScan_def em_defs sys_res_def)
qed

lemma scannable_fits:
  assumes "scannable s a cols T" "table_len cols = Inr len"
  shows "seq_fits T \<lparr>ss_tab = scan_tab a, ss_conds = scan_conds a, ss_cols = cols, ss_len = len, ss_rid = no_rid,
                     ss_scan = no_rid, ss_record = None, ss_end = True\<rparr>"
  using assms by (auto simp: scannable_def seq_fits_def)

text \<open>The first tuples of both inputs of a join; the right scan has not been started.\<close>

lemma scans_begin:
  assumes "sys_table (ss_tab q) s T" "sys_table (ss_tab p) s U" "lockless ctx s" "rid_list T L" "rid_list U K" "seq_fits T q" "seq_fits U p"
    "ss_scan p = no_rid" "ss_end p" "length L < n" "length K < n" "set (seq_rest T q L) \<subseteq> A"
    and b: "bp_inv (sys_bpm s)" "\<And>pid. pins (sys_bpm s) pid = 0" "3 \<le> bp_avail (sys_bpm s)"
  shows "\<exists>l' s'. ex_begin (Suc n) ctx (SeqScanEx q) s = (Inr l', s') \<and> scans_at n ctx s T U q p K A s' l' (seq_rest T q L) (SeqScanEx p) []"
proof -
  let ?X = "first_page (sys_fd (ss_tab p) s) U p K"
  have "card ?X \<le> 1" "finite ?X" by (simp_all add: first_page_def scan_page_def)
  then have "rd_at ?X {#} (sys_bpm s)" using b by (intro rd_at_start) auto
  then obtain q' L' b' where st: "seq_begin n ctx q s = (Inr q', s\<lparr>sys_bpm := b'\<rparr>)" "rd_le (sys_bpm s) b'" "seq_same q q'"
    "rd_at ?X (scan_page (sys_fd (ss_tab q) s) (ss_scan q')) b'" "seq_at T q' L'" "seq_rest T q' L' = seq_rest T q L" "length L' \<le> length L"
    using seq_begin_at[OF assms(1,3,6,4,10), of ?X "{#}"] by auto
  have e: "RmScan_is_end no_rid" by (simp add: RmScan_is_end_def no_rid_def)
  then have "seq_at U p []" using assms(5,7-9) by (auto simp: seq_at_def cursor_def)
  moreover have "scan_page fd no_rid = {#}" for fd using e by (simp add: scan_page_def)
  moreover have "sys_table (ss_tab q) (s\<lparr>sys_bpm := b'\<rparr>) T" "sys_table (ss_tab p) (s\<lparr>sys_bpm := b'\<rparr>) U"
    using sys_table_keep[OF assms(1) rd_at_inv[OF st(4)] st(2)] sys_table_keep[OF assms(2) rd_at_inv[OF st(4)] st(2)] by simp_all
  moreover have "seq_rest U p [] = []" "seq_same p p" by (simp_all add: seq_rest_def seq_same_def)
  ultimately have "scans_at n ctx s T U q p K A (s\<lparr>sys_bpm := b'\<rparr>) (SeqScanEx q') (seq_rest T q L) (SeqScanEx p) []"
    unfolding scans_at_def using assms(3,5,8,10-12) st(2-7) seq_rest_same[OF st(3)]
    by (intro exI[of _ b'] exI[of _ q'] exI[of _ p] exI[of _ L'] exI[of _ "[]"]) simp
  moreover have "ex_begin (Suc n) ctx (SeqScanEx q) s = (Inr (SeqScanEx q'), s\<lparr>sys_bpm := b'\<rparr>)" using st(1) by (simp add: em_defs)
  ultimately show ?thesis by blast
qed

lemma scans_end:
  assumes "scans_at n ctx s0 T U q p K A s l L r R"
  shows "\<exists>b. s = s0\<lparr>sys_bpm := b\<rparr> \<and> sys_table (ss_tab q) s T \<and> sys_table (ss_tab p) s U"
  using assms unfolding scans_at_def by blast

text \<open>The columns of a joined tuple, and its rows: the pairs that satisfy the conditions.\<close>

definition join_cols :: "ColMeta list \<Rightarrow> int \<Rightarrow> ColMeta list \<Rightarrow> ColMeta list" where
  "join_cols cols len cols' = cols @ map (\<lambda>c. c\<lparr>cm_offset := c_int (cm_offset c + c_int len)\<rparr>) cols'"

definition join_rows :: "Condition list \<Rightarrow> ColMeta list \<Rightarrow> byte list list \<Rightarrow> byte list list \<Rightarrow> byte list list" where
  "join_rows conds cols X Y = map (\<lambda>(x, y). x @ y) (filter (\<lambda>(x, y). eval_conds conds (x @ y) cols = Inr True) (List.product X Y))"

text \<open>Conditions the join can evaluate on all pairs; when it hashes, every condition compares the bytes of a left and a right column.\<close>

definition joins :: "Condition list \<Rightarrow> ColMeta list \<Rightarrow> int \<Rightarrow> int \<Rightarrow> byte list list \<Rightarrow> byte list list \<Rightarrow> JoinCondSpec list \<Rightarrow> bool" where
  "joins conds cols nl nr X Y specs \<longleftrightarrow> rmap (build_cond_spec cols nl) conds = Inr specs \<and> (\<forall>c \<in> set cols. 0 \<le> cm_offset c) \<and>
     (\<forall>x \<in> set X. \<forall>y \<in> set Y. \<exists>b. eval_join_conds specs x y = Inr b) \<and>
     (is_pure_equi_join specs \<longrightarrow> list_all (hash_cond (nat nl) (nat nr)) specs)"

lemma joined_rows:
  assumes "joins conds cols nl nr X Y specs" "in_int nl" "\<forall>x \<in> set X. int (length x) = nl"
  shows "joined (\<lambda>x y. eval_join_conds specs x y = Inr True) X Y = join_rows conds cols X Y"
proof -
  have "(eval_join_conds specs x y = Inr True) = (eval_conds conds (x @ y) cols = Inr True)" if xy: "x \<in> set X" "y \<in> set Y" for x y
  proof -
    obtain b where b: "eval_join_conds specs x y = Inr b" using assms(1) xy unfolding joins_def by blast
    have "eval_conds conds (x @ y) cols = Inr b"
      using join_conds_joined[OF _ _ _ b, of cols conds] assms xy by (simp add: joins_def)
    then show ?thesis using b by simp
  qed
  then have "filter (\<lambda>(x, y). eval_join_conds specs x y = Inr True) (List.product X Y) =
      filter (\<lambda>(x, y). eval_conds conds (x @ y) cols = Inr True) (List.product X Y)"
    by (intro filter_cong) auto
  then show ?thesis by (simp add: joined_product join_rows_def)
qed

lemma joins_hashable:
  assumes "joins conds cols nl nr X Y specs" "is_pure_equi_join specs" "\<forall>x \<in> set X. int (length x) = nl" "\<forall>y \<in> set Y. int (length y) = nr"
  shows "set X \<subseteq> hashable (nat nl) (nat nr) specs (\<lambda>x y. eval_join_conds specs x y = Inr True) Y" (is "_ \<subseteq> hashable _ _ _ ?c _")
proof
  fix x assume x: "x \<in> set X"
  have w: "length x = nat nl" "\<forall>y \<in> set Y. length y = nat nr" using assms(3,4) x by auto
  have k: "\<exists>k k'. left_key specs x = Inr k \<and> right_key specs y = Inr k' \<and> eval_join_conds specs x y = Inr (k = k')" if "y \<in> set Y" for y
    using hash_conds_keys[of x y specs] assms(1,2) w that by (auto simp: joins_def is_pure_equi_join_def)
  have l: "\<exists>k. left_key specs x = Inr k"
    using hash_conds_keys[of x "replicate (nat nr) 0" specs] assms(1,2) w(1) by (auto simp: joins_def is_pure_equi_join_def)
  have "x \<in> joinable (nat nl) (nat nr) specs ?c Y" using w k by (fastforce simp: joinable_def)
  then show "x \<in> hashable (nat nl) (nat nr) specs ?c Y" using l k by (fastforce simp: hashable_def)
qed

lemma joins_joinable:
  assumes "joins conds cols nl nr X Y specs" "\<forall>x \<in> set X. int (length x) = nl" "\<forall>y \<in> set Y. int (length y) = nr"
  shows "set X \<subseteq> joinable (nat nl) (nat nr) specs (\<lambda>x y. eval_join_conds specs x y = Inr True) Y"
  using assms by (fastforce simp: joinable_def joins_def)

lemma joined_length: "length (joined c X Y) \<le> length X * length Y"
proof (induction X)
  case (Cons x X)
  have "length (matches c Y x) \<le> length Y" by (simp add: matches_def)
  then show ?case using Cons by simp
qed simp

text \<open>Enough steps for a join of \<open>a\<close> and \<open>b\<close> records: no loop of the join takes more.\<close>

definition join_fuel :: "nat \<Rightarrow> nat \<Rightarrow> nat" where
  "join_fuel a b = (2 * b + 4) * (a + 2)"

lemma join_fuel_enough:
  assumes "join_fuel a b \<le> n" "x \<le> a" "y \<le> b"
  shows "a < n" "b < n" "x + y + 3 < Suc n" "(2 * y + 3) * x + 1 < Suc n" "x * y < n"
proof -
  have "x * y \<le> a * b" "(2 * y + 3) * x \<le> (2 * b + 3) * a" using assms(2,3) by (simp_all add: mult_le_mono)
  moreover have "join_fuel a b = 2 * (a * b) + 4 * a + 4 * b + 8" "(2 * b + 3) * a = 2 * (a * b) + 3 * a"
    by (simp_all add: join_fuel_def algebra_simps)
  ultimately show "a < n" "b < n" "x + y + 3 < Suc n" "(2 * y + 3) * x + 1 < Suc n" "x * y < n" using assms by linarith+
qed

text \<open>The executor of a join, from its first tuple to its end.\<close>

lemma join_scans_run:
  assumes t: "sys_table (ss_tab q) s T" "sys_table (ss_tab p) s U" "lockless ctx s" "rid_list T L" "rid_list U K" "seq_fits T q" "seq_fits U p"
      "ss_scan p = no_rid" "ss_end p"
    and b: "bp_inv (sys_bpm s)" "\<And>pid. pins (sys_bpm s) pid = 0" "3 \<le> bp_avail (sys_bpm s)"
    and j: "left_tuple_len j = nl" "right_tuple_len j = nr" "cond_specs j = specs" "hash_probe_enabled j = is_pure_equi_join specs"
    and X: "X = seq_rest T q L" "Y = seq_rest U p K" "joins conds cols nl nr X Y specs" "in_int nl" "0 \<le> nl" "0 \<le> nr"
      "\<forall>x \<in> set X. int (length x) = nl" "\<forall>y \<in> set Y. int (length y) = nr"
    and n: "join_fuel (length L) (length K) \<le> n"
  shows "\<exists>x1 s1 out x2 bp. ex_begin (Suc (Suc n)) ctx (JoinEx j (SeqScanEx q) (SeqScanEx p)) s = (Inr x1, s1) \<and>
     drain (Suc (Suc n)) ctx (ex_next (Suc (Suc n)) ctx) (\<lambda>rec recs. Inr (recs @ [rec])) [] x1 s1 = (Inr (out, x2), s\<lparr>sys_bpm := bp\<rparr>) \<and>
     mset out = mset (join_rows conds cols X Y) \<and> (\<not> is_pure_equi_join specs \<longrightarrow> out = join_rows conds cols X Y) \<and>
     sys_table (ss_tab q) (s\<lparr>sys_bpm := bp\<rparr>) T \<and> sys_table (ss_tab p) (s\<lparr>sys_bpm := bp\<rparr>) U"
proof -
  let ?c = "\<lambda>x y. eval_join_conds specs x y = Inr True"
  have "length X \<le> length L" "length Y \<le> length K" using X(1,2) by (simp_all add: seq_rest_def le_trans[OF length_filter_le])
  note f = join_fuel_enough[OF n this]
  have rows: "joined ?c X Y = join_rows conds cols X Y" by (rule joined_rows[OF X(3,4,7)])
  have ln: "length (joined ?c X Y) < Suc (Suc n)" using joined_length[of ?c X Y] f(5) by simp
  show ?thesis
  proof (cases "is_pure_equi_join specs")
    case False
    let ?A = "joinable (nat nl) (nat nr) specs ?c Y"
    have A: "set X \<subseteq> ?A" by (rule joins_joinable[OF X(3,7,8)])
    obtain l1 s1 where l1: "ex_begin (Suc n) ctx (SeqScanEx q) s = (Inr l1, s1)" "scans_at n ctx s T U q p K ?A s1 l1 X (SeqScanEx p) []"
      using scans_begin[OF t f(1,2), of ?A] A b X(1) by blast
    have jo: "scans.join_of (nat nl) (nat nr) specs j" using j(1-3) X(5,6) by (simp add: scans.join_of_def)
    obtain j2 l2 r2 s2 where fn: "join_find_next (Suc n) (ex_begin (Suc n) ctx) (ex_next (Suc n) ctx) (reset_hash_block (j\<lparr>block_idx := 0\<rparr>)) l1 (SeqScanEx p) s1 =
        (Inr (JoinEx j2 l2 r2), s2)"
      "scans.nested_at n ctx s T U q p K (nat nl) (nat nr) specs ?c (length X) s2 j2 l2 r2 (joined ?c X Y)"
      using scans.nested_begin[of n ctx s T U q p K "nat nl" "nat nr" specs ?c s1 l1 X "SeqScanEx p" j "Suc n"] l1(2) jo j(4) False f(3) X(2) by auto
    obtain j3 l3 L3 r3 R3 s3 where d: "drain (Suc (Suc n)) ctx (ex_next (Suc (Suc n)) ctx) (\<lambda>rec recs. Inr (recs @ [rec])) [] (JoinEx j2 l2 r2) s2 =
        (Inr (joined ?c X Y, JoinEx j3 l3 r3), s3)" "scans_at n ctx s T U q p K ?A s3 l3 L3 r3 R3"
      using scans.nested_drain[OF fn(2) _ ln, of "Suc n" "ex_next (Suc (Suc n)) ctx" ctx "[]"] f(3) X(2) by auto
    show ?thesis using l1(1) fn(1) d rows scans_end[OF d(2)] by (auto simp: join_begin_def em_defs simp del: drain.simps)
  next
    case True
    let ?A = "hashable (nat nl) (nat nr) specs ?c Y"
    have A: "set X \<subseteq> ?A" by (rule joins_hashable[OF X(3) True X(7,8)])
    obtain l1 s1 where l1: "ex_begin (Suc n) ctx (SeqScanEx q) s = (Inr l1, s1)" "scans_at n ctx s T U q p K ?A s1 l1 X (SeqScanEx p) []"
      using scans_begin[OF t f(1,2), of ?A] A b X(1) by blast
    have jo: "hashed.join_of (nat nl) (nat nr) specs j" using j(1-3) X(5,6) by (simp add: hashed.join_of_def)
    have hc: "hashed.hash_cost U p K X + 1 < Suc n" using f(4) X(2) by (simp add: hashed.hash_cost_def)
    obtain j2 l2 r2 s2 where fn: "join_find_next (Suc n) (ex_begin (Suc n) ctx) (ex_next (Suc n) ctx) (reset_hash_block (j\<lparr>block_idx := 0\<rparr>)) l1 (SeqScanEx p) s1 =
        (Inr (JoinEx j2 l2 r2), s2)"
      "hashed.hash_at n ctx s T U q p K (nat nl) (nat nr) specs ?c (hashed.hash_cost U p K X + 1) s2 j2 l2 r2 (mset (joined ?c X Y))"
      using hashed.hash_begin[of n ctx s T U q p K "nat nl" "nat nr" specs ?c s1 l1 X "SeqScanEx p" j "Suc n"] l1(2) jo j(4) True hc X(2) by auto
    have sz: "size (mset (joined ?c X Y)) < Suc (Suc n)" using ln by simp
    obtain out j3 l3 L3 r3 R3 s3 where d: "drain (Suc (Suc n)) ctx (ex_next (Suc (Suc n)) ctx) (\<lambda>rec recs. Inr (recs @ [rec])) [] (JoinEx j2 l2 r2) s2 =
        (Inr (out, JoinEx j3 l3 r3), s3)" "mset out = mset (joined ?c X Y)" "scans_at n ctx s T U q p K ?A s3 l3 L3 r3 R3"
      using hashed.hash_drain[OF fn(2) hc sz, of "ex_next (Suc (Suc n)) ctx" ctx "[]"] X(2) by auto
    show ?thesis using l1(1) fn(1) d rows True scans_end[OF d(3)] by (auto simp: join_begin_def em_defs simp del: drain.simps)
  qed
qed

lemma seq_rest_selected: "seq_rest T \<lparr>ss_tab = a, ss_conds = cs, ss_cols = cols, ss_len = len, ss_rid = i, ss_scan = i', ss_record = x, ss_end = e\<rparr> L =
    selected cs cols (records T L)"
  by (simp add: seq_rest_def selected_def records_def seq_keep_def[abs_def])

lemma selected_width:
  assumes "scannable s a cols T" "table_len cols = Inr len" "rid_list T L"
  shows "\<forall>x \<in> set (selected cs cols (records T L)). int (length x) = len" "0 \<le> len" "in_int len"
proof -
  have "the (T r) \<in> ran T" if "r \<in> set L" for r using that assms(3) by (auto simp: rid_list_def ran_def)
  then show "\<forall>x \<in> set (selected cs cols (records T L)). int (length x) = len" "0 \<le> len"
    using assms(1,2) by (auto simp: selected_def records_def scannable_def)
  show "in_int len" using assms(2) by (auto simp: table_len_def c_int_in_int split: if_splits)
qed

lemma join_plan_run:
  assumes "scannable s a cols T" and "scannable s b cols' U" and "table_len cols = Inr nl" and "table_len cols' = Inr nr"
    and "rid_list T L" and "rid_list U K" and "lockless ctx s"
    and "bp_inv (sys_bpm s)" and "\<forall>pid. pins (sys_bpm s) pid = 0" and "3 \<le> bp_avail (sys_bpm s)"
    and "X = selected (scan_conds a) cols (records T L)" and "Y = selected (scan_conds b) cols' (records U K)"
    and "joins conds (join_cols cols nl cols') nl nr X Y specs" and "join_fuel (length L) (length K) + 2 \<le> n"
  shows "\<exists>out bp. run_plan n ctx (JoinPlan tag (ScanPlan a) (ScanPlan b) conds ty) s = (Inr out, s\<lparr>sys_bpm := bp\<rparr>) \<and>
     mset out = mset (join_rows conds (join_cols cols nl cols') X Y) \<and>
     (\<not> is_pure_equi_join specs \<longrightarrow> out = join_rows conds (join_cols cols nl cols') X Y) \<and>
     sys_table (scan_tab a) (s\<lparr>sys_bpm := bp\<rparr>) T \<and> sys_table (scan_tab b) (s\<lparr>sys_bpm := bp\<rparr>) U"
proof -
  let ?q = "\<lambda>a cols len. \<lparr>ss_tab = scan_tab a, ss_conds = scan_conds a, ss_cols = cols, ss_len = len, ss_rid = no_rid,
                     ss_scan = no_rid, ss_record = None, ss_end = True\<rparr>"
  let ?l = "SeqScanEx (?q a cols nl)" and ?r = "SeqScanEx (?q b cols' nr)"
  obtain m where m: "n = Suc (Suc m)" "join_fuel (length L) (length K) \<le> m" using assms(14) by (intro that[of "n - 2"]) auto
  obtain j where j: "new_JoinSt ?l ?r conds = Inr j" "left_tuple_len j = nl" "right_tuple_len j = nr" "cond_specs j = specs"
    "hash_probe_enabled j = is_pure_equi_join specs"
    using assms(13) by (auto simp: new_JoinSt_def joins_def join_cols_def)
  have "convert_plan_executor (JoinPlan tag (ScanPlan a) (ScanPlan b) conds ty) s = (Inr (JoinEx j ?l ?r), s)"
    using new_SeqScan_run[OF assms(1,3)] new_SeqScan_run[OF assms(2,4)] j(1) by (simp add: em_defs sys_res_def)
  moreover have "\<exists>x1 s1 out x2 bp. ex_begin (Suc (Suc m)) ctx (JoinEx j ?l ?r) s = (Inr x1, s1) \<and>
     drain (Suc (Suc m)) ctx (ex_next (Suc (Suc m)) ctx) (\<lambda>rec recs. Inr (recs @ [rec])) [] x1 s1 = (Inr (out, x2), s\<lparr>sys_bpm := bp\<rparr>) \<and>
     mset out = mset (join_rows conds (join_cols cols nl cols') X Y) \<and> (\<not> is_pure_equi_join specs \<longrightarrow> out = join_rows conds (join_cols cols nl cols') X Y) \<and>
     sys_table (ss_tab (?q a cols nl)) (s\<lparr>sys_bpm := bp\<rparr>) T \<and> sys_table (ss_tab (?q b cols' nr)) (s\<lparr>sys_bpm := bp\<rparr>) U"
    by (rule join_scans_run[OF _ _ assms(7,5,6) scannable_fits[OF assms(1,3)] scannable_fits[OF assms(2,4)] _ _ assms(8) _ assms(10) j(2-5) _ _ assms(13) _ _ _ _ _ m(2)])
      (use assms(1,2,9,11,12) selected_width[OF assms(1,3,5)] selected_width[OF assms(2,4,6)] in \<open>simp_all add: seq_rest_selected scannable_def\<close>)
  ultimately show ?thesis unfolding run_plan_def m(1) by (auto simp: em_defs simp del: drain.simps ex_begin.simps ex_next.simps convert_plan_executor.simps)
qed


text \<open>A new pool over the disk after a flush of all pages shows what the old pool showed.\<close>

lemma restart_pool:
  assumes "bp_inv b"
  shows "\<exists>d. disk_inv d \<and> disk_le (bp_disk b) d \<and> (\<forall>n fd0. view_le b (new_BufferPoolManager n fd0 d))"
proof -
  have ds: "distinct (map fst (bp_table b))" using bp_inv_struct[OF assms] by (simp add: bp_struct_def)
  have tb: "\<forall>(pid, f) \<in> set (bp_table b). map_of (bp_table b) pid = Some f" using ds by auto
  obtain b1 where fl: "flushing b b1" and od: "\<forall>(pid, f) \<in> set (bp_table b). on_disk b1 pid f"
    using flush_entries_ok[OF assms tb ds, of "\<lambda>pid p. True"] by auto
  have f: "bp_inv b1" "view_le b b1" "disk_le (bp_disk b) (bp_disk b1)" "bp_table b1 = bp_table b" using fl by (simp_all add: flushing_def)
  have "disk_page (bp_disk b1) (pid_fd pid) (pid_page_no pid) = Some x" if "page_view b pid = Some x" for pid x
    using view_le_Some[OF f(2) that] od map_of_SomeD[of "bp_table b" pid]
    by (fastforce simp: page_view_def f(4) on_disk_def split: option.splits)
  moreover have "page_view (new_BufferPoolManager n fd0 (bp_disk b1)) pid = disk_page (bp_disk b1) (pid_fd pid) (pid_page_no pid)" for n fd0 pid
    by (simp add: page_view_def new_BufferPoolManager_def)
  ultimately have "view_le b (new_BufferPoolManager n fd0 (bp_disk b1))" for n fd0 by (auto simp: view_le_def)
  then show ?thesis using f(1,3) by (auto simp: bp_inv_def)
qed

text \<open>A table with one record, known under two names, over a pool of three frames.\<close>

definition query_col :: "string \<Rightarrow> ColMeta" where
  "query_col tab = \<lparr>cm_tab_name = tab, cm_name = ''a'', cm_type = TYPE_INT, cm_len = 4, cm_offset = 0, cm_index = False\<rparr>"

definition query_sys :: "RmState \<Rightarrow> Sys" where
  "query_sys r = \<lparr>sys_db = \<lparr>db_name = ''d'', tabs = [(''t'', \<lparr>tm_name = ''t'', tm_cols = [query_col ''t''], tm_indexes = []\<rparr>),
       (''u'', \<lparr>tm_name = ''u'', tm_cols = [query_col ''u''], tm_indexes = []\<rparr>)]\<rparr>,
     sys_fhs = [(''t'', rs_fd r, rs_hdr r), (''u'', rs_fd r, rs_hdr r)], sys_ihs = [], sys_bpm = rs_bpm r, sys_log = new_LogManager,
     sys_locks = new_LockManager, sys_txns = [], sys_next_txn = 8, sys_next_ts = 8, sys_cwd = Some ''d'', sys_root = Map.empty,
     sys_dirs = [], sys_out = [], sys_send = \<lparr>data_send = [], send_offset = -1, ellipsis = False\<rparr>, sys_junk = []\<rparr>"

definition query_scan :: "string \<Rightarrow> ScanNode" where
  "query_scan tab = \<lparr>scan_tag = T_SeqScan, scan_tab = tab, scan_cols = [query_col tab], scan_conds = [], scan_len = 4, fed_conds = [],
     index_col_names = []\<rparr>"

definition query_cond :: Condition where
  "query_cond = \<lparr>lhs_col = \<lparr>tc_tab_name = ''t'', tc_col_name = ''a''\<rparr>, cond_op = OP_EQ, is_rhs_val = False,
     rhs_col = \<lparr>tc_tab_name = ''u'', tc_col_name = ''a''\<rparr>,
     rhs_val = \<lparr>val_type = TYPE_INT, val_num = int_val 0, str_val = [], raw = None\<rparr>\<rparr>"

definition query_spec :: JoinCondSpec where
  "query_spec = \<lparr>jc_lhs_offset = 0, jc_rhs_offset = 0, lhs_on_left = True, rhs_on_left = False, jc_is_rhs_val = False,
     jc_rhs_val = rhs_val query_cond, jc_lhs_type = TYPE_INT, jc_lhs_len = 4, jc_op = OP_EQ\<rparr>"

lemma query_table: "\<exists>r rid. rm_inv r \<and> rm_table r = [rid \<mapsto> [1, 2, 3, 4]] \<and> (\<forall>pid. pins (rs_bpm r) pid = 0) \<and> bp_avail (rs_bpm r) = 3"
proof -
  obtain rid r where r: "rm_ready r" "rm_table r = [rid \<mapsto> [1, 2, 3, 4]]" using witness_inserted by blast
  then have i: "rm_inv r" "bp_inv (rs_bpm r)" by (simp_all add: rm_ready_def rm_inv_def rm_base_def)
  obtain d where d: "disk_inv d" "disk_le (bp_disk (rs_bpm r)) d" "\<forall>n fd0. view_le (rs_bpm r) (new_BufferPoolManager n fd0 d)"
    using restart_pool[OF i(2)] by blast
  let ?b = "new_BufferPoolManager 3 (\<lambda>_. 0) d"
  have b: "bp_table ?b = []" "bp_disk ?b = d" "bp_avail ?b = 3"
    by (simp_all add: new_BufferPoolManager_def bp_avail_def new_LRUReplacer_def lru_frames_def)
  then have "rd_le (rs_bpm r) ?b" using d by (simp add: rd_le_def)
  note k = rd_keep[OF i(1) bp_inv_new[OF d(1)] this]
  have "pins ?b pid = 0" for pid using b(1) by (simp add: pins_def)
  then show ?thesis using k r(2) b(3) by (intro exI[of _ "r\<lparr>rs_bpm := ?b\<rparr>"] exI[of _ rid]) simp
qed

lemma query_joins: "joins [query_cond] (join_cols [query_col ''t''] 4 [query_col ''u'']) 4 4 [[1, 2, 3, 4]] [[1, 2, 3, 4]] [query_spec]"
  by (simp add: joins_def join_cols_def query_cond_def query_col_def query_spec_def build_cond_spec_def find_col_def join_side_def c_int_def in_int_def
      hash_cond_def byte_type_def raw_len_def type_size_def eval_join_cond_def byte_ptr_def compare_raw_value_def cmp3_def ex_bool_eq)

lemma query_scannable:
  assumes "rm_inv r" "rm_table r = T" "T = [rid \<mapsto> [1, 2, 3, 4]]" "t = ''t'' \<or> t = ''u''"
  shows "scannable (query_sys r) (query_scan t) [query_col t] T"
proof -
  have "sys_table t (query_sys r) T"
    unfolding sys_table_def by (intro exI[of _ r]) (use assms in \<open>auto simp: tab_state_def query_sys_def\<close>)
  then show ?thesis
    using assms(3,4) by (auto simp: scannable_def query_sys_def query_scan_def query_col_def get_table_def table_len_def c_int_def in_int_def)
qed

lemma query_facts:
  "table_len [query_col t] = Inr 4" "rid_list [rid \<mapsto> x] [rid]" "lockless None s"
  "[[1, 2, 3, 4]] = selected (scan_conds (query_scan t)) [query_col t] (records [rid \<mapsto> [1, 2, 3, 4]] [rid])"
  "join_fuel (length [rid]) (length [rid]) + 2 \<le> 20"
  "join_rows [query_cond] (join_cols [query_col ''t''] 4 [query_col ''u'']) [[1, 2, 3, 4]] [[1, 2, 3, 4]] = [[1, 2, 3, 4, 1, 2, 3, 4]]"
  by (simp_all add: table_len_def query_col_def c_int_def in_int_def rid_list_def lockless_def selected_def records_def query_scan_def join_fuel_def
      join_rows_def join_cols_def query_cond_def eval_cond_def find_col_def byte_ptr_def compare_raw_value_def raw_len_def type_size_def cmp3_def)

lemma query_pool:
  assumes "rm_inv r" "\<forall>pid. pins (rs_bpm r) pid = 0" "bp_avail (rs_bpm r) = 3"
  shows "bp_inv (sys_bpm (query_sys r))" "\<forall>pid. pins (sys_bpm (query_sys r)) pid = 0" "3 \<le> bp_avail (sys_bpm (query_sys r))"
  using assms by (simp_all add: query_sys_def rm_inv_def rm_base_def)


lemma query_run:
  "\<exists>r bp. run_plan 20 None (JoinPlan T_NestLoop (ScanPlan (query_scan ''t'')) (ScanPlan (query_scan ''u'')) [query_cond] INNER_JOIN) (query_sys r) =
     (Inr [[1, 2, 3, 4, 1, 2, 3, 4]], (query_sys r)\<lparr>sys_bpm := bp\<rparr>)"
proof -
  obtain r rid where r: "rm_inv r" "rm_table r = [rid \<mapsto> [1, 2, 3, 4]]" "\<forall>pid. pins (rs_bpm r) pid = 0" "bp_avail (rs_bpm r) = 3"
    using query_table by blast
  note sc = query_scannable[OF r(1,2) refl]
  from join_plan_run[OF sc sc query_facts(1,1,2,2,3) query_pool[OF r(1,3,4)] query_facts(4,4) query_joins query_facts(5), of T_NestLoop INNER_JOIN]
  show ?thesis unfolding query_facts(6) by auto
qed

lemma query_plan_cols:
  assumes "fst (convert_plan_executor (JoinPlan T_NestLoop (ScanPlan (query_scan ''t'')) (ScanPlan (query_scan ''u'')) [query_cond] INNER_JOIN) (query_sys r)) = Inr x"
  shows "ex_cols x = join_cols [query_col ''t''] 4 [query_col ''u'']"
  using assms
  by (auto simp: em_defs sys_res_def new_SeqScan_def query_scan_def query_sys_def get_table_def table_fd_def query_facts(1) new_JoinSt_def join_cols_def Let_def
      split: sum.splits prod.splits dest!: rbind_Inr[THEN iffD1])

end
