(* ===== verification/Restart.thy ===== *)
theory Restart
  imports Query
begin

text \<open>
  What recovery finds in the log (\<^verbatim>\<open>RecoveryManager::analyze\<close> in \<^verbatim>\<open>recovery/log_recovery.cpp\<close>, modelled in \<open>Recovery\<close>). The bytes that
  the log manager writes for a list of records are read back as that list, chunk by chunk, and the transactions are
  classified by their last record; behind a torn last record the loop makes no progress and never ends.
\<close>

section \<open>Reading the log file\<close>

definition log_file :: "DiskManager \<Rightarrow> byte list \<Rightarrow> bool" where
  "log_file d c \<longleftrightarrow> log_fd d \<noteq> -1 \<and> fd_path d (log_fd d) = Some LOG_FILE_NAME \<and> files d LOG_FILE_NAME = Some c"

definition log_bytes_all :: "LogRecord list \<Rightarrow> byte list" where
  "log_bytes_all rs = concat (map log_bytes rs)"

lemma log_bytes_all_simps [simp]: "log_bytes_all [] = []" "log_bytes_all (r # rs) = log_bytes r @ log_bytes_all rs"
  "log_bytes_all (rs @ rs') = log_bytes_all rs @ log_bytes_all rs'"
  by (simp_all add: log_bytes_all_def)

lemma read_log_file:
  assumes "log_file d c" "0 \<le> off" "off \<le> int (length c)" "0 \<le> sz"
  shows "\<exists>d'. read_log sz off d = (Inr (Some (take (nat sz) (drop (nat off) c))), d') \<and> log_file d' c"
proof -
  obtain f where f: "map_of (os_fds d) (log_fd d) = Some f" "of_path f = LOG_FILE_NAME"
    using assms(1) by (auto simp: log_file_def fd_path_def)
  have c: "files d LOG_FILE_NAME = Some c" "log_fd d \<noteq> -1" using assms(1) by (simp_all add: log_file_def)
  let ?n = "min sz (int (length c) - off)"
  have sz: "get_file_size LOG_FILE_NAME d = int (length c)" using c(1) by (simp add: get_file_size_def)
  show ?thesis
  proof (cases "?n = 0")
    case True
    then have "take (nat sz) (drop (nat off) c) = []" using assms(2-4) by (auto simp: min_def split: if_splits)
    then show ?thesis using assms True c(2) sz by (auto simp: read_log_def em_defs ensure_log_open_def Let_def)
  next
    case False
    let ?d1 = "os_lseek (log_fd d) off d"
    have g: "get_bytes (nat off) (nat ?n) c = take (nat sz) (drop (nat off) c)"
      using assms(2-4) by (auto simp: get_bytes_def min_def nat_diff_distrib)
    have l: "int (length (take (nat sz) (drop (nat off) c))) = ?n" using assms(2-4) by auto
    have m: "map_of (os_fds ?d1) (log_fd d) = Some (f\<lparr>of_pos := nat off\<rparr>)" using f(1) assms(2) by (simp add: os_lseek_def map_of_update)
    let ?d2 = "?d1\<lparr>os_fds := AList.update (log_fd d) (f\<lparr>of_pos := nat off + length (take (nat sz) (drop (nat off) c))\<rparr>) (os_fds ?d1)\<rparr>"
    have "os_read (log_fd d) (nat ?n) ?d1 = (Some (take (nat sz) (drop (nat off) c)), ?d2)"
      using m f(2) c(1) g by (simp add: os_read_def Let_def)
    then have "read_log sz off d = (Inr (Some (take (nat sz) (drop (nat off) c))), ?d2)"
      using assms(3) False c(2) sz l by (simp add: read_log_def em_defs ensure_log_open_def Let_def)
    moreover have "log_file ?d2 c" using c f(2) by (simp add: log_file_def fd_path_def map_of_update)
    ultimately show ?thesis by blast
  qed
qed

section \<open>Scanning a chunk\<close>

fun note_logs :: "LogRecord list \<Rightarrow> RecMgr \<Rightarrow> RecMgr res" where
  "note_logs [] g = Inr g"
| "note_logs (r # rs) g = rbind (note_log r g) (note_logs rs)"

lemma note_log_buffer: "note_log r g = Inr g' \<Longrightarrow> rec_buffer g' = rec_buffer g \<and> rec_logs g' = rec_logs g @ [r]"
  by (auto simp: note_log_def Let_def rbind_Inr split: if_splits option.splits)

lemma note_logs_buffer: "note_logs rs g = Inr g' \<Longrightarrow> rec_buffer g' = rec_buffer g \<and> rec_logs g' = rec_logs g @ rs"
proof (induction rs arbitrary: g)
  case (Cons r rs)
  then obtain g1 where "note_log r g = Inr g1" "note_logs rs g1 = Inr g'" by (auto simp: rbind_Inr)
  then show ?case using Cons.IH note_log_buffer[of r g g1] by simp
qed simp

lemma note_log_swap: "note_log r g = Inr g' \<Longrightarrow> note_log r (g\<lparr>rec_buffer := b\<rparr>) = Inr (g'\<lparr>rec_buffer := b\<rparr>)"
  by (cases "dml_table r") (auto simp: note_log_def Let_def split: if_splits option.splits)

lemma note_logs_swap: "note_logs rs g = Inr g' \<Longrightarrow> note_logs rs (g\<lparr>rec_buffer := b\<rparr>) = Inr (g'\<lparr>rec_buffer := b\<rparr>)"
proof (induction rs arbitrary: g)
  case (Cons r rs)
  then obtain g1 where "note_log r g = Inr g1" "note_logs rs g1 = Inr g'" by (auto simp: rbind_Inr)
  then show ?case using Cons.IH note_log_swap[of r g g1 b] by simp
qed simp

lemma find_log_type: "find (\<lambda>t. LogType_val t = LogType_val u) log_types = Some u"
  by (cases u) (simp_all add: log_types_def)

lemma log_len_pos: "log_wf r \<Longrightarrow> 20 \<le> length (log_bytes r)"
  by (simp add: log_bytes_def)

lemma log_head:
  assumes "log_wf r"
  shows "read_u32 8 (log_bytes r @ x) = Inr (int (length (log_bytes r)))" "read_int 0 (log_bytes r @ x) = Inr (LogType_val (type_of r))"
  using assms by (simp_all add: log_bytes_def hdr_bytes_def log_offsets read_simps log_wf_def hdr_ok_def)

lemma scan_step_record:
  assumes b: "rec_buffer g = pre @ log_bytes r @ post" and r: "log_small r" and n: "note_log r g = Inr g'"
    and len: "int (length pre + length (log_bytes r)) \<le> len" "len \<le> int LOG_BUFFER_SIZE"
  shows "scan_step len (int (length pre)) g = Inr (ScanNext (int (length pre + length (log_bytes r))), g')"
proof -
  have w: "log_wf r" using r by (simp add: log_small_def)
  note l = log_len_pos[OF w]
  have c: "c_int (int (length (log_bytes r))) = int (length (log_bytes r))"
    "c_int (int (length pre) + int (length (log_bytes r))) = int (length pre) + int (length (log_bytes r))"
    using len by (intro c_int_buffer; simp)+
  have tot: "log_tot_len (log_hdr r) = int (length (log_bytes r))" using w by (simp add: log_wf_def)
  have "read_u32 (length pre + 8) (rec_buffer g) = Inr (int (length (log_bytes r)))" "read_int (length pre) (rec_buffer g) = Inr (LogType_val (type_of r))"
    unfolding b using log_head[OF w, of post] by (simp_all add: read_u32_skip read_int_skip)
  then show ?thesis using len l c n tot deserialize_bytes[OF w, of post] b
    by (simp add: scan_step_def OFFSET_LOG_TOT_LEN_def LOG_OFFSET_LSN_def find_log_type)
qed

text \<open>The bytes behind the complete records of a chunk: fewer than the length field needs, or a record that does not fit.\<close>

definition cut_tail :: "nat \<Rightarrow> byte list \<Rightarrow> bool" where
  "cut_tail gap post \<longleftrightarrow> gap < 8 \<or> (\<exists>t. read_u32 8 post = Inr t \<and> in_int t \<and> int gap < t)"

lemma scan_step_cut:
  assumes "rec_buffer g = pre @ post" "cut_tail gap post" "gap \<noteq> 0"
  shows "scan_step (int (length pre + gap)) (int (length pre)) g = Inr (ScanBreak, g)"
proof (cases "gap < 8")
  case True
  then show ?thesis by (simp add: scan_step_def OFFSET_LOG_TOT_LEN_def LOG_OFFSET_LSN_def)
next
  case False
  then obtain t where t: "read_u32 8 post = Inr t" "in_int t" "int gap < t" using assms(2) by (auto simp: cut_tail_def)
  then have "read_u32 (length pre + 8) (rec_buffer g) = Inr t" unfolding assms(1) by (simp add: read_u32_skip)
  then show ?thesis using False t c_int_id[OF t(2)] by (simp add: scan_step_def OFFSET_LOG_TOT_LEN_def LOG_OFFSET_LSN_def)
qed

lemma scan_records_run:
  assumes "rec_buffer g = pre @ log_bytes_all rs @ post" "\<forall>r \<in> set rs. log_small r" "note_logs rs g = Inr g'"
    "len = int (length pre + length (log_bytes_all rs) + gap)" "len \<le> int LOG_BUFFER_SIZE" "cut_tail gap post" "length rs < n"
  shows "scan_records n len (int (length pre)) g = Inr (Some (int (length pre + length (log_bytes_all rs))), g')"
  using assms
proof (induction rs arbitrary: n pre g)
  case Nil
  then obtain m where n: "n = Suc m" by (cases n) auto
  show ?case
  proof (cases "gap = 0")
    case False
    then show ?thesis using scan_step_cut[of g pre post gap] Nil n by (simp add: add.commute)
  qed (use Nil n in simp)
next
  case (Cons r rs)
  then obtain m where n: "n = Suc m" by (cases n) auto
  obtain g1 where g1: "note_log r g = Inr g1" "note_logs rs g1 = Inr g'" using Cons.prems(3) by (auto simp: rbind_Inr)
  have b1: "rec_buffer g1 = (pre @ log_bytes r) @ log_bytes_all rs @ post" using note_log_buffer[OF g1(1)] Cons.prems(1) by simp
  have small: "log_small r" using Cons.prems(2) by simp
  then have p: "0 < length (log_bytes r)" using log_len_pos[of r] by (auto simp: log_small_def)
  have st: "scan_step len (int (length pre)) g = Inr (ScanNext (int (length pre + length (log_bytes r))), g1)"
    using Cons.prems(1,4,5) by (intro scan_step_record[OF _ small g1(1), of pre "log_bytes_all rs @ post"]) simp_all
  have "int (length pre) < len" using p Cons.prems(4) unfolding log_bytes_all_simps length_append by linarith
  then have "scan_records n len (int (length pre)) g = scan_records m len (int (length (pre @ log_bytes r))) g1" using n st by simp
  also have "\<dots> = Inr (Some (int (length (pre @ log_bytes r) + length (log_bytes_all rs))), g')"
    using Cons.prems n by (intro Cons.IH[OF b1 _ g1(2)]) simp_all
  finally show ?case by simp
qed

section \<open>Reading chunk by chunk\<close>

text \<open>A record cut off behind \<open>q\<close>, not inside the length field.\<close>

definition partial_log :: "byte list \<Rightarrow> bool" where
  "partial_log q \<longleftrightarrow> length q < 8 \<or> (12 \<le> length q \<and> (\<exists>r z. log_small r \<and> z \<noteq> [] \<and> log_bytes r = q @ z))"

lemma read_u32_prefix: "12 \<le> length q \<Longrightarrow> read_u32 8 (q @ x) = read_u32 8 q"
  by (simp add: read_u32_def read_at_def get_bytes_def)

lemma partial_cut:
  assumes "partial_log q"
  shows "cut_tail (length q) (q @ post)"
proof (cases "length q < 8")
  case False
  then obtain r z where r: "log_small r" "z \<noteq> []" "log_bytes r = q @ z" "12 \<le> length q" using assms by (auto simp: partial_log_def)
  have w: "log_wf r" using r(1) by (simp add: log_small_def)
  have "read_u32 8 (q @ post) = Inr (int (length (log_bytes r)))"
    using log_head(1)[OF w, of "[]"] r(3,4) read_u32_prefix[of q] by simp
  moreover have "in_int (int (length (log_bytes r)))" using r(1) buffer_size by (simp add: log_small_def in_int_def INT_MIN_def INT_MAX_def)
  ultimately show ?thesis using r(2,3) by (auto simp: cut_tail_def)
qed (simp add: cut_tail_def)

definition with_disk :: "Sys \<Rightarrow> DiskManager \<Rightarrow> Sys" where
  "with_disk s d = s\<lparr>sys_bpm := (sys_bpm s)\<lparr>bp_disk := d\<rparr>\<rparr>"

lemma with_disk_simps [simp]: "bp_disk (sys_bpm (with_disk s d)) = d" "with_disk (with_disk s d) d' = with_disk s d'"
  by (simp_all add: with_disk_def)

lemma put_bytes_start: "length b \<le> length buf \<Longrightarrow> put_bytes 0 b buf = b @ drop (length b) buf"
  by (simp add: put_bytes_def)

lemma read_chunk:
  assumes d: "log_file (bp_disk (sys_bpm s)) c" and c: "c = pre @ log_bytes_all ks @ rest" "int (length c) \<le> INT_MAX"
    and q: "q = take (LOG_BUFFER_SIZE - length (log_bytes_all ks)) rest" "length (log_bytes_all ks) \<le> LOG_BUFFER_SIZE" "partial_log q"
    and ne: "log_bytes_all ks @ q \<noteq> []" and ks: "\<forall>r \<in> set ks. log_small r" and nl: "note_logs ks g = Inr g'"
    and bl: "length (rec_buffer g) = LOG_BUFFER_SIZE + 1" and n: "length ks \<le> n"
  shows "\<exists>d' b. read_logs (Suc n) (int (length pre)) (s, g) =
      read_logs n (int (length (pre @ log_bytes_all ks))) (with_disk s d', g'\<lparr>rec_buffer := b\<rparr>) \<and>
      log_file d' c \<and> length b = LOG_BUFFER_SIZE + 1"
proof -
  let ?b = "log_bytes_all ks @ q"
  have "take LOG_BUFFER_SIZE (drop (length pre) c) = ?b" using c(1) q(1,2) by simp
  then obtain d' where d': "read_log (int LOG_BUFFER_SIZE) (int (length pre)) (bp_disk (sys_bpm s)) = (Inr (Some ?b), d')" "log_file d' c"
    using read_log_file[OF d, of "int (length pre)" "int LOG_BUFFER_SIZE"] c(1) by auto
  have lb: "length ?b \<le> LOG_BUFFER_SIZE" using q(1,2) by simp
  define buf where "buf = ?b @ drop (length ?b) (rec_buffer g)"
  have pb: "put_bytes 0 ?b (rec_buffer g) = buf" using put_bytes_start[of ?b "rec_buffer g"] lb bl by (simp add: buf_def)
  have "scan_records (Suc n) (int (length ?b)) (int (length ([] :: byte list))) (g\<lparr>rec_buffer := buf\<rparr>) =
      Inr (Some (int (length ([] :: byte list) + length (log_bytes_all ks))), g'\<lparr>rec_buffer := buf\<rparr>)"
    by (rule scan_records_run[OF _ ks note_logs_swap[OF nl] _ _ partial_cut[OF q(3), of "drop (length ?b) (rec_buffer g)"]])
      (use lb n in \<open>simp_all add: buf_def\<close>)
  then have sc: "scan_records (Suc n) (int (length ?b)) 0 (g\<lparr>rec_buffer := buf\<rparr>) = Inr (Some (int (length (log_bytes_all ks))), g'\<lparr>rec_buffer := buf\<rparr>)"
    by simp
  have ci: "c_int (int (length pre) + int (length (log_bytes_all ks))) = int (length (pre @ log_bytes_all ks))"
    using c by (subst c_int_id) (simp_all add: in_int_def INT_MIN_def)
  have dk: "on_sys (on_disk_mgr (read_log (int LOG_BUFFER_SIZE) (int (length pre)))) (s, g) = (Inr (Some ?b), with_disk s d', g)"
    using d'(1) by (simp add: on_sys_def on_disk_mgr_def on_bpm_def with_disk_def)
  have "read_logs (Suc n) (int (length pre)) (s, g) = read_logs n (int (length (pre @ log_bytes_all ks))) (with_disk s d', g'\<lparr>rec_buffer := buf\<rparr>)"
    unfolding read_logs.simps em_bind_def dk using ne pb sc ci by (auto simp del: scan_records.simps)
  moreover have "length buf = LOG_BUFFER_SIZE + 1" using bl lb by (simp add: buf_def)
  ultimately show ?thesis using d'(2) by blast
qed

text \<open>The records \<open>rs\<close> followed by the bytes \<open>p\<close>, read in pieces of the size of the log buffer: no piece ends inside
  the length field of a record.\<close>

inductive chunked :: "LogRecord list \<Rightarrow> byte list \<Rightarrow> bool" where
  one_chunk: "length (log_bytes_all rs @ p) \<le> LOG_BUFFER_SIZE \<Longrightarrow> partial_log p \<Longrightarrow> chunked rs p"
| next_chunk: "ks \<noteq> [] \<Longrightarrow> length (log_bytes_all ks) \<le> LOG_BUFFER_SIZE \<Longrightarrow>
    partial_log (take (LOG_BUFFER_SIZE - length (log_bytes_all ks)) (log_bytes_all rs @ p)) \<Longrightarrow> chunked rs p \<Longrightarrow> chunked (ks @ rs) p"

lemma log_bytes_all_Nil: "\<forall>r \<in> set rs. log_small r \<Longrightarrow> log_bytes_all rs = [] \<longleftrightarrow> rs = []"
proof (cases rs)
  case (Cons r rs')
  moreover assume "\<forall>r \<in> set rs. log_small r"
  ultimately show ?thesis using log_len_pos[of r] by (auto simp: log_small_def)
qed simp

lemma note_logs_append: "note_logs (ks @ rs) g = rbind (note_logs ks g) (note_logs rs)"
proof (induction ks arbitrary: g)
  case (Cons r ks)
  then show ?case by (cases "note_log r g") simp_all
qed simp

lemma read_logs_run:
  assumes "chunked rs p" and "log_file (bp_disk (sys_bpm s)) c" and "c = pre @ log_bytes_all rs @ p" and "int (length c) \<le> INT_MAX"
    and "\<forall>r \<in> set rs. log_small r" and "note_logs rs g = Inr g'" and "length (rec_buffer g) = LOG_BUFFER_SIZE + 1" and "length rs < n"
  shows "\<exists>m d' b. read_logs n (int (length pre)) (s, g) =
      read_logs m (int (length (pre @ log_bytes_all rs))) (with_disk s d', g'\<lparr>rec_buffer := b\<rparr>) \<and> log_file d' c \<and>
      length b = LOG_BUFFER_SIZE + 1 \<and> n \<le> m + length rs"
  using assms
proof (induction arbitrary: s pre g g' n rule: chunked.induct)
  case (one_chunk rs p)
  show ?case
  proof (cases "rs = []")
    case True
    have "s = with_disk s (bp_disk (sys_bpm s))" "g = g\<lparr>rec_buffer := rec_buffer g\<rparr>" by (simp_all add: with_disk_def)
    then show ?thesis using True one_chunk.prems(1,5,6)
      by (intro exI[of _ n] exI[of _ "bp_disk (sys_bpm s)"] exI[of _ "rec_buffer g"]) (simp del: read_logs.simps)
  next
    case False
    obtain n' where n: "n = Suc n'" "length rs \<le> n'" using one_chunk.prems(7) by (cases n) auto
    have "log_bytes_all rs @ p \<noteq> []" using log_bytes_all_Nil[OF one_chunk.prems(4)] False by simp
    moreover have "p = take (LOG_BUFFER_SIZE - length (log_bytes_all rs)) p" using one_chunk.hyps(1) by simp
    ultimately obtain d' b where "read_logs (Suc n') (int (length pre)) (s, g) =
        read_logs n' (int (length (pre @ log_bytes_all rs))) (with_disk s d', g'\<lparr>rec_buffer := b\<rparr>)" "log_file d' c" "length b = LOG_BUFFER_SIZE + 1"
      using read_chunk[OF one_chunk.prems(1-3) _ _ one_chunk.hyps(2) _ one_chunk.prems(4-6) n(2)] one_chunk.hyps(1) by auto
    moreover have "1 \<le> length rs" using False by (cases rs) simp_all
    ultimately show ?thesis using n(1) by (intro exI[of _ n'] exI[of _ d'] exI[of _ b]) (simp del: read_logs.simps)
  qed
next
  case (next_chunk ks rs p)
  obtain g1 where g1: "note_logs ks g = Inr g1" "note_logs rs g1 = Inr g'" using next_chunk.prems(5) by (auto simp: note_logs_append rbind_Inr)
  obtain n' where n: "n = Suc n'" "length ks \<le> n'" "length rs < n'"
    using next_chunk.prems(7) next_chunk.hyps(1) by (cases n; cases ks) auto
  have ks: "\<forall>r \<in> set ks. log_small r" and rs: "\<forall>r \<in> set rs. log_small r" using next_chunk.prems(4) by auto
  have "log_bytes_all ks @ take (LOG_BUFFER_SIZE - length (log_bytes_all ks)) (log_bytes_all rs @ p) \<noteq> []"
    using log_bytes_all_Nil[OF ks] next_chunk.hyps(1) by simp
  then obtain d1 b1 where st: "read_logs (Suc n') (int (length pre)) (s, g) =
      read_logs n' (int (length (pre @ log_bytes_all ks))) (with_disk s d1, g1\<lparr>rec_buffer := b1\<rparr>)" "log_file d1 c" "length b1 = LOG_BUFFER_SIZE + 1"
    using read_chunk[OF next_chunk.prems(1) _ next_chunk.prems(3) refl next_chunk.hyps(2,3) _ ks g1(1) next_chunk.prems(6) n(2)]
      next_chunk.prems(2) by auto
  obtain m d' b where ih: "read_logs n' (int (length (pre @ log_bytes_all ks))) (with_disk s d1, g1\<lparr>rec_buffer := b1\<rparr>) =
      read_logs m (int (length ((pre @ log_bytes_all ks) @ log_bytes_all rs))) (with_disk (with_disk s d1) d', g'\<lparr>rec_buffer := b1\<rparr>\<lparr>rec_buffer := b\<rparr>)"
      "log_file d' c" "length b = LOG_BUFFER_SIZE + 1" "n' \<le> m + length rs"
    using next_chunk.IH[OF _ _ next_chunk.prems(3) rs note_logs_swap[OF g1(2), of b1] _ n(3), of "with_disk s d1" "pre @ log_bytes_all ks"]
      next_chunk.prems(2) st(2,3) by auto
  have "n \<le> m + length (ks @ rs)" using ih(4) n(1) next_chunk.hyps(1) by (cases ks) simp_all
  then show ?case using st(1) ih(1-3) n(1) by (intro exI[of _ m] exI[of _ d'] exI[of _ b]) (simp del: read_logs.simps)
qed

section \<open>The transactions of a log\<close>

definition tid :: "LogRecord \<Rightarrow> txn_id_t" where "tid r = log_tid (log_hdr r)"

definition last_log :: "LogRecord list \<Rightarrow> txn_id_t \<Rightarrow> LogRecord option" where
  "last_log rs t = (case filter (\<lambda>r. tid r = t) rs of [] \<Rightarrow> None | xs \<Rightarrow> Some (last xs))"

text \<open>Records numbered from 0, every transaction beginning with its begin record, table names ending in a zero byte.\<close>

definition complete_log :: "LogRecord list \<Rightarrow> bool" where
  "complete_log rs \<longleftrightarrow> (\<forall>i < length rs. log_small (rs ! i) \<and> lsn (log_hdr (rs ! i)) = int i \<and> (\<exists>t. dml_table (rs ! i) = Inr t) \<and>
     (type_of (rs ! i) \<noteq> begin_log \<longrightarrow> (\<exists>k < i. tid (rs ! k) = tid (rs ! i))))"

lemma last_log_snoc: "last_log (rs @ [r]) t = (if tid r = t then Some r else last_log rs t)"
  by (cases "filter (\<lambda>r. tid r = t) rs") (auto simp: last_log_def)

lemma last_log_in: "last_log rs t = Some r \<Longrightarrow> r \<in> set rs \<and> tid r = t"
  using last_in_set[of "filter (\<lambda>r. tid r = t) rs"] by (auto simp: last_log_def split: list.splits)

lemma last_log_some: "r \<in> set rs \<Longrightarrow> tid r = t \<Longrightarrow> last_log rs t \<noteq> None"
  by (auto simp: last_log_def filter_empty_conv split: list.splits)

lemma complete_log_snoc:
  assumes "complete_log (rs @ [r])"
  shows "complete_log rs" "log_small r" "lsn (log_hdr r) = int (length rs)" "\<exists>t. dml_table r = Inr t"
    "type_of r \<noteq> begin_log \<Longrightarrow> last_log rs (tid r) \<noteq> None"
proof -
  have a: "log_small ((rs @ [r]) ! i) \<and> lsn (log_hdr ((rs @ [r]) ! i)) = int i \<and> (\<exists>t. dml_table ((rs @ [r]) ! i) = Inr t) \<and>
     (type_of ((rs @ [r]) ! i) \<noteq> begin_log \<longrightarrow> (\<exists>k < i. tid ((rs @ [r]) ! k) = tid ((rs @ [r]) ! i)))" if "i \<le> length rs" for i
    using assms that by (simp add: complete_log_def)
  show "complete_log rs" unfolding complete_log_def
  proof (intro allI impI)
    fix i assume "i < length rs"
    then show "log_small (rs ! i) \<and> lsn (log_hdr (rs ! i)) = int i \<and> (\<exists>t. dml_table (rs ! i) = Inr t) \<and>
     (type_of (rs ! i) \<noteq> begin_log \<longrightarrow> (\<exists>k < i. tid (rs ! k) = tid (rs ! i)))" using a[of i] by (auto simp: nth_append)
  qed
  show "log_small r" "lsn (log_hdr r) = int (length rs)" "\<exists>t. dml_table r = Inr t" using a[of "length rs"] by simp_all
  show "last_log rs (tid r) \<noteq> None" if t: "type_of r \<noteq> begin_log"
  proof -
    obtain k where "k < length rs" "tid (rs ! k) = tid r" using a[of "length rs"] t by (auto simp: nth_append)
    then show ?thesis by (intro last_log_some[of "rs ! k"]) simp_all
  qed
qed

lemma complete_log_small: "complete_log rs \<Longrightarrow> \<forall>r \<in> set rs. log_small r"
  by (auto simp: complete_log_def in_set_conv_nth)

lemma map_of_att_put: "map_of (att_put t l es) = (map_of es)(t \<mapsto> l)"
  by (induction t l es rule: att_put.induct) (auto simp: fun_eq_iff)

lemma set_att_put: "fst ` set (att_put t l es) = insert t (fst ` set es)"
  by (induction t l es rule: att_put.induct) auto

lemma sorted_att_put: "sorted_wrt (<) (map fst es) \<Longrightarrow> sorted_wrt (<) (map fst (att_put t l es))"
proof (induction t l es rule: att_put.induct)
  case (2 t l t' l' es)
  have "\<forall>x \<in> fst ` set (att_put t l es). t' < x" if "t' < t" using 2(2) that by (auto simp: set_att_put)
  then show ?case using 2 by (fastforce intro: less_trans)
qed simp

text \<open>What the scan keeps of the records it has read.\<close>

definition noted :: "LogRecord list \<Rightarrow> RecMgr \<Rightarrow> bool" where
  "noted rs g \<longleftrightarrow> rec_logs g = rs \<and> sorted_wrt (<) (map fst (att g)) \<and> committed_txns g = [] \<and> aborted_txns g = [] \<and>
     (\<forall>t. map_of (att g) t = map_option (\<lambda>r. lsn (log_hdr r)) (last_log rs t))"

lemma noted_complete: "complete_log rs \<Longrightarrow> \<exists>g. note_logs rs new_RecMgr = Inr g \<and> noted rs g"
proof (induction rs rule: rev_induct)
  case Nil
  then show ?case by (simp add: noted_def new_RecMgr_def last_log_def)
next
  case (snoc r rs)
  note c = complete_log_snoc[OF snoc.prems]
  obtain g where g: "note_logs rs new_RecMgr = Inr g" "noted rs g" using snoc.IH[OF c(1)] by blast
  obtain t where t: "dml_table r = Inr t" using c(4) by blast
  have "type_of r \<noteq> begin_log \<longrightarrow> map_of (att g) (tid r) \<noteq> None" using c(5) g(2) by (auto simp: noted_def)
  then have "\<exists>g'. note_log r g = Inr g' \<and> rec_logs g' = rec_logs g @ [r] \<and> att g' = att_put (tid r) (lsn (log_hdr r)) (att g) \<and>
      committed_txns g' = committed_txns g \<and> aborted_txns g' = aborted_txns g"
    using t by (auto simp: note_log_def Let_def tid_def split: option.splits)
  then obtain g' where g': "note_log r g = Inr g'" "rec_logs g' = rec_logs g @ [r]" "att g' = att_put (tid r) (lsn (log_hdr r)) (att g)"
      "committed_txns g' = committed_txns g" "aborted_txns g' = aborted_txns g" by blast
  then have "noted (rs @ [r]) g'" using g(2) sorted_att_put by (auto simp: noted_def map_of_att_put last_log_snoc)
  then show ?case using g(1) g'(1) by (simp add: note_logs_append)
qed

lemma noted_last:
  assumes "complete_log rs" "noted rs g"
  shows "(\<exists>l. (t, l) \<in> set (att g) \<and> 0 \<le> l \<and> l < int (length (rec_logs g)) \<and> type_of (rec_logs g ! nat l) = y) \<longleftrightarrow>
    (\<exists>r. last_log rs t = Some r \<and> type_of r = y)"
proof -
  have "distinct (map fst (att g))" using assms(2) strict_sorted_iff by (auto simp: noted_def)
  then have m: "(t, l) \<in> set (att g) \<longleftrightarrow> map_of (att g) t = Some l" for l by (simp add: map_of_eq_Some_iff)
  have r: "0 \<le> lsn (log_hdr r) \<and> lsn (log_hdr r) < int (length rs) \<and> rs ! nat (lsn (log_hdr r)) = r" if "r \<in> set rs" for r
    using that assms(1) by (auto simp: complete_log_def in_set_conv_nth)
  show ?thesis unfolding m using assms(2) r last_log_in[of rs t] by (fastforce simp: noted_def)
qed

lemma classify_sets:
  assumes "complete_log rs" "noted rs g"
  shows "set (committed_txns (classify g)) = {t. \<exists>r. last_log rs t = Some r \<and> type_of r = commit_log}"
    "set (aborted_txns (classify g)) = {t. \<exists>r. last_log rs t = Some r \<and> type_of r = ABORT}"
  using assms(2) unfolding noted_last[OF assms, symmetric]
  by (force simp: classify_def Let_def noted_def image_iff split: if_splits)+

lemma chunked_tail: "chunked rs p \<Longrightarrow> length p \<le> LOG_BUFFER_SIZE \<and> partial_log p"
  by (induction rule: chunked.induct) simp_all

lemma new_RecMgr_buffer: "length (rec_buffer new_RecMgr) = LOG_BUFFER_SIZE + 1"
  by (simp add: new_RecMgr_def new_LogBuffer_def)

text \<open>Behind the complete records every round reads the same bytes again.\<close>

lemma torn_loop:
  assumes "log_file (bp_disk (sys_bpm s)) (pre @ p)" "int (length (pre @ p)) \<le> INT_MAX" "p \<noteq> []" "length p \<le> LOG_BUFFER_SIZE" "partial_log p"
    "length (rec_buffer g) = LOG_BUFFER_SIZE + 1"
  shows "\<exists>s' g'. read_logs n (int (length pre)) (s, g) = (Inl OutOfFuel, s', g') \<and> rec_logs g' = rec_logs g"
  using assms(1,6)
proof (induction n arbitrary: s g)
  case (Suc n)
  have p: "p = take (LOG_BUFFER_SIZE - length (log_bytes_all [])) p" "pre @ p = pre @ log_bytes_all [] @ p" "log_bytes_all [] @ p \<noteq> []"
    "length (log_bytes_all []) \<le> LOG_BUFFER_SIZE"
    using assms(3,4) by simp_all
  have nl: "note_logs [] g = Inr g" "\<forall>r \<in> set []. log_small r" "length ([] :: LogRecord list) \<le> n" by simp_all
  obtain d' b where st: "read_logs (Suc n) (int (length pre)) (s, g) = read_logs n (int (length (pre @ log_bytes_all []))) (with_disk s d', g\<lparr>rec_buffer := b\<rparr>)"
    "log_file d' (pre @ p)" "length b = LOG_BUFFER_SIZE + 1"
    using read_chunk[OF Suc.prems(1) p(2) assms(2) p(1,4) assms(5) p(3) nl(2,1) Suc.prems(2) nl(3)] by blast
  have "log_file (bp_disk (sys_bpm (with_disk s d'))) (pre @ p)" "length (rec_buffer (g\<lparr>rec_buffer := b\<rparr>)) = LOG_BUFFER_SIZE + 1" using st(2,3) by simp_all
  from Suc.IH[OF this] show ?case unfolding st(1) by simp
qed (simp add: em_defs)

section \<open>Properties of the analysis\<close>

text \<open>C6: Recovery reads back what the log manager wrote. Let the log file hold the bytes of a list of records that fit the log buffer, numbered from 0,
  in which every transaction starts with its begin record, and let no read of the size of the buffer end inside the length field of a record. Then
  the analysis ends, with enough steps for one more than the records, having collected exactly these records; the committed transactions are those
  whose last record is a commit and the aborted ones those whose last record is an abort, and the next sequence number is the number of records.
  Only the position in the log file has changed.\<close>

theorem analysis_reads_log:
  assumes "complete_log rs" and "log_file (bp_disk (sys_bpm s)) (log_bytes_all rs)" and "chunked rs []"
    and "int (length (log_bytes_all rs)) \<le> INT_MAX" and "length rs + 1 < n"
  shows "\<exists>d' g. read_logs n 0 (s, new_RecMgr) = (Inr True, with_disk s d', g) \<and> rec_logs g = rs \<and> rec_next_lsn g = int (length rs) \<and>
     set (committed_txns (classify g)) = {t. \<exists>r. last_log rs t = Some r \<and> type_of r = commit_log} \<and>
     set (aborted_txns (classify g)) = {t. \<exists>r. last_log rs t = Some r \<and> type_of r = ABORT}"
proof -
  obtain g where g: "note_logs rs new_RecMgr = Inr g" "noted rs g" using noted_complete[OF assms(1)] by blast
  have "length rs < n" using assms(5) by simp
  from read_logs_run[OF assms(3,2) _ assms(4) complete_log_small[OF assms(1)] g(1) new_RecMgr_buffer this, of "[]"]
  obtain m d' b where st: "read_logs n 0 (s, new_RecMgr) = read_logs m (int (length (log_bytes_all rs))) (with_disk s d', g\<lparr>rec_buffer := b\<rparr>)"
    "log_file d' (log_bytes_all rs)" "n \<le> m + length rs" by (auto simp del: read_logs.simps)
  obtain m' where m: "m = Suc m'" using st(3) assms(5) by (cases m) auto
  obtain d2 where "read_log (int LOG_BUFFER_SIZE) (int (length (log_bytes_all rs))) d' = (Inr (Some []), d2)"
    using read_log_file[OF st(2), of "int (length (log_bytes_all rs))" "int LOG_BUFFER_SIZE"] by auto
  then have dk: "on_sys (on_disk_mgr (read_log (int LOG_BUFFER_SIZE) (int (length (log_bytes_all rs))))) (with_disk s d', g\<lparr>rec_buffer := b\<rparr>) =
      (Inr (Some []), with_disk s d2, g\<lparr>rec_buffer := b\<rparr>)"
    by (simp add: on_sys_def on_disk_mgr_def on_bpm_def with_disk_def)
  have "read_logs n 0 (s, new_RecMgr) = (Inr True, with_disk s d2, g\<lparr>rec_buffer := b\<rparr>)"
    unfolding st(1) m read_logs.simps em_bind_def dk by (simp add: em_return_def)
  moreover have nd: "noted rs (g\<lparr>rec_buffer := b\<rparr>)" using g(2) by (simp add: noted_def)
  moreover have "rec_logs (g\<lparr>rec_buffer := b\<rparr>) = rs" "rec_next_lsn (g\<lparr>rec_buffer := b\<rparr>) = int (length rs)"
    using nd by (simp_all add: noted_def rec_next_lsn_def)
  ultimately show ?thesis using classify_sets[OF assms(1) nd] by blast
qed

text \<open>C8: The analysis of a torn log never ends. When the log file holds complete records followed by a part of one more record (a crash inside
  the write of the log buffer), with fewer than 8 or at least 12 of its bytes, then the loop of \<^verbatim>\<open>analyze\<close> reads the same bytes again and again: whatever the
  number of steps, it has not returned, and the server does not start.\<close>

theorem analysis_torn_log_diverges:
  assumes "complete_log rs" and "log_file (bp_disk (sys_bpm s)) (log_bytes_all rs @ p)" and "chunked rs p" and "p \<noteq> []"
    and "int (length (log_bytes_all rs @ p)) \<le> INT_MAX" and "length rs < n"
  shows "\<exists>s' g'. read_logs n 0 (s, new_RecMgr) = (Inl OutOfFuel, s', g') \<and> rec_logs g' = rs"
proof -
  obtain g where g: "note_logs rs new_RecMgr = Inr g" "noted rs g" using noted_complete[OF assms(1)] by blast
  from read_logs_run[OF assms(3,2) _ assms(5) complete_log_small[OF assms(1)] g(1) new_RecMgr_buffer assms(6), of "[]"]
  obtain m d' b where st: "read_logs n 0 (s, new_RecMgr) = read_logs m (int (length (log_bytes_all rs))) (with_disk s d', g\<lparr>rec_buffer := b\<rparr>)"
    "log_file d' (log_bytes_all rs @ p)" "length b = LOG_BUFFER_SIZE + 1" by (auto simp del: read_logs.simps)
  have "rec_logs (g\<lparr>rec_buffer := b\<rparr>) = rs" using g(2) by (simp add: noted_def)
  then show ?thesis unfolding st(1)
    using torn_loop[of "with_disk s d'" "log_bytes_all rs" p "g\<lparr>rec_buffer := b\<rparr>" m] st(2,3) assms(4,5) chunked_tail[OF assms(3)] by (auto simp del: read_logs.simps)
qed

text \<open>A log with one committed transaction, and with one byte of a further record.\<close>

definition witness_logs :: "LogRecord list" where
  "witness_logs = [set_lsn 0 (new_BeginLogRecord 5), set_lsn 1 (new_CommitLogRecord 5)]"

definition witness_log_sys :: "byte list \<Rightarrow> Sys" where
  "witness_log_sys c = with_disk (query_sys (witness_rm 4)) (witness_log_disk\<lparr>files := (files witness_log_disk)(LOG_FILE_NAME \<mapsto> c)\<rparr>)"

lemma witness_log_file: "log_file (bp_disk (sys_bpm (witness_log_sys c))) c"
proof -
  have "fd_path witness_log_disk 3 = Some LOG_FILE_NAME" "log_fd witness_log_disk = 3" by code_simp+
  then show ?thesis by (simp add: witness_log_sys_def log_file_def fd_path_def)
qed

lemma witness_logs_small: "log_small (set_lsn l r)" if "r \<in> {new_BeginLogRecord 5, new_CommitLogRecord 5}" "in_int l"
proof -
  have s: "log_small r"
    using that(1) by (intro built_log_length[OF witness_log_args]) (auto simp: built_logs_def witness_rec_def)
  then have "log_wf (set_lsn l r)" using that(2) by (simp add: log_small_def set_lsn_def log_wf_link)
  then show ?thesis using s by (simp add: log_small_def set_lsn_def log_bytes_def)
qed

lemma witness_logs_complete: "complete_log witness_logs"
proof -
  have "log_small (set_lsn 0 (new_BeginLogRecord 5))" "log_small (set_lsn 1 (new_CommitLogRecord 5))"
    using witness_logs_small in_int_small_num by simp_all
  then show ?thesis
    by (simp add: complete_log_def witness_logs_def All_less_Suc numeral_2_eq_2 tid_def set_lsn_def new_log_defs new_LogHdr_def)
qed

lemma witness_logs_chunked: "length p < 8 \<Longrightarrow> chunked witness_logs p" and witness_logs_length: "length (log_bytes_all witness_logs) = 40"
proof -
  show l: "length (log_bytes_all witness_logs) = 40"
    by (simp add: witness_logs_def log_bytes_def set_lsn_def new_log_defs)
  show "chunked witness_logs p" if "length p < 8"
    using that l by (intro one_chunk) (simp_all add: partial_log_def LOG_BUFFER_SIZE_def PAGE_SIZE_def)
qed

theorem analysis_reads_log_witness:
  "\<exists>d' g. read_logs 4 0 (witness_log_sys (log_bytes_all witness_logs), new_RecMgr) =
      (Inr True, with_disk (witness_log_sys (log_bytes_all witness_logs)) d', g) \<and> rec_logs g = witness_logs \<and> 5 \<in> set (committed_txns (classify g))"
proof -
  have "\<exists>r. last_log witness_logs 5 = Some r \<and> type_of r = commit_log"
    by (simp add: last_log_def witness_logs_def tid_def set_lsn_def new_log_defs new_LogHdr_def)
  then show ?thesis
    using analysis_reads_log[OF witness_logs_complete witness_log_file witness_logs_chunked, of 4] witness_logs_length
    by (auto simp: witness_logs_def INT_MAX_def simp del: read_logs.simps)
qed

theorem analysis_torn_log_diverges_witness:
  "\<exists>s' g'. read_logs 1000000 0 (witness_log_sys (log_bytes_all witness_logs @ [3]), new_RecMgr) = (Inl OutOfFuel, s', g') \<and> rec_logs g' = witness_logs"
  using analysis_torn_log_diverges[OF witness_logs_complete witness_log_file witness_logs_chunked, of "[3]" 1000000] witness_logs_length
  by (auto simp: witness_logs_def INT_MAX_def simp del: read_logs.simps)

end
