(* ===== verification/OrderBy.thy ===== *)
theory OrderBy
  imports Query
begin

text \<open>
  What ORDER BY and LIMIT return (\<^verbatim>\<open>execution/execution_sort.h\<close>, modelled in \<open>Executors\<close>). The comparison of two records by the sort keys is the
  lexicographic order of integer ranks, so the sort of the executor yields an ordered permutation of its input, of which the limit keeps a least part.
\<close>

section \<open>The order of the sort keys\<close>

definition key_ranks :: "ColMeta \<times> bool \<Rightarrow> byte list \<Rightarrow> int list" where
  "key_ranks = (\<lambda>(col, d) a. let k = col_rank (cm_type col) (nat (cm_len col)) (drop (nat (cm_offset col)) a) in if d then map uminus k else k)"

definition sort_rank :: "(ColMeta \<times> bool) list \<Rightarrow> byte list \<Rightarrow> int list" where
  "sort_rank keys a = concat (map (\<lambda>k. key_ranks k a) keys)"

text \<open>The columns of the keys lie in the record, and a FLOAT column holds a number.\<close>

definition sortable :: "(ColMeta \<times> bool) list \<Rightarrow> byte list \<Rightarrow> bool" where
  "sortable keys a \<longleftrightarrow> (\<forall>(col, d) \<in> set keys. 0 \<le> cm_offset col \<and> 0 \<le> raw_len (cm_type col) (cm_len col) \<and>
     cm_offset col + raw_len (cm_type col) (cm_len col) \<le> int (length a) \<and>
     (cm_type col = TYPE_FLOAT \<longrightarrow> \<not> f32_nan (dec_f32 (drop (nat (cm_offset col)) a))))"

lemma lcmp_uminus: "lcmp (map uminus a) (map uminus b) = - lcmp a b"
  by (induction a b rule: lcmp.induct) auto

lemma length_key_ranks:
  assumes "sortable (k # keys) a" "sortable (k # keys) b"
  shows "length (key_ranks k a) = length (key_ranks k b)"
proof -
  obtain col d where k: "k = (col, d)" by fastforce
  show ?thesis using assms by (cases "cm_type col") (auto simp: k key_ranks_def Let_def sortable_def raw_len_def)
qed

lemma length_sort_rank: "sortable keys a \<Longrightarrow> sortable keys b \<Longrightarrow> length (sort_rank keys a) = length (sort_rank keys b)"
proof (induction keys)
  case (Cons k keys)
  have "sortable keys a" "sortable keys b" using Cons.prems by (simp_all add: sortable_def)
  then show ?case using Cons length_key_ranks[OF Cons.prems] by (simp add: sort_rank_def)
qed (simp add: sort_rank_def)

lemma compare_records_rank:
  assumes "sortable keys a" "sortable keys b"
  shows "compare_records a b keys = Inr (lcmp (sort_rank keys a) (sort_rank keys b))"
  using assms
proof (induction keys)
  case (Cons k keys)
  obtain col d where k: "k = (col, d)" by fastforce
  let ?a = "drop (nat (cm_offset col)) a" and ?b = "drop (nat (cm_offset col)) b" and ?t = "cm_type col" and ?n = "cm_len col"
  have o: "0 \<le> cm_offset col" "0 \<le> raw_len ?t ?n" "cm_offset col + raw_len ?t ?n \<le> int (length a)" "cm_offset col + raw_len ?t ?n \<le> int (length b)"
    "?t = TYPE_FLOAT \<longrightarrow> \<not> f32_nan (dec_f32 ?a) \<and> \<not> f32_nan (dec_f32 ?b)"
    using Cons.prems by (auto simp: k sortable_def)
  have p: "byte_ptr (cm_offset col) a = Inr ?a" "byte_ptr (cm_offset col) b = Inr ?b" using o by (simp_all add: byte_ptr_def)
  have c: "compare_raw_value ?a ?b ?t ?n = Inr (lcmp (col_rank ?t (nat ?n) ?a) (col_rank ?t (nat ?n) ?b))"
    using o compare1_rank[OF o(5), of "nat ?n"] by (auto simp: compare_raw_value_def)
  have "sortable keys a" "sortable keys b" using Cons.prems by (simp_all add: sortable_def)
  note ih = Cons.IH[OF this]
  have kr: "lcmp (key_ranks k a) (key_ranks k b) = (if d then - lcmp (col_rank ?t (nat ?n) ?a) (col_rank ?t (nat ?n) ?b)
      else lcmp (col_rank ?t (nat ?n) ?a) (col_rank ?t (nat ?n) ?b))"
    by (simp add: k key_ranks_def Let_def lcmp_uminus)
  have "lcmp (sort_rank (k # keys) a) (sort_rank (k # keys) b) =
      (if lcmp (key_ranks k a) (key_ranks k b) \<noteq> 0 then lcmp (key_ranks k a) (key_ranks k b) else lcmp (sort_rank keys a) (sort_rank keys b))"
    using lcmp_append[OF length_key_ranks[OF Cons.prems]] by (simp add: sort_rank_def)
  then show ?case using p c ih kr by (auto simp: k)
qed (simp add: sort_rank_def)

definition sort_le :: "(ColMeta \<times> bool) list \<Rightarrow> byte list \<Rightarrow> byte list \<Rightarrow> bool" where
  "sort_le keys a b \<longleftrightarrow> lcmp (sort_rank keys a) (sort_rank keys b) \<le> 0"

lemma sort_le_trans:
  assumes "sortable keys a" "sortable keys b" "sortable keys c" "sort_le keys a b" "sort_le keys b c"
  shows "sort_le keys a c"
  using assms lcmp_trans[OF length_sort_rank[OF assms(1,2)] length_sort_rank[OF assms(2,3)]] by (simp add: sort_le_def)

lemma sort_less_rank:
  assumes "sortable keys a" "sortable keys b"
  shows "sort_less keys a b = Inr (\<not> sort_le keys b a)"
  using assms lcmp_swap[of "sort_rank keys b" "sort_rank keys a"] by (auto simp: sort_less_def compare_records_rank sort_le_def)

lemma sort_le_total: "sortable keys a \<Longrightarrow> sortable keys b \<Longrightarrow> \<not> sort_le keys b a \<Longrightarrow> sort_le keys a b"
  using lcmp_swap[of "sort_rank keys b" "sort_rank keys a"] by (simp add: sort_le_def)

section \<open>Sorting\<close>

lemma sort_insert_ok:
  assumes "sortable keys x" "\<forall>y \<in> set ys. sortable keys y" "sorted_wrt (sort_le keys) ys"
  shows "\<exists>zs. sort_insert (sort_less keys) x ys = Inr zs \<and> mset zs = add_mset x (mset ys) \<and> sorted_wrt (sort_le keys) zs"
  using assms(2,3)
proof (induction ys)
  case (Cons y ys)
  then obtain zs where zs: "sort_insert (sort_less keys) x ys = Inr zs" "mset zs = add_mset x (mset ys)" "sorted_wrt (sort_le keys) zs" by auto
  have s: "sortable keys y" "sort_less keys y x = Inr (\<not> sort_le keys x y)" using Cons.prems assms(1) sort_less_rank by simp_all
  show ?case
  proof (cases "sort_le keys x y")
    case True
    then have "\<forall>z \<in> set ys. sort_le keys x z" using Cons.prems sort_le_trans[OF assms(1) s(1)] by auto
    then show ?thesis using True s(2) Cons.prems(2) by simp
  next
    case False
    have "set zs = insert x (set ys)" using mset_eq_setD[of zs "x # ys"] zs(2) by simp
    then have "\<forall>z \<in> set zs. sort_le keys y z" using Cons.prems(2) sort_le_total[OF s(1) assms(1) False] by auto
    then show ?thesis using False s(2) zs by simp
  qed
qed simp

lemma std_sort_ok:
  assumes "\<forall>x \<in> set xs. sortable keys x"
  shows "\<exists>ys. std_sort (sort_less keys) xs = Inr ys \<and> mset ys = mset xs \<and> sorted_wrt (sort_le keys) ys"
  using assms
proof (induction xs)
  case (Cons x xs)
  then obtain ys where ys: "std_sort (sort_less keys) xs = Inr ys" "mset ys = mset xs" "sorted_wrt (sort_le keys) ys" by auto
  have "\<forall>y \<in> set ys. sortable keys y" using mset_eq_setD[OF ys(2)] Cons.prems by simp
  then show ?case using sort_insert_ok[of keys x ys] Cons.prems ys by auto
qed simp

section \<open>The executor\<close>

lemma drain_length: "drain n ctx nx (\<lambda>rec recs. Inr (recs @ [rec])) acc x s = (Inr (recs, x'), s') \<Longrightarrow> length recs < n + length acc"
proof (induction n arbitrary: acc x s)
  case (Suc n)
  show ?case
  proof (cases "ex_is_end x")
    case True
    then show ?thesis using Suc.prems by (auto simp: em_return_def)
  next
    case False
    then obtain r x1 s1 x2 s2 where "drain n ctx nx (\<lambda>rec recs. Inr (recs @ [rec])) (acc @ [r]) x2 s2 = (Inr (recs, x'), s')"
      using Suc.prems by (auto simp: em_bind_def sys_res_def split: prod.splits sum.splits)
    then show ?thesis using Suc.IH by fastforce
  qed
qed (simp add: em_throw_def)

lemma sort_drain:
  assumes "i + length out < n + i" "sorted_records so = done @ out" "current_idx so = length done" "so_end so \<longleftrightarrow> out = []" "0 < m"
  shows "\<exists>so'. drain n ctx (ex_next m ctx) (\<lambda>rec recs. Inr (recs @ [rec])) acc (SortEx so x) s = (Inr (acc @ out, SortEx so' x), s)"
  using assms
proof (induction out arbitrary: n so "done" acc)
  case Nil
  then obtain k where "n = Suc k" by (cases n) auto
  then show ?case using Nil by (simp add: em_return_def)
next
  case (Cons r out)
  obtain k where n: "n = Suc k" using Cons.prems(1) by (cases n) auto
  obtain m' where m: "m = Suc m'" using Cons.prems(5) by (cases m) auto
  have nx: "sort_Next so = Inr (Some r)" using Cons.prems(2-4) by (simp add: sort_Next_def)
  let ?so = "sort_next so"
  have "sorted_records ?so = (done @ [r]) @ out" "current_idx ?so = length (done @ [r])" "so_end ?so \<longleftrightarrow> out = []"
    using Cons.prems(2-4) by (auto simp: sort_next_def)
  from Cons.IH[OF _ this, of k "acc @ [r]"] obtain so' where
    "drain k ctx (ex_next m ctx) (\<lambda>rec recs. Inr (recs @ [rec])) (acc @ [r]) (SortEx ?so x) s = (Inr ((acc @ [r]) @ out, SortEx so' x), s)"
    using Cons.prems(1,5) n by auto
  then show ?case using n m nx Cons.prems(4) by (simp add: ex_tuple_def em_defs sys_res_def)
qed

lemma run_plan_Inr:
  assumes "run_plan n ctx plan s = (Inr recs, s')"
  shows "\<exists>x s1 x1 s2 x2. convert_plan_executor plan s = (Inr x, s1) \<and> ex_begin n ctx x s1 = (Inr x1, s2) \<and>
     drain n ctx (ex_next n ctx) (\<lambda>rec recs. Inr (recs @ [rec])) [] x1 s2 = (Inr (recs, x2), s')"
  using assms unfolding run_plan_def by (auto simp: em_bind_def em_return_def split: prod.splits sum.splits)

lemma sort_begin:
  assumes "ex_begin n ctx x s1 = (Inr x1, s2)" "drain n ctx (ex_next n ctx) (\<lambda>rec recs. Inr (recs @ [rec])) [] x1 s2 = (Inr (recs, x2), s3)"
    "sort_fill so recs = Inr so'"
  shows "ex_begin (Suc n) ctx (SortEx so x) s1 = (Inr (SortEx so' x2), s3)"
  using assms by (simp add: em_defs sys_res_def)

text \<open>C7: ORDER BY and LIMIT. Whenever the plan below the sort returns the rows \<open>recs\<close>, with the key columns inside the rows and no NaN among
  them, the sort over it returns, in the same state, rows ordered by the keys (the first key decides, DESC keys reversed): with no limit
  or a large one all rows of \<open>recs\<close>, each as often as it came in, and otherwise as many as the limit says, none of them behind a row
  that is left out.\<close>

theorem sort_query_rows:
  assumes "run_plan n ctx sub s = (Inr recs, s')" and "fst (convert_plan_executor sub s) = Inr x"
    and "get_sort_keys (ex_cols x) sort_cols is_desc = Inr keys" and "\<forall>r \<in> set recs. sortable keys r" and "length recs \<le> nat INT_MAX"
  shows "\<exists>out rest. run_plan (Suc n) ctx (SortPlan tag sub sort_cols is_desc lim) s = (Inr out, s') \<and> sorted_wrt (sort_le keys) out \<and>
     mset (out @ rest) = mset recs \<and> (\<forall>a \<in> set out. \<forall>b \<in> set rest. sort_le keys a b) \<and>
     length out = (if 0 \<le> lim then min (nat lim) (length recs) else length recs)"
proof -
  obtain s1 x1 s2 x2 where st: "convert_plan_executor sub s = (Inr x, s1)" "ex_begin n ctx x s1 = (Inr x1, s2)"
    "drain n ctx (ex_next n ctx) (\<lambda>rec recs. Inr (recs @ [rec])) [] x1 s2 = (Inr (recs, x2), s')"
    using run_plan_Inr[OF assms(1)] assms(2) by auto
  obtain ys where ys: "std_sort (sort_less keys) recs = Inr ys" "mset ys = mset recs" "sorted_wrt (sort_le keys) ys" using std_sort_ok[OF assms(4)] by blast
  have ly: "length ys = length recs" using ys(2) by (rule mset_eq_length)
  define so where "so = \<lparr>so_cols = ex_cols x, so_len = tupleLen x, sort_keys = keys, so_limit = lim, sorted_records = [], current_idx = 0, so_end = True\<rparr>"
  define k where "k = (if 0 \<le> lim then min (nat lim) (length recs) else length recs)"
  define so' where "so' = so\<lparr>sorted_records := take k ys, current_idx := 0, so_end := (take k ys = [])\<rparr>"
  have "c_int (int (length ys)) = int (length ys)" using assms(5) ly by (intro c_int_id) (simp add: in_int_def INT_MIN_def INT_MAX_def)
  then have fill: "sort_fill so recs = Inr so'" using ys(1) ly by (auto simp: sort_fill_def so_def so'_def k_def Let_def min_def)
  have conv: "convert_plan_executor (SortPlan tag sub sort_cols is_desc lim) s = (Inr (SortEx so x), s1)"
    using st(1) assms(3) by (simp add: em_defs sys_res_def new_SortSt_def so_def)
  have "length (take k ys) < Suc n" using drain_length[OF st(3)] ly by simp
  then obtain so2 where dr: "drain (Suc n) ctx (ex_next (Suc n) ctx) (\<lambda>rec recs. Inr (recs @ [rec])) [] (SortEx so' x2) s' = (Inr (take k ys, SortEx so2 x2), s')"
    using sort_drain[of 0 "take k ys" "Suc n" so' "[]" "Suc n" ctx "[]" x2 s'] by (auto simp: so'_def simp del: drain.simps ex_next.simps)
  have "run_plan (Suc n) ctx (SortPlan tag sub sort_cols is_desc lim) s = (Inr (take k ys), s')"
    unfolding run_plan_def em_bind_def conv using sort_begin[OF st(2,3) fill] dr by (simp add: em_return_def del: drain.simps ex_begin.simps ex_next.simps)
  moreover have "sorted_wrt (sort_le keys) (take k ys @ drop k ys)" using ys(3) by simp
  then have "sorted_wrt (sort_le keys) (take k ys)" "\<forall>a \<in> set (take k ys). \<forall>b \<in> set (drop k ys). sort_le keys a b"
    unfolding sorted_wrt_append by blast+
  ultimately show ?thesis using ys(2) ly by (intro exI[of _ "take k ys"] exI[of _ "drop k ys"]) (simp add: k_def)
qed

theorem sort_query_rows_witness:
  "\<exists>r bp. run_plan 21 None (SortPlan T_Sort (JoinPlan T_NestLoop (ScanPlan (query_scan ''t'')) (ScanPlan (query_scan ''u'')) [query_cond] INNER_JOIN)
     [\<lparr>tc_tab_name = ''u'', tc_col_name = ''a''\<rparr>] [True] 1) (query_sys r) = (Inr [[1, 2, 3, 4, 1, 2, 3, 4]], (query_sys r)\<lparr>sys_bpm := bp\<rparr>)"
proof -
  let ?p = "JoinPlan T_NestLoop (ScanPlan (query_scan ''t'')) (ScanPlan (query_scan ''u'')) [query_cond] INNER_JOIN"
  obtain r bp where r: "run_plan 20 None ?p (query_sys r) = (Inr [[1, 2, 3, 4, 1, 2, 3, 4]], (query_sys r)\<lparr>sys_bpm := bp\<rparr>)" using query_run by blast
  obtain x where x: "fst (convert_plan_executor ?p (query_sys r)) = Inr x" using run_plan_Inr[OF r] by fastforce
  let ?k = "[((query_col ''u'')\<lparr>cm_offset := 4\<rparr>, True)]"
  have "ex_cols x = join_cols [query_col ''t''] 4 [query_col ''u'']" by (rule query_plan_cols[OF x])
  then have k: "get_sort_keys (ex_cols x) [\<lparr>tc_tab_name = ''u'', tc_col_name = ''a''\<rparr>] [True] = Inr ?k"
    by (simp add: join_cols_def query_col_def find_col_def c_int_def in_int_def)
  have "\<forall>y \<in> set [[1, 2, 3, 4, 1, 2, 3, 4]]. sortable ?k y" by (simp add: sortable_def query_col_def raw_len_def type_size_def)
  from sort_query_rows[OF r x k this, of T_Sort 1] obtain out rest where
    "run_plan (Suc 20) None (SortPlan T_Sort ?p [\<lparr>tc_tab_name = ''u'', tc_col_name = ''a''\<rparr>] [True] 1) (query_sys r) = (Inr out, (query_sys r)\<lparr>sys_bpm := bp\<rparr>)"
    "mset (out @ rest) = mset [[1, 2, 3, 4, 1, 2, 3, 4]]" "length out = 1"
    by (auto simp: INT_MAX_def)
  moreover from this(2,3) have "out = [[1, 2, 3, 4, 1, 2, 3, 4]]" by (cases out) auto
  ultimately show ?thesis by auto
qed

end
