(* ===== verification/AstPrinter.thy ===== *)
theory AstPrinter
  imports Analyze Printer
begin

text \<open>
  The printer of syntax trees, \<^verbatim>\<open>parser/ast_printer.h\<close>. The state is the text written to \<^verbatim>\<open>std::cout\<close>; \<^verbatim>\<open>print_node\<close> is one
  definition per class of nodes it distinguishes, and its last branch, \<^verbatim>\<open>assert(0)\<close>, is \<open>AssertFailure\<close>. The lemmas show which
  trees are printed to the end, what the output is, and which parts of a SELECT do not reach it.
\<close>

section \<open>Floating-point numbers on a stream\<close>

text \<open>
  \<^verbatim>\<open>operator<<\<close> prints a \<^verbatim>\<open>float\<close> like \<^verbatim>\<open>%g\<close>: six significant digits without trailing zeros, with an exponent if the number is at least
  a million or less than 0.0001. The number is the fraction of two natural numbers, and \<open>decimal_exp\<close> the exponent of its first digit.
\<close>

definition decimal_exp :: "nat \<Rightarrow> nat \<Rightarrow> int" where
  "decimal_exp a b =
     (case List.find (\<lambda>E. if E \<ge> 0 then b * 10 ^ nat E \<le> a else b \<le> a * 10 ^ nat (- E)) (rev [-45..38]) of
        None \<Rightarrow> 0 | Some E \<Rightarrow> E)"

definition six_digits :: "nat \<Rightarrow> nat \<Rightarrow> nat \<times> int" where
  "six_digits a b =
     (let E = decimal_exp a b;
          n = (if E \<ge> 5 then round_div a (b * 10 ^ nat (E - 5)) else round_div (a * 10 ^ nat (5 - E)) b)
      in if n = 10 ^ 6 then (10 ^ 5, E + 1) else (n, E))"

definition strip_zeros :: "string \<Rightarrow> string" where
  "strip_zeros frac =
     (let f = rev (dropWhile (\<lambda>c. c = CHR ''0'') (rev frac)) in if f = [] then [] else CHR ''.'' # f)"

definition float_g :: "nat \<Rightarrow> nat \<Rightarrow> string" where
  "float_g a b =
     (if a = 0 then ''0''
      else let (n, X) = six_digits a b in
        if X < -4 \<or> 6 \<le> X then
          nat_to_string (n div 10 ^ 5) @ strip_zeros (zero_pad 5 (n mod 10 ^ 5)) @ ''e'' @
            (if X < 0 then ''-'' else ''+'') @ zero_pad 2 (nat \<bar>X\<bar>)
        else if X < 0 then
          ''0'' @ strip_zeros (replicate (nat (- X - 1)) (CHR ''0'') @ nat_to_string n)
        else
          nat_to_string (n div 10 ^ nat (5 - X)) @ strip_zeros (zero_pad (nat (5 - X)) (n mod 10 ^ nat (5 - X))))"

definition f32_stream :: "f32 \<Rightarrow> string" where
  "f32_stream x =
     (let bits = nat (uint (x AND 0x7FFFFFFF)); e = bits div 2 ^ 23; m = bits mod 2 ^ 23;
          sign = (if bit x 31 then ''-'' else '''')
      in if e = 255 then sign @ (if m = 0 then ''inf'' else ''nan'')
         else let sig = (if e = 0 then m else m + 2 ^ 23); ex = (if e = 0 then 1 else e)
              in sign @ (if ex \<ge> 150 then float_g (sig * 2 ^ (ex - 150)) 1 else float_g sig (2 ^ (150 - ex))))"

section \<open>The tree printer\<close>

definition cout :: "string \<Rightarrow> (string, unit) em" where
  "cout s = em_modify (\<lambda>out. out @ s)"

definition offset2string :: "int \<Rightarrow> string" where
  "offset2string off = replicate (nat off) (CHR '' '')"

text \<open>The template is instantiated with values that are given here as the text the stream makes of them.\<close>

definition print_val :: "string \<Rightarrow> int \<Rightarrow> (string, unit) em" where
  "print_val val off = cout (offset2string off @ val @ NL)"

fun print_vals :: "string list \<Rightarrow> int \<Rightarrow> (string, unit) em" where
  "print_vals [] off = em_return ()"
| "print_vals (v # vs) off = em_then (print_val v off) (print_vals vs off)"

definition print_val_list :: "string list \<Rightarrow> int \<Rightarrow> (string, unit) em" where
  "print_val_list vals off = em_then (cout (offset2string off @ ''LIST'' @ NL)) (print_vals vals (off + 2))"

fun type2str :: "SvType \<Rightarrow> string" where
  "type2str SV_TYPE_INT = ''INT''"
| "type2str SV_TYPE_FLOAT = ''FLOAT''"
| "type2str SV_TYPE_BIGINT = ''BIGINT''"
| "type2str SV_TYPE_STRING = ''STRING''"
| "type2str SV_TYPE_DATETIME = ''DATETIME''"

fun op2str :: "SvCompOp \<Rightarrow> string" where
  "op2str SV_OP_EQ = ''==''"
| "op2str SV_OP_NE = ''!=''"
| "op2str SV_OP_LT = ''<''"
| "op2str SV_OP_GT = ''>''"
| "op2str SV_OP_LE = ''<=''"
| "op2str SV_OP_GE = ''>=''"

text \<open>\<^verbatim>\<open>print_node_list\<close> over the printing function of the nodes' class.\<close>

fun print_nodes :: "('n \<Rightarrow> int \<Rightarrow> (string, unit) em) \<Rightarrow> 'n list \<Rightarrow> int \<Rightarrow> (string, unit) em" where
  "print_nodes p [] off = em_return ()"
| "print_nodes p (n # ns) off = em_then (p n off) (print_nodes p ns off)"

definition print_node_list :: "('n \<Rightarrow> int \<Rightarrow> (string, unit) em) \<Rightarrow> 'n list \<Rightarrow> int \<Rightarrow> (string, unit) em" where
  "print_node_list p nodes off =
     em_then (cout (offset2string off)) (em_then (cout (''LIST'' @ NL)) (print_nodes p nodes (off + 2)))"

text \<open>The first line of \<^verbatim>\<open>print_node\<close> and the name each branch prints; the last branch fails.\<close>

definition node_head :: "string \<Rightarrow> int \<Rightarrow> (string, unit) em" where
  "node_head name off = em_then (cout (offset2string off)) (cout (name @ NL))"

definition node_unknown :: "int \<Rightarrow> (string, unit) em" where
  "node_unknown off = em_then (cout (offset2string off)) (em_throw AssertFailure)"

definition print_TypeLen :: "TypeLen \<Rightarrow> int \<Rightarrow> (string, unit) em" where
  "print_TypeLen x off =
     em_then (node_head ''TYPE_LEN'' off)
       (em_then (print_val (type2str (tl_type x)) (off + 2)) (print_val (to_string (tl_len x)) (off + 2)))"

fun print_Field :: "Field \<Rightarrow> int \<Rightarrow> (string, unit) em" where
  "print_Field (SvColDef col_name type_len) off =
     em_then (node_head ''COL_DEF'' off)
       (em_then (print_val col_name (off + 2)) (print_TypeLen type_len (off + 2)))"
| "print_Field PlainField off = node_unknown off"

definition print_Col :: "SvCol \<Rightarrow> int \<Rightarrow> (string, unit) em" where
  "print_Col x off =
     em_then (node_head ''COL'' off)
       (em_then (print_val (sv_tab_name x) (off + 2)) (print_val (sv_col_name x) (off + 2)))"

fun print_Value :: "SvValue \<Rightarrow> int \<Rightarrow> (string, unit) em" where
  "print_Value (IntLit val) off = em_then (node_head ''INT_LIT'' off) (print_val val (off + 2))"
| "print_Value (FloatLit val) off = em_then (node_head ''FLOAT_LIT'' off) (print_val (f32_stream val) (off + 2))"
| "print_Value (StringLit val) off = em_then (node_head ''STRING_LIT'' off) (print_val val (off + 2))"

fun print_Expr :: "SvExpr \<Rightarrow> int \<Rightarrow> (string, unit) em" where
  "print_Expr (ColExpr c) off = print_Col c off"
| "print_Expr (ValueExpr v) off = print_Value v off"
| "print_Expr (AggregateExpr a) off = node_unknown off"

definition print_SetClause :: "SvSetClause \<Rightarrow> int \<Rightarrow> (string, unit) em" where
  "print_SetClause x off =
     em_then (node_head ''SET_CLAUSE'' off)
       (em_then (print_val (sc_col_name x) (off + 2)) (print_Value (sc_val x) (off + 2)))"

definition print_BinaryExpr :: "BinaryExpr \<Rightarrow> int \<Rightarrow> (string, unit) em" where
  "print_BinaryExpr x off =
     em_then (node_head ''BINARY_EXPR'' off)
       (em_then (print_Col (be_lhs x) (off + 2))
         (em_then (print_val (op2str (be_op x)) (off + 2)) (print_Expr (be_rhs x) (off + 2))))"

fun print_node :: "TreeNode \<Rightarrow> int \<Rightarrow> (string, unit) em" where
  "print_node Help off = node_head ''HELP'' off"
| "print_node ShowTables off = node_head ''SHOW_TABLES'' off"
| "print_node (ShowIndex tab_name) off = em_then (node_head ''SHOW_INDEX'' off) (print_val tab_name (off + 2))"
| "print_node (CreateTable tab_name flds) off =
     em_then (node_head ''CREATE_TABLE'' off)
       (em_then (print_val tab_name (off + 2)) (print_node_list print_Field flds (off + 2)))"
| "print_node (DropTable tab_name) off = em_then (node_head ''DROP_TABLE'' off) (print_val tab_name (off + 2))"
| "print_node (DescTable tab_name) off = em_then (node_head ''DESC_TABLE'' off) (print_val tab_name (off + 2))"
| "print_node (CreateIndex tab_name col_names) off =
     em_then (node_head ''CREATE_INDEX'' off)
       (em_then (print_val tab_name (off + 2)) (print_vals col_names (off + 2)))"
| "print_node (DropIndex tab_name col_names) off =
     em_then (node_head ''DROP_INDEX'' off)
       (em_then (print_val tab_name (off + 2)) (print_vals col_names (off + 2)))"
| "print_node (InsertStmt tab_name vals) off =
     em_then (node_head ''INSERT'' off)
       (em_then (print_val tab_name (off + 2)) (print_node_list print_Value vals (off + 2)))"
| "print_node (DeleteStmt tab_name cs) off =
     em_then (node_head ''DELETE'' off)
       (em_then (print_val tab_name (off + 2)) (print_node_list print_BinaryExpr cs (off + 2)))"
| "print_node (UpdateStmt tab_name clauses cs) off =
     em_then (node_head ''UPDATE'' off)
       (em_then (print_val tab_name (off + 2))
         (em_then (print_node_list print_SetClause clauses (off + 2))
           (print_node_list print_BinaryExpr cs (off + 2))))"
| "print_node (Select x) off =
     em_then (node_head ''SELECT'' off)
       (em_then (print_val_list (sel_tabs x) (off + 2)) (print_node_list print_BinaryExpr (sel_conds x) (off + 2)))"
| "print_node TxnBegin off = node_head ''BEGIN'' off"
| "print_node TxnCommit off = node_head ''COMMIT'' off"
| "print_node TxnAbort off = node_head ''ABORT'' off"
| "print_node TxnRollback off = node_head ''ROLLBACK'' off"

definition ast_print :: "TreeNode \<Rightarrow> (string, unit) em" where
  "ast_print node = print_node node 0"

section \<open>Which trees are printed\<close>

text \<open>
  The parts of a tree that lie on a printed path and have no branch: a field that is no column definition, and an
  aggregate on the right of a condition. The grammar builds neither.
\<close>

definition cond_printable :: "BinaryExpr \<Rightarrow> bool" where
  "cond_printable c \<longleftrightarrow> (case be_rhs c of AggregateExpr a \<Rightarrow> False | _ \<Rightarrow> True)"

fun printable :: "TreeNode \<Rightarrow> bool" where
  "printable (CreateTable tab_name flds) \<longleftrightarrow> list_all (\<lambda>f. f \<noteq> PlainField) flds"
| "printable (DeleteStmt tab_name cs) \<longleftrightarrow> list_all cond_printable cs"
| "printable (UpdateStmt tab_name clauses cs) \<longleftrightarrow> list_all cond_printable cs"
| "printable (Select x) \<longleftrightarrow> list_all cond_printable (sel_conds x)"
| "printable _ \<longleftrightarrow> True"

text \<open>A printer that succeeds appends a text that does not depend on what was printed before.\<close>

definition appends :: "bool \<Rightarrow> (string, unit) em \<Rightarrow> bool" where
  "appends ok p \<longleftrightarrow> (\<exists>s. \<forall>out. p out = (if ok then Inr () else Inl AssertFailure, out @ s))"

named_theorems ast_print_intros

lemma appends_cout [ast_print_intros]: "appends True (cout s)"
  by (auto simp: appends_def cout_def em_defs)

lemma appends_return [ast_print_intros]: "appends True (em_return ())"
  by (auto simp: appends_def em_return_def)

lemma appends_then: "appends ok1 p \<Longrightarrow> appends ok2 q \<Longrightarrow> appends (ok1 \<and> ok2) (em_then p q)"
  by (cases ok1; cases ok2) (fastforce simp: appends_def em_defs)+

lemma appends_seq [ast_print_intros]: "appends True p \<Longrightarrow> appends ok q \<Longrightarrow> appends ok (em_then p q)"
  using appends_then[of True p ok q] by simp

lemma appends_unknown: "appends False (node_unknown off)"
  by (auto simp: appends_def node_unknown_def cout_def em_defs)

lemma appends_head [ast_print_intros]: "appends True (node_head name off)"
  unfolding node_head_def by (intro ast_print_intros)

lemma appends_val [ast_print_intros]: "appends True (print_val v off)"
  unfolding print_val_def by (intro ast_print_intros)

lemma appends_vals [ast_print_intros]: "appends True (print_vals vs off)"
  by (induction vs) (simp_all add: ast_print_intros)

lemma appends_nodes:
  assumes "\<And>n. n \<in> set ns \<Longrightarrow> appends (ok n) (p n off)"
  shows "appends (list_all ok ns) (print_nodes p ns off)"
  using assms
proof (induction ns)
  case Nil
  show ?case by (simp add: appends_return)
next
  case (Cons n ns)
  then show ?case using appends_then[of "ok n" "p n off" "list_all ok ns"] by simp
qed

lemma appends_node_list [ast_print_intros]:
  assumes "\<And>n off. appends (ok n) (p n off)"
  shows "appends (list_all ok ns) (print_node_list p ns off)"
  unfolding print_node_list_def by (intro ast_print_intros appends_nodes assms)

lemma appends_val_list [ast_print_intros]: "appends True (print_val_list vs off)"
  unfolding print_val_list_def by (intro ast_print_intros)

lemma appends_TypeLen [ast_print_intros]: "appends True (print_TypeLen x off)"
  unfolding print_TypeLen_def by (intro ast_print_intros)

lemma appends_Field [ast_print_intros]: "appends (f \<noteq> PlainField) (print_Field f off)"
  by (cases f) (simp_all add: ast_print_intros appends_unknown)

lemma appends_Col [ast_print_intros]: "appends True (print_Col x off)"
  unfolding print_Col_def by (intro ast_print_intros)

lemma appends_Value [ast_print_intros]: "appends True (print_Value v off)"
  by (cases v) (simp_all add: ast_print_intros)

lemma appends_SetClause [ast_print_intros]: "appends True (print_SetClause x off)"
  unfolding print_SetClause_def by (intro ast_print_intros)

lemma appends_BinaryExpr [ast_print_intros]: "appends (cond_printable x) (print_BinaryExpr x off)"
proof -
  have "appends (cond_printable x) (print_Expr (be_rhs x) (off + 2))"
    by (cases "be_rhs x") (simp_all add: cond_printable_def ast_print_intros appends_unknown)
  then show ?thesis unfolding print_BinaryExpr_def by (intro ast_print_intros)
qed

lemma list_all_True [simp]: "list_all (\<lambda>_. True) xs"
  by (simp add: list_all_iff)

lemma appends_lists [ast_print_intros]:
  "appends True (print_node_list print_Value vs off)"
  "appends True (print_node_list print_SetClause cs off)"
  using appends_node_list[of "\<lambda>_. True" print_Value vs off, OF appends_Value]
    appends_node_list[of "\<lambda>_. True" print_SetClause cs off, OF appends_SetClause] by simp_all

lemma print_node_appends: "appends (printable t) (print_node t off)"
  by (cases t) (simp_all add: ast_print_intros)

text \<open>A tree is printed to the end, with the same text behind any earlier output, exactly when all its printed parts have a branch.\<close>

theorem ast_print_total:
  "\<exists>s. \<forall>out. ast_print t out = (if printable t then Inr () else Inl AssertFailure, out @ s)"
  using print_node_appends[of t 0] by (simp add: appends_def ast_print_def)

text \<open>Of a SELECT only the tables and conditions are printed.\<close>

theorem ast_print_select:
  "sel_tabs x = sel_tabs y \<Longrightarrow> sel_conds x = sel_conds y \<Longrightarrow> ast_print (Select x) = ast_print (Select y)"
  by (simp add: ast_print_def)

end
