(* ===== verification/IxUpdate.thy ===== *)
theory IxUpdate
  imports IxIndex
begin

text \<open>
  Inserting into and deleting from the B+ tree where the leaf that is reached can take the change: no node is split, merged or
  refilled. \<open>ix_index\<close> is the invariant of an index in use: the pages form a B+ tree with linked leaves, no page occurs twice,
  every node knows its parent and has room for one more entry, the keys of an inner node are the first keys of its children, and
  behind the last leaf is the leaf header page. Both operations keep it and refine the update of the map from keys to record ids;
  \<open>insert_entry_new\<close> is the part of insertion that needs no split.
\<close>

section \<open>Nodes that are held\<close>

lemma held_node:
  assumes "bp_inv (ih_bpm s)" and "ix_held s p f"
  shows "ix_view s p = Some (ix_node s f)" and "ix_page_no s f = p" and "0 < pins (ih_bpm s) (ix_pid s p)"
proof -
  have t: "map_of (bp_table (ih_bpm s)) (ix_pid s p) = Some f" "0 < pg_pin (bp_frame (ih_bpm s) f)"
    using assms(2) by (simp_all add: ix_held_def bp_held_def)
  show "ix_view s p = Some (ix_node s f)"
    using t bp_inv_ok[OF assms(1) t(1)] by (simp add: ix_view_def page_view_def ix_node_def)
  show "ix_page_no s f = p" using bp_struct_table(2)[OF bp_inv_struct[OF assms(1)] t(1)] by (simp add: ix_page_no_def)
  show "0 < pins (ih_bpm s) (ix_pid s p)" using t by (simp add: pins_def)
qed

text \<open>Changing a node that is held.\<close>

lemma ix_upd_step:
  assumes "bp_inv (ih_bpm s)" and "ix_held s p f" and "g (ih_hdr s) (ix_node s f) = Inr n" and "node_fits (ih_hdr s) n"
  obtains s' where "ix_upd f g s = (Inr (), s')" "ih_hdr s' = ih_hdr s" "ih_fd s' = ih_fd s" "bp_inv (ih_bpm s')"
    "pins (ih_bpm s') = pins (ih_bpm s)" "bp_avail (ih_bpm s') = bp_avail (ih_bpm s)"
    "ix_view s' = (ix_view s)(p \<mapsto> n)" "\<forall>q g. ix_held s' q g \<longleftrightarrow> ix_held s q g"
    "bp_disk (ih_bpm s') = bp_disk (ih_bpm s)"
proof (cases "n = ix_node s f")
  case True
  show thesis
    using that[of s] assms True held_node(1)[OF assms(1,2)] by (simp add: ix_upd_def fun_upd_idem)
next
  case False
  let ?b = "ih_bpm s" and ?pid = "ix_pid s p" and ?e = "enc_IxNode (ih_hdr s) n"
  have t: "map_of (bp_table ?b) ?pid = Some f" "0 < pg_pin (bp_frame ?b f)" using assms(2) by (simp_all add: ix_held_def bp_held_def)
  note st = bp_struct_table[OF bp_inv_struct[OF assms(1)] t(1)]
  note enc = dec_enc_node[OF assms(4) st(6)]
  note w = page_write_pinned[of ?b ?pid f ?e, OF assms(1) t enc(2)]
  have sel: "bp_table (page_write f ?e ?b) = bp_table ?b" "bp_disk (page_write f ?e ?b) = bp_disk ?b"
      "bp_free (page_write f ?e ?b) = bp_free ?b" "bp_replacer (page_write f ?e ?b) = bp_replacer ?b"
    by (simp_all add: page_write_def set_page_def)
  let ?s' = "s\<lparr>ih_bpm := page_write f ?e ?b\<rparr>"
  have "ix_view ?s' = (ix_view s)(p \<mapsto> n)"
    using w(2) sel(2) enc(1) bp_inv_ok[OF assms(1) t(1)] by (auto simp: ix_view_def fun_eq_iff)
  moreover have "ix_held ?s' q g \<longleftrightarrow> ix_held s q g" for q g
    using page_write_nth[OF st(5), of ?e g] sel(1) by (auto simp: ix_held_def bp_held_def)
  ultimately show thesis
    using that[of ?s'] w(1,3) sel assms(3) False by (simp add: ix_upd_def bp_avail_def)
qed

text \<open>
  \<open>ix_kept s p f s'\<close>: the frame still holds its page, which is pinned as in \<open>s\<close>, and every node of \<open>s\<close> is there.
\<close>

definition ix_kept :: "IxState \<Rightarrow> IxState \<Rightarrow> bool" where
  "ix_kept s s' \<longleftrightarrow> bp_inv (ih_bpm s') \<and> ih_hdr s' = ih_hdr s \<and> ih_fd s' = ih_fd s \<and> pins (ih_bpm s') = pins (ih_bpm s) \<and>
     bp_avail (ih_bpm s) \<le> bp_avail (ih_bpm s') \<and> (\<forall>p n. ix_view s p = Some n \<longrightarrow> ix_view s' p = Some n) \<and>
     (\<forall>q g. ix_held s q g \<longrightarrow> ix_held s' q g)"

text \<open>Fetching a node and releasing it as dirty.\<close>

lemma fetch_release:
  assumes "bp_inv (ih_bpm s)" and "0 < bp_avail (ih_bpm s)" and "ix_view s p = Some n"
  obtains f s1 s2 where "fetch_node p s = (Inr f, s1)" "ix_node s1 f = n" "\<forall>q g. ix_held s q g \<longrightarrow> ix_held s1 q g"
    "bp_inv (ih_bpm s1)" "\<forall>q m. ix_view s q = Some m \<longrightarrow> ix_view s1 q = Some m"
    "ix_unpin f True s1 = (Inr True, s2)" "ix_kept s s2"
proof -
  have r: "ix_ready s" using assms(1,2) by (simp add: ix_ready_def bp_roomy_avail)
  have pn: "0 \<le> pins (ih_bpm s) (ix_pid s p)"
    using assms(1) bp_struct_table(3) by (auto simp: pins_def dest!: bp_inv_struct split: option.split)
  show thesis
  proof (rule fetch_node_step[OF r assms(3)])
    fix f s1
    assume f: "fetch_node p s = (Inr f, s1)" "ih_hdr s1 = ih_hdr s" "ih_fd s1 = ih_fd s" "ix_node s1 f = n" "ix_held s1 p f"
      "bp_inv (ih_bpm s1)"
      and pi: "pins (ih_bpm s1) = (pins (ih_bpm s))(ix_pid s p := pins (ih_bpm s) (ix_pid s p) + 1)"
      and a: "bp_avail (ih_bpm s) \<le> Suc (bp_avail (ih_bpm s1))"
        "0 < pins (ih_bpm s) (ix_pid s p) \<Longrightarrow> bp_avail (ih_bpm s1) = bp_avail (ih_bpm s)"
      and v: "\<forall>q m. ix_view s q = Some m \<longrightarrow> ix_view s1 q = Some m" and hh: "\<forall>q g. ix_held s q g \<longrightarrow> ix_held s1 q g"
    show thesis
    proof (rule ix_unpin_step[OF f(6,5), of True])
      fix s2
      assume u: "ix_unpin f True s1 = (Inr True, s2)" "ih_hdr s2 = ih_hdr s1" "ih_fd s2 = ih_fd s1" "bp_inv (ih_bpm s2)"
        "pins (ih_bpm s2) = (pins (ih_bpm s1))(ix_pid s1 p := pins (ih_bpm s1) (ix_pid s1 p) - 1)"
        "bp_avail (ih_bpm s2) = bp_avail (ih_bpm s1) + (if pins (ih_bpm s1) (ix_pid s1 p) = 1 then 1 else 0)"
        "ix_view s2 = ix_view s1" "\<forall>q g. q \<noteq> p \<or> 1 < pins (ih_bpm s1) (ix_pid s1 p) \<longrightarrow> ix_held s1 q g \<longrightarrow> ix_held s2 q g"
      have "bp_avail (ih_bpm s) \<le> bp_avail (ih_bpm s2)" using a u(6) pi pn by (auto simp: f(3) split: if_splits)
      moreover have "ix_held s2 q g" if "ix_held s q g" for q g
        using u(8) hh that held_node(3)[OF assms(1) that] pi by (cases "q = p") (auto simp: f(3))
      ultimately have "ix_kept s s2" using u(2-5,7) f(2,3) pi v by (auto simp: ix_kept_def)
      then show thesis using that[of f s1 s2] f hh v u(1) by blast
    qed simp
  qed
qed

text \<open>\<^verbatim>\<open>maintain_parent\<close> of a node whose first key is already the key of its parent.\<close>

lemma maintain_parent_same:
  assumes "bp_inv (ih_bpm s)" and "ix_held s p f" and "0 < bp_avail (ih_bpm s)"
    and "nd_parent (ix_node s f) \<noteq> IX_NO_PAGE" and "ix_view s (nd_parent (ix_node s f)) = Some pn"
    and "find_child pn p = Inr i" and "get_key pn i = Inr k" and "get_key (ix_node s f) 0 = Inr k"
  shows "\<exists>s'. maintain_parent (Suc fuel) f s = (Inr (), s') \<and> ix_kept s s'"
proof -
  obtain g s1 s2 where g: "fetch_node (nd_parent (ix_node s f)) s = (Inr g, s1)" "ix_node s1 g = pn"
      "\<forall>q g. ix_held s q g \<longrightarrow> ix_held s1 q g" "bp_inv (ih_bpm s1)" "\<forall>q m. ix_view s q = Some m \<longrightarrow> ix_view s1 q = Some m"
      "ix_unpin g True s1 = (Inr True, s2)" "ix_kept s s2"
    by (rule fetch_release[OF assms(1,3,5)])
  have h1: "ix_held s1 p f" using g(3) assms(2) by blast
  have n1: "ix_node s1 f = ix_node s f" "ix_page_no s1 f = p"
    using held_node(1,2)[OF g(4) h1] g(5) held_node(1)[OF assms(1,2)] by auto
  show ?thesis
    using g(1,2,6,7) n1 assms(4,6-8) by (auto simp: em_defs ix_res_def)
qed

section \<open>Replacing the entries of a leaf\<close>

fun bt_pages :: "bt \<Rightarrow> page_id_t list" where
  "bt_pages (Lf p kvs) = [p]"
| "bt_pages (Br p cs) = p # concat (map (\<lambda>c. bt_pages (snd c)) cs)"

text \<open>The first key of a node.\<close>

fun bt_first :: "bt \<Rightarrow> byte list option" where
  "bt_first (Lf p kvs) = (case kvs of [] \<Rightarrow> None | kv # _ \<Rightarrow> Some (fst kv))"
| "bt_first (Br p cs) = (case cs of [] \<Rightarrow> None | c # _ \<Rightarrow> Some (fst c))"

text \<open>Nodes fit in their pages and are not full, name their parents, and have the first keys of their children as keys.\<close>

fun bt_links :: "IxFileHdr \<Rightarrow> (page_id_t \<Rightarrow> IxNode option) \<Rightarrow> page_id_t \<Rightarrow> bt \<Rightarrow> bool" where
  "bt_links h N par (Lf p kvs) \<longleftrightarrow> (case N p of None \<Rightarrow> False | Some n \<Rightarrow> nd_parent n = par \<and> node_fits h n \<and> int (get_size n) < get_max_size h)"
| "bt_links h N par (Br p cs) \<longleftrightarrow>
     (case N p of None \<Rightarrow> False | Some n \<Rightarrow> nd_parent n = par \<and> node_fits h n \<and> int (get_size n) < get_max_size h) \<and>
     p \<noteq> IX_NO_PAGE \<and>
     list_all (\<lambda>c. bt_first (snd c) = Some (fst c) \<and> bt_links h N p (snd c)) cs"

text \<open>The tree with other entries in the leaf of a key.\<close>

function bt_put :: "IxFileHdr \<Rightarrow> byte list \<Rightarrow> (byte list \<times> Rid) list \<Rightarrow> bt \<Rightarrow> bt" where
  "bt_put h key kvs' (Lf p kvs) = Lf p kvs'"
| "bt_put h key kvs' (Br p cs) =
     (let i = child_idx h key cs
      in if i < length cs then Br p (cs[i := (fst (cs ! i), bt_put h key kvs' (snd (cs ! i)))]) else Br p cs)"
  by pat_completeness auto
termination
  by (relation "measure (\<lambda>(h, key, kvs', t). size t)") (auto simp: less_Suc_eq_le intro: bt_child_size)

declare bt_put.simps(2) [simp del]

lemma bt_put_Br:
  "child_idx h key cs < length cs \<Longrightarrow> bt_put h key kvs' (Br p cs) =
     Br p (cs[child_idx h key cs := (fst (cs ! child_idx h key cs), bt_put h key kvs' (snd (cs ! child_idx h key cs)))])"
  by (simp add: bt_put.simps Let_def)

lemma bt_put_page [simp]: "bt_page (bt_put h key kvs' t) = bt_page t"
  by (cases t) (simp_all add: bt_put.simps Let_def)

lemma bt_leaf_in_pages: "bt_ord h t \<Longrightarrow> hkey h key \<Longrightarrow> fst (bt_leaf h key t) \<in> set (bt_pages t)"
proof (induction h key t rule: bt_leaf.induct)
  case (2 h key p cs)
  have i: "child_idx h key cs < length cs" using child_idx_bounds(1) 2(2,3) by simp
  then show ?case using 2 by (auto simp: list_all_length intro!: bexI[OF _ nth_mem[OF i]])
qed simp

lemma list_all_update: "list_all P xs \<Longrightarrow> P x \<Longrightarrow> list_all P (xs[i := x])"
  by (auto simp: list_all_iff dest: set_update_subset_insert[THEN subsetD])

lemma map_update_same: "i < length xs \<Longrightarrow> (map f xs)[i := f (xs ! i)] = map f xs"
  by (metis list_update_id nth_map)

lemma bt_put_pages [simp]: "bt_pages (bt_put h key kvs' t) = bt_pages t"
proof (induction h key kvs' t rule: bt_put.induct)
  case (2 h key kvs' p cs)
  show ?case
  proof (cases "child_idx h key cs < length cs")
    case True
    then show ?thesis using 2[OF refl True] map_update_same[OF True, of "\<lambda>c. bt_pages (snd c)"] by (simp add: bt_put_Br map_update)
  qed (simp add: bt_put.simps)
qed simp

lemma distinct_concat_nth:
  "distinct (concat xss) \<Longrightarrow> i < j \<Longrightarrow> j < length xss \<Longrightarrow> set (xss ! i) \<inter> set (xss ! j) = {}"
proof (induction xss arbitrary: i j)
  case (Cons xs xss)
  obtain k where k: "j = Suc k" using Cons(3) by (cases j) auto
  show ?case
  proof (cases i)
    case 0
    have "xss ! k \<in> set xss" using Cons(4) k by simp
    then have "set (xss ! k) \<subseteq> set (concat xss)" by auto
    then show ?thesis using Cons(2) 0 k by auto
  next
    case (Suc m)
    then show ?thesis using Cons k by auto
  qed
qed simp

text \<open>Pages of a child are not in another one.\<close>

lemma bt_pages_disjoint:
  assumes "distinct (bt_pages (Br p cs))" and "i < length cs" and "j < length cs" and "i \<noteq> j" and "q \<in> set (bt_pages (snd (cs ! i)))"
  shows "q \<notin> set (bt_pages (snd (cs ! j)))"
proof -
  have d: "distinct (concat (map (\<lambda>c. bt_pages (snd c)) cs))" using assms(1) by simp
  show ?thesis
    using assms(2-5) distinct_concat_nth[OF d, of i j] distinct_concat_nth[OF d, of j i] by (cases "i < j") auto
qed

lemma bt_child_facts:
  assumes "distinct (bt_pages (Br p cs))" and "c \<in> set cs"
  shows "distinct (bt_pages (snd c))" and "p \<notin> set (bt_pages (snd c))"
  using assms by (auto simp: distinct_concat_iff)

text \<open>Outside the leaf of the key the nodes are the same.\<close>

lemma bt_rep_cong: "(\<And>p. p \<in> set (bt_pages t) \<Longrightarrow> N' p = N p) \<Longrightarrow> bt_rep N' t = bt_rep N t"
proof (induction t)
  case (Br p cs)
  have "bt_rep N' (snd c) = bt_rep N (snd c)" if "c \<in> set cs" for c
    using Br(1)[of c "snd c"] Br(2) that by (fastforce simp: snds.simps)
  then show ?case using Br(2)[of p] by (auto simp: list_all_iff split: option.splits)
qed simp

lemma bt_links_cong: "(\<And>p. p \<in> set (bt_pages t) \<Longrightarrow> N' p = N p) \<Longrightarrow> bt_links h N' par t = bt_links h N par t"
proof (induction t arbitrary: par)
  case (Br p cs)
  have "bt_links h N' q (snd c) = bt_links h N q (snd c)" if "c \<in> set cs" for c q
    using Br(1)[of c "snd c"] Br(2) that by (fastforce simp: snds.simps)
  then show ?case using Br(2)[of p] by (auto simp: list_all_iff split: option.splits)
qed simp

text \<open>
  \<open>N'\<close> differs from \<open>N\<close> in the page \<open>q\<close>, where the entries of the node are replaced.
\<close>

definition leaf_change :: "page_id_t \<Rightarrow> (byte list \<times> Rid) list \<Rightarrow> (page_id_t \<Rightarrow> IxNode option) \<Rightarrow> (page_id_t \<Rightarrow> IxNode option) \<Rightarrow> bool" where
  "leaf_change q kvs' N N' \<longleftrightarrow> (\<exists>n. N q = Some n \<and> N' q = Some (n\<lparr>nd_kvs := kvs'\<rparr>)) \<and> (\<forall>p. p \<noteq> q \<longrightarrow> N' p = N p)"

lemma bt_rep_put:
  assumes "bt_rep N t" and "bt_ord h t" and "hkey h key" and "distinct (bt_pages t)"
    and "leaf_change (fst (bt_leaf h key t)) kvs' N N'"
  shows "bt_rep N' (bt_put h key kvs' t)"
  using assms
proof (induction h key kvs' t rule: bt_put.induct)
  case (1 h key kvs' p kvs)
  then show ?case by (auto simp: leaf_change_def split: option.splits)
next
  case (2 h key kvs' p cs)
  let ?i = "child_idx h key cs" and ?q = "fst (bt_leaf h key (Br p cs))"
  have i: "?i < length cs" using child_idx_bounds(1)[of h cs key] 2(3,4) by simp
  have c: "bt_rep N (snd (cs ! ?i))" "bt_ord h (snd (cs ! ?i))" using 2(2,3) i by (simp_all add: list_all_length)
  have q: "?q = fst (bt_leaf h key (snd (cs ! ?i)))" using i by simp
  have qc: "?q \<in> set (bt_pages (snd (cs ! ?i)))" using bt_leaf_in_pages[OF c(2) 2(4)] q by simp
  have ch: "bt_rep N' (bt_put h key kvs' (snd (cs ! ?i)))"
    using 2(1)[OF refl i c 2(4) bt_child_facts(1)[OF 2(5) nth_mem[OF i]]] 2(6) q by simp
  have "p \<noteq> ?q" using bt_child_facts(2)[OF 2(5) nth_mem[OF i]] qc by metis
  then have np: "N' p = N p" using 2(6) unfolding leaf_change_def by blast
  have other: "bt_rep N' (snd (cs ! j))" if j: "j < length cs" "j \<noteq> ?i" for j
  proof -
    have "bt_rep N (snd (cs ! j))" using 2(2) j(1) by (simp add: list_all_length)
    moreover have "N' p' = N p'" if "p' \<in> set (bt_pages (snd (cs ! j)))" for p'
      using 2(6) bt_pages_disjoint[OF 2(5) i j(1) _ qc] j(2) that unfolding leaf_change_def by metis
    ultimately show ?thesis using bt_rep_cong[of "snd (cs ! j)" N' N] by simp
  qed
  have m: "map (\<lambda>c. (fst c, bt_page (snd c))) (cs[?i := (fst (cs ! ?i), bt_put h key kvs' (snd (cs ! ?i)))]) =
      map (\<lambda>c. (fst c, bt_page (snd c))) cs"
    using map_update_same[OF i, of "\<lambda>c. (fst c, bt_page (snd c))"] by (simp add: map_update)
  show ?case
    using 2(2) i ch other np m by (auto simp: bt_put_Br list_all_length nth_list_update split: option.splits)
qed

lemma child_idx_keys: "map fst cs = map fst cs' \<Longrightarrow> child_idx h key cs = child_idx h key cs'"
proof -
  have e: "child_idx h key xs = length (takeWhile (\<lambda>k. key_cmp h k key \<le> 0) (map fst xs)) - 1" for xs :: "(byte list \<times> 'c) list"
    by (simp add: child_idx_def takeWhile_map comp_def)
  show "map fst cs = map fst cs' \<Longrightarrow> child_idx h key cs = child_idx h key cs'" by (simp only: e)
qed

lemma bt_leaf_put:
  "bt_ord h t \<Longrightarrow> hkey h key \<Longrightarrow> bt_leaf h key (bt_put h key kvs' t) = (fst (bt_leaf h key t), kvs')"
proof (induction h key kvs' t rule: bt_put.induct)
  case (2 h key kvs' p cs)
  let ?i = "child_idx h key cs" and ?cs = "cs[child_idx h key cs := (fst (cs ! child_idx h key cs), bt_put h key kvs' (snd (cs ! child_idx h key cs)))]"
  have i: "?i < length cs" using child_idx_bounds(1)[of h cs key] 2(2,3) by simp
  have "map fst ?cs = map fst cs" using map_update_same[OF i, of fst] by (simp add: map_update)
  then have "child_idx h key ?cs = ?i"
    by (rule child_idx_keys)
  then show ?case using 2(1)[OF refl i] 2(2,3) i by (simp add: bt_put_Br list_all_length)
qed simp

text \<open>The leaves in order.\<close>

lemma bt_leaves_put:
  "bt_ord h t \<Longrightarrow> hkey h key \<Longrightarrow>
   \<exists>A B. bt_leaves t = A @ bt_leaf h key t # B \<and> bt_leaves (bt_put h key kvs' t) = A @ (fst (bt_leaf h key t), kvs') # B"
proof (induction h key kvs' t rule: bt_put.induct)
  case (2 h key kvs' p cs)
  let ?i = "child_idx h key cs"
  have i: "?i < length cs" using child_idx_bounds(1)[of h cs key] 2(2,3) by simp
  obtain A B where ab: "bt_leaves (snd (cs ! ?i)) = A @ bt_leaf h key (snd (cs ! ?i)) # B"
      "bt_leaves (bt_put h key kvs' (snd (cs ! ?i))) = A @ (fst (bt_leaf h key (snd (cs ! ?i))), kvs') # B"
    using 2(1)[OF refl i] 2(2,3) i by (auto simp: list_all_length)
  let ?A = "concat (map (\<lambda>c. bt_leaves (snd c)) (take ?i cs)) @ A" and ?B = "B @ concat (map (\<lambda>c. bt_leaves (snd c)) (drop (Suc ?i) cs))"
  have "bt_leaves (Br p cs) = ?A @ bt_leaf h key (Br p cs) # ?B"
    using arg_cong[OF id_take_nth_drop[OF i], of "\<lambda>cs. concat (map (\<lambda>c. bt_leaves (snd c)) cs)"] ab(1) i by simp
  moreover have "bt_leaves (bt_put h key kvs' (Br p cs)) = ?A @ (fst (bt_leaf h key (Br p cs)), kvs') # ?B"
    using ab(2) i by (simp add: bt_put_Br upd_conv_take_nth_drop)
  ultimately show ?case by blast
qed (auto intro: exI[of _ "[]"])

lemma bt_kvs_put:
  assumes "bt_ord h t" and "hkey h key"
  obtains A B where "bt_kvs t = A @ snd (bt_leaf h key t) @ B" "bt_kvs (bt_put h key kvs' t) = A @ kvs' @ B"
proof -
  obtain A B where "bt_leaves t = A @ bt_leaf h key t # B" "bt_leaves (bt_put h key kvs' t) = A @ (fst (bt_leaf h key t), kvs') # B"
    using bt_leaves_put[OF assms] by blast
  then show thesis using that[of "concat (map snd A)" "concat (map snd B)"] by (simp add: bt_kvs_leaves)
qed

text \<open>The keys of the new entries are old ones or the key itself.\<close>

lemma bt_ord_put:
  assumes "bt_ord h t" and "hkey h key" and "ixk.asc h kvs'"
    and "\<forall>kv \<in> set kvs'. fst kv = key \<or> fst kv \<in> fst ` set (snd (bt_leaf h key t))"
  shows "bt_ord h (bt_put h key kvs' t)"
  using assms
proof (induction h key kvs' t rule: bt_put.induct)
  case (2 h key kvs' p cs)
  let ?i = "child_idx h key cs" and ?c = "bt_put h key kvs' (snd (cs ! child_idx h key cs))"
  let ?cs = "cs[?i := (fst (cs ! ?i), ?c)]"
  have sep: "bt_sep h cs" using 2(2) by simp
  note ib = child_idx_bounds[OF sep 2(3)]
  have c: "bt_ord h (snd (cs ! ?i))" using 2(2) ib(1) by (simp add: list_all_length)
  have ch: "bt_ord h ?c" using 2(1)[OF refl ib(1) c 2(3,4)] 2(5) ib(1) by simp
  have ks: "map fst ?cs = map fst cs" using map_update_same[OF ib(1), of fst] by (simp add: map_update)
  then have fs: "fst (?cs ! j) = fst (cs ! j)" if "j < length cs" for j using that by (metis length_list_update nth_map)
  have a: "ixk.asc h ?cs" using sep fs by (simp add: bt_sep_def asc_nth)
  obtain A B where ab: "bt_kvs (snd (cs ! ?i)) = A @ snd (bt_leaf h key (snd (cs ! ?i))) @ B" "bt_kvs ?c = A @ kvs' @ B"
    by (rule bt_kvs_put[OF c 2(3)])
  have new: "fst kv = key \<or> fst kv \<in> fst ` set (bt_kvs (snd (cs ! ?i)))" if "kv \<in> set (bt_kvs ?c)" for kv
    using that 2(5) ib(1) unfolding ab by auto
  have bnd: "(0 < ?i \<longrightarrow> key_cmp h (fst (cs ! ?i)) (fst kv) \<le> 0) \<and> (Suc ?i < length cs \<longrightarrow> key_cmp h (fst kv) (fst (cs ! Suc ?i)) < 0)"
    if "kv \<in> set (bt_kvs ?c)" for kv
    using new[OF that]
  proof
    assume k: "fst kv = key"
    have "hkey h (fst (cs ! Suc ?i))" if "Suc ?i < length cs" using sep that by (simp add: bt_sep_def asc_nth)
    then show ?thesis using ib(2) ib(3)[of "Suc ?i"] k ixk.cmp_pos[of h "fst (cs ! Suc ?i)" key] 2(3) by auto
  next
    assume "fst kv \<in> fst ` set (bt_kvs (snd (cs ! ?i)))"
    then obtain kv' where "kv' \<in> set (bt_kvs (snd (cs ! ?i)))" "fst kv' = fst kv" by auto
    then show ?thesis using sep ib(1) unfolding bt_sep_def by metis
  qed
  have "bt_sep h ?cs"
    unfolding bt_sep_def
  proof (intro conjI allI impI ballI)
    show "?cs \<noteq> []" "ixk.asc h ?cs" using ib(1) a by auto
    fix j kv assume j: "j < length ?cs" "kv \<in> set (bt_kvs (snd (?cs ! j)))"
    show "key_cmp h (fst (?cs ! j)) (fst kv) \<le> 0" if "0 < j"
      using that j bnd[of kv] sep fs by (cases "j = ?i") (auto simp: bt_sep_def)
    show "key_cmp h (fst kv) (fst (?cs ! Suc j)) < 0" if "Suc j < length ?cs"
      using that j bnd[of kv] sep fs by (cases "j = ?i") (auto simp: bt_sep_def)
  qed
  then show ?case
    using 2(2) ch ib(1) by (auto simp: bt_put_Br intro!: list_all_update)
qed simp

text \<open>The change as a change of a map.\<close>

lemma bt_find_put:
  assumes "bt_ord h t" and "hkey h key" and "bt_ord h (bt_put h key kvs' t)" and "hkey h k"
    and "\<forall>k. hkey h k \<longrightarrow> ixk.kv_find h kvs' k = (if key_cmp h key k = 0 then r else ixk.kv_find h (snd (bt_leaf h key t)) k)"
  shows "ixk.kv_find h (bt_kvs (bt_put h key kvs' t)) k = (if key_cmp h key k = 0 then r else ixk.kv_find h (bt_kvs t) k)"
proof (cases "key_cmp h key k = 0")
  case True
  have "ixk.kv_find h (bt_kvs (bt_put h key kvs' t)) k = ixk.kv_find h (bt_kvs (bt_put h key kvs' t)) key"
    using ixk.kv_find_cmp_cong[of "bt_kvs (bt_put h key kvs' t)" h key k] bt_ord_keys[OF assms(3)] assms(2,4) True by simp
  also have "\<dots> = ixk.kv_find h kvs' key" using bt_leaf_find[OF assms(3,2)] bt_leaf_put[OF assms(1,2)] by simp
  finally show ?thesis using assms(2,5) True ixk.cmp_refl[OF assms(2)] by simp
next
  case False
  obtain A B where "bt_kvs t = A @ snd (bt_leaf h key t) @ B" "bt_kvs (bt_put h key kvs' t) = A @ kvs' @ B"
    by (rule bt_kvs_put[OF assms(1,2)])
  then show ?thesis using assms(4,5) False by (simp add: ixk.kv_find_append split: option.split)
qed

text \<open>Links are kept if the first key stays, or if the leaf has no parent.\<close>

lemma bt_first_put:
  "bt_first (Lf p kvs') = bt_first (Lf p (snd (bt_leaf h key t))) \<Longrightarrow> bt_first (bt_put h key kvs' t) = bt_first t"
proof (cases t)
  case (Br q cs)
  then show ?thesis by (cases cs) (auto simp: bt_put.simps Let_def split: nat.split)
qed simp

lemma bt_links_put:
  assumes "bt_links h N par t" and "bt_ord h t" and "hkey h key" and "distinct (bt_pages t)"
    and "leaf_change (fst (bt_leaf h key t)) kvs' N N'"
    and "node_fits h (the (N' (fst (bt_leaf h key t)))) \<and> int (length kvs') < get_max_size h"
    and "(\<exists>p kvs. t = Lf p kvs) \<or> bt_first (Lf 0 kvs') = bt_first (Lf 0 (snd (bt_leaf h key t)))"
  shows "bt_links h N' par (bt_put h key kvs' t)"
  using assms
proof (induction h key kvs' t arbitrary: par rule: bt_put.induct)
  case (1 h key kvs' p kvs)
  then show ?case by (auto simp: leaf_change_def get_size_def split: option.splits)
next
  case (2 h key kvs' p cs)
  let ?i = "child_idx h key cs" and ?q = "fst (bt_leaf h key (Br p cs))"
  have i: "?i < length cs" using child_idx_bounds(1)[of h cs key] 2(3,4) by simp
  have c: "bt_links h N p (snd (cs ! ?i))" "bt_ord h (snd (cs ! ?i))" "bt_first (snd (cs ! ?i)) = Some (fst (cs ! ?i))"
    using 2(2,3) i by (simp_all add: list_all_length)
  have l: "bt_leaf h key (Br p cs) = bt_leaf h key (snd (cs ! ?i))" using i by simp
  have qc: "?q \<in> set (bt_pages (snd (cs ! ?i)))" using bt_leaf_in_pages[OF c(2) 2(4)] unfolding l .
  have fe: "bt_first (Lf 0 kvs') = bt_first (Lf 0 (snd (bt_leaf h key (snd (cs ! ?i)))))" using 2(8) unfolding l by simp
  have ch: "bt_links h N' p (bt_put h key kvs' (snd (cs ! ?i)))"
    using 2(1)[OF refl i c(1,2) 2(4) bt_child_facts(1)[OF 2(5) nth_mem[OF i]]] 2(6,7) fe unfolding l by simp
  have "p \<noteq> ?q" using bt_child_facts(2)[OF 2(5) nth_mem[OF i]] qc by metis
  then have np: "N' p = N p" using 2(6) unfolding leaf_change_def by blast
  have other: "bt_links h N' p (snd (cs ! j))" if j: "j < length cs" "j \<noteq> ?i" for j
  proof -
    have "bt_links h N p (snd (cs ! j))" using 2(2) j(1) by (simp add: list_all_length)
    moreover have "N' p' = N p'" if "p' \<in> set (bt_pages (snd (cs ! j)))" for p'
      using 2(6) bt_pages_disjoint[OF 2(5) i j(1) _ qc] j(2) that unfolding leaf_change_def by metis
    ultimately show ?thesis using bt_links_cong[of "snd (cs ! j)" N' N] by simp
  qed
  have "bt_first (bt_put h key kvs' (snd (cs ! ?i))) = Some (fst (cs ! ?i))" using bt_first_put[OF fe] c(3) by simp
  then show ?case
    using 2(2) i ch other np by (auto simp: bt_put_Br list_all_length nth_list_update split: option.splits)
qed

text \<open>The parent of the leaf that a search ends in.\<close>

lemma bt_page_in_pages: "bt_page t \<in> set (bt_pages t)"
  by (cases t) simp_all

lemma find_child_at:
  assumes "map (\<lambda>kv. (fst kv, rid_page_no (snd kv))) (nd_kvs n) = map (\<lambda>c. (fst c, bt_page (snd c))) cs" and "i < length cs"
    and "distinct (bt_pages (Br p cs))"
  shows "find_child n (bt_page (snd (cs ! i))) = Inr i" and "get_key n i = Inr (fst (cs ! i))"
proof -
  have len: "length (nd_kvs n) = length cs" using arg_cong[OF assms(1), of length] by simp
  have nth: "fst (nd_kvs n ! j) = fst (cs ! j)" "rid_page_no (snd (nd_kvs n ! j)) = bt_page (snd (cs ! j))" if "j < length cs" for j
    using arg_cong[OF assms(1), of "\<lambda>xs. xs ! j"] that len by simp_all
  have "bt_page (snd (cs ! j)) \<noteq> bt_page (snd (cs ! i))" if "j < i" for j
    using bt_pages_disjoint[OF assms(3) assms(2), of j "bt_page (snd (cs ! i))"] bt_page_in_pages[of "snd (cs ! i)"]
      bt_page_in_pages[of "snd (cs ! j)"] that assms(2) by auto
  then have "find (\<lambda>i'. rid_page_no (snd (nd_kvs n ! i')) = bt_page (snd (cs ! i))) [0..<get_size n] = Some i"
    using assms(2) len nth(2) by (auto simp: find_Some_iff get_size_def intro!: exI[of _ i])
  then show "find_child n (bt_page (snd (cs ! i))) = Inr i" by (simp add: find_child_def)
  show "get_key n i = Inr (fst (cs ! i))" using assms(2) len nth(1) by (simp add: get_key_def get_kv_def get_size_def)
qed

lemma bt_leaf_parent:
  assumes "bt_rep N t" and "bt_links h N par t" and "bt_ord h t" and "hkey h key" and "distinct (bt_pages t)" and "\<forall>p kvs. t \<noteq> Lf p kvs"
  shows "\<exists>n pn i kv kvs. N (fst (bt_leaf h key t)) = Some n \<and> nd_parent n \<noteq> IX_NO_PAGE \<and>
    nd_parent n \<noteq> fst (bt_leaf h key t) \<and> N (nd_parent n) = Some pn \<and>
    find_child pn (fst (bt_leaf h key t)) = Inr i \<and> get_key pn i = Inr (fst kv) \<and> snd (bt_leaf h key t) = kv # kvs"
  using assms
proof (induction h key t arbitrary: par rule: bt_leaf.induct)
  case (2 h key p cs)
  let ?i = "child_idx h key cs"
  have i: "?i < length cs" using child_idx_bounds(1)[of h cs key] 2(4,5) by simp
  have l: "bt_leaf h key (Br p cs) = bt_leaf h key (snd (cs ! ?i))" using i by simp
  have c: "bt_rep N (snd (cs ! ?i))" "bt_links h N p (snd (cs ! ?i))" "bt_ord h (snd (cs ! ?i))"
      "bt_first (snd (cs ! ?i)) = Some (fst (cs ! ?i))"
    using 2(2-4) i by (simp_all add: list_all_length)
  show ?case
  proof (cases "snd (cs ! ?i)")
    case (Lf q kvs)
    obtain pn where pn: "N p = Some pn" "map (\<lambda>kv. (fst kv, rid_page_no (snd kv))) (nd_kvs pn) = map (\<lambda>c. (fst c, bt_page (snd c))) cs"
      using 2(2) by (auto split: option.splits)
    obtain n where n: "N q = Some n" "nd_parent n = p" using c(2) Lf by (auto split: option.splits)
    obtain kv kvs1 where kv: "kvs = kv # kvs1" "fst kv = fst (cs ! ?i)" using c(4) Lf by (cases kvs) auto
    have "p \<noteq> IX_NO_PAGE" "p \<noteq> q" using 2(3) bt_child_facts(2)[OF 2(6) nth_mem[OF i]] Lf by auto
    then show ?thesis
      using find_child_at[OF pn(2) i 2(6)] n pn(1) kv unfolding l Lf by (simp add: prod_eq_iff)
  next
    case (Br q cs')
    then show ?thesis
      using 2(1)[OF i c(1,2,3) 2(5) bt_child_facts(1)[OF 2(6) nth_mem[OF i]]] unfolding l by simp
  qed
qed simp

section \<open>The invariant\<close>

text \<open>The leaf behind the last one is the leaf header page, which is not in the tree.\<close>

definition ix_end :: "IxFileHdr \<Rightarrow> (page_id_t \<Rightarrow> IxNode option) \<Rightarrow> bt \<Rightarrow> bool" where
  "ix_end h N t \<longleftrightarrow> (\<exists>n m. N (fst (last (bt_leaves t))) = Some n \<and> nd_next_leaf n \<notin> set (bt_pages t) \<and>
     N (nd_next_leaf n) = Some m \<and> nd_is_leaf m \<and> node_fits h m)"

definition ix_index :: "IxState \<Rightarrow> bt \<Rightarrow> bool" where
  "ix_index s t \<longleftrightarrow> ix_tree s t \<and> ix_leaves s (bt_leaves t) \<and> distinct (bt_pages t) \<and> bt_links (ih_hdr s) (ix_view s) IX_NO_PAGE t \<and>
     ix_end (ih_hdr s) (ix_view s) t"

text \<open>
  \<open>s'\<close> is \<open>s\<close> with other entries in the leaf of the key.
\<close>

definition ix_change :: "byte list \<Rightarrow> bt \<Rightarrow> (byte list \<times> Rid) list \<Rightarrow> IxState \<Rightarrow> IxState \<Rightarrow> bool" where
  "ix_change key t kvs' s s' \<longleftrightarrow> ix_ready s' \<and> ih_hdr s' = ih_hdr s \<and> ih_fd s' = ih_fd s \<and> pins (ih_bpm s') = pins (ih_bpm s) \<and>
     (\<exists>n. ix_view s (fst (bt_leaf (ih_hdr s) key t)) = Some n \<and>
        ix_view s' (fst (bt_leaf (ih_hdr s) key t)) = Some (n\<lparr>nd_kvs := kvs'\<rparr>)) \<and>
     (\<forall>p n. p \<noteq> fst (bt_leaf (ih_hdr s) key t) \<longrightarrow> ix_view s p = Some n \<longrightarrow> ix_view s' p = Some n)"

lemma bt_links_mono: "(\<And>p n. N p = Some n \<Longrightarrow> N' p = Some n) \<Longrightarrow> bt_links h N par t \<Longrightarrow> bt_links h N' par t"
  by (induction t arbitrary: par) (auto simp: list_all_iff snds.simps split: option.splits)

lemma bt_leaves_pages: "l \<in> set (bt_leaves t) \<Longrightarrow> fst l \<in> set (bt_pages t)"
  by (induction t) (fastforce simp: snds.simps)+

lemma ix_end_change:
  assumes e: "ix_end h N t" and q: "q \<in> set (bt_pages t)" "N q = Some n" "N' q = Some (n\<lparr>nd_kvs := kvs'\<rparr>)"
    and c: "\<And>p m. p \<noteq> q \<Longrightarrow> N p = Some m \<Longrightarrow> N' p = Some m"
    and t: "fst (last (bt_leaves t')) = fst (last (bt_leaves t))" "bt_pages t' = bt_pages t"
  shows "ix_end h N' t'"
proof -
  obtain a m where a: "N (fst (last (bt_leaves t))) = Some a" "nd_next_leaf a \<notin> set (bt_pages t)" "N (nd_next_leaf a) = Some m" "nd_is_leaf m" "node_fits h m"
    using e by (auto simp: ix_end_def)
  have "N' (nd_next_leaf a) = Some m" using c a(2,3) q(1) by metis
  moreover have "\<exists>b. N' (fst (last (bt_leaves t))) = Some b \<and> nd_next_leaf b = nd_next_leaf a"
    using a(1) q(2,3) c by (cases "fst (last (bt_leaves t)) = q") auto
  ultimately show ?thesis using a unfolding ix_end_def t by metis
qed

lemma ix_end_mono: "(\<And>p n. N p = Some n \<Longrightarrow> N' p = Some n) \<Longrightarrow> ix_end h N t \<Longrightarrow> ix_end h N' t"
  unfolding ix_end_def by blast

lemma ix_leaves_change:
  assumes "ix_leaves s (A @ (q, old) # B)" and "ih_hdr s' = ih_hdr s" and "ix_view s q = Some n" and "ix_view s' q = Some (n\<lparr>nd_kvs := kvs'\<rparr>)"
    and "\<forall>p n. p \<noteq> q \<longrightarrow> ix_view s p = Some n \<longrightarrow> ix_view s' p = Some n" and "A @ B \<noteq> [] \<Longrightarrow> kvs' \<noteq> []"
  shows "ix_leaves s' (A @ (q, kvs') # B)"
proof -
  let ?L = "A @ (q, old) # B" and ?L' = "A @ (q, kvs') # B"
  have fn: "fst (?L' ! i) = fst (?L ! i)" for i by (simp add: nth_append nth_Cons')
  have d: "distinct (map fst ?L)" using assms(1) by (simp add: ix_leaves_def)
  have v: "\<exists>m. ix_view s' (fst (?L' ! i)) = Some m \<and> nd_is_leaf m \<and> nd_kvs m = snd (?L' ! i) \<and>
      (Suc i < length ?L' \<longrightarrow> nd_next_leaf m = fst (?L' ! Suc i))" if i: "i < length ?L'" for i
  proof -
    have il: "i < length ?L" using i by simp
    obtain m where m: "ix_view s (fst (?L ! i)) = Some m" "nd_is_leaf m" "nd_kvs m = snd (?L ! i)"
        "Suc i < length ?L \<Longrightarrow> nd_next_leaf m = fst (?L ! Suc i)"
      using ix_leaves_nth[OF assms(1) il] by metis
    show ?thesis
    proof (cases "i = length A")
      case True
      then show ?thesis using m(2,4) m(1) assms(3,4) fn[of "Suc i"] by (intro exI[of _ "n\<lparr>nd_kvs := kvs'\<rparr>"]) auto
    next
      case False
      have "map fst ?L ! i \<noteq> map fst ?L ! length A" using nth_eq_iff_index_eq[OF d, of i "length A"] False i by simp
      moreover have "map fst ?L ! length A = q" by (simp add: nth_append)
      ultimately have "fst (?L ! i) \<noteq> q" using nth_map[OF il, of fst] by metis
      moreover have "?L' ! i = ?L ! i" using False by (simp add: nth_append nth_Cons')
      ultimately show ?thesis using m assms(5) fn[of "Suc i"] by (intro exI[of _ m]) auto
    qed
  qed
  show ?thesis
    unfolding ix_leaves_def
  proof (intro conjI)
    show "last_leaf (ih_hdr s') = fst (last ?L')" "first_leaf (ih_hdr s') = fst (hd ?L')" "distinct (map fst ?L')" "?L' \<noteq> []"
      using assms(1,2) by (auto simp: ix_leaves_def last_append hd_append split: if_splits)
    show "1 < length ?L' \<longrightarrow> (\<forall>l \<in> set ?L'. snd l \<noteq> [])" using assms(1,6) by (auto simp: ix_leaves_def)
    show "\<forall>i < length ?L'. \<exists>m. ix_view s' (fst (?L' ! i)) = Some m \<and> nd_is_leaf m \<and> nd_kvs m = snd (?L' ! i) \<and>
      (Suc i < length ?L' \<longrightarrow> nd_next_leaf m = fst (?L' ! Suc i))" using v by blast
  qed
qed

lemma ix_index_change:
  assumes I: "ix_index s t" and C: "ix_change key t kvs' s s'" and k: "hkey (ih_hdr s) key" and a: "ixk.asc (ih_hdr s) kvs'"
    and ks: "\<forall>kv \<in> set kvs'. fst kv = key \<or> fst kv \<in> fst ` set (snd (bt_leaf (ih_hdr s) key t))"
    and fits: "\<And>n. ix_view s (fst (bt_leaf (ih_hdr s) key t)) = Some n \<Longrightarrow> node_fits (ih_hdr s) (n\<lparr>nd_kvs := kvs'\<rparr>) \<and> int (length kvs') < get_max_size (ih_hdr s)"
    and fst_eq: "(\<exists>p kvs. t = Lf p kvs) \<or> bt_first (Lf 0 kvs') = bt_first (Lf 0 (snd (bt_leaf (ih_hdr s) key t)))"
  shows "ix_index s' (bt_put (ih_hdr s) key kvs' t)"
proof -
  let ?h = "ih_hdr s" and ?q = "fst (bt_leaf (ih_hdr s) key t)" and ?t = "bt_put (ih_hdr s) key kvs' t"
  have i: "bt_rep (ix_view s) t" "bt_ord ?h t" "root_page ?h = bt_page t" "bt_page t \<noteq> IX_NO_PAGE" "ix_leaves s (bt_leaves t)"
      "distinct (bt_pages t)" "bt_links ?h (ix_view s) IX_NO_PAGE t" "ix_end ?h (ix_view s) t"
    using I by (simp_all add: ix_index_def ix_tree_def)
  obtain n where n: "ix_view s ?q = Some n" "ix_view s' ?q = Some (n\<lparr>nd_kvs := kvs'\<rparr>)"
    and c: "ix_ready s'" "ih_hdr s' = ?h" "\<forall>p n. p \<noteq> ?q \<longrightarrow> ix_view s p = Some n \<longrightarrow> ix_view s' p = Some n"
    using C by (auto simp: ix_change_def)
  let ?N = "(ix_view s)(?q \<mapsto> n\<lparr>nd_kvs := kvs'\<rparr>)"
  have ch: "leaf_change ?q kvs' (ix_view s) ?N" using n(1) by (simp add: leaf_change_def)
  have le: "ix_view s' p = Some m" if "?N p = Some m" for p m using that n(2) c(3) by (auto split: if_splits)
  have r: "bt_rep (ix_view s') ?t" by (rule bt_rep_mono[OF le bt_rep_put[OF i(1,2) k i(6) ch]])
  have l: "bt_links ?h (ix_view s') IX_NO_PAGE ?t"
    using bt_links_mono[OF le bt_links_put[OF i(7,2) k i(6) ch _ fst_eq]] fits[OF n(1)] by simp
  obtain A B where ab: "bt_leaves t = A @ bt_leaf ?h key t # B" "bt_leaves ?t = A @ (?q, kvs') # B"
    using bt_leaves_put[OF i(2) k] by blast
  have "kvs' \<noteq> []" if "A @ B \<noteq> []"
  proof -
    have "1 < length (bt_leaves t)" using that ab(1) by (cases A; cases B) auto
    moreover have "bt_leaf ?h key t \<in> set (bt_leaves t)" unfolding ab(1) by simp
    ultimately have ne: "snd (bt_leaf ?h key t) \<noteq> []" using i(5) by (simp add: ix_leaves_def)
    show ?thesis using fst_eq
    proof
      assume "\<exists>p kvs. t = Lf p kvs"
      then show ?thesis using \<open>1 < length (bt_leaves t)\<close> by auto
    qed (use ne in \<open>auto split: list.splits\<close>)
  qed
  then have "ix_leaves s' (bt_leaves ?t)"
    using ix_leaves_change[of s A ?q "snd (bt_leaf ?h key t)" B s' n kvs'] i(5) ab c(2,3) n by simp
  moreover have "ix_end ?h (ix_view s') ?t"
  proof (rule ix_end_change[where N = "ix_view s" and N' = "ix_view s'" and q = ?q, OF i(8) _ n])
    show "?q \<in> set (bt_pages t)" by (rule bt_leaf_in_pages[OF i(2) k])
    show "fst (last (bt_leaves ?t)) = fst (last (bt_leaves t))" unfolding ab by (simp add: last_append)
  qed (use c(3) in simp_all)
  ultimately show ?thesis
    using r l c(1,2) i bt_ord_put[OF i(2) k a ks] by (simp add: ix_index_def ix_tree_def)
qed

section \<open>Storing the changed leaf\<close>

lemma leaf_store:
  assumes "ix_at s q n f s1" and "g (ih_hdr s) n = Inr (n\<lparr>nd_kvs := kvs'\<rparr>)" and "node_fits (ih_hdr s) (n\<lparr>nd_kvs := kvs'\<rparr>)"
  obtains s2 where "ix_upd f g s1 = (Inr (), s2)" "ih_hdr s2 = ih_hdr s" "ih_fd s2 = ih_fd s" "bp_inv (ih_bpm s2)" "ix_held s2 q f"
    "ix_node s2 f = n\<lparr>nd_kvs := kvs'\<rparr>" "ix_page_no s2 f = q" "pins (ih_bpm s2) = pins (ih_bpm s1)" "bp_avail (ih_bpm s2) = bp_avail (ih_bpm s1)"
    "ix_view s2 q = Some (n\<lparr>nd_kvs := kvs'\<rparr>)" "\<forall>p m. p \<noteq> q \<longrightarrow> ix_view s p = Some m \<longrightarrow> ix_view s2 p = Some m"
proof -
  have a: "ih_hdr s1 = ih_hdr s" "ih_fd s1 = ih_fd s" "ix_node s1 f = n" "bp_inv (ih_bpm s1)" "ix_held s1 q f"
      "\<forall>p m. ix_view s p = Some m \<longrightarrow> ix_view s1 p = Some m"
    using assms(1) by (simp_all add: ix_at_def)
  show thesis
  proof (rule ix_upd_step[OF a(4,5), of g "n\<lparr>nd_kvs := kvs'\<rparr>"])
    fix s2
    assume u: "ix_upd f g s1 = (Inr (), s2)" "ih_hdr s2 = ih_hdr s1" "ih_fd s2 = ih_fd s1" "bp_inv (ih_bpm s2)"
      "pins (ih_bpm s2) = pins (ih_bpm s1)" "bp_avail (ih_bpm s2) = bp_avail (ih_bpm s1)"
      "ix_view s2 = (ix_view s1)(q \<mapsto> n\<lparr>nd_kvs := kvs'\<rparr>)" "\<forall>p g. ix_held s2 p g \<longleftrightarrow> ix_held s1 p g"
    have h: "ix_held s2 q f" using u(8) a(5) by simp
    show thesis
      by (rule that[of s2]) (use u a h held_node(1,2)[OF u(4) h] in auto)
  qed (use assms(2,3) a in simp_all)
qed

text \<open>Releasing the leaf completes the change.\<close>

lemma leaf_done:
  assumes at: "ix_at s q n f s1" and q: "q = fst (bt_leaf (ih_hdr s) key t)" and n: "ix_view s q = Some n" and av: "0 < bp_avail (ih_bpm s)"
    and s2: "ih_hdr s2 = ih_hdr s" "ih_fd s2 = ih_fd s" "ix_held s2 q f" "pins (ih_bpm s2) = pins (ih_bpm s1)"
      "bp_avail (ih_bpm s2) = bp_avail (ih_bpm s1)" "ix_view s2 q = Some (n\<lparr>nd_kvs := kvs'\<rparr>)"
      "\<forall>p m. p \<noteq> q \<longrightarrow> ix_view s p = Some m \<longrightarrow> ix_view s2 p = Some m"
    and k: "ix_kept s2 s3"
  shows "\<exists>s4. ix_unpin f True s3 = (Inr True, s4) \<and> ix_change key t kvs' s s4"
proof -
  have i3: "bp_inv (ih_bpm s3)" "ix_held s3 q f" "ih_hdr s3 = ih_hdr s" "ih_fd s3 = ih_fd s" "pins (ih_bpm s3) = pins (ih_bpm s1)"
      "bp_avail (ih_bpm s1) \<le> bp_avail (ih_bpm s3)" "ix_view s3 q = Some (n\<lparr>nd_kvs := kvs'\<rparr>)"
      "\<forall>p m. p \<noteq> q \<longrightarrow> ix_view s p = Some m \<longrightarrow> ix_view s3 p = Some m"
    using k s2 by (auto simp: ix_kept_def)
  have p1: "pins (ih_bpm s1) = (pins (ih_bpm s))(ix_pid s q := pins (ih_bpm s) (ix_pid s q) + 1)"
      "bp_avail (ih_bpm s) \<le> bp_avail (ih_bpm s1) + (if pins (ih_bpm s) (ix_pid s q) = 0 then 1 else 0)"
    using at by (simp_all add: ix_at_def)
  show ?thesis
  proof (rule ix_unpin_step[OF i3(1,2), of True])
    fix s4
    assume u: "ix_unpin f True s3 = (Inr True, s4)" "ih_hdr s4 = ih_hdr s3" "ih_fd s4 = ih_fd s3" "bp_inv (ih_bpm s4)"
      "pins (ih_bpm s4) = (pins (ih_bpm s3))(ix_pid s3 q := pins (ih_bpm s3) (ix_pid s3 q) - 1)"
      "bp_avail (ih_bpm s4) = bp_avail (ih_bpm s3) + (if pins (ih_bpm s3) (ix_pid s3 q) = 1 then 1 else 0)" "ix_view s4 = ix_view s3"
    have "0 < bp_avail (ih_bpm s4)" using u(6) i3(4-6) p1 av by (auto split: if_splits)
    then have "ix_ready s4" using u(4) by (simp add: ix_ready_def bp_roomy_avail)
    moreover have "pins (ih_bpm s4) = pins (ih_bpm s)" using u(5) i3(4,5) p1(1) by simp
    ultimately show ?thesis using u i3 n unfolding q[symmetric] ix_change_def by auto
  qed simp
qed

lemma leaf_maintain:
  assumes I: "ix_index s t" and k: "hkey (ih_hdr s) key" and q: "q = fst (bt_leaf (ih_hdr s) key t)"
    and n: "ix_view s q = Some n" and s2: "bp_inv (ih_bpm s2)" "ix_held s2 q f" "0 < bp_avail (ih_bpm s2)" "ix_view s2 q = Some (n\<lparr>nd_kvs := kvs'\<rparr>)"
      "\<forall>p m. p \<noteq> q \<longrightarrow> ix_view s p = Some m \<longrightarrow> ix_view s2 p = Some m"
    and fst_eq: "(\<exists>p kvs. t = Lf p kvs) \<or> bt_first (Lf 0 kvs') = bt_first (Lf 0 (snd (bt_leaf (ih_hdr s) key t)))"
  shows "\<exists>s3. maintain_parent (Suc fuel) f s2 = (Inr (), s3) \<and> ix_kept s2 s3"
proof -
  have i: "bt_rep (ix_view s) t" "bt_ord (ih_hdr s) t" "distinct (bt_pages t)" "bt_links (ih_hdr s) (ix_view s) IX_NO_PAGE t"
    using I by (simp_all add: ix_index_def ix_tree_def)
  have n2: "ix_node s2 f = n\<lparr>nd_kvs := kvs'\<rparr>" using held_node(1)[OF s2(1,2)] s2(4) by simp
  show ?thesis
  proof (cases "\<exists>p kvs. t = Lf p kvs")
    case True
    then have "nd_parent n = IX_NO_PAGE" using i(4) n q by (auto split: option.splits)
    then show ?thesis using n2 s2(1) by (auto simp: em_defs ix_kept_def)
  next
    case False
    then obtain pn j kv kvs where p: "nd_parent n \<noteq> IX_NO_PAGE" "nd_parent n \<noteq> q" "ix_view s (nd_parent n) = Some pn"
        "find_child pn q = Inr j" "get_key pn j = Inr (fst kv)" "snd (bt_leaf (ih_hdr s) key t) = kv # kvs"
      using bt_leaf_parent[OF i(1,4,2) k i(3)] n unfolding q by auto
    then have "get_key (ix_node s2 f) 0 = Inr (fst kv)"
      using fst_eq False n2 by (auto simp: get_key_def get_kv_def get_size_def split: list.splits)
    then show ?thesis using maintain_parent_same[OF s2(1,2,3), of pn j "fst kv" fuel] p s2(5) n2 by simp
  qed
qed

section \<open>Insertion and deletion\<close>

definition bt_map :: "IxFileHdr \<Rightarrow> bt \<Rightarrow> byte list \<Rightarrow> Rid option" where
  "bt_map h t k = map_option snd (find (\<lambda>kv. key_cmp h (fst kv) k = 0) (bt_kvs t))"

lemma bt_map_find: "bt_map h t k = ixk.kv_find h (bt_kvs t) k"
  by (simp add: bt_map_def ixk.kv_find_def)

lemma ix_index_same: "ix_same s s' \<Longrightarrow> ix_index s t \<Longrightarrow> ix_index s' t"
  using ix_tree_same[of s s' t] ix_leaves_same[of s s' "bt_leaves t"] bt_links_mono[of "ix_view s" "ix_view s'"]
    ix_end_mono[of "ix_view s" "ix_view s'"]
  by (auto simp: ix_index_def ix_same_def)

text \<open>A search reaches a leaf whose first key is not above the key, unless the key is below all keys.\<close>

lemma bt_first_kvs: "bt_links h N par t \<Longrightarrow> bt_first t = Some k \<Longrightarrow> bt_kvs t \<noteq> [] \<and> fst (hd (bt_kvs t)) = k"
proof (induction t arbitrary: par k)
  case (Lf p kvs)
  then show ?case by (auto split: list.splits)
next
  case (Br p cs)
  obtain c cs' where c: "cs = c # cs'" "k = fst c" using Br(3) by (auto split: list.splits)
  then have "bt_kvs (snd c) \<noteq> [] \<and> fst (hd (bt_kvs (snd c))) = k"
    using Br(1)[of c "snd c" p k] Br(2) by (auto simp: snds.simps)
  then show ?case using c(1) by (simp add: hd_append)
qed

lemma bt_leaf_first:
  assumes "bt_links h N par t" and "bt_ord h t" and "hkey h key" and "bt_first t = Some k0" and "key_cmp h k0 key \<le> 0"
  shows "\<exists>kv kvs. snd (bt_leaf h key t) = kv # kvs \<and> key_cmp h (fst kv) key \<le> 0"
  using assms
proof (induction h key t arbitrary: par k0 rule: bt_leaf.induct)
  case (1 h key p kvs)
  then show ?case by (auto split: list.splits)
next
  case (2 h key p cs)
  let ?i = "child_idx h key cs"
  have sep: "bt_sep h cs" using 2(3) by simp
  note ib = child_idx_bounds[OF sep 2(4)]
  have c: "bt_links h N p (snd (cs ! ?i))" "bt_ord h (snd (cs ! ?i))" "bt_first (snd (cs ! ?i)) = Some (fst (cs ! ?i))"
    using 2(2,3) ib(1) by (simp_all add: list_all_length)
  have "fst (cs ! 0) = k0" using 2(5) by (cases cs) auto
  then have "key_cmp h (fst (cs ! ?i)) key \<le> 0" using ib(2) 2(6) by (cases "?i = 0") auto
  then show ?case using 2(1)[OF ib(1) c(1,2) 2(4) c(3)] ib(1) by simp
qed

lemma bt_leaf_fits:
  "bt_links h N par t \<Longrightarrow> bt_ord h t \<Longrightarrow> hkey h key \<Longrightarrow> N (fst (bt_leaf h key t)) = Some n \<Longrightarrow>
   node_fits h n \<and> int (get_size n) < get_max_size h"
proof (induction h key t arbitrary: par rule: bt_leaf.induct)
  case (2 h key p cs)
  have i: "child_idx h key cs < length cs" using child_idx_bounds(1)[of h cs key] 2(3,4) by simp
  then show ?case using 2(1)[OF i, of p] 2(2-5) by (simp add: list_all_length)
qed simp

lemma low_leaf:
  assumes "bt_links h N par t" and "bt_ord h t" and "hkey h key" and "t = Br p cs" and "key_cmp h (fst (hd (bt_kvs t))) key \<le> 0"
  shows "\<exists>kv kvs. snd (bt_leaf h key t) = kv # kvs \<and> key_cmp h (fst kv) key \<le> 0"
proof -
  have "cs \<noteq> []" using assms(2,4) by (auto simp: bt_sep_def)
  then obtain k0 where "bt_first t = Some k0" using assms(4) by (cases cs) auto
  then show ?thesis using bt_leaf_first[OF assms(1-3)] bt_first_kvs[OF assms(1)] assms(5) by blast
qed

text \<open>Insertion into a leaf with room for one more entry.\<close>

lemma insert_entry_present:
  assumes I: "ix_index s t" and k: "hkey (ih_hdr s) key" and fu: "bt_height t < fuel" and p: "bt_map (ih_hdr s) t key \<noteq> None"
  shows "\<exists>s'. insert_entry fuel key value s = (Inr IX_NO_PAGE, s') \<and> ix_same s s'"
proof -
  have T: "ix_tree s t" and o: "bt_ord (ih_hdr s) t" using I by (simp_all add: ix_index_def ix_tree_def)
  obtain f s1 n where f: "find_leaf_page fuel key False s = (Inr (Some f), s1)" and
      at: "ix_at s (fst (bt_leaf (ih_hdr s) key t)) n f s1" and n: "nd_is_leaf n" "nd_kvs n = snd (bt_leaf (ih_hdr s) key t)"
    using find_leaf_page_at[OF T k fu] by blast
  have "node_sorted (ih_hdr s) n" "node_map (ih_hdr s) n key \<noteq> None"
    using bt_leaf_find[OF o k] n(2) p by (simp_all add: node_asc node_find bt_map_find)
  then have ins: "nd_insert (ih_hdr s) key value n = Inr n" using key_here_map[of "ih_hdr s" n key] k by (simp add: nd_insert_def Let_def)
  obtain s2 where "ix_unpin f False s1 = (Inr True, s2)" "ix_same s s2" using ix_at_unpin[OF at] by blast
  then show ?thesis using f ix_atD[OF at] ins by (simp add: insert_entry_def em_defs ix_upd_def)
qed

lemma leaf_insert:
  assumes I: "ix_index s t" and k: "hkey (ih_hdr s) key" and a: "bt_map (ih_hdr s) t key = None"
    and v: "int (length key) = ix_col_tot_len (ih_hdr s)" "rid_ok value"
    and low: "(\<exists>p kvs. t = Lf p kvs) \<or> key_cmp (ih_hdr s) (fst (hd (bt_kvs t))) key \<le> 0"
    and n: "ix_view s (fst (bt_leaf (ih_hdr s) key t)) = Some n" "nd_kvs n = snd (bt_leaf (ih_hdr s) key t)"
  obtains kvs where "nd_insert (ih_hdr s) key value n = Inr (n\<lparr>nd_kvs := kvs\<rparr>)" "length kvs = Suc (length (snd (bt_leaf (ih_hdr s) key t)))"
    "(key, value) \<in> set kvs" "\<forall>kv \<in> set kvs. kv = (key, value) \<or> kv \<in> set (snd (bt_leaf (ih_hdr s) key t))"
    "ixk.asc (ih_hdr s) kvs" "node_fits (ih_hdr s) (n\<lparr>nd_kvs := kvs\<rparr>)"
    "\<forall>k'. hkey (ih_hdr s) k' \<longrightarrow> ixk.kv_find (ih_hdr s) kvs k' =
       (if key_cmp (ih_hdr s) key k' = 0 then Some value else ixk.kv_find (ih_hdr s) (snd (bt_leaf (ih_hdr s) key t)) k')"
    "(\<exists>p kvs. t = Lf p kvs) \<or> bt_first (Lf 0 kvs) = bt_first (Lf 0 (snd (bt_leaf (ih_hdr s) key t)))"
proof -
  let ?h = "ih_hdr s" and ?old = "snd (bt_leaf (ih_hdr s) key t)"
  have o: "bt_ord ?h t" and ln: "bt_links ?h (ix_view s) IX_NO_PAGE t" using I by (simp_all add: ix_index_def ix_tree_def)
  have srt: "node_sorted ?h n" and nm: "node_map ?h n key = None"
    using bt_leaf_find[OF o k] n(2) a by (simp_all add: node_asc node_find bt_map_find)
  have sz: "int (get_size n) < get_max_size ?h" using bt_leaf_fits[OF ln o k n(1)] by simp
  obtain p where p: "nd_insert ?h key value n = Inr (n\<lparr>nd_kvs := take p ?old @ (key, value) # drop p ?old\<rparr>)"
      "ixk.splits ?h ?old key p" "node_sorted ?h (n\<lparr>nd_kvs := take p ?old @ (key, value) # drop p ?old\<rparr>)"
      "\<forall>k'. hkey ?h k' \<longrightarrow> node_map ?h (n\<lparr>nd_kvs := take p ?old @ (key, value) # drop p ?old\<rparr>) k' =
         (if key_cmp ?h key k' = 0 then Some value else node_map ?h n k')"
    using nd_insert_new[OF srt k nm sz, of "value"] n(2) by auto
  define kvs where "kvs = take p ?old @ (key, value) # drop p ?old"
  note p = p[folded kvs_def]
  have pl: "p \<le> length ?old" using p(2) by (simp add: ixk.splits_def)
  have len: "length kvs = Suc (length ?old)" using pl by (simp add: kvs_def)
  have fits: "node_fits ?h (n\<lparr>nd_kvs := kvs\<rparr>)"
    using bt_leaf_fits[OF ln o k n(1)] v sz pl n(2)
    by (auto simp: node_fits_def kvs_def get_size_def dest: in_set_takeD in_set_dropD)
  have fst_eq: "(\<exists>p kvs. t = Lf p kvs) \<or> bt_first (Lf 0 kvs) = bt_first (Lf 0 ?old)"
  proof (cases t)
    case (Br r cs)
    then obtain kv kvs1 where kv: "?old = kv # kvs1" "key_cmp ?h (fst kv) key \<le> 0" using low_leaf[OF ln o k Br] low by auto
    then have "key_cmp ?h (fst kv) key < 0" using nm n(2) by (simp add: node_find ixk.kv_find_None order_less_le)
    then have "p \<noteq> 0" using p(2) kv(1) by (auto simp: ixk.splits_def)
    then show ?thesis using kv(1) by (cases p) (auto simp: kvs_def)
  qed simp
  show thesis
    by (rule that[OF p(1) len _ _ _ fits _ fst_eq]) (use p(3,4) n(2) in \<open>auto simp: kvs_def node_asc node_find dest: in_set_takeD in_set_dropD\<close>)
qed

lemma insert_entry_new:
  assumes I: "ix_index s t" and k: "hkey (ih_hdr s) key" and fu: "bt_height t < fuel" and a: "bt_map (ih_hdr s) t key = None"
    and av: "1 < bp_avail (ih_bpm s)" and v: "int (length key) = ix_col_tot_len (ih_hdr s)" "rid_ok value"
    and room: "int (length (snd (bt_leaf (ih_hdr s) key t))) + 1 < get_max_size (ih_hdr s)"
    and low: "(\<exists>p kvs. t = Lf p kvs) \<or> key_cmp (ih_hdr s) (fst (hd (bt_kvs t))) key \<le> 0"
  shows "\<exists>s' t' p kvs. insert_entry fuel key value s = (Inr p, s') \<and> ix_index s' t' \<and> (p, kvs) \<in> set (bt_leaves t') \<and> (key, value) \<in> set kvs \<and>
    ih_hdr s' = ih_hdr s \<and> pins (ih_bpm s') = pins (ih_bpm s) \<and>
    (\<forall>k'. hkey (ih_hdr s) k' \<longrightarrow> bt_map (ih_hdr s) t' k' =
       (if key_cmp (ih_hdr s) key k' = 0 then Some value else bt_map (ih_hdr s) t k'))"
proof -
  let ?h = "ih_hdr s" and ?q = "fst (bt_leaf (ih_hdr s) key t)" and ?old = "snd (bt_leaf (ih_hdr s) key t)"
  have T: "ix_tree s t" and o: "bt_ord ?h t" using I by (simp_all add: ix_index_def ix_tree_def)
  obtain f s1 n where f: "find_leaf_page fuel key False s = (Inr (Some f), s1)" and vn: "ix_view s ?q = Some n" and
      at: "ix_at s ?q n f s1" and n: "nd_is_leaf n" "nd_kvs n = ?old"
    using find_leaf_page_at[OF T k fu] by blast
  obtain kvs' where p: "nd_insert ?h key value n = Inr (n\<lparr>nd_kvs := kvs'\<rparr>)" "length kvs' = Suc (length ?old)" "(key, value) \<in> set kvs'"
      "\<forall>kv \<in> set kvs'. kv = (key, value) \<or> kv \<in> set ?old" "ixk.asc ?h kvs'" "node_fits ?h (n\<lparr>nd_kvs := kvs'\<rparr>)"
      "\<forall>k'. hkey ?h k' \<longrightarrow> ixk.kv_find ?h kvs' k' = (if key_cmp ?h key k' = 0 then Some value else ixk.kv_find ?h ?old k')"
      "(\<exists>p kvs. t = Lf p kvs) \<or> bt_first (Lf 0 kvs') = bt_first (Lf 0 ?old)"
    by (rule leaf_insert[OF I k a v low vn n(2)])
  obtain m where m: "fuel = Suc m" using fu by (cases fuel) auto
  obtain s2 where u: "ix_upd f (\<lambda>h. nd_insert h key value) s1 = (Inr (), s2)" "ih_hdr s2 = ?h" "ih_fd s2 = ih_fd s" "bp_inv (ih_bpm s2)" "ix_held s2 ?q f"
      "ix_node s2 f = n\<lparr>nd_kvs := kvs'\<rparr>" "ix_page_no s2 f = ?q" "pins (ih_bpm s2) = pins (ih_bpm s1)" "bp_avail (ih_bpm s2) = bp_avail (ih_bpm s1)"
      "ix_view s2 ?q = Some (n\<lparr>nd_kvs := kvs'\<rparr>)" "\<forall>p m. p \<noteq> ?q \<longrightarrow> ix_view s p = Some m \<longrightarrow> ix_view s2 p = Some m"
    by (rule leaf_store[OF at, of "\<lambda>h. nd_insert h key value" kvs']) (use p(1,6) in auto)
  have av2: "0 < bp_avail (ih_bpm s2)" using at av u(9) by (auto simp: ix_at_def split: if_splits)
  obtain s3 where s3: "maintain_parent fuel f s2 = (Inr (), s3)" "ix_kept s2 s3"
    using leaf_maintain[OF I k refl vn u(4,5) av2 u(10,11) p(8), of m] m by blast
  obtain s4 where s4: "ix_unpin f True s3 = (Inr True, s4)" "ix_change key t kvs' s s4"
    using leaf_done[OF at refl vn _ u(2,3,5,8,9,10,11) s3(2)] av by auto
  have ks: "\<forall>kv \<in> set kvs'. fst kv = key \<or> fst kv \<in> fst ` set ?old" using p(4) by auto
  have J: "ix_index s4 (bt_put ?h key kvs' t)"
    by (rule ix_index_change[OF I s4(2) k p(5) ks _ p(8)]) (use p(2,6) vn room in auto)
  have sel: "insert_entry fuel key value s = (Inr ?q, s4)"
    using f u(1,2,6,7) s3(1) s4(1) ix_atD[OF at] n(2) room p(2) by (simp add: insert_entry_def em_defs get_size_def)
  have "(?q, kvs') \<in> set (bt_leaves (bt_put ?h key kvs' t))" using bt_leaves_put[OF o k, of kvs'] by auto
  moreover have "\<forall>k'. hkey ?h k' \<longrightarrow> bt_map ?h (bt_put ?h key kvs' t) k' = (if key_cmp ?h key k' = 0 then Some value else bt_map ?h t k')"
    using bt_find_put[OF o k bt_ord_put[OF o k p(5) ks] _ p(7)] by (simp add: bt_map_find)
  ultimately show ?thesis using sel J s4(2) p(3) by (intro exI[of _ s4] exI[of _ "bt_put ?h key kvs' t"] exI[of _ ?q] exI[of _ kvs']) (simp add: ix_change_def)
qed

text \<open>Deletion from a leaf that stays full enough.\<close>

lemma delete_entry_absent:
  assumes I: "ix_index s t" and k: "hkey (ih_hdr s) key" and fu: "bt_height t < fuel" and p: "bt_map (ih_hdr s) t key = None"
  shows "\<exists>s'. delete_entry fuel key s = (Inr False, s') \<and> ix_same s s'"
proof -
  have T: "ix_tree s t" and o: "bt_ord (ih_hdr s) t" using I by (simp_all add: ix_index_def ix_tree_def)
  obtain f s1 n where f: "find_leaf_page fuel key False s = (Inr (Some f), s1)" and
      at: "ix_at s (fst (bt_leaf (ih_hdr s) key t)) n f s1" and n: "nd_is_leaf n" "nd_kvs n = snd (bt_leaf (ih_hdr s) key t)"
    using find_leaf_page_at[OF T k fu] by blast
  have "node_sorted (ih_hdr s) n" "node_map (ih_hdr s) n key = None"
    using bt_leaf_find[OF o k] n(2) p by (simp_all add: node_asc node_find bt_map_find)
  then have rm: "nd_remove (ih_hdr s) key n = Inr n" using key_here_map[of "ih_hdr s" n key] k by (simp add: nd_remove_def Let_def)
  obtain s2 where "ix_unpin f False s1 = (Inr True, s2)" "ix_same s s2" using ix_at_unpin[OF at] by blast
  then show ?thesis using f ix_atD[OF at] rm by (simp add: delete_entry_def em_defs ix_upd_def)
qed

lemma nd_remove_at:
  assumes "node_sorted h n" and "hkey h k" and "node_map h n k \<noteq> None"
  obtains p where "p < length (nd_kvs n)" "key_cmp h (fst (nd_kvs n ! p)) k = 0"
    "nd_remove h k n = Inr (n\<lparr>nd_kvs := take p (nd_kvs n) @ drop (Suc p) (nd_kvs n)\<rparr>)"
  using key_here_map[OF assms(1,2)] assms(3) that[of "nd_lower_bound h n k"]
  by (simp add: nd_remove_def Let_def erase_pair_def key_here_def get_size_def)

lemma coalesce_none:
  assumes I: "ix_index s t" and k: "hkey (ih_hdr s) key" and q: "q = fst (bt_leaf (ih_hdr s) key t)"
    and n: "ix_view s q = Some n" and s2: "bp_inv (ih_bpm s2)" "ix_held s2 q f" "0 < bp_avail (ih_bpm s2)" "ix_view s2 q = Some (n\<lparr>nd_kvs := kvs'\<rparr>)"
      "\<forall>p m. p \<noteq> q \<longrightarrow> ix_view s p = Some m \<longrightarrow> ix_view s2 p = Some m" "ih_hdr s2 = ih_hdr s"
    and ok: "(\<exists>p kvs. t = Lf p kvs) \<or> bt_first (Lf 0 kvs') = bt_first (Lf 0 (snd (bt_leaf (ih_hdr s) key t))) \<and>
      get_min_size (ih_hdr s) \<le> int (length kvs')"
  shows "\<exists>s3. coalesce_or_redistribute (Suc (Suc fuel)) f s2 = (Inr False, s3) \<and> ix_kept s2 s3"
proof -
  have n2: "ix_node s2 f = n\<lparr>nd_kvs := kvs'\<rparr>" "ix_page_no s2 f = q" using held_node[OF s2(1,2)] s2(4) by simp_all
  have i: "bt_links (ih_hdr s) (ix_view s) IX_NO_PAGE t" "root_page (ih_hdr s) = bt_page t" "bt_rep (ix_view s) t" "bt_ord (ih_hdr s) t"
      "distinct (bt_pages t)"
    using I by (simp_all add: ix_index_def ix_tree_def)
  show ?thesis
  proof (cases "\<exists>p kvs. t = Lf p kvs")
    case True
    then have l: "nd_parent n = IX_NO_PAGE" "nd_is_leaf n" "root_page (ih_hdr s2) = q"
      using i(1-3) n q s2(6) by (auto split: option.splits)
    have "s2\<lparr>ih_hdr := (ih_hdr s2)\<lparr>root_page := q\<rparr>\<rparr> = s2" using l(3) by (cases s2) (auto simp: IxFileHdr.defs)
    then have "coalesce_or_redistribute (Suc (Suc fuel)) f s2 = (Inr False, s2)"
      using n2 l by (simp add: is_root_page_def IX_NO_PAGE_def INVALID_PAGE_ID_def adjust_root_def em_defs update_root_page_no_def ix_hdr_def)
    then show ?thesis using s2(1) by (simp add: ix_kept_def)
  next
    case False
    then have "nd_parent n \<noteq> IX_NO_PAGE" using bt_leaf_parent[OF i(3,1,4) k i(5)] n unfolding q by auto
    moreover obtain s3 where "maintain_parent (Suc fuel) f s2 = (Inr (), s3)" "ix_kept s2 s3"
      using leaf_maintain[OF I k q n s2(1-5), of fuel] ok by blast
    ultimately show ?thesis
      using False ok n2(1) s2(6) by (auto simp: is_root_page_def IX_NO_PAGE_def INVALID_PAGE_ID_def em_defs get_size_def)
  qed
qed

lemma delete_entry_present:
  assumes I: "ix_index s t" and k: "hkey (ih_hdr s) key" and fu: "Suc (bt_height t) < fuel" and a: "bt_map (ih_hdr s) t key \<noteq> None"
    and av: "1 < bp_avail (ih_bpm s)"
    and ok: "(\<exists>p kvs. t = Lf p kvs) \<or> key_cmp (ih_hdr s) (fst (hd (snd (bt_leaf (ih_hdr s) key t)))) key < 0 \<and>
      get_min_size (ih_hdr s) < int (length (snd (bt_leaf (ih_hdr s) key t)))"
  shows "\<exists>s' t'. delete_entry fuel key s = (Inr True, s') \<and> ix_index s' t' \<and>
    ih_hdr s' = ih_hdr s \<and> pins (ih_bpm s') = pins (ih_bpm s) \<and>
    (\<forall>k'. hkey (ih_hdr s) k' \<longrightarrow> bt_map (ih_hdr s) t' k' =
       (if key_cmp (ih_hdr s) key k' = 0 then None else bt_map (ih_hdr s) t k'))"
proof -
  let ?h = "ih_hdr s" and ?q = "fst (bt_leaf (ih_hdr s) key t)" and ?old = "snd (bt_leaf (ih_hdr s) key t)"
  have T: "ix_tree s t" and o: "bt_ord ?h t" and ln: "bt_links ?h (ix_view s) IX_NO_PAGE t" using I by (simp_all add: ix_index_def ix_tree_def)
  have fu': "bt_height t < fuel" using fu by simp
  obtain f s1 n where f: "find_leaf_page fuel key False s = (Inr (Some f), s1)" and vn: "ix_view s ?q = Some n" and
      at: "ix_at s ?q n f s1" and n: "nd_is_leaf n" "nd_kvs n = ?old"
    using find_leaf_page_at[OF T k fu'] by blast
  have srt: "node_sorted ?h n" and nm: "node_map ?h n key \<noteq> None"
    using bt_leaf_find[OF o k] n(2) a by (simp_all add: node_asc node_find bt_map_find)
  obtain p where p: "p < length ?old" "key_cmp ?h (fst (?old ! p)) key = 0"
      "nd_remove ?h key n = Inr (n\<lparr>nd_kvs := take p ?old @ drop (Suc p) ?old\<rparr>)"
    using nd_remove_at[OF srt k nm] n(2) by metis
  define kvs' where "kvs' = take p ?old @ drop (Suc p) ?old"
  note p = p[folded kvs'_def]
  have len: "length kvs' = length ?old - 1" and ne: "length kvs' \<noteq> length ?old" using p(1) by (auto simp: kvs'_def)
  have rm: "node_sorted ?h (n\<lparr>nd_kvs := kvs'\<rparr>)" "\<forall>k'. hkey ?h k' \<longrightarrow> node_map ?h (n\<lparr>nd_kvs := kvs'\<rparr>) k' =
      (if key_cmp ?h key k' = 0 then None else node_map ?h n k')"
    using nd_remove_map[OF srt k] p(3) by auto
  have fits: "node_fits ?h (n\<lparr>nd_kvs := kvs'\<rparr>)"
    using bt_leaf_fits[OF ln o k vn] len n(2)
    by (auto simp: node_fits_def kvs'_def get_size_def dest: in_set_takeD in_set_dropD)
  have room': "int (length kvs') < get_max_size ?h" using bt_leaf_fits[OF ln o k vn] len n(2) by (auto simp: get_size_def)
  have ok': "(\<exists>p kvs. t = Lf p kvs) \<or> bt_first (Lf 0 kvs') = bt_first (Lf 0 ?old) \<and> get_min_size ?h \<le> int (length kvs')"
  proof (cases "\<exists>p kvs. t = Lf p kvs")
    case False
    then have low: "key_cmp ?h (fst (hd ?old)) key < 0" "get_min_size ?h < int (length ?old)" using ok by auto
    then have "p \<noteq> 0" using p(1,2) by (cases ?old; cases "p = 0") auto
    then have "bt_first (Lf 0 kvs') = bt_first (Lf 0 ?old)" using p(1) by (cases ?old; cases p) (auto simp: kvs'_def)
    then show ?thesis using low(2) len by auto
  qed simp
  obtain m where m: "fuel = Suc (Suc m)" using fu by (cases fuel; cases "fuel - 1") auto
  obtain s2 where u: "ix_upd f (\<lambda>h. nd_remove h key) s1 = (Inr (), s2)" "ih_hdr s2 = ?h" "ih_fd s2 = ih_fd s" "bp_inv (ih_bpm s2)" "ix_held s2 ?q f"
      "ix_node s2 f = n\<lparr>nd_kvs := kvs'\<rparr>" "ix_page_no s2 f = ?q" "pins (ih_bpm s2) = pins (ih_bpm s1)" "bp_avail (ih_bpm s2) = bp_avail (ih_bpm s1)"
      "ix_view s2 ?q = Some (n\<lparr>nd_kvs := kvs'\<rparr>)" "\<forall>p m. p \<noteq> ?q \<longrightarrow> ix_view s p = Some m \<longrightarrow> ix_view s2 p = Some m"
    by (rule leaf_store[OF at, of "\<lambda>h. nd_remove h key" kvs']) (use p(3) fits in auto)
  have av2: "0 < bp_avail (ih_bpm s2)" using at av u(9) by (auto simp: ix_at_def split: if_splits)
  obtain s3 where s3: "coalesce_or_redistribute fuel f s2 = (Inr False, s3)" "ix_kept s2 s3"
    using coalesce_none[OF I k refl vn u(4,5) av2 u(10,11,2) ok', of m] m by blast
  obtain s4 where s4: "ix_unpin f True s3 = (Inr True, s4)" "ix_change key t kvs' s s4"
    using leaf_done[OF at refl vn _ u(2,3,5,8,9,10,11) s3(2)] av by auto
  have asc: "ixk.asc ?h kvs'" using rm(1) by (simp add: node_asc)
  have fst_eq: "(\<exists>p kvs. t = Lf p kvs) \<or> bt_first (Lf 0 kvs') = bt_first (Lf 0 ?old)" using ok' by blast
  have J: "ix_index s4 (bt_put ?h key kvs' t)"
    by (rule ix_index_change[OF I s4(2) k asc _ _ fst_eq])
       (use fits vn room' in \<open>auto simp: kvs'_def dest: in_set_takeD in_set_dropD\<close>)
  have sel: "delete_entry fuel key s = (Inr True, s4)"
    using f u(1,2,6,7) s3(1) s4(1) ix_atD[OF at] n(2) ne by (simp add: delete_entry_def em_defs get_size_def)
  have "bt_ord ?h (bt_put ?h key kvs' t)" using J s4(2) by (simp add: ix_index_def ix_tree_def ix_change_def)
  then have "\<forall>k'. hkey ?h k' \<longrightarrow> bt_map ?h (bt_put ?h key kvs' t) k' = (if key_cmp ?h key k' = 0 then None else bt_map ?h t k')"
    using bt_find_put[OF o k, of kvs' _ None] rm(2) n(2) by (simp add: node_find bt_map_find)
  then show ?thesis using sel J s4(2) by (intro exI[of _ s4] exI[of _ "bt_put ?h key kvs' t"]) (simp add: ix_change_def)
qed


lemma witness_ix_index: "ix_index witness_ix (Lf 2 (nd_kvs witness_node))"
  using witness_ix_tree witness_ix_facts witness_node_fits witness_end_fits
  by (simp add: ix_index_def ix_end_def) (simp add: witness_ix_defs IX_NO_PAGE_def get_size_def get_max_size_def empty_leaf_def)


end
