(* ===== verification/IxSim.thy ===== *)
theory IxSim
  imports IxUpdate "HOL-Library.Multiset"
begin

text \<open>
  Running the index operations over the pool, step by step. A run starts in a state \<open>s0\<close>; \<open>M\<close> are the pages it has fetched and not
  yet released (with multiplicity), \<open>H\<close> the frames they are in, \<open>P\<close> the number the next new page gets and \<open>N\<close> the nodes.
  Each step of an operation is a step on these: fetching and releasing change \<open>M\<close>, changing a node changes \<open>N\<close>, a new node
  changes all of them. Frames and pins are accounted for once, here.
\<close>

definition ix_used :: "IxState \<Rightarrow> page_id_t multiset \<Rightarrow> nat" where
  "ix_used s0 M = card {p. p \<in># M \<and> pins (ih_bpm s0) (ix_pid s0 p) = 0}"

definition ix_sim :: "IxState \<Rightarrow> page_id_t multiset \<Rightarrow> (page_id_t \<Rightarrow> frame_id_t) \<Rightarrow> int \<Rightarrow> (page_id_t \<Rightarrow> IxNode option) \<Rightarrow> IxState \<Rightarrow> bool" where
  "ix_sim s0 M H P N s \<longleftrightarrow> bp_inv (ih_bpm s) \<and> ih_fd s = ih_fd s0 \<and>
     fd_path (bp_disk (ih_bpm s)) = fd_path (bp_disk (ih_bpm s0)) \<and> fd2pageno (bp_disk (ih_bpm s)) (ih_fd s0) = P \<and>
     (\<forall>pid. pid_fd pid \<noteq> ih_fd s0 \<longrightarrow> pins (ih_bpm s) pid = pins (ih_bpm s0) pid) \<and>
     (\<forall>p. pins (ih_bpm s) (ix_pid s0 p) = pins (ih_bpm s0) (ix_pid s0 p) + int (count M p)) \<and>
     bp_avail (ih_bpm s0) \<le> bp_avail (ih_bpm s) + ix_used s0 M \<and>
     (\<forall>p. p \<in># M \<longrightarrow> ix_held s p (H p)) \<and> N \<subseteq>\<^sub>m ix_view s \<and> (\<forall>p. 0 \<le> pins (ih_bpm s0) (ix_pid s0 p))"

lemma ix_used_le: "ix_used s0 M \<le> size M"
proof -
  have "ix_used s0 M \<le> card (set_mset M)" unfolding ix_used_def by (rule card_mono) auto
  also have "\<dots> \<le> size M" by (induction M) (auto simp: card_insert_if)
  finally show ?thesis .
qed

lemma ix_sim_start:
  assumes "bp_inv (ih_bpm s)" and "N \<subseteq>\<^sub>m ix_view s"
  shows "ix_sim s {#} H (fd2pageno (bp_disk (ih_bpm s)) (ih_fd s)) N s"
proof -
  have "0 \<le> pins (ih_bpm s) pid" for pid
    using bp_struct_table(3)[OF bp_inv_struct[OF assms(1)]] by (auto simp: pins_def split: option.split)
  then show ?thesis using assms by (simp add: ix_sim_def)
qed

lemma ix_sim_less: "ix_sim s0 M H P N s \<Longrightarrow> N' \<subseteq>\<^sub>m N \<Longrightarrow> ix_sim s0 M H P N' s"
  by (auto simp: ix_sim_def intro: map_le_trans)

text \<open>Reading a held node.\<close>

lemma sim_node:
  assumes "ix_sim s0 M H P N s" and "p \<in># M" and "N p = Some n"
  shows "ix_node s (H p) = n" and "ix_page_no s (H p) = p"
proof -
  have h: "bp_inv (ih_bpm s)" "ix_held s p (H p)" "ix_view s p = Some n"
    using assms by (auto simp: ix_sim_def map_le_def dest!: bspec[of _ _ p])
  show "ix_node s (H p) = n" "ix_page_no s (H p) = p" using held_node(1,2)[OF h(1,2)] h(3) by simp_all
qed

lemma sim_page:
  assumes "ix_sim s0 M H P N s" and "p \<in># M"
  shows "ix_page_no s (H p) = p"
  using held_node(2)[of s p "H p"] assms by (simp add: ix_sim_def)

text \<open>Fetching.\<close>

lemma sim_fetch:
  assumes S: "ix_sim s0 M H P N s" and n: "N p = Some n" and room: "size M < bp_avail (ih_bpm s0)"
  obtains f s' where "fetch_node p s = (Inr f, s')" "ix_sim s0 (add_mset p M) (H(p := f)) P N s'" "ih_hdr s' = ih_hdr s"
    "p \<in># M \<Longrightarrow> f = H p"
proof -
  have s: "bp_inv (ih_bpm s)" "ih_fd s = ih_fd s0" "bp_avail (ih_bpm s0) \<le> bp_avail (ih_bpm s) + ix_used s0 M"
      "\<forall>p. p \<in># M \<longrightarrow> ix_held s p (H p)" "N \<subseteq>\<^sub>m ix_view s" "\<And>p. 0 \<le> pins (ih_bpm s0) (ix_pid s0 p)"
      "\<And>p. pins (ih_bpm s) (ix_pid s0 p) = pins (ih_bpm s0) (ix_pid s0 p) + int (count M p)"
    using S by (simp_all add: ix_sim_def)
  have v: "ix_view s p = Some n" using s(5) n by (force simp: map_le_def)
  have "0 < bp_avail (ih_bpm s)" using room s(3) ix_used_le[of s0 M] by linarith
  then have r: "ix_ready s" using s(1) by (simp add: ix_ready_def bp_roomy_avail)
  show thesis
  proof (rule fetch_node_step[OF r v])
    fix f s1
    assume f: "fetch_node p s = (Inr f, s1)" "ih_hdr s1 = ih_hdr s" "ih_fd s1 = ih_fd s" "ix_held s1 p f" "bp_inv (ih_bpm s1)"
      and pi: "pins (ih_bpm s1) = (pins (ih_bpm s))(ix_pid s p := pins (ih_bpm s) (ix_pid s p) + 1)"
      and a: "bp_avail (ih_bpm s) \<le> Suc (bp_avail (ih_bpm s1))"
        "0 < pins (ih_bpm s) (ix_pid s p) \<Longrightarrow> bp_avail (ih_bpm s1) = bp_avail (ih_bpm s)"
      and dl: "disk_le (bp_disk (ih_bpm s)) (bp_disk (ih_bpm s1))" and vw: "\<forall>q m. ix_view s q = Some m \<longrightarrow> ix_view s1 q = Some m" and hh: "\<forall>q g. ix_held s q g \<longrightarrow> ix_held s1 q g"
    have same: "f = H p" if "p \<in># M"
    proof -
      have "ix_held s1 p (H p)" using s(4) hh that by blast
      then show ?thesis using f(4) by (simp add: ix_held_def bp_held_def)
    qed
    have pid: "ix_pid s p = ix_pid s0 p" using s(2) by simp
    have us: "bp_avail (ih_bpm s0) \<le> bp_avail (ih_bpm s1) + ix_used s0 (add_mset p M)"
    proof (cases "pins (ih_bpm s) (ix_pid s0 p) = 0")
      case True
      then have "count M p = 0" "pins (ih_bpm s0) (ix_pid s0 p) = 0" using s(7)[of p] s(6)[of p] by linarith+
      then have "ix_used s0 (add_mset p M) = Suc (ix_used s0 M)"
        unfolding ix_used_def by (subst card_insert_disjoint[symmetric]) (auto simp: not_in_iff intro!: arg_cong[where f = card])
      then show ?thesis using a(1) s(3) by linarith
    next
      case False
      then have "0 < pins (ih_bpm s) (ix_pid s p)" using s(6)[of p] s(7)[of p] pid by simp
      then have "bp_avail (ih_bpm s1) = bp_avail (ih_bpm s)" by (rule a(2))
      moreover have "ix_used s0 M \<le> ix_used s0 (add_mset p M)" unfolding ix_used_def by (rule card_mono) auto
      ultimately show ?thesis using s(3) by linarith
    qed
    have "N \<subseteq>\<^sub>m ix_view s1" using s(5) vw unfolding map_le_def by (metis domIff option.collapse)
    moreover have "pins (ih_bpm s1) (ix_pid s0 q) = pins (ih_bpm s0) (ix_pid s0 q) + int (count (add_mset p M) q)" for q
      using pi pid s(7)[of q] by (cases "q = p") auto
    moreover have "ix_held s1 q ((H(p := f)) q)" if "q \<in># add_mset p M" for q
      using that f(4) s(4) hh by (cases "q = p") auto
    ultimately have "ix_sim s0 (add_mset p M) (H(p := f)) P N s1"
      using S f(3,5) pi us dl s(2) pid unfolding ix_sim_def disk_le_def by auto
    then show thesis using that f(1,2) same by blast
  qed
qed

text \<open>Releasing; a page that may have been changed is released as dirty.\<close>

lemma sim_unpin:
  assumes S: "ix_sim s0 (add_mset p M) H P N s"
  obtains s' where "ix_unpin (H p) True s = (Inr True, s')" "ix_sim s0 M H P N s'" "ih_hdr s' = ih_hdr s"
proof -
  have s: "bp_inv (ih_bpm s)" "ih_fd s = ih_fd s0" "bp_avail (ih_bpm s0) \<le> bp_avail (ih_bpm s) + ix_used s0 (add_mset p M)"
      "\<forall>q. q \<in># add_mset p M \<longrightarrow> ix_held s q (H q)" "N \<subseteq>\<^sub>m ix_view s" "\<And>q. 0 \<le> pins (ih_bpm s0) (ix_pid s0 q)"
      "\<And>q. pins (ih_bpm s) (ix_pid s0 q) = pins (ih_bpm s0) (ix_pid s0 q) + int (count (add_mset p M) q)"
    using S by (simp_all add: ix_sim_def)
  have hp: "ix_held s p (H p)" using s(4) by simp
  show thesis
  proof (rule ix_unpin_step[OF s(1) hp, of True])
    fix s1
    assume u: "ix_unpin (H p) True s = (Inr True, s1)" "ih_hdr s1 = ih_hdr s" "ih_fd s1 = ih_fd s" "bp_inv (ih_bpm s1)"
      "pins (ih_bpm s1) = (pins (ih_bpm s))(ix_pid s p := pins (ih_bpm s) (ix_pid s p) - 1)"
      "bp_avail (ih_bpm s1) = bp_avail (ih_bpm s) + (if pins (ih_bpm s) (ix_pid s p) = 1 then 1 else 0)"
      "ix_view s1 = ix_view s" "\<forall>q g. q \<noteq> p \<or> 1 < pins (ih_bpm s) (ix_pid s p) \<longrightarrow> ix_held s q g \<longrightarrow> ix_held s1 q g"
      "bp_disk (ih_bpm s1) = bp_disk (ih_bpm s)"
    have pid: "ix_pid s p = ix_pid s0 p" using s(2) by simp
    have us: "bp_avail (ih_bpm s0) \<le> bp_avail (ih_bpm s1) + ix_used s0 M"
    proof (cases "pins (ih_bpm s) (ix_pid s0 p) = 1")
      case True
      then have "count M p = 0" "pins (ih_bpm s0) (ix_pid s0 p) = 0" using s(7)[of p] s(6)[of p] by simp_all
      then have "ix_used s0 (add_mset p M) = Suc (ix_used s0 M)"
        unfolding ix_used_def by (subst card_insert_disjoint[symmetric]) (auto simp: not_in_iff intro!: arg_cong[where f = card])
      then show ?thesis using u(6) True s(3) pid by simp
    next
      case False
      then have "0 < count M p \<or> pins (ih_bpm s0) (ix_pid s0 p) \<noteq> 0" using s(7)[of p] by auto
      then have "ix_used s0 (add_mset p M) = ix_used s0 M"
        unfolding ix_used_def by (intro arg_cong[where f = card]) auto
      then show ?thesis using u(6) s(3) by simp
    qed
    have "pins (ih_bpm s1) (ix_pid s0 q) = pins (ih_bpm s0) (ix_pid s0 q) + int (count M q)" for q
      using u(5) pid s(7)[of q] by (cases "q = p") auto
    moreover have "ix_held s1 q (H q)" if "q \<in># M" for q
    proof -
      have "q \<noteq> p \<or> 1 < pins (ih_bpm s) (ix_pid s p)" using that s(6,7)[of p] pid by (cases "q = p") (auto simp flip: count_greater_zero_iff)
      then show ?thesis using u(8) s(4) that by auto
    qed
    ultimately have "ix_sim s0 M H P N s1"
      using S u(3,4,5,7,9) us s(2) pid unfolding ix_sim_def by auto
    then show thesis using that u(1,2) by blast
  qed simp
qed

text \<open>Changing a node.\<close>

lemma sim_upd:
  assumes S: "ix_sim s0 M H P N s" and p: "p \<in># M" and n: "N p = Some n" and g: "g (ih_hdr s) n = Inr n'" and fit: "node_fits (ih_hdr s) n'"
  obtains s' where "ix_upd (H p) g s = (Inr (), s')" "ix_sim s0 M H P (N(p \<mapsto> n')) s'" "ih_hdr s' = ih_hdr s"
proof -
  have s: "bp_inv (ih_bpm s)" "ix_held s p (H p)" using S p by (simp_all add: ix_sim_def)
  have g': "g (ih_hdr s) (ix_node s (H p)) = Inr n'" using g sim_node(1)[OF S p n] by simp
  show thesis
  proof (rule ix_upd_step[of s p "H p" g n', OF s g' fit])
    fix s1
    assume u: "ix_upd (H p) g s = (Inr (), s1)" "ih_hdr s1 = ih_hdr s" "ih_fd s1 = ih_fd s" "bp_inv (ih_bpm s1)"
      "pins (ih_bpm s1) = pins (ih_bpm s)" "bp_avail (ih_bpm s1) = bp_avail (ih_bpm s)"
      "ix_view s1 = (ix_view s)(p \<mapsto> n')" "\<forall>q g. ix_held s1 q g \<longleftrightarrow> ix_held s q g" "bp_disk (ih_bpm s1) = bp_disk (ih_bpm s)"
    have "N(p \<mapsto> n') \<subseteq>\<^sub>m ix_view s1" using S u(7) by (auto simp: ix_sim_def map_le_def)
    then have "ix_sim s0 M H P (N(p \<mapsto> n')) s1" using S u by (simp add: ix_sim_def)
    then show thesis using that u(1,2) by blast
  qed
qed

lemma sim_set:
  assumes "ix_sim s0 M H P N s" and "p \<in># M" and "N p = Some n" and "node_fits (ih_hdr s) (g n)"
  obtains s' where "ix_set (H p) g s = (Inr (), s')" "ix_sim s0 M H P (N(p \<mapsto> g n)) s'" "ih_hdr s' = ih_hdr s"
  using sim_upd[OF assms(1-3), of "\<lambda>_ n. Inr (g n)" "g n"] assms(4) by (auto simp: ix_set_def)

text \<open>Changing the file header; nodes are read with the column lengths of the header only.\<close>

definition same_layout :: "IxFileHdr \<Rightarrow> IxFileHdr \<Rightarrow> bool" where
  "same_layout h h' \<longleftrightarrow> (\<exists>n r l. h' = h\<lparr>ix_num_pages := n, root_page := r, last_leaf := l\<rparr>)"

lemma same_layoutI:
  "same_layout h (h\<lparr>ix_num_pages := n\<rparr>)" "same_layout h (h\<lparr>root_page := r\<rparr>)" "same_layout h (h\<lparr>last_leaf := l\<rparr>)" "same_layout h h"
  unfolding same_layout_def
  by (intro exI[of _ n] exI[of _ "root_page h"] exI[of _ "last_leaf h"], simp)
     (intro exI[of _ "ix_num_pages h"] exI[of _ r] exI[of _ "last_leaf h"], simp,
      intro exI[of _ "ix_num_pages h"] exI[of _ "root_page h"] exI[of _ l], simp,
      intro exI[of _ "ix_num_pages h"] exI[of _ "root_page h"] exI[of _ "last_leaf h"], simp)

lemma same_layout_trans: "same_layout h h' \<Longrightarrow> same_layout h' h'' \<Longrightarrow> same_layout h h''"
proof -
  assume "same_layout h h'" "same_layout h' h''"
  then obtain n r l n' r' l' where "h' = h\<lparr>ix_num_pages := n, root_page := r, last_leaf := l\<rparr>"
    "h'' = h'\<lparr>ix_num_pages := n', root_page := r', last_leaf := l'\<rparr>" by (auto simp: same_layout_def)
  then have "h'' = h\<lparr>ix_num_pages := n', root_page := r', last_leaf := l'\<rparr>" by simp
  then show ?thesis unfolding same_layout_def by blast
qed

lemma same_layoutD:
  assumes "same_layout h h'"
  shows "dec_IxNode h' = dec_IxNode h" "key_cmp h' = key_cmp h" "hkey h' = hkey h" "node_fits h' = node_fits h"
    "get_max_size h' = get_max_size h" "first_leaf h' = first_leaf h" "ix_col_tot_len h' = ix_col_tot_len h"
proof -
  obtain a b c where h: "h' = h\<lparr>ix_num_pages := a, root_page := b, last_leaf := c\<rparr>" using assms by (auto simp: same_layout_def)
  show "dec_IxNode h' = dec_IxNode h" "key_cmp h' = key_cmp h" "hkey h' = hkey h" "node_fits h' = node_fits h"
    "get_max_size h' = get_max_size h" "first_leaf h' = first_leaf h" "ix_col_tot_len h' = ix_col_tot_len h"
    by (simp_all add: h dec_IxNode_def key_cmp_def hkey_def key_cols_def node_fits_def get_max_size_def fun_eq_iff)
qed

lemma sim_hdr:
  assumes "ix_sim s0 M H P N s" and "same_layout (ih_hdr s) h"
  shows "ix_sim s0 M H P N (s\<lparr>ih_hdr := h\<rparr>)"
proof -
  have "ix_view (s\<lparr>ih_hdr := h\<rparr>) = ix_view s" by (rule ext) (simp add: ix_view_def same_layoutD(1)[OF assms(2)])
  moreover have "ix_held (s\<lparr>ih_hdr := h\<rparr>) = ix_held s" by (simp add: ix_held_def fun_eq_iff)
  ultimately show ?thesis using assms(1) by (simp add: ix_sim_def)
qed

text \<open>A new node.\<close>

lemma new_page_avail:
  assumes i: "bp_inv b" and f: "new_page fd b = (Inr (Some (p, f)), b')"
  shows "bp_avail b \<le> Suc (bp_avail b')"
proof -
  have s: "bp_struct b" by (rule bp_inv_struct[OF i])
  have li: "lru_inv (bp_replacer b)" using s by (simp add: bp_struct_def)
  obtain v b1 where v: "find_victim_page b = (v, b1)" by fastforce
  obtain g where g: "v = Some g" using f v by (auto simp: new_page_def split: option.splits)
  have b': "bp_free b' = bp_free b1 \<and> bp_replacer b' = lru_pin g (bp_replacer b1)"
    using f v g
    by (auto simp: new_page_def em_defs Let_def erase_frame_id_def page_write_def attach_frame_def bp_write_page_def set_page_def
        split: prod.splits sum.splits if_splits)
  from s v[unfolded g] have one: "bp_avail b = Suc (bp_avail b1) \<and> lru_inv (bp_replacer b1) \<and> g \<notin> set (lru_frames (bp_replacer b1))"
  proof (cases rule: find_victim_Some)
    case (free fs)
    then have "g \<notin> set (lru_frames (bp_replacer b))" using s by (simp add: bp_struct_def)
    then show ?thesis using free li by (simp add: bp_avail_def)
  next
    case (evict r p)
    then show ?thesis using lru.distinct_frames[OF li] by (simp add: bp_avail_def)
  qed
  then show ?thesis using b' lru.frames_pin[of "bp_replacer b1" g] by (simp add: bp_avail_def)
qed

definition can_grow :: "IxState \<Rightarrow> int \<Rightarrow> bool" where
  "can_grow s0 P \<longleftrightarrow> 0 \<le> ih_fd s0 \<and> ih_fd s0 < MAX_FD \<and> fd_path (bp_disk (ih_bpm s0)) (ih_fd s0) \<noteq> None \<and> page_addressable P"

lemma sim_create:
  assumes S: "ix_sim s0 M H P N s" and g: "can_grow s0 P" and room: "size M < bp_avail (ih_bpm s0)"
  obtains f s' where "create_node s = (Inr f, s')" "N P = None"
    "ix_sim s0 (add_mset P M) (H(P := f)) (P + 1) (N(P \<mapsto> dec_IxNode (ih_hdr s) zero_page)) s'"
    "ih_hdr s' = (ih_hdr s)\<lparr>ix_num_pages := c_int (ix_num_pages (ih_hdr s) + 1)\<rparr>"
proof -
  have s: "bp_inv (ih_bpm s)" "ih_fd s = ih_fd s0" "bp_avail (ih_bpm s0) \<le> bp_avail (ih_bpm s) + ix_used s0 M"
      "\<forall>p. p \<in># M \<longrightarrow> ix_held s p (H p)" "N \<subseteq>\<^sub>m ix_view s" "\<And>p. 0 \<le> pins (ih_bpm s0) (ix_pid s0 p)"
      "\<And>p. pins (ih_bpm s) (ix_pid s0 p) = pins (ih_bpm s0) (ix_pid s0 p) + int (count M p)"
      "fd_path (bp_disk (ih_bpm s)) = fd_path (bp_disk (ih_bpm s0))" "fd2pageno (bp_disk (ih_bpm s)) (ih_fd s0) = P"
    using S by (simp_all add: ix_sim_def)
  let ?b = "ih_bpm s" and ?pid = "ix_pid s0 P" and ?h = "(ih_hdr s)\<lparr>ix_num_pages := c_int (ix_num_pages (ih_hdr s) + 1)\<rparr>"
  have np: "ix_view s P = None" using s(2,9) by (simp add: ix_view_def page_ok_def)
  then have NP: "N P = None" using s(5) by (metis domI domIff map_le_def)
  have ca: "can_allocate (bp_disk ?b) (ih_fd s)" using g s(2,8,9) by (simp add: can_allocate_def can_grow_def)
  have av: "0 < bp_avail ?b" using room s(3) ix_used_le[of s0 M] by linarith
  from s(1) ca show thesis
  proof (cases rule: new_page_cases)
    case (page f b')
    note page = page[unfolded s(2) s(9)]
    have z: "pins ?b ?pid = 0" using page(9) by (simp add: pins_def)
    then have cz: "count M P = 0" "pins (ih_bpm s0) ?pid = 0" using s(7)[of P] s(6)[of P] by linarith+
    let ?s1 = "s\<lparr>ih_hdr := ?h, ih_bpm := b'\<rparr>"
    have cr: "create_node s = (Inr f, ?s1)"
      using page(1) s(2) by (simp add: create_node_def ix_hdr_def ix_bp_def em_defs)
    have dk: "fd_path (bp_disk b') = fd_path (bp_disk (ih_bpm s0))" "fd2pageno (bp_disk b') (ih_fd s0) = P + 1"
      using page(8) s(8,9) by (simp_all add: disk_le_def bumped_def fd_path_def fun_eq_iff)
    have ok: "page_ok (bp_disk b') (ix_pid s0 q)" if "page_ok (bp_disk ?b) (ix_pid s0 q)" for q
      using that dk s(8,9) by (simp add: page_ok_def)
    have okP: "page_ok (bp_disk b') ?pid" using g dk by (simp add: page_ok_def can_grow_def)
    have dec: "dec_IxNode ?h = dec_IxNode (ih_hdr s)" by (rule same_layoutD(1)[OF same_layoutI(1)])
    have vw: "N(P \<mapsto> dec_IxNode (ih_hdr s) zero_page) \<subseteq>\<^sub>m ix_view ?s1"
      unfolding map_le_def
    proof
      fix q assume "q \<in> dom (N(P \<mapsto> dec_IxNode (ih_hdr s) zero_page))"
      show "(N(P \<mapsto> dec_IxNode (ih_hdr s) zero_page)) q = ix_view ?s1 q"
      proof (cases "q = P")
        case True
        then show ?thesis using page(4) okP dec s(2) by (simp add: ix_view_def)
      next
        case False
        then obtain m where m: "N q = Some m" using \<open>q \<in> _\<close> by auto
        then have "ix_view s q = Some m" using s(5) by (force simp: map_le_def)
        then obtain d where d: "page_ok (bp_disk ?b) (ix_pid s0 q)" "page_view ?b (ix_pid s0 q) = Some d" "m = dec_IxNode (ih_hdr s) d"
          using s(2) by (auto simp: ix_view_def split: if_splits)
        have "page_view b' (ix_pid s0 q) = Some d" using page(3) d(2) False by simp
        then show ?thesis using ok[OF d(1)] d(3) m False dec s(2) by (simp add: ix_view_def)
      qed
    qed
    have us: "bp_avail (ih_bpm s0) \<le> bp_avail b' + ix_used s0 (add_mset P M)"
    proof -
      have "ix_used s0 (add_mset P M) = Suc (ix_used s0 M)"
        using cz unfolding ix_used_def by (subst card_insert_disjoint[symmetric]) (auto simp: not_in_iff intro!: arg_cong[where f = card])
      then show ?thesis using new_page_avail[OF s(1) page(1)] s(3) by linarith
    qed
    have hd: "ix_held ?s1 q ((H(P := f)) q)" if "q \<in># add_mset P M" for q
    proof (cases "q = P")
      case True
      have "pg_pin (bp_frame b' f) = 1" using fun_cong[OF page(6), of ?pid] page(5) by (simp add: pins_def)
      then show ?thesis using True page(5) s(2) by (simp add: ix_held_def bp_held_def)
    next
      case False
      then have "ix_held s q (H q)" using s(4) that by simp
      then show ?thesis using False page(7) unfolding ix_held_def bp_held_def stable_def by simp blast
    qed
    have "pins b' (ix_pid s0 q) = pins (ih_bpm s0) (ix_pid s0 q) + int (count (add_mset P M) q)" for q
      using page(6) s(7)[of q] cz by (cases "q = P") auto
    then have "ix_sim s0 (add_mset P M) (H(P := f)) (P + 1) (N(P \<mapsto> dec_IxNode (ih_hdr s) zero_page)) ?s1"
      using S page(2,6) dk vw us hd s(2,6) by (auto simp: ix_sim_def)
    then show thesis using that[of f ?s1] cr NP by simp
  next
    case full
    then show thesis using av by (simp add: bp_avail_def)
  qed
qed

end
