(* ===== verification/IxSplit.thy ===== *)
theory IxSplit
  imports IxSim
begin

text \<open>
  Splitting nodes: what \<^verbatim>\<open>split\<close>, \<^verbatim>\<open>maintain_child\<close> and the new root of \<^verbatim>\<open>insert_into_parent\<close> do to the nodes.
\<close>

lemma sim_frames: "ix_sim s0 M H P N s \<Longrightarrow> (\<And>p. p \<in># M \<Longrightarrow> H' p = H p) \<Longrightarrow> ix_sim s0 M H' P N s"
  by (simp add: ix_sim_def)

lemma sim_less: "ix_sim s0 M H P N s \<Longrightarrow> N p = Some n \<Longrightarrow> ix_view s p = Some n"
  by (force simp: ix_sim_def map_le_def)

text \<open>The next page is not held.\<close>

lemma sim_fresh:
  assumes "ix_sim s0 M H P N s"
  shows "P \<notin># M"
proof
  assume "P \<in># M"
  then have h: "bp_inv (ih_bpm s)" "map_of (bp_table (ih_bpm s)) (ix_pid s P) = Some (H P)" "fd2pageno (bp_disk (ih_bpm s)) (ih_fd s) = P"
    using assms by (auto simp: ix_sim_def ix_held_def bp_held_def)
  show False using bp_inv_ok[OF h(1,2)] h(3) by (simp add: page_ok_def)
qed

text \<open>Fetch a node, change it and release it.\<close>

lemma sim_touch:
  assumes S: "ix_sim s0 M H P N s" and n: "N p = Some n" and room: "size M < bp_avail (ih_bpm s0)" and fit: "node_fits (ih_hdr s) (g n)"
  obtains f s1 s2 s3 where "fetch_node p s = (Inr f, s1)" "ih_hdr s1 = ih_hdr s" "\<forall>q. q \<in># M \<longrightarrow> ix_page_no s1 (H q) = q"
    "\<forall>q m. q \<in># M \<longrightarrow> N q = Some m \<longrightarrow> ix_node s1 (H q) = m"
    "ix_set f g s1 = (Inr (), s2)" "ix_unpin f True s2 = (Inr True, s3)" "ix_sim s0 M H P (N(p \<mapsto> g n)) s3" "ih_hdr s3 = ih_hdr s"
proof -
  obtain f s1 where f: "fetch_node p s = (Inr f, s1)" "ix_sim s0 (add_mset p M) (H(p := f)) P N s1" "ih_hdr s1 = ih_hdr s"
      "p \<in># M \<Longrightarrow> f = H p"
    using sim_fetch[OF S n room] by blast
  have fit1: "node_fits (ih_hdr s1) (g n)" using fit f(3) by simp
  have pM: "p \<in># add_mset p M" by simp
  obtain s2 where s2: "ix_set f g s1 = (Inr (), s2)" "ix_sim s0 (add_mset p M) (H(p := f)) P (N(p \<mapsto> g n)) s2" "ih_hdr s2 = ih_hdr s1"
    using sim_set[where g = g, OF f(2) pM n fit1] by auto
  obtain s3 where s3: "ix_unpin f True s2 = (Inr True, s3)" "ix_sim s0 M (H(p := f)) P (N(p \<mapsto> g n)) s3" "ih_hdr s3 = ih_hdr s2"
    using sim_unpin[OF s2(2)] by auto
  have "ix_sim s0 M H P (N(p \<mapsto> g n)) s3" by (rule sim_frames[OF s3(2)]) (use f(4) in auto)
  moreover have "ix_page_no s1 (H q) = q" if "q \<in># M" for q
    using sim_page[OF f(2), of q] f(4) that by (cases "q = p") auto
  moreover have "ix_node s1 (H q) = m" if "q \<in># M" "N q = Some m" for q m
    using sim_node(1)[OF f(2), of q m] f(4) that by (cases "q = p") auto
  ultimately show thesis using that f(1,3) s2(1,3) s3(1,3) by metis
qed

text \<open>Children get a new parent.\<close>

definition set_parents :: "page_id_t set \<Rightarrow> page_id_t \<Rightarrow> (page_id_t \<Rightarrow> IxNode option) \<Rightarrow> page_id_t \<Rightarrow> IxNode option" where
  "set_parents R q N r = (if r \<in> R then map_option (\<lambda>n. n\<lparr>nd_parent := q\<rparr>) (N r) else N r)"

lemma set_parents_empty [simp]: "set_parents {} q N = N"
  by (simp add: set_parents_def fun_eq_iff)

lemma set_parents_insert:
  "N r = Some n \<Longrightarrow> (set_parents R q N)(r \<mapsto> n\<lparr>nd_parent := q\<rparr>) = set_parents (insert r R) q N"
  by (auto simp: set_parents_def fun_eq_iff)

lemma node_fits_parent: "node_fits h n \<Longrightarrow> in_int q \<Longrightarrow> node_fits h (n\<lparr>nd_parent := q\<rparr>)"
  by (simp add: node_fits_def get_size_def)

lemma sim_maintain_child:
  assumes S: "ix_sim s0 M H P N s" and q: "q \<in># M" and n: "N q = Some n" "\<not> nd_is_leaf n" and i: "i < length (nd_kvs n)"
    and c: "rid_page_no (snd (nd_kvs n ! i)) = r" "N r = Some m" "node_fits (ih_hdr s) m" and room: "size M < bp_avail (ih_bpm s0)" and qi: "in_int q"
  obtains s' where "maintain_child (H q) i s = (Inr (), s')" "ix_sim s0 M H P (N(r \<mapsto> m\<lparr>nd_parent := q\<rparr>)) s'" "ih_hdr s' = ih_hdr s"
proof -
  have nd: "ix_node s (H q) = n" by (rule sim_node(1)[OF S q n(1)])
  have fit: "node_fits (ih_hdr s) (m\<lparr>nd_parent := q\<rparr>)" by (rule node_fits_parent[OF c(3) qi])
  obtain f s1 s2 s3 where t: "fetch_node r s = (Inr f, s1)" "ih_hdr s1 = ih_hdr s" "\<forall>q. q \<in># M \<longrightarrow> ix_page_no s1 (H q) = q"
    "\<forall>q m. q \<in># M \<longrightarrow> N q = Some m \<longrightarrow> ix_node s1 (H q) = m"
    "ix_set f (\<lambda>n. n\<lparr>nd_parent := q\<rparr>) s1 = (Inr (), s2)" "ix_unpin f True s2 = (Inr True, s3)" "ix_sim s0 M H P (N(r \<mapsto> m\<lparr>nd_parent := q\<rparr>)) s3"
    "ih_hdr s3 = ih_hdr s"
    by (rule sim_touch[where g = "\<lambda>n. n\<lparr>nd_parent := q\<rparr>", OF S c(2) room fit])
  have "maintain_child (H q) i s = (Inr (), s3)"
    using t(1,3,5,6) nd n(2) i c(1) q
    by (simp add: maintain_child_def em_defs ix_res_def value_at_def get_rid_def get_kv_def get_size_def)
  then show thesis using that t(7,8) by blast
qed

lemma sim_maintain_children:
  assumes "ix_sim s0 M H P N s" and "q \<in># M" and "N q = Some n" "\<not> nd_is_leaf n" and "\<forall>i \<in> set is. i < length (nd_kvs n)"
    and "\<forall>i \<in> set is. \<exists>m. N (rid_page_no (snd (nd_kvs n ! i))) = Some m \<and> node_fits (ih_hdr s) m"
    and "\<forall>i \<in> set is. rid_page_no (snd (nd_kvs n ! i)) \<noteq> q" and "size M < bp_avail (ih_bpm s0)" and "in_int q"
  shows "\<exists>s'. em_each (maintain_child (H q)) is s = (Inr (), s') \<and>
    ix_sim s0 M H P (set_parents ((\<lambda>i. rid_page_no (snd (nd_kvs n ! i))) ` set is) q N) s' \<and> ih_hdr s' = ih_hdr s"
  using assms
proof (induction "is" arbitrary: N s)
  case Nil
  then show ?case by (simp add: em_defs)
next
  case (Cons i is')
  let ?r = "\<lambda>i. rid_page_no (snd (nd_kvs n ! i))"
  obtain m where m: "N (?r i) = Some m" "node_fits (ih_hdr s) m" using Cons(7) by auto
  have il: "i < length (nd_kvs n)" using Cons(6) by simp
  obtain s1 where s1: "maintain_child (H q) i s = (Inr (), s1)" "ix_sim s0 M H P (N(?r i \<mapsto> m\<lparr>nd_parent := q\<rparr>)) s1" "ih_hdr s1 = ih_hdr s"
    by (rule sim_maintain_child[OF Cons(2,3,4,5) il refl m Cons(9,10)])
  let ?N = "N(?r i \<mapsto> m\<lparr>nd_parent := q\<rparr>)"
  have c: "\<forall>i \<in> set is'. i < length (nd_kvs n)" "\<forall>i \<in> set is'. ?r i \<noteq> q" using Cons(6,8) by auto
  have a: "?N q = Some n" using Cons(4,8) by simp
  have b: "\<forall>j \<in> set is'. \<exists>m. ?N (?r j) = Some m \<and> node_fits (ih_hdr s1) m"
    using Cons(7) m(2) node_fits_parent[OF m(2) Cons(10)] s1(3) by auto
  obtain s2 where s2: "em_each (maintain_child (H q)) is' s1 = (Inr (), s2)"
      "ix_sim s0 M H P (set_parents (?r ` set is') q ?N) s2" "ih_hdr s2 = ih_hdr s1"
    using Cons(1)[OF s1(2) Cons(3) a Cons(5) c(1) b c(2) Cons(9,10)] by blast
  have "set_parents (?r ` set is') q ?N = set_parents (?r ` set (i # is')) q N"
    using m(1) by (auto simp: set_parents_def fun_eq_iff)
  then show ?case using s1(1,3) s2 by (simp add: em_defs)
qed

section \<open>Splitting a node\<close>

lemma le_uint_zero: "le_uint (replicate k 0) = 0"
  by (induction k) simp_all

lemma dec_zero:
  "dec_IxNode h zero_page = \<lparr>next_free_page_no = 0, nd_parent = 0, nd_is_leaf = False, nd_prev_leaf = 0, nd_next_leaf = 0, nd_kvs = []\<rparr>"
proof -
  have "dec_int k zero_page = 0" for k
    by (simp add: dec_int_def get_bytes_def zero_page_def le_sint_def le_uint_zero Let_def)
  moreover have "zero_page ! 12 = 0" by (simp add: zero_page_def PAGE_SIZE_def)
  ultimately show ?thesis by (simp add: dec_IxNode_def Let_def)
qed

lemma node_fits_sub:
  assumes "node_fits h n" and "set kvs \<subseteq> set (nd_kvs n)" and "length kvs \<le> length (nd_kvs n)"
    and "in_int a" and "in_int b" and "in_int c" and "in_int d"
  shows "node_fits h \<lparr>next_free_page_no = a, nd_parent = b, nd_is_leaf = l, nd_prev_leaf = c, nd_next_leaf = d, nd_kvs = kvs\<rparr>"
  using assms by (auto simp: node_fits_def get_size_def)

lemma in_int_consts: "in_int 0" "in_int IX_NO_PAGE"
  by (simp_all add: in_int_def INT_MIN_def INT_MAX_def IX_NO_PAGE_def)

lemma in_int_page: "page_addressable p \<Longrightarrow> in_int p"
  by (simp add: page_addressable_def in_int_def INT_MIN_def INT_MAX_def PAGE_SIZE_def)

text \<open>The node behind the split has the upper half of the entries; \<open>pl\<close> and \<open>nl\<close> are its neighbours.\<close>

definition split_right :: "page_id_t \<Rightarrow> page_id_t \<Rightarrow> IxNode \<Rightarrow> IxNode" where
  "split_right pl nl n = \<lparr>next_free_page_no = IX_NO_PAGE, nd_parent = nd_parent n, nd_is_leaf = nd_is_leaf n, nd_prev_leaf = pl,
     nd_next_leaf = nl, nd_kvs = drop (get_size n div 2) (nd_kvs n)\<rparr>"

lemma split_right_fits: "node_fits h n \<Longrightarrow> in_int pl \<Longrightarrow> in_int nl \<Longrightarrow> node_fits h (split_right pl nl n)"
  unfolding split_right_def by (intro node_fits_sub[of h n]) (auto simp: node_fits_def in_int_consts dest: in_set_dropD)

text \<open>Creating the node and moving the entries.\<close>

lemma split_front:
  assumes S: "ix_sim s0 M H P N s" and p: "p \<in># M" "N p = Some n" "node_fits (ih_hdr s) n"
    and g: "can_grow s0 P" and room: "size M < bp_avail (ih_bpm s0)"
  obtains f s1 s2 s3 s4 where "create_node s = (Inr f, s1)" "ix_node s1 (H p) = n" "P \<noteq> p" "N P = None"
    "ix_set f (\<lambda>m. m\<lparr>nd_is_leaf := nd_is_leaf n, nd_parent := nd_parent n, nd_kvs := [], next_free_page_no := IX_NO_PAGE\<rparr>) s1 = (Inr (), s2)"
    "ix_upd f (\<lambda>h. insert_pairs h 0 (drop (get_size n div 2) (nd_kvs n))) s2 = (Inr (), s3)"
    "ix_set (H p) (set_size (get_size n div 2)) s3 = (Inr (), s4)"
    "ix_sim s0 (add_mset P M) (H(P := f)) (P + 1) (N(P \<mapsto> split_right 0 0 n, p \<mapsto> set_size (get_size n div 2) n)) s4"
    "ih_hdr s4 = (ih_hdr s)\<lparr>ix_num_pages := c_int (ix_num_pages (ih_hdr s) + 1)\<rparr>"
proof -
  let ?ms = "get_size n div 2" and ?h = "(ih_hdr s)\<lparr>ix_num_pages := c_int (ix_num_pages (ih_hdr s) + 1)\<rparr>"
  obtain f s1 where c: "create_node s = (Inr f, s1)" "N P = None"
      "ix_sim s0 (add_mset P M) (H(P := f)) (P + 1) (N(P \<mapsto> dec_IxNode (ih_hdr s) zero_page)) s1" "ih_hdr s1 = ?h"
    by (rule sim_create[OF S g room])
  have np: "P \<noteq> p" using c(2) p(2) by auto
  have pM: "P \<in># add_mset P M" "p \<in># add_mset P M" using p(1) by simp_all
  have lay: "same_layout (ih_hdr s) ?h" by (rule same_layoutI)
  have n1: "ix_node s1 (H p) = n" using sim_node(1)[OF c(3) pM(2), of n] np p(2) by simp
  let ?g = "\<lambda>m. m\<lparr>nd_is_leaf := nd_is_leaf n, nd_parent := nd_parent n, nd_kvs := [], next_free_page_no := IX_NO_PAGE\<rparr>"
  have f1: "node_fits (ih_hdr s1) (?g (dec_IxNode (ih_hdr s) zero_page))"
    unfolding c(4) same_layoutD(4)[OF lay] dec_zero
    using node_fits_sub[OF p(3), of "[]" IX_NO_PAGE "nd_parent n" 0 0 "nd_is_leaf n"] p(3) in_int_consts by (simp add: node_fits_def)
  obtain s2 where s2: "ix_set ((H(P := f)) P) ?g s1 = (Inr (), s2)"
      "ix_sim s0 (add_mset P M) (H(P := f)) (P + 1) ((N(P \<mapsto> dec_IxNode (ih_hdr s) zero_page))(P \<mapsto> ?g (dec_IxNode (ih_hdr s) zero_page))) s2"
      "ih_hdr s2 = ih_hdr s1"
    by (rule sim_set[where g = ?g, OF c(3) pM(1) fun_upd_same f1])
  note s2 = s2[unfolded fun_upd_same fun_upd_upd c(4)]
  have ins: "insert_pairs (ih_hdr s2) 0 (drop ?ms (nd_kvs n)) (?g (dec_IxNode (ih_hdr s) zero_page)) = Inr (split_right 0 0 n)"
    using p(3) unfolding s2(3) dec_zero insert_pairs_def same_layoutD(5)[OF lay] node_fits_def
    by (simp add: get_size_def split_right_def)
  have f2: "node_fits (ih_hdr s2) (split_right 0 0 n)"
    unfolding s2(3) same_layoutD(4)[OF lay] by (rule split_right_fits[OF p(3) in_int_consts(1) in_int_consts(1)])
  obtain s3 where s3: "ix_upd ((H(P := f)) P) (\<lambda>h. insert_pairs h 0 (drop ?ms (nd_kvs n))) s2 = (Inr (), s3)"
      "ix_sim s0 (add_mset P M) (H(P := f)) (P + 1) ((N(P \<mapsto> ?g (dec_IxNode (ih_hdr s) zero_page)))(P \<mapsto> split_right 0 0 n)) s3" "ih_hdr s3 = ih_hdr s2"
    by (rule sim_upd[where g = "\<lambda>h. insert_pairs h 0 (drop ?ms (nd_kvs n))", OF s2(2) pM(1) fun_upd_same ins f2])
  note s3 = s3[unfolded fun_upd_same fun_upd_upd s2(3)]
  have f3: "node_fits (ih_hdr s3) (set_size ?ms n)"
    unfolding s3(3) same_layoutD(4)[OF lay] using p(3) by (auto simp: node_fits_def set_size_def get_size_def dest: in_set_takeD)
  have np3: "(N(P \<mapsto> split_right 0 0 n)) p = Some n" "(H(P := f)) p = H p" using np p(2) by simp_all
  obtain s4 where s4: "ix_set ((H(P := f)) p) (set_size ?ms) s3 = (Inr (), s4)"
      "ix_sim s0 (add_mset P M) (H(P := f)) (P + 1) (N(P \<mapsto> split_right 0 0 n, p \<mapsto> set_size ?ms n)) s4" "ih_hdr s4 = ih_hdr s3"
    by (rule sim_set[where g = "set_size ?ms", OF s3(2) pM(2) np3(1) f3])
  show thesis by (rule that[OF c(1) n1 np c(2) s2(1) s3(1) s4[unfolded np3(2) s3(3)]])
qed

lemma set_size_sel: "nd_next_leaf (set_size k n) = nd_next_leaf n" "nd_is_leaf (set_size k n) = nd_is_leaf n"
  "nd_parent (set_size k n) = nd_parent n" "nd_kvs (set_size k n) = take k (nd_kvs n)"
  by (simp_all add: set_size_def)

lemma split_leaf:
  assumes S: "ix_sim s0 M H P N s" and p: "p \<in># M" "N p = Some n" "node_fits (ih_hdr s) n" and leaf: "nd_is_leaf n" and pi: "in_int p"
    and nx: "N (nd_next_leaf n) = Some m" "nd_next_leaf n \<noteq> p" "node_fits (ih_hdr s) m"
    and g: "can_grow s0 P" and room: "Suc (size M) < bp_avail (ih_bpm s0)"
  obtains f s' where "split_node (H p) s = (Inr f, s')" "P \<noteq> p" "N P = None"
    "ix_sim s0 (add_mset P M) (H(P := f)) (P + 1) (N(P \<mapsto> split_right p (nd_next_leaf n) n,
       nd_next_leaf n \<mapsto> m\<lparr>nd_prev_leaf := P\<rparr>, p \<mapsto> (set_size (get_size n div 2) n)\<lparr>nd_next_leaf := P\<rparr>)) s'"
    "ih_hdr s' = (ih_hdr s)\<lparr>ix_num_pages := c_int (ix_num_pages (ih_hdr s) + 1),
       last_leaf := (if last_leaf (ih_hdr s) = p then P else last_leaf (ih_hdr s))\<rparr>"
proof -
  let ?nx = "nd_next_leaf n" and ?ms = "get_size n div 2"
  let ?h = "(ih_hdr s)\<lparr>ix_num_pages := c_int (ix_num_pages (ih_hdr s) + 1)\<rparr>"
  have room': "size M < bp_avail (ih_bpm s0)" using room by simp
  obtain f s1 s2 s3 s4 where c: "create_node s = (Inr f, s1)" "ix_node s1 (H p) = n" "P \<noteq> p" "N P = None"
    "ix_set f (\<lambda>m. m\<lparr>nd_is_leaf := nd_is_leaf n, nd_parent := nd_parent n, nd_kvs := [], next_free_page_no := IX_NO_PAGE\<rparr>) s1 = (Inr (), s2)"
    "ix_upd f (\<lambda>h. insert_pairs h 0 (drop ?ms (nd_kvs n))) s2 = (Inr (), s3)" "ix_set (H p) (set_size ?ms) s3 = (Inr (), s4)"
    "ix_sim s0 (add_mset P M) (H(P := f)) (P + 1) (N(P \<mapsto> split_right 0 0 n, p \<mapsto> set_size ?ms n)) s4" "ih_hdr s4 = ?h"
    by (rule split_front[OF S p g room'])
  have lay: "same_layout (ih_hdr s) ?h" by (rule same_layoutI)
  have pM: "P \<in># add_mset P M" "p \<in># add_mset P M" using p(1) by simp_all
  have H: "(H(P := f)) P = f" "(H(P := f)) p = H p" using c(3) by simp_all
  let ?N4 = "N(P \<mapsto> split_right 0 0 n, p \<mapsto> set_size ?ms n)"
  have r4: "ix_page_no s4 (H p) = p" "ix_node s4 (H p) = set_size ?ms n"
    using sim_node[OF c(8) pM(2) fun_upd_same] unfolding H by simp_all
  have int: "in_int ?nx" "in_int P" using p(3) g by (simp_all add: node_fits_def can_grow_def in_int_page)
  let ?g5 = "\<lambda>m. m\<lparr>nd_prev_leaf := p, nd_next_leaf := ?nx\<rparr>"
  have n4: "?N4 P = Some (split_right 0 0 n)" using c(3) by simp
  have e5: "?g5 (split_right 0 0 n) = split_right p ?nx n" by (simp add: split_right_def)
  have f5: "node_fits (ih_hdr s4) (?g5 (split_right 0 0 n))"
    unfolding c(9) same_layoutD(4)[OF lay] e5 by (rule split_right_fits[OF p(3) pi int(1)])
  obtain s5 where s5: "ix_set ((H(P := f)) P) ?g5 s4 = (Inr (), s5)"
      "ix_sim s0 (add_mset P M) (H(P := f)) (P + 1) (?N4(P \<mapsto> ?g5 (split_right 0 0 n))) s5" "ih_hdr s5 = ih_hdr s4"
    by (rule sim_set[where g = ?g5, OF c(8) pM(1) n4 f5])
  note s5 = s5[unfolded H e5 c(9)]
  let ?N5 = "?N4(P \<mapsto> split_right p ?nx n)"
  have n5: "?N5 p = Some (set_size ?ms n)" "?N5 ?nx = Some m" using c(3,4) nx(1,2) by auto
  have r5: "ix_node s5 (H p) = set_size ?ms n" using sim_node(1)[OF s5(2) pM(2) n5(1)] unfolding H .
  let ?g8 = "\<lambda>m. m\<lparr>nd_prev_leaf := P\<rparr>"
  have f8: "node_fits (ih_hdr s5) (?g8 m)" unfolding s5(3) same_layoutD(4)[OF lay] using nx(3) int(2) by (simp add: node_fits_def get_size_def)
  have room5: "size (add_mset P M) < bp_avail (ih_bpm s0)" using room by simp
  obtain e s6 s7 s8 where t: "fetch_node ?nx s5 = (Inr e, s6)" "ih_hdr s6 = ih_hdr s5"
      "\<forall>q. q \<in># add_mset P M \<longrightarrow> ix_page_no s6 ((H(P := f)) q) = q" "\<forall>q m. q \<in># add_mset P M \<longrightarrow> ?N5 q = Some m \<longrightarrow> ix_node s6 ((H(P := f)) q) = m"
      "ix_set e ?g8 s6 = (Inr (), s7)" "ix_unpin e True s7 = (Inr True, s8)"
      "ix_sim s0 (add_mset P M) (H(P := f)) (P + 1) (?N5(?nx \<mapsto> ?g8 m)) s8" "ih_hdr s8 = ih_hdr s5"
    by (rule sim_touch[where g = ?g8, OF s5(2) n5(2) room5 f8])
  have r6: "ix_page_no s6 f = P" using t(3)[rule_format, OF pM(1)] unfolding H .
  let ?N8 = "?N5(?nx \<mapsto> ?g8 m)"
  have n8: "?N8 p = Some (set_size ?ms n)" using n5(1) nx(2) by simp
  have r8: "ix_page_no s8 f = P" "ix_page_no s8 (H p) = p"
    using sim_page[OF t(7) pM(1)] sim_page[OF t(7) pM(2)] unfolding H by simp_all
  let ?g9 = "\<lambda>m. m\<lparr>nd_next_leaf := P\<rparr>"
  have f9: "node_fits (ih_hdr s8) (?g9 (set_size ?ms n))"
    unfolding t(8) s5(3) same_layoutD(4)[OF lay] using p(3) int(2) by (auto simp: node_fits_def set_size_def get_size_def dest: in_set_takeD)
  obtain s9 where s9: "ix_set ((H(P := f)) p) ?g9 s8 = (Inr (), s9)"
      "ix_sim s0 (add_mset P M) (H(P := f)) (P + 1) (?N8(p \<mapsto> ?g9 (set_size ?ms n))) s9" "ih_hdr s9 = ih_hdr s8"
    by (rule sim_set[where g = ?g9, OF t(7) pM(2) n8 f9])
  note s9 = s9[unfolded H]
  let ?h10 = "?h\<lparr>last_leaf := (if last_leaf (ih_hdr s) = p then P else last_leaf (ih_hdr s))\<rparr>"
  let ?s10 = "s9\<lparr>ih_hdr := ?h10\<rparr>"
  have h9: "ih_hdr s9 = ?h" using s9(3) t(8) s5(3) by simp
  have e10: "?s10 = (if last_leaf (ih_hdr s) = p then s9\<lparr>ih_hdr := ?h\<lparr>last_leaf := P\<rparr>\<rparr> else s9)" using h9 by simp
  have sp: "split_node (H p) s = (Inr f, if last_leaf (ih_hdr s) = p then s9\<lparr>ih_hdr := ?h\<lparr>last_leaf := P\<rparr>\<rparr> else s9)"
    using c(1,2,5-7,9) r4 s5(1,3) r5 t(1,5,6,8) r6 r8 s9(1) h9 leaf
    by (simp add: split_node_def em_defs Let_def ix_hdr_def set_size_sel)
  have eq: "?N8(p \<mapsto> ?g9 (set_size ?ms n)) = N(P \<mapsto> split_right p ?nx n, ?nx \<mapsto> m\<lparr>nd_prev_leaf := P\<rparr>, p \<mapsto> (set_size ?ms n)\<lparr>nd_next_leaf := P\<rparr>)"
    using c(3) by (simp add: fun_eq_iff)
  have lay10: "same_layout (ih_hdr s9) ?h10" unfolding h9 by (rule same_layoutI)
  show thesis
  proof (rule that)
    show "split_node (H p) s = (Inr f, ?s10)" unfolding e10 by (rule sp)
    show "P \<noteq> p" "N P = None" by (rule c)+
    show "ix_sim s0 (add_mset P M) (H(P := f)) (P + 1) (N(P \<mapsto> split_right p ?nx n, ?nx \<mapsto> m\<lparr>nd_prev_leaf := P\<rparr>,
        p \<mapsto> (set_size ?ms n)\<lparr>nd_next_leaf := P\<rparr>)) ?s10"
      unfolding eq[symmetric] by (rule sim_hdr[OF s9(2) lay10])
    show "ih_hdr ?s10 = ?h10" by simp
  qed
qed

lemma image_nth_upt: "(\<lambda>i. f (xs ! i)) ` set [0..<length xs] = (\<lambda>x. f x) ` set xs"
proof -
  have "set xs = (\<lambda>i. xs ! i) ` set [0..<length xs]" by (metis list.set_map map_nth)
  then show ?thesis by (metis image_image)
qed

text \<open>Splitting an inner node moves children under the new node.\<close>

lemma split_inner:
  assumes S: "ix_sim s0 M H P N s" and p: "p \<in># M" "N p = Some n" "node_fits (ih_hdr s) n" and leaf: "\<not> nd_is_leaf n"
    and ch: "\<forall>kv \<in> set (nd_kvs n). \<exists>m. N (rid_page_no (snd kv)) = Some m \<and> node_fits (ih_hdr s) m \<and> rid_page_no (snd kv) \<noteq> p"
    and g: "can_grow s0 P" and room: "Suc (size M) < bp_avail (ih_bpm s0)"
  obtains f s' where "split_node (H p) s = (Inr f, s')" "P \<noteq> p" "N P = None"
    "ix_sim s0 (add_mset P M) (H(P := f)) (P + 1) (set_parents ((\<lambda>kv. rid_page_no (snd kv)) ` set (drop (get_size n div 2) (nd_kvs n))) P
       (N(P \<mapsto> split_right IX_NO_PAGE IX_NO_PAGE n, p \<mapsto> set_size (get_size n div 2) n))) s'"
    "ih_hdr s' = (ih_hdr s)\<lparr>ix_num_pages := c_int (ix_num_pages (ih_hdr s) + 1)\<rparr>"
proof -
  let ?ms = "get_size n div 2" and ?h = "(ih_hdr s)\<lparr>ix_num_pages := c_int (ix_num_pages (ih_hdr s) + 1)\<rparr>"
  have room': "size M < bp_avail (ih_bpm s0)" and room5: "size (add_mset P M) < bp_avail (ih_bpm s0)" using room by simp_all
  obtain f s1 s2 s3 s4 where c: "create_node s = (Inr f, s1)" "ix_node s1 (H p) = n" "P \<noteq> p" "N P = None"
    "ix_set f (\<lambda>m. m\<lparr>nd_is_leaf := nd_is_leaf n, nd_parent := nd_parent n, nd_kvs := [], next_free_page_no := IX_NO_PAGE\<rparr>) s1 = (Inr (), s2)"
    "ix_upd f (\<lambda>h. insert_pairs h 0 (drop ?ms (nd_kvs n))) s2 = (Inr (), s3)" "ix_set (H p) (set_size ?ms) s3 = (Inr (), s4)"
    "ix_sim s0 (add_mset P M) (H(P := f)) (P + 1) (N(P \<mapsto> split_right 0 0 n, p \<mapsto> set_size ?ms n)) s4" "ih_hdr s4 = ?h"
    by (rule split_front[OF S p g room'])
  have lay: "same_layout (ih_hdr s) ?h" by (rule same_layoutI)
  have pM: "P \<in># add_mset P M" "p \<in># add_mset P M" using p(1) by simp_all
  have H: "(H(P := f)) P = f" "(H(P := f)) p = H p" using c(3) by simp_all
  let ?N4 = "N(P \<mapsto> split_right 0 0 n, p \<mapsto> set_size ?ms n)"
  let ?g5 = "\<lambda>m. m\<lparr>nd_prev_leaf := IX_NO_PAGE, nd_next_leaf := IX_NO_PAGE\<rparr>" and ?r = "split_right IX_NO_PAGE IX_NO_PAGE n"
  have n4: "?N4 P = Some (split_right 0 0 n)" using c(3) by simp
  have e5: "?g5 (split_right 0 0 n) = ?r" by (simp add: split_right_def)
  have f5: "node_fits (ih_hdr s4) (?g5 (split_right 0 0 n))"
    unfolding c(9) same_layoutD(4)[OF lay] e5 by (rule split_right_fits[OF p(3) in_int_consts(2,2)])
  obtain s5 where s5: "ix_set ((H(P := f)) P) ?g5 s4 = (Inr (), s5)"
      "ix_sim s0 (add_mset P M) (H(P := f)) (P + 1) (?N4(P \<mapsto> ?g5 (split_right 0 0 n))) s5" "ih_hdr s5 = ih_hdr s4"
    by (rule sim_set[where g = ?g5, OF c(8) pM(1) n4 f5])
  note s5 = s5[unfolded H e5 c(9)]
  let ?N5 = "?N4(P \<mapsto> ?r)"
  have r5: "ix_node s5 f = ?r" using sim_node(1)[OF s5(2) pM(1) fun_upd_same] unfolding H .
  have kv: "nd_kvs ?r = drop ?ms (nd_kvs n)" "\<not> nd_is_leaf ?r" using leaf by (simp_all add: split_right_def)
  have c1: "\<forall>i \<in> set [0..<get_size ?r]. i < length (nd_kvs ?r)" by (simp add: get_size_def)
  have ch': "\<exists>m. ?N5 (rid_page_no (snd kv)) = Some m \<and> node_fits (ih_hdr s5) m \<and> rid_page_no (snd kv) \<noteq> P" if "kv \<in> set (nd_kvs ?r)" for kv
    using ch that kv(1) c(4) unfolding s5(3) same_layoutD(4)[OF lay] by (auto dest!: in_set_dropD)
  have c2: "\<forall>i \<in> set [0..<get_size ?r]. \<exists>m. ?N5 (rid_page_no (snd (nd_kvs ?r ! i))) = Some m \<and> node_fits (ih_hdr s5) m"
    using ch' c1 by (metis nth_mem)
  have c3: "\<forall>i \<in> set [0..<get_size ?r]. rid_page_no (snd (nd_kvs ?r ! i)) \<noteq> P" using ch' c1 by (metis nth_mem)
  have iP: "in_int P" using g by (simp add: can_grow_def in_int_page)
  have im: "(\<lambda>i. rid_page_no (snd (nd_kvs ?r ! i))) ` set [0..<get_size ?r] = (\<lambda>kv. rid_page_no (snd kv)) ` set (nd_kvs ?r)"
    unfolding get_size_def[of ?r] by (rule image_nth_upt)
  obtain s6 where s6: "em_each (maintain_child ((H(P := f)) P)) [0..<get_size ?r] s5 = (Inr (), s6)"
      "ix_sim s0 (add_mset P M) (H(P := f)) (P + 1) (set_parents ((\<lambda>kv. rid_page_no (snd kv)) ` set (nd_kvs ?r)) P ?N5) s6"
      "ih_hdr s6 = ih_hdr s5"
    using sim_maintain_children[OF s5(2) pM(1) fun_upd_same kv(2) c1 c2 c3 room5 iP] unfolding im by blast
  note s6 = s6[unfolded H s5(3)]
  have sp: "split_node (H p) s = (Inr f, s6)"
    using c(1,2,5-7) s5(1) r5 s6(1) leaf by (simp add: split_node_def em_defs Let_def)
  have eq: "?N5 = N(P \<mapsto> ?r, p \<mapsto> set_size ?ms n)" using c(3) by (simp add: fun_eq_iff)
  show thesis by (rule that[OF sp c(3,4) s6(2)[unfolded eq kv(1)] s6(3)])
qed

text \<open>A new root over two nodes.\<close>

definition root_node :: "IxNode \<Rightarrow> page_id_t \<Rightarrow> IxNode \<Rightarrow> page_id_t \<Rightarrow> IxNode" where
  "root_node a p b q = \<lparr>next_free_page_no = 0, nd_parent = IX_NO_PAGE, nd_is_leaf = False, nd_prev_leaf = IX_NO_PAGE,
     nd_next_leaf = IX_NO_PAGE, nd_kvs = [(fst (hd (nd_kvs a)), child_rid p), (fst (hd (nd_kvs b)), child_rid q)]\<rparr>"

lemma sim_new_root:
  assumes S: "ix_sim s0 M H P N s" and p: "p \<in># M" "N p = Some a" "node_fits (ih_hdr s) a" "nd_kvs a \<noteq> []"
    and q: "q \<in># M" "N q = Some b" "node_fits (ih_hdr s) b" "nd_kvs b \<noteq> []" and pq: "p \<noteq> q" and int: "in_int p" "in_int q"
    and g: "can_grow s0 P" and room: "size M < bp_avail (ih_bpm s0)" and ord: "2 < btree_order (ih_hdr s)"
  obtains s' where "new_root (H p) (H q) s = (Inr (), s')" "N P = None"
    "ix_sim s0 M H (P + 1) (N(p \<mapsto> a\<lparr>nd_parent := P\<rparr>, q \<mapsto> b\<lparr>nd_parent := P\<rparr>, P \<mapsto> root_node a p b q)) s'"
    "ih_hdr s' = (ih_hdr s)\<lparr>ix_num_pages := c_int (ix_num_pages (ih_hdr s) + 1), root_page := P\<rparr>"
proof -
  let ?h = "(ih_hdr s)\<lparr>ix_num_pages := c_int (ix_num_pages (ih_hdr s) + 1)\<rparr>"
  obtain f s1 where c: "create_node s = (Inr f, s1)" "N P = None"
      "ix_sim s0 (add_mset P M) (H(P := f)) (P + 1) (N(P \<mapsto> dec_IxNode (ih_hdr s) zero_page)) s1" "ih_hdr s1 = ?h"
    by (rule sim_create[OF S g room])
  have np: "P \<noteq> p" "P \<noteq> q" using c(2) p(2) q(2) by auto
  have M: "P \<in># add_mset P M" "p \<in># add_mset P M" "q \<in># add_mset P M" using p(1) q(1) by simp_all
  have H: "(H(P := f)) P = f" "(H(P := f)) p = H p" "(H(P := f)) q = H q" using np by simp_all
  have lay: "same_layout (ih_hdr s) ?h" by (rule same_layoutI)
  have iP: "in_int P" using g by (simp add: can_grow_def in_int_page)
  let ?z = "dec_IxNode (ih_hdr s) zero_page"
  let ?g2 = "\<lambda>m. m\<lparr>nd_is_leaf := False, nd_parent := IX_NO_PAGE, nd_kvs := [], nd_prev_leaf := IX_NO_PAGE, nd_next_leaf := IX_NO_PAGE\<rparr>"
  let ?r = "\<lambda>kvs. \<lparr>next_free_page_no = 0, nd_parent = IX_NO_PAGE, nd_is_leaf = False, nd_prev_leaf = IX_NO_PAGE, nd_next_leaf = IX_NO_PAGE, nd_kvs = kvs\<rparr>"
  let ?ka = "(fst (hd (nd_kvs a)), child_rid p)" and ?kb = "(fst (hd (nd_kvs b)), child_rid q)"
  have e2: "?g2 ?z = ?r []" by (simp add: dec_zero)
  have fr: "node_fits ?h (?r kvs)" if "set kvs \<subseteq> {?ka, ?kb}" "length kvs \<le> 2" for kvs
  proof -
    have "hd (nd_kvs a) \<in> set (nd_kvs a)" "hd (nd_kvs b) \<in> set (nd_kvs b)" using p(4) q(4) by simp_all
    then have "\<forall>kv \<in> {?ka, ?kb}. int (length (fst kv)) = ix_col_tot_len (ih_hdr s) \<and> rid_ok (snd kv)"
      using p(3) q(3) int by (auto simp: node_fits_def child_rid_def rid_ok_def in_int_def INT_MIN_def INT_MAX_def)
    then show ?thesis
      unfolding same_layoutD(4)[OF lay] using that p(3) ord in_int_consts
      by (auto simp: node_fits_def get_size_def get_max_size_def)
  qed
  have f2: "node_fits (ih_hdr s1) (?g2 ?z)" unfolding c(4) e2 by (rule fr) simp_all
  obtain s2 where s2: "ix_set ((H(P := f)) P) ?g2 s1 = (Inr (), s2)"
      "ix_sim s0 (add_mset P M) (H(P := f)) (P + 1) ((N(P \<mapsto> ?z))(P \<mapsto> ?g2 ?z)) s2" "ih_hdr s2 = ih_hdr s1"
    by (rule sim_set[where g = ?g2, OF c(3) M(1) fun_upd_same f2])
  note s2 = s2[unfolded H e2 fun_upd_upd c(4)]
  have pg2: "ix_page_no s2 f = P" using sim_page[OF s2(2) M(1)] unfolding H .
  let ?gp = "\<lambda>m. m\<lparr>nd_parent := P\<rparr>"
  have n2: "(N(P \<mapsto> ?r [])) p = Some a" using np p(2) by simp
  have f3: "node_fits (ih_hdr s2) (?gp a)" unfolding s2(3) same_layoutD(4)[OF lay] by (rule node_fits_parent[OF p(3) iP])
  obtain s3 where s3: "ix_set ((H(P := f)) p) ?gp s2 = (Inr (), s3)"
      "ix_sim s0 (add_mset P M) (H(P := f)) (P + 1) (N(P \<mapsto> ?r [], p \<mapsto> ?gp a)) s3" "ih_hdr s3 = ih_hdr s2"
    by (rule sim_set[where g = ?gp, OF s2(2) M(2) n2 f3])
  note s3 = s3[unfolded H s2(3)]
  have n3: "(N(P \<mapsto> ?r [], p \<mapsto> ?gp a)) q = Some b" using np pq q(2) by simp
  have f4: "node_fits (ih_hdr s3) (?gp b)" unfolding s3(3) same_layoutD(4)[OF lay] by (rule node_fits_parent[OF q(3) iP])
  obtain s4 where s4: "ix_set ((H(P := f)) q) ?gp s3 = (Inr (), s4)"
      "ix_sim s0 (add_mset P M) (H(P := f)) (P + 1) (N(P \<mapsto> ?r [], p \<mapsto> ?gp a, q \<mapsto> ?gp b)) s4" "ih_hdr s4 = ih_hdr s3"
    by (rule sim_set[where g = ?gp, OF s3(2) M(3) n3 f4])
  note s4 = s4[unfolded H s3(3)]
  let ?N4 = "N(P \<mapsto> ?r [], p \<mapsto> ?gp a, q \<mapsto> ?gp b)"
  have n4: "?N4 P = Some (?r [])" "?N4 p = Some (?gp a)" using np pq by simp_all
  have r4: "ix_node s4 (H p) = ?gp a" "ix_page_no s4 (H p) = p" using sim_node[OF s4(2) M(2) n4(2)] unfolding H by simp_all
  let ?g5 = "\<lambda>h m. rbind (get_key (?gp a) 0) (\<lambda>k. insert_pair h 0 k (child_rid p) m)"
  have mx: "2 < get_max_size ?h" using ord by (simp add: get_max_size_def)
  have g5: "?g5 (ih_hdr s4) (?r []) = Inr (?r [?ka])"
    unfolding s4(3) using mx p(4) by (simp add: get_key_def get_kv_def get_size_def insert_pair_def insert_pairs_def hd_conv_nth)
  have f5: "node_fits (ih_hdr s4) (?r [?ka])" unfolding s4(3) by (rule fr) simp_all
  obtain s5 where s5: "ix_upd ((H(P := f)) P) ?g5 s4 = (Inr (), s5)"
      "ix_sim s0 (add_mset P M) (H(P := f)) (P + 1) (?N4(P \<mapsto> ?r [?ka])) s5" "ih_hdr s5 = ih_hdr s4"
    by (rule sim_upd[where g = ?g5, OF s4(2) M(1) n4(1) g5 f5])
  note s5 = s5[unfolded H s4(3)]
  have n5: "(?N4(P \<mapsto> ?r [?ka])) q = Some (?gp b)" using np pq by simp
  have r5: "ix_node s5 (H q) = ?gp b" "ix_page_no s5 (H q) = q" using sim_node[OF s5(2) M(3) n5] unfolding H by simp_all
  let ?g6 = "\<lambda>h m. rbind (get_key (?gp b) 0) (\<lambda>k. insert_pair h 1 k (child_rid q) m)"
  have g6: "?g6 (ih_hdr s5) (?r [?ka]) = Inr (?r [?ka, ?kb])"
    unfolding s5(3) using mx q(4) by (simp add: get_key_def get_kv_def get_size_def insert_pair_def insert_pairs_def hd_conv_nth)
  have f6: "node_fits (ih_hdr s5) (?r [?ka, ?kb])" unfolding s5(3) by (rule fr) simp_all
  obtain s6 where s6: "ix_upd ((H(P := f)) P) ?g6 s5 = (Inr (), s6)"
      "ix_sim s0 (add_mset P M) (H(P := f)) (P + 1) ((?N4(P \<mapsto> ?r [?ka]))(P \<mapsto> ?r [?ka, ?kb])) s6" "ih_hdr s6 = ih_hdr s5"
    by (rule sim_upd[where g = ?g6, OF s5(2) M(1) fun_upd_same g6 f6])
  note s6 = s6[unfolded H fun_upd_upd s5(3)]
  have pg6: "ix_page_no s6 f = P" using sim_page[OF s6(2) M(1)] unfolding H .
  let ?s7 = "s6\<lparr>ih_hdr := ?h\<lparr>root_page := P\<rparr>\<rparr>"
  have lay7: "same_layout (ih_hdr s6) (?h\<lparr>root_page := P\<rparr>)" unfolding s6(3) by (rule same_layoutI)
  have S7: "ix_sim s0 (add_mset P M) (H(P := f)) (P + 1) (?N4(P \<mapsto> ?r [?ka, ?kb])) ?s7" by (rule sim_hdr[OF s6(2) lay7])
  obtain s8 where s8: "ix_unpin ((H(P := f)) P) True ?s7 = (Inr True, s8)"
      "ix_sim s0 M (H(P := f)) (P + 1) (?N4(P \<mapsto> ?r [?ka, ?kb])) s8" "ih_hdr s8 = ih_hdr ?s7"
    by (rule sim_unpin[OF S7])
  note s8 = s8[unfolded H]
  have PM: "P \<notin># M" by (rule sim_fresh[OF S])
  have S8: "ix_sim s0 M H (P + 1) (?N4(P \<mapsto> ?r [?ka, ?kb])) s8" by (rule sim_frames[OF s8(2)]) (use PM in auto)
  have eq: "?N4(P \<mapsto> ?r [?ka, ?kb]) = N(p \<mapsto> ?gp a, q \<mapsto> ?gp b, P \<mapsto> root_node a p b q)"
    using np by (simp add: fun_eq_iff root_node_def)
  have ex: "new_root (H p) (H q) s = (Inr (), s8)"
    using c(1) s2(1) pg2 s3(1) s4(1) r4 s5(1) r5 s6(1,3) pg6 s8(1)
    by (simp add: new_root_def em_defs update_root_page_no_def ix_hdr_def)
  have h8: "ih_hdr s8 = (ih_hdr s)\<lparr>ix_num_pages := c_int (ix_num_pages (ih_hdr s) + 1), root_page := P\<rparr>" using s8(3) by simp
  show thesis by (rule that[OF ex c(2) S8[unfolded eq] h8])
qed

end
