(* ===== verification/IxCtx.thy ===== *)
theory IxCtx
  imports IxUpdate "HOL-Library.Multiset"
begin

text \<open>
  B+ trees with a hole: the path from a node to the root, as \<^verbatim>\<open>insert_into_parent\<close> walks it. A step of the path is the page of an
  inner node with the children before the hole, the key of the hole and the children behind it, innermost first.
\<close>

type_synonym ctx = "(page_id_t \<times> (byte list \<times> bt) list \<times> byte list \<times> (byte list \<times> bt) list) list"

fun plug :: "ctx \<Rightarrow> bt \<Rightarrow> bt" where
  "plug [] t = t"
| "plug ((p, ls, k, rs) # c) t = plug c (Br p (ls @ (k, t) # rs))"

fun ctx_par :: "ctx \<Rightarrow> page_id_t" where
  "ctx_par [] = IX_NO_PAGE"
| "ctx_par ((p, ls, k, rs) # c) = p"

fun ctx_pages :: "ctx \<Rightarrow> page_id_t list" where
  "ctx_pages [] = []"
| "ctx_pages ((p, ls, k, rs) # c) = p # concat (map (\<lambda>x. bt_pages (snd x)) (ls @ rs)) @ ctx_pages c"

lemma plug_pages: "mset (bt_pages (plug c t)) = mset (ctx_pages c) + mset (bt_pages t)"
  by (induction c t rule: plug.induct) simp_all

lemma distinct_mset_append: "mset xs = mset ys + mset zs \<Longrightarrow> distinct xs \<longleftrightarrow> distinct (ys @ zs)"
  by (metis mset_append mset_eq_imp_distinct_iff)

lemma plug_distinct: "distinct (bt_pages (plug c t)) \<longleftrightarrow> distinct (ctx_pages c @ bt_pages t)"
  by (rule distinct_mset_append[OF plug_pages])

fun ctx_l :: "ctx \<Rightarrow> (page_id_t \<times> (byte list \<times> Rid) list) list" where
  "ctx_l [] = []"
| "ctx_l ((p, ls, k, rs) # c) = ctx_l c @ concat (map (\<lambda>x. bt_leaves (snd x)) ls)"

fun ctx_r :: "ctx \<Rightarrow> (page_id_t \<times> (byte list \<times> Rid) list) list" where
  "ctx_r [] = []"
| "ctx_r ((p, ls, k, rs) # c) = concat (map (\<lambda>x. bt_leaves (snd x)) rs) @ ctx_r c"

lemma plug_leaves: "bt_leaves (plug c t) = ctx_l c @ bt_leaves t @ ctx_r c"
  by (induction c t rule: plug.induct) simp_all

lemma plug_page: "bt_page (plug c t) = (if c = [] then bt_page t else fst (last c))"
  by (induction c t rule: plug.induct) auto

section \<open>Nodes\<close>

definition bt_at :: "IxFileHdr \<Rightarrow> (page_id_t \<Rightarrow> IxNode option) \<Rightarrow> page_id_t \<Rightarrow> bt \<Rightarrow> bool" where
  "bt_at h N par t \<longleftrightarrow> bt_rep N t \<and> bt_links h N par t"

abbreviation kv_page :: "byte list \<times> Rid \<Rightarrow> byte list \<times> page_id_t" where
  "kv_page kv \<equiv> (fst kv, rid_page_no (snd kv))"

abbreviation c_page :: "byte list \<times> bt \<Rightarrow> byte list \<times> page_id_t" where
  "c_page x \<equiv> (fst x, bt_page (snd x))"

definition inner_ok :: "IxFileHdr \<Rightarrow> page_id_t \<Rightarrow> (byte list \<times> page_id_t) list \<Rightarrow> IxNode \<Rightarrow> bool" where
  "inner_ok h par xs n \<longleftrightarrow> \<not> nd_is_leaf n \<and> map kv_page (nd_kvs n) = xs \<and> nd_parent n = par \<and> node_fits h n \<and>
     int (get_size n) < get_max_size h"

definition leaf_ok :: "IxFileHdr \<Rightarrow> page_id_t \<Rightarrow> (byte list \<times> Rid) list \<Rightarrow> IxNode \<Rightarrow> bool" where
  "leaf_ok h par kvs n \<longleftrightarrow> nd_is_leaf n \<and> nd_kvs n = kvs \<and> nd_parent n = par \<and> node_fits h n \<and> int (get_size n) < get_max_size h"

abbreviation child_ok :: "IxFileHdr \<Rightarrow> (page_id_t \<Rightarrow> IxNode option) \<Rightarrow> page_id_t \<Rightarrow> byte list \<times> bt \<Rightarrow> bool" where
  "child_ok h N p x \<equiv> bt_first (snd x) = Some (fst x) \<and> bt_at h N p (snd x)"

lemma bt_at_Lf: "bt_at h N par (Lf p kvs) \<longleftrightarrow> (\<exists>n. N p = Some n \<and> leaf_ok h par kvs n)"
  by (auto simp: bt_at_def leaf_ok_def split: option.splits)

lemma bt_at_Br:
  "bt_at h N par (Br p cs) \<longleftrightarrow> (\<exists>n. N p = Some n \<and> inner_ok h par (map c_page cs) n) \<and> p \<noteq> IX_NO_PAGE \<and> list_all (child_ok h N p) cs"
  by (auto simp: bt_at_def inner_ok_def list_all_iff split: option.splits)

lemma bt_at_cong: "(\<And>p. p \<in> set (bt_pages t) \<Longrightarrow> N' p = N p) \<Longrightarrow> bt_at h N' par t = bt_at h N par t"
  using bt_rep_cong[of t N' N] bt_links_cong[of t N' N] by (simp add: bt_at_def)

fun ctx_first :: "(byte list \<times> bt) list \<Rightarrow> byte list \<Rightarrow> byte list" where
  "ctx_first [] k = k"
| "ctx_first (x # xs) k = fst x"

lemma bt_first_mid: "bt_first (Br p (ls @ (k, t) # rs)) = Some (ctx_first ls k)"
  by (cases ls) simp_all

fun ctx_at :: "IxFileHdr \<Rightarrow> (page_id_t \<Rightarrow> IxNode option) \<Rightarrow> ctx \<Rightarrow> page_id_t \<Rightarrow> byte list option \<Rightarrow> bool" where
  "ctx_at h N [] q k' \<longleftrightarrow> True"
| "ctx_at h N ((p, ls, k, rs) # c) q k' \<longleftrightarrow> k' = Some k \<and>
     (\<exists>n. N p = Some n \<and> inner_ok h (ctx_par c) (map c_page ls @ (k, q) # map c_page rs) n) \<and> p \<noteq> IX_NO_PAGE \<and>
     list_all (child_ok h N p) ls \<and> list_all (child_ok h N p) rs \<and> ctx_at h N c p (Some (ctx_first ls k))"

lemma plug_at: "bt_at h N IX_NO_PAGE (plug c t) \<longleftrightarrow> ctx_at h N c (bt_page t) (bt_first t) \<and> bt_at h N (ctx_par c) t"
proof (induction c t rule: plug.induct)
  case (2 p ls k rs c t)
  then show ?case by (auto simp: bt_at_Br bt_first_mid simp del: bt_first.simps)
qed simp

lemma ctx_at_cong: "(\<And>p. p \<in> set (ctx_pages c) \<Longrightarrow> N' p = N p) \<Longrightarrow> ctx_at h N' c q k = ctx_at h N c q k"
proof (induction c arbitrary: q k)
  case (Cons x c)
  obtain p ls k1 rs where x: "x = (p, ls, k1, rs)" by (cases x) auto
  have ch: "bt_at h N' r (snd y) = bt_at h N r (snd y)" if "y \<in> set ls \<or> y \<in> set rs" for y r
    using Cons(2) that by (intro bt_at_cong) (auto simp: x)
  have "ctx_at h N' c q' k' = ctx_at h N c q' k'" for q' k' using Cons(1)[of q' k'] Cons(2) by (simp add: x)
  then show ?case using Cons(2)[of p] ch by (simp add: x list_all_iff)
qed simp

section \<open>Order\<close>

definition sep_lt :: "IxFileHdr \<Rightarrow> byte list \<times> bt \<Rightarrow> byte list \<times> bt \<Rightarrow> bool" where
  "sep_lt h x y \<longleftrightarrow> key_cmp h (fst x) (fst y) < 0 \<and> (\<forall>kv \<in> set (bt_kvs (snd x)). key_cmp h (fst kv) (fst y) < 0)"

definition sep_le :: "IxFileHdr \<Rightarrow> byte list \<times> bt \<Rightarrow> bool" where
  "sep_le h x \<longleftrightarrow> (\<forall>kv \<in> set (bt_kvs (snd x)). key_cmp h (fst x) (fst kv) \<le> 0)"

text \<open>Separation as a pairwise condition.\<close>

lemma bt_sep_pairwise:
  assumes "list_all (\<lambda>x. bt_ord h (snd x)) cs"
  shows "bt_sep h cs \<longleftrightarrow> cs \<noteq> [] \<and> (\<forall>x \<in> set cs. hkey h (fst x)) \<and> sorted_wrt (sep_lt h) cs \<and> (\<forall>x \<in> set (tl cs). sep_le h x)"
proof
  assume s: "bt_sep h cs"
  have a: "ixk.asc h cs" and ne: "cs \<noteq> []" using s by (simp_all add: bt_sep_def)
  have hk: "\<forall>x \<in> set cs. hkey h (fst x)" using a by (simp add: ixk.asc_def)
  have kk: "hkey h (fst kv)" if "i < length cs" "kv \<in> set (bt_kvs (snd (cs ! i)))" for i kv
    using assms that bt_ord_keys[of h "snd (cs ! i)" kv] by (simp add: list_all_length)
  have "sep_lt h (cs ! i) (cs ! j)" if ij: "i < j" "j < length cs" for i j
  proof -
    have l: "key_cmp h (fst (cs ! i)) (fst (cs ! j)) < 0" using asc_less[OF a ij] by simp
    moreover have "key_cmp h (fst kv) (fst (cs ! j)) < 0" if kv: "kv \<in> set (bt_kvs (snd (cs ! i)))" for kv
    proof -
      have n: "key_cmp h (fst kv) (fst (cs ! Suc i)) < 0" using s ij kv by (simp add: bt_sep_def)
      show ?thesis
      proof (cases "Suc i = j")
        case False
        then have "key_cmp h (fst (cs ! Suc i)) (fst (cs ! j)) < 0" "hkey h (fst (cs ! Suc i))" "hkey h (fst (cs ! j))"
          using asc_less[OF a, of "Suc i" j] ij by auto
        then show ?thesis using ixk.lt_le_trans[of h "fst kv" "fst (cs ! Suc i)" "fst (cs ! j)"] n kk[OF _ kv] ij by simp
      qed (use n in simp)
    qed
    ultimately show ?thesis by (simp add: sep_lt_def)
  qed
  moreover have "sep_le h x" if xt: "x \<in> set (tl cs)" for x
  proof -
    obtain i where "i < length (tl cs)" "x = tl cs ! i" using xt by (auto simp: in_set_conv_nth)
    then have "Suc i < length cs" "x = cs ! Suc i" by (auto simp: nth_tl)
    then show ?thesis using s by (auto simp: bt_sep_def sep_le_def)
  qed
  ultimately show "cs \<noteq> [] \<and> (\<forall>x \<in> set cs. hkey h (fst x)) \<and> sorted_wrt (sep_lt h) cs \<and> (\<forall>x \<in> set (tl cs). sep_le h x)"
    using ne hk by (simp add: sorted_wrt_iff_nth_less)
next
  assume r: "cs \<noteq> [] \<and> (\<forall>x \<in> set cs. hkey h (fst x)) \<and> sorted_wrt (sep_lt h) cs \<and> (\<forall>x \<in> set (tl cs). sep_le h x)"
  then have "ixk.asc h cs"
    by (auto simp: ixk.asc_def sep_lt_def elim: sorted_wrt_mono_rel[rotated])
  moreover have "key_cmp h (fst (cs ! i)) (fst kv) \<le> 0" if "i < length cs" "0 < i" "kv \<in> set (bt_kvs (snd (cs ! i)))" for i kv
  proof -
    have "cs ! i = tl cs ! (i - 1)" "i - 1 < length (tl cs)" using that r by (auto simp: nth_tl)
    then have "cs ! i \<in> set (tl cs)" by simp
    then show ?thesis using r that(3) by (auto simp: sep_le_def)
  qed
  moreover have "key_cmp h (fst kv) (fst (cs ! Suc i)) < 0" if "Suc i < length cs" "kv \<in> set (bt_kvs (snd (cs ! i)))" for i kv
  proof -
    have "sep_lt h (cs ! i) (cs ! Suc i)" using r that(1) unfolding sorted_wrt_iff_nth_less by blast
    then show ?thesis using that(2) by (simp add: sep_lt_def)
  qed
  ultimately show "bt_sep h cs" using r unfolding bt_sep_def by blast
qed

lemma bt_ord_Br:
  "bt_ord h (Br p cs) \<longleftrightarrow> list_all (\<lambda>x. bt_ord h (snd x)) cs \<and> cs \<noteq> [] \<and> (\<forall>x \<in> set cs. hkey h (fst x)) \<and>
     sorted_wrt (sep_lt h) cs \<and> (\<forall>x \<in> set (tl cs). sep_le h x)"
  using bt_sep_pairwise[of h cs] by auto

text \<open>The keys a hole may contain.\<close>

definition ctx_in :: "IxFileHdr \<Rightarrow> ctx \<Rightarrow> byte list \<Rightarrow> bool" where
  "ctx_in h c key \<longleftrightarrow> (\<forall>(p, ls, k, rs) \<in> set c. (ls \<noteq> [] \<longrightarrow> key_cmp h k key \<le> 0) \<and> (\<forall>x \<in> set rs. key_cmp h key (fst x) < 0))"

lemma ctx_in_simps [simp]: "ctx_in h [] key"
  "ctx_in h ((p, ls, k, rs) # c) key \<longleftrightarrow> (ls \<noteq> [] \<longrightarrow> key_cmp h k key \<le> 0) \<and> (\<forall>x \<in> set rs. key_cmp h key (fst x) < 0) \<and> ctx_in h c key"
  by (auto simp: ctx_in_def)

lemma bt_ord_hole:
  "bt_ord h (Br p (ls @ (k, t) # rs)) \<longleftrightarrow> bt_ord h (Br p (ls @ (k, Lf 0 []) # rs)) \<and> bt_ord h t \<and>
     (\<forall>kv \<in> set (bt_kvs t). (ls \<noteq> [] \<longrightarrow> key_cmp h k (fst kv) \<le> 0) \<and> (\<forall>x \<in> set rs. key_cmp h (fst kv) (fst x) < 0))"
  unfolding bt_ord_Br by (cases ls) (auto simp: sorted_wrt_append sep_lt_def sep_le_def ixk.asc_def)

lemma plug_ord:
  "bt_ord h (plug c t) \<longleftrightarrow> bt_ord h (plug c (Lf 0 [])) \<and> bt_ord h t \<and> (\<forall>kv \<in> set (bt_kvs t). ctx_in h c (fst kv))"
proof (induction c arbitrary: t)
  case (Cons x c)
  obtain p ls k rs where x: "x = (p, ls, k, rs)" by (cases x) auto
  show ?case
    unfolding x plug.simps
    by (subst (1 2) Cons) (use bt_ord_hole[of h p ls k t rs] in \<open>auto simp del: bt_ord.simps(2)\<close>)
qed (simp add: ixk.asc_def)

section \<open>A second subtree behind the hole\<close>

text \<open>\<open>t2\<close> with first key \<open>k2\<close> can stand behind \<open>t1\<close> where \<open>t1\<close> is.\<close>

definition fits_behind :: "IxFileHdr \<Rightarrow> ctx \<Rightarrow> bt \<Rightarrow> byte list \<Rightarrow> bt \<Rightarrow> bool" where
  "fits_behind h c t1 k2 t2 \<longleftrightarrow> bt_ord h (plug c t1) \<and> bt_ord h t2 \<and> hkey h k2 \<and> bt_kvs t2 \<noteq> [] \<and> fst (hd (bt_kvs t2)) = k2 \<and>
     bt_kvs t1 \<noteq> [] \<and> (\<forall>kv \<in> set (bt_kvs t1). key_cmp h (fst kv) k2 < 0) \<and> (\<forall>kv \<in> set (bt_kvs t2). key_cmp h k2 (fst kv) \<le> 0) \<and>
     (\<forall>kv \<in> set (bt_kvs t2). ctx_in h c (fst kv))"

lemma fits_behind_parent:
  assumes f: "fits_behind h ((p, ls, k, rs) # c) t1 k2 t2" and k: "fst (hd (bt_kvs t1)) = k"
  shows "bt_ord h (Br p (ls @ (k, t1) # (k2, t2) # rs))"
    and "\<forall>kv \<in> set (bt_kvs (Br p (ls @ (k, t1) # (k2, t2) # rs))). ctx_in h c (fst kv)" and "bt_ord h (plug c (Lf 0 []))"
proof -
  have o: "bt_ord h (plug c (Br p (ls @ (k, t1) # rs)))" using f by (simp add: fits_behind_def)
  have o1: "bt_ord h (Br p (ls @ (k, t1) # rs))" "\<forall>kv \<in> set (bt_kvs (Br p (ls @ (k, t1) # rs))). ctx_in h c (fst kv)" "bt_ord h (plug c (Lf 0 []))"
    using o plug_ord[of h c "Br p (ls @ (k, t1) # rs)"] by blast+
  have t1: "bt_kvs t1 \<noteq> []" "\<forall>kv \<in> set (bt_kvs t1). key_cmp h (fst kv) k2 < 0"
    and t2: "bt_ord h t2" "hkey h k2" "bt_kvs t2 \<noteq> []" "fst (hd (bt_kvs t2)) = k2" "\<forall>kv \<in> set (bt_kvs t2). key_cmp h k2 (fst kv) \<le> 0"
      "\<forall>kv \<in> set (bt_kvs t2). ctx_in h ((p, ls, k, rs) # c) (fst kv)"
    using f by (simp_all add: fits_behind_def)
  show "\<forall>kv \<in> set (bt_kvs (Br p (ls @ (k, t1) # (k2, t2) # rs))). ctx_in h c (fst kv)" using o1(2) t2(6) by auto
  show "bt_ord h (plug c (Lf 0 []))" by (rule o1(3))
  have sp: "list_all (\<lambda>x. bt_ord h (snd x)) (ls @ (k, t1) # rs)" "\<forall>x \<in> set (ls @ (k, t1) # rs). hkey h (fst x)"
      "sorted_wrt (sep_lt h) (ls @ (k, t1) # rs)" "\<forall>x \<in> set (tl (ls @ (k, t1) # rs)). sep_le h x"
    using o1(1) unfolding bt_ord_Br by blast+
  have kk2: "key_cmp h k k2 < 0" using t1 k hd_in_set[OF t1(1)] by auto
  have hk: "hkey h k" using sp(2) by simp
  have "sep_lt h x (k2, t2)" if x: "x \<in> set ls" for x
  proof -
    have l: "sep_lt h x (k, t1)" using sp(3) x by (simp add: sorted_wrt_append)
    have hx: "hkey h (fst x)" "bt_ord h (snd x)" using sp(1,2) x by (auto simp: list_all_iff)
    have "key_cmp h (fst kv) k2 < 0" if "kv \<in> set (bt_kvs (snd x))" for kv
      using ixk.lt_le_trans[OF bt_ord_keys[OF hx(2) that] hk t2(2)] l kk2 that by (auto simp: sep_lt_def)
    then show ?thesis using ixk.lt_le_trans[OF hx(1) hk t2(2)] l kk2 by (auto simp: sep_lt_def)
  qed
  moreover have "sep_lt h (k, t1) (k2, t2)" using kk2 t1(2) by (simp add: sep_lt_def)
  moreover have "sep_lt h (k2, t2) x" if "x \<in> set rs" for x
    using t2(3,4,6) that hd_in_set[OF t2(3)] by (auto simp: sep_lt_def)
  ultimately have "sorted_wrt (sep_lt h) (ls @ (k, t1) # (k2, t2) # rs)"
    using sp(3) by (auto simp: sorted_wrt_append)
  moreover have "sep_le h (k2, t2)" using t2(5) by (simp add: sep_le_def)
  then have "\<forall>x \<in> set (tl (ls @ (k, t1) # (k2, t2) # rs)). sep_le h x" using sp(4) by (cases ls) auto
  ultimately show "bt_ord h (Br p (ls @ (k, t1) # (k2, t2) # rs))"
    unfolding bt_ord_Br using sp(1,2) t2(1,2) by auto
qed

text \<open>Splitting the children of a node.\<close>

lemma fits_behind_split:
  assumes o: "bt_ord h (Br p cs)" and c: "\<forall>kv \<in> set (bt_kvs (Br p cs)). ctx_in h c (fst kv)" "bt_ord h (plug c (Lf 0 []))"
    and m: "0 < m" "m < length cs" and fk: "\<forall>x \<in> set cs. bt_kvs (snd x) \<noteq> [] \<and> fst (hd (bt_kvs (snd x))) = fst x"
  shows "fits_behind h c (Br p (take m cs)) (fst (cs ! m)) (Br q (drop m cs))"
proof -
  have sp: "list_all (\<lambda>x. bt_ord h (snd x)) cs" "\<forall>x \<in> set cs. hkey h (fst x)" "sorted_wrt (sep_lt h) cs" "\<forall>x \<in> set (tl cs). sep_le h x"
    using o unfolding bt_ord_Br by blast+
  have cs: "cs = take m cs @ drop m cs" by simp
  have dm: "drop m cs = cs ! m # drop (Suc m) cs" using m(2) by (simp add: Cons_nth_drop_Suc)
  have st: "sorted_wrt (sep_lt h) (take m cs @ drop m cs)" using sp(3) by simp
  have tl: "set (tl (take m cs)) \<subseteq> set (tl cs)" "set (drop m cs) \<subseteq> set (tl cs)"
    using m(1) by (cases cs; cases m; auto dest: in_set_takeD in_set_dropD)+
  have ne: "take m cs \<noteq> []" "drop m cs \<noteq> []" using m by auto
  have o1: "bt_ord h (Br p (take m cs))"
    unfolding bt_ord_Br using sp tl(1) ne st by (auto simp: list_all_iff sorted_wrt_append dest: in_set_takeD)
  have "set (tl (drop m cs)) \<subseteq> set (tl cs)" using tl(2) list.set_sel(2)[OF ne(2)] by blast
  then have "\<forall>x \<in> set (tl (drop m cs)). sep_le h x" using sp(4) by blast
  moreover have "sorted_wrt (sep_lt h) (drop m cs)" using st by (simp add: sorted_wrt_append)
  ultimately have o2: "bt_ord h (Br q (drop m cs))"
    unfolding bt_ord_Br using sp(1,2) ne(2) by (auto simp: list_all_iff dest: in_set_dropD)
  have k1: "\<forall>kv \<in> set (bt_kvs (Br p (take m cs))). ctx_in h c (fst kv)" using c(1) by (auto dest!: in_set_takeD)
  have op: "bt_ord h (plug c (Br p (take m cs)))" using plug_ord[of h c "Br p (take m cs)"] c(2) o1 k1 by blast
  have lt: "key_cmp h (fst kv) (fst (cs ! m)) < 0" if "x \<in> set (take m cs)" "kv \<in> set (bt_kvs (snd x))" for x kv
  proof -
    have "sep_lt h x (cs ! m)" using st that(1) unfolding dm by (simp add: sorted_wrt_append)
    then show ?thesis using that(2) by (simp add: sep_lt_def)
  qed
  have hm: "hkey h (fst (cs ! m))" using sp(2) m(2) by simp
  have ge: "key_cmp h (fst (cs ! m)) (fst kv) \<le> 0" if x: "x \<in> set (drop m cs)" "kv \<in> set (bt_kvs (snd x))" for x kv
  proof -
    have le: "key_cmp h (fst x) (fst kv) \<le> 0" using sp(4) tl(2) x by (auto simp: sep_le_def)
    have hx: "hkey h (fst x)" "bt_ord h (snd x)" using sp(1,2) x(1) by (auto simp: list_all_iff dest: in_set_dropD)
    have "key_cmp h (fst (cs ! m)) (fst x) \<le> 0"
    proof (cases "x = cs ! m")
      case True
      then show ?thesis using ixk.cmp_refl[OF hm] by simp
    next
      case False
      then have "x \<in> set (drop (Suc m) cs)" using x(1) unfolding dm by simp
      then have "sep_lt h (cs ! m) x" using st unfolding dm by (simp add: sorted_wrt_append)
      then show ?thesis by (simp add: sep_lt_def)
    qed
    then show ?thesis using ixk.cmp_trans[OF hm hx(1) bt_ord_keys[OF hx(2) x(2)]] le by blast
  qed
  have "hd (take m cs) \<in> set (take m cs)" by (rule hd_in_set[OF ne(1)])
  then have f1: "bt_kvs (Br p (take m cs)) \<noteq> []" using fk by (auto dest: in_set_takeD)
  have f2: "bt_kvs (Br q (drop m cs)) \<noteq> []" "fst (hd (bt_kvs (Br q (drop m cs)))) = fst (cs ! m)"
    using fk m(2) unfolding dm by simp_all
  show ?thesis
    unfolding fits_behind_def using op o2 hm f1 f2 lt ge c(1) by (auto dest!: in_set_dropD)
qed

section \<open>The path to a leaf\<close>

lemma plug_append: "plug (c1 @ c2) t = plug c2 (plug c1 t)"
  by (induction c1 t rule: plug.induct) simp_all

lemma leaf_path:
  "bt_ord h t \<Longrightarrow> hkey h key \<Longrightarrow>
   \<exists>c. t = plug c (Lf (fst (bt_leaf h key t)) (snd (bt_leaf h key t))) \<and> ctx_in h c key \<and> length c \<le> bt_height t"
proof (induction h key t rule: bt_leaf.induct)
  case (1 h key p kvs)
  show ?case by (intro exI[of _ "[]"]) simp
next
  case (2 h key p cs)
  let ?i = "child_idx h key cs"
  have sep: "bt_sep h cs" using 2(2) by simp
  note ib = child_idx_bounds[OF sep 2(3)]
  have o: "bt_ord h (snd (cs ! ?i))" using 2(2) ib(1) by (simp add: list_all_length)
  have l: "bt_leaf h key (Br p cs) = bt_leaf h key (snd (cs ! ?i))" using ib(1) by simp
  obtain c where c: "snd (cs ! ?i) = plug c (Lf (fst (bt_leaf h key (Br p cs))) (snd (bt_leaf h key (Br p cs))))" "ctx_in h c key"
      "length c \<le> bt_height (snd (cs ! ?i))"
    using 2(1)[OF ib(1) o 2(3)] unfolding l by blast
  let ?x = "(p, take ?i cs, fst (cs ! ?i), drop (Suc ?i) cs)"
  have "cs = take ?i cs @ (fst (cs ! ?i), snd (cs ! ?i)) # drop (Suc ?i) cs" using id_take_nth_drop[OF ib(1)] by simp
  then have "Br p cs = plug (c @ [?x]) (Lf (fst (bt_leaf h key (Br p cs))) (snd (bt_leaf h key (Br p cs))))"
    using c(1) by (simp add: plug_append)
  moreover have "ctx_in h (c @ [?x]) key"
  proof -
    have "key_cmp h key (fst x) < 0" if xd: "x \<in> set (drop (Suc ?i) cs)" for x
    proof -
      obtain j where j: "j < length cs - Suc ?i" "x = cs ! (Suc ?i + j)" using xd by (auto simp: in_set_conv_nth)
      have "hkey h (fst x)" using sep j by (simp add: bt_sep_def asc_nth)
      then show ?thesis using ib(3)[of "Suc ?i + j"] j ixk.cmp_pos[of h "fst x" key] 2(3) by simp
    qed
    then show ?thesis using c(2) ib(2) by (auto simp: ctx_in_def)
  qed
  moreover have "length (c @ [?x]) \<le> bt_height (Br p cs)" using c(3) bt_height_child[OF nth_mem[OF ib(1)], of p] by simp
  ultimately show ?case by blast
qed

end
