(* ===== verification/IxParent.thy ===== *)
theory IxParent
  imports IxSplit IxCtx
begin

text \<open>
  \<^verbatim>\<open>insert_into_parent\<close>: a second subtree behind a child of an inner node, with the splits it causes up to a new root.
\<close>

section \<open>Facts about nodes of trees\<close>

lemma bt_at_pages: "bt_at h N par t \<Longrightarrow> p \<in> set (bt_pages t) \<Longrightarrow> \<exists>n. N p = Some n"
proof (induction t arbitrary: par)
  case (Lf q kvs)
  then show ?case by (auto simp: bt_at_Lf)
next
  case (Br q cs)
  show ?case
  proof (cases "p = q")
    case True
    then show ?thesis using Br(2) by (auto simp: bt_at_Br)
  next
    case False
    then obtain x where x: "x \<in> set cs" "p \<in> set (bt_pages (snd x))" using Br(3) by auto
    then have "bt_at h N q (snd x)" using Br(2) by (auto simp: bt_at_Br list_all_iff)
    then show ?thesis using Br(1)[of x "snd x" q] x by (simp add: snds.simps)
  qed
qed

lemma ctx_at_pages: "ctx_at h N c q k \<Longrightarrow> p \<in> set (ctx_pages c) \<Longrightarrow> \<exists>n. N p = Some n"
proof (induction c arbitrary: q k)
  case (Cons x c)
  obtain r ls k1 rs where x: "x = (r, ls, k1, rs)" by (cases x) auto
  have ok: "list_all (child_ok h N r) ls" "list_all (child_ok h N r) rs" "ctx_at h N c r (Some (ctx_first ls k1))" "\<exists>n. N r = Some n"
    using Cons(2) by (auto simp: x)
  consider "p = r" | y where "y \<in> set ls \<or> y \<in> set rs" "p \<in> set (bt_pages (snd y))" | "p \<in> set (ctx_pages c)"
    using Cons(3) by (auto simp: x)
  then show ?case
  proof cases
    case (2 y)
    then have "bt_at h N r (snd y)" using ok(1,2) by (auto simp: list_all_iff)
    then show ?thesis using bt_at_pages 2(2) by blast
  qed (use ok(4) Cons(1)[OF ok(3)] in auto)
qed simp

lemma bt_at_node:
  assumes "bt_at h N par t"
  obtains n where "N (bt_page t) = Some n" "nd_parent n = par" "node_fits h n" "\<And>k. bt_first t = Some k \<Longrightarrow> nd_kvs n \<noteq> [] \<and> fst (hd (nd_kvs n)) = k"
proof (cases t)
  case (Lf p kvs)
  then obtain n where n: "N p = Some n" "leaf_ok h par kvs n" using assms by (auto simp: bt_at_Lf)
  show thesis by (rule that[of n]) (use n Lf in \<open>auto simp: leaf_ok_def split: list.splits\<close>)
next
  case (Br p cs)
  then obtain n where n: "N p = Some n" "inner_ok h par (map c_page cs) n" using assms by (auto simp: bt_at_Br)
  show thesis
  proof (rule that[of n])
    fix k assume "bt_first t = Some k"
    then obtain x xs where "cs = x # xs" "k = fst x" using Br by (auto split: list.splits)
    then show "nd_kvs n \<noteq> [] \<and> fst (hd (nd_kvs n)) = k" using n(2) by (cases "nd_kvs n") (auto simp: inner_ok_def)
  qed (use n Br in \<open>auto simp: inner_ok_def\<close>)
qed

text \<open>A subtree under another parent.\<close>

lemma bt_at_reparent:
  assumes "bt_at h N par t" and "distinct (bt_pages t)" and "N (bt_page t) = Some n" and "N' (bt_page t) = Some (n\<lparr>nd_parent := q\<rparr>)"
    and "\<And>p. p \<in> set (bt_pages t) \<Longrightarrow> p \<noteq> bt_page t \<Longrightarrow> N' p = N p" and "in_int q"
  shows "bt_at h N' q t"
proof (cases t)
  case (Lf p kvs)
  then show ?thesis using assms node_fits_parent[of h n q] by (auto simp: bt_at_Lf leaf_ok_def get_size_def)
next
  case (Br p cs)
  have "inner_ok h par (map c_page cs) n" "p \<noteq> IX_NO_PAGE" "list_all (child_ok h N p) cs" using assms(1,3) Br by (auto simp: bt_at_Br)
  moreover have "bt_at h N' p (snd x) = bt_at h N p (snd x)" if "x \<in> set cs" for x
    using assms(2,5) that Br bt_child_facts(2)[of p cs x] by (intro bt_at_cong) auto
  ultimately show ?thesis
    using Br assms(4,6) node_fits_parent[of h n q] by (auto simp: bt_at_Br inner_ok_def get_size_def list_all_iff)
qed

lemma sim_in_int: "ix_sim s0 M H P N s \<Longrightarrow> N p = Some n \<Longrightarrow> in_int p"
  using sim_less[of s0 M H P N s p n] by (auto simp: ix_view_def page_ok_def intro: in_int_page split: if_splits)

text \<open>Of a leaf only the parent changes.\<close>

definition leaves_kept :: "IxFileHdr \<Rightarrow> (page_id_t \<Rightarrow> IxNode option) \<Rightarrow> (page_id_t \<Rightarrow> IxNode option) \<Rightarrow> bool" where
  "leaves_kept h N N' \<longleftrightarrow> (\<forall>q n. N q = Some n \<and> nd_is_leaf n \<and> node_fits h n \<longrightarrow> (\<exists>r. in_int r \<and> N' q = Some (n\<lparr>nd_parent := r\<rparr>)))"

lemma leaves_kept_trans: "leaves_kept h N N1 \<Longrightarrow> leaves_kept h N1 N2 \<Longrightarrow> leaves_kept h N N2"
  unfolding leaves_kept_def
proof (intro allI impI)
  fix q n
  assume k: "\<forall>q n. N q = Some n \<and> nd_is_leaf n \<and> node_fits h n \<longrightarrow> (\<exists>r. in_int r \<and> N1 q = Some (n\<lparr>nd_parent := r\<rparr>))"
      "\<forall>q n. N1 q = Some n \<and> nd_is_leaf n \<and> node_fits h n \<longrightarrow> (\<exists>r. in_int r \<and> N2 q = Some (n\<lparr>nd_parent := r\<rparr>))"
    and n: "N q = Some n \<and> nd_is_leaf n \<and> node_fits h n"
  obtain r where r: "in_int r" "N1 q = Some (n\<lparr>nd_parent := r\<rparr>)" using k(1) n by blast
  moreover have "nd_is_leaf (n\<lparr>nd_parent := r\<rparr>)" "node_fits h (n\<lparr>nd_parent := r\<rparr>)" using n node_fits_parent[of h n r] r(1) by auto
  ultimately obtain r' where "in_int r'" "N2 q = Some (n\<lparr>nd_parent := r, nd_parent := r'\<rparr>)" using k(2) by blast
  then show "\<exists>r. in_int r \<and> N2 q = Some (n\<lparr>nd_parent := r\<rparr>)" by auto
qed

lemma leaves_kept_upd:
  assumes "\<And>q n. N q = Some n \<Longrightarrow> nd_is_leaf n \<Longrightarrow> node_fits h n \<Longrightarrow> N' q = N q \<or> (\<exists>r. in_int r \<and> N' q = Some (n\<lparr>nd_parent := r\<rparr>))"
  shows "leaves_kept h N N'"
  unfolding leaves_kept_def
proof (intro allI impI)
  fix q n assume n: "N q = Some n \<and> nd_is_leaf n \<and> node_fits h n"
  have e: "n = n\<lparr>nd_parent := nd_parent n\<rparr>" by simp
  have "in_int (nd_parent n)" using n by (simp add: node_fits_def)
  then show "\<exists>r. in_int r \<and> N' q = Some (n\<lparr>nd_parent := r\<rparr>)" using assms[of q n] n e by metis
qed

section \<open>Inserting a child\<close>

lemma splits_unique:
  assumes "ixk.splits h kvs k p" and "j \<le> length kvs" and "\<And>i. i < j \<Longrightarrow> key_cmp h (fst (kvs ! i)) k < 0"
    and "\<And>i. j \<le> i \<Longrightarrow> i < length kvs \<Longrightarrow> 0 \<le> key_cmp h (fst (kvs ! i)) k"
  shows "p = j"
proof (rule ccontr)
  assume "p \<noteq> j"
  then consider "p < j" | "j < p" by linarith
  then show False
  proof cases
    case 1
    then show False using assms(1) assms(3)[of p] assms(2) by (fastforce simp: ixk.splits_def)
  next
    case 2
    then show False using assms(1) assms(4)[of j] by (fastforce simp: ixk.splits_def)
  qed
qed

lemma insert_child:
  assumes ok: "inner_ok h par (map c_page ls @ (k, q) # map c_page rs) n"
    and o: "bt_ord h (Br p (ls @ (k, t1) # (k2, t2) # rs))" and q2: "q2 = bt_page t2" "in_int q2" "int (length k2) = ix_col_tot_len h"
  obtains n' where "nd_insert h k2 (child_rid q2) n = Inr n'" "map kv_page (nd_kvs n') = map c_page ls @ (k, q) # (k2, q2) # map c_page rs"
    "nd_is_leaf n' = nd_is_leaf n" "nd_parent n' = nd_parent n" "node_fits h n'" "get_size n' = Suc (get_size n)"
proof -
  let ?j = "Suc (length ls)" and ?xs = "map c_page ls @ (k, q) # map c_page rs"
  have m: "map kv_page (nd_kvs n) = ?xs" and fit: "node_fits h n" and sz: "int (get_size n) < get_max_size h" using ok by (simp_all add: inner_ok_def)
  have len: "length (nd_kvs n) = Suc (length ls + length rs)" using arg_cong[OF m, of length] by simp
  have key: "fst (nd_kvs n ! i) = fst (?xs ! i)" if "i < length (nd_kvs n)" for i
    using arg_cong[OF m, of "\<lambda>xs. fst (xs ! i)"] that by simp
  have sp: "\<forall>x \<in> set (ls @ (k, t1) # (k2, t2) # rs). hkey h (fst x)" "sorted_wrt (sep_lt h) (ls @ (k, t1) # (k2, t2) # rs)"
    using o unfolding bt_ord_Br by blast+
  have hk: "hkey h k2" "hkey h k" using sp(1) by simp_all
  have "sorted_wrt (\<lambda>x y. key_cmp h (fst x) (fst y) < 0) ?xs"
    using sp(2) by (auto simp: sorted_wrt_append sep_lt_def sorted_wrt_map elim!: sorted_wrt_mono_rel[rotated])
  moreover have "\<forall>x \<in> set ?xs. hkey h (fst x)" using sp(1) by fastforce
  ultimately have srt: "sorted_wrt (\<lambda>x y. key_cmp h (fst x) (fst y) < 0) ?xs \<and> (\<forall>x \<in> set ?xs. hkey h (fst x))" by blast
  have "sorted_wrt (\<lambda>x y. key_cmp h (fst x) (fst y) < 0) (map kv_page (nd_kvs n)) \<and> (\<forall>x \<in> set (map kv_page (nd_kvs n)). hkey h (fst x))"
    using srt unfolding m .
  then have ns: "node_sorted h n" by (auto simp: node_sorted_def sorted_wrt_map)
  have lo: "key_cmp h (fst (nd_kvs n ! i)) k2 < 0" if "i < ?j" for i
  proof -
    have "?xs ! i \<in> set (map c_page ls @ [(k, q)])" using that by (auto simp: nth_append less_Suc_eq)
    then show ?thesis using key[of i] that len sp(2) by (auto simp: sorted_wrt_append sep_lt_def)
  qed
  have hi: "0 < key_cmp h (fst (nd_kvs n ! i)) k2" if "?j \<le> i" "i < length (nd_kvs n)" for i
  proof -
    have "?xs ! i = map c_page rs ! (i - ?j)" "i - ?j < length rs" using that len by (auto simp: nth_append nth_Cons')
    then have e: "fst (nd_kvs n ! i) = fst (rs ! (i - ?j))" "rs ! (i - ?j) \<in> set rs" using key[OF that(2)] by auto
    then have "key_cmp h k2 (fst (rs ! (i - ?j))) < 0" using sp(2) by (auto simp: sorted_wrt_append sep_lt_def)
    then show ?thesis using e ixk.cmp_pos[of h "fst (rs ! (i - ?j))" k2] hk(1) sp(1) by auto
  qed
  have nf: "node_map h n k2 = None"
  proof -
    have "key_cmp h (fst (nd_kvs n ! i)) k2 \<noteq> 0" if "i < length (nd_kvs n)" for i using lo[of i] hi[of i] that by (cases "i < ?j") auto
    then show ?thesis unfolding node_find ixk.kv_find_None by (metis in_set_conv_nth)
  qed
  obtain n' p' where n': "nd_insert h k2 (child_rid q2) n = Inr n'" "get_size n' = Suc (get_size n)"
      "n' = n\<lparr>nd_kvs := take p' (nd_kvs n) @ (k2, child_rid q2) # drop p' (nd_kvs n)\<rparr>" "ixk.splits h (nd_kvs n) k2 p'"
    using nd_insert_new[OF ns hk(1) nf sz, of "child_rid q2"] by blast
  have p': "p' = ?j" by (rule splits_unique[OF n'(4)]) (use lo hi len in \<open>auto intro: less_imp_le\<close>)
  have mp: "map kv_page (nd_kvs n') = map c_page ls @ (k, q) # (k2, q2) # map c_page rs"
    using n'(3) m p' by (simp add: take_map[symmetric] drop_map[symmetric] child_rid_def)
  have rid: "rid_ok (child_rid q2)" using q2(2) by (simp add: rid_ok_def child_rid_def in_int_def INT_MIN_def INT_MAX_def)
  have "node_fits h n'" using fit sz n'(2,3) rid q2(3) by (auto simp: node_fits_def dest: in_set_takeD in_set_dropD)
  then show thesis using that[of n'] n' mp by simp
qed

text \<open>The parent with the second subtree.\<close>

lemma child_step:
  assumes at: "bt_at h N IX_NO_PAGE (plug ((p, ls, k, rs) # c) t1)" and at2: "bt_at h N p t2" and f2: "bt_first t2 = Some k2"
    and d: "distinct (ctx_pages ((p, ls, k, rs) # c) @ bt_pages t1 @ bt_pages t2)"
  defines "cs \<equiv> ls @ (k, t1) # (k2, t2) # rs"
  shows "list_all (child_ok h (N(p \<mapsto> n')) p) cs" and "ctx_at h (N(p \<mapsto> n')) c p (Some (ctx_first ls k))" and "bt_first t1 = Some k"
    and "distinct (bt_pages (Br p cs) @ ctx_pages c)"
    and "\<exists>n. N p = Some n \<and> inner_ok h (ctx_par c) (map c_page ls @ (k, bt_page t1) # map c_page rs) n" and "p \<noteq> IX_NO_PAGE"
proof -
  have c: "ctx_at h N ((p, ls, k, rs) # c) (bt_page t1) (bt_first t1)" "bt_at h N p t1"
    using at plug_at[of h N "(p, ls, k, rs) # c" t1] by simp_all
  then have c': "bt_first t1 = Some k" "list_all (child_ok h N p) ls" "list_all (child_ok h N p) rs" "ctx_at h N c p (Some (ctx_first ls k))" by simp_all
  show "bt_first t1 = Some k" by (rule c')
  show "\<exists>n. N p = Some n \<and> inner_ok h (ctx_par c) (map c_page ls @ (k, bt_page t1) # map c_page rs) n" "p \<noteq> IX_NO_PAGE" using c(1) by simp_all
  have "mset (ctx_pages ((p, ls, k, rs) # c) @ bt_pages t1 @ bt_pages t2) = mset (bt_pages (Br p cs) @ ctx_pages c)"
    by (simp add: cs_def ac_simps)
  then show d': "distinct (bt_pages (Br p cs) @ ctx_pages c)" using d mset_eq_imp_distinct_iff by blast
  then have np: "p \<notin> set (ctx_pages c)" "\<And>x. x \<in> set cs \<Longrightarrow> p \<notin> set (bt_pages (snd x))" by auto
  have "ctx_at h (N(p \<mapsto> n')) c p (Some (ctx_first ls k)) = ctx_at h N c p (Some (ctx_first ls k))"
    by (rule ctx_at_cong) (use np(1) in auto)
  then show "ctx_at h (N(p \<mapsto> n')) c p (Some (ctx_first ls k))" using c'(4) by blast
  have "bt_at h (N(p \<mapsto> n')) p (snd x) = bt_at h N p (snd x)" if "x \<in> set cs" for x
    by (rule bt_at_cong) (use np(2)[OF that] in auto)
  moreover have "list_all (child_ok h N p) cs" using c' c(2) at2 f2 by (simp add: cs_def)
  ultimately show "list_all (child_ok h (N(p \<mapsto> n')) p) cs" by (auto simp: list_all_iff)
qed

lemma pages_same_child:
  assumes "distinct (bt_pages (Br p cs))" and "x \<in> set cs" and "y \<in> set cs" and "r \<in> set (bt_pages (snd x))" and "r \<in> set (bt_pages (snd y))"
  shows "x = y"
proof -
  obtain i j where "i < length cs" "x = cs ! i" "j < length cs" "y = cs ! j" using assms(2,3) by (auto simp: in_set_conv_nth)
  then show ?thesis using bt_pages_disjoint[OF assms(1), of i j r] assms(4,5) by (cases "i = j") auto
qed

text \<open>The parent after its own split.\<close>

lemma split_step:
  assumes ch: "list_all (child_ok h N p) cs" and cx: "ctx_at h N c p (Some fk)" "bt_first (Br p cs) = Some fk" and n: "N p = Some n"
    "map kv_page (nd_kvs n) = map c_page cs" "nd_parent n = ctx_par c" "node_fits h n" "\<not> nd_is_leaf n" "p \<noteq> IX_NO_PAGE"
    and m: "m = get_size n div 2" "0 < m" "m < length cs" and P: "N P = None" "in_int P" "P \<noteq> IX_NO_PAGE"
    and d: "distinct (bt_pages (Br p cs) @ ctx_pages c)"
  defines "N' \<equiv> set_parents ((\<lambda>kv. rid_page_no (snd kv)) ` set (drop m (nd_kvs n))) P
       (N(P \<mapsto> split_right IX_NO_PAGE IX_NO_PAGE n, p \<mapsto> set_size m n))"
  shows "bt_at h N' IX_NO_PAGE (plug c (Br p (take m cs)))" and "bt_at h N' (ctx_par c) (Br P (drop m cs))"
    and "distinct (ctx_pages c @ bt_pages (Br p (take m cs)) @ bt_pages (Br P (drop m cs)))"
proof -
  have R: "(\<lambda>kv. rid_page_no (snd kv)) ` set (drop m (nd_kvs n)) = (\<lambda>x. bt_page (snd x)) ` set (drop m cs)"
  proof -
    have "map kv_page (drop m (nd_kvs n)) = map c_page (drop m cs)" using n(2) by (simp add: drop_map[symmetric])
    then have "map snd (map kv_page (drop m (nd_kvs n))) = map snd (map c_page (drop m cs))" by simp
    then show ?thesis by (metis (mono_tags, lifting) list.map_comp list.set_map map_eq_conv comp_def snd_conv)
  qed
  have len: "get_size n = length cs" using arg_cong[OF n(2), of length] by (simp add: get_size_def)
  have pages: "\<exists>n. N r = Some n" if "r \<in> set (bt_pages (Br p cs)) \<or> r \<in> set (ctx_pages c)" for r
    using that ch n(1) cx(1) bt_at_pages[of h N p] ctx_at_pages[OF cx(1)] by (fastforce simp: list_all_iff)
  have Pf: "P \<notin> set (bt_pages (Br p cs))" "P \<notin> set (ctx_pages c)" using pages[of P] P(1) by auto
  have d1: "distinct (bt_pages (Br p cs))" "set (bt_pages (Br p cs)) \<inter> set (ctx_pages c) = {}" using d by auto
  have cs: "concat (map (\<lambda>x. bt_pages (snd x)) cs) =
      concat (map (\<lambda>x. bt_pages (snd x)) (take m cs)) @ concat (map (\<lambda>x. bt_pages (snd x)) (drop m cs))"
    by (metis append_take_drop_id concat_append map_append)
  show "distinct (ctx_pages c @ bt_pages (Br p (take m cs)) @ bt_pages (Br P (drop m cs)))"
    using d Pf unfolding distinct_append bt_pages.simps cs by auto
  let ?R = "(\<lambda>x. bt_page (snd x)) ` set (drop m cs)"
  have Rp: "?R \<subseteq> set (concat (map (\<lambda>x. bt_pages (snd x)) (drop m cs)))"
    by (auto intro!: bexI[of _ "(_, _)"] bt_page_in_pages)
  define T where "T = set (concat (map (\<lambda>x. bt_pages (snd x)) (take m cs)))"
  define D where "D = set (concat (map (\<lambda>x. bt_pages (snd x)) (drop m cs)))"
  have TD: "T \<inter> D = {}" "p \<notin> T" "p \<notin> D" and all: "set (bt_pages (Br p cs)) = insert p (T \<union> D)"
    using d1(1) unfolding bt_pages.simps cs T_def D_def by auto
  note Rp = Rp[folded D_def]
  have PT: "P \<noteq> p" "P \<notin> T" "P \<notin> D" using Pf(1) unfolding all by auto
  have pR: "p \<notin> ?R" "P \<notin> ?R" using Rp TD PT by blast+
  have N': "N' r = N r" if "r \<noteq> p" "r \<noteq> P" "r \<notin> ?R" for r
    using that unfolding N'_def R by (simp add: set_parents_def)
  have N'p: "N' p = Some (set_size m n)" "N' P = Some (split_right IX_NO_PAGE IX_NO_PAGE n)"
    using pR Pf n(1) P(1) unfolding N'_def R by (auto simp: set_parents_def)
  have bt1: "bt_at h N' (ctx_par c) (Br p (take m cs))"
    unfolding bt_at_Br
  proof (intro conjI)
    have "inner_ok h (ctx_par c) (map c_page (take m cs)) (set_size m n)"
      using n m len by (auto simp: inner_ok_def set_size_def get_size_def take_map[symmetric] node_fits_def dest: in_set_takeD)
    then show "\<exists>n. N' p = Some n \<and> inner_ok h (ctx_par c) (map c_page (take m cs)) n" using N'p(1) by blast
    have "bt_at h N' p (snd x) = bt_at h N p (snd x)" if x: "x \<in> set (take m cs)" for x
    proof (rule bt_at_cong)
      fix r assume r: "r \<in> set (bt_pages (snd x))"
      then have "r \<in> T" using x unfolding T_def by auto
      then have "r \<notin> ?R" "r \<noteq> p" "r \<noteq> P" using Rp TD PT by blast+
      then show "N' r = N r" using N' by blast
    qed
    then show "list_all (child_ok h N' p) (take m cs)" using ch by (auto simp: list_all_iff dest: in_set_takeD)
  qed (rule n(6))
  have fst1: "bt_first (Br p (take m cs)) = Some fk" using cx(2) m(2) by (cases cs; cases m) auto
  have "ctx_at h N' c p (Some fk) = ctx_at h N c p (Some fk)"
  proof (rule ctx_at_cong)
    fix r assume r: "r \<in> set (ctx_pages c)"
    then have "r \<notin> set (bt_pages (Br p cs))" "r \<noteq> P" using d1(2) Pf(2) by auto
    then show "N' r = N r" using N'[of r] Rp unfolding all by blast
  qed
  then show "bt_at h N' IX_NO_PAGE (plug c (Br p (take m cs)))"
    using plug_at[of h N' c "Br p (take m cs)"] bt1 cx(1) fst1 by simp
  show "bt_at h N' (ctx_par c) (Br P (drop m cs))"
    unfolding bt_at_Br
  proof (intro conjI)
    have "map kv_page (nd_kvs (split_right IX_NO_PAGE IX_NO_PAGE n)) = map c_page (drop m cs)"
      using n(2) m(1) by (simp add: split_right_def drop_map[symmetric])
    moreover have "node_fits h (split_right IX_NO_PAGE IX_NO_PAGE n)" by (rule split_right_fits[OF n(4) in_int_consts(2,2)])
    moreover have "int (get_size (split_right IX_NO_PAGE IX_NO_PAGE n)) < get_max_size h"
      using n(4) m by (simp add: split_right_def get_size_def node_fits_def)
    ultimately have "inner_ok h (ctx_par c) (map c_page (drop m cs)) (split_right IX_NO_PAGE IX_NO_PAGE n)"
      using n(3,5) by (simp add: inner_ok_def split_right_def)
    then show "\<exists>n. N' P = Some n \<and> inner_ok h (ctx_par c) (map c_page (drop m cs)) n" using N'p(2) by blast
    have "bt_at h N' P (snd x)" if x: "x \<in> set (drop m cs)" for x
    proof -
      have xc: "x \<in> set cs" using x by (rule in_set_dropD)
      then have bx: "bt_at h N p (snd x)" using ch by (auto simp: list_all_iff)
      then obtain k where k: "N (bt_page (snd x)) = Some k" using bt_at_pages bt_page_in_pages by blast
      have own: "r \<noteq> p" "r \<noteq> P" if "r \<in> set (bt_pages (snd x))" for r using that xc d1(1) Pf(1) by auto
      have px: "bt_page (snd x) \<in> set (bt_pages (snd x))" by (rule bt_page_in_pages)
      have rp: "N' (bt_page (snd x)) = Some (k\<lparr>nd_parent := P\<rparr>)"
        using own[OF px] k x unfolding N'_def R by (auto simp: set_parents_def)
      show ?thesis
      proof (rule bt_at_reparent[where N' = N', OF bx bt_child_facts(1)[OF d1(1) xc] k rp _ P(2)])
        fix r assume r: "r \<in> set (bt_pages (snd x))" "r \<noteq> bt_page (snd x)"
        have "r \<notin> ?R"
        proof
          assume "r \<in> ?R"
          then obtain y where y: "y \<in> set (drop m cs)" "r = bt_page (snd y)" by auto
          then have "y = x" using pages_same_child[OF d1(1) in_set_dropD[OF y(1)] xc, of r] bt_page_in_pages[of "snd y"] r(1) by simp
          then show False using r(2) y(2) by simp
        qed
        then show "N' r = N r" using N' own[OF r(1)] by blast
      qed
    qed
    then show "list_all (child_ok h N' P) (drop m cs)" using ch by (auto simp: list_all_iff dest: in_set_dropD)
  qed (rule P(3))
qed

section \<open>Up to the root\<close>

text \<open>What an insertion of a subtree leaves behind: a tree with the leaves \<open>L\<close> and the last leaf \<open>ll\<close>; \<open>h\<close> is the layout.\<close>

definition grown :: "IxState \<Rightarrow> page_id_t multiset \<Rightarrow> (page_id_t \<Rightarrow> frame_id_t) \<Rightarrow> IxFileHdr \<Rightarrow> page_id_t \<Rightarrow> (page_id_t \<Rightarrow> IxNode option) \<Rightarrow>
    (page_id_t \<times> (byte list \<times> Rid) list) list \<Rightarrow> IxState \<Rightarrow> bool" where
  "grown s0 M H h ll N L s' \<longleftrightarrow> (\<exists>P' N' t. ix_sim s0 M H P' N' s' \<and> bt_at h N' IX_NO_PAGE t \<and> distinct (bt_pages t) \<and>
     bt_ord h t \<and> bt_leaves t = L \<and> same_layout h (ih_hdr s') \<and> last_leaf (ih_hdr s') = ll \<and>
     root_page (ih_hdr s') = bt_page t \<and> bt_page t \<noteq> IX_NO_PAGE \<and> leaves_kept h N N')"

lemma grown_unpin:
  assumes "grown s0 (add_mset q M) H h ll N L s"
  obtains s' where "ix_unpin (H q) True s = (Inr True, s')" "grown s0 M H h ll N L s'"
proof -
  obtain P' N' t where g: "ix_sim s0 (add_mset q M) H P' N' s" "bt_at h N' IX_NO_PAGE t" "distinct (bt_pages t)" "bt_ord h t" "bt_leaves t = L"
      "same_layout h (ih_hdr s)" "last_leaf (ih_hdr s) = ll" "root_page (ih_hdr s) = bt_page t" "bt_page t \<noteq> IX_NO_PAGE" "leaves_kept h N N'"
    using assms unfolding grown_def by blast
  obtain s' where s': "ix_unpin (H q) True s = (Inr True, s')" "ix_sim s0 M H P' N' s'" "ih_hdr s' = ih_hdr s"
    by (rule sim_unpin[OF g(1)])
  have "grown s0 M H h ll N L s'"
    unfolding grown_def by (intro exI[of _ P'] exI[of _ N'] exI[of _ t]) (use g s' in simp)
  then show thesis using that s'(1) by blast
qed

lemma grown_frames: "grown s0 M H h ll N L s \<Longrightarrow> (\<And>p. p \<in># M \<Longrightarrow> H' p = H p) \<Longrightarrow> grown s0 M H' h ll N L s"
  unfolding grown_def using sim_frames[of s0 M H _ _ s H'] by blast

lemma grown_kept: "grown s0 M H h ll N L s \<Longrightarrow> leaves_kept h N0 N \<Longrightarrow> grown s0 M H h ll N0 L s"
  unfolding grown_def using leaves_kept_trans by blast

lemma same_layout_insert: "same_layout h h' \<Longrightarrow> nd_insert h' = nd_insert h"
  using same_layoutD[of h h']
  by (simp add: nd_insert_def nd_lower_bound_def key_here_def insert_pair_def insert_pairs_def fun_eq_iff Let_def)

lemma root_node_fits:
  assumes "node_fits h a" and "node_fits h b" and "nd_kvs a \<noteq> []" and "nd_kvs b \<noteq> []" and "in_int p" and "in_int q" and "2 < btree_order h"
  shows "node_fits h (root_node a p b q)"
proof -
  have "hd (nd_kvs a) \<in> set (nd_kvs a)" "hd (nd_kvs b) \<in> set (nd_kvs b)" using assms(3,4) by simp_all
  then have "int (length (fst (hd (nd_kvs a)))) = ix_col_tot_len h" "int (length (fst (hd (nd_kvs b)))) = ix_col_tot_len h"
    using assms(1,2) by (auto simp: node_fits_def)
  then show ?thesis
    using assms in_int_consts
    by (auto simp: node_fits_def root_node_def get_size_def get_max_size_def child_rid_def rid_ok_def in_int_def INT_MIN_def INT_MAX_def)
qed

lemma insert_root:
  assumes S: "ix_sim s0 M H P N s" and M: "bt_page t1 \<in># M" "bt_page t2 \<in># M"
    and lay: "same_layout h (ih_hdr s)"
    and at: "bt_at h N IX_NO_PAGE t1" "bt_at h N IX_NO_PAGE t2" and d: "distinct (bt_pages t1 @ bt_pages t2)"
    and f: "bt_first t1 = Some k1" "bt_first t2 = Some k2" and fb: "fits_behind h [] t1 k2 t2" and k1: "fst (hd (bt_kvs t1)) = k1"
    and room: "size M < bp_avail (ih_bpm s0)" and g: "can_grow s0 P" "P \<noteq> IX_NO_PAGE"
  shows "\<exists>s'. insert_into_parent (Suc fuel) (H (bt_page t1)) k2 (H (bt_page t2)) s = (Inr (), s') \<and>
    grown s0 M H h (last_leaf (ih_hdr s)) N (bt_leaves t1 @ bt_leaves t2) s'"
proof -
  let ?h = h and ?p = "bt_page t1" and ?q = "bt_page t2"
  obtain a where a: "N ?p = Some a" "nd_parent a = IX_NO_PAGE" "node_fits ?h a" "nd_kvs a \<noteq> [] \<and> fst (hd (nd_kvs a)) = k1"
    using bt_at_node[OF at(1)] f(1) by metis
  obtain b where b: "N ?q = Some b" "nd_parent b = IX_NO_PAGE" "node_fits ?h b" "nd_kvs b \<noteq> [] \<and> fst (hd (nd_kvs b)) = k2"
    using bt_at_node[OF at(2)] f(2) by metis
  have pq: "?p \<noteq> ?q" using d bt_page_in_pages[of t1] bt_page_in_pages[of t2] by auto
  have ord: "2 < btree_order ?h" using a(3) order_bounds(1) by (simp add: node_fits_def)
  have ord': "2 < btree_order (ih_hdr s)" using ord same_layoutD(5)[OF lay] by (simp add: get_max_size_def)
  have ints: "in_int ?p" "in_int ?q" using sim_in_int[OF S] a(1) b(1) by blast+
  have iP: "in_int P" using g(1) by (simp add: can_grow_def in_int_page)
  obtain s' where s': "new_root (H ?p) (H ?q) s = (Inr (), s')" "N P = None"
      "ix_sim s0 M H (P + 1) (N(?p \<mapsto> a\<lparr>nd_parent := P\<rparr>, ?q \<mapsto> b\<lparr>nd_parent := P\<rparr>, P \<mapsto> root_node a ?p b ?q)) s'"
      "ih_hdr s' = (ih_hdr s)\<lparr>ix_num_pages := c_int (ix_num_pages (ih_hdr s) + 1), root_page := P\<rparr>"
    by (rule sim_new_root[OF S M(1) a(1) a(3)[folded same_layoutD(4)[OF lay]] conjunct1[OF a(4)]
          M(2) b(1) b(3)[folded same_layoutD(4)[OF lay]] conjunct1[OF b(4)] pq ints g(1) room ord'])
  let ?N = "N(?p \<mapsto> a\<lparr>nd_parent := P\<rparr>, ?q \<mapsto> b\<lparr>nd_parent := P\<rparr>, P \<mapsto> root_node a ?p b ?q)" and ?t = "Br P [(k1, t1), (k2, t2)]"
  have fresh: "P \<notin> set (bt_pages t1)" "P \<notin> set (bt_pages t2)" using bt_at_pages[OF at(1), of P] bt_at_pages[OF at(2), of P] s'(2) by auto
  have Pp: "P \<noteq> ?p" "P \<noteq> ?q" using fresh bt_page_in_pages by metis+
  have q1: "?q \<notin> set (bt_pages t1)" "?p \<notin> set (bt_pages t2)" using d bt_page_in_pages by auto
  have d12: "distinct (bt_pages t1)" "distinct (bt_pages t2)" using d by auto
  have at1: "bt_at ?h ?N P t1"
    by (rule bt_at_reparent[where N = N and N' = ?N, OF at(1) d12(1) a(1) _ _ iP]) (use Pp pq q1 fresh in auto)
  have at2: "bt_at ?h ?N P t2"
    by (rule bt_at_reparent[where N = N and N' = ?N, OF at(2) d12(2) b(1) _ _ iP]) (use Pp pq q1 fresh in auto)
  have "node_fits ?h (root_node a ?p b ?q)" by (rule root_node_fits) (use a b ints ord in auto)
  then have "inner_ok ?h IX_NO_PAGE (map c_page [(k1, t1), (k2, t2)]) (root_node a ?p b ?q)"
    using a(4) b(4) ord by (simp add: inner_ok_def root_node_def child_rid_def get_size_def get_max_size_def)
  then have at': "bt_at ?h ?N IX_NO_PAGE ?t" using at1 at2 f g(2) by (simp add: bt_at_Br)
  have fb': "bt_ord ?h t1" "bt_ord ?h t2" "hkey ?h k2" "bt_kvs t1 \<noteq> []" "\<forall>kv \<in> set (bt_kvs t1). key_cmp ?h (fst kv) k2 < 0"
      "\<forall>kv \<in> set (bt_kvs t2). key_cmp ?h k2 (fst kv) \<le> 0"
    using fb by (simp_all add: fits_behind_def)
  have "hkey ?h k1" "key_cmp ?h k1 k2 < 0" using hd_in_set[OF fb'(4)] k1 fb'(5) bt_ord_keys[OF fb'(1) hd_in_set[OF fb'(4)]] by auto
  then have o: "bt_ord ?h ?t" unfolding bt_ord_Br using fb' by (simp add: sep_lt_def sep_le_def)
  have kept: "leaves_kept ?h N ?N"
    by (rule leaves_kept_upd) (use a(1) b(1) s'(2) iP in \<open>auto split: if_splits\<close>)
  have root: "is_root_page (ix_node s (H ?p))" using sim_node(1)[OF S M(1) a(1)] a(2) by (simp add: is_root_page_def IX_NO_PAGE_def INVALID_PAGE_ID_def)
  have lay': "same_layout ?h (ih_hdr s')" unfolding s'(4) by (rule same_layout_trans[OF lay same_layout_trans[OF same_layoutI(1) same_layoutI(2)]])
  have "grown s0 M H h (last_leaf (ih_hdr s)) N (bt_leaves t1 @ bt_leaves t2) s'"
    unfolding grown_def using s'(3,4) at' o d fresh g(2) kept lay' by (intro exI[of _ "P + 1"] exI[of _ ?N] exI[of _ ?t]) auto
  then show ?thesis using root s'(1) by simp
qed

text \<open>The parent takes the second subtree without splitting.\<close>

lemma grown_plug:
  assumes S: "ix_sim s0 M H P N1 s" and lay: "same_layout h (ih_hdr s)"
    and ch: "list_all (child_ok h N1 p) cs" and cx: "ctx_at h N1 c p (Some fk)" "bt_first (Br p cs) = Some fk"
    and n: "N1 p = Some n" "inner_ok h (ctx_par c) (map c_page cs) n" "p \<noteq> IX_NO_PAGE" and d: "distinct (bt_pages (Br p cs) @ ctx_pages c)"
    and o: "bt_ord h (Br p cs)" "\<forall>kv \<in> set (bt_kvs (Br p cs)). ctx_in h c (fst kv)" "bt_ord h (plug c (Lf 0 []))"
    and r: "root_page (ih_hdr s) = bt_page (plug c (Br p cs))" "root_page (ih_hdr s) \<noteq> IX_NO_PAGE" and kept: "leaves_kept h N N1"
  shows "grown s0 M H h (last_leaf (ih_hdr s)) N (ctx_l c @ bt_leaves (Br p cs) @ ctx_r c) s"
proof -
  let ?t = "plug c (Br p cs)"
  have "bt_at h N1 (ctx_par c) (Br p cs)" using ch n by (auto simp: bt_at_Br)
  then have "bt_at h N1 IX_NO_PAGE ?t" using plug_at[of h N1 c "Br p cs"] cx by simp
  moreover have "distinct (bt_pages ?t)" using plug_distinct[of c "Br p cs"] d by auto
  moreover have "bt_ord h ?t" using plug_ord[of h c "Br p cs"] o by blast
  ultimately show ?thesis
    unfolding grown_def using S lay r kept plug_leaves[of c "Br p cs"] by (intro exI[of _ P] exI[of _ N1] exI[of _ ?t]) simp
qed

text \<open>The parent splits: what there is to insert one level up.\<close>

lemma parent_split:
  assumes S: "ix_sim s0 M H P N s" and p: "p \<in># M" and lay: "same_layout h (ih_hdr s)"
    and ch: "list_all (child_ok h N p) cs" and cx: "ctx_at h N c p (Some fk)" "bt_first (Br p cs) = Some fk"
    and n: "N p = Some n" "map kv_page (nd_kvs n) = map c_page cs" "nd_parent n = ctx_par c" "node_fits h n" "\<not> nd_is_leaf n" "p \<noteq> IX_NO_PAGE"
    and d: "distinct (bt_pages (Br p cs) @ ctx_pages c)"
    and o: "bt_ord h (Br p cs)" "\<forall>kv \<in> set (bt_kvs (Br p cs)). ctx_in h c (fst kv)" "bt_ord h (plug c (Lf 0 []))"
    and m: "m = get_size n div 2" "0 < m" "m < length cs" and g: "can_grow s0 P" and room: "Suc (size M) < bp_avail (ih_bpm s0)"
  obtains f s' N' where "split_node (H p) s = (Inr f, s')" "P \<noteq> p" "ix_sim s0 (add_mset P M) (H(P := f)) (P + 1) N' s'"
    "bt_at h N' IX_NO_PAGE (plug c (Br p (take m cs)))" "bt_at h N' (ctx_par c) (Br P (drop m cs))"
    "distinct (ctx_pages c @ bt_pages (Br p (take m cs)) @ bt_pages (Br P (drop m cs)))"
    "fits_behind h c (Br p (take m cs)) (fst (cs ! m)) (Br P (drop m cs))" "leaves_kept h N N'"
    "same_layout h (ih_hdr s')" "root_page (ih_hdr s') = root_page (ih_hdr s)" "last_leaf (ih_hdr s') = last_leaf (ih_hdr s)"
    "get_key (ix_node s' f) 0 = Inr (fst (cs ! m))"
proof -
  have cc: "\<forall>kv \<in> set (nd_kvs n). \<exists>m. N (rid_page_no (snd kv)) = Some m \<and> node_fits (ih_hdr s) m \<and> rid_page_no (snd kv) \<noteq> p"
  proof
    fix kv assume "kv \<in> set (nd_kvs n)"
    then have "kv_page kv \<in> set (map c_page cs)" unfolding n(2)[symmetric] by simp
    then obtain x where x: "x \<in> set cs" "rid_page_no (snd kv) = bt_page (snd x)" by auto
    then have "bt_at h N p (snd x)" using ch by (auto simp: list_all_iff)
    then obtain m where "N (bt_page (snd x)) = Some m" "node_fits h m" using bt_at_node by metis
    moreover have "bt_page (snd x) \<noteq> p" using d x(1) bt_page_in_pages[of "snd x"] by auto
    ultimately show "\<exists>m. N (rid_page_no (snd kv)) = Some m \<and> node_fits (ih_hdr s) m \<and> rid_page_no (snd kv) \<noteq> p"
      using x(2) same_layoutD(4)[OF lay] by simp
  qed
  let ?N' = "set_parents ((\<lambda>kv. rid_page_no (snd kv)) ` set (drop m (nd_kvs n))) P (N(P \<mapsto> split_right IX_NO_PAGE IX_NO_PAGE n, p \<mapsto> set_size m n))"
  obtain f s' where f: "split_node (H p) s = (Inr f, s')" "P \<noteq> p" "N P = None" "ix_sim s0 (add_mset P M) (H(P := f)) (P + 1) ?N' s'"
      "ih_hdr s' = (ih_hdr s)\<lparr>ix_num_pages := c_int (ix_num_pages (ih_hdr s) + 1)\<rparr>"
    unfolding m(1) by (rule split_inner[OF S p n(1) n(4)[folded same_layoutD(4)[OF lay]] n(5) cc g room])
  have P: "in_int P" "P \<noteq> IX_NO_PAGE" using g by (auto simp: can_grow_def in_int_page page_addressable_def IX_NO_PAGE_def)
  note st = split_step[OF ch cx n m f(3) P d]
  have fk: "\<forall>x \<in> set cs. bt_kvs (snd x) \<noteq> [] \<and> fst (hd (bt_kvs (snd x))) = fst x"
    using ch bt_first_kvs[of h N p] by (auto simp: list_all_iff bt_at_def)
  have kept: "leaves_kept h N ?N'"
    by (rule leaves_kept_upd) (use n(1,5) f(3) P(1) in \<open>auto simp: set_parents_def\<close>)
  obtain q where q: "?N' P = Some q" "inner_ok h (ctx_par c) (map c_page (drop m cs)) q" using st(2) by (auto simp: bt_at_Br)
  have PM: "P \<in># add_mset P M" by simp
  have nd: "ix_node s' f = q" using sim_node(1)[OF f(4) PM q(1)] by simp
  have "map kv_page (nd_kvs q) = c_page (cs ! m) # map c_page (drop (Suc m) cs)"
    using q(2) m(3) by (simp add: inner_ok_def Cons_nth_drop_Suc[symmetric])
  then have k: "get_key (ix_node s' f) 0 = Inr (fst (cs ! m))"
    unfolding nd by (cases "nd_kvs q") (auto simp: get_key_def get_kv_def get_size_def)
  have lay': "same_layout h (ih_hdr s')" unfolding f(5) by (rule same_layout_trans[OF lay same_layoutI(1)])
  show thesis by (rule that[OF f(1,2,4) st fits_behind_split[OF o m(2,3) fk] kept lay' _ _ k]) (simp_all add: f(5))
qed

lemma bt_first_drop: "m < length cs \<Longrightarrow> bt_first (Br p (drop m cs)) = Some (fst (cs ! m))"
  by (simp add: Cons_nth_drop_Suc[symmetric])

text \<open>The parent takes the second subtree.\<close>

lemma parent_insert:
  assumes S: "ix_sim s0 M H P N s" and M: "bt_page t1 \<in># M" "bt_page t2 \<in># M" and lay: "same_layout h (ih_hdr s)"
    and at: "bt_at h N IX_NO_PAGE (plug ((p, ls, k, rs) # c) t1)" "bt_at h N p t2" and d: "distinct (ctx_pages ((p, ls, k, rs) # c) @ bt_pages t1 @ bt_pages t2)"
    and f2: "bt_first t2 = Some k2" and fb: "fits_behind h ((p, ls, k, rs) # c) t1 k2 t2" and room: "size M < bp_avail (ih_bpm s0)"
  defines "cs \<equiv> ls @ (k, t1) # (k2, t2) # rs"
  obtains f s1 s2 n' where "\<not> is_root_page (ix_node s (H (bt_page t1)))" "fetch_node (nd_parent (ix_node s (H (bt_page t1)))) s = (Inr f, s1)"
    "ix_upd f (\<lambda>h. nd_insert h k2 (child_rid (ix_page_no s1 (H (bt_page t2))))) s1 = (Inr (), s2)" "ix_node s2 f = n'" "p \<in># M \<longrightarrow> f = H p"
    "ix_sim s0 (add_mset p M) (H(p := f)) P (N(p \<mapsto> n')) s2" "ih_hdr s2 = ih_hdr s" "leaves_kept h N (N(p \<mapsto> n'))"
    "map kv_page (nd_kvs n') = map c_page cs" "nd_parent n' = ctx_par c" "node_fits h n'" "\<not> nd_is_leaf n'" "get_size n' = length cs"
    "bt_ord h (Br p cs)" "\<forall>kv \<in> set (bt_kvs (Br p cs)). ctx_in h c (fst kv)" "bt_ord h (plug c (Lf 0 []))"
proof -
  let ?p1 = "bt_page t1" and ?p2 = "bt_page t2"
  have at1: "bt_at h N p t1" using at(1) plug_at[of h N "(p, ls, k, rs) # c" t1] by simp
  note st = child_step[OF at(1,2) f2 d]
  obtain n where n: "N p = Some n" "inner_ok h (ctx_par c) (map c_page ls @ (k, ?p1) # map c_page rs) n" using st(5) by blast
  have k: "fst (hd (bt_kvs t1)) = k" using bt_first_kvs[of h N p t1 k] at1 st(3) by (simp add: bt_at_def)
  note ord = fits_behind_parent[OF fb k]
  obtain a where a: "N ?p1 = Some a" "nd_parent a = p" using bt_at_node[OF at1] by metis
  obtain b where b: "N ?p2 = Some b" "node_fits h b" "nd_kvs b \<noteq> []" "fst (hd (nd_kvs b)) = k2" using bt_at_node[OF at(2)] f2 by metis
  have p12: "p \<noteq> ?p2" using d bt_page_in_pages[of t2] by auto
  have k2l: "int (length k2) = ix_col_tot_len h" using b hd_in_set[OF b(3)] by (auto simp: node_fits_def)
  obtain f s1 where f: "fetch_node p s = (Inr f, s1)" "ix_sim s0 (add_mset p M) (H(p := f)) P N s1" "ih_hdr s1 = ih_hdr s" "p \<in># M \<Longrightarrow> f = H p"
    using sim_fetch[OF S n(1) room] by blast
  obtain n' where n': "nd_insert h k2 (child_rid ?p2) n = Inr n'" "map kv_page (nd_kvs n') = map c_page ls @ (k, ?p1) # (k2, ?p2) # map c_page rs"
      "nd_is_leaf n' = nd_is_leaf n" "nd_parent n' = nd_parent n" "node_fits h n'" "get_size n' = Suc (get_size n)"
    by (rule insert_child[OF n(2) ord(1) refl sim_in_int[OF S b(1)] k2l])
  let ?M1 = "add_mset p M" and ?H1 = "H(p := f)"
  have pM: "p \<in># ?M1" "?p2 \<in># ?M1" using M(2) by simp_all
  have H1: "?H1 p = f" "?H1 ?p2 = H ?p2" using p12 by simp_all
  have pg: "ix_page_no s1 (H ?p2) = ?p2" using sim_page[OF f(2) pM(2)] unfolding H1 .
  have ins: "nd_insert (ih_hdr s1) k2 (child_rid ?p2) n = Inr n'" unfolding f(3) same_layout_insert[OF lay] by (rule n'(1))
  have fit': "node_fits (ih_hdr s1) n'" unfolding f(3) same_layoutD(4)[OF lay] by (rule n'(5))
  obtain s2 where s2: "ix_upd (?H1 p) (\<lambda>h. nd_insert h k2 (child_rid ?p2)) s1 = (Inr (), s2)" "ix_sim s0 ?M1 ?H1 P (N(p \<mapsto> n')) s2" "ih_hdr s2 = ih_hdr s1"
    by (rule sim_upd[where g = "\<lambda>h. nd_insert h k2 (child_rid ?p2)", OF f(2) pM(1) n(1) ins fit'])
  have nd2: "ix_node s2 f = n'" using sim_node(1)[OF s2(2) pM(1) fun_upd_same] unfolding H1 .
  have i: "\<not> nd_is_leaf n" "nd_parent n = ctx_par c" using n(2) by (simp_all add: inner_ok_def)
  have kept: "leaves_kept h N (N(p \<mapsto> n'))" by (rule leaves_kept_upd) (use n(1) i(1) in auto)
  have up: "\<not> is_root_page (ix_node s (H ?p1))" "nd_parent (ix_node s (H ?p1)) = p"
    using sim_node(1)[OF S M(1) a(1)] a(2) st(6) by (simp_all add: is_root_page_def IX_NO_PAGE_def INVALID_PAGE_ID_def)
  have cs: "map kv_page (nd_kvs n') = map c_page cs" using n'(2) by (simp add: cs_def)
  have sz: "get_size n' = length cs" using arg_cong[OF cs, of length] by (simp add: get_size_def)
  show thesis
    by (rule that[OF up(1) _ _ nd2 _ s2(2) _ kept cs _ n'(5) _ sz ord[folded cs_def]]) (use up(2) f s2 pg i n' H1 in auto)
qed

lemma insert_parent:
  assumes "ix_sim s0 M H P N s" and "bt_page t1 \<in># M" "bt_page t2 \<in># M" and "same_layout h (ih_hdr s)"
    and "bt_at h N IX_NO_PAGE (plug c t1)" "bt_at h N (ctx_par c) t2" and "distinct (ctx_pages c @ bt_pages t1 @ bt_pages t2)"
    and "bt_first t1 = Some k1" "bt_first t2 = Some k2" and "fits_behind h c t1 k2 t2"
    and "root_page (ih_hdr s) = bt_page (plug c t1)" "root_page (ih_hdr s) \<noteq> IX_NO_PAGE"
    and "length c < fuel" and "size M + 2 * length c < bp_avail (ih_bpm s0)" and "\<forall>i \<le> length c. can_grow s0 (P + int i)"
  shows "\<exists>s'. insert_into_parent fuel (H (bt_page t1)) k2 (H (bt_page t2)) s = (Inr (), s') \<and>
    grown s0 M H h (last_leaf (ih_hdr s)) N (ctx_l c @ bt_leaves t1 @ bt_leaves t2 @ ctx_r c) s'"
  using assms
proof (induction c arbitrary: fuel t1 t2 k1 k2 M H P N s)
  case Nil
  obtain f where f: "fuel = Suc f" using Nil(13) by (cases fuel) auto
  have at: "bt_at h N IX_NO_PAGE t1" "bt_at h N IX_NO_PAGE t2" "distinct (bt_pages t1 @ bt_pages t2)" using Nil(5,6,7) by simp_all
  have k: "fst (hd (bt_kvs t1)) = k1" using bt_first_kvs[of h N IX_NO_PAGE t1 k1] at(1) Nil(8) by (simp add: bt_at_def)
  have g: "can_grow s0 P" "P \<noteq> IX_NO_PAGE" using Nil(15) by (auto simp: can_grow_def page_addressable_def IX_NO_PAGE_def)
  show ?case using insert_root[OF Nil(1-4) at Nil(8-10) k _ g, of f] Nil(14) f by simp
next
  case (Cons x c)
  obtain p ls k rs where x: "x = (p, ls, k, rs)" by (cases x) auto
  note A = Cons(2-16)[unfolded x]
  obtain fl where fl: "fuel = Suc fl" using A(13) by (cases fuel) auto
  let ?cs = "ls @ (k, t1) # (k2, t2) # rs" and ?p1 = "bt_page t1" and ?p2 = "bt_page t2" and ?h' = "ih_hdr s"
  have at2: "bt_at h N p t2" using A(6) by simp
  have room: "size M < bp_avail (ih_bpm s0)" "Suc (size (add_mset p M)) < bp_avail (ih_bpm s0)" using A(14) by simp_all
  obtain f s1 s2 n' where n': "\<not> is_root_page (ix_node s (H ?p1))" "fetch_node (nd_parent (ix_node s (H ?p1))) s = (Inr f, s1)"
      "ix_upd f (\<lambda>h. nd_insert h k2 (child_rid (ix_page_no s1 (H ?p2)))) s1 = (Inr (), s2)" "ix_node s2 f = n'" "p \<in># M \<longrightarrow> f = H p"
      "ix_sim s0 (add_mset p M) (H(p := f)) P (N(p \<mapsto> n')) s2" "ih_hdr s2 = ?h'" "leaves_kept h N (N(p \<mapsto> n'))"
      "map kv_page (nd_kvs n') = map c_page ?cs" "nd_parent n' = ctx_par c" "node_fits h n'" "\<not> nd_is_leaf n'" "get_size n' = length ?cs"
      "bt_ord h (Br p ?cs)" "\<forall>kv \<in> set (bt_kvs (Br p ?cs)). ctx_in h c (fst kv)" "bt_ord h (plug c (Lf 0 []))"
    by (rule parent_insert[OF A(1-5) at2 A(7,9,10) room(1)])
  note cs = child_step[OF A(5) at2 A(9) A(7)]
  let ?M1 = "add_mset p M" and ?H1 = "H(p := f)" and ?N1 = "N(p \<mapsto> n')"
  have lay: "same_layout h (ih_hdr s2)" using n'(7) A(4) by simp
  have Hback: "H q = ?H1 q" if "q \<in># M" for q using that n'(5) by auto
  have bf: "bt_first (Br p ?cs) = Some (ctx_first ls k)" by (rule bt_first_mid)
  have lv: "ctx_l (x # c) @ bt_leaves t1 @ bt_leaves t2 @ ctx_r (x # c) = ctx_l c @ bt_leaves (Br p ?cs) @ ctx_r c" by (simp add: x)
  have root: "root_page ?h' = bt_page (plug c (Br p ?cs))" using A(11) by (simp add: plug_page)
  have pM: "p \<in># ?M1" by simp
  show ?case
  proof (cases "int (get_size n') \<ge> get_max_size h")
    case False
    have "inner_ok h (ctx_par c) (map c_page ?cs) n'" using n'(9-13) False by (simp add: inner_ok_def)
    then have "grown s0 ?M1 ?H1 h (last_leaf (ih_hdr s2)) N (ctx_l c @ bt_leaves (Br p ?cs) @ ctx_r c) s2"
      using root A(12) n'(7) by (intro grown_plug[OF n'(6) lay cs(1) cs(2) bf fun_upd_same _ cs(6,4) n'(14-16) _ _ n'(8)]) simp_all
    then obtain s3 where s3: "ix_unpin (?H1 p) True s2 = (Inr True, s3)"
        "grown s0 M ?H1 h (last_leaf (ih_hdr s2)) N (ctx_l c @ bt_leaves (Br p ?cs) @ ctx_r c) s3"
      by (rule grown_unpin)
    have "insert_into_parent fuel (H ?p1) k2 (H ?p2) s = (Inr (), s3)"
      using n'(1-4) s3(1) False same_layoutD(5)[OF lay] unfolding fl by (simp add: em_defs)
    then show ?thesis unfolding lv using grown_frames[OF s3(2) Hback] n'(7) by auto
  next
    case True
    define m where "m = get_size n' div 2"
    have "2 < btree_order h" using n'(11) order_bounds(1) by (simp add: node_fits_def)
    then have "3 < get_max_size h" by (simp add: get_max_size_def)
    then have m: "0 < m" "m < length ?cs" using True n'(13) by (auto simp: m_def)
    have g: "can_grow s0 P" "\<forall>i \<le> length c. can_grow s0 (P + 1 + int i)" using A(15) by (auto dest: spec[of _ 0] spec[of _ "Suc _"] simp: add.assoc)
    obtain e s3 N3 where e: "split_node (?H1 p) s2 = (Inr e, s3)" "P \<noteq> p" "ix_sim s0 (add_mset P ?M1) (?H1(P := e)) (P + 1) N3 s3"
        "bt_at h N3 IX_NO_PAGE (plug c (Br p (take m ?cs)))" "bt_at h N3 (ctx_par c) (Br P (drop m ?cs))"
        "distinct (ctx_pages c @ bt_pages (Br p (take m ?cs)) @ bt_pages (Br P (drop m ?cs)))"
        "fits_behind h c (Br p (take m ?cs)) (fst (?cs ! m)) (Br P (drop m ?cs))" "leaves_kept h ?N1 N3"
        "same_layout h (ih_hdr s3)" "root_page (ih_hdr s3) = root_page (ih_hdr s2)" "last_leaf (ih_hdr s3) = last_leaf (ih_hdr s2)"
        "get_key (ix_node s3 e) 0 = Inr (fst (?cs ! m))"
      by (rule parent_split[OF n'(6) pM lay cs(1) cs(2) bf fun_upd_same n'(9-12) cs(6,4) n'(14-16) m_def m g(1) room(2)])
    let ?M3 = "add_mset P ?M1" and ?H3 = "?H1(P := e)" and ?t1 = "Br p (take m ?cs)" and ?t2 = "Br P (drop m ?cs)"
    have M3: "bt_page ?t1 \<in># ?M3" "bt_page ?t2 \<in># ?M3" by simp_all
    have fst1: "bt_first ?t1 = Some (ctx_first ls k)" using bf m(1) by (cases ?cs; cases m) auto
    have r3: "root_page (ih_hdr s3) = bt_page (plug c ?t1)" "root_page (ih_hdr s3) \<noteq> IX_NO_PAGE"
      using e(10) n'(7) root A(12) by (simp_all add: plug_page)
    have sz3: "length c < fl" "size ?M3 + 2 * length c < bp_avail (ih_bpm s0)" using A(13,14) fl by simp_all
    have lf: "bt_leaves ?t1 @ bt_leaves ?t2 = bt_leaves (Br p ?cs)"
      by (simp del: take_append drop_append add: concat_append[symmetric] map_append[symmetric])
    let ?G = "\<lambda>M. grown s0 M ?H3 h (last_leaf (ih_hdr s3)) N3 (ctx_l c @ bt_leaves ?t1 @ bt_leaves ?t2 @ ctx_r c)"
    obtain s4 where s4: "insert_into_parent fl (?H3 (bt_page ?t1)) (fst (?cs ! m)) (?H3 (bt_page ?t2)) s3 = (Inr (), s4)" "?G ?M3 s4"
      using Cons(1)[OF e(3) M3 e(9) e(4-6) fst1 bt_first_drop[OF m(2)] e(7) r3 sz3 g(2)] by blast
    obtain s5 where s5: "ix_unpin (?H3 P) True s4 = (Inr True, s5)" "?G ?M1 s5" by (rule grown_unpin[OF s4(2)])
    obtain s6 where s6: "ix_unpin (?H3 p) True s5 = (Inr True, s6)" "?G M s6" by (rule grown_unpin[OF s5(2)])
    have H3: "?H1 p = f" "?H3 p = f" "?H3 P = e" "?H3 (bt_page ?t1) = f" "?H3 (bt_page ?t2) = e" using e(2) by simp_all
    have big: "get_max_size (ih_hdr s2) \<le> int (get_size n')" using True same_layoutD(5)[OF lay] by simp
    have ex: "insert_into_parent fuel (H ?p1) k2 (H ?p2) s = (Inr (), s6)"
      using n'(1-4) e(1,12) s4(1) s5(1) s6(1) big unfolding fl H3 by (simp add: em_defs ix_res_def)
    have Hb: "H q = ?H3 q" if "q \<in># M" for q using Hback[OF that] that sim_fresh[OF A(1)] by auto
    have "grown s0 M H h (last_leaf ?h') N (ctx_l c @ bt_leaves (Br p ?cs) @ ctx_r c) s6"
      using grown_kept[OF grown_frames[OF s6(2) Hb] leaves_kept_trans[OF n'(8) e(8)]] e(11) n'(7) unfolding lf[symmetric] by simp
    then show ?thesis unfolding lv using ex by blast
  qed
qed

end
