(* ===== verification/IxInsert.thy ===== *)
theory IxInsert
  imports IxParent
begin

text \<open>
  \<^verbatim>\<open>insert_entry\<close> as the insertion into a map, whether the leaf of the key has room or splits.
\<close>

section \<open>Linked leaves\<close>

text \<open>The leaves are linked one after the other; \<open>e\<close> is behind the last one.\<close>

fun linked :: "(page_id_t \<Rightarrow> IxNode option) \<Rightarrow> (page_id_t \<times> (byte list \<times> Rid) list) list \<Rightarrow> page_id_t \<Rightarrow> bool" where
  "linked N [] e \<longleftrightarrow> True"
| "linked N (l # L) e \<longleftrightarrow> (\<exists>n. N (fst l) = Some n \<and> nd_is_leaf n \<and> nd_kvs n = snd l \<and> nd_next_leaf n = (case L of [] \<Rightarrow> e | l' # _ \<Rightarrow> fst l')) \<and>
     linked N L e"

lemma linked_append: "linked N (L @ L') e \<longleftrightarrow> linked N L (case L' of [] \<Rightarrow> e | l' # _ \<Rightarrow> fst l') \<and> linked N L' e"
  by (induction L) (auto split: list.splits)

lemma linked_nth:
  "linked N L e \<longleftrightarrow> (\<forall>i < length L. \<exists>n. N (fst (L ! i)) = Some n \<and> nd_is_leaf n \<and> nd_kvs n = snd (L ! i) \<and>
     nd_next_leaf n = (if Suc i < length L then fst (L ! Suc i) else e))"
  by (induction L) (auto simp: All_less_Suc2 split: list.splits)

lemma linked_change:
  assumes "linked N L e" and "\<And>l n. l \<in> set L \<Longrightarrow> N (fst l) = Some n \<Longrightarrow>
    \<exists>n'. N' (fst l) = Some n' \<and> nd_is_leaf n' = nd_is_leaf n \<and> nd_kvs n' = nd_kvs n \<and> nd_next_leaf n' = nd_next_leaf n"
  shows "linked N' L e"
  using assms
proof (induction L)
  case (Cons l L)
  then obtain n where n: "N (fst l) = Some n" "nd_is_leaf n" "nd_kvs n = snd l" "nd_next_leaf n = (case L of [] \<Rightarrow> e | l' # _ \<Rightarrow> fst l')"
    by auto
  then obtain n' where "N' (fst l) = Some n'" "nd_is_leaf n' = nd_is_leaf n" "nd_kvs n' = nd_kvs n" "nd_next_leaf n' = nd_next_leaf n"
    using Cons(3)[of l n] by auto
  moreover have "linked N' L e" using Cons by simp
  ultimately show ?case using n by simp
qed simp

lemma ix_index_linked:
  assumes "ix_index s t"
  obtains e m where "linked (ix_view s) (bt_leaves t) e" "e \<notin> set (bt_pages t)" "ix_view s e = Some m" "nd_is_leaf m" "node_fits (ih_hdr s) m"
proof -
  have L: "ix_leaves s (bt_leaves t)" "ix_end (ih_hdr s) (ix_view s) t" using assms by (simp_all add: ix_index_def)
  then obtain n m where n: "ix_view s (fst (last (bt_leaves t))) = Some n" "nd_next_leaf n \<notin> set (bt_pages t)"
      "ix_view s (nd_next_leaf n) = Some m" "nd_is_leaf m" "node_fits (ih_hdr s) m"
    by (auto simp: ix_end_def)
  have "linked (ix_view s) (bt_leaves t) (nd_next_leaf n)"
    unfolding linked_nth
  proof (intro allI impI)
    fix i assume i: "i < length (bt_leaves t)"
    obtain a where a: "ix_view s (fst (bt_leaves t ! i)) = Some a" "nd_is_leaf a" "nd_kvs a = snd (bt_leaves t ! i)"
        "Suc i < length (bt_leaves t) \<Longrightarrow> nd_next_leaf a = fst (bt_leaves t ! Suc i)"
      using ix_leaves_nth[OF L(1) i] by metis
    have "a = n" if "\<not> Suc i < length (bt_leaves t)"
    proof -
      have "i = length (bt_leaves t) - 1" "bt_leaves t \<noteq> []" using that i by auto
      then have "bt_leaves t ! i = last (bt_leaves t)" by (simp add: last_conv_nth)
      then show ?thesis using a(1) n(1) by simp
    qed
    then show "\<exists>n'. ix_view s (fst (bt_leaves t ! i)) = Some n' \<and> nd_is_leaf n' \<and> nd_kvs n' = snd (bt_leaves t ! i) \<and>
        nd_next_leaf n' = (if Suc i < length (bt_leaves t) then fst (bt_leaves t ! Suc i) else nd_next_leaf n)"
      using a by auto
  qed
  then show thesis using that n by blast
qed

lemma linked_ix_leaves:
  assumes "linked (ix_view s) L e" and "L \<noteq> []" and "distinct (map fst L)" and "last_leaf (ih_hdr s) = fst (last L)"
    and "first_leaf (ih_hdr s) = fst (hd L)" and "1 < length L \<Longrightarrow> \<forall>l \<in> set L. snd l \<noteq> []"
  shows "ix_leaves s L"
  using assms unfolding ix_leaves_def linked_nth by (metis (no_types, lifting))

lemma linked_ix_end:
  assumes "linked N (bt_leaves t) e" and "bt_leaves t \<noteq> []" and "e \<notin> set (bt_pages t)" and "N e = Some m" and "nd_is_leaf m" and "node_fits h m"
  shows "ix_end h N t"
proof -
  have "linked N (butlast (bt_leaves t) @ [last (bt_leaves t)]) e" using assms(1,2) by simp
  then obtain n where "N (fst (last (bt_leaves t))) = Some n" "nd_next_leaf n = e" unfolding linked_append by auto
  then show ?thesis using assms unfolding ix_end_def by blast
qed

text \<open>Leaves of a tree.\<close>

lemma bt_at_leaves:
  "bt_at h N par t \<Longrightarrow> l \<in> set (bt_leaves t) \<Longrightarrow> \<exists>n r. N (fst l) = Some n \<and> leaf_ok h r (snd l) n"
proof (induction t arbitrary: par)
  case (Lf p kvs)
  then show ?case by (auto simp: bt_at_Lf)
next
  case (Br p cs)
  then obtain x where x: "x \<in> set cs" "l \<in> set (bt_leaves (snd x))" by auto
  then have "bt_at h N p (snd x)" using Br(2) by (auto simp: bt_at_Br list_all_iff)
  then show ?case using Br(1)[of x "snd x" p] x by (auto simp: snds.simps)
qed

lemma bt_at_leaf_page:
  "bt_at h N par t \<Longrightarrow> p \<in> set (bt_pages t) \<Longrightarrow> N p = Some n \<Longrightarrow> nd_is_leaf n \<Longrightarrow> p \<in> fst ` set (bt_leaves t)"
proof (induction t arbitrary: par)
  case (Lf q kvs)
  then show ?case by simp
next
  case (Br q cs)
  have "p \<noteq> q" using Br(2,4,5) by (auto simp: bt_at_Br inner_ok_def)
  then obtain x where x: "x \<in> set cs" "p \<in> set (bt_pages (snd x))" using Br(3) by auto
  then have "bt_at h N q (snd x)" using Br(2) by (auto simp: bt_at_Br list_all_iff)
  then have "p \<in> fst ` set (bt_leaves (snd x))" using Br(1)[of x "snd x" q] x Br(4,5) by (auto simp: snds.simps)
  then show ?case using x(1) by auto
qed

text \<open>The links between leaves do not matter for the tree.\<close>

definition relinked :: "(page_id_t \<Rightarrow> IxNode option) \<Rightarrow> (page_id_t \<Rightarrow> IxNode option) \<Rightarrow> bool" where
  "relinked N N' \<longleftrightarrow> (\<forall>p n. N p = Some n \<longrightarrow> (\<exists>a. in_int a \<and> N' p = Some (n\<lparr>nd_prev_leaf := a\<rparr>)) \<or> N' p = Some n)"

lemma relinked_ok:
  assumes "relinked N N'" and "N p = Some n"
  shows "\<exists>n'. N' p = Some n' \<and> (leaf_ok h par kvs n \<longrightarrow> leaf_ok h par kvs n') \<and> (inner_ok h par xs n \<longrightarrow> inner_ok h par xs n')"
proof -
  consider "N' p = Some n" | a where "in_int a" "N' p = Some (n\<lparr>nd_prev_leaf := a\<rparr>)" using assms unfolding relinked_def by blast
  then show ?thesis by cases (auto simp: leaf_ok_def inner_ok_def node_fits_def get_size_def)
qed

lemma bt_at_relinked: "relinked N N' \<Longrightarrow> bt_at h N par t \<Longrightarrow> bt_at h N' par t"
proof (induction t arbitrary: par)
  case (Lf p kvs)
  then obtain n where "N p = Some n" "leaf_ok h par kvs n" by (auto simp: bt_at_Lf)
  then show ?case using relinked_ok[OF Lf(1), of p n h par kvs "[]"] by (auto simp: bt_at_Lf)
next
  case (Br p cs)
  then obtain n where n: "N p = Some n" "inner_ok h par (map c_page cs) n" by (auto simp: bt_at_Br)
  have "\<exists>n. N' p = Some n \<and> inner_ok h par (map c_page cs) n"
    using relinked_ok[OF Br(2) n(1), of h par "[]" "map c_page cs"] n(2) by auto
  moreover have "bt_at h N' p (snd x)" if "x \<in> set cs" for x
    using Br(1)[of x "snd x" p] Br(2,3) that by (auto simp: bt_at_Br list_all_iff snds.simps)
  ultimately show ?case using Br(3) by (auto simp: bt_at_Br list_all_iff)
qed

section \<open>Splitting the leaf\<close>

text \<open>Having found the leaf.\<close>

lemma ix_at_sim:
  assumes I: "bp_inv (ih_bpm s)" and at: "ix_at s q n f s1"
  shows "ix_sim s {#q#} (\<lambda>_. f) (fd2pageno (bp_disk (ih_bpm s)) (ih_fd s)) (ix_view s) s1"
proof -
  have pn: "0 \<le> pins (ih_bpm s) pid" for pid
    using bp_struct_table(3)[OF bp_inv_struct[OF I]] by (auto simp: pins_def split: option.split)
  have us: "ix_used s {#q#} = (if pins (ih_bpm s) (ix_pid s q) = 0 then 1 else 0)"
  proof -
    have "{p. p \<in># {#q#} \<and> pins (ih_bpm s) (ix_pid s p) = 0} = (if pins (ih_bpm s) (ix_pid s q) = 0 then {q} else {})" by auto
    then show ?thesis by (simp add: ix_used_def)
  qed
  have "ix_view s \<subseteq>\<^sub>m ix_view s1" using at unfolding ix_at_def map_le_def by (metis domIff option.collapse)
  then show ?thesis using at pn us by (auto simp: ix_sim_def ix_at_def disk_le_def)
qed

text \<open>The entries of the leaf with the new one.\<close>

lemma asc_halves:
  assumes "ixk.asc h kvs" and "m < length kvs"
  shows "ixk.asc h (take m kvs)" "ixk.asc h (drop m kvs)" "hkey h (fst (kvs ! m))"
    "\<forall>kv \<in> set (take m kvs). key_cmp h (fst kv) (fst (kvs ! m)) < 0" "\<forall>kv \<in> set (drop m kvs). key_cmp h (fst (kvs ! m)) (fst kv) \<le> 0"
proof -
  have dm: "drop m kvs = kvs ! m # drop (Suc m) kvs" using assms(2) by (simp add: Cons_nth_drop_Suc)
  have "sorted_wrt (\<lambda>a b. key_cmp h (fst a) (fst b) < 0) (take m kvs @ drop m kvs)" and hk: "\<forall>kv \<in> set kvs. hkey h (fst kv)"
    using assms(1) by (simp_all add: ixk.asc_def)
  then have st: "sorted_wrt (\<lambda>a b. key_cmp h (fst a) (fst b) < 0) (take m kvs)" "sorted_wrt (\<lambda>a b. key_cmp h (fst a) (fst b) < 0) (drop m kvs)"
      "\<forall>a \<in> set (take m kvs). \<forall>b \<in> set (drop m kvs). key_cmp h (fst a) (fst b) < 0"
    unfolding sorted_wrt_append by blast+
  show "ixk.asc h (take m kvs)" "ixk.asc h (drop m kvs)" using st hk by (auto simp: ixk.asc_def dest: in_set_takeD in_set_dropD)
  show hm: "hkey h (fst (kvs ! m))" using hk assms(2) by simp
  show "\<forall>kv \<in> set (take m kvs). key_cmp h (fst kv) (fst (kvs ! m)) < 0" using st(3) unfolding dm by simp
  show "\<forall>kv \<in> set (drop m kvs). key_cmp h (fst (kvs ! m)) (fst kv) \<le> 0"
    using st(2) ixk.cmp_refl[OF hm] unfolding dm by (auto intro: less_imp_le)
qed

lemma entry_half:
  assumes "ixk.asc h kvs" and "m < length kvs" and "(key, r) \<in> set kvs"
  shows "(key, r) \<in> set (if 0 \<le> key_cmp h key (fst (kvs ! m)) then drop m kvs else take m kvs)"
proof -
  note h = asc_halves[OF assms(1,2)]
  have hk: "hkey h key" using assms(1,3) by (auto simp: ixk.asc_def)
  have "(key, r) \<in> set (take m kvs) \<or> (key, r) \<in> set (drop m kvs)" using assms(3) by (metis UnE append_take_drop_id set_append)
  then show ?thesis using h(4,5) ixk.cmp_pos[OF h(3) hk] by force
qed

lemma leaf_halves_fit:
  assumes o: "bt_ord h (plug c (Lf q old))" and a: "ixk.asc h kvs" and m: "0 < m" "m < length kvs"
    and ks: "\<forall>kv \<in> set kvs. ctx_in h c (fst kv)"
  shows "fits_behind h c (Lf q (take m kvs)) (fst (kvs ! m)) (Lf P (drop m kvs))"
proof -
  note h = asc_halves[OF a m(2)]
  have dm: "drop m kvs = kvs ! m # drop (Suc m) kvs" using m(2) by (simp add: Cons_nth_drop_Suc)
  have "bt_ord h (plug c (Lf 0 []))" using o plug_ord[of h c "Lf q old"] by blast
  then have "bt_ord h (plug c (Lf q (take m kvs)))"
    using plug_ord[of h c "Lf q (take m kvs)"] h(1) ks by (auto dest: in_set_takeD)
  moreover have "take m kvs \<noteq> []" using m by auto
  moreover have "\<forall>kv \<in> set (drop m kvs). ctx_in h c (fst kv)" using ks by (auto dest: in_set_dropD)
  ultimately show ?thesis
    unfolding fits_behind_def using h dm by simp
qed

lemma leaf_split_tree:
  assumes at: "bt_at h N IX_NO_PAGE (plug c (Lf q old))" and d: "distinct (bt_pages (plug c (Lf q old)))" and n: "N q = Some n"
    and P: "N P = None" "in_int P" "in_int q" and x: "N x = Some m" "x \<noteq> q" "in_int x" and fits: "node_fits h (n\<lparr>nd_kvs := kvs\<rparr>)"
    and ms: "ms = length kvs div 2" "0 < ms" "ms < length kvs"
    and first: "c = [] \<or> bt_first (Lf q kvs) = bt_first (Lf q old)"
  defines "N' \<equiv> N(P \<mapsto> split_right q x (n\<lparr>nd_kvs := kvs\<rparr>), x \<mapsto> m\<lparr>nd_prev_leaf := P\<rparr>, q \<mapsto> (set_size ms (n\<lparr>nd_kvs := kvs\<rparr>))\<lparr>nd_next_leaf := P\<rparr>)"
  shows "bt_at h N' IX_NO_PAGE (plug c (Lf q (take ms kvs)))" and "bt_at h N' (ctx_par c) (Lf P (drop ms kvs))"
    and "distinct (ctx_pages c @ bt_pages (Lf q (take ms kvs)) @ bt_pages (Lf P (drop ms kvs)))"
proof -
  let ?n = "n\<lparr>nd_kvs := kvs\<rparr>" and ?N = "N(x \<mapsto> m\<lparr>nd_prev_leaf := P\<rparr>)"
  have c: "ctx_at h N c q (bt_first (Lf q old))" and lf: "leaf_ok h (ctx_par c) old n" using at n by (auto simp: plug_at bt_at_Lf)
  have Pq: "P \<noteq> q" "P \<noteq> x" using P(1) n x(1) by auto
  have Pc: "P \<notin> set (ctx_pages c)" using ctx_at_pages[OF c, of P] P(1) by auto
  have qc: "q \<notin> set (ctx_pages c)" and dc: "distinct (ctx_pages c)" using d plug_distinct[of c "Lf q old"] by auto
  show "distinct (ctx_pages c @ bt_pages (Lf q (take ms kvs)) @ bt_pages (Lf P (drop ms kvs)))" using Pq Pc qc dc by auto
  have "relinked N ?N" using x(1) P(2) by (auto simp: relinked_def)
  then have "bt_at h ?N IX_NO_PAGE (plug c (Lf q old))" by (rule bt_at_relinked[OF _ at])
  then have "ctx_at h ?N c q (bt_first (Lf q old))" by (simp add: plug_at)
  moreover have "bt_first (Lf q (take ms kvs)) = bt_first (Lf q kvs)" using ms(2,3) by (cases kvs; cases ms) auto
  ultimately have "ctx_at h ?N c q (bt_first (Lf q (take ms kvs)))" using first by (cases "c = []") simp_all
  moreover have "ctx_at h N' c q (bt_first (Lf q (take ms kvs))) = ctx_at h ?N c q (bt_first (Lf q (take ms kvs)))"
    by (rule ctx_at_cong) (use Pc qc in \<open>auto simp: N'_def\<close>)
  moreover have len: "int (length kvs) \<le> get_max_size h" using fits by (simp add: node_fits_def get_size_def)
  have "leaf_ok h (ctx_par c) (take ms kvs) ((set_size ms ?n)\<lparr>nd_next_leaf := P\<rparr>)"
    using lf fits len ms P(2) by (auto simp: leaf_ok_def node_fits_def set_size_def get_size_def dest: in_set_takeD)
  then have "bt_at h N' (ctx_par c) (Lf q (take ms kvs))" by (simp add: bt_at_Lf N'_def)
  ultimately show "bt_at h N' IX_NO_PAGE (plug c (Lf q (take ms kvs)))" by (simp add: plug_at)
  have "leaf_ok h (ctx_par c) (drop ms kvs) (split_right q x ?n)"
    using lf split_right_fits[OF fits P(3) x(3)] len ms by (simp add: leaf_ok_def split_right_def get_size_def)
  then show "bt_at h N' (ctx_par c) (Lf P (drop ms kvs))" using Pq by (simp add: bt_at_Lf N'_def)
qed

lemma split_linked:
  assumes L: "linked N (A @ (q, old) # B) e" and d: "distinct (map fst (A @ (q, old) # B))" and n: "N q = Some n" and P: "N P = None"
    and x: "N (nd_next_leaf n) = Some m" "nd_next_leaf n \<noteq> q" and ms: "ms = length kvs div 2"
  defines "N' \<equiv> N(P \<mapsto> split_right q (nd_next_leaf n) (n\<lparr>nd_kvs := kvs\<rparr>), nd_next_leaf n \<mapsto> m\<lparr>nd_prev_leaf := P\<rparr>,
      q \<mapsto> (set_size ms (n\<lparr>nd_kvs := kvs\<rparr>))\<lparr>nd_next_leaf := P\<rparr>)"
  shows "linked N' (A @ (q, take ms kvs) # (P, drop ms kvs) # B) e"
proof -
  have l: "linked N A q" "linked N B e" "nd_is_leaf n" "nd_next_leaf n = (case B of [] \<Rightarrow> e | l # _ \<Rightarrow> fst l)"
    using L n unfolding linked_append by auto
  have same: "\<exists>a'. N' (fst l) = Some a' \<and> nd_is_leaf a' = nd_is_leaf a \<and> nd_kvs a' = nd_kvs a \<and> nd_next_leaf a' = nd_next_leaf a"
    if "l \<in> set A \<union> set B" "N (fst l) = Some a" for l a
  proof -
    have "fst l \<noteq> q" "fst l \<noteq> P" using that d P by auto
    then show ?thesis using that(2) x(1) by (auto simp: N'_def)
  qed
  have "linked N' A q" "linked N' B e" by (rule linked_change[OF l(1)], use same in blast, rule linked_change[OF l(2)], use same in blast)
  moreover have "N' q = Some ((set_size ms (n\<lparr>nd_kvs := kvs\<rparr>))\<lparr>nd_next_leaf := P\<rparr>)" by (simp add: N'_def)
  moreover have "N' P = Some (split_right q (nd_next_leaf n) (n\<lparr>nd_kvs := kvs\<rparr>))" using n P x by (auto simp: N'_def)
  ultimately show ?thesis
    unfolding linked_append using l(3,4) by (simp add: set_size_def split_right_def ms get_size_def)
qed

text \<open>The layout decides the order.\<close>

lemma same_layout_tree:
  assumes "same_layout h h'"
  shows "bt_ord h' t = bt_ord h t" and "bt_links h' N par t = bt_links h N par t" and "ix_end h' N t = ix_end h N t" and "bt_map h' t = bt_map h t"
proof -
  note l = same_layoutD[OF assms]
  have asc2: "ixk.asc h' (cs :: (byte list \<times> bt) list) = ixk.asc h cs" for cs by (simp add: ixk.asc_def l)
  have "ixk.asc h' (kvs :: (byte list \<times> Rid) list) = ixk.asc h kvs" for kvs by (simp add: ixk.asc_def l)
  then show "bt_ord h' t = bt_ord h t"
    by (induction t) (auto simp: list_all_iff snds.simps bt_sep_def asc2 l)
  show "bt_links h' N par t = bt_links h N par t"
    by (induction t arbitrary: par) (auto simp: list_all_iff snds.simps l split: option.splits)
  show "ix_end h' N t = ix_end h N t" by (simp add: ix_end_def l)
  show "bt_map h' t = bt_map h t" by (simp add: bt_map_def l fun_eq_iff)
qed

lemma linked_kept:
  assumes "linked N L e" and "\<forall>l \<in> set L. \<forall>n. N (fst l) = Some n \<longrightarrow> node_fits h n" and "leaves_kept h N N'"
  shows "linked N' L e"
  using assms(1,2)
proof (induction L)
  case (Cons l L)
  then obtain n where n: "N (fst l) = Some n" "nd_is_leaf n" "nd_kvs n = snd l" "nd_next_leaf n = (case L of [] \<Rightarrow> e | l' # _ \<Rightarrow> fst l')" "node_fits h n"
    by auto
  then obtain r where "N' (fst l) = Some (n\<lparr>nd_parent := r\<rparr>)" using assms(3) unfolding leaves_kept_def by blast
  then show ?case using n Cons by simp
qed simp

text \<open>What is left behind is an index.\<close>

lemma grown_index:
  assumes g: "grown s {#} H h ll N L s'" and av: "0 < bp_avail (ih_bpm s)"
    and L: "linked N L e" "L \<noteq> []" "distinct (map fst L)" "ll = fst (last L)" "first_leaf h = fst (hd L)" "1 < length L \<Longrightarrow> \<forall>l \<in> set L. snd l \<noteq> []"
    and fit: "\<forall>l \<in> set L. \<forall>n. N (fst l) = Some n \<longrightarrow> node_fits h n" and e: "e \<notin> fst ` set L" "N e = Some m" "nd_is_leaf m" "node_fits h m"
  shows "\<exists>t. ix_index s' t \<and> bt_leaves t = L \<and> bt_ord h t \<and> same_layout h (ih_hdr s') \<and> pins (ih_bpm s') = pins (ih_bpm s)"
proof -
  obtain P N' t where g: "ix_sim s {#} H P N' s'" "bt_at h N' IX_NO_PAGE t" "distinct (bt_pages t)" "bt_ord h t" "bt_leaves t = L"
      "same_layout h (ih_hdr s')" "last_leaf (ih_hdr s') = ll" "root_page (ih_hdr s') = bt_page t" "bt_page t \<noteq> IX_NO_PAGE" "leaves_kept h N N'"
    using g unfolding grown_def by blast
  note l = same_layoutD[OF g(6)] and lt = same_layout_tree[OF g(6)]
  have v: "ix_view s' p = Some n" if "N' p = Some n" for p n using sim_less[OF g(1) that] .
  have r: "ix_ready s'" using g(1) av by (simp add: ix_sim_def ix_ready_def bp_roomy_avail ix_used_def)
  have pid: "pid = ix_pid s (pid_page_no pid)" if "pid_fd pid = ih_fd s" for pid using that by simp
  have pins: "pins (ih_bpm s') = pins (ih_bpm s)"
  proof
    fix pid
    have "pid_fd pid \<noteq> ih_fd s \<Longrightarrow> pins (ih_bpm s') pid = pins (ih_bpm s) pid" "\<And>p. pins (ih_bpm s') (ix_pid s p) = pins (ih_bpm s) (ix_pid s p)"
      using g(1) by (simp_all add: ix_sim_def)
    then show "pins (ih_bpm s') pid = pins (ih_bpm s) pid" using pid[of pid] by metis
  qed
  have lk: "linked N' L e" by (rule linked_kept[OF L(1) fit g(10)])
  have ne: "N' e = Some (m\<lparr>nd_parent := r\<rparr>) \<Longrightarrow> e \<notin> set (bt_pages t)" for r
    using bt_at_leaf_page[OF g(2), of e "m\<lparr>nd_parent := r\<rparr>"] g(5) e(1,3) by auto
  obtain r0 where r0: "in_int r0" "N' e = Some (m\<lparr>nd_parent := r0\<rparr>)" using g(10) e(2-4) unfolding leaves_kept_def by blast
  have "ix_end h N' t"
    using linked_ix_end[of N' t e "m\<lparr>nd_parent := r0\<rparr>" h] lk L(2) g(5) ne r0 e(3) node_fits_parent[OF e(4) r0(1)] by simp
  then have "ix_end (ih_hdr s') (ix_view s') t" unfolding lt using ix_end_mono v by blast
  moreover have "ix_leaves s' L"
    by (rule linked_ix_leaves[of s' L e]) (use L(2-6) g(7) l(6) linked_change[OF lk, of "ix_view s'"] v in auto)
  moreover have "bt_rep (ix_view s') t" "bt_links (ih_hdr s') (ix_view s') IX_NO_PAGE t"
    using g(2) bt_rep_mono[of N' "ix_view s'" t] bt_links_mono[of N' "ix_view s'"] v unfolding lt by (auto simp: bt_at_def)
  ultimately have "ix_index s' t" using r g(3-5,8,9) unfolding ix_index_def ix_tree_def lt by simp
  then show ?thesis using g(4-6) pins by blast
qed

section \<open>Inserting with a split\<close>

lemma grown_leaf:
  assumes "grown s0 M H h ll N L s" and "p \<in># M" and "N p = Some n" and "nd_is_leaf n" and "node_fits h n"
  shows "\<exists>r. ix_node s (H p) = n\<lparr>nd_parent := r\<rparr>"
proof -
  obtain P' N' where g: "ix_sim s0 M H P' N' s" "leaves_kept h N N'" using assms(1) unfolding grown_def by blast
  obtain r where "N' p = Some (n\<lparr>nd_parent := r\<rparr>)" using g(2) assms(3-5) unfolding leaves_kept_def by blast
  then show ?thesis using sim_node(1)[OF g(1) assms(2)] by blast
qed

lemma grown_page: "grown s0 M H h ll N L s \<Longrightarrow> p \<in># M \<Longrightarrow> ix_page_no s (H p) = p"
  unfolding grown_def using sim_page by blast

lemma grown_layout: "grown s0 M H h ll N L s \<Longrightarrow> same_layout h (ih_hdr s)"
  unfolding grown_def by blast

lemma leaf_next:
  assumes L: "linked N (A @ (q, old) # B) e" and d: "distinct (map fst (A @ (q, old) # B))" and n: "N q = Some n"
    and fit: "\<forall>l \<in> set B. \<forall>n. N (fst l) = Some n \<longrightarrow> node_fits h n" and e: "e \<noteq> q" "N e = Some m" "node_fits h m"
  obtains x where "N (nd_next_leaf n) = Some x" "nd_next_leaf n \<noteq> q" "node_fits h x"
proof (cases B)
  case Nil
  then have "nd_next_leaf n = e" using L n unfolding linked_append by auto
  then show thesis using that e by blast
next
  case (Cons b B')
  then have "nd_next_leaf n = fst b" "\<exists>x. N (fst b) = Some x" using L n unfolding linked_append by auto
  moreover have "fst b \<noteq> q" using d Cons by auto
  ultimately show thesis using that fit Cons by auto
qed

text \<open>The run: the leaf splits \<dots>\<close>

lemma leaf_split_run:
  assumes S: "ix_sim s {#q#} H P N s1" and h: "ih_hdr s1 = h"
    and n: "N q = Some n" "nd_is_leaf n" and ins: "nd_insert h key value n = Inr (n\<lparr>nd_kvs := kvs\<rparr>)" "node_fits h (n\<lparr>nd_kvs := kvs\<rparr>)"
    and x: "N (nd_next_leaf n) = Some m" "nd_next_leaf n \<noteq> q" "node_fits h m"
    and ms: "ms = length kvs div 2" "ms < length kvs" and room: "2 < bp_avail (ih_bpm s)" and g: "can_grow s P"
  defines "N' \<equiv> N(P \<mapsto> split_right q (nd_next_leaf n) (n\<lparr>nd_kvs := kvs\<rparr>), nd_next_leaf n \<mapsto> m\<lparr>nd_prev_leaf := P\<rparr>,
      q \<mapsto> (set_size ms (n\<lparr>nd_kvs := kvs\<rparr>))\<lparr>nd_next_leaf := P\<rparr>)"
  obtains s2 e s3 where "ix_upd (H q) (\<lambda>h. nd_insert h key value) s1 = (Inr (), s2)" "ix_node s1 (H q) = n" "ix_node s2 (H q) = n\<lparr>nd_kvs := kvs\<rparr>"
    "ih_hdr s2 = h" "split_node (H q) s2 = (Inr e, s3)" "P \<noteq> q" "N P = None" "ix_sim s {#P, q#} (H(P := e)) (P + 1) N' s3"
    "ih_hdr s3 = h\<lparr>ix_num_pages := c_int (ix_num_pages h + 1), last_leaf := (if last_leaf h = q then P else last_leaf h)\<rparr>"
    "N' P = Some (split_right q (nd_next_leaf n) (n\<lparr>nd_kvs := kvs\<rparr>))" "get_key (ix_node s3 e) 0 = Inr (fst (kvs ! ms))"
proof -
  let ?n = "n\<lparr>nd_kvs := kvs\<rparr>" and ?N1 = "N(q \<mapsto> n\<lparr>nd_kvs := kvs\<rparr>)"
  have qM: "q \<in># {#q#}" by simp
  have sz: "get_size ?n = length kvs" by (simp add: get_size_def)
  obtain s2 where s2: "ix_upd (H q) (\<lambda>h. nd_insert h key value) s1 = (Inr (), s2)" "ix_sim s {#q#} H P ?N1 s2" "ih_hdr s2 = h"
    using sim_upd[where g = "\<lambda>h. nd_insert h key value", OF S qM n(1) _ _] ins unfolding h by metis
  have nd: "ix_node s1 (H q) = n" "ix_node s2 (H q) = ?n" using sim_node(1)[OF S qM n(1)] sim_node(1)[OF s2(2) qM fun_upd_same] by simp_all
  have x1: "?N1 (nd_next_leaf ?n) = Some m" "nd_next_leaf ?n \<noteq> q" "nd_is_leaf ?n" using x n(2) by simp_all
  have r1: "Suc (size {#q#}) < bp_avail (ih_bpm s)" using room by simp
  have f2: "node_fits (ih_hdr s2) ?n" "node_fits (ih_hdr s2) m" using ins(2) x(3) s2(3) by simp_all
  obtain e s3 where e: "split_node (H q) s2 = (Inr e, s3)" "P \<noteq> q" "?N1 P = None"
    "ix_sim s {#P, q#} (H(P := e)) (P + 1) (?N1(P \<mapsto> split_right q (nd_next_leaf ?n) ?n,
       nd_next_leaf ?n \<mapsto> m\<lparr>nd_prev_leaf := P\<rparr>, q \<mapsto> (set_size (get_size ?n div 2) ?n)\<lparr>nd_next_leaf := P\<rparr>)) s3"
    "ih_hdr s3 = (ih_hdr s2)\<lparr>ix_num_pages := c_int (ix_num_pages (ih_hdr s2) + 1),
       last_leaf := (if last_leaf (ih_hdr s2) = q then P else last_leaf (ih_hdr s2))\<rparr>"
    by (rule split_leaf[OF s2(2) qM fun_upd_same f2(1) x1(3) sim_in_int[OF S n(1)] x1(1,2) f2(2) g r1])
  have NP: "N P = None" using e(2,3) by simp
  have "?N1(P \<mapsto> split_right q (nd_next_leaf ?n) ?n, nd_next_leaf ?n \<mapsto> m\<lparr>nd_prev_leaf := P\<rparr>,
      q \<mapsto> (set_size (get_size ?n div 2) ?n)\<lparr>nd_next_leaf := P\<rparr>) = N'"
    unfolding N'_def ms(1) sz by (simp add: fun_eq_iff)
  note e = e[unfolded this s2(3)]
  have N'P: "N' P = Some (split_right q (nd_next_leaf n) ?n)" using e(2) NP x(1) by (auto simp: N'_def)
  have "nd_kvs (split_right q (nd_next_leaf n) ?n) = kvs ! ms # drop (Suc ms) kvs"
    using ms(2) by (simp add: split_right_def sz ms(1)[symmetric] Cons_nth_drop_Suc)
  then have key: "get_key (ix_node s3 e) 0 = Inr (fst (kvs ! ms))"
    using sim_node(1)[OF e(4) _ N'P] by (simp add: get_key_def get_kv_def get_size_def)
  show thesis by (rule that[OF s2(1) nd s2(3) e(1,2) NP e(4,5) N'P key])
qed

text \<open>\<dots> and the new leaf goes into the parent.\<close>

lemma insert_entry_run:
  assumes S: "ix_sim s {#q#} H P N s1" and f: "find_leaf_page fuel key False s = (Inr (Some (H q)), s1)" and h: "ih_hdr s1 = h"
    and n: "N q = Some n" "nd_is_leaf n" and ins: "nd_insert h key value n = Inr (n\<lparr>nd_kvs := kvs\<rparr>)" "length kvs = Suc (get_size n)"
      "get_max_size h \<le> int (length kvs)" "node_fits h (n\<lparr>nd_kvs := kvs\<rparr>)" "ixk.asc h kvs"
    and x: "N (nd_next_leaf n) = Some m" "nd_next_leaf n \<noteq> q" "node_fits h m"
    and at: "bt_at h N IX_NO_PAGE (plug c (Lf q old))" and d: "distinct (bt_pages (plug c (Lf q old)))" and o: "bt_ord h (plug c (Lf q old))"
    and ks: "\<forall>kv \<in> set kvs. ctx_in h c (fst kv)" and first: "c = [] \<or> bt_first (Lf q kvs) = bt_first (Lf q old)"
    and root: "root_page h = bt_page (plug c (Lf q old))" "root_page h \<noteq> IX_NO_PAGE"
    and fuel: "length c < fuel" and room: "2 * length c + 2 < bp_avail (ih_bpm s)" and g: "\<forall>i \<le> Suc (length c). can_grow s (P + int i)"
  defines "ms \<equiv> length kvs div 2"
  defines "N' \<equiv> N(P \<mapsto> split_right q (nd_next_leaf n) (n\<lparr>nd_kvs := kvs\<rparr>), nd_next_leaf n \<mapsto> m\<lparr>nd_prev_leaf := P\<rparr>,
      q \<mapsto> (set_size ms (n\<lparr>nd_kvs := kvs\<rparr>))\<lparr>nd_next_leaf := P\<rparr>)"
  shows "0 < ms" and "ms < length kvs" and "N P = None"
    and "\<forall>l \<in> set (ctx_l c @ (q, take ms kvs) # (P, drop ms kvs) # ctx_r c). \<forall>n. N' (fst l) = Some n \<longrightarrow> node_fits h n"
    and "\<exists>s' H'. insert_entry fuel key value s = (Inr (if 0 \<le> key_cmp h key (fst (kvs ! ms)) then P else q), s') \<and>
      grown s {#} H' h (if last_leaf h = q then P else last_leaf h) N' (ctx_l c @ (q, take ms kvs) # (P, drop ms kvs) # ctx_r c) s'"
proof -
  let ?n = "n\<lparr>nd_kvs := kvs\<rparr>" and ?r = "split_right q (nd_next_leaf n) (n\<lparr>nd_kvs := kvs\<rparr>)" and ?k = "fst (kvs ! ms)"
  let ?t1 = "Lf q (take ms kvs)" and ?t2 = "Lf P (drop ms kvs)" and ?L = "ctx_l c @ (q, take ms kvs) # (P, drop ms kvs) # ctx_r c"
  have "2 < btree_order h" using ins(4) order_bounds(1) by (simp add: node_fits_def)
  then show ms: "0 < ms" "ms < length kvs" using ins(3) by (auto simp: ms_def get_max_size_def)
  note mse = ms_def[THEN meta_eq_to_obj_eq]
  have ints: "in_int q" "in_int (nd_next_leaf n)" using sim_in_int[OF S n(1)] sim_in_int[OF S x(1)] by simp_all
  have gP: "can_grow s P" "\<forall>i \<le> length c. can_grow s (P + 1 + int i)" using g by (auto dest: spec[of _ 0] spec[of _ "Suc _"] simp: add.assoc)
  have iP: "in_int P" using gP(1) by (simp add: can_grow_def in_int_page)
  have room2: "2 < bp_avail (ih_bpm s)" "size {#P, q#} + 2 * length c < bp_avail (ih_bpm s)" using room by simp_all
  obtain s2 e s3 where e: "ix_upd (H q) (\<lambda>h. nd_insert h key value) s1 = (Inr (), s2)" "ix_node s1 (H q) = n" "ix_node s2 (H q) = ?n" "ih_hdr s2 = h"
      "split_node (H q) s2 = (Inr e, s3)" "P \<noteq> q" "N P = None" "ix_sim s {#P, q#} (H(P := e)) (P + 1) N' s3"
      "ih_hdr s3 = h\<lparr>ix_num_pages := c_int (ix_num_pages h + 1), last_leaf := (if last_leaf h = q then P else last_leaf h)\<rparr>"
      "N' P = Some ?r" "get_key (ix_node s3 e) 0 = Inr ?k"
    unfolding N'_def by (rule leaf_split_run[OF S h n ins(1,4) x mse ms(2) room2(1) gP(1)])
  show "N P = None" by (rule e)
  note st = leaf_split_tree[OF at d n(1) e(7) iP ints(1) x(1,2) ints(2) ins(4) mse ms first, folded N'_def]
  have lv: "set ?L = set (bt_leaves (plug c ?t1)) \<union> set (bt_leaves ?t2)" by (auto simp: plug_leaves)
  have "node_fits h n'" if l: "l \<in> set ?L" "N' (fst l) = Some n'" for l n'
  proof -
    have "\<exists>n r. N' (fst l) = Some n \<and> leaf_ok h r (snd l) n" using bt_at_leaves[OF st(1)] bt_at_leaves[OF st(2)] l(1) unfolding lv by blast
    then show ?thesis using l(2) by (auto simp: leaf_ok_def)
  qed
  then show "\<forall>l \<in> set ?L. \<forall>n. N' (fst l) = Some n \<longrightarrow> node_fits h n" by blast
  let ?H = "H(P := e)" and ?G = "\<lambda>M. grown s M (H(P := e)) h (last_leaf (ih_hdr s3)) N' (ctx_l c @ bt_leaves ?t1 @ bt_leaves ?t2 @ ctx_r c)"
  have lay: "same_layout h (ih_hdr s3)" unfolding e(9) by (rule same_layout_trans[OF same_layoutI(1) same_layoutI(3)])
  have fb: "fits_behind h c ?t1 ?k ?t2" by (rule leaf_halves_fit[OF o ins(5) ms ks])
  have MP: "bt_page ?t1 \<in># {#P, q#}" "bt_page ?t2 \<in># {#P, q#}" "P \<in># {#P, q#}" "q \<in># {#P, q#}" by simp_all
  have HP: "?H P = e" "?H q = H q" using e(6) by simp_all
  obtain k1 where k1: "bt_first ?t1 = Some k1" using ms by (cases kvs; cases ms) auto
  have k2: "bt_first ?t2 = Some ?k" using ms(2) by (simp add: Cons_nth_drop_Suc[symmetric])
  have root3: "root_page (ih_hdr s3) = bt_page (plug c ?t1)" "root_page (ih_hdr s3) \<noteq> IX_NO_PAGE" using root e(9) by (simp_all add: plug_page)
  obtain s4 where s4: "insert_into_parent fuel (?H (bt_page ?t1)) ?k (?H (bt_page ?t2)) s3 = (Inr (), s4)" "?G {#P, q#} s4"
    using insert_parent[OF e(8) MP(1,2) lay st k1 k2 fb root3 fuel room2(2) gP(2)] by blast
  have fitP: "nd_is_leaf ?r" "node_fits h ?r" using n(2) split_right_fits[OF ins(4) ints] by (simp_all add: split_right_def)
  obtain r where r: "ix_node s4 e = ?r\<lparr>nd_parent := r\<rparr>" using grown_leaf[OF s4(2) MP(3) e(10) fitP] unfolding HP by blast
  have "get_key (ix_node s4 e) 0 = get_key (ix_node s3 e) 0"
    using r sim_node(1)[OF e(8) MP(3) e(10)] by (simp add: get_key_def get_kv_def get_size_def)
  note key4 = this[unfolded e(11)]
  have pg: "ix_page_no s4 e = P" "ix_page_no s4 (H q) = q" using grown_page[OF s4(2) MP(3)] grown_page[OF s4(2) MP(4)] unfolding HP by simp_all
  have cmp: "key_cmp (ih_hdr s4) = key_cmp h" using grown_layout[OF s4(2)] by (rule same_layoutD(2))
  obtain s5 where s5: "ix_unpin (?H P) True s4 = (Inr True, s5)" "?G {#q#} s5" by (rule grown_unpin[OF s4(2)])
  obtain s6 where s6: "ix_unpin (?H q) True s5 = (Inr True, s6)" "?G {#} s6" by (rule grown_unpin[OF s5(2)])
  have big: "get_size ?n \<noteq> get_size n" "get_max_size h \<le> int (get_size ?n)" using ins(2,3) by (simp_all add: get_size_def)
  have ins4: "insert_into_parent fuel (H q) ?k e s3 = (Inr (), s4)" using s4(1) e(6) by simp
  have "insert_entry fuel key value s = (Inr (if 0 \<le> key_cmp h key ?k then P else q), s6)"
    using f e(1-5,11) big ins4 key4 pg cmp s5(1) s6(1) HP unfolding insert_entry_def by (simp add: em_defs ix_res_def)
  moreover have "grown s {#} ?H h (if last_leaf h = q then P else last_leaf h) N' ?L s6" using s6(2) e(9) by simp
  ultimately show "\<exists>s' H'. insert_entry fuel key value s = (Inr (if 0 \<le> key_cmp h key ?k then P else q), s') \<and>
      grown s {#} H' h (if last_leaf h = q then P else last_leaf h) N' ?L s'" by blast
qed

lemma plug_Lf: "plug c t = Lf p kvs \<Longrightarrow> c = []"
  by (induction c t rule: plug.induct) auto

text \<open>The new leaf list.\<close>

lemma split_leaves:
  assumes L: "ix_leaves s (A @ (q, old) # B)" and P: "ix_view s P = None" and ne: "l1 \<noteq> []" "l2 \<noteq> []"
  defines "L' \<equiv> A @ (q, l1) # (P, l2) # B"
  shows "distinct (map fst L')" and "(if last_leaf (ih_hdr s) = q then P else last_leaf (ih_hdr s)) = fst (last L')"
    and "first_leaf (ih_hdr s) = fst (hd L')" and "\<forall>l \<in> set L'. snd l \<noteq> []" and "e \<notin> set (map fst (A @ (q, old) # B)) \<Longrightarrow> e \<noteq> P \<Longrightarrow> e \<notin> fst ` set L'"
proof -
  let ?L = "A @ (q, old) # B"
  have l: "distinct (map fst ?L)" "last_leaf (ih_hdr s) = fst (last ?L)" "first_leaf (ih_hdr s) = fst (hd ?L)" "1 < length ?L \<longrightarrow> (\<forall>l \<in> set ?L. snd l \<noteq> [])"
    using L by (simp_all add: ix_leaves_def)
  have "ix_view s (fst l) \<noteq> None" if "l \<in> set ?L" for l
  proof -
    obtain i where "i < length ?L" "l = ?L ! i" using \<open>l \<in> set ?L\<close> unfolding in_set_conv_nth by blast
    then show ?thesis using ix_leaves_nth[OF L] by fastforce
  qed
  then have "P \<notin> fst ` set ?L" using P by force
  then show "distinct (map fst L')" using l(1) by (auto simp: L'_def)
  have "fst (last B) \<noteq> q" if "B \<noteq> []" using l(1) last_in_set[OF that] by auto
  then show "(if last_leaf (ih_hdr s) = q then P else last_leaf (ih_hdr s)) = fst (last L')" using l(2) by (simp add: L'_def)
  show "first_leaf (ih_hdr s) = fst (hd L')" using l(3) by (simp add: L'_def hd_append)
  show "\<forall>l \<in> set L'. snd l \<noteq> []"
  proof (cases "A @ B = []")
    case False
    then have "1 < length ?L" by (cases A; cases B) auto
    then show ?thesis using l(4) ne by (auto simp: L'_def)
  qed (use ne in \<open>simp add: L'_def\<close>)
  show "e \<notin> set (map fst ?L) \<Longrightarrow> e \<noteq> P \<Longrightarrow> e \<notin> fst ` set L'" by (auto simp: L'_def)
qed

text \<open>The new contents.\<close>

lemma split_map:
  assumes o: "bt_ord h t" and k: "hkey h key" and d: "distinct (map fst (bt_leaves t))" and b: "bt_leaf h key t = (q, old)" "bt_leaves t = A @ (q, old) # B"
    and a: "ixk.asc h kvs" "\<forall>kv \<in> set kvs. kv = (key, value) \<or> kv \<in> set old"
    and f: "\<forall>k'. hkey h k' \<longrightarrow> ixk.kv_find h kvs k' = (if key_cmp h key k' = 0 then Some value else ixk.kv_find h old k')"
    and t': "bt_leaves t' = A @ (q, take m kvs) # (P, drop m kvs) # B" and k': "hkey h k'"
  shows "bt_map h t' k' = (if key_cmp h key k' = 0 then Some value else bt_map h t k')"
proof -
  obtain A' B' where ab: "bt_leaves t = A' @ (q, old) # B'" "bt_leaves (bt_put h key kvs t) = A' @ (q, kvs) # B'"
    using bt_leaves_put[OF o k, of kvs] b(1) by auto
  have "(q, old) \<notin> set A" "(q, old) \<notin> set B" using d b(2) by force+
  then have "A' = A" "B' = B" using ab(1) b(2) append_Cons_eq_iff[of "(q, old)" A B A' B'] by auto
  then have kv: "bt_kvs (bt_put h key kvs t) = bt_kvs t'" unfolding bt_kvs_leaves ab(2) t' by simp
  have "\<forall>kv \<in> set kvs. fst kv = key \<or> fst kv \<in> fst ` set (snd (bt_leaf h key t))" using a(2) b(1) by auto
  then have "bt_ord h (bt_put h key kvs t)" by (rule bt_ord_put[OF o k a(1)])
  then show ?thesis using bt_find_put[OF o k _ k', of kvs "Some value"] f b(1) kv by (simp add: bt_map_find)
qed

lemma insert_entry_split:
  assumes I: "ix_index s t" and k: "hkey (ih_hdr s) key" and fu: "bt_height t < fuel" and a: "bt_map (ih_hdr s) t key = None"
    and v: "int (length key) = ix_col_tot_len (ih_hdr s)" "rid_ok value"
    and full: "get_max_size (ih_hdr s) \<le> int (length (snd (bt_leaf (ih_hdr s) key t))) + 1"
    and low: "(\<exists>p kvs. t = Lf p kvs) \<or> key_cmp (ih_hdr s) (fst (hd (bt_kvs t))) key \<le> 0"
    and room: "2 * bt_height t + 2 < bp_avail (ih_bpm s)"
    and g: "\<forall>i \<le> Suc (bt_height t). can_grow s (fd2pageno (bp_disk (ih_bpm s)) (ih_fd s) + int i)"
  shows "\<exists>s' t' p kvs. insert_entry fuel key value s = (Inr p, s') \<and> ix_index s' t' \<and> (p, kvs) \<in> set (bt_leaves t') \<and> (key, value) \<in> set kvs \<and>
    same_layout (ih_hdr s) (ih_hdr s') \<and> pins (ih_bpm s') = pins (ih_bpm s) \<and>
    (\<forall>k'. hkey (ih_hdr s) k' \<longrightarrow> bt_map (ih_hdr s) t' k' =
       (if key_cmp (ih_hdr s) key k' = 0 then Some value else bt_map (ih_hdr s) t k'))"
proof -
  let ?h = "ih_hdr s" and ?N = "ix_view s" and ?P = "fd2pageno (bp_disk (ih_bpm s)) (ih_fd s)"
  obtain q old where ql: "bt_leaf ?h key t = (q, old)" by fastforce
  have T: "ix_tree s t" and i: "bt_ord ?h t" "bt_at ?h ?N IX_NO_PAGE t" "distinct (bt_pages t)" "bp_inv (ih_bpm s)" "ix_leaves s (bt_leaves t)"
      "root_page ?h = bt_page t" "root_page ?h \<noteq> IX_NO_PAGE"
    using I by (simp_all add: ix_index_def ix_tree_def ix_ready_def bt_at_def)
  obtain c where c: "t = plug c (Lf q old)" "ctx_in ?h c key" "length c \<le> bt_height t" using leaf_path[OF i(1) k] unfolding ql by auto
  obtain f s1 n where f: "find_leaf_page fuel key False s = (Inr (Some f), s1)" and vn: "?N q = Some n" and
      at: "ix_at s q n f s1" and n: "nd_is_leaf n" "nd_kvs n = old"
    using find_leaf_page_at[OF T k fu] unfolding ql by auto
  obtain kvs where p: "nd_insert ?h key value n = Inr (n\<lparr>nd_kvs := kvs\<rparr>)" "length kvs = Suc (length old)" "(key, value) \<in> set kvs"
      "\<forall>kv \<in> set kvs. kv = (key, value) \<or> kv \<in> set old" "ixk.asc ?h kvs" "node_fits ?h (n\<lparr>nd_kvs := kvs\<rparr>)"
      "\<forall>k'. hkey ?h k' \<longrightarrow> ixk.kv_find ?h kvs k' = (if key_cmp ?h key k' = 0 then Some value else ixk.kv_find ?h old k')"
      "(\<exists>p kvs. t = Lf p kvs) \<or> bt_first (Lf 0 kvs) = bt_first (Lf 0 old)"
    by (rule leaf_insert[OF I k a v low, unfolded ql fst_conv snd_conv, OF vn n(2)])
  obtain e m where e: "linked ?N (bt_leaves t) e" "e \<notin> set (bt_pages t)" "?N e = Some m" "nd_is_leaf m" "node_fits ?h m"
    by (rule ix_index_linked[OF I])
  have lv: "bt_leaves t = ctx_l c @ (q, old) # ctx_r c" unfolding c(1) by (simp add: plug_leaves)
  have dl: "distinct (map fst (bt_leaves t))" using i(5) by (simp add: ix_leaves_def)
  have fit: "\<forall>l \<in> set (bt_leaves t). \<forall>n. ?N (fst l) = Some n \<longrightarrow> node_fits ?h n"
    using bt_at_leaves[OF i(2)] by (fastforce simp: leaf_ok_def)
  have ep: "e \<notin> set (map fst (bt_leaves t))" using e(2) bt_leaves_pages by fastforce
  then have eq: "e \<noteq> q" using lv by auto
  obtain x where x: "?N (nd_next_leaf n) = Some x" "nd_next_leaf n \<noteq> q" "node_fits ?h x"
    by (rule leaf_next[OF e(1)[unfolded lv] dl[unfolded lv] vn _ eq e(3,5)]) (use fit lv in auto)
  have "\<forall>kv \<in> set old. ctx_in ?h c (fst kv)" using plug_ord[of ?h c "Lf q old"] i(1)[unfolded c(1)] by simp
  then have ks: "\<forall>kv \<in> set kvs. ctx_in ?h c (fst kv)" using p(4) c(2) by fastforce
  have first: "c = [] \<or> bt_first (Lf q kvs) = bt_first (Lf q old)" using p(8) c(1) plug_Lf[of c "Lf q old"] by auto
  have sz: "length kvs = Suc (get_size n)" "get_max_size ?h \<le> int (length kvs)" using p(2) n(2) full ql by (simp_all add: get_size_def)
  have lim: "length c < fuel" "2 * length c + 2 < bp_avail (ih_bpm s)" "\<forall>i \<le> Suc (length c). can_grow s (?P + int i)"
    using c(3) fu room g by auto
  have h1: "ih_hdr s1 = ?h" using ix_atD[OF at] by simp
  note run = insert_entry_run[OF ix_at_sim[OF i(4) at] f h1 vn n(1) p(1) sz p(6,5) x i(2)[unfolded c(1)] i(3)[unfolded c(1)] i(1)[unfolded c(1)] ks first
      i(6)[unfolded c(1)] i(7) lim]
  define ms where "ms = length kvs div 2"
  define N' where "N' = ?N(?P \<mapsto> split_right q (nd_next_leaf n) (n\<lparr>nd_kvs := kvs\<rparr>), nd_next_leaf n \<mapsto> x\<lparr>nd_prev_leaf := ?P\<rparr>,
      q \<mapsto> (set_size ms (n\<lparr>nd_kvs := kvs\<rparr>))\<lparr>nd_next_leaf := ?P\<rparr>)"
  note run = run[folded ms_def, folded N'_def]
  let ?L = "ctx_l c @ (q, take ms kvs) # (?P, drop ms kvs) # ctx_r c" and ?p = "if 0 \<le> key_cmp ?h key (fst (kvs ! ms)) then ?P else q"
  obtain s' H' where s': "insert_entry fuel key value s = (Inr ?p, s')" "grown s {#} H' ?h (if last_leaf ?h = q then ?P else last_leaf ?h) N' ?L s'"
    using run(5) by blast
  have ne: "take ms kvs \<noteq> []" "drop ms kvs \<noteq> []" using run(1,2) by auto
  note sl = split_leaves[OF i(5)[unfolded lv] run(3) ne]
  have eP: "e \<noteq> ?P" using e(3) run(3) by auto
  have "\<exists>m'. N' e = Some m' \<and> nd_is_leaf m' \<and> node_fits ?h m'"
  proof (cases "e = nd_next_leaf n")
    case True
    have "in_int ?P" using g by (auto simp: can_grow_def in_int_page)
    then show ?thesis using True e x eq by (auto simp: N'_def node_fits_def get_size_def)
  qed (use e eP eq in \<open>simp add: N'_def\<close>)
  then obtain m' where m': "N' e = Some m'" "nd_is_leaf m'" "node_fits ?h m'" by blast
  have lk: "linked N' ?L e" unfolding N'_def by (rule split_linked[OF e(1)[unfolded lv] dl[unfolded lv] vn run(3) x(1,2) ms_def])
  have av: "0 < bp_avail (ih_bpm s)" using room by simp
  obtain t' where t': "ix_index s' t'" "bt_leaves t' = ?L" "same_layout ?h (ih_hdr s')" "pins (ih_bpm s') = pins (ih_bpm s)"
    using grown_index[OF s'(2) av lk _ sl(1,2,3) _ run(4) sl(5)[OF ep[unfolded lv] eP] m'] sl(4) by blast
  have "bt_map ?h t' k' = (if key_cmp ?h key k' = 0 then Some value else bt_map ?h t k')" if "hkey ?h k'" for k'
    by (rule split_map[OF i(1) k dl ql lv p(5,4,7) t'(2) that])
  moreover have "(?p, if 0 \<le> key_cmp ?h key (fst (kvs ! ms)) then drop ms kvs else take ms kvs) \<in> set (bt_leaves t')" unfolding t'(2) by simp
  ultimately show ?thesis using s'(1) t' entry_half[OF p(5) run(2) p(3)] by blast
qed

section \<open>Inserting into the index\<close>

text \<open>C3: Inserting into the index. Let the pages of an index form a B+ tree of nodes that are not full, with linked leaves (the leaf
  header page behind the last one), parent links and first keys; let the key not be below all keys (unless the root is a leaf);
  and let the pool have two frames to spare and the leaf of the key room for one more entry, or else the pool have twice
  the height plus three frames to spare and the file be able to grow by the height plus two pages. Then \<^verbatim>\<open>insert_entry\<close> ends and
  leaves such an index again, after splitting the leaf and as many nodes above it as are full, up to a new root, with every
  page pinned as often as before. If the key is in the index, it returns \<^verbatim>\<open>IX_NO_PAGE\<close> and every key keeps its record id;
  otherwise it returns the page of the leaf with the new entry, and the new index binds the key to the given record id and every
  other key as before.\<close>

theorem ix_insert_refines:
  assumes "ix_index s t" and "hkey (ih_hdr s) key" and "bt_height t < fuel"
    and "int (length key) = ix_col_tot_len (ih_hdr s)" and "rid_ok value"
    and "(\<exists>p kvs. t = Lf p kvs) \<or> key_cmp (ih_hdr s) (fst (hd (bt_kvs t))) key \<le> 0"
    and "1 < bp_avail (ih_bpm s) \<and> int (length (snd (bt_leaf (ih_hdr s) key t))) + 1 < get_max_size (ih_hdr s) \<or>
      2 * bt_height t + 2 < bp_avail (ih_bpm s) \<and>
      (\<forall>i \<le> Suc (bt_height t). can_grow s (fd2pageno (bp_disk (ih_bpm s)) (ih_fd s) + int i))"
  shows "\<exists>s' t' p. insert_entry fuel key value s = (Inr p, s') \<and> ix_index s' t' \<and>
    same_layout (ih_hdr s) (ih_hdr s') \<and> pins (ih_bpm s') = pins (ih_bpm s) \<and>
    (if bt_map (ih_hdr s) t key = None then \<exists>kvs. (p, kvs) \<in> set (bt_leaves t') \<and> (key, value) \<in> set kvs else p = IX_NO_PAGE) \<and>
    (\<forall>k. hkey (ih_hdr s) k \<longrightarrow> bt_map (ih_hdr s) t' k =
       (if key_cmp (ih_hdr s) key k = 0 \<and> bt_map (ih_hdr s) t key = None then Some value else bt_map (ih_hdr s) t k))"
proof (cases "bt_map (ih_hdr s) t key = None")
  case True
  show ?thesis
  proof (cases "int (length (snd (bt_leaf (ih_hdr s) key t))) + 1 < get_max_size (ih_hdr s)")
    case room: True
    have "1 < bp_avail (ih_bpm s)" using assms(7) by linarith
    then show ?thesis using insert_entry_new[OF assms(1-3) True _ assms(4,5) room assms(6)] True same_layoutI(4) by fastforce
  next
    case False
    then show ?thesis using insert_entry_split[OF assms(1-3) True assms(4,5) _ assms(6)] assms(7) True by fastforce
  qed
next
  case False
  obtain s' where "insert_entry fuel key value s = (Inr IX_NO_PAGE, s')" "ix_same s s'"
    using insert_entry_present[OF assms(1-3) False] by blast
  then show ?thesis using ix_index_same[of s s' t] assms(1) False same_layoutI(4) by (auto simp: ix_same_def)
qed

text \<open>A leaf that splits: six keys of 512 characters in the root; a page has room for seven entries.\<close>

definition split_ixhdr :: IxFileHdr where
  "split_ixhdr = update_tot_len ((new_IxFileHdr IX_NO_PAGE 3 2 1 512 6 3584 2 2)\<lparr>col_types := [TYPE_STRING], col_lens := [512]\<rparr>)"

definition split_key :: "byte \<Rightarrow> byte list" where
  "split_key b = b # replicate 511 0"

definition split_entry :: "byte \<Rightarrow> byte list \<times> Rid" where
  "split_entry b = (split_key b, \<lparr>rid_page_no = 1, rid_slot_no = uint b\<rparr>)"

definition full_node :: IxNode where
  "full_node = \<lparr>next_free_page_no = -1, nd_parent = -1, nd_is_leaf = True, nd_prev_leaf = 1, nd_next_leaf = 1,
     nd_kvs = map split_entry [1, 2, 4, 5, 6, 7]\<rparr>"

lemmas split_ix_defs = split_ixhdr_def update_tot_len_def new_IxFileHdr_def

lemma memcmp_self: "memcmp a a = 0"
  by (induction a) simp_all

lemma split_key_cmp: "key_cmp split_ixhdr (split_key a) (split_key b) = (if a < b then - 1 else if b < a then 1 else 0)"
  by (simp add: key_cmp_def key_cols_def split_ix_defs split_key_def memcmp_self Let_def)

lemma split_hkey: "hkey split_ixhdr (split_key b)"
  by (simp add: hkey_def key_cols_def split_ix_defs split_key_def)

lemma full_node_fits: "node_fits split_ixhdr full_node" "node_fits split_ixhdr (empty_leaf 2)" "get_max_size split_ixhdr = 7"
  by (simp_all add: node_fits_def split_ix_defs full_node_def split_entry_def split_key_def empty_leaf_def IX_MAX_COL_LEN_def ix_order_def cdiv_nonneg
      PAGE_SIZE_def sizeof_IxPageHdr_def get_size_def get_max_size_def rid_ok_def in_int_small_num IX_NO_PAGE_def)

lemmas full_ix_facts = one_leaf_ix_facts[OF full_node_fits(1,2)]

lemma full_ix_index: "ix_index (one_leaf_ix split_ixhdr full_node) (Lf 2 (nd_kvs full_node))"
proof -
  have "ixk.asc split_ixhdr (nd_kvs full_node)"
    by (simp add: ixk.asc_def full_node_def split_entry_def split_key_cmp split_hkey)
  moreover have "root_page split_ixhdr = 2" "last_leaf split_ixhdr = 2" "first_leaf split_ixhdr = 2" by (simp_all add: split_ix_defs)
  moreover have "nd_is_leaf full_node" "nd_parent full_node = IX_NO_PAGE" "nd_next_leaf full_node = 1" "length (nd_kvs full_node) = 6"
    by (simp_all add: full_node_def IX_NO_PAGE_def)
  ultimately show ?thesis
    using full_ix_facts full_node_fits
    by (simp add: ix_index_def ix_tree_def ix_leaves_def ix_end_def get_size_def IX_NO_PAGE_def empty_leaf_def)
qed

theorem ix_insert_refines_witness:
  "\<exists>s' t' p kvs. insert_entry 1 (split_key 3) \<lparr>rid_page_no = 2, rid_slot_no = 3\<rparr> (one_leaf_ix split_ixhdr full_node) = (Inr p, s') \<and> ix_index s' t' \<and>
     (p, kvs) \<in> set (bt_leaves t') \<and> (split_key 3, \<lparr>rid_page_no = 2, rid_slot_no = 3\<rparr>) \<in> set kvs \<and>
     bt_map split_ixhdr t' (split_key 3) = Some \<lparr>rid_page_no = 2, rid_slot_no = 3\<rparr> \<and>
     bt_map split_ixhdr t' (split_key 7) = Some \<lparr>rid_page_no = 1, rid_slot_no = 7\<rparr>"
proof -
  let ?s = "one_leaf_ix split_ixhdr full_node" and ?r = "\<lparr>rid_page_no = 2, rid_slot_no = 3\<rparr>" and ?t = "Lf 2 (nd_kvs full_node)"
  have m: "bt_map split_ixhdr ?t (split_key 3) = None" "bt_map split_ixhdr ?t (split_key 7) = Some \<lparr>rid_page_no = 1, rid_slot_no = 7\<rparr>"
    by (simp_all add: bt_map_def full_node_def split_entry_def split_key_cmp)
  have l: "int (length (split_key 3)) = ix_col_tot_len split_ixhdr" "rid_ok ?r"
    by (simp_all add: split_key_def split_ix_defs rid_ok_def in_int_small_num)
  have g: "\<forall>i \<le> Suc (bt_height ?t). can_grow ?s (fd2pageno (bp_disk (ih_bpm ?s)) (ih_fd ?s) + int i)"
    using full_ix_facts by (auto simp: can_grow_def page_addressable_def INT_MAX_def PAGE_SIZE_def MAX_FD_def)
  have "\<exists>s' t' p. insert_entry 1 (split_key 3) ?r ?s = (Inr p, s') \<and> ix_index s' t' \<and> same_layout split_ixhdr (ih_hdr s') \<and>
      pins (ih_bpm s') = pins (ih_bpm ?s) \<and> (\<exists>kvs. (p, kvs) \<in> set (bt_leaves t') \<and> (split_key 3, ?r) \<in> set kvs) \<and>
      (\<forall>k. hkey split_ixhdr k \<longrightarrow> bt_map split_ixhdr t' k = (if key_cmp split_ixhdr (split_key 3) k = 0 then Some ?r else bt_map split_ixhdr ?t k))"
    using ix_insert_refines[OF full_ix_index, of "split_key 3" 1 ?r, unfolded full_ix_facts(2)] m(1) l g by (simp add: full_ix_facts split_hkey)
  then show ?thesis using m(2) split_hkey split_key_cmp[of 3 3] split_key_cmp[of 3 7] by fastforce
qed

end
