(* ===== verification/Spec2Isabelle.thy ===== *)
theory Spec2Isabelle
  imports Restart OrderBy AstPrinter IxInsert
begin

text \<open>
  A verification development of RMDB, the relational database engine under \<^verbatim>\<open>src/rmdb/src\<close>: a page-based
  storage engine with a write-ahead log, two-phase locking and a small SQL front end.

  \<^bold>\<open>Parts of the program and theories.\<close> Each theory opens with a summary of its own.
  \<^item> \<open>Prelude\<close>: \<^verbatim>\<open>errors.h\<close>, \<^verbatim>\<open>defs.h\<close>, \<^verbatim>\<open>common/config.h\<close>; exceptions as the sum type \<open>res\<close>, stateful operations as
    \<open>em\<close> (a state transformer that returns a result or an exception and always the state reached), C integers
    and byte encodings.
  \<^item> \<open>Datetime\<close>: \<^verbatim>\<open>common/datetime_util.h\<close>. Parsing accepts exactly the printed forms of valid calendar values.
  \<^item> \<open>Bitmap\<close>: \<^verbatim>\<open>record/bitmap.h\<close>. Setting, clearing and searching slot bits.
  \<^item> \<open>Replacer\<close>: \<^verbatim>\<open>replacer/lru_replacer.cpp\<close>; the locale \<open>replacer\<close> is the abstract class, the LRU list with its
    hash index interprets it as a queue of evictable frames.
  \<^item> \<open>Disk\<close>: \<^verbatim>\<open>storage/disk_manager.cpp\<close> over a model of the POSIX calls it uses (files as byte lists,
    descriptors with an offset). Pages read back as written; the open-file tables stay consistent.
  \<^item> \<open>BufferPool\<close>: \<^verbatim>\<open>storage/page.h\<close> and \<^verbatim>\<open>storage/buffer_pool_manager.cpp\<close>. \<open>page_view\<close> is the content of a page whether
    it is in a frame or on disk; fetching, evicting and flushing keep it. The locale \<open>page_store\<close> is the
    interface the record and index files use.
  \<^item> \<open>RmFile\<close>: \<^verbatim>\<open>record/\<close>. Table files down to the bytes of slots, bitmaps and headers; \<open>rm_table\<close> is the table as a
    map from record ids to records, and inserting, deleting, updating and scanning refine map operations
    (locale \<open>record_store\<close>).
  \<^item> \<open>LogManager\<close>: \<^verbatim>\<open>recovery/log_manager.h\<close> and \<^verbatim>\<open>.cpp\<close>. The byte format of all log records, the log buffer and
    its flushing (locale \<open>wal\<close>).
  \<^item> \<open>Meta\<close>: \<^verbatim>\<open>common/common.h\<close>, \<^verbatim>\<open>system/sm_meta.h\<close>, \<^verbatim>\<open>execution/executor_utils.h\<close>: values, conditions, the catalogue and
    its text format, the key comparison of indexes.
  \<^item> \<open>Lock\<close>: \<^verbatim>\<open>transaction/txn_defs.h\<close>, \<^verbatim>\<open>transaction/transaction.h\<close> and the lock manager. Runs of lock and unlock
    calls of all transactions are the step relation \<open>lock_reach\<close>.
  \<^item> \<open>IxNode\<close>, \<open>IxIndex\<close>: \<^verbatim>\<open>index/\<close>. Nodes as sorted arrays inside pages, and the B+ tree over the buffer pool with
    index files and leaf scans. Nodes refine maps (locale \<open>key_order\<close>); searching and range scans are proved against
    a tree read off the pages (\<open>bt_rep\<close>, \<open>bt_ord\<close>).
  \<^item> \<open>IxUpdate\<close>: inserting into and deleting from the B+ tree where no node has to be split, merged or refilled. \<open>ix_index\<close> is the
    invariant of an index in use; deletion keeps it and refines the update of a map.
  \<^item> \<open>IxSim\<close>, \<open>IxSplit\<close>, \<open>IxCtx\<close>, \<open>IxParent\<close>, \<open>IxInsert\<close>: insertion with splits. \<open>IxSim\<close> turns a run over the pool into steps on the
    pages held and the nodes; \<open>IxSplit\<close> is \<^verbatim>\<open>split\<close>, \<^verbatim>\<open>maintain_child\<close> and the new root in these terms; \<open>IxCtx\<close> is a tree with a hole,
    the path \<^verbatim>\<open>insert_into_parent\<close> climbs; \<open>IxParent\<close> is that climb, by induction on the path; \<open>IxInsert\<close> is \<^verbatim>\<open>insert_entry\<close>, which
    keeps \<open>ix_index\<close> and refines the update of a map whether or not nodes split.
  \<^item> \<open>Analyze\<close>: \<^verbatim>\<open>parser/ast.h\<close> and \<^verbatim>\<open>analyze/\<close>. Syntax trees, and the analysis that resolves names and converts
    literals; analysed conditions are well typed.
  \<^item> \<open>AstPrinter\<close>: \<^verbatim>\<open>parser/ast_printer.h\<close>. The text of a syntax tree, and which trees are printed to the end.
  \<^item> \<open>Planner\<close>: \<^verbatim>\<open>optimizer/\<close>. Plans, index choice, the join tree and its row estimates; every condition of a select
    is tested exactly once, where its columns are.
  \<^item> \<open>Printer\<close>: \<^verbatim>\<open>record_printer.h\<close> and the output of a select. A reply never leaves the send buffer.
  \<^item> \<open>System\<close>: \<^verbatim>\<open>system/sm_manager.cpp\<close> and the state \<open>Sys\<close> of a running database, which combines all the managers.
  \<^item> \<open>Txn\<close>: \<^verbatim>\<open>transaction/transaction_manager.cpp\<close>. Begin, commit and abort; an abort restores the table.
  \<^item> \<open>Recovery\<close>: \<^verbatim>\<open>recovery/log_recovery.cpp\<close>. Analysis of the log, redo, undo and rebuilding of indexes.
  \<^item> \<open>Executors\<close>: the executors of \<^verbatim>\<open>execution/\<close> that yield tuples: scans, joins, projection, sort and aggregation.
  \<^item> \<open>Portal\<close>: the executors that change tables, \<^verbatim>\<open>portal.h\<close>, \<^verbatim>\<open>execution/execution_manager.cpp\<close> and, from \<^verbatim>\<open>rmdb.cpp\<close>, the
    handling of one request and the start of the server with recovery.
  \<^item> \<open>ReadPath\<close>: reading tables through the pool. While scans hold their pages, fetching, reading records and advancing
    scans keep every table; the pages that stay pinned are accounted for.
  \<^item> \<open>Query\<close>: what queries return. A scan yields the selected records in record-id order. The locale \<open>join_inputs\<close> (with \<open>hash_inputs\<close> for
    the hash probe) is what a join expects of its inputs; two scans over one pool interpret it, and the join executor yields
    the pairs that satisfy the conditions, by hash probe or block nested loop.
  \<^item> \<open>OrderBy\<close>: ORDER BY and LIMIT over any plan.
  \<^item> \<open>Restart\<close>: what the analysis of recovery finds in a log file: exactly the records the log manager wrote; on a torn log
    it does not end.

  \<^bold>\<open>State.\<close> Each class is a record with the members as fields; pointers to the shared managers become
  components of the state (\<open>RmState\<close> and \<open>IxState\<close> contain the pool, the pool contains the disk). Handles to
  pages are frame numbers, so that an access after a release reads whatever the frame then holds. Locked
  operations run atomically, as their latch makes them.

  \<^bold>\<open>Bounds and fuel.\<close> C integers wrap or are shown not to overflow. Loops over page numbers stored in pages
  take a step bound and end with \<open>OutOfFuel\<close> if it is too small; the theorems hold for every bound above the
  height of the tree, the number of entries scanned or, for a join, \<open>join_fuel\<close> of the sizes of its inputs, so the loops end. Failed \<^verbatim>\<open>assert\<close>s are \<open>AssertFailure\<close>, accesses
  outside an object \<open>UndefinedBehaviour\<close>.

  \<^bold>\<open>Not modelled.\<close> The generated lexer and parser, sockets and threads of the server, the client, and the vendored
  test framework; thread scheduling inside latched operations; operating system errors the code does not test for.
\<close>

end
